(* ===== verification/Prelude.thy ===== *)
theory Prelude
  imports "HOL-Library.Word" "HOL-Library.Signed_Division"
begin

text \<open>
  Shared vocabulary of the development: the machine types of the C++ code, the conversions
  that its implicit integer casts perform, and generic facts on lists and finite sets of
  indexes that several components use.

  Conventions.
  \<^item> A \<open>size_t\<close> that counts or indexes is a \<open>nat\<close>; an \<open>int64_t\<close> offset or length is an
    \<open>int\<close>. Where the code subtracts unsigned values that may pass zero, or stores a value in
    a narrower type, the conversion is written out with the functions below or the value is
    a word.
  \<^item> A raw \<open>unsigned char*\<close> buffer is a list of bytes. Reading outside the allocation is
    undefined in C++; \<open>xs ! i\<close> is unspecified there too, so no fact about such a read can be
    proved. Operations that would reach such a read on inputs the program can produce return
    \<open>None\<close> instead.
  \<^item> A constant is named after the C++ entity: \<open>Class_method\<close> for a member function and
    \<open>namespace_function\<close> for a free one.
\<close>

unbundle bit_operations_syntax

type_synonym byte = "8 word"
type_synonym u16 = "16 word"
type_synonym u32 = "32 word"

subsection \<open>Integer conversions\<close>

text \<open>Conversion of a mathematical integer to \<open>size_t\<close> (64 bit, modular).\<close>

definition to_size :: "int \<Rightarrow> nat" where
  "to_size x = nat (x mod 2 ^ 64)"

text \<open>Narrowing to \<open>int32_t\<close> (two's complement).\<close>

definition to_int32 :: "int \<Rightarrow> int" where
  "to_int32 x = signed_take_bit 31 x"

lemma to_size_nonneg [simp]: "0 \<le> x \<Longrightarrow> x < 2 ^ 64 \<Longrightarrow> to_size x = nat x"
  by (simp add: to_size_def)

lemma to_int32_id [simp]: "- (2 ^ 31) \<le> x \<Longrightarrow> x < 2 ^ 31 \<Longrightarrow> to_int32 x = x"
  by (simp add: to_int32_def signed_take_bit_int_eq_self)

subsection \<open>Collections of facts\<close>

named_theorems field_defs \<open>definitions of the setters of a record-based component\<close>
named_theorems frame_simps \<open>fields an operation leaves unchanged\<close>
named_theorems inv_intros \<open>preservation of a component's invariant by its operations\<close>

subsection \<open>Lists and index sets\<close>

lemma sum_list_upt: "sum_list (map f [a..<b]) = (\<Sum>i = a..<b. f i)"
  by (simp add: interv_sum_list_conv_sum_set_nat)

lemma length_filter_upt: "length (filter P [0..<n]) = card {i. i < n \<and> P i}"
proof -
  have "length (filter P [0..<n]) = card (set (filter P [0..<n]))"
    by (simp add: distinct_card del: set_filter)
  also have "set (filter P [0..<n]) = {i. i < n \<and> P i}"
    by auto
  finally show ?thesis .
qed

lemma card_Suc_index:
  "card {i. i < Suc n \<and> P i} = card {i. i < n \<and> P i} + of_bool (P n)"
proof -
  have step: "{i. i < Suc n \<and> P i} = (if P n then insert n {i. i < n \<and> P i} else {i. i < n \<and> P i})"
    by (auto simp: less_Suc_eq)
  show ?thesis unfolding step by simp
qed

lemma card_index_add:
  "card {i. i < a + b \<and> P i} = card {i. i < a \<and> P i} + card {k. k < b \<and> P (a + k)}" for a b :: nat
proof (induction b)
  case (Suc b)
  then show ?case by (simp add: card_Suc_index)
qed simp

lemma card_index_rev:
  "card {k. k < n \<and> P (n - 1 - k)} = card {k. k < n \<and> P k}" for n :: nat
  by (rule card_bij_eq [where f = "\<lambda>k. n - 1 - k" and g = "\<lambda>k. n - 1 - k"])
    (auto simp: inj_on_def)

lemma find_upt_Some_iff:
  "find P [0..<n] = Some i \<longleftrightarrow> i < n \<and> P i \<and> (\<forall>j < i. \<not> P j)"
  by (auto simp: find_Some_iff)

lemma find_upt_None_iff: "find P [0..<n] = None \<longleftrightarrow> (\<forall>i < n. \<not> P i)"
  by (auto simp: find_None_iff)

end
