(* ===== verification/Bitfield.thy ===== *)
theory Bitfield
  imports Prelude
begin

text \<open>
  The \<open>bitfield\<close> namespace (\<open>bitfield.h\<close>, \<open>bitfield.cc\<close>) and the array expression templates
  of \<open>array_fun.h\<close>: testing, counting and searching bits of a byte buffer, most significant
  bit first. The lemmas reduce every operation to the set of indexes whose bit is set, which
  is what the other components reason about.
\<close>

unbundle bit_operations_syntax

subsection \<open>Array expressions\<close>

text \<open>
  An \<open>Array\<close> expression only offers \<open>operator[]\<close>: it is a function from index to byte, and the
  operators build pointwise expressions.
\<close>

type_synonym byte_array = "nat \<Rightarrow> byte"

definition array :: "byte list \<Rightarrow> byte_array" where
  "array bs = (\<lambda>i. bs ! i)"

definition array_not :: "byte_array \<Rightarrow> byte_array" where
  "array_not a = (\<lambda>i. NOT (a i))"

definition array_and :: "byte_array \<Rightarrow> byte_array \<Rightarrow> byte_array" where
  "array_and a b = (\<lambda>i. a i AND b i)"

definition array_or :: "byte_array \<Rightarrow> byte_array \<Rightarrow> byte_array" where
  "array_or a b = (\<lambda>i. a i OR b i)"

lemmas array_defs = array_def array_not_def array_and_def array_or_def

subsection \<open>Operations\<close>

definition bitfield_lastByteMask :: "nat \<Rightarrow> byte" where
  "bitfield_lastByteMask nbits =
     (if nbits = 0 then 0
      else let s = nbits mod 8 in
        if s = 0 then 0xff else ucast (signed_drop_bit s (- 256 :: u32)))"

definition bitfield_test :: "byte_array \<Rightarrow> nat \<Rightarrow> nat \<Rightarrow> bool" where
  "bitfield_test bf nbits index =
     (let mask = drop_bit (index mod 8) (128 :: byte) in bf (index div 8) AND mask \<noteq> 0)"

definition bitfield_cntbits :: "nat list" where
  "bitfield_cntbits =
    [0, 1, 1, 2, 1, 2, 2, 3, 1, 2, 2, 3, 2, 3, 3, 4, 1, 2, 2, 3, 2, 3, 3, 4,
     2, 3, 3, 4, 3, 4, 4, 5, 1, 2, 2, 3, 2, 3, 3, 4, 2, 3, 3, 4, 3, 4, 4, 5,
     2, 3, 3, 4, 3, 4, 4, 5, 3, 4, 4, 5, 4, 5, 5, 6, 1, 2, 2, 3, 2, 3, 3, 4,
     2, 3, 3, 4, 3, 4, 4, 5, 2, 3, 3, 4, 3, 4, 4, 5, 3, 4, 4, 5, 4, 5, 5, 6,
     2, 3, 3, 4, 3, 4, 4, 5, 3, 4, 4, 5, 4, 5, 5, 6, 3, 4, 4, 5, 4, 5, 5, 6,
     4, 5, 5, 6, 5, 6, 6, 7, 1, 2, 2, 3, 2, 3, 3, 4, 2, 3, 3, 4, 3, 4, 4, 5,
     2, 3, 3, 4, 3, 4, 4, 5, 3, 4, 4, 5, 4, 5, 5, 6, 2, 3, 3, 4, 3, 4, 4, 5,
     3, 4, 4, 5, 4, 5, 5, 6, 3, 4, 4, 5, 4, 5, 5, 6, 4, 5, 5, 6, 5, 6, 6, 7,
     2, 3, 3, 4, 3, 4, 4, 5, 3, 4, 4, 5, 4, 5, 5, 6, 3, 4, 4, 5, 4, 5, 5, 6,
     4, 5, 5, 6, 5, 6, 6, 7, 3, 4, 4, 5, 4, 5, 5, 6, 4, 5, 5, 6, 5, 6, 6, 7,
     4, 5, 5, 6, 5, 6, 6, 7, 5, 6, 6, 7, 6, 7, 7, 8]"

definition bitfield_countBit32 :: "u32 \<Rightarrow> nat" where
  "bitfield_countBit32 n =
     bitfield_cntbits ! unat (n AND 0xff)
     + bitfield_cntbits ! unat (drop_bit 8 n AND 0xff)
     + bitfield_cntbits ! unat (drop_bit 16 n AND 0xff)
     + bitfield_cntbits ! unat (drop_bit 24 n AND 0xff)"

text \<open>The \<open>memcpy\<close> of four bytes into a \<open>uint32_t\<close> on a little-endian host.\<close>

definition load_u32 :: "byte list \<Rightarrow> nat \<Rightarrow> u32" where
  "load_u32 bs i =
     ucast (bs ! i) OR push_bit 8 (ucast (bs ! (i + 1)))
     OR push_bit 16 (ucast (bs ! (i + 2))) OR push_bit 24 (ucast (bs ! (i + 3)))"

definition bitfield_countSetBit :: "byte list \<Rightarrow> nat \<Rightarrow> nat" where
  "bitfield_countSetBit bf nbits =
     (if nbits = 0 then 0
      else
        let len0 = (nbits + 7) div 8;
            len = (if nbits mod 32 \<noteq> 0 then len0 - 1 else len0);
            count0 = (if nbits mod 32 \<noteq> 0
                      then bitfield_countBit32 (ucast (bf ! len AND bitfield_lastByteMask nbits))
                      else 0);
            to = len div 4
        in count0
           + sum_list (map (\<lambda>i. bitfield_countBit32 (load_u32 bf (i * 4))) [0..<to])
           + sum_list (map (\<lambda>i. bitfield_countBit32 (ucast (bf ! i))) [len - len mod 4..<len]))"

definition bitfield_countSetBitSlow :: "byte_array \<Rightarrow> nat \<Rightarrow> nat" where
  "bitfield_countSetBitSlow bf nbits =
     (if nbits = 0 then 0
      else
        let to = (nbits + 7) div 8 in
          (if to > 1 then sum_list (map (\<lambda>i. bitfield_cntbits ! unat (bf i)) [0..<to - 1]) else 0)
          + bitfield_cntbits ! unat (bf (to - 1) AND bitfield_lastByteMask nbits))"

definition bitfield_flipBit :: "byte list \<Rightarrow> nat \<Rightarrow> byte list" where
  "bitfield_flipBit data bitIndex =
     (let byteIndex = bitIndex div 8; mask = drop_bit (bitIndex mod 8) (128 :: byte)
      in data[byteIndex := data ! byteIndex XOR mask])"

definition bitfield_getFirstSetBitIndex :: "byte_array \<Rightarrow> nat \<Rightarrow> nat option" where
  "bitfield_getFirstSetBitIndex bf nbits = find (bitfield_test bf nbits) [0..<nbits]"

text \<open>The loop of \<open>getFirstNSetBitIndex\<close>: \<open>n\<close> is the number of indexes still wanted.\<close>

fun getFirstN_loop :: "(nat \<Rightarrow> bool) \<Rightarrow> nat list \<Rightarrow> nat \<Rightarrow> nat list" where
  "getFirstN_loop t [] n = []"
| "getFirstN_loop t (i # is) n =
     (if t i then i # (if n - 1 = 0 then [] else getFirstN_loop t is (n - 1))
      else getFirstN_loop t is n)"

definition bitfield_getFirstNSetBitIndex :: "nat \<Rightarrow> byte_array \<Rightarrow> nat \<Rightarrow> nat list" where
  "bitfield_getFirstNSetBitIndex n bf nbits =
     (if n = 0 then [] else getFirstN_loop (bitfield_test bf nbits) [0..<nbits] n)"

subsection \<open>Bits\<close>

text \<open>The indexes whose bit is set, the abstraction of an array expression of \<open>n\<close> bits.\<close>

definition bit_set :: "byte_array \<Rightarrow> nat \<Rightarrow> nat set" where
  "bit_set a n = {i. i < n \<and> bitfield_test a n i}"

text \<open>The bound given to \<open>test\<close> is only asserted, so any bound describes the set.\<close>

lemma bit_set_any: "bit_set a n = {i. i < n \<and> bitfield_test a w i}"
  by (simp add: bit_set_def bitfield_test_def)

lemma finite_bit_set [simp]: "finite (bit_set a n)"
  by (simp add: bit_set_def)

lemma bit_set_less: "i \<in> bit_set a n \<Longrightarrow> i < n"
  by (simp add: bit_set_def)

lemma bit_128_shift: "k < 8 \<Longrightarrow> drop_bit k (128 :: byte) = 2 ^ (7 - k)"
proof -
  assume k: "k < 8"
  have gen: "drop_bit k (2 ^ m :: byte) = 2 ^ (m - k)" if "k \<le> m" "m < 8" for m
    by (rule bit_word_eqI) (use that in \<open>auto simp: bit_simps\<close>)
  have "drop_bit k (2 ^ 7 :: byte) = 2 ^ (7 - k)" by (rule gen) (use k in auto)
  then show ?thesis by simp
qed

lemma bitfield_test_bit: "bitfield_test bf n i = bit (bf (i div 8)) (7 - i mod 8)"
proof -
  have "(drop_bit (i mod 8) (128 :: byte)) = 2 ^ (7 - i mod 8)"
    by (rule bit_128_shift) simp
  then show ?thesis
    by (simp add: bitfield_test_def Let_def and_exp_eq_0_iff_not_bit)
qed

lemma bit_minus_256: "bit (- 256 :: u32) j = (8 \<le> j \<and> j < 32)"
proof -
  have "(- 256 :: u32) = NOT (mask 8)" by (simp add: not_eq_complement mask_eq_exp_minus_1)
  then show ?thesis by (simp only: bit_simps) auto
qed

lemma lastByteMask_bit:
  "k < 8 \<Longrightarrow> bit (bitfield_lastByteMask n) k = (0 < n \<and> (n mod 8 = 0 \<or> 7 - k < n mod 8))"
proof -
  assume k: "k < 8"
  have b255: "bit (255 :: byte) k"
  proof -
    have "(255 :: byte) = mask 8" by (simp add: mask_eq_exp_minus_1)
    then show ?thesis using k by (simp only: bit_simps) simp
  qed
  have "n mod 8 < 8" by simp
  moreover have "bit (signed_drop_bit s (- 256 :: u32)) k = (7 - k < s)" if "s < 8" for s
    using that k by (simp only: bit_signed_drop_bit_iff bit_minus_256) auto
  ultimately show ?thesis using k b255
    by (auto simp: bitfield_lastByteMask_def Let_def bit_ucast_iff)
qed

definition popcount :: "byte \<Rightarrow> nat" where
  "popcount b = card {k. k < 8 \<and> bit b k}"

definition cnt_step :: "nat list \<Rightarrow> nat list" where
  "cnt_step xs = xs @ map Suc xs"

lemma cntbits_steps:
  "bitfield_cntbits = cnt_step (cnt_step (cnt_step (cnt_step (cnt_step (cnt_step (cnt_step (cnt_step [0])))))))"
  by (simp add: bitfield_cntbits_def cnt_step_def)

definition cnt_ok :: "nat \<Rightarrow> nat list \<Rightarrow> bool" where
  "cnt_ok k xs \<longleftrightarrow> length xs = 2 ^ k \<and> (\<forall>n < 2 ^ k. xs ! n = card {j. j < k \<and> bit n j})"

lemma cnt_ok_step: "cnt_ok k xs \<Longrightarrow> cnt_ok (Suc k) (cnt_step xs)"
proof -
  assume ok: "cnt_ok k xs"
  have "cnt_step xs ! n = card {j. j < Suc k \<and> bit n j}" if n: "n < 2 ^ Suc k" for n
  proof (cases "n < 2 ^ k")
    case True
    then have "\<not> bit n k" by (simp add: bit_iff_odd)
    with True ok show ?thesis
      by (simp add: cnt_ok_def cnt_step_def nth_append card_Suc_index)
  next
    case False
    define m where "m = n - 2 ^ k"
    have m: "m < 2 ^ k" "n = m + 2 ^ k" using n False by (auto simp: m_def)
    have "n div 2 ^ k = 1" using m by (simp add: div_add_self2)
    then have nk: "bit n k" by (simp add: bit_iff_odd)
    have low: "bit n j = bit m j" if "j < k" for j
    proof -
      have "n mod 2 ^ k = m" using m by simp
      then have "take_bit k n = m" by (simp add: take_bit_eq_mod)
      then show ?thesis using that by (metis bit_take_bit_iff)
    qed
    have "{j. j < k \<and> bit n j} = {j. j < k \<and> bit m j}" using low by auto
    moreover have "cnt_step xs ! n = Suc (xs ! m)"
      using ok m(1) False by (simp add: cnt_ok_def cnt_step_def nth_append m_def)
    moreover have "xs ! m = card {j. j < k \<and> bit m j}" using ok m(1) by (simp add: cnt_ok_def)
    ultimately show ?thesis using nk by (simp add: card_Suc_index)
  qed
  with ok show ?thesis by (simp add: cnt_ok_def cnt_step_def)
qed

lemma cntbits_popcount: "bitfield_cntbits ! unat b = popcount b"
proof -
  have c0: "cnt_ok 0 [0]" by (simp add: cnt_ok_def)
  have "cnt_ok (Suc (Suc (Suc (Suc (Suc (Suc (Suc (Suc 0)))))))) bitfield_cntbits"
    by (subst cntbits_steps) (rule cnt_ok_step cnt_ok_step c0)+
  moreover have "Suc (Suc (Suc (Suc (Suc (Suc (Suc (Suc 0))))))) = 8" by simp
  ultimately have "cnt_ok 8 bitfield_cntbits" by (simp only:)
  moreover have "unat b < 2 ^ 8" using unsigned_less [of b] by simp
  moreover have "bit (unat b) j = bit b j" for j by (simp add: bit_unsigned_iff)
  ultimately show ?thesis by (simp add: cnt_ok_def popcount_def)
qed

subsection \<open>Counting\<close>

text \<open>
  Both counting routines return the number of set bits among the first \<open>n\<close>: the table driven
  byte loop, and the four-bytes-at-a-time loop with its masked tail.
\<close>

lemma bitfield_test_block:
  assumes "k < 8"
  shows "bitfield_test a n (8 * m + k) = bit (a m) (7 - k)"
proof -
  have "(8 * m + k) div 8 = m" "(8 * m + k) mod 8 = k" using assms by auto
  then show ?thesis by (simp only: bitfield_test_bit)
qed

lemma popcount_rev: "popcount b = card {k. k < 8 \<and> bit b (7 - k)}"
  using card_index_rev [of 8 "bit b"] by (simp add: popcount_def)

lemma card_bits_block:
  "card {i. i < 8 * Suc m \<and> bitfield_test a n i} = card {i. i < 8 * m \<and> bitfield_test a n i} + popcount (a m)"
proof -
  have "{k. k < 8 \<and> bitfield_test a n (8 * m + k)} = {k. k < 8 \<and> bit (a m) (7 - k)}"
    using bitfield_test_block by blast
  then have "card {i. i < 8 * m + 8 \<and> bitfield_test a n i} = card {i. i < 8 * m \<and> bitfield_test a n i} + popcount (a m)"
    unfolding card_index_add popcount_rev by simp
  then show ?thesis by (simp add: add.commute)
qed

lemma card_bits_bytes:
  "card {i. i < 8 * m \<and> bitfield_test a n i} = (\<Sum>j<m. popcount (a j))"
  by (induction m) (simp_all add: card_bits_block del: mult_Suc_right)

lemma popcount_masked:
  assumes "0 < n"
  shows "popcount (b AND bitfield_lastByteMask n)
    = card {k. k < (if n mod 8 = 0 then 8 else n mod 8) \<and> bit b (7 - k)}"
proof -
  have *: "bit (b AND bitfield_lastByteMask n) (7 - k) = (bit b (7 - k) \<and> (n mod 8 = 0 \<or> k < n mod 8))"
    if "k < 8" for k
    using that assms lastByteMask_bit [of "7 - k" n] by (auto simp: bit_and_iff)
  have "n mod 8 < 8" by simp
  then have "{k. k < 8 \<and> bit (b AND bitfield_lastByteMask n) (7 - k)}
    = {k. k < (if n mod 8 = 0 then 8 else n mod 8) \<and> bit b (7 - k)}"
    using * by auto
  then show ?thesis by (simp only: popcount_rev)
qed

lemma bitfield_test_nbits: "bitfield_test a n = bitfield_test a m"
  by (simp add: bitfield_test_def fun_eq_iff)

lemma card_bits_masked:
  assumes n: "0 < n"
  shows "card {i. i < n \<and> bitfield_test a w i} =
    (\<Sum>j < (n + 7) div 8 - 1. popcount (a j)) + popcount (a ((n + 7) div 8 - 1) AND bitfield_lastByteMask n)"
proof -
  define m where "m = (n + 7) div 8 - 1"
  define r where "r = (if n mod 8 = 0 then 8 else n mod 8)"
  obtain q k where qk: "n = 8 * q + k" "k < 8" "n mod 8 = k"
    by (metis mod_less_divisor mult_div_mod_eq zero_less_numeral)
  have "(n + 7) div 8 = (if k = 0 then q else q + 1)"
    by (rule div_nat_eqI) (use qk in auto)
  then have nm: "n = 8 * m + r" using n qk unfolding m_def r_def by auto
  have "r \<le> 8" by (simp add: r_def less_imp_le)
  then have "{k. k < r \<and> bitfield_test a w (8 * m + k)} = {k. k < r \<and> bit (a m) (7 - k)}"
    using bitfield_test_block by (metis order_less_le_trans)
  then have "card {i. i < 8 * m + r \<and> bitfield_test a w i}
      = (\<Sum>j<m. popcount (a j)) + card {k. k < r \<and> bit (a m) (7 - k)}"
    by (simp only: card_index_add card_bits_bytes)
  then show ?thesis
    unfolding nm [symmetric] by (simp only: popcount_masked [OF n] m_def r_def)
qed

lemma countSetBitSlow_card:
  "bitfield_countSetBitSlow a n = card {i. i < n \<and> bitfield_test a n i}"
proof (cases "n = 0")
  case False
  then show ?thesis
    by (cases "(n + 7) div 8 > 1")
      (simp_all add: bitfield_countSetBitSlow_def Let_def cntbits_popcount card_bits_masked
      sum_list_upt atLeast0LessThan)
qed (simp add: bitfield_countSetBitSlow_def)

lemma countBit32_parts:
  "bitfield_countBit32 n = popcount (ucast n) + popcount (ucast (drop_bit 8 n))
     + popcount (ucast (drop_bit 16 n)) + popcount (ucast (drop_bit 24 n))"
proof -
  have "unat (w AND 0xff) = unat (ucast w :: byte)" for w :: u32
  proof -
    have "w AND 0xff = take_bit 8 w" by (simp add: take_bit_eq_mask mask_eq_exp_minus_1)
    then show ?thesis by (simp add: unsigned_ucast_eq unsigned_take_bit_eq)
  qed
  then show ?thesis by (simp only: bitfield_countBit32_def cntbits_popcount)
qed

lemma popcount_0 [simp]: "popcount 0 = 0"
  by (simp add: popcount_def)

lemma byte_bit_high [simp]: "8 \<le> j \<Longrightarrow> \<not> bit b j" for b :: byte
  using bit_imp_le_length [of b j] by auto

lemma countBit32_byte: "bitfield_countBit32 (ucast b) = popcount b" for b :: byte
proof -
  have hi: "(ucast (drop_bit k (ucast b :: u32)) :: byte) = 0" if "8 \<le> k" for k
    by (rule bit_word_eqI) (use that in \<open>auto simp: bit_simps\<close>)
  have "(ucast (ucast b :: u32) :: byte) = b"
    by (rule bit_word_eqI) (auto simp: bit_simps)
  then show ?thesis by (simp add: countBit32_parts hi)
qed

lemma countBit32_load:
  "bitfield_countBit32 (load_u32 bs i) =
     popcount (bs ! i) + popcount (bs ! (i + 1)) + popcount (bs ! (i + 2)) + popcount (bs ! (i + 3))"
proof -
  have "(ucast (load_u32 bs i) :: byte) = bs ! i"
    by (rule bit_word_eqI) (auto simp: load_u32_def bit_simps)
  moreover have "(ucast (drop_bit 8 (load_u32 bs i)) :: byte) = bs ! (i + 1)"
    by (rule bit_word_eqI) (auto simp: load_u32_def bit_simps)
  moreover have "(ucast (drop_bit 16 (load_u32 bs i)) :: byte) = bs ! (i + 2)"
    by (rule bit_word_eqI) (auto simp: load_u32_def bit_simps)
  moreover have "(ucast (drop_bit 24 (load_u32 bs i)) :: byte) = bs ! (i + 3)"
    by (rule bit_word_eqI) (auto simp: load_u32_def bit_simps)
  ultimately show ?thesis by (simp only: countBit32_parts)
qed

lemma sum_words:
  "(\<Sum>i = 0..<m. bitfield_countBit32 (load_u32 bs (i * 4))) = (\<Sum>j < 4 * m. popcount (bs ! j))"
proof (induction m)
  case (Suc m)
  have "4 * Suc m = Suc (Suc (Suc (Suc (4 * m))))" by simp
  then have "(\<Sum>j < 4 * Suc m. popcount (bs ! j)) = (\<Sum>j < Suc (Suc (Suc (Suc (4 * m)))). popcount (bs ! j))"
    by (simp only:)
  also have "\<dots> = (\<Sum>j < 4 * m. popcount (bs ! j)) + bitfield_countBit32 (load_u32 bs (m * 4))"
    by (simp add: countBit32_load mult.commute numeral_3_eq_3)
  finally show ?case using Suc by simp
qed simp

lemma sum_split_words:
  "(\<Sum>i = 0..<len div 4. bitfield_countBit32 (load_u32 bs (i * 4)))
   + (\<Sum>i = len - len mod 4..<len. bitfield_countBit32 (ucast (bs ! i))) = (\<Sum>j < len. popcount (bs ! j))"
proof -
  have "4 * (len div 4) = len - len mod 4" by (simp add: minus_mod_eq_mult_div)
  moreover have "{..<len} = {..<len - len mod 4} \<union> {len - len mod 4..<len}" by auto
  ultimately show ?thesis
    by (simp add: sum_words countBit32_byte sum.union_disjoint ivl_disj_int)
qed

lemma countSetBit_card:
  "bitfield_countSetBit bs n = card {i. i < n \<and> bitfield_test (array bs) n i}"
proof (cases "n = 0")
  case True
  then show ?thesis by (simp add: bitfield_countSetBit_def)
next
  case False
  define m where "m = (n + 7) div 8"
  show ?thesis
  proof (cases "n mod 32 \<noteq> 0")
    case nz: True
    have "bitfield_countSetBit bs n = popcount (bs ! (m - 1) AND bitfield_lastByteMask n) + (\<Sum>j < m - 1. popcount (bs ! j))"
      unfolding sum_split_words [symmetric]
      by (simp only: bitfield_countSetBit_def Let_def m_def nz False if_True if_False
          not_False_eq_True countBit32_byte sum_list_upt add.assoc)
    then show ?thesis using False by (simp add: card_bits_masked m_def array_def)
  next
    case z: False
    then have "8 * m = n" by (auto simp: m_def)
    moreover have "bitfield_countSetBit bs n = (\<Sum>j < m. popcount (bs ! j))"
      unfolding sum_split_words [symmetric]
      by (simp only: bitfield_countSetBit_def Let_def m_def z False if_False
          countBit32_byte sum_list_upt add_0)
    ultimately show ?thesis
      using card_bits_bytes [of m "array bs" n] by (simp add: array_def)
  qed
qed

lemma bit_set_count:
  "bitfield_countSetBit bs n = card (bit_set (array bs) n)"
  "bitfield_countSetBitSlow a n = card (bit_set a n)"
  by (simp_all add: bit_set_def countSetBit_card countSetBitSlow_card)

subsection \<open>Bitwise operators and updates on the set of indexes\<close>

lemma byte_pos [simp]: "7 - i mod 8 < (8 :: nat)" for i :: nat
  by simp

lemma test_array_ops [simp]:
  "bitfield_test (array_not a) n i \<longleftrightarrow> \<not> bitfield_test a n i"
  "bitfield_test (array_and a b) n i \<longleftrightarrow> bitfield_test a n i \<and> bitfield_test b n i"
  "bitfield_test (array_or a b) n i \<longleftrightarrow> bitfield_test a n i \<or> bitfield_test b n i"
  by (simp_all add: bitfield_test_bit array_not_def array_and_def array_or_def
      bit_not_iff bit_and_iff bit_or_iff)

lemma test_index_eq:
  "i div 8 = j div 8 \<Longrightarrow> (7 - i mod 8 = 7 - j mod 8) = (i = j)" for i j :: nat
proof -
  assume d: "i div 8 = j div 8"
  have "i mod 8 < 8" "j mod 8 < 8" by simp_all
  then have "(7 - i mod 8 = 7 - j mod 8) = (i mod 8 = j mod 8)" by linarith
  also have "\<dots> = (i = j)" using d by (metis mult_div_mod_eq)
  finally show ?thesis .
qed

text \<open>Updating one byte through a single-bit mask changes the one bit.\<close>

lemma bit_mask_iff: "bit (drop_bit (i mod 8) (128 :: byte)) k = (k = 7 - i mod 8)" for i :: nat
proof -
  have "drop_bit (i mod 8) (128 :: byte) = 2 ^ (7 - i mod 8)"
    by (rule bit_128_shift) simp
  then show ?thesis by (auto simp: bit_exp_iff)
qed

lemma test_update:
  assumes "i div 8 < length bs"
    and f: "\<And>k. k < 8 \<Longrightarrow> bit (f (bs ! (i div 8))) k = (if k = 7 - i mod 8 then v else bit (bs ! (i div 8)) k)"
  shows "bitfield_test (array (bs[i div 8 := f (bs ! (i div 8))])) n j
    = (if j = i then v else bitfield_test (array bs) n j)"
proof (cases "j div 8 = i div 8")
  case True
  then have "(7 - j mod 8 = 7 - i mod 8) = (j = i)" by (rule test_index_eq)
  with True assms show ?thesis
    by (simp add: bitfield_test_bit array_def)
next
  case False
  then show ?thesis by (auto simp: bitfield_test_bit array_def)
qed

lemma test_set_bit:
  "i div 8 < length bs \<Longrightarrow>
   bitfield_test (array (bs[i div 8 := bs ! (i div 8) OR drop_bit (i mod 8) 128])) n j
    = (j = i \<or> bitfield_test (array bs) n j)"
  by (subst test_update [where v = True and f = "\<lambda>b. b OR drop_bit (i mod 8) 128"])
    (auto simp: bit_or_iff bit_mask_iff)

lemma test_clear_bit:
  "i div 8 < length bs \<Longrightarrow>
   bitfield_test (array (bs[i div 8 := bs ! (i div 8) AND NOT (drop_bit (i mod 8) 128)])) n j
    = (j \<noteq> i \<and> bitfield_test (array bs) n j)"
  by (subst test_update [where v = False and f = "\<lambda>b. b AND NOT (drop_bit (i mod 8) 128)"])
    (auto simp: bit_and_iff bit_not_iff bit_mask_iff)

lemma test_flipBit:
  assumes "i div 8 < length bs"
  shows "bitfield_test (array (bitfield_flipBit bs i)) n j
    = (if j = i then \<not> bitfield_test (array bs) n i else bitfield_test (array bs) n j)"
proof -
  have "bitfield_test (array (bs[i div 8 := bs ! (i div 8) XOR drop_bit (i mod 8) 128])) n j
    = (if j = i then \<not> bitfield_test (array bs) n i else bitfield_test (array bs) n j)"
    using assms
    by (subst test_update [where f = "\<lambda>b. b XOR drop_bit (i mod 8) 128"])
      (auto simp: bit_xor_iff bit_mask_iff bitfield_test_bit array_def)
  then show ?thesis by (simp add: bitfield_flipBit_def Let_def)
qed

lemma length_flipBit [simp]: "length (bitfield_flipBit bs i) = length bs"
  by (simp add: bitfield_flipBit_def Let_def)

lemma test_replicate [simp]: "i div 8 < m \<Longrightarrow> \<not> bitfield_test (array (replicate m 0)) n i"
  by (simp add: bitfield_test_bit array_def)

subsection \<open>Searching\<close>

lemma getFirstSetBitIndex_Some:
  "bitfield_getFirstSetBitIndex a n = Some i \<longleftrightarrow>
     i < n \<and> bitfield_test a n i \<and> (\<forall>j < i. \<not> bitfield_test a n j)"
  by (simp add: bitfield_getFirstSetBitIndex_def find_upt_Some_iff)

lemma getFirstSetBitIndex_None:
  "bitfield_getFirstSetBitIndex a n = None \<longleftrightarrow> bit_set a n = {}"
  by (auto simp: bitfield_getFirstSetBitIndex_def find_upt_None_iff bit_set_def)

lemma getFirstN_loop_take: "0 < n \<Longrightarrow> getFirstN_loop t is n = take n (filter t is)"
  by (induction t "is" n rule: getFirstN_loop.induct) (auto simp: take_Cons')

lemma getFirstNSetBitIndex_take:
  "bitfield_getFirstNSetBitIndex k a n = take k (filter (bitfield_test a n) [0..<n])"
  by (simp add: bitfield_getFirstNSetBitIndex_def getFirstN_loop_take)

text \<open>The optimised population count (32 bits at a time with the parallel bit-count, then the
  remaining bytes, the last one masked) agrees with the bit-by-bit count on every buffer and
  every number of bits.\<close>
theorem countSetBit_agrees: "bitfield_countSetBit bs n = bitfield_countSetBitSlow (array bs) n"
  by (simp add: countSetBit_card countSetBitSlow_card)

end
