(* ===== verification/Bitfield_Man.thy ===== *)
theory Bitfield_Man
  imports Bitfield
begin

text \<open>
  The class \<open>BitfieldMan\<close> (\<open>BitfieldMan.cc\<close>, \<open>BitfieldMan.h\<close>): which blocks of a download are
  complete (\<open>bitfield\<close>), being fetched (\<open>useBitfield\<close>) and selected (\<open>filterBitfield\<close>), with
  cached counts and lengths. The three buffers are byte lists (the filter buffer is optional,
  as its pointer is); the caches are fields of the record and are recomputed by
  \<open>updateCache\<close> where the code calls it. The piece search functions are in theory
  \<open>Bitfield_Search\<close>.
\<close>

unbundle bit_operations_syntax

subsection \<open>State\<close>

record bitfield_man =
  bm_totalLength :: int
  bm_cachedCompletedLength :: int
  bm_cachedFilteredCompletedLength :: int
  bm_cachedFilteredTotalLength :: int
  bm_bitfield :: "byte list"
  bm_useBitfield :: "byte list"
  bm_filterBitfield :: "byte list option"
  bm_bitfieldLength :: nat
  bm_cachedNumMissingBlock :: nat
  bm_cachedNumFilteredBlock :: nat
  bm_blocks :: nat
  bm_blockLength :: int
  bm_filterEnabled :: bool

text \<open>The filter buffer, where the code has checked or ensured that it exists.\<close>

abbreviation bm_filter :: "bitfield_man \<Rightarrow> byte list" where
  "bm_filter bm \<equiv> (case bm_filterBitfield bm of None \<Rightarrow> [] | Some f \<Rightarrow> f)"

subsection \<open>Block lengths\<close>

definition BitfieldMan_getLastBlockLength :: "bitfield_man \<Rightarrow> int" where
  "BitfieldMan_getLastBlockLength bm =
     to_int32 (bm_totalLength bm - bm_blockLength bm * (int (bm_blocks bm) - 1))"

text \<open>\<open>blocks_ - 1\<close> is \<open>SIZE_MAX\<close> when there are no blocks.\<close>

definition BitfieldMan_getBlockLength :: "bitfield_man \<Rightarrow> nat \<Rightarrow> int" where
  "BitfieldMan_getBlockLength bm index =
     (let last = to_size (int (bm_blocks bm) - 1) in
      if index = last then BitfieldMan_getLastBlockLength bm
      else if index < last then bm_blockLength bm
      else 0)"

definition BitfieldMan_getMaxIndex :: "bitfield_man \<Rightarrow> nat" where
  "BitfieldMan_getMaxIndex bm = to_size (int (bm_blocks bm) - 1)"

subsection \<open>Counts and lengths recomputed from the buffers\<close>

definition BitfieldMan_countMissingBlockNow :: "bitfield_man \<Rightarrow> nat" where
  "BitfieldMan_countMissingBlockNow bm =
     (if bm_filterEnabled bm
      then bitfield_countSetBit (bm_filter bm) (bm_blocks bm)
           - bitfield_countSetBitSlow
               (array_and (array (bm_bitfield bm)) (array (bm_filter bm))) (bm_blocks bm)
      else bm_blocks bm - bitfield_countSetBit (bm_bitfield bm) (bm_blocks bm))"

definition BitfieldMan_countFilteredBlockNow :: "bitfield_man \<Rightarrow> nat" where
  "BitfieldMan_countFilteredBlockNow bm =
     (if bm_filterEnabled bm then bitfield_countSetBit (bm_filter bm) (bm_blocks bm) else 0)"

definition BitfieldMan_getFilteredTotalLengthNow :: "bitfield_man \<Rightarrow> int" where
  "BitfieldMan_getFilteredTotalLengthNow bm =
     (case bm_filterBitfield bm of
        None \<Rightarrow> 0
      | Some f \<Rightarrow>
          let filteredBlocks = bitfield_countSetBit f (bm_blocks bm) in
          if filteredBlocks = 0 then 0
          else if bitfield_test (array f) (bm_blocks bm) (bm_blocks bm - 1)
          then (int filteredBlocks - 1) * bm_blockLength bm + BitfieldMan_getLastBlockLength bm
          else int filteredBlocks * bm_blockLength bm)"

definition computeCompletedLength :: "byte_array \<Rightarrow> bitfield_man \<Rightarrow> nat \<Rightarrow> int" where
  "computeCompletedLength bf btman completedBlocks =
     (let nbits = bm_blocks btman in
      if completedBlocks = 0 then 0
      else if bitfield_test bf nbits (nbits - 1)
      then (int completedBlocks - 1) * bm_blockLength btman + BitfieldMan_getLastBlockLength btman
      else int completedBlocks * bm_blockLength btman)"

definition BitfieldMan_getCompletedLength_filter :: "bitfield_man \<Rightarrow> bool \<Rightarrow> int" where
  "BitfieldMan_getCompletedLength_filter bm useFilter =
     (if useFilter \<and> bm_filterEnabled bm
      then let arr = array_and (array (bm_bitfield bm)) (array (bm_filter bm))
        in computeCompletedLength arr bm (bitfield_countSetBitSlow arr (bm_blocks bm))
      else computeCompletedLength (array (bm_bitfield bm)) bm
             (bitfield_countSetBit (bm_bitfield bm) (bm_blocks bm)))"

definition BitfieldMan_getCompletedLengthNow :: "bitfield_man \<Rightarrow> int" where
  "BitfieldMan_getCompletedLengthNow bm = BitfieldMan_getCompletedLength_filter bm False"

definition BitfieldMan_getFilteredCompletedLengthNow :: "bitfield_man \<Rightarrow> int" where
  "BitfieldMan_getFilteredCompletedLengthNow bm = BitfieldMan_getCompletedLength_filter bm True"

definition BitfieldMan_updateCache :: "bitfield_man \<Rightarrow> bitfield_man" where
  "BitfieldMan_updateCache bm = bm\<lparr>
     bm_cachedNumMissingBlock := BitfieldMan_countMissingBlockNow bm,
     bm_cachedNumFilteredBlock := BitfieldMan_countFilteredBlockNow bm,
     bm_cachedFilteredTotalLength := BitfieldMan_getFilteredTotalLengthNow bm,
     bm_cachedCompletedLength := BitfieldMan_getCompletedLengthNow bm,
     bm_cachedFilteredCompletedLength := BitfieldMan_getFilteredCompletedLengthNow bm\<rparr>"

subsection \<open>Construction\<close>

definition BitfieldMan_new :: "int \<Rightarrow> int \<Rightarrow> bitfield_man" where
  "BitfieldMan_new blockLength totalLength =
     (let bm = \<lparr>bm_totalLength = totalLength, bm_cachedCompletedLength = 0,
            bm_cachedFilteredCompletedLength = 0, bm_cachedFilteredTotalLength = 0,
            bm_bitfield = [], bm_useBitfield = [], bm_filterBitfield = None,
            bm_bitfieldLength = 0, bm_cachedNumMissingBlock = 0, bm_cachedNumFilteredBlock = 0,
            bm_blocks = 0, bm_blockLength = blockLength, bm_filterEnabled = False\<rparr>
      in if blockLength > 0 \<and> totalLength > 0
         then let blocks = nat ((totalLength + blockLength - 1) div blockLength);
                  len = blocks div 8 + (if blocks mod 8 \<noteq> 0 then 1 else 0)
              in BitfieldMan_updateCache (bm\<lparr>bm_blocks := blocks, bm_bitfieldLength := len,
                   bm_bitfield := replicate len 0, bm_useBitfield := replicate len 0\<rparr>)
         else bm)"

text \<open>The copy constructor: the filter buffer is copied only while the filter is enabled.\<close>

definition BitfieldMan_copy :: "bitfield_man \<Rightarrow> bitfield_man" where
  "BitfieldMan_copy bm = BitfieldMan_updateCache
     (bm\<lparr>bm_cachedCompletedLength := 0, bm_cachedFilteredCompletedLength := 0,
         bm_cachedFilteredTotalLength := 0, bm_cachedNumMissingBlock := 0,
         bm_cachedNumFilteredBlock := 0,
         bm_filterBitfield := (if bm_filterEnabled bm then bm_filterBitfield bm else None)\<rparr>)"

subsection \<open>Setting and clearing bits\<close>

definition BitfieldMan_setBitInternal ::
    "bitfield_man \<Rightarrow> byte list \<Rightarrow> nat \<Rightarrow> bool \<Rightarrow> byte list \<times> bool" where
  "BitfieldMan_setBitInternal bm bitfield index on =
     (if bm_blocks bm \<le> index then (bitfield, False)
      else let mask = drop_bit (index mod 8) (128 :: byte) in
        (bitfield[index div 8 :=
           (if on then bitfield ! (index div 8) OR mask
            else bitfield ! (index div 8) AND NOT mask)], True))"

definition BitfieldMan_setUseBit :: "bitfield_man \<Rightarrow> nat \<Rightarrow> bitfield_man \<times> bool" where
  "BitfieldMan_setUseBit bm index =
     (let (u, b) = BitfieldMan_setBitInternal bm (bm_useBitfield bm) index True
      in (bm\<lparr>bm_useBitfield := u\<rparr>, b))"

definition BitfieldMan_unsetUseBit :: "bitfield_man \<Rightarrow> nat \<Rightarrow> bitfield_man \<times> bool" where
  "BitfieldMan_unsetUseBit bm index =
     (let (u, b) = BitfieldMan_setBitInternal bm (bm_useBitfield bm) index False
      in (bm\<lparr>bm_useBitfield := u\<rparr>, b))"

definition BitfieldMan_setBit :: "bitfield_man \<Rightarrow> nat \<Rightarrow> bitfield_man \<times> bool" where
  "BitfieldMan_setBit bm index =
     (let (f, b) = BitfieldMan_setBitInternal bm (bm_bitfield bm) index True
      in (BitfieldMan_updateCache (bm\<lparr>bm_bitfield := f\<rparr>), b))"

definition BitfieldMan_unsetBit :: "bitfield_man \<Rightarrow> nat \<Rightarrow> bitfield_man \<times> bool" where
  "BitfieldMan_unsetBit bm index =
     (let (f, b) = BitfieldMan_setBitInternal bm (bm_bitfield bm) index False
      in (BitfieldMan_updateCache (bm\<lparr>bm_bitfield := f\<rparr>), b))"

definition BitfieldMan_setBitfield :: "bitfield_man \<Rightarrow> byte list \<Rightarrow> nat \<Rightarrow> bitfield_man" where
  "BitfieldMan_setBitfield bm bitfield bitfieldLength =
     (if bm_bitfieldLength bm = 0 \<or> bm_bitfieldLength bm \<noteq> bitfieldLength then bm
      else BitfieldMan_updateCache
        (bm\<lparr>bm_bitfield := take (bm_bitfieldLength bm) bitfield,
            bm_useBitfield := replicate (bm_bitfieldLength bm) 0\<rparr>))"

definition BitfieldMan_clearAllBit :: "bitfield_man \<Rightarrow> bitfield_man" where
  "BitfieldMan_clearAllBit bm =
     BitfieldMan_updateCache (bm\<lparr>bm_bitfield := replicate (bm_bitfieldLength bm) 0\<rparr>)"

definition BitfieldMan_setAllBit :: "bitfield_man \<Rightarrow> bitfield_man" where
  "BitfieldMan_setAllBit bm = BitfieldMan_updateCache
     (bm\<lparr>bm_bitfield :=
        fold (\<lambda>i f. fst (BitfieldMan_setBitInternal bm f i True)) [0..<bm_blocks bm] (bm_bitfield bm)\<rparr>)"

definition BitfieldMan_clearAllUseBit :: "bitfield_man \<Rightarrow> bitfield_man" where
  "BitfieldMan_clearAllUseBit bm =
     BitfieldMan_updateCache (bm\<lparr>bm_useBitfield := replicate (bm_bitfieldLength bm) 0\<rparr>)"

definition BitfieldMan_setAllUseBit :: "bitfield_man \<Rightarrow> bitfield_man" where
  "BitfieldMan_setAllUseBit bm = bm\<lparr>bm_useBitfield :=
     fold (\<lambda>i f. fst (BitfieldMan_setBitInternal bm f i True)) [0..<bm_blocks bm] (bm_useBitfield bm)\<rparr>"

definition BitfieldMan_unsetBitRange :: "bitfield_man \<Rightarrow> nat \<Rightarrow> nat \<Rightarrow> bitfield_man" where
  "BitfieldMan_unsetBitRange bm startIndex endIndex = BitfieldMan_updateCache
     (fold (\<lambda>i b. fst (BitfieldMan_unsetBit b i)) [startIndex..<endIndex + 1] bm)"

definition BitfieldMan_setBitRange :: "bitfield_man \<Rightarrow> nat \<Rightarrow> nat \<Rightarrow> bitfield_man" where
  "BitfieldMan_setBitRange bm startIndex endIndex = BitfieldMan_updateCache
     (fold (\<lambda>i b. fst (BitfieldMan_setBit b i)) [startIndex..<endIndex + 1] bm)"

subsection \<open>The filter\<close>

definition BitfieldMan_ensureFilterBitfield :: "bitfield_man \<Rightarrow> bitfield_man" where
  "BitfieldMan_ensureFilterBitfield bm =
     (case bm_filterBitfield bm of
        None \<Rightarrow> bm\<lparr>bm_filterBitfield := Some (replicate (bm_bitfieldLength bm) 0)\<rparr>
      | Some _ \<Rightarrow> bm)"

definition BitfieldMan_setFilterBit :: "bitfield_man \<Rightarrow> nat \<Rightarrow> bitfield_man" where
  "BitfieldMan_setFilterBit bm index =
     bm\<lparr>bm_filterBitfield := Some (fst (BitfieldMan_setBitInternal bm (bm_filter bm) index True))\<rparr>"

definition BitfieldMan_unsetFilterBit :: "bitfield_man \<Rightarrow> nat \<Rightarrow> bitfield_man" where
  "BitfieldMan_unsetFilterBit bm index =
     bm\<lparr>bm_filterBitfield := Some (fst (BitfieldMan_setBitInternal bm (bm_filter bm) index False))\<rparr>"

definition BitfieldMan_addFilter :: "bitfield_man \<Rightarrow> int \<Rightarrow> int \<Rightarrow> bitfield_man" where
  "BitfieldMan_addFilter bm offset len =
     (let bm1 = BitfieldMan_ensureFilterBitfield bm;
          bm2 = (if len > 0 then
             let startBlock = to_size (offset sdiv bm_blockLength bm);
                 endBlock = to_size ((offset + len - 1) sdiv bm_blockLength bm)
             in fold (\<lambda>i b. BitfieldMan_setFilterBit b i)
                  [startBlock..<min (endBlock + 1) (bm_blocks bm)] bm1
           else bm1)
      in BitfieldMan_updateCache bm2)"

definition BitfieldMan_removeFilter :: "bitfield_man \<Rightarrow> int \<Rightarrow> int \<Rightarrow> bitfield_man" where
  "BitfieldMan_removeFilter bm offset len =
     (let bm1 = BitfieldMan_ensureFilterBitfield bm;
          bm2 = (if len > 0 then
             let startBlock = to_size (offset sdiv bm_blockLength bm);
                 endBlock = to_size ((offset + len - 1) sdiv bm_blockLength bm)
             in fold (\<lambda>i b. BitfieldMan_unsetFilterBit b i)
                  [startBlock..<min (endBlock + 1) (bm_blocks bm)] bm1
           else bm1)
      in BitfieldMan_updateCache bm2)"

definition BitfieldMan_addNotFilter :: "bitfield_man \<Rightarrow> int \<Rightarrow> int \<Rightarrow> bitfield_man" where
  "BitfieldMan_addNotFilter bm offset len =
     (let bm1 = BitfieldMan_ensureFilterBitfield bm;
          bm2 = (if len > 0 \<and> bm_blocks bm > 0 then
             let start0 = to_size (offset sdiv bm_blockLength bm);
                 startBlock = (if bm_blocks bm \<le> start0 then bm_blocks bm else start0);
                 endBlock = to_size ((offset + len - 1) sdiv bm_blockLength bm)
             in fold (\<lambda>i b. BitfieldMan_setFilterBit b i) [endBlock + 1..<bm_blocks bm]
                  (fold (\<lambda>i b. BitfieldMan_setFilterBit b i) [0..<startBlock] bm1)
           else bm1)
      in BitfieldMan_updateCache bm2)"

definition BitfieldMan_enableFilter :: "bitfield_man \<Rightarrow> bitfield_man" where
  "BitfieldMan_enableFilter bm =
     BitfieldMan_updateCache ((BitfieldMan_ensureFilterBitfield bm)\<lparr>bm_filterEnabled := True\<rparr>)"

definition BitfieldMan_disableFilter :: "bitfield_man \<Rightarrow> bitfield_man" where
  "BitfieldMan_disableFilter bm = BitfieldMan_updateCache (bm\<lparr>bm_filterEnabled := False\<rparr>)"

definition BitfieldMan_clearFilter :: "bitfield_man \<Rightarrow> bitfield_man" where
  "BitfieldMan_clearFilter bm = BitfieldMan_updateCache
     (bm\<lparr>bm_filterBitfield := None, bm_filterEnabled := False\<rparr>)"

subsection \<open>Queries\<close>

definition BitfieldMan_isBitSet :: "bitfield_man \<Rightarrow> nat \<Rightarrow> bool" where
  "BitfieldMan_isBitSet bm index = bitfield_test (array (bm_bitfield bm)) (bm_blocks bm) index"

definition BitfieldMan_isUseBitSet :: "bitfield_man \<Rightarrow> nat \<Rightarrow> bool" where
  "BitfieldMan_isUseBitSet bm index = bitfield_test (array (bm_useBitfield bm)) (bm_blocks bm) index"

definition BitfieldMan_isFilterBitSet :: "bitfield_man \<Rightarrow> nat \<Rightarrow> bool" where
  "BitfieldMan_isFilterBitSet bm index =
     (case bm_filterBitfield bm of
        Some f \<Rightarrow> bitfield_test (array f) (bm_blocks bm) index
      | None \<Rightarrow> False)"

definition testAllBitSet :: "byte list \<Rightarrow> nat \<Rightarrow> nat \<Rightarrow> bool" where
  "testAllBitSet bitfield len blocks =
     (if len = 0 then True
      else if \<exists>i \<in> set [0..<len - 1]. bitfield ! i \<noteq> 0xff then False
      else bitfield ! (len - 1) = bitfield_lastByteMask blocks)"

definition BitfieldMan_isAllBitSet :: "bitfield_man \<Rightarrow> bool" where
  "BitfieldMan_isAllBitSet bm =
     testAllBitSet (bm_bitfield bm) (bm_bitfieldLength bm) (bm_blocks bm)"

definition BitfieldMan_isAllFilterBitSet :: "bitfield_man \<Rightarrow> bool" where
  "BitfieldMan_isAllFilterBitSet bm =
     (case bm_filterBitfield bm of
        None \<Rightarrow> False
      | Some f \<Rightarrow> testAllBitSet f (bm_bitfieldLength bm) (bm_blocks bm))"

definition BitfieldMan_isFilteredAllBitSet :: "bitfield_man \<Rightarrow> bool" where
  "BitfieldMan_isFilteredAllBitSet bm =
     (if bm_filterEnabled bm
      then \<forall>i \<in> set [0..<bm_bitfieldLength bm].
             bm_bitfield bm ! i AND bm_filter bm ! i = bm_filter bm ! i
      else BitfieldMan_isAllBitSet bm)"

definition BitfieldMan_hasMissingPiece :: "bitfield_man \<Rightarrow> byte list \<Rightarrow> nat \<Rightarrow> bool" where
  "BitfieldMan_hasMissingPiece bm peerBitfield len =
     (if bm_bitfieldLength bm \<noteq> len then False
      else \<exists>i \<in> set [0..<bm_bitfieldLength bm].
        let temp = peerBitfield ! i AND NOT (bm_bitfield bm ! i);
            temp' = (if bm_filterEnabled bm then temp AND bm_filter bm ! i else temp)
        in temp' AND 0xff \<noteq> 0)"

definition BitfieldMan_isBitRangeSet :: "bitfield_man \<Rightarrow> nat \<Rightarrow> nat \<Rightarrow> bool" where
  "BitfieldMan_isBitRangeSet bm startIndex endIndex =
     list_all (BitfieldMan_isBitSet bm) [startIndex..<endIndex + 1]"

definition BitfieldMan_isBitSetOffsetRange :: "bitfield_man \<Rightarrow> int \<Rightarrow> int \<Rightarrow> bool" where
  "BitfieldMan_isBitSetOffsetRange bm offset len0 =
     (if len0 \<le> 0 then False
      else if bm_totalLength bm \<le> offset then False
      else let len = (if bm_totalLength bm < offset + len0 then bm_totalLength bm - offset else len0);
               startBlock = to_size (offset sdiv bm_blockLength bm);
               endBlock = to_size ((offset + len - 1) sdiv bm_blockLength bm)
           in list_all (BitfieldMan_isBitSet bm) [startBlock..<endBlock + 1])"

definition BitfieldMan_getOffsetCompletedLength :: "bitfield_man \<Rightarrow> int \<Rightarrow> int \<Rightarrow> int" where
  "BitfieldMan_getOffsetCompletedLength bm offset len0 =
     (if len0 = 0 \<or> bm_totalLength bm \<le> offset then 0
      else let len = (if bm_totalLength bm < offset + len0 then bm_totalLength bm - offset else len0);
               start = to_size (offset sdiv bm_blockLength bm);
               end = to_size ((offset + len - 1) sdiv bm_blockLength bm)
           in if start = end then (if BitfieldMan_isBitSet bm start then len else 0)
              else (if BitfieldMan_isBitSet bm start
                    then int (start + 1) * bm_blockLength bm - offset else 0)
                 + sum_list (map (\<lambda>i. if BitfieldMan_isBitSet bm i then bm_blockLength bm else 0)
                     [start + 1..<end])
                 + (if BitfieldMan_isBitSet bm end
                    then offset + len - int end * bm_blockLength bm else 0))"

text \<open>The loop of \<open>getMissingUnusedLength\<close>, which stops at the first block that is not free.\<close>

fun missingUnused_loop :: "bitfield_man \<Rightarrow> nat list \<Rightarrow> int \<Rightarrow> int" where
  "missingUnused_loop bm [] acc = acc"
| "missingUnused_loop bm (i # is) acc =
     (if BitfieldMan_isBitSet bm i \<or> BitfieldMan_isUseBitSet bm i then acc
      else missingUnused_loop bm is (acc + BitfieldMan_getBlockLength bm i))"

definition BitfieldMan_getMissingUnusedLength :: "bitfield_man \<Rightarrow> nat \<Rightarrow> int" where
  "BitfieldMan_getMissingUnusedLength bm startingIndex =
     (if bm_blocks bm \<le> startingIndex then 0
      else missingUnused_loop bm [startingIndex..<bm_blocks bm] 0)"

subsection \<open>Invariant and abstraction\<close>

definition bm_layout :: "bitfield_man \<Rightarrow> bool" where
  "bm_layout bm \<longleftrightarrow>
     bm_blocks bm = (if bm_blockLength bm > 0 \<and> bm_totalLength bm > 0
       then nat ((bm_totalLength bm + bm_blockLength bm - 1) div bm_blockLength bm) else 0)
     \<and> bm_blockLength bm < 2 ^ 31 \<and> bm_totalLength bm < 2 ^ 63
     \<and> bm_bitfieldLength bm = (bm_blocks bm + 7) div 8
     \<and> length (bm_bitfield bm) = bm_bitfieldLength bm
     \<and> length (bm_useBitfield bm) = bm_bitfieldLength bm
     \<and> (\<forall>f. bm_filterBitfield bm = Some f \<longrightarrow> length f = bm_bitfieldLength bm)
     \<and> (bm_filterEnabled bm \<longrightarrow> bm_filterBitfield bm \<noteq> None)"

definition bm_cached :: "bitfield_man \<Rightarrow> bool" where
  "bm_cached bm \<longleftrightarrow> BitfieldMan_updateCache bm = bm"

definition bm_inv :: "bitfield_man \<Rightarrow> bool" where
  "bm_inv bm \<longleftrightarrow> bm_layout bm \<and> bm_cached bm"

definition bm_have :: "bitfield_man \<Rightarrow> nat set" where
  "bm_have bm = bit_set (array (bm_bitfield bm)) (bm_blocks bm)"

definition bm_used :: "bitfield_man \<Rightarrow> nat set" where
  "bm_used bm = bit_set (array (bm_useBitfield bm)) (bm_blocks bm)"

definition bm_selected :: "bitfield_man \<Rightarrow> nat set" where
  "bm_selected bm = (case bm_filterBitfield bm of None \<Rightarrow> {} | Some f \<Rightarrow> bit_set (array f) (bm_blocks bm))"

definition bm_wanted :: "bitfield_man \<Rightarrow> nat set" where
  "bm_wanted bm = (if bm_filterEnabled bm then bm_selected bm else {..<bm_blocks bm})"

subsection \<open>Geometry\<close>

lemma updateCache_fields [simp]:
  "bm_totalLength (BitfieldMan_updateCache bm) = bm_totalLength bm"
  "bm_bitfield (BitfieldMan_updateCache bm) = bm_bitfield bm"
  "bm_useBitfield (BitfieldMan_updateCache bm) = bm_useBitfield bm"
  "bm_filterBitfield (BitfieldMan_updateCache bm) = bm_filterBitfield bm"
  "bm_bitfieldLength (BitfieldMan_updateCache bm) = bm_bitfieldLength bm"
  "bm_blocks (BitfieldMan_updateCache bm) = bm_blocks bm"
  "bm_blockLength (BitfieldMan_updateCache bm) = bm_blockLength bm"
  "bm_filterEnabled (BitfieldMan_updateCache bm) = bm_filterEnabled bm"
  by (simp_all add: BitfieldMan_updateCache_def)

lemma bm_layout_updateCache [simp]: "bm_layout (BitfieldMan_updateCache bm) = bm_layout bm"
  by (simp add: bm_layout_def)

lemma bm_sets_updateCache [simp]:
  "bm_have (BitfieldMan_updateCache bm) = bm_have bm"
  "bm_used (BitfieldMan_updateCache bm) = bm_used bm"
  "bm_selected (BitfieldMan_updateCache bm) = bm_selected bm"
  "bm_wanted (BitfieldMan_updateCache bm) = bm_wanted bm"
  by (simp_all add: bm_have_def bm_used_def bm_selected_def bm_wanted_def split: option.split)

lemma bm_cached_updateCache [simp]: "bm_cached (BitfieldMan_updateCache bm)"
  by (simp add: bm_cached_def BitfieldMan_updateCache_def BitfieldMan_countMissingBlockNow_def
      BitfieldMan_countFilteredBlockNow_def BitfieldMan_getFilteredTotalLengthNow_def
      BitfieldMan_getCompletedLengthNow_def BitfieldMan_getFilteredCompletedLengthNow_def
      BitfieldMan_getCompletedLength_filter_def computeCompletedLength_def
      BitfieldMan_getLastBlockLength_def cong: option.case_cong if_cong)

lemma bm_inv_updateCache [simp]: "bm_inv (BitfieldMan_updateCache bm) = bm_layout bm"
  by (simp add: bm_inv_def)

lemma bm_blocks_pos:
  assumes "bm_layout bm" "0 < bm_blocks bm"
  shows "0 < bm_blockLength bm" "0 < bm_totalLength bm"
    "bm_blockLength bm * (int (bm_blocks bm) - 1) < bm_totalLength bm"
    "bm_totalLength bm \<le> bm_blockLength bm * int (bm_blocks bm)"
    "int (bm_blocks bm) \<le> bm_totalLength bm"
proof -
  let ?b = "bm_blockLength bm" and ?t = "bm_totalLength bm"
  show pos: "0 < ?b" "0 < ?t" using assms by (auto simp: bm_layout_def split: if_splits)
  have n: "int (bm_blocks bm) = (?t + ?b - 1) div ?b"
    using assms pos by (auto simp: bm_layout_def pos_imp_zdiv_nonneg_iff)
  have e: "?b * ((?t + ?b - 1) div ?b) + (?t + ?b - 1) mod ?b = ?t + ?b - 1" by simp
  have m: "0 \<le> (?t + ?b - 1) mod ?b" "(?t + ?b - 1) mod ?b < ?b" using pos by simp_all
  show "?b * (int (bm_blocks bm) - 1) < ?t" unfolding n right_diff_distrib using e m by linarith
  show u: "?t \<le> ?b * int (bm_blocks bm)" unfolding n using e m by linarith
  have "?b * (int (bm_blocks bm) - 1) \<ge> 1 * (int (bm_blocks bm) - 1)"
    using pos assms(2) by (intro mult_right_mono) auto
  then have "1 * (int (bm_blocks bm) - 1) < ?t"
    using \<open>?b * (int (bm_blocks bm) - 1) < ?t\<close> by (rule order_le_less_trans)
  then show "int (bm_blocks bm) \<le> ?t" by simp
qed

lemma last_index:
  assumes "bm_layout bm" "0 < bm_blocks bm"
  shows "to_size (int (bm_blocks bm) - 1) = bm_blocks bm - 1"
proof -
  have "int (bm_blocks bm) < 2 ^ 63"
    using bm_blocks_pos(5) [OF assms] assms(1) by (simp add: bm_layout_def)
  then show ?thesis using assms(2) by (simp add: nat_diff_distrib)
qed

lemma getLastBlockLength_eq:
  assumes "bm_layout bm" "0 < bm_blocks bm"
  shows "BitfieldMan_getLastBlockLength bm = bm_totalLength bm - bm_blockLength bm * (int (bm_blocks bm) - 1)"
    and "0 < BitfieldMan_getLastBlockLength bm"
    and "BitfieldMan_getLastBlockLength bm \<le> bm_blockLength bm"
proof -
  note b = bm_blocks_pos [OF assms]
  let ?l = "bm_totalLength bm - bm_blockLength bm * (int (bm_blocks bm) - 1)"
  have l: "0 < ?l" "?l \<le> bm_blockLength bm" using b by (auto simp: algebra_simps)
  moreover have "bm_blockLength bm < 2 ^ 31" using assms by (simp add: bm_layout_def)
  ultimately have "to_int32 ?l = ?l" by (intro to_int32_id) auto
  then show "BitfieldMan_getLastBlockLength bm = ?l"
    by (simp add: BitfieldMan_getLastBlockLength_def)
  with l show "0 < BitfieldMan_getLastBlockLength bm"
    "BitfieldMan_getLastBlockLength bm \<le> bm_blockLength bm" by auto
qed

lemma getBlockLength_eq:
  assumes "bm_layout bm" "i < bm_blocks bm"
  shows "BitfieldMan_getBlockLength bm i =
    (if i = bm_blocks bm - 1 then BitfieldMan_getLastBlockLength bm else bm_blockLength bm)"
  using assms last_index [of bm] by (auto simp: BitfieldMan_getBlockLength_def Let_def)

text \<open>Block \<open>i\<close> covers the bytes from \<open>i * blockLength\<close>, up to the next block or the end.\<close>

lemma getBlockLength_min:
  assumes "bm_layout bm" "i < bm_blocks bm"
  shows "BitfieldMan_getBlockLength bm i =
    min (bm_blockLength bm) (bm_totalLength bm - int i * bm_blockLength bm)"
proof (cases "i = bm_blocks bm - 1")
  case True
  then have "int i = int (bm_blocks bm) - 1" using assms(2) by linarith
  then show ?thesis
    using True assms getLastBlockLength_eq [of bm] by (simp add: getBlockLength_eq mult.commute)
next
  case False
  then have "int i + 1 \<le> int (bm_blocks bm) - 1" using assms(2) by linarith
  then have "bm_blockLength bm * (int i + 1) \<le> bm_blockLength bm * (int (bm_blocks bm) - 1)"
    using bm_blocks_pos(1) [of bm] assms by (intro mult_left_mono) auto
  then have "bm_blockLength bm * (int i + 1) < bm_totalLength bm"
    using bm_blocks_pos(3) [of bm] assms by linarith
  then show ?thesis using False assms by (simp add: getBlockLength_eq algebra_simps)
qed

lemma getBlockLength_pos:
  "bm_layout bm \<Longrightarrow> i < bm_blocks bm \<Longrightarrow> 0 < BitfieldMan_getBlockLength bm i"
  using bm_blocks_pos(1) [of bm] getLastBlockLength_eq(2) [of bm] by (simp add: getBlockLength_eq)

subsection \<open>Lengths are sums of block lengths\<close>

lemma sum_block_lengths:
  assumes lay: "bm_layout bm" and S: "S \<subseteq> {..<bm_blocks bm}"
  shows "(\<Sum>i\<in>S. BitfieldMan_getBlockLength bm i) =
    (if S = {} then 0
     else if bm_blocks bm - 1 \<in> S
     then (int (card S) - 1) * bm_blockLength bm + BitfieldMan_getLastBlockLength bm
     else int (card S) * bm_blockLength bm)"
proof -
  have fin: "finite S" using S finite_subset by blast
  have nl: "(\<Sum>i\<in>T. BitfieldMan_getBlockLength bm i) = int (card T) * bm_blockLength bm"
    if "T \<subseteq> {..<bm_blocks bm}" "bm_blocks bm - 1 \<notin> T" for T
  proof -
    have "(\<Sum>i\<in>T. BitfieldMan_getBlockLength bm i) = (\<Sum>i\<in>T. bm_blockLength bm)"
      using that lay by (intro sum.cong) (auto simp: getBlockLength_eq)
    then show ?thesis by simp
  qed
  show ?thesis
  proof (cases "bm_blocks bm - 1 \<in> S")
    case True
    then have n: "0 < bm_blocks bm" using S by auto
    have c: "int (card (S - {bm_blocks bm - 1})) = int (card S) - 1"
      using True fin card_gt_0_iff [of S] by (auto simp: card_Diff_singleton of_nat_diff)
    have "(\<Sum>i\<in>S. BitfieldMan_getBlockLength bm i) =
      BitfieldMan_getBlockLength bm (bm_blocks bm - 1) + (\<Sum>i\<in>S - {bm_blocks bm - 1}. BitfieldMan_getBlockLength bm i)"
      using fin True by (rule sum.remove)
    with nl [of "S - {bm_blocks bm - 1}"] S True lay n c show ?thesis
      by (auto simp: getBlockLength_eq)
  next
    case False
    with nl S show ?thesis by auto
  qed
qed

lemma computeCompletedLength_sum:
  assumes "bm_layout bm"
  shows "computeCompletedLength a bm (card (bit_set a (bm_blocks bm)))
    = (\<Sum>i\<in>bit_set a (bm_blocks bm). BitfieldMan_getBlockLength bm i)"
proof (cases "bit_set a (bm_blocks bm) = {}")
  case True
  then show ?thesis by (simp add: computeCompletedLength_def)
next
  case False
  then have n: "0 < bm_blocks bm" by (auto simp: bit_set_def)
  have "bit_set a (bm_blocks bm) \<subseteq> {..<bm_blocks bm}" by (auto simp: bit_set_def)
  moreover have "bm_blocks bm - 1 \<in> bit_set a (bm_blocks bm) \<longleftrightarrow> bitfield_test a (bm_blocks bm) (bm_blocks bm - 1)"
    using n by (simp add: bit_set_def)
  ultimately show ?thesis using False assms
    by (simp add: sum_block_lengths computeCompletedLength_def)
qed

lemma bit_set_and: "bit_set (array_and a b) n = bit_set a n \<inter> bit_set b n"
  by (auto simp: bit_set_def)

lemma bm_filter_selected: "bm_filterEnabled bm \<Longrightarrow> bm_layout bm \<Longrightarrow>
   bit_set (array (bm_filter bm)) (bm_blocks bm) = bm_selected bm"
  by (auto simp: bm_selected_def bm_layout_def split: option.splits)

lemma getCompletedLengthNow_sum:
  "bm_layout bm \<Longrightarrow> BitfieldMan_getCompletedLengthNow bm = (\<Sum>i\<in>bm_have bm. BitfieldMan_getBlockLength bm i)"
  by (simp add: BitfieldMan_getCompletedLengthNow_def BitfieldMan_getCompletedLength_filter_def
      bit_set_count computeCompletedLength_sum bm_have_def)

lemma bm_have_sub: "bm_have bm \<subseteq> {..<bm_blocks bm}"
  by (auto simp: bm_have_def bit_set_def)

lemma bm_wanted_sub: "bm_wanted bm \<subseteq> {..<bm_blocks bm}"
  by (auto simp: bm_wanted_def bm_selected_def bit_set_def split: option.splits)

lemma getFilteredCompletedLengthNow_sum:
  assumes "bm_layout bm"
  shows "BitfieldMan_getFilteredCompletedLengthNow bm
    = (\<Sum>i\<in>bm_have bm \<inter> bm_wanted bm. BitfieldMan_getBlockLength bm i)"
proof (cases "bm_filterEnabled bm")
  case True
  then show ?thesis using assms
    by (simp add: BitfieldMan_getFilteredCompletedLengthNow_def BitfieldMan_getCompletedLength_filter_def
      bit_set_count computeCompletedLength_sum bit_set_and bm_filter_selected bm_wanted_def
      bm_have_def [symmetric])
next
  case False
  then have "bm_have bm \<inter> bm_wanted bm = bm_have bm"
    using bm_have_sub [of bm] by (auto simp: bm_wanted_def)
  with False assms show ?thesis
    by (simp add: BitfieldMan_getFilteredCompletedLengthNow_def BitfieldMan_getCompletedLength_filter_def
      bit_set_count computeCompletedLength_sum bm_have_def)
qed

lemma getFilteredTotalLengthNow_sum:
  assumes "bm_layout bm"
  shows "BitfieldMan_getFilteredTotalLengthNow bm = (\<Sum>i\<in>bm_selected bm. BitfieldMan_getBlockLength bm i)"
  using assms computeCompletedLength_sum [OF assms]
  by (auto simp: BitfieldMan_getFilteredTotalLengthNow_def bm_selected_def computeCompletedLength_def
      bit_set_count Let_def split: option.splits)

lemma countMissingBlockNow_card:
  assumes "bm_layout bm"
  shows "BitfieldMan_countMissingBlockNow bm = card (bm_wanted bm - bm_have bm)"
proof -
  have c: "card (A - B) = card A - card (B \<inter> A)" if "finite A" for A B :: "nat set"
    using that by (metis card_Diff_subset_Int finite_Int inf_commute)
  have f: "finite (bm_wanted bm)" using bm_wanted_sub finite_subset by blast
  show ?thesis
  proof (cases "bm_filterEnabled bm")
    case True
    then show ?thesis using assms c [OF f]
      by (simp add: BitfieldMan_countMissingBlockNow_def bit_set_count bit_set_and bm_filter_selected
          bm_have_def [symmetric] bm_wanted_def)
  next
    case False
    have "bm_have bm \<inter> {..<bm_blocks bm} = bm_have bm" using bm_have_sub by auto
    with False c [of "{..<bm_blocks bm}" "bm_have bm"] show ?thesis
      by (simp add: BitfieldMan_countMissingBlockNow_def bit_set_count bm_have_def bm_wanted_def)
  qed
qed

text \<open>The accessors of the caches return these sums whenever the caches are current.\<close>

lemma cached_values:
  assumes "bm_inv bm"
  shows "bm_cachedNumMissingBlock bm = card (bm_wanted bm - bm_have bm)"
    and "bm_cachedCompletedLength bm = (\<Sum>i\<in>bm_have bm. BitfieldMan_getBlockLength bm i)"
    and "bm_cachedFilteredCompletedLength bm = (\<Sum>i\<in>bm_have bm \<inter> bm_wanted bm. BitfieldMan_getBlockLength bm i)"
    and "bm_cachedFilteredTotalLength bm = (\<Sum>i\<in>bm_selected bm. BitfieldMan_getBlockLength bm i)"
proof -
  have lay: "bm_layout bm" and c: "BitfieldMan_updateCache bm = bm"
    using assms by (auto simp: bm_inv_def bm_cached_def)
  have "bm_cachedNumMissingBlock bm = BitfieldMan_countMissingBlockNow bm"
    "bm_cachedCompletedLength bm = BitfieldMan_getCompletedLengthNow bm"
    "bm_cachedFilteredCompletedLength bm = BitfieldMan_getFilteredCompletedLengthNow bm"
    "bm_cachedFilteredTotalLength bm = BitfieldMan_getFilteredTotalLengthNow bm"
    using arg_cong [OF c, of bm_cachedNumMissingBlock] arg_cong [OF c, of bm_cachedCompletedLength]
      arg_cong [OF c, of bm_cachedFilteredCompletedLength] arg_cong [OF c, of bm_cachedFilteredTotalLength]
    by (simp_all add: BitfieldMan_updateCache_def)
  with lay show "bm_cachedNumMissingBlock bm = card (bm_wanted bm - bm_have bm)"
    "bm_cachedCompletedLength bm = (\<Sum>i\<in>bm_have bm. BitfieldMan_getBlockLength bm i)"
    "bm_cachedFilteredCompletedLength bm = (\<Sum>i\<in>bm_have bm \<inter> bm_wanted bm. BitfieldMan_getBlockLength bm i)"
    "bm_cachedFilteredTotalLength bm = (\<Sum>i\<in>bm_selected bm. BitfieldMan_getBlockLength bm i)"
    by (simp_all add: countMissingBlockNow_card getCompletedLengthNow_sum
        getFilteredCompletedLengthNow_sum getFilteredTotalLengthNow_sum)
qed

lemma sum_all_blocks:
  assumes "bm_layout bm" "0 < bm_blocks bm"
  shows "(\<Sum>i\<in>{..<bm_blocks bm}. BitfieldMan_getBlockLength bm i) = bm_totalLength bm"
  using assms getLastBlockLength_eq(1) [OF assms]
  by (auto simp: sum_block_lengths algebra_simps)

subsection \<open>Effect of the bit operations\<close>

lemma length_setBitInternal [simp]:
  "length (fst (BitfieldMan_setBitInternal bm f i on)) = length f"
  by (simp add: BitfieldMan_setBitInternal_def Let_def)

lemma setBitInternal_snd [simp]:
  "snd (BitfieldMan_setBitInternal bm f i on) = (i < bm_blocks bm)"
  by (simp add: BitfieldMan_setBitInternal_def Let_def not_le)

lemma test_setBitInternal:
  assumes "bm_blocks bm \<le> 8 * length f"
  shows "bitfield_test (array (fst (BitfieldMan_setBitInternal bm f i on))) n j =
    (if j = i \<and> i < bm_blocks bm then on else bitfield_test (array f) n j)"
proof (cases "i < bm_blocks bm")
  case True
  then have "i div 8 < length f" using assms by linarith
  then show ?thesis using True
    by (auto simp: BitfieldMan_setBitInternal_def Let_def test_set_bit test_clear_bit)
qed (auto simp: BitfieldMan_setBitInternal_def Let_def)

lemma bit_set_setBitInternal:
  assumes "bm_blocks bm \<le> 8 * length f"
  shows "bit_set (array (fst (BitfieldMan_setBitInternal bm f i on))) (bm_blocks bm) =
    (if on then bit_set (array f) (bm_blocks bm) \<union> ({i} \<inter> {..<bm_blocks bm})
     else bit_set (array f) (bm_blocks bm) - {i})"
  using assms by (auto simp: bit_set_def test_setBitInternal split: if_splits)

lemma layout_length: "bm_layout bm \<Longrightarrow> bm_blocks bm \<le> 8 * bm_bitfieldLength bm"
  by (simp add: bm_layout_def)

lemma BitfieldMan_setBit_spec:
  assumes "bm_layout bm"
  shows "bm_inv (fst (BitfieldMan_setBit bm i))"
    and "bm_have (fst (BitfieldMan_setBit bm i)) = bm_have bm \<union> ({i} \<inter> {..<bm_blocks bm})"
    and "bm_used (fst (BitfieldMan_setBit bm i)) = bm_used bm"
    and "bm_selected (fst (BitfieldMan_setBit bm i)) = bm_selected bm"
    and "snd (BitfieldMan_setBit bm i) = (i < bm_blocks bm)"
proof -
  define f where "f = fst (BitfieldMan_setBitInternal bm (bm_bitfield bm) i True)"
  have e: "BitfieldMan_setBit bm i = (BitfieldMan_updateCache (bm\<lparr>bm_bitfield := f\<rparr>), i < bm_blocks bm)"
    using setBitInternal_snd [of bm "bm_bitfield bm" i True]
    by (simp add: BitfieldMan_setBit_def f_def split_def del: setBitInternal_snd)
  have l: "length f = bm_bitfieldLength bm" using assms by (simp add: f_def bm_layout_def)
  have b: "bm_blocks bm \<le> 8 * length (bm_bitfield bm)"
    using layout_length [OF assms] assms by (simp add: bm_layout_def)
  show "bm_inv (fst (BitfieldMan_setBit bm i))"
    "bm_used (fst (BitfieldMan_setBit bm i)) = bm_used bm"
    "bm_selected (fst (BitfieldMan_setBit bm i)) = bm_selected bm"
    "snd (BitfieldMan_setBit bm i) = (i < bm_blocks bm)"
    using assms l by (simp_all add: e bm_layout_def bm_used_def bm_selected_def cong: option.case_cong)
  show "bm_have (fst (BitfieldMan_setBit bm i)) = bm_have bm \<union> ({i} \<inter> {..<bm_blocks bm})"
    using bit_set_setBitInternal [OF b, of i True] by (simp add: e bm_have_def f_def)
qed

lemma BitfieldMan_unsetBit_spec:
  assumes "bm_layout bm"
  shows "bm_inv (fst (BitfieldMan_unsetBit bm i))"
    and "bm_have (fst (BitfieldMan_unsetBit bm i)) = bm_have bm - {i}"
    and "bm_used (fst (BitfieldMan_unsetBit bm i)) = bm_used bm"
    and "bm_selected (fst (BitfieldMan_unsetBit bm i)) = bm_selected bm"
proof -
  define f where "f = fst (BitfieldMan_setBitInternal bm (bm_bitfield bm) i False)"
  have e: "fst (BitfieldMan_unsetBit bm i) = BitfieldMan_updateCache (bm\<lparr>bm_bitfield := f\<rparr>)"
    by (simp add: BitfieldMan_unsetBit_def f_def split_def)
  have l: "length f = bm_bitfieldLength bm" using assms by (simp add: f_def bm_layout_def)
  have b: "bm_blocks bm \<le> 8 * length (bm_bitfield bm)"
    using layout_length [OF assms] assms by (simp add: bm_layout_def)
  show "bm_inv (fst (BitfieldMan_unsetBit bm i))"
    "bm_used (fst (BitfieldMan_unsetBit bm i)) = bm_used bm"
    "bm_selected (fst (BitfieldMan_unsetBit bm i)) = bm_selected bm"
    using assms l by (simp_all add: e bm_layout_def bm_used_def bm_selected_def cong: option.case_cong)
  show "bm_have (fst (BitfieldMan_unsetBit bm i)) = bm_have bm - {i}"
    using bit_set_setBitInternal [OF b, of i False] by (simp add: e bm_have_def f_def)
qed

text \<open>The use bits are not part of any cache.\<close>

lemma updateCache_use:
  "BitfieldMan_updateCache (bm\<lparr>bm_useBitfield := u\<rparr>) = (BitfieldMan_updateCache bm)\<lparr>bm_useBitfield := u\<rparr>"
  by (simp add: BitfieldMan_updateCache_def BitfieldMan_countMissingBlockNow_def
      BitfieldMan_countFilteredBlockNow_def BitfieldMan_getFilteredTotalLengthNow_def
      BitfieldMan_getCompletedLengthNow_def BitfieldMan_getFilteredCompletedLengthNow_def
      BitfieldMan_getCompletedLength_filter_def computeCompletedLength_def
      BitfieldMan_getLastBlockLength_def cong: option.case_cong if_cong)

lemma bm_cached_use [simp]: "bm_cached (bm\<lparr>bm_useBitfield := u\<rparr>) = bm_cached bm"
proof
  assume "bm_cached (bm\<lparr>bm_useBitfield := u\<rparr>)"
  then have "(BitfieldMan_updateCache bm)\<lparr>bm_useBitfield := u\<rparr> = bm\<lparr>bm_useBitfield := u\<rparr>"
    by (simp add: bm_cached_def updateCache_use)
  then have "(BitfieldMan_updateCache bm)\<lparr>bm_useBitfield := u\<rparr>\<lparr>bm_useBitfield := bm_useBitfield bm\<rparr>
      = bm\<lparr>bm_useBitfield := u\<rparr>\<lparr>bm_useBitfield := bm_useBitfield bm\<rparr>" by (simp only:)
  then show "bm_cached bm"
    using updateCache_use [of "bm_useBitfield bm" bm] by (simp add: bm_cached_def)
qed (simp add: bm_cached_def updateCache_use)

lemma useBit_frame [simp]:
  "bm_have (bm\<lparr>bm_useBitfield := u\<rparr>) = bm_have bm"
  "bm_selected (bm\<lparr>bm_useBitfield := u\<rparr>) = bm_selected bm"
  "bm_wanted (bm\<lparr>bm_useBitfield := u\<rparr>) = bm_wanted bm"
  by (simp_all add: bm_have_def bm_selected_def bm_wanted_def cong: option.case_cong)

lemma useBit_forms:
  "fst (BitfieldMan_setUseBit bm i) =
     bm\<lparr>bm_useBitfield := fst (BitfieldMan_setBitInternal bm (bm_useBitfield bm) i True)\<rparr>"
  "fst (BitfieldMan_unsetUseBit bm i) =
     bm\<lparr>bm_useBitfield := fst (BitfieldMan_setBitInternal bm (bm_useBitfield bm) i False)\<rparr>"
  by (simp_all add: BitfieldMan_setUseBit_def BitfieldMan_unsetUseBit_def split_def)

lemma bm_layout_use:
  "length u = length (bm_useBitfield bm) \<Longrightarrow> bm_layout (bm\<lparr>bm_useBitfield := u\<rparr>) = bm_layout bm"
  by (auto simp: bm_layout_def)

lemma BitfieldMan_setUseBit_spec:
  assumes "bm_layout bm"
  shows "bm_layout (fst (BitfieldMan_setUseBit bm i))"
    and "bm_cached (fst (BitfieldMan_setUseBit bm i)) = bm_cached bm"
    and "bm_have (fst (BitfieldMan_setUseBit bm i)) = bm_have bm"
    and "bm_used (fst (BitfieldMan_setUseBit bm i)) = bm_used bm \<union> ({i} \<inter> {..<bm_blocks bm})"
    and "bm_selected (fst (BitfieldMan_setUseBit bm i)) = bm_selected bm"
proof -
  have b: "bm_blocks bm \<le> 8 * length (bm_useBitfield bm)"
    using layout_length [OF assms] assms by (simp add: bm_layout_def)
  from bit_set_setBitInternal [OF b, of i True]
  show "bm_used (fst (BitfieldMan_setUseBit bm i)) = bm_used bm \<union> ({i} \<inter> {..<bm_blocks bm})"
    by (simp add: useBit_forms bm_used_def)
qed (use assms in \<open>simp_all add: useBit_forms bm_layout_use\<close>)

lemma BitfieldMan_unsetUseBit_spec:
  assumes "bm_layout bm"
  shows "bm_layout (fst (BitfieldMan_unsetUseBit bm i))"
    and "bm_cached (fst (BitfieldMan_unsetUseBit bm i)) = bm_cached bm"
    and "bm_have (fst (BitfieldMan_unsetUseBit bm i)) = bm_have bm"
    and "bm_used (fst (BitfieldMan_unsetUseBit bm i)) = bm_used bm - {i}"
    and "bm_selected (fst (BitfieldMan_unsetUseBit bm i)) = bm_selected bm"
proof -
  have b: "bm_blocks bm \<le> 8 * length (bm_useBitfield bm)"
    using layout_length [OF assms] assms by (simp add: bm_layout_def)
  from bit_set_setBitInternal [OF b, of i False]
  show "bm_used (fst (BitfieldMan_unsetUseBit bm i)) = bm_used bm - {i}"
    by (simp add: useBit_forms bm_used_def)
qed (use assms in \<open>simp_all add: useBit_forms bm_layout_use\<close>)

lemma fold_setBitInternal:
  assumes "bm_blocks bm \<le> 8 * length f"
  shows "length (fold (\<lambda>i f. fst (BitfieldMan_setBitInternal bm f i True)) xs f) = length f"
    and "bitfield_test (array (fold (\<lambda>i f. fst (BitfieldMan_setBitInternal bm f i True)) xs f)) n j
      = (bitfield_test (array f) n j \<or> j \<in> set xs \<and> j < bm_blocks bm)"
  using assms by (induction xs arbitrary: f) (auto simp: test_setBitInternal)

lemma BitfieldMan_setAllBit_spec:
  assumes "bm_layout bm"
  shows "bm_inv (BitfieldMan_setAllBit bm)"
    and "bm_have (BitfieldMan_setAllBit bm) = {..<bm_blocks bm}"
    and "bm_used (BitfieldMan_setAllBit bm) = bm_used bm"
    and "bm_selected (BitfieldMan_setAllBit bm) = bm_selected bm"
proof -
  have b: "bm_blocks bm \<le> 8 * length (bm_bitfield bm)"
    using layout_length [OF assms] assms by (simp add: bm_layout_def)
  note f = fold_setBitInternal [OF b, of "[0..<bm_blocks bm]"]
  show "bm_inv (BitfieldMan_setAllBit bm)"
    using assms f(1) by (simp add: BitfieldMan_setAllBit_def bm_layout_def)
  show "bm_have (BitfieldMan_setAllBit bm) = {..<bm_blocks bm}"
    by (auto simp: BitfieldMan_setAllBit_def bm_have_def bit_set_def f(2))
qed (simp_all add: BitfieldMan_setAllBit_def bm_used_def bm_selected_def cong: option.case_cong)

lemma bit_set_zero:
  assumes "n \<le> 8 * m" shows "bit_set (array (replicate m 0)) n = {}"
proof -
  have "i div 8 < m" if "i < n" for i using that assms by linarith
  then show ?thesis by (auto simp: bit_set_def)
qed

lemma BitfieldMan_clearAllBit_spec:
  assumes "bm_layout bm"
  shows "bm_inv (BitfieldMan_clearAllBit bm)" and "bm_have (BitfieldMan_clearAllBit bm) = {}"
    and "bm_used (BitfieldMan_clearAllBit bm) = bm_used bm"
    and "bm_selected (BitfieldMan_clearAllBit bm) = bm_selected bm"
  using assms layout_length [OF assms]
  by (simp_all add: BitfieldMan_clearAllBit_def bm_layout_def bm_have_def bm_used_def bm_selected_def bit_set_zero
      cong: option.case_cong)

lemma BitfieldMan_clearAllUseBit_spec:
  assumes "bm_layout bm"
  shows "bm_inv (BitfieldMan_clearAllUseBit bm)" and "bm_used (BitfieldMan_clearAllUseBit bm) = {}"
    and "bm_have (BitfieldMan_clearAllUseBit bm) = bm_have bm"
    and "bm_selected (BitfieldMan_clearAllUseBit bm) = bm_selected bm"
  using assms layout_length [OF assms]
  by (simp_all add: BitfieldMan_clearAllUseBit_def bm_layout_def bm_have_def bm_used_def bm_selected_def bit_set_zero
      cong: option.case_cong)

lemma ceil_div8:
  "b div 8 + (if b mod 8 \<noteq> 0 then 1 else 0) = (b + 7) div 8"
  "0 < b mod 8 \<Longrightarrow> Suc (b div 8) = (b + 7) div 8"
  "b mod 8 = 0 \<Longrightarrow> b div 8 = (b + 7) div 8" for b :: nat
proof -
  obtain q r where "b = 8 * q + r" "r < 8" "b div 8 = q" "b mod 8 = r"
    by (metis mod_less_divisor mult_div_mod_eq zero_less_numeral)
  moreover from this have "(8 * q + r + 7) div 8 = (if r = 0 then q else q + 1)"
    by (intro div_nat_eqI) auto
  ultimately show "b div 8 + (if b mod 8 \<noteq> 0 then 1 else 0) = (b + 7) div 8"
    "0 < b mod 8 \<Longrightarrow> Suc (b div 8) = (b + 7) div 8"
    "b mod 8 = 0 \<Longrightarrow> b div 8 = (b + 7) div 8" by simp_all
qed

lemma BitfieldMan_new_spec:
  assumes "bl < 2 ^ 31" "tlen < 2 ^ 63"
  shows "bm_inv (BitfieldMan_new bl tlen)" and "bm_have (BitfieldMan_new bl tlen) = {}"
    and "bm_used (BitfieldMan_new bl tlen) = {}" and "bm_selected (BitfieldMan_new bl tlen) = {}"
    and "bm_filterEnabled (BitfieldMan_new bl tlen) = False"
    and "bm_totalLength (BitfieldMan_new bl tlen) = tlen" and "bm_blockLength (BitfieldMan_new bl tlen) = bl"
proof -
  have z: "bit_set (array (replicate ((b + 7) div 8) 0)) b = {}" for b
    by (rule bit_set_zero) simp
  show "bm_inv (BitfieldMan_new bl tlen)"
    using assms
    by (auto simp: BitfieldMan_new_def Let_def)
      (auto simp: ceil_div8 bm_inv_def bm_layout_def bm_cached_def BitfieldMan_updateCache_def BitfieldMan_countMissingBlockNow_def
      BitfieldMan_countFilteredBlockNow_def BitfieldMan_getFilteredTotalLengthNow_def bitfield_countSetBit_def
      BitfieldMan_getCompletedLengthNow_def BitfieldMan_getFilteredCompletedLengthNow_def
      BitfieldMan_getCompletedLength_filter_def computeCompletedLength_def)
  show "bm_have (BitfieldMan_new bl tlen) = {}" "bm_used (BitfieldMan_new bl tlen) = {}"
    unfolding BitfieldMan_new_def Let_def ceil_div8(1)
    using z by (auto simp: bm_have_def bm_used_def bit_set_def)
qed (simp_all add: BitfieldMan_new_def Let_def bm_selected_def)

subsection \<open>Bytewise tests and the bits they decide\<close>

lemma byte_eq_iff: "a = b \<longleftrightarrow> (\<forall>k < 8. bit a (7 - k) = bit b (7 - k))" for a b :: byte
proof
  assume *: "\<forall>k < 8. bit a (7 - k) = bit b (7 - k)"
  show "a = b"
  proof (rule bit_word_eqI)
    fix n assume "n < LENGTH(8)"
    then have "bit a (7 - (7 - n)) = bit b (7 - (7 - n))" by (intro * [rule_format]) simp
    with \<open>n < LENGTH(8)\<close> show "bit a n = bit b n" by simp
  qed
qed simp

lemma all_bits_iff: "(\<forall>j < 8 * m. P j) \<longleftrightarrow> (\<forall>i < m. \<forall>k < 8. P (8 * i + k))" for m :: nat
proof
  assume *: "\<forall>i < m. \<forall>k < 8. P (8 * i + k)"
  show "\<forall>j < 8 * m. P j"
  proof (intro allI impI)
    fix j assume "j < 8 * m"
    then have "P (8 * (j div 8) + j mod 8)" by (intro * [rule_format]) auto
    then show "P j" by simp
  qed
qed auto

lemma testAllBitSet_iff:
  assumes "len = (n + 7) div 8"
  shows "testAllBitSet f len n \<longleftrightarrow> bit_set (array f) (8 * len) = {..<n}"
proof (cases "n = 0")
  case True
  then show ?thesis using assms by (auto simp: testAllBitSet_def bit_set_def)
next
  case False
  then have len: "0 < len" "8 * (len - 1) < n" "n \<le> 8 * len" using assms by auto
  have ff: "f ! i = 0xff \<longleftrightarrow> (\<forall>k < 8. bitfield_test (array f) n (8 * i + k))" for i
  proof -
    have "bit (0xff :: byte) (7 - k)" for k
    proof -
      have "(0xff :: byte) = mask 8" by (simp add: mask_eq_exp_minus_1)
      then show ?thesis by (simp only: bit_simps) simp
    qed
    then show ?thesis
      by (subst byte_eq_iff) (auto simp: bitfield_test_block array_def)
  qed
  have lastb: "f ! (len - 1) = bitfield_lastByteMask n \<longleftrightarrow>
    (\<forall>k < 8. bitfield_test (array f) n (8 * (len - 1) + k) = (8 * (len - 1) + k < n))"
  proof -
    have "bit (bitfield_lastByteMask n) (7 - k) = (8 * (len - 1) + k < n)" if "k < 8" for k
    proof -
      have "bit (bitfield_lastByteMask n) (7 - k) = (n mod 8 = 0 \<or> k < n mod 8)"
        using that False lastByteMask_bit [of "7 - k" n] by auto
      also have "\<dots> = (8 * (len - 1) + k < n)"
      proof -
        obtain q r where "n = 8 * q + r" "r < 8" "n mod 8 = r"
          by (metis mod_less_divisor mult_div_mod_eq zero_less_numeral)
        moreover from this have "len = (if r = 0 then q else q + 1)"
          unfolding assms by (intro div_nat_eqI) auto
        ultimately show ?thesis using that False by auto
      qed
      finally show ?thesis .
    qed
    then show ?thesis by (subst byte_eq_iff) (auto simp: bitfield_test_block array_def)
  qed
  have "bit_set (array f) (8 * len) = {..<n} \<longleftrightarrow> (\<forall>j < 8 * len. bitfield_test (array f) n j = (j < n))"
    using len by (auto simp: bit_set_any [where w = n])
  also have "\<dots> \<longleftrightarrow> (\<forall>i < len. \<forall>k < 8. bitfield_test (array f) n (8 * i + k) = (8 * i + k < n))"
    by (rule all_bits_iff)
  also have "\<dots> \<longleftrightarrow> (\<forall>i < len - 1. f ! i = 0xff) \<and> f ! (len - 1) = bitfield_lastByteMask n"
  proof -
    have "(\<forall>i < len. Q i) \<longleftrightarrow> (\<forall>i < len - 1. Q i) \<and> Q (len - 1)" for Q
      using len(1) by (cases len) (auto simp: less_Suc_eq)
    moreover have "8 * i + k < n" if "i < len - 1" "k < 8" for i k using that len by linarith
    ultimately show ?thesis unfolding lastb ff by simp
  qed
  finally show ?thesis using len(1) by (auto simp: testAllBitSet_def)
qed

text \<open>
  The unused bits of the last byte. They are clear after construction and stay clear under
  every operation but \<open>setBitfield\<close>, which copies the bytes of its argument unchecked.
\<close>

definition bm_padded :: "bitfield_man \<Rightarrow> bool" where
  "bm_padded bm \<longleftrightarrow> bit_set (array (bm_bitfield bm)) (8 * bm_bitfieldLength bm) \<subseteq> {..<bm_blocks bm}"

definition bm_filter_padded :: "bitfield_man \<Rightarrow> bool" where
  "bm_filter_padded bm \<longleftrightarrow> (\<forall>f. bm_filterBitfield bm = Some f \<longrightarrow>
     bit_set (array f) (8 * bm_bitfieldLength bm) \<subseteq> {..<bm_blocks bm})"

lemma bm_padded_updateCache [simp]:
  "bm_padded (BitfieldMan_updateCache bm) = bm_padded bm"
  "bm_filter_padded (BitfieldMan_updateCache bm) = bm_filter_padded bm"
  by (simp_all add: bm_padded_def bm_filter_padded_def)

lemma bit_set_mono: "n \<le> m \<Longrightarrow> bit_set a n = bit_set a m \<inter> {..<n}"
  by (auto simp: bit_set_any [where w = 0])

lemma isAllBitSet_iff:
  assumes "bm_layout bm"
  shows "BitfieldMan_isAllBitSet bm \<longleftrightarrow> bm_have bm = {..<bm_blocks bm} \<and> bm_padded bm"
proof -
  have "bm_have bm = bit_set (array (bm_bitfield bm)) (8 * bm_bitfieldLength bm) \<inter> {..<bm_blocks bm}"
    unfolding bm_have_def by (rule bit_set_mono [OF layout_length [OF assms]])
  moreover have "BitfieldMan_isAllBitSet bm \<longleftrightarrow>
    bit_set (array (bm_bitfield bm)) (8 * bm_bitfieldLength bm) = {..<bm_blocks bm}"
    unfolding BitfieldMan_isAllBitSet_def
    by (rule testAllBitSet_iff) (use assms in \<open>simp add: bm_layout_def\<close>)
  ultimately show ?thesis by (auto simp: bm_padded_def)
qed

lemma isAllFilterBitSet_iff:
  assumes "bm_layout bm" "bm_filter_padded bm"
  shows "BitfieldMan_isAllFilterBitSet bm \<longleftrightarrow>
    bm_filterBitfield bm \<noteq> None \<and> bm_selected bm = {..<bm_blocks bm}"
proof (cases "bm_filterBitfield bm")
  case None
  then show ?thesis by (simp add: BitfieldMan_isAllFilterBitSet_def)
next
  case (Some f)
  have "testAllBitSet f (bm_bitfieldLength bm) (bm_blocks bm) \<longleftrightarrow>
    bit_set (array f) (8 * bm_bitfieldLength bm) = {..<bm_blocks bm}"
    by (rule testAllBitSet_iff) (use assms in \<open>simp add: bm_layout_def\<close>)
  moreover have "bit_set (array f) (bm_blocks bm) = bit_set (array f) (8 * bm_bitfieldLength bm) \<inter> {..<bm_blocks bm}"
    by (rule bit_set_mono [OF layout_length [OF assms(1)]])
  ultimately show ?thesis using Some assms(2)
    by (auto simp: BitfieldMan_isAllFilterBitSet_def bm_selected_def bm_filter_padded_def)
qed

lemma byte_nonzero_iff: "a \<noteq> 0 \<longleftrightarrow> (\<exists>k < 8. bit a (7 - k))" for a :: byte
  by (subst byte_eq_iff) auto

lemma byte_and_ff [simp]: "a AND 0xff = a" for a :: byte
proof -
  have m: "(0xff :: byte) = mask 8" by (simp add: mask_eq_exp_minus_1)
  show ?thesis by (rule bit_word_eqI) (simp only: m bit_simps, simp)
qed

lemma isFilteredAllBitSet_iff:
  assumes "bm_layout bm" "bm_filterEnabled bm" "bm_filter_padded bm"
  shows "BitfieldMan_isFilteredAllBitSet bm \<longleftrightarrow> bm_selected bm \<subseteq> bm_have bm"
proof -
  obtain f where f: "bm_filterBitfield bm = Some f" using assms by (auto simp: bm_layout_def)
  let ?n = "bm_blocks bm" and ?l = "bm_bitfieldLength bm"
  have "BitfieldMan_isFilteredAllBitSet bm \<longleftrightarrow>
    (\<forall>i < ?l. \<forall>k < 8. bitfield_test (array f) ?n (8 * i + k) \<longrightarrow> bitfield_test (array (bm_bitfield bm)) ?n (8 * i + k))"
    using assms(2) f
    by (auto simp: BitfieldMan_isFilteredAllBitSet_def byte_eq_iff [of "_ AND _"] bit_and_iff
        bitfield_test_block array_def)
  also have "\<dots> \<longleftrightarrow> (\<forall>j < 8 * ?l. bitfield_test (array f) ?n j \<longrightarrow> bitfield_test (array (bm_bitfield bm)) ?n j)"
    by (rule all_bits_iff [symmetric])
  also have "\<dots> \<longleftrightarrow> bm_selected bm \<subseteq> bm_have bm"
    using assms(3) f layout_length [OF assms(1)]
    by (fastforce simp: bm_filter_padded_def bm_selected_def bm_have_def bit_set_any [where w = ?n])
  finally show ?thesis .
qed

text \<open>A peer is interesting iff it has a block this side lacks (among the selected ones).\<close>

lemma hasMissingPiece_iff:
  assumes "bm_layout bm" and peer: "bit_set (array peer) (8 * len) \<subseteq> {..<bm_blocks bm}"
  shows "BitfieldMan_hasMissingPiece bm peer len \<longleftrightarrow>
    len = bm_bitfieldLength bm \<and> (bit_set (array peer) (bm_blocks bm) - bm_have bm) \<inter> bm_wanted bm \<noteq> {}"
proof (cases "bm_bitfieldLength bm = len")
  case False
  then show ?thesis by (auto simp: BitfieldMan_hasMissingPiece_def)
next
  case len: True
  let ?n = "bm_blocks bm"
  define P where "P j \<longleftrightarrow> bitfield_test (array peer) ?n j \<and> \<not> bitfield_test (array (bm_bitfield bm)) ?n j
    \<and> (bm_filterEnabled bm \<longrightarrow> bitfield_test (array (bm_filter bm)) ?n j)" for j
  have "(let temp = peer ! i AND NOT (bm_bitfield bm ! i);
            temp' = (if bm_filterEnabled bm then temp AND bm_filter bm ! i else temp)
        in temp' AND 0xff \<noteq> 0) \<longleftrightarrow> (\<exists>k < 8. P (8 * i + k))" for i
    by (cases "bm_filterEnabled bm") (auto simp: Let_def byte_nonzero_iff P_def bit_and_iff bit_not_iff
        bitfield_test_block array_def)
  then have "BitfieldMan_hasMissingPiece bm peer len \<longleftrightarrow> (\<exists>i < len. \<exists>k < 8. P (8 * i + k))"
    using len by (simp add: BitfieldMan_hasMissingPiece_def) auto
  also have "\<dots> \<longleftrightarrow> (\<exists>j < 8 * len. P j)"
    using all_bits_iff [of len "\<lambda>j. \<not> P j"] by blast
  also have "\<dots> \<longleftrightarrow> (\<exists>j < ?n. P j)"
  proof -
    have "j < ?n" if "j < 8 * len" "P j" for j
      using that peer by (auto simp: P_def bit_set_any [where w = ?n])
    moreover have "?n \<le> 8 * len" using layout_length [OF assms(1)] len by simp
    ultimately show ?thesis by (meson order_less_le_trans)
  qed
  also have "\<dots> \<longleftrightarrow> (bit_set (array peer) ?n - bm_have bm) \<inter> bm_wanted bm \<noteq> {}"
  proof -
    have "bitfield_test (array (bm_filter bm)) ?n j \<longleftrightarrow> j \<in> bm_selected bm" if "j < ?n" "bm_filterEnabled bm" for j
      using bm_filter_selected [OF that(2) assms(1)] that(1) by (auto simp: bit_set_def)
    then have "P j \<longleftrightarrow> j \<in> (bit_set (array peer) ?n - bm_have bm) \<inter> bm_wanted bm" if "j < ?n" for j
      using that by (auto simp: P_def bm_have_def bit_set_def bm_wanted_def)
    moreover have "bm_wanted bm \<subseteq> {..<?n}" by (rule bm_wanted_sub)
    ultimately show ?thesis by blast
  qed
  finally show ?thesis using len by blast
qed

lemma isBitSet_iff: "i < bm_blocks bm \<Longrightarrow> BitfieldMan_isBitSet bm i \<longleftrightarrow> i \<in> bm_have bm"
  by (simp add: BitfieldMan_isBitSet_def bm_have_def bit_set_def)

lemma isUseBitSet_iff: "i < bm_blocks bm \<Longrightarrow> BitfieldMan_isUseBitSet bm i \<longleftrightarrow> i \<in> bm_used bm"
  by (simp add: BitfieldMan_isUseBitSet_def bm_used_def bit_set_def)

lemma isFilterBitSet_iff: "i < bm_blocks bm \<Longrightarrow> BitfieldMan_isFilterBitSet bm i \<longleftrightarrow> i \<in> bm_selected bm"
  by (auto simp: BitfieldMan_isFilterBitSet_def bm_selected_def bit_set_def split: option.splits)

subsection \<open>Byte ranges\<close>

text \<open>Overlap of the byte range \<open>[a, e)\<close> with block \<open>i\<close> of length \<open>b\<close>.\<close>

definition block_overlap :: "int \<Rightarrow> int \<Rightarrow> int \<Rightarrow> nat \<Rightarrow> int" where
  "block_overlap b a e i = max 0 (min e ((int i + 1) * b) - max a (int i * b))"

lemma div_bounds:
  "0 < b \<Longrightarrow> (x div b) * b \<le> x \<and> x < (x div b + 1) * b" for b x :: int
  using pos_mod_bound [of b x] pos_mod_sign [of b x] div_mult_mod_eq [of x b]
  unfolding distrib_right by linarith

lemma block_overlap_cases:
  assumes b: "0 < b" and ae: "0 \<le> a" "a < e"
  defines "s \<equiv> nat (a div b)" and "t \<equiv> nat ((e - 1) div b)"
  shows "i < s \<Longrightarrow> block_overlap b a e i = 0"
    and "t < i \<Longrightarrow> block_overlap b a e i = 0"
    and "s < i \<Longrightarrow> i < t \<Longrightarrow> block_overlap b a e i = b"
    and "i = s \<Longrightarrow> s < t \<Longrightarrow> block_overlap b a e i = (int s + 1) * b - a"
    and "i = t \<Longrightarrow> s < t \<Longrightarrow> block_overlap b a e i = e - int t * b"
    and "i = s \<Longrightarrow> s = t \<Longrightarrow> block_overlap b a e i = e - a"
    and "s \<le> t"
proof -
  have s: "int s = a div b" "int s * b \<le> a" "a < (int s + 1) * b"
    using b ae div_bounds [of b a] by (auto simp: s_def pos_imp_zdiv_nonneg_iff)
  have t: "int t = (e - 1) div b" "int t * b \<le> e - 1" "e - 1 < (int t + 1) * b"
    using b ae div_bounds [of b "e - 1"] by (auto simp: t_def pos_imp_zdiv_nonneg_iff)
  have mono: "(int x + 1) * b \<le> int y * b" if "x < y" for x y
    using that b by (intro mult_right_mono) auto
  show "s \<le> t" using s(1) t(1) ae zdiv_mono1 [of a "e - 1" b] b by linarith
  show "i < s \<Longrightarrow> block_overlap b a e i = 0"
    using mono [of i s] s by (auto simp: block_overlap_def)
  show "t < i \<Longrightarrow> block_overlap b a e i = 0"
    using mono [of t i] t by (auto simp: block_overlap_def)
  show "s < i \<Longrightarrow> i < t \<Longrightarrow> block_overlap b a e i = b"
    using mono [of s i] mono [of i t] s t b by (auto simp: block_overlap_def algebra_simps)
  show "i = s \<Longrightarrow> s < t \<Longrightarrow> block_overlap b a e i = (int s + 1) * b - a"
    using mono [of s t] s t by (auto simp: block_overlap_def)
  show "i = t \<Longrightarrow> s < t \<Longrightarrow> block_overlap b a e i = e - int t * b"
    using mono [of s t] s t by (auto simp: block_overlap_def)
  show "i = s \<Longrightarrow> s = t \<Longrightarrow> block_overlap b a e i = e - a"
    using s t ae by (auto simp: block_overlap_def)
qed

lemma getOffsetCompletedLength_sum:
  assumes inv: "bm_layout bm" and rng: "0 \<le> offset" "0 \<le> len"
    and pos: "0 < bm_blocks bm"
  shows "BitfieldMan_getOffsetCompletedLength bm offset len =
    (\<Sum>i\<in>bm_have bm. block_overlap (bm_blockLength bm) offset (min (offset + len) (bm_totalLength bm)) i)"
proof (cases "len = 0 \<or> bm_totalLength bm \<le> offset")
  case True
  then have "block_overlap (bm_blockLength bm) offset (min (offset + len) (bm_totalLength bm)) i = 0" for i
    by (auto simp: block_overlap_def)
  with True show ?thesis by (auto simp: BitfieldMan_getOffsetCompletedLength_def)
next
  case False
  define b where "b = bm_blockLength bm"
  define e where "e = min (offset + len) (bm_totalLength bm)"
  define s where "s = nat (offset div b)"
  define t where "t = nat ((e - 1) div b)"
  have b: "0 < b" using bm_blocks_pos [OF inv pos] by (simp add: b_def)
  have ae: "offset < e" using False rng by (auto simp: e_def)
  note ov = block_overlap_cases [OF b rng(1) ae, folded s_def t_def]
  have e63: "e \<le> bm_totalLength bm" "e < 2 ^ 63" using inv unfolding e_def bm_layout_def by linarith+
  have sz: "to_size (x sdiv b) = nat (x div b)" if "0 \<le> x" "x < 2 ^ 63" for x
  proof -
    have "x div b \<le> x" using that b by (metis div_by_1 int_one_le_iff_zero_less zdiv_mono2 zero_less_one)
    moreover have "0 \<le> x div b" using that b by (simp add: pos_imp_zdiv_nonneg_iff)
    ultimately have "to_size (x div b) = nat (x div b)" using that by (intro to_size_nonneg) auto
    then show ?thesis using that b by (cases "x = 0") (simp_all add: signed_divide_int_def)
  qed
  have st: "to_size (offset sdiv b) = s" "to_size ((e - 1) sdiv b) = t"
    using sz [of offset] sz [of "e - 1"] rng ae e63 by (simp_all add: s_def t_def)
  have tn: "t < bm_blocks bm"
  proof -
    have "int t * b \<le> e - 1" using b ae rng div_bounds [of b "e - 1"]
      by (auto simp: t_def pos_imp_zdiv_nonneg_iff)
    then have "int t * b < int (bm_blocks bm) * b"
      using e63 bm_blocks_pos(4) [OF inv pos] by (simp add: b_def mult.commute)
    then show ?thesis using b by simp
  qed
  let ?ov = "block_overlap b offset e" and ?H = "bm_have bm"
  have fin: "finite ?H" by (simp add: bm_have_def)
  have "(\<Sum>i\<in>?H. ?ov i) = (\<Sum>i\<in>?H \<inter> {s..t}. ?ov i)"
  proof (rule sum.mono_neutral_right [OF fin])
    show "\<forall>i\<in>?H - ?H \<inter> {s..t}. ?ov i = 0"
      using ov(1,2) by (metis DiffE IntI atLeastAtMost_iff not_le)
  qed simp
  also have "\<dots> = (\<Sum>i\<in>{s..t}. if i \<in> ?H then ?ov i else 0)"
    by (subst Int_commute) (simp add: sum.inter_restrict)
  also have "\<dots> = BitfieldMan_getOffsetCompletedLength bm offset len"
  proof (cases "s = t")
    case True
    have "BitfieldMan_getOffsetCompletedLength bm offset len = (if s \<in> ?H then e - offset else 0)"
      using False st True tn
      by (auto simp: BitfieldMan_getOffsetCompletedLength_def Let_def e_def b_def isBitSet_iff min_def split: if_splits)
    then show ?thesis using True ov(6) by simp
  next
    case st': False
    then have lt: "s < t" using ov(7) by simp
    have split: "{s..t} = insert s (insert t {s + 1..<t})" using lt by auto
    have mid: "(\<Sum>i\<in>{s + 1..<t}. if i \<in> ?H then ?ov i else 0) =
      sum_list (map (\<lambda>i. if BitfieldMan_isBitSet bm i then b else 0) [s + 1..<t])"
      unfolding sum_list_upt using ov(3) tn by (intro sum.cong) (auto simp: isBitSet_iff)
    have l: "offset + (if bm_totalLength bm < offset + len then bm_totalLength bm - offset else len) = e"
      by (auto simp: e_def)
    have "BitfieldMan_getOffsetCompletedLength bm offset len =
      (if s \<in> ?H then int (s + 1) * b - offset else 0)
      + sum_list (map (\<lambda>i. if BitfieldMan_isBitSet bm i then b else 0) [s + 1..<t])
      + (if t \<in> ?H then e - int t * b else 0)"
      using False st st' tn lt
      by (simp add: BitfieldMan_getOffsetCompletedLength_def Let_def l b_def [symmetric] isBitSet_iff
          del: upt_conv_Cons cong: if_cong)
    then show ?thesis unfolding split mid [symmetric] using lt ov(4,5)
      by (simp add: add.commute add.left_commute)
  qed
  finally show ?thesis by (simp add: e_def b_def)
qed

lemma layoutD:
  assumes "bm_layout bm"
  shows "length (bm_bitfield bm) = bm_bitfieldLength bm"
    and "length (bm_useBitfield bm) = bm_bitfieldLength bm"
    and "bm_filterBitfield bm = Some f \<Longrightarrow> length f = bm_bitfieldLength bm"
    and "bm_filterEnabled bm \<Longrightarrow> \<exists>f. bm_filterBitfield bm = Some f"
  using assms unfolding bm_layout_def by blast+

lemma layout_updates:
  assumes "bm_layout bm"
  shows "length f = bm_bitfieldLength bm \<Longrightarrow> bm_layout (bm\<lparr>bm_bitfield := f\<rparr>)"
    and "length f = bm_bitfieldLength bm \<Longrightarrow> bm_layout (bm\<lparr>bm_useBitfield := f\<rparr>)"
    and "length f = bm_bitfieldLength bm \<Longrightarrow> bm_layout (bm\<lparr>bm_filterBitfield := Some f\<rparr>)"
    and "length f = bm_bitfieldLength bm \<Longrightarrow> bm_layout (bm\<lparr>bm_filterBitfield := Some f, bm_filterEnabled := e\<rparr>)"
    and "bm_layout (bm\<lparr>bm_filterEnabled := False\<rparr>)"
    and "bm_layout (bm\<lparr>bm_filterBitfield := None, bm_filterEnabled := False\<rparr>)"
  using assms unfolding bm_layout_def by simp_all

lemma to_size_sdiv:
  assumes "0 < b" "0 \<le> x" "x < 2 ^ 63"
  shows "to_size (x sdiv b) = nat (x div b)"
proof -
  have "x div b \<le> x" using assms by (metis div_by_1 int_one_le_iff_zero_less zdiv_mono2 zero_less_one)
  moreover have "0 \<le> x div b" using assms by (simp add: pos_imp_zdiv_nonneg_iff)
  ultimately have "to_size (x div b) = nat (x div b)" using assms by (intro to_size_nonneg) auto
  then show ?thesis using assms by (cases "x = 0") (simp_all add: signed_divide_int_def)
qed

lemma block_overlap_pos_iff:
  assumes "0 < b" "0 \<le> a" "a < e"
  shows "0 < block_overlap b a e i \<longleftrightarrow> nat (a div b) \<le> i \<and> i \<le> nat ((e - 1) div b)"
proof -
  note ov = block_overlap_cases [OF assms]
  define s where "s = nat (a div b)"
  define t where "t = nat ((e - 1) div b)"
  have s: "a < (int s + 1) * b"
    using assms div_bounds [of b a] by (simp add: s_def pos_imp_zdiv_nonneg_iff)
  have t: "int t * b \<le> e - 1"
    using assms div_bounds [of b "e - 1"] by (simp add: t_def pos_imp_zdiv_nonneg_iff)
  consider "i < s" | "t < i" | "s \<le> i" "i \<le> t" by linarith
  then show ?thesis
  proof cases
    case 3
    note o = ov(3-6) [folded s_def t_def, of i]
    have "0 < block_overlap b a e i"
    proof (cases "s = t")
      case True
      with 3 have "block_overlap b a e i = e - a" by (intro o(4)) auto
      then show ?thesis using assms by simp
    next
      case False
      with 3 consider "i = s" "s < t" | "i = t" "s < t" | "s < i" "i < t" by linarith
      then show ?thesis
      proof cases
        case 1
        then show ?thesis using o(2) s by linarith
      next
        case 2
        then show ?thesis using o(3) t by linarith
      next
        case 3
        then show ?thesis using o(1) assms by linarith
      qed
    qed
    with 3 show ?thesis by (simp add: s_def t_def)
  qed (use ov(1,2) [of i] in \<open>auto simp: s_def t_def\<close>)
qed

subsection \<open>Effect of the filter operations\<close>

text \<open>Blocks that a byte range touches.\<close>

definition bm_range_blocks :: "bitfield_man \<Rightarrow> int \<Rightarrow> int \<Rightarrow> nat set" where
  "bm_range_blocks bm offset len =
     {i. i < bm_blocks bm \<and> 0 < block_overlap (bm_blockLength bm) offset (offset + len) i}"

lemma setBitInternal_blocks:
  "bm_blocks a = bm_blocks b \<Longrightarrow> BitfieldMan_setBitInternal a f i on = BitfieldMan_setBitInternal b f i on"
  by (simp add: BitfieldMan_setBitInternal_def)

lemma fold_filterBit:
  assumes "bm_filterBitfield bm = Some f"
  shows "fold (\<lambda>i b. BitfieldMan_setFilterBit b i) xs bm =
      bm\<lparr>bm_filterBitfield := Some (fold (\<lambda>i f. fst (BitfieldMan_setBitInternal bm f i True)) xs f)\<rparr>"
    and "fold (\<lambda>i b. BitfieldMan_unsetFilterBit b i) xs bm =
      bm\<lparr>bm_filterBitfield := Some (fold (\<lambda>i f. fst (BitfieldMan_setBitInternal bm f i False)) xs f)\<rparr>"
proof -
  have "fold (\<lambda>i b. BitfieldMan_setFilterBit b i) xs (bm\<lparr>bm_filterBitfield := Some f\<rparr>) =
      bm\<lparr>bm_filterBitfield := Some (fold (\<lambda>i f. fst (BitfieldMan_setBitInternal bm f i True)) xs f)\<rparr>" for f
    by (induction xs arbitrary: f)
      (simp_all add: BitfieldMan_setFilterBit_def setBitInternal_blocks [of "bm\<lparr>bm_filterBitfield := _\<rparr>" bm])
  from this [of f] assms show "fold (\<lambda>i b. BitfieldMan_setFilterBit b i) xs bm =
      bm\<lparr>bm_filterBitfield := Some (fold (\<lambda>i f. fst (BitfieldMan_setBitInternal bm f i True)) xs f)\<rparr>"
    by (metis bitfield_man.surjective bitfield_man.update_convs(7))
  have "fold (\<lambda>i b. BitfieldMan_unsetFilterBit b i) xs (bm\<lparr>bm_filterBitfield := Some f\<rparr>) =
      bm\<lparr>bm_filterBitfield := Some (fold (\<lambda>i f. fst (BitfieldMan_setBitInternal bm f i False)) xs f)\<rparr>" for f
    by (induction xs arbitrary: f)
      (simp_all add: BitfieldMan_unsetFilterBit_def setBitInternal_blocks [of "bm\<lparr>bm_filterBitfield := _\<rparr>" bm])
  from this [of f] assms show "fold (\<lambda>i b. BitfieldMan_unsetFilterBit b i) xs bm =
      bm\<lparr>bm_filterBitfield := Some (fold (\<lambda>i f. fst (BitfieldMan_setBitInternal bm f i False)) xs f)\<rparr>"
    by (metis bitfield_man.surjective bitfield_man.update_convs(7))
qed

lemma fold_clearBitInternal:
  assumes "bm_blocks bm \<le> 8 * length f"
  shows "length (fold (\<lambda>i f. fst (BitfieldMan_setBitInternal bm f i False)) xs f) = length f"
    and "bitfield_test (array (fold (\<lambda>i f. fst (BitfieldMan_setBitInternal bm f i False)) xs f)) n j
      = (bitfield_test (array f) n j \<and> \<not> (j \<in> set xs \<and> j < bm_blocks bm))"
  using assms by (induction xs arbitrary: f) (auto simp: test_setBitInternal)

text \<open>
  A filter update: the buffer exists afterwards, everything but the buffer and the caches is
  as before. The four public operations are instances.
\<close>

definition filter_update :: "bitfield_man \<Rightarrow> byte list \<Rightarrow> bitfield_man" where
  "filter_update bm f = BitfieldMan_updateCache (bm\<lparr>bm_filterBitfield := Some f\<rparr>)"

lemma filter_update_spec:
  assumes "bm_layout bm" "length f = bm_bitfieldLength bm"
  shows "bm_inv (filter_update bm f)" and "bm_have (filter_update bm f) = bm_have bm"
    and "bm_used (filter_update bm f) = bm_used bm"
    and "bm_selected (filter_update bm f) = bit_set (array f) (bm_blocks bm)"
    and "bm_filterEnabled (filter_update bm f) = bm_filterEnabled bm"
    and "bm_padded (filter_update bm f) = bm_padded bm"
    and "bm_filter_padded (filter_update bm f) \<longleftrightarrow> bit_set (array f) (8 * bm_bitfieldLength bm) \<subseteq> {..<bm_blocks bm}"
  using layout_updates(3) [OF assms] by (simp_all add: filter_update_def)
    (simp_all add: bm_have_def bm_used_def bm_selected_def bm_padded_def bm_filter_padded_def)

definition filter_buffer :: "bitfield_man \<Rightarrow> byte list" where
  "filter_buffer bm = (case bm_filterBitfield bm of None \<Rightarrow> replicate (bm_bitfieldLength bm) 0 | Some f \<Rightarrow> f)"

lemma ensureFilter_eq:
  "BitfieldMan_ensureFilterBitfield bm = bm\<lparr>bm_filterBitfield := Some (filter_buffer bm)\<rparr>"
  by (cases bm) (auto simp: BitfieldMan_ensureFilterBitfield_def filter_buffer_def split: option.split)

lemma filter_buffer_spec:
  assumes "bm_layout bm"
  shows "length (filter_buffer bm) = bm_bitfieldLength bm"
    and "bit_set (array (filter_buffer bm)) (bm_blocks bm) = bm_selected bm"
    and "bm_filter_padded bm \<Longrightarrow> bit_set (array (filter_buffer bm)) (8 * bm_bitfieldLength bm) \<subseteq> {..<bm_blocks bm}"
  using layoutD(3) [OF assms] layout_length [OF assms]
  by (auto simp: filter_buffer_def bm_selected_def bm_filter_padded_def bit_set_zero split: option.split)

text \<open>The indexes the loops of the filter operations visit.\<close>

definition range_list :: "bitfield_man \<Rightarrow> int \<Rightarrow> int \<Rightarrow> nat list" where
  "range_list bm offset len = (if len > 0 then
     [to_size (offset sdiv bm_blockLength bm)
        ..<min (to_size ((offset + len - 1) sdiv bm_blockLength bm) + 1) (bm_blocks bm)] else [])"

definition outside_list :: "bitfield_man \<Rightarrow> int \<Rightarrow> int \<Rightarrow> nat list" where
  "outside_list bm offset len = (if len > 0 \<and> bm_blocks bm > 0 then
     [0..<min (bm_blocks bm) (to_size (offset sdiv bm_blockLength bm))]
     @ [to_size ((offset + len - 1) sdiv bm_blockLength bm) + 1..<bm_blocks bm] else [])"

lemma filter_op_forms:
  "BitfieldMan_addFilter bm offset len = filter_update bm
     (fold (\<lambda>i f. fst (BitfieldMan_setBitInternal bm f i True)) (range_list bm offset len) (filter_buffer bm))"
  "BitfieldMan_removeFilter bm offset len = filter_update bm
     (fold (\<lambda>i f. fst (BitfieldMan_setBitInternal bm f i False)) (range_list bm offset len) (filter_buffer bm))"
  "BitfieldMan_addNotFilter bm offset len = filter_update bm
     (fold (\<lambda>i f. fst (BitfieldMan_setBitInternal bm f i True)) (outside_list bm offset len) (filter_buffer bm))"
  by (simp_all add: BitfieldMan_addFilter_def BitfieldMan_removeFilter_def BitfieldMan_addNotFilter_def
      filter_update_def Let_def ensureFilter_eq fold_filterBit range_list_def outside_list_def min_def
      setBitInternal_blocks [of "bm\<lparr>bm_filterBitfield := _\<rparr>" bm])

lemma range_list_set:
  assumes lay: "bm_layout bm" and o: "0 \<le> offset" "offset + len < 2 ^ 63"
  shows "set (range_list bm offset len) = bm_range_blocks bm offset len"
proof (cases "0 < len \<and> 0 < bm_blocks bm")
  case True
  then show ?thesis using assms bm_blocks_pos(1) [OF lay]
    by (auto simp: range_list_def bm_range_blocks_def block_overlap_pos_iff to_size_sdiv)
next
  case False
  then show ?thesis by (auto simp: range_list_def bm_range_blocks_def block_overlap_def)
qed

lemma outside_list_set:
  assumes lay: "bm_layout bm" and o: "0 \<le> offset" "0 < len" "offset + len < 2 ^ 63"
  shows "set (outside_list bm offset len) = {..<bm_blocks bm} - bm_range_blocks bm offset len"
proof (cases "0 < bm_blocks bm")
  case True
  then show ?thesis using assms bm_blocks_pos(1) [OF lay]
    by (auto simp: outside_list_def bm_range_blocks_def block_overlap_pos_iff to_size_sdiv)
qed (simp add: outside_list_def)

text \<open>Setting or clearing the bits of a list of indexes in the filter buffer.\<close>

lemma filter_fold_spec:
  assumes lay: "bm_layout bm"
  defines "g on xs \<equiv> filter_update bm (fold (\<lambda>i f. fst (BitfieldMan_setBitInternal bm f i on)) xs (filter_buffer bm))"
  shows "bm_inv (g on xs)" and "bm_have (g on xs) = bm_have bm" and "bm_used (g on xs) = bm_used bm"
    and "bm_filterEnabled (g on xs) = bm_filterEnabled bm"
    and "bm_selected (g True xs) = bm_selected bm \<union> (set xs \<inter> {..<bm_blocks bm})"
    and "bm_selected (g False xs) = bm_selected bm - (set xs \<inter> {..<bm_blocks bm})"
    and "bm_filter_padded bm \<Longrightarrow> bm_filter_padded (g on xs)"
proof -
  note fb = filter_buffer_spec [OF lay]
  have b: "bm_blocks bm \<le> 8 * length (filter_buffer bm)" using layout_length [OF lay] fb(1) by simp
  note fs = fold_setBitInternal [OF b] fold_clearBitInternal [OF b]
  let ?h = "\<lambda>on. fold (\<lambda>i f. fst (BitfieldMan_setBitInternal bm f i on)) xs (filter_buffer bm)"
  have len: "length (?h on) = bm_bitfieldLength bm" for on
    using fs(1,3) fb(1) by (cases on) auto
  note spec = filter_update_spec [OF lay len]
  show "bm_inv (g on xs)" "bm_have (g on xs) = bm_have bm" "bm_used (g on xs) = bm_used bm"
    "bm_filterEnabled (g on xs) = bm_filterEnabled bm"
    by (simp_all add: g_def spec)
  have sel: "bit_set (array (?h True)) n = bit_set (array (filter_buffer bm)) n \<union> (set xs \<inter> {..<bm_blocks bm} \<inter> {..<n})"
    "bit_set (array (?h False)) n = bit_set (array (filter_buffer bm)) n - (set xs \<inter> {..<bm_blocks bm})" for n
    by (auto simp: bit_set_def fs)
  show "bm_selected (g True xs) = bm_selected bm \<union> (set xs \<inter> {..<bm_blocks bm})"
    "bm_selected (g False xs) = bm_selected bm - (set xs \<inter> {..<bm_blocks bm})"
    by (simp_all add: g_def spec sel fb(2) Int_assoc)
  show "bm_filter_padded bm \<Longrightarrow> bm_filter_padded (g on xs)"
    using fb(3) by (cases on) (auto simp: g_def spec sel)
qed

lemma range_blocks_sub: "bm_range_blocks bm offset len \<inter> {..<bm_blocks bm} = bm_range_blocks bm offset len"
  by (auto simp: bm_range_blocks_def)

lemma BitfieldMan_addFilter_spec:
  assumes "bm_layout bm" and "0 \<le> offset" "offset + len < 2 ^ 63"
  shows "bm_inv (BitfieldMan_addFilter bm offset len)"
    and "bm_selected (BitfieldMan_addFilter bm offset len) = bm_selected bm \<union> bm_range_blocks bm offset len"
    and "bm_have (BitfieldMan_addFilter bm offset len) = bm_have bm"
    and "bm_used (BitfieldMan_addFilter bm offset len) = bm_used bm"
    and "bm_filterEnabled (BitfieldMan_addFilter bm offset len) = bm_filterEnabled bm"
    and "bm_filter_padded bm \<Longrightarrow> bm_filter_padded (BitfieldMan_addFilter bm offset len)"
  using assms by (simp_all add: filter_op_forms filter_fold_spec range_list_set range_blocks_sub)

lemma BitfieldMan_removeFilter_spec:
  assumes "bm_layout bm" and "0 \<le> offset" "offset + len < 2 ^ 63"
  shows "bm_inv (BitfieldMan_removeFilter bm offset len)"
    and "bm_selected (BitfieldMan_removeFilter bm offset len) = bm_selected bm - bm_range_blocks bm offset len"
    and "bm_have (BitfieldMan_removeFilter bm offset len) = bm_have bm"
    and "bm_used (BitfieldMan_removeFilter bm offset len) = bm_used bm"
    and "bm_filterEnabled (BitfieldMan_removeFilter bm offset len) = bm_filterEnabled bm"
    and "bm_filter_padded bm \<Longrightarrow> bm_filter_padded (BitfieldMan_removeFilter bm offset len)"
  using assms by (simp_all add: filter_op_forms filter_fold_spec range_list_set range_blocks_sub)

lemma BitfieldMan_addNotFilter_spec:
  assumes "bm_layout bm" and "0 \<le> offset" "offset + len < 2 ^ 63"
  shows "bm_inv (BitfieldMan_addNotFilter bm offset len)"
    and "0 < len \<Longrightarrow> bm_selected (BitfieldMan_addNotFilter bm offset len)
      = bm_selected bm \<union> ({..<bm_blocks bm} - bm_range_blocks bm offset len)"
    and "bm_have (BitfieldMan_addNotFilter bm offset len) = bm_have bm"
    and "bm_used (BitfieldMan_addNotFilter bm offset len) = bm_used bm"
    and "bm_filterEnabled (BitfieldMan_addNotFilter bm offset len) = bm_filterEnabled bm"
    and "bm_filter_padded bm \<Longrightarrow> bm_filter_padded (BitfieldMan_addNotFilter bm offset len)"
  using assms by (auto simp: filter_op_forms filter_fold_spec outside_list_set)

lemma BitfieldMan_enableFilter_spec:
  assumes "bm_layout bm"
  shows "bm_inv (BitfieldMan_enableFilter bm)" and "bm_filterEnabled (BitfieldMan_enableFilter bm)"
    and "bm_selected (BitfieldMan_enableFilter bm) = bm_selected bm"
    and "bm_have (BitfieldMan_enableFilter bm) = bm_have bm"
    and "bm_used (BitfieldMan_enableFilter bm) = bm_used bm"
    and "bm_filter_padded bm \<Longrightarrow> bm_filter_padded (BitfieldMan_enableFilter bm)"
proof -
  note fb = filter_buffer_spec [OF assms]
  show "bm_inv (BitfieldMan_enableFilter bm)"
    using layout_updates(4) [OF assms] fb(1) by (simp add: BitfieldMan_enableFilter_def ensureFilter_eq)
  show "bm_selected (BitfieldMan_enableFilter bm) = bm_selected bm"
    using fb(2) by (simp add: BitfieldMan_enableFilter_def ensureFilter_eq) (simp add: bm_selected_def)
  show "bm_filter_padded bm \<Longrightarrow> bm_filter_padded (BitfieldMan_enableFilter bm)"
    using fb(3) by (simp add: BitfieldMan_enableFilter_def ensureFilter_eq) (simp add: bm_filter_padded_def)
qed (simp_all add: BitfieldMan_enableFilter_def ensureFilter_eq, simp_all add: bm_have_def bm_used_def)

lemma BitfieldMan_disableFilter_spec:
  assumes "bm_layout bm"
  shows "bm_inv (BitfieldMan_disableFilter bm)" and "\<not> bm_filterEnabled (BitfieldMan_disableFilter bm)"
    and "bm_inv (BitfieldMan_clearFilter bm)" and "bm_selected (BitfieldMan_clearFilter bm) = {}"
    and "bm_wanted (BitfieldMan_clearFilter bm) = {..<bm_blocks bm}"
    and "bm_have (BitfieldMan_clearFilter bm) = bm_have bm"
  using layout_updates(5,6) [OF assms]
  by (simp_all add: BitfieldMan_disableFilter_def BitfieldMan_clearFilter_def)
    (simp_all add: bm_selected_def bm_wanted_def bm_have_def)

lemma BitfieldMan_setBitfield_spec:
  assumes "bm_layout bm" "length bs = n" "n = bm_bitfieldLength bm" "0 < n"
  shows "bm_inv (BitfieldMan_setBitfield bm bs n)"
    and "bm_have (BitfieldMan_setBitfield bm bs n) = bit_set (array bs) (bm_blocks bm)"
    and "bm_used (BitfieldMan_setBitfield bm bs n) = {}"
    and "bm_selected (BitfieldMan_setBitfield bm bs n) = bm_selected bm"
proof -
  let ?b = "bm\<lparr>bm_bitfield := bs, bm_useBitfield := replicate n 0\<rparr>"
  have e: "BitfieldMan_setBitfield bm bs n = BitfieldMan_updateCache ?b"
    using assms by (simp add: BitfieldMan_setBitfield_def)
  have "bm_layout ?b" using assms layout_updates(2) [OF layout_updates(1) [OF assms(1)]] by simp
  then show "bm_inv (BitfieldMan_setBitfield bm bs n)" by (simp add: e)
  show "bm_have (BitfieldMan_setBitfield bm bs n) = bit_set (array bs) (bm_blocks bm)"
    by (simp add: e) (simp add: bm_have_def)
  show "bm_selected (BitfieldMan_setBitfield bm bs n) = bm_selected bm"
    by (simp add: e) (simp add: bm_selected_def cong: option.case_cong)
  show "bm_used (BitfieldMan_setBitfield bm bs n) = {}"
    using layout_length [OF assms(1)] assms(3) unfolding e by (simp add: bm_used_def bit_set_zero)
qed

subsection \<open>Ranges of bits and the copy constructor\<close>

lemma setBit_frame [simp]:
  "bm_blocks (fst (BitfieldMan_setBit bm i)) = bm_blocks bm"
  "bm_blocks (fst (BitfieldMan_unsetBit bm i)) = bm_blocks bm"
  "bm_layout bm \<Longrightarrow> bm_layout (fst (BitfieldMan_setBit bm i))"
  "bm_layout bm \<Longrightarrow> bm_layout (fst (BitfieldMan_unsetBit bm i))"
  using BitfieldMan_setBit_spec(1) [of bm i] BitfieldMan_unsetBit_spec(1) [of bm i]
  by (auto simp: bm_inv_def) (simp_all add: BitfieldMan_setBit_def BitfieldMan_unsetBit_def split_def)

lemma fold_unsetBit_spec:
  assumes "bm_layout bm"
  shows "bm_layout (fold (\<lambda>i b. fst (BitfieldMan_unsetBit b i)) xs bm)"
    and "bm_have (fold (\<lambda>i b. fst (BitfieldMan_unsetBit b i)) xs bm) = bm_have bm - set xs"
  using assms by (induction xs arbitrary: bm) (auto simp: BitfieldMan_unsetBit_spec)

lemma fold_setBit_spec:
  assumes "bm_layout bm"
  shows "bm_layout (fold (\<lambda>i b. fst (BitfieldMan_setBit b i)) xs bm)"
    and "bm_have (fold (\<lambda>i b. fst (BitfieldMan_setBit b i)) xs bm) = bm_have bm \<union> (set xs \<inter> {..<bm_blocks bm})"
  using assms by (induction xs arbitrary: bm) (auto simp: BitfieldMan_setBit_spec)

lemma BitfieldMan_setBitRange_spec:
  assumes "bm_layout bm"
  shows "bm_inv (BitfieldMan_setBitRange bm s e)" and "bm_inv (BitfieldMan_unsetBitRange bm s e)"
    and "bm_have (BitfieldMan_setBitRange bm s e) = bm_have bm \<union> ({s..e} \<inter> {..<bm_blocks bm})"
    and "bm_have (BitfieldMan_unsetBitRange bm s e) = bm_have bm - {s..e}"
  using fold_setBit_spec [OF assms] fold_unsetBit_spec [OF assms]
  by (auto simp: BitfieldMan_setBitRange_def BitfieldMan_unsetBitRange_def atLeastLessThanSuc_atLeastAtMost
      simp del: upt_Suc)

lemma BitfieldMan_setAllUseBit_spec:
  assumes "bm_layout bm"
  shows "bm_layout (BitfieldMan_setAllUseBit bm)" and "bm_cached (BitfieldMan_setAllUseBit bm) = bm_cached bm"
    and "bm_have (BitfieldMan_setAllUseBit bm) = bm_have bm"
    and "bm_used (BitfieldMan_setAllUseBit bm) = {..<bm_blocks bm}"
proof -
  have b: "bm_blocks bm \<le> 8 * length (bm_useBitfield bm)"
    using layout_length [OF assms] layoutD(2) [OF assms] by simp
  note f = fold_setBitInternal [OF b, of "[0..<bm_blocks bm]"]
  show "bm_layout (BitfieldMan_setAllUseBit bm)"
    using layout_updates(2) [OF assms] f(1) layoutD(2) [OF assms] by (simp add: BitfieldMan_setAllUseBit_def)
  show "bm_used (BitfieldMan_setAllUseBit bm) = {..<bm_blocks bm}"
    by (auto simp: BitfieldMan_setAllUseBit_def bm_used_def bit_set_def f(2))
qed (simp_all add: BitfieldMan_setAllUseBit_def)

lemma BitfieldMan_copy_spec:
  assumes "bm_layout bm"
  shows "bm_inv (BitfieldMan_copy bm)" and "bm_have (BitfieldMan_copy bm) = bm_have bm"
    and "bm_used (BitfieldMan_copy bm) = bm_used bm"
    and "bm_filterEnabled bm \<Longrightarrow> bm_selected (BitfieldMan_copy bm) = bm_selected bm"
proof -
  let ?f = "\<lambda>b. b\<lparr>bm_cachedCompletedLength := 0, bm_cachedFilteredCompletedLength := 0,
      bm_cachedFilteredTotalLength := 0, bm_cachedNumMissingBlock := 0, bm_cachedNumFilteredBlock := 0\<rparr>"
  let ?g = "if bm_filterEnabled bm then bm_filterBitfield bm else None"
  have "bm_layout ((?f bm)\<lparr>bm_filterBitfield := ?g\<rparr>)"
    using assms by (cases "bm_filterEnabled bm") (simp_all add: bm_layout_def)
  then show "bm_inv (BitfieldMan_copy bm)" by (simp add: BitfieldMan_copy_def)
  show "bm_have (BitfieldMan_copy bm) = bm_have bm" "bm_used (BitfieldMan_copy bm) = bm_used bm"
    by (simp_all add: BitfieldMan_copy_def) (simp_all add: bm_have_def bm_used_def)
  show "bm_filterEnabled bm \<Longrightarrow> bm_selected (BitfieldMan_copy bm) = bm_selected bm"
    by (simp add: BitfieldMan_copy_def) (simp add: bm_selected_def cong: option.case_cong)
qed

subsection \<open>Every sequence of operations\<close>

text \<open>
  The mutating member functions as events. \<open>bm_event_ok\<close> holds the callers' obligations: a
  byte range within \<open>int64_t\<close> and a bitfield buffer of the length passed with it.
\<close>

datatype bm_event =
    SetBit nat | UnsetBit nat | SetUseBit nat | UnsetUseBit nat | SetBitfield "byte list"
  | ClearAllBit | SetAllBit | ClearAllUseBit | SetAllUseBit | SetBitRange nat nat | UnsetBitRange nat nat
  | AddFilter int int | RemoveFilter int int | AddNotFilter int int
  | EnableFilter | DisableFilter | ClearFilter | CopyConstruct

fun bm_apply :: "bm_event \<Rightarrow> bitfield_man \<Rightarrow> bitfield_man" where
  "bm_apply (SetBit i) bm = fst (BitfieldMan_setBit bm i)"
| "bm_apply (UnsetBit i) bm = fst (BitfieldMan_unsetBit bm i)"
| "bm_apply (SetUseBit i) bm = fst (BitfieldMan_setUseBit bm i)"
| "bm_apply (UnsetUseBit i) bm = fst (BitfieldMan_unsetUseBit bm i)"
| "bm_apply (SetBitfield bs) bm = BitfieldMan_setBitfield bm bs (length bs)"
| "bm_apply ClearAllBit bm = BitfieldMan_clearAllBit bm"
| "bm_apply SetAllBit bm = BitfieldMan_setAllBit bm"
| "bm_apply ClearAllUseBit bm = BitfieldMan_clearAllUseBit bm"
| "bm_apply SetAllUseBit bm = BitfieldMan_setAllUseBit bm"
| "bm_apply (SetBitRange s e) bm = BitfieldMan_setBitRange bm s e"
| "bm_apply (UnsetBitRange s e) bm = BitfieldMan_unsetBitRange bm s e"
| "bm_apply (AddFilter off len) bm = BitfieldMan_addFilter bm off len"
| "bm_apply (RemoveFilter off len) bm = BitfieldMan_removeFilter bm off len"
| "bm_apply (AddNotFilter off len) bm = BitfieldMan_addNotFilter bm off len"
| "bm_apply EnableFilter bm = BitfieldMan_enableFilter bm"
| "bm_apply DisableFilter bm = BitfieldMan_disableFilter bm"
| "bm_apply ClearFilter bm = BitfieldMan_clearFilter bm"
| "bm_apply CopyConstruct bm = BitfieldMan_copy bm"

fun bm_event_ok :: "bm_event \<Rightarrow> bool" where
  "bm_event_ok (AddFilter off len) = (0 \<le> off \<and> off + len < 2 ^ 63)"
| "bm_event_ok (RemoveFilter off len) = (0 \<le> off \<and> off + len < 2 ^ 63)"
| "bm_event_ok (AddNotFilter off len) = (0 \<le> off \<and> off + len < 2 ^ 63)"
| "bm_event_ok _ = True"

inductive bm_reach :: "int \<Rightarrow> int \<Rightarrow> bitfield_man \<Rightarrow> bool" for bl tlen where
  init: "bl < 2 ^ 31 \<Longrightarrow> tlen < 2 ^ 63 \<Longrightarrow> bm_reach bl tlen (BitfieldMan_new bl tlen)"
| step: "bm_reach bl tlen bm \<Longrightarrow> bm_event_ok e \<Longrightarrow> bm_reach bl tlen (bm_apply e bm)"

lemma setBitfield_inv:
  assumes "bm_inv bm" shows "bm_inv (BitfieldMan_setBitfield bm bs (length bs))"
proof (cases "bm_bitfieldLength bm = 0 \<or> bm_bitfieldLength bm \<noteq> length bs")
  case True
  then show ?thesis using assms by (auto simp: BitfieldMan_setBitfield_def)
next
  case False
  then have "length bs = bm_bitfieldLength bm" "0 < length bs" by auto
  with assms show ?thesis by (intro BitfieldMan_setBitfield_spec(1)) (simp_all only: bm_inv_def)
qed

lemmas bm_op_inv = BitfieldMan_setBit_spec(1) BitfieldMan_unsetBit_spec(1) BitfieldMan_clearAllBit_spec(1)
  BitfieldMan_setAllBit_spec(1) BitfieldMan_clearAllUseBit_spec(1) BitfieldMan_setBitRange_spec(1,2)
  BitfieldMan_addFilter_spec(1) BitfieldMan_removeFilter_spec(1) BitfieldMan_addNotFilter_spec(1)
  BitfieldMan_enableFilter_spec(1) BitfieldMan_disableFilter_spec(1,3) BitfieldMan_copy_spec(1)

lemma useBit_inv:
  assumes "bm_inv bm"
  shows "bm_inv (fst (BitfieldMan_setUseBit bm i))" and "bm_inv (fst (BitfieldMan_unsetUseBit bm i))"
    and "bm_inv (BitfieldMan_setAllUseBit bm)"
  using assms BitfieldMan_setUseBit_spec(1,2) [of bm i] BitfieldMan_unsetUseBit_spec(1,2) [of bm i]
    BitfieldMan_setAllUseBit_spec(1,2) [of bm] by (simp_all add: bm_inv_def)

lemma bm_inv_layout: "bm_inv bm \<Longrightarrow> bm_layout bm"
  by (simp add: bm_inv_def)

lemma bm_apply_inv: "bm_inv bm \<Longrightarrow> bm_event_ok e \<Longrightarrow> bm_inv (bm_apply e bm)"
  by (cases e) (simp_all add: setBitfield_inv useBit_inv bm_op_inv bm_inv_layout)

lemma bm_reach_inv: "bm_reach bl tlen bm \<Longrightarrow> bm_inv bm"
  by (induction rule: bm_reach.induct) (simp_all add: BitfieldMan_new_spec bm_apply_inv)


text \<open>No operation changes the geometry.\<close>

definition bm_geometry :: "bitfield_man \<Rightarrow> int \<times> int \<times> nat" where
  "bm_geometry bm = (bm_totalLength bm, bm_blockLength bm, bm_blocks bm)"

lemma fold_frame: "(\<And>i b. f (g i b) = f b) \<Longrightarrow> f (fold g xs b) = f b"
  by (induction xs arbitrary: b) auto

lemma geometry_simps [simp]:
  "bm_geometry (BitfieldMan_updateCache bm) = bm_geometry bm"
  "bm_geometry (bm\<lparr>bm_bitfield := f\<rparr>) = bm_geometry bm"
  "bm_geometry (bm\<lparr>bm_useBitfield := f\<rparr>) = bm_geometry bm"
  "bm_geometry (bm\<lparr>bm_filterBitfield := f'\<rparr>) = bm_geometry bm"
  "bm_geometry (bm\<lparr>bm_filterEnabled := e\<rparr>) = bm_geometry bm"
  by (simp_all add: bm_geometry_def)

lemma geometry_ops:
  "bm_geometry (fst (BitfieldMan_setBit bm i)) = bm_geometry bm"
  "bm_geometry (fst (BitfieldMan_unsetBit bm i)) = bm_geometry bm"
  "bm_geometry (fst (BitfieldMan_setUseBit bm i)) = bm_geometry bm"
  "bm_geometry (fst (BitfieldMan_unsetUseBit bm i)) = bm_geometry bm"
  "bm_geometry (BitfieldMan_ensureFilterBitfield bm) = bm_geometry bm"
  "bm_geometry (filter_update bm f) = bm_geometry bm"
  by (simp_all add: BitfieldMan_setBit_def BitfieldMan_unsetBit_def BitfieldMan_setUseBit_def
      BitfieldMan_unsetUseBit_def BitfieldMan_ensureFilterBitfield_def filter_update_def split_def split: option.split)

lemma bm_apply_geometry: "bm_geometry (bm_apply e bm) = bm_geometry bm"
  by (cases e) (simp_all add: geometry_ops filter_op_forms BitfieldMan_setBitfield_def BitfieldMan_clearAllBit_def
    BitfieldMan_setAllBit_def BitfieldMan_clearAllUseBit_def BitfieldMan_setAllUseBit_def
    BitfieldMan_setBitRange_def BitfieldMan_unsetBitRange_def fold_frame [where f = bm_geometry]
    BitfieldMan_enableFilter_def BitfieldMan_disableFilter_def BitfieldMan_clearFilter_def,
    simp add: BitfieldMan_copy_def bm_geometry_def)

lemma bm_reach_geometry: "bm_reach bl tlen bm \<Longrightarrow> bm_totalLength bm = tlen \<and> bm_blockLength bm = bl"
proof (induction rule: bm_reach.induct)
  case (step bm e)
  then show ?case using bm_apply_geometry [of e bm] by (simp add: bm_geometry_def)
qed (simp add: BitfieldMan_new_spec)

subsection \<open>Properties\<close>

text \<open>C12: However a bitfield is used after its construction (bits, use bits, ranges, filters,
  copies, bitfields received from outside), the counters that \<open>getCompletedLength\<close>,
  \<open>getFilteredCompletedLength\<close>, \<open>getFilteredTotalLength\<close> and \<open>countMissingBlock\<close> return are the
  lengths and the number of the blocks currently finished, selected and missing.\<close>
theorem bm_reach_caches:
  assumes "bm_reach bl tlen bm"
  shows "bm_cachedNumMissingBlock bm = card (bm_wanted bm - bm_have bm)
    \<and> bm_cachedCompletedLength bm = (\<Sum>i\<in>bm_have bm. BitfieldMan_getBlockLength bm i)
    \<and> bm_cachedFilteredCompletedLength bm = (\<Sum>i\<in>bm_have bm \<inter> bm_wanted bm. BitfieldMan_getBlockLength bm i)
    \<and> bm_cachedFilteredTotalLength bm = (\<Sum>i\<in>bm_selected bm. BitfieldMan_getBlockLength bm i)"
  using cached_values [OF bm_reach_inv [OF assms]] by blast

theorem bm_reach_caches_witness:
  "let bm = bm_apply EnableFilter (bm_apply (AddFilter 16 20) (bm_apply (SetBit 1) (BitfieldMan_new 16 40)))
   in bm_cachedFilteredCompletedLength bm = (\<Sum>i\<in>bm_have bm \<inter> bm_wanted bm. BitfieldMan_getBlockLength bm i)"
proof -
  let ?bm = "bm_apply EnableFilter (bm_apply (AddFilter 16 20) (bm_apply (SetBit 1) (BitfieldMan_new 16 40)))"
  have "bm_reach 16 40 ?bm" by (intro bm_reach.intros) simp_all
  from bm_reach_caches [OF this] show ?thesis by (simp only: Let_def)
qed

text \<open>C19: A download is complete exactly when its completed length is its total length: in every
  reachable state the completed length lies between 0 and the total length, and the upper bound
  is reached only when every block is finished.\<close>
theorem bm_reach_completed_bound:
  assumes "bm_reach bl tlen bm" "0 < bl" "0 < tlen"
  shows "0 \<le> bm_cachedCompletedLength bm \<and> bm_cachedCompletedLength bm \<le> tlen
    \<and> (bm_cachedCompletedLength bm = tlen \<longleftrightarrow> bm_have bm = {..<bm_blocks bm})"
proof -
  note inv = bm_reach_inv [OF assms(1)]
  note lay = bm_inv_layout [OF inv] and geo = bm_reach_geometry [OF assms(1)]
  have "0 < (tlen + bl - 1) div bl" using assms(2,3) by (simp add: pos_imp_zdiv_pos_iff)
  moreover have "bm_blocks bm = nat ((tlen + bl - 1) div bl)"
    using conjunct1 [OF lay [unfolded bm_layout_def]] geo assms(2,3) by simp
  ultimately have pos: "0 < bm_blocks bm" by simp
  have l: "0 < BitfieldMan_getBlockLength bm i" if "i \<in> {..<bm_blocks bm}" for i
    using getBlockLength_pos [OF lay] that by simp
  have all: "(\<Sum>i\<in>{..<bm_blocks bm}. BitfieldMan_getBlockLength bm i) = tlen"
    using sum_all_blocks [OF lay pos] geo by simp
  have split: "tlen = bm_cachedCompletedLength bm + (\<Sum>i\<in>{..<bm_blocks bm} - bm_have bm. BitfieldMan_getBlockLength bm i)"
    using sum.subset_diff [OF bm_have_sub, of bm "BitfieldMan_getBlockLength bm"] all cached_values(2) [OF inv] by simp
  let ?rest = "\<Sum>i\<in>{..<bm_blocks bm} - bm_have bm. BitfieldMan_getBlockLength bm i"
  have "0 \<le> ?rest" by (intro sum_nonneg less_imp_le l) blast
  moreover have "0 \<le> bm_cachedCompletedLength bm" unfolding cached_values(2) [OF inv]
    by (intro sum_nonneg less_imp_le l) (use bm_have_sub in blast)
  moreover have "?rest = 0 \<longleftrightarrow> {..<bm_blocks bm} - bm_have bm = {}"
    using l by (subst sum_nonneg_eq_0_iff) (auto intro: less_imp_le, force)
  moreover have "{..<bm_blocks bm} - bm_have bm = {} \<longleftrightarrow> bm_have bm = {..<bm_blocks bm}"
    using bm_have_sub [of bm] by auto
  ultimately show ?thesis using split by auto
qed

theorem bm_reach_completed_bound_witness:
  "let bm = bm_apply (SetBit 2) (BitfieldMan_new 16 40)
   in bm_cachedCompletedLength bm \<le> 40 \<and> (bm_cachedCompletedLength bm = 40 \<longleftrightarrow> bm_have bm = {..<bm_blocks bm})"
proof -
  have "bm_reach 16 40 (bm_apply (SetBit 2) (BitfieldMan_new 16 40))" by (intro bm_reach.intros) simp_all
  from bm_reach_completed_bound [OF this] show ?thesis by (simp only: Let_def)
qed

text \<open>\<open>getOffsetCompletedLength\<close> computes, by its cases on the first and the last block, the
  number of bytes of the range that lie in finished blocks.\<close>
theorem getOffsetCompletedLength_counts:
  assumes "bm_layout bm" "0 < bm_blocks bm" "0 \<le> offset" "0 \<le> len"
  shows "BitfieldMan_getOffsetCompletedLength bm offset len =
    (\<Sum>i\<in>bm_have bm. block_overlap (bm_blockLength bm) offset (min (offset + len) (bm_totalLength bm)) i)"
  using assms by (intro getOffsetCompletedLength_sum)

theorem getOffsetCompletedLength_counts_witness:
  "let bm = fst (BitfieldMan_setBit (BitfieldMan_new 16 40) 1) in
   BitfieldMan_getOffsetCompletedLength bm 10 20 = (\<Sum>i\<in>bm_have bm. block_overlap 16 10 30 i)"
proof -
  let ?b = "BitfieldMan_new 16 40"
  have "bm_layout (fst (BitfieldMan_setBit ?b 1))"
    using BitfieldMan_new_spec(1) [of 16 40] by (simp add: bm_inv_def)
  from getOffsetCompletedLength_counts [OF this, of 10 20] show ?thesis
    by (simp add: BitfieldMan_setBit_def split_def BitfieldMan_new_def)
qed

text \<open>The three filter operations select exactly the blocks their byte range touches:
  \<open>addFilter\<close> adds them, \<open>removeFilter\<close> removes them and \<open>addNotFilter\<close> adds all the others.\<close>
theorem filter_operations_select:
  assumes "bm_layout bm" "0 \<le> offset" "0 < len" "offset + len < 2 ^ 63"
  shows "bm_selected (BitfieldMan_addFilter bm offset len) = bm_selected bm \<union> bm_range_blocks bm offset len
    \<and> bm_selected (BitfieldMan_removeFilter bm offset len) = bm_selected bm - bm_range_blocks bm offset len
    \<and> bm_selected (BitfieldMan_addNotFilter bm offset len)
        = bm_selected bm \<union> ({..<bm_blocks bm} - bm_range_blocks bm offset len)"
  using assms by (simp add: BitfieldMan_addFilter_spec BitfieldMan_removeFilter_spec BitfieldMan_addNotFilter_spec)

theorem filter_operations_select_witness:
  "bm_selected (BitfieldMan_addFilter (BitfieldMan_new 16 40) 16 20)
     = bm_range_blocks (BitfieldMan_new 16 40) 16 20"
proof -
  note n = BitfieldMan_new_spec [of 16 40]
  have "bm_layout (BitfieldMan_new 16 40)" using n(1) by (simp add: bm_inv_def)
  from filter_operations_select [OF this, of 16 20] n(4) show ?thesis by simp
qed

text \<open>\<open>hasMissingPiece\<close>, which walks the buffers byte by byte, answers whether the peer has
  a selected block that this side lacks, and \<open>isFilteredAllBitSet\<close> whether no selected block
  is missing.\<close>
theorem hasMissingPiece_decides:
  assumes "bm_layout bm" "bit_set (array peer) (8 * len) \<subseteq> {..<bm_blocks bm}"
  shows "BitfieldMan_hasMissingPiece bm peer len \<longleftrightarrow>
    len = bm_bitfieldLength bm \<and> (bit_set (array peer) (bm_blocks bm) - bm_have bm) \<inter> bm_wanted bm \<noteq> {}"
  using assms by (rule hasMissingPiece_iff)

theorem hasMissingPiece_decides_witness:
  "BitfieldMan_hasMissingPiece (BitfieldMan_new 16 40) [0] 1 \<longleftrightarrow>
    1 = bm_bitfieldLength (BitfieldMan_new 16 40)
    \<and> (bit_set (array [0]) (bm_blocks (BitfieldMan_new 16 40)) - bm_have (BitfieldMan_new 16 40))
        \<inter> bm_wanted (BitfieldMan_new 16 40) \<noteq> {}"
proof (rule hasMissingPiece_decides)
  show "bm_layout (BitfieldMan_new 16 40)" using BitfieldMan_new_spec(1) [of 16 40] by (simp add: bm_inv_def)
  show "bit_set (array [0]) (8 * 1) \<subseteq> {..<bm_blocks (BitfieldMan_new 16 40)}"
    using bit_set_zero [of 8 1] by simp
qed

end
