(* ===== verification/Bitfield_Search.thy ===== *)
theory Bitfield_Search
  imports Bitfield_Man Complex_Main
begin

text \<open>
  The index searches of \<open>BitfieldMan\<close>: first missing blocks, copies of the missing bits, and the
  three strategies (sparse, in-order and geometric) by which a stream download picks the piece
  a connection fetches next. A \<open>bool\<close> result with an output parameter is an \<open>option\<close>.
\<close>

unbundle bit_operations_syntax

subsection \<open>First missing blocks\<close>

definition BitfieldMan_getFirstMissingUnusedIndex :: "bitfield_man \<Rightarrow> nat option" where
  "BitfieldMan_getFirstMissingUnusedIndex bm =
     (if bm_filterEnabled bm
      then bitfield_getFirstSetBitIndex
             (array_and (array_and (array_not (array (bm_bitfield bm)))
                (array_not (array (bm_useBitfield bm)))) (array (bm_filter bm))) (bm_blocks bm)
      else bitfield_getFirstSetBitIndex
             (array_and (array_not (array (bm_bitfield bm))) (array_not (array (bm_useBitfield bm))))
             (bm_blocks bm))"

definition BitfieldMan_getFirstNMissingUnusedIndex :: "bitfield_man \<Rightarrow> nat \<Rightarrow> nat list" where
  "BitfieldMan_getFirstNMissingUnusedIndex bm n =
     (if bm_filterEnabled bm
      then bitfield_getFirstNSetBitIndex n
             (array_and (array_and (array_not (array (bm_bitfield bm)))
                (array_not (array (bm_useBitfield bm)))) (array (bm_filter bm))) (bm_blocks bm)
      else bitfield_getFirstNSetBitIndex n
             (array_and (array_not (array (bm_bitfield bm))) (array_not (array (bm_useBitfield bm))))
             (bm_blocks bm))"

definition BitfieldMan_getFirstMissingIndex :: "bitfield_man \<Rightarrow> nat option" where
  "BitfieldMan_getFirstMissingIndex bm =
     (if bm_filterEnabled bm
      then bitfield_getFirstSetBitIndex
             (array_and (array_not (array (bm_bitfield bm))) (array (bm_filter bm))) (bm_blocks bm)
      else bitfield_getFirstSetBitIndex (array_not (array (bm_bitfield bm))) (bm_blocks bm))"

subsection \<open>Copies of the missing bits\<close>

text \<open>
  \<open>copyBitfield\<close> runs its loop up to \<open>len - 1\<close> and then writes \<open>dst[len - 1]\<close>; with no
  blocks \<open>len - 1\<close> wraps and both leave the buffers, which is the result \<open>None\<close>.
\<close>

definition copyBitfield :: "byte_array \<Rightarrow> nat \<Rightarrow> (byte list \<times> bool) option" where
  "copyBitfield src blocks =
     (let len = (blocks + 7) div 8 in
      if len = 0 then None
      else let dst = map src [0..<len - 1] @ [src (len - 1) AND bitfield_lastByteMask blocks];
               bits = fold (OR) dst 0
           in Some (dst, bits \<noteq> 0))"

definition BitfieldMan_getAllMissingIndexes :: "bitfield_man \<Rightarrow> (byte list \<times> bool) option" where
  "BitfieldMan_getAllMissingIndexes bm =
     (if bm_filterEnabled bm
      then copyBitfield (array_and (array_not (array (bm_bitfield bm))) (array (bm_filter bm))) (bm_blocks bm)
      else copyBitfield (array_not (array (bm_bitfield bm))) (bm_blocks bm))"

text \<open>On a length mismatch the output buffer is left as it was (here empty).\<close>

definition BitfieldMan_getAllMissingIndexes_peer ::
    "bitfield_man \<Rightarrow> byte list \<Rightarrow> nat \<Rightarrow> (byte list \<times> bool) option" where
  "BitfieldMan_getAllMissingIndexes_peer bm peerBitfield peerBitfieldLength =
     (if bm_bitfieldLength bm \<noteq> peerBitfieldLength then Some ([], False)
      else if bm_filterEnabled bm
      then copyBitfield (array_and (array_and (array_not (array (bm_bitfield bm))) (array peerBitfield))
             (array (bm_filter bm))) (bm_blocks bm)
      else copyBitfield (array_and (array_not (array (bm_bitfield bm))) (array peerBitfield)) (bm_blocks bm))"

definition BitfieldMan_getAllMissingIndexes_vec ::
    "bitfield_man \<Rightarrow> nat list \<Rightarrow> byte list \<Rightarrow> nat \<Rightarrow> (nat list \<times> bool) option" where
  "BitfieldMan_getAllMissingIndexes_vec bm out bitfield len =
     (case BitfieldMan_getAllMissingIndexes_peer bm bitfield len of
        None \<Rightarrow> None
      | Some (misbitfield, r) \<Rightarrow>
          if \<not> r then Some (out, False)
          else let out' = out @ filter (bitfield_test (array misbitfield) (bm_blocks bm)) [0..<bm_blocks bm]
               in Some (out', out' \<noteq> []))"

definition BitfieldMan_getAllMissingUnusedIndexes ::
    "bitfield_man \<Rightarrow> byte list \<Rightarrow> nat \<Rightarrow> (byte list \<times> bool) option" where
  "BitfieldMan_getAllMissingUnusedIndexes bm peerBitfield peerBitfieldLength =
     (if bm_bitfieldLength bm \<noteq> peerBitfieldLength then Some ([], False)
      else if bm_filterEnabled bm
      then copyBitfield (array_and (array_and (array_and (array_not (array (bm_bitfield bm)))
             (array_not (array (bm_useBitfield bm)))) (array peerBitfield)) (array (bm_filter bm))) (bm_blocks bm)
      else copyBitfield (array_and (array_and (array_not (array (bm_bitfield bm)))
             (array_not (array (bm_useBitfield bm)))) (array peerBitfield)) (bm_blocks bm))"

subsection \<open>Sparse search\<close>

text \<open>The \<open>while\<close> loops that advance an index while the bits satisfy a test.\<close>

function scan_while :: "(nat \<Rightarrow> bool) \<Rightarrow> nat \<Rightarrow> nat \<Rightarrow> nat" where
  "scan_while p i n = (if i < n \<and> p i then scan_while p (i + 1) n else i)"
  by pat_completeness auto
termination
  by (relation "measure (\<lambda>(p, i, n). n - i)") auto

declare scan_while.simps [simp del]

definition getStartIndex :: "nat \<Rightarrow> byte_array \<Rightarrow> nat \<Rightarrow> nat" where
  "getStartIndex index bitfield blocks =
     (let i = scan_while (bitfield_test bitfield blocks) index blocks
      in if blocks \<le> i then blocks else i)"

definition getEndIndex :: "nat \<Rightarrow> byte_array \<Rightarrow> nat \<Rightarrow> nat" where
  "getEndIndex index bitfield blocks = scan_while (\<lambda>i. \<not> bitfield_test bitfield blocks i) index blocks"

record bm_range =
  startIndex :: nat
  endIndex :: nat

definition Range_getSize :: "bm_range \<Rightarrow> nat" where
  "Range_getSize r = endIndex r - startIndex r"

definition Range_getMidIndex :: "bm_range \<Rightarrow> nat" where
  "Range_getMidIndex r = (endIndex r - startIndex r) div 2 + startIndex r"

definition Range_less :: "bm_range \<Rightarrow> bm_range \<Rightarrow> bool" where
  "Range_less a b = (Range_getSize a < Range_getSize b)"

definition Range_eq :: "bm_range \<Rightarrow> bm_range \<Rightarrow> bool" where
  "Range_eq a b = (Range_getSize a = Range_getSize b)"

lemma scan_while_ge: "i \<le> scan_while p i n"
  by (induction p i n rule: scan_while.induct) (subst scan_while.simps, auto)

lemma scan_while_le: "i \<le> n \<Longrightarrow> scan_while p i n \<le> n"
  by (induction p i n rule: scan_while.induct) (subst scan_while.simps, auto)

lemma scan_while_stop: "scan_while p i n < n \<Longrightarrow> \<not> p (scan_while p i n)"
proof (induction p i n rule: scan_while.induct)
  case (1 p i n)
  show ?case
  proof (cases "i < n \<and> p i")
    case True
    with "1.prems" "1.IH" [OF True] show ?thesis by (simp add: scan_while.simps [of p i n])
  next
    case False
    with "1.prems" show ?thesis by (auto simp: scan_while.simps [of p i n] split: if_splits)
  qed
qed

lemma scan_while_all: "i \<le> j \<Longrightarrow> j < scan_while p i n \<Longrightarrow> p j"
proof (induction p i n rule: scan_while.induct)
  case (1 p i n)
  show ?case
  proof (cases "i < n \<and> p i")
    case True
    with "1.prems" have "j < scan_while p (i + 1) n" by (simp add: scan_while.simps [of p i n])
    with "1.IH" [OF True] True "1.prems"(1) show ?thesis by (cases "j = i") auto
  next
    case False
    with "1.prems" show ?thesis by (auto simp: scan_while.simps [of p i n] split: if_splits)
  qed
qed

lemma getStartIndex_ge: "index \<le> blocks \<Longrightarrow> index \<le> getStartIndex index bf blocks"
  by (simp add: getStartIndex_def Let_def scan_while_ge)

lemma getStartIndex_free:
  "getStartIndex index bf blocks \<noteq> blocks \<Longrightarrow>
   getStartIndex index bf blocks < blocks \<and> \<not> bitfield_test bf blocks (getStartIndex index bf blocks)"
  using scan_while_stop [of "bitfield_test bf blocks" index blocks]
  by (auto simp: getStartIndex_def Let_def split: if_splits)

lemma getEndIndex_greater:
  "i < blocks \<Longrightarrow> \<not> bitfield_test bf blocks i \<Longrightarrow> i < getEndIndex i bf blocks"
  using scan_while_ge [of "i + 1" "\<lambda>i. \<not> bitfield_test bf blocks i" blocks]
  by (simp add: getEndIndex_def scan_while.simps [of _ i])

lemma getEndIndex_le: "i \<le> blocks \<Longrightarrow> getEndIndex i bf blocks \<le> blocks"
  by (simp add: getEndIndex_def scan_while_le)

text \<open>
  One iteration: the free run that starts at or after \<open>nextIndex\<close>, cut to its second half when
  the block before it is being fetched, replaces the best range if it is longer, or as long and
  directly behind a finished block.
\<close>

definition sparse_current :: "byte_array \<Rightarrow> byte_array \<Rightarrow> nat \<Rightarrow> nat \<Rightarrow> bm_range" where
  "sparse_current bitfield useBitfield blocks start =
     (let cur = \<lparr>startIndex = start, endIndex = getEndIndex start bitfield blocks\<rparr>
      in if start > 0 \<and> bitfield_test useBitfield blocks (start - 1)
         then cur\<lparr>startIndex := Range_getMidIndex cur\<rparr> else cur)"

definition sparse_better :: "byte_array \<Rightarrow> byte_array \<Rightarrow> nat \<Rightarrow> bm_range \<Rightarrow> bm_range \<Rightarrow> bool" where
  "sparse_better bitfield useBitfield blocks maxRange cur \<longleftrightarrow>
     Range_less maxRange cur \<or>
     (Range_eq maxRange cur \<and> startIndex maxRange > 0 \<and> startIndex cur > 0 \<and>
      (\<not> bitfield_test bitfield blocks (startIndex maxRange - 1) \<or>
       bitfield_test useBitfield blocks (startIndex maxRange - 1)) \<and>
      bitfield_test bitfield blocks (startIndex cur - 1) \<and>
      \<not> bitfield_test useBitfield blocks (startIndex cur - 1))"

function sparse_loop :: "byte_array \<Rightarrow> byte_array \<Rightarrow> nat \<Rightarrow> bm_range \<Rightarrow> nat \<Rightarrow> bm_range" where
  "sparse_loop bitfield useBitfield blocks maxRange nextIndex =
     (if nextIndex < blocks \<and> getStartIndex nextIndex bitfield blocks \<noteq> blocks then
        let cur = sparse_current bitfield useBitfield blocks (getStartIndex nextIndex bitfield blocks);
            maxRange' = (if sparse_better bitfield useBitfield blocks maxRange cur then cur else maxRange)
        in sparse_loop bitfield useBitfield blocks maxRange' (endIndex cur)
      else maxRange)"
  by pat_completeness auto
termination
proof (relation "measure (\<lambda>(bf, u, n, m, i). n - i)", goal_cases)
  case (2 bf u n m i cur m')
  let ?s = "getStartIndex i bf n"
  have "i \<le> ?s" using 2 by (simp add: getStartIndex_ge)
  moreover have "?s < getEndIndex ?s bf n"
    using 2 getStartIndex_free [of i bf n] by (intro getEndIndex_greater) auto
  moreover have "endIndex cur = getEndIndex ?s bf n" using 2 by (simp add: sparse_current_def Let_def)
  ultimately show ?case using 2 by auto
qed simp

declare sparse_loop.simps [simp del]

definition getSparseMissingUnusedIndex ::
    "int \<Rightarrow> byte_array \<Rightarrow> byte_array \<Rightarrow> int \<Rightarrow> nat \<Rightarrow> nat option" where
  "getSparseMissingUnusedIndex minSplitSize bitfield useBitfield blockLength blocks =
     (let maxRange = sparse_loop bitfield useBitfield blocks \<lparr>startIndex = 0, endIndex = 0\<rparr> 0 in
      if Range_getSize maxRange \<noteq> 0 then
        if startIndex maxRange = 0 then Some 0
        else if (\<not> bitfield_test useBitfield blocks (startIndex maxRange - 1) \<and>
                 bitfield_test bitfield blocks (startIndex maxRange - 1))
              \<or> int (endIndex maxRange - startIndex maxRange) * blockLength \<ge> minSplitSize
        then Some (startIndex maxRange)
        else None
      else None)"

text \<open>The bits a search must avoid: ignored, unselected, finished or being fetched.\<close>

definition excluded_bits :: "bitfield_man \<Rightarrow> byte list \<Rightarrow> byte_array" where
  "excluded_bits bm ignoreBitfield =
     (if bm_filterEnabled bm
      then array_or (array_or (array_or (array ignoreBitfield) (array_not (array (bm_filter bm))))
             (array (bm_bitfield bm))) (array (bm_useBitfield bm))
      else array_or (array_or (array ignoreBitfield) (array (bm_bitfield bm))) (array (bm_useBitfield bm)))"

definition BitfieldMan_getSparseMissingUnusedIndex ::
    "bitfield_man \<Rightarrow> int \<Rightarrow> byte list \<Rightarrow> nat option" where
  "BitfieldMan_getSparseMissingUnusedIndex bm minSplitSize ignoreBitfield =
     getSparseMissingUnusedIndex minSplitSize (excluded_bits bm ignoreBitfield)
       (array (bm_useBitfield bm)) (bm_blockLength bm) (bm_blocks bm)"

subsection \<open>In-order search\<close>

text \<open>
  The inner loop looks for \<open>minSplitSize\<close> bytes of free blocks from \<open>i\<close>: \<open>Inl j\<close> when the run
  reaches that size at \<open>j\<close>, \<open>Inr j\<close> when it ends at \<open>j\<close> before.
\<close>

function inorder_inner ::
    "int \<Rightarrow> byte_array \<Rightarrow> byte_array \<Rightarrow> int \<Rightarrow> nat \<Rightarrow> nat \<Rightarrow> nat \<Rightarrow> nat + nat" where
  "inorder_inner minSplitSize bitfield useBitfield blockLength blocks i j =
     (if j < blocks then
        if bitfield_test bitfield blocks j \<or> bitfield_test useBitfield blocks j then Inr j
        else if int (j - i + 1) * blockLength \<ge> minSplitSize then Inl j
        else inorder_inner minSplitSize bitfield useBitfield blockLength blocks i (j + 1)
      else Inr j)"
  by pat_completeness auto
termination
  by (relation "measure (\<lambda>(m, bf, u, l, n, i, j). n - j)") auto

declare inorder_inner.simps [simp del]

lemma inorder_inner_ge:
  "inorder_inner m bf u l n i j = Inr k \<Longrightarrow> j \<le> k"
  by (induction m bf u l n i j rule: inorder_inner.induct)
    (subst (asm) (2) inorder_inner.simps, fastforce split: if_splits)

function inorder_loop ::
    "nat \<Rightarrow> int \<Rightarrow> byte_array \<Rightarrow> byte_array \<Rightarrow> int \<Rightarrow> nat \<Rightarrow> nat \<Rightarrow> nat option" where
  "inorder_loop lastIndex minSplitSize bitfield useBitfield blockLength blocks i =
     (if i < lastIndex then
        if \<not> bitfield_test bitfield blocks i \<and> \<not> bitfield_test useBitfield blocks i then
          if \<not> bitfield_test useBitfield blocks (i - 1) \<and> bitfield_test bitfield blocks (i - 1)
          then Some i
          else (case inorder_inner minSplitSize bitfield useBitfield blockLength blocks i i of
                  Inl j \<Rightarrow> Some j
                | Inr j \<Rightarrow> inorder_loop lastIndex minSplitSize bitfield useBitfield blockLength blocks (j + 1))
        else inorder_loop lastIndex minSplitSize bitfield useBitfield blockLength blocks (i + 1)
      else None)"
  by pat_completeness auto
termination
  by (relation "measure (\<lambda>(e, m, bf, u, l, n, i). e - i)") (auto dest: inorder_inner_ge)

declare inorder_loop.simps [simp del]

definition getInorderMissingUnusedIndex ::
    "nat \<Rightarrow> nat \<Rightarrow> int \<Rightarrow> byte_array \<Rightarrow> byte_array \<Rightarrow> int \<Rightarrow> nat \<Rightarrow> nat option" where
  "getInorderMissingUnusedIndex start lastIndex minSplitSize bitfield useBitfield blockLength blocks =
     (if \<not> bitfield_test bitfield blocks start \<and> \<not> bitfield_test useBitfield blocks start
      then Some start
      else inorder_loop lastIndex minSplitSize bitfield useBitfield blockLength blocks (start + 1))"

definition BitfieldMan_getInorderMissingUnusedIndex ::
    "bitfield_man \<Rightarrow> int \<Rightarrow> byte list \<Rightarrow> nat option" where
  "BitfieldMan_getInorderMissingUnusedIndex bm minSplitSize ignoreBitfield =
     getInorderMissingUnusedIndex 0 (bm_blocks bm) minSplitSize (excluded_bits bm ignoreBitfield)
       (array (bm_useBitfield bm)) (bm_blockLength bm) (bm_blocks bm)"

definition BitfieldMan_getInorderMissingUnusedIndex_range ::
    "bitfield_man \<Rightarrow> nat \<Rightarrow> nat \<Rightarrow> int \<Rightarrow> byte list \<Rightarrow> nat option" where
  "BitfieldMan_getInorderMissingUnusedIndex_range bm start endIdx minSplitSize ignoreBitfield =
     getInorderMissingUnusedIndex start (min endIdx (bm_blocks bm)) minSplitSize
       (excluded_bits bm ignoreBitfield) (array (bm_useBitfield bm)) (bm_blockLength bm) (bm_blocks bm)"

subsection \<open>Geometric search\<close>

text \<open>
  The windows \<open>[start, end)\<close> grow by the factor \<open>base\<close>; the code keeps their bounds as
  \<open>double\<close>, the model as exact reals. \<open>base \<le> 1\<close> never leaves the first windows, so the loop
  is partial: \<open>None\<close> is a loop that does not end. Its result is the index found, if any.
\<close>

fun geom_window :: "byte_array \<Rightarrow> byte_array \<Rightarrow> nat \<Rightarrow> nat list \<Rightarrow> nat" where
  "geom_window bitfield useBitfield blocks [] = blocks"
| "geom_window bitfield useBitfield blocks (i # is) =
     (if bitfield_test useBitfield blocks i then blocks
      else if \<not> bitfield_test bitfield blocks i then i
      else geom_window bitfield useBitfield blocks is)"

partial_function (option) geom_loop ::
    "byte_array \<Rightarrow> byte_array \<Rightarrow> nat \<Rightarrow> real \<Rightarrow> nat \<Rightarrow> real \<Rightarrow> real \<Rightarrow> nat option option" where
  "geom_loop bitfield useBitfield blocks base offsetIndex start end =
     (if start + real offsetIndex < real blocks then
        let index = geom_window bitfield useBitfield blocks
              [nat \<lfloor>start + real offsetIndex\<rfloor>..<min blocks (nat \<lfloor>end + real offsetIndex\<rfloor>)]
        in if index < blocks then Some (Some index)
           else geom_loop bitfield useBitfield blocks base offsetIndex end (end * base)
      else Some None)"

definition getGeomMissingUnusedIndex ::
    "int \<Rightarrow> byte_array \<Rightarrow> byte_array \<Rightarrow> int \<Rightarrow> nat \<Rightarrow> real \<Rightarrow> nat \<Rightarrow> nat option option" where
  "getGeomMissingUnusedIndex minSplitSize bitfield useBitfield blockLength blocks base offsetIndex =
     (case geom_loop bitfield useBitfield blocks base offsetIndex 0 1 of
        None \<Rightarrow> None
      | Some (Some index) \<Rightarrow> Some (Some index)
      | Some None \<Rightarrow> Some (getSparseMissingUnusedIndex minSplitSize bitfield useBitfield blockLength blocks))"

definition BitfieldMan_getGeomMissingUnusedIndex ::
    "bitfield_man \<Rightarrow> int \<Rightarrow> byte list \<Rightarrow> real \<Rightarrow> nat \<Rightarrow> nat option option" where
  "BitfieldMan_getGeomMissingUnusedIndex bm minSplitSize ignoreBitfield base offsetIndex =
     getGeomMissingUnusedIndex minSplitSize (excluded_bits bm ignoreBitfield)
       (array (bm_useBitfield bm)) (bm_blockLength bm) (bm_blocks bm) base offsetIndex"

subsection \<open>Correctness of the copies\<close>

lemma fold_or_zero: "fold (OR) bs a = 0 \<longleftrightarrow> a = 0 \<and> (\<forall>b\<in>set bs. b = (0::byte))"
  by (induction bs arbitrary: a) (auto simp: or_eq_0_iff)

lemma lastByte_in_range:
  assumes "k < 8" "0 < n"
  shows "bit (bitfield_lastByteMask n) (7 - k) \<longleftrightarrow> 8 * ((n + 7) div 8 - 1) + k < n"
proof -
  define m where "m = (n - 1) div 8"
  define r where "r = (n - 1) mod 8"
  have "8 * m + r = n - 1" unfolding m_def r_def by (rule mult_div_mod_eq)
  then have n: "n = 8 * m + (r + 1)" using assms(2) by linarith
  have r8: "r < 8" by (simp add: r_def)
  have d: "(n + 7) div 8 = m + 1" unfolding n using r8 by (intro div_nat_eqI) auto
  have "n mod 8 = (r + 1) mod 8" unfolding n by simp
  then have "n mod 8 = (if r = 7 then 0 else r + 1)" using r8 by (cases "r = 7") auto
  then show ?thesis using assms r8 unfolding d by (subst n) (auto simp: lastByteMask_bit)
qed

lemma copyBitfield_spec:
  assumes "0 < n"
  obtains dst where "copyBitfield src n = Some (dst, bit_set src n \<noteq> {})"
    and "length dst = (n + 7) div 8"
    and "\<And>j w. j < 8 * ((n + 7) div 8) \<Longrightarrow> bitfield_test (array dst) w j \<longleftrightarrow> j < n \<and> bitfield_test src w j"
proof -
  define m where "m = (n + 7) div 8 - 1"
  have len: "(n + 7) div 8 = m + 1" using assms unfolding m_def by linarith
  have lt: "8 * m < n" "n \<le> 8 * m + 8" using assms unfolding m_def by linarith+
  define dst where "dst = map src [0..<m] @ [src m AND bitfield_lastByteMask n]"
  have l: "length dst = (n + 7) div 8" by (simp add: dst_def len)
  have t: "bitfield_test (array dst) w j \<longleftrightarrow> j < n \<and> bitfield_test src w j"
    if "j < 8 * ((n + 7) div 8)" for j w
  proof -
    obtain q k where j: "j = 8 * q + k" "k < 8" "q = j div 8" by (metis mod_less_divisor mult_div_mod_eq zero_less_numeral)
    have "q \<le> m" using that unfolding j(1) len by (simp add: algebra_simps)
    then consider "q < m" | "q = m" by linarith
    then show ?thesis
    proof cases
      case 1
      then have "j < n" using lt j by linarith
      then show ?thesis using 1 j(2) unfolding j(1) by (simp add: bitfield_test_block array_def dst_def nth_append)
    next
      case 2
      then show ?thesis using j(2) lastByte_in_range [OF j(2) assms] unfolding j(1) len
        by (auto simp: bitfield_test_block array_def dst_def nth_append bit_and_iff)
    qed
  qed
  have "fold (OR) dst 0 = 0 \<longleftrightarrow> (\<forall>i < m + 1. dst ! i = 0)"
    using l unfolding len by (simp add: fold_or_zero all_set_conv_all_nth)
  also have "\<dots> \<longleftrightarrow> (\<forall>i < m + 1. \<forall>k < 8. \<not> bitfield_test (array dst) n (8 * i + k))"
    using byte_nonzero_iff by (auto simp: bitfield_test_block array_def)
  also have "\<dots> \<longleftrightarrow> (\<forall>j < 8 * (m + 1). \<not> bitfield_test (array dst) n j)"
    by (rule all_bits_iff [symmetric])
  also have "\<dots> \<longleftrightarrow> bit_set src n = {}"
    using t lt by (auto simp: len bit_set_def)
  finally have "copyBitfield src n = Some (dst, bit_set src n \<noteq> {})"
    using assms by (simp add: copyBitfield_def Let_def dst_def len)
  then show thesis using l t by (rule that)
qed

lemma copyBitfield_bits:
  assumes "0 < n" "copyBitfield src n = Some (dst, r)"
  shows "r = (bit_set src n \<noteq> {})" and "length dst = (n + 7) div 8"
    and "bit_set (array dst) n = bit_set src n"
    and "bit_set (array dst) (8 * length dst) = bit_set src n"
proof -
  have "n \<le> 8 * ((n + 7) div 8)" by linarith
  then show "r = (bit_set src n \<noteq> {})" "length dst = (n + 7) div 8"
    "bit_set (array dst) n = bit_set src n" "bit_set (array dst) (8 * length dst) = bit_set src n"
    using assms by (auto elim!: copyBitfield_spec [of n src] simp: bit_set_any [where w = n])
qed

subsection \<open>Correctness of the sparse search\<close>

text \<open>A range that holds only free blocks.\<close>

definition range_free :: "byte_array \<Rightarrow> nat \<Rightarrow> bm_range \<Rightarrow> bool" where
  "range_free bf n r \<longleftrightarrow> endIndex r \<le> n \<and> (\<forall>i. startIndex r \<le> i \<and> i < endIndex r \<longrightarrow> \<not> bitfield_test bf n i)"

lemma sparse_current_free:
  assumes "s < n" "\<not> bitfield_test bf n s"
  shows "range_free bf n (sparse_current bf u n s)" and "0 < Range_getSize (sparse_current bf u n s)"
proof -
  have e: "s < getEndIndex s bf n" "getEndIndex s bf n \<le> n"
    using getEndIndex_greater [OF assms] getEndIndex_le [of s n bf] assms by auto
  have free: "\<not> bitfield_test bf n i" if "s \<le> i" "i < getEndIndex s bf n" for i
    using that scan_while_all [of s i "\<lambda>i. \<not> bitfield_test bf n i" n] by (simp add: getEndIndex_def)
  let ?mid = "(getEndIndex s bf n - s) div 2 + s"
  have "s \<le> ?mid" "?mid < getEndIndex s bf n" using e(1) by auto
  then show "range_free bf n (sparse_current bf u n s)" "0 < Range_getSize (sparse_current bf u n s)"
    using e free by (auto simp: sparse_current_def range_free_def Range_getSize_def Range_getMidIndex_def Let_def)
qed

lemma sparse_loop_free:
  "range_free bf n r \<Longrightarrow> i \<le> n \<Longrightarrow> range_free bf n (sparse_loop bf u n r i)"
proof (induction bf u n r i rule: sparse_loop.induct)
  case (1 bf u n r i)
  let ?s = "getStartIndex i bf n"
  show ?case
  proof (cases "i < n \<and> ?s \<noteq> n")
    case True
    have "range_free bf n (sparse_current bf u n ?s)" "endIndex (sparse_current bf u n ?s) \<le> n"
      using getStartIndex_free [of i bf n] True sparse_current_free(1) [of ?s n bf u] by (auto simp: range_free_def)
    then show ?thesis using 1 True by (subst sparse_loop.simps) (simp add: Let_def)
  next
    case False
    then show ?thesis using 1(2) by (subst sparse_loop.simps) auto
  qed
qed

lemma sparse_better_size: "sparse_better bf u n r c \<Longrightarrow> Range_getSize r \<le> Range_getSize c"
  by (auto simp: sparse_better_def Range_less_def Range_eq_def)

lemma sparse_loop_mono: "Range_getSize r \<le> Range_getSize (sparse_loop bf u n r i)"
proof (induction bf u n r i rule: sparse_loop.induct)
  case (1 bf u n r i)
  let ?c = "sparse_current bf u n (getStartIndex i bf n)"
  show ?case
  proof (cases "i < n \<and> getStartIndex i bf n \<noteq> n")
    case True
    then show ?thesis using 1 [OF True refl refl] sparse_better_size [of bf u n r ?c]
      by (subst sparse_loop.simps) (auto simp: Let_def split: if_splits)
  qed (subst sparse_loop.simps, auto)
qed

lemma sparse_loop_pos:
  assumes "i \<le> j" "j < n" "\<not> bitfield_test bf n j"
  shows "0 < Range_getSize (sparse_loop bf u n r i)"
proof -
  let ?s = "getStartIndex i bf n"
  let ?c = "sparse_current bf u n ?s"
  have "?s \<le> j"
  proof (rule ccontr)
    assume "\<not> ?s \<le> j"
    then have "j < scan_while (bitfield_test bf n) i n" using assms(2) by (auto simp: getStartIndex_def Let_def split: if_splits)
    then show False using scan_while_all [OF assms(1)] assms(3) by blast
  qed
  then have t: "i < n \<and> ?s \<noteq> n" using assms by linarith
  then have "0 < Range_getSize ?c" using getStartIndex_free [of i bf n] sparse_current_free(2) [of ?s n bf u] by auto
  then have "0 < Range_getSize (if sparse_better bf u n r ?c then ?c else r)"
    by (auto simp: sparse_better_def Range_less_def)
  then show ?thesis using t sparse_loop_mono [of "if sparse_better bf u n r ?c then ?c else r" bf u n "endIndex ?c"]
    by (subst sparse_loop.simps) (simp add: Let_def)
qed

lemma getSparse_sound:
  assumes "getSparseMissingUnusedIndex m bf u bl n = Some i"
  shows "i < n" and "\<not> bitfield_test bf n i"
proof -
  let ?r = "sparse_loop bf u n \<lparr>startIndex = 0, endIndex = 0\<rparr> 0"
  have "range_free bf n ?r" by (rule sparse_loop_free) (simp_all add: range_free_def)
  moreover have "i = startIndex ?r" "Range_getSize ?r \<noteq> 0"
    using assms by (auto simp: getSparseMissingUnusedIndex_def Let_def split: if_splits)
  ultimately show "i < n" "\<not> bitfield_test bf n i" by (auto simp: range_free_def Range_getSize_def)
qed

lemma getSparse_complete:
  assumes "j < n" "\<not> bitfield_test bf n j" "m \<le> bl" "0 < bl"
  shows "getSparseMissingUnusedIndex m bf u bl n \<noteq> None"
proof -
  let ?r = "sparse_loop bf u n \<lparr>startIndex = 0, endIndex = 0\<rparr> 0"
  have p: "0 < Range_getSize ?r" by (rule sparse_loop_pos [of 0 j]) (use assms in auto)
  then have "1 * bl \<le> int (endIndex ?r - startIndex ?r) * bl"
    using assms(4) by (intro mult_right_mono) (auto simp: Range_getSize_def)
  then have "m \<le> int (endIndex ?r - startIndex ?r) * bl" using assms(3) by linarith
  with p show ?thesis by (simp add: getSparseMissingUnusedIndex_def Let_def)
qed

subsection \<open>Correctness of the in-order search\<close>

lemma inorder_inner_Inl:
  "inorder_inner m bf u l n i j = Inl k \<Longrightarrow> j \<le> k \<and> k < n \<and> \<not> bitfield_test bf n k \<and> \<not> bitfield_test u n k"
proof (induction m bf u l n i j rule: inorder_inner.induct)
  case (1 m bf u l n i j)
  then show ?case
    by (subst (asm) (2) inorder_inner.simps) (fastforce split: if_splits)
qed

lemma inorder_inner_skip:
  assumes "0 < l" "m \<le> l" "i \<le> j" "j < n" "\<not> bitfield_test bf n j" "\<not> bitfield_test u n j"
  shows "inorder_inner m bf u l n i j = Inl j"
proof -
  have "1 * l \<le> (1 + int (j - i)) * l" using assms(1) by (intro mult_right_mono) auto
  then have "m \<le> int (j - i + 1) * l" using assms(2) by (simp add: add.commute)
  then show ?thesis using assms by (subst inorder_inner.simps) simp
qed

lemma inorder_loop_sound:
  "inorder_loop e m bf u l n i = Some k \<Longrightarrow> e \<le> n \<Longrightarrow>
   i \<le> k \<and> k < n \<and> \<not> bitfield_test bf n k \<and> \<not> bitfield_test u n k"
proof (induction e m bf u l n i rule: inorder_loop.induct)
  case (1 e m bf u l n i)
  show ?case
  proof (cases "i < e \<and> \<not> bitfield_test bf n i \<and> \<not> bitfield_test u n i")
    case free: True
    show ?thesis
    proof (cases "\<not> bitfield_test u n (i - 1) \<and> bitfield_test bf n (i - 1)")
      case True
      then show ?thesis using 1(3,4) free by (subst (asm) inorder_loop.simps) auto
    next
      case False
      then show ?thesis
      proof (cases "inorder_inner m bf u l n i i")
        case (Inl j)
        then show ?thesis using 1(3,4) free False inorder_inner_Inl [OF Inl]
          by (subst (asm) inorder_loop.simps) auto
      next
        case (Inr j)
        then have "inorder_loop e m bf u l n (j + 1) = Some k"
          using 1(3) free False by (subst (asm) inorder_loop.simps) (auto split: if_splits)
        then show ?thesis using 1(1) [OF _ _ False Inr] free 1(4) inorder_inner_ge [OF Inr] by fastforce
      qed
    qed
  next
    case False
    then have "i < e" "inorder_loop e m bf u l n (i + 1) = Some k"
      using 1(3) by (simp_all add: inorder_loop.simps [of e m bf u l n i] split: if_splits)
    then show ?thesis using 1(2) [OF _ _ _ 1(4)] False by fastforce
  qed
qed

lemma inorder_loop_complete:
  "i \<le> j \<Longrightarrow> j < e \<Longrightarrow> e \<le> n \<Longrightarrow> \<not> bitfield_test bf n j \<Longrightarrow> \<not> bitfield_test u n j \<Longrightarrow> 0 < l \<Longrightarrow> m \<le> l \<Longrightarrow>
   \<exists>k \<le> j. inorder_loop e m bf u l n i = Some k"
proof (induction "j - i" arbitrary: i)
  case 0
  then have "i = j" by simp
  with 0 inorder_inner_skip [of l m j j n bf u] show ?case by (subst inorder_loop.simps) auto
next
  case (Suc d)
  show ?case
  proof (cases "\<not> bitfield_test bf n i \<and> \<not> bitfield_test u n i")
    case True
    with Suc inorder_inner_skip [of l m i i n bf u] show ?thesis by (subst inorder_loop.simps) auto
  next
    case False
    have "\<exists>k \<le> j. inorder_loop e m bf u l n (i + 1) = Some k" by (rule Suc(1)) (use Suc(2-) in auto)
    with Suc False show ?thesis by (subst inorder_loop.simps) auto
  qed
qed

lemma getInorder_sound:
  assumes "getInorderMissingUnusedIndex s e m bf u l n = Some k" "s < n" "e \<le> n"
  shows "k < n" and "s \<le> k" and "\<not> bitfield_test bf n k" and "\<not> bitfield_test u n k"
  using assms inorder_loop_sound [of e m bf u l n "s + 1" k]
  by (auto simp: getInorderMissingUnusedIndex_def split: if_splits)

lemma getInorder_complete:
  assumes "s \<le> j" "j < e" "e \<le> n" "\<not> bitfield_test bf n j" "\<not> bitfield_test u n j" "0 < l" "m \<le> l"
  shows "\<exists>k \<le> j. getInorderMissingUnusedIndex s e m bf u l n = Some k"
proof (cases "\<not> bitfield_test bf n s \<and> \<not> bitfield_test u n s")
  case True
  with assms(1) show ?thesis by (auto simp: getInorderMissingUnusedIndex_def)
next
  case False
  with assms have "s \<noteq> j" by auto
  with assms have "s + 1 \<le> j" by linarith
  from inorder_loop_complete [OF this assms(2-7)] False show ?thesis
    by (auto simp: getInorderMissingUnusedIndex_def)
qed

subsection \<open>Correctness of the geometric search\<close>

lemma geom_window_sound:
  "geom_window bf u n xs = k \<Longrightarrow> k \<noteq> n \<Longrightarrow> k \<in> set xs \<and> \<not> bitfield_test bf n k \<and> \<not> bitfield_test u n k"
  by (induction xs) (auto split: if_splits)

text \<open>With a base above 1 the windows leave the file after finitely many steps.\<close>

lemma geom_loop_terminates:
  assumes "1 < base"
  shows "geom_loop bf u n base off (base ^ t) (base ^ (t + 1)) \<noteq> None"
proof -
  obtain N where N: "real n < base ^ N" using real_arch_pow [OF assms] by blast
  show ?thesis
  proof (induction "N - t" arbitrary: t)
    case 0
    then have "base ^ N \<le> base ^ t" using assms by (intro power_increasing) auto
    with N have "\<not> base ^ t + real off < real n" by linarith
    then show ?case by (simp add: geom_loop.simps)
  next
    case (Suc d)
    then have "geom_loop bf u n base off (base ^ (t + 1)) (base ^ (t + 1 + 1)) \<noteq> None" by (intro Suc(1)) simp
    then show ?case by (subst geom_loop.simps) (simp add: Let_def mult.commute)
  qed
qed

lemma geom_loop_start:
  assumes "1 < base" shows "geom_loop bf u n base off 0 1 \<noteq> None"
  using geom_loop_terminates [OF assms, of bf u n off 0]
  by (subst geom_loop.simps) (simp add: Let_def)

lemma geom_loop_sound:
  assumes "geom_loop bf u n base off a b = Some r"
  shows "\<forall>k. r = Some k \<longrightarrow> k < n \<and> \<not> bitfield_test bf n k \<and> \<not> bitfield_test u n k"
proof (rule geom_loop.raw_induct [OF _ assms, where P = "\<lambda>bf u n base off a b r.
    \<forall>k. r = Some k \<longrightarrow> k < n \<and> \<not> bitfield_test bf n k \<and> \<not> bitfield_test u n k"])
  fix g :: "byte_array \<Rightarrow> byte_array \<Rightarrow> nat \<Rightarrow> real \<Rightarrow> nat \<Rightarrow> real \<Rightarrow> real \<Rightarrow> nat option option"
    and bf u n base off a b and r :: "nat option"
  let ?xs = "[nat \<lfloor>a + real off\<rfloor>..<min n (nat \<lfloor>b + real off\<rfloor>)]"
  assume IH: "\<And>bf u n base off a b r. g bf u n base off a b = Some r \<Longrightarrow>
      \<forall>k. r = Some k \<longrightarrow> k < n \<and> \<not> bitfield_test bf n k \<and> \<not> bitfield_test u n k"
    and e: "(if a + real off < real n then let index = geom_window bf u n ?xs in
      if index < n then Some (Some index) else g bf u n base off b (b * base) else Some None) = Some r"
  show "\<forall>k. r = Some k \<longrightarrow> k < n \<and> \<not> bitfield_test bf n k \<and> \<not> bitfield_test u n k"
    using e geom_window_sound [of bf u n ?xs "geom_window bf u n ?xs"] IH [of bf u n base off b "b * base" r]
    by (auto simp: Let_def simp del: set_upt split: if_splits)
qed

subsection \<open>Properties\<close>

text \<open>The blocks a connection may start: selected, unfinished, not being fetched, not ignored.\<close>

definition bm_free :: "bitfield_man \<Rightarrow> byte list \<Rightarrow> nat set" where
  "bm_free bm ignoreBitfield =
     bm_wanted bm - bm_have bm - bm_used bm - bit_set (array ignoreBitfield) (bm_blocks bm)"

lemma excluded_bits_free:
  assumes "bm_layout bm" "i < bm_blocks bm"
  shows "\<not> bitfield_test (excluded_bits bm ign) (bm_blocks bm) i \<longleftrightarrow> i \<in> bm_free bm ign"
proof (cases "bm_filterEnabled bm")
  case True
  then have "bitfield_test (array (bm_filter bm)) (bm_blocks bm) i \<longleftrightarrow> i \<in> bm_selected bm"
    using bm_filter_selected [OF True assms(1)] assms(2) by (auto simp: bit_set_def)
  with True assms(2) show ?thesis
    by (auto simp: excluded_bits_def bm_free_def bm_wanted_def bm_have_def bm_used_def bit_set_def)
next
  case False
  with assms(2) show ?thesis
    by (auto simp: excluded_bits_def bm_free_def bm_wanted_def bm_have_def bm_used_def bit_set_def)
qed

lemma bm_free_sub: "bm_free bm ign \<subseteq> {..<bm_blocks bm}"
  using bm_wanted_sub [of bm] by (auto simp: bm_free_def)

lemma bm_free_unused: "i \<in> bm_free bm ign \<Longrightarrow> i < bm_blocks bm \<Longrightarrow> \<not> bitfield_test (array (bm_useBitfield bm)) (bm_blocks bm) i"
  by (simp add: bm_free_def bm_used_def bit_set_def)

lemma sparse_search_free:
  assumes "bm_layout bm" "BitfieldMan_getSparseMissingUnusedIndex bm m ign = Some i"
  shows "i \<in> bm_free bm ign"
  using assms getSparse_sound excluded_bits_free
  unfolding BitfieldMan_getSparseMissingUnusedIndex_def by blast

lemma inorder_search_free:
  assumes "bm_layout bm" "0 < bm_blocks bm" "BitfieldMan_getInorderMissingUnusedIndex bm m ign = Some i"
  shows "i \<in> bm_free bm ign"
proof -
  note g = assms(3) [unfolded BitfieldMan_getInorderMissingUnusedIndex_def]
  show ?thesis using getInorder_sound(1,3) [OF g assms(2) order_refl] excluded_bits_free [OF assms(1)] by blast
qed

lemma geom_search_free:
  assumes "bm_layout bm" "BitfieldMan_getGeomMissingUnusedIndex bm m ign base off = Some (Some i)"
  shows "i \<in> bm_free bm ign"
proof -
  let ?n = "bm_blocks bm" and ?bf = "excluded_bits bm ign" and ?u = "array (bm_useBitfield bm)"
  note g = assms(2) [unfolded BitfieldMan_getGeomMissingUnusedIndex_def getGeomMissingUnusedIndex_def]
  consider "geom_loop ?bf ?u ?n base off 0 1 = Some (Some i)"
    | "getSparseMissingUnusedIndex m ?bf ?u (bm_blockLength bm) ?n = Some i"
    using g by (auto split: option.splits)
  then have "i < ?n \<and> \<not> bitfield_test ?bf ?n i"
    by cases (use geom_loop_sound in fastforce, use getSparse_sound in blast)
  then show ?thesis using excluded_bits_free [OF assms(1)] by blast
qed

text \<open>C13: Whichever strategy a stream download uses, the piece it is given is in range,
  selected, not finished, not being fetched by another connection and not ignored.\<close>
theorem stream_search_safe:
  assumes "bm_layout bm" "0 < bm_blocks bm"
    and "BitfieldMan_getSparseMissingUnusedIndex bm m ign = Some i
      \<or> BitfieldMan_getInorderMissingUnusedIndex bm m ign = Some i
      \<or> BitfieldMan_getGeomMissingUnusedIndex bm m ign base off = Some (Some i)"
  shows "i \<in> bm_free bm ign"
  using assms sparse_search_free inorder_search_free geom_search_free by blast

theorem stream_search_safe_witness:
  "BitfieldMan_getInorderMissingUnusedIndex (BitfieldMan_new 16 40) 1 [0] = Some 0
    \<and> 0 \<in> bm_free (BitfieldMan_new 16 40) [0]"
proof -
  have l: "bm_layout (BitfieldMan_new 16 40)" using BitfieldMan_new_spec(1) [of 16 40] by (simp add: bm_inv_def)
  have p: "0 < bm_blocks (BitfieldMan_new 16 40)" by (simp add: BitfieldMan_new_def)
  have i: "BitfieldMan_getInorderMissingUnusedIndex (BitfieldMan_new 16 40) 1 [0] = Some 0" by code_simp
  show ?thesis using stream_search_safe [OF l p disjI2 [OF disjI1 [OF i]]] i by blast
qed

text \<open>C14: No download stalls for want of a search result: when the minimum split size does not
  exceed the piece length and some block may be started, every strategy returns one. The
  in-order search returns the first, and the geometric search ends when its base exceeds 1.\<close>
theorem stream_search_finds:
  assumes "bm_layout bm" "j \<in> bm_free bm ign" "m \<le> bm_blockLength bm" "1 < base"
  shows "BitfieldMan_getSparseMissingUnusedIndex bm m ign \<noteq> None
    \<and> BitfieldMan_getInorderMissingUnusedIndex bm m ign = Some (LEAST i. i \<in> bm_free bm ign)
    \<and> (\<exists>i. BitfieldMan_getGeomMissingUnusedIndex bm m ign base off = Some (Some i))"
proof -
  let ?n = "bm_blocks bm" and ?bf = "excluded_bits bm ign" and ?u = "array (bm_useBitfield bm)"
  let ?j = "LEAST i. i \<in> bm_free bm ign"
  have L: "?j \<in> bm_free bm ign" "\<And>i. i \<in> bm_free bm ign \<Longrightarrow> ?j \<le> i"
    using assms(2) by (auto intro: LeastI Least_le)
  have n: "?j < ?n" using L(1) bm_free_sub by blast
  have b: "0 < bm_blockLength bm" using bm_blocks_pos(1) [OF assms(1)] n by simp
  have bf: "\<not> bitfield_test ?bf ?n ?j" using L(1) excluded_bits_free [OF assms(1) n] by blast
  have s: "getSparseMissingUnusedIndex m ?bf ?u (bm_blockLength bm) ?n \<noteq> None"
    by (rule getSparse_complete [OF n bf assms(3) b])
  obtain k where k: "k \<le> ?j" "BitfieldMan_getInorderMissingUnusedIndex bm m ign = Some k"
    using getInorder_complete [OF _ n _ bf bm_free_unused [OF L(1) n] b assms(3), of 0]
    by (auto simp: BitfieldMan_getInorderMissingUnusedIndex_def)
  then have "k = ?j" using inorder_search_free [OF assms(1) _ k(2)] n L(2) [of k] by (simp add: le_antisym)
  moreover have "geom_loop ?bf ?u ?n base off 0 1 \<noteq> None" by (rule geom_loop_start [OF assms(4)])
  ultimately show ?thesis using s k(2)
    by (auto simp: BitfieldMan_getSparseMissingUnusedIndex_def BitfieldMan_getGeomMissingUnusedIndex_def
        getGeomMissingUnusedIndex_def split: option.splits)
qed

theorem stream_search_finds_witness:
  "BitfieldMan_getInorderMissingUnusedIndex (fst (BitfieldMan_setUseBit (BitfieldMan_new 16 40) 0)) 16 [0]
    = Some (LEAST i. i \<in> bm_free (fst (BitfieldMan_setUseBit (BitfieldMan_new 16 40) 0)) [0])"
proof -
  let ?b = "fst (BitfieldMan_setUseBit (BitfieldMan_new 16 40) 0)"
  have l: "bm_layout ?b" using BitfieldMan_new_spec(1) [of 16 40]
    by (auto simp: bm_inv_def intro: BitfieldMan_setUseBit_spec(1))
  have n: "1 < bm_blocks ?b" by code_simp
  have "\<not> bitfield_test (excluded_bits ?b [0]) (bm_blocks ?b) 1" by code_simp
  then have f: "1 \<in> bm_free ?b [0]" using excluded_bits_free [OF l n] by blast
  have m: "16 \<le> bm_blockLength ?b" by code_simp
  show ?thesis using stream_search_finds [OF l f m, of 2] by simp
qed

text \<open>The bit copies that piece selection works on are exact: \<open>getAllMissingIndexes\<close> on a peer's
  bitfield yields the selected blocks the peer has and this side lacks, with the padding of the
  last byte cleared, and tells whether there is one.\<close>
theorem getAllMissingIndexes_exact:
  assumes "bm_layout bm" "0 < bm_blocks bm"
    and "BitfieldMan_getAllMissingIndexes_peer bm peer (bm_bitfieldLength bm) = Some (out, found)"
  shows "bit_set (array out) (bm_blocks bm) = (bit_set (array peer) (bm_blocks bm) - bm_have bm) \<inter> bm_wanted bm
    \<and> bit_set (array out) (8 * length out) \<subseteq> {..<bm_blocks bm}
    \<and> (found \<longleftrightarrow> (bit_set (array peer) (bm_blocks bm) - bm_have bm) \<inter> bm_wanted bm \<noteq> {})"
proof -
  let ?n = "bm_blocks bm"
  obtain src where src: "copyBitfield src ?n = Some (out, found)"
    and t: "bit_set src ?n = (bit_set (array peer) ?n - bm_have bm) \<inter> bm_wanted bm"
  proof (cases "bm_filterEnabled bm")
    case True
    have "bit_set (array_and (array_and (array_not (array (bm_bitfield bm))) (array peer)) (array (bm_filter bm))) ?n
        = (bit_set (array peer) ?n - bm_have bm) \<inter> bm_wanted bm"
      using bm_filter_selected [OF True assms(1)] True by (auto simp: bit_set_def bm_wanted_def bm_have_def)
    then show ?thesis using that assms(3) True by (simp add: BitfieldMan_getAllMissingIndexes_peer_def)
  next
    case False
    have "bit_set (array_and (array_not (array (bm_bitfield bm))) (array peer)) ?n
        = (bit_set (array peer) ?n - bm_have bm) \<inter> bm_wanted bm"
      using False by (auto simp: bit_set_def bm_wanted_def bm_have_def)
    then show ?thesis using that assms(3) False by (simp add: BitfieldMan_getAllMissingIndexes_peer_def)
  qed
  have "bit_set src ?n \<subseteq> {..<?n}" by (auto simp: bit_set_def)
  then show ?thesis using copyBitfield_bits [OF assms(2) src] t by simp
qed

theorem getAllMissingIndexes_exact_witness:
  "BitfieldMan_getAllMissingIndexes_peer (BitfieldMan_new 16 40) [255] 1 = Some ([224], True)
   \<and> bit_set (array [224]) (8 * length [224 :: byte]) \<subseteq> {..<bm_blocks (BitfieldMan_new 16 40)}"
proof -
  have l: "bm_layout (BitfieldMan_new 16 40)" using BitfieldMan_new_spec(1) [of 16 40] by (simp add: bm_inv_def)
  have p: "0 < bm_blocks (BitfieldMan_new 16 40)" by code_simp
  have e: "BitfieldMan_getAllMissingIndexes_peer (BitfieldMan_new 16 40) [255] 1 = Some ([224], True)" by code_simp
  moreover have "bm_bitfieldLength (BitfieldMan_new 16 40) = 1" by code_simp
  ultimately show ?thesis using getAllMissingIndexes_exact [OF l p, of "[255]" "[224]" True] by simp
qed

end
