(* ===== verification/Piece_Selectors.thy ===== *)
theory Piece_Selectors
  imports Bitfield_Search
begin

text \<open>
  Choosing a piece: \<open>PieceStatMan\<close> (how many peers have each piece), the piece selectors of
  peer-to-peer downloads and the stream piece selectors of HTTP and FTP downloads.
  A \<open>select\<close> with an output parameter is an \<open>option\<close>.
\<close>

subsection \<open>The contract of a piece selector\<close>

text \<open>
  \<open>DefaultPieceStorage\<close> passes the candidate pieces as a bitfield of \<open>nbits\<close> bits. It relies on
  being given one of them, whenever there is one. \<open>valid\<close> says for which sizes a selector may be
  asked.
\<close>

locale piece_selector =
  fixes valid :: "nat \<Rightarrow> bool"
    and sel :: "byte_array \<Rightarrow> nat \<Rightarrow> nat option"
  assumes sound: "valid n \<Longrightarrow> sel bf n = Some i \<Longrightarrow> i < n \<and> bitfield_test bf n i"
    and complete: "valid n \<Longrightarrow> j < n \<Longrightarrow> bitfield_test bf n j \<Longrightarrow> sel bf n \<noteq> None"
begin

lemma none_iff: "valid n \<Longrightarrow> sel bf n = None \<longleftrightarrow> bit_set bf n = {}"
proof (cases "sel bf n")
  case None
  then show "valid n \<Longrightarrow> sel bf n = None \<longleftrightarrow> bit_set bf n = {}"
    using complete [of n _ bf] by (auto simp: bit_set_def)
next
  case (Some i)
  then show "valid n \<Longrightarrow> sel bf n = None \<longleftrightarrow> bit_set bf n = {}" using sound [of n bf i] by (auto simp: bit_set_def)
qed

lemma some_in: "valid n \<Longrightarrow> sel bf n = Some i \<Longrightarrow> i \<in> bit_set bf n"
  using sound by (auto simp: bit_set_def)

text \<open>With a single candidate there is no choice.\<close>

lemma singleton: "valid n \<Longrightarrow> bit_set bf n = {i} \<Longrightarrow> sel bf n = Some i"
  using none_iff some_in by (metis empty_not_insert not_None_eq singletonD)

end

subsection \<open>The longest sequence\<close>

definition Longest_getStartIndex :: "nat \<Rightarrow> byte_array \<Rightarrow> nat \<Rightarrow> nat" where
  "Longest_getStartIndex from bitfield nbits =
     (let i = scan_while (\<lambda>i. \<not> bitfield_test bitfield nbits i) from nbits
      in if nbits \<le> i then nbits else i)"

definition Longest_getEndIndex :: "nat \<Rightarrow> byte_array \<Rightarrow> nat \<Rightarrow> nat" where
  "Longest_getEndIndex from bitfield nbits = scan_while (bitfield_test bitfield nbits) from nbits"

lemma Longest_start:
  fixes i n :: nat and bf :: byte_array
  assumes "i \<le> n" defines "s \<equiv> Longest_getStartIndex i bf n"
  shows "i \<le> s" and "s \<le> n" and "s \<noteq> n \<Longrightarrow> bitfield_test bf n s"
    and "\<And>j. i \<le> j \<Longrightarrow> j < s \<Longrightarrow> \<not> bitfield_test bf n j"
proof -
  let ?p = "\<lambda>i. \<not> bitfield_test bf n i"
  have e: "s = scan_while ?p i n"
    using scan_while_le [OF assms(1), of ?p] by (auto simp: s_def Longest_getStartIndex_def Let_def)
  show "i \<le> s" "s \<le> n" unfolding e using scan_while_ge scan_while_le [OF assms(1)] by auto
  show "s \<noteq> n \<Longrightarrow> bitfield_test bf n s"
    using scan_while_stop [of ?p i n] \<open>s \<le> n\<close> unfolding e by linarith
  show "\<And>j. i \<le> j \<Longrightarrow> j < s \<Longrightarrow> \<not> bitfield_test bf n j"
    unfolding e using scan_while_all by blast
qed

lemma Longest_end:
  fixes i n :: nat and bf :: byte_array
  assumes "i < n" "bitfield_test bf n i" defines "e \<equiv> Longest_getEndIndex i bf n"
  shows "i < e" and "e \<le> n" and "e \<noteq> n \<Longrightarrow> \<not> bitfield_test bf n e"
    and "\<And>j. i \<le> j \<Longrightarrow> j < e \<Longrightarrow> bitfield_test bf n j"
proof -
  let ?p = "bitfield_test bf n"
  have "e = scan_while ?p (i + 1) n"
    using assms(1,2) by (simp add: e_def Longest_getEndIndex_def scan_while.simps [of _ i])
  then show "i < e" using scan_while_ge [of "i + 1" ?p n] by simp
  have e: "e = scan_while ?p i n" by (simp add: e_def Longest_getEndIndex_def)
  show "e \<le> n" unfolding e using scan_while_le assms(1) by simp
  show "e \<noteq> n \<Longrightarrow> \<not> bitfield_test bf n e"
    using scan_while_stop [of ?p i n] \<open>e \<le> n\<close> unfolding e by linarith
  show "\<And>j. i \<le> j \<Longrightarrow> j < e \<Longrightarrow> bitfield_test bf n j"
    unfolding e using scan_while_all by blast
qed

lemma longest_progress:
  assumes "i < n" "Longest_getStartIndex i bf n \<noteq> n"
  shows "i < Longest_getEndIndex (Longest_getStartIndex i bf n) bf n"
proof -
  note s = Longest_start [OF less_imp_le [OF assms(1)], where bf = bf]
  have "Longest_getStartIndex i bf n < n" using s(2) assms(2) by simp
  from Longest_end(1) [OF this s(3) [OF assms(2)]] s(1) show ?thesis by simp
qed

function longest_loop :: "byte_array \<Rightarrow> nat \<Rightarrow> nat \<Rightarrow> nat \<Rightarrow> nat \<Rightarrow> nat \<times> nat" where
  "longest_loop bitfield nbits mstart mend nextIndex =
     (if nextIndex < nbits \<and> Longest_getStartIndex nextIndex bitfield nbits \<noteq> nbits then
        let start = Longest_getStartIndex nextIndex bitfield nbits;
            end = Longest_getEndIndex start bitfield nbits
        in if mend - mstart < end - start
           then longest_loop bitfield nbits start end end
           else longest_loop bitfield nbits mstart mend end
      else (mstart, mend))"
  by pat_completeness auto
termination
  by (relation "measure (\<lambda>(bf, n, ms, me, i). n - i)") (auto intro!: diff_less_mono2 longest_progress)

declare longest_loop.simps [simp del]

definition LongestSequence_select :: "byte_array \<Rightarrow> nat \<Rightarrow> nat option" where
  "LongestSequence_select bitfield nbits =
     (let (mstart, mend) = longest_loop bitfield nbits 0 0 0
      in if mend - mstart > 0 then Some (mend - 1) else None)"

text \<open>A run of set bits.\<close>

definition run :: "byte_array \<Rightarrow> nat \<Rightarrow> nat \<Rightarrow> nat \<Rightarrow> bool" where
  "run bf n a b \<longleftrightarrow> a \<le> b \<and> b \<le> n \<and> (\<forall>i. a \<le> i \<and> i < b \<longrightarrow> bitfield_test bf n i)"

definition longest_upto :: "byte_array \<Rightarrow> nat \<Rightarrow> nat \<Rightarrow> nat \<Rightarrow> nat \<Rightarrow> bool" where
  "longest_upto bf n ms me i \<longleftrightarrow> run bf n ms me \<and> (\<forall>a b. run bf n a b \<and> b \<le> i \<longrightarrow> b - a \<le> me - ms)"

lemma longest_loop_longest:
  assumes "longest_upto bf n ms me i" "i \<le> n" "i = 0 \<or> i = n \<or> \<not> bitfield_test bf n i"
  shows "case longest_loop bf n ms me i of (s, e) \<Rightarrow> longest_upto bf n s e n"
  using assms
proof (induction bf n ms me i rule: longest_loop.induct)
  case (1 bf n ms me i)
  let ?s = "Longest_getStartIndex i bf n"
  let ?e = "Longest_getEndIndex ?s bf n"
  note st = Longest_start [OF 1(4), where bf = bf]
  have skip: "?s \<le> a" if "run bf n a b" "i < b" "a < b" "b \<le> n" for a b
  proof (rule ccontr)
    assume "\<not> ?s \<le> a"
    moreover have "bitfield_test bf n a" using that by (simp add: run_def)
    ultimately have "a < i" using st(4) [of a] by (meson not_le)
    then have "bitfield_test bf n i" using that by (auto simp: run_def)
    with 1(5) \<open>a < i\<close> that show False by auto
  qed
  show ?case
  proof (cases "i < n \<and> ?s \<noteq> n")
    case True
    then have s: "?s < n" "bitfield_test bf n ?s" using st by auto
    note en = Longest_end [OF s]
    have run: "run bf n ?s ?e" using en by (auto simp: run_def)
    have d: "?e = 0 \<or> ?e = n \<or> \<not> bitfield_test bf n ?e" using en(3) by blast
    have best: "b - a \<le> max (me - ms) (?e - ?s)" if "run bf n a b" "b \<le> ?e" for a b
    proof (cases "b \<le> i \<or> b \<le> a")
      case True
      then show ?thesis using 1(3) that by (fastforce simp: longest_upto_def)
    next
      case False
      then show ?thesis using skip [OF that(1)] that en(2) by simp
    qed
    show ?thesis
    proof (cases "me - ms < ?e - ?s")
      case t: True
      have "longest_upto bf n ?s ?e ?e" using run best t by (fastforce simp: longest_upto_def)
      from 1(1) [OF True refl refl t this en(2) d] t True show ?thesis
        by (subst longest_loop.simps) (simp add: Let_def)
    next
      case t: False
      have "longest_upto bf n ms me ?e" using best t 1(3) by (fastforce simp: longest_upto_def)
      from 1(2) [OF True refl refl t this en(2) d] t True show ?thesis
        by (subst longest_loop.simps) (simp add: Let_def)
    qed
  next
    case False
    have "longest_upto bf n ms me n"
      unfolding longest_upto_def
    proof (intro conjI allI impI)
      show "run bf n ms me" using 1(3) by (simp add: longest_upto_def)
      fix a b assume r: "run bf n a b \<and> b \<le> n"
      show "b - a \<le> me - ms"
      proof (cases "b \<le> i \<or> b \<le> a")
        case True
        then show ?thesis using 1(3) r by (fastforce simp: longest_upto_def)
      next
        case c: False
        then have "?s \<le> a" using skip [of a b] r by simp
        with False r c 1(4) show ?thesis by auto
      qed
    qed
    then show ?thesis using False by (subst longest_loop.simps) auto
  qed
qed

lemma LongestSequence_select_longest:
  "case LongestSequence_select bf n of
     None \<Rightarrow> bit_set bf n = {}
   | Some i \<Rightarrow> \<exists>a \<le> i. run bf n a (i + 1) \<and> (\<forall>c d. run bf n c d \<longrightarrow> d - c \<le> i + 1 - a)"
proof -
  obtain s e where l: "longest_loop bf n 0 0 0 = (s, e)" by force
  have "longest_upto bf n 0 0 0" by (auto simp: longest_upto_def run_def)
  from longest_loop_longest [OF this] l have lu: "longest_upto bf n s e n" by simp
  show ?thesis
  proof (cases "s < e")
    case True
    then have "e - 1 + 1 = e" "s \<le> e - 1" by auto
    with lu l True show ?thesis
      by (auto simp: LongestSequence_select_def longest_upto_def run_def intro!: exI [of _ s])
  next
    case False
    have "\<not> bitfield_test bf n i" if "i < n" for i
    proof
      assume "bitfield_test bf n i"
      with that have "run bf n i (i + 1)" by (auto simp: run_def le_less_Suc_eq)
      with lu that have "i + 1 - i \<le> e - s" unfolding longest_upto_def by (metis Suc_eq_plus1 Suc_leI)
      with False show False by simp
    qed
    then show ?thesis using False l by (auto simp: LongestSequence_select_def bit_set_def)
  qed
qed

lemma LongestSequence_select_ok:
  "LongestSequence_select bf n = Some i \<Longrightarrow> i < n \<and> bitfield_test bf n i"
  "j < n \<Longrightarrow> bitfield_test bf n j \<Longrightarrow> LongestSequence_select bf n \<noteq> None"
  using LongestSequence_select_longest [of bf n] by (auto simp: run_def bit_set_def split: option.splits)

interpretation longest: piece_selector "\<lambda>_. True" LongestSequence_select
  by unfold_locales (use LongestSequence_select_ok in auto)

subsection \<open>Piece statistics\<close>

text \<open>
  \<open>counts_\<close> holds \<open>int\<close>s that saturate. The constructor's shuffle is a parameter: what
  \<open>std::shuffle\<close> makes of the order.
\<close>

record PieceStatMan =
  psm_order :: "nat list"
  psm_counts :: "int list"

definition INT_MAX :: int where
  "INT_MAX = 2 ^ 31 - 1"

definition PieceStatMan_new :: "(nat list \<Rightarrow> nat list) \<Rightarrow> nat \<Rightarrow> bool \<Rightarrow> PieceStatMan" where
  "PieceStatMan_new shuffle pieceNum randomShuffle =
     \<lparr>psm_order = (if randomShuffle then shuffle [0..<pieceNum] else [0..<pieceNum]),
      psm_counts = replicate pieceNum 0\<rparr>"

definition PieceStatMan_inc :: "int \<Rightarrow> int" where
  "PieceStatMan_inc x = (if x < INT_MAX then x + 1 else x)"

definition PieceStatMan_sub :: "int \<Rightarrow> int" where
  "PieceStatMan_sub x = (if x > 0 then x - 1 else x)"

definition PieceStatMan_addPieceStats :: "PieceStatMan \<Rightarrow> byte_array \<Rightarrow> PieceStatMan" where
  "PieceStatMan_addPieceStats psm bitfield =
     (let nbits = length (psm_counts psm) in
      psm\<lparr>psm_counts := map (\<lambda>i. if bitfield_test bitfield nbits i
        then PieceStatMan_inc (psm_counts psm ! i) else psm_counts psm ! i) [0..<nbits]\<rparr>)"

definition PieceStatMan_subtractPieceStats :: "PieceStatMan \<Rightarrow> byte_array \<Rightarrow> PieceStatMan" where
  "PieceStatMan_subtractPieceStats psm bitfield =
     (let nbits = length (psm_counts psm) in
      psm\<lparr>psm_counts := map (\<lambda>i. if bitfield_test bitfield nbits i
        then PieceStatMan_sub (psm_counts psm ! i) else psm_counts psm ! i) [0..<nbits]\<rparr>)"

definition PieceStatMan_updatePieceStats :: "PieceStatMan \<Rightarrow> byte_array \<Rightarrow> byte_array \<Rightarrow> PieceStatMan" where
  "PieceStatMan_updatePieceStats psm newBitfield oldBitfield =
     (let nbits = length (psm_counts psm) in
      psm\<lparr>psm_counts := map (\<lambda>i.
        let inNew = bitfield_test newBitfield nbits i; inOld = bitfield_test oldBitfield nbits i in
        if inNew then (if \<not> inOld then PieceStatMan_inc (psm_counts psm ! i) else psm_counts psm ! i)
        else if inOld then PieceStatMan_sub (psm_counts psm ! i)
        else psm_counts psm ! i) [0..<nbits]\<rparr>)"

definition PieceStatMan_addPieceStats_index :: "PieceStatMan \<Rightarrow> nat \<Rightarrow> PieceStatMan" where
  "PieceStatMan_addPieceStats_index psm index =
     psm\<lparr>psm_counts := (psm_counts psm)[index := PieceStatMan_inc (psm_counts psm ! index)]\<rparr>"

subsection \<open>The statistics count the peers\<close>

text \<open>
  What the peer-to-peer commands do with the statistics: a peer's bitfield is added when it
  arrives, updated when it is replaced, its single \<open>have\<close> messages are counted one by one (for
  a piece the peer did not have), and it is subtracted when the peer leaves. The peers present
  are a list of bitfields.
\<close>

datatype stat_event = PeerBitfield byte_array | PeerReplaces byte_array byte_array
  | PeerHave byte_array nat byte_array | PeerGone byte_array

fun stat_apply :: "stat_event \<Rightarrow> PieceStatMan \<Rightarrow> PieceStatMan" where
  "stat_apply (PeerBitfield bf) psm = PieceStatMan_addPieceStats psm bf"
| "stat_apply (PeerReplaces old new) psm = PieceStatMan_updatePieceStats psm new old"
| "stat_apply (PeerHave old i new) psm = PieceStatMan_addPieceStats_index psm i"
| "stat_apply (PeerGone bf) psm = PieceStatMan_subtractPieceStats psm bf"

fun peers_apply :: "stat_event \<Rightarrow> byte_array list \<Rightarrow> byte_array list" where
  "peers_apply (PeerBitfield bf) ps = bf # ps"
| "peers_apply (PeerReplaces old new) ps = new # remove1 old ps"
| "peers_apply (PeerHave old i new) ps = new # remove1 old ps"
| "peers_apply (PeerGone bf) ps = remove1 bf ps"

fun stat_event_ok :: "nat \<Rightarrow> stat_event \<Rightarrow> byte_array list \<Rightarrow> bool" where
  "stat_event_ok n (PeerBitfield bf) ps \<longleftrightarrow> int (length ps) < INT_MAX"
| "stat_event_ok n (PeerReplaces old new) ps \<longleftrightarrow> old \<in> set ps"
| "stat_event_ok n (PeerHave old i new) ps \<longleftrightarrow> old \<in> set ps \<and> i < n
     \<and> (\<forall>j. bitfield_test new n j \<longleftrightarrow> bitfield_test old n j \<or> j = i) \<and> \<not> bitfield_test old n i"
| "stat_event_ok n (PeerGone bf) ps \<longleftrightarrow> bf \<in> set ps"

definition peer_count :: "nat \<Rightarrow> nat \<Rightarrow> byte_array list \<Rightarrow> int" where
  "peer_count n i ps = int (length (filter (\<lambda>bf. bitfield_test bf n i) ps))"

inductive stat_reach :: "nat \<Rightarrow> PieceStatMan \<Rightarrow> byte_array list \<Rightarrow> bool" for n where
  init: "distinct (sh [0..<n]) \<Longrightarrow> set (sh [0..<n]) = {..<n} \<Longrightarrow> stat_reach n (PieceStatMan_new sh n rnd) []"
| step: "stat_reach n psm ps \<Longrightarrow> stat_event_ok n e ps \<Longrightarrow>
    stat_reach n (stat_apply e psm) (peers_apply e ps)"

lemma stat_apply_order [simp]: "psm_order (stat_apply e psm) = psm_order psm"
  by (cases e) (simp_all add: PieceStatMan_addPieceStats_def PieceStatMan_updatePieceStats_def
      PieceStatMan_subtractPieceStats_def PieceStatMan_addPieceStats_index_def Let_def)

lemma stat_reach_order: "stat_reach n psm ps \<Longrightarrow> distinct (psm_order psm) \<and> set (psm_order psm) = {..<n}"
proof (induction rule: stat_reach.induct)
  case (init sh rnd)
  then show ?case by (cases rnd) (simp_all add: PieceStatMan_new_def atLeast0LessThan)
next
  case (step psm ps e)
  then show ?case by simp
qed

lemma length_filter_remove1:
  "x \<in> set xs \<Longrightarrow> length (filter P (remove1 x xs)) + (if P x then 1 else 0) = length (filter P xs)"
  by (induction xs) auto

lemma peer_count_remove1: "bf \<in> set ps \<Longrightarrow>
    peer_count n i (remove1 bf ps) = peer_count n i ps - (if bitfield_test bf n i then 1 else 0)"
  using length_filter_remove1 [of bf ps "\<lambda>bf. bitfield_test bf n i"]
  by (auto simp: peer_count_def split: if_splits)

lemma peer_count_simps [simp]:
  "peer_count n i [] = 0"
  "peer_count n i (bf # ps) = (if bitfield_test bf n i then 1 else 0) + peer_count n i ps"
  by (simp_all add: peer_count_def)

lemma peer_count_bounds: "0 \<le> peer_count n i ps" "peer_count n i ps \<le> int (length ps)"
  by (simp_all add: peer_count_def)

lemma peer_count_pos:
  assumes "bf \<in> set ps" "bitfield_test bf n i" shows "0 < peer_count n i ps"
proof -
  have "bf \<in> set (filter (\<lambda>bf. bitfield_test bf n i) ps)" using assms by simp
  then show ?thesis unfolding peer_count_def using length_pos_if_in_set by fastforce
qed

lemma remove1_length: "x \<in> set xs \<Longrightarrow> int (length (remove1 x xs)) = int (length xs) - 1"
  using length_pos_if_in_set [of x xs] by (simp add: length_remove1 of_nat_diff Suc_leI del: length_greater_0_conv)

lemma peer_count_room:
  assumes "old \<in> set ps" "\<not> bitfield_test old n i" "int (length ps) \<le> INT_MAX"
  shows "peer_count n i ps < INT_MAX"
  using assms peer_count_remove1 [of old ps n i] peer_count_bounds(2) [of n i "remove1 old ps"] remove1_length [of old ps]
  by simp

lemma stat_apply_length [simp]: "length (psm_counts (stat_apply e psm)) = length (psm_counts psm)"
  by (cases e) (simp_all add: PieceStatMan_addPieceStats_def PieceStatMan_updatePieceStats_def
      PieceStatMan_subtractPieceStats_def PieceStatMan_addPieceStats_index_def Let_def)

lemma stat_apply_count:
  assumes "length (psm_counts psm) = n" "i < n" "psm_counts psm ! i = peer_count n i ps"
    and "stat_event_ok n e ps" "int (length ps) \<le> INT_MAX"
  shows "psm_counts (stat_apply e psm) ! i = peer_count n i (peers_apply e ps)"
proof (cases e)
  case (PeerBitfield bf)
  then have "peer_count n i ps < INT_MAX" using assms peer_count_bounds(2) [of n i ps] by simp
  then show ?thesis using assms PeerBitfield by (simp add: PieceStatMan_addPieceStats_def PieceStatMan_inc_def)
next
  case (PeerReplaces old new)
  have "peer_count n i ps < INT_MAX" if "\<not> bitfield_test old n i"
    using assms that PeerReplaces by (auto intro: peer_count_room)
  then show ?thesis using assms PeerReplaces peer_count_pos [of old ps n i]
    by (simp add: PieceStatMan_updatePieceStats_def PieceStatMan_inc_def PieceStatMan_sub_def Let_def peer_count_remove1)
next
  case (PeerHave old k new)
  have "peer_count n i ps < INT_MAX" if "\<not> bitfield_test old n i"
    using assms that PeerHave by (auto intro: peer_count_room)
  then show ?thesis using assms PeerHave
    by (auto simp: PieceStatMan_addPieceStats_index_def PieceStatMan_inc_def peer_count_remove1 nth_list_update)
next
  case (PeerGone bf)
  then show ?thesis using assms peer_count_pos [of bf ps n i]
    by (simp add: PieceStatMan_subtractPieceStats_def PieceStatMan_sub_def peer_count_remove1)
qed

lemma stat_reach_counts:
  assumes "stat_reach n psm ps"
  shows "length (psm_counts psm) = n \<and> int (length ps) \<le> INT_MAX \<and> (\<forall>i < n. psm_counts psm ! i = peer_count n i ps)"
  using assms
proof (induction rule: stat_reach.induct)
  case (init sh rnd)
  then show ?case by (simp add: PieceStatMan_new_def INT_MAX_def)
next
  case (step psm ps e)
  then have "int (length (peers_apply e ps)) \<le> INT_MAX"
    by (cases e) (auto simp: remove1_length)
  with step stat_apply_count [of psm n _ ps e] show ?case by simp
qed

subsection \<open>The rarest piece\<close>

definition rarest_step :: "PieceStatMan \<Rightarrow> byte_array \<Rightarrow> nat \<Rightarrow> nat \<Rightarrow> int \<times> nat \<Rightarrow> int \<times> nat" where
  "rarest_step psm bitfield nbits i r =
     (let (min, bestIdx) = r; idx = psm_order psm ! i in
      if bitfield_test bitfield nbits idx \<and> psm_counts psm ! idx < min
      then (psm_counts psm ! idx, idx) else (min, bestIdx))"

definition RarestPieceSelector_select :: "PieceStatMan \<Rightarrow> byte_array \<Rightarrow> nat \<Rightarrow> nat option" where
  "RarestPieceSelector_select psm bitfield nbits =
     (let (min, bestIdx) = fold (rarest_step psm bitfield nbits) [0..<nbits] (INT_MAX, nbits)
      in if bestIdx = nbits then None else Some bestIdx)"

text \<open>The invariant of the scan: the best of the pieces seen so far, the earliest on a tie.\<close>

definition rarest_best :: "PieceStatMan \<Rightarrow> byte_array \<Rightarrow> nat \<Rightarrow> nat \<Rightarrow> int \<times> nat \<Rightarrow> bool" where
  "rarest_best psm bf n k r \<longleftrightarrow> (let cand = {i. i < k \<and> bitfield_test bf n (psm_order psm ! i)} in
     (snd r = n \<and> fst r = INT_MAX \<and> cand = {})
   \<or> (\<exists>i \<in> cand. snd r = psm_order psm ! i \<and> fst r = psm_counts psm ! snd r
        \<and> (\<forall>j \<in> cand. fst r \<le> psm_counts psm ! (psm_order psm ! j))
        \<and> (\<forall>j \<in> cand. j < i \<longrightarrow> fst r < psm_counts psm ! (psm_order psm ! j))))"

definition psm_ok :: "PieceStatMan \<Rightarrow> nat \<Rightarrow> bool" where
  "psm_ok psm n \<longleftrightarrow> length (psm_counts psm) = n \<and> distinct (psm_order psm) \<and> set (psm_order psm) = {..<n}
     \<and> (\<forall>c \<in> set (psm_counts psm). c < INT_MAX)"

lemma psm_ok_length: "psm_ok psm n \<Longrightarrow> length (psm_order psm) = n"
  by (metis psm_ok_def distinct_card card_lessThan)

lemma psm_ok_order: "psm_ok psm n \<Longrightarrow> i < n \<Longrightarrow> psm_order psm ! i < n"
  using psm_ok_length [of psm n] nth_mem [of i "psm_order psm"] by (auto simp: psm_ok_def)

lemma rarest_scan:
  assumes "psm_ok psm n" "k \<le> n"
  shows "rarest_best psm bf n k (fold (rarest_step psm bf n) [0..<k] (INT_MAX, n))"
  using assms(2)
proof (induction k)
  case 0
  then show ?case by (simp add: rarest_best_def)
next
  case (Suc k)
  obtain m b where r: "fold (rarest_step psm bf n) [0..<k] (INT_MAX, n) = (m, b)" by force
  let ?o = "psm_order psm ! k"
  have lt: "?o < n" using psm_ok_order [OF assms(1)] Suc(2) by simp
  then have c: "psm_counts psm ! ?o < INT_MAX" using assms(1) nth_mem [of ?o "psm_counts psm"] by (auto simp: psm_ok_def)
  have ih: "rarest_best psm bf n k (m, b)" using Suc r by simp
  have st: "fold (rarest_step psm bf n) [0..<Suc k] (INT_MAX, n) = rarest_step psm bf n k (m, b)" using r by simp
  have cand: "{i. i < Suc k \<and> P i} = (if P k then insert k {i. i < k \<and> P i} else {i. i < k \<and> P i})" for P
    by (auto simp: less_Suc_eq)
  show ?case unfolding st
    using ih c by (auto simp: rarest_best_def rarest_step_def Let_def cand)
qed

lemma RarestPieceSelector_select_rarest:
  assumes "psm_ok psm n"
  shows "case RarestPieceSelector_select psm bf n of
     None \<Rightarrow> bit_set bf n = {}
   | Some p \<Rightarrow> p \<in> bit_set bf n \<and> (\<forall>q \<in> bit_set bf n. psm_counts psm ! p \<le> psm_counts psm ! q)"
proof -
  obtain m b where r: "fold (rarest_step psm bf n) [0..<n] (INT_MAX, n) = (m, b)" by force
  have best: "rarest_best psm bf n n (m, b)" using rarest_scan [OF assms order_refl, of bf] r by simp
  have sel: "RarestPieceSelector_select psm bf n = (if b = n then None else Some b)"
    using r by (simp add: RarestPieceSelector_select_def)
  have bits: "bit_set bf n = (\<lambda>i. psm_order psm ! i) ` {i. i < n \<and> bitfield_test bf n (psm_order psm ! i)}"
  proof -
    have "q \<in> (\<lambda>i. psm_order psm ! i) ` {i. i < n \<and> bitfield_test bf n (psm_order psm ! i)}"
      if "q < n" "bitfield_test bf n q" for q
    proof -
      have "q \<in> set (psm_order psm)" using assms that(1) by (simp add: psm_ok_def)
      then obtain i where "i < n" "q = psm_order psm ! i" by (metis in_set_conv_nth psm_ok_length [OF assms])
      then show ?thesis using that(2) by auto
    qed
    then show ?thesis using psm_ok_order [OF assms] by (auto simp: bit_set_def)
  qed
  from best consider "b = n" "bit_set bf n = {}"
    | i where "i < n" "b = psm_order psm ! i" "b \<in> bit_set bf n" "\<forall>q \<in> bit_set bf n. psm_counts psm ! b \<le> psm_counts psm ! q"
    by (auto simp: rarest_best_def Let_def bits)
  then show ?thesis
  proof cases
    case 2
    then have "b \<noteq> n" using psm_ok_order [OF assms] by auto
    with 2 show ?thesis by (simp add: sel)
  qed (simp add: sel)
qed

lemma RarestPieceSelector_ok:
  assumes "psm_ok psm n"
  shows "RarestPieceSelector_select psm bf n = Some i \<Longrightarrow> i < n \<and> bitfield_test bf n i"
    and "j < n \<Longrightarrow> bitfield_test bf n j \<Longrightarrow> RarestPieceSelector_select psm bf n \<noteq> None"
  using RarestPieceSelector_select_rarest [OF assms, of bf] by (auto simp: bit_set_def split: option.splits)

interpretation rarest: piece_selector "psm_ok psm" "RarestPieceSelector_select psm" for psm
  by unfold_locales (auto dest: RarestPieceSelector_ok)

subsection \<open>Priority and urgency\<close>

definition PriorityPieceSelector_select ::
    "nat list \<Rightarrow> (byte_array \<Rightarrow> nat \<Rightarrow> nat option) \<Rightarrow> byte_array \<Rightarrow> nat \<Rightarrow> nat option" where
  "PriorityPieceSelector_select prioritizedPieces selector bitfield nbits =
     (case find (bitfield_test bitfield nbits) prioritizedPieces of
        Some p \<Rightarrow> Some p
      | None \<Rightarrow> selector bitfield nbits)"

text \<open>\<open>candidates\<close> is what \<open>SegmentMan::getUrgentPieceCandidates\<close> returns.\<close>

definition peerHasPiece :: "byte_array \<Rightarrow> nat \<Rightarrow> bool" where
  "peerHasPiece bitfield idx = bit (bitfield (idx div 8)) (7 - idx mod 8)"

definition UrgencyAwarePieceSelector_select ::
    "nat list \<Rightarrow> (byte_array \<Rightarrow> nat \<Rightarrow> nat option) \<Rightarrow> byte_array \<Rightarrow> nat \<Rightarrow> nat option" where
  "UrgencyAwarePieceSelector_select candidates fallback bitfield nbits =
     (case find (\<lambda>idx. idx < nbits \<and> peerHasPiece bitfield idx) candidates of
        Some idx \<Rightarrow> Some idx
      | None \<Rightarrow> fallback bitfield nbits)"

lemma peerHasPiece_test: "peerHasPiece bf i = bitfield_test bf n i"
  by (simp add: peerHasPiece_def bitfield_test_bit)

text \<open>A selector built on another one keeps the contract of the other.\<close>

locale stacked_selector = piece_selector +
  fixes first :: "nat list"
begin

lemma priority_sound:
  "valid n \<and> (\<forall>p\<in>set first. p < n) \<Longrightarrow> PriorityPieceSelector_select first sel bf n = Some i
   \<Longrightarrow> i < n \<and> bitfield_test bf n i"
  using sound by (auto simp: PriorityPieceSelector_select_def find_Some_iff split: option.splits)

lemma priority_complete:
  "valid n \<and> (\<forall>p\<in>set first. p < n) \<Longrightarrow> j < n \<Longrightarrow> bitfield_test bf n j \<Longrightarrow>
   PriorityPieceSelector_select first sel bf n \<noteq> None"
  using complete by (simp add: PriorityPieceSelector_select_def split: option.split)

lemma priority_first:
  "p \<in> set first \<Longrightarrow> bitfield_test bf n p \<Longrightarrow> PriorityPieceSelector_select first sel bf n = Some i \<Longrightarrow> i \<in> set first"
  by (auto simp: PriorityPieceSelector_select_def find_None_iff find_Some_iff split: option.splits)

lemma urgency_sound:
  "valid n \<Longrightarrow> UrgencyAwarePieceSelector_select first sel bf n = Some i \<Longrightarrow> i < n \<and> bitfield_test bf n i"
  using sound by (auto simp: UrgencyAwarePieceSelector_select_def find_Some_iff
      peerHasPiece_test [where n = n] split: option.splits)

lemma urgency_complete:
  "valid n \<Longrightarrow> j < n \<Longrightarrow> bitfield_test bf n j \<Longrightarrow> UrgencyAwarePieceSelector_select first sel bf n \<noteq> None"
  using complete by (simp add: UrgencyAwarePieceSelector_select_def split: option.split)

end

sublocale stacked_selector \<subseteq> prio: piece_selector
  "\<lambda>n. valid n \<and> (\<forall>p\<in>set first. p < n)" "PriorityPieceSelector_select first sel"
  by unfold_locales (use priority_sound priority_complete in blast)+

sublocale stacked_selector \<subseteq> urg: piece_selector valid "UrgencyAwarePieceSelector_select first sel"
  by unfold_locales (use urgency_sound urgency_complete in blast)+

interpretation stacked_longest: stacked_selector "\<lambda>_. True" LongestSequence_select first for first
  by unfold_locales

interpretation stacked_rarest: stacked_selector "psm_ok psm" "RarestPieceSelector_select psm" first for psm first
  by unfold_locales

subsection \<open>Stream piece selectors\<close>

text \<open>
  \<open>minSplitSize\<close> is a \<open>size_t\<close> here and an \<open>int32_t\<close> in the search. The geometric selector
  remembers where the first missing piece was when the bitfield was initialised.
\<close>

definition DefaultStreamPieceSelector_select :: "bitfield_man \<Rightarrow> nat \<Rightarrow> byte list \<Rightarrow> nat option" where
  "DefaultStreamPieceSelector_select bm minSplitSize ignoreBitfield =
     BitfieldMan_getSparseMissingUnusedIndex bm (to_int32 (int minSplitSize)) ignoreBitfield"

definition InorderStreamPieceSelector_select :: "bitfield_man \<Rightarrow> nat \<Rightarrow> byte list \<Rightarrow> nat option" where
  "InorderStreamPieceSelector_select bm minSplitSize ignoreBitfield =
     BitfieldMan_getInorderMissingUnusedIndex bm (to_int32 (int minSplitSize)) ignoreBitfield"

text \<open>\<open>start\<close> is the number \<open>SimpleRandomizer\<close> draws below the number of blocks.\<close>

definition RandomStreamPieceSelector_select :: "nat \<Rightarrow> bitfield_man \<Rightarrow> nat \<Rightarrow> byte list \<Rightarrow> nat option" where
  "RandomStreamPieceSelector_select start bm minSplitSize ignoreBitfield =
     (let m = to_int32 (int minSplitSize) in
      case BitfieldMan_getInorderMissingUnusedIndex_range bm start (bm_blocks bm) m ignoreBitfield of
        Some i \<Rightarrow> Some i
      | None \<Rightarrow>
         (case BitfieldMan_getInorderMissingUnusedIndex_range bm 0 start m ignoreBitfield of
            Some i \<Rightarrow> Some i
          | None \<Rightarrow> BitfieldMan_getInorderMissingUnusedIndex bm m ignoreBitfield))"

record geom_selector =
  gs_base :: real
  gs_offsetIndex :: nat

definition GeomStreamPieceSelector_select ::
    "geom_selector \<Rightarrow> bitfield_man \<Rightarrow> nat \<Rightarrow> byte list \<Rightarrow> nat option option" where
  "GeomStreamPieceSelector_select g bm minSplitSize ignoreBitfield =
     BitfieldMan_getGeomMissingUnusedIndex bm (to_int32 (int minSplitSize)) ignoreBitfield
       (gs_base g) (gs_offsetIndex g)"

definition GeomStreamPieceSelector_onBitfieldInit :: "geom_selector \<Rightarrow> bitfield_man \<Rightarrow> geom_selector" where
  "GeomStreamPieceSelector_onBitfieldInit g bm =
     (case BitfieldMan_getFirstMissingIndex bm of
        Some i \<Rightarrow> g\<lparr>gs_offsetIndex := i\<rparr>
      | None \<Rightarrow> g)"

text \<open>
  What \<open>DefaultPieceStorage\<close> relies on in a stream selector: a piece that may be started, and
  always one when the minimum split size is no obstacle.
\<close>

locale stream_selector =
  fixes ok :: "bitfield_man \<Rightarrow> bool"
    and ssel :: "bitfield_man \<Rightarrow> nat \<Rightarrow> byte list \<Rightarrow> nat option"
  assumes ssel_free: "bm_layout bm \<Longrightarrow> 0 < bm_blocks bm \<Longrightarrow> ok bm \<Longrightarrow> ssel bm m ign = Some i \<Longrightarrow> i \<in> bm_free bm ign"
    and ssel_finds: "bm_layout bm \<Longrightarrow> ok bm \<Longrightarrow> bm_free bm ign \<noteq> {} \<Longrightarrow> int m \<le> bm_blockLength bm \<Longrightarrow> ssel bm m ign \<noteq> None"
begin

text \<open>Marking the piece in use makes every further request get another piece.\<close>

lemma in_use_not_again:
  assumes "bm_layout bm" "0 < bm_blocks bm" "ok (fst (BitfieldMan_setUseBit bm i))"
    and "ssel (fst (BitfieldMan_setUseBit bm i)) m ign = Some j" "i < bm_blocks bm"
  shows "j \<noteq> i"
proof -
  let ?b = "fst (BitfieldMan_setUseBit bm i)"
  have "bm_layout ?b" using BitfieldMan_setUseBit_spec(1) [OF assms(1)] .
  moreover have "bm_blocks ?b = bm_blocks bm" by (simp add: BitfieldMan_setUseBit_def split_def)
  ultimately have "j \<in> bm_free ?b ign" using assms ssel_free [of ?b] by simp
  then show ?thesis using BitfieldMan_setUseBit_spec(4) [OF assms(1), of i] assms(5) by (auto simp: bm_free_def)
qed

end

lemma min_split_int32: "bm_layout bm \<Longrightarrow> int m \<le> bm_blockLength bm \<Longrightarrow> to_int32 (int m) = int m"
  by (rule to_int32_id) (auto simp: bm_layout_def)

lemma inorder_search_finds:
  assumes "bm_layout bm" "bm_free bm ign \<noteq> {}" "m \<le> bm_blockLength bm"
  shows "BitfieldMan_getInorderMissingUnusedIndex bm m ign \<noteq> None"
proof -
  obtain j where j: "j \<in> bm_free bm ign" "j < bm_blocks bm" using assms(2) bm_free_sub by blast
  have "\<not> bitfield_test (excluded_bits bm ign) (bm_blocks bm) j" using j excluded_bits_free [OF assms(1)] by blast
  then show ?thesis
    using getInorder_complete [of 0 j "bm_blocks bm" "bm_blocks bm"] j bm_free_unused [OF j] assms(3)
      bm_blocks_pos(1) [OF assms(1)] by (fastforce simp: BitfieldMan_getInorderMissingUnusedIndex_def)
qed

lemma sparse_search_finds:
  assumes "bm_layout bm" "bm_free bm ign \<noteq> {}" "m \<le> bm_blockLength bm"
  shows "BitfieldMan_getSparseMissingUnusedIndex bm m ign \<noteq> None"
proof -
  obtain j where j: "j \<in> bm_free bm ign" "j < bm_blocks bm" using assms(2) bm_free_sub by blast
  have "\<not> bitfield_test (excluded_bits bm ign) (bm_blocks bm) j" using j excluded_bits_free [OF assms(1)] by blast
  then show ?thesis using getSparse_complete [OF j(2)] assms(3) bm_blocks_pos(1) [OF assms(1)] j(2)
    by (fastforce simp: BitfieldMan_getSparseMissingUnusedIndex_def)
qed

lemma inorder_range_free:
  assumes "bm_layout bm" "s < bm_blocks bm"
    and "BitfieldMan_getInorderMissingUnusedIndex_range bm s e m ign = Some i"
  shows "i \<in> bm_free bm ign"
proof -
  note g = assms(3) [unfolded BitfieldMan_getInorderMissingUnusedIndex_range_def]
  show ?thesis using getInorder_sound(1,3) [OF g assms(2)] excluded_bits_free [OF assms(1)] by (meson min.cobounded2)
qed

interpretation default_stream: stream_selector "\<lambda>_. True" DefaultStreamPieceSelector_select
  by unfold_locales (auto simp: DefaultStreamPieceSelector_select_def min_split_int32
      intro: sparse_search_free dest: sparse_search_finds)

interpretation inorder_stream: stream_selector "\<lambda>_. True" InorderStreamPieceSelector_select
  by unfold_locales (auto simp: InorderStreamPieceSelector_select_def min_split_int32
      intro: inorder_search_free dest: inorder_search_finds)

interpretation random_stream: stream_selector "\<lambda>bm. start < bm_blocks bm" "RandomStreamPieceSelector_select start" for start
proof unfold_locales
  fix bm m ign i
  assume "bm_layout bm" "0 < bm_blocks bm" "start < bm_blocks bm" "RandomStreamPieceSelector_select start bm m ign = Some i"
  then show "i \<in> bm_free bm ign"
    using inorder_range_free [of bm 0 start "to_int32 (int m)" ign i]
    by (auto simp: RandomStreamPieceSelector_select_def Let_def split: option.splits
        intro: inorder_range_free inorder_search_free)
next
  fix bm m ign
  assume "bm_layout bm" "bm_free bm ign \<noteq> {}" "int m \<le> bm_blockLength bm"
  then show "RandomStreamPieceSelector_select start bm m ign \<noteq> None"
    using inorder_search_finds [of bm ign "int m"]
    by (simp add: RandomStreamPieceSelector_select_def Let_def min_split_int32 split: option.split)
qed

text \<open>The geometric selector, whose search ends when its base exceeds 1 (\<open>Option.bind\<close> reads it).\<close>

lemma geom_select_ends: "1 < gs_base g \<Longrightarrow> GeomStreamPieceSelector_select g bm m ign \<noteq> None"
  using geom_loop_start [of "gs_base g"]
  by (auto simp: GeomStreamPieceSelector_select_def BitfieldMan_getGeomMissingUnusedIndex_def
      getGeomMissingUnusedIndex_def split: option.split)

interpretation geom_stream: stream_selector "\<lambda>_. 1 < gs_base g"
  "\<lambda>bm m ign. Option.bind (GeomStreamPieceSelector_select g bm m ign) (\<lambda>r. r)" for g
proof unfold_locales
  fix bm m ign i
  assume "bm_layout bm" "Option.bind (GeomStreamPieceSelector_select g bm m ign) (\<lambda>r. r) = Some i"
  then show "i \<in> bm_free bm ign"
    by (auto simp: GeomStreamPieceSelector_select_def bind_eq_Some_conv intro: geom_search_free)
next
  fix bm m ign
  assume a: "bm_layout bm" "1 < gs_base g" "bm_free bm ign \<noteq> {}" "int m \<le> bm_blockLength bm"
  then have "getSparseMissingUnusedIndex (int m) (excluded_bits bm ign) (array (bm_useBitfield bm))
      (bm_blockLength bm) (bm_blocks bm) \<noteq> None"
    using sparse_search_finds [of bm ign "int m"] by (simp add: BitfieldMan_getSparseMissingUnusedIndex_def)
  then show "Option.bind (GeomStreamPieceSelector_select g bm m ign) (\<lambda>r. r) \<noteq> None"
    using geom_loop_start [OF a(2)] a
    by (auto simp: GeomStreamPieceSelector_select_def BitfieldMan_getGeomMissingUnusedIndex_def
        getGeomMissingUnusedIndex_def min_split_int32 split: option.splits)
qed

subsection \<open>Properties\<close>

text \<open>\<open>LongestSequencePieceSelector\<close> picks the last piece of a longest run of candidates, and
  fails only if there is no candidate.\<close>
theorem longest_sequence_selected:
  "case LongestSequence_select bf n of
     None \<Rightarrow> bit_set bf n = {}
   | Some i \<Rightarrow> \<exists>a \<le> i. run bf n a (i + 1) \<and> (\<forall>c d. run bf n c d \<longrightarrow> d - c \<le> i + 1 - a)"
  by (rule LongestSequence_select_longest)

theorem longest_sequence_selected_witness:
  "\<exists>a \<le> 5. run (array [0b01011100]) 8 a 6 \<and> (\<forall>c d. run (array [0b01011100]) 8 c d \<longrightarrow> d - c \<le> 6 - a)"
proof -
  have "LongestSequence_select (array [0b01011100]) 8 = Some 5" by code_simp
  with longest_sequence_selected [of "array [0b01011100]" 8] show ?thesis by simp
qed

text \<open>C18: After any history of bitfields, replaced bitfields, \<open>have\<close> messages and departures of the
  peers, \<open>RarestPieceSelector\<close> picks a candidate that no other candidate undercuts in the number
  of present peers that have it, and fails only without a candidate.\<close>
theorem rarest_is_rarest:
  assumes "stat_reach n psm ps" "int (length ps) < INT_MAX"
  shows "case RarestPieceSelector_select psm bf n of
     None \<Rightarrow> bit_set bf n = {}
   | Some p \<Rightarrow> p \<in> bit_set bf n \<and> (\<forall>q \<in> bit_set bf n. peer_count n p ps \<le> peer_count n q ps)"
proof -
  have c: "length (psm_counts psm) = n" "\<forall>i < n. psm_counts psm ! i = peer_count n i ps"
    using stat_reach_counts [OF assms(1)] by auto
  then have "c < INT_MAX" if "c \<in> set (psm_counts psm)" for c
    using that assms(2) peer_count_bounds(2) [of n _ ps] by (auto simp: in_set_conv_nth) (meson le_less_trans)
  then have "psm_ok psm n" using c(1) stat_reach_order [OF assms(1)] by (auto simp: psm_ok_def)
  from RarestPieceSelector_select_rarest [OF this, of bf] c(2) show ?thesis
    by (auto simp: bit_set_def split: option.splits)
qed

theorem rarest_is_rarest_witness:
  "RarestPieceSelector_select (stat_apply (PeerBitfield (array [0b10000000])) (PieceStatMan_new (\<lambda>xs. xs) 3 False))
     (array [0b11000000]) 3 = Some 1
   \<and> peer_count 3 1 [array [0b10000000]] \<le> peer_count 3 0 [array [0b10000000]]"
proof -
  let ?psm = "stat_apply (PeerBitfield (array [0b10000000])) (PieceStatMan_new (\<lambda>xs. xs) 3 False)"
  have "stat_reach 3 ?psm (peers_apply (PeerBitfield (array [0b10000000])) [])"
    by (intro stat_reach.intros) (auto simp: INT_MAX_def)
  then have r: "stat_reach 3 ?psm [array [0b10000000]]" by simp
  have s: "RarestPieceSelector_select ?psm (array [0b11000000]) 3 = Some 1" by code_simp
  have z: "0 \<in> bit_set (array [0b11000000]) 3" by (simp add: bit_set_def) code_simp
  have "int (length [array [0b10000000]]) < INT_MAX" by (simp add: INT_MAX_def)
  from rarest_is_rarest [OF r this, of "array [0b11000000]"] s z show ?thesis by simp
qed

text \<open>The urgency-aware selector, as the program builds it over the longest-sequence one, picks
  the first urgent piece the peer has, a candidate in every case, and fails only without one.\<close>
theorem urgency_selector_contract:
  "case UrgencyAwarePieceSelector_select cands LongestSequence_select bf n of
     None \<Rightarrow> bit_set bf n = {}
   | Some i \<Rightarrow> i \<in> bit_set bf n \<and> find (\<lambda>c. c \<in> bit_set bf n) cands \<in> {None, Some i}"
proof (cases "UrgencyAwarePieceSelector_select cands LongestSequence_select bf n")
  case None
  then show ?thesis using stacked_longest.urg.none_iff [where n = n and first = cands and bf = bf] by simp
next
  case (Some i)
  have "(\<lambda>c. c < n \<and> peerHasPiece bf c) = (\<lambda>c. c \<in> bit_set bf n)"
    by (auto simp: bit_set_def peerHasPiece_test [where n = n])
  then have "find (\<lambda>c. c \<in> bit_set bf n) cands \<in> {None, Some i}"
    using Some by (simp add: UrgencyAwarePieceSelector_select_def split: option.splits)
  then show ?thesis using Some stacked_longest.urg.some_in [where n = n and first = cands and bf = bf and i = i] by simp
qed

text \<open>A piece that a stream download has in use is not given to a second connection, by any of
  the stream selectors, as long as its use bit is set.\<close>
theorem in_use_not_reselected:
  assumes "bm_layout bm" "i < bm_blocks bm" "start < bm_blocks bm"
  shows "DefaultStreamPieceSelector_select (fst (BitfieldMan_setUseBit bm i)) m ign \<noteq> Some i
    \<and> InorderStreamPieceSelector_select (fst (BitfieldMan_setUseBit bm i)) m ign \<noteq> Some i
    \<and> RandomStreamPieceSelector_select start (fst (BitfieldMan_setUseBit bm i)) m ign \<noteq> Some i"
proof -
  have p: "0 < bm_blocks bm" "bm_blocks (fst (BitfieldMan_setUseBit bm i)) = bm_blocks bm"
    using assms(2) by (auto simp: BitfieldMan_setUseBit_def split_def)
  note d = default_stream.in_use_not_again [OF assms(1) p(1) _ _ assms(2), where m = m and ign = ign]
    inorder_stream.in_use_not_again [OF assms(1) p(1) _ _ assms(2), where m = m and ign = ign]
    random_stream.in_use_not_again [OF assms(1) p(1) _ _ assms(2), where m = m and ign = ign]
  show ?thesis using d(1) d(2) d(3) [where start = start] p(2) assms(3) by fastforce
qed

theorem in_use_not_reselected_witness:
  "InorderStreamPieceSelector_select (fst (BitfieldMan_setUseBit (BitfieldMan_new 16 40) 0)) 1 [0] \<noteq> Some 0"
proof -
  have "bm_layout (BitfieldMan_new 16 40)" using BitfieldMan_new_spec(1) [of 16 40] by (simp add: bm_inv_def)
  moreover have "0 < bm_blocks (BitfieldMan_new 16 40)" by code_simp
  ultimately show ?thesis using in_use_not_reselected [of "BitfieldMan_new 16 40" 0 0 1 "[0]"] by blast
qed

end
