(* ===== verification/Block_Tracker.thy ===== *)
theory Block_Tracker
  imports Prelude
begin

text \<open>
  \<open>PieceBlockTracker\<close>: which connection owns each block of a piece. Every operation is given
  twice: as a function on the tracker, and as the list of atomic memory accesses its code
  performs, for which the interleavings of any number of connections are considered.
  A connection id is a positive \<open>int64_t\<close>; 0 in \<open>winners\<close> means that nobody owns the block.
\<close>

subsection \<open>State and operations\<close>

datatype block_state = FREE | REQUESTED | WRITING

record PieceData =
  pd_states :: "block_state list"
  pd_winners :: "int list"

definition PieceData_new :: "nat \<Rightarrow> PieceData" where
  "PieceData_new blocks = \<lparr>pd_states = replicate blocks FREE, pd_winners = replicate blocks 0\<rparr>"

type_synonym tracker = "nat \<rightharpoonup> PieceData"

definition Tracker_add_piece :: "tracker \<Rightarrow> nat \<Rightarrow> nat \<Rightarrow> tracker" where
  "Tracker_add_piece t piece_idx blocks =
     (case t piece_idx of
        None \<Rightarrow> t(piece_idx \<mapsto> PieceData_new blocks)
      | Some _ \<Rightarrow> t)"

definition Tracker_try_request :: "tracker \<Rightarrow> nat \<Rightarrow> nat \<Rightarrow> tracker \<times> bool" where
  "Tracker_try_request t piece_idx block_idx =
     (case t piece_idx of
        None \<Rightarrow> (t, False)
      | Some d \<Rightarrow>
          if length (pd_states d) \<le> block_idx then (t, False)
          else if pd_states d ! block_idx = FREE
          then (t(piece_idx \<mapsto> d\<lparr>pd_states := (pd_states d)[block_idx := REQUESTED]\<rparr>), True)
          else (t, False))"

definition Tracker_try_start_write :: "tracker \<Rightarrow> nat \<Rightarrow> nat \<Rightarrow> int \<Rightarrow> tracker \<times> bool" where
  "Tracker_try_start_write t piece_idx block_idx cuid =
     (case t piece_idx of
        None \<Rightarrow> (t, False)
      | Some d \<Rightarrow>
          if length (pd_states d) \<le> block_idx then (t, False)
          else let winner = pd_winners d ! block_idx in
            if winner = 0
            then (t(piece_idx \<mapsto> d\<lparr>pd_winners := (pd_winners d)[block_idx := cuid]\<rparr>), True)
            else (t, winner = cuid))"

definition Tracker_reset_block :: "tracker \<Rightarrow> nat \<Rightarrow> nat \<Rightarrow> tracker" where
  "Tracker_reset_block t piece_idx block_idx =
     (case t piece_idx of
        None \<Rightarrow> t
      | Some d \<Rightarrow>
          if block_idx < length (pd_states d)
          then t(piece_idx \<mapsto> d\<lparr>pd_states := (pd_states d)[block_idx := FREE],
                                pd_winners := (pd_winners d)[block_idx := 0]\<rparr>)
          else t)"

definition Tracker_clear_cuid :: "tracker \<Rightarrow> nat \<Rightarrow> int \<Rightarrow> tracker" where
  "Tracker_clear_cuid t piece_idx cuid =
     (case t piece_idx of
        None \<Rightarrow> t
      | Some d \<Rightarrow> t(piece_idx \<mapsto>
          d\<lparr>pd_winners := map (\<lambda>w. if w = cuid then 0 else w) (pd_winners d)\<rparr>))"

definition tracker_wf :: "tracker \<Rightarrow> bool" where
  "tracker_wf t \<longleftrightarrow> (\<forall>p d. t p = Some d \<longrightarrow> length (pd_winners d) = length (pd_states d))"

definition Tracker_blocks :: "tracker \<Rightarrow> nat \<Rightarrow> nat" where
  "Tracker_blocks t p = (case t p of None \<Rightarrow> 0 | Some d \<Rightarrow> length (pd_states d))"

definition Tracker_owner :: "tracker \<Rightarrow> nat \<Rightarrow> nat \<Rightarrow> int" where
  "Tracker_owner t p b =
     (case t p of None \<Rightarrow> 0 | Some d \<Rightarrow> if b < length (pd_winners d) then pd_winners d ! b else 0)"

lemmas tracker_ops = Tracker_add_piece_def Tracker_try_request_def Tracker_try_start_write_def
  Tracker_reset_block_def Tracker_clear_cuid_def PieceData_new_def

lemma tracker_wf_ops [intro, simp]:
  assumes "tracker_wf t"
  shows "tracker_wf (Tracker_add_piece t p n)" and "tracker_wf (fst (Tracker_try_request t p b))"
    and "tracker_wf (fst (Tracker_try_start_write t p b c))" and "tracker_wf (Tracker_reset_block t p b)"
    and "tracker_wf (Tracker_clear_cuid t p c)"
  using assms by (auto simp: tracker_wf_def tracker_ops Let_def split: option.splits)

lemma tracker_wf_empty [simp]: "tracker_wf Map.empty"
  by (simp add: tracker_wf_def)

lemma Tracker_blocks_ops [simp]:
  "Tracker_blocks (Tracker_add_piece t p n) q = (if q = p \<and> t p = None then n else Tracker_blocks t q)"
  "Tracker_blocks (fst (Tracker_try_request t p b)) q = Tracker_blocks t q"
  "Tracker_blocks (fst (Tracker_try_start_write t p b c)) q = Tracker_blocks t q"
  "Tracker_blocks (Tracker_reset_block t p b) q = Tracker_blocks t q"
  "Tracker_blocks (Tracker_clear_cuid t p c) q = Tracker_blocks t q"
  by (auto simp: Tracker_blocks_def tracker_ops Let_def split: option.splits)

lemma Tracker_owner_ops [simp]:
  assumes "tracker_wf t"
  shows "Tracker_owner (Tracker_add_piece t p n) q a = Tracker_owner t q a"
    and "Tracker_owner (fst (Tracker_try_request t p b)) q a = Tracker_owner t q a"
    and "Tracker_owner (fst (Tracker_try_start_write t p b c)) q a
      = (if q = p \<and> a = b \<and> b < Tracker_blocks t p \<and> Tracker_owner t p b = 0 then c else Tracker_owner t q a)"
    and "Tracker_owner (Tracker_reset_block t p b) q a = (if q = p \<and> a = b then 0 else Tracker_owner t q a)"
    and "Tracker_owner (Tracker_clear_cuid t p c) q a
      = (if q = p \<and> Tracker_owner t q a = c then 0 else Tracker_owner t q a)"
  using assms
  by (auto simp: tracker_wf_def Tracker_owner_def Tracker_blocks_def tracker_ops Let_def split: option.splits)

lemma try_start_write_result:
  assumes "tracker_wf t"
  shows "snd (Tracker_try_start_write t p b c) \<longleftrightarrow>
    b < Tracker_blocks t p \<and> (Tracker_owner t p b = 0 \<or> Tracker_owner t p b = c)"
  using assms
  by (auto simp: tracker_wf_def Tracker_owner_def Tracker_blocks_def tracker_ops Let_def split: option.splits)

subsection \<open>The ownership contract\<close>

text \<open>Competing claims for one block, in the order in which they arrive.\<close>

primrec claims :: "('s \<Rightarrow> nat \<Rightarrow> nat \<Rightarrow> int \<Rightarrow> 's \<times> bool) \<Rightarrow> 's \<Rightarrow> nat \<Rightarrow> nat \<Rightarrow> int list \<Rightarrow> 's \<times> bool list" where
  "claims claim s p b [] = (s, [])"
| "claims claim s p b (c # cs) =
     (let (s', r) = claim s p b c; (s'', rs) = claims claim s' p b cs in (s'', r # rs))"

text \<open>
  What the writers of blocks rely on. \<open>claim\<close> is called before a block is written, \<open>release\<close>
  when a connection gives up a piece. The lemmas hold for any provider that keeps the laws.
\<close>

locale block_ownership =
  fixes valid :: "'s \<Rightarrow> bool"
    and blocks :: "'s \<Rightarrow> nat \<Rightarrow> nat"
    and owner :: "'s \<Rightarrow> nat \<Rightarrow> nat \<Rightarrow> int"
    and claim :: "'s \<Rightarrow> nat \<Rightarrow> nat \<Rightarrow> int \<Rightarrow> 's \<times> bool"
    and release :: "'s \<Rightarrow> nat \<Rightarrow> int \<Rightarrow> 's"
  assumes claim_valid: "valid s \<Longrightarrow> valid (fst (claim s p b c))"
    and release_valid: "valid s \<Longrightarrow> valid (release s p c)"
    and claim_blocks: "blocks (fst (claim s p b c)) q = blocks s q"
    and release_blocks: "blocks (release s p c) q = blocks s q"
    and claim_owner: "valid s \<Longrightarrow> owner (fst (claim s p b c)) q a =
      (if q = p \<and> a = b \<and> b < blocks s p \<and> owner s p b = 0 then c else owner s q a)"
    and claim_result: "valid s \<Longrightarrow>
      snd (claim s p b c) \<longleftrightarrow> b < blocks s p \<and> (owner s p b = 0 \<or> owner s p b = c)"
    and release_owner: "valid s \<Longrightarrow>
      owner (release s p c) q a = (if q = p \<and> owner s q a = c then 0 else owner s q a)"
begin

lemma claim_owns: "valid s \<Longrightarrow> snd (claim s p b c) \<Longrightarrow> owner (fst (claim s p b c)) p b = c"
  by (auto simp: claim_owner claim_result)

lemma claim_other:
  "valid s \<Longrightarrow> owner s p b = c \<Longrightarrow> c \<noteq> 0 \<Longrightarrow> c' \<noteq> c \<Longrightarrow> \<not> snd (claim s p b c')"
  by (simp add: claim_result)

lemma claims_owned:
  "valid s \<Longrightarrow> owner s p b = w \<Longrightarrow> w \<noteq> 0 \<Longrightarrow> b < blocks s p \<Longrightarrow>
   snd (claims claim s p b cs) = map (\<lambda>c. c = w) cs \<and> owner (fst (claims claim s p b cs)) p b = w"
proof (induction cs arbitrary: s)
  case (Cons c cs)
  let ?s = "fst (claim s p b c)"
  have "snd (claims claim ?s p b cs) = map (\<lambda>c. c = w) cs \<and> owner (fst (claims claim ?s p b cs)) p b = w"
    using Cons by (intro Cons.IH) (auto simp: claim_valid claim_owner claim_blocks)
  then show ?case using Cons.prems by (auto simp: split_def Let_def claim_result)
qed simp

lemma first_claim_wins:
  assumes "valid s" "owner s p b = 0" "b < blocks s p" "c \<noteq> 0"
  shows "snd (claims claim s p b (c # cs)) = True # map (\<lambda>c'. c' = c) cs"
    and "owner (fst (claims claim s p b (c # cs))) p b = c"
  using assms claims_owned [of "fst (claim s p b c)" p b c cs]
  by (auto simp: split_def Let_def claim_result claim_owner claim_valid claim_blocks)

lemma release_frees: "valid s \<Longrightarrow> c \<noteq> 0 \<Longrightarrow> owner (release s p c) p b \<noteq> c"
  by (simp add: release_owner)

lemma release_keeps: "valid s \<Longrightarrow> owner s q b \<noteq> c \<Longrightarrow> owner (release s p c) q b = owner s q b"
  by (simp add: release_owner)

end

interpretation trk: block_ownership tracker_wf Tracker_blocks Tracker_owner
  Tracker_try_start_write Tracker_clear_cuid
  by unfold_locales (simp_all add: try_start_write_result)

subsection \<open>Atomic accesses and interleavings\<close>

text \<open>
  An operation reads the map under its mutex, which fixes the blocks it works on (a piece is
  never removed and its vectors never change their length), and then performs single atomic
  accesses, between which other threads may run.
\<close>

datatype tracker_op =
    AddPiece nat nat | TryRequest nat nat | TryStartWrite nat nat int
  | ResetBlock nat nat | ClearCuid nat int

datatype access =
    AccAdd nat nat | AccRequest nat nat | AccClaim nat nat int | AccClear nat nat int
  | AccFreeState nat nat | AccFreeWinner nat nat

fun accesses :: "tracker \<Rightarrow> tracker_op \<Rightarrow> access list" where
  "accesses t (AddPiece p n) = [AccAdd p n]"
| "accesses t (TryRequest p b) = (if b < Tracker_blocks t p then [AccRequest p b] else [])"
| "accesses t (TryStartWrite p b c) = (if b < Tracker_blocks t p then [AccClaim p b c] else [])"
| "accesses t (ResetBlock p b) =
     (if b < Tracker_blocks t p then [AccFreeState p b, AccFreeWinner p b] else [])"
| "accesses t (ClearCuid p c) = map (\<lambda>i. AccClear p i c) [0..<Tracker_blocks t p]"

definition put_winner :: "tracker \<Rightarrow> nat \<Rightarrow> nat \<Rightarrow> int \<Rightarrow> tracker" where
  "put_winner t p b w = t(p := map_option (\<lambda>d. d\<lparr>pd_winners := (pd_winners d)[b := w]\<rparr>) (t p))"

definition put_state :: "tracker \<Rightarrow> nat \<Rightarrow> nat \<Rightarrow> block_state \<Rightarrow> tracker" where
  "put_state t p b s = t(p := map_option (\<lambda>d. d\<lparr>pd_states := (pd_states d)[b := s]\<rparr>) (t p))"

definition Tracker_state :: "tracker \<Rightarrow> nat \<Rightarrow> nat \<Rightarrow> block_state" where
  "Tracker_state t p b = (case t p of None \<Rightarrow> FREE | Some d \<Rightarrow> pd_states d ! b)"

fun exec_access :: "access \<Rightarrow> tracker \<Rightarrow> tracker" where
  "exec_access (AccAdd p n) t = Tracker_add_piece t p n"
| "exec_access (AccRequest p b) t = (if Tracker_state t p b = FREE then put_state t p b REQUESTED else t)"
| "exec_access (AccClaim p b c) t = (if Tracker_owner t p b = 0 then put_winner t p b c else t)"
| "exec_access (AccClear p b c) t = (if Tracker_owner t p b = c then put_winner t p b 0 else t)"
| "exec_access (AccFreeState p b) t = put_state t p b FREE"
| "exec_access (AccFreeWinner p b) t = put_winner t p b 0"

text \<open>The operations as functions, for the comparison.\<close>

fun run_op :: "tracker_op \<Rightarrow> tracker \<Rightarrow> tracker" where
  "run_op (AddPiece p n) t = Tracker_add_piece t p n"
| "run_op (TryRequest p b) t = fst (Tracker_try_request t p b)"
| "run_op (TryStartWrite p b c) t = fst (Tracker_try_start_write t p b c)"
| "run_op (ResetBlock p b) t = Tracker_reset_block t p b"
| "run_op (ClearCuid p c) t = Tracker_clear_cuid t p c"

lemma put_winner_Some: "t p = Some d \<Longrightarrow> put_winner t p b w = t(p \<mapsto> d\<lparr>pd_winners := (pd_winners d)[b := w]\<rparr>)"
  by (simp add: put_winner_def)

lemma clear_loop:
  assumes "t p = Some d" "k \<le> length (pd_winners d)"
  shows "fold exec_access (map (\<lambda>i. AccClear p i c) [0..<k]) t = t(p \<mapsto> d\<lparr>pd_winners :=
     map (\<lambda>w. if w = c then 0 else w) (take k (pd_winners d)) @ drop k (pd_winners d)\<rparr>)"
  using assms(2)
proof (induction k)
  case 0
  with assms(1) show ?case by (simp add: fun_upd_idem)
next
  case (Suc k)
  let ?f = "\<lambda>w. if w = c then 0 else w" and ?w = "pd_winners d"
  let ?t = "\<lambda>k. t(p \<mapsto> d\<lparr>pd_winners := map ?f (take k ?w) @ drop k ?w\<rparr>)"
  have k: "k < length ?w" using Suc.prems by simp
  have ow: "Tracker_owner (?t k) p k = ?w ! k" using k by (simp add: Tracker_owner_def nth_append)
  have s: "map ?f (take (Suc k) ?w) @ drop (Suc k) ?w = (map ?f (take k ?w) @ drop k ?w)[k := ?f (?w ! k)]"
    using k by (simp add: take_Suc_conv_app_nth list_update_append Cons_nth_drop_Suc [symmetric])
  have ih: "fold exec_access (map (\<lambda>i. AccClear p i c) [0..<k]) t = ?t k"
    by (rule Suc.IH) (use k in simp)
  have "fold exec_access (map (\<lambda>i. AccClear p i c) [0..<Suc k]) t
    = exec_access (AccClear p k c) (fold exec_access (map (\<lambda>i. AccClear p i c) [0..<k]) t)" by simp
  also have "\<dots> = exec_access (AccClear p k c) (?t k)" by (simp only: ih)
  also have "\<dots> = ?t (Suc k)"
  proof (cases "?w ! k = c")
    case True
    then show ?thesis using ow s put_winner_Some [of "?t k" p _ k 0] by simp
  next
    case False
    then have "(map ?f (take k ?w) @ drop k ?w)[k := ?f (?w ! k)] = map ?f (take k ?w) @ drop k ?w"
      using k by (intro list_update_same_conv [THEN iffD2]) (simp_all add: nth_append)
    then show ?thesis using False ow s by simp
  qed
  finally show ?case .
qed

text \<open>An operation that is not interrupted does what its sequential definition says.\<close>

lemma uninterrupted_op:
  assumes "tracker_wf t"
  shows "fold exec_access (accesses t op) t = run_op op t"
proof (cases op)
  case (ClearCuid p c)
  show ?thesis
  proof (cases "t p")
    case (Some d)
    then have "length (pd_winners d) = Tracker_blocks t p" using assms by (simp add: tracker_wf_def Tracker_blocks_def)
    then show ?thesis using clear_loop [of t p d "length (pd_winners d)" c] Some ClearCuid
      by (simp add: Tracker_clear_cuid_def)
  qed (simp add: ClearCuid Tracker_clear_cuid_def Tracker_blocks_def)
qed (use assms in \<open>auto simp: tracker_ops Tracker_blocks_def Tracker_state_def Tracker_owner_def tracker_wf_def
      put_state_def put_winner_def Let_def split: option.splits\<close>)

text \<open>
  The outcome of an access to a block's owner: a claim lets the connection write (\<open>Committed\<close>) or
  makes it discard its data (\<open>Rejected\<close>); the other two accesses free the block.
\<close>

datatype tracker_event = Committed nat nat int | Rejected nat nat int | Freed nat nat

fun event_of :: "access \<Rightarrow> tracker \<Rightarrow> tracker_event list" where
  "event_of (AccClaim p b c) t =
     (if Tracker_owner t p b = 0 \<or> Tracker_owner t p b = c then [Committed p b c] else [Rejected p b c])"
| "event_of (AccClear p b c) t = (if Tracker_owner t p b = c then [Freed p b] else [])"
| "event_of (AccFreeWinner p b) t = [Freed p b]"
| "event_of _ t = []"

record tracker_config =
  cfg_mem :: tracker
  cfg_pending :: "nat \<Rightarrow> access list"
  cfg_log :: "tracker_event list"

definition cfg_init :: tracker_config where
  "cfg_init = \<lparr>cfg_mem = Map.empty, cfg_pending = (\<lambda>_. []), cfg_log = []\<rparr>"

text \<open>A thread with nothing left to do starts any operation; a connection id is never 0.\<close>

fun op_ok :: "tracker_op \<Rightarrow> bool" where
  "op_ok (TryStartWrite p b c) = (c \<noteq> 0)"
| "op_ok _ = True"

inductive tracker_step :: "tracker_config \<Rightarrow> tracker_config \<Rightarrow> bool" where
  start: "cfg_pending s th = [] \<Longrightarrow> op_ok op \<Longrightarrow>
    tracker_step s (s\<lparr>cfg_pending := (cfg_pending s)(th := accesses (cfg_mem s) op)\<rparr>)"
| exec: "cfg_pending s th = a # as \<Longrightarrow>
    tracker_step s \<lparr>cfg_mem = exec_access a (cfg_mem s), cfg_pending = (cfg_pending s)(th := as),
      cfg_log = cfg_log s @ event_of a (cfg_mem s)\<rparr>"

inductive_cases tracker_stepE: "tracker_step s s'"

abbreviation tracker_runs :: "tracker_config \<Rightarrow> tracker_config \<Rightarrow> bool" where
  "tracker_runs \<equiv> tracker_step\<^sup>*\<^sup>*"

subsection \<open>What the log says about the owner\<close>

fun log_owner :: "nat \<Rightarrow> nat \<Rightarrow> tracker_event list \<Rightarrow> int \<Rightarrow> int" where
  "log_owner p b [] w = w"
| "log_owner p b (Committed p' b' c # es) w = log_owner p b es (if p' = p \<and> b' = b then c else w)"
| "log_owner p b (Freed p' b' # es) w = log_owner p b es (if p' = p \<and> b' = b then 0 else w)"
| "log_owner p b (Rejected p' b' c # es) w = log_owner p b es w"

text \<open>Every outcome in the log is what the owner at that time makes it.\<close>

fun event_ok :: "tracker_event list \<Rightarrow> tracker_event \<Rightarrow> bool" where
  "event_ok past (Committed p b c) \<longleftrightarrow> c \<noteq> 0 \<and> log_owner p b past 0 \<in> {0, c}"
| "event_ok past (Rejected p b c) \<longleftrightarrow> log_owner p b past 0 \<notin> {0, c}"
| "event_ok past (Freed p b) \<longleftrightarrow> True"

definition log_consistent :: "tracker_event list \<Rightarrow> bool" where
  "log_consistent es \<longleftrightarrow> (\<forall>past e rest. es = past @ e # rest \<longrightarrow> event_ok past e)"

lemma log_owner_append: "log_owner p b (xs @ ys) w = log_owner p b ys (log_owner p b xs w)"
  by (induction p b xs w rule: log_owner.induct) auto

lemma log_consistent_snoc: "log_consistent (es @ [e]) \<longleftrightarrow> log_consistent es \<and> event_ok es e"
proof -
  have "es @ [e] = past @ x # rest \<longleftrightarrow>
    rest = [] \<and> past = es \<and> x = e \<or> (\<exists>r. rest = r @ [e] \<and> es = past @ x # r)" for past x rest
    by (cases rest rule: rev_cases) (auto simp flip: append_Cons append_assoc)
  then show ?thesis by (auto simp: log_consistent_def)
qed

lemma owner_until_freed:
  assumes "log_consistent (xs @ Committed p b c # ys)" "Freed p b \<notin> set ys"
  shows "log_owner p b (xs @ Committed p b c # ys) 0 = c"
  using assms
proof (induction ys rule: rev_induct)
  case Nil
  then show ?case by (simp add: log_owner_append)
next
  case (snoc e ys)
  let ?l = "xs @ Committed p b c # ys"
  have l: "xs @ Committed p b c # (ys @ [e]) = ?l @ [e]" by simp
  have ok: "log_consistent ?l" "event_ok ?l e" using snoc.prems(1) unfolding l log_consistent_snoc by auto
  have o: "log_owner p b ?l 0 = c" using snoc ok(1) by simp
  have "event_ok xs (Committed p b c)" using ok(1) unfolding log_consistent_def by blast
  then have "c \<noteq> 0" by simp
  with o ok(2) snoc.prems(2) show ?case unfolding l log_owner_append [of _ _ ?l]
    by (cases e) (auto split: if_splits)
qed

subsection \<open>The invariant of the interleavings\<close>

fun access_ok :: "tracker \<Rightarrow> access \<Rightarrow> bool" where
  "access_ok t (AccClaim p b c) = (b < Tracker_blocks t p \<and> c \<noteq> 0)"
| "access_ok t (AccClear p b c) = (b < Tracker_blocks t p)"
| "access_ok t (AccFreeWinner p b) = (b < Tracker_blocks t p)"
| "access_ok t _ = True"

definition tracker_inv :: "tracker_config \<Rightarrow> bool" where
  "tracker_inv s \<longleftrightarrow> tracker_wf (cfg_mem s)
     \<and> (\<forall>th. list_all (access_ok (cfg_mem s)) (cfg_pending s th))
     \<and> (\<forall>p b. Tracker_owner (cfg_mem s) p b = log_owner p b (cfg_log s) 0)
     \<and> log_consistent (cfg_log s)"

lemma put_simps [simp]:
  "tracker_wf t \<Longrightarrow> tracker_wf (put_winner t p b w)" "tracker_wf t \<Longrightarrow> tracker_wf (put_state t p b s)"
  "Tracker_blocks (put_winner t p b w) q = Tracker_blocks t q" "Tracker_blocks (put_state t p b s) q = Tracker_blocks t q"
  "Tracker_owner (put_state t p b s) q a = Tracker_owner t q a"
  "tracker_wf t \<Longrightarrow> Tracker_owner (put_winner t p b w) q a
     = (if q = p \<and> a = b \<and> b < Tracker_blocks t p then w else Tracker_owner t q a)"
  by (auto simp: put_winner_def put_state_def tracker_wf_def Tracker_blocks_def Tracker_owner_def split: option.splits)

lemma blocks_Some: "b < Tracker_blocks t q \<Longrightarrow> t q \<noteq> None"
  by (cases "t q") (auto simp: Tracker_blocks_def)

lemma exec_access_frame:
  assumes "tracker_wf t"
  shows "tracker_wf (exec_access a t)" and "b < Tracker_blocks t q \<Longrightarrow> b < Tracker_blocks (exec_access a t) q"
proof -
  show "tracker_wf (exec_access a t)" using assms by (cases a) simp_all
  show "b < Tracker_blocks (exec_access a t) q" if "b < Tracker_blocks t q"
    using blocks_Some [OF that] that by (cases a) auto
qed

lemma access_ok_exec: "tracker_wf t \<Longrightarrow> access_ok t a \<Longrightarrow> access_ok (exec_access a' t) a"
  by (cases a) (simp_all add: exec_access_frame)

lemma exec_access_log:
  assumes "tracker_wf t" "access_ok t a" "\<And>p b. Tracker_owner t p b = log_owner p b l 0" "log_consistent l"
  shows "Tracker_owner (exec_access a t) p b = log_owner p b (l @ event_of a t) 0"
    and "log_consistent (l @ event_of a t)"
proof -
  note own = assms(3) [symmetric]
  show "Tracker_owner (exec_access a t) p b = log_owner p b (l @ event_of a t) 0"
    using assms(1,2) by (cases a) (simp_all add: log_owner_append own)
  show "log_consistent (l @ event_of a t)"
    using assms(2,4) by (cases a) (simp_all add: log_consistent_snoc own)
qed

lemma accesses_ok: "op_ok op \<Longrightarrow> list_all (access_ok t) (accesses t op)"
  by (cases op) (auto simp: list_all_iff)

lemma tracker_inv_step: "tracker_step s s' \<Longrightarrow> tracker_inv s \<Longrightarrow> tracker_inv s'"
proof (induction rule: tracker_step.induct)
  case (start s th op)
  then show ?case using accesses_ok [of op "cfg_mem s"] by (auto simp: tracker_inv_def)
next
  case (exec s th a as)
  then have "access_ok (cfg_mem s) a" "list_all (access_ok (cfg_mem s)) as"
    unfolding tracker_inv_def by (metis list.pred_inject(2))+
  with exec show ?case
    by (auto simp: tracker_inv_def exec_access_frame exec_access_log access_ok_exec list_all_iff)
qed

lemma tracker_inv_reach: "tracker_runs cfg_init s \<Longrightarrow> tracker_inv s"
  by (induction rule: rtranclp_induct)
    (auto simp: tracker_inv_step, simp add: tracker_inv_def cfg_init_def Tracker_owner_def log_consistent_def)

subsection \<open>Properties\<close>

text \<open>C1: First write wins. However the connections' operations interleave, between two writes to
  the same block that the tracker lets through for different connections the block is freed
  (by its owner giving it up or by a reset).\<close>
theorem writes_are_exclusive:
  assumes "tracker_runs cfg_init s"
    and "cfg_log s = xs @ Committed p b c # ys @ Committed p b c' # zs" and "c \<noteq> c'"
  shows "Freed p b \<in> set ys"
proof (rule ccontr)
  assume nf: "Freed p b \<notin> set ys"
  have l: "cfg_log s = (xs @ Committed p b c # ys) @ Committed p b c' # zs" using assms(2) by simp
  have con: "log_consistent (cfg_log s)" using tracker_inv_reach [OF assms(1)] by (simp add: tracker_inv_def)
  have ok: "event_ok (xs @ Committed p b c # ys) (Committed p b c')"
    and pre: "log_consistent (xs @ Committed p b c # ys)"
    using con unfolding log_consistent_def l by (blast, metis append.assoc append_Cons)
  have "event_ok xs (Committed p b c)" using pre unfolding log_consistent_def by blast
  with ok owner_until_freed [OF pre nf] assms(3) show False by simp
qed

theorem writes_are_exclusive_witness:
  "\<exists>s. tracker_runs cfg_init s
    \<and> cfg_log s = [] @ Committed 0 0 1 # [Rejected 0 0 2, Freed 0 0] @ Committed 0 0 2 # []
    \<and> Freed 0 0 \<in> set [Rejected 0 0 (2 :: int), Freed 0 0]"
proof -
  define d where "d w = PieceData_new 1\<lparr>pd_winners := [w]\<rparr>" for w :: int
  define m :: "int \<Rightarrow> tracker" where "m w = [0 \<mapsto> d w]" for w
  let ?s = "\<lambda>t as l. \<lparr>cfg_mem = t, cfg_pending = (\<lambda>_. [])(0 := as), cfg_log = l\<rparr>"
  have d0: "PieceData_new 1 = d 0" by (simp add: PieceData_new_def d_def)
  have m0: "[0 \<mapsto> PieceData_new (Suc 0)] = m 0" by (simp add: m_def flip: d0)
  have bl: "Tracker_blocks (m w) 0 = 1" "Tracker_owner (m w) 0 0 = w" "put_winner (m w) 0 0 v = m v" for v w
    by (auto simp: Tracker_blocks_def Tracker_owner_def put_winner_def m_def d_def PieceData_new_def)
  have ex: "tracker_step (?s t [a] l) (?s (exec_access a t) [] (l @ event_of a t))" for t a l
    using tracker_step.exec [of "?s t [a] l" 0 a "[]"] by (simp add: fun_upd_idem_iff)
  have st: "tracker_step (?s t [] l) (?s t (accesses t op) l)" if "op_ok op" for t l op
    using tracker_step.start [of "?s t [] l" 0 op] that by (simp add: fun_upd_idem_iff)
  have op: "tracker_runs (?s t [] l) (?s (exec_access a t) [] (l @ event_of a t))"
    if "op_ok op" "accesses t op = [a]" for t l op a
    using st [OF that(1), of t l] ex [of t a l] unfolding that(2) by (meson converse_rtranclp_into_rtranclp r_into_rtranclp)
  note o1 = op [of "AddPiece 0 1" Map.empty "AccAdd 0 1" "[]"]
    and o2 = op [of "TryStartWrite 0 0 1" "m 0" "AccClaim 0 0 1" "[]"]
    and o3 = op [of "TryStartWrite 0 0 2" "m 1" "AccClaim 0 0 2" "[Committed 0 0 1]"]
    and o4 = op [of "ClearCuid 0 1" "m 1" "AccClear 0 0 1" "[Committed 0 0 1, Rejected 0 0 2]"]
    and o5 = op [of "TryStartWrite 0 0 2" "m 0" "AccClaim 0 0 2" "[Committed 0 0 1, Rejected 0 0 2, Freed 0 0]"]
  have i: "cfg_init = ?s Map.empty [] []" by (simp add: cfg_init_def fun_eq_iff)
  have r: "tracker_runs cfg_init (?s (m 2) [] [Committed 0 0 1, Rejected 0 0 2, Freed 0 0, Committed 0 0 2])"
    using o1 o2 o3 o4 o5 unfolding i by (simp add: bl Tracker_add_piece_def m0)
  have "Freed 0 0 \<in> set [Rejected 0 0 (2 :: int), Freed 0 0]"
    by (rule writes_are_exclusive [OF r, of "[]" 0 0 1 _ 2 "[]"]) simp_all
  with r show ?thesis by (intro exI conjI) (assumption, simp_all)
qed

text \<open>When several connections race for a free block one after the other, the first claim
  succeeds, every later claim succeeds exactly if it comes from the same connection, and the
  block belongs to the first at the end.\<close>
theorem first_claim_wins_race:
  assumes "tracker_wf t" "Tracker_owner t p b = 0" "b < Tracker_blocks t p" "c \<noteq> 0"
  shows "snd (claims Tracker_try_start_write t p b (c # cs)) = True # map (\<lambda>c'. c' = c) cs
    \<and> Tracker_owner (fst (claims Tracker_try_start_write t p b (c # cs))) p b = c"
  using assms by (intro conjI trk.first_claim_wins)

theorem first_claim_wins_race_witness:
  "snd (claims Tracker_try_start_write (Tracker_add_piece Map.empty 7 2) 7 1 [5, 9, 5]) = [True, False, True]"
  using first_claim_wins_race [of "Tracker_add_piece Map.empty 7 2" 7 1 5 "[9, 5]"]
  by (simp add: Tracker_add_piece_def Tracker_blocks_def Tracker_owner_def PieceData_new_def tracker_wf_def)

text \<open>\<open>clear_cuid\<close> takes a piece away from exactly the given connection: afterwards it owns no
  block of the piece, every block of another connection and every other piece keep their owner.
  The loop of compare-and-exchange operations that the code runs has this effect.\<close>
theorem clear_cuid_exact:
  assumes "tracker_wf t"
  shows "Tracker_owner (fold exec_access (accesses t (ClearCuid p c)) t) q b
    = (if q = p \<and> Tracker_owner t q b = c then 0 else Tracker_owner t q b)"
  by (simp only: uninterrupted_op [OF assms] run_op.simps Tracker_owner_ops(5) [OF assms])

theorem clear_cuid_exact_witness:
  "Tracker_owner (fold exec_access (accesses (Tracker_add_piece Map.empty 3 2) (ClearCuid 3 4))
     (Tracker_add_piece Map.empty 3 2)) 3 1 = 0"
  using clear_cuid_exact [of "Tracker_add_piece Map.empty 3 2" 3 4 3 1]
  by (simp add: Tracker_add_piece_def Tracker_owner_def PieceData_new_def tracker_wf_def)

end
