(* ===== verification/Disk_Cache.thy ===== *)
theory Disk_Cache
  imports Prelude
begin

text \<open>
  The write cache: \<open>WrDiskCacheEntry\<close> holds the data of one piece that is not on disk yet,
  \<open>WrDiskCache\<close> bounds the total. Entries are numbered; the cache's \<open>std::set\<close> of entry pointers
  is the list of their numbers in the order of the set.

  The buffers of the cells are allocated by the callers and freed by the entry, so they live in
  an explicit memory: an address maps to the buffer's bytes, or to nothing once it is freed. An
  operation that would read or free a dead buffer, run past a buffer's end, or fail an
  assertion returns \<open>None\<close>. \<open>io\<close> tells for a list of cells whether the disk adaptor writes them
  without an error; a write is recorded in \<open>wc_disk\<close>.
\<close>

subsection \<open>Entries\<close>

record cell =
  cell_goff :: int
  cell_data :: nat
  cell_offset :: nat
  cell_len :: nat
  cell_capacity :: nat

type_synonym memory = "nat \<rightharpoonup> byte list"

record wr_entry =
  we_sizeKey :: nat
  we_lastUpdate :: int
  we_size :: nat
  we_set :: "cell list"
  we_error :: bool

definition WrDiskCacheEntry_new :: wr_entry where
  "WrDiskCacheEntry_new = \<lparr>we_sizeKey = 0, we_lastUpdate = 0, we_size = 0, we_set = [], we_error = False\<rparr>"

definition WrDiskCacheEntry_less :: "wr_entry \<Rightarrow> wr_entry \<Rightarrow> bool" where
  "WrDiskCacheEntry_less a b \<longleftrightarrow>
     we_sizeKey a > we_sizeKey b \<or> (we_sizeKey a = we_sizeKey b \<and> we_lastUpdate a < we_lastUpdate b)"

fun free_cells :: "cell list \<Rightarrow> memory \<Rightarrow> memory option" where
  "free_cells [] mem = Some mem"
| "free_cells (x # xs) mem =
     (case mem (cell_data x) of None \<Rightarrow> None | Some _ \<Rightarrow> free_cells xs (mem(cell_data x := None)))"

definition WrDiskCacheEntry_deleteDataCells :: "wr_entry \<Rightarrow> memory \<Rightarrow> (wr_entry \<times> memory) option" where
  "WrDiskCacheEntry_deleteDataCells e mem =
     (case free_cells (we_set e) mem of
        None \<Rightarrow> None
      | Some mem' \<Rightarrow> Some (e\<lparr>we_set := [], we_size := 0\<rparr>, mem'))"

text \<open>What \<open>DiskAdaptor::writeCache\<close> writes: every cell's bytes at its offset in the file.\<close>

definition cell_bytes :: "memory \<Rightarrow> cell \<Rightarrow> byte list option" where
  "cell_bytes mem x =
     (case mem (cell_data x) of
        None \<Rightarrow> None
      | Some buf \<Rightarrow> if cell_offset x + cell_len x \<le> length buf
                    then Some (take (cell_len x) (drop (cell_offset x) buf)) else None)"

fun read_cells :: "memory \<Rightarrow> cell list \<Rightarrow> (int \<times> byte list) list option" where
  "read_cells mem [] = Some []"
| "read_cells mem (x # xs) =
     (case cell_bytes mem x of
        None \<Rightarrow> None
      | Some bs \<Rightarrow> (case read_cells mem xs of None \<Rightarrow> None | Some ws \<Rightarrow> Some ((cell_goff x, bs) # ws)))"

definition WrDiskCacheEntry_writeToDisk :: "(cell list \<Rightarrow> bool) \<Rightarrow> wr_entry \<Rightarrow> memory \<Rightarrow>
    (wr_entry \<times> memory \<times> (int \<times> byte list) list) option" where
  "WrDiskCacheEntry_writeToDisk io e mem =
     (case read_cells mem (we_set e) of
        None \<Rightarrow> None
      | Some ws \<Rightarrow>
          let e' = (if io (we_set e) then e else e\<lparr>we_error := True\<rparr>) in
          (case WrDiskCacheEntry_deleteDataCells e' mem of
             None \<Rightarrow> None
           | Some (e'', mem') \<Rightarrow> Some (e'', mem', if io (we_set e) then ws else [])))"

text \<open>\<open>set_.insert\<close>: the cells are ordered by \<open>goff\<close>, and one with the same \<open>goff\<close> is refused.\<close>

fun insert_cell :: "cell \<Rightarrow> cell list \<Rightarrow> cell list" where
  "insert_cell x [] = [x]"
| "insert_cell x (y # ys) = (if cell_goff x < cell_goff y then x # y # ys else y # insert_cell x ys)"

definition WrDiskCacheEntry_cacheData :: "wr_entry \<Rightarrow> cell \<Rightarrow> wr_entry \<times> bool" where
  "WrDiskCacheEntry_cacheData e x =
     (if \<exists>y\<in>set (we_set e). cell_goff y = cell_goff x then (e, False)
      else (e\<lparr>we_set := insert_cell x (we_set e), we_size := we_size e + cell_len x\<rparr>, True))"

definition WrDiskCacheEntry_append :: "wr_entry \<Rightarrow> memory \<Rightarrow> int \<Rightarrow> byte list \<Rightarrow>
    (wr_entry \<times> memory \<times> nat) option" where
  "WrDiskCacheEntry_append e mem goff data =
     (if we_set e = [] then Some (e, mem, 0)
      else let x = last (we_set e) in
        if cell_goff x + int (cell_len x) = goff then
          (case mem (cell_data x) of
             None \<Rightarrow> None
           | Some buf \<Rightarrow>
               let wlen = min (cell_capacity x - cell_len x) (length data);
                   pos = cell_offset x + cell_len x in
               if length buf < pos + wlen then None
               else Some (e\<lparr>we_set := butlast (we_set e) @ [x\<lparr>cell_len := cell_len x + wlen\<rparr>],
                            we_size := we_size e + wlen\<rparr>,
                          mem(cell_data x \<mapsto> take pos buf @ take wlen data @ drop (pos + wlen) buf),
                          wlen))
        else Some (e, mem, 0))"

subsection \<open>The cache\<close>

record wr_cache =
  wc_limit :: nat
  wc_total :: nat
  wc_clock :: int
  wc_set :: "nat list"
  wc_ent :: "nat \<Rightarrow> wr_entry"
  wc_mem :: memory
  wc_disk :: "(int \<times> byte list) list"

definition WrDiskCache_new :: "nat \<Rightarrow> memory \<Rightarrow> wr_cache" where
  "WrDiskCache_new limit mem = \<lparr>wc_limit = limit, wc_total = 0, wc_clock = 0, wc_set = [],
     wc_ent = (\<lambda>_. WrDiskCacheEntry_new), wc_mem = mem, wc_disk = []\<rparr>"

text \<open>The \<open>std::set\<close>: two entries are the same to it if neither is less than the other.\<close>

definition set_equiv :: "wr_cache \<Rightarrow> nat \<Rightarrow> nat \<Rightarrow> bool" where
  "set_equiv c i j \<longleftrightarrow> \<not> WrDiskCacheEntry_less (wc_ent c i) (wc_ent c j)
     \<and> \<not> WrDiskCacheEntry_less (wc_ent c j) (wc_ent c i)"

fun set_insert :: "(nat \<Rightarrow> wr_entry) \<Rightarrow> nat \<Rightarrow> nat list \<Rightarrow> nat list" where
  "set_insert ent i [] = [i]"
| "set_insert ent i (j # js) =
     (if WrDiskCacheEntry_less (ent i) (ent j) then i # j # js else j # set_insert ent i js)"

definition WrDiskCache_insert :: "wr_cache \<Rightarrow> nat \<Rightarrow> wr_cache \<times> bool" where
  "WrDiskCache_insert c i =
     (if \<exists>j\<in>set (wc_set c). set_equiv c i j then (c, False)
      else (c\<lparr>wc_set := set_insert (wc_ent c) i (wc_set c)\<rparr>, True))"

definition WrDiskCache_erase :: "wr_cache \<Rightarrow> nat \<Rightarrow> wr_cache \<times> bool" where
  "WrDiskCache_erase c i =
     (c\<lparr>wc_set := filter (\<lambda>j. \<not> set_equiv c i j) (wc_set c)\<rparr>,
      \<exists>j\<in>set (wc_set c). set_equiv c i j)"

text \<open>\<open>setSizeKey(getSize())\<close> and \<open>setLastUpdate(++clock_)\<close>.\<close>

definition WrDiskCache_touch :: "wr_cache \<Rightarrow> nat \<Rightarrow> wr_cache" where
  "WrDiskCache_touch c i = c\<lparr>wc_clock := wc_clock c + 1,
     wc_ent := (wc_ent c)(i := (wc_ent c i)\<lparr>we_sizeKey := we_size (wc_ent c i),
                                          we_lastUpdate := wc_clock c + 1\<rparr>)\<rparr>"

definition WrDiskCache_writeToDisk :: "(cell list \<Rightarrow> bool) \<Rightarrow> wr_cache \<Rightarrow> nat \<Rightarrow> wr_cache option" where
  "WrDiskCache_writeToDisk io c i =
     (case WrDiskCacheEntry_writeToDisk io (wc_ent c i) (wc_mem c) of
        None \<Rightarrow> None
      | Some (e, mem, ws) \<Rightarrow>
          Some (c\<lparr>wc_ent := (wc_ent c)(i := e), wc_mem := mem, wc_disk := wc_disk c @ ws\<rparr>))"

text \<open>
  The loop flushes the first entry of the set, the one with the largest key, until the total is
  within the limit. With an empty set \<open>begin()\<close> must not be dereferenced. The subtraction is on
  \<open>size_t\<close>.
\<close>

partial_function (option) WrDiskCache_ensureLimit :: "(cell list \<Rightarrow> bool) \<Rightarrow> wr_cache \<Rightarrow> wr_cache option" where
  "WrDiskCache_ensureLimit io c =
     (if wc_total c \<le> wc_limit c then Some c
      else case wc_set c of
        [] \<Rightarrow> None
      | i # rest \<Rightarrow>
          (case WrDiskCache_writeToDisk io
              (c\<lparr>wc_total := to_size (int (wc_total c) - int (we_size (wc_ent c i)))\<rparr>) i of
             None \<Rightarrow> None
           | Some c1 \<Rightarrow>
               WrDiskCache_ensureLimit io
                 (fst (WrDiskCache_insert (WrDiskCache_touch (c1\<lparr>wc_set := rest\<rparr>) i) i))))"

definition WrDiskCache_add :: "(cell list \<Rightarrow> bool) \<Rightarrow> wr_cache \<Rightarrow> nat \<Rightarrow> (wr_cache \<times> bool) option" where
  "WrDiskCache_add io c i =
     (let c1 = WrDiskCache_touch c i; (c2, inserted) = WrDiskCache_insert c1 i in
      if inserted then
        (case WrDiskCache_ensureLimit io (c2\<lparr>wc_total := wc_total c2 + we_size (wc_ent c2 i)\<rparr>) of
           None \<Rightarrow> None
         | Some c3 \<Rightarrow> Some (c3, True))
      else Some (c2, False))"

definition WrDiskCache_remove :: "wr_cache \<Rightarrow> nat \<Rightarrow> wr_cache \<times> bool" where
  "WrDiskCache_remove c i =
     (let (c1, erased) = WrDiskCache_erase c i in
      if erased then (c1\<lparr>wc_total := to_size (int (wc_total c1) - int (we_size (wc_ent c1 i)))\<rparr>, True)
      else (c, False))"

definition WrDiskCache_update :: "(cell list \<Rightarrow> bool) \<Rightarrow> wr_cache \<Rightarrow> nat \<Rightarrow> int \<Rightarrow> (wr_cache \<times> bool) option" where
  "WrDiskCache_update io c i delta =
     (let (c1, erased) = WrDiskCache_erase c i in
      if \<not> erased then Some (c, False)
      else let c2 = fst (WrDiskCache_insert (WrDiskCache_touch c1 i) i) in
        if delta < 0 \<and> int (wc_total c2) < - delta then None
        else (case WrDiskCache_ensureLimit io (c2\<lparr>wc_total := to_size (int (wc_total c2) + delta)\<rparr>) of
                None \<Rightarrow> None
              | Some c3 \<Rightarrow> Some (c3, True)))"

subsection \<open>The operations pieces perform on the cache\<close>

text \<open>\<open>Piece::initWrCache\<close> makes entry \<open>i\<close> the piece's new, empty entry and adds it.\<close>

definition Piece_initWrCache :: "(cell list \<Rightarrow> bool) \<Rightarrow> wr_cache \<Rightarrow> nat \<Rightarrow> wr_cache option" where
  "Piece_initWrCache io c i =
     (case WrDiskCache_add io (c\<lparr>wc_ent := (wc_ent c)(i := WrDiskCacheEntry_new)\<rparr>) i of
        Some (c', True) \<Rightarrow> Some c'
      | _ \<Rightarrow> None)"

definition Piece_flushWrCache :: "(cell list \<Rightarrow> bool) \<Rightarrow> wr_cache \<Rightarrow> nat \<Rightarrow> wr_cache option" where
  "Piece_flushWrCache io c i =
     (case WrDiskCache_update io c i (- int (we_size (wc_ent c i))) of
        None \<Rightarrow> None
      | Some (c', _) \<Rightarrow> WrDiskCache_writeToDisk io c' i)"

definition Piece_clearWrCache :: "(cell list \<Rightarrow> bool) \<Rightarrow> wr_cache \<Rightarrow> nat \<Rightarrow> wr_cache option" where
  "Piece_clearWrCache io c i =
     (case WrDiskCache_update io c i (- int (we_size (wc_ent c i))) of
        None \<Rightarrow> None
      | Some (c', _) \<Rightarrow>
          (case WrDiskCacheEntry_deleteDataCells (wc_ent c' i) (wc_mem c') of
             None \<Rightarrow> None
           | Some (e, mem) \<Rightarrow> Some (c'\<lparr>wc_ent := (wc_ent c')(i := e), wc_mem := mem\<rparr>)))"

definition Piece_updateWrCache :: "(cell list \<Rightarrow> bool) \<Rightarrow> wr_cache \<Rightarrow> nat \<Rightarrow> cell \<Rightarrow> wr_cache option" where
  "Piece_updateWrCache io c i x =
     (let (e, cached) = WrDiskCacheEntry_cacheData (wc_ent c i) x in
      if \<not> cached then None
      else case WrDiskCache_update io (c\<lparr>wc_ent := (wc_ent c)(i := e)\<rparr>) i (int (cell_len x)) of
        Some (c', True) \<Rightarrow> Some c'
      | _ \<Rightarrow> None)"

definition Piece_appendWrCache :: "(cell list \<Rightarrow> bool) \<Rightarrow> wr_cache \<Rightarrow> nat \<Rightarrow> int \<Rightarrow> byte list \<Rightarrow>
    (wr_cache \<times> nat) option" where
  "Piece_appendWrCache io c i goff data =
     (case WrDiskCacheEntry_append (wc_ent c i) (wc_mem c) goff data of
        None \<Rightarrow> None
      | Some (e, mem, delta) \<Rightarrow>
          let c1 = c\<lparr>wc_ent := (wc_ent c)(i := e), wc_mem := mem\<rparr> in
          if delta > 0 then
            (case WrDiskCache_update io c1 i (int delta) of
               Some (c', True) \<Rightarrow> Some (c', delta)
             | _ \<Rightarrow> None)
          else Some (c1, delta))"

text \<open>\<open>Piece::releaseWrCache\<close> removes the entry and destroys it, which frees its cells.\<close>

definition Piece_releaseWrCache :: "wr_cache \<Rightarrow> nat \<Rightarrow> wr_cache option" where
  "Piece_releaseWrCache c i =
     (let c1 = fst (WrDiskCache_remove c i) in
      case WrDiskCacheEntry_deleteDataCells (wc_ent c1 i) (wc_mem c1) of
        None \<Rightarrow> None
      | Some (e, mem) \<Rightarrow> Some (c1\<lparr>wc_ent := (wc_ent c1)(i := e), wc_mem := mem\<rparr>))"

subsection \<open>Live cells\<close>

definition cell_live :: "memory \<Rightarrow> cell \<Rightarrow> bool" where
  "cell_live mem x \<longleftrightarrow> (case mem (cell_data x) of
     None \<Rightarrow> False | Some buf \<Rightarrow> cell_offset x + cell_capacity x \<le> length buf \<and> cell_len x \<le> cell_capacity x)"

definition entry_addrs :: "wr_entry \<Rightarrow> nat set" where
  "entry_addrs e = cell_data ` set (we_set e)"

definition entry_ok :: "memory \<Rightarrow> wr_entry \<Rightarrow> bool" where
  "entry_ok mem e \<longleftrightarrow> we_size e = sum_list (map cell_len (we_set e))
     \<and> distinct (map cell_data (we_set e)) \<and> (\<forall>x\<in>set (we_set e). cell_live mem x)"

lemma cell_live_bytes:
  assumes "cell_live mem x"
  obtains bs where "cell_bytes mem x = Some bs" "length bs = cell_len x"
  using assms by (auto simp: cell_live_def cell_bytes_def split: option.splits)

lemma read_cells_live:
  "\<forall>x\<in>set xs. cell_live mem x \<Longrightarrow> read_cells mem xs = Some (map (\<lambda>x. (cell_goff x, the (cell_bytes mem x))) xs)"
  by (induction xs) (auto elim: cell_live_bytes)

lemma free_cells_live:
  "\<forall>x\<in>set xs. cell_live mem x \<Longrightarrow> distinct (map cell_data xs) \<Longrightarrow>
   free_cells xs mem = Some (mem |` (- cell_data ` set xs))"
proof (induction xs arbitrary: mem)
  case (Cons x xs)
  let ?m = "mem(cell_data x := None)"
  have "\<forall>y\<in>set xs. cell_live ?m y" using Cons.prems by (auto simp: cell_live_def image_iff split: option.splits)
  then have "free_cells xs ?m = Some (?m |` (- cell_data ` set xs))"
    by (rule Cons.IH) (use Cons.prems in simp)
  moreover have "?m |` (- cell_data ` set xs) = mem |` (- cell_data ` set (x # xs))"
    by (auto simp: restrict_map_def)
  moreover have "mem (cell_data x) \<noteq> None" using Cons.prems by (auto simp: cell_live_def)
  ultimately show ?case by auto
qed (simp add: restrict_map_def)

lemma cell_live_restrict: "cell_data x \<notin> A \<Longrightarrow> cell_live (mem |` (- A)) x = cell_live mem x"
  "cell_data x \<notin> A \<Longrightarrow> cell_bytes (mem |` (- A)) x = cell_bytes mem x"
  by (simp_all add: cell_live_def cell_bytes_def)

lemma entry_ok_restrict:
  "entry_ok mem e \<Longrightarrow> entry_addrs e \<inter> A = {} \<Longrightarrow> entry_ok (mem |` (- A)) e"
  by (auto simp: entry_ok_def entry_addrs_def cell_live_restrict disjoint_iff)

definition entry_data :: "memory \<Rightarrow> wr_entry \<Rightarrow> (int \<times> byte list) list" where
  "entry_data mem e = map (\<lambda>x. (cell_goff x, the (cell_bytes mem x))) (we_set e)"

lemma entry_data_restrict: "entry_addrs e \<inter> A = {} \<Longrightarrow> entry_data (mem |` (- A)) e = entry_data mem e"
  by (auto simp: entry_data_def entry_addrs_def cell_live_restrict disjoint_iff)

lemma writeToDisk_ok:
  assumes "entry_ok mem e"
  shows "WrDiskCacheEntry_writeToDisk io e mem =
    Some (e\<lparr>we_set := [], we_size := 0, we_error := we_error e \<or> \<not> io (we_set e)\<rparr>,
          mem |` (- entry_addrs e), if io (we_set e) then entry_data mem e else [])"
  using assms by (cases e) (auto simp: WrDiskCacheEntry_writeToDisk_def WrDiskCacheEntry_deleteDataCells_def Let_def
      entry_ok_def read_cells_live free_cells_live entry_addrs_def entry_data_def)

lemma deleteDataCells_ok:
  "entry_ok mem e \<Longrightarrow> WrDiskCacheEntry_deleteDataCells e mem = Some (e\<lparr>we_set := [], we_size := 0\<rparr>, mem |` (- entry_addrs e))"
  by (simp add: WrDiskCacheEntry_deleteDataCells_def entry_ok_def free_cells_live entry_addrs_def)

subsection \<open>The set of entries\<close>

definition by_key :: "(nat \<Rightarrow> wr_entry) \<Rightarrow> nat list \<Rightarrow> bool" where
  "by_key ent is \<longleftrightarrow> sorted_wrt (\<lambda>i j. we_sizeKey (ent j) \<le> we_sizeKey (ent i)) is"

lemma set_insert_set [simp]: "set (set_insert ent i js) = insert i (set js)"
  by (induction js) auto

lemma set_insert_distinct [simp]: "distinct (set_insert ent i js) \<longleftrightarrow> i \<notin> set js \<and> distinct js"
  by (induction js) auto

lemma set_insert_by_key: "by_key ent js \<Longrightarrow> by_key ent (set_insert ent i js)"
  by (induction js) (fastforce simp: by_key_def WrDiskCacheEntry_less_def)+

lemma by_key_upd: "i \<notin> set js \<Longrightarrow> by_key (ent(i := e)) js = by_key ent js"
  by (induction js) (auto simp: by_key_def)

lemma by_key_filter: "by_key ent js \<Longrightarrow> by_key ent (filter P js)"
  by (simp add: by_key_def sorted_wrt_filter)

lemma set_equiv_iff: "set_equiv c i j \<longleftrightarrow> we_sizeKey (wc_ent c i) = we_sizeKey (wc_ent c j)
   \<and> we_lastUpdate (wc_ent c i) = we_lastUpdate (wc_ent c j)"
  by (auto simp: set_equiv_def WrDiskCacheEntry_less_def)

text \<open>The invariant, without and with the entry \<open>x\<close> that an operation is working on.\<close>

definition wc_core :: "wr_cache \<Rightarrow> bool" where
  "wc_core c \<longleftrightarrow> distinct (wc_set c) \<and> by_key (wc_ent c) (wc_set c)
     \<and> inj_on (\<lambda>i. we_lastUpdate (wc_ent c i)) (set (wc_set c))
     \<and> (\<forall>i\<in>set (wc_set c). we_lastUpdate (wc_ent c i) \<le> wc_clock c)"

definition wc_owned :: "wr_cache \<Rightarrow> nat set \<Rightarrow> bool" where
  "wc_owned c S \<longleftrightarrow> (\<forall>i\<in>S. entry_ok (wc_mem c) (wc_ent c i))
     \<and> (\<forall>i\<in>S. \<forall>j\<in>S. i \<noteq> j \<longrightarrow> entry_addrs (wc_ent c i) \<inter> entry_addrs (wc_ent c j) = {})"

definition wc_sizes :: "wr_cache \<Rightarrow> nat" where
  "wc_sizes c = (\<Sum>i\<in>set (wc_set c). we_size (wc_ent c i))"

definition wc_inv :: "wr_cache \<Rightarrow> bool" where
  "wc_inv c \<longleftrightarrow> wc_core c \<and> wc_owned c (set (wc_set c))
     \<and> (\<forall>i\<in>set (wc_set c). we_size (wc_ent c i) \<le> we_sizeKey (wc_ent c i))
     \<and> wc_total c = wc_sizes c \<and> wc_total c < 2 ^ 64"

definition wc_data :: "wr_cache \<Rightarrow> (int \<times> byte list) set" where
  "wc_data c = set (wc_disk c) \<union> (\<Union>i\<in>set (wc_set c). set (entry_data (wc_mem c) (wc_ent c i)))"

lemma erase_member:
  assumes "wc_core c" "i \<in> set (wc_set c)"
  shows "WrDiskCache_erase c i = (c\<lparr>wc_set := filter (\<lambda>j. j \<noteq> i) (wc_set c)\<rparr>, True)"
proof -
  have "set_equiv c i j \<longleftrightarrow> j = i" if "j \<in> set (wc_set c)" for j
    using assms that by (auto simp: set_equiv_iff wc_core_def dest: inj_onD)
  then have "filter (\<lambda>j. \<not> set_equiv c i j) (wc_set c) = filter (\<lambda>j. j \<noteq> i) (wc_set c)"
    "\<exists>j\<in>set (wc_set c). set_equiv c i j" using assms(2) by (auto intro: filter_cong)
  then show ?thesis by (simp add: WrDiskCache_erase_def)
qed

lemma inj_on_fresh:
  assumes "inj_on f S" "\<And>j. j \<in> S \<Longrightarrow> f j \<le> (k :: int)" "\<And>j. j \<in> S \<Longrightarrow> g j = f j" "g i = k + 1"
  shows "inj_on g (insert i S)"
proof -
  have "inj_on g S" using assms(1,3) by (simp add: inj_on_def)
  moreover have "g i \<noteq> g j" if "j \<in> S" for j using assms(2,3) [OF that] assms(4) by linarith
  ultimately show ?thesis by (auto simp: inj_on_insert)
qed

text \<open>Re-inserting an entry with a new key.\<close>

lemma touch_insert:
  assumes "wc_core c" "i \<notin> set (wc_set c)"
  defines "c' \<equiv> fst (WrDiskCache_insert (WrDiskCache_touch c i) i)"
  shows "snd (WrDiskCache_insert (WrDiskCache_touch c i) i)"
    and "wc_core c'" and "set (wc_set c') = insert i (set (wc_set c))"
    and "wc_ent c' = (wc_ent c)(i := (wc_ent c i)\<lparr>we_sizeKey := we_size (wc_ent c i), we_lastUpdate := wc_clock c + 1\<rparr>)"
    and "wc_mem c' = wc_mem c" "wc_disk c' = wc_disk c" "wc_total c' = wc_total c" "wc_limit c' = wc_limit c"
proof -
  let ?t = "WrDiskCache_touch c i"
  let ?e = "(wc_ent c)(i := (wc_ent c i)\<lparr>we_sizeKey := we_size (wc_ent c i), we_lastUpdate := wc_clock c + 1\<rparr>)"
  have t: "wc_set ?t = wc_set c" "wc_ent ?t = ?e" "wc_mem ?t = wc_mem c" "wc_disk ?t = wc_disk c"
    "wc_total ?t = wc_total c" "wc_limit ?t = wc_limit c" "wc_clock ?t = wc_clock c + 1"
    by (simp_all add: WrDiskCache_touch_def)
  have "\<not> set_equiv ?t i j" if "j \<in> set (wc_set c)" for j
    using assms(1,2) that by (auto simp: set_equiv_iff t wc_core_def)
  then have ins: "WrDiskCache_insert ?t i = (?t\<lparr>wc_set := set_insert ?e i (wc_set c)\<rparr>, True)"
    by (auto simp: WrDiskCache_insert_def t)
  show "snd (WrDiskCache_insert ?t i)" "set (wc_set c') = insert i (set (wc_set c))" "wc_ent c' = ?e"
    "wc_mem c' = wc_mem c" "wc_disk c' = wc_disk c" "wc_total c' = wc_total c" "wc_limit c' = wc_limit c"
    by (simp_all add: c'_def ins t)
  have "by_key ?e (wc_set c)" using assms(1,2) by (simp add: wc_core_def by_key_upd)
  moreover have "inj_on (\<lambda>j. we_lastUpdate (?e j)) (insert i (set (wc_set c)))"
    using assms(1,2) by (intro inj_on_fresh [where f = "\<lambda>j. we_lastUpdate (wc_ent c j)" and k = "wc_clock c"])
      (auto simp: wc_core_def)
  moreover have "we_lastUpdate (?e j) \<le> wc_clock c + 1" if "j \<in> insert i (set (wc_set c))" for j
    using assms(1) that by (auto simp: wc_core_def)
  moreover have "distinct (set_insert ?e i (wc_set c))" using assms(1,2) by (simp add: wc_core_def)
  moreover have "wc_clock c' = wc_clock c + 1" "wc_ent c' = ?e" "wc_set c' = set_insert ?e i (wc_set c)"
    by (simp_all only: c'_def ins fst_conv) (simp_all add: t)
  ultimately show "wc_core c'" unfolding wc_core_def by (simp only: set_insert_set set_insert_by_key simp_thms) blast
qed

subsection \<open>Keeping the limit\<close>

lemma wc_coreD:
  assumes "wc_core c"
  shows "distinct (wc_set c)" "by_key (wc_ent c) (wc_set c)"
  using assms by (simp_all add: wc_core_def)

lemma wc_core_rest:
  assumes "wc_core c" "wc_set c = i # rest"
  shows "wc_core (c\<lparr>wc_set := rest\<rparr>)" and "i \<notin> set rest"
  using assms by (auto simp: wc_core_def by_key_def inj_on_def)

lemma wc_core_cong:
  assumes "wc_core c" "wc_set c' = wc_set c" "wc_clock c' = wc_clock c"
    and "\<And>i. i \<in> set (wc_set c) \<Longrightarrow> we_sizeKey (wc_ent c' i) = we_sizeKey (wc_ent c i)
      \<and> we_lastUpdate (wc_ent c' i) = we_lastUpdate (wc_ent c i)"
  shows "wc_core c'"
proof -
  have "by_key (wc_ent c') js = by_key (wc_ent c) js" if "set js \<subseteq> set (wc_set c)" for js
    using that
  proof (induction js)
    case (Cons a js)
    then have "we_sizeKey (wc_ent c' x) = we_sizeKey (wc_ent c x)" if "x \<in> set (a # js)" for x
      using that assms(4) [of x] by blast
    with Cons show ?case by (auto simp: by_key_def)
  qed (simp add: by_key_def)
  with assms show ?thesis by (simp add: wc_core_def inj_on_def)
qed

text \<open>What one round of the loop leaves: the first entry is empty and has the key 0.\<close>

definition flushed :: "(cell list \<Rightarrow> bool) \<Rightarrow> wr_cache \<Rightarrow> nat \<Rightarrow> wr_cache \<Rightarrow> bool" where
  "flushed io c i c' \<longleftrightarrow> wc_limit c' = wc_limit c
     \<and> wc_mem c' = wc_mem c |` (- entry_addrs (wc_ent c i))
     \<and> (\<forall>j. j \<noteq> i \<longrightarrow> wc_ent c' j = wc_ent c j)
     \<and> we_set (wc_ent c' i) = [] \<and> we_size (wc_ent c' i) = 0
     \<and> wc_disk c' = wc_disk c @ (if io (we_set (wc_ent c i)) then entry_data (wc_mem c) (wc_ent c i) else [])"

lemma flushed_owned:
  assumes "flushed io c i c'" "wc_owned c S" "i \<in> S"
  shows "wc_owned c' S"
proof -
  have dj: "entry_addrs (wc_ent c j) \<inter> entry_addrs (wc_ent c i) = {}" if "j \<in> S" "j \<noteq> i" for j
    using assms(2,3) that by (simp add: wc_owned_def)
  have e: "entry_addrs (wc_ent c' i) = {}" "entry_ok m (wc_ent c' i)" for m
    using assms(1) by (simp_all add: flushed_def entry_addrs_def entry_ok_def)
  have ok: "entry_ok (wc_mem c') (wc_ent c' j)" if "j \<in> S" for j
  proof (cases "j = i")
    case False
    then show ?thesis using assms(1,2) that dj [OF that False]
      by (simp add: flushed_def wc_owned_def entry_ok_restrict)
  qed (use e in simp)
  have dd: "entry_addrs (wc_ent c' j) \<inter> entry_addrs (wc_ent c' k) = {}" if "j \<in> S" "k \<in> S" "j \<noteq> k" for j k
    using assms(1,2) that e(1) by (cases "j = i"; cases "k = i") (auto simp: flushed_def wc_owned_def)
  show ?thesis using ok dd by (simp add: wc_owned_def)
qed

lemma flushed_data:
  assumes "flushed io c i c'" "wc_owned c (set (wc_set c))" "i \<in> set (wc_set c)"
    and "set (wc_set c') = set (wc_set c)" "io (we_set (wc_ent c i))"
  shows "wc_data c' = wc_data c"
proof -
  have "entry_data (wc_mem c') (wc_ent c' j) = entry_data (wc_mem c) (wc_ent c j)" if "j \<in> set (wc_set c)" "j \<noteq> i" for j
    using assms(1,2,3) that by (simp add: flushed_def wc_owned_def entry_data_restrict)
  moreover have "entry_data (wc_mem c') (wc_ent c' i) = []" using assms(1) by (simp add: flushed_def entry_data_def)
  moreover have "set (wc_disk c') = set (wc_disk c) \<union> set (entry_data (wc_mem c) (wc_ent c i))"
    using assms(1,5) by (simp add: flushed_def)
  ultimately have "wc_data c' = set (wc_disk c) \<union> set (entry_data (wc_mem c) (wc_ent c i))
      \<union> (\<Union>j\<in>set (wc_set c) - {i}. set (entry_data (wc_mem c) (wc_ent c j)))"
    unfolding wc_data_def assms(4) using assms(3) by fastforce
  also have "\<dots> = wc_data c" unfolding wc_data_def using assms(3) by blast
  finally show ?thesis .
qed

lemma cache_writeToDisk:
  assumes "entry_ok (wc_mem c) (wc_ent c i)"
  obtains c' where "WrDiskCache_writeToDisk io c i = Some c'" "flushed io c i c'"
    and "wc_set c' = wc_set c" "wc_clock c' = wc_clock c" "wc_total c' = wc_total c"
    and "we_sizeKey (wc_ent c' i) = we_sizeKey (wc_ent c i)" "we_lastUpdate (wc_ent c' i) = we_lastUpdate (wc_ent c i)"
  using assms that by (simp add: WrDiskCache_writeToDisk_def writeToDisk_ok flushed_def)

lemma flushed_sizes:
  assumes "flushed io c i c'" "i \<in> set (wc_set c)" "set (wc_set c') = set (wc_set c)"
  shows "wc_sizes c' + we_size (wc_ent c i) = wc_sizes c"
proof -
  have "wc_sizes c' = (\<Sum>j\<in>set (wc_set c) - {i}. we_size (wc_ent c j))"
    unfolding wc_sizes_def assms(3) using assms(1,2)
    by (subst sum.remove [of _ i]) (simp_all add: flushed_def)
  then show ?thesis using assms(2) by (simp add: wc_sizes_def sum.remove [of _ i])
qed

lemma to_size_diff: "b \<le> a \<Longrightarrow> a < 2 ^ 64 \<Longrightarrow> to_size (int a - int b) = a - b"
  by (simp add: nat_diff_distrib)

lemma flush_round:
  assumes inv: "wc_inv c" and set: "wc_set c = i # rest"
  obtains c1 c2 where
    "WrDiskCache_writeToDisk io (c\<lparr>wc_total := to_size (int (wc_total c) - int (we_size (wc_ent c i)))\<rparr>) i = Some c1"
    and "c2 = fst (WrDiskCache_insert (WrDiskCache_touch (c1\<lparr>wc_set := rest\<rparr>) i) i)"
    and "wc_inv c2" "set (wc_set c2) = set (wc_set c)" "wc_limit c2 = wc_limit c" "flushed io c i c2"
    and "we_sizeKey (wc_ent c2 i) = 0"
proof -
  let ?S = "set (wc_set c)"
  let ?c = "c\<lparr>wc_total := to_size (int (wc_total c) - int (we_size (wc_ent c i)))\<rparr>"
  note core = inv [unfolded wc_inv_def, THEN conjunct1]
  have own: "wc_owned c ?S" and i: "i \<in> ?S" using inv set by (auto simp: wc_inv_def)
  have le: "we_size (wc_ent c i) \<le> wc_sizes c" unfolding wc_sizes_def using i by (intro member_le_sum) auto
  then have tot: "wc_total ?c = wc_sizes c - we_size (wc_ent c i)"
    using inv by (simp add: wc_inv_def to_size_diff)
  have "entry_ok (wc_mem ?c) (wc_ent ?c i)" using own i by (simp add: wc_owned_def)
  then obtain c1 where w: "WrDiskCache_writeToDisk io ?c i = Some c1" "flushed io ?c i c1"
    "wc_set c1 = wc_set ?c" "wc_clock c1 = wc_clock ?c" "wc_total c1 = wc_total ?c"
    "we_sizeKey (wc_ent c1 i) = we_sizeKey (wc_ent ?c i)" "we_lastUpdate (wc_ent c1 i) = we_lastUpdate (wc_ent ?c i)"
    by (rule cache_writeToDisk)
  have f: "flushed io c i c1" using w(2) by (simp add: flushed_def)
  let ?r = "c1\<lparr>wc_set := rest\<rparr>"
  have "wc_core c1" by (rule wc_core_cong [OF core]) (use w f in \<open>auto simp: flushed_def\<close>)
  then have r: "wc_core ?r" "i \<notin> set (wc_set ?r)" using wc_core_rest [of c1 i rest] w(3) set by simp_all
  define c2 where "c2 = fst (WrDiskCache_insert (WrDiskCache_touch ?r i) i)"
  note ti = touch_insert [OF r, folded c2_def]
  have f2: "flushed io c i c2" using f ti by (simp add: flushed_def)
  have s2: "set (wc_set c2) = ?S" using ti(3) set by simp
  have k2: "we_sizeKey (wc_ent c2 i) = 0" using ti(4) f by (simp add: flushed_def)
  have "we_size (wc_ent c2 j) \<le> we_sizeKey (wc_ent c2 j)" if "j \<in> ?S" for j
    using inv that f2 k2 by (cases "j = i") (simp_all add: flushed_def wc_inv_def)
  moreover have "wc_total c2 = wc_sizes c2"
    using flushed_sizes [OF f2 i s2] ti(7) w(5) tot by simp
  moreover have "wc_total c2 < 2 ^ 64" using ti(7) w(5) tot inv by (simp add: wc_inv_def less_imp_diff_less)
  ultimately have "wc_inv c2"
    using ti(2) flushed_owned [OF f2 own i] by (simp add: wc_inv_def s2)
  moreover have "wc_limit c2 = wc_limit c" using f2 by (simp add: flushed_def)
  ultimately show thesis using that w(1) c2_def s2 f2 k2 by blast
qed

text \<open>
  The loop ends: as long as the total exceeds the limit, the first entry, which has the largest
  key, has a positive one, and it leaves the round with the key 0.
\<close>

lemma first_key_pos:
  assumes "wc_inv c" "wc_set c = i # rest" "0 < wc_total c"
  shows "0 < we_sizeKey (wc_ent c i)"
proof (rule ccontr)
  assume "\<not> 0 < we_sizeKey (wc_ent c i)"
  then have "we_size (wc_ent c j) = 0" if "j \<in> set (wc_set c)" for j
    using assms(1,2) that by (fastforce simp: wc_inv_def wc_core_def by_key_def)
  then have "wc_sizes c = 0" by (simp add: wc_sizes_def)
  then show False using assms(1,3) by (simp add: wc_inv_def)
qed

lemma ensureLimit_spec:
  "wc_inv c \<Longrightarrow> \<exists>c'. WrDiskCache_ensureLimit io c = Some c' \<and> wc_inv c' \<and> wc_total c' \<le> wc_limit c
     \<and> wc_limit c' = wc_limit c \<and> set (wc_set c') = set (wc_set c)
     \<and> ((\<forall>cs. io cs) \<longrightarrow> wc_data c' = wc_data c)"
proof (induction "card {i \<in> set (wc_set c). 0 < we_sizeKey (wc_ent c i)}" arbitrary: c rule: less_induct)
  case less
  show ?case
  proof (cases "wc_total c \<le> wc_limit c")
    case True
    then show ?thesis using less.prems by (subst WrDiskCache_ensureLimit.simps) simp
  next
    case False
    have "wc_set c \<noteq> []" using False less.prems by (auto simp: wc_inv_def wc_sizes_def)
    then obtain i rest where set: "wc_set c = i # rest" by (cases "wc_set c") auto
    obtain c1 c2 where r:
      "WrDiskCache_writeToDisk io (c\<lparr>wc_total := to_size (int (wc_total c) - int (we_size (wc_ent c i)))\<rparr>) i = Some c1"
      "c2 = fst (WrDiskCache_insert (WrDiskCache_touch (c1\<lparr>wc_set := rest\<rparr>) i) i)"
      "wc_inv c2" "set (wc_set c2) = set (wc_set c)" "wc_limit c2 = wc_limit c" "flushed io c i c2"
      "we_sizeKey (wc_ent c2 i) = 0"
      by (rule flush_round [OF less.prems set])
    have "0 < we_sizeKey (wc_ent c2 j) \<longleftrightarrow> j \<noteq> i \<and> 0 < we_sizeKey (wc_ent c j)" for j
      using r(6,7) by (cases "j = i") (simp_all add: flushed_def)
    then have "{j \<in> set (wc_set c2). 0 < we_sizeKey (wc_ent c2 j)} = {j \<in> set (wc_set c). 0 < we_sizeKey (wc_ent c j)} - {i}"
      unfolding r(4) by blast
    moreover have "i \<in> {j \<in> set (wc_set c). 0 < we_sizeKey (wc_ent c j)}"
      using first_key_pos [OF less.prems set] False set by simp
    ultimately have "card {j \<in> set (wc_set c2). 0 < we_sizeKey (wc_ent c2 j)} < card {j \<in> set (wc_set c). 0 < we_sizeKey (wc_ent c j)}"
      by (simp only:) (rule card_Diff1_less, auto)
    from less.hyps [OF this r(3)] obtain c' where c':
      "WrDiskCache_ensureLimit io c2 = Some c'" "wc_inv c'" "wc_total c' \<le> wc_limit c2"
      "wc_limit c' = wc_limit c2" "set (wc_set c') = set (wc_set c2)" "(\<forall>cs. io cs) \<longrightarrow> wc_data c' = wc_data c2" by blast
    have "wc_data c2 = wc_data c" if "\<forall>cs. io cs"
      using flushed_data [OF r(6) _ _ r(4)] less.prems set that by (simp add: wc_inv_def)
    moreover have "WrDiskCache_ensureLimit io c = Some c'"
      using c'(1) False set r(1,2) by (subst WrDiskCache_ensureLimit.simps) simp
    ultimately show ?thesis using c' r(4,5) by auto
  qed
qed

subsection \<open>The operations keep the cache within its limit\<close>

definition wc_ok :: "wr_cache \<Rightarrow> bool" where
  "wc_ok c \<longleftrightarrow> wc_inv c \<and> wc_total c \<le> wc_limit c"

text \<open>Taking an entry out of the set and putting it back with its current size as the key.\<close>

lemma reinsert:
  assumes "wc_core c" "i \<in> set (wc_set c)" "wc_owned c (set (wc_set c))"
  defines "c2 \<equiv> fst (WrDiskCache_insert (WrDiskCache_touch (fst (WrDiskCache_erase c i)) i) i)"
  shows "snd (WrDiskCache_erase c i)" and "wc_core c2" "set (wc_set c2) = set (wc_set c)" "wc_owned c2 (set (wc_set c))"
    and "\<And>j. we_size (wc_ent c2 j) = we_size (wc_ent c j)" "\<And>j. we_set (wc_ent c2 j) = we_set (wc_ent c j)"
    and "we_sizeKey (wc_ent c2 i) = we_size (wc_ent c i)" "\<And>j. j \<noteq> i \<Longrightarrow> wc_ent c2 j = wc_ent c j"
    and "wc_mem c2 = wc_mem c" "wc_disk c2 = wc_disk c" "wc_total c2 = wc_total c" "wc_limit c2 = wc_limit c"
    and "wc_sizes c2 = wc_sizes c" "wc_data c2 = wc_data c"
proof -
  let ?r = "c\<lparr>wc_set := filter (\<lambda>j. j \<noteq> i) (wc_set c)\<rparr>"
  note er = erase_member [OF assms(1,2)]
  show "snd (WrDiskCache_erase c i)" by (simp add: er)
  have r: "wc_core ?r" "i \<notin> set (wc_set ?r)"
    using assms(1) by (auto simp: wc_core_def by_key_filter inj_on_def)
  have c2: "c2 = fst (WrDiskCache_insert (WrDiskCache_touch ?r i) i)" by (simp add: c2_def er)
  note ti = touch_insert [OF r, folded c2]
  show "wc_core c2" by (rule ti(2))
  show s: "set (wc_set c2) = set (wc_set c)" using ti(3) assms(2) by auto
  show sz: "we_size (wc_ent c2 j) = we_size (wc_ent c j)" for j using ti(4) by simp
  show cs: "we_set (wc_ent c2 j) = we_set (wc_ent c j)" for j using ti(4) by simp
  show "we_sizeKey (wc_ent c2 i) = we_size (wc_ent c i)" using ti(4) by simp
  show "j \<noteq> i \<Longrightarrow> wc_ent c2 j = wc_ent c j" for j using ti(4) by simp
  show m: "wc_mem c2 = wc_mem c" "wc_disk c2 = wc_disk c" "wc_total c2 = wc_total c" "wc_limit c2 = wc_limit c"
    using ti(5-8) by simp_all
  show "wc_sizes c2 = wc_sizes c" by (simp add: wc_sizes_def s sz)
  show "wc_data c2 = wc_data c" by (simp add: wc_data_def s m entry_data_def cs)
  show "wc_owned c2 (set (wc_set c))"
    using assms(3) by (simp add: wc_owned_def entry_ok_def entry_addrs_def cs sz m)
qed

lemma update_grow:
  assumes "wc_core c" "i \<in> set (wc_set c)" "wc_owned c (set (wc_set c))"
    and "\<And>j. j \<in> set (wc_set c) \<Longrightarrow> j \<noteq> i \<Longrightarrow> we_size (wc_ent c j) \<le> we_sizeKey (wc_ent c j)"
    and "wc_total c + d = wc_sizes c" "wc_sizes c < 2 ^ 64"
  obtains c' where "WrDiskCache_update io c i (int d) = Some (c', True)" "wc_ok c'"
    and "wc_limit c' = wc_limit c" "set (wc_set c') = set (wc_set c)"
    and "(\<forall>cs. io cs) \<longrightarrow> wc_data c' = wc_data c"
proof -
  define c2 where "c2 = fst (WrDiskCache_insert (WrDiskCache_touch (fst (WrDiskCache_erase c i)) i) i)"
  note ri = reinsert [OF assms(1-3), folded c2_def]
  let ?c = "c2\<lparr>wc_total := to_size (int (wc_total c2) + int d)\<rparr>"
  have t: "to_size (int (wc_total c2) + int d) = wc_sizes c" using assms(5,6) ri(11) by simp
  have "wc_inv ?c"
  proof -
    have "we_size (wc_ent c2 j) \<le> we_sizeKey (wc_ent c2 j)" if "j \<in> set (wc_set c)" for j
      using ri(5,7,8) assms(4) that by (cases "j = i") simp_all
    moreover have "wc_core ?c" by (rule wc_core_cong [OF ri(2)]) simp_all
    ultimately show ?thesis using ri(3,4,13) assms(6) t by (simp add: wc_inv_def wc_owned_def wc_sizes_def)
  qed
  from ensureLimit_spec [OF this, of io] obtain c' where c': "WrDiskCache_ensureLimit io ?c = Some c'" "wc_inv c'"
    "wc_total c' \<le> wc_limit ?c" "wc_limit c' = wc_limit ?c" "set (wc_set c') = set (wc_set ?c)"
    "(\<forall>cs. io cs) \<longrightarrow> wc_data c' = wc_data ?c" by blast
  have "WrDiskCache_update io c i (int d) = Some (c', True)"
    using ri(1) c'(1) by (simp add: WrDiskCache_update_def split_def c2_def)
  moreover have "wc_data ?c = wc_data c2" by (simp add: wc_data_def)
  ultimately show thesis using that c' ri(3,12,14) by (simp add: wc_ok_def)
qed

text \<open>Before a piece's data is flushed or cleared its size is taken off the total.\<close>

lemma ensureLimit_within: "wc_total c \<le> wc_limit c \<Longrightarrow> WrDiskCache_ensureLimit io c = Some c"
  by (simp add: WrDiskCache_ensureLimit.simps)

lemma update_shrink:
  assumes "wc_ok c" "i \<in> set (wc_set c)"
  obtains c' where "WrDiskCache_update io c i (- int (we_size (wc_ent c i))) = Some (c', True)"
    and "wc_core c'" "set (wc_set c') = set (wc_set c)" "wc_owned c' (set (wc_set c))"
    and "\<forall>j. we_size (wc_ent c' j) = we_size (wc_ent c j)" "\<forall>j. we_set (wc_ent c' j) = we_set (wc_ent c j)"
    and "\<forall>j\<in>set (wc_set c). we_size (wc_ent c' j) \<le> we_sizeKey (wc_ent c' j)"
    and "wc_mem c' = wc_mem c" "wc_disk c' = wc_disk c" "wc_limit c' = wc_limit c"
    and "wc_total c' = wc_sizes c - we_size (wc_ent c i)" "wc_data c' = wc_data c"
proof -
  have inv: "wc_core c" "wc_owned c (set (wc_set c))" "wc_total c = wc_sizes c" "wc_total c \<le> wc_limit c" "wc_total c < 2 ^ 64"
    "\<And>j. j \<in> set (wc_set c) \<Longrightarrow> we_size (wc_ent c j) \<le> we_sizeKey (wc_ent c j)"
    using assms(1) by (simp_all add: wc_ok_def wc_inv_def)
  define c2 where "c2 = fst (WrDiskCache_insert (WrDiskCache_touch (fst (WrDiskCache_erase c i)) i) i)"
  note ri = reinsert [OF inv(1) assms(2) inv(2), folded c2_def]
  let ?s = "we_size (wc_ent c i)"
  let ?c = "c2\<lparr>wc_total := to_size (int (wc_total c2) + - int ?s)\<rparr>"
  have le: "?s \<le> wc_sizes c" unfolding wc_sizes_def using assms(2) by (intro member_le_sum) auto
  have t: "wc_total ?c = wc_sizes c - ?s" using le inv(3,5) ri(11) by (simp add: to_size_diff)
  have "WrDiskCache_ensureLimit io ?c = Some ?c"
    by (rule ensureLimit_within) (use t inv(3,4) ri(12) in simp)
  then have "WrDiskCache_update io c i (- int ?s) = Some (?c, True)"
    using ri(1,11) le inv(3) by (simp add: WrDiskCache_update_def split_def c2_def)
  moreover have "wc_core ?c" by (rule wc_core_cong [OF ri(2)]) simp_all
  moreover have "wc_owned ?c (set (wc_set c))" using ri(4) by (simp add: wc_owned_def)
  moreover have "we_size (wc_ent ?c j) \<le> we_sizeKey (wc_ent ?c j)" if "j \<in> set (wc_set c)" for j
    using ri(5,7,8) inv(6) that by (cases "j = i") simp_all
  moreover have "wc_data ?c = wc_data c" using ri(14) by (simp add: wc_data_def)
  ultimately show thesis using that [of ?c] ri(3,5,6,9,10,12) t by simp
qed

lemma flushed_ok:
  assumes "wc_ok c" "i \<in> set (wc_set c)" and core: "wc_core c1" "wc_owned c1 (set (wc_set c))"
    and c1: "set (wc_set c1) = set (wc_set c)" "\<And>j. we_size (wc_ent c1 j) = we_size (wc_ent c j)"
      "\<And>j. j \<in> set (wc_set c) \<Longrightarrow> we_size (wc_ent c1 j) \<le> we_sizeKey (wc_ent c1 j)"
      "wc_limit c1 = wc_limit c" "wc_total c1 = wc_sizes c - we_size (wc_ent c i)"
    and f: "flushed io c1 i c'" "wc_set c' = wc_set c1" "wc_clock c' = wc_clock c1" "wc_total c' = wc_total c1"
      "we_sizeKey (wc_ent c' i) = we_sizeKey (wc_ent c1 i)" "we_lastUpdate (wc_ent c' i) = we_lastUpdate (wc_ent c1 i)"
  shows "wc_ok c'"
proof -
  have i: "i \<in> set (wc_set c1)" "set (wc_set c') = set (wc_set c1)" using assms(2) c1(1) f(2) by simp_all
  have s: "wc_sizes c1 = wc_sizes c" by (simp add: wc_sizes_def c1(1,2))
  have "wc_core c'"
    by (rule wc_core_cong [OF core(1) f(2,3)]) (use f(1,5,6) in \<open>metis flushed_def\<close>)
  moreover have "we_size (wc_ent c' j) \<le> we_sizeKey (wc_ent c' j)" if "j \<in> set (wc_set c)" for j
    using f(1) c1(3) [OF that] by (cases "j = i") (simp_all add: flushed_def)
  moreover have "wc_total c' = wc_sizes c'"
    using flushed_sizes [OF f(1) i] s c1(2,5) f(4) by simp
  moreover have "wc_sizes c - we_size (wc_ent c i) \<le> wc_limit c" "wc_sizes c - we_size (wc_ent c i) < 2 ^ 64"
    using assms(1) unfolding wc_ok_def wc_inv_def by linarith+
  moreover have "wc_limit c' = wc_limit c" using f(1) c1(4) by (simp add: flushed_def)
  ultimately show ?thesis using flushed_owned [OF f(1) core(2) assms(2)] c1 f(2,4) by (simp add: wc_ok_def wc_inv_def)
qed

lemma Piece_flushWrCache_ok:
  assumes "wc_ok c" "i \<in> set (wc_set c)"
  obtains c' where "Piece_flushWrCache io c i = Some c'" "wc_ok c'" "set (wc_set c') = set (wc_set c)"
    and "wc_limit c' = wc_limit c" "we_set (wc_ent c' i) = []" "(\<forall>cs. io cs) \<longrightarrow> wc_data c' = wc_data c"
proof -
  obtain c1 where u: "WrDiskCache_update io c i (- int (we_size (wc_ent c i))) = Some (c1, True)"
    "wc_core c1" "set (wc_set c1) = set (wc_set c)" "wc_owned c1 (set (wc_set c))"
    "\<forall>j. we_size (wc_ent c1 j) = we_size (wc_ent c j)" "\<forall>j. we_set (wc_ent c1 j) = we_set (wc_ent c j)"
    "\<forall>j\<in>set (wc_set c). we_size (wc_ent c1 j) \<le> we_sizeKey (wc_ent c1 j)"
    "wc_mem c1 = wc_mem c" "wc_disk c1 = wc_disk c" "wc_limit c1 = wc_limit c"
    "wc_total c1 = wc_sizes c - we_size (wc_ent c i)" "wc_data c1 = wc_data c"
    by (rule update_shrink [OF assms, of io])
  have "entry_ok (wc_mem c1) (wc_ent c1 i)" using u(4) assms(2) by (simp add: wc_owned_def)
  then obtain c' where w: "WrDiskCache_writeToDisk io c1 i = Some c'" "flushed io c1 i c'"
    "wc_set c' = wc_set c1" "wc_clock c' = wc_clock c1" "wc_total c' = wc_total c1"
    "we_sizeKey (wc_ent c' i) = we_sizeKey (wc_ent c1 i)" "we_lastUpdate (wc_ent c' i) = we_lastUpdate (wc_ent c1 i)"
    by (rule cache_writeToDisk)
  have "wc_ok c'" by (rule flushed_ok [OF assms u(2,4,3) u(5,7) [rule_format] u(10,11) w(2-7)])
  moreover have "wc_data c' = wc_data c" if "\<forall>cs. io cs"
    using flushed_data [OF w(2) _ _ _ that [rule_format]] u(3,4,12) assms(2) w(3) by simp
  moreover have "Piece_flushWrCache io c i = Some c'" using u(1) w(1) by (simp add: Piece_flushWrCache_def)
  moreover have "we_set (wc_ent c' i) = []" "wc_limit c' = wc_limit c" using w(2) u(10) by (simp_all add: flushed_def)
  ultimately show thesis using that u(3) w(3) by simp
qed

lemma insert_cell_set [simp]: "set (insert_cell x ys) = insert x (set ys)"
  by (induction ys) auto

lemma insert_cell_distinct: "distinct (map cell_data (insert_cell x ys)) \<longleftrightarrow>
    cell_data x \<notin> cell_data ` set ys \<and> distinct (map cell_data ys)"
  by (induction ys) auto

lemma insert_cell_sum: "sum_list (map cell_len (insert_cell x ys)) = cell_len x + sum_list (map cell_len ys)"
  by (induction ys) auto

text \<open>The entry an operation changes; the other entries stay as they are.\<close>

lemma wc_owned_upd:
  assumes "wc_owned c S" "i \<in> S" "entry_ok mem e"
    and "\<And>j. j \<in> S \<Longrightarrow> j \<noteq> i \<Longrightarrow> entry_ok mem (wc_ent c j)"
    and "\<And>j. j \<in> S \<Longrightarrow> j \<noteq> i \<Longrightarrow> entry_addrs e \<inter> entry_addrs (wc_ent c j) = {}"
  shows "wc_owned (c\<lparr>wc_ent := (wc_ent c)(i := e), wc_mem := mem\<rparr>) S"
  using assms by (auto simp: wc_owned_def)

lemma wc_sizes_upd:
  assumes "i \<in> set (wc_set c)" "we_size e = we_size (wc_ent c i) + d"
  shows "wc_sizes (c\<lparr>wc_ent := (wc_ent c)(i := e), wc_mem := mem\<rparr>) = wc_sizes c + d"
proof -
  have "(\<Sum>j\<in>set (wc_set c) - {i}. we_size (((wc_ent c)(i := e)) j)) = (\<Sum>j\<in>set (wc_set c) - {i}. we_size (wc_ent c j))"
    by (rule sum.cong) auto
  then show ?thesis using assms by (simp add: wc_sizes_def sum.remove [of _ i])
qed

lemma grow_entry:
  assumes "wc_ok c" "i \<in> set (wc_set c)" "entry_ok mem e"
    and e: "we_size e = we_size (wc_ent c i) + d" "we_sizeKey e = we_sizeKey (wc_ent c i)"
      "we_lastUpdate e = we_lastUpdate (wc_ent c i)"
    and o: "\<And>j. j \<in> set (wc_set c) \<Longrightarrow> j \<noteq> i \<Longrightarrow> entry_ok mem (wc_ent c j)"
      "\<And>j. j \<in> set (wc_set c) \<Longrightarrow> j \<noteq> i \<Longrightarrow> entry_addrs e \<inter> entry_addrs (wc_ent c j) = {}"
    and "wc_limit c + d < 2 ^ 64"
  obtains c' where "WrDiskCache_update io (c\<lparr>wc_ent := (wc_ent c)(i := e), wc_mem := mem\<rparr>) i (int d) = Some (c', True)"
    and "wc_ok c'" "wc_limit c' = wc_limit c" "set (wc_set c') = set (wc_set c)"
    and "(\<forall>cs. io cs) \<longrightarrow> wc_data c' = wc_data (c\<lparr>wc_ent := (wc_ent c)(i := e), wc_mem := mem\<rparr>)"
proof -
  let ?c = "c\<lparr>wc_ent := (wc_ent c)(i := e), wc_mem := mem\<rparr>"
  have inv: "wc_core c" "wc_owned c (set (wc_set c))" "wc_total c = wc_sizes c" "wc_total c \<le> wc_limit c"
    "\<And>j. j \<in> set (wc_set c) \<Longrightarrow> we_size (wc_ent c j) \<le> we_sizeKey (wc_ent c j)"
    using assms(1) by (simp_all add: wc_ok_def wc_inv_def)
  have 1: "wc_core ?c" by (rule wc_core_cong [OF inv(1)]) (use e(2,3) in simp_all)
  have 2: "i \<in> set (wc_set ?c)" using assms(2) by simp
  have 3: "wc_owned ?c (set (wc_set ?c))" using wc_owned_upd [OF inv(2) assms(2,3) o] by simp
  have 4: "we_size (wc_ent ?c j) \<le> we_sizeKey (wc_ent ?c j)" if "j \<in> set (wc_set ?c)" "j \<noteq> i" for j
    using inv(5) that by simp
  have s: "wc_sizes ?c = wc_sizes c + d" by (rule wc_sizes_upd [OF assms(2) e(1)])
  then have 5: "wc_total ?c + d = wc_sizes ?c" using inv(3) by simp
  have 6: "wc_sizes ?c < 2 ^ 64" using s inv(3,4) assms(9) by linarith
  obtain c' where "WrDiskCache_update io ?c i (int d) = Some (c', True)" "wc_ok c'" "wc_limit c' = wc_limit ?c"
    "set (wc_set c') = set (wc_set ?c)" "(\<forall>cs. io cs) \<longrightarrow> wc_data c' = wc_data ?c"
    by (rule update_grow [OF 1 2 3 4 5 6])
  then show thesis using that by simp
qed

lemma Piece_updateWrCache_ok:
  assumes "wc_ok c" "i \<in> set (wc_set c)" "cell_live (wc_mem c) x"
    and fresh: "\<And>j. j \<in> set (wc_set c) \<Longrightarrow> cell_data x \<notin> entry_addrs (wc_ent c j)"
    and goff: "\<forall>y\<in>set (we_set (wc_ent c i)). cell_goff y \<noteq> cell_goff x"
    and "wc_limit c + cell_len x < 2 ^ 64"
  obtains c' where "Piece_updateWrCache io c i x = Some c'" "wc_ok c'" "wc_limit c' = wc_limit c"
    and "set (wc_set c') = set (wc_set c)"
    and "(\<forall>cs. io cs) \<longrightarrow> wc_data c' = insert (cell_goff x, the (cell_bytes (wc_mem c) x)) (wc_data c)"
proof -
  let ?e = "(wc_ent c i)\<lparr>we_set := insert_cell x (we_set (wc_ent c i)), we_size := we_size (wc_ent c i) + cell_len x\<rparr>"
  let ?c = "c\<lparr>wc_ent := (wc_ent c)(i := ?e), wc_mem := wc_mem c\<rparr>"
  have own: "wc_owned c (set (wc_set c))" using assms(1) by (simp add: wc_ok_def wc_inv_def)
  have c: "WrDiskCacheEntry_cacheData (wc_ent c i) x = (?e, True)"
    using goff by (auto simp: WrDiskCacheEntry_cacheData_def)
  have ok: "entry_ok (wc_mem c) ?e" using own assms(2,3) fresh [OF assms(2)]
    by (auto simp: wc_owned_def entry_ok_def insert_cell_sum insert_cell_distinct entry_addrs_def)
  have dj: "entry_addrs ?e \<inter> entry_addrs (wc_ent c j) = {}" if "j \<in> set (wc_set c)" "j \<noteq> i" for j
    using own assms(2) that fresh [OF that(1)] by (auto simp: wc_owned_def entry_addrs_def)
  have oo: "entry_ok (wc_mem c) (wc_ent c j)" if "j \<in> set (wc_set c)" for j using own that by (simp add: wc_owned_def)
  obtain c' where c': "WrDiskCache_update io ?c i (int (cell_len x)) = Some (c', True)" "wc_ok c'"
    "wc_limit c' = wc_limit c" "set (wc_set c') = set (wc_set c)" "(\<forall>cs. io cs) \<longrightarrow> wc_data c' = wc_data ?c"
    by (rule grow_entry [OF assms(1,2) ok _ _ _ oo dj assms(6), of io]) simp_all
  have "wc_data ?c = insert (cell_goff x, the (cell_bytes (wc_mem c) x)) (wc_data c)"
  proof -
    let ?D = "\<lambda>j. set (entry_data (wc_mem c) (wc_ent c j))"
    have "set (entry_data (wc_mem c) (wc_ent ?c j))
        = (if j = i then insert (cell_goff x, the (cell_bytes (wc_mem c) x)) (?D j) else ?D j)" for j
      by (simp add: entry_data_def)
    then have "wc_data ?c = set (wc_disk c) \<union> (\<Union>j\<in>set (wc_set c).
        if j = i then insert (cell_goff x, the (cell_bytes (wc_mem c) x)) (?D j) else ?D j)"
      by (simp add: wc_data_def)
    then show ?thesis using assms(2) by (auto simp: wc_data_def split: if_splits)
  qed
  moreover have "Piece_updateWrCache io c i x = Some c'" using c c'(1) by (simp add: Piece_updateWrCache_def)
  ultimately show thesis using that c' by simp
qed

text \<open>Appending changes the last cell and its buffer.\<close>

lemma cell_live_mem: "(\<And>buf. mem (cell_data x) = Some buf \<Longrightarrow> \<exists>buf'. mem' (cell_data x) = Some buf' \<and> length buf' = length buf)
    \<Longrightarrow> cell_live mem x \<Longrightarrow> cell_live mem' x"
  by (fastforce simp: cell_live_def split: option.splits)

lemma append_ok:
  assumes "entry_ok mem e" "WrDiskCacheEntry_append e mem goff data = Some (e', mem', d)"
  shows "entry_ok mem' e'" "we_size e' = we_size e + d" "we_sizeKey e' = we_sizeKey e"
    and "we_lastUpdate e' = we_lastUpdate e" "entry_addrs e' = entry_addrs e" "d \<le> length data"
    and "a \<notin> entry_addrs e \<Longrightarrow> mem' a = mem a"
    and "\<And>x. cell_live mem x \<Longrightarrow> cell_live mem' x"
proof -
  have *: "entry_ok mem' e' \<and> we_size e' = we_size e + d \<and> we_sizeKey e' = we_sizeKey e
     \<and> we_lastUpdate e' = we_lastUpdate e \<and> entry_addrs e' = entry_addrs e \<and> d \<le> length data
     \<and> (\<forall>a. a \<notin> entry_addrs e \<longrightarrow> mem' a = mem a) \<and> (\<forall>x. cell_live mem x \<longrightarrow> cell_live mem' x)"
  proof (cases "we_set e = [] \<or> cell_goff (last (we_set e)) + int (cell_len (last (we_set e))) \<noteq> goff")
    case True
    then have "e' = e" "mem' = mem" "d = 0" using assms(2)
      by (auto simp: WrDiskCacheEntry_append_def Let_def split: if_splits)
    then show ?thesis using assms(1) by simp
  next
    case False
    define x where "x = last (we_set e)"
    define xs where "xs = butlast (we_set e)"
    have e: "we_set e = xs @ [x]" using False by (simp add: x_def xs_def)
    define w where "w = min (cell_capacity x - cell_len x) (length data)"
    define pos where "pos = cell_offset x + cell_len x"
    obtain buf where buf: "mem (cell_data x) = Some buf" "pos + w \<le> length buf" "d = w"
      "e' = e\<lparr>we_set := xs @ [x\<lparr>cell_len := cell_len x + w\<rparr>], we_size := we_size e + w\<rparr>"
      "mem' = mem(cell_data x \<mapsto> take pos buf @ take w data @ drop (pos + w) buf)"
      using assms(2) False unfolding WrDiskCacheEntry_append_def
      by (auto simp: Let_def x_def [symmetric] xs_def [symmetric] w_def pos_def split: option.splits if_splits)
    have lw: "w \<le> length data" "w \<le> cell_capacity x - cell_len x" by (simp_all add: w_def)
    have live: "cell_live mem y \<Longrightarrow> cell_live mem' y" for y
      by (rule cell_live_mem) (use buf lw in \<open>auto simp: fun_upd_def\<close>)
    have lx: "cell_live mem x" using assms(1) e by (simp add: entry_ok_def)
    then have "cell_live mem' (x\<lparr>cell_len := cell_len x + w\<rparr>)"
      using live [OF lx] lw lx by (auto simp: cell_live_def split: option.splits; linarith)
    then have "entry_ok mem' e'" using assms(1) e buf(4) live by (simp add: entry_ok_def)
    moreover have "entry_addrs e' = entry_addrs e" using e buf(4) by (simp add: entry_addrs_def)
    moreover have "mem' a = mem a" if "a \<notin> entry_addrs e" for a
      using that e buf(5) by (simp add: entry_addrs_def)
    ultimately show ?thesis using buf(3,4) lw(1) live by simp
  qed
  show "entry_ok mem' e'" "we_size e' = we_size e + d" "we_sizeKey e' = we_sizeKey e"
    "we_lastUpdate e' = we_lastUpdate e" "entry_addrs e' = entry_addrs e" "d \<le> length data"
    using * by simp_all
  show "a \<notin> entry_addrs e \<Longrightarrow> mem' a = mem a" using * by blast
  show "\<And>x. cell_live mem x \<Longrightarrow> cell_live mem' x" using * by blast
qed

lemma append_total:
  assumes "entry_ok mem e" shows "WrDiskCacheEntry_append e mem goff data \<noteq> None"
proof (cases "we_set e = []")
  case False
  then have "cell_live mem (last (we_set e))" using assms by (simp add: entry_ok_def)
  then show ?thesis using False by (auto simp: WrDiskCacheEntry_append_def Let_def cell_live_def split: option.splits)
qed (simp add: WrDiskCacheEntry_append_def)

lemma Piece_appendWrCache_ok:
  assumes "wc_ok c" "i \<in> set (wc_set c)" "wc_limit c + length data < 2 ^ 64"
  obtains c' d where "Piece_appendWrCache io c i goff data = Some (c', d)" "wc_ok c'" "wc_limit c' = wc_limit c"
    and "set (wc_set c') = set (wc_set c)" "d \<le> length data"
proof -
  have own: "wc_owned c (set (wc_set c))" using assms(1) by (simp add: wc_ok_def wc_inv_def)
  then have ok: "entry_ok (wc_mem c) (wc_ent c i)" using assms(2) by (simp add: wc_owned_def)
  obtain e mem d where a: "WrDiskCacheEntry_append (wc_ent c i) (wc_mem c) goff data = Some (e, mem, d)"
    using append_total [OF ok] by (metis not_Some_eq prod_cases3)
  note ap = append_ok [OF ok a]
  let ?c = "c\<lparr>wc_ent := (wc_ent c)(i := e), wc_mem := mem\<rparr>"
  have oo: "entry_ok mem (wc_ent c j)" if "j \<in> set (wc_set c)" for j
    using own that ap(8) by (simp add: wc_owned_def entry_ok_def)
  have dj: "entry_addrs e \<inter> entry_addrs (wc_ent c j) = {}" if "j \<in> set (wc_set c)" "j \<noteq> i" for j
    using own assms(2) that ap(5) by (simp add: wc_owned_def)
  have lim: "wc_limit c + d < 2 ^ 64" using ap(6) assms(3) by linarith
  obtain c' where c': "WrDiskCache_update io ?c i (int d) = Some (c', True)" "wc_ok c'" "wc_limit c' = wc_limit c"
    "set (wc_set c') = set (wc_set c)" "(\<forall>cs. io cs) \<longrightarrow> wc_data c' = wc_data ?c"
    by (rule grow_entry [OF assms(1,2) ap(1-4) oo dj lim, of io]) simp_all
  show thesis
  proof (cases "d = 0")
    case False
    then have "Piece_appendWrCache io c i goff data = Some (c', d)"
      using a c'(1) by (simp add: Piece_appendWrCache_def)
    then show ?thesis using that c' ap(6) by blast
  next
    case True
    then have "Piece_appendWrCache io c i goff data = Some (?c, d)" using a by (simp add: Piece_appendWrCache_def)
    moreover have "wc_ok ?c"
    proof -
      have "wc_core ?c" by (rule wc_core_cong [of c]) (use assms(1) ap(3,4) in \<open>auto simp: wc_ok_def wc_inv_def\<close>)
      moreover have "wc_owned ?c (set (wc_set c))" by (rule wc_owned_upd [OF own assms(2) ap(1) oo dj])
      moreover have "wc_sizes ?c = wc_sizes c" using wc_sizes_upd [OF assms(2) ap(2)] True by simp
      ultimately show ?thesis using assms(1) ap(2,3) True by (simp add: wc_ok_def wc_inv_def)
    qed
    ultimately show ?thesis using that ap(6) by simp
  qed
qed

lemma Piece_clearWrCache_ok:
  assumes "wc_ok c" "i \<in> set (wc_set c)"
  obtains c' where "Piece_clearWrCache io c i = Some c'" "wc_ok c'" "set (wc_set c') = set (wc_set c)"
    and "wc_limit c' = wc_limit c" "we_set (wc_ent c' i) = []" "wc_disk c' = wc_disk c"
proof -
  obtain c1 where u: "WrDiskCache_update io c i (- int (we_size (wc_ent c i))) = Some (c1, True)"
    "wc_core c1" "set (wc_set c1) = set (wc_set c)" "wc_owned c1 (set (wc_set c))"
    "\<forall>j. we_size (wc_ent c1 j) = we_size (wc_ent c j)" "\<forall>j. we_set (wc_ent c1 j) = we_set (wc_ent c j)"
    "\<forall>j\<in>set (wc_set c). we_size (wc_ent c1 j) \<le> we_sizeKey (wc_ent c1 j)"
    "wc_mem c1 = wc_mem c" "wc_disk c1 = wc_disk c" "wc_limit c1 = wc_limit c"
    "wc_total c1 = wc_sizes c - we_size (wc_ent c i)" "wc_data c1 = wc_data c"
    by (rule update_shrink [OF assms, of io])
  let ?e = "(wc_ent c1 i)\<lparr>we_set := [], we_size := 0\<rparr>"
  let ?c = "c1\<lparr>wc_ent := (wc_ent c1)(i := ?e), wc_mem := wc_mem c1 |` (- entry_addrs (wc_ent c1 i))\<rparr>"
  have "entry_ok (wc_mem c1) (wc_ent c1 i)" using u(4) assms(2) by (simp add: wc_owned_def)
  then have "Piece_clearWrCache io c i = Some ?c" using u(1) by (simp add: Piece_clearWrCache_def deleteDataCells_ok)
  moreover have f: "flushed (\<lambda>_. False) c1 i ?c" by (simp add: flushed_def)
  have "wc_ok ?c" by (rule flushed_ok [OF assms u(2,4,3) u(5,7) [rule_format] u(10,11) f]) simp_all
  ultimately show thesis using that u(3,9,10) by simp
qed

lemma wc_owned_sub: "wc_ent c' = wc_ent c \<Longrightarrow> wc_mem c' = wc_mem c \<Longrightarrow> wc_owned c S \<Longrightarrow> S' \<subseteq> S \<Longrightarrow> wc_owned c' S'"
  unfolding wc_owned_def by (simp, meson subsetD)

lemma Piece_releaseWrCache_ok:
  assumes "wc_ok c" "i \<in> set (wc_set c)"
  obtains c' where "Piece_releaseWrCache c i = Some c'" "wc_ok c'" "set (wc_set c') = set (wc_set c) - {i}"
    and "wc_limit c' = wc_limit c"
proof -
  have inv: "wc_core c" "wc_owned c (set (wc_set c))" "wc_total c = wc_sizes c" "wc_total c \<le> wc_limit c" "wc_total c < 2 ^ 64"
    "\<And>j. j \<in> set (wc_set c) \<Longrightarrow> we_size (wc_ent c j) \<le> we_sizeKey (wc_ent c j)"
    using assms(1) by (simp_all add: wc_ok_def wc_inv_def)
  let ?s = "we_size (wc_ent c i)"
  have sum: "wc_sizes c = ?s + (\<Sum>j\<in>set (wc_set c) - {i}. we_size (wc_ent c j))"
    using assms(2) by (simp add: wc_sizes_def sum.remove [of _ i])
  define c1 where "c1 = fst (WrDiskCache_remove c i)"
  have c1: "c1 = c\<lparr>wc_set := filter (\<lambda>j. j \<noteq> i) (wc_set c), wc_total := wc_sizes c - ?s\<rparr>"
  proof -
    have "to_size (int (wc_total c) - int ?s) = wc_sizes c - ?s"
      using inv(3,5) sum by (subst to_size_diff) linarith+
    then show ?thesis by (simp add: c1_def WrDiskCache_remove_def erase_member [OF inv(1) assms(2)])
  qed
  let ?e = "(wc_ent c i)\<lparr>we_set := [], we_size := 0\<rparr>"
  let ?c = "c1\<lparr>wc_ent := (wc_ent c)(i := ?e), wc_mem := wc_mem c |` (- entry_addrs (wc_ent c i))\<rparr>"
  have f: "flushed (\<lambda>_. False) c i (c\<lparr>wc_ent := (wc_ent c)(i := ?e), wc_mem := wc_mem c |` (- entry_addrs (wc_ent c i))\<rparr>)"
    by (simp add: flushed_def)
  have S: "set (wc_set ?c) = set (wc_set c) - {i}" by (auto simp: c1)
  have "entry_ok (wc_mem c) (wc_ent c i)" using inv(2) assms(2) by (simp add: wc_owned_def)
  then have r: "Piece_releaseWrCache c i = Some ?c"
    by (simp add: Piece_releaseWrCache_def c1_def [symmetric]) (simp add: c1 deleteDataCells_ok)
  have core: "wc_core ?c"
  proof (rule wc_core_cong [of "c\<lparr>wc_set := filter (\<lambda>j. j \<noteq> i) (wc_set c)\<rparr>"])
    show "wc_core (c\<lparr>wc_set := filter (\<lambda>j. j \<noteq> i) (wc_set c)\<rparr>)"
      using inv(1) by (auto simp: wc_core_def by_key_filter inj_on_def)
  qed (auto simp: c1)
  have own: "wc_owned ?c (set (wc_set ?c))"
    by (rule wc_owned_sub [OF _ _ flushed_owned [OF f inv(2) assms(2)]]) (simp_all add: c1)
  have "wc_sizes ?c = (\<Sum>j\<in>set (wc_set c) - {i}. we_size (wc_ent c j))"
    unfolding wc_sizes_def S by (rule sum.cong) auto
  then have tot: "wc_total ?c = wc_sizes ?c" using sum by (simp add: c1)
  have key: "we_size (wc_ent ?c j) \<le> we_sizeKey (wc_ent ?c j)" if "j \<in> set (wc_set ?c)" for j
    using that inv(6) [of j] unfolding S by simp
  have "wc_total ?c \<le> wc_limit ?c" "wc_total ?c < 2 ^ 64" using inv(3-5) by (simp_all add: c1)
  then have "wc_ok ?c" using core own tot key by (simp only: wc_ok_def wc_inv_def) blast
  moreover have "wc_limit ?c = wc_limit c" by (simp add: c1)
  ultimately show thesis using that r S by blast
qed

lemma Piece_initWrCache_ok:
  assumes "wc_ok c" "i \<notin> set (wc_set c)"
  obtains c' where "Piece_initWrCache io c i = Some c'" "wc_ok c'" "set (wc_set c') = insert i (set (wc_set c))"
    and "wc_limit c' = wc_limit c"
proof -
  let ?c = "c\<lparr>wc_ent := (wc_ent c)(i := WrDiskCacheEntry_new)\<rparr>"
  have inv: "wc_core c" "wc_owned c (set (wc_set c))" "wc_total c = wc_sizes c" "wc_total c \<le> wc_limit c" "wc_total c < 2 ^ 64"
    "\<And>j. j \<in> set (wc_set c) \<Longrightarrow> we_size (wc_ent c j) \<le> we_sizeKey (wc_ent c j)"
    using assms(1) by (simp_all add: wc_ok_def wc_inv_def)
  have ne: "j \<noteq> i" if "j \<in> set (wc_set c)" for j using assms(2) that by auto
  have core: "wc_core ?c" by (rule wc_core_cong [OF inv(1)]) (use ne in auto)
  define c2 where "c2 = fst (WrDiskCache_insert (WrDiskCache_touch ?c i) i)"
  have ni: "i \<notin> set (wc_set ?c)" using assms(2) by simp
  note ti = touch_insert [OF core ni, folded c2_def]
  have e: "wc_ent c2 i = WrDiskCacheEntry_new\<lparr>we_lastUpdate := wc_clock c + 1\<rparr>"
    using ti(4) by (simp add: WrDiskCacheEntry_new_def)
  have o: "wc_ent c2 j = wc_ent c j" if "j \<in> set (wc_set c)" for j using ti(4) ne [OF that] by simp
  have S: "set (wc_set c2) = insert i (set (wc_set c))" using ti(3) by simp
  have "wc_sizes c2 = wc_sizes c"
    using assms(2) e o by (simp add: wc_sizes_def S WrDiskCacheEntry_new_def)
  moreover have "wc_owned c2 (insert i (set (wc_set c)))"
    using inv(2) e o ti(5) by (auto simp: wc_owned_def entry_ok_def entry_addrs_def WrDiskCacheEntry_new_def)
  moreover have "we_size (wc_ent c2 j) \<le> we_sizeKey (wc_ent c2 j)" if "j \<in> insert i (set (wc_set c))" for j
    using that inv(6) e o by (auto simp: WrDiskCacheEntry_new_def)
  ultimately have ok: "wc_ok c2"
    using ti(2,7,8) inv(3-5) by (simp add: wc_ok_def wc_inv_def S)
  have "c2\<lparr>wc_total := wc_total c2 + we_size (wc_ent c2 i)\<rparr> = c2" using e by (simp add: WrDiskCacheEntry_new_def)
  then have "WrDiskCache_add io ?c i = Some (c2, True)"
    using ti(1) ok by (simp add: WrDiskCache_add_def Let_def split_def c2_def [symmetric] ensureLimit_within wc_ok_def)
  then have "Piece_initWrCache io c i = Some c2" by (simp add: Piece_initWrCache_def)
  then show thesis using that ok S ti(8) by simp
qed

subsection \<open>Every sequence of operations\<close>

text \<open>
  The operations as events, and what their callers must observe: a new piece gets a new entry, a
  cell brings its own live buffer and a file offset that the piece has not cached, and the
  memory the cache may use at most stays below \<open>2 ^ 64\<close>.
\<close>

datatype cache_event =
    InitEntry nat | CacheCell nat cell | AppendData nat int "byte list" | FlushEntry nat
  | ClearEntry nat | ReleaseEntry nat | AllocBuffer nat "byte list"

fun cache_apply :: "(cell list \<Rightarrow> bool) \<Rightarrow> cache_event \<Rightarrow> wr_cache \<Rightarrow> wr_cache option" where
  "cache_apply io (InitEntry i) c = Piece_initWrCache io c i"
| "cache_apply io (CacheCell i x) c = Piece_updateWrCache io c i x"
| "cache_apply io (AppendData i goff data) c = map_option fst (Piece_appendWrCache io c i goff data)"
| "cache_apply io (FlushEntry i) c = Piece_flushWrCache io c i"
| "cache_apply io (ClearEntry i) c = Piece_clearWrCache io c i"
| "cache_apply io (ReleaseEntry i) c = Piece_releaseWrCache c i"
| "cache_apply io (AllocBuffer a bs) c = Some (c\<lparr>wc_mem := (wc_mem c)(a \<mapsto> bs)\<rparr>)"

fun cache_event_ok :: "cache_event \<Rightarrow> wr_cache \<Rightarrow> bool" where
  "cache_event_ok (InitEntry i) c \<longleftrightarrow> i \<notin> set (wc_set c)"
| "cache_event_ok (CacheCell i x) c \<longleftrightarrow> i \<in> set (wc_set c) \<and> cell_live (wc_mem c) x
     \<and> (\<forall>j\<in>set (wc_set c). cell_data x \<notin> entry_addrs (wc_ent c j))
     \<and> (\<forall>y\<in>set (we_set (wc_ent c i)). cell_goff y \<noteq> cell_goff x) \<and> wc_limit c + cell_len x < 2 ^ 64"
| "cache_event_ok (AppendData i goff data) c \<longleftrightarrow> i \<in> set (wc_set c) \<and> wc_limit c + length data < 2 ^ 64"
| "cache_event_ok (FlushEntry i) c \<longleftrightarrow> i \<in> set (wc_set c)"
| "cache_event_ok (ClearEntry i) c \<longleftrightarrow> i \<in> set (wc_set c)"
| "cache_event_ok (ReleaseEntry i) c \<longleftrightarrow> i \<in> set (wc_set c)"
| "cache_event_ok (AllocBuffer a bs) c \<longleftrightarrow> wc_mem c a = None"

lemma alloc_ok:
  assumes "wc_ok c" "wc_mem c a = None" shows "wc_ok (c\<lparr>wc_mem := (wc_mem c)(a \<mapsto> bs)\<rparr>)"
proof -
  have live: "cell_live ((wc_mem c)(a \<mapsto> bs)) x" if "cell_live (wc_mem c) x" for x
    using assms(2) that by (auto simp: cell_live_def)
  have "wc_core (c\<lparr>wc_mem := (wc_mem c)(a \<mapsto> bs)\<rparr>)"
    by (rule wc_core_cong [of c]) (use assms(1) in \<open>simp_all add: wc_ok_def wc_inv_def\<close>)
  moreover have "entry_ok ((wc_mem c)(a \<mapsto> bs)) e" if "entry_ok (wc_mem c) e" for e
    using that live by (simp add: entry_ok_def)
  ultimately show ?thesis using assms(1) by (simp add: wc_ok_def wc_inv_def wc_owned_def wc_sizes_def)
qed

lemma cache_apply_ok:
  assumes "wc_ok c" "cache_event_ok e c"
  shows "\<exists>c'. cache_apply io e c = Some c' \<and> wc_ok c' \<and> wc_limit c' = wc_limit c"
proof (cases e)
  case (InitEntry i)
  then show ?thesis using assms by (auto elim: Piece_initWrCache_ok [of c i io])
next
  case (CacheCell i x)
  then have p: "i \<in> set (wc_set c)" "cell_live (wc_mem c) x"
    "\<And>j. j \<in> set (wc_set c) \<Longrightarrow> cell_data x \<notin> entry_addrs (wc_ent c j)"
    "\<forall>y\<in>set (we_set (wc_ent c i)). cell_goff y \<noteq> cell_goff x" "wc_limit c + cell_len x < 2 ^ 64"
    using assms(2) by auto
  show ?thesis by (rule Piece_updateWrCache_ok [OF assms(1) p, of io]) (use CacheCell in auto)
next
  case (AppendData i goff data)
  then have p: "i \<in> set (wc_set c)" "wc_limit c + length data < 2 ^ 64" using assms(2) by auto
  show ?thesis by (rule Piece_appendWrCache_ok [OF assms(1) p, of io goff]) (use AppendData in auto)
next
  case (FlushEntry i)
  then show ?thesis using assms by (auto elim: Piece_flushWrCache_ok [of c i io])
next
  case (ClearEntry i)
  then show ?thesis using assms by (auto elim: Piece_clearWrCache_ok [of c i io])
next
  case (ReleaseEntry i)
  then show ?thesis using assms by (auto elim: Piece_releaseWrCache_ok [of c i])
next
  case (AllocBuffer a bs)
  then show ?thesis using assms alloc_ok by simp
qed

inductive cache_reach :: "(cell list \<Rightarrow> bool) \<Rightarrow> nat \<Rightarrow> wr_cache \<Rightarrow> bool" for io limit where
  init: "cache_reach io limit (WrDiskCache_new limit mem)"
| step: "cache_reach io limit c \<Longrightarrow> cache_event_ok e c \<Longrightarrow> cache_apply io e c = Some c' \<Longrightarrow> cache_reach io limit c'"

lemma cache_reach_ok: "cache_reach io limit c \<Longrightarrow> wc_ok c \<and> wc_limit c = limit"
proof (induction rule: cache_reach.induct)
  case (init mem)
  then show ?case by (simp add: WrDiskCache_new_def wc_ok_def wc_inv_def wc_core_def by_key_def wc_owned_def wc_sizes_def)
next
  case (step c e c')
  then show ?case using cache_apply_ok [of c e io] by auto
qed

subsection \<open>Properties\<close>

text \<open>C23: Under any sequence of the pieces' cache operations that keeps to what the cache asks of its callers
  (\<open>cache_event_ok\<close>: one entry for a piece, operations only on entries that exist, each cell with an allocated buffer that no
  other cell of an entry uses and an offset at which its entry has no cell, less than \<open>2 ^ 64\<close> bytes in all), the recorded total
  is the number of bytes in the cells of the entries and stays within the limit, and every further operation that keeps to it
  succeeds: the flushing loop ends, it finds an entry to flush whenever it needs one, and no buffer is read, freed or overrun
  that is not the entry's own. A caller that hands one buffer over twice has it freed twice (\<open>Segments.shared_buffer_freed_twice\<close>).\<close>
theorem cache_stays_within_limit:
  assumes "cache_reach io limit c"
  shows "wc_total c = (\<Sum>i\<in>set (wc_set c). sum_list (map cell_len (we_set (wc_ent c i))))
    \<and> wc_total c \<le> limit \<and> (\<forall>e. cache_event_ok e c \<longrightarrow> cache_apply io e c \<noteq> None)"
proof -
  have ok: "wc_ok c" "wc_limit c = limit" using cache_reach_ok [OF assms] by auto
  then have "wc_sizes c = (\<Sum>i\<in>set (wc_set c). sum_list (map cell_len (we_set (wc_ent c i))))"
    unfolding wc_sizes_def by (intro sum.cong) (auto simp: wc_ok_def wc_inv_def wc_owned_def entry_ok_def)
  with ok cache_apply_ok [OF ok(1), of _ io] show ?thesis by (fastforce simp: wc_ok_def wc_inv_def)
qed

text \<open>A cell of two bytes with room for four is cached; then four bytes are appended, of which two fit.\<close>

theorem cache_stays_within_limit_witness:
  "\<exists>c c1. cache_apply (\<lambda>_. True) (InitEntry 0) (WrDiskCache_new 10 [7 \<mapsto> [1, 2, 0, 0]]) = Some c
     \<and> cache_apply (\<lambda>_. True) (CacheCell 0 \<lparr>cell_goff = 0, cell_data = 7, cell_offset = 0, cell_len = 2, cell_capacity = 4\<rparr>) c = Some c1
     \<and> wc_total c1 = 2 \<and> wc_total c1 \<le> 10 \<and> cache_apply (\<lambda>_. True) (AppendData 0 2 [3, 4, 5, 6]) c1 \<noteq> None"
proof -
  let ?c0 = "WrDiskCache_new 10 [7 \<mapsto> [1, 2, 0, 0]]"
  let ?x = "\<lparr>cell_goff = 0, cell_data = 7, cell_offset = 0, cell_len = 2, cell_capacity = 4\<rparr>"
  have r0: "cache_reach (\<lambda>_. True) 10 ?c0" by (rule cache_reach.init)
  obtain c where c: "Piece_initWrCache (\<lambda>_. True) ?c0 0 = Some c" "wc_set c = [0]" "wc_total c = 0"
    "we_set (wc_ent c 0) = []" "we_size (wc_ent c 0) = 0" "wc_mem c = [7 \<mapsto> [1, 2, 0, 0]]" "wc_limit c = 10"
    by (simp add: Piece_initWrCache_def WrDiskCache_add_def WrDiskCache_touch_def WrDiskCache_insert_def
        WrDiskCache_new_def WrDiskCacheEntry_new_def ensureLimit_within)
  have e0: "cache_event_ok (InitEntry 0) ?c0" by (simp add: WrDiskCache_new_def)
  have r: "cache_reach (\<lambda>_. True) 10 c" by (rule cache_reach.step [OF r0 e0]) (simp add: c(1))
  have e: "cache_event_ok (CacheCell 0 ?x) c" using c by (simp add: cell_live_def entry_addrs_def)
  obtain c1 where c1: "Piece_updateWrCache (\<lambda>_. True) c 0 ?x = Some c1" "wc_set c1 = [0]" "we_set (wc_ent c1 0) = [?x]" "wc_limit c1 = 10"
    using c(2-) by (simp add: Piece_updateWrCache_def WrDiskCacheEntry_cacheData_def WrDiskCache_update_def WrDiskCache_erase_def
        WrDiskCache_touch_def WrDiskCache_insert_def set_equiv_def WrDiskCacheEntry_less_def to_size_def ensureLimit_within)
  have r1: "cache_reach (\<lambda>_. True) 10 c1" by (rule cache_reach.step [OF r e]) (simp add: c1(1))
  have ev: "cache_event_ok (AppendData 0 2 [3, 4, 5, 6]) c1" using c1 by simp
  note t = cache_stays_within_limit [OF r1]
  have n: "cache_apply (\<lambda>_. True) (AppendData 0 2 [3, 4, 5, 6]) c1 \<noteq> None" using t ev by blast
  have "wc_total c1 = 2" "wc_total c1 \<le> 10" using t c1(2,3) by simp_all
  then show ?thesis by (intro exI [where x = c, OF exI [where x = c1]]) (use c(1) c1(1) n in simp)
qed

text \<open>C24: Eviction loses nothing. When the writes succeed, caching a cell leaves on disk or in the
  cache exactly what was there before and the new bytes at their file offset, however many
  entries the limit forces out; flushing an entry keeps everything and empties the entry.\<close>
theorem eviction_keeps_data:
  assumes "cache_reach io limit c" "\<forall>cs. io cs"
  shows "(cache_event_ok (CacheCell i x) c \<longrightarrow> (\<exists>c'. cache_apply io (CacheCell i x) c = Some c'
      \<and> wc_data c' = insert (cell_goff x, the (cell_bytes (wc_mem c) x)) (wc_data c)))
    \<and> (cache_event_ok (FlushEntry i) c \<longrightarrow> (\<exists>c'. cache_apply io (FlushEntry i) c = Some c'
      \<and> wc_data c' = wc_data c \<and> we_set (wc_ent c' i) = []))"
proof (intro conjI impI)
  have ok: "wc_ok c" using cache_reach_ok [OF assms(1)] by simp
  show "\<exists>c'. cache_apply io (CacheCell i x) c = Some c'
      \<and> wc_data c' = insert (cell_goff x, the (cell_bytes (wc_mem c) x)) (wc_data c)"
    if ev: "cache_event_ok (CacheCell i x) c"
  proof -
    from ev have p: "i \<in> set (wc_set c)" "cell_live (wc_mem c) x"
      "\<And>j. j \<in> set (wc_set c) \<Longrightarrow> cell_data x \<notin> entry_addrs (wc_ent c j)"
      "\<forall>y\<in>set (we_set (wc_ent c i)). cell_goff y \<noteq> cell_goff x" "wc_limit c + cell_len x < 2 ^ 64" by auto
    show ?thesis by (rule Piece_updateWrCache_ok [OF ok p, of io]) (use assms(2) in auto)
  qed
  show "\<exists>c'. cache_apply io (FlushEntry i) c = Some c' \<and> wc_data c' = wc_data c \<and> we_set (wc_ent c' i) = []"
    if "cache_event_ok (FlushEntry i) c"
    using assms(2) that by (auto elim: Piece_flushWrCache_ok [OF ok, of i io])
qed

theorem eviction_keeps_data_witness:
  "\<exists>c c'. cache_apply (\<lambda>_. True) (InitEntry 0) (WrDiskCache_new 2 [7 \<mapsto> [1, 2, 3]]) = Some c
     \<and> cache_apply (\<lambda>_. True) (CacheCell 0 \<lparr>cell_goff = 0, cell_data = 7, cell_offset = 0, cell_len = 3, cell_capacity = 3\<rparr>) c = Some c'
     \<and> wc_data c' = insert (0, [1, 2, 3]) (wc_data c)"
proof -
  let ?c0 = "WrDiskCache_new 2 [7 \<mapsto> [1, 2, 3]]"
  let ?x = "\<lparr>cell_goff = 0, cell_data = 7, cell_offset = 0, cell_len = 3, cell_capacity = 3\<rparr>"
  have r0: "cache_reach (\<lambda>_. True) 2 ?c0" by (rule cache_reach.init)
  have ok0: "wc_ok ?c0" using cache_reach_ok [OF r0] by simp
  obtain c where c: "Piece_initWrCache (\<lambda>_. True) ?c0 0 = Some c" "set (wc_set c) = {0}"
    "we_set (wc_ent c 0) = []" "wc_mem c = [7 \<mapsto> [1, 2, 3]]" "wc_limit c = 2"
    by (simp add: Piece_initWrCache_def WrDiskCache_add_def WrDiskCache_touch_def WrDiskCache_insert_def
        WrDiskCache_new_def WrDiskCacheEntry_new_def ensureLimit_within)
  have e0: "cache_event_ok (InitEntry 0) ?c0" by (simp add: WrDiskCache_new_def)
  have r: "cache_reach (\<lambda>_. True) 2 c" by (rule cache_reach.step [OF r0 e0]) (simp add: c(1))
  have e: "cache_event_ok (CacheCell 0 ?x) c" using c by (simp add: cell_live_def entry_addrs_def)
  have b: "the (cell_bytes (wc_mem c) ?x) = [1, 2, 3]" using c(4) by (simp add: cell_bytes_def)
  have io: "\<forall>cs. (\<lambda>_ :: cell list. True) cs" by simp
  from eviction_keeps_data [OF r io, of 0 ?x] e b c(1) show ?thesis by auto
qed

end
