(* ===== verification/Pieces.thy ===== *)
theory Pieces
  imports Bitfield_Search Disk_Cache
begin

text \<open>
  \<open>Piece\<close>: the blocks of one piece, the connections that use it, its running hash and its write
  cache entry. The default constructor leaves \<open>bitfield_\<close> null; an operation that
  dereferences it returns \<open>None\<close>. The hash context is the list of bytes fed to it so far, the
  hash function a parameter \<open>digest\<close> (hash type and bytes to raw digest).
\<close>

subsection \<open>State and construction\<close>

record piece =
  pc_bitfield :: "bitfield_man option"
  pc_wrCache :: "nat option"
  pc_mdctx :: "byte list option"
  pc_users :: "int list"
  pc_hashType :: string
  pc_index :: nat
  pc_length :: int
  pc_nextBegin :: int
  pc_usedBySegment :: bool
  pc_requested_count :: u16

definition BLOCK_LENGTH :: int where
  "BLOCK_LENGTH = 16 * 1024"

definition Piece_empty :: piece where
  "Piece_empty = \<lparr>pc_bitfield = None, pc_wrCache = None, pc_mdctx = None, pc_users = [], pc_hashType = [],
     pc_index = 0, pc_length = 0, pc_nextBegin = 0, pc_usedBySegment = False, pc_requested_count = 0\<rparr>"

definition Piece_new :: "nat \<Rightarrow> int \<Rightarrow> int \<Rightarrow> piece" where
  "Piece_new index len blockLength =
     Piece_empty\<lparr>pc_bitfield := Some (BitfieldMan_new blockLength len), pc_index := index, pc_length := len\<rparr>"

subsection \<open>Blocks\<close>

definition Piece_completeBlock :: "piece \<Rightarrow> nat \<Rightarrow> piece option" where
  "Piece_completeBlock p blockIndex = map_option (\<lambda>b.
     p\<lparr>pc_bitfield := Some (fst (BitfieldMan_unsetUseBit (fst (BitfieldMan_setBit b blockIndex)) blockIndex)),
       pc_requested_count := pc_requested_count p - 1\<rparr>) (pc_bitfield p)"

definition Piece_cancelBlock :: "piece \<Rightarrow> nat \<Rightarrow> piece option" where
  "Piece_cancelBlock p blockIndex = map_option (\<lambda>b.
     p\<lparr>pc_bitfield := Some (fst (BitfieldMan_unsetUseBit b blockIndex)),
       pc_requested_count := pc_requested_count p - 1\<rparr>) (pc_bitfield p)"

text \<open>The part of \<open>clearAllBlock\<close> on the piece; the cache part is \<open>Piece_clearWrCache\<close>.\<close>

definition Piece_clearAllBlock :: "piece \<Rightarrow> piece option" where
  "Piece_clearAllBlock p = map_option (\<lambda>b.
     p\<lparr>pc_bitfield := Some (BitfieldMan_clearAllUseBit (BitfieldMan_clearAllBit b)),
       pc_requested_count := 0\<rparr>) (pc_bitfield p)"

definition Piece_setAllBlock :: "piece \<Rightarrow> piece option" where
  "Piece_setAllBlock p = map_option (\<lambda>b. p\<lparr>pc_bitfield := Some (BitfieldMan_setAllBit b)\<rparr>) (pc_bitfield p)"

definition Piece_setBitfield :: "piece \<Rightarrow> byte list \<Rightarrow> nat \<Rightarrow> piece option" where
  "Piece_setBitfield p bitfield len =
     map_option (\<lambda>b. p\<lparr>pc_bitfield := Some (BitfieldMan_setBitfield b bitfield len)\<rparr>) (pc_bitfield p)"

definition Piece_pieceComplete :: "piece \<Rightarrow> bool option" where
  "Piece_pieceComplete p = map_option BitfieldMan_isAllBitSet (pc_bitfield p)"

definition Piece_countBlock :: "piece \<Rightarrow> nat option" where
  "Piece_countBlock p = map_option bm_blocks (pc_bitfield p)"

definition Piece_getBlockLength :: "piece \<Rightarrow> nat \<Rightarrow> int option" where
  "Piece_getBlockLength p index = map_option (\<lambda>b. BitfieldMan_getBlockLength b index) (pc_bitfield p)"

definition Piece_isBlockUsed :: "piece \<Rightarrow> nat \<Rightarrow> bool option" where
  "Piece_isBlockUsed p index = map_option (\<lambda>b. BitfieldMan_isUseBitSet b index) (pc_bitfield p)"

definition Piece_hasBlock :: "piece \<Rightarrow> nat \<Rightarrow> bool option" where
  "Piece_hasBlock p index = map_option (\<lambda>b. BitfieldMan_isBitSet b index) (pc_bitfield p)"

definition Piece_countMissingBlock :: "piece \<Rightarrow> nat option" where
  "Piece_countMissingBlock p = map_option bm_cachedNumMissingBlock (pc_bitfield p)"

definition Piece_countCompleteBlock :: "piece \<Rightarrow> nat option" where
  "Piece_countCompleteBlock p = map_option (\<lambda>b. bm_blocks b - bm_cachedNumMissingBlock b) (pc_bitfield p)"

definition Piece_getCompletedLength :: "piece \<Rightarrow> int option" where
  "Piece_getCompletedLength p = map_option bm_cachedCompletedLength (pc_bitfield p)"

text \<open>One missing, unused block: it is marked in use and counted.\<close>

definition Piece_getMissingUnusedBlockIndex :: "piece \<Rightarrow> (piece \<times> nat option) option" where
  "Piece_getMissingUnusedBlockIndex p =
     (case pc_bitfield p of
        None \<Rightarrow> None
      | Some b \<Rightarrow>
         (case BitfieldMan_getFirstMissingUnusedIndex b of
            None \<Rightarrow> Some (p, None)
          | Some i \<Rightarrow> Some (p\<lparr>pc_bitfield := Some (fst (BitfieldMan_setUseBit b i)),
                               pc_requested_count := pc_requested_count p + 1\<rparr>, Some i)))"

text \<open>At most \<open>n\<close> of them; the result is the list of the retrieved blocks.\<close>

definition Piece_getMissingUnusedBlockIndexes :: "piece \<Rightarrow> nat \<Rightarrow> (piece \<times> nat list) option" where
  "Piece_getMissingUnusedBlockIndexes p n =
     (case pc_bitfield p of
        None \<Rightarrow> None
      | Some b \<Rightarrow>
          let is = BitfieldMan_getFirstNMissingUnusedIndex b n in
          if is = [] then Some (p, [])
          else Some (p\<lparr>pc_bitfield := Some (fold (\<lambda>i b. fst (BitfieldMan_setUseBit b i)) is b),
                       pc_requested_count := pc_requested_count p + of_nat (length is)\<rparr>, is))"

definition Piece_getFirstMissingBlockIndexWithoutLock :: "piece \<Rightarrow> nat option option" where
  "Piece_getFirstMissingBlockIndexWithoutLock p = map_option BitfieldMan_getFirstMissingIndex (pc_bitfield p)"

definition Piece_reconfigure :: "piece \<Rightarrow> int \<Rightarrow> piece" where
  "Piece_reconfigure p len = p\<lparr>pc_length := len, pc_bitfield := Some (BitfieldMan_new (2 ^ 31 - 1) len),
     pc_requested_count := 0\<rparr>"

subsection \<open>Users\<close>

definition Piece_usedBy :: "piece \<Rightarrow> int \<Rightarrow> bool" where
  "Piece_usedBy p cuid \<longleftrightarrow> cuid \<in> set (pc_users p)"

definition Piece_addUser :: "piece \<Rightarrow> int \<Rightarrow> piece" where
  "Piece_addUser p cuid = (if cuid \<in> set (pc_users p) then p else p\<lparr>pc_users := pc_users p @ [cuid]\<rparr>)"

definition Piece_removeUser :: "piece \<Rightarrow> int \<Rightarrow> piece" where
  "Piece_removeUser p cuid = p\<lparr>pc_users := removeAll cuid (pc_users p)\<rparr>"

definition Piece_getUsed :: "piece \<Rightarrow> bool" where
  "Piece_getUsed p \<longleftrightarrow> pc_users p \<noteq> []"

subsection \<open>The running hash\<close>

definition Piece_updateHash :: "piece \<Rightarrow> int \<Rightarrow> byte list \<Rightarrow> piece \<times> bool" where
  "Piece_updateHash p begin data =
     (if pc_hashType p = [] then (p, False)
      else if begin = pc_nextBegin p \<and> pc_nextBegin p + int (length data) \<le> pc_length p
      then (p\<lparr>pc_mdctx := Some ((case pc_mdctx p of None \<Rightarrow> [] | Some m \<Rightarrow> m) @ data),
              pc_nextBegin := pc_nextBegin p + int (length data)\<rparr>, True)
      else (p, False))"

definition Piece_isHashCalculated :: "piece \<Rightarrow> bool" where
  "Piece_isHashCalculated p \<longleftrightarrow> pc_mdctx p \<noteq> None \<and> pc_nextBegin p = pc_length p"

definition Piece_destroyHashContext :: "piece \<Rightarrow> piece" where
  "Piece_destroyHashContext p = p\<lparr>pc_mdctx := None, pc_nextBegin := 0\<rparr>"

definition Piece_getDigest :: "(string \<Rightarrow> byte list \<Rightarrow> byte list) \<Rightarrow> piece \<Rightarrow> piece \<times> byte list" where
  "Piece_getDigest digest p =
     (case pc_mdctx p of
        None \<Rightarrow> (p, [])
      | Some m \<Rightarrow> (Piece_destroyHashContext p, digest (pc_hashType p) m))"

text \<open>
  The hash over the cached cells and, between them, the disk. \<open>readData n offset\<close> is what the
  disk adaptor reads; a short read raises. The result is the bytes fed to the context, and the
  exception is \<open>None\<close>. The lengths are passed as \<open>size_t\<close>.
\<close>

fun read_chunks :: "(nat \<Rightarrow> int \<Rightarrow> byte list) \<Rightarrow> int \<Rightarrow> nat \<Rightarrow> (byte list \<times> int) option" where
  "read_chunks readData offset 0 = Some ([], offset)"
| "read_chunks readData offset (Suc j) =
     (let bs = readData 4096 offset in
      if length bs \<noteq> 4096 then None
      else case read_chunks readData (offset + 4096) j of
             None \<Rightarrow> None
           | Some (rest, off') \<Rightarrow> Some (bs @ rest, off'))"

definition updateHashWithRead :: "(nat \<Rightarrow> int \<Rightarrow> byte list) \<Rightarrow> int \<Rightarrow> nat \<Rightarrow> byte list option" where
  "updateHashWithRead readData offset len =
     (case read_chunks readData offset (len div 4096) of
        None \<Rightarrow> None
      | Some (bs, off') \<Rightarrow>
          if len mod 4096 = 0 then Some bs
          else let r = readData (len mod 4096) off' in
               if length r \<noteq> len mod 4096 then None else Some (bs @ r))"

fun hash_cells :: "(nat \<Rightarrow> int \<Rightarrow> byte list) \<Rightarrow> memory \<Rightarrow> cell list \<Rightarrow> int \<Rightarrow> (byte list \<times> int) option" where
  "hash_cells readData mem [] goff = Some ([], goff)"
| "hash_cells readData mem (d # ds) goff =
     (case (if goff < cell_goff d then updateHashWithRead readData goff (to_size (cell_goff d - goff)) else Some []) of
        None \<Rightarrow> None
      | Some gap \<Rightarrow>
         (case cell_bytes mem d of
            None \<Rightarrow> None
          | Some bs \<Rightarrow>
             (case hash_cells readData mem ds (cell_goff d + int (cell_len d)) of
                None \<Rightarrow> None
              | Some (rest, goff') \<Rightarrow> Some (gap @ bs @ rest, goff'))))"

definition Piece_getDigestWithWrCache ::
    "(string \<Rightarrow> byte list \<Rightarrow> byte list) \<Rightarrow> (nat \<Rightarrow> int \<Rightarrow> byte list) \<Rightarrow> wr_cache \<Rightarrow> piece \<Rightarrow> nat \<Rightarrow> byte list option" where
  "Piece_getDigestWithWrCache digest readData c p pieceLength =
     (let start = int (pc_index p) * int pieceLength in
      map_option (digest (pc_hashType p))
       (case pc_wrCache p of
          Some i \<Rightarrow>
           (case hash_cells readData (wc_mem c) (we_set (wc_ent c i)) start of
              None \<Rightarrow> None
            | Some (bs, goff) \<Rightarrow>
                map_option (\<lambda>r. bs @ r) (updateHashWithRead readData goff (to_size (start + pc_length p - goff))))
        | None \<Rightarrow> updateHashWithRead readData start (to_size (pc_length p))))"

subsection \<open>Hashing cached and stored data\<close>

definition slice :: "(int \<Rightarrow> byte) \<Rightarrow> int \<Rightarrow> nat \<Rightarrow> byte list" where
  "slice f a n = map (\<lambda>k. f (a + int k)) [0..<n]"

lemma slice_simps [simp]: "slice f a 0 = []" "length (slice f a n) = n"
  by (simp_all add: slice_def)

lemma slice_append: "slice f a (m + n) = slice f a m @ slice f (a + int m) n"
  by (rule nth_equalityI) (auto simp: slice_def nth_append of_nat_diff)

lemma slice_cong: "(\<And>k. k < n \<Longrightarrow> f (a + int k) = g (a + int k)) \<Longrightarrow> slice f a n = slice g a n"
  by (simp add: slice_def)

lemma slice_eqI: "length bs = n \<Longrightarrow> (\<And>k. k < n \<Longrightarrow> bs ! k = f (a + int k)) \<Longrightarrow> slice f a n = bs"
  by (simp add: slice_def list_eq_iff_nth_eq)

lemma read_chunks_slice:
  assumes "\<And>n off. readData n off = slice D off n"
  shows "read_chunks readData off j = Some (slice D off (4096 * j), off + 4096 * int j)"
proof (induction j arbitrary: off)
  case (Suc j)
  have "slice D off (4096 * Suc j) = slice D off 4096 @ slice D (off + 4096) (4096 * j)"
    using slice_append [of D off 4096 "4096 * j"] by simp
  then show ?case using assms Suc by simp
qed simp

lemma updateHashWithRead_slice:
  assumes "\<And>n off. readData n off = slice D off n"
  shows "updateHashWithRead readData off len = Some (slice D off len)"
proof -
  have "slice D off len = slice D off (4096 * (len div 4096)) @ slice D (off + int (4096 * (len div 4096))) (len mod 4096)"
    by (subst slice_append [symmetric]) simp
  then show ?thesis using assms
    by (simp add: updateHashWithRead_def read_chunks_slice [OF assms] Let_def)
qed

text \<open>Cells that lie one after the other in \<open>[g, e]\<close>.\<close>

fun cells_within :: "int \<Rightarrow> cell list \<Rightarrow> int \<Rightarrow> bool" where
  "cells_within g [] e \<longleftrightarrow> g \<le> e"
| "cells_within g (d # ds) e \<longleftrightarrow> g \<le> cell_goff d \<and> cells_within (cell_goff d + int (cell_len d)) ds e"

text \<open>\<open>f\<close> is the content of the file from \<open>g\<close> on: cached bytes where there are some, else the disk.\<close>

definition effective :: "memory \<Rightarrow> (int \<Rightarrow> byte) \<Rightarrow> cell list \<Rightarrow> int \<Rightarrow> (int \<Rightarrow> byte) \<Rightarrow> bool" where
  "effective mem D ds g f \<longleftrightarrow>
     (\<forall>d\<in>set ds. \<forall>k < cell_len d. f (cell_goff d + int k) = the (cell_bytes mem d) ! k)
   \<and> (\<forall>off \<ge> g. (\<forall>d\<in>set ds. \<not> (cell_goff d \<le> off \<and> off < cell_goff d + int (cell_len d))) \<longrightarrow> f off = D off)"

lemma cells_within_ge: "cells_within g ds e \<Longrightarrow> g \<le> e \<and> (\<forall>d\<in>set ds. g \<le> cell_goff d)"
  by (induction g ds e rule: cells_within.induct) force+

lemma hash_cells_effective:
  assumes rd: "\<And>n off. readData n off = slice D off n"
    and "cells_within g ds e" "\<forall>d\<in>set ds. cell_live mem d" "effective mem D ds g f" "0 \<le> g" "e < 2 ^ 64"
  shows "\<exists>g'. g \<le> g' \<and> g' \<le> e \<and> hash_cells readData mem ds g = Some (slice f g (nat (g' - g)), g')
    \<and> (\<forall>off \<ge> g'. f off = D off)"
  using assms(2-5)
proof (induction ds arbitrary: g)
  case Nil
  then show ?case by (auto simp: effective_def intro!: exI [of _ g])
next
  case (Cons d ds)
  let ?n = "cell_goff d + int (cell_len d)"
  have w: "g \<le> cell_goff d" "cells_within ?n ds e" using Cons.prems(1) by auto
  have after: "?n \<le> cell_goff d'" if "d' \<in> set ds" for d' using cells_within_ge [OF w(2)] that by blast
  have "effective mem D ds ?n f"
    unfolding effective_def
  proof (intro conjI ballI allI impI)
    fix d' k assume "d' \<in> set ds" "k < cell_len d'"
    then show "f (cell_goff d' + int k) = the (cell_bytes mem d') ! k"
      using Cons.prems(3) by (simp add: effective_def)
  next
    fix off assume o: "?n \<le> off" "\<forall>d\<in>set ds. \<not> (cell_goff d \<le> off \<and> off < cell_goff d + int (cell_len d))"
    then show "f off = D off" using Cons.prems(3) w(1) by (auto simp: effective_def)
  qed
  then obtain g' where g': "?n \<le> g'" "g' \<le> e" "hash_cells readData mem ds ?n = Some (slice f ?n (nat (g' - ?n)), g')"
    "\<forall>off \<ge> g'. f off = D off"
    using Cons.IH [OF w(2)] Cons.prems(2,4) w(1) by auto
  obtain bs where bs: "cell_bytes mem d = Some bs" "length bs = cell_len d"
    using Cons.prems(2) by (auto elim: cell_live_bytes)
  have cell: "slice f (cell_goff d) (cell_len d) = bs"
    by (rule slice_eqI) (use bs Cons.prems(3) in \<open>auto simp: effective_def\<close>)
  have gap: "slice f g (nat (cell_goff d - g)) = slice D g (nat (cell_goff d - g))"
  proof (rule slice_cong)
    fix k assume k: "k < nat (cell_goff d - g)"
    have "g + int k < cell_goff d" using k by linarith
    then have "\<not> (cell_goff d' \<le> g + int k \<and> g + int k < cell_goff d' + int (cell_len d'))" if "d' \<in> set (d # ds)" for d'
      using that after by force
    then show "f (g + int k) = D (g + int k)" using Cons.prems(3) by (simp add: effective_def)
  qed
  have lens: "nat (g' - g) = nat (cell_goff d - g) + (cell_len d + nat (g' - ?n))" using w(1) g'(1) by simp
  have "slice f g (nat (g' - g)) = slice D g (nat (cell_goff d - g)) @ bs @ slice f ?n (nat (g' - ?n))"
    unfolding lens slice_append gap cell using w(1) by (simp add: cell)
  moreover have "to_size (cell_goff d - g) = nat (cell_goff d - g)"
    using w(1) g'(1,2) assms(6) Cons.prems(4) by (intro to_size_nonneg) linarith+
  ultimately have "hash_cells readData mem (d # ds) g = Some (slice f g (nat (g' - g)), g')"
    using g'(3) bs(1) w(1) by (auto simp: updateHashWithRead_slice [OF rd])
  then show ?case using g' w(1) by (intro exI [of _ g']) auto
qed

lemma getDigestWithWrCache_effective:
  assumes rd: "\<And>n off. readData n off = slice D off n"
    and c: "pc_wrCache p = Some i" "\<forall>d\<in>set (we_set (wc_ent c i)). cell_live (wc_mem c) d"
    and s: "s = int (pc_index p) * int pieceLength" "0 \<le> pc_length p" "s + pc_length p < 2 ^ 64"
    and w: "cells_within s (we_set (wc_ent c i)) (s + pc_length p)"
    and f: "effective (wc_mem c) D (we_set (wc_ent c i)) s f"
  shows "Piece_getDigestWithWrCache digest readData c p pieceLength
    = Some (digest (pc_hashType p) (slice f s (nat (pc_length p))))"
proof -
  have s0: "0 \<le> s" by (simp add: s(1))
  obtain g' where g': "s \<le> g'" "g' \<le> s + pc_length p"
    "hash_cells readData (wc_mem c) (we_set (wc_ent c i)) s = Some (slice f s (nat (g' - s)), g')"
    "\<forall>off \<ge> g'. f off = D off"
    using hash_cells_effective [OF rd w c(2) f s0 s(3)] by blast
  have t: "to_size (s + pc_length p - g') = nat (s + pc_length p - g')"
    using g'(1,2) s(2,3) s0 by (intro to_size_nonneg) linarith+
  have "slice D g' (nat (s + pc_length p - g')) = slice f g' (nat (s + pc_length p - g'))"
    by (rule slice_cong) (use g'(4) in simp)
  moreover have "nat (pc_length p) = nat (g' - s) + nat (s + pc_length p - g')" using g'(1,2) by linarith
  ultimately have "slice f s (nat (pc_length p)) = slice f s (nat (g' - s)) @ slice D g' (nat (s + pc_length p - g'))"
    using g'(1) by (simp add: slice_append)
  then show ?thesis using g'(3) c(1) t
    by (simp add: Piece_getDigestWithWrCache_def Let_def s(1) [symmetric] updateHashWithRead_slice [OF rd])
qed

subsection \<open>The running hash\<close>

text \<open>What has been hashed is the beginning of the piece's content.\<close>

definition hash_prefix :: "(int \<Rightarrow> byte) \<Rightarrow> piece \<Rightarrow> bool" where
  "hash_prefix f p \<longleftrightarrow> 0 \<le> pc_nextBegin p
     \<and> (case pc_mdctx p of None \<Rightarrow> pc_nextBegin p = 0 | Some m \<Rightarrow> m = slice f 0 (nat (pc_nextBegin p)))"

lemma updateHash_prefix:
  assumes "hash_prefix f p" "data = slice f begin (length data)"
  shows "hash_prefix f (fst (Piece_updateHash p begin data))"
proof (cases "pc_hashType p \<noteq> [] \<and> begin = pc_nextBegin p \<and> pc_nextBegin p + int (length data) \<le> pc_length p")
  case True
  let ?n = "nat (pc_nextBegin p)"
  have n: "0 \<le> pc_nextBegin p" using assms(1) by (simp add: hash_prefix_def)
  have "slice f 0 (nat (pc_nextBegin p + int (length data))) = slice f 0 ?n @ slice f begin (length data)"
    using n True by (simp add: nat_add_distrib slice_append)
  moreover have "(case pc_mdctx p of None \<Rightarrow> [] | Some m \<Rightarrow> m) = slice f 0 ?n"
    using assms(1) by (auto simp: hash_prefix_def split: option.splits)
  ultimately show ?thesis using True n assms(2) by (simp add: Piece_updateHash_def hash_prefix_def)
next
  case False
  then show ?thesis using assms(1) by (auto simp: Piece_updateHash_def)
qed

subsection \<open>Requested blocks\<close>

lemma getFirstN_unused:
  assumes "bm_layout b" "\<not> bm_filterEnabled b"
  shows "BitfieldMan_getFirstNMissingUnusedIndex b n
    = take n (filter (\<lambda>i. i \<notin> bm_have b \<and> i \<notin> bm_used b) [0..<bm_blocks b])"
proof -
  have "filter (bitfield_test (array_and (array_not (array (bm_bitfield b))) (array_not (array (bm_useBitfield b)))) (bm_blocks b))
      [0..<bm_blocks b] = filter (\<lambda>i. i \<notin> bm_have b \<and> i \<notin> bm_used b) [0..<bm_blocks b]"
    by (rule filter_cong) (auto simp: bm_have_def bm_used_def bit_set_def)
  then show ?thesis
    using assms(2) by (simp add: BitfieldMan_getFirstNMissingUnusedIndex_def getFirstNSetBitIndex_take)
qed

lemma setUseBit_filterEnabled [simp]:
  "bm_filterEnabled (fst (BitfieldMan_setUseBit b i)) = bm_filterEnabled b"
  "bm_blocks (fst (BitfieldMan_setUseBit b i)) = bm_blocks b"
  "bm_filterEnabled (fst (BitfieldMan_unsetUseBit b i)) = bm_filterEnabled b"
  "bm_filterEnabled (fst (BitfieldMan_setBit b i)) = bm_filterEnabled b"
  "bm_filterEnabled (BitfieldMan_clearAllBit b) = bm_filterEnabled b"
  "bm_filterEnabled (BitfieldMan_clearAllUseBit b) = bm_filterEnabled b"
  by (simp_all add: BitfieldMan_setUseBit_def BitfieldMan_unsetUseBit_def BitfieldMan_setBit_def
      BitfieldMan_clearAllBit_def BitfieldMan_clearAllUseBit_def split_def)

lemma fold_setUseBit:
  assumes "bm_layout b"
  defines "b' is \<equiv> fold (\<lambda>i b. fst (BitfieldMan_setUseBit b i)) is b"
  shows "bm_layout (b' is)" "bm_have (b' is) = bm_have b" "bm_filterEnabled (b' is) = bm_filterEnabled b"
    and "bm_used (b' is) = bm_used b \<union> (set is \<inter> {..<bm_blocks b})" "bm_blocks (b' is) = bm_blocks b"
proof -
  have "bm_layout (b' is) \<and> bm_have (b' is) = bm_have b \<and> bm_filterEnabled (b' is) = bm_filterEnabled b
    \<and> bm_used (b' is) = bm_used b \<union> (set is \<inter> {..<bm_blocks b}) \<and> bm_blocks (b' is) = bm_blocks b"
    unfolding b'_def using assms(1)
  proof (induction "is" arbitrary: b)
    case (Cons i "is")
    then show ?case using Cons.IH [OF BitfieldMan_setUseBit_spec(1) [OF Cons.prems, of i]]
      BitfieldMan_setUseBit_spec [OF Cons.prems, of i] by auto
  qed simp
  then show "bm_layout (b' is)" "bm_have (b' is) = bm_have b" "bm_filterEnabled (b' is) = bm_filterEnabled b"
    "bm_used (b' is) = bm_used b \<union> (set is \<inter> {..<bm_blocks b})" "bm_blocks (b' is) = bm_blocks b" by auto
qed

text \<open>
  What connections do to a piece: they ask for blocks, complete them or give them up, and a failed hash check clears
  the piece. A block that is completed or given up need not have been requested: a stream connection completes the
  blocks it has written without asking for them, and the counter is decremented all the same.
\<close>

datatype piece_event = RequestBlock | RequestBlocks nat | CompleteBlock nat | CancelBlock nat | ClearBlocks

fun piece_apply :: "piece_event \<Rightarrow> piece \<Rightarrow> piece option" where
  "piece_apply RequestBlock p = map_option fst (Piece_getMissingUnusedBlockIndex p)"
| "piece_apply (RequestBlocks n) p = map_option fst (Piece_getMissingUnusedBlockIndexes p n)"
| "piece_apply (CompleteBlock i) p = Piece_completeBlock p i"
| "piece_apply (CancelBlock i) p = Piece_cancelBlock p i"
| "piece_apply ClearBlocks p = Piece_clearAllBlock p"

definition piece_used :: "piece \<Rightarrow> nat set" where
  "piece_used p = (case pc_bitfield p of None \<Rightarrow> {} | Some b \<Rightarrow> bm_used b)"

definition piece_have :: "piece \<Rightarrow> nat set" where
  "piece_have p = (case pc_bitfield p of None \<Rightarrow> {} | Some b \<Rightarrow> bm_have b)"

text \<open>The event decrements the counter for a block that is not in use.\<close>

fun stray :: "piece_event \<Rightarrow> piece \<Rightarrow> bool" where
  "stray (CompleteBlock i) p \<longleftrightarrow> i \<notin> piece_used p"
| "stray (CancelBlock i) p \<longleftrightarrow> i \<notin> piece_used p"
| "stray _ p \<longleftrightarrow> False"

text \<open>How often that has happened since the piece was cleared.\<close>

definition strays_after :: "piece_event \<Rightarrow> piece \<Rightarrow> nat \<Rightarrow> nat" where
  "strays_after e p k = (if e = ClearBlocks then 0 else if stray e p then k + 1 else k)"

definition piece_inv :: "nat \<Rightarrow> piece \<Rightarrow> bool" where
  "piece_inv k p \<longleftrightarrow> (\<exists>b. pc_bitfield p = Some b \<and> bm_layout b \<and> \<not> bm_filterEnabled b
     \<and> bm_used b \<inter> bm_have b = {} \<and> pc_requested_count p = of_nat (card (bm_used b)) - of_nat k)"

lemma bm_used_sub: "bm_used b \<subseteq> {..<bm_blocks b}" "finite (bm_used b)"
  by (auto simp: bm_used_def bit_set_def)

lemma card_word_insert: "finite A \<Longrightarrow> i \<notin> A \<Longrightarrow> (of_nat (card (insert i A)) :: u16) = of_nat (card A) + 1"
  by simp

lemma card_word_remove:
  assumes "finite A" "i \<in> A" shows "(of_nat (card (A - {i})) :: u16) = of_nat (card A) - 1"
proof -
  have "card A = Suc (card (A - {i}))" using assms by (metis card_Suc_Diff1)
  then show ?thesis by simp
qed

lemma requestBlocks_spec:
  assumes "piece_inv k p"
  obtains p' where "Piece_getMissingUnusedBlockIndexes p n
      = Some (p', take n (filter (\<lambda>i. i \<notin> piece_have p \<and> i \<notin> piece_used p) [0..<the (Piece_countBlock p)]))"
    and "piece_inv k p'" "piece_have p' = piece_have p"
    and "piece_used p' = piece_used p \<union> set (take n (filter (\<lambda>i. i \<notin> piece_have p \<and> i \<notin> piece_used p) [0..<the (Piece_countBlock p)]))"
proof -
  obtain b where b: "pc_bitfield p = Some b" "bm_layout b" "\<not> bm_filterEnabled b" "bm_used b \<inter> bm_have b = {}"
    "pc_requested_count p = of_nat (card (bm_used b)) - of_nat k" using assms by (auto simp: piece_inv_def)
  define "is" where "is = take n (filter (\<lambda>i. i \<notin> bm_have b \<and> i \<notin> bm_used b) [0..<bm_blocks b])"
  note f = fold_setUseBit [OF b(2)]
  have first: "BitfieldMan_getFirstNMissingUnusedIndex b n = is" by (simp add: getFirstN_unused [OF b(2,3)] is_def)
  have sub: "set is \<subseteq> {..<bm_blocks b} - bm_have b - bm_used b" unfolding is_def by (auto dest: in_set_takeD)
  have d: "distinct is" unfolding is_def by simp
  let ?p = "if is = [] then p else p\<lparr>pc_bitfield := Some (fold (\<lambda>i b. fst (BitfieldMan_setUseBit b i)) is b),
      pc_requested_count := pc_requested_count p + of_nat (length is)\<rparr>"
  have c: "card (bm_used b \<union> set is) = card (bm_used b) + length is"
    using sub d bm_used_sub(2) by (subst card_Un_disjoint) (auto simp: distinct_card)
  have u: "bm_used b \<union> (set is \<inter> {..<bm_blocks b}) = bm_used b \<union> set is" using sub by auto
  have req: "Piece_getMissingUnusedBlockIndexes p n = Some (?p, is)"
    using b(1) first by (simp add: Piece_getMissingUnusedBlockIndexes_def Let_def)
  have inv: "piece_inv k ?p"
  proof (cases "is = []")
    case False
    have "(bm_used b \<union> set is) \<inter> bm_have b = {}" using b(4) sub by auto
    then show ?thesis using False b c u f by (simp add: piece_inv_def)
  qed (use assms in simp)
  have eff: "piece_have ?p = piece_have p" "piece_used ?p = piece_used p \<union> set is"
    using b(1) f(2,4) u by (simp_all add: piece_have_def piece_used_def)
  have list: "take n (filter (\<lambda>i. i \<notin> piece_have p \<and> i \<notin> piece_used p) [0..<the (Piece_countBlock p)]) = is"
    by (simp add: is_def piece_have_def piece_used_def Piece_countBlock_def b(1))
  show thesis by (rule that [of ?p]; (unfold list)?) (fact req inv eff)+
qed

lemma requestBlock_as_blocks:
  assumes "piece_inv k p"
  shows "map_option fst (Piece_getMissingUnusedBlockIndex p) = map_option fst (Piece_getMissingUnusedBlockIndexes p 1)"
proof -
  obtain b where b: "pc_bitfield p = Some b" "bm_layout b" "\<not> bm_filterEnabled b" using assms by (auto simp: piece_inv_def)
  let ?a = "array_and (array_not (array (bm_bitfield b))) (array_not (array (bm_useBitfield b)))"
  have 1: "BitfieldMan_getFirstNMissingUnusedIndex b 1 = take 1 (filter (bitfield_test ?a (bm_blocks b)) [0..<bm_blocks b])"
    using b(3) by (simp add: BitfieldMan_getFirstNMissingUnusedIndex_def getFirstNSetBitIndex_take)
  have 2: "BitfieldMan_getFirstMissingUnusedIndex b = find (bitfield_test ?a (bm_blocks b)) [0..<bm_blocks b]"
    using b(3) by (simp add: BitfieldMan_getFirstMissingUnusedIndex_def bitfield_getFirstSetBitIndex_def)
  have find: "take 1 (filter P xs) = (case find P xs of None \<Rightarrow> [] | Some x \<Rightarrow> [x])" for P and xs :: "nat list"
    by (induction xs) auto
  have "BitfieldMan_getFirstNMissingUnusedIndex b (Suc 0)
      = (case BitfieldMan_getFirstMissingUnusedIndex b of None \<Rightarrow> [] | Some i \<Rightarrow> [i])"
    using 1 unfolding 2 find by simp
  then show ?thesis
    by (cases "BitfieldMan_getFirstMissingUnusedIndex b")
      (simp_all add: Piece_getMissingUnusedBlockIndex_def Piece_getMissingUnusedBlockIndexes_def b(1) Let_def)
qed

lemma piece_apply_inv:
  assumes "piece_inv k p"
  shows "\<exists>p'. piece_apply e p = Some p' \<and> piece_inv (strays_after e p k) p'"
proof -
  obtain b where b: "pc_bitfield p = Some b" "bm_layout b" "\<not> bm_filterEnabled b" "bm_used b \<inter> bm_have b = {}"
    "pc_requested_count p = of_nat (card (bm_used b)) - of_nat k" using assms by (auto simp: piece_inv_def)
  have rb: "\<exists>p'. piece_apply (RequestBlocks n) p = Some p' \<and> piece_inv k p'" for n
    by (rule requestBlocks_spec [OF assms(1), of n]) auto
  have used: "piece_used p = bm_used b" by (simp add: piece_used_def b(1))
  have counter: "of_nat (card (bm_used b)) - of_nat k - 1
      = (of_nat (card (bm_used b - {i})) - of_nat (if i \<in> bm_used b then k else k + 1) :: u16)" for i
    using card_word_remove [OF bm_used_sub(2), of i b] by (simp add: algebra_simps)
  show ?thesis
  proof (cases e)
    case RequestBlock
    then show ?thesis using rb [of 1] requestBlock_as_blocks [OF assms(1)] by (simp add: strays_after_def)
  next
    case (RequestBlocks n)
    then show ?thesis using rb by (simp add: strays_after_def)
  next
    case (CompleteBlock i)
    let ?b = "fst (BitfieldMan_setBit b i)"
    have l: "bm_layout ?b" using b(2) by simp
    note s = BitfieldMan_setBit_spec [OF b(2), of i] and u = BitfieldMan_unsetUseBit_spec [OF l, of i]
    have "bm_used (fst (BitfieldMan_unsetUseBit ?b i)) \<inter> bm_have (fst (BitfieldMan_unsetUseBit ?b i)) = {}"
      using s(2,3) u(3,4) b(4) by auto
    then show ?thesis using CompleteBlock b s u counter [of i]
      by (simp add: Piece_completeBlock_def piece_inv_def strays_after_def used)
  next
    case (CancelBlock i)
    note u = BitfieldMan_unsetUseBit_spec [OF b(2), of i]
    have "bm_used (fst (BitfieldMan_unsetUseBit b i)) \<inter> bm_have (fst (BitfieldMan_unsetUseBit b i)) = {}"
      using u(3,4) b(4) by auto
    then show ?thesis using CancelBlock b u counter [of i]
      by (simp add: Piece_cancelBlock_def piece_inv_def strays_after_def used)
  next
    case ClearBlocks
    have l: "bm_layout (BitfieldMan_clearAllBit b)" using BitfieldMan_clearAllBit_spec(1) [OF b(2)] by (rule bm_inv_layout)
    note s = BitfieldMan_clearAllBit_spec [OF b(2)] and u = BitfieldMan_clearAllUseBit_spec [OF l]
    show ?thesis using ClearBlocks b s u bm_inv_layout [OF u(1)]
      by (simp add: Piece_clearAllBlock_def piece_inv_def strays_after_def)
  qed
qed

text \<open>\<open>k\<close> counts the stray events since the piece was made or cleared.\<close>

inductive piece_reach :: "nat \<Rightarrow> int \<Rightarrow> int \<Rightarrow> nat \<Rightarrow> piece \<Rightarrow> bool" for index len bl where
  init: "bl < 2 ^ 31 \<Longrightarrow> len < 2 ^ 63 \<Longrightarrow> piece_reach index len bl 0 (Piece_new index len bl)"
| step: "piece_reach index len bl k p \<Longrightarrow> piece_apply e p = Some p' \<Longrightarrow> piece_reach index len bl (strays_after e p k) p'"

lemma Piece_new_inv: "bl < 2 ^ 31 \<Longrightarrow> len < 2 ^ 63 \<Longrightarrow> piece_inv 0 (Piece_new index len bl)"
  using BitfieldMan_new_spec [of bl len]
  by (simp add: piece_inv_def Piece_new_def Piece_empty_def bm_inv_def)

lemma piece_reach_inv: "piece_reach index len bl k p \<Longrightarrow> piece_inv k p"
proof (induction rule: piece_reach.induct)
  case (step k p e p')
  then show ?case using piece_apply_inv [of k p e] by auto
qed (simp add: Piece_new_inv)

subsection \<open>Requesting, hashing\<close>

text \<open>What a reader sees of the file: the cached bytes where a cell covers the offset, else the disk.\<close>

definition file_view :: "memory \<Rightarrow> (int \<Rightarrow> byte) \<Rightarrow> cell list \<Rightarrow> int \<Rightarrow> byte" where
  "file_view mem D ds off =
     (case find (\<lambda>d. cell_goff d \<le> off \<and> off < cell_goff d + int (cell_len d)) ds of
        None \<Rightarrow> D off
      | Some d \<Rightarrow> the (cell_bytes mem d) ! nat (off - cell_goff d))"

lemma cells_within_find:
  assumes "cells_within g ds e" "d \<in> set ds" "k < cell_len d"
  shows "find (\<lambda>d'. cell_goff d' \<le> cell_goff d + int k \<and> cell_goff d + int k < cell_goff d' + int (cell_len d')) ds = Some d"
  using assms
proof (induction g ds e rule: cells_within.induct)
  case (2 g d' ds e)
  show ?case
  proof (cases "d = d'")
    case False
    with 2 have d: "d \<in> set ds" "cells_within (cell_goff d' + int (cell_len d')) ds e" by auto
    then have "cell_goff d' + int (cell_len d') \<le> cell_goff d" using cells_within_ge by blast
    then show ?thesis using 2 d by simp
  qed (use 2 in simp)
qed simp

lemma file_view_effective:
  assumes "cells_within g ds e"
  shows "effective mem D ds g (file_view mem D ds)"
  unfolding effective_def
proof (intro conjI ballI allI impI)
  fix d k assume "d \<in> set ds" "k < cell_len d"
  then show "file_view mem D ds (cell_goff d + int k) = the (cell_bytes mem d) ! k"
    using cells_within_find [OF assms] by (simp add: file_view_def)
next
  fix off assume "\<forall>d\<in>set ds. \<not> (cell_goff d \<le> off \<and> off < cell_goff d + int (cell_len d))"
  then have "find (\<lambda>d. cell_goff d \<le> off \<and> off < cell_goff d + int (cell_len d)) ds = None"
    by (simp add: find_None_iff)
  then show "file_view mem D ds off = D off" by (simp add: file_view_def)
qed

text \<open>\<open>getDigestWithWrCache\<close> hashes the piece as a reader sees it: every byte once, in
  order, from the write cache where a cell covers it and from the disk elsewhere, whatever cells
  there are, as long as they lie one after the other inside the piece.\<close>
theorem digest_of_cached_piece:
  assumes "\<And>n off. readData n off = slice D off n"
    and "pc_wrCache p = Some i" "\<forall>d\<in>set (we_set (wc_ent c i)). cell_live (wc_mem c) d"
    and "0 \<le> pc_length p" "int (pc_index p) * int pieceLength + pc_length p < 2 ^ 64"
    and "cells_within (int (pc_index p) * int pieceLength) (we_set (wc_ent c i))
          (int (pc_index p) * int pieceLength + pc_length p)"
  shows "Piece_getDigestWithWrCache digest readData c p pieceLength
    = Some (digest (pc_hashType p)
        (slice (file_view (wc_mem c) D (we_set (wc_ent c i))) (int (pc_index p) * int pieceLength) (nat (pc_length p))))"
  by (rule getDigestWithWrCache_effective [OF assms(1-3) refl assms(4-6) file_view_effective [OF assms(6)]])

theorem digest_of_cached_piece_witness:
  "Piece_getDigestWithWrCache (\<lambda>t bs. bs) (\<lambda>n off. slice (\<lambda>k. word_of_int k) off n)
     ((WrDiskCache_new 10 [7 \<mapsto> [200, 201]])\<lparr>wc_ent := (\<lambda>_. WrDiskCacheEntry_new
        \<lparr>we_set := [\<lparr>cell_goff = 9, cell_data = 7, cell_offset = 0, cell_len = 2, cell_capacity = 2\<rparr>]\<rparr>)\<rparr>)
     ((Piece_new 2 4 4)\<lparr>pc_wrCache := Some 0\<rparr>) 4 = Some [8, 200, 201, 11]"
proof -
  let ?c = "(WrDiskCache_new 10 [7 \<mapsto> [200, 201]])\<lparr>wc_ent := (\<lambda>_. WrDiskCacheEntry_new
        \<lparr>we_set := [\<lparr>cell_goff = 9, cell_data = 7, cell_offset = 0, cell_len = 2, cell_capacity = 2\<rparr>]\<rparr>)\<rparr>"
  let ?p = "(Piece_new 2 4 4)\<lparr>pc_wrCache := Some 0\<rparr>"
  have "Piece_getDigestWithWrCache (\<lambda>t bs. bs) (\<lambda>n off. slice (\<lambda>k. word_of_int k) off n) ?c ?p 4
    = Some (slice (file_view (wc_mem ?c) (\<lambda>k. word_of_int k) (we_set (wc_ent ?c 0))) 8 4)"
    by (subst digest_of_cached_piece [where i = 0 and D = "\<lambda>k. word_of_int k"])
      (simp_all add: Piece_new_def Piece_empty_def WrDiskCache_new_def WrDiskCacheEntry_new_def cell_live_def)
  then show ?thesis
    by (simp add: slice_def file_view_def WrDiskCache_new_def WrDiskCacheEntry_new_def cell_bytes_def upt_rec)
qed

definition updateHash_all :: "(int \<times> byte list) list \<Rightarrow> piece \<Rightarrow> piece" where
  "updateHash_all ws p = fold (\<lambda>(begin, data) p. fst (Piece_updateHash p begin data)) ws p"

lemma updateHash_keeps [simp]:
  "pc_length (fst (Piece_updateHash p b d)) = pc_length p" "pc_hashType (fst (Piece_updateHash p b d)) = pc_hashType p"
  by (simp_all add: Piece_updateHash_def)

lemma updateHash_all_prefix:
  "hash_prefix f p \<Longrightarrow> \<forall>(b, d)\<in>set ws. d = slice f b (length d) \<Longrightarrow>
   hash_prefix f (updateHash_all ws p) \<and> pc_length (updateHash_all ws p) = pc_length p
   \<and> pc_hashType (updateHash_all ws p) = pc_hashType p"
proof (induction ws arbitrary: p)
  case (Cons w ws)
  obtain b d where w: "w = (b, d)" by force
  have "hash_prefix f (fst (Piece_updateHash p b d))" using Cons.prems w by (intro updateHash_prefix) auto
  from Cons.IH [OF this] Cons.prems(2) show ?case by (simp add: updateHash_all_def w)
qed (simp add: updateHash_all_def)

text \<open>C25: The running hash. Feed a fresh piece the data of the file in any order, with
  repetitions and gaps; once \<open>isHashCalculated\<close> holds, \<open>getDigest\<close> is the digest of exactly
  the piece's bytes, each once and in order, and the context is gone afterwards.\<close>
theorem running_hash_is_hash_of_piece:
  assumes "hashType \<noteq> []" "p0 = (Piece_new index len bl)\<lparr>pc_hashType := hashType\<rparr>"
    and "\<forall>(begin, data)\<in>set ws. data = slice f begin (length data)"
    and "p = updateHash_all ws p0" "Piece_isHashCalculated p"
  shows "snd (Piece_getDigest digest p) = digest hashType (slice f 0 (nat len))
    \<and> \<not> Piece_isHashCalculated (fst (Piece_getDigest digest p))"
proof -
  have "hash_prefix f p0" using assms(2) by (simp add: hash_prefix_def Piece_new_def Piece_empty_def)
  from updateHash_all_prefix [OF this assms(3)] have "hash_prefix f p" "pc_length p = len" "pc_hashType p = hashType"
    using assms(2,4) by (simp_all add: Piece_new_def)
  then show ?thesis using assms(5)
    by (auto simp: Piece_isHashCalculated_def Piece_getDigest_def Piece_destroyHashContext_def hash_prefix_def)
qed

theorem running_hash_is_hash_of_piece_witness:
  "snd (Piece_getDigest (\<lambda>t bs. bs) (updateHash_all [(0, [0, 1]), (3, [3]), (2, [2, 3])]
     ((Piece_new 0 4 4)\<lparr>pc_hashType := ''sha-1''\<rparr>))) = [0, 1, 2, 3]"
proof -
  let ?p = "updateHash_all [(0, [0, 1]), (3, [3]), (2, [2, 3])] ((Piece_new 0 4 4)\<lparr>pc_hashType := ''sha-1''\<rparr>)"
  have "Piece_isHashCalculated ?p"
    by (simp add: updateHash_all_def Piece_updateHash_def Piece_isHashCalculated_def Piece_new_def Piece_empty_def)
  then have "snd (Piece_getDigest (\<lambda>t bs. bs) ?p) = slice (\<lambda>k. word_of_int k) 0 (nat 4)"
    using running_hash_is_hash_of_piece [where hashType = "''sha-1''" and f = "\<lambda>k. word_of_int k" and len = 4
      and ws = "[(0, [0, 1]), (3, [3]), (2, [2, 3])]" and digest = "\<lambda>t bs. bs", OF _ refl _ refl]
    by (simp add: slice_def)
  then show ?thesis by (simp add: slice_def upt_rec)
qed

text \<open>C26: In every piece reachable by any sequence of requests, completions, cancellations and clearings, a request
  for \<open>n\<close> blocks succeeds, hands out the first \<open>n\<close> blocks that are neither finished nor in use, and marks exactly
  those. The 16-bit request counter is the number of blocks in use less the number \<open>k\<close> of completions and
  cancellations, since the piece was last cleared, of a block that was not in use.\<close>
theorem requested_blocks_are_fresh:
  assumes "piece_reach index len bl k p"
  shows "\<exists>p' is. Piece_getMissingUnusedBlockIndexes p n = Some (p', is)
    \<and> is = take n (filter (\<lambda>i. i \<notin> piece_have p \<and> i \<notin> piece_used p) [0..<the (Piece_countBlock p)])
    \<and> piece_used p' = piece_used p \<union> set is \<and> piece_have p' = piece_have p \<and> piece_used p \<inter> piece_have p = {}
    \<and> pc_requested_count p' = of_nat (card (piece_used p')) - of_nat k"
proof -
  have inv: "piece_inv k p" by (rule piece_reach_inv [OF assms])
  show ?thesis
  proof (rule requestBlocks_spec [OF inv, of n])
    fix p' assume a: "Piece_getMissingUnusedBlockIndexes p n
        = Some (p', take n (filter (\<lambda>i. i \<notin> piece_have p \<and> i \<notin> piece_used p) [0..<the (Piece_countBlock p)]))"
      "piece_inv k p'" "piece_have p' = piece_have p"
      "piece_used p' = piece_used p \<union> set (take n (filter (\<lambda>i. i \<notin> piece_have p \<and> i \<notin> piece_used p) [0..<the (Piece_countBlock p)]))"
    have "pc_requested_count p' = of_nat (card (piece_used p')) - of_nat k" "piece_used p \<inter> piece_have p = {}"
      using a(2) inv by (auto simp: piece_inv_def piece_used_def piece_have_def)
    then show ?thesis using a by blast
  qed
qed

text \<open>A block is completed without a request, then two are asked for: the counter stands at one.\<close>

theorem requested_blocks_are_fresh_witness:
  "\<exists>p p'. Piece_completeBlock (Piece_new 0 5 2) 0 = Some p \<and> Piece_getMissingUnusedBlockIndexes p 2 = Some (p', [1, 2])
     \<and> pc_requested_count p' = 1"
proof -
  define p where "p = the (Piece_completeBlock (Piece_new 0 5 2) 0)"
  have c: "Piece_completeBlock (Piece_new 0 5 2) 0 = Some p" "piece_used (Piece_new 0 5 2) = {}"
    by (simp_all add: p_def Piece_completeBlock_def Piece_new_def piece_used_def BitfieldMan_new_spec)
  have sets: "piece_have p = {0}" "piece_used p = {}" "Piece_countBlock p = Some 3"
  proof -
    let ?b = "BitfieldMan_new 2 5"
    have l: "bm_layout ?b" "bm_blocks ?b = 3" "bm_have ?b = {}" "bm_used ?b = {}"
      using BitfieldMan_new_spec [of 2 5] bm_inv_layout by (simp_all add: BitfieldMan_new_def Let_def)
    note s = BitfieldMan_setBit_spec [OF l(1), of 0]
    have l2: "bm_layout (fst (BitfieldMan_setBit ?b 0))" using l(1) by simp
    note u = BitfieldMan_unsetUseBit_spec [OF l2, of 0]
    have b: "bm_blocks (fst (BitfieldMan_unsetUseBit (fst (BitfieldMan_setBit ?b 0)) 0)) = 3"
      using l(2) by (simp add: BitfieldMan_unsetUseBit_def split_def)
    show "piece_have p = {0}" "piece_used p = {}" "Piece_countBlock p = Some 3"
      using l s u b by (simp_all add: p_def Piece_completeBlock_def Piece_new_def piece_have_def piece_used_def Piece_countBlock_def)
  qed
  have "piece_reach 0 5 2 0 (Piece_new 0 5 2)" by (rule piece_reach.init) simp_all
  from piece_reach.step [OF this, of "CompleteBlock 0"] c
  have "piece_reach 0 5 2 1 p" by (simp add: strays_after_def)
  from requested_blocks_are_fresh [OF this, of 2] obtain p' "is" where r: "Piece_getMissingUnusedBlockIndexes p 2 = Some (p', is)"
      "is = take 2 (filter (\<lambda>i. i \<notin> {0} \<and> i \<notin> {}) [0..<3])" "piece_used p' = {} \<union> set is"
      "pc_requested_count p' = of_nat (card (piece_used p')) - of_nat 1"
    unfolding sets option.sel by blast
  have "is = [1, 2]" unfolding r(2) by (simp add: upt_rec)
  then show ?thesis using c(1) r(1,3,4) by simp
qed

end
