(* ===== verification/Segments.thy ===== *)
theory Segments
  imports Pieces Block_Tracker
begin

text \<open>
  Segments, the view a stream connection has of the piece it downloads: \<open>PiecedSegment\<close> for a
  piece of known length, \<open>GrowSegment\<close> for a download of unknown length, and
  \<open>SinkStreamFilter\<close>, which writes what the connection receives to the piece's place in the
  file. A segment holds a pointer to its piece; the operations take the piece it points to and
  return it updated. A failed assertion and the dereference of a piece's null bitfield is
  \<open>None\<close>.
\<close>

subsection \<open>State and queries\<close>

datatype segment_kind = PiecedSegment int | GrowSegment

record segment =
  sg_kind :: segment_kind
  sg_piece :: nat
  sg_written :: int

definition Piece_blockLength :: "piece \<Rightarrow> int option" where
  "Piece_blockLength p = map_option bm_blockLength (pc_bitfield p)"

definition PiecedSegment_new :: "int \<Rightarrow> nat \<Rightarrow> piece \<Rightarrow> segment option" where
  "PiecedSegment_new pieceLength a p =
     (case (Piece_getFirstMissingBlockIndexWithoutLock p, Piece_blockLength p) of
        (Some (Some index), Some bl) \<Rightarrow>
          Some \<lparr>sg_kind = PiecedSegment pieceLength, sg_piece = a, sg_written = int index * bl\<rparr>
      | _ \<Rightarrow> None)"

definition GrowSegment_new :: "nat \<Rightarrow> segment" where
  "GrowSegment_new a = \<lparr>sg_kind = GrowSegment, sg_piece = a, sg_written = 0\<rparr>"

definition Segment_complete :: "segment \<Rightarrow> piece \<Rightarrow> bool option" where
  "Segment_complete s p = (case sg_kind s of PiecedSegment _ \<Rightarrow> Piece_pieceComplete p | GrowSegment \<Rightarrow> Some False)"

definition Segment_getIndex :: "segment \<Rightarrow> piece \<Rightarrow> nat" where
  "Segment_getIndex s p = (case sg_kind s of PiecedSegment _ \<Rightarrow> pc_index p | GrowSegment \<Rightarrow> 0)"

definition Segment_getPosition :: "segment \<Rightarrow> piece \<Rightarrow> int" where
  "Segment_getPosition s p =
     (case sg_kind s of PiecedSegment pieceLength \<Rightarrow> int (pc_index p) * pieceLength | GrowSegment \<Rightarrow> 0)"

definition Segment_getPositionToWrite :: "segment \<Rightarrow> piece \<Rightarrow> int" where
  "Segment_getPositionToWrite s p = Segment_getPosition s p + sg_written s"

definition Segment_getLength :: "segment \<Rightarrow> piece \<Rightarrow> int" where
  "Segment_getLength s p = (case sg_kind s of PiecedSegment _ \<Rightarrow> pc_length p | GrowSegment \<Rightarrow> 0)"

subsection \<open>Progress\<close>

definition completeBlocks :: "int list \<Rightarrow> piece \<Rightarrow> piece option" where
  "completeBlocks is p = fold (\<lambda>i r. Option.bind r (\<lambda>p. Piece_completeBlock p (to_size i))) is (Some p)"

definition PiecedSegment_updateWrittenLength :: "segment \<Rightarrow> piece \<Rightarrow> int \<Rightarrow> (segment \<times> piece) option" where
  "PiecedSegment_updateWrittenLength s p bytes =
     (let newWrittenLength = sg_written s + bytes in
      case pc_bitfield p of
        None \<Rightarrow> None
      | Some b \<Rightarrow>
          if newWrittenLength > pc_length p \<or> bm_blockLength b = 0 then None
          else case completeBlocks [sg_written s sdiv bm_blockLength b ..
                                    newWrittenLength sdiv bm_blockLength b - 1] p of
            None \<Rightarrow> None
          | Some p1 \<Rightarrow>
              map_option (\<lambda>p2. (s\<lparr>sg_written := newWrittenLength\<rparr>, p2))
                (if newWrittenLength = pc_length p
                 then Piece_completeBlock p1 (to_size (int (bm_blocks b) - 1)) else Some p1))"

definition GrowSegment_updateWrittenLength :: "segment \<Rightarrow> piece \<Rightarrow> int \<Rightarrow> (segment \<times> piece) option" where
  "GrowSegment_updateWrittenLength s p bytes =
     (let newWrittenLength = sg_written s + bytes in
      map_option (\<lambda>p'. (s\<lparr>sg_written := newWrittenLength\<rparr>, p'))
        (Piece_setAllBlock (Piece_reconfigure p newWrittenLength)))"

definition Segment_updateWrittenLength :: "segment \<Rightarrow> piece \<Rightarrow> int \<Rightarrow> (segment \<times> piece) option" where
  "Segment_updateWrittenLength s p bytes =
     (case sg_kind s of
        PiecedSegment _ \<Rightarrow> PiecedSegment_updateWrittenLength s p bytes
      | GrowSegment \<Rightarrow> GrowSegment_updateWrittenLength s p bytes)"

definition Segment_updateHash :: "segment \<Rightarrow> piece \<Rightarrow> int \<Rightarrow> byte list \<Rightarrow> piece \<times> bool" where
  "Segment_updateHash s p begin data =
     (case sg_kind s of PiecedSegment _ \<Rightarrow> Piece_updateHash p begin data | GrowSegment \<Rightarrow> (p, False))"

definition Segment_isHashCalculated :: "segment \<Rightarrow> piece \<Rightarrow> bool" where
  "Segment_isHashCalculated s p =
     (case sg_kind s of PiecedSegment _ \<Rightarrow> Piece_isHashCalculated p | GrowSegment \<Rightarrow> False)"

definition Segment_getDigest :: "(string \<Rightarrow> byte list \<Rightarrow> byte list) \<Rightarrow> segment \<Rightarrow> piece \<Rightarrow> piece \<times> byte list" where
  "Segment_getDigest digest s p =
     (case sg_kind s of PiecedSegment _ \<Rightarrow> Piece_getDigest digest p | GrowSegment \<Rightarrow> (p, []))"

text \<open>\<open>Piece::clearAllBlock(diskCache)\<close>: the blocks and, with a cache, the piece's entry.\<close>

definition Piece_clearAllBlock_cache ::
    "(cell list \<Rightarrow> bool) \<Rightarrow> wr_cache option \<Rightarrow> piece \<Rightarrow> (piece \<times> wr_cache option) option" where
  "Piece_clearAllBlock_cache io cache p =
     (case Piece_clearAllBlock p of
        None \<Rightarrow> None
      | Some p' \<Rightarrow>
          (case (cache, pc_wrCache p) of
             (Some c, Some i) \<Rightarrow> map_option (\<lambda>c'. (p', Some c')) (Piece_clearWrCache io c i)
           | _ \<Rightarrow> Some (p', cache)))"

definition Segment_clear :: "(cell list \<Rightarrow> bool) \<Rightarrow> wr_cache option \<Rightarrow> segment \<Rightarrow> piece \<Rightarrow>
    (segment \<times> piece \<times> wr_cache option) option" where
  "Segment_clear io cache s p =
     (case sg_kind s of
        PiecedSegment _ \<Rightarrow>
          map_option (\<lambda>(p', cache'). (s\<lparr>sg_written := 0\<rparr>, Piece_destroyHashContext p', cache'))
            (Piece_clearAllBlock_cache io cache p)
      | GrowSegment \<Rightarrow>
          map_option (\<lambda>(p', _). (s\<lparr>sg_written := 0\<rparr>, p', cache)) (Piece_clearAllBlock_cache io None p))"


subsection \<open>Well-formed pieces\<close>

definition piece_bm :: "piece \<Rightarrow> bitfield_man" where
  "piece_bm p = the (pc_bitfield p)"

definition piece_ok :: "piece \<Rightarrow> bool" where
  "piece_ok p \<longleftrightarrow> pc_bitfield p \<noteq> None \<and> bm_inv (piece_bm p) \<and> bm_padded (piece_bm p) \<and> \<not> bm_filterEnabled (piece_bm p)
     \<and> bm_totalLength (piece_bm p) = pc_length p \<and> 0 < bm_blockLength (piece_bm p) \<and> 0 < pc_length p"

text \<open>What the block operations leave alone.\<close>

definition piece_frame :: "piece \<Rightarrow> piece \<Rightarrow> bool" where
  "piece_frame p p' \<longleftrightarrow> p' = p\<lparr>pc_bitfield := pc_bitfield p', pc_requested_count := pc_requested_count p'\<rparr>
     \<and> bm_geometry (piece_bm p') = bm_geometry (piece_bm p)"

lemma piece_frame_refl [simp]: "piece_frame p p"
  by (simp add: piece_frame_def)

lemma piece_frameD:
  assumes "piece_frame p p'"
  shows "pc_index p' = pc_index p" "pc_length p' = pc_length p" "pc_wrCache p' = pc_wrCache p"
    "pc_users p' = pc_users p" "pc_usedBySegment p' = pc_usedBySegment p" "pc_hashType p' = pc_hashType p"
    "pc_mdctx p' = pc_mdctx p" "pc_nextBegin p' = pc_nextBegin p"
    "bm_blocks (piece_bm p') = bm_blocks (piece_bm p)" "bm_blockLength (piece_bm p') = bm_blockLength (piece_bm p)"
proof -
  have e: "p' = p\<lparr>pc_bitfield := pc_bitfield p', pc_requested_count := pc_requested_count p'\<rparr>"
    "bm_geometry (piece_bm p') = bm_geometry (piece_bm p)" using assms by (simp_all add: piece_frame_def)
  show "pc_index p' = pc_index p" "pc_length p' = pc_length p" "pc_wrCache p' = pc_wrCache p"
    "pc_users p' = pc_users p" "pc_usedBySegment p' = pc_usedBySegment p" "pc_hashType p' = pc_hashType p"
    "pc_mdctx p' = pc_mdctx p" "pc_nextBegin p' = pc_nextBegin p" by (subst e(1), simp)+
  show "bm_blocks (piece_bm p') = bm_blocks (piece_bm p)" "bm_blockLength (piece_bm p') = bm_blockLength (piece_bm p)"
    using e(2) by (simp_all add: bm_geometry_def)
qed

lemma piece_frame_trans: "piece_frame p p' \<Longrightarrow> piece_frame p' p'' \<Longrightarrow> piece_frame p p''"
  by (cases p; cases p'; cases p'') (simp add: piece_frame_def piece_bm_def)

lemma piece_have_bm: "piece_ok p \<Longrightarrow> piece_have p = bm_have (piece_bm p)"
  by (auto simp: piece_ok_def piece_have_def piece_bm_def)

lemma bm_padded_ops:
  assumes "bm_layout b" "bm_padded b"
  shows "bm_padded (fst (BitfieldMan_setBit b i))" and "bm_padded (fst (BitfieldMan_setUseBit b i))"
    and "bm_padded (fst (BitfieldMan_unsetUseBit b i))" and "bm_padded (fst (BitfieldMan_unsetBit b i))"
proof -
  have l: "bm_blocks b \<le> 8 * length (bm_bitfield b)" using layout_length [OF assms(1)] assms(1) by (simp add: bm_layout_def)
  show "bm_padded (fst (BitfieldMan_setBit b i))" "bm_padded (fst (BitfieldMan_unsetBit b i))"
    using assms(2) l by (auto simp: BitfieldMan_setBit_def BitfieldMan_unsetBit_def split_def bm_padded_def bit_set_def test_setBitInternal)
  show "bm_padded (fst (BitfieldMan_setUseBit b i))" "bm_padded (fst (BitfieldMan_unsetUseBit b i))"
    using assms(2) by (simp_all add: useBit_forms bm_padded_def)
qed

lemma Piece_completeBlock_ok:
  assumes "piece_ok p"
  obtains p' where "Piece_completeBlock p i = Some p'" "piece_ok p'" "piece_frame p p'"
    "piece_have p' = piece_have p \<union> ({i} \<inter> {..<bm_blocks (piece_bm p)})"
proof -
  obtain b where b: "pc_bitfield p = Some b" "piece_bm p = b" using assms by (auto simp: piece_ok_def piece_bm_def)
  have l: "bm_layout b" using assms by (simp add: piece_ok_def b bm_inv_def)
  let ?b = "fst (BitfieldMan_unsetUseBit (fst (BitfieldMan_setBit b i)) i)"
  let ?p = "p\<lparr>pc_bitfield := Some ?b, pc_requested_count := pc_requested_count p - 1\<rparr>"
  note s = BitfieldMan_setBit_spec [OF l, of i]
  have s1: "bm_layout (fst (BitfieldMan_setBit b i))" using s(1) by (rule bm_inv_layout)
  note u = useBit_inv(2) [OF s(1), of i] BitfieldMan_unsetUseBit_spec(3) [OF s1, of i]
  have g: "bm_geometry ?b = bm_geometry b" by (simp add: geometry_ops)
  show thesis
  proof (rule that [of ?p])
    show "Piece_completeBlock p i = Some ?p" by (simp add: Piece_completeBlock_def b)
    have "bm_padded ?b" using bm_padded_ops assms s1 l by (simp add: piece_ok_def b)
    then show "piece_ok ?p" using assms u(1) g by (simp add: piece_ok_def piece_bm_def b bm_geometry_def)
    show "piece_frame p ?p" using g by (simp add: piece_frame_def piece_bm_def b)
    show "piece_have ?p = piece_have p \<union> ({i} \<inter> {..<bm_blocks (piece_bm p)})"
      using u(2) s(2) by (simp add: piece_have_def b)
  qed
qed

lemma completeBlocks_ok:
  assumes "piece_ok p" "\<forall>i\<in>set is. 0 \<le> i \<and> i < 2 ^ 63"
  shows "\<exists>p'. completeBlocks is p = Some p' \<and> piece_ok p' \<and> piece_frame p p'
    \<and> piece_have p' = piece_have p \<union> (nat ` set is \<inter> {..<bm_blocks (piece_bm p)})"
  using assms
proof (induction "is" arbitrary: p)
  case (Cons i "is")
  obtain p1 where p1: "Piece_completeBlock p (nat i) = Some p1" "piece_ok p1" "piece_frame p p1"
    "piece_have p1 = piece_have p \<union> ({nat i} \<inter> {..<bm_blocks (piece_bm p)})"
    using Piece_completeBlock_ok [OF Cons.prems(1)] by blast
  have i: "to_size i = nat i" using Cons.prems(2) by simp
  from Cons.IH [OF p1(2)] Cons.prems(2) obtain p' where p': "completeBlocks is p1 = Some p'" "piece_ok p'"
    "piece_frame p1 p'" "piece_have p' = piece_have p1 \<union> (nat ` set is \<inter> {..<bm_blocks (piece_bm p1)})" by auto
  have c: "completeBlocks (i # is) p = Some p'" using p1(1) p'(1) by (simp add: completeBlocks_def i)
  have h: "piece_have p' = piece_have p \<union> (nat ` set (i # is) \<inter> {..<bm_blocks (piece_bm p)})"
    using p'(4) p1(4) piece_frameD(9) [OF p1(3)] by auto
  show ?case by (rule exI [of _ p']) (intro conjI c h p'(2) piece_frame_trans [OF p1(3) p'(3)])
qed (simp add: completeBlocks_def)

subsection \<open>Progress of a piece segment\<close>

text \<open>The blocks that end at or before offset \<open>w\<close> of the piece; the last one may be short.\<close>

definition block_end :: "piece \<Rightarrow> nat \<Rightarrow> int" where
  "block_end p i = min ((int i + 1) * bm_blockLength (piece_bm p)) (pc_length p)"

definition blocks_before :: "piece \<Rightarrow> int \<Rightarrow> nat set" where
  "blocks_before p w = {i. i < bm_blocks (piece_bm p) \<and> block_end p i \<le> w}"

lemma piece_blocks:
  assumes "piece_ok p"
  shows "0 < bm_blocks (piece_bm p)"
    and "(int (bm_blocks (piece_bm p)) - 1) * bm_blockLength (piece_bm p) < pc_length p"
    and "pc_length p \<le> int (bm_blocks (piece_bm p)) * bm_blockLength (piece_bm p)"
    and "pc_length p < 2 ^ 63" "bm_blockLength (piece_bm p) < 2 ^ 31" "int (bm_blocks (piece_bm p)) \<le> pc_length p"
proof -
  let ?b = "piece_bm p" and ?bl = "bm_blockLength (piece_bm p)" and ?len = "pc_length p"
  have l: "bm_layout ?b" "0 < ?bl" "0 < ?len" "bm_totalLength ?b = ?len" using assms by (auto simp: piece_ok_def bm_inv_def)
  define q where "q = (?len + ?bl - 1) div ?bl"
  have n: "int (bm_blocks ?b) = q" and sz: "?len < 2 ^ 63" "?bl < 2 ^ 31"
    using l by (simp_all add: bm_layout_def q_def div_int_pos_iff)
  have qr: "?len + ?bl - 1 = q * ?bl + (?len + ?bl - 1) mod ?bl" by (simp add: q_def)
  have m: "0 \<le> (?len + ?bl - 1) mod ?bl" "(?len + ?bl - 1) mod ?bl < ?bl" using l(2) by simp_all
  have lo: "(q - 1) * ?bl < ?len" and hi: "?len \<le> q * ?bl" using qr m by (simp_all add: algebra_simps)
  have qp: "0 < q" using hi l(2,3) by (metis not_le order.strict_trans2 mult_nonpos_nonneg less_imp_le)
  show "0 < bm_blocks ?b" using qp n by linarith
  show "(int (bm_blocks ?b) - 1) * ?bl < ?len" "?len \<le> int (bm_blocks ?b) * ?bl" using lo hi n by simp_all
  show "?len < 2 ^ 63" "?bl < 2 ^ 31" by (fact sz)+
  have "q - 1 \<le> (q - 1) * ?bl" using qp l(2) by (simp add: mult_le_cancel_left1)
  then show "int (bm_blocks ?b) \<le> ?len" using lo n by linarith
qed

lemma mult_le_div_int:
  assumes "0 < (d :: int)" shows "(i + 1) * d \<le> x \<longleftrightarrow> i < x div d"
proof
  have x: "x = x div d * d + x mod d" "0 \<le> x mod d" "x mod d < d" using assms by simp_all
  { assume "(i + 1) * d \<le> x"
    then have "(i + 1) * d < x div d * d + d" using x by linarith
    also have "\<dots> = (x div d + 1) * d" by (simp only: distrib_right mult_1)
    finally have "i + 1 < x div d + 1" by (rule mult_right_less_imp_less) (use assms in simp)
    then show "i < x div d" by simp }
  assume "i < x div d"
  then have "(i + 1) * d \<le> x div d * d" using assms by (intro mult_right_mono) auto
  then show "(i + 1) * d \<le> x" using x by linarith
qed

lemma blocks_before_frame: "piece_frame p p' \<Longrightarrow> blocks_before p' w = blocks_before p w"
  by (simp add: blocks_before_def block_end_def piece_frameD)

lemma blocks_before_all: "piece_ok p \<Longrightarrow> blocks_before p (pc_length p) = {..<bm_blocks (piece_bm p)}"
  by (auto simp: blocks_before_def block_end_def)

lemma block_in_range:
  assumes "piece_ok p" "0 \<le> w" "w \<le> v" "v \<le> pc_length p"
  shows "blocks_before p v = blocks_before p w \<union>
    (nat ` {w div bm_blockLength (piece_bm p) .. v div bm_blockLength (piece_bm p) - 1}
      \<union> (if v = pc_length p then {bm_blocks (piece_bm p) - 1} else {})) \<inter> {..<bm_blocks (piece_bm p)}"
    (is "?L = ?W \<union> (?R \<union> ?E) \<inter> ?B")
proof -
  let ?bl = "bm_blockLength (piece_bm p)" and ?n = "bm_blocks (piece_bm p)"
  note n = piece_blocks [OF assms(1)]
  have bl: "0 < ?bl" using assms(1) by (simp add: piece_ok_def)
  note below = mult_le_div_int [OF bl]
  have "i \<in> ?L \<longleftrightarrow> i \<in> ?W \<union> (?R \<union> ?E) \<inter> ?B" for i
  proof (cases "i < ?n")
    case True
    have short: "pc_length p < (int i + 1) * ?bl \<Longrightarrow> i = ?n - 1"
    proof -
      assume a: "pc_length p < (int i + 1) * ?bl"
      have "(int ?n - 1) * ?bl < (int i + 1) * ?bl" using a n(2) by linarith
      then have "int ?n - 1 < int i + 1" using bl by (simp add: mult_less_cancel_right)
      then show "i = ?n - 1" using True by linarith
    qed
    have R: "i \<in> ?R \<longleftrightarrow> w div ?bl \<le> int i \<and> int i < v div ?bl"
      using div_int_pos_iff [of w ?bl] assms(2) bl by (auto simp: image_iff intro!: bexI [of _ "int i"])
    have L: "i \<in> ?L \<longleftrightarrow> int i < v div ?bl \<or> pc_length p \<le> v"
      and W: "i \<in> ?W \<longleftrightarrow> int i < w div ?bl \<or> pc_length p \<le> w"
      using True by (auto simp: blocks_before_def block_end_def min_le_iff_disj below)
    have last: "int i < v div ?bl" if "v = pc_length p" "i \<noteq> ?n - 1"
      using short below [of i v] that by linarith
    have mono: "w div ?bl \<le> v div ?bl" using assms(3) bl by (rule zdiv_mono1)
    show ?thesis
    proof (cases "v = pc_length p")
      case v: True
      show ?thesis using L W R last mono v True assms(3) by (cases "i = ?n - 1") auto
    next
      case False
      then have "\<not> pc_length p \<le> v" "\<not> pc_length p \<le> w" using assms(3,4) by linarith+
      then show ?thesis using L W R mono True False by auto
    qed
  qed (auto simp: blocks_before_def)
  then show ?thesis by blast
qed

lemma Pieced_update_ok:
  assumes "piece_ok p" "0 \<le> sg_written s" "0 \<le> n" "sg_written s + n \<le> pc_length p"
    and "blocks_before p (sg_written s) \<subseteq> piece_have p"
  obtains p' where "PiecedSegment_updateWrittenLength s p n = Some (s\<lparr>sg_written := sg_written s + n\<rparr>, p')"
    and "piece_ok p'" "piece_frame p p'" "piece_have p' = piece_have p \<union> blocks_before p (sg_written s + n)"
proof -
  let ?b = "piece_bm p" and ?v = "sg_written s + n" and ?w = "sg_written s"
  let ?bl = "bm_blockLength ?b"
  note pb = piece_blocks [OF assms(1)]
  have b: "pc_bitfield p = Some ?b" "0 < ?bl" using assms(1) by (auto simp: piece_ok_def piece_bm_def)
  have d: "?w sdiv ?bl = ?w div ?bl" "?v sdiv ?bl = ?v div ?bl"
    using assms(2,3) b(2) by (simp_all add: signed_divide_int_def sgn_if)
  have w0: "0 \<le> ?w div ?bl" using assms(2) b(2) by (simp add: pos_imp_zdiv_nonneg_iff)
  have v1: "?v div ?bl \<le> ?v" using assms(2,3) b(2) zdiv_mono2 [of ?v 1 ?bl] by simp
  have r: "\<forall>i\<in>set [?w div ?bl .. ?v div ?bl - 1]. 0 \<le> i \<and> i < 2 ^ 63"
    using w0 v1 assms(4) pb(4) by auto
  obtain p1 where p1: "completeBlocks [?w div ?bl .. ?v div ?bl - 1] p = Some p1" "piece_ok p1" "piece_frame p p1"
    "piece_have p1 = piece_have p \<union> (nat ` {?w div ?bl .. ?v div ?bl - 1} \<inter> {..<bm_blocks ?b})"
    using completeBlocks_ok [OF assms(1) r] by auto
  note range = block_in_range [OF assms(1,2) _ assms(4)]
  show thesis
  proof (cases "?v = pc_length p")
    case True
    have last: "to_size (int (bm_blocks ?b) - 1) = bm_blocks ?b - 1" using pb(1,4,6) by simp
    obtain p2 where p2: "Piece_completeBlock p1 (bm_blocks ?b - 1) = Some p2" "piece_ok p2" "piece_frame p1 p2"
      "piece_have p2 = piece_have p1 \<union> ({bm_blocks ?b - 1} \<inter> {..<bm_blocks (piece_bm p1)})"
      using Piece_completeBlock_ok [OF p1(2)] by blast
    show thesis
    proof (rule that [OF _ p2(2) piece_frame_trans [OF p1(3) p2(3)]])
      show "PiecedSegment_updateWrittenLength s p n = Some (s\<lparr>sg_written := ?v\<rparr>, p2)"
        using True b p1(1) p2(1) d last by (simp add: PiecedSegment_updateWrittenLength_def)
      show "piece_have p2 = piece_have p \<union> blocks_before p ?v"
        using range assms(3,5) True p2(4) p1(4) piece_frameD(9) [OF p1(3)] by auto
    qed
  next
    case False
    show thesis
    proof (rule that [OF _ p1(2,3)])
      show "PiecedSegment_updateWrittenLength s p n = Some (s\<lparr>sg_written := ?v\<rparr>, p1)"
        using False assms(4) b p1(1) d by (simp add: PiecedSegment_updateWrittenLength_def)
      show "piece_have p1 = piece_have p \<union> blocks_before p ?v"
        using range assms(3,5) False p1(4) by auto
    qed
  qed
qed

lemma PiecedSegment_new_ok:
  assumes "piece_ok p" "piece_have p \<noteq> {..<bm_blocks (piece_bm p)}"
  obtains i where "PiecedSegment_new pl a p = Some \<lparr>sg_kind = PiecedSegment pl, sg_piece = a,
      sg_written = int i * bm_blockLength (piece_bm p)\<rparr>"
    and "i < bm_blocks (piece_bm p)" "i \<notin> piece_have p" "{..<i} \<subseteq> piece_have p"
    and "blocks_before p (int i * bm_blockLength (piece_bm p)) \<subseteq> piece_have p"
    and "int i * bm_blockLength (piece_bm p) < pc_length p"
proof -
  let ?b = "piece_bm p" and ?n = "bm_blocks (piece_bm p)"
  have b: "pc_bitfield p = Some ?b" "0 < bm_blockLength ?b" "\<not> bm_filterEnabled ?b"
    using assms(1) by (auto simp: piece_ok_def piece_bm_def)
  note pb = piece_blocks [OF assms(1)]
  have missing: "bit_set (array_not (array (bm_bitfield ?b))) ?n = {..<?n} - piece_have p"
    by (auto simp: piece_have_bm [OF assms(1)] bm_have_def bit_set_def)
  have sub: "piece_have p \<subseteq> {..<?n}" by (auto simp: piece_have_bm [OF assms(1)] bm_have_def bit_set_def)
  then obtain i where i: "BitfieldMan_getFirstMissingIndex ?b = Some i"
    using getFirstSetBitIndex_None [of "array_not (array (bm_bitfield ?b))" ?n] missing assms(2) b(3)
    by (cases "BitfieldMan_getFirstMissingIndex ?b") (auto simp: BitfieldMan_getFirstMissingIndex_def)
  have "i \<in> {..<?n} - piece_have p \<and> (\<forall>j<i. j \<notin> {..<?n} - piece_have p)"
    using i b(3) getFirstSetBitIndex_Some [of "array_not (array (bm_bitfield ?b))" ?n i]
    by (auto simp: BitfieldMan_getFirstMissingIndex_def piece_have_bm [OF assms(1)] bm_have_def bit_set_def)
  then have first: "i < ?n" "i \<notin> piece_have p" "{..<i} \<subseteq> piece_have p" by auto
  have lt: "int i * bm_blockLength ?b < pc_length p"
  proof -
    have "int i * bm_blockLength ?b \<le> (int ?n - 1) * bm_blockLength ?b"
      using first(1) b(2) by (intro mult_right_mono) linarith+
    then show ?thesis using pb(2) by linarith
  qed
  have "blocks_before p (int i * bm_blockLength ?b) \<subseteq> {..<i}"
  proof
    fix j assume "j \<in> blocks_before p (int i * bm_blockLength ?b)"
    then have "(int j + 1) * bm_blockLength ?b \<le> int i * bm_blockLength ?b"
      using lt by (auto simp: blocks_before_def block_end_def min_le_iff_disj)
    then show "j \<in> {..<i}" using b(2) by (simp add: mult_le_cancel_right)
  qed
  then show thesis
    using that [OF _ first _ lt] first(3) i b(1)
    by (auto simp: PiecedSegment_new_def Piece_getFirstMissingBlockIndexWithoutLock_def Piece_blockLength_def)
qed

text \<open>A sequence of updates.\<close>

primrec Segment_update_all :: "int list \<Rightarrow> segment \<times> piece \<Rightarrow> (segment \<times> piece) option" where
  "Segment_update_all [] sp = Some sp"
| "Segment_update_all (n # ns) sp = Option.bind (Segment_updateWrittenLength (fst sp) (snd sp) n) (Segment_update_all ns)"

lemma Segment_update_all_ok:
  assumes "piece_ok p" "sg_kind s = PiecedSegment pl" "0 \<le> sg_written s" "list_all (\<lambda>n. 0 \<le> n) ns"
    and "sg_written s + sum_list ns \<le> pc_length p" "blocks_before p (sg_written s) \<subseteq> piece_have p"
  shows "\<exists>p'. Segment_update_all ns (s, p) = Some (s\<lparr>sg_written := sg_written s + sum_list ns\<rparr>, p')
    \<and> piece_ok p' \<and> piece_frame p p' \<and> piece_have p' = piece_have p \<union> blocks_before p (sg_written s + sum_list ns)"
  using assms
proof (induction ns arbitrary: s p)
  case (Cons n ns)
  let ?s = "s\<lparr>sg_written := sg_written s + n\<rparr>"
  have ns: "0 \<le> n" "0 \<le> sum_list ns" using Cons.prems(4) by (auto simp: list_all_iff intro: sum_list_nonneg)
  obtain p1 where p1: "PiecedSegment_updateWrittenLength s p n = Some (?s, p1)" "piece_ok p1" "piece_frame p p1"
    "piece_have p1 = piece_have p \<union> blocks_before p (sg_written s + n)"
    using Pieced_update_ok [OF Cons.prems(1,3) ns(1) _ Cons.prems(6)] Cons.prems(5) ns by auto
  have "\<exists>p'. Segment_update_all ns (?s, p1) = Some (?s\<lparr>sg_written := sg_written ?s + sum_list ns\<rparr>, p')
    \<and> piece_ok p' \<and> piece_frame p1 p' \<and> piece_have p' = piece_have p1 \<union> blocks_before p1 (sg_written ?s + sum_list ns)"
    using Cons.prems ns p1 by (intro Cons.IH) (auto simp: blocks_before_frame piece_frameD)
  moreover have "blocks_before p (sg_written s + n) \<subseteq> blocks_before p (sg_written s + (n + sum_list ns))"
    using ns by (auto simp: blocks_before_def)
  ultimately show ?case using p1 Cons.prems(2) piece_frame_trans [OF p1(3)] blocks_before_frame [OF p1(3)]
    by (auto simp: Segment_updateWrittenLength_def add.assoc)
qed auto

subsection \<open>The interface the filter writes through\<close>

text \<open>
  What a client of \<open>Segment\<close> relies on: the position to write is a fixed start plus the
  written length, and an accepted update advances the written length and moves nothing else.
\<close>

locale segment_view =
  fixes view :: "'s \<Rightarrow> bool" and start :: "'s \<Rightarrow> int" and written :: "'s \<Rightarrow> int" and advance :: "'s \<Rightarrow> int \<Rightarrow> 's option"
  assumes advance_view: "view s \<Longrightarrow> 0 \<le> n \<Longrightarrow> advance s n = Some s' \<Longrightarrow> view s'"
    and advance_start: "view s \<Longrightarrow> 0 \<le> n \<Longrightarrow> advance s n = Some s' \<Longrightarrow> start s' = start s"
    and advance_written: "view s \<Longrightarrow> 0 \<le> n \<Longrightarrow> advance s n = Some s' \<Longrightarrow> written s' = written s + n"
begin

text \<open>The places of the buffers of a sequence of writes, each followed by an update.\<close>

fun write_places :: "'s \<Rightarrow> byte list list \<Rightarrow> (int \<times> byte list) list option" where
  "write_places s [] = Some []"
| "write_places s (bs # bss) =
     (case advance s (int (length bs)) of
        None \<Rightarrow> None
      | Some s' \<Rightarrow> map_option ((#) (start s + written s, bs)) (write_places s' bss))"

text \<open>They lie one after the other: the file holds the concatenation from the first position on.\<close>

lemma write_places_contiguous:
  assumes "view s" "write_places s bss = Some ws"
  shows "map snd ws = bss \<and>
    map fst ws = map (\<lambda>k. start s + written s + int (length (concat (take k bss)))) [0..<length bss]"
  using assms
proof (induction bss arbitrary: s ws)
  case (Cons bs bss)
  obtain s' ws' where a: "advance s (int (length bs)) = Some s'" "write_places s' bss = Some ws'"
    "ws = (start s + written s, bs) # ws'" using Cons.prems(2) by (auto split: option.splits)
  note s' = advance_view [OF Cons.prems(1) _ a(1)] advance_start [OF Cons.prems(1) _ a(1)] advance_written [OF Cons.prems(1) _ a(1)]
  show ?case using Cons.IH [OF s'(1) a(2)] a(3) s'(2,3)
    by (simp add: upt_conv_Cons del: upt_Suc) (simp add: map_Suc_upt [symmetric] add.assoc del: upt_Suc)
qed auto

end

definition piece_position :: "segment \<times> piece \<Rightarrow> int" where
  "piece_position sp = Segment_getPosition (fst sp) (snd sp)"

definition piece_written :: "segment \<times> piece \<Rightarrow> int" where
  "piece_written sp = sg_written (fst sp)"

definition piece_advance :: "segment \<times> piece \<Rightarrow> int \<Rightarrow> (segment \<times> piece) option" where
  "piece_advance sp n = Segment_updateWrittenLength (fst sp) (snd sp) n"

definition is_pieced :: "segment \<times> piece \<Rightarrow> bool" where
  "is_pieced sp \<longleftrightarrow> piece_ok (snd sp) \<and> (\<exists>pl. sg_kind (fst sp) = PiecedSegment pl)
     \<and> 0 \<le> sg_written (fst sp) \<and> blocks_before (snd sp) (sg_written (fst sp)) \<subseteq> piece_have (snd sp)"

definition is_grow :: "segment \<times> piece \<Rightarrow> bool" where
  "is_grow sp \<longleftrightarrow> sg_kind (fst sp) = GrowSegment"

lemma Pieced_update_Some:
  "PiecedSegment_updateWrittenLength s p n = Some sp' \<Longrightarrow> sg_written s + n \<le> pc_length p"
  by (auto simp: PiecedSegment_updateWrittenLength_def Let_def split: option.splits if_splits)

lemma Pieced_advance:
  assumes "is_pieced sp" "0 \<le> n" "piece_advance sp n = Some sp'"
  shows "is_pieced sp'" "piece_position sp' = piece_position sp" "piece_written sp' = piece_written sp + n"
    and "piece_written sp + n \<le> pc_length (snd sp)" "piece_frame (snd sp) (snd sp')"
    and "piece_have (snd sp') = piece_have (snd sp) \<union> blocks_before (snd sp) (piece_written sp + n)"
    and "fst sp' = (fst sp)\<lparr>sg_written := piece_written sp + n\<rparr>"
proof -
  obtain s p pl where sp: "sp = (s, p)" "piece_ok p" "sg_kind s = PiecedSegment pl" "0 \<le> sg_written s"
    "blocks_before p (sg_written s) \<subseteq> piece_have p" using assms(1) by (cases sp) (auto simp: is_pieced_def)
  have u: "PiecedSegment_updateWrittenLength s p n = Some sp'"
    using assms(3) sp by (simp add: piece_advance_def Segment_updateWrittenLength_def)
  have le: "sg_written s + n \<le> pc_length p" by (rule Pieced_update_Some [OF u])
  obtain p' where p': "sp' = (s\<lparr>sg_written := sg_written s + n\<rparr>, p')" "piece_ok p'" "piece_frame p p'"
    "piece_have p' = piece_have p \<union> blocks_before p (sg_written s + n)"
    using Pieced_update_ok [OF sp(2,4) assms(2) le sp(5)] u by auto
  show "is_pieced sp'" "piece_position sp' = piece_position sp" "piece_written sp' = piece_written sp + n"
    "piece_written sp + n \<le> pc_length (snd sp)" "piece_frame (snd sp) (snd sp')"
    "piece_have (snd sp') = piece_have (snd sp) \<union> blocks_before (snd sp) (piece_written sp + n)"
    "fst sp' = (fst sp)\<lparr>sg_written := piece_written sp + n\<rparr>"
    using p' sp le assms(2)
    by (simp_all add: is_pieced_def piece_position_def piece_written_def Segment_getPosition_def
        blocks_before_frame piece_frameD)
qed

interpretation pieced: segment_view is_pieced piece_position piece_written piece_advance
  by unfold_locales (fact Pieced_advance(1-3))+

interpretation grow: segment_view is_grow piece_position piece_written piece_advance
  by unfold_locales
    (auto simp: is_grow_def piece_position_def piece_written_def piece_advance_def Segment_getPosition_def
      Segment_updateWrittenLength_def GrowSegment_updateWrittenLength_def Let_def)

subsection \<open>The sink\<close>

text \<open>
  \<open>SinkStreamFilter\<close> with everything it points to: the segment and its piece, the block tracker
  and the write cache (null pointers are \<open>None\<close>), and what \<open>writeData\<close> has put on disk. The
  buffer lies at an address of the memory that the write cache uses.
\<close>

datatype download_error = DiskWriteError | CacheFlushFailure nat

record sink =
  sk_hashUpdate :: bool
  sk_bytesProcessed :: nat
  sk_lastWriteCommitted :: bool
  sk_cuid :: int
  sk_seg :: segment
  sk_piece :: piece
  sk_tracker :: "tracker option"
  sk_cache :: "wr_cache option"
  sk_disk :: "(int \<times> byte list) list"

definition to_int64 :: "int \<Rightarrow> int" where
  "to_int64 x = signed_take_bit 63 x"

lemma to_int64_id [simp]: "- (2 ^ 63) \<le> x \<Longrightarrow> x < 2 ^ 63 \<Longrightarrow> to_int64 x = x"
  by (simp add: to_int64_def signed_take_bit_int_eq_self)

text \<open>How many of \<open>n\<close> bytes fit into the segment; the assertion is the \<open>None\<close>.\<close>

definition Sink_available :: "sink \<Rightarrow> nat \<Rightarrow> nat option" where
  "Sink_available k n =
     (let len = Segment_getLength (sk_seg k) (sk_piece k); w = sg_written (sk_seg k) in
      if len > 0 then (if len < w then None else Some (min n (to_size (len - w)))) else Some n)"

text \<open>The block that the write is charged to.\<close>

definition Sink_blockIndex :: "sink \<Rightarrow> nat" where
  "Sink_blockIndex k =
     (let p = sk_piece k; start = to_int64 (int (pc_index p) * pc_length p) in
      to_size ((Segment_getPositionToWrite (sk_seg k) p - start) sdiv BLOCK_LENGTH))"

text \<open>The claim of that block, always won without a tracker.\<close>

definition Sink_claim :: "sink \<Rightarrow> sink \<times> bool" where
  "Sink_claim k =
     (case sk_tracker k of
        None \<Rightarrow> (k, True)
      | Some t \<Rightarrow>
          let (t', won) = Tracker_try_start_write t (pc_index (sk_piece k)) (Sink_blockIndex k) (sk_cuid k)
          in (k\<lparr>sk_tracker := Some t'\<rparr>, won))"

text \<open>The write of a block that was won: into the cache, or to the disk.\<close>

definition Sink_store :: "(int \<Rightarrow> byte list \<Rightarrow> bool) \<Rightarrow> (cell list \<Rightarrow> bool) \<Rightarrow> sink \<Rightarrow> nat \<Rightarrow> byte list \<Rightarrow>
    (sink \<times> download_error option) option" where
  "Sink_store wout io k buf data =
     (let pos = Segment_getPositionToWrite (sk_seg k) (sk_piece k) in
      case pc_wrCache (sk_piece k) of
        Some i \<Rightarrow>
          (case sk_cache k of
             None \<Rightarrow> None
           | Some c \<Rightarrow>
               map_option (\<lambda>c'. (k\<lparr>sk_cache := Some c'\<rparr>, None))
                 (Piece_updateWrCache io c i
                    \<lparr>cell_goff = pos, cell_data = buf, cell_offset = 0, cell_len = length data,
                     cell_capacity = length data\<rparr>))
      | None \<Rightarrow>
          if wout pos data then Some (k\<lparr>sk_disk := sk_disk k @ [(pos, data)]\<rparr>, None)
          else Some (k, Some DiskWriteError))"

definition SinkStreamFilter_transform :: "(int \<Rightarrow> byte list \<Rightarrow> bool) \<Rightarrow> (cell list \<Rightarrow> bool) \<Rightarrow> sink \<Rightarrow> nat \<Rightarrow>
    byte list \<Rightarrow> (sink \<times> (download_error + nat)) option" where
  "SinkStreamFilter_transform wout io k buf inbuf =
     (if inbuf = [] then Some (k\<lparr>sk_bytesProcessed := 0\<rparr>, Inr 0)
      else case Sink_available k (length inbuf) of
        None \<Rightarrow> None
      | Some wlen \<Rightarrow>
          let (k1, won) = Sink_claim k; k2 = k1\<lparr>sk_lastWriteCommitted := won\<rparr>; data = take wlen inbuf in
          (case (if won then Sink_store wout io k2 buf data else Some (k2, None)) of
             None \<Rightarrow> None
           | Some (k3, Some e) \<Rightarrow> Some (k3, Inl e)
           | Some (k3, None) \<Rightarrow>
               let k4 = (if won \<and> sk_hashUpdate k3
                         then k3\<lparr>sk_piece := fst (Segment_updateHash (sk_seg k3) (sk_piece k3)
                                                   (sg_written (sk_seg k3)) data)\<rparr>
                         else k3)
               in map_option (\<lambda>(s, p). (k4\<lparr>sk_seg := s, sk_piece := p, sk_bytesProcessed := wlen\<rparr>, Inr wlen))
                    (Segment_updateWrittenLength (sk_seg k4) (sk_piece k4) (int wlen))))"

subsection \<open>What the sink writes\<close>

text \<open>The file after a list of writes.\<close>

definition write_file :: "(int \<Rightarrow> byte) \<Rightarrow> int \<times> byte list \<Rightarrow> int \<Rightarrow> byte" where
  "write_file f w off = (if fst w \<le> off \<and> off < fst w + int (length (snd w)) then snd w ! nat (off - fst w) else f off)"

definition file_after :: "(int \<Rightarrow> byte) \<Rightarrow> (int \<times> byte list) list \<Rightarrow> int \<Rightarrow> byte" where
  "file_after f ws = fold (\<lambda>w f. write_file f w) ws f"

lemma file_after_snoc [simp]: "file_after f (ws @ [w]) = write_file (file_after f ws) w"
  by (simp add: file_after_def)

lemma write_file_empty [simp]: "write_file f (pos, []) = f"
  by (rule ext) (auto simp: write_file_def)

lemma write_file_append:
  "write_file (write_file f (pos, xs)) (pos + int (length xs), ys) = write_file f (pos, xs @ ys)"
proof
  fix off
  show "write_file (write_file f (pos, xs)) (pos + int (length xs), ys) off = write_file f (pos, xs @ ys) off"
  proof (cases "pos + int (length xs) \<le> off")
    case True
    then have "nat (off - (pos + int (length xs))) = nat (off - pos) - length xs" "\<not> nat (off - pos) < length xs" by linarith+
    then show ?thesis using True by (simp add: write_file_def nth_append)
  next
    case False
    then have "pos \<le> off \<Longrightarrow> nat (off - pos) < length xs" by linarith
    then show ?thesis using False by (simp add: write_file_def nth_append)
  qed
qed

definition piece_shape :: "piece \<Rightarrow> nat \<times> int \<times> nat option \<times> int \<times> int \<times> nat" where
  "piece_shape p = (pc_index p, pc_length p, pc_wrCache p, bm_geometry (piece_bm p))"

text \<open>
  A sink on a piece segment that may write every block of it: there is no tracker, or the
  tracker knows the piece, no other connection owns one of its blocks, and the piece has the
  full piece length.
\<close>

definition sink_claimable :: "sink \<Rightarrow> bool" where
  "sink_claimable k \<longleftrightarrow>
     (case sk_tracker k of
        None \<Rightarrow> True
      | Some t \<Rightarrow> tracker_wf t
          \<and> Tracker_blocks t (pc_index (sk_piece k)) = bm_blocks (piece_bm (sk_piece k))
          \<and> list_all (\<lambda>b. Tracker_owner t (pc_index (sk_piece k)) b \<in> {0, sk_cuid k}) [0..<bm_blocks (piece_bm (sk_piece k))]
          \<and> sg_kind (sk_seg k) = PiecedSegment (pc_length (sk_piece k))
          \<and> bm_blockLength (piece_bm (sk_piece k)) = BLOCK_LENGTH
          \<and> int (pc_index (sk_piece k)) * pc_length (sk_piece k) + pc_length (sk_piece k) < 2 ^ 63)"

definition sink_ready :: "sink \<Rightarrow> bool" where
  "sink_ready k \<longleftrightarrow> is_pieced (sk_seg k, sk_piece k) \<and> pc_wrCache (sk_piece k) = None \<and> sink_claimable k
     \<and> sg_written (sk_seg k) \<le> pc_length (sk_piece k)"

lemma sink_block:
  assumes "sink_ready k" "sk_tracker k = Some t"
  shows "Sink_blockIndex k = nat (sg_written (sk_seg k) div BLOCK_LENGTH)"
    and "sg_written (sk_seg k) < pc_length (sk_piece k) \<Longrightarrow> Sink_blockIndex k < bm_blocks (piece_bm (sk_piece k))"
proof -
  let ?w = "sg_written (sk_seg k)" and ?p = "sk_piece k"
  have r: "piece_ok ?p" "0 \<le> ?w" "?w \<le> pc_length ?p" "sg_kind (sk_seg k) = PiecedSegment (pc_length ?p)"
    "bm_blockLength (piece_bm ?p) = BLOCK_LENGTH" "int (pc_index ?p) * pc_length ?p + pc_length ?p < 2 ^ 63"
    using assms by (auto simp: sink_ready_def is_pieced_def sink_claimable_def)
  have s0: "0 \<le> int (pc_index ?p) * pc_length ?p" using r(1) by (simp add: piece_ok_def)
  have start: "to_int64 (int (pc_index ?p) * pc_length ?p) = int (pc_index ?p) * pc_length ?p"
    by (rule to_int64_id) (use s0 r(2,3,6) in linarith)+
  have q: "0 \<le> ?w div BLOCK_LENGTH" "?w div BLOCK_LENGTH \<le> ?w" "?w < 2 ^ 63"
    using r(2,3) piece_blocks(4) [OF r(1)] by (simp_all add: BLOCK_LENGTH_def zdiv_mono2 [of ?w 1 16384, simplified])
  have sd: "?w sdiv BLOCK_LENGTH = ?w div BLOCK_LENGTH"
    using r(2) by (simp add: signed_divide_int_def sgn_if BLOCK_LENGTH_def)
  have "Sink_blockIndex k = to_size (?w div BLOCK_LENGTH)"
    unfolding Sink_blockIndex_def Let_def start Segment_getPositionToWrite_def Segment_getPosition_def
    using r(4) sd by simp
  also have "\<dots> = nat (?w div BLOCK_LENGTH)" using q by (intro to_size_nonneg) simp_all
  finally show e: "Sink_blockIndex k = nat (?w div BLOCK_LENGTH)" .
  assume "?w < pc_length ?p"
  then have "?w < int (bm_blocks (piece_bm ?p)) * BLOCK_LENGTH" using piece_blocks(3) [OF r(1), unfolded r(5)] by linarith
  then have "?w div BLOCK_LENGTH < int (bm_blocks (piece_bm ?p))" by (simp add: BLOCK_LENGTH_def div_less_iff_less_mult) 
  then show "Sink_blockIndex k < bm_blocks (piece_bm ?p)" using e q(1) by linarith
qed

lemma Sink_claim_ready:
  assumes "sink_ready k" and "Sink_claim k = (k', won)"
  shows "sink_ready k'" "\<exists>t. k' = k\<lparr>sk_tracker := t\<rparr>"
    and "sg_written (sk_seg k) < pc_length (sk_piece k) \<Longrightarrow> won"
proof -
  let ?idx = "pc_index (sk_piece k)" and ?b = "Sink_blockIndex k" and ?n = "bm_blocks (piece_bm (sk_piece k))"
  have "sink_ready k' \<and> (\<exists>t. k' = k\<lparr>sk_tracker := t\<rparr>) \<and> (sg_written (sk_seg k) < pc_length (sk_piece k) \<longrightarrow> won)"
  proof (cases "sk_tracker k")
    case None
    then have "k' = k" "won" using assms(2) by (simp_all add: Sink_claim_def)
    then show ?thesis using assms(1) by (auto intro: exI [of _ "sk_tracker k"])
  next
    case (Some t)
    obtain t' where t': "Tracker_try_start_write t ?idx ?b (sk_cuid k) = (t', won)" "k' = k\<lparr>sk_tracker := Some t'\<rparr>"
      using assms(2) Some by (auto simp: Sink_claim_def split: prod.splits)
    have c: "tracker_wf t" "Tracker_blocks t ?idx = ?n" "\<forall>b<?n. Tracker_owner t ?idx b \<in> {0, sk_cuid k}"
      using assms(1) Some by (auto simp: sink_ready_def sink_claimable_def list_all_iff)
    have f: "t' = fst (Tracker_try_start_write t ?idx ?b (sk_cuid k))" by (simp add: t'(1))
    have "tracker_wf t'" "Tracker_blocks t' ?idx = ?n"
      using tracker_wf_ops(3) [OF c(1)] c(2) unfolding f by simp_all
    moreover have "Tracker_owner t' ?idx b \<in> {0, sk_cuid k}" if "b < ?n" for b
      using c(3) that unfolding f Tracker_owner_ops(3) [OF c(1)] by auto
    ultimately have "sink_ready k'" using assms(1) Some t'(2)
      by (simp add: sink_ready_def sink_claimable_def list_all_iff)
    moreover have "won" if w: "sg_written (sk_seg k) < pc_length (sk_piece k)"
    proof -
      have "?b < ?n" by (rule sink_block(2) [OF assms(1) Some w])
      then have "snd (Tracker_try_start_write t ?idx ?b (sk_cuid k))"
        using c by (auto simp: Tracker_try_start_write_def Tracker_blocks_def Tracker_owner_def tracker_wf_def Let_def
            split: option.splits)
      then show ?thesis by (simp add: t'(1))
    qed
    ultimately show ?thesis using t'(2) by auto
  qed
  then show "sink_ready k'" "\<exists>t. k' = k\<lparr>sk_tracker := t\<rparr>" "sg_written (sk_seg k) < pc_length (sk_piece k) \<Longrightarrow> won" by auto
qed

lemma updateHash_shape:
  "is_pieced (s, p) \<Longrightarrow> is_pieced (s, fst (Segment_updateHash s p b d))"
  "piece_shape (fst (Segment_updateHash s p b d)) = piece_shape p"
  "piece_have (fst (Segment_updateHash s p b d)) = piece_have p"
  by (auto simp: Segment_updateHash_def Piece_updateHash_def is_pieced_def piece_ok_def piece_bm_def piece_shape_def
      piece_have_def blocks_before_def block_end_def split: segment_kind.splits)

lemma sink_ready_shape:
  assumes "sink_ready k" "piece_shape (sk_piece k') = piece_shape (sk_piece k)" "is_pieced (sk_seg k', sk_piece k')"
    "sg_kind (sk_seg k') = sg_kind (sk_seg k)" "sk_tracker k' = sk_tracker k" "sk_cuid k' = sk_cuid k"
    "sg_written (sk_seg k') \<le> pc_length (sk_piece k')"
  shows "sink_ready k'"
  using assms unfolding sink_ready_def sink_claimable_def piece_shape_def bm_geometry_def
  by (simp split: option.splits)

lemma piece_frame_shape: "piece_frame p p' \<Longrightarrow> piece_shape p' = piece_shape p"
  by (simp add: piece_shape_def piece_frameD) (simp add: piece_frame_def)

text \<open>One buffer: what fits is written behind what was written, whichever way the claim goes.\<close>

lemma transform_ready:
  assumes "sink_ready k" "\<forall>pos data. wout pos data"
  obtains k' where "SinkStreamFilter_transform wout io k buf inbuf
      = Some (k', Inr (min (length inbuf) (nat (pc_length (sk_piece k) - sg_written (sk_seg k)))))"
    and "sink_ready k'" "piece_shape (sk_piece k') = piece_shape (sk_piece k)"
    and "sg_kind (sk_seg k') = sg_kind (sk_seg k)"
    and "sg_written (sk_seg k') = sg_written (sk_seg k)
      + int (min (length inbuf) (nat (pc_length (sk_piece k) - sg_written (sk_seg k))))"
    and "file_after f (sk_disk k') = write_file (file_after f (sk_disk k))
      (Segment_getPositionToWrite (sk_seg k) (sk_piece k),
       take (nat (pc_length (sk_piece k) - sg_written (sk_seg k))) inbuf)"
    and "sk_cuid k' = sk_cuid k" "sk_cache k' = sk_cache k"
    and "piece_have (sk_piece k') = piece_have (sk_piece k) \<union> blocks_before (sk_piece k) (sg_written (sk_seg k'))"
proof (cases "inbuf = []")
  case True
  have r: "is_pieced (sk_seg k, sk_piece k)" "sg_written (sk_seg k) \<le> pc_length (sk_piece k)"
    using assms(1) by (auto simp: sink_ready_def)
  have "sink_ready (k\<lparr>sk_bytesProcessed := 0\<rparr>)" by (rule sink_ready_shape [OF assms(1)]) (use r in simp_all)
  moreover have "piece_have (sk_piece k) = piece_have (sk_piece k) \<union> blocks_before (sk_piece k) (sg_written (sk_seg k))"
    using r(1) by (auto simp: is_pieced_def)
  ultimately show thesis
    by (intro that [of "k\<lparr>sk_bytesProcessed := 0\<rparr>"]) (simp_all add: SinkStreamFilter_transform_def True)
next
  case False
  let ?p = "sk_piece k" and ?s = "sk_seg k"
  let ?w = "sg_written ?s" let ?wlen = "min (length inbuf) (nat (pc_length ?p - ?w))"
  have r: "is_pieced (?s, ?p)" "pc_wrCache ?p = None" "?w \<le> pc_length ?p" "0 \<le> ?w" "0 < pc_length ?p" "piece_ok ?p"
    using assms(1) by (auto simp: sink_ready_def is_pieced_def piece_ok_def)
  obtain pl where pl: "sg_kind ?s = PiecedSegment pl" using r(1) by (auto simp: is_pieced_def)
  have len: "Segment_getLength ?s ?p = pc_length ?p" by (simp add: Segment_getLength_def pl)
  have "to_size (pc_length ?p - ?w) = nat (pc_length ?p - ?w)"
    using r(3-5) piece_blocks(4) [OF r(6)] by (intro to_size_nonneg) simp_all
  then have av: "Sink_available k (length inbuf) = Some ?wlen"
    using r(3,5) by (simp add: Sink_available_def len Let_def)
  obtain k1 won where claim: "Sink_claim k = (k1, won)" by force
  obtain t where t: "k1 = k\<lparr>sk_tracker := t\<rparr>" "sink_ready k1" "?w < pc_length ?p \<Longrightarrow> won"
    using Sink_claim_ready [OF assms(1) claim] by blast
  let ?data = "take ?wlen inbuf"
  let ?pos = "Segment_getPositionToWrite ?s ?p"
  define k3 where "k3 = k1\<lparr>sk_lastWriteCommitted := won, sk_disk := sk_disk k @ (if won then [(?pos, ?data)] else [])\<rparr>"
  have k3: "sk_seg k3 = ?s" "sk_piece k3 = ?p" "sk_tracker k3 = t" "sk_cuid k3 = sk_cuid k" "sk_cache k3 = sk_cache k"
    "sk_hashUpdate k3 = sk_hashUpdate k" by (simp_all add: k3_def t(1))
  define h where "h = (won \<and> sk_hashUpdate k)"
  define k4 where "k4 = (if h then k3\<lparr>sk_piece := fst (Segment_updateHash ?s ?p ?w ?data)\<rparr> else k3)"
  have store: "(if won then Sink_store wout io (k1\<lparr>sk_lastWriteCommitted := won\<rparr>) buf ?data
      else Some (k1\<lparr>sk_lastWriteCommitted := won\<rparr>, None)) = Some (k3, None)"
    using assms(2) r(2) by (cases won) (simp_all add: Sink_store_def k3_def t(1))
  have k4: "sk_seg k4 = ?s" "sk_tracker k4 = t" "sk_cuid k4 = sk_cuid k" "sk_cache k4 = sk_cache k" "sk_disk k4 = sk_disk k3"
    "is_pieced (?s, sk_piece k4)" "piece_shape (sk_piece k4) = piece_shape ?p" "piece_have (sk_piece k4) = piece_have ?p"
    using k3 r(1) updateHash_shape [of ?s ?p ?w ?data] by (simp_all add: k4_def)
  have len4: "pc_length (sk_piece k4) = pc_length ?p" using k4(7) by (simp add: piece_shape_def)
  have wn: "?w + int ?wlen \<le> pc_length (sk_piece k4)" using len4 r(3) by linarith
  have p4: "piece_ok (sk_piece k4)" "blocks_before (sk_piece k4) ?w \<subseteq> piece_have (sk_piece k4)"
    using k4(6) by (auto simp: is_pieced_def)
  have bb: "blocks_before (sk_piece k4) x = blocks_before ?p x" for x
    using k4(7) by (simp add: blocks_before_def block_end_def piece_shape_def bm_geometry_def)
  obtain p' where p': "PiecedSegment_updateWrittenLength ?s (sk_piece k4) (int ?wlen) = Some (?s\<lparr>sg_written := ?w + int ?wlen\<rparr>, p')"
    "piece_ok p'" "piece_frame (sk_piece k4) p'" "piece_have p' = piece_have (sk_piece k4) \<union> blocks_before (sk_piece k4) (?w + int ?wlen)"
    using Pieced_update_ok [OF p4(1) r(4) _ wn p4(2)] by auto
  define k' where "k' = k4\<lparr>sk_seg := ?s\<lparr>sg_written := ?w + int ?wlen\<rparr>, sk_piece := p', sk_bytesProcessed := ?wlen\<rparr>"
  have shape: "piece_shape p' = piece_shape ?p" using piece_frame_shape [OF p'(3)] k4(7) by simp
  have tr: "SinkStreamFilter_transform wout io k buf inbuf = Some (k', Inr ?wlen)"
    unfolding SinkStreamFilter_transform_def claim Let_def
    using False av store k3 p'(1) pl
    by (cases "won \<and> sk_hashUpdate k") (auto simp: k'_def k4_def h_def Segment_updateWrittenLength_def)
  have file_eq: "file_after f (sk_disk k') = write_file (file_after f (sk_disk k)) (?pos, take (nat (pc_length ?p - ?w)) inbuf)"
  proof (cases won)
    case True
    have "take (nat (pc_length ?p - ?w)) inbuf = ?data" by (simp add: min_def)
    then show ?thesis using True k4(5) by (simp add: k'_def k3_def)
  next
    case False
    then have "nat (pc_length ?p - ?w) = 0" using t(3) r(3) by linarith
    then show ?thesis using False k4(5) by (simp add: k'_def k3_def)
  qed
  have pieced': "is_pieced (?s\<lparr>sg_written := ?w + int ?wlen\<rparr>, p')"
    using p'(2,4) pl r(4) bb blocks_before_frame [OF p'(3)] by (simp add: is_pieced_def)
  have ready: "sink_ready k'"
    by (rule sink_ready_shape [OF t(2)])
      (use shape pieced' pl k4 wn len4 t(1) in \<open>simp_all add: k'_def piece_frameD [OF p'(3)] Sink_claim_def\<close>)
  show thesis
    by (rule that [OF tr ready])
      (use shape p'(4) bb k4 file_eq pl in \<open>simp_all add: k'_def\<close>)
qed

text \<open>A sequence of buffers, up to the first exception.\<close>

fun sink_run :: "(int \<Rightarrow> byte list \<Rightarrow> bool) \<Rightarrow> (cell list \<Rightarrow> bool) \<Rightarrow> (nat \<times> byte list) list \<Rightarrow> sink \<Rightarrow>
    (sink \<times> (download_error + nat)) option" where
  "sink_run wout io [] k = Some (k, Inr 0)"
| "sink_run wout io (b # bs) k =
     (case SinkStreamFilter_transform wout io k (fst b) (snd b) of
        None \<Rightarrow> None
      | Some (k', Inl e) \<Rightarrow> Some (k', Inl e)
      | Some (k', Inr n) \<Rightarrow>
          map_option (\<lambda>(k'', r). (k'', case r of Inl e \<Rightarrow> Inl e | Inr m \<Rightarrow> Inr (n + m))) (sink_run wout io bs k'))"

lemma sink_run_ready:
  assumes "sink_ready k" "\<forall>pos data. wout pos data"
  shows "\<exists>k'. sink_run wout io bufs k = Some (k', Inr (min (length (concat (map snd bufs))) (nat (pc_length (sk_piece k) - sg_written (sk_seg k)))))
    \<and> sink_ready k' \<and> piece_shape (sk_piece k') = piece_shape (sk_piece k)
    \<and> sg_written (sk_seg k') = sg_written (sk_seg k)
        + int (min (length (concat (map snd bufs))) (nat (pc_length (sk_piece k) - sg_written (sk_seg k))))
    \<and> file_after f (sk_disk k') = write_file (file_after f (sk_disk k))
        (Segment_getPositionToWrite (sk_seg k) (sk_piece k),
         take (nat (pc_length (sk_piece k) - sg_written (sk_seg k))) (concat (map snd bufs)))"
  using assms(1)
proof (induction bufs arbitrary: k)
  case (Cons b bs)
  let ?a = "nat (pc_length (sk_piece k) - sg_written (sk_seg k))" and ?x = "snd b" and ?y = "concat (map snd bs)"
  obtain k1 where k1: "SinkStreamFilter_transform wout io k (fst b) ?x = Some (k1, Inr (min (length ?x) ?a))"
    "sink_ready k1" "piece_shape (sk_piece k1) = piece_shape (sk_piece k)" "sg_kind (sk_seg k1) = sg_kind (sk_seg k)"
    "sg_written (sk_seg k1) = sg_written (sk_seg k) + int (min (length ?x) ?a)"
    "file_after f (sk_disk k1) = write_file (file_after f (sk_disk k))
      (Segment_getPositionToWrite (sk_seg k) (sk_piece k), take ?a ?x)"
    by (rule transform_ready [OF Cons.prems assms(2), where f = f and io = io and buf = "fst b" and inbuf = ?x]) blast
  let ?a1 = "nat (pc_length (sk_piece k1) - sg_written (sk_seg k1))"
  let ?pos = "Segment_getPositionToWrite (sk_seg k) (sk_piece k)"
  have shape: "pc_length (sk_piece k1) = pc_length (sk_piece k)" "pc_index (sk_piece k1) = pc_index (sk_piece k)"
    using k1(3) by (simp_all add: piece_shape_def)
  have a1: "?a1 = ?a - length ?x" using k1(5) shape(1) by (cases "length ?x \<le> ?a") linarith+
  have pos: "Segment_getPositionToWrite (sk_seg k1) (sk_piece k1) = ?pos + int (length (take ?a ?x))"
    using k1(4,5) shape(2) by (simp add: Segment_getPositionToWrite_def Segment_getPosition_def split: segment_kind.splits)
  from Cons.IH [OF k1(2)] obtain k' where k': "sink_run wout io bs k1 = Some (k', Inr (min (length ?y) ?a1))"
    "sink_ready k'" "piece_shape (sk_piece k') = piece_shape (sk_piece k1)"
    "sg_written (sk_seg k') = sg_written (sk_seg k1) + int (min (length ?y) ?a1)"
    "file_after f (sk_disk k') = write_file (file_after f (sk_disk k1))
      (Segment_getPositionToWrite (sk_seg k1) (sk_piece k1), take ?a1 ?y)" by blast
  have n: "min (length ?x) ?a + min (length ?y) ?a1 = min (length (concat (map snd (b # bs)))) ?a"
    unfolding a1 by simp
  have written: "file_after f (sk_disk k') = write_file (file_after f (sk_disk k)) (?pos, take ?a (concat (map snd (b # bs))))"
    unfolding k'(5) pos k1(6) write_file_append a1 by simp
  have run: "sink_run wout io (b # bs) k = Some (k', Inr (min (length (concat (map snd (b # bs)))) ?a))"
    unfolding n [symmetric] by (simp only: sink_run.simps k1(1) k'(1) option.case prod.case sum.case option.map)
  have adv: "sg_written (sk_seg k') = sg_written (sk_seg k) + int (min (length (concat (map snd (b # bs)))) ?a)"
    unfolding n [symmetric] k'(4) k1(5) of_nat_add by simp
  show ?case by (rule exI [of _ k']) (intro conjI run k'(2) adv written trans [OF k'(3) k1(3)])
qed (simp add: of_nat_diff)

lemma Piece_new_ok:
  assumes "0 < bl" "bl < 2 ^ 31" "0 < len" "len < 2 ^ 63"
  shows "piece_ok (Piece_new index len bl)" and "piece_have (Piece_new index len bl) = {}"
    and "bm_blockLength (piece_bm (Piece_new index len bl)) = bl"
    and "pc_bitfield (Piece_new index len bl) = Some (BitfieldMan_new bl len)"
proof -
  note n = BitfieldMan_new_spec [OF assms(2,4)]
  have "bm_bitfield (BitfieldMan_new bl len) = replicate (bm_bitfieldLength (BitfieldMan_new bl len)) 0"
    by (simp add: BitfieldMan_new_def Let_def)
  then have "bm_padded (BitfieldMan_new bl len)" by (simp add: bm_padded_def bit_set_zero)
  then show "piece_ok (Piece_new index len bl)" "piece_have (Piece_new index len bl) = {}"
    "bm_blockLength (piece_bm (Piece_new index len bl)) = bl"
    "pc_bitfield (Piece_new index len bl) = Some (BitfieldMan_new bl len)"
    using n assms by (simp_all add: piece_ok_def piece_have_def piece_bm_def Piece_new_def)
qed

lemma PiecedSegment_new_kind: "PiecedSegment_new pl a p = Some s \<Longrightarrow> sg_kind s = PiecedSegment pl"
  by (cases s) (auto simp: PiecedSegment_new_def split: option.splits)

lemma sink_readyI:
  assumes "PiecedSegment_new pl a (sk_piece k) = Some (sk_seg k)" "piece_ok (sk_piece k)"
    "piece_have (sk_piece k) \<noteq> {..<bm_blocks (piece_bm (sk_piece k))}" "pc_wrCache (sk_piece k) = None" "sink_claimable k"
  shows "sink_ready k"
proof -
  obtain i where i: "sk_seg k = \<lparr>sg_kind = PiecedSegment pl, sg_piece = a, sg_written = int i * bm_blockLength (piece_bm (sk_piece k))\<rparr>"
    "blocks_before (sk_piece k) (int i * bm_blockLength (piece_bm (sk_piece k))) \<subseteq> piece_have (sk_piece k)"
    "int i * bm_blockLength (piece_bm (sk_piece k)) < pc_length (sk_piece k)"
    by (rule PiecedSegment_new_ok [OF assms(2,3), of pl a]) (use assms(1) in auto)
  then show ?thesis using assms(2,4,5) by (simp add: sink_ready_def is_pieced_def piece_ok_def)
qed

subsection \<open>Properties\<close>

text \<open>C38: A segment on a partly downloaded piece starts at the piece's first missing block; after
  any sequence of writes that fits, the written length has advanced by their sum and the piece
  has exactly the blocks it had and those that end at or before the written length, so a
  segment written to its end is complete.\<close>
theorem segment_progress:
  assumes "piece_ok p" "piece_have p \<noteq> {..<bm_blocks (piece_bm p)}" "PiecedSegment_new pl a p = Some s"
    and "list_all (\<lambda>n. 0 \<le> n) ns" "sg_written s + sum_list ns \<le> pc_length p"
  shows "\<exists>i p'. i < bm_blocks (piece_bm p) \<and> i \<notin> piece_have p \<and> {..<i} \<subseteq> piece_have p
    \<and> sg_written s = int i * bm_blockLength (piece_bm p)
    \<and> Segment_update_all ns (s, p) = Some (s\<lparr>sg_written := sg_written s + sum_list ns\<rparr>, p')
    \<and> piece_have p' = piece_have p
        \<union> {b. b < bm_blocks (piece_bm p) \<and> block_end p b \<le> sg_written s + sum_list ns}
    \<and> (sg_written s + sum_list ns = pc_length p \<longrightarrow> Segment_complete s p' = Some True)"
proof -
  obtain i where i: "s = \<lparr>sg_kind = PiecedSegment pl, sg_piece = a, sg_written = int i * bm_blockLength (piece_bm p)\<rparr>"
    "i < bm_blocks (piece_bm p)" "i \<notin> piece_have p" "{..<i} \<subseteq> piece_have p" "blocks_before p (sg_written s) \<subseteq> piece_have p"
    using PiecedSegment_new_ok [OF assms(1,2), of pl a] assms(3) by (metis option.inject segment.select_convs(3))
  have w: "0 \<le> sg_written s" "sg_kind s = PiecedSegment pl" using assms(1) by (simp_all add: i(1) piece_ok_def)
  obtain p' where p': "Segment_update_all ns (s, p) = Some (s\<lparr>sg_written := sg_written s + sum_list ns\<rparr>, p')" "piece_ok p'"
    "piece_frame p p'" "piece_have p' = piece_have p \<union> blocks_before p (sg_written s + sum_list ns)"
    using Segment_update_all_ok [OF assms(1) w(2,1) assms(4,5) i(5)] by blast
  have sub: "piece_have p \<subseteq> {..<bm_blocks (piece_bm p)}"
    by (auto simp: piece_have_bm [OF assms(1)] bm_have_def bit_set_def)
  have full: "Segment_complete s p' = Some True" if "sg_written s + sum_list ns = pc_length p"
  proof -
    have "piece_have p' = {..<bm_blocks (piece_bm p')}"
      using p'(4) that blocks_before_all [OF assms(1)] sub piece_frameD(9) [OF p'(3)] by auto
    then have "BitfieldMan_isAllBitSet (piece_bm p')"
      using p'(2) piece_have_bm [OF p'(2)] isAllBitSet_iff [of "piece_bm p'"] by (simp add: piece_ok_def bm_inv_def)
    then show ?thesis using p'(2) w(2) by (auto simp: Segment_complete_def Piece_pieceComplete_def piece_ok_def piece_bm_def)
  qed
  have "sg_written s = int i * bm_blockLength (piece_bm p)" by (simp add: i(1))
  then show ?thesis using i(2-4) p'(1,4) full unfolding blocks_before_def by blast
qed

theorem segment_progress_witness:
  "\<exists>s p'. PiecedSegment_new 40 7 (Piece_new 3 40 16) = Some s \<and> sg_written s = 0
    \<and> Segment_update_all [10, 7, 23] (s, Piece_new 3 40 16) = Some (s\<lparr>sg_written := 40\<rparr>, p')
    \<and> Segment_complete s p' = Some True"
proof -
  let ?p = "Piece_new 3 40 16"
  have ok: "piece_ok ?p" "piece_have ?p = {}" by (simp_all add: Piece_new_ok)
  then have ne: "piece_have ?p \<noteq> {..<bm_blocks (piece_bm ?p)}" using piece_blocks(1) [OF ok(1)] by auto
  obtain i where i: "PiecedSegment_new 40 7 ?p = Some \<lparr>sg_kind = PiecedSegment 40, sg_piece = 7,
      sg_written = int i * bm_blockLength (piece_bm ?p)\<rparr>" "{..<i} \<subseteq> piece_have ?p"
    using PiecedSegment_new_ok [OF ok(1) ne, of 40 7] by blast
  then have i0: "i = 0" using ok(2) by auto
  have len: "pc_length ?p = 40" by (simp add: Piece_new_def)
  from segment_progress [OF ok(1) ne i(1), of "[10, 7, 23]"] show ?thesis using i(1) by (auto simp: i0 len)
qed

text \<open>C39: The sink writes the stream to its place: for a segment just made on an unfinished piece without a write
  cache, when the writes succeed, any sequence of buffers puts the bytes the segment still needs, in order and however
  the buffers are cut, at the segment's position in the file and nothing anywhere else; the number reported is the number of bytes
  taken. If blocks are claimed from a tracker (\<open>sink_claimable\<close>), the tracker has the blocks of the piece, no other
  connection owns one, the blocks are of 16 KiB, and the piece has the full piece length: for a shorter last piece the claims are
  lost (\<open>short_last_piece_lost\<close>).\<close>
theorem sink_writes_stream:
  assumes "PiecedSegment_new pl a (sk_piece k) = Some (sk_seg k)" "piece_ok (sk_piece k)"
    and "piece_have (sk_piece k) \<noteq> {..<bm_blocks (piece_bm (sk_piece k))}"
    and "pc_wrCache (sk_piece k) = None" "sink_claimable k" "\<forall>pos data. wout pos data"
    and "room = nat (pc_length (sk_piece k) - sg_written (sk_seg k))" "stream = concat (map snd bufs)"
  shows "\<exists>k'. sink_run wout io bufs k = Some (k', Inr (min (length stream) room))
    \<and> sg_written (sk_seg k') = sg_written (sk_seg k) + int (min (length stream) room)
    \<and> file_after f (sk_disk k') = write_file (file_after f (sk_disk k))
        (int (pc_index (sk_piece k)) * pl + sg_written (sk_seg k), take room stream)"
proof -
  have ready: "sink_ready k" by (rule sink_readyI [OF assms(1-5)])
  have "sg_kind (sk_seg k) = PiecedSegment pl" by (rule PiecedSegment_new_kind [OF assms(1)])
  then have "Segment_getPositionToWrite (sk_seg k) (sk_piece k) = int (pc_index (sk_piece k)) * pl + sg_written (sk_seg k)"
    by (simp add: Segment_getPositionToWrite_def Segment_getPosition_def)
  then show ?thesis using sink_run_ready [OF ready assms(6), where io = io and bufs = bufs and f = f] assms(7,8) by auto
qed

theorem sink_writes_stream_witness:
  "\<exists>s k'. PiecedSegment_new 5 9 (Piece_new 2 5 (16 * 1024)) = Some s
    \<and> sink_run (\<lambda>_ _. True) (\<lambda>_. True) [(0, [1, 2]), (0, []), (0, [3, 4, 5, 6])]
        \<lparr>sk_hashUpdate = True, sk_bytesProcessed = 0, sk_lastWriteCommitted = False, sk_cuid = 4, sk_seg = s,
         sk_piece = Piece_new 2 5 (16 * 1024), sk_tracker = Some (Tracker_add_piece Map.empty 2 1), sk_cache = None, sk_disk = []\<rparr>
      = Some (k', Inr 5)
    \<and> map (file_after (\<lambda>_. 0) (sk_disk k')) [9, 10, 11, 12, 13, 14, 15] = [0, 1, 2, 3, 4, 5, 0]"
proof -
  let ?p = "Piece_new 2 5 (16 * 1024)"
  have ok: "piece_ok ?p" "piece_have ?p = {}" "bm_blockLength (piece_bm ?p) = 16 * 1024" by (simp_all add: Piece_new_ok)
  have blocks: "bm_blocks (piece_bm ?p) = 1" by (simp add: Piece_new_def piece_bm_def BitfieldMan_new_def Let_def)
  have ne: "piece_have ?p \<noteq> {..<bm_blocks (piece_bm ?p)}" using ok(2) blocks by auto
  have flds: "pc_index ?p = 2" "pc_length ?p = 5" "pc_wrCache ?p = None" by (simp_all add: Piece_new_def Piece_empty_def)
  obtain i where i: "PiecedSegment_new 5 9 ?p = Some \<lparr>sg_kind = PiecedSegment 5, sg_piece = 9,
      sg_written = int i * bm_blockLength (piece_bm ?p)\<rparr>" "{..<i} \<subseteq> piece_have ?p"
    using PiecedSegment_new_ok [OF ok(1) ne, of 5 9] by blast
  have i0: "i = 0" using i(2) ok(2) by auto
  let ?s = "\<lparr>sg_kind = PiecedSegment 5, sg_piece = 9, sg_written = 0\<rparr>"
  let ?k = "\<lparr>sk_hashUpdate = True, sk_bytesProcessed = 0, sk_lastWriteCommitted = False, sk_cuid = 4, sk_seg = ?s,
         sk_piece = ?p, sk_tracker = Some (Tracker_add_piece Map.empty 2 1), sk_cache = None, sk_disk = []\<rparr>"
  have s: "PiecedSegment_new 5 9 ?p = Some ?s" using i(1) i0 by simp
  have "Tracker_owner Map.empty 2 0 = 0" by (simp add: Tracker_owner_def)
  then have claim: "sink_claimable ?k" using flds blocks ok(3) by (simp add: sink_claimable_def BLOCK_LENGTH_def)
  obtain k' where "sink_run (\<lambda>_ _. True) (\<lambda>_. True) [(0, [1, 2]), (0, []), (0, [3, 4, 5, 6])] ?k = Some (k', Inr 5)"
    "file_after (\<lambda>_. 0) (sk_disk k') = write_file (\<lambda>_. 0) (10, [1, 2, 3, 4, 5])"
    using sink_writes_stream [where k = ?k and pl = 5 and a = 9 and wout = "\<lambda>_ _. True" and io = "\<lambda>_. True" and f = "\<lambda>_. 0"
        and bufs = "[(0, [1, 2]), (0, []), (0, [3, 4, 5, 6])]", OF _ _ _ _ claim _ refl refl] ok ne s flds
    by (auto simp: file_after_def)
  then show ?thesis using s by (auto simp: write_file_def)
qed

lemma lost_claim:
  assumes "sk_tracker k = Some t" "tracker_wf t"
    and "\<not> (Sink_blockIndex k < Tracker_blocks t (pc_index (sk_piece k))
        \<and> Tracker_owner t (pc_index (sk_piece k)) (Sink_blockIndex k) \<in> {0, sk_cuid k})"
  shows "Sink_claim k = (k, False)"
proof -
  have "Tracker_try_start_write t (pc_index (sk_piece k)) (Sink_blockIndex k) (sk_cuid k) = (t, False)"
    using assms(2,3) by (auto simp: Tracker_try_start_write_def Tracker_blocks_def Tracker_owner_def tracker_wf_def Let_def
        split: option.splits if_splits)
  then show ?thesis using assms(1) by (simp add: Sink_claim_def)
qed

text \<open>C40: A write whose block the tracker does not grant is discarded, and counted. Neither the disk
  nor the cache changes and \<open>lastWriteCommitted_\<close> is false, but the number reported, the written
  length and the finished blocks are those of a write that was stored, so a segment can be
  complete although its bytes were dropped.\<close>
theorem discarded_write_counts:
  assumes "sk_tracker k = Some t" "tracker_wf t" "is_pieced (sk_seg k, sk_piece k)"
    and "\<not> (Sink_blockIndex k < Tracker_blocks t (pc_index (sk_piece k))
        \<and> Tracker_owner t (pc_index (sk_piece k)) (Sink_blockIndex k) \<in> {0, sk_cuid k})"
    and "inbuf \<noteq> []" "sg_written (sk_seg k) + int (length inbuf) \<le> pc_length (sk_piece k)"
  shows "\<exists>k'. SinkStreamFilter_transform wout io k buf inbuf = Some (k', Inr (length inbuf))
    \<and> sk_disk k' = sk_disk k \<and> sk_cache k' = sk_cache k \<and> \<not> sk_lastWriteCommitted k'
    \<and> sg_written (sk_seg k') = sg_written (sk_seg k) + int (length inbuf)
    \<and> piece_have (sk_piece k') = piece_have (sk_piece k)
        \<union> {b. b < bm_blocks (piece_bm (sk_piece k)) \<and> block_end (sk_piece k) b \<le> sg_written (sk_seg k')}"
proof -
  let ?p = "sk_piece k" and ?s = "sk_seg k" let ?w = "sg_written ?s"
  obtain pl where r: "piece_ok ?p" "0 \<le> ?w" "0 < pc_length ?p" "sg_kind ?s = PiecedSegment pl" "blocks_before ?p ?w \<subseteq> piece_have ?p"
    using assms(3) by (auto simp: is_pieced_def piece_ok_def)
  have "to_size (pc_length ?p - ?w) = nat (pc_length ?p - ?w)"
    using r(2) assms(6) piece_blocks(4) [OF r(1)] by (intro to_size_nonneg) simp_all
  then have av: "Sink_available k (length inbuf) = Some (length inbuf)"
    using r(3) assms(6) by (simp add: Sink_available_def Segment_getLength_def r(4) Let_def)
  obtain p' where p': "PiecedSegment_updateWrittenLength ?s ?p (int (length inbuf)) = Some (?s\<lparr>sg_written := ?w + int (length inbuf)\<rparr>, p')"
    "piece_have p' = piece_have ?p \<union> blocks_before ?p (?w + int (length inbuf))"
    using Pieced_update_ok [OF r(1,2) _ assms(6) r(5)] by auto
  show ?thesis
    unfolding SinkStreamFilter_transform_def lost_claim [OF assms(1,2,4)] Let_def
    using assms(5) av r(4) p' by (simp add: Segment_updateWrittenLength_def blocks_before_def)
qed

theorem discarded_write_counts_witness:
  "\<exists>s k'. SinkStreamFilter_transform (\<lambda>_ _. True) (\<lambda>_. True)
        \<lparr>sk_hashUpdate = False, sk_bytesProcessed = 0, sk_lastWriteCommitted = False, sk_cuid = 4, sk_seg = s,
         sk_piece = Piece_new 1 2 (16 * 1024), sk_tracker = Some (Tracker_add_piece Map.empty 1 1), sk_cache = None, sk_disk = []\<rparr>
        0 [7, 8] = Some (k', Inr 2)
    \<and> PiecedSegment_new (32 * 1024) 9 (Piece_new 1 2 (16 * 1024)) = Some s
    \<and> sk_disk k' = [] \<and> piece_have (sk_piece k') = {0}"
proof -
  let ?p = "Piece_new 1 2 (16 * 1024)"
  have ok: "piece_ok ?p" "piece_have ?p = {}" "bm_blockLength (piece_bm ?p) = 16 * 1024" by (simp_all add: Piece_new_ok)
  have blocks: "bm_blocks (piece_bm ?p) = 1" by (simp add: Piece_new_def piece_bm_def BitfieldMan_new_def Let_def)
  have ne: "piece_have ?p \<noteq> {..<bm_blocks (piece_bm ?p)}" using ok(2) blocks by auto
  have flds: "pc_index ?p = 1" "pc_length ?p = 2" by (simp_all add: Piece_new_def)
  obtain i where i: "PiecedSegment_new (32 * 1024) 9 ?p = Some \<lparr>sg_kind = PiecedSegment (32 * 1024), sg_piece = 9,
      sg_written = int i * bm_blockLength (piece_bm ?p)\<rparr>" "{..<i} \<subseteq> piece_have ?p"
    "blocks_before ?p (int i * bm_blockLength (piece_bm ?p)) \<subseteq> piece_have ?p"
    using PiecedSegment_new_ok [OF ok(1) ne, of "32 * 1024" 9] by blast
  have i0: "i = 0" using i(2) ok(2) by auto
  let ?s = "\<lparr>sg_kind = PiecedSegment (32 * 1024), sg_piece = 9, sg_written = 0\<rparr>"
  let ?t = "Tracker_add_piece Map.empty 1 1"
  let ?k = "\<lparr>sk_hashUpdate = False, sk_bytesProcessed = 0, sk_lastWriteCommitted = False, sk_cuid = 4, sk_seg = ?s,
         sk_piece = ?p, sk_tracker = Some ?t, sk_cache = None, sk_disk = []\<rparr>"
  have "Sink_blockIndex ?k = 1" using flds
    by (simp add: Sink_blockIndex_def Let_def Segment_getPositionToWrite_def Segment_getPosition_def BLOCK_LENGTH_def
        signed_divide_int_def)
  then have lost: "\<not> (Sink_blockIndex ?k < Tracker_blocks ?t (pc_index (sk_piece ?k))
      \<and> Tracker_owner ?t (pc_index (sk_piece ?k)) (Sink_blockIndex ?k) \<in> {0, sk_cuid ?k})" using flds by simp
  have view: "is_pieced (sk_seg ?k, sk_piece ?k)" using ok(1) i(3) i0 by (simp add: is_pieced_def)
  have bl: "{b. b < bm_blocks (piece_bm ?p) \<and> block_end ?p b \<le> 2} = {0}"
    using blocks flds by (auto simp: block_end_def)
  obtain k' where "SinkStreamFilter_transform (\<lambda>_ _. True) (\<lambda>_. True) ?k 0 [7, 8] = Some (k', Inr 2)"
    "sk_disk k' = []" "piece_have (sk_piece k') = {0}"
    using discarded_write_counts [where k = ?k and t = ?t and wout = "\<lambda>_ _. True" and io = "\<lambda>_. True" and buf = 0
        and inbuf = "[7, 8]", OF _ _ view lost] flds ok(2) bl by auto
  then show ?thesis using i(1) i0 by auto
qed

text \<open>The claim is always lost on a last piece that is shorter than the others by enough.\<close>

lemma short_last_piece_lost:
  assumes "sg_kind (sk_seg k) = PiecedSegment pl" "0 \<le> sg_written (sk_seg k)" "sg_written (sk_seg k) < pc_length (sk_piece k)"
    and "pc_length (sk_piece k) \<le> pl" "int (pc_index (sk_piece k)) * pl + pl < 2 ^ 63"
    and "sk_tracker k = Some t" "tracker_wf t"
    and "int (Tracker_blocks t (pc_index (sk_piece k))) * BLOCK_LENGTH \<le> int (pc_index (sk_piece k)) * (pl - pc_length (sk_piece k))"
  shows "Sink_claim k = (k, False)"
proof (rule lost_claim [OF assms(6,7)])
  let ?p = "sk_piece k" let ?i = "int (pc_index ?p)" and ?w = "sg_written (sk_seg k)"
  have le: "?i * pc_length ?p \<le> ?i * pl" using assms(4) by (intro mult_left_mono) auto
  have pos: "0 \<le> ?i * pc_length ?p" using assms(2,3) by simp
  have start: "to_int64 (?i * pc_length ?p) = ?i * pc_length ?p"
    by (rule to_int64_id) (use le pos assms(2-5) in linarith)+
  define rel where "rel = ?i * pl + ?w - ?i * pc_length ?p"
  have "?i * pl + ?w - ?i * pc_length ?p < 2 ^ 63" using le pos assms(2-5) by linarith
  then have rel: "int (Tracker_blocks t (pc_index ?p)) * BLOCK_LENGTH \<le> rel" "0 \<le> rel" "rel < 2 ^ 63"
    using assms(2,8) le by (simp_all add: rel_def right_diff_distrib)
  have "rel sdiv BLOCK_LENGTH = rel div BLOCK_LENGTH" using rel(2) by (simp add: signed_divide_int_def sgn_if BLOCK_LENGTH_def)
  then have idx: "Sink_blockIndex k = to_size (rel div BLOCK_LENGTH)"
    unfolding Sink_blockIndex_def Let_def start Segment_getPositionToWrite_def Segment_getPosition_def rel_def
    using assms(1) by simp
  have q: "int (Tracker_blocks t (pc_index ?p)) \<le> rel div BLOCK_LENGTH" "rel div BLOCK_LENGTH < 2 ^ 64"
    using rel zdiv_mono2 [of rel 1 BLOCK_LENGTH] mult_le_div_int [of BLOCK_LENGTH "int (Tracker_blocks t (pc_index ?p)) - 1" rel]
    by (simp_all add: BLOCK_LENGTH_def)
  then have "Tracker_blocks t (pc_index ?p) \<le> Sink_blockIndex k" unfolding idx by simp
  then show "\<not> (Sink_blockIndex k < Tracker_blocks t (pc_index ?p)
      \<and> Tracker_owner t (pc_index ?p) (Sink_blockIndex k) \<in> {0, sk_cuid k})" by simp
qed

text \<open>
  The cell that a write into the cache makes points to the caller's buffer. Two writes from the
  same buffer make two cells that share it, and the next flush frees it twice.
\<close>

lemma shared_buffer_freed_twice:
  "\<exists>c k1 k2. Piece_initWrCache (\<lambda>_. True) (WrDiskCache_new 100 [7 \<mapsto> [1, 2]]) 0 = Some c
    \<and> SinkStreamFilter_transform (\<lambda>_ _. True) (\<lambda>_. True)
        \<lparr>sk_hashUpdate = False, sk_bytesProcessed = 0, sk_lastWriteCommitted = False, sk_cuid = 4, sk_seg = GrowSegment_new 9,
         sk_piece = (Piece_new 0 0 16384)\<lparr>pc_wrCache := Some 0\<rparr>, sk_tracker = None, sk_cache = Some c, sk_disk = []\<rparr>
        7 [1] = Some (k1, Inr 1)
    \<and> SinkStreamFilter_transform (\<lambda>_ _. True) (\<lambda>_. True) k1 7 [2] = Some (k2, Inr 1)
    \<and> Piece_flushWrCache (\<lambda>_. True) (the (sk_cache k2)) 0 = None"
  by (simp add: Piece_initWrCache_def WrDiskCache_add_def WrDiskCache_new_def WrDiskCache_touch_def WrDiskCache_insert_def
      WrDiskCacheEntry_new_def ensureLimit_within SinkStreamFilter_transform_def Sink_available_def Sink_claim_def
      Sink_store_def GrowSegment_new_def Segment_getLength_def Segment_getPositionToWrite_def Segment_getPosition_def
      Piece_updateWrCache_def WrDiskCacheEntry_cacheData_def WrDiskCache_update_def WrDiskCache_erase_def set_equiv_def
      WrDiskCacheEntry_less_def Segment_updateWrittenLength_def GrowSegment_updateWrittenLength_def Piece_reconfigure_def
      Piece_setAllBlock_def Piece_new_def Piece_empty_def Piece_flushWrCache_def WrDiskCache_writeToDisk_def
      WrDiskCacheEntry_writeToDisk_def WrDiskCacheEntry_deleteDataCells_def cell_bytes_def Let_def to_size_def)

end
