(* ===== verification/Piece_Storage.thy ===== *)
theory Piece_Storage
  imports Segments Piece_Selectors "HOL-Library.Monad_Syntax"
begin

text \<open>
  \<open>DefaultPieceStorage\<close>: which pieces are finished, which are being downloaded and by whom, and
  which piece a connection gets next. The \<open>Piece\<close> objects live at addresses, because segments
  and peer connections share them; \<open>usedPieces_\<close>, a set ordered by piece index, is the list of
  the addresses in that order. A piece's write cache entry has the piece's address as number.
  What the storage only asks other parts of the program for (the download context with its
  file entries, and the request group) is the record \<open>download_context\<close>.
  \<open>None\<close> is a failed assertion, a null or out-of-range access or a misused cache entry.
\<close>

subsection \<open>State\<close>

record file_entry =
  fe_offset :: int
  fe_length :: int
  fe_requested :: bool

text \<open>\<open>rg_segments\<close> is \<open>getPieceRequestedCount\<close> of the group's \<open>SegmentMan\<close>, if it has one.\<close>

record request_group =
  rg_inMemoryDownload :: bool
  rg_numConcurrentCommand :: nat
  rg_segments :: "(nat \<Rightarrow> u16) option"

record download_context =
  dc_pieceLength :: int
  dc_fileEntries :: "file_entry list"
  dc_hashType :: string
  dc_group :: "request_group option"

definition FileEntry_getLastOffset :: "file_entry \<Rightarrow> int" where
  "FileEntry_getLastOffset e = fe_offset e + fe_length e"

definition DownloadContext_getTotalLength :: "download_context \<Rightarrow> int" where
  "DownloadContext_getTotalLength dc =
     (if dc_fileEntries dc = [] then 0 else FileEntry_getLastOffset (last (dc_fileEntries dc)))"

definition DownloadContext_getNumPieces :: "download_context \<Rightarrow> nat option" where
  "DownloadContext_getNumPieces dc =
     (if dc_pieceLength dc = 0 then Some 0
      else if dc_fileEntries dc = [] then None
      else Some (to_size ((FileEntry_getLastOffset (last (dc_fileEntries dc)) + dc_pieceLength dc - 1)
                          sdiv dc_pieceLength dc)))"

record have_entry =
  he_haveIndex :: nat
  he_cuid :: int
  he_index :: nat
  he_registeredTime :: int

datatype stream_piece_selector = DefaultSelector | InorderSelector | RandomSelector | GeomSelector geom_selector

record piece_storage =
  ps_bm :: bitfield_man
  ps_pieces :: "nat \<Rightarrow> piece"
  ps_fresh :: nat
  ps_used :: "nat list"
  ps_endGame :: bool
  ps_endGamePieceNum :: nat
  ps_max_segs :: u16
  ps_nextHaveIndex :: nat
  ps_haves :: "have_entry list"
  ps_stat :: PieceStatMan
  ps_streamSelector :: "stream_piece_selector option"
  ps_cache :: "wr_cache option"

text \<open>An option value that names no selector leaves the pointer null.\<close>

definition stream_selector_of :: "string \<Rightarrow> stream_piece_selector option" where
  "stream_selector_of opt =
     (if opt = [] \<or> opt = ''default'' then Some DefaultSelector
      else if opt = ''inorder'' then Some InorderSelector
      else if opt = ''random'' then Some RandomSelector
      else if opt = ''geom'' then Some (GeomSelector \<lparr>gs_base = 3 / 2, gs_offsetIndex = 0\<rparr>)
      else None)"

definition DefaultPieceStorage_new :: "(nat list \<Rightarrow> nat list) \<Rightarrow> download_context \<Rightarrow> string \<Rightarrow> piece_storage option" where
  "DefaultPieceStorage_new shuffle dc opt =
     do { n \<leftarrow> DownloadContext_getNumPieces dc;
          Some \<lparr>ps_bm = BitfieldMan_new (dc_pieceLength dc) (DownloadContext_getTotalLength dc),
                ps_pieces = (\<lambda>_. Piece_empty), ps_fresh = 0, ps_used = [], ps_endGame = False,
                ps_endGamePieceNum = 20, ps_max_segs = 16, ps_nextHaveIndex = 1, ps_haves = [],
                ps_stat = PieceStatMan_new shuffle n True, ps_streamSelector = stream_selector_of opt,
                ps_cache = None\<rparr> }"

definition DefaultPieceStorage_setWrDiskCache :: "piece_storage \<Rightarrow> wr_cache option \<Rightarrow> piece_storage" where
  "DefaultPieceStorage_setWrDiskCache s c = s\<lparr>ps_cache := c\<rparr>"

abbreviation put_piece :: "piece_storage \<Rightarrow> nat \<Rightarrow> piece \<Rightarrow> piece_storage" where
  "put_piece s a p \<equiv> s\<lparr>ps_pieces := (ps_pieces s)(a := p)\<rparr>"

subsection \<open>The used pieces\<close>

definition DefaultPieceStorage_findUsedPiece :: "piece_storage \<Rightarrow> nat \<Rightarrow> nat option" where
  "DefaultPieceStorage_findUsedPiece s index = find (\<lambda>a. pc_index (ps_pieces s a) = index) (ps_used s)"

fun used_insert :: "(nat \<Rightarrow> nat) \<Rightarrow> nat \<Rightarrow> nat list \<Rightarrow> nat list" where
  "used_insert idx a [] = [a]"
| "used_insert idx a (b # bs) =
     (if idx a < idx b then a # b # bs else if idx a = idx b then b # bs else b # used_insert idx a bs)"

definition DefaultPieceStorage_addUsedPiece :: "piece_storage \<Rightarrow> nat \<Rightarrow> piece_storage" where
  "DefaultPieceStorage_addUsedPiece s a =
     s\<lparr>ps_used := used_insert (\<lambda>b. pc_index (ps_pieces s b)) a (ps_used s)\<rparr>"

text \<open>\<open>make_shared<Piece>\<close> at a fresh address.\<close>

definition alloc_piece :: "piece_storage \<Rightarrow> piece \<Rightarrow> piece_storage \<times> nat" where
  "alloc_piece s p = ((put_piece s (ps_fresh s) p)\<lparr>ps_fresh := ps_fresh s + 1\<rparr>, ps_fresh s)"

definition storage_new_piece :: "download_context \<Rightarrow> piece_storage \<Rightarrow> nat \<Rightarrow> piece" where
  "storage_new_piece dc s index =
     (Piece_new index (BitfieldMan_getBlockLength (ps_bm s) index) BLOCK_LENGTH)\<lparr>pc_hashType := dc_hashType dc\<rparr>"

text \<open>A piece gets a cache entry unless the download is kept in memory or it has one.\<close>

definition storage_initWrCache :: "download_context \<Rightarrow> (cell list \<Rightarrow> bool) \<Rightarrow> piece_storage \<Rightarrow> nat \<Rightarrow> piece_storage option" where
  "storage_initWrCache dc io s a =
     (case ps_cache s of
        None \<Rightarrow> Some s
      | Some c \<Rightarrow>
          if (case dc_group dc of None \<Rightarrow> True | Some g \<Rightarrow> \<not> rg_inMemoryDownload g) \<and> pc_wrCache (ps_pieces s a) = None
          then map_option (\<lambda>c'. (put_piece s a ((ps_pieces s a)\<lparr>pc_wrCache := Some a\<rparr>))\<lparr>ps_cache := Some c'\<rparr>)
                 (Piece_initWrCache io c a)
          else Some s)"

definition DefaultPieceStorage_checkOutPiece :: "download_context \<Rightarrow> (cell list \<Rightarrow> bool) \<Rightarrow> piece_storage \<Rightarrow>
    nat \<Rightarrow> int \<Rightarrow> (piece_storage \<times> nat) option" where
  "DefaultPieceStorage_checkOutPiece dc io s index cuid =
     (if bm_filterEnabled (ps_bm s) \<and> \<not> BitfieldMan_isFilterBitSet (ps_bm s) index then None
      else
        let s1 = s\<lparr>ps_bm := fst (BitfieldMan_setUseBit (ps_bm s) index)\<rparr>;
            (s2, a) = (case DefaultPieceStorage_findUsedPiece s1 index of
                         Some a \<Rightarrow> (s1, a)
                       | None \<Rightarrow>
                           let (s', a) = alloc_piece s1 (storage_new_piece dc s1 index)
                           in (DefaultPieceStorage_addUsedPiece s' a, a));
            s3 = put_piece s2 a (Piece_addUser (ps_pieces s2 a) cuid)
        in map_option (\<lambda>s4. (s4, a)) (storage_initWrCache dc io s3 a))"

definition DefaultPieceStorage_hasPiece :: "piece_storage \<Rightarrow> nat \<Rightarrow> bool" where
  "DefaultPieceStorage_hasPiece s index = BitfieldMan_isBitSet (ps_bm s) index"

definition DefaultPieceStorage_isPieceUsed :: "piece_storage \<Rightarrow> nat \<Rightarrow> bool" where
  "DefaultPieceStorage_isPieceUsed s index = BitfieldMan_isUseBitSet (ps_bm s) index"

text \<open>A piece that is not in use is made on the fly and not kept; the outer \<open>None\<close> is undefined.\<close>

definition DefaultPieceStorage_getPiece :: "piece_storage \<Rightarrow> nat \<Rightarrow> piece option option" where
  "DefaultPieceStorage_getPiece s index =
     (if index \<le> BitfieldMan_getMaxIndex (ps_bm s) then
        (case DefaultPieceStorage_findUsedPiece s index of
           Some a \<Rightarrow> Some (Some (ps_pieces s a))
         | None \<Rightarrow>
             let p = Piece_new index (BitfieldMan_getBlockLength (ps_bm s) index) BLOCK_LENGTH in
             if DefaultPieceStorage_hasPiece s index then map_option Some (Piece_setAllBlock p) else Some (Some p))
      else Some None)"

definition storage_releaseWrCache :: "piece_storage \<Rightarrow> nat \<Rightarrow> piece_storage option" where
  "storage_releaseWrCache s a =
     (case (ps_cache s, pc_wrCache (ps_pieces s a)) of
        (Some c, Some i) \<Rightarrow>
          map_option (\<lambda>c'. (put_piece s a ((ps_pieces s a)\<lparr>pc_wrCache := None\<rparr>))\<lparr>ps_cache := Some c'\<rparr>)
            (Piece_releaseWrCache c i)
      | _ \<Rightarrow> Some s)"

definition DefaultPieceStorage_deleteUsedPiece :: "piece_storage \<Rightarrow> nat \<Rightarrow> piece_storage option" where
  "DefaultPieceStorage_deleteUsedPiece s a =
     storage_releaseWrCache
       (s\<lparr>ps_used := filter (\<lambda>b. pc_index (ps_pieces s b) \<noteq> pc_index (ps_pieces s a)) (ps_used s)\<rparr>) a"

text \<open>When the download is finished the code also resets a timer and notifies listeners.\<close>

definition DefaultPieceStorage_completePiece :: "piece_storage \<Rightarrow> nat \<Rightarrow> piece_storage option" where
  "DefaultPieceStorage_completePiece s a =
     do { s1 \<leftarrow> DefaultPieceStorage_deleteUsedPiece s a;
          if BitfieldMan_isAllBitSet (ps_bm s1) then Some s1
          else let i = pc_index (ps_pieces s1 a)
               in Some (s1\<lparr>ps_bm := fst (BitfieldMan_unsetUseBit (fst (BitfieldMan_setBit (ps_bm s1) i)) i),
                          ps_stat := PieceStatMan_addPieceStats_index (ps_stat s1) i\<rparr>) }"

definition DefaultPieceStorage_cancelPiece :: "piece_storage \<Rightarrow> nat \<Rightarrow> int \<Rightarrow> piece_storage option" where
  "DefaultPieceStorage_cancelPiece s a cuid =
     (let p = Piece_removeUser (ps_pieces s a) cuid;
          s1 = put_piece s a p;
          s2 = (if \<not> Piece_getUsed p then s1\<lparr>ps_bm := fst (BitfieldMan_unsetUseBit (ps_bm s1) (pc_index p))\<rparr> else s1)
      in if ps_endGame s2 then Some s2
         else do { n \<leftarrow> Piece_getCompletedLength p;
                   if n = 0 then DefaultPieceStorage_deleteUsedPiece s2 a else Some s2 })"

subsection \<open>The next piece of a stream connection\<close>

text \<open>
  \<open>rnd\<close> is what \<open>SimpleRandomizer\<close> draws for the random selector, \<open>shuffle\<close> the permutation of
  \<open>std::shuffle\<close>. The counter behind the debug output of the function is left out.
\<close>

definition stream_select :: "nat \<Rightarrow> stream_piece_selector option \<Rightarrow> bitfield_man \<Rightarrow> nat \<Rightarrow> byte list \<Rightarrow> nat option option" where
  "stream_select rnd sel bm minSplitSize ignoreBitfield =
     (case sel of
        None \<Rightarrow> None
      | Some DefaultSelector \<Rightarrow> Some (DefaultStreamPieceSelector_select bm minSplitSize ignoreBitfield)
      | Some InorderSelector \<Rightarrow> Some (InorderStreamPieceSelector_select bm minSplitSize ignoreBitfield)
      | Some RandomSelector \<Rightarrow> Some (RandomStreamPieceSelector_select rnd bm minSplitSize ignoreBitfield)
      | Some (GeomSelector g) \<Rightarrow> GeomStreamPieceSelector_select g bm minSplitSize ignoreBitfield)"

definition storage_enterEndGame :: "download_context \<Rightarrow> piece_storage \<Rightarrow> piece_storage" where
  "storage_enterEndGame dc s =
     (let unstarted_pieces = to_size (int (bm_cachedNumMissingBlock (ps_bm s)) - int (length (ps_used s))) in
      case dc_group dc of
        None \<Rightarrow> s
      | Some g \<Rightarrow> if \<not> ps_endGame s \<and> unstarted_pieces \<le> rg_numConcurrentCommand g then s\<lparr>ps_endGame := True\<rparr> else s)"

text \<open>The pieces the end game may share: in use, and below the limit of segments per piece.\<close>

definition storage_inFlight :: "download_context \<Rightarrow> piece_storage \<Rightarrow> nat list \<Rightarrow> nat list" where
  "storage_inFlight dc s candidates =
     filter (\<lambda>idx. DefaultPieceStorage_isPieceUsed s idx
       \<and> \<not> (case Option.bind (dc_group dc) rg_segments of
              Some requested \<Rightarrow> requested idx \<ge> ps_max_segs s
            | None \<Rightarrow> False)) candidates"

definition storage_snipe :: "(nat list \<Rightarrow> nat list) \<Rightarrow> download_context \<Rightarrow> piece_storage \<Rightarrow> byte list \<Rightarrow> nat option option" where
  "storage_snipe shuffle dc s ignoreBitfield =
     do { (candidates, found) \<leftarrow> BitfieldMan_getAllMissingIndexes_vec (ps_bm s) [] ignoreBitfield (length ignoreBitfield);
          let inFlight = storage_inFlight dc s candidates;
          Some (if found \<and> inFlight \<noteq> [] then Some (hd (shuffle inFlight)) else None) }"

definition DefaultPieceStorage_getMissingPiece_stream :: "nat \<Rightarrow> (nat list \<Rightarrow> nat list) \<Rightarrow> download_context \<Rightarrow>
    (cell list \<Rightarrow> bool) \<Rightarrow> piece_storage \<Rightarrow> nat \<Rightarrow> byte list \<Rightarrow> int \<Rightarrow> (piece_storage \<times> nat option) option" where
  "DefaultPieceStorage_getMissingPiece_stream rnd shuffle dc io s minSplitSize ignoreBitfield cuid =
     (let s1 = storage_enterEndGame dc s in
      do { sniped \<leftarrow> if ps_endGame s1 then storage_snipe shuffle dc s1 ignoreBitfield else Some None;
           index \<leftarrow> (case sniped of
                        Some i \<Rightarrow> Some (Some i)
                      | None \<Rightarrow> stream_select rnd (ps_streamSelector s1) (ps_bm s1) minSplitSize ignoreBitfield);
           (case index of
              None \<Rightarrow> Some (s1, None)
            | Some i \<Rightarrow> map_option (\<lambda>(s2, a). (s2, Some a)) (DefaultPieceStorage_checkOutPiece dc io s1 i cuid)) })"

definition DefaultPieceStorage_getMissingPiece_index :: "download_context \<Rightarrow> (cell list \<Rightarrow> bool) \<Rightarrow> piece_storage \<Rightarrow>
    nat \<Rightarrow> int \<Rightarrow> (piece_storage \<times> nat option) option" where
  "DefaultPieceStorage_getMissingPiece_index dc io s index cuid =
     (if DefaultPieceStorage_hasPiece s index \<or> DefaultPieceStorage_isPieceUsed s index
         \<or> (bm_filterEnabled (ps_bm s) \<and> \<not> BitfieldMan_isFilterBitSet (ps_bm s) index)
      then Some (s, None)
      else map_option (\<lambda>(s', a). (s', Some a)) (DefaultPieceStorage_checkOutPiece dc io s index cuid))"

definition DefaultPieceStorage_hasMissingUnusedPiece :: "piece_storage \<Rightarrow> bool" where
  "DefaultPieceStorage_hasMissingUnusedPiece s \<longleftrightarrow> BitfieldMan_getFirstMissingUnusedIndex (ps_bm s) \<noteq> None"

subsection \<open>The next pieces of a peer connection\<close>

text \<open>
  \<open>select\<close> is the installed \<open>PieceSelector\<close>. In the end game pieces in use are shared; otherwise
  the selector is asked until enough blocks are missing or it finds no more.
\<close>

fun endGame_loop :: "download_context \<Rightarrow> (cell list \<Rightarrow> bool) \<Rightarrow> int \<Rightarrow> nat \<Rightarrow> nat list \<Rightarrow> piece_storage \<Rightarrow> nat list \<Rightarrow> nat \<Rightarrow>
    (piece_storage \<times> nat list) option" where
  "endGame_loop dc io cuid minMissingBlocks [] s pieces misBlock = Some (s, pieces)"
| "endGame_loop dc io cuid minMissingBlocks (i # is) s pieces misBlock =
     (if \<not> misBlock < minMissingBlocks then Some (s, pieces)
      else do { (s1, a) \<leftarrow> DefaultPieceStorage_checkOutPiece dc io s i cuid;
                let p = ps_pieces s1 a;
                if pc_usedBySegment p
                then endGame_loop dc io cuid minMissingBlocks is (put_piece s1 a (Piece_removeUser p cuid)) pieces misBlock
                else do { n \<leftarrow> Piece_countMissingBlock p;
                          endGame_loop dc io cuid minMissingBlocks is s1 (pieces @ [a]) (misBlock + n) } })"

partial_function (option) select_loop :: "(byte_array \<Rightarrow> nat \<Rightarrow> nat option) \<Rightarrow> download_context \<Rightarrow> (cell list \<Rightarrow> bool) \<Rightarrow>
    int \<Rightarrow> nat \<Rightarrow> byte list \<Rightarrow> piece_storage \<Rightarrow> nat list \<Rightarrow> nat \<Rightarrow> (piece_storage \<times> nat list) option" where
  "select_loop select dc io cuid minMissingBlocks misbitfield s pieces misBlock =
     (if \<not> misBlock < minMissingBlocks then Some (s, pieces)
      else case select (array misbitfield) (bm_blocks (ps_bm s)) of
        None \<Rightarrow> Some (s, pieces)
      | Some index \<Rightarrow>
          Option.bind (DefaultPieceStorage_checkOutPiece dc io s index cuid) (\<lambda>(s1, a).
            Option.bind (Piece_countMissingBlock (ps_pieces s1 a)) (\<lambda>n.
              select_loop select dc io cuid minMissingBlocks (bitfield_flipBit misbitfield index) s1 (pieces @ [a]) (misBlock + n))))"

definition DefaultPieceStorage_getMissingPieces :: "(byte_array \<Rightarrow> nat \<Rightarrow> nat option) \<Rightarrow> (nat list \<Rightarrow> nat list) \<Rightarrow>
    download_context \<Rightarrow> (cell list \<Rightarrow> bool) \<Rightarrow> piece_storage \<Rightarrow> nat \<Rightarrow> byte list \<Rightarrow> int \<Rightarrow> (piece_storage \<times> nat list) option" where
  "DefaultPieceStorage_getMissingPieces select shuffle dc io s minMissingBlocks bitfield cuid =
     (if ps_endGame s then
        do { (misbitfield, r) \<leftarrow> BitfieldMan_getAllMissingIndexes_peer (ps_bm s) bitfield (length bitfield);
             if \<not> r then Some (s, [])
             else let blocks = bm_blocks (ps_bm s);
                      indexes = shuffle (filter (bitfield_test (array misbitfield) blocks) [0..<blocks])
                  in endGame_loop dc io cuid minMissingBlocks indexes s [] 0 }
      else
        do { (misbitfield, r) \<leftarrow> BitfieldMan_getAllMissingUnusedIndexes (ps_bm s) bitfield (length bitfield);
             if \<not> r then Some (s, [])
             else select_loop select dc io cuid minMissingBlocks misbitfield s [] 0 })"

text \<open>A peer: its bitfield, whether it speaks the fast extension, and the pieces it allows.\<close>

record peer =
  pr_bitfield :: "byte list"
  pr_fastExtension :: bool
  pr_allowed :: "nat list"

definition DefaultPieceStorage_hasMissingPiece :: "piece_storage \<Rightarrow> peer \<Rightarrow> bool" where
  "DefaultPieceStorage_hasMissingPiece s pr = BitfieldMan_hasMissingPiece (ps_bm s) (pr_bitfield pr) (length (pr_bitfield pr))"

definition unsetExcludedIndexes :: "bitfield_man \<Rightarrow> nat list \<Rightarrow> bitfield_man" where
  "unsetExcludedIndexes bm excluded = fold (\<lambda>i b. fst (BitfieldMan_unsetBit b i)) excluded bm"

text \<open>\<open>Peer::hasPiece\<close> tests a bit of the peer's bitfield, which is as long as the storage's.\<close>

definition DefaultPieceStorage_createFastIndexBitfield :: "piece_storage \<Rightarrow> bitfield_man \<Rightarrow> peer \<Rightarrow> bitfield_man" where
  "DefaultPieceStorage_createFastIndexBitfield s bm pr =
     fold (\<lambda>i b. if \<not> BitfieldMan_isBitSet (ps_bm s) i
                   \<and> bitfield_test (array (pr_bitfield pr)) (bm_blocks (ps_bm s)) i
                 then fst (BitfieldMan_setBit b i) else b) (pr_allowed pr) bm"

definition DefaultPieceStorage_getMissingPieces_peer :: "(byte_array \<Rightarrow> nat \<Rightarrow> nat option) \<Rightarrow> (nat list \<Rightarrow> nat list) \<Rightarrow>
    download_context \<Rightarrow> (cell list \<Rightarrow> bool) \<Rightarrow> piece_storage \<Rightarrow> nat \<Rightarrow> peer \<Rightarrow> nat list \<Rightarrow> int \<Rightarrow> (piece_storage \<times> nat list) option" where
  "DefaultPieceStorage_getMissingPieces_peer select shuffle dc io s minMissingBlocks pr excluded cuid =
     (let temp = BitfieldMan_setBitfield (BitfieldMan_new (bm_blockLength (ps_bm s)) (bm_totalLength (ps_bm s)))
                   (pr_bitfield pr) (length (pr_bitfield pr))
      in DefaultPieceStorage_getMissingPieces select shuffle dc io s minMissingBlocks
           (bm_bitfield (unsetExcludedIndexes temp excluded)) cuid)"

definition DefaultPieceStorage_getMissingFastPieces :: "(byte_array \<Rightarrow> nat \<Rightarrow> nat option) \<Rightarrow> (nat list \<Rightarrow> nat list) \<Rightarrow>
    download_context \<Rightarrow> (cell list \<Rightarrow> bool) \<Rightarrow> piece_storage \<Rightarrow> nat \<Rightarrow> peer \<Rightarrow> nat list \<Rightarrow> int \<Rightarrow> (piece_storage \<times> nat list) option" where
  "DefaultPieceStorage_getMissingFastPieces select shuffle dc io s minMissingBlocks pr excluded cuid =
     (if pr_fastExtension pr \<and> pr_allowed pr \<noteq> [] then
        let temp = DefaultPieceStorage_createFastIndexBitfield s
                     (BitfieldMan_new (bm_blockLength (ps_bm s)) (bm_totalLength (ps_bm s))) pr
        in DefaultPieceStorage_getMissingPieces select shuffle dc io s minMissingBlocks
             (bm_bitfield (unsetExcludedIndexes temp excluded)) cuid
      else Some (s, []))"

text \<open>The overloads for a single piece return the first of the pieces.\<close>

definition first_piece :: "(piece_storage \<times> nat list) option \<Rightarrow> (piece_storage \<times> nat option) option" where
  "first_piece r = map_option (\<lambda>(s, as). (s, if as = [] then None else Some (hd as))) r"

definition DefaultPieceStorage_getMissingPiece_peer :: "(byte_array \<Rightarrow> nat \<Rightarrow> nat option) \<Rightarrow> (nat list \<Rightarrow> nat list) \<Rightarrow>
    download_context \<Rightarrow> (cell list \<Rightarrow> bool) \<Rightarrow> piece_storage \<Rightarrow> peer \<Rightarrow> nat list \<Rightarrow> int \<Rightarrow> (piece_storage \<times> nat option) option" where
  "DefaultPieceStorage_getMissingPiece_peer select shuffle dc io s pr excluded cuid =
     first_piece (DefaultPieceStorage_getMissingPieces_peer select shuffle dc io s 1 pr excluded cuid)"

definition DefaultPieceStorage_getMissingFastPiece :: "(byte_array \<Rightarrow> nat \<Rightarrow> nat option) \<Rightarrow> (nat list \<Rightarrow> nat list) \<Rightarrow>
    download_context \<Rightarrow> (cell list \<Rightarrow> bool) \<Rightarrow> piece_storage \<Rightarrow> peer \<Rightarrow> nat list \<Rightarrow> int \<Rightarrow> (piece_storage \<times> nat option) option" where
  "DefaultPieceStorage_getMissingFastPiece select shuffle dc io s pr excluded cuid =
     first_piece (DefaultPieceStorage_getMissingFastPieces select shuffle dc io s 1 pr excluded cuid)"

subsection \<open>Lengths and completion\<close>

definition DefaultPieceStorage_getInFlightPieceCompletedLength :: "piece_storage \<Rightarrow> int option" where
  "DefaultPieceStorage_getInFlightPieceCompletedLength s =
     map_option sum_list (those (map (\<lambda>a. Piece_getCompletedLength (ps_pieces s a)) (ps_used s)))"

definition DefaultPieceStorage_getInFlightPieceFilteredCompletedLength :: "piece_storage \<Rightarrow> int option" where
  "DefaultPieceStorage_getInFlightPieceFilteredCompletedLength s =
     map_option sum_list (those (map (\<lambda>a. Piece_getCompletedLength (ps_pieces s a))
       (filter (\<lambda>a. BitfieldMan_isFilterBitSet (ps_bm s) (pc_index (ps_pieces s a))) (ps_used s))))"

definition DefaultPieceStorage_getCompletedLength :: "piece_storage \<Rightarrow> int option" where
  "DefaultPieceStorage_getCompletedLength s =
     map_option (\<lambda>n. min (bm_cachedCompletedLength (ps_bm s) + n) (bm_totalLength (ps_bm s)))
       (DefaultPieceStorage_getInFlightPieceCompletedLength s)"

definition DefaultPieceStorage_getFilteredCompletedLength :: "piece_storage \<Rightarrow> int option" where
  "DefaultPieceStorage_getFilteredCompletedLength s =
     map_option (\<lambda>n. bm_cachedFilteredCompletedLength (ps_bm s) + n)
       (DefaultPieceStorage_getInFlightPieceFilteredCompletedLength s)"

definition DefaultPieceStorage_downloadFinished :: "piece_storage \<Rightarrow> bool" where
  "DefaultPieceStorage_downloadFinished s = BitfieldMan_isFilteredAllBitSet (ps_bm s)"

definition DefaultPieceStorage_allDownloadFinished :: "piece_storage \<Rightarrow> bool" where
  "DefaultPieceStorage_allDownloadFinished s = BitfieldMan_isAllBitSet (ps_bm s)"

definition DefaultPieceStorage_setupFileFilter :: "download_context \<Rightarrow> piece_storage \<Rightarrow> piece_storage" where
  "DefaultPieceStorage_setupFileFilter dc s =
     (if list_all fe_requested (dc_fileEntries dc) then s
      else s\<lparr>ps_bm := BitfieldMan_enableFilter
               (fold (\<lambda>e b. if fe_requested e then BitfieldMan_addFilter b (fe_offset e) (fe_length e) else b)
                 (dc_fileEntries dc) (ps_bm s))\<rparr>)"

definition DefaultPieceStorage_clearFileFilter :: "piece_storage \<Rightarrow> piece_storage" where
  "DefaultPieceStorage_clearFileFilter s = s\<lparr>ps_bm := BitfieldMan_clearFilter (ps_bm s)\<rparr>"

definition DefaultPieceStorage_setBitfield :: "piece_storage \<Rightarrow> byte list \<Rightarrow> nat \<Rightarrow> piece_storage" where
  "DefaultPieceStorage_setBitfield s bitfield len =
     s\<lparr>ps_bm := BitfieldMan_setBitfield (ps_bm s) bitfield len,
       ps_stat := PieceStatMan_addPieceStats (ps_stat s) (array bitfield)\<rparr>"

text \<open>The cache entries are flushed in the order of the set, and released if asked for.\<close>

fun flush_entries :: "(cell list \<Rightarrow> bool) \<Rightarrow> bool \<Rightarrow> nat list \<Rightarrow> piece_storage \<Rightarrow> piece_storage option" where
  "flush_entries io releaseEntries [] s = Some s"
| "flush_entries io releaseEntries (a # as) s =
     (case (ps_cache s, pc_wrCache (ps_pieces s a)) of
        (Some c, Some i) \<Rightarrow>
          do { c' \<leftarrow> Piece_flushWrCache io c i;
               let s1 = s\<lparr>ps_cache := Some c'\<rparr>;
               s2 \<leftarrow> if releaseEntries then storage_releaseWrCache s1 a else Some s1;
               flush_entries io releaseEntries as s2 }
      | _ \<Rightarrow> flush_entries io releaseEntries as s)"

definition DefaultPieceStorage_flushWrDiskCacheEntry :: "(cell list \<Rightarrow> bool) \<Rightarrow> piece_storage \<Rightarrow> bool \<Rightarrow> piece_storage option" where
  "DefaultPieceStorage_flushWrDiskCacheEntry io s releaseEntries =
     (if ps_cache s = None then Some s else flush_entries io releaseEntries (ps_used s) s)"

definition DefaultPieceStorage_markAllPiecesDone :: "piece_storage \<Rightarrow> piece_storage" where
  "DefaultPieceStorage_markAllPiecesDone s = s\<lparr>ps_bm := BitfieldMan_setAllBit (ps_bm s)\<rparr>"

definition DefaultPieceStorage_markPieceMissing :: "piece_storage \<Rightarrow> nat \<Rightarrow> piece_storage" where
  "DefaultPieceStorage_markPieceMissing s index = s\<lparr>ps_bm := fst (BitfieldMan_unsetBit (ps_bm s) index)\<rparr>"

text \<open>The first \<open>length\<close> bytes of the download are there: whole pieces, then blocks of the next piece.\<close>

definition DefaultPieceStorage_markPiecesDone :: "download_context \<Rightarrow> piece_storage \<Rightarrow> int \<Rightarrow> piece_storage option" where
  "DefaultPieceStorage_markPiecesDone dc s len =
     (let bl = bm_blockLength (ps_bm s) in
      if len = bm_totalLength (ps_bm s) then Some (s\<lparr>ps_bm := BitfieldMan_setAllBit (ps_bm s)\<rparr>)
      else if len = 0 then Some (s\<lparr>ps_bm := BitfieldMan_clearAllBit (ps_bm s), ps_used := []\<rparr>)
      else if bl = 0 then None
      else
        let numPiece = to_size (len sdiv bl);
            bm1 = (if numPiece > 0 then BitfieldMan_setBitRange (ps_bm s) 0 (numPiece - 1) else ps_bm s);
            s1 = s\<lparr>ps_bm := bm1\<rparr>;
            r = to_size ((len smod bl) sdiv BLOCK_LENGTH)
        in if r > 0 then
             do { p \<leftarrow> completeBlocks (map int [0..<r])
                    (Piece_new numPiece (BitfieldMan_getBlockLength bm1 numPiece) BLOCK_LENGTH);
                  let (s2, a) = alloc_piece s1 (p\<lparr>pc_hashType := dc_hashType dc\<rparr>);
                  Some (DefaultPieceStorage_addUsedPiece s2 a) }
           else Some s1)"

subsection \<open>Announced pieces\<close>

text \<open>
  \<open>upper_bound\<close> in a sequence that is ordered by the key: everything up to the bound is before
  the result. \<open>removeAdvertisedPiece\<close> relies on the times being in order, as the clock gives them.
\<close>

definition DefaultPieceStorage_advertisePiece :: "piece_storage \<Rightarrow> int \<Rightarrow> nat \<Rightarrow> int \<Rightarrow> piece_storage" where
  "DefaultPieceStorage_advertisePiece s cuid index registeredTime =
     s\<lparr>ps_haves := ps_haves s @ [\<lparr>he_haveIndex = ps_nextHaveIndex s, he_cuid = cuid, he_index = index,
                                   he_registeredTime = registeredTime\<rparr>],
       ps_nextHaveIndex := ps_nextHaveIndex s + 1\<rparr>"

definition DefaultPieceStorage_getAdvertisedPieceIndexes :: "piece_storage \<Rightarrow> int \<Rightarrow> nat \<Rightarrow> nat list \<times> nat" where
  "DefaultPieceStorage_getAdvertisedPieceIndexes s myCuid lastHaveIndex =
     (let new = dropWhile (\<lambda>h. he_haveIndex h \<le> lastHaveIndex) (ps_haves s)
      in if new = [] then ([], lastHaveIndex) else (map he_index new, he_haveIndex (last (ps_haves s))))"

definition DefaultPieceStorage_removeAdvertisedPiece :: "piece_storage \<Rightarrow> int \<Rightarrow> piece_storage" where
  "DefaultPieceStorage_removeAdvertisedPiece s expiry =
     s\<lparr>ps_haves := dropWhile (\<lambda>h. he_registeredTime h \<le> expiry) (ps_haves s)\<rparr>"

subsection \<open>Remaining operations\<close>

definition DefaultPieceStorage_addInFlightPiece :: "piece_storage \<Rightarrow> nat list \<Rightarrow> piece_storage" where
  "DefaultPieceStorage_addInFlightPiece s as = fold (\<lambda>a s. DefaultPieceStorage_addUsedPiece s a) as s"

definition DefaultPieceStorage_getNextUsedIndex :: "piece_storage \<Rightarrow> nat \<Rightarrow> nat" where
  "DefaultPieceStorage_getNextUsedIndex s index =
     (case find (\<lambda>i. BitfieldMan_isUseBitSet (ps_bm s) i \<or> BitfieldMan_isBitSet (ps_bm s) i)
             [index + 1..<bm_blocks (ps_bm s)] of
        Some i \<Rightarrow> i
      | None \<Rightarrow> bm_blocks (ps_bm s))"

definition DefaultPieceStorage_onDownloadIncomplete :: "piece_storage \<Rightarrow> piece_storage" where
  "DefaultPieceStorage_onDownloadIncomplete s =
     (case ps_streamSelector s of
        Some (GeomSelector g) \<Rightarrow>
          s\<lparr>ps_streamSelector := Some (GeomSelector (GeomStreamPieceSelector_onBitfieldInit g (ps_bm s)))\<rparr>
      | _ \<Rightarrow> s)"

subsection \<open>The type invariant\<close>

text \<open>A \<open>Piece\<close> object of a storage: as long as its place in the download, in blocks of 16 KiB.\<close>

definition piece_wf :: "bitfield_man \<Rightarrow> piece \<Rightarrow> bool" where
  "piece_wf bm p \<longleftrightarrow> piece_ok p \<and> pc_index p < bm_blocks bm \<and> bm_blockLength (piece_bm p) = BLOCK_LENGTH
     \<and> pc_length p = BitfieldMan_getBlockLength bm (pc_index p)"

definition cache_rel :: "wr_cache option \<Rightarrow> nat \<Rightarrow> (nat \<Rightarrow> nat option) \<Rightarrow> bool" where
  "cache_rel cache n entry \<longleftrightarrow>
     (case cache of
        None \<Rightarrow> \<forall>a < n. entry a = None
      | Some c \<Rightarrow> wc_ok c \<and> set (wc_set c) \<subseteq> {..<n}
          \<and> (\<forall>a < n. entry a = (if a \<in> set (wc_set c) then Some a else None)))"

definition pieces_rel :: "bitfield_man \<Rightarrow> nat \<Rightarrow> (nat \<Rightarrow> piece) \<Rightarrow> nat list \<Rightarrow> bool" where
  "pieces_rel bm n pieces used \<longleftrightarrow> (\<forall>a < n. piece_wf bm (pieces a))
     \<and> set used \<subseteq> {..<n} \<and> sorted_wrt (<) (map (\<lambda>a. pc_index (pieces a)) used)"

definition haves_rel :: "nat \<Rightarrow> have_entry list \<Rightarrow> bool" where
  "haves_rel next haves \<longleftrightarrow> sorted_wrt (<) (map he_haveIndex haves) \<and> (\<forall>h\<in>set haves. he_haveIndex h < next)"

definition storage_ok :: "piece_storage \<Rightarrow> bool" where
  "storage_ok s \<longleftrightarrow> bm_inv (ps_bm s) \<and> 0 < bm_blocks (ps_bm s) \<and> length (psm_counts (ps_stat s)) = bm_blocks (ps_bm s)
     \<and> pieces_rel (ps_bm s) (ps_fresh s) (ps_pieces s) (ps_used s)
     \<and> cache_rel (ps_cache s) (ps_fresh s) (\<lambda>a. pc_wrCache (ps_pieces s a))
     \<and> haves_rel (ps_nextHaveIndex s) (ps_haves s)"

lemma piece_wf_cong:
  assumes "pc_bitfield p' = pc_bitfield p" "pc_index p' = pc_index p" "pc_length p' = pc_length p"
    "bm_geometry bm' = bm_geometry bm"
  shows "piece_wf bm' p' = piece_wf bm p"
proof -
  have "BitfieldMan_getBlockLength bm' i = BitfieldMan_getBlockLength bm i" for i
    using assms(4) by (simp add: BitfieldMan_getBlockLength_def BitfieldMan_getLastBlockLength_def bm_geometry_def Let_def)
  then show ?thesis using assms by (simp add: piece_wf_def piece_ok_def piece_bm_def bm_geometry_def)
qed

lemma piece_wf_frame:
  assumes "piece_wf bm p" "piece_frame p p'" "piece_ok p'" shows "piece_wf bm p'"
  using assms by (simp add: piece_wf_def piece_frameD)

lemma user_fields [simp]:
  "pc_bitfield (Piece_addUser p c) = pc_bitfield p" "pc_index (Piece_addUser p c) = pc_index p"
  "pc_length (Piece_addUser p c) = pc_length p" "pc_wrCache (Piece_addUser p c) = pc_wrCache p"
  "pc_usedBySegment (Piece_addUser p c) = pc_usedBySegment p" "set (pc_users (Piece_addUser p c)) = insert c (set (pc_users p))"
  "pc_bitfield (Piece_removeUser p c) = pc_bitfield p" "pc_index (Piece_removeUser p c) = pc_index p"
  "pc_length (Piece_removeUser p c) = pc_length p" "pc_wrCache (Piece_removeUser p c) = pc_wrCache p"
  "pc_usedBySegment (Piece_removeUser p c) = pc_usedBySegment p" "set (pc_users (Piece_removeUser p c)) = set (pc_users p) - {c}"
  by (auto simp: Piece_addUser_def Piece_removeUser_def)

lemma used_insert_new:
  assumes "idx a \<notin> idx ` set bs" shows "set (used_insert idx a bs) = insert a (set bs)"
  using assms by (induction bs) auto

lemma used_insert_sub: "set (used_insert idx a bs) \<subseteq> insert a (set bs)"
  by (induction bs) auto

lemma used_insert_sorted: "sorted_wrt (<) (map idx bs) \<Longrightarrow> sorted_wrt (<) (map idx (used_insert idx a bs))"
proof (induction bs)
  case (Cons b bs)
  have "idx b < idx x" if "x \<in> set (used_insert idx a bs)" "idx b < idx a" for x
    using that Cons.prems used_insert_sub [of idx a bs] by auto
  then show ?case using Cons by auto
qed simp

text \<open>Objects may change inside, as long as they keep their index and stay well formed.\<close>

lemma pieces_rel_put:
  assumes "pieces_rel bm n pieces used" "piece_wf bm p" "pc_index p = pc_index (pieces a)"
  shows "pieces_rel bm n (pieces(a := p)) used"
proof -
  have "(\<lambda>b. pc_index ((pieces(a := p)) b)) = (\<lambda>b. pc_index (pieces b))" using assms(3) by (intro ext) simp
  then show ?thesis using assms by (simp add: pieces_rel_def del: fun_upd_apply) simp
qed

lemma pieces_rel_bm: "pieces_rel bm n pieces used \<Longrightarrow> bm_geometry bm' = bm_geometry bm \<Longrightarrow> pieces_rel bm' n pieces used"
  using piece_wf_cong [OF refl refl refl, of bm' bm] by (simp add: pieces_rel_def)

lemma pieces_rel_new:
  assumes "pieces_rel bm n pieces used" "piece_wf bm p"
  shows "pieces_rel bm (Suc n) (pieces(n := p)) used"
    and "pieces_rel bm (Suc n) (pieces(n := p)) (used_insert (\<lambda>b. pc_index ((pieces(n := p)) b)) n used)"
proof -
  let ?h = "pieces(n := p)" let ?i = "\<lambda>b. pc_index (?h b)"
  have sub: "set used \<subseteq> {..<n}" using assms(1) by (simp add: pieces_rel_def)
  then have m: "map ?i used = map (\<lambda>b. pc_index (pieces b)) used" by auto
  have s: "sorted_wrt (<) (map ?i used)" using assms(1) unfolding pieces_rel_def m by blast
  have w: "\<forall>a < Suc n. piece_wf bm (?h a)" using assms by (auto simp: pieces_rel_def less_Suc_eq)
  show "pieces_rel bm (Suc n) ?h used" unfolding pieces_rel_def using s w sub by (auto simp: subset_iff less_Suc_eq)
  show "pieces_rel bm (Suc n) ?h (used_insert ?i n used)"
    unfolding pieces_rel_def using w used_insert_sorted [OF s, of n] used_insert_sub [of ?i n used] sub by auto
qed

lemma cache_rel_new: "cache_rel cache n entry \<Longrightarrow> entry' n = None \<Longrightarrow> (\<And>a. a < n \<Longrightarrow> entry' a = entry a) \<Longrightarrow> cache_rel cache (Suc n) entry'"
  by (fastforce simp: cache_rel_def less_Suc_eq split: option.splits)

lemma storage_new_piece_wf:
  assumes "bm_layout (ps_bm s)" "index < bm_blocks (ps_bm s)"
  shows "piece_wf (ps_bm s) (storage_new_piece dc s index)" "pc_index (storage_new_piece dc s index) = index"
    "pc_wrCache (storage_new_piece dc s index) = None" "piece_have (storage_new_piece dc s index) = {}"
    "pc_users (storage_new_piece dc s index) = []"
proof -
  let ?l = "BitfieldMan_getBlockLength (ps_bm s) index"
  have b: "bm_blockLength (ps_bm s) < 2 ^ 31" using assms(1) by (simp add: bm_layout_def)
  have "0 < bm_blocks (ps_bm s)" using assms(2) by simp
  then have l: "0 < ?l" "?l \<le> bm_blockLength (ps_bm s)"
    using getBlockLength_eq [OF assms] getLastBlockLength_eq [OF assms(1)] bm_blocks_pos(1) [OF assms(1)] by auto
  have bl: "0 < BLOCK_LENGTH" "BLOCK_LENGTH < 2 ^ 31" and len: "?l < 2 ^ 63"
    using l b by (simp_all add: BLOCK_LENGTH_def)
  note n = Piece_new_ok [OF bl l(1) len, of index]
  have f: "pc_index (Piece_new index ?l BLOCK_LENGTH) = index" "pc_length (Piece_new index ?l BLOCK_LENGTH) = ?l"
    "pc_wrCache (Piece_new index ?l BLOCK_LENGTH) = None" "pc_users (Piece_new index ?l BLOCK_LENGTH) = []" by (simp_all add: Piece_new_def Piece_empty_def)
  show "piece_wf (ps_bm s) (storage_new_piece dc s index)" "pc_index (storage_new_piece dc s index) = index"
    "pc_wrCache (storage_new_piece dc s index) = None" "piece_have (storage_new_piece dc s index) = {}"
    "pc_users (storage_new_piece dc s index) = []"
    using n f assms(2) by (simp_all add: storage_new_piece_def piece_wf_def piece_ok_def piece_bm_def piece_have_def)
qed

lemma findUsedPiece_Some:
  "DefaultPieceStorage_findUsedPiece s i = Some a \<Longrightarrow> a \<in> set (ps_used s) \<and> pc_index (ps_pieces s a) = i"
  by (auto simp: DefaultPieceStorage_findUsedPiece_def find_Some_iff)

lemma findUsedPiece_None:
  "DefaultPieceStorage_findUsedPiece s i = None \<Longrightarrow> a \<in> set (ps_used s) \<Longrightarrow> pc_index (ps_pieces s a) \<noteq> i"
  by (auto simp: DefaultPieceStorage_findUsedPiece_def find_None_iff)

subsection \<open>The operations keep it\<close>

lemma storage_initWrCache_ok:
  assumes "cache_rel (ps_cache s) (ps_fresh s) (\<lambda>b. pc_wrCache (ps_pieces s b))" "a < ps_fresh s"
  obtains w c where "storage_initWrCache dc io s a = Some (s\<lparr>ps_pieces := (ps_pieces s)(a := (ps_pieces s a)\<lparr>pc_wrCache := w\<rparr>), ps_cache := c\<rparr>)"
    and "cache_rel c (ps_fresh s) ((\<lambda>b. pc_wrCache (ps_pieces s b))(a := w))"
proof -
  have same: "s\<lparr>ps_pieces := (ps_pieces s)(a := (ps_pieces s a)\<lparr>pc_wrCache := pc_wrCache (ps_pieces s a)\<rparr>), ps_cache := ps_cache s\<rparr> = s"
    "(\<lambda>b. pc_wrCache (ps_pieces s b))(a := pc_wrCache (ps_pieces s a)) = (\<lambda>b. pc_wrCache (ps_pieces s b))"
    by simp (rule ext, simp)
  let ?new = "(case dc_group dc of None \<Rightarrow> True | Some g \<Rightarrow> \<not> rg_inMemoryDownload g) \<and> pc_wrCache (ps_pieces s a) = None"
  show thesis
  proof (cases "ps_cache s \<noteq> None \<and> ?new")
    case False
    then have "storage_initWrCache dc io s a = Some s"
      unfolding storage_initWrCache_def by (cases "ps_cache s") (simp_all only: option.case option.simps if_False simp_thms)
    then show thesis using that [where w = "pc_wrCache (ps_pieces s a)" and c = "ps_cache s"] assms(1) unfolding same by blast
  next
    case True
    then obtain c where Some: "ps_cache s = Some c" by blast
    have c: "wc_ok c" "set (wc_set c) \<subseteq> {..<ps_fresh s}"
      "\<And>b. b < ps_fresh s \<Longrightarrow> pc_wrCache (ps_pieces s b) = (if b \<in> set (wc_set c) then Some b else None)"
      using assms(1) Some by (auto simp: cache_rel_def)
    have "a \<notin> set (wc_set c)" using c(3) [OF assms(2)] True by (auto split: if_splits)
    from Piece_initWrCache_ok [OF c(1) this, of io] obtain c' where c': "Piece_initWrCache io c a = Some c'" "wc_ok c'"
      "set (wc_set c') = insert a (set (wc_set c))" by blast
    have "storage_initWrCache dc io s a = Some (s\<lparr>ps_pieces := (ps_pieces s)(a := (ps_pieces s a)\<lparr>pc_wrCache := Some a\<rparr>), ps_cache := Some c'\<rparr>)"
      using True Some c'(1) by (simp add: storage_initWrCache_def)
    moreover have "cache_rel (Some c') (ps_fresh s) ((\<lambda>b. pc_wrCache (ps_pieces s b))(a := Some a))"
      using c c' assms(2) by (auto simp: cache_rel_def)
    ultimately show thesis by (rule that)
  qed
qed

text \<open>What \<open>checkOutPiece\<close> does to a storage: the piece is in use, its object shared or new.\<close>

definition checked_out :: "piece_storage \<Rightarrow> nat \<Rightarrow> int \<Rightarrow> piece_storage \<Rightarrow> nat \<Rightarrow> bool" where
  "checked_out s i cuid s' a \<longleftrightarrow> ps_bm s' = fst (BitfieldMan_setUseBit (ps_bm s) i) \<and> ps_endGame s' = ps_endGame s
     \<and> ps_streamSelector s' = ps_streamSelector s \<and> ps_max_segs s' = ps_max_segs s
     \<and> ps_stat s' = ps_stat s \<and> ps_haves s' = ps_haves s \<and> ps_nextHaveIndex s' = ps_nextHaveIndex s
     \<and> pc_index (ps_pieces s' a) = i
     \<and> set (pc_users (ps_pieces s' a)) = insert cuid (if a < ps_fresh s then set (pc_users (ps_pieces s a)) else {})
     \<and> set (ps_used s') = insert a (set (ps_used s)) \<and> a < ps_fresh s' \<and> ps_fresh s \<le> ps_fresh s'
     \<and> (DefaultPieceStorage_findUsedPiece s i = Some a \<or> DefaultPieceStorage_findUsedPiece s i = None \<and> a = ps_fresh s)
     \<and> (\<forall>b < ps_fresh s. pc_bitfield (ps_pieces s' b) = pc_bitfield (ps_pieces s b)
          \<and> pc_index (ps_pieces s' b) = pc_index (ps_pieces s b) \<and> (b \<noteq> a \<longrightarrow> ps_pieces s' b = ps_pieces s b)
          \<and> set (pc_users (ps_pieces s b)) \<subseteq> set (pc_users (ps_pieces s' b)))"

lemma checkOutPiece_ok:
  assumes "storage_ok s" "i < bm_blocks (ps_bm s)" "bm_filterEnabled (ps_bm s) \<Longrightarrow> i \<in> bm_selected (ps_bm s)"
  obtains s' a where "DefaultPieceStorage_checkOutPiece dc io s i cuid = Some (s', a)" "storage_ok s'" "checked_out s i cuid s' a"
proof -
  let ?bm = "fst (BitfieldMan_setUseBit (ps_bm s) i)"
  have ok: "bm_inv (ps_bm s)" "pieces_rel (ps_bm s) (ps_fresh s) (ps_pieces s) (ps_used s)"
    "cache_rel (ps_cache s) (ps_fresh s) (\<lambda>a. pc_wrCache (ps_pieces s a))"
    using assms(1) by (auto simp: storage_ok_def)
  have g: "bm_geometry ?bm = bm_geometry (ps_bm s)" by (rule geometry_ops)
  have bm: "bm_inv ?bm" "bm_blocks ?bm = bm_blocks (ps_bm s)" using useBit_inv(1) [OF ok(1)] g by (auto simp: bm_geometry_def)
  have p1: "pieces_rel ?bm (ps_fresh s) (ps_pieces s) (ps_used s)" using pieces_rel_bm [OF ok(2) g] .
  define s1 where "s1 = s\<lparr>ps_bm := ?bm\<rparr>"
  have lay1: "bm_layout (ps_bm s1)" "i < bm_blocks (ps_bm s1)" using bm assms(2) by (auto simp: s1_def bm_inv_def)
  define fu where "fu = DefaultPieceStorage_findUsedPiece s i"
  have fu1: "DefaultPieceStorage_findUsedPiece s1 i = fu" by (simp add: fu_def s1_def DefaultPieceStorage_findUsedPiece_def)
  define a where "a = (case fu of Some a \<Rightarrow> a | None \<Rightarrow> ps_fresh s)"
  define h where "h = (case fu of Some a \<Rightarrow> ps_pieces s | None \<Rightarrow> (ps_pieces s)(ps_fresh s := storage_new_piece dc s1 i))"
  define n where "n = (case fu of Some a \<Rightarrow> ps_fresh s | None \<Rightarrow> ps_fresh s + 1)"
  define u where "u = (case fu of Some a \<Rightarrow> ps_used s | None \<Rightarrow> used_insert (\<lambda>b. pc_index (h b)) (ps_fresh s) (ps_used s))"
  note sp = storage_new_piece_wf [OF lay1, of dc]
  have sub: "set (ps_used s) \<subseteq> {..<ps_fresh s}" using ok(2) by (simp add: pieces_rel_def)
  have s2: "(case fu of Some a \<Rightarrow> (s1, a)
     | None \<Rightarrow> case alloc_piece s1 (storage_new_piece dc s1 i) of (s', a) \<Rightarrow> (DefaultPieceStorage_addUsedPiece s' a, a))
     = (s1\<lparr>ps_pieces := h, ps_fresh := n, ps_used := u\<rparr>, a)"
    by (cases fu) (simp_all add: a_def h_def n_def u_def alloc_piece_def DefaultPieceStorage_addUsedPiece_def s1_def)
  have f: "pieces_rel ?bm n h u" "cache_rel (ps_cache s) n (\<lambda>b. pc_wrCache (h b))" "a < n" "pc_index (h a) = i"
    "set u = insert a (set (ps_used s))" "ps_fresh s \<le> n" "\<And>b. b < ps_fresh s \<Longrightarrow> h b = ps_pieces s b"
  proof -
    have "pieces_rel ?bm n h u \<and> cache_rel (ps_cache s) n (\<lambda>b. pc_wrCache (h b)) \<and> a < n \<and> pc_index (h a) = i
      \<and> set u = insert a (set (ps_used s)) \<and> ps_fresh s \<le> n \<and> (\<forall>b < ps_fresh s. h b = ps_pieces s b)"
    proof (cases fu)
      case (Some b)
      then have "b \<in> set (ps_used s)" "pc_index (ps_pieces s b) = i" using findUsedPiece_Some by (auto simp: fu_def)
      then show ?thesis using p1 ok(3) sub Some by (auto simp: a_def h_def n_def u_def)
    next
      case None
      have sp1: "piece_wf ?bm (storage_new_piece dc s1 i)" using sp(1) by (simp add: s1_def)
      have ne: "pc_index (h b) \<noteq> i" if "b \<in> set (ps_used s)" for b
      proof -
        have "h b = ps_pieces s b" using sub that by (auto simp: h_def None)
        then show ?thesis using findUsedPiece_None [OF _ that, of i] None by (simp add: fu_def)
      qed
      have hi: "pc_index (h (ps_fresh s)) = i" by (simp add: h_def None sp(2))
      have "pc_index (h (ps_fresh s)) \<notin> (\<lambda>b. pc_index (h b)) ` set (ps_used s)"
      proof
        assume "pc_index (h (ps_fresh s)) \<in> (\<lambda>b. pc_index (h b)) ` set (ps_used s)"
        then obtain b where b: "pc_index (h (ps_fresh s)) = pc_index (h b)" "b \<in> set (ps_used s)" by (rule imageE)
        from ne [OF b(2)] b(1) hi show False by simp
      qed
      then have u': "set u = insert (ps_fresh s) (set (ps_used s))"
        using used_insert_new [of "\<lambda>b. pc_index (h b)" "ps_fresh s" "ps_used s"] by (simp add: u_def None)
      have c': "cache_rel (ps_cache s) (Suc (ps_fresh s)) (\<lambda>b. pc_wrCache (h b))"
        by (rule cache_rel_new [OF ok(3)]) (simp_all add: h_def None sp(3))
      have p': "pieces_rel ?bm (Suc (ps_fresh s)) h u"
        using pieces_rel_new(2) [OF p1 sp1] by (simp only: h_def u_def None option.case)
      have h': "\<forall>b < ps_fresh s. h b = ps_pieces s b" "pc_index (h (ps_fresh s)) = i" by (simp_all add: h_def None sp(2))
      have an: "a = ps_fresh s" "n = Suc (ps_fresh s)" by (simp_all add: a_def n_def None)
      show ?thesis unfolding an by (intro conjI p' c' h' u') simp_all
    qed
    then show "pieces_rel ?bm n h u" "cache_rel (ps_cache s) n (\<lambda>b. pc_wrCache (h b))" "a < n" "pc_index (h a) = i"
      "set u = insert a (set (ps_used s))" "ps_fresh s \<le> n" "\<And>b. b < ps_fresh s \<Longrightarrow> h b = ps_pieces s b" by blast+
  qed
  define s3 where "s3 = s1\<lparr>ps_fresh := n, ps_used := u, ps_pieces := h(a := Piece_addUser (h a) cuid)\<rparr>"
  have e3: "(\<lambda>b. pc_wrCache (ps_pieces s3 b)) = (\<lambda>b. pc_wrCache (h b))" by (auto simp: s3_def)
  have c3: "cache_rel (ps_cache s3) (ps_fresh s3) (\<lambda>b. pc_wrCache (ps_pieces s3 b))"
    unfolding e3 using f(2) by (simp add: s3_def s1_def)
  have a3: "a < ps_fresh s3" using f(3) by (simp add: s3_def)
  obtain w c where w: "storage_initWrCache dc io s3 a = Some (s3\<lparr>ps_pieces := (ps_pieces s3)(a := (ps_pieces s3 a)\<lparr>pc_wrCache := w\<rparr>), ps_cache := c\<rparr>)"
    "cache_rel c (ps_fresh s3) ((\<lambda>b. pc_wrCache (ps_pieces s3 b))(a := w))"
    using storage_initWrCache_ok [OF c3 a3, of dc io] by blast
  let ?s' = "s3\<lparr>ps_pieces := (ps_pieces s3)(a := (ps_pieces s3 a)\<lparr>pc_wrCache := w\<rparr>), ps_cache := c\<rparr>"
  have pc: "ps_pieces ?s' = h(a := (Piece_addUser (h a) cuid)\<lparr>pc_wrCache := w\<rparr>)" by (simp add: s3_def)
  show thesis
  proof (rule that [of ?s' a])
    have "\<not> (bm_filterEnabled (ps_bm s) \<and> \<not> BitfieldMan_isFilterBitSet (ps_bm s) i)"
      using assms(2,3) isFilterBitSet_iff by blast
    then show "DefaultPieceStorage_checkOutPiece dc io s i cuid = Some (?s', a)"
      unfolding DefaultPieceStorage_checkOutPiece_def Let_def s1_def [symmetric] fu1 s2
      using w(1) by (simp add: s3_def)
    have "piece_wf ?bm ((Piece_addUser (h a) cuid)\<lparr>pc_wrCache := w\<rparr>)"
      using f(1,3) by (subst piece_wf_cong [where p = "h a" and bm = ?bm]) (simp_all add: pieces_rel_def)
    then have "pieces_rel ?bm n (ps_pieces ?s') u" unfolding pc by (intro pieces_rel_put f(1)) simp_all
    moreover have "(\<lambda>b. pc_wrCache (ps_pieces ?s' b)) = (\<lambda>b. pc_wrCache (ps_pieces s3 b))(a := w)" by auto
    ultimately show "storage_ok ?s'"
      using assms(1) bm w(2) by (simp add: storage_ok_def s3_def s1_def)
    have us: "set (pc_users (h a)) = (if a < ps_fresh s then set (pc_users (ps_pieces s a)) else {})"
    proof (cases fu)
      case (Some b)
      then have "b \<in> set (ps_used s)" using findUsedPiece_Some by (auto simp: fu_def)
      then show ?thesis using sub Some by (auto simp: a_def h_def)
    next
      case None
      then show ?thesis by (simp add: a_def h_def sp(5))
    qed
    show "checked_out s i cuid ?s' a"
      unfolding checked_out_def pc using f(3-6) f(7) fu_def us
      by (auto simp: s3_def s1_def a_def split: option.splits)
  qed
qed

lemma storage_releaseWrCache_ok:
  assumes "cache_rel (ps_cache s) (ps_fresh s) (\<lambda>b. pc_wrCache (ps_pieces s b))" "a < ps_fresh s"
  obtains w c where "storage_releaseWrCache s a = Some (s\<lparr>ps_pieces := (ps_pieces s)(a := (ps_pieces s a)\<lparr>pc_wrCache := w\<rparr>), ps_cache := c\<rparr>)"
    and "cache_rel c (ps_fresh s) ((\<lambda>b. pc_wrCache (ps_pieces s b))(a := w))"
proof -
  have same: "s\<lparr>ps_pieces := (ps_pieces s)(a := (ps_pieces s a)\<lparr>pc_wrCache := pc_wrCache (ps_pieces s a)\<rparr>), ps_cache := ps_cache s\<rparr> = s"
    "(\<lambda>b. pc_wrCache (ps_pieces s b))(a := pc_wrCache (ps_pieces s a)) = (\<lambda>b. pc_wrCache (ps_pieces s b))"
    by simp (rule ext, simp)
  show thesis
  proof (cases "\<exists>c. ps_cache s = Some c \<and> pc_wrCache (ps_pieces s a) \<noteq> None")
    case False
    then have "storage_releaseWrCache s a = Some s" by (auto simp: storage_releaseWrCache_def split: option.splits)
    then show thesis using that [where w = "pc_wrCache (ps_pieces s a)" and c = "ps_cache s"] assms(1) unfolding same by blast
  next
    case True
    then obtain c where Some: "ps_cache s = Some c" by blast
    have c: "wc_ok c" "set (wc_set c) \<subseteq> {..<ps_fresh s}"
      "\<And>b. b < ps_fresh s \<Longrightarrow> pc_wrCache (ps_pieces s b) = (if b \<in> set (wc_set c) then Some b else None)"
      using assms(1) Some by (auto simp: cache_rel_def)
    have a: "a \<in> set (wc_set c)" "pc_wrCache (ps_pieces s a) = Some a"
      using c(3) [OF assms(2)] True by (auto split: if_splits)
    from Piece_releaseWrCache_ok [OF c(1) a(1)] obtain c' where c': "Piece_releaseWrCache c a = Some c'" "wc_ok c'"
      "set (wc_set c') = set (wc_set c) - {a}" by blast
    have "storage_releaseWrCache s a = Some (s\<lparr>ps_pieces := (ps_pieces s)(a := (ps_pieces s a)\<lparr>pc_wrCache := None\<rparr>), ps_cache := Some c'\<rparr>)"
      using Some a(2) c'(1) by (simp add: storage_releaseWrCache_def)
    moreover have "cache_rel (Some c') (ps_fresh s) ((\<lambda>b. pc_wrCache (ps_pieces s b))(a := None))"
      using c c' by (auto simp: cache_rel_def)
    ultimately show thesis by (rule that)
  qed
qed

text \<open>Updating an entry of the cache keeps the numbers of the entries.\<close>

lemma cache_rel_update: "cache_rel (Some c) n entry \<Longrightarrow> wc_ok c' \<Longrightarrow> set (wc_set c') = set (wc_set c) \<Longrightarrow> cache_rel (Some c') n entry"
  by (simp add: cache_rel_def)

lemma cache_rel_entry: "cache_rel (Some c) n entry \<Longrightarrow> a < n \<Longrightarrow> entry a = Some i \<Longrightarrow> i = a \<and> a \<in> set (wc_set c) \<and> wc_ok c"
  by (auto simp: cache_rel_def split: if_splits)

lemma storage_ok_put:
  assumes "storage_ok s" "a < ps_fresh s" "piece_wf (ps_bm s) p" "pc_index p = pc_index (ps_pieces s a)"
    and "pc_wrCache p = pc_wrCache (ps_pieces s a)"
  shows "storage_ok (put_piece s a p)"
proof -
  have "(\<lambda>b. pc_wrCache (((ps_pieces s)(a := p)) b)) = (\<lambda>b. pc_wrCache (ps_pieces s b))" using assms(5) by (intro ext) simp
  then show ?thesis using assms pieces_rel_put [of "ps_bm s" "ps_fresh s" "ps_pieces s" "ps_used s" p a]
    by (simp add: storage_ok_def del: fun_upd_apply)
qed

lemma storage_ok_bm: "storage_ok s \<Longrightarrow> bm_inv bm \<Longrightarrow> bm_geometry bm = bm_geometry (ps_bm s) \<Longrightarrow> storage_ok (s\<lparr>ps_bm := bm\<rparr>)"
  using pieces_rel_bm [of "ps_bm s" _ _ _ bm] by (auto simp: storage_ok_def bm_geometry_def)

text \<open>A piece whose cache entry may have changed.\<close>

definition same_but_cache :: "piece \<Rightarrow> piece \<Rightarrow> bool" where
  "same_but_cache p p' \<longleftrightarrow> p'\<lparr>pc_wrCache := None\<rparr> = p\<lparr>pc_wrCache := None\<rparr>"

lemma same_but_cache_refl [simp]: "same_but_cache p p" "same_but_cache p (p\<lparr>pc_wrCache := w\<rparr>)"
  by (simp_all add: same_but_cache_def)

lemma same_but_cacheD:
  assumes "same_but_cache p p'"
  shows "pc_bitfield p' = pc_bitfield p" "pc_index p' = pc_index p" "pc_length p' = pc_length p"
    "pc_users p' = pc_users p" "pc_usedBySegment p' = pc_usedBySegment p"
  using assms by (cases p; cases p'; simp add: same_but_cache_def)+

lemma deleteUsedPiece_ok:
  assumes "storage_ok s" "a < ps_fresh s"
  obtains s' where "DefaultPieceStorage_deleteUsedPiece s a = Some s'" "storage_ok s'" "ps_bm s' = ps_bm s"
    "ps_used s' = filter (\<lambda>b. pc_index (ps_pieces s b) \<noteq> pc_index (ps_pieces s a)) (ps_used s)" "ps_endGame s' = ps_endGame s"
    "\<forall>b. b \<noteq> a \<longrightarrow> ps_pieces s' b = ps_pieces s b" "same_but_cache (ps_pieces s a) (ps_pieces s' a)"
    "ps_fresh s' = ps_fresh s" "ps_streamSelector s' = ps_streamSelector s" "ps_stat s' = ps_stat s"
proof -
  let ?u = "filter (\<lambda>b. pc_index (ps_pieces s b) \<noteq> pc_index (ps_pieces s a)) (ps_used s)"
  let ?s = "s\<lparr>ps_used := ?u\<rparr>"
  have r: "pieces_rel (ps_bm s) (ps_fresh s) (ps_pieces s) (ps_used s)"
    "cache_rel (ps_cache s) (ps_fresh s) (\<lambda>b. pc_wrCache (ps_pieces s b))" using assms(1) by (auto simp: storage_ok_def)
  have u: "pieces_rel (ps_bm s) (ps_fresh s) (ps_pieces s) ?u"
    using r(1) by (auto simp: pieces_rel_def sorted_wrt_map intro: sorted_wrt_filter)
  have r2: "cache_rel (ps_cache ?s) (ps_fresh ?s) (\<lambda>b. pc_wrCache (ps_pieces ?s b))" "a < ps_fresh ?s" using r(2) assms(2) by simp_all
  obtain w c where w: "storage_releaseWrCache ?s a = Some (?s\<lparr>ps_pieces := (ps_pieces ?s)(a := (ps_pieces ?s a)\<lparr>pc_wrCache := w\<rparr>), ps_cache := c\<rparr>)"
    "cache_rel c (ps_fresh ?s) ((\<lambda>b. pc_wrCache (ps_pieces ?s b))(a := w))"
    using storage_releaseWrCache_ok [OF r2] by blast
  let ?t = "?s\<lparr>ps_pieces := (ps_pieces ?s)(a := (ps_pieces ?s a)\<lparr>pc_wrCache := w\<rparr>), ps_cache := c\<rparr>"
  have wf: "piece_wf (ps_bm s) ((ps_pieces s a)\<lparr>pc_wrCache := w\<rparr>)"
    using r(1) assms(2) by (subst piece_wf_cong [where p = "ps_pieces s a" and bm = "ps_bm s"]) (simp_all add: pieces_rel_def)
  have "(\<lambda>b. pc_wrCache (ps_pieces ?t b)) = (\<lambda>b. pc_wrCache (ps_pieces s b))(a := w)" by auto
  moreover have "pieces_rel (ps_bm s) (ps_fresh s) (ps_pieces ?t) ?u" using pieces_rel_put [OF u wf, of a] by simp
  ultimately have "storage_ok ?t" using assms(1) w(2) by (simp add: storage_ok_def)
  moreover have "DefaultPieceStorage_deleteUsedPiece s a = Some ?t" using w(1) by (simp only: DefaultPieceStorage_deleteUsedPiece_def)
  ultimately show thesis using that [of ?t] by simp
qed

lemma bm_geometry_blocks: "bm_geometry b = bm_geometry b' \<Longrightarrow> bm_blocks b = bm_blocks b'"
  by (simp add: bm_geometry_def)

lemma completePiece_ok:
  assumes "storage_ok s" "a < ps_fresh s"
  obtains s' where "DefaultPieceStorage_completePiece s a = Some s'" "storage_ok s'"
    "BitfieldMan_isAllBitSet (ps_bm s) \<Longrightarrow> ps_bm s' = ps_bm s"
    "\<not> BitfieldMan_isAllBitSet (ps_bm s) \<Longrightarrow> ps_bm s' = fst (BitfieldMan_unsetUseBit (fst (BitfieldMan_setBit (ps_bm s)
       (pc_index (ps_pieces s a)))) (pc_index (ps_pieces s a)))"
    "ps_used s' = filter (\<lambda>b. pc_index (ps_pieces s b) \<noteq> pc_index (ps_pieces s a)) (ps_used s)" "ps_endGame s' = ps_endGame s"
    "\<forall>b. b \<noteq> a \<longrightarrow> ps_pieces s' b = ps_pieces s b" "same_but_cache (ps_pieces s a) (ps_pieces s' a)"
    "ps_fresh s' = ps_fresh s" "ps_streamSelector s' = ps_streamSelector s"
proof -
  obtain s1 where s1: "DefaultPieceStorage_deleteUsedPiece s a = Some s1" "storage_ok s1" "ps_bm s1 = ps_bm s"
    "ps_used s1 = filter (\<lambda>b. pc_index (ps_pieces s b) \<noteq> pc_index (ps_pieces s a)) (ps_used s)" "ps_endGame s1 = ps_endGame s"
    "\<forall>b. b \<noteq> a \<longrightarrow> ps_pieces s1 b = ps_pieces s b" "same_but_cache (ps_pieces s a) (ps_pieces s1 a)"
    "ps_fresh s1 = ps_fresh s" "ps_streamSelector s1 = ps_streamSelector s" "ps_stat s1 = ps_stat s"
    by (rule deleteUsedPiece_ok [OF assms])
  show thesis
  proof (cases "BitfieldMan_isAllBitSet (ps_bm s)")
    case True
    then show thesis using that [of s1] s1 by (simp add: DefaultPieceStorage_completePiece_def)
  next
    case False
    let ?i = "pc_index (ps_pieces s a)"
    have i: "pc_index (ps_pieces s1 a) = ?i" using same_but_cacheD(2) [OF s1(7)] .
    let ?bm = "fst (BitfieldMan_unsetUseBit (fst (BitfieldMan_setBit (ps_bm s) ?i)) ?i)"
    let ?t = "s1\<lparr>ps_bm := ?bm, ps_stat := PieceStatMan_addPieceStats_index (ps_stat s1) ?i\<rparr>"
    have lay: "bm_layout (ps_bm s)" using assms(1) by (auto simp: storage_ok_def bm_inv_def)
    have inv: "bm_inv ?bm" by (rule useBit_inv(2) [OF BitfieldMan_setBit_spec(1) [OF lay]])
    have g: "bm_geometry ?bm = bm_geometry (ps_bm s1)" by (simp add: geometry_ops s1(3))
    have "storage_ok (s1\<lparr>ps_bm := ?bm\<rparr>)" by (rule storage_ok_bm [OF s1(2) inv g])
    then have "storage_ok ?t" by (simp add: storage_ok_def PieceStatMan_addPieceStats_index_def)
    moreover have "DefaultPieceStorage_completePiece s a = Some ?t"
      using s1(1,3) False i by (simp add: DefaultPieceStorage_completePiece_def Let_def)
    ultimately show thesis using that [of ?t] s1 False by simp
  qed
qed

lemma piece_completedLength: "piece_ok p \<Longrightarrow> Piece_getCompletedLength p = Some (bm_cachedCompletedLength (piece_bm p))"
  by (auto simp: piece_ok_def Piece_getCompletedLength_def piece_bm_def)

lemma cancelPiece_ok:
  assumes "storage_ok s" "a < ps_fresh s"
  obtains s' where "DefaultPieceStorage_cancelPiece s a cuid = Some s'" "storage_ok s'"
    "ps_bm s' = (if set (pc_users (ps_pieces s a)) \<subseteq> {cuid} then fst (BitfieldMan_unsetUseBit (ps_bm s) (pc_index (ps_pieces s a))) else ps_bm s)"
    "ps_endGame s' = ps_endGame s" "ps_fresh s' = ps_fresh s" "ps_streamSelector s' = ps_streamSelector s"
    "\<forall>b. b \<noteq> a \<longrightarrow> ps_pieces s' b = ps_pieces s b" "same_but_cache (Piece_removeUser (ps_pieces s a) cuid) (ps_pieces s' a)"
    "set (ps_used s') \<subseteq> set (ps_used s)"
    "\<forall>b\<in>set (ps_used s). pc_index (ps_pieces s b) \<noteq> pc_index (ps_pieces s a) \<longrightarrow> b \<in> set (ps_used s')"
proof -
  let ?p = "Piece_removeUser (ps_pieces s a) cuid" let ?i = "pc_index (ps_pieces s a)"
  let ?bm = "if set (pc_users (ps_pieces s a)) \<subseteq> {cuid} then fst (BitfieldMan_unsetUseBit (ps_bm s) ?i) else ps_bm s"
  have used: "Piece_getUsed ?p \<longleftrightarrow> \<not> set (pc_users (ps_pieces s a)) \<subseteq> {cuid}"
    by (auto simp: Piece_getUsed_def Piece_removeUser_def filter_empty_conv removeAll_filter_not_eq)
  define s2 where "s2 = (let s1 = put_piece s a ?p in
     if \<not> Piece_getUsed ?p then s1\<lparr>ps_bm := fst (BitfieldMan_unsetUseBit (ps_bm s1) (pc_index ?p))\<rparr> else s1)"
  have s2: "s2 = (put_piece s a ?p)\<lparr>ps_bm := ?bm\<rparr>" by (simp add: s2_def used)
  have inv: "bm_inv (ps_bm s)" and wf: "piece_wf (ps_bm s) (ps_pieces s a)"
    using assms by (auto simp: storage_ok_def pieces_rel_def)
  have wfp: "piece_wf (ps_bm s) ?p" using wf by (subst piece_wf_cong [where p = "ps_pieces s a" and bm = "ps_bm s"]) simp_all
  have "storage_ok (put_piece s a ?p)" by (rule storage_ok_put [OF assms wfp]) simp_all
  then have ok2: "storage_ok s2" unfolding s2
    by (rule storage_ok_bm) (use useBit_inv(2) [OF inv] in \<open>auto simp: geometry_ops inv\<close>)
  have eq: "DefaultPieceStorage_cancelPiece s a cuid = (if ps_endGame s2 then Some s2
      else do { n \<leftarrow> Piece_getCompletedLength ?p; if n = 0 then DefaultPieceStorage_deleteUsedPiece s2 a else Some s2 })"
    unfolding DefaultPieceStorage_cancelPiece_def Let_def s2_def ..
  have len: "Piece_getCompletedLength ?p = Some (bm_cachedCompletedLength (piece_bm ?p))"
    using wfp by (intro piece_completedLength) (simp add: piece_wf_def)
  have a2: "a < ps_fresh s2" using assms(2) by (simp add: s2)
  have f2: "ps_bm s2 = ?bm" "ps_endGame s2 = ps_endGame s" "ps_fresh s2 = ps_fresh s" "ps_streamSelector s2 = ps_streamSelector s"
    "ps_used s2 = ps_used s" "\<And>b. ps_pieces s2 b = (if b = a then ?p else ps_pieces s b)" by (simp_all add: s2)
  show thesis
  proof (cases "\<not> ps_endGame s2 \<and> bm_cachedCompletedLength (piece_bm ?p) = 0")
    case False
    then have "DefaultPieceStorage_cancelPiece s a cuid = Some s2" using eq len by auto
    then show thesis using that [of s2] ok2 f2 by simp
  next
    case True
    obtain s3 where s3: "DefaultPieceStorage_deleteUsedPiece s2 a = Some s3" "storage_ok s3" "ps_bm s3 = ps_bm s2"
      "ps_used s3 = filter (\<lambda>b. pc_index (ps_pieces s2 b) \<noteq> pc_index (ps_pieces s2 a)) (ps_used s2)" "ps_endGame s3 = ps_endGame s2"
      "\<forall>b. b \<noteq> a \<longrightarrow> ps_pieces s3 b = ps_pieces s2 b" "same_but_cache (ps_pieces s2 a) (ps_pieces s3 a)"
      "ps_fresh s3 = ps_fresh s2" "ps_streamSelector s3 = ps_streamSelector s2" "ps_stat s3 = ps_stat s2"
      by (rule deleteUsedPiece_ok [OF ok2 a2])
    have "DefaultPieceStorage_cancelPiece s a cuid = Some s3" using eq len True s3(1) by simp
    then show thesis using that [of s3] s3 f2 by auto
  qed
qed

lemma missing_peer_spec:
  assumes "bm_layout bm" "0 < bm_blocks bm"
  obtains out where "BitfieldMan_getAllMissingIndexes_peer bm peer len
      = Some (out, len = bm_bitfieldLength bm \<and> (bit_set (array peer) (bm_blocks bm) - bm_have bm) \<inter> bm_wanted bm \<noteq> {})"
    and "len = bm_bitfieldLength bm \<Longrightarrow> bm_blocks bm \<le> 8 * length out
      \<and> bit_set (array out) (bm_blocks bm) = (bit_set (array peer) (bm_blocks bm) - bm_have bm) \<inter> bm_wanted bm"
proof (cases "len = bm_bitfieldLength bm")
  case False
  then show thesis using that [of "[]"] by (simp add: BitfieldMan_getAllMissingIndexes_peer_def)
next
  case True
  let ?n = "bm_blocks bm" and ?C = "(bit_set (array peer) (bm_blocks bm) - bm_have bm) \<inter> bm_wanted bm"
  define src where "src = (if bm_filterEnabled bm
    then array_and (array_and (array_not (array (bm_bitfield bm))) (array peer)) (array (bm_filter bm))
    else array_and (array_not (array (bm_bitfield bm))) (array peer))"
  have src: "bit_set src ?n = ?C"
    using bm_filter_selected [OF _ assms(1)] by (auto simp: src_def bit_set_def bm_wanted_def bm_have_def)
  obtain dst where d: "copyBitfield src ?n = Some (dst, bit_set src ?n \<noteq> {})" using copyBitfield_spec [OF assms(2)] by blast
  have "BitfieldMan_getAllMissingIndexes_peer bm peer len = copyBitfield src ?n"
    using True by (simp add: BitfieldMan_getAllMissingIndexes_peer_def src_def)
  then show thesis using that [of dst] d src True copyBitfield_bits [OF assms(2) d] by simp
qed

lemma missing_unused_spec:
  assumes "bm_layout bm" "0 < bm_blocks bm"
  obtains out where "BitfieldMan_getAllMissingUnusedIndexes bm peer len
      = Some (out, len = bm_bitfieldLength bm \<and> (bit_set (array peer) (bm_blocks bm) - bm_have bm - bm_used bm) \<inter> bm_wanted bm \<noteq> {})"
    and "len = bm_bitfieldLength bm \<Longrightarrow> bm_blocks bm \<le> 8 * length out
      \<and> bit_set (array out) (bm_blocks bm) = (bit_set (array peer) (bm_blocks bm) - bm_have bm - bm_used bm) \<inter> bm_wanted bm"
proof (cases "len = bm_bitfieldLength bm")
  case False
  then show thesis using that [of "[]"] by (simp add: BitfieldMan_getAllMissingUnusedIndexes_def)
next
  case True
  let ?n = "bm_blocks bm" and ?C = "(bit_set (array peer) (bm_blocks bm) - bm_have bm - bm_used bm) \<inter> bm_wanted bm"
  define src where "src = (if bm_filterEnabled bm
    then array_and (array_and (array_and (array_not (array (bm_bitfield bm))) (array_not (array (bm_useBitfield bm))))
           (array peer)) (array (bm_filter bm))
    else array_and (array_and (array_not (array (bm_bitfield bm))) (array_not (array (bm_useBitfield bm)))) (array peer))"
  have src: "bit_set src ?n = ?C"
    using bm_filter_selected [OF _ assms(1)] by (auto simp: src_def bit_set_def bm_wanted_def bm_have_def bm_used_def)
  obtain dst where d: "copyBitfield src ?n = Some (dst, bit_set src ?n \<noteq> {})" using copyBitfield_spec [OF assms(2)] by blast
  have "BitfieldMan_getAllMissingUnusedIndexes bm peer len = copyBitfield src ?n"
    using True by (simp add: BitfieldMan_getAllMissingUnusedIndexes_def src_def)
  then show thesis using that [of dst] d src True copyBitfield_bits [OF assms(2) d] by simp
qed

lemma wanted_selectable: "i \<in> bm_wanted bm \<Longrightarrow> i < bm_blocks bm \<and> (bm_filterEnabled bm \<longrightarrow> i \<in> bm_selected bm)"
  using bm_wanted_sub [of bm] by (auto simp: bm_wanted_def split: if_splits)

subsection \<open>Stream requests\<close>

text \<open>The draws of the randomizer and the selectors' own conditions for coming back.\<close>

definition selector_ready :: "nat \<Rightarrow> piece_storage \<Rightarrow> bool" where
  "selector_ready rnd s \<longleftrightarrow>
     (case ps_streamSelector s of
        None \<Rightarrow> False
      | Some RandomSelector \<Rightarrow> rnd < bm_blocks (ps_bm s)
      | Some (GeomSelector g) \<Rightarrow> 1 < gs_base g
      | _ \<Rightarrow> True)"

lemma free_result:
  "(\<And>i. x = Some i \<Longrightarrow> i \<in> F) \<Longrightarrow> (F \<noteq> {} \<Longrightarrow> c \<Longrightarrow> x \<noteq> None) \<Longrightarrow>
   \<exists>r. Some x = Some r \<and> (\<forall>i. r = Some i \<longrightarrow> i \<in> F) \<and> (r = None \<longrightarrow> c \<longrightarrow> F = {})"
  by blast

lemma stream_select_free:
  assumes "bm_layout (ps_bm s)" "0 < bm_blocks (ps_bm s)" "selector_ready rnd s"
  shows "\<exists>r. stream_select rnd (ps_streamSelector s) (ps_bm s) m ign = Some r
    \<and> (\<forall>i. r = Some i \<longrightarrow> i \<in> bm_free (ps_bm s) ign)
    \<and> (r = None \<longrightarrow> int m \<le> bm_blockLength (ps_bm s) \<longrightarrow> bm_free (ps_bm s) ign = {})"
proof (cases "ps_streamSelector s")
  case None
  then show ?thesis using assms(3) by (simp add: selector_ready_def)
next
  case (Some sel)
  note finds = default_stream.ssel_finds [OF assms(1)] inorder_stream.ssel_finds [OF assms(1)]
    random_stream.ssel_finds [OF assms(1)] geom_stream.ssel_finds [OF assms(1)]
  note free = default_stream.ssel_free [OF assms(1,2)] inorder_stream.ssel_free [OF assms(1,2)]
    random_stream.ssel_free [OF assms(1,2)] geom_stream.ssel_free [OF assms(1,2)]
  show ?thesis
  proof (cases sel)
    case DefaultSelector
    show ?thesis unfolding stream_select_def Some DefaultSelector option.case stream_piece_selector.case
      by (rule free_result) (use free(1) finds(1) in blast)+
  next
    case InorderSelector
    show ?thesis unfolding stream_select_def Some InorderSelector option.case stream_piece_selector.case
      by (rule free_result) (use free(2) finds(2) in blast)+
  next
    case RandomSelector
    then have r: "rnd < bm_blocks (ps_bm s)" using Some assms(3) by (simp add: selector_ready_def)
    show ?thesis unfolding stream_select_def Some RandomSelector option.case stream_piece_selector.case
      by (rule free_result) (use free(3) finds(3) r in blast)+
  next
    case (GeomSelector g)
    then have g: "1 < gs_base g" using Some assms(3) by (simp add: selector_ready_def)
    obtain r where r: "GeomStreamPieceSelector_select g (ps_bm s) m ign = Some r" using geom_select_ends [OF g] by blast
    have "\<And>i. r = Some i \<Longrightarrow> i \<in> bm_free (ps_bm s) ign" "bm_free (ps_bm s) ign \<noteq> {} \<Longrightarrow> int m \<le> bm_blockLength (ps_bm s) \<Longrightarrow> r \<noteq> None"
      using free(4) [OF g, of m ign] finds(4) [OF g, of ign m] r by simp_all
    then show ?thesis unfolding stream_select_def Some GeomSelector option.case stream_piece_selector.case r
      by (rule free_result)
  qed
qed

lemma enterEndGame_fields [simp]:
  "ps_bm (storage_enterEndGame dc s) = ps_bm s" "ps_streamSelector (storage_enterEndGame dc s) = ps_streamSelector s"
  "ps_used (storage_enterEndGame dc s) = ps_used s" "ps_pieces (storage_enterEndGame dc s) = ps_pieces s"
  "ps_fresh (storage_enterEndGame dc s) = ps_fresh s" "ps_max_segs (storage_enterEndGame dc s) = ps_max_segs s"
  "storage_ok (storage_enterEndGame dc s) = storage_ok s" "selector_ready rnd (storage_enterEndGame dc s) = selector_ready rnd s"
  by (simp_all add: storage_enterEndGame_def Let_def storage_ok_def selector_ready_def split: option.split stream_piece_selector.split)

text \<open>What the end game shares: pieces that are in use, wanted, unfinished, and that the caller asked to ignore.\<close>

lemma snipe_result:
  assumes "bm_layout (ps_bm s)" "0 < bm_blocks (ps_bm s)" "\<And>xs. set (shuffle xs) = set xs"
  shows "\<exists>r. storage_snipe shuffle dc s ign = Some r
    \<and> (\<forall>i. r = Some i \<longrightarrow> i \<in> bm_used (ps_bm s) \<inter> bm_wanted (ps_bm s) - bm_have (ps_bm s) \<and> i \<in> bit_set (array ign) (bm_blocks (ps_bm s)))"
proof -
  let ?n = "bm_blocks (ps_bm s)" and ?C = "(bit_set (array ign) (bm_blocks (ps_bm s)) - bm_have (ps_bm s)) \<inter> bm_wanted (ps_bm s)"
  let ?found = "length ign = bm_bitfieldLength (ps_bm s) \<and> ?C \<noteq> {}"
  obtain out where out: "BitfieldMan_getAllMissingIndexes_peer (ps_bm s) ign (length ign) = Some (out, ?found)"
    "length ign = bm_bitfieldLength (ps_bm s) \<Longrightarrow> ?n \<le> 8 * length out \<and> bit_set (array out) ?n = ?C"
    using missing_peer_spec [OF assms(1,2)] by blast
  show ?thesis
  proof (cases ?found)
    case False
    then have "storage_snipe shuffle dc s ign = Some None"
      using out(1) by (simp add: storage_snipe_def BitfieldMan_getAllMissingIndexes_vec_def)
    then show ?thesis by simp
  next
    case True
    define cands where "cands = filter (bitfield_test (array out) ?n) [0..<?n]"
    have set: "set cands = ?C" using out(2) True by (auto simp: cands_def bit_set_def)
    have vec: "BitfieldMan_getAllMissingIndexes_vec (ps_bm s) [] ign (length ign) = Some (cands, cands \<noteq> [])"
      using out(1) True by (simp add: BitfieldMan_getAllMissingIndexes_vec_def cands_def Let_def)
    let ?f = "storage_inFlight dc s cands"
    have "storage_snipe shuffle dc s ign = Some (if cands \<noteq> [] \<and> ?f \<noteq> [] then Some (hd (shuffle ?f)) else None)"
      by (simp add: storage_snipe_def vec Let_def)
    moreover have "hd (shuffle ?f) \<in> set ?f" if "?f \<noteq> []"
      using assms(3) [of ?f] that by (metis hd_in_set set_empty)
    moreover have "set ?f \<subseteq> bm_used (ps_bm s) \<inter> ?C"
      using set bm_wanted_sub [of "ps_bm s"] isUseBitSet_iff [of _ "ps_bm s"]
      by (auto simp: storage_inFlight_def DefaultPieceStorage_isPieceUsed_def)
    ultimately show ?thesis by auto
  qed
qed

lemma storage_okD:
  assumes "storage_ok s"
  shows "bm_layout (ps_bm s)" "bm_inv (ps_bm s)" "0 < bm_blocks (ps_bm s)"
  using assms by (auto simp: storage_ok_def bm_inv_def)

lemma stream_request_ok:
  fixes s :: piece_storage and dc :: download_context
  assumes "storage_ok s" "selector_ready rnd s" "\<And>xs. set (shuffle xs) = set xs"
  defines "s1 \<equiv> storage_enterEndGame dc s"
  obtains s' where "DefaultPieceStorage_getMissingPiece_stream rnd shuffle dc io s m ign cuid = Some (s', None)" "s' = s1"
      "int m \<le> bm_blockLength (ps_bm s) \<Longrightarrow> bm_free (ps_bm s) ign = {}"
  | s' a i where "DefaultPieceStorage_getMissingPiece_stream rnd shuffle dc io s m ign cuid = Some (s', Some a)"
      "storage_ok s'" "checked_out s1 i cuid s' a" "i < bm_blocks (ps_bm s)"
      "i \<in> bm_free (ps_bm s) ign \<or> (ps_endGame s1 \<and> i \<in> bm_used (ps_bm s) \<inter> bm_wanted (ps_bm s) - bm_have (ps_bm s)
          \<and> i \<in> bit_set (array ign) (bm_blocks (ps_bm s)))"
proof -
  note l = storage_okD [OF assms(1)]
  have ok1: "storage_ok s1" "selector_ready rnd s1" using assms(1,2) by (simp_all add: s1_def)
  have e: "ps_bm s1 = ps_bm s" by (simp add: s1_def)
  obtain sn where sn: "(if ps_endGame s1 then storage_snipe shuffle dc s1 ign else Some None) = Some sn"
    "\<forall>i. sn = Some i \<longrightarrow> ps_endGame s1 \<and> i \<in> bm_used (ps_bm s) \<inter> bm_wanted (ps_bm s) - bm_have (ps_bm s)
       \<and> i \<in> bit_set (array ign) (bm_blocks (ps_bm s))"
    using snipe_result [of s1 shuffle dc ign] l(1,3) assms(3) e by (cases "ps_endGame s1") auto
  obtain r where r: "stream_select rnd (ps_streamSelector s1) (ps_bm s) m ign = Some r"
    "\<forall>i. r = Some i \<longrightarrow> i \<in> bm_free (ps_bm s) ign"
    "r = None \<longrightarrow> int m \<le> bm_blockLength (ps_bm s) \<longrightarrow> bm_free (ps_bm s) ign = {}"
    using stream_select_free [of s1 rnd m ign] l(1,3) ok1(2) e by auto
  define index where "index = (case sn of Some i \<Rightarrow> Some i | None \<Rightarrow> r)"
  have idx: "(case sn of Some i \<Rightarrow> Some (Some i) | None \<Rightarrow> stream_select rnd (ps_streamSelector s1) (ps_bm s1) m ign) = Some index"
    using r(1) e by (simp add: index_def split: option.split)
  have eq: "DefaultPieceStorage_getMissingPiece_stream rnd shuffle dc io s m ign cuid = (case index of None \<Rightarrow> Some (s1, None)
      | Some i \<Rightarrow> map_option (\<lambda>(s2, a). (s2, Some a)) (DefaultPieceStorage_checkOutPiece dc io s1 i cuid))"
    unfolding DefaultPieceStorage_getMissingPiece_stream_def Let_def s1_def [symmetric] sn(1) bind.bind_lunit idx ..
  show thesis
  proof (cases index)
    case None
    then have "r = None" by (simp add: index_def split: option.splits)
    then show thesis using that(1) eq None r(3) by simp
  next
    case (Some i)
    have i: "i \<in> bm_free (ps_bm s) ign \<or> (ps_endGame s1 \<and> i \<in> bm_used (ps_bm s) \<inter> bm_wanted (ps_bm s) - bm_have (ps_bm s)
        \<and> i \<in> bit_set (array ign) (bm_blocks (ps_bm s)))"
      using Some sn(2) r(2) by (simp add: index_def split: option.splits)
    then have "i \<in> bm_wanted (ps_bm s)" by (auto simp: bm_free_def)
    then have w: "i < bm_blocks (ps_bm s)" "bm_filterEnabled (ps_bm s) \<longrightarrow> i \<in> bm_selected (ps_bm s)" using wanted_selectable by blast+
    then have w1: "i < bm_blocks (ps_bm s1)" "bm_filterEnabled (ps_bm s1) \<Longrightarrow> i \<in> bm_selected (ps_bm s1)" by (simp_all add: e)
    obtain s' a where s': "DefaultPieceStorage_checkOutPiece dc io s1 i cuid = Some (s', a)" "storage_ok s'" "checked_out s1 i cuid s' a"
      by (rule checkOutPiece_ok [OF ok1(1) w1])
    then show thesis using that(2) [OF _ s'(2,3) w(1) i] eq Some by simp
  qed
qed

end
