(* ===== verification/Storage_Runs.thy ===== *)
theory Storage_Runs
  imports Piece_Storage
begin

text \<open>
  The piece storage over time: its operations as events, the states they reach from a new
  storage, and what holds in every one of them: the pieces, the cache and the announcements are
  well formed, no piece is both finished and in flight, and before the end game no piece object
  has more than one user.
\<close>

subsection \<open>Pieces held by connections\<close>

definition held_rel :: "nat set \<Rightarrow> nat set \<Rightarrow> bool \<Rightarrow> (nat \<Rightarrow> piece) \<Rightarrow> nat list \<Rightarrow> bool" where
  "held_rel have inuse endGame pieces used \<longleftrightarrow>
     (\<forall>a\<in>set used. pc_index (pieces a) \<notin> have
        \<and> (endGame \<or> (\<exists>c. set (pc_users (pieces a)) \<subseteq> {c}) \<and> (pc_users (pieces a) \<noteq> [] \<longrightarrow> pc_index (pieces a) \<in> inuse)))"

definition storage_inv :: "piece_storage \<Rightarrow> bool" where
  "storage_inv s \<longleftrightarrow> storage_ok s
     \<and> held_rel (bm_have (ps_bm s)) (bm_used (ps_bm s)) (ps_endGame s) (ps_pieces s) (ps_used s)"

lemma storage_invD: "storage_inv s \<Longrightarrow> storage_ok s"
  by (simp add: storage_inv_def)

lemma used_fresh: "storage_ok s \<Longrightarrow> a \<in> set (ps_used s) \<Longrightarrow> a < ps_fresh s"
  by (auto simp: storage_ok_def pieces_rel_def)

lemma used_index_unique:
  assumes "storage_ok s" "a \<in> set (ps_used s)" "b \<in> set (ps_used s)" "pc_index (ps_pieces s a) = pc_index (ps_pieces s b)"
  shows "a = b"
proof -
  have "sorted_wrt (<) (map (\<lambda>a. pc_index (ps_pieces s a)) (ps_used s))"
    using assms(1) by (simp add: storage_ok_def pieces_rel_def)
  then have "inj_on (\<lambda>a. pc_index (ps_pieces s a)) (set (ps_used s))"
    by (metis distinct_map strict_sorted_iff)
  then show ?thesis using assms(2-) by (auto dest: inj_onD)
qed

lemma held_rel_weaken:
  assumes "held_rel have inuse eg pieces used" "set used' \<subseteq> set used" "\<And>a. a \<in> set used' \<Longrightarrow> pc_index (pieces' a) = pc_index (pieces a)"
    and "\<And>a. a \<in> set used' \<Longrightarrow> set (pc_users (pieces' a)) \<subseteq> set (pc_users (pieces a))"
    and "\<And>a. a \<in> set used' \<Longrightarrow> pc_index (pieces a) \<in> have' \<Longrightarrow> pc_index (pieces a) \<in> have"
    and "\<And>a. a \<in> set used' \<Longrightarrow> \<not> eg \<Longrightarrow> pc_users (pieces' a) \<noteq> [] \<Longrightarrow> pc_index (pieces a) \<in> inuse \<Longrightarrow> pc_index (pieces a) \<in> inuse'"
    and "eg \<Longrightarrow> eg'"
  shows "held_rel have' inuse' eg' pieces' used'"
  unfolding held_rel_def
proof (intro ballI conjI)
  fix a assume a: "a \<in> set used'"
  then have h: "pc_index (pieces a) \<notin> have" "eg \<or> (\<exists>c. set (pc_users (pieces a)) \<subseteq> {c})"
    "eg \<or> pc_users (pieces a) = [] \<or> pc_index (pieces a) \<in> inuse" using assms(1,2) by (auto simp: held_rel_def)
  show "pc_index (pieces' a) \<notin> have'" using h(1) assms(3,5) a by metis
  have "eg' \<or> (\<exists>c. set (pc_users (pieces' a)) \<subseteq> {c})" using h(2) assms(4) [OF a] assms(7) by blast
  moreover have "eg' \<or> pc_users (pieces' a) = [] \<or> pc_index (pieces' a) \<in> inuse'"
    using h(3) assms(3) [OF a] assms(4) [OF a] assms(6) [OF a] assms(7) by fastforce
  ultimately show "eg' \<or> (\<exists>c. set (pc_users (pieces' a)) \<subseteq> {c}) \<and> (pc_users (pieces' a) \<noteq> [] \<longrightarrow> pc_index (pieces' a) \<in> inuse')" by blast
qed

lemma storage_inv_bm:
  assumes "storage_inv s" "bm_inv bm" "bm_geometry bm = bm_geometry (ps_bm s)" "bm_used (ps_bm s) \<subseteq> bm_used bm"
    and "\<And>a. a \<in> set (ps_used s) \<Longrightarrow> pc_index (ps_pieces s a) \<notin> bm_have bm"
  shows "storage_inv (s\<lparr>ps_bm := bm\<rparr>)"
proof -
  have "held_rel (bm_have bm) (bm_used bm) (ps_endGame s) (ps_pieces s) (ps_used s)"
    by (rule held_rel_weaken [of "bm_have (ps_bm s)" "bm_used (ps_bm s)" "ps_endGame s" "ps_pieces s" "ps_used s"])
      (use assms in \<open>auto simp: storage_inv_def\<close>)
  then show ?thesis using storage_ok_bm [OF storage_invD [OF assms(1)] assms(2,3)] by (simp add: storage_inv_def)
qed

lemma storage_inv_put:
  assumes "storage_inv s" "a < ps_fresh s" "piece_wf (ps_bm s) p" "pc_index p = pc_index (ps_pieces s a)"
    and "pc_wrCache p = pc_wrCache (ps_pieces s a)" "set (pc_users p) \<subseteq> set (pc_users (ps_pieces s a))"
  shows "storage_inv (put_piece s a p)"
proof -
  have "held_rel (bm_have (ps_bm s)) (bm_used (ps_bm s)) (ps_endGame s) ((ps_pieces s)(a := p)) (ps_used s)"
    by (rule held_rel_weaken [of "bm_have (ps_bm s)" "bm_used (ps_bm s)" "ps_endGame s" "ps_pieces s" "ps_used s"])
      (use assms(1,4,6) in \<open>auto simp: storage_inv_def\<close>)
  then show ?thesis using storage_ok_put [OF storage_invD [OF assms(1)] assms(2-5)] by (simp add: storage_inv_def)
qed

text \<open>A check-out of a missing piece, which outside the end game nobody uses.\<close>

lemma checked_out_inv:
  assumes "storage_inv s" "storage_ok s'" "checked_out s i cuid s' a" "i \<notin> bm_have (ps_bm s)"
    and "ps_endGame s \<or> i \<notin> bm_used (ps_bm s)"
  shows "storage_inv s'" and "\<not> ps_endGame s \<Longrightarrow> set (pc_users (ps_pieces s' a)) = {cuid}"
proof -
  note c = assms(3) [unfolded checked_out_def]
  have ok: "storage_ok s" using assms(1) by (rule storage_invD)
  have l: "bm_layout (ps_bm s)" by (rule storage_okD(1) [OF ok])
  have bm: "ps_bm s' = fst (BitfieldMan_setUseBit (ps_bm s) i)" using c by simp
  have h: "bm_have (ps_bm s') = bm_have (ps_bm s)" "bm_used (ps_bm s') = bm_used (ps_bm s) \<union> ({i} \<inter> {..<bm_blocks (ps_bm s)})"
    "bm_blocks (ps_bm s') = bm_blocks (ps_bm s)"
    using BitfieldMan_setUseBit_spec [OF l, of i] bm_geometry_blocks [OF geometry_ops(3) [of "ps_bm s" i]] by (simp_all add: bm)
  have a: "a \<in> set (ps_used s')" "pc_index (ps_pieces s' a) = i" using c by auto
  have "piece_wf (ps_bm s') (ps_pieces s' a)"
    using assms(2) used_fresh [OF assms(2) a(1)] by (auto simp: storage_ok_def pieces_rel_def)
  then have i: "i < bm_blocks (ps_bm s)" using a(2) h(3) by (simp add: piece_wf_def)
  have users: "set (pc_users (ps_pieces s' a)) = {cuid}" if "\<not> ps_endGame s"
  proof (cases "a < ps_fresh s")
    case True
    then have "DefaultPieceStorage_findUsedPiece s i = Some a" using c by auto
    from findUsedPiece_Some [OF this] have "a \<in> set (ps_used s)" "pc_index (ps_pieces s a) = i" by auto
    then have "pc_users (ps_pieces s a) = []" using assms(1,5) that by (auto simp: storage_inv_def held_rel_def)
    then show ?thesis using c True by simp
  qed (use c in simp)
  then show "\<not> ps_endGame s \<Longrightarrow> set (pc_users (ps_pieces s' a)) = {cuid}" .
  have old: "ps_pieces s' b = ps_pieces s b" if "b \<in> set (ps_used s)" "b \<noteq> a" for b
    using c that used_fresh [OF ok] by blast
  have "held_rel (bm_have (ps_bm s')) (bm_used (ps_bm s')) (ps_endGame s') (ps_pieces s') (ps_used s')"
    unfolding held_rel_def
  proof
    fix b assume b: "b \<in> set (ps_used s')"
    show "pc_index (ps_pieces s' b) \<notin> bm_have (ps_bm s') \<and> (ps_endGame s' \<or> (\<exists>c. set (pc_users (ps_pieces s' b)) \<subseteq> {c})
      \<and> (pc_users (ps_pieces s' b) \<noteq> [] \<longrightarrow> pc_index (ps_pieces s' b) \<in> bm_used (ps_bm s')))"
    proof (cases "b = a")
      case True
      then show ?thesis using a(2) h assms(4) users i c by auto
    next
      case False
      then have "b \<in> set (ps_used s)" using b c by auto
      then show ?thesis using old [OF _ False] assms(1) h c by (auto simp: storage_inv_def held_rel_def)
    qed
  qed
  then show "storage_inv s'" using assms(2) by (simp add: storage_inv_def)
qed

subsection \<open>Requests\<close>

lemma enterEndGame_stays: "ps_endGame s \<Longrightarrow> ps_endGame (storage_enterEndGame dc s)"
  by (simp add: storage_enterEndGame_def Let_def split: option.split)

lemma enterEndGame_inv: "storage_inv s \<Longrightarrow> storage_inv (storage_enterEndGame dc s)"
  using enterEndGame_stays [of s dc] by (auto simp: storage_inv_def held_rel_def)

lemma stream_request_inv:
  fixes s :: piece_storage and dc :: download_context
  assumes "storage_inv s" "selector_ready rnd s" "\<And>xs. set (shuffle xs) = set xs"
  obtains s' r where "DefaultPieceStorage_getMissingPiece_stream rnd shuffle dc io s m ign cuid = Some (s', r)" "storage_inv s'"
proof -
  let ?s1 = "storage_enterEndGame dc s"
  have inv1: "storage_inv ?s1" using assms(1) by (rule enterEndGame_inv)
  show thesis
  proof (rule stream_request_ok [OF storage_invD [OF assms(1)] assms(2,3), where dc = dc and io = io and m = m and ign = ign and cuid = cuid])
    fix s' assume "DefaultPieceStorage_getMissingPiece_stream rnd shuffle dc io s m ign cuid = Some (s', None)" "s' = ?s1"
    then show thesis using that inv1 by blast
  next
    fix s' a i
    assume r: "DefaultPieceStorage_getMissingPiece_stream rnd shuffle dc io s m ign cuid = Some (s', Some a)" "storage_ok s'"
      "checked_out ?s1 i cuid s' a"
      "i \<in> bm_free (ps_bm s) ign \<or> ps_endGame ?s1 \<and> i \<in> bm_used (ps_bm s) \<inter> bm_wanted (ps_bm s) - bm_have (ps_bm s)
         \<and> i \<in> bit_set (array ign) (bm_blocks (ps_bm s))"
    have i: "i \<notin> bm_have (ps_bm ?s1)" "ps_endGame ?s1 \<or> i \<notin> bm_used (ps_bm ?s1)" using r(4) by (auto simp: bm_free_def)
    show thesis by (rule that [OF r(1) checked_out_inv(1) [OF inv1 r(2,3) i]])
  qed
qed

lemma checked_out_frame:
  assumes "checked_out s i cuid s' a" "storage_ok s"
  shows "bm_blocks (ps_bm s') = bm_blocks (ps_bm s)" "bm_wanted (ps_bm s') = bm_wanted (ps_bm s)"
    "bm_have (ps_bm s') = bm_have (ps_bm s)" "bm_used (ps_bm s') = bm_used (ps_bm s) \<union> ({i} \<inter> {..<bm_blocks (ps_bm s)})"
proof -
  note l = storage_okD(1) [OF assms(2)]
  have b: "ps_bm s' = fst (BitfieldMan_setUseBit (ps_bm s) i)" using assms(1) by (simp add: checked_out_def)
  show "bm_blocks (ps_bm s') = bm_blocks (ps_bm s)" "bm_wanted (ps_bm s') = bm_wanted (ps_bm s)"
    "bm_have (ps_bm s') = bm_have (ps_bm s)" "bm_used (ps_bm s') = bm_used (ps_bm s) \<union> ({i} \<inter> {..<bm_blocks (ps_bm s)})"
    using BitfieldMan_setUseBit_spec [OF l, of i] by (simp_all add: b useBit_forms)
qed

text \<open>One check-out of a wanted piece, as the loops below use it.\<close>

lemma checkOut_step:
  assumes "storage_inv s" "i \<in> bm_wanted (ps_bm s) - bm_have (ps_bm s)" "ps_endGame s \<or> i \<notin> bm_used (ps_bm s)"
  obtains s' a n where "DefaultPieceStorage_checkOutPiece dc io s i cuid = Some (s', a)" "storage_inv s'"
    "bm_blocks (ps_bm s') = bm_blocks (ps_bm s)" "bm_wanted (ps_bm s') = bm_wanted (ps_bm s)" "bm_have (ps_bm s') = bm_have (ps_bm s)"
    "bm_used (ps_bm s') = insert i (bm_used (ps_bm s))" "ps_endGame s' = ps_endGame s" "a < ps_fresh s'" "ps_fresh s \<le> ps_fresh s'"
    "Piece_countMissingBlock (ps_pieces s' a) = Some n" "checked_out s i cuid s' a"
proof -
  note ok = storage_invD [OF assms(1)]
  have w: "i < bm_blocks (ps_bm s)" "bm_filterEnabled (ps_bm s) \<Longrightarrow> i \<in> bm_selected (ps_bm s)"
    using assms(2) wanted_selectable by auto
  obtain s' a where s': "DefaultPieceStorage_checkOutPiece dc io s i cuid = Some (s', a)" "storage_ok s'" "checked_out s i cuid s' a"
    by (rule checkOutPiece_ok [OF ok w])
  have i: "i \<notin> bm_have (ps_bm s)" using assms(2) by blast
  note f = checked_out_frame [OF s'(3) ok]
  have a: "a < ps_fresh s'" "ps_fresh s \<le> ps_fresh s'" "ps_endGame s' = ps_endGame s" using s'(3) by (auto simp: checked_out_def)
  have "piece_ok (ps_pieces s' a)" using s'(2) a(1) by (auto simp: storage_ok_def pieces_rel_def piece_wf_def)
  then obtain n where n: "Piece_countMissingBlock (ps_pieces s' a) = Some n"
    by (auto simp: piece_ok_def Piece_countMissingBlock_def)
  have u: "bm_used (ps_bm s') = insert i (bm_used (ps_bm s))" using f(4) w(1) by auto
  show thesis by (rule that [OF s'(1) checked_out_inv(1) [OF assms(1) s'(2,3) i assms(3)] f(1-3) u a(3,1,2) n s'(3)])
qed

lemma endGame_loop_inv:
  assumes "storage_inv s" "ps_endGame s" "set is \<subseteq> bm_wanted (ps_bm s) - bm_have (ps_bm s)" "set acc \<subseteq> {..<ps_fresh s}"
  shows "\<exists>s' as. endGame_loop dc io cuid m is s acc k = Some (s', as) \<and> storage_inv s' \<and> set as \<subseteq> {..<ps_fresh s'}"
  using assms
proof (induction "is" arbitrary: s acc k)
  case (Cons i "is")
  show ?case
  proof (cases "k < m")
    case True
    have i: "i \<in> bm_wanted (ps_bm s) - bm_have (ps_bm s)" "ps_endGame s \<or> i \<notin> bm_used (ps_bm s)" using Cons.prems(2,3) by auto
    obtain s1 a n where s1: "DefaultPieceStorage_checkOutPiece dc io s i cuid = Some (s1, a)" "storage_inv s1"
      "bm_blocks (ps_bm s1) = bm_blocks (ps_bm s)" "bm_wanted (ps_bm s1) = bm_wanted (ps_bm s)" "bm_have (ps_bm s1) = bm_have (ps_bm s)"
      "bm_used (ps_bm s1) = insert i (bm_used (ps_bm s))" "ps_endGame s1 = ps_endGame s" "a < ps_fresh s1" "ps_fresh s \<le> ps_fresh s1"
      "Piece_countMissingBlock (ps_pieces s1 a) = Some n"
      using checkOut_step [OF Cons.prems(1) i] by metis
    let ?t = "put_piece s1 a (Piece_removeUser (ps_pieces s1 a) cuid)"
    have wf: "piece_wf (ps_bm s1) (Piece_removeUser (ps_pieces s1 a) cuid)"
      using storage_invD [OF s1(2)] s1(8) by (subst piece_wf_cong [where p = "ps_pieces s1 a" and bm = "ps_bm s1"])
        (auto simp: storage_ok_def pieces_rel_def)
    have t: "storage_inv ?t" by (rule storage_inv_put [OF s1(2,8) wf]) auto
    have acc: "set acc \<subseteq> {..<ps_fresh s1}" "set (acc @ [a]) \<subseteq> {..<ps_fresh s1}" using Cons.prems(4) s1(8,9) by auto
    have IH1: "\<exists>s' as. endGame_loop dc io cuid m is ?t acc k = Some (s', as) \<and> storage_inv s' \<and> set as \<subseteq> {..<ps_fresh s'}"
      by (rule Cons.IH [OF t]) (use Cons.prems(2,3) s1 acc in auto)
    have IH2: "\<exists>s' as. endGame_loop dc io cuid m is s1 (acc @ [a]) (k + n) = Some (s', as) \<and> storage_inv s' \<and> set as \<subseteq> {..<ps_fresh s'}"
      by (rule Cons.IH [OF s1(2)]) (use Cons.prems(2,3) s1 acc in auto)
    show ?thesis
      by (cases "pc_usedBySegment (ps_pieces s1 a)") (use True s1(1,10) IH1 IH2 in \<open>simp_all add: Let_def\<close>)
  qed (use Cons.prems in simp)
qed simp

lemma select_loop_inv:
  assumes "\<And>bf n i. select bf n = Some i \<Longrightarrow> i \<in> bit_set bf n"
    and "storage_inv s" "bit_set (array mis) (bm_blocks (ps_bm s)) \<subseteq> bm_wanted (ps_bm s) - bm_have (ps_bm s) - bm_used (ps_bm s)"
    and "bm_blocks (ps_bm s) \<le> 8 * length mis" "set acc \<subseteq> {..<ps_fresh s}"
  shows "\<exists>s' as. select_loop select dc io cuid m mis s acc k = Some (s', as) \<and> storage_inv s' \<and> set as \<subseteq> {..<ps_fresh s'}"
  using assms(2-)
proof (induction "card (bit_set (array mis) (bm_blocks (ps_bm s)))" arbitrary: mis s acc k rule: less_induct)
  case less
  let ?n = "bm_blocks (ps_bm s)"
  show ?case
  proof (cases "k < m \<and> select (array mis) ?n \<noteq> None")
    case False
    then show ?thesis using less.prems by (subst select_loop.simps) auto
  next
    case True
    then obtain i where sel: "select (array mis) ?n = Some i" by blast
    have i: "i \<in> bit_set (array mis) ?n" by (rule assms(1) [OF sel])
    then have w: "i \<in> bm_wanted (ps_bm s) - bm_have (ps_bm s)" "ps_endGame s \<or> i \<notin> bm_used (ps_bm s)" "i < ?n"
      using less.prems(2) by (auto simp: bit_set_def)
    obtain s1 a n where s1: "DefaultPieceStorage_checkOutPiece dc io s i cuid = Some (s1, a)" "storage_inv s1"
      "bm_blocks (ps_bm s1) = ?n" "bm_wanted (ps_bm s1) = bm_wanted (ps_bm s)" "bm_have (ps_bm s1) = bm_have (ps_bm s)"
      "bm_used (ps_bm s1) = insert i (bm_used (ps_bm s))" "a < ps_fresh s1" "ps_fresh s \<le> ps_fresh s1"
      "Piece_countMissingBlock (ps_pieces s1 a) = Some n"
      using checkOut_step [OF less.prems(1) w(1,2)] by metis
    let ?mis = "bitfield_flipBit mis i"
    have b: "bit_set (array ?mis) ?n = bit_set (array mis) ?n - {i}"
    proof -
      have "i div 8 < length mis" using w(3) less.prems(3) by linarith
      then show ?thesis using i by (auto simp: bit_set_def test_flipBit)
    qed
    have "\<exists>s' as. select_loop select dc io cuid m ?mis s1 (acc @ [a]) (k + n) = Some (s', as) \<and> storage_inv s' \<and> set as \<subseteq> {..<ps_fresh s'}"
    proof (rule less.hyps [OF _ s1(2)])
      show "card (bit_set (array ?mis) (bm_blocks (ps_bm s1))) < card (bit_set (array mis) ?n)"
        unfolding s1(3) b using i by (intro psubset_card_mono) auto
      show "bit_set (array ?mis) (bm_blocks (ps_bm s1)) \<subseteq> bm_wanted (ps_bm s1) - bm_have (ps_bm s1) - bm_used (ps_bm s1)"
        unfolding s1(3-6) b using less.prems(2) by blast
      show "bm_blocks (ps_bm s1) \<le> 8 * length ?mis" using less.prems(3) s1(3) by simp
      show "set (acc @ [a]) \<subseteq> {..<ps_fresh s1}" using less.prems(4) s1(7,8) by auto
    qed
    then show ?thesis using True sel s1(1,9) by (subst select_loop.simps) simp
  qed
qed

lemma peer_request_inv:
  assumes "storage_inv s" "\<And>bf n i. select bf n = Some i \<Longrightarrow> i \<in> bit_set bf n" "\<And>xs. set (shuffle xs) = set xs"
  shows "\<exists>s' as. DefaultPieceStorage_getMissingPieces select shuffle dc io s m bits cuid = Some (s', as)
    \<and> storage_inv s' \<and> set as \<subseteq> {..<ps_fresh s'}"
proof -
  note l = storage_okD [OF storage_invD [OF assms(1)]]
  let ?n = "bm_blocks (ps_bm s)"
  show ?thesis
  proof (cases "ps_endGame s")
    case True
    obtain out r where out: "BitfieldMan_getAllMissingIndexes_peer (ps_bm s) bits (length bits) = Some (out, r)"
      "r \<Longrightarrow> bit_set (array out) ?n \<subseteq> bm_wanted (ps_bm s) - bm_have (ps_bm s)"
      by (rule missing_peer_spec [OF l(1,3), of bits "length bits"]) blast
    let ?is = "shuffle (filter (bitfield_test (array out) ?n) [0..<?n])"
    have "set ?is \<subseteq> bm_wanted (ps_bm s) - bm_have (ps_bm s)" if r using out(2) [OF that] assms(3) by (auto simp: bit_set_def)
    then have "r \<Longrightarrow> \<exists>s' as. endGame_loop dc io cuid m ?is s [] 0 = Some (s', as) \<and> storage_inv s' \<and> set as \<subseteq> {..<ps_fresh s'}"
      using endGame_loop_inv [OF assms(1) True] by simp
    then show ?thesis using True out(1) assms(1) by (cases r) (simp_all add: DefaultPieceStorage_getMissingPieces_def Let_def)
  next
    case False
    obtain out r where out: "BitfieldMan_getAllMissingUnusedIndexes (ps_bm s) bits (length bits) = Some (out, r)"
      "r \<Longrightarrow> bit_set (array out) ?n \<subseteq> bm_wanted (ps_bm s) - bm_have (ps_bm s) - bm_used (ps_bm s) \<and> ?n \<le> 8 * length out"
      by (rule missing_unused_spec [OF l(1,3), of bits "length bits"]) blast
    have "r \<Longrightarrow> \<exists>s' as. select_loop select dc io cuid m out s [] 0 = Some (s', as) \<and> storage_inv s' \<and> set as \<subseteq> {..<ps_fresh s'}"
      by (rule select_loop_inv [OF assms(2,1)]) (use out(2) in auto)
    then show ?thesis using False out(1) assms(1) by (cases r) (simp_all add: DefaultPieceStorage_getMissingPieces_def)
  qed
qed

lemma index_request_inv:
  assumes "storage_inv s" "i < bm_blocks (ps_bm s)"
  shows "\<exists>s' r. DefaultPieceStorage_getMissingPiece_index dc io s i cuid = Some (s', r) \<and> storage_inv s'"
proof (cases "DefaultPieceStorage_hasPiece s i \<or> DefaultPieceStorage_isPieceUsed s i
    \<or> (bm_filterEnabled (ps_bm s) \<and> \<not> BitfieldMan_isFilterBitSet (ps_bm s) i)")
  case True
  then show ?thesis using assms(1) by (simp add: DefaultPieceStorage_getMissingPiece_index_def)
next
  case False
  then have i: "i \<in> bm_wanted (ps_bm s) - bm_have (ps_bm s)" "ps_endGame s \<or> i \<notin> bm_used (ps_bm s)"
    using assms(2) isFilterBitSet_iff [of i "ps_bm s"] isUseBitSet_iff [of i "ps_bm s"] isBitSet_iff [of i "ps_bm s"]
    by (auto simp: DefaultPieceStorage_hasPiece_def DefaultPieceStorage_isPieceUsed_def bm_wanted_def)
  obtain s' a where "DefaultPieceStorage_checkOutPiece dc io s i cuid = Some (s', a)" "storage_inv s'"
    using checkOut_step [OF assms(1) i] by metis
  then show ?thesis using False assms(1) by (simp add: DefaultPieceStorage_getMissingPiece_index_def)
qed

subsection \<open>Completing and giving back\<close>

definition holds :: "piece_storage \<Rightarrow> nat \<Rightarrow> bool" where
  "holds s a \<longleftrightarrow> a \<in> set (ps_used s) \<or> ps_endGame s \<and> a < ps_fresh s"

lemma complete_inv:
  assumes "storage_inv s" "holds s a"
  shows "\<exists>s'. DefaultPieceStorage_completePiece s a = Some s' \<and> storage_inv s'"
proof -
  note ok = storage_invD [OF assms(1)]
  note l = storage_okD [OF ok]
  have a: "a < ps_fresh s" using assms(2) used_fresh [OF ok] by (auto simp: holds_def)
  let ?i = "pc_index (ps_pieces s a)"
  obtain s' where s': "DefaultPieceStorage_completePiece s a = Some s'" "storage_ok s'"
    "BitfieldMan_isAllBitSet (ps_bm s) \<Longrightarrow> ps_bm s' = ps_bm s"
    "\<not> BitfieldMan_isAllBitSet (ps_bm s) \<Longrightarrow> ps_bm s' = fst (BitfieldMan_unsetUseBit (fst (BitfieldMan_setBit (ps_bm s) ?i)) ?i)"
    "ps_used s' = filter (\<lambda>b. pc_index (ps_pieces s b) \<noteq> ?i) (ps_used s)" "ps_endGame s' = ps_endGame s"
    "\<forall>b. b \<noteq> a \<longrightarrow> ps_pieces s' b = ps_pieces s b" "same_but_cache (ps_pieces s a) (ps_pieces s' a)"
    "ps_fresh s' = ps_fresh s" "ps_streamSelector s' = ps_streamSelector s"
    by (rule completePiece_ok [OF ok a]) blast
  have s1: "bm_layout (fst (BitfieldMan_setBit (ps_bm s) ?i))" using BitfieldMan_setBit_spec(1) [OF l(1)] by (rule bm_inv_layout)
  have h: "bm_have (ps_bm s') \<subseteq> insert ?i (bm_have (ps_bm s))" "bm_used (ps_bm s) - {?i} \<subseteq> bm_used (ps_bm s')"
    using s'(3,4) BitfieldMan_setBit_spec(2,3) [OF l(1), of ?i] BitfieldMan_unsetUseBit_spec(3,4) [OF s1, of ?i]
    by (cases "BitfieldMan_isAllBitSet (ps_bm s)"; auto)+
  have "held_rel (bm_have (ps_bm s')) (bm_used (ps_bm s')) (ps_endGame s') (ps_pieces s') (ps_used s')"
    by (rule held_rel_weaken [of "bm_have (ps_bm s)" "bm_used (ps_bm s)" "ps_endGame s" "ps_pieces s" "ps_used s"])
      (use assms(1) s'(5-7) h in \<open>auto simp: storage_inv_def\<close>)
  then show ?thesis using s'(1,2) by (auto simp: storage_inv_def)
qed

lemma cancel_inv:
  assumes "storage_inv s" "holds s a"
  shows "\<exists>s'. DefaultPieceStorage_cancelPiece s a cuid = Some s' \<and> storage_inv s'"
proof -
  note ok = storage_invD [OF assms(1)]
  note l = storage_okD [OF ok]
  have a: "a < ps_fresh s" using assms(2) used_fresh [OF ok] by (auto simp: holds_def)
  let ?i = "pc_index (ps_pieces s a)"
  obtain s' where s': "DefaultPieceStorage_cancelPiece s a cuid = Some s'" "storage_ok s'"
    "ps_bm s' = (if set (pc_users (ps_pieces s a)) \<subseteq> {cuid} then fst (BitfieldMan_unsetUseBit (ps_bm s) ?i) else ps_bm s)"
    "ps_endGame s' = ps_endGame s" "ps_fresh s' = ps_fresh s" "ps_streamSelector s' = ps_streamSelector s"
    "\<forall>b. b \<noteq> a \<longrightarrow> ps_pieces s' b = ps_pieces s b" "same_but_cache (Piece_removeUser (ps_pieces s a) cuid) (ps_pieces s' a)"
    "set (ps_used s') \<subseteq> set (ps_used s)"
    by (rule cancelPiece_ok [OF ok a]) blast
  note f = same_but_cacheD [OF s'(8)]
  have pa: "set (pc_users (ps_pieces s' a)) = set (pc_users (ps_pieces s a)) - {cuid}" "pc_index (ps_pieces s' a) = ?i"
    using f(2,4) by simp_all
  have h: "bm_have (ps_bm s') = bm_have (ps_bm s)" using s'(3) BitfieldMan_unsetUseBit_spec(3) [OF l(1)] by simp
  have u: "j \<in> bm_used (ps_bm s')" if "j \<in> bm_used (ps_bm s)" "j \<noteq> ?i \<or> \<not> set (pc_users (ps_pieces s a)) \<subseteq> {cuid}" for j
    using that s'(3) BitfieldMan_unsetUseBit_spec(4) [OF l(1), of ?i] by auto
  have eq: "ps_pieces s' b = ps_pieces s b" if "b \<noteq> a" for b using s'(7) that by blast
  have "held_rel (bm_have (ps_bm s')) (bm_used (ps_bm s')) (ps_endGame s') (ps_pieces s') (ps_used s')"
  proof (rule held_rel_weaken [of "bm_have (ps_bm s)" "bm_used (ps_bm s)" "ps_endGame s" "ps_pieces s" "ps_used s"])
    fix b assume b: "b \<in> set (ps_used s')"
    show "pc_index (ps_pieces s' b) = pc_index (ps_pieces s b)" "set (pc_users (ps_pieces s' b)) \<subseteq> set (pc_users (ps_pieces s b))"
      using pa eq [of b] by (cases "b = a"; auto)+
    show "pc_index (ps_pieces s b) \<in> bm_used (ps_bm s')" if "\<not> ps_endGame s" "pc_users (ps_pieces s' b) \<noteq> []" "pc_index (ps_pieces s b) \<in> bm_used (ps_bm s)"
    proof (rule u [OF that(3)])
      have "a \<in> set (ps_used s)" "b \<in> set (ps_used s)" using assms(2) that(1) b s'(9) by (auto simp: holds_def)
      from used_index_unique [OF ok this(2,1)] show "pc_index (ps_pieces s b) \<noteq> ?i \<or> \<not> set (pc_users (ps_pieces s a)) \<subseteq> {cuid}"
        using pa(1) that(2) by (metis Diff_eq_empty_iff set_empty)
    qed
  qed (use assms(1) s'(4,9) h in \<open>auto simp: storage_inv_def\<close>)
  then show ?thesis using s'(1,2) by (auto simp: storage_inv_def)
qed

subsection \<open>Blocks, cached data and marks\<close>

lemma piece_at: "storage_ok s \<Longrightarrow> a < ps_fresh s \<Longrightarrow> piece_wf (ps_bm s) (ps_pieces s a)"
  by (simp add: storage_ok_def pieces_rel_def)

lemma finish_block_inv:
  assumes "storage_inv s" "a < ps_fresh s"
  shows "\<exists>p. Piece_completeBlock (ps_pieces s a) i = Some p \<and> storage_inv (put_piece s a p)"
proof -
  have wf: "piece_wf (ps_bm s) (ps_pieces s a)" using piece_at [OF storage_invD [OF assms(1)] assms(2)] .
  then have "piece_ok (ps_pieces s a)" by (simp add: piece_wf_def)
  then obtain p where p: "Piece_completeBlock (ps_pieces s a) i = Some p" "piece_ok p" "piece_frame (ps_pieces s a) p"
    by (rule Piece_completeBlock_ok)
  note f = piece_frameD [OF p(3)]
  have "storage_inv (put_piece s a p)"
    by (rule storage_inv_put [OF assms piece_wf_frame [OF wf p(3,2)]]) (simp_all add: f)
  then show ?thesis using p(1) by blast
qed

lemma clearAllBlock_ok:
  assumes "piece_ok p"
  obtains p' where "Piece_clearAllBlock p = Some p'" "piece_ok p'" "piece_frame p p'" "piece_have p' = {}"
proof -
  obtain b where b: "pc_bitfield p = Some b" "piece_bm p = b" using assms by (auto simp: piece_ok_def piece_bm_def)
  have l: "bm_layout b" using assms by (simp add: piece_ok_def b bm_inv_def)
  let ?c = "BitfieldMan_clearAllBit b" and ?b = "BitfieldMan_clearAllUseBit (BitfieldMan_clearAllBit b)"
  let ?p = "p\<lparr>pc_bitfield := Some ?b, pc_requested_count := 0\<rparr>"
  have l1: "bm_layout ?c" using BitfieldMan_clearAllBit_spec(1) [OF l] by (rule bm_inv_layout)
  have i: "bm_inv ?b" "bm_have ?b = {}"
    using BitfieldMan_clearAllUseBit_spec(1,3) [OF l1] BitfieldMan_clearAllBit_spec(2) [OF l] by simp_all
  have g: "bm_geometry ?b = bm_geometry b"
    using bm_apply_geometry [of ClearAllUseBit ?c] bm_apply_geometry [of ClearAllBit b] by simp
  have f: "\<not> bm_filterEnabled ?b" "bm_padded ?b"
    using assms by (simp_all add: piece_ok_def b BitfieldMan_clearAllUseBit_def BitfieldMan_clearAllBit_def bm_padded_def bit_set_zero)
  show thesis
    by (rule that [of ?p]) (use assms b i g f in \<open>simp_all add: Piece_clearAllBlock_def piece_ok_def piece_bm_def piece_frame_def
        piece_have_def bm_geometry_def\<close>)
qed

lemma clear_blocks_inv:
  assumes "storage_inv s" "a < ps_fresh s"
  shows "\<exists>p c. Piece_clearAllBlock_cache io (ps_cache s) (ps_pieces s a) = Some (p, c) \<and> storage_inv ((put_piece s a p)\<lparr>ps_cache := c\<rparr>)"
proof -
  have ok: "storage_ok s" using assms(1) by (rule storage_invD)
  have wf: "piece_wf (ps_bm s) (ps_pieces s a)" using piece_at [OF ok assms(2)] .
  then have "piece_ok (ps_pieces s a)" by (simp add: piece_wf_def)
  then obtain p where p: "Piece_clearAllBlock (ps_pieces s a) = Some p" "piece_ok p" "piece_frame (ps_pieces s a) p"
    by (rule clearAllBlock_ok)
  note f = piece_frameD [OF p(3)]
  have inv: "storage_inv (put_piece s a p)"
    by (rule storage_inv_put [OF assms piece_wf_frame [OF wf p(3,2)]]) (simp_all add: f)
  have rel: "cache_rel (ps_cache s) (ps_fresh s) (\<lambda>b. pc_wrCache (ps_pieces s b))" using ok by (simp add: storage_ok_def)
  show ?thesis
  proof (cases "\<exists>c i. ps_cache s = Some c \<and> pc_wrCache (ps_pieces s a) = Some i")
    case False
    then have "Piece_clearAllBlock_cache io (ps_cache s) (ps_pieces s a) = Some (p, ps_cache s)"
      using p(1) by (auto simp: Piece_clearAllBlock_cache_def split: option.split)
    then show ?thesis using inv by (intro exI [of _ p] exI [of _ "ps_cache s"]) simp
  next
    case True
    then obtain c i where c: "ps_cache s = Some c" "pc_wrCache (ps_pieces s a) = Some i" by blast
    have i: "i = a" "a \<in> set (wc_set c)" "wc_ok c" using cache_rel_entry [of c] rel c assms(2) by auto
    obtain c' where c': "Piece_clearWrCache io c a = Some c'" "wc_ok c'" "set (wc_set c') = set (wc_set c)"
      by (rule Piece_clearWrCache_ok [OF i(3,2)])
    have "Piece_clearAllBlock_cache io (ps_cache s) (ps_pieces s a) = Some (p, Some c')"
      using p(1) c c'(1) i(1) by (simp add: Piece_clearAllBlock_cache_def)
    moreover have "storage_inv ((put_piece s a p)\<lparr>ps_cache := Some c'\<rparr>)"
      using inv c(1) cache_rel_update [OF _ c'(2,3)] by (simp add: storage_inv_def storage_ok_def)
    ultimately show ?thesis by blast
  qed
qed

lemma storage_inv_cache:
  assumes "storage_inv s" "ps_cache s = Some c" "wc_ok c'" "set (wc_set c') = set (wc_set c)"
  shows "storage_inv (s\<lparr>ps_cache := Some c'\<rparr>)"
  using assms cache_rel_update [OF _ assms(3,4)] by (simp add: storage_inv_def storage_ok_def)

lemma flush_entries_inv:
  assumes "storage_inv s" "set as \<subseteq> {..<ps_fresh s}"
  shows "\<exists>s'. flush_entries io rel as s = Some s' \<and> storage_inv s'"
  using assms
proof (induction as arbitrary: s)
  case (Cons a as)
  show ?case
  proof (cases "\<exists>c i. ps_cache s = Some c \<and> pc_wrCache (ps_pieces s a) = Some i")
    case False
    then have "flush_entries io rel (a # as) s = flush_entries io rel as s" by (auto split: option.split)
    then show ?thesis using Cons by simp
  next
    case True
    then obtain c i where c: "ps_cache s = Some c" "pc_wrCache (ps_pieces s a) = Some i" by blast
    have ok: "storage_ok s" and a: "a < ps_fresh s" using Cons.prems by (auto intro: storage_invD)
    have i: "i = a" "a \<in> set (wc_set c)" "wc_ok c" using cache_rel_entry [of c] ok c a by (auto simp: storage_ok_def)
    obtain c' where c': "Piece_flushWrCache io c a = Some c'" "wc_ok c'" "set (wc_set c') = set (wc_set c)"
      using Piece_flushWrCache_ok [OF i(3,2), of io] by metis
    let ?s1 = "s\<lparr>ps_cache := Some c'\<rparr>"
    have s1: "storage_inv ?s1" by (rule storage_inv_cache [OF Cons.prems(1) c(1) c'(2,3)])
    have r: "\<exists>s2. (if rel then storage_releaseWrCache ?s1 a else Some ?s1) = Some s2 \<and> storage_inv s2 \<and> ps_fresh s2 = ps_fresh s"
    proof (cases rel)
      case True
      note ok1 = storage_invD [OF s1]
      have "cache_rel (ps_cache ?s1) (ps_fresh ?s1) (\<lambda>b. pc_wrCache (ps_pieces ?s1 b))" "a < ps_fresh ?s1"
        using ok1 a by (simp_all add: storage_ok_def)
      from storage_releaseWrCache_ok [OF this] obtain w d where
        w: "storage_releaseWrCache ?s1 a = Some (?s1\<lparr>ps_pieces := (ps_pieces ?s1)(a := (ps_pieces ?s1 a)\<lparr>pc_wrCache := w\<rparr>), ps_cache := d\<rparr>)"
          "cache_rel d (ps_fresh ?s1) ((\<lambda>b. pc_wrCache (ps_pieces ?s1 b))(a := w))" by blast
      let ?t = "?s1\<lparr>ps_pieces := (ps_pieces ?s1)(a := (ps_pieces ?s1 a)\<lparr>pc_wrCache := w\<rparr>), ps_cache := d\<rparr>"
      have wf: "piece_wf (ps_bm s) ((ps_pieces s a)\<lparr>pc_wrCache := w\<rparr>)"
        using piece_at [OF ok a] by (subst piece_wf_cong [where p = "ps_pieces s a" and bm = "ps_bm s"]) simp_all
      have "(\<lambda>b. pc_wrCache (ps_pieces ?t b)) = (\<lambda>b. pc_wrCache (ps_pieces s b))(a := w)" by auto
      moreover have "pieces_rel (ps_bm s) (ps_fresh s) (ps_pieces ?t) (ps_used s)"
        using ok pieces_rel_put [OF _ wf, of "ps_fresh s" "ps_pieces s" "ps_used s" a] by (simp add: storage_ok_def)
      moreover have "held_rel (bm_have (ps_bm s)) (bm_used (ps_bm s)) (ps_endGame s) (ps_pieces ?t) (ps_used s)"
        by (rule held_rel_weaken [of "bm_have (ps_bm s)" "bm_used (ps_bm s)" "ps_endGame s" "ps_pieces s" "ps_used s"])
          (use Cons.prems(1) in \<open>auto simp: storage_inv_def\<close>)
      ultimately have "storage_inv ?t" using ok w(2) by (simp add: storage_inv_def storage_ok_def)
      then show ?thesis using True w(1) by simp
    qed (use s1 in simp)
    then obtain s2 where s2: "(if rel then storage_releaseWrCache ?s1 a else Some ?s1) = Some s2" "storage_inv s2" "ps_fresh s2 = ps_fresh s" by blast
    have "\<exists>s'. flush_entries io rel as s2 = Some s' \<and> storage_inv s'" by (rule Cons.IH [OF s2(2)]) (use Cons.prems(2) s2(3) in simp)
    moreover have "flush_entries io rel (a # as) s = flush_entries io rel as s2"
      using c c'(1) i(1) s2(1) by (simp add: Let_def)
    ultimately show ?thesis by simp
  qed
qed simp

lemma flush_inv:
  assumes "storage_inv s"
  shows "\<exists>s'. DefaultPieceStorage_flushWrDiskCacheEntry io s rel = Some s' \<and> storage_inv s'"
  using flush_entries_inv [OF assms, of "ps_used s"] used_fresh [OF storage_invD [OF assms]] assms
  by (auto simp: DefaultPieceStorage_flushWrDiskCacheEntry_def)

lemma mark_missing_inv: "storage_inv s \<Longrightarrow> storage_inv (DefaultPieceStorage_markPieceMissing s i)"
  unfolding DefaultPieceStorage_markPieceMissing_def
  by (rule storage_inv_bm) (auto simp: storage_inv_def held_rel_def storage_okD geometry_ops BitfieldMan_unsetBit_spec)

text \<open>While no piece is in use, the bitfield may change in any way.\<close>

lemma storage_inv_empty:
  assumes "storage_inv s" "bm_inv bm" "bm_geometry bm = bm_geometry (ps_bm s)" "ps_used s = []"
  shows "storage_inv (s\<lparr>ps_bm := bm\<rparr>)"
  using storage_ok_bm [OF storage_invD [OF assms(1)] assms(2,3)] assms(4) by (simp add: storage_inv_def held_rel_def)

lemma add_piece_inv:
  assumes "storage_inv s" "piece_wf (ps_bm s) p" "pc_wrCache p = None" "pc_users p = []" "pc_index p \<notin> bm_have (ps_bm s)"
  shows "storage_inv (DefaultPieceStorage_addUsedPiece (fst (alloc_piece s p)) (snd (alloc_piece s p)))"
proof -
  let ?h = "(ps_pieces s)(ps_fresh s := p)" and ?u = "used_insert (\<lambda>b. pc_index (((ps_pieces s)(ps_fresh s := p)) b)) (ps_fresh s) (ps_used s)"
  have r: "pieces_rel (ps_bm s) (ps_fresh s) (ps_pieces s) (ps_used s)" "cache_rel (ps_cache s) (ps_fresh s) (\<lambda>b. pc_wrCache (ps_pieces s b))"
    using assms(1) by (simp_all add: storage_inv_def storage_ok_def)
  have p: "pieces_rel (ps_bm s) (Suc (ps_fresh s)) ?h ?u" by (rule pieces_rel_new(2) [OF r(1) assms(2)])
  have c: "cache_rel (ps_cache s) (Suc (ps_fresh s)) (\<lambda>b. pc_wrCache (?h b))" by (rule cache_rel_new [OF r(2)]) (simp_all add: assms(3))
  have old: "?h b = ps_pieces s b" if "b \<in> set (ps_used s)" for b
    using used_fresh [OF storage_invD [OF assms(1)] that] by simp
  have "held_rel (bm_have (ps_bm s)) (bm_used (ps_bm s)) (ps_endGame s) ?h ?u"
    unfolding held_rel_def
  proof
    fix b assume "b \<in> set ?u"
    then consider "b = ps_fresh s" | "b \<in> set (ps_used s)" "b \<noteq> ps_fresh s" using used_insert_sub by fast
    then show "pc_index (?h b) \<notin> bm_have (ps_bm s) \<and> (ps_endGame s \<or> (\<exists>c. set (pc_users (?h b)) \<subseteq> {c})
      \<and> (pc_users (?h b) \<noteq> [] \<longrightarrow> pc_index (?h b) \<in> bm_used (ps_bm s)))"
      by cases (use assms(1,4,5) in \<open>simp_all add: storage_inv_def held_rel_def\<close>)
  qed
  then show ?thesis using assms(1) p c
    by (simp add: storage_inv_def storage_ok_def alloc_piece_def DefaultPieceStorage_addUsedPiece_def del: fun_upd_apply)
qed

lemma filter_inv:
  assumes "storage_inv s" "list_all (\<lambda>e. 0 \<le> fe_offset e \<and> fe_offset e + fe_length e < 2 ^ 63) (dc_fileEntries dc)"
  shows "storage_inv (DefaultPieceStorage_setupFileFilter dc s)"
proof (cases "list_all fe_requested (dc_fileEntries dc)")
  case False
  let ?f = "\<lambda>e b. if fe_requested e then BitfieldMan_addFilter b (fe_offset e) (fe_length e) else b"
  have fold: "bm_inv (fold ?f es b) \<and> bm_geometry (fold ?f es b) = bm_geometry b \<and> bm_have (fold ?f es b) = bm_have b
      \<and> bm_used (fold ?f es b) = bm_used b"
    if "bm_inv b" "list_all (\<lambda>e. 0 \<le> fe_offset e \<and> fe_offset e + fe_length e < 2 ^ 63) es" for es b
    using that
  proof (induction es arbitrary: b)
    case (Cons e es)
    have "bm_inv (?f e b)" "bm_geometry (?f e b) = bm_geometry b" "bm_have (?f e b) = bm_have b" "bm_used (?f e b) = bm_used b"
      using BitfieldMan_addFilter_spec [OF bm_inv_layout [OF Cons.prems(1)], of "fe_offset e" "fe_length e"] Cons.prems
        bm_apply_geometry [of "AddFilter (fe_offset e) (fe_length e)" b] by auto
    then show ?case using Cons.IH [of "?f e b"] Cons.prems(2) by simp
  qed simp
  let ?b = "fold ?f (dc_fileEntries dc) (ps_bm s)"
  have inv: "bm_inv (ps_bm s)" using storage_okD(2) [OF storage_invD [OF assms(1)]] .
  note b = fold [OF inv assms(2)]
  note e = BitfieldMan_enableFilter_spec [OF bm_inv_layout [OF conjunct1 [OF b]]]
  have "bm_geometry (BitfieldMan_enableFilter ?b) = bm_geometry (ps_bm s)" using bm_apply_geometry [of EnableFilter ?b] b by simp
  then have "storage_inv (s\<lparr>ps_bm := BitfieldMan_enableFilter ?b\<rparr>)"
    using b e assms(1) by (intro storage_inv_bm) (auto simp: storage_inv_def held_rel_def)
  then show ?thesis using False by (simp add: DefaultPieceStorage_setupFileFilter_def)
qed (use assms in \<open>simp add: DefaultPieceStorage_setupFileFilter_def\<close>)

lemma clearFilter_use [simp]: "bm_used (BitfieldMan_clearFilter bm) = bm_used bm"
  by (simp add: BitfieldMan_clearFilter_def) (simp add: bm_used_def)

lemma mark_done_inv:
  assumes "storage_inv s" "ps_used s = []" "bm_have (ps_bm s) = {}" "0 \<le> len" "len \<le> bm_totalLength (ps_bm s)"
  shows "\<exists>s'. DefaultPieceStorage_markPiecesDone dc s len = Some s' \<and> storage_inv s'"
proof -
  note ok = storage_invD [OF assms(1)]
  note l = storage_okD [OF ok]
  let ?b = "ps_bm s" and ?bl = "bm_blockLength (ps_bm s)"
  note pos = bm_blocks_pos [OF l(1,3)]
  consider "len = bm_totalLength ?b" | "len = 0" "len \<noteq> bm_totalLength ?b" | "0 < len" "len < bm_totalLength ?b" using assms(4,5) by linarith
  then show ?thesis
  proof cases
    case 1
    have "storage_inv (s\<lparr>ps_bm := BitfieldMan_setAllBit ?b\<rparr>)"
      using BitfieldMan_setAllBit_spec(1) [OF l(1)] bm_apply_geometry [of SetAllBit ?b] assms(1,2) by (intro storage_inv_empty) simp_all
    then show ?thesis using 1 by (simp add: DefaultPieceStorage_markPiecesDone_def Let_def)
  next
    case 2
    have "storage_inv (s\<lparr>ps_bm := BitfieldMan_clearAllBit ?b\<rparr>)"
      using BitfieldMan_clearAllBit_spec(1) [OF l(1)] bm_apply_geometry [of ClearAllBit ?b] assms(1,2) by (intro storage_inv_empty) simp_all
    moreover have "s\<lparr>ps_bm := BitfieldMan_clearAllBit ?b, ps_used := []\<rparr> = s\<lparr>ps_bm := BitfieldMan_clearAllBit ?b\<rparr>"
      using assms(2) by (cases s) simp
    ultimately show ?thesis using 2 by (simp add: DefaultPieceStorage_markPiecesDone_def Let_def)
  next
    case 3
    define np where "np = nat (len div ?bl)"
    define r where "r = nat ((len mod ?bl) div BLOCK_LENGTH)"
    have sz: "bm_totalLength ?b < 2 ^ 63" "?bl < 2 ^ 31" using l(1) by (simp_all add: bm_layout_def)
    have q: "len sdiv ?bl = len div ?bl" "len smod ?bl = len mod ?bl" using 3 pos(1)
      by (simp_all add: signed_divide_int_def signed_modulo_int_def sgn_if)
    have m: "0 \<le> len mod ?bl" "len mod ?bl < ?bl" using pos(1) by simp_all
    have d: "0 \<le> len div ?bl" "len div ?bl \<le> len" using 3 pos(1) zdiv_mono2 [of len 1 ?bl] by (simp_all add: pos_imp_zdiv_nonneg_iff)
    have np: "to_size (len sdiv ?bl) = np" unfolding q np_def using d 3 sz by simp
    have rr: "to_size ((len smod ?bl) sdiv BLOCK_LENGTH) = r"
    proof -
      have "(len mod ?bl) sdiv BLOCK_LENGTH = (len mod ?bl) div BLOCK_LENGTH" using m by (simp add: signed_divide_int_def sgn_if BLOCK_LENGTH_def)
      moreover have "0 \<le> (len mod ?bl) div BLOCK_LENGTH" "(len mod ?bl) div BLOCK_LENGTH \<le> len mod ?bl"
        using m zdiv_mono2 [of "len mod ?bl" 1 BLOCK_LENGTH] by (simp_all add: BLOCK_LENGTH_def)
      ultimately show ?thesis unfolding q r_def using m sz by simp
    qed
    define b1 where "b1 = (if np > 0 then BitfieldMan_setBitRange ?b 0 (np - 1) else ?b)"
    have b1: "bm_inv b1" "bm_geometry b1 = bm_geometry ?b" "bm_have b1 \<subseteq> {..<np}"
      using l(2) BitfieldMan_setBitRange_spec(1,3) [OF l(1), of 0 "np - 1"] bm_apply_geometry [of "SetBitRange 0 (np - 1)" ?b] assms(3)
      by (auto simp: b1_def)
    let ?s1 = "s\<lparr>ps_bm := b1\<rparr>"
    have s1: "storage_inv ?s1" by (rule storage_inv_empty [OF assms(1) b1(1,2) assms(2)])
    have npb: "np < bm_blocks ?b"
    proof -
      have "len div ?bl \<le> (bm_totalLength ?b - 1) div ?bl" using 3 pos(1) by (intro zdiv_mono1) simp_all
      moreover have "(bm_totalLength ?b + ?bl - 1) div ?bl = (bm_totalLength ?b - 1) div ?bl + 1"
        using pos(1) div_add_self2 [of ?bl "bm_totalLength ?b - 1"] by (simp add: algebra_simps)
      moreover have "bm_blocks ?b = nat ((bm_totalLength ?b + ?bl - 1) div ?bl)" using l(1) 3 pos(1) by (simp add: bm_layout_def)
      ultimately show ?thesis using d(1) by (simp add: np_def)
    qed
    show ?thesis
    proof (cases "r = 0")
      case True
      then show ?thesis using s1 3 pos(1) np rr by (simp add: DefaultPieceStorage_markPiecesDone_def Let_def b1_def [symmetric])
    next
      case False
      let ?p0 = "Piece_new np (BitfieldMan_getBlockLength b1 np) BLOCK_LENGTH"
      have lay1: "bm_layout (ps_bm ?s1)" "np < bm_blocks (ps_bm ?s1)" using b1 npb by (simp_all add: bm_inv_layout bm_geometry_def)
      note w = storage_new_piece_wf [OF lay1, of dc]
      have w0: "piece_wf b1 ?p0" using w(1) by (simp add: storage_new_piece_def piece_wf_def piece_ok_def piece_bm_def)
      have rl: "\<forall>i\<in>set (map int [0..<r]). 0 \<le> i \<and> i < 2 ^ 63"
      proof -
        have "int r \<le> len mod ?bl" using m zdiv_mono2 [of "len mod ?bl" 1 BLOCK_LENGTH] by (simp add: r_def BLOCK_LENGTH_def)
        then show ?thesis using m(2) sz(2) by auto
      qed
      have "piece_ok ?p0" using w0 by (simp add: piece_wf_def)
      from completeBlocks_ok [OF this rl] obtain p where p: "completeBlocks (map int [0..<r]) ?p0 = Some p" "piece_ok p" "piece_frame ?p0 p" by blast
      note f = piece_frameD [OF p(3)]
      let ?p = "p\<lparr>pc_hashType := dc_hashType dc\<rparr>"
      have wp: "piece_wf b1 p" by (rule piece_wf_frame [OF w0 p(3,2)])
      have wp': "piece_wf b1 ?p" using wp by (subst piece_wf_cong [where p = p and bm = b1]) simp_all
      have e: "pc_index ?p = np" "pc_wrCache ?p = None" "pc_users ?p = []"
        using f w(2,3,5) by (simp_all add: storage_new_piece_def)
      have "storage_inv (DefaultPieceStorage_addUsedPiece (fst (alloc_piece ?s1 ?p)) (snd (alloc_piece ?s1 ?p)))"
        by (rule add_piece_inv [OF s1]) (use wp' e b1(3) in auto)
      moreover have "DefaultPieceStorage_markPiecesDone dc s len
          = Some (DefaultPieceStorage_addUsedPiece (fst (alloc_piece ?s1 ?p)) (snd (alloc_piece ?s1 ?p)))"
        using 3 pos(1) np rr False p(1)
        by (simp add: DefaultPieceStorage_markPiecesDone_def Let_def b1_def [symmetric] split_def)
      ultimately show ?thesis by blast
    qed
  qed
qed

subsection \<open>The operations as events\<close>

text \<open>
  Besides the storage's own operations the events are what connections do to the pieces they
  share with it: finishing a block, throwing the blocks away when a hash does not match, and using
  the piece's cache entry.
\<close>

datatype storage_event =
    StreamRequest nat "nat list \<Rightarrow> nat list" download_context "cell list \<Rightarrow> bool" nat "byte list" int
  | IndexRequest download_context "cell list \<Rightarrow> bool" nat int
  | PeerRequest "byte_array \<Rightarrow> nat \<Rightarrow> nat option" "nat list \<Rightarrow> nat list" download_context "cell list \<Rightarrow> bool" nat "byte list" int
  | Complete nat | Cancel nat int
  | FinishBlock nat nat | ThrowBlocks "cell list \<Rightarrow> bool" nat
  | SetCache wr_cache | UseCache "cell list \<Rightarrow> bool" cache_event | FlushCache "cell list \<Rightarrow> bool" bool
  | LoadBitfield "byte list" | RestorePiece piece | MarkMissing nat | MarkAllDone | MarkDone download_context int
  | SetupFileFilter download_context | ClearFileFilter
  | Advertise int nat int | ForgetAdvertised int | DownloadIncomplete

fun storage_step :: "storage_event \<Rightarrow> piece_storage \<Rightarrow> piece_storage option" where
  "storage_step (StreamRequest rnd shuffle dc io minSplitSize ign cuid) s =
     map_option fst (DefaultPieceStorage_getMissingPiece_stream rnd shuffle dc io s minSplitSize ign cuid)"
| "storage_step (IndexRequest dc io index cuid) s =
     map_option fst (DefaultPieceStorage_getMissingPiece_index dc io s index cuid)"
| "storage_step (PeerRequest select shuffle dc io minMissingBlocks bits cuid) s =
     map_option fst (DefaultPieceStorage_getMissingPieces select shuffle dc io s minMissingBlocks bits cuid)"
| "storage_step (Complete a) s = DefaultPieceStorage_completePiece s a"
| "storage_step (Cancel a cuid) s = DefaultPieceStorage_cancelPiece s a cuid"
| "storage_step (FinishBlock a i) s = map_option (put_piece s a) (Piece_completeBlock (ps_pieces s a) i)"
| "storage_step (ThrowBlocks io a) s =
     map_option (\<lambda>(p, c). (put_piece s a p)\<lparr>ps_cache := c\<rparr>) (Piece_clearAllBlock_cache io (ps_cache s) (ps_pieces s a))"
| "storage_step (SetCache c) s = Some (DefaultPieceStorage_setWrDiskCache s (Some c))"
| "storage_step (UseCache io e) s =
     (case ps_cache s of None \<Rightarrow> Some s | Some c \<Rightarrow> map_option (\<lambda>c'. s\<lparr>ps_cache := Some c'\<rparr>) (cache_apply io e c))"
| "storage_step (FlushCache io rel) s = DefaultPieceStorage_flushWrDiskCacheEntry io s rel"
| "storage_step (LoadBitfield bits) s = Some (DefaultPieceStorage_setBitfield s bits (length bits))"
| "storage_step (RestorePiece p) s =
     Some (let (s', a) = alloc_piece s p in DefaultPieceStorage_addInFlightPiece s' [a])"
| "storage_step (MarkMissing i) s = Some (DefaultPieceStorage_markPieceMissing s i)"
| "storage_step MarkAllDone s = Some (DefaultPieceStorage_markAllPiecesDone s)"
| "storage_step (MarkDone dc len) s = DefaultPieceStorage_markPiecesDone dc s len"
| "storage_step (SetupFileFilter dc) s = Some (DefaultPieceStorage_setupFileFilter dc s)"
| "storage_step ClearFileFilter s = Some (DefaultPieceStorage_clearFileFilter s)"
| "storage_step (Advertise cuid i t) s = Some (DefaultPieceStorage_advertisePiece s cuid i t)"
| "storage_step (ForgetAdvertised t) s = Some (DefaultPieceStorage_removeAdvertisedPiece s t)"
| "storage_step DownloadIncomplete s = Some (DefaultPieceStorage_onDownloadIncomplete s)"

text \<open>
  What the callers see to: a shuffle permutes, a selector of peer pieces picks a candidate, a piece
  is given back or completed by a connection that holds it, an index is in range, and the
  bitfield is loaded before any piece is in use.
\<close>

fun event_ok :: "storage_event \<Rightarrow> piece_storage \<Rightarrow> bool" where
  "event_ok (StreamRequest rnd shuffle dc io minSplitSize ign cuid) s \<longleftrightarrow> selector_ready rnd s \<and> (\<forall>xs. set (shuffle xs) = set xs)"
| "event_ok (IndexRequest dc io index cuid) s \<longleftrightarrow> index < bm_blocks (ps_bm s)"
| "event_ok (PeerRequest select shuffle dc io m bits cuid) s \<longleftrightarrow>
     (\<forall>bf n i. select bf n = Some i \<longrightarrow> i \<in> bit_set bf n) \<and> (\<forall>xs. set (shuffle xs) = set xs)"
| "event_ok (Complete a) s \<longleftrightarrow> holds s a"
| "event_ok (Cancel a cuid) s \<longleftrightarrow> holds s a"
| "event_ok (FinishBlock a i) s \<longleftrightarrow> a < ps_fresh s"
| "event_ok (ThrowBlocks io a) s \<longleftrightarrow> a < ps_fresh s"
| "event_ok (SetCache c) s \<longleftrightarrow> ps_cache s = None \<and> wc_ok c \<and> wc_set c = []"
| "event_ok (UseCache io e) s \<longleftrightarrow>
     (case ps_cache s of
        None \<Rightarrow> True
      | Some c \<Rightarrow> cache_event_ok e c \<and> (case e of InitEntry i \<Rightarrow> False | ReleaseEntry i \<Rightarrow> False | _ \<Rightarrow> True))"
| "event_ok (LoadBitfield bits) s \<longleftrightarrow> ps_used s = []"
| "event_ok (RestorePiece p) s \<longleftrightarrow> piece_wf (ps_bm s) p \<and> pc_wrCache p = None \<and> pc_users p = [] \<and> pc_index p \<notin> bm_have (ps_bm s)"
| "event_ok MarkAllDone s \<longleftrightarrow> ps_used s = []"
| "event_ok (MarkDone dc len) s \<longleftrightarrow> ps_used s = [] \<and> bm_have (ps_bm s) = {} \<and> 0 \<le> len \<and> len \<le> bm_totalLength (ps_bm s)"
| "event_ok (SetupFileFilter dc) s \<longleftrightarrow> list_all (\<lambda>e. 0 \<le> fe_offset e \<and> fe_offset e + fe_length e < 2 ^ 63) (dc_fileEntries dc)"
| "event_ok _ s \<longleftrightarrow> True"

lemma cache_use_set:
  assumes "wc_ok c" "cache_event_ok e c" "case e of InitEntry i \<Rightarrow> False | ReleaseEntry i \<Rightarrow> False | _ \<Rightarrow> True"
  shows "\<exists>c'. cache_apply io e c = Some c' \<and> wc_ok c' \<and> set (wc_set c') = set (wc_set c)"
proof (cases e)
  case (CacheCell i x)
  then show ?thesis using assms Piece_updateWrCache_ok [OF assms(1), of i x io] by (metis cache_apply.simps(2) cache_event_ok.simps(2))
next
  case (AppendData i g d)
  then have "i \<in> set (wc_set c)" "wc_limit c + length d < 2 ^ 64" using assms(2) by simp_all
  from Piece_appendWrCache_ok [OF assms(1) this] obtain c' n where "Piece_appendWrCache io c i g d = Some (c', n)" "wc_ok c'"
    "set (wc_set c') = set (wc_set c)" by metis
  then show ?thesis using AppendData by simp
next
  case (FlushEntry i)
  then show ?thesis using assms Piece_flushWrCache_ok [OF assms(1), of i io] by (metis cache_apply.simps(4) cache_event_ok.simps(4))
next
  case (ClearEntry i)
  then show ?thesis using assms Piece_clearWrCache_ok [OF assms(1), of i io] by (metis cache_apply.simps(5) cache_event_ok.simps(5))
next
  case (AllocBuffer a bs)
  then show ?thesis using assms alloc_ok [OF assms(1), of a bs] by simp
qed (use assms(3) in simp_all)

text \<open>No event the callers may cause gets stuck, and each keeps the invariant.\<close>

lemma storage_step_inv:
  assumes "storage_inv s" "event_ok e s"
  shows "\<exists>s'. storage_step e s = Some s' \<and> storage_inv s'"
proof (cases e)
  case (StreamRequest rnd shuffle dc io m ign cuid)
  have "selector_ready rnd s" "\<And>xs. set (shuffle xs) = set xs" using assms(2) StreamRequest by simp_all
  from stream_request_inv [OF assms(1) this] StreamRequest show ?thesis by (metis fst_conv option.map(2) storage_step.simps(1))
next
  case (IndexRequest dc io i cuid)
  then have "i < bm_blocks (ps_bm s)" using assms(2) by simp
  from index_request_inv [OF assms(1) this, of dc io cuid] IndexRequest show ?thesis by auto
next
  case (PeerRequest select shuffle dc io m bits cuid)
  have "\<exists>s' as. DefaultPieceStorage_getMissingPieces select shuffle dc io s m bits cuid = Some (s', as)
    \<and> storage_inv s' \<and> set as \<subseteq> {..<ps_fresh s'}"
    by (rule peer_request_inv [OF assms(1)]) (use assms(2) PeerRequest in simp_all)
  then show ?thesis using PeerRequest by auto
next
  case (Complete a) then show ?thesis using complete_inv [OF assms(1), of a] assms(2) by simp
next
  case (Cancel a c) then show ?thesis using cancel_inv [OF assms(1), of a c] assms(2) by simp
next
  case (FinishBlock a i) then show ?thesis using finish_block_inv [OF assms(1), of a i] assms(2) by auto
next
  case (ThrowBlocks io a) then show ?thesis using clear_blocks_inv [OF assms(1), of a io] assms(2) by auto
next
  case (SetCache c)
  then have "cache_rel (Some c) (ps_fresh s) (\<lambda>b. pc_wrCache (ps_pieces s b))"
    using assms by (auto simp: storage_inv_def storage_ok_def cache_rel_def)
  then show ?thesis using SetCache assms(1) by (simp add: DefaultPieceStorage_setWrDiskCache_def storage_inv_def storage_ok_def)
next
  case (UseCache io ev)
  show ?thesis
  proof (cases "ps_cache s")
    case (Some c)
    then have c: "wc_ok c" using assms(1) by (auto simp: storage_inv_def storage_ok_def cache_rel_def)
    obtain c' where "cache_apply io ev c = Some c'" "wc_ok c'" "set (wc_set c') = set (wc_set c)"
      using cache_use_set [OF c, of ev io] assms(2) UseCache Some by auto
    then show ?thesis using UseCache Some storage_inv_cache [OF assms(1) Some] by simp
  qed (use UseCache assms(1) in simp)
next
  case (FlushCache io rel) then show ?thesis using flush_inv [OF assms(1)] by simp
next
  case (LoadBitfield bits)
  let ?b = "BitfieldMan_setBitfield (ps_bm s) bits (length bits)"
  have "storage_inv (s\<lparr>ps_bm := ?b\<rparr>)"
    using setBitfield_inv [OF storage_okD(2) [OF storage_invD [OF assms(1)]], of bits] bm_apply_geometry [of "SetBitfield bits" "ps_bm s"]
      LoadBitfield assms by (intro storage_inv_empty) simp_all
  then show ?thesis using LoadBitfield
    by (simp add: DefaultPieceStorage_setBitfield_def storage_inv_def storage_ok_def PieceStatMan_addPieceStats_def Let_def)
next
  case (RestorePiece p)
  then have "storage_inv (DefaultPieceStorage_addUsedPiece (fst (alloc_piece s p)) (snd (alloc_piece s p)))"
    using add_piece_inv [OF assms(1), of p] assms(2) by simp
  then show ?thesis using RestorePiece by (simp add: DefaultPieceStorage_addInFlightPiece_def split_def Let_def)
next
  case (MarkMissing i) then show ?thesis using mark_missing_inv [OF assms(1)] by simp
next
  case MarkAllDone
  note l = storage_okD(1) [OF storage_invD [OF assms(1)]]
  have "storage_inv (s\<lparr>ps_bm := BitfieldMan_setAllBit (ps_bm s)\<rparr>)"
    using BitfieldMan_setAllBit_spec(1) [OF l] bm_apply_geometry [of SetAllBit "ps_bm s"] assms MarkAllDone by (intro storage_inv_empty) simp_all
  then show ?thesis using MarkAllDone by (simp add: DefaultPieceStorage_markAllPiecesDone_def)
next
  case (MarkDone dc len) then show ?thesis using mark_done_inv [OF assms(1), of len dc] assms(2) by simp
next
  case (SetupFileFilter dc) then show ?thesis using filter_inv [OF assms(1), of dc] assms(2) by simp
next
  case ClearFileFilter
  note l = storage_okD(1) [OF storage_invD [OF assms(1)]]
  have "storage_inv (s\<lparr>ps_bm := BitfieldMan_clearFilter (ps_bm s)\<rparr>)"
    by (rule storage_inv_bm [OF assms(1)])
      (use BitfieldMan_disableFilter_spec [OF l] bm_apply_geometry [of ClearFilter "ps_bm s"] assms(1) in \<open>auto simp: storage_inv_def held_rel_def\<close>)
  then show ?thesis using ClearFileFilter by (simp add: DefaultPieceStorage_clearFileFilter_def)
next
  case (Advertise cuid i t)
  then show ?thesis using assms(1)
    by (auto simp: DefaultPieceStorage_advertisePiece_def storage_inv_def storage_ok_def haves_rel_def sorted_wrt_append less_Suc_eq)
next
  case (ForgetAdvertised t)
  have "sorted_wrt (<) (map he_haveIndex (dropWhile P hs)) \<and> set (dropWhile P hs) \<subseteq> set hs" if "sorted_wrt (<) (map he_haveIndex hs)" for P hs
    using that by (induction hs) (auto intro: set_dropWhileD)
  then show ?thesis using ForgetAdvertised assms(1)
    by (simp add: DefaultPieceStorage_removeAdvertisedPiece_def storage_inv_def storage_ok_def haves_rel_def) blast
next
  case DownloadIncomplete
  then show ?thesis using assms(1)
    by (simp add: DefaultPieceStorage_onDownloadIncomplete_def storage_inv_def storage_ok_def split: option.split stream_piece_selector.split)
qed

subsection \<open>Reachable storages\<close>

definition download_ok :: "download_context \<Rightarrow> bool" where
  "download_ok dc \<longleftrightarrow> 0 < dc_pieceLength dc \<and> dc_pieceLength dc < 2 ^ 31 \<and> 0 < DownloadContext_getTotalLength dc
     \<and> DownloadContext_getTotalLength dc + dc_pieceLength dc < 2 ^ 63"

inductive storage_reach :: "piece_storage \<Rightarrow> bool" where
  start: "download_ok dc \<Longrightarrow> DefaultPieceStorage_new shuffle dc opt = Some s \<Longrightarrow> storage_reach s"
| step: "storage_reach s \<Longrightarrow> event_ok e s \<Longrightarrow> storage_step e s = Some s' \<Longrightarrow> storage_reach s'"

lemma storage_new_inv:
  assumes "download_ok dc" "DefaultPieceStorage_new shuffle dc opt = Some s"
  shows "storage_inv s"
proof -
  let ?pl = "dc_pieceLength dc" and ?t = "DownloadContext_getTotalLength dc"
  have d: "0 < ?pl" "?pl < 2 ^ 31" "0 < ?t" "?t + ?pl < 2 ^ 63" using assms(1) by (simp_all add: download_ok_def)
  have t: "FileEntry_getLastOffset (last (dc_fileEntries dc)) = ?t" "dc_fileEntries dc \<noteq> []"
    using d(3) by (auto simp: DownloadContext_getTotalLength_def split: if_splits)
  define q where "q = (?t + ?pl - 1) div ?pl"
  have q: "(?t + ?pl - 1) sdiv ?pl = q" "0 < q" "q \<le> ?t + ?pl - 1"
    using d(1,3) zdiv_mono2 [of "?t + ?pl - 1" 1 ?pl] by (simp_all add: q_def signed_divide_int_def sgn_if pos_imp_zdiv_pos_iff)
  have n: "DownloadContext_getNumPieces dc = Some (nat q)"
    using d q t by (simp add: DownloadContext_getNumPieces_def)
  note b = BitfieldMan_new_spec [OF d(2), of ?t]
  have t63: "?t < 2 ^ 63" using d by simp
  have bl: "bm_blocks (BitfieldMan_new ?pl ?t) = nat q"
    using conjunct1 [OF bm_inv_layout [OF b(1) [OF t63], unfolded bm_layout_def]] b(2-) t63 d by (simp add: q_def)
  show ?thesis using assms(2) b(1) [OF t63] bl q(2) n
    by (auto simp: DefaultPieceStorage_new_def storage_inv_def storage_ok_def pieces_rel_def cache_rel_def haves_rel_def held_rel_def
        PieceStatMan_new_def)
qed

lemma storage_reach_inv: "storage_reach s \<Longrightarrow> storage_inv s"
proof (induction rule: storage_reach.induct)
  case (step s e s')
  then show ?case using storage_step_inv [of s e] by auto
qed (rule storage_new_inv)

definition demo_dc :: download_context where
  "demo_dc = \<lparr>dc_pieceLength = 32768, dc_fileEntries = [\<lparr>fe_offset = 0, fe_length = 100000, fe_requested = True\<rparr>],
     dc_hashType = [], dc_group = None\<rparr>"

definition demo_new :: piece_storage where
  "demo_new = the (DefaultPieceStorage_new (\<lambda>xs. xs) demo_dc ''inorder'')"

lemma demo_reach: "storage_reach demo_new"
proof -
  have d: "DownloadContext_getNumPieces demo_dc = Some 4" "download_ok demo_dc" by (code_simp, code_simp)
  then have "DefaultPieceStorage_new (\<lambda>xs. xs) demo_dc ''inorder'' = Some demo_new"
    by (simp add: demo_new_def DefaultPieceStorage_new_def)
  then show ?thesis using d(2) by (rule storage_reach.start [rotated])
qed

lemma demo_blocks [simp]: "bm_blocks (ps_bm demo_new) = 4" "ps_streamSelector demo_new = Some InorderSelector"
  by (code_simp, code_simp)

lemma demo_step: "map_option (\<lambda>s. (ps_used s, pc_users (ps_pieces s 0), ps_endGame s))
   (storage_step (IndexRequest demo_dc (\<lambda>_. True) 0 7) demo_new) = Some ([0], [7], False)"
  by code_simp

subsection \<open>Lengths\<close>

lemma those_map_Some: "(\<And>x. x \<in> set xs \<Longrightarrow> f x = Some (g x)) \<Longrightarrow> those (map f xs) = Some (map g xs)"
  by (induction xs) simp_all

text \<open>The finished bytes of one piece.\<close>

definition piece_bytes :: "piece \<Rightarrow> int" where
  "piece_bytes p = (\<Sum>j\<in>piece_have p. BitfieldMan_getBlockLength (piece_bm p) j)"

lemma piece_bytes_range:
  assumes "piece_ok p"
  shows "Piece_getCompletedLength p = Some (piece_bytes p)" "0 \<le> piece_bytes p" "piece_bytes p \<le> pc_length p"
proof -
  let ?b = "piece_bm p"
  have b: "bm_inv ?b" "bm_layout ?b" "0 < bm_blocks ?b" "bm_totalLength ?b = pc_length p" "piece_have p = bm_have ?b"
    using assms piece_blocks(1) [OF assms] piece_have_bm [OF assms] by (simp_all add: piece_ok_def bm_inv_def)
  show "Piece_getCompletedLength p = Some (piece_bytes p)"
    using piece_completedLength [OF assms] cached_values(2) [OF b(1)] b(5) by (simp add: piece_bytes_def)
  have l: "0 \<le> BitfieldMan_getBlockLength ?b i" if "i \<in> {..<bm_blocks ?b}" for i
    using getBlockLength_pos [OF b(2), of i] that by simp
  show "0 \<le> piece_bytes p" unfolding piece_bytes_def b(5) by (rule sum_nonneg) (use l bm_have_sub in blast)
  have "piece_bytes p \<le> (\<Sum>j\<in>{..<bm_blocks ?b}. BitfieldMan_getBlockLength ?b j)"
    unfolding piece_bytes_def b(5) using bm_have_sub [of ?b] l by (intro sum_mono2) auto
  then show "piece_bytes p \<le> pc_length p" using sum_all_blocks [OF b(2,3)] b(4) by simp
qed

lemma in_flight_bytes:
  assumes "storage_inv s"
  shows "DefaultPieceStorage_getInFlightPieceCompletedLength s = Some (\<Sum>a\<in>set (ps_used s). piece_bytes (ps_pieces s a))"
    and "0 \<le> (\<Sum>a\<in>set (ps_used s). piece_bytes (ps_pieces s a))"
    and "(\<Sum>i\<in>bm_have (ps_bm s). BitfieldMan_getBlockLength (ps_bm s) i) + (\<Sum>a\<in>set (ps_used s). piece_bytes (ps_pieces s a))
      \<le> bm_totalLength (ps_bm s)"
proof -
  note ok = storage_invD [OF assms]
  note l = storage_okD [OF ok]
  let ?U = "set (ps_used s)" and ?idx = "\<lambda>a. pc_index (ps_pieces s a)" and ?len = "BitfieldMan_getBlockLength (ps_bm s)"
  have wf: "piece_wf (ps_bm s) (ps_pieces s a)" if "a \<in> ?U" for a using piece_at [OF ok] used_fresh [OF ok that] by blast
  then have pok: "piece_ok (ps_pieces s a)" if "a \<in> ?U" for a using that by (simp add: piece_wf_def)
  have d: "distinct (ps_used s)"
    using ok by (auto simp: storage_ok_def pieces_rel_def strict_sorted_iff distinct_map)
  show "DefaultPieceStorage_getInFlightPieceCompletedLength s = Some (\<Sum>a\<in>?U. piece_bytes (ps_pieces s a))"
    using those_map_Some [of "ps_used s" "\<lambda>a. Piece_getCompletedLength (ps_pieces s a)" "\<lambda>a. piece_bytes (ps_pieces s a)"]
      piece_bytes_range(1) [OF pok] sum_list_distinct_conv_sum_set [OF d]
    by (simp add: DefaultPieceStorage_getInFlightPieceCompletedLength_def)
  show "0 \<le> (\<Sum>a\<in>?U. piece_bytes (ps_pieces s a))" by (rule sum_nonneg) (rule piece_bytes_range(2) [OF pok])
  have inj: "inj_on ?idx ?U" using used_index_unique [OF ok] by (auto intro: inj_onI)
  have pb: "piece_bytes (ps_pieces s a) \<le> ?len (?idx a)" if "a \<in> ?U" for a
    using piece_bytes_range(3) [OF pok [OF that]] wf [OF that] by (simp add: piece_wf_def)
  have "(\<Sum>a\<in>?U. piece_bytes (ps_pieces s a)) \<le> (\<Sum>a\<in>?U. ?len (?idx a))" by (rule sum_mono) (rule pb)
  also have "\<dots> = sum ?len (?idx ` ?U)" using sum.reindex [OF inj, of ?len] by simp
  finally have u: "(\<Sum>a\<in>?U. piece_bytes (ps_pieces s a)) \<le> sum ?len (?idx ` ?U)" .
  have disj: "bm_have (ps_bm s) \<inter> ?idx ` ?U = {}" using assms by (auto simp: storage_inv_def held_rel_def)
  have sub: "bm_have (ps_bm s) \<union> ?idx ` ?U \<subseteq> {..<bm_blocks (ps_bm s)}" using bm_have_sub wf by (auto simp: piece_wf_def)
  have fin: "finite (bm_have (ps_bm s))" using bm_have_sub finite_subset by blast
  have "sum ?len (bm_have (ps_bm s)) + sum ?len (?idx ` ?U) = sum ?len (bm_have (ps_bm s) \<union> ?idx ` ?U)"
    using disj fin by (simp add: sum.union_disjoint)
  also have "\<dots> \<le> sum ?len {..<bm_blocks (ps_bm s)}"
    using getBlockLength_pos [OF l(1)] sub by (intro sum_mono2) (auto intro: less_imp_le)
  finally show "sum ?len (bm_have (ps_bm s)) + (\<Sum>a\<in>?U. piece_bytes (ps_pieces s a)) \<le> bm_totalLength (ps_bm s)"
    using u sum_all_blocks [OF l(1,3)] by simp
qed

subsection \<open>A download by one connection\<close>

text \<open>One round: ask for a piece, ignoring none, and complete it.\<close>

definition fetch_piece :: "nat \<Rightarrow> (nat list \<Rightarrow> nat list) \<Rightarrow> download_context \<Rightarrow> (cell list \<Rightarrow> bool) \<Rightarrow> nat \<Rightarrow> int \<Rightarrow> piece_storage \<Rightarrow> piece_storage option" where
  "fetch_piece rnd shuffle dc io m cuid s =
     do { (s', r) \<leftarrow> DefaultPieceStorage_getMissingPiece_stream rnd shuffle dc io s m (replicate (bm_bitfieldLength (ps_bm s)) 0) cuid;
          (case r of None \<Rightarrow> Some s' | Some a \<Rightarrow> DefaultPieceStorage_completePiece s' a) }"

fun fetch_pieces :: "nat \<Rightarrow> nat \<Rightarrow> (nat list \<Rightarrow> nat list) \<Rightarrow> download_context \<Rightarrow> (cell list \<Rightarrow> bool) \<Rightarrow> nat \<Rightarrow> int \<Rightarrow> piece_storage \<Rightarrow> piece_storage option" where
  "fetch_pieces 0 rnd shuffle dc io m cuid s = Some s"
| "fetch_pieces (Suc k) rnd shuffle dc io m cuid s =
     Option.bind (fetch_piece rnd shuffle dc io m cuid s) (fetch_pieces k rnd shuffle dc io m cuid)"

text \<open>What the rounds keep: nothing else is in use, and the bits behind the last piece are clear.\<close>

definition alone :: "nat \<Rightarrow> nat \<Rightarrow> piece_storage \<Rightarrow> bool" where
  "alone rnd m s \<longleftrightarrow> storage_inv s \<and> selector_ready rnd s \<and> int m \<le> bm_blockLength (ps_bm s) \<and> bm_used (ps_bm s) = {}
     \<and> bm_padded (ps_bm s) \<and> (bm_filterEnabled (ps_bm s) \<longrightarrow> bm_filter_padded (ps_bm s))"

lemma fetch_piece_step:
  assumes "alone rnd m s" "\<And>xs. set (shuffle xs) = set xs"
  shows "\<exists>s'. fetch_piece rnd shuffle dc io m cuid s = Some s' \<and> alone rnd m s' \<and> bm_wanted (ps_bm s') = bm_wanted (ps_bm s)
    \<and> card (bm_wanted (ps_bm s') - bm_have (ps_bm s')) = card (bm_wanted (ps_bm s) - bm_have (ps_bm s)) - 1"
proof -
  let ?b = "ps_bm s" and ?ign = "replicate (bm_bitfieldLength (ps_bm s)) 0"
  have inv: "storage_inv s" and rdy: "selector_ready rnd s" and m: "int m \<le> bm_blockLength ?b" and un: "bm_used ?b = {}"
    and pd: "bm_padded ?b" "bm_filterEnabled ?b \<longrightarrow> bm_filter_padded ?b" using assms(1) by (auto simp: alone_def)
  note ok = storage_invD [OF inv] note l = storage_okD [OF ok]
  have z: "bit_set (array ?ign) (bm_blocks ?b) = {}" using layout_length [OF l(1)] by (intro bit_set_zero) simp
  let ?s1 = "storage_enterEndGame dc s"
  have inv1: "storage_inv ?s1" using inv by (rule enterEndGame_inv)
  show ?thesis
  proof (rule stream_request_ok [OF ok rdy assms(2), where dc = dc and io = io and m = m and ign = ?ign and cuid = cuid])
    fix s' assume r: "DefaultPieceStorage_getMissingPiece_stream rnd shuffle dc io s m ?ign cuid = Some (s', None)" "s' = ?s1"
      "int m \<le> bm_blockLength ?b \<Longrightarrow> bm_free ?b ?ign = {}"
    then have w: "bm_wanted ?b - bm_have ?b = {}" using m un z by (auto simp: bm_free_def)
    have "alone rnd m ?s1" using assms(1) inv1 by (simp add: alone_def)
    then show ?thesis using r(1,2) by (simp add: fetch_piece_def w)
  next
    fix s' a i
    assume r: "DefaultPieceStorage_getMissingPiece_stream rnd shuffle dc io s m ?ign cuid = Some (s', Some a)" "storage_ok s'"
      "checked_out ?s1 i cuid s' a" "i < bm_blocks ?b"
      "i \<in> bm_free ?b ?ign \<or> ps_endGame ?s1 \<and> i \<in> bm_used ?b \<inter> bm_wanted ?b - bm_have ?b \<and> i \<in> bit_set (array ?ign) (bm_blocks ?b)"
    have i: "i \<in> bm_wanted ?b" "i \<notin> bm_have ?b" using r(5) un by (auto simp: bm_free_def)
    have c: "ps_bm s' = fst (BitfieldMan_setUseBit ?b i)" "a \<in> set (ps_used s')" "pc_index (ps_pieces s' a) = i"
      "ps_streamSelector s' = ps_streamSelector s" using r(3) by (auto simp: checked_out_def)
    have i1: "i \<notin> bm_have (ps_bm ?s1)" "ps_endGame ?s1 \<or> i \<notin> bm_used (ps_bm ?s1)" using i un by simp_all
    have inv': "storage_inv s'" by (rule checked_out_inv(1) [OF inv1 r(2,3) i1])
    note fr = checked_out_frame [OF r(3) storage_invD [OF inv1]]
    obtain s2 where s2: "DefaultPieceStorage_completePiece s' a = Some s2" "storage_inv s2"
      using complete_inv [OF inv', of a] c(2) by (auto simp: holds_def)
    have a: "a < ps_fresh s'" by (rule used_fresh [OF r(2) c(2)])
    have nall: "\<not> BitfieldMan_isAllBitSet (ps_bm s')"
      using isAllBitSet_iff [OF storage_okD(1) [OF r(2)]] fr(1,3) i(2) r(4) by auto
    obtain s3 where s3: "DefaultPieceStorage_completePiece s' a = Some s3"
      "\<not> BitfieldMan_isAllBitSet (ps_bm s') \<Longrightarrow> ps_bm s3 = fst (BitfieldMan_unsetUseBit (fst (BitfieldMan_setBit (ps_bm s')
         (pc_index (ps_pieces s' a)))) (pc_index (ps_pieces s' a)))" "ps_streamSelector s3 = ps_streamSelector s'"
      by (rule completePiece_ok [OF r(2) a]) blast
    let ?c = "ps_bm s'" and ?d = "fst (BitfieldMan_setBit (ps_bm s') i)"
    have l': "bm_layout ?c" "bm_layout ?d" using storage_okD(1) [OF r(2)] BitfieldMan_setBit_spec(1) [OF storage_okD(1) [OF r(2)]] by (auto intro: bm_inv_layout)
    have bm2: "ps_bm s2 = fst (BitfieldMan_unsetUseBit ?d i)" "ps_streamSelector s2 = ps_streamSelector s"
      using s2(1) s3(1,3) s3(2) [OF nall] c(3,4) by simp_all
    note sb = BitfieldMan_setBit_spec [OF l'(1), of i] note ub = BitfieldMan_unsetUseBit_spec [OF l'(2), of i]
    have have2: "bm_have (ps_bm s2) = insert i (bm_have ?b)" using bm2(1) sb(2) ub(3) fr(1,3) r(4) by auto
    have used2: "bm_used (ps_bm s2) = {}" using bm2(1) sb(3) ub(4) fr(4) un by auto
    have flds: "bm_filterEnabled (ps_bm s2) = bm_filterEnabled ?b" "bm_filterBitfield (ps_bm s2) = bm_filterBitfield ?b"
      "bm_geometry (ps_bm s2) = bm_geometry ?b" "bm_bitfieldLength (ps_bm s2) = bm_bitfieldLength ?b"
      by (simp_all add: bm2(1) c(1) geometry_ops) (simp_all add: useBit_forms BitfieldMan_setBit_def split_def)
    have sel2: "bm_wanted (ps_bm s2) = bm_wanted ?b"
      using flds by (simp add: bm_wanted_def bm_selected_def bm_geometry_def cong: option.case_cong)
    have pad: "bm_padded (ps_bm s2)"
      using bm2(1) c(1) bm_padded_ops l' l(1) pd(1) by metis
    have fpad: "bm_filterEnabled (ps_bm s2) \<longrightarrow> bm_filter_padded (ps_bm s2)"
      using pd(2) flds by (simp add: bm_filter_padded_def bm_geometry_def)
    have al: "alone rnd m s2" using s2(2) used2 pad fpad rdy m flds bm2(2)
      by (simp add: alone_def selector_ready_def bm_geometry_def cong: option.case_cong stream_piece_selector.case_cong)
    have "card (bm_wanted ?b - insert i (bm_have ?b)) = card (bm_wanted ?b - bm_have ?b) - 1"
    proof -
      have "bm_wanted ?b - insert i (bm_have ?b) = bm_wanted ?b - bm_have ?b - {i}" by blast
      moreover have "finite (bm_wanted ?b - bm_have ?b)" using bm_wanted_sub finite_subset by blast
      ultimately show ?thesis using i by simp
    qed
    then show ?thesis using al sel2 have2 r(1) s2(1) by (simp add: fetch_piece_def)
  qed
qed

lemma fetch_pieces_done:
  assumes "alone rnd m s" "\<And>xs. set (shuffle xs) = set xs" "card (bm_wanted (ps_bm s) - bm_have (ps_bm s)) \<le> k"
  shows "\<exists>s'. fetch_pieces k rnd shuffle dc io m cuid s = Some s' \<and> alone rnd m s' \<and> bm_wanted (ps_bm s') = bm_wanted (ps_bm s)
    \<and> bm_wanted (ps_bm s') \<subseteq> bm_have (ps_bm s')"
  using assms(1,3)
proof (induction k arbitrary: s)
  case 0
  moreover have "finite (bm_wanted (ps_bm s) - bm_have (ps_bm s))" using bm_wanted_sub finite_subset by blast
  ultimately show ?case by simp
next
  case (Suc k)
  obtain s1 where s1: "fetch_piece rnd shuffle dc io m cuid s = Some s1" "alone rnd m s1" "bm_wanted (ps_bm s1) = bm_wanted (ps_bm s)"
    "card (bm_wanted (ps_bm s1) - bm_have (ps_bm s1)) = card (bm_wanted (ps_bm s) - bm_have (ps_bm s)) - 1"
    using fetch_piece_step [OF Suc.prems(1) assms(2)] by blast
  have "card (bm_wanted (ps_bm s1) - bm_have (ps_bm s1)) \<le> k" using s1(4) Suc.prems(2) by simp
  from Suc.IH [OF s1(2) this] s1(1,3) show ?case by simp
qed

subsection \<open>Announcements\<close>

lemma polled_all:
  assumes "haves_rel n hs" "k < n" "hs = ps_haves s" "(is, k1) = DefaultPieceStorage_getAdvertisedPieceIndexes s cuid k"
  shows "k1 < n \<and> (\<forall>h\<in>set hs. he_haveIndex h \<le> k1)"
proof (cases "dropWhile (\<lambda>h. he_haveIndex h \<le> k) hs = []")
  case True
  then show ?thesis using assms by (auto simp: DefaultPieceStorage_getAdvertisedPieceIndexes_def dropWhile_eq_Nil_conv)
next
  case False
  have "(is, k1) = (map he_index (dropWhile (\<lambda>h. he_haveIndex h \<le> k) hs), he_haveIndex (last hs))"
    unfolding assms(4) DefaultPieceStorage_getAdvertisedPieceIndexes_def Let_def assms(3) [symmetric] using False by (rule if_not_P)
  then have k1: "k1 = he_haveIndex (last hs)" "hs \<noteq> []" using False by auto
  have "sorted_wrt (<) (map he_haveIndex (butlast hs @ [last hs]))" using assms(1) k1(2) by (simp add: haves_rel_def)
  then have "\<forall>h\<in>set (butlast hs @ [last hs]). he_haveIndex h \<le> k1" using k1(1) by (auto simp: sorted_wrt_append)
  then show ?thesis using k1 assms(1) by (auto simp: haves_rel_def)
qed

lemma advertise_fold:
  "\<exists>es. ps_haves (fold (\<lambda>(c, i, t) s. DefaultPieceStorage_advertisePiece s c i t) news s) = ps_haves s @ es
    \<and> map he_index es = map (\<lambda>(c, i, t). i) news \<and> (\<forall>e\<in>set es. ps_nextHaveIndex s \<le> he_haveIndex e)"
proof (induction news arbitrary: s)
  case (Cons x news)
  obtain c i t where x: "x = (c, i, t)" by (cases x)
  let ?s = "DefaultPieceStorage_advertisePiece s c i t"
  obtain es where "ps_haves (fold (\<lambda>(c, i, t) s. DefaultPieceStorage_advertisePiece s c i t) news ?s) = ps_haves ?s @ es"
    "map he_index es = map (\<lambda>(c, i, t). i) news" "\<forall>e\<in>set es. ps_nextHaveIndex ?s \<le> he_haveIndex e" using Cons.IH by blast
  then show ?case
    by (intro exI [of _ "\<lparr>he_haveIndex = ps_nextHaveIndex s, he_cuid = c, he_index = i, he_registeredTime = t\<rparr> # es"])
      (auto simp: x DefaultPieceStorage_advertisePiece_def)
qed simp

lemma advertised_since:
  assumes "\<forall>h\<in>set (ps_haves s). he_haveIndex h \<le> k" "k < ps_nextHaveIndex s"
  shows "fst (DefaultPieceStorage_getAdvertisedPieceIndexes
      (fold (\<lambda>(c, i, t) s. DefaultPieceStorage_advertisePiece s c i t) news s) cuid k) = map (\<lambda>(c, i, t). i) news"
proof -
  obtain es where es: "ps_haves (fold (\<lambda>(c, i, t) s. DefaultPieceStorage_advertisePiece s c i t) news s) = ps_haves s @ es"
    "map he_index es = map (\<lambda>(c, i, t). i) news" "\<forall>e\<in>set es. ps_nextHaveIndex s \<le> he_haveIndex e" using advertise_fold by blast
  have "dropWhile (\<lambda>h. he_haveIndex h \<le> k) (ps_haves s @ es) = es"
    using assms es(3) by (cases es) (simp_all add: dropWhile_append3 dropWhile_append2)
  then show ?thesis using es(1,2) by (auto simp: DefaultPieceStorage_getAdvertisedPieceIndexes_def Let_def)
qed

lemma finished_when_all:
  assumes "alone rnd m s" "bm_wanted (ps_bm s) \<subseteq> bm_have (ps_bm s)"
  shows "DefaultPieceStorage_downloadFinished s"
proof -
  have l: "bm_layout (ps_bm s)" and p: "bm_padded (ps_bm s)" "bm_filterEnabled (ps_bm s) \<longrightarrow> bm_filter_padded (ps_bm s)"
    using assms(1) storage_okD(1) storage_invD by (auto simp: alone_def)
  show ?thesis
  proof (cases "bm_filterEnabled (ps_bm s)")
    case True
    then show ?thesis using isFilteredAllBitSet_iff [OF l True] p assms(2)
      by (simp add: DefaultPieceStorage_downloadFinished_def bm_wanted_def)
  next
    case False
    then show ?thesis using isAllBitSet_iff [OF l] p assms(2) bm_have_sub [of "ps_bm s"]
      by (auto simp: DefaultPieceStorage_downloadFinished_def BitfieldMan_isFilteredAllBitSet_def bm_wanted_def)
  qed
qed

subsection \<open>Properties\<close>

text \<open>C2: Type soundness of the piece storage: in every state its operations reach, the bitfield's
  caches are exact, every piece has the length and the blocks of its place, the used pieces are
  ordered by index without duplicates, and pieces and cache agree on which entries exist; and
  from there every event the callers may cause is defined (no failed assertion, null pointer
  or stale cache entry) and leads to such a state again.\<close>
theorem storage_type_sound:
  assumes "storage_reach s" "event_ok e s"
  shows "storage_ok s \<and> (\<exists>s'. storage_step e s = Some s' \<and> storage_ok s')"
  using storage_step_inv [OF storage_reach_inv [OF assms(1)] assms(2)] storage_reach_inv [OF assms(1)] storage_invD by blast

theorem storage_type_sound_witness:
  "storage_ok demo_new \<and> (\<exists>s'. storage_step (IndexRequest demo_dc (\<lambda>_. True) 0 7) demo_new = Some s' \<and> storage_ok s')"
proof (rule storage_type_sound [OF demo_reach])
  show "event_ok (IndexRequest demo_dc (\<lambda>_. True) 0 7) demo_new" by (simp add: demo_blocks)
qed

text \<open>C3: Until the end game is entered no piece is downloaded twice: in every reachable storage
  outside the end game, two users of used pieces with the same index are the same connection on
  the same piece object, and that piece is not finished.\<close>
theorem no_sharing_before_end_game:
  assumes "storage_reach s" "\<not> ps_endGame s" "a \<in> set (ps_used s)" "b \<in> set (ps_used s)"
    and "pc_index (ps_pieces s a) = pc_index (ps_pieces s b)"
    and "c \<in> set (pc_users (ps_pieces s a))" "d \<in> set (pc_users (ps_pieces s b))"
  shows "a = b \<and> c = d \<and> \<not> DefaultPieceStorage_hasPiece s (pc_index (ps_pieces s a))"
proof -
  note inv = storage_reach_inv [OF assms(1)]
  have ab: "a = b" by (rule used_index_unique [OF storage_invD [OF inv] assms(3-5)])
  have "piece_wf (ps_bm s) (ps_pieces s a)" using piece_at used_fresh storage_invD [OF inv] assms(3) by blast
  moreover have "pc_index (ps_pieces s a) \<notin> bm_have (ps_bm s)" "\<exists>c. set (pc_users (ps_pieces s a)) \<subseteq> {c}"
    using inv assms(2,3) by (auto simp: storage_inv_def held_rel_def)
  ultimately show ?thesis using ab assms(6,7)
    by (auto simp: DefaultPieceStorage_hasPiece_def isBitSet_iff piece_wf_def)
qed

theorem no_sharing_before_end_game_witness:
  "\<exists>s. storage_step (IndexRequest demo_dc (\<lambda>_. True) 0 7) demo_new = Some s
     \<and> set (pc_users (ps_pieces s 0)) \<subseteq> {7}"
proof -
  obtain s where s: "storage_step (IndexRequest demo_dc (\<lambda>_. True) 0 7) demo_new = Some s"
    "ps_used s = [0]" "pc_users (ps_pieces s 0) = [7]" "\<not> ps_endGame s" using demo_step by auto
  have "event_ok (IndexRequest demo_dc (\<lambda>_. True) 0 7) demo_new" by (simp add: demo_blocks)
  from storage_reach.step [OF demo_reach this s(1)] have "storage_reach s" .
  from no_sharing_before_end_game [OF this s(4), of 0 0 _ 7] s have "set (pc_users (ps_pieces s 0)) \<subseteq> {7}" by auto
  then show ?thesis using s(1) by blast
qed

text \<open>C15: What a stream connection is given: outside the end game a free piece (selected,
  unfinished, unused, not ignored), of which it is then the only user; in the end game possibly a
  piece others are downloading, but only one whose bit is set in the ignore bitfield the caller
  passed; and nothing only when no piece is free (for a minimum split size up to the piece length).\<close>
theorem stream_request_outcome:
  assumes "storage_reach s" "event_ok (StreamRequest rnd shuffle dc io m ign cuid) s"
    and "DefaultPieceStorage_getMissingPiece_stream rnd shuffle dc io s m ign cuid = Some (s', r)"
  shows "(case r of
      None \<Rightarrow> bm_blockLength (ps_bm s) < int m \<or> bm_free (ps_bm s) ign = {}
    | Some a \<Rightarrow> cuid \<in> set (pc_users (ps_pieces s' a))
        \<and> (if ps_endGame s'
           then pc_index (ps_pieces s' a) \<in> bm_free (ps_bm s) ign
             \<or> pc_index (ps_pieces s' a) \<in> bm_used (ps_bm s) \<inter> bm_wanted (ps_bm s) \<inter> bit_set (array ign) (bm_blocks (ps_bm s)) - bm_have (ps_bm s)
           else pc_index (ps_pieces s' a) \<in> bm_free (ps_bm s) ign \<and> set (pc_users (ps_pieces s' a)) = {cuid}))"
proof -
  note inv = storage_reach_inv [OF assms(1)]
  have rdy: "selector_ready rnd s" and sh: "\<And>xs. set (shuffle xs) = set xs" using assms(2) by simp_all
  show ?thesis
  proof (rule stream_request_ok [OF storage_invD [OF inv] rdy sh, where dc = dc and io = io and m = m and ign = ign and cuid = cuid])
    fix t assume "DefaultPieceStorage_getMissingPiece_stream rnd shuffle dc io s m ign cuid = Some (t, None)"
      "int m \<le> bm_blockLength (ps_bm s) \<Longrightarrow> bm_free (ps_bm s) ign = {}"
    then show ?thesis using assms(3) by (cases "int m \<le> bm_blockLength (ps_bm s)") auto
  next
    fix t a i
    assume t: "DefaultPieceStorage_getMissingPiece_stream rnd shuffle dc io s m ign cuid = Some (t, Some a)" "storage_ok t"
      "checked_out (storage_enterEndGame dc s) i cuid t a"
      "i \<in> bm_free (ps_bm s) ign \<or> ps_endGame (storage_enterEndGame dc s) \<and> i \<in> bm_used (ps_bm s) \<inter> bm_wanted (ps_bm s) - bm_have (ps_bm s)
         \<and> i \<in> bit_set (array ign) (bm_blocks (ps_bm s))"
    have e: "t = s'" "r = Some a" using t(1) assms(3) by simp_all
    have c: "pc_index (ps_pieces s' a) = i" "cuid \<in> set (pc_users (ps_pieces s' a))" "ps_endGame s' = ps_endGame (storage_enterEndGame dc s)"
      using t(3) by (auto simp: checked_out_def e(1))
    have i: "i \<notin> bm_have (ps_bm (storage_enterEndGame dc s))"
      "ps_endGame (storage_enterEndGame dc s) \<or> i \<notin> bm_used (ps_bm (storage_enterEndGame dc s))" using t(4) by (auto simp: bm_free_def)
    note u = checked_out_inv(2) [OF enterEndGame_inv [OF inv] t(2,3) i]
    show ?thesis using c t(4) u e by (auto simp: bm_free_def)
  qed
qed

theorem stream_request_outcome_witness:
  "\<exists>s' a. DefaultPieceStorage_getMissingPiece_stream 0 (\<lambda>xs. xs) demo_dc (\<lambda>_. True) demo_new 1 [0] 7 = Some (s', Some a)
     \<and> pc_index (ps_pieces s' a) \<in> bm_free (ps_bm demo_new) [0]"
proof -
  have "map_option (\<lambda>(s, r). (ps_endGame s, r)) (DefaultPieceStorage_getMissingPiece_stream 0 (\<lambda>xs. xs) demo_dc (\<lambda>_. True) demo_new 1 [0] 7)
      = Some (False, Some 0)" by code_simp
  then obtain s' where s': "DefaultPieceStorage_getMissingPiece_stream 0 (\<lambda>xs. xs) demo_dc (\<lambda>_. True) demo_new 1 [0] 7 = Some (s', Some 0)"
    "\<not> ps_endGame s'" by auto
  have "event_ok (StreamRequest 0 (\<lambda>xs. xs) demo_dc (\<lambda>_. True) 1 [0] 7) demo_new" by (simp add: selector_ready_def)
  from stream_request_outcome [OF demo_reach this s'(1)] s' show ?thesis by auto
qed

text \<open>C20: The progress shown is exact: in every reachable storage \<open>getCompletedLength\<close> is the number
  of bytes of the finished pieces and of the finished blocks of the pieces in flight, which is never
  more than the total length, so that capping the sum never takes effect.\<close>
theorem completed_length_exact:
  assumes "storage_reach s"
  shows "DefaultPieceStorage_getCompletedLength s
      = Some ((\<Sum>i\<in>bm_have (ps_bm s). BitfieldMan_getBlockLength (ps_bm s) i) + (\<Sum>a\<in>set (ps_used s). piece_bytes (ps_pieces s a)))
    \<and> 0 \<le> the (DefaultPieceStorage_getCompletedLength s) \<and> the (DefaultPieceStorage_getCompletedLength s) \<le> bm_totalLength (ps_bm s)"
proof -
  note inv = storage_reach_inv [OF assms] note l = storage_okD [OF storage_invD [OF inv]]
  note b = in_flight_bytes [OF inv] cached_values(2) [OF l(2)]
  have "0 \<le> (\<Sum>i\<in>bm_have (ps_bm s). BitfieldMan_getBlockLength (ps_bm s) i)"
    using getBlockLength_pos [OF l(1)] bm_have_sub [of "ps_bm s"] by (intro sum_nonneg less_imp_le) blast
  then show ?thesis using b by (simp add: DefaultPieceStorage_getCompletedLength_def)
qed

theorem completed_length_exact_witness:
  "\<exists>s. storage_step (IndexRequest demo_dc (\<lambda>_. True) 0 7) demo_new = Some s
     \<and> DefaultPieceStorage_getCompletedLength s = Some ((\<Sum>i\<in>bm_have (ps_bm s). BitfieldMan_getBlockLength (ps_bm s) i) + piece_bytes (ps_pieces s 0))"
proof -
  obtain s where s: "storage_step (IndexRequest demo_dc (\<lambda>_. True) 0 7) demo_new = Some s" "ps_used s = [0]" using demo_step by auto
  have "event_ok (IndexRequest demo_dc (\<lambda>_. True) 0 7) demo_new" by simp
  from storage_reach.step [OF demo_reach this s(1)] have "storage_reach s" .
  from completed_length_exact [OF this] s(2) show ?thesis using s(1) by (intro exI [of _ s]) (simp del: storage_step.simps)
qed

text \<open>C21: Nothing that was announced is missed or told twice: whatever a peer has polled so far, its next
  poll returns exactly the pieces announced since then, by whatever connection (its own announcements too, as the code does not
  look at \<open>myCuid\<close>), in the order of the announcements, if none is removed for its age between the two polls.\<close>
theorem polls_see_announcements:
  assumes "storage_reach s" "k < ps_nextHaveIndex s" "(is, k1) = DefaultPieceStorage_getAdvertisedPieceIndexes s cuid k"
  shows "k1 < ps_nextHaveIndex s
    \<and> fst (DefaultPieceStorage_getAdvertisedPieceIndexes
        (fold (\<lambda>(c, i, t) s. DefaultPieceStorage_advertisePiece s c i t) news s) cuid k1) = map (\<lambda>(c, i, t). i) news"
proof -
  have h: "haves_rel (ps_nextHaveIndex s) (ps_haves s)" using storage_reach_inv [OF assms(1)] by (simp add: storage_inv_def storage_ok_def)
  have k1: "k1 < ps_nextHaveIndex s" "\<forall>h\<in>set (ps_haves s). he_haveIndex h \<le> k1" using polled_all [OF h assms(2) refl assms(3)] by blast+
  show ?thesis using k1 advertised_since [OF k1(2,1), of news cuid] by simp
qed

theorem polls_see_announcements_witness:
  "fst (DefaultPieceStorage_getAdvertisedPieceIndexes
     (fold (\<lambda>(c, i, t) s. DefaultPieceStorage_advertisePiece s c i t) [(1, 3, 10), (2, 0, 11)] demo_new) 5
       (snd (DefaultPieceStorage_getAdvertisedPieceIndexes demo_new 5 0))) = [3, 0]"
proof -
  have "(0::nat) < ps_nextHaveIndex demo_new" by code_simp
  from polls_see_announcements [OF demo_reach this surjective_pairing [symmetric], of 5 "[(1, 3, 10), (2, 0, 11)]"] show ?thesis by simp
qed

text \<open>\<open>setBitfield\<close> keeps bits behind the last piece: nothing is missing then, and yet the download is not finished.\<close>

lemma padding_never_finishes:
  "map_option (\<lambda>s. (bm_cachedNumMissingBlock (ps_bm s), DefaultPieceStorage_downloadFinished s)) (storage_step (LoadBitfield [0xFF]) demo_new)
     = Some (0, False)"
  by code_simp

text \<open>C16: A download finishes: take any reachable storage whose stream selector is set up (\<open>selector_ready\<close>), in which no piece
  is in use, in whose bitfield the bits behind the last piece are clear (\<open>bm_padded\<close>; also in the filter, if it is on),
  and a minimum split size of at most the piece length. Then as many rounds of asking for a piece and completing it as pieces are
  missing leave every selected piece finished, and \<open>downloadFinished\<close> says so, whichever stream selector is in use, with or
  without a file filter, and also when the rounds go through the end game. \<open>padding_never_finishes\<close> shows what a loaded bitfield
  with bits behind the last piece does.\<close>
theorem downloads_finish:
  assumes "storage_reach s" "selector_ready rnd s" "int m \<le> bm_blockLength (ps_bm s)" "bm_used (ps_bm s) = {}"
    and "bm_padded (ps_bm s)" "bm_filterEnabled (ps_bm s) \<Longrightarrow> bm_filter_padded (ps_bm s)" "\<And>xs. set (shuffle xs) = set xs"
  shows "\<exists>s'. fetch_pieces (bm_cachedNumMissingBlock (ps_bm s)) rnd shuffle dc io m cuid s = Some s'
    \<and> bm_wanted (ps_bm s') = bm_wanted (ps_bm s) \<and> bm_wanted (ps_bm s') \<subseteq> bm_have (ps_bm s')
    \<and> DefaultPieceStorage_downloadFinished s'"
proof -
  note inv = storage_reach_inv [OF assms(1)]
  have al: "alone rnd m s" using inv assms(2-6) by (simp add: alone_def)
  have n: "card (bm_wanted (ps_bm s) - bm_have (ps_bm s)) \<le> bm_cachedNumMissingBlock (ps_bm s)"
    using cached_values(1) storage_okD(2) [OF storage_invD [OF inv]] by simp
  obtain s' where s': "fetch_pieces (bm_cachedNumMissingBlock (ps_bm s)) rnd shuffle dc io m cuid s = Some s'" "alone rnd m s'"
    "bm_wanted (ps_bm s') = bm_wanted (ps_bm s)" "bm_wanted (ps_bm s') \<subseteq> bm_have (ps_bm s')"
    using fetch_pieces_done [OF al assms(7) n] by blast
  then show ?thesis using finished_when_all [OF s'(2,4)] by blast
qed

theorem downloads_finish_witness:
  "\<exists>s'. fetch_pieces (bm_cachedNumMissingBlock (ps_bm demo_new)) 0 (\<lambda>xs. xs) demo_dc (\<lambda>_. True) 1 7 demo_new = Some s'
     \<and> DefaultPieceStorage_downloadFinished s'"
proof -
  have b: "ps_bm demo_new = BitfieldMan_new 32768 100000" by code_simp
  note n = BitfieldMan_new_spec [of 32768 100000]
  have "bm_padded (ps_bm demo_new)" using bit_set_zero [of 8 1] by (simp add: b BitfieldMan_new_def bm_padded_def)
  note d = downloads_finish [OF demo_reach _ _ _ this, where shuffle = "\<lambda>xs. xs" and rnd = 0 and m = 1 and dc = demo_dc
    and io = "\<lambda>_. True" and cuid = 7]
  have "\<exists>s'. fetch_pieces (bm_cachedNumMissingBlock (ps_bm demo_new)) 0 (\<lambda>xs. xs) demo_dc (\<lambda>_. True) 1 7 demo_new = Some s'
      \<and> bm_wanted (ps_bm s') = bm_wanted (ps_bm demo_new) \<and> bm_wanted (ps_bm s') \<subseteq> bm_have (ps_bm s') \<and> DefaultPieceStorage_downloadFinished s'"
    by (rule d) (use n in \<open>simp_all add: b selector_ready_def\<close>)
  then show ?thesis by blast
qed

end
