(* ===== verification/Progress_File.thy ===== *)
theory Progress_File
  imports Storage_Runs
begin

text \<open>
  The control file of a download (\<open>DefaultBtProgressInfoFile.cc\<close>): saving the piece storage and loading it into a
  new one. Integers are written in network byte order; files of version 0 hold them in the order of the host, which
  is the parameter \<open>big\<close>. \<open>None\<close> is a failed assertion or a read through a null bitfield.
\<close>

subsection \<open>Integers as bytes\<close>

text \<open>\<open>htonl\<close> and \<open>hton64\<close> with the bytes of the result written out, and back.\<close>

fun be_bytes :: "nat \<Rightarrow> int \<Rightarrow> byte list" where
  "be_bytes 0 n = []"
| "be_bytes (Suc k) n = word_of_int (n div 256 ^ k) # be_bytes k n"

definition be_value :: "byte list \<Rightarrow> int" where
  "be_value bs = foldl (\<lambda>v b. v * 256 + uint b) 0 bs"

lemma length_be_bytes [simp]: "length (be_bytes k n) = k"
  by (induction k) auto

lemma be_value_from: "foldl (\<lambda>v b. v * 256 + uint b) v (be_bytes k n) = v * 256 ^ k + n mod 256 ^ k"
proof (induction k arbitrary: v)
  case (Suc k)
  have "n mod 256 ^ Suc k = n div 256 ^ k mod 256 * 256 ^ k + n mod 256 ^ k"
    using zmod_zmult2_eq [of 256 n "256 ^ k"] by (simp add: mult.commute)
  moreover have "uint (word_of_int (n div 256 ^ k) :: byte) = n div 256 ^ k mod 256"
    by (simp add: uint_word_of_int)
  ultimately show ?case using Suc by (simp add: algebra_simps)
qed simp

lemma be_value_bytes: "be_value (be_bytes k n) = n mod 256 ^ k"
  using be_value_from [of 0 k n] by (simp add: be_value_def)

subsection \<open>Saving\<close>

text \<open>
  \<open>pe_infoHash\<close> is the info hash of a BitTorrent download, for which \<open>btRuntime_\<close> is set; the upload length at startup
  is a field of that object.
\<close>

record progress_env =
  pe_infoHash :: "byte list option"
  pe_uploadAtStartup :: int
  pe_sessionUpload :: int
  pe_allowPieceLengthChange :: bool

definition INFO_HASH_LENGTH :: nat where "INFO_HASH_LENGTH = 20"

definition save_piece :: "piece \<Rightarrow> byte list option" where
  "save_piece p =
     map_option (\<lambda>b. be_bytes 4 (int (pc_index p)) @ be_bytes 4 (pc_length p) @ be_bytes 4 (int (bm_bitfieldLength b))
                      @ take (bm_bitfieldLength b) (bm_bitfield b)) (pc_bitfield p)"

definition save_contents :: "download_context \<Rightarrow> progress_env \<Rightarrow> piece_storage \<Rightarrow> byte list option" where
  "save_contents dc env s =
     map_option (\<lambda>pieces.
       [0, 1]
       @ (case pe_infoHash env of
            Some infoHash \<Rightarrow> [0, 0, 0, 1] @ be_bytes 4 (int INFO_HASH_LENGTH) @ take INFO_HASH_LENGTH infoHash
          | None \<Rightarrow> [0, 0, 0, 0] @ be_bytes 4 0)
       @ be_bytes 4 (dc_pieceLength dc)
       @ be_bytes 8 (DownloadContext_getTotalLength dc)
       @ be_bytes 8 (if pe_infoHash env = None then 0 else pe_uploadAtStartup env + pe_sessionUpload env)
       @ be_bytes 4 (int (bm_bitfieldLength (ps_bm s)))
       @ take (bm_bitfieldLength (ps_bm s)) (bm_bitfield (ps_bm s))
       @ be_bytes 4 (int (length (ps_used s)))
       @ concat pieces)
       (those (map (\<lambda>a. save_piece (ps_pieces s a)) (ps_used s)))"

text \<open>
  \<open>save\<close> writes a temporary file and renames it; \<open>written\<close> and \<open>renamed\<close> tell whether that works. The result is the new
  state and whether it returned without throwing.
\<close>

record progress_file =
  pf_file :: "byte list option"
  pf_lastDigest :: "byte list"

definition DefaultBtProgressInfoFile_save :: "(byte list \<Rightarrow> byte list) \<Rightarrow> bool \<Rightarrow> bool \<Rightarrow> download_context \<Rightarrow> progress_env
    \<Rightarrow> piece_storage \<Rightarrow> progress_file \<Rightarrow> (progress_file \<times> bool) option" where
  "DefaultBtProgressInfoFile_save sha1 written renamed dc env s f =
     map_option (\<lambda>bs.
       if sha1 bs = pf_lastDigest f then (f, True)
       else
         let f1 = f\<lparr>pf_lastDigest := sha1 bs\<rparr>
         in if \<not> written then (f1, False) else if \<not> renamed then (f1, False) else (f1\<lparr>pf_file := Some bs\<rparr>, True))
       (save_contents dc env s)"

subsection \<open>Loading\<close>

datatype load_error =
    Unreadable | Unsupported_Version | Bad_InfoHash_Length | InfoHash_Mismatch | Zero_Piece_Length | Total_Length_Mismatch
  | Bitfield_Length_Mismatch | Index_Out_Of_Range | Length_Out_Of_Range | Piece_Bitfield_Mismatch | Piece_Length_Changed

fun attempt :: "'e + 'a \<Rightarrow> ('a \<Rightarrow> 'e + 'b) \<Rightarrow> 'e + 'b" where
  "attempt (Inl e) f = Inl e"
| "attempt (Inr x) f = f x"

definition read_bytes :: "nat \<Rightarrow> byte list \<Rightarrow> load_error + (byte list \<times> byte list)" where
  "read_bytes k bs = (if length bs < k then Inl Unreadable else Inr (take k bs, drop k bs))"

definition read_num :: "bool \<Rightarrow> nat \<Rightarrow> nat \<Rightarrow> byte list \<Rightarrow> load_error + (int \<times> byte list)" where
  "read_num big version k bs =
     attempt (read_bytes k bs) (\<lambda>(b, rest). Inr (be_value (if version \<ge> 1 \<or> big then b else rev b), rest))"

text \<open>From the version to the upload length.\<close>

definition load_start :: "bool \<Rightarrow> progress_env \<Rightarrow> download_context \<Rightarrow> byte list \<Rightarrow> load_error + (nat \<times> int \<times> int \<times> int \<times> byte list)" where
  "load_start big env dc bs =
     attempt (read_bytes 2 bs) (\<lambda>(versionBuf, bs).
     if versionBuf \<noteq> [0, 0] \<and> versionBuf \<noteq> [0, 1] then Inl Unsupported_Version
     else let version = (if versionBuf = [0, 0] then 0 else 1) in
     attempt (read_bytes 4 bs) (\<lambda>(extension, bs).
     let infoHashCheckEnabled = (bit (extension ! 3) 0 \<and> pe_infoHash env \<noteq> None) in
     attempt (read_num big version 4 bs) (\<lambda>(infoHashLength, bs).
     if infoHashLength > int INFO_HASH_LENGTH \<or> infoHashLength \<noteq> int INFO_HASH_LENGTH \<and> infoHashCheckEnabled
     then Inl Bad_InfoHash_Length
     else attempt (read_bytes (nat infoHashLength) bs) (\<lambda>(savedInfoHash, bs).
     if infoHashLength > 0 \<and> infoHashCheckEnabled \<and> Some savedInfoHash \<noteq> map_option (take INFO_HASH_LENGTH) (pe_infoHash env)
     then Inl InfoHash_Mismatch
     else attempt (read_num big version 4 bs) (\<lambda>(pieceLength, bs).
     if pieceLength = 0 then Inl Zero_Piece_Length
     else attempt (read_num big version 8 bs) (\<lambda>(totalLength, bs).
     if totalLength \<noteq> DownloadContext_getTotalLength dc mod 2 ^ 64 then Inl Total_Length_Mismatch
     else attempt (read_num big version 8 bs) (\<lambda>(uploadLength, bs).
     Inr (version, pieceLength, totalLength, uploadLength, bs))))))))"

definition load_bitfield :: "bool \<Rightarrow> nat \<Rightarrow> int \<Rightarrow> int \<Rightarrow> byte list \<Rightarrow> load_error + (byte list \<times> byte list)" where
  "load_bitfield big version pieceLength totalLength bs =
     attempt (read_num big version 4 bs) (\<lambda>(bitfieldLength, bs).
     if ((totalLength + pieceLength - 1) mod 2 ^ 64 div pieceLength + 7) div 8 mod 2 ^ 32 \<noteq> bitfieldLength
     then Inl Bitfield_Length_Mismatch
     else read_bytes (nat bitfieldLength) bs)"

text \<open>One piece in flight; the constructor of \<open>Piece\<close> has set its bitfield.\<close>

definition load_piece :: "bool \<Rightarrow> nat \<Rightarrow> nat \<Rightarrow> download_context \<Rightarrow> byte list \<Rightarrow> load_error + (piece \<times> byte list)" where
  "load_piece big version numPieces dc bs =
     attempt (read_num big version 4 bs) (\<lambda>(index, bs).
     if \<not> index < int numPieces then Inl Index_Out_Of_Range
     else attempt (read_num big version 4 bs) (\<lambda>(len, bs).
     if \<not> len \<le> dc_pieceLength dc mod 2 ^ 32 then Inl Length_Out_Of_Range
     else let p = Piece_new (nat index) len BLOCK_LENGTH in
     attempt (read_num big version 4 bs) (\<lambda>(bitfieldLength, bs).
     if int (bm_bitfieldLength (the (pc_bitfield p))) \<noteq> bitfieldLength then Inl Piece_Bitfield_Mismatch
     else attempt (read_bytes (nat bitfieldLength) bs) (\<lambda>(pieceBitfield, bs).
     Inr ((the (Piece_setBitfield p pieceBitfield (nat bitfieldLength)))\<lparr>pc_hashType := dc_hashType dc\<rparr>, bs)))))"

fun load_pieces :: "bool \<Rightarrow> nat \<Rightarrow> nat \<Rightarrow> download_context \<Rightarrow> nat \<Rightarrow> byte list \<Rightarrow> load_error + piece list" where
  "load_pieces big version numPieces dc 0 bs = Inr []"
| "load_pieces big version numPieces dc (Suc n) bs =
     attempt (load_piece big version numPieces dc bs) (\<lambda>(p, bs).
     attempt (load_pieces big version numPieces dc n bs) (\<lambda>ps. Inr (p # ps)))"

text \<open>The piece objects are given addresses when they enter the storage.\<close>

definition restore_pieces :: "piece list \<Rightarrow> piece_storage \<Rightarrow> piece_storage" where
  "restore_pieces ps s = fold (\<lambda>p s. let (s', a) = alloc_piece s p in DefaultPieceStorage_addInFlightPiece s' [a]) ps s"

definition load_same :: "bool \<Rightarrow> nat \<Rightarrow> download_context \<Rightarrow> byte list \<Rightarrow> byte list \<Rightarrow> piece_storage \<Rightarrow> (piece_storage \<times> load_error option) option" where
  "load_same big version dc savedBitfield bs s =
     (let s1 = DefaultPieceStorage_setBitfield s savedBitfield (length savedBitfield)
      in case read_num big version 4 bs of
           Inl e \<Rightarrow> Some (s1, Some e)
         | Inr (numInFlightPiece, bs) \<Rightarrow>
             map_option (\<lambda>numPieces. case load_pieces big version numPieces dc (nat numInFlightPiece) bs of
                 Inl e \<Rightarrow> (s1, Some e)
               | Inr ps \<Rightarrow> (restore_pieces ps s1, None))
               (if numInFlightPiece = 0 then Some 0 else DownloadContext_getNumPieces dc))"

text \<open>A bit is looked at in a null bitfield when \<open>src\<close> has no blocks.\<close>

definition util_convertBitfield :: "bitfield_man \<Rightarrow> bitfield_man \<Rightarrow> bitfield_man option" where
  "util_convertBitfield dest src =
     (if bm_blocks dest > 0 \<and> bm_blocks src = 0 then None
      else Some (fold (\<lambda>index dest.
             if BitfieldMan_isBitSetOffsetRange src (int index * bm_blockLength dest) (bm_blockLength dest)
             then fst (BitfieldMan_setBit dest index) else dest) [0..<bm_blocks dest] dest))"

definition load_converted :: "bool \<Rightarrow> nat \<Rightarrow> bool \<Rightarrow> download_context \<Rightarrow> int \<Rightarrow> int \<Rightarrow> byte list \<Rightarrow> byte list \<Rightarrow> piece_storage
    \<Rightarrow> (piece_storage \<times> load_error option) option" where
  "load_converted big version allowed dc pieceLength totalLength savedBitfield bs s =
     (case read_num big version 4 bs of
        Inl e \<Rightarrow> Some (s, Some e)
      | Inr (numInFlightPiece, bs) \<Rightarrow>
          let src = BitfieldMan_setBitfield (BitfieldMan_new (to_int32 pieceLength) (to_int64 totalLength)) savedBitfield (length savedBitfield)
          in if (bm_cachedCompletedLength src \<noteq> 0 \<or> numInFlightPiece \<noteq> 0) \<and> \<not> allowed then Some (s, Some Piece_Length_Changed)
             else map_option (\<lambda>dest. (DefaultPieceStorage_setBitfield s (bm_bitfield dest) (bm_bitfieldLength dest), None))
                    (util_convertBitfield (BitfieldMan_new (dc_pieceLength dc) (to_int64 totalLength)) src))"

definition DefaultBtProgressInfoFile_load :: "bool \<Rightarrow> download_context \<Rightarrow> byte list option \<Rightarrow> progress_env \<Rightarrow> piece_storage
    \<Rightarrow> (progress_env \<times> piece_storage \<times> load_error option) option" where
  "DefaultBtProgressInfoFile_load big dc file env s =
     (case file of
        None \<Rightarrow> Some (env, s, Some Unreadable)
      | Some bs \<Rightarrow>
          (case load_start big env dc bs of
             Inl e \<Rightarrow> Some (env, s, Some e)
           | Inr (version, pieceLength, totalLength, uploadLength, bs) \<Rightarrow>
               let env1 = (if pe_infoHash env = None then env else env\<lparr>pe_uploadAtStartup := to_int64 uploadLength\<rparr>)
               in (case load_bitfield big version pieceLength totalLength bs of
                     Inl e \<Rightarrow> Some (env1, s, Some e)
                   | Inr (savedBitfield, bs) \<Rightarrow>
                       map_option (Pair env1)
                         (if pieceLength = dc_pieceLength dc mod 2 ^ 32 then load_same big version dc savedBitfield bs s
                          else load_converted big version (pe_allowPieceLengthChange env) dc pieceLength totalLength savedBitfield bs s))))"

subsection \<open>What is read back\<close>

lemma read_bytes_append [simp]: "k = length a \<Longrightarrow> read_bytes k (a @ rest) = Inr (a, rest)"
  by (simp add: read_bytes_def)

lemma read_num_bytes [simp]: "k = j \<Longrightarrow> read_num big (Suc 0) k (be_bytes j n @ rest) = Inr (n mod 256 ^ k, rest)"
  by (simp add: read_num_def be_value_bytes)

text \<open>The piece that loading makes of a saved one.\<close>

definition reloaded :: "download_context \<Rightarrow> piece \<Rightarrow> piece" where
  "reloaded dc p =
     (the (Piece_setBitfield (Piece_new (pc_index p) (pc_length p) BLOCK_LENGTH) (bm_bitfield (piece_bm p)) (bm_bitfieldLength (piece_bm p))))
       \<lparr>pc_hashType := dc_hashType dc\<rparr>"

lemma same_blocks:
  assumes "bm_inv b" "bm_blockLength b = bl" "bm_totalLength b = len" "0 < bl" "0 < len"
  shows "bm_blocks b = bm_blocks (BitfieldMan_new bl len)" "bm_bitfieldLength b = bm_bitfieldLength (BitfieldMan_new bl len)"
    and "0 < bm_bitfieldLength b" "length (bm_bitfield b) = bm_bitfieldLength b" "bl < 2 ^ 31" "len < 2 ^ 63"
    and "take (bm_bitfieldLength b) (bm_bitfield b) = bm_bitfield b"
proof -
  have l: "bm_layout b" using assms(1) by (rule bm_inv_layout)
  then show "bl < 2 ^ 31" "len < 2 ^ 63" "length (bm_bitfield b) = bm_bitfieldLength b"
    and "take (bm_bitfieldLength b) (bm_bitfield b) = bm_bitfield b" using assms by (auto simp: bm_layout_def)
  then have n: "bm_layout (BitfieldMan_new bl len)" "bm_blockLength (BitfieldMan_new bl len) = bl" "bm_totalLength (BitfieldMan_new bl len) = len"
    using BitfieldMan_new_spec [of bl len] by (simp_all add: bm_inv_layout)
  show "bm_blocks b = bm_blocks (BitfieldMan_new bl len)" using l n assms by (simp add: bm_layout_def)
  then show "bm_bitfieldLength b = bm_bitfieldLength (BitfieldMan_new bl len)" using l n by (simp add: bm_layout_def)
  have "0 < bm_blocks b" using bm_blocks_pos(1) [OF l] assms l by (simp add: bm_layout_def pos_imp_zdiv_pos_iff)
  then show "0 < bm_bitfieldLength b" using l by (simp add: bm_layout_def)
qed

lemma reloaded_piece:
  assumes "piece_wf bm p"
  shows "piece_wf bm (reloaded dc p)" "pc_index (reloaded dc p) = pc_index p" "pc_length (reloaded dc p) = pc_length p"
    and "pc_wrCache (reloaded dc p) = None" "pc_users (reloaded dc p) = []" "pc_hashType (reloaded dc p) = dc_hashType dc"
    and "bm_bitfield (piece_bm (reloaded dc p)) = bm_bitfield (piece_bm p)"
    and "Piece_getCompletedLength (reloaded dc p) = Piece_getCompletedLength p"
proof -
  let ?b = "piece_bm p" and ?n = "BitfieldMan_new BLOCK_LENGTH (pc_length p)"
  have p: "piece_ok p" "pc_index p < bm_blocks bm" "bm_blockLength ?b = BLOCK_LENGTH" "pc_length p = BitfieldMan_getBlockLength bm (pc_index p)"
    using assms by (simp_all add: piece_wf_def)
  have b: "bm_inv ?b" "bm_totalLength ?b = pc_length p" "0 < pc_length p" "bm_padded ?b"
    using p(1) by (simp_all add: piece_ok_def)
  have bl: "0 < BLOCK_LENGTH" by (simp add: BLOCK_LENGTH_def)
  note s = same_blocks [OF b(1) p(3) b(2) bl b(3)]
  note n = Piece_new_ok [OF bl s(5) b(3) s(6), of "pc_index p"]
  let ?r = "BitfieldMan_setBitfield ?n (bm_bitfield ?b) (bm_bitfieldLength ?b)"
  have r: "reloaded dc p = (Piece_new (pc_index p) (pc_length p) BLOCK_LENGTH)\<lparr>pc_bitfield := Some ?r, pc_hashType := dc_hashType dc\<rparr>"
    by (simp add: reloaded_def Piece_setBitfield_def n(4))
  have lay: "bm_layout ?n" using BitfieldMan_new_spec(1) [OF s(5,6)] by (rule bm_inv_layout)
  note sp = BitfieldMan_setBitfield_spec [OF lay s(4) s(2) s(3)]
  have e: "?r = BitfieldMan_updateCache (?n\<lparr>bm_bitfield := bm_bitfield ?b, bm_useBitfield := replicate (bm_bitfieldLength ?n) 0\<rparr>)"
    using s(2,3,4) by (simp add: BitfieldMan_setBitfield_def)
  have f: "bm_bitfield ?r = bm_bitfield ?b" "bm_blocks ?r = bm_blocks ?n" "bm_bitfieldLength ?r = bm_bitfieldLength ?n"
    "bm_totalLength ?r = pc_length p" "bm_blockLength ?r = BLOCK_LENGTH" "bm_filterEnabled ?r = False"
    using BitfieldMan_new_spec(5,6,7) [OF s(5,6)] unfolding e by simp_all
  have pad: "bm_padded ?r" using b(4) f s(1,2) by (simp add: bm_padded_def)
  have bm: "piece_bm (reloaded dc p) = ?r" by (simp add: r piece_bm_def)
  show i: "pc_index (reloaded dc p) = pc_index p" "pc_length (reloaded dc p) = pc_length p"
    "pc_wrCache (reloaded dc p) = None" "pc_users (reloaded dc p) = []" "pc_hashType (reloaded dc p) = dc_hashType dc"
    by (simp_all add: r Piece_new_def Piece_empty_def)
  have ok: "piece_ok (reloaded dc p)" using sp(1) pad f b(3) bl i(2) bm by (simp add: piece_ok_def r)
  show "piece_wf bm (reloaded dc p)" using ok p f(5) i bm by (simp add: piece_wf_def)
  show "bm_bitfield (piece_bm (reloaded dc p)) = bm_bitfield (piece_bm p)" using f bm by simp
  have "bm_geometry ?r = bm_geometry ?b" using f s(1) b(2) p(3) by (simp add: bm_geometry_def)
  moreover have "bm_have ?r = bm_have ?b" using f s(1) by (simp add: bm_have_def)
  ultimately have "piece_bytes (reloaded dc p) = piece_bytes p"
    unfolding piece_bytes_def piece_have_bm [OF ok] piece_have_bm [OF p(1)] bm
    by (intro sum.cong) (auto simp: bm_geometry_def BitfieldMan_getBlockLength_def BitfieldMan_getLastBlockLength_def Let_def)
  then show "Piece_getCompletedLength (reloaded dc p) = Piece_getCompletedLength p"
    using piece_bytes_range(1) [OF ok] piece_bytes_range(1) [OF p(1)] by simp
qed

lemma load_saved_piece:
  assumes "piece_wf bm p" "save_piece p = Some saved" "pc_index p < numPieces" "numPieces < 2 ^ 32"
    and "pc_length p \<le> dc_pieceLength dc" "dc_pieceLength dc < 2 ^ 31"
  shows "load_piece big (Suc 0) numPieces dc (saved @ rest) = Inr (reloaded dc p, rest)"
proof -
  let ?b = "piece_bm p"
  have p: "piece_ok p" "bm_blockLength ?b = BLOCK_LENGTH" using assms(1) by (simp_all add: piece_wf_def)
  have b: "bm_inv ?b" "bm_totalLength ?b = pc_length p" "0 < pc_length p" "pc_bitfield p = Some ?b"
    using p(1) by (auto simp: piece_ok_def piece_bm_def)
  have bl: "0 < BLOCK_LENGTH" by (simp add: BLOCK_LENGTH_def)
  note s = same_blocks [OF b(1) p(2) b(2) bl b(3)]
  have sv: "saved = be_bytes 4 (int (pc_index p)) @ be_bytes 4 (pc_length p) @ be_bytes 4 (int (bm_bitfieldLength ?b)) @ bm_bitfield ?b"
    using assms(2) b(4) s(7) by (simp add: save_piece_def)
  have small: "int (bm_bitfieldLength ?b) < 2 ^ 32"
  proof -
    have "int (bm_blocks ?b) \<le> pc_length p" using piece_blocks(6) [OF p(1)] .
    then show ?thesis using b(1) assms(5,6) by (simp add: bm_inv_def bm_layout_def)
  qed
  note n = Piece_new_ok [OF bl s(5) b(3) s(6), of "pc_index p"]
  have len: "pc_length p mod 2 ^ 32 = pc_length p" "dc_pieceLength dc mod 2 ^ 32 = dc_pieceLength dc"
    "int (pc_index p) mod 2 ^ 32 = int (pc_index p)" "int (bm_bitfieldLength ?b) mod 2 ^ 32 = int (bm_bitfieldLength ?b)"
    using b(3) assms small by simp_all
  show ?thesis
    using assms(3,5) len s(2,4) n(4) unfolding sv load_piece_def reloaded_def by simp
qed

lemma load_saved_pieces:
  assumes "those (map save_piece ps) = Some saved" "numPieces < 2 ^ 32" "dc_pieceLength dc < 2 ^ 31"
    and "\<forall>p\<in>set ps. piece_wf bm p \<and> pc_index p < numPieces \<and> pc_length p \<le> dc_pieceLength dc"
  shows "load_pieces big (Suc 0) numPieces dc (length ps) (concat saved) = Inr (map (reloaded dc) ps)"
  using assms(1,4)
proof (induction ps arbitrary: saved)
  case (Cons p ps)
  then obtain a as where a: "save_piece p = Some a" "those (map save_piece ps) = Some as" "saved = a # as"
    by (auto split: option.splits)
  have "load_piece big (Suc 0) numPieces dc (a @ concat as) = Inr (reloaded dc p, concat as)"
    using Cons.prems(2) a(1) assms(2,3) by (intro load_saved_piece) auto
  then show ?case using Cons.IH [OF a(2)] Cons.prems(2) a(3) by simp
qed simp


lemma used_insert_last: "\<forall>b\<in>set bs. idx b < idx a \<Longrightarrow> used_insert idx a bs = bs @ [a]"
  by (induction bs) auto

lemma restore_pieces_reach:
  assumes "storage_reach s" "sorted_wrt (<) (map (\<lambda>a. pc_index (ps_pieces s a)) (ps_used s) @ map pc_index ps)"
    and "\<forall>p\<in>set ps. piece_wf (ps_bm s) p \<and> pc_wrCache p = None \<and> pc_users p = [] \<and> pc_index p \<notin> bm_have (ps_bm s)"
  shows "storage_reach (restore_pieces ps s) \<and> ps_bm (restore_pieces ps s) = ps_bm s
    \<and> map (ps_pieces (restore_pieces ps s)) (ps_used (restore_pieces ps s)) = map (ps_pieces s) (ps_used s) @ ps"
  using assms
proof (induction ps arbitrary: s)
  case (Cons p ps)
  define s1 where "s1 = (let (s', a) = alloc_piece s p in DefaultPieceStorage_addInFlightPiece s' [a])"
  let ?h = "(ps_pieces s)(ps_fresh s := p)"
  have fresh: "a \<noteq> ps_fresh s" if "a \<in> set (ps_used s)" for a
    using used_fresh [OF storage_invD [OF storage_reach_inv [OF Cons.prems(1)]] that] by simp
  have old: "map ?h (ps_used s) = map (ps_pieces s) (ps_used s)"
    "map (\<lambda>a. pc_index (?h a)) (ps_used s) = map (\<lambda>a. pc_index (ps_pieces s a)) (ps_used s)"
    using fresh by auto
  have "\<forall>b\<in>set (ps_used s). pc_index (?h b) < pc_index (?h (ps_fresh s))"
    using Cons.prems(2) fresh by (auto simp: sorted_wrt_append)
  then have "used_insert (\<lambda>b. pc_index (?h b)) (ps_fresh s) (ps_used s) = ps_used s @ [ps_fresh s]"
    by (rule used_insert_last)
  then have s1: "ps_used s1 = ps_used s @ [ps_fresh s]" "ps_pieces s1 = ?h" "ps_bm s1 = ps_bm s"
    by (simp_all add: s1_def alloc_piece_def DefaultPieceStorage_addInFlightPiece_def DefaultPieceStorage_addUsedPiece_def)
  have "storage_step (RestorePiece p) s = Some s1" by (simp add: s1_def)
  then have reach: "storage_reach s1" using Cons.prems(1,3) storage_reach.step [of s "RestorePiece p"] by simp
  have restore: "restore_pieces (p # ps) s = restore_pieces ps s1" by (simp add: restore_pieces_def s1_def)
  have new: "map (ps_pieces s1) (ps_used s1) = map (ps_pieces s) (ps_used s) @ [p]"
    "map (\<lambda>a. pc_index (ps_pieces s1 a)) (ps_used s1) = map (\<lambda>a. pc_index (ps_pieces s a)) (ps_used s) @ [pc_index p]"
    unfolding s1 map_append old by simp_all
  from restore show ?case
    using Cons.IH [OF reach] Cons.prems(2,3) s1(3) unfolding new by simp
qed (simp add: restore_pieces_def)

text \<open>The head of a saved file.\<close>

lemma load_start_saved:
  assumes "download_ok dc" "pe_infoHash env = None \<or> (\<exists>h. pe_infoHash env = Some h \<and> length h = INFO_HASH_LENGTH)" "pe_infoHash env' = pe_infoHash env"
  shows "load_start big env' dc ([0, 1]
       @ (case pe_infoHash env of
            Some infoHash \<Rightarrow> [0, 0, 0, 1] @ be_bytes 4 (int INFO_HASH_LENGTH) @ take INFO_HASH_LENGTH infoHash
          | None \<Rightarrow> [0, 0, 0, 0] @ be_bytes 4 0)
       @ be_bytes 4 (dc_pieceLength dc) @ be_bytes 8 (DownloadContext_getTotalLength dc) @ be_bytes 8 up @ rest)
     = Inr (1, dc_pieceLength dc, DownloadContext_getTotalLength dc, up mod 2 ^ 64, rest)"
proof -
  have d: "0 < dc_pieceLength dc" "dc_pieceLength dc < 2 ^ 31" "0 < DownloadContext_getTotalLength dc" "DownloadContext_getTotalLength dc < 2 ^ 63"
    using assms(1) by (auto simp: download_ok_def)
  have m: "dc_pieceLength dc mod 2 ^ 32 = dc_pieceLength dc" "DownloadContext_getTotalLength dc mod 2 ^ 64 = DownloadContext_getTotalLength dc"
    using d by simp_all
  have v: "read_bytes 2 (0 # 1 # bs) = Inr ([0, 1], bs)" "read_bytes 4 (a # b # c # e # bs) = Inr ([a, b, c, e], bs)" for a b c e :: byte and bs
    by (simp_all add: read_bytes_def numeral_2_eq_2 numeral_eq_Suc)
  show ?thesis
  proof (cases "pe_infoHash env")
    case None
    then show ?thesis
      using assms(3) d m read_bytes_append [of 0 "[]"] by (simp add: load_start_def v bit_0 INFO_HASH_LENGTH_def)
  next
    case (Some h)
    then have h: "length h = 20" using assms(2) by (simp add: INFO_HASH_LENGTH_def)
    then show ?thesis
      using assms(3) d m Some by (simp add: load_start_def v bit_0 INFO_HASH_LENGTH_def)
  qed
qed

text \<open>The bitfield part and the pieces of a saved file, read into a new storage.\<close>

lemma load_same_saved:
  assumes "storage_reach s0" "ps_used s0 = []" "bm_geometry (ps_bm s0) = bm_geometry (ps_bm s)"
    and "storage_reach s" "DownloadContext_getNumPieces dc = Some (bm_blocks (ps_bm s))" "bm_blocks (ps_bm s) < 2 ^ 32"
    and "bm_blockLength (ps_bm s) = dc_pieceLength dc" "0 < dc_pieceLength dc" "dc_pieceLength dc < 2 ^ 31"
    and "those (map (\<lambda>a. save_piece (ps_pieces s a)) (ps_used s)) = Some saved"
  shows "\<exists>s1. load_same big (Suc 0) dc (bm_bitfield (ps_bm s)) (be_bytes 4 (int (length (ps_used s))) @ concat saved) s0 = Some (s1, None)
    \<and> storage_reach s1 \<and> bm_bitfield (ps_bm s1) = bm_bitfield (ps_bm s) \<and> bm_geometry (ps_bm s1) = bm_geometry (ps_bm s)
    \<and> map (ps_pieces s1) (ps_used s1) = map (\<lambda>a. reloaded dc (ps_pieces s a)) (ps_used s)"
proof -
  let ?bm = "ps_bm s" and ?ps = "map (ps_pieces s) (ps_used s)"
  note inv = storage_reach_inv [OF assms(4)] note ok = storage_invD [OF inv] note l = storage_okD [OF ok]
  note l0 = storage_okD [OF storage_invD [OF storage_reach_inv [OF assms(1)]]]
  have wf: "piece_wf ?bm (ps_pieces s a)" "pc_index (ps_pieces s a) \<notin> bm_have ?bm" if "a \<in> set (ps_used s)" for a
    using piece_at [OF ok] used_fresh [OF ok that] inv that by (auto simp: storage_inv_def held_rel_def)
  have sorted: "sorted_wrt (<) (map pc_index ?ps)" using ok by (simp add: storage_ok_def pieces_rel_def comp_def)
  have short: "length (ps_used s) \<le> bm_blocks ?bm"
  proof -
    have "distinct (map pc_index ?ps)" using sorted by (simp only: strict_sorted_iff)
    then have "length (ps_used s) = card (set (map pc_index ?ps))" using distinct_card by fastforce
    also have "\<dots> \<le> card {..<bm_blocks ?bm}" by (rule card_mono) (use wf(1) in \<open>auto simp: piece_wf_def\<close>)
    finally show ?thesis by simp
  qed
  define t where "t = DefaultPieceStorage_setBitfield s0 (bm_bitfield ?bm) (length (bm_bitfield ?bm))"
  have geo: "bm_bitfieldLength (ps_bm s0) = bm_bitfieldLength ?bm" "bm_blocks (ps_bm s0) = bm_blocks ?bm" "0 < bm_bitfieldLength ?bm"
    "length (bm_bitfield ?bm) = bm_bitfieldLength ?bm"
    using assms(3) l(1,3) l0(1) by (simp_all add: bm_geometry_def bm_layout_def)
  have tb: "ps_bm t = BitfieldMan_setBitfield (ps_bm s0) (bm_bitfield ?bm) (bm_bitfieldLength ?bm)" "ps_used t = []"
    "bm_bitfield (ps_bm t) = bm_bitfield ?bm"
    using assms(2) geo by (simp_all add: t_def DefaultPieceStorage_setBitfield_def BitfieldMan_setBitfield_def)
  have tg: "bm_geometry (ps_bm t) = bm_geometry ?bm"
    using bm_apply_geometry [of "SetBitfield (bm_bitfield ?bm)" "ps_bm s0"] assms(3) tb(1) geo(4) by simp
  have th: "bm_have (ps_bm t) = bm_have ?bm" using tb(3) tg by (simp add: bm_have_def bm_geometry_def)
  have "storage_step (LoadBitfield (bm_bitfield ?bm)) s0 = Some t" by (simp add: t_def)
  then have reach: "storage_reach t" using assms(1,2) storage_reach.step [of s0 "LoadBitfield (bm_bitfield ?bm)"] by simp
  have "\<forall>p\<in>set (map (reloaded dc) ?ps). piece_wf (ps_bm t) p \<and> pc_wrCache p = None \<and> pc_users p = [] \<and> pc_index p \<notin> bm_have (ps_bm t)"
  proof
    fix p assume "p \<in> set (map (reloaded dc) ?ps)"
    then obtain a where a: "a \<in> set (ps_used s)" "p = reloaded dc (ps_pieces s a)" by auto
    note r = reloaded_piece [OF wf(1) [OF a(1)], of dc]
    have "piece_wf (ps_bm t) p" using r(1) piece_wf_cong [OF refl refl refl tg] a(2) by simp
    then show "piece_wf (ps_bm t) p \<and> pc_wrCache p = None \<and> pc_users p = [] \<and> pc_index p \<notin> bm_have (ps_bm t)"
      using r(2,4,5) wf(2) [OF a(1)] th a(2) by simp
  qed
  moreover have "map pc_index (map (reloaded dc) ?ps) = map pc_index ?ps"
    using reloaded_piece(2) [OF wf(1)] by simp
  then have "sorted_wrt (<) (map (\<lambda>a. pc_index (ps_pieces t a)) (ps_used t) @ map pc_index (map (reloaded dc) ?ps))"
    using sorted tb(2) by (simp only: list.map append_Nil)
  ultimately have restored: "storage_reach (restore_pieces (map (reloaded dc) ?ps) t)"
    "ps_bm (restore_pieces (map (reloaded dc) ?ps) t) = ps_bm t"
    "map (ps_pieces (restore_pieces (map (reloaded dc) ?ps) t)) (ps_used (restore_pieces (map (reloaded dc) ?ps) t)) = map (reloaded dc) ?ps"
    using restore_pieces_reach [OF reach] tb(2) by simp_all
  have len: "pc_length (ps_pieces s a) \<le> dc_pieceLength dc" if "a \<in> set (ps_used s)" for a
    using wf(1) [OF that] getBlockLength_min [OF l(1), of "pc_index (ps_pieces s a)"] assms(7) by (simp add: piece_wf_def)
  have "load_pieces big (Suc 0) (bm_blocks ?bm) dc (length ?ps) (concat saved) = Inr (map (reloaded dc) ?ps)"
    by (rule load_saved_pieces) (use assms(6,9,10) wf(1) len in \<open>auto simp: piece_wf_def comp_def\<close>)
  moreover have "int (length (ps_used s)) mod 2 ^ 32 = int (length (ps_used s))" using short assms(6) by simp
  ultimately have "load_same big (Suc 0) dc (bm_bitfield ?bm) (be_bytes 4 (int (length (ps_used s))) @ concat saved) s0
      = Some (restore_pieces (map (reloaded dc) ?ps) t, None)"
    using assms(5) by (auto simp: load_same_def t_def [symmetric])
  then show ?thesis using restored tb(3) tg by (intro exI [of _ "restore_pieces (map (reloaded dc) ?ps) t"]) simp
qed

lemma geometry_lengths: "bm_geometry b = bm_geometry c \<Longrightarrow> BitfieldMan_getBlockLength b i = BitfieldMan_getBlockLength c i"
  by (simp add: BitfieldMan_getBlockLength_def BitfieldMan_getLastBlockLength_def bm_geometry_def Let_def)

lemma storage_new_fields:
  assumes "download_ok dc" "DefaultPieceStorage_new shuffle dc opt = Some s0"
  shows "ps_used s0 = []" "bm_blockLength (ps_bm s0) = dc_pieceLength dc" "bm_totalLength (ps_bm s0) = DownloadContext_getTotalLength dc"
    and "DownloadContext_getNumPieces dc = Some (bm_blocks (ps_bm s0))"
proof -
  obtain n where n: "DownloadContext_getNumPieces dc = Some n" "ps_used s0 = []" "ps_stat s0 = PieceStatMan_new shuffle n True"
    "ps_bm s0 = BitfieldMan_new (dc_pieceLength dc) (DownloadContext_getTotalLength dc)"
    using assms(2) unfolding DefaultPieceStorage_new_def by (cases "DownloadContext_getNumPieces dc") auto
  then show "ps_used s0 = []" "bm_blockLength (ps_bm s0) = dc_pieceLength dc" "bm_totalLength (ps_bm s0) = DownloadContext_getTotalLength dc"
    using BitfieldMan_new_spec(6,7) assms(1) by (simp_all add: download_ok_def)
  have "length (psm_counts (ps_stat s0)) = bm_blocks (ps_bm s0)"
    using storage_invD [OF storage_new_inv [OF assms]] by (simp add: storage_ok_def)
  then show "DownloadContext_getNumPieces dc = Some (bm_blocks (ps_bm s0))" using n by (simp add: PieceStatMan_new_def)
qed

lemma load_bitfield_saved:
  assumes "download_ok dc" "bm_layout b" "bm_blockLength b = dc_pieceLength dc" "bm_totalLength b = DownloadContext_getTotalLength dc"
    and "bm_blocks b < 2 ^ 32"
  shows "load_bitfield big (Suc 0) (dc_pieceLength dc) (DownloadContext_getTotalLength dc)
      (be_bytes 4 (int (bm_bitfieldLength b)) @ bm_bitfield b @ rest) = Inr (bm_bitfield b, rest)"
proof -
  let ?pl = "dc_pieceLength dc" and ?t = "DownloadContext_getTotalLength dc"
  have d: "0 < ?pl" "0 < ?t" "?t + ?pl < 2 ^ 63" using assms(1) by (simp_all add: download_ok_def)
  have n: "int (bm_blocks b) = (?t + ?pl - 1) div ?pl" "bm_bitfieldLength b = (bm_blocks b + 7) div 8" "length (bm_bitfield b) = bm_bitfieldLength b"
    using assms(2-4) d by (simp_all add: bm_layout_def pos_imp_zdiv_nonneg_iff)
  have m: "(?t + ?pl - 1) mod 2 ^ 64 = ?t + ?pl - 1" using d by simp
  have len: "(int (bm_blocks b) + 7) div 8 = int (bm_bitfieldLength b)" "int (bm_bitfieldLength b) mod 2 ^ 32 = int (bm_bitfieldLength b)"
    using n(2) assms(5) by (simp_all add: zdiv_int)
  show ?thesis using n(3) len unfolding load_bitfield_def m n(1) [symmetric] by simp
qed

text \<open>C22: Saving and loading loses no progress: what \<open>save\<close> writes for a reachable storage is accepted by \<open>load\<close> in a new
  storage of the same download (the same piece length, total length and info hash), on hosts of either byte order. The
  bitfield is the saved one, the pieces in flight are those of the saved storage in their order, each with its finished
  blocks, \<open>getCompletedLength\<close> is the same, and the storage is again one that the storage operations reach. The lengths
  are positive and in range (\<open>download_ok\<close>), there are fewer than \<open>2 ^ 32\<close> pieces, the file is written fully, and the info hash, if
  there is one, has 20 bytes.\<close>
theorem progress_roundtrip:
  assumes "download_ok dc" "storage_reach s" "bm_blockLength (ps_bm s) = dc_pieceLength dc"
    and "bm_totalLength (ps_bm s) = DownloadContext_getTotalLength dc" "bm_blocks (ps_bm s) < 2 ^ 32"
    and "DefaultPieceStorage_new shuffle dc opt = Some s0"
    and "pe_infoHash env = None \<or> (\<exists>h. pe_infoHash env = Some h \<and> length h = INFO_HASH_LENGTH)" "pe_infoHash env' = pe_infoHash env"
  shows "\<exists>bs env1 s1. save_contents dc env s = Some bs
    \<and> DefaultBtProgressInfoFile_load big dc (Some bs) env' s0 = Some (env1, s1, None) \<and> storage_reach s1
    \<and> bm_bitfield (ps_bm s1) = bm_bitfield (ps_bm s)
    \<and> map (\<lambda>a. (pc_index (ps_pieces s1 a), pc_length (ps_pieces s1 a), bm_bitfield (piece_bm (ps_pieces s1 a)))) (ps_used s1)
      = map (\<lambda>a. (pc_index (ps_pieces s a), pc_length (ps_pieces s a), bm_bitfield (piece_bm (ps_pieces s a)))) (ps_used s)
    \<and> DefaultPieceStorage_getCompletedLength s1 = DefaultPieceStorage_getCompletedLength s"
proof -
  let ?bm = "ps_bm s" and ?t = "DownloadContext_getTotalLength dc"
  note inv = storage_reach_inv [OF assms(2)] note ok = storage_invD [OF inv] note l = storage_okD [OF ok]
  have d: "0 < dc_pieceLength dc" "dc_pieceLength dc < 2 ^ 31" "0 < ?t" "?t < 2 ^ 63" using assms(1) by (simp_all add: download_ok_def)
  have wf: "piece_wf ?bm (ps_pieces s a)" if "a \<in> set (ps_used s)" for a using piece_at [OF ok] used_fresh [OF ok that] by blast
  note s0 = storage_new_fields [OF assms(1,6)]
  have r0: "storage_reach s0" by (rule storage_reach.start [OF assms(1,6)])
  have geo: "bm_geometry (ps_bm s0) = bm_geometry ?bm" and n: "DownloadContext_getNumPieces dc = Some (bm_blocks ?bm)"
    using l(1) storage_okD(1) [OF storage_invD [OF storage_reach_inv [OF r0]]] s0 assms(3,4) by (simp_all add: bm_geometry_def bm_layout_def)
  have "\<forall>a\<in>set (ps_used s). save_piece (ps_pieces s a) \<noteq> None" using wf by (auto simp: save_piece_def piece_wf_def piece_ok_def)
  then obtain saved where saved: "those (map (\<lambda>a. save_piece (ps_pieces s a)) (ps_used s)) = Some saved"
    using those_map_Some [of "ps_used s" "\<lambda>a. save_piece (ps_pieces s a)" "\<lambda>a. the (save_piece (ps_pieces s a))"] by auto
  obtain s1 where s1: "load_same big (Suc 0) dc (bm_bitfield ?bm) (be_bytes 4 (int (length (ps_used s))) @ concat saved) s0 = Some (s1, None)"
    "storage_reach s1" "bm_bitfield (ps_bm s1) = bm_bitfield ?bm" "bm_geometry (ps_bm s1) = bm_geometry ?bm"
    "map (ps_pieces s1) (ps_used s1) = map (\<lambda>a. reloaded dc (ps_pieces s a)) (ps_used s)"
    using load_same_saved [OF r0 s0(1) geo assms(2) n assms(5,3) d(1,2) saved] by blast
  have fields: "map (\<lambda>a. g (ps_pieces s1 a)) (ps_used s1) = map (\<lambda>a. g (reloaded dc (ps_pieces s a))) (ps_used s)" for g
    using arg_cong [OF s1(5), of "map g"] by (simp add: comp_def)
  obtain bs where bs: "save_contents dc env s = Some bs" and head: "load_start big env' dc bs = Inr (1, dc_pieceLength dc, ?t,
      (if pe_infoHash env = None then 0 else pe_uploadAtStartup env + pe_sessionUpload env) mod 2 ^ 64,
      be_bytes 4 (int (bm_bitfieldLength ?bm)) @ bm_bitfield ?bm @ be_bytes 4 (int (length (ps_used s))) @ concat saved)"
    using load_start_saved [OF assms(1,7,8)] saved l(1) by (simp add: save_contents_def bm_layout_def)
  have loaded: "\<exists>env1. DefaultBtProgressInfoFile_load big dc (Some bs) env' s0 = Some (env1, s1, None)"
    using head load_bitfield_saved [OF assms(1) l(1) assms(3-5)] s1(1) d(1,2) by (simp add: DefaultBtProgressInfoFile_load_def)
  have "bm_have (ps_bm s1) = bm_have ?bm" using s1(3,4) by (simp add: bm_have_def bm_geometry_def)
  then have "bm_cachedCompletedLength (ps_bm s1) = bm_cachedCompletedLength ?bm" "bm_totalLength (ps_bm s1) = bm_totalLength ?bm"
    using cached_values(2) [OF l(2)] cached_values(2) [OF storage_okD(2) [OF storage_invD [OF storage_reach_inv [OF s1(2)]]]]
      geometry_lengths [OF s1(4)] s1(4) by (simp_all add: bm_geometry_def)
  moreover have lengths: "map (\<lambda>a. Piece_getCompletedLength (reloaded dc (ps_pieces s a))) (ps_used s) = map (\<lambda>a. Piece_getCompletedLength (ps_pieces s a)) (ps_used s)"
    using reloaded_piece(8) [OF wf] by simp
  ultimately have "DefaultPieceStorage_getCompletedLength s1 = DefaultPieceStorage_getCompletedLength s"
    unfolding DefaultPieceStorage_getCompletedLength_def DefaultPieceStorage_getInFlightPieceCompletedLength_def fields lengths by simp
  moreover have "map (\<lambda>a. (pc_index (ps_pieces s1 a), pc_length (ps_pieces s1 a), bm_bitfield (piece_bm (ps_pieces s1 a)))) (ps_used s1)
      = map (\<lambda>a. (pc_index (ps_pieces s a), pc_length (ps_pieces s a), bm_bitfield (piece_bm (ps_pieces s a)))) (ps_used s)"
    unfolding fields [of "\<lambda>p. (pc_index p, pc_length p, bm_bitfield (piece_bm p))"] using reloaded_piece(2,3,7) [OF wf] by simp
  ultimately show ?thesis using bs loaded s1(2,3) by blast
qed

text \<open>A piece in flight with one of its two blocks finished is saved and loaded.\<close>

definition demo_env :: progress_env where
  "demo_env = \<lparr>pe_infoHash = Some (replicate 20 7), pe_uploadAtStartup = 1000, pe_sessionUpload = 24, pe_allowPieceLengthChange = False\<rparr>"

theorem progress_roundtrip_witness:
  "\<exists>s bs env1 s1. DefaultPieceStorage_getCompletedLength s = Some 16384 \<and> save_contents demo_dc demo_env s = Some bs
     \<and> DefaultBtProgressInfoFile_load False demo_dc (Some bs) demo_env demo_new = Some (env1, s1, None)
     \<and> map (\<lambda>a. (pc_index (ps_pieces s1 a), bm_bitfield (piece_bm (ps_pieces s1 a)))) (ps_used s1) = [(0, [0x80])]
     \<and> DefaultPieceStorage_getCompletedLength s1 = Some 16384"
proof -
  let ?r = "Option.bind (storage_step (IndexRequest demo_dc (\<lambda>_. True) 0 7) demo_new) (storage_step (FinishBlock 0 0))"
  have d: "download_ok demo_dc" "DownloadContext_getNumPieces demo_dc = Some 4" by (code_simp, code_simp)
  have new: "DefaultPieceStorage_new (\<lambda>xs. xs) demo_dc ''inorder'' = Some demo_new"
    using d(2) by (simp add: demo_new_def DefaultPieceStorage_new_def)
  have facts: "map_option (\<lambda>s. (DefaultPieceStorage_getCompletedLength s, bm_blockLength (ps_bm s), bm_totalLength (ps_bm s), bm_blocks (ps_bm s),
      map (\<lambda>a. (pc_index (ps_pieces s a), pc_length (ps_pieces s a), bm_bitfield (piece_bm (ps_pieces s a)))) (ps_used s))) ?r
    = Some (Some 16384, 32768, 100000, 4, [(0, 32768, [0x80])])" "DownloadContext_getTotalLength demo_dc = 100000" "dc_pieceLength demo_dc = 32768"
    by (code_simp, code_simp, code_simp)
  obtain t where t: "storage_step (IndexRequest demo_dc (\<lambda>_. True) 0 7) demo_new = Some t" "0 < ps_fresh t"
  proof -
    have "map_option (\<lambda>s. 0 < ps_fresh s) (storage_step (IndexRequest demo_dc (\<lambda>_. True) 0 7) demo_new) = Some True" by code_simp
    then show thesis using that by auto
  qed
  obtain s where s: "storage_step (FinishBlock 0 0) t = Some s" using facts(1) t(1) by (auto simp del: storage_step.simps)
  have "event_ok (IndexRequest demo_dc (\<lambda>_. True) 0 7) demo_new" by simp
  from storage_reach.step [OF storage_reach.step [OF demo_reach this t(1)] _ s] t(2) have reach: "storage_reach s" by simp
  have e: "?r = Some s" using s t(1) by (simp del: storage_step.simps)
  have f: "DefaultPieceStorage_getCompletedLength s = Some 16384" "bm_blockLength (ps_bm s) = dc_pieceLength demo_dc"
    "bm_totalLength (ps_bm s) = DownloadContext_getTotalLength demo_dc" "bm_blocks (ps_bm s) < 2 ^ 32"
    "map (\<lambda>a. (pc_index (ps_pieces s a), pc_length (ps_pieces s a), bm_bitfield (piece_bm (ps_pieces s a)))) (ps_used s) = [(0, 32768, [0x80])]"
    using facts unfolding e by simp_all
  have h: "pe_infoHash demo_env = None \<or> (\<exists>h. pe_infoHash demo_env = Some h \<and> length h = INFO_HASH_LENGTH)"
    by (simp add: demo_env_def INFO_HASH_LENGTH_def)
  from progress_roundtrip [OF d(1) reach f(2,3,4) new h refl, of False] obtain bs env1 s1 where
    r: "save_contents demo_dc demo_env s = Some bs" "DefaultBtProgressInfoFile_load False demo_dc (Some bs) demo_env demo_new = Some (env1, s1, None)"
    "map (\<lambda>a. (pc_index (ps_pieces s1 a), pc_length (ps_pieces s1 a), bm_bitfield (piece_bm (ps_pieces s1 a)))) (ps_used s1) = [(0, 32768, [0x80])]"
    "DefaultPieceStorage_getCompletedLength s1 = Some 16384" unfolding f(1,5) by (elim exE conjE) (rule that; assumption)
  have "map (\<lambda>a. (pc_index (ps_pieces s1 a), bm_bitfield (piece_bm (ps_pieces s1 a)))) (ps_used s1) = [(0, [0x80])]"
    using arg_cong [OF r(3), of "map (\<lambda>(i, l, b). (i, b))"] by (simp add: comp_def)
  then show ?thesis using f(1) r(1,2,4) by (intro exI conjI)
qed

subsection \<open>What is lost and what is let through\<close>

text \<open>The digest is remembered before the file is written, so after a failed save the same contents are never written.\<close>

lemma failed_save_forgotten:
  assumes "save_contents dc env s = Some bs" "sha1 bs \<noteq> pf_lastDigest f" "\<not> written \<or> \<not> renamed"
  shows "\<exists>f1. DefaultBtProgressInfoFile_save sha1 written renamed dc env s f = Some (f1, False) \<and> pf_file f1 = pf_file f
    \<and> DefaultBtProgressInfoFile_save sha1 True True dc env s f1 = Some (f1, True)"
  using assms by (auto simp: DefaultBtProgressInfoFile_save_def Let_def)

text \<open>A piece length from \<open>2 ^ 31\<close> on in the file becomes a negative block length, and the conversion reads a null bitfield.\<close>

lemma huge_piece_length_null: "load_converted True 1 True demo_dc (2 ^ 31) 100000 [0xFF] (be_bytes 4 0) demo_new = None"
  by code_simp

text \<open>A piece in flight may have any length up to the piece length, not only that of its place.\<close>

lemma wrong_length_accepted:
  "map_option (\<lambda>(p, rest). pc_length p) (case load_piece True 1 4 demo_dc (be_bytes 4 0 @ be_bytes 4 5 @ be_bytes 4 1 @ [0x80]) of Inl e \<Rightarrow> None | Inr r \<Rightarrow> Some r)
     = Some 5"
  by code_simp

end
