(* ===== verification/Piece_Pool.thy ===== *)
theory Piece_Pool
  imports Storage_Runs
begin

text \<open>
  What the segment manager relies on in the piece storage, as an interface: a pool of pieces that
  connections take, give back and finish. The client keeps a ledger of who took what; the lemmas
  of the ledger are proved from the interface's laws and then hold for \<open>DefaultPieceStorage\<close>.
\<close>

subsection \<open>The interface and its ledger\<close>

locale piece_pool =
  fixes inv :: "'s \<Rightarrow> bool" and shared :: "'s \<Rightarrow> bool" and live :: "'s \<Rightarrow> nat \<Rightarrow> bool"
    and place :: "'s \<Rightarrow> nat \<Rightarrow> nat" and held :: "'s \<Rightarrow> nat \<Rightarrow> int set"
    and got :: "'s \<Rightarrow> int \<Rightarrow> 's \<Rightarrow> nat \<Rightarrow> bool" and give :: "'s \<Rightarrow> nat \<Rightarrow> int \<Rightarrow> 's option"
    and finish :: "'s \<Rightarrow> nat \<Rightarrow> 's option"
  assumes got_inv: "inv s \<Longrightarrow> got s c s' a \<Longrightarrow> inv s' \<and> live s' a \<and> (\<forall>b. live s b \<longrightarrow> live s' b \<and> place s' b = place s b)
      \<and> (shared s \<longrightarrow> shared s')"
    and got_held: "inv s \<Longrightarrow> got s c s' a \<Longrightarrow> \<not> shared s' \<Longrightarrow> held s' a = {c} \<and> held s a = {} \<and> (\<forall>b. b \<noteq> a \<longrightarrow> held s' b = held s b)"
    and give_laws: "inv s \<Longrightarrow> live s a \<Longrightarrow> (\<not> shared s \<Longrightarrow> c \<in> held s a) \<Longrightarrow> \<exists>s'. give s a c = Some s' \<and> inv s'
      \<and> (\<forall>b. live s b \<longrightarrow> live s' b \<and> place s' b = place s b) \<and> shared s' = shared s
      \<and> (\<not> shared s \<longrightarrow> (\<forall>b. b \<noteq> a \<longrightarrow> held s' b = held s b))"
    and finish_laws: "inv s \<Longrightarrow> live s a \<Longrightarrow> (\<not> shared s \<Longrightarrow> held s a \<noteq> {}) \<Longrightarrow> \<exists>s'. finish s a = Some s' \<and> inv s'
      \<and> (\<forall>b. live s b \<longrightarrow> live s' b \<and> place s' b = place s b) \<and> shared s' = shared s
      \<and> (\<not> shared s \<longrightarrow> (\<forall>b. b \<noteq> a \<longrightarrow> held s' b = held s b))"
    and held_exclusive: "inv s \<Longrightarrow> \<not> shared s \<Longrightarrow> c \<in> held s a \<Longrightarrow> d \<in> held s b \<Longrightarrow> place s a = place s b \<Longrightarrow> a = b \<and> c = d"
begin

definition ledger :: "'s \<Rightarrow> (int \<times> nat) list \<Rightarrow> bool" where
  "ledger s L \<longleftrightarrow> inv s \<and> (\<forall>c a. (c, a) \<in> set L \<longrightarrow> live s a)
     \<and> (\<not> shared s \<longrightarrow> distinct (map snd L) \<and> (\<forall>c a. (c, a) \<in> set L \<longrightarrow> c \<in> held s a))"

lemma ledger_Nil: "inv s \<Longrightarrow> ledger s []"
  by (simp add: ledger_def)

lemma ledger_got:
  assumes "ledger s L" "got s c s' a" shows "ledger s' (L @ [(c, a)])"
proof -
  have inv: "inv s" using assms(1) by (simp add: ledger_def)
  note i = got_inv [OF inv assms(2)]
  have "distinct (map snd (L @ [(c, a)])) \<and> (\<forall>d b. (d, b) \<in> set (L @ [(c, a)]) \<longrightarrow> d \<in> held s' b)" if n: "\<not> shared s'"
  proof -
    note h = got_held [OF inv assms(2) n]
    have n0: "\<not> shared s" using i n by blast
    have L: "distinct (map snd L)" "\<And>d b. (d, b) \<in> set L \<Longrightarrow> d \<in> held s b" using assms(1) n0 by (auto simp: ledger_def)
    then have "a \<notin> snd ` set L" using h by force
    then show ?thesis using L h by (auto simp: image_iff)
  qed
  then show ?thesis using i assms(1) by (auto simp: ledger_def)
qed

lemma ledger_drop:
  assumes "ledger s (xs @ (c, a) # ys)" "inv s'" "\<forall>b. live s b \<longrightarrow> live s' b" "shared s' = shared s"
    and "\<not> shared s \<longrightarrow> (\<forall>b. b \<noteq> a \<longrightarrow> held s' b = held s b)"
  shows "ledger s' (xs @ ys)"
proof -
  have "d \<in> held s' b" if n: "\<not> shared s" and b: "(d, b) \<in> set (xs @ ys)" for d b
  proof -
    have "d \<in> held s b" "distinct (map snd (xs @ (c, a) # ys))" using assms(1) n b by (auto simp: ledger_def)
    moreover from this(2) have "b \<noteq> a" using b by (auto simp: image_iff)
    ultimately show ?thesis using assms(5) n by simp
  qed
  moreover have "distinct (map snd (xs @ ys))" if "\<not> shared s" using assms(1) that by (auto simp: ledger_def)
  moreover have "live s' b" if "(d, b) \<in> set (xs @ ys)" for d b using assms(1,3) that by (auto simp: ledger_def)
  ultimately show ?thesis using assms(2,4) by (auto simp: ledger_def)
qed

lemma ledger_give:
  assumes "ledger s (xs @ (c, a) # ys)"
  shows "\<exists>s'. give s a c = Some s' \<and> ledger s' (xs @ ys) \<and> shared s' = shared s \<and> (\<forall>b. live s b \<longrightarrow> live s' b \<and> place s' b = place s b)"
proof -
  have s: "inv s" "live s a" "\<not> shared s \<Longrightarrow> c \<in> held s a" using assms by (auto simp: ledger_def)
  obtain s' where s': "give s a c = Some s'" "inv s'" "\<forall>b. live s b \<longrightarrow> live s' b \<and> place s' b = place s b" "shared s' = shared s"
    "\<not> shared s \<longrightarrow> (\<forall>b. b \<noteq> a \<longrightarrow> held s' b = held s b)" using give_laws [OF s] by blast
  have "ledger s' (xs @ ys)" by (rule ledger_drop [OF assms s'(2) _ s'(4,5)]) (use s'(3) in blast)
  then show ?thesis using s' by blast
qed

lemma ledger_finish:
  assumes "ledger s (xs @ (c, a) # ys)"
  shows "\<exists>s'. finish s a = Some s' \<and> ledger s' (xs @ ys) \<and> shared s' = shared s \<and> (\<forall>b. live s b \<longrightarrow> live s' b \<and> place s' b = place s b)"
proof -
  have c: "\<not> shared s \<Longrightarrow> c \<in> held s a" using assms by (auto simp: ledger_def)
  have s: "inv s" "live s a" "\<not> shared s \<Longrightarrow> held s a \<noteq> {}" using assms c by (auto simp: ledger_def)
  obtain s' where s': "finish s a = Some s'" "inv s'" "\<forall>b. live s b \<longrightarrow> live s' b \<and> place s' b = place s b" "shared s' = shared s"
    "\<not> shared s \<longrightarrow> (\<forall>b. b \<noteq> a \<longrightarrow> held s' b = held s b)" using finish_laws [OF s] by blast
  have "ledger s' (xs @ ys)" by (rule ledger_drop [OF assms s'(2) _ s'(4,5)]) (use s'(3) in blast)
  then show ?thesis using s' by blast
qed

text \<open>A change that touches no hold.\<close>

lemma ledger_quiet:
  assumes "ledger s L" "inv s'" "\<forall>b. live s b \<longrightarrow> live s' b" "shared s' = shared s" "\<forall>b. held s' b = held s b"
  shows "ledger s' L"
  using assms by (auto simp: ledger_def)

lemma ledger_exclusive:
  assumes "ledger s L" "\<not> shared s" "(c, a) \<in> set L" "(d, b) \<in> set L" "place s a = place s b"
  shows "a = b \<and> c = d"
  using assms held_exclusive [of s c a d b] by (auto simp: ledger_def)

end

subsection \<open>The piece storage as a pool\<close>

definition storage_held :: "piece_storage \<Rightarrow> nat \<Rightarrow> int set" where
  "storage_held s a = (if a \<in> set (ps_used s) then set (pc_users (ps_pieces s a)) else {})"

definition storage_got :: "piece_storage \<Rightarrow> int \<Rightarrow> piece_storage \<Rightarrow> nat \<Rightarrow> bool" where
  "storage_got s c s' a \<longleftrightarrow>
     (\<exists>rnd shuffle dc io m ign. event_ok (StreamRequest rnd shuffle dc io m ign c) s
        \<and> DefaultPieceStorage_getMissingPiece_stream rnd shuffle dc io s m ign c = Some (s', Some a))
     \<or> (\<exists>dc io i. i < bm_blocks (ps_bm s) \<and> DefaultPieceStorage_getMissingPiece_index dc io s i c = Some (s', Some a))"

text \<open>Both requests check a missing piece out, outside the end game one that is not in use.\<close>

lemma storage_got_checked:
  assumes "storage_inv s" "storage_got s c s' a"
  obtains t i where "storage_inv t" "storage_ok s'" "checked_out t i c s' a" "i \<notin> bm_have (ps_bm t)" "ps_endGame t \<or> i \<notin> bm_used (ps_bm t)"
    "ps_pieces t = ps_pieces s" "ps_used t = ps_used s" "ps_fresh t = ps_fresh s" "ps_endGame s \<longrightarrow> ps_endGame t" "ps_bm t = ps_bm s"
  using assms(2) unfolding storage_got_def
proof (elim disjE exE conjE)
  fix rnd shuffle dc io m ign
  assume r: "event_ok (StreamRequest rnd shuffle dc io m ign c) s"
    "DefaultPieceStorage_getMissingPiece_stream rnd shuffle dc io s m ign c = Some (s', Some a)"
  have rdy: "selector_ready rnd s" and sh: "\<And>xs. set (shuffle xs) = set xs" using r(1) by simp_all
  show thesis
  proof (rule stream_request_ok [OF storage_invD [OF assms(1)] rdy sh, where dc = dc and io = io and m = m and ign = ign and cuid = c])
    fix t b i
    assume t: "DefaultPieceStorage_getMissingPiece_stream rnd shuffle dc io s m ign c = Some (t, Some b)" "storage_ok t"
      "checked_out (storage_enterEndGame dc s) i c t b"
      "i \<in> bm_free (ps_bm s) ign \<or> ps_endGame (storage_enterEndGame dc s) \<and> i \<in> bm_used (ps_bm s) \<inter> bm_wanted (ps_bm s) - bm_have (ps_bm s)
         \<and> i \<in> bit_set (array ign) (bm_blocks (ps_bm s))"
    have e: "t = s'" "b = a" using t(1) r(2) by simp_all
    show thesis
      by (rule that [OF enterEndGame_inv [OF assms(1)] t(2,3) [unfolded e]]) (use t(4) enterEndGame_stays in \<open>auto simp: bm_free_def\<close>)
  qed (use r(2) in simp)
next
  fix dc io i
  assume r: "i < bm_blocks (ps_bm s)" "DefaultPieceStorage_getMissingPiece_index dc io s i c = Some (s', Some a)"
  then have f: "\<not> (DefaultPieceStorage_hasPiece s i \<or> DefaultPieceStorage_isPieceUsed s i
      \<or> (bm_filterEnabled (ps_bm s) \<and> \<not> BitfieldMan_isFilterBitSet (ps_bm s) i))"
    by (auto simp: DefaultPieceStorage_getMissingPiece_index_def split: if_splits)
  then have co: "DefaultPieceStorage_checkOutPiece dc io s i c = Some (s', a)"
    using r(2) by (auto simp: DefaultPieceStorage_getMissingPiece_index_def)
  have i: "i \<notin> bm_have (ps_bm s)" "i \<notin> bm_used (ps_bm s)" "bm_filterEnabled (ps_bm s) \<Longrightarrow> i \<in> bm_selected (ps_bm s)"
    using f r(1) isFilterBitSet_iff [of i "ps_bm s"] isUseBitSet_iff [of i "ps_bm s"] isBitSet_iff [of i "ps_bm s"]
    by (auto simp: DefaultPieceStorage_hasPiece_def DefaultPieceStorage_isPieceUsed_def)
  obtain t b where t: "DefaultPieceStorage_checkOutPiece dc io s i c = Some (t, b)" "storage_ok t" "checked_out s i c t b"
    by (rule checkOutPiece_ok [OF storage_invD [OF assms(1)] r(1) i(3)])
  have e: "t = s'" "b = a" using t(1) co by simp_all
  show thesis by (rule that [OF assms(1) t(2,3) [unfolded e]]) (use i in auto)
qed

lemma storage_got_laws:
  assumes "storage_inv s" "storage_got s c s' a"
  shows "storage_inv s' \<and> a < ps_fresh s' \<and> (\<forall>b < ps_fresh s. b < ps_fresh s' \<and> pc_index (ps_pieces s' b) = pc_index (ps_pieces s b))
      \<and> (ps_endGame s \<longrightarrow> ps_endGame s')"
    and "\<not> ps_endGame s' \<Longrightarrow> storage_held s' a = {c} \<and> storage_held s a = {} \<and> (\<forall>b. b \<noteq> a \<longrightarrow> storage_held s' b = storage_held s b)"
proof -
  obtain t i where t: "storage_inv t" "storage_ok s'" "checked_out t i c s' a" "i \<notin> bm_have (ps_bm t)" "ps_endGame t \<or> i \<notin> bm_used (ps_bm t)"
    "ps_pieces t = ps_pieces s" "ps_used t = ps_used s" "ps_fresh t = ps_fresh s" "ps_endGame s \<longrightarrow> ps_endGame t" "ps_bm t = ps_bm s"
    by (rule storage_got_checked [OF assms])
  note k = checked_out_inv [OF t(1-5)]
  have c: "ps_endGame s' = ps_endGame t" "a < ps_fresh s'" "ps_fresh t \<le> ps_fresh s'" "set (ps_used s') = insert a (set (ps_used s))"
    "pc_index (ps_pieces s' a) = i" "\<forall>b < ps_fresh s. pc_index (ps_pieces s' b) = pc_index (ps_pieces s b)"
    "\<forall>b < ps_fresh s. b \<noteq> a \<longrightarrow> ps_pieces s' b = ps_pieces s b"
    "DefaultPieceStorage_findUsedPiece t i = Some a \<or> DefaultPieceStorage_findUsedPiece t i = None \<and> a = ps_fresh s"
    using t(3,6-8) by (auto simp: checked_out_def)
  show "storage_inv s' \<and> a < ps_fresh s' \<and> (\<forall>b < ps_fresh s. b < ps_fresh s' \<and> pc_index (ps_pieces s' b) = pc_index (ps_pieces s b))
      \<and> (ps_endGame s \<longrightarrow> ps_endGame s')" using k(1) c t(8,9) by auto
  assume n: "\<not> ps_endGame s'"
  then have nt: "\<not> ps_endGame t" using c(1) by simp
  have h1: "storage_held s' a = {c}" using k(2) [OF nt] c(4) by (simp add: storage_held_def)
  have h0: "storage_held s a = {}"
  proof (cases "a \<in> set (ps_used s)")
    case True
    then have "pc_index (ps_pieces s a) = i" using c(5,6) used_fresh [OF storage_invD [OF assms(1)]] by auto
    then show ?thesis using t(1,5) nt True t(6,7) by (auto simp: storage_inv_def held_rel_def storage_held_def)
  qed (simp add: storage_held_def)
  have "storage_held s' b = storage_held s b" if "b \<noteq> a" for b
    using that c(4,7) used_fresh [OF storage_invD [OF assms(1)]] by (auto simp: storage_held_def)
  then show "storage_held s' a = {c} \<and> storage_held s a = {} \<and> (\<forall>b. b \<noteq> a \<longrightarrow> storage_held s' b = storage_held s b)" using h1 h0 by blast
qed

lemma holds_held: "storage_ok s \<Longrightarrow> a < ps_fresh s \<Longrightarrow> (\<not> ps_endGame s \<Longrightarrow> storage_held s a \<noteq> {}) \<Longrightarrow> holds s a"
  by (auto simp: holds_def storage_held_def split: if_splits)

lemma storage_give_laws:
  assumes "storage_inv s" "a < ps_fresh s" "\<not> ps_endGame s \<Longrightarrow> c \<in> storage_held s a"
  shows "\<exists>s'. DefaultPieceStorage_cancelPiece s a c = Some s' \<and> storage_inv s'
    \<and> (\<forall>b < ps_fresh s. b < ps_fresh s' \<and> pc_index (ps_pieces s' b) = pc_index (ps_pieces s b)) \<and> ps_endGame s' = ps_endGame s
    \<and> (\<not> ps_endGame s \<longrightarrow> (\<forall>b. b \<noteq> a \<longrightarrow> storage_held s' b = storage_held s b))"
proof -
  note ok = storage_invD [OF assms(1)]
  have "holds s a" by (rule holds_held [OF ok assms(2)]) (use assms(3) in auto)
  from cancel_inv [OF assms(1) this, of c] obtain s' where s': "DefaultPieceStorage_cancelPiece s a c = Some s'" "storage_inv s'" by blast
  obtain t where t: "DefaultPieceStorage_cancelPiece s a c = Some t" "ps_endGame t = ps_endGame s" "ps_fresh t = ps_fresh s"
    "\<forall>b. b \<noteq> a \<longrightarrow> ps_pieces t b = ps_pieces s b" "same_but_cache (Piece_removeUser (ps_pieces s a) c) (ps_pieces t a)"
    "set (ps_used t) \<subseteq> set (ps_used s)" "\<forall>b\<in>set (ps_used s). pc_index (ps_pieces s b) \<noteq> pc_index (ps_pieces s a) \<longrightarrow> b \<in> set (ps_used t)"
    by (rule cancelPiece_ok [OF ok assms(2)]) blast
  have e: "t = s'" using s'(1) t(1) by simp
  have i: "pc_index (ps_pieces s' b) = pc_index (ps_pieces s b)" for b
    using t(4) same_but_cacheD(2) [OF t(5)] by (cases "b = a") (simp_all add: e)
  have "storage_held s' b = storage_held s b" if n: "\<not> ps_endGame s" and b: "b \<noteq> a" for b
  proof -
    have "a \<in> set (ps_used s)" using assms(3) [OF n] by (auto simp: storage_held_def split: if_splits)
    then have "b \<in> set (ps_used s') \<longleftrightarrow> b \<in> set (ps_used s)"
      using t(6,7) used_index_unique [OF ok, of b a] b e by auto
    then show ?thesis using t(4) b e by (simp add: storage_held_def)
  qed
  then show ?thesis using s' t(2,3) i e by auto
qed

lemma storage_finish_laws:
  assumes "storage_inv s" "a < ps_fresh s" "\<not> ps_endGame s \<Longrightarrow> storage_held s a \<noteq> {}"
  shows "\<exists>s'. DefaultPieceStorage_completePiece s a = Some s' \<and> storage_inv s'
    \<and> (\<forall>b < ps_fresh s. b < ps_fresh s' \<and> pc_index (ps_pieces s' b) = pc_index (ps_pieces s b)) \<and> ps_endGame s' = ps_endGame s
    \<and> (\<not> ps_endGame s \<longrightarrow> (\<forall>b. b \<noteq> a \<longrightarrow> storage_held s' b = storage_held s b))"
proof -
  note ok = storage_invD [OF assms(1)]
  have "holds s a" by (rule holds_held [OF ok assms(2,3)])
  from complete_inv [OF assms(1) this] obtain s' where s': "DefaultPieceStorage_completePiece s a = Some s'" "storage_inv s'" by blast
  obtain t where t: "DefaultPieceStorage_completePiece s a = Some t" "ps_endGame t = ps_endGame s" "ps_fresh t = ps_fresh s"
    "\<forall>b. b \<noteq> a \<longrightarrow> ps_pieces t b = ps_pieces s b" "same_but_cache (ps_pieces s a) (ps_pieces t a)"
    "ps_used t = filter (\<lambda>b. pc_index (ps_pieces s b) \<noteq> pc_index (ps_pieces s a)) (ps_used s)"
    by (rule completePiece_ok [OF ok assms(2)]) blast
  have e: "t = s'" using s'(1) t(1) by simp
  have i: "pc_index (ps_pieces s' b) = pc_index (ps_pieces s b)" for b
    using t(4) same_but_cacheD(2) [OF t(5)] by (cases "b = a") (simp_all add: e)
  have "storage_held s' b = storage_held s b" if n: "\<not> ps_endGame s" and b: "b \<noteq> a" for b
  proof -
    have "a \<in> set (ps_used s)" using assms(3) [OF n] by (auto simp: storage_held_def split: if_splits)
    then have "b \<in> set (ps_used s') \<longleftrightarrow> b \<in> set (ps_used s)"
      using t(6) used_index_unique [OF ok, of b a] b e by auto
    then show ?thesis using t(4) b e by (simp add: storage_held_def)
  qed
  then show ?thesis using s' t(2,3) i e by auto
qed

interpretation pool: piece_pool storage_inv ps_endGame "\<lambda>s a. a < ps_fresh s" "\<lambda>s a. pc_index (ps_pieces s a)" storage_held storage_got
    DefaultPieceStorage_cancelPiece DefaultPieceStorage_completePiece
proof
  fix s s' :: piece_storage and c d :: int and a b :: nat
  show "storage_inv s \<Longrightarrow> storage_got s c s' a \<Longrightarrow> storage_inv s' \<and> a < ps_fresh s'
      \<and> (\<forall>b < ps_fresh s. b < ps_fresh s' \<and> pc_index (ps_pieces s' b) = pc_index (ps_pieces s b)) \<and> (ps_endGame s \<longrightarrow> ps_endGame s')"
    by (rule storage_got_laws(1))
  show "storage_inv s \<Longrightarrow> storage_got s c s' a \<Longrightarrow> \<not> ps_endGame s' \<Longrightarrow>
      storage_held s' a = {c} \<and> storage_held s a = {} \<and> (\<forall>b. b \<noteq> a \<longrightarrow> storage_held s' b = storage_held s b)"
    by (rule storage_got_laws(2))
  show "storage_inv s \<Longrightarrow> \<not> ps_endGame s \<Longrightarrow> c \<in> storage_held s a \<Longrightarrow> d \<in> storage_held s b \<Longrightarrow>
      pc_index (ps_pieces s a) = pc_index (ps_pieces s b) \<Longrightarrow> a = b \<and> c = d"
    using used_index_unique [of s a b]
    by (auto simp: storage_held_def storage_inv_def held_rel_def split: if_splits)
qed (rule storage_give_laws storage_finish_laws; assumption)+

end
