(* ===== verification/Speed_Stats.thy ===== *)
theory Speed_Stats
  imports Segments
begin

text \<open>
  Transfer speeds: \<open>SpeedCalc\<close> (a window of time slots), \<open>NetStat\<close> (both directions of a transfer),
  \<open>PeerStat\<close> (a connection's statistics) and \<open>TransferStat\<close>. A \<open>Timer\<close> is its time in nanoseconds,
  \<open>now\<close> the wall clock. Sizes go through \<open>size_t\<close> and \<open>int64_t\<close>, results are cut to \<open>int\<close>;
  products of a length and 1000 are taken without overflow (a window below \<open>2 ^ 53\<close> bytes).
\<close>

subsection \<open>Speed of one direction\<close>

definition second :: int where "second = 1000000000"
definition WINDOW_TIME :: int where "WINDOW_TIME = 10 * second"

definition Timer_difference :: "int \<Rightarrow> int \<Rightarrow> int" where
  "Timer_difference t timer = (if timer < t then 0 else timer - t)"

record speed_calc =
  sc_timeSlots :: "(int \<times> nat) list"
  sc_start :: int
  sc_accumulatedLength :: int
  sc_bytesWindow :: int
  sc_maxSpeed :: int

definition SpeedCalc_new :: "int \<Rightarrow> speed_calc" where
  "SpeedCalc_new now = \<lparr>sc_timeSlots = [], sc_start = now, sc_accumulatedLength = 0, sc_bytesWindow = 0, sc_maxSpeed = 0\<rparr>"

definition SpeedCalc_reset :: "int \<Rightarrow> speed_calc \<Rightarrow> speed_calc" where
  "SpeedCalc_reset now sc =
     sc\<lparr>sc_timeSlots := [], sc_start := now, sc_accumulatedLength := 0, sc_bytesWindow := 0, sc_maxSpeed := 0\<rparr>"

fun stale_loop :: "int \<Rightarrow> (int \<times> nat) list \<Rightarrow> int \<Rightarrow> (int \<times> nat) list \<times> int" where
  "stale_loop now [] window = ([], window)"
| "stale_loop now ((t, n) # slots) window =
     (if Timer_difference t now \<le> WINDOW_TIME then ((t, n) # slots, window)
      else stale_loop now slots (to_int64 (window - int n)))"

definition SpeedCalc_removeStaleTimeSlot :: "int \<Rightarrow> speed_calc \<Rightarrow> speed_calc" where
  "SpeedCalc_removeStaleTimeSlot now sc =
     (let (slots, window) = stale_loop now (sc_timeSlots sc) (sc_bytesWindow sc)
      in sc\<lparr>sc_timeSlots := slots, sc_bytesWindow := window\<rparr>)"

definition elapsed_ms :: "int \<Rightarrow> int \<Rightarrow> int" where
  "elapsed_ms t now = (let e = Timer_difference t now div 1000000 in if e \<le> 0 then 1 else e)"

definition SpeedCalc_calculateSpeed :: "int \<Rightarrow> speed_calc \<Rightarrow> speed_calc \<times> int" where
  "SpeedCalc_calculateSpeed now sc0 =
     (let sc = SpeedCalc_removeStaleTimeSlot now sc0 in
      if sc_timeSlots sc = [] then (sc, 0)
      else let speed = to_int32 ((sc_bytesWindow sc * 1000) sdiv elapsed_ms (fst (hd (sc_timeSlots sc))) now)
           in (sc\<lparr>sc_maxSpeed := max speed (sc_maxSpeed sc)\<rparr>, speed))"

text \<open>The slots of the last \<open>seconds\<close>, from the newest; the double product at the end is \<open>rate\<close>.\<close>

definition SpeedCalc_calculateNewestSpeed :: "(int \<Rightarrow> int \<Rightarrow> int) \<Rightarrow> int \<Rightarrow> int \<Rightarrow> speed_calc \<Rightarrow> speed_calc \<times> int" where
  "SpeedCalc_calculateNewestSpeed rate now seconds sc0 =
     (let sc = SpeedCalc_removeStaleTimeSlot now sc0;
          newest = takeWhile (\<lambda>(t, n). Timer_difference t now \<le> seconds * second) (rev (sc_timeSlots sc));
          bytesCount = to_int64 (sum_list (map (\<lambda>(t, n). int n) newest))
      in if newest = [] then (sc, 0) else (sc, rate bytesCount (elapsed_ms (fst (last newest)) now)))"

definition SpeedCalc_update :: "int \<Rightarrow> nat \<Rightarrow> speed_calc \<Rightarrow> speed_calc" where
  "SpeedCalc_update now bytes sc0 =
     (let sc = SpeedCalc_removeStaleTimeSlot now sc0;
          slots = sc_timeSlots sc
      in sc\<lparr>sc_timeSlots :=
              (if slots = [] \<or> Timer_difference (fst (last slots)) now div second \<ge> 1 then slots @ [(now, bytes)]
               else butlast slots @ [(fst (last slots), to_size (int (snd (last slots)) + int bytes))]),
            sc_bytesWindow := to_int64 (sc_bytesWindow sc + int bytes),
            sc_accumulatedLength := to_int64 (sc_accumulatedLength sc + int bytes)\<rparr>)"

definition SpeedCalc_calculateAvgSpeed :: "int \<Rightarrow> speed_calc \<Rightarrow> int" where
  "SpeedCalc_calculateAvgSpeed now sc =
     (let milliElapsed = Timer_difference (sc_start sc) now div 1000000
      in if milliElapsed > 4 then to_int32 ((sc_accumulatedLength sc * 1000) sdiv milliElapsed) else 0)"

subsection \<open>Both directions, and the statistics of a connection\<close>

datatype net_status = IDLE | ACTIVE

record net_stat =
  ns_downloadSpeed :: speed_calc
  ns_uploadSpeed :: speed_calc
  ns_downloadStartTime :: int
  ns_status :: net_status
  ns_avgDownloadSpeed :: int
  ns_avgUploadSpeed :: int
  ns_sessionDownloadLength :: int
  ns_sessionUploadLength :: int

definition NetStat_new :: "int \<Rightarrow> net_stat" where
  "NetStat_new now = \<lparr>ns_downloadSpeed = SpeedCalc_new now, ns_uploadSpeed = SpeedCalc_new now, ns_downloadStartTime = now,
     ns_status = IDLE, ns_avgDownloadSpeed = 0, ns_avgUploadSpeed = 0, ns_sessionDownloadLength = 0, ns_sessionUploadLength = 0\<rparr>"

definition NetStat_calculateDownloadSpeed :: "int \<Rightarrow> net_stat \<Rightarrow> net_stat \<times> int" where
  "NetStat_calculateDownloadSpeed now ns =
     (let (sc, v) = SpeedCalc_calculateSpeed now (ns_downloadSpeed ns) in (ns\<lparr>ns_downloadSpeed := sc\<rparr>, v))"

definition NetStat_calculateUploadSpeed :: "int \<Rightarrow> net_stat \<Rightarrow> net_stat \<times> int" where
  "NetStat_calculateUploadSpeed now ns =
     (let (sc, v) = SpeedCalc_calculateSpeed now (ns_uploadSpeed ns) in (ns\<lparr>ns_uploadSpeed := sc\<rparr>, v))"

definition NetStat_calculateNewestDownloadSpeed :: "(int \<Rightarrow> int \<Rightarrow> int) \<Rightarrow> int \<Rightarrow> int \<Rightarrow> net_stat \<Rightarrow> net_stat \<times> int" where
  "NetStat_calculateNewestDownloadSpeed rate now seconds ns =
     (let (sc, v) = SpeedCalc_calculateNewestSpeed rate now seconds (ns_downloadSpeed ns) in (ns\<lparr>ns_downloadSpeed := sc\<rparr>, v))"

definition NetStat_calculateNewestUploadSpeed :: "(int \<Rightarrow> int \<Rightarrow> int) \<Rightarrow> int \<Rightarrow> int \<Rightarrow> net_stat \<Rightarrow> net_stat \<times> int" where
  "NetStat_calculateNewestUploadSpeed rate now seconds ns =
     (let (sc, v) = SpeedCalc_calculateNewestSpeed rate now seconds (ns_uploadSpeed ns) in (ns\<lparr>ns_uploadSpeed := sc\<rparr>, v))"

definition NetStat_calculateAvgDownloadSpeed :: "int \<Rightarrow> net_stat \<Rightarrow> net_stat \<times> int" where
  "NetStat_calculateAvgDownloadSpeed now ns =
     (let v = SpeedCalc_calculateAvgSpeed now (ns_downloadSpeed ns) in (ns\<lparr>ns_avgDownloadSpeed := v\<rparr>, v))"

definition NetStat_calculateAvgUploadSpeed :: "int \<Rightarrow> net_stat \<Rightarrow> net_stat \<times> int" where
  "NetStat_calculateAvgUploadSpeed now ns =
     (let v = SpeedCalc_calculateAvgSpeed now (ns_uploadSpeed ns) in (ns\<lparr>ns_avgUploadSpeed := v\<rparr>, v))"

definition NetStat_updateDownload :: "int \<Rightarrow> nat \<Rightarrow> net_stat \<Rightarrow> net_stat" where
  "NetStat_updateDownload now bytes ns =
     ns\<lparr>ns_downloadSpeed := SpeedCalc_update now bytes (ns_downloadSpeed ns),
        ns_sessionDownloadLength := to_int64 (ns_sessionDownloadLength ns + int bytes)\<rparr>"

definition NetStat_updateUploadSpeed :: "int \<Rightarrow> nat \<Rightarrow> net_stat \<Rightarrow> net_stat" where
  "NetStat_updateUploadSpeed now bytes ns = ns\<lparr>ns_uploadSpeed := SpeedCalc_update now bytes (ns_uploadSpeed ns)\<rparr>"

definition NetStat_updateUploadLength :: "nat \<Rightarrow> net_stat \<Rightarrow> net_stat" where
  "NetStat_updateUploadLength bytes ns = ns\<lparr>ns_sessionUploadLength := to_int64 (ns_sessionUploadLength ns + int bytes)\<rparr>"

definition NetStat_updateUpload :: "int \<Rightarrow> nat \<Rightarrow> net_stat \<Rightarrow> net_stat" where
  "NetStat_updateUpload now bytes ns = NetStat_updateUploadLength bytes (NetStat_updateUploadSpeed now bytes ns)"

definition NetStat_reset :: "int \<Rightarrow> net_stat \<Rightarrow> net_stat" where
  "NetStat_reset now ns =
     ns\<lparr>ns_downloadSpeed := SpeedCalc_reset now (ns_downloadSpeed ns), ns_uploadSpeed := SpeedCalc_reset now (ns_uploadSpeed ns),
        ns_downloadStartTime := now, ns_status := IDLE, ns_sessionDownloadLength := 0, ns_sessionUploadLength := 0\<rparr>"

definition NetStat_downloadStart :: "int \<Rightarrow> net_stat \<Rightarrow> net_stat" where
  "NetStat_downloadStart now ns = (NetStat_reset now ns)\<lparr>ns_status := ACTIVE\<rparr>"

definition NetStat_downloadStop :: "int \<Rightarrow> net_stat \<Rightarrow> net_stat" where
  "NetStat_downloadStop now ns =
     (fst (NetStat_calculateAvgUploadSpeed now (fst (NetStat_calculateAvgDownloadSpeed now ns))))\<lparr>ns_status := IDLE\<rparr>"

definition NetStat_addSessionDownloadLength :: "nat \<Rightarrow> net_stat \<Rightarrow> net_stat" where
  "NetStat_addSessionDownloadLength len ns = ns\<lparr>ns_sessionDownloadLength := to_int64 (ns_sessionDownloadLength ns + int len)\<rparr>"

record transfer_stat =
  ts_downloadSpeed :: int
  ts_uploadSpeed :: int
  ts_sessionDownloadLength :: int
  ts_sessionUploadLength :: int
  ts_allTimeUploadLength :: int

definition NetStat_toTransferStat :: "int \<Rightarrow> net_stat \<Rightarrow> net_stat \<times> transfer_stat" where
  "NetStat_toTransferStat now ns =
     (let (ns1, d) = NetStat_calculateDownloadSpeed now ns;
          (ns2, u) = NetStat_calculateUploadSpeed now ns1
      in (ns2, \<lparr>ts_downloadSpeed = d, ts_uploadSpeed = u, ts_sessionDownloadLength = ns_sessionDownloadLength ns2,
                ts_sessionUploadLength = ns_sessionUploadLength ns2, ts_allTimeUploadLength = 0\<rparr>))"

definition TransferStat_plus :: "transfer_stat \<Rightarrow> transfer_stat \<Rightarrow> transfer_stat" where
  "TransferStat_plus a b =
     a\<lparr>ts_downloadSpeed := to_int32 (ts_downloadSpeed a + ts_downloadSpeed b),
       ts_uploadSpeed := to_int32 (ts_uploadSpeed a + ts_uploadSpeed b),
       ts_sessionDownloadLength := to_int64 (ts_sessionDownloadLength a + ts_sessionDownloadLength b),
       ts_sessionUploadLength := to_int64 (ts_sessionUploadLength a + ts_sessionUploadLength b)\<rparr>"

definition TransferStat_minus :: "transfer_stat \<Rightarrow> transfer_stat \<Rightarrow> transfer_stat" where
  "TransferStat_minus a b =
     a\<lparr>ts_downloadSpeed := max 0 (to_int32 (ts_downloadSpeed a - ts_downloadSpeed b)),
       ts_uploadSpeed := max 0 (to_int32 (ts_uploadSpeed a - ts_uploadSpeed b)),
       ts_sessionDownloadLength := max 0 (to_int64 (ts_sessionDownloadLength a - ts_sessionDownloadLength b)),
       ts_sessionUploadLength := max 0 (to_int64 (ts_sessionUploadLength a - ts_sessionUploadLength b))\<rparr>"

record peer_stat =
  pst_cuid :: int
  pst_hostname :: string
  pst_protocol :: string
  pst_netStat :: net_stat

definition PeerStat_new :: "int \<Rightarrow> int \<Rightarrow> string \<Rightarrow> string \<Rightarrow> peer_stat" where
  "PeerStat_new now cuid hostname protocol =
     \<lparr>pst_cuid = cuid, pst_hostname = hostname, pst_protocol = protocol, pst_netStat = NetStat_new now\<rparr>"

definition PeerStat_updateDownload :: "int \<Rightarrow> nat \<Rightarrow> peer_stat \<Rightarrow> peer_stat" where
  "PeerStat_updateDownload now bytes p = p\<lparr>pst_netStat := NetStat_updateDownload now bytes (pst_netStat p)\<rparr>"

definition PeerStat_updateUpload :: "int \<Rightarrow> nat \<Rightarrow> peer_stat \<Rightarrow> peer_stat" where
  "PeerStat_updateUpload now bytes p = p\<lparr>pst_netStat := NetStat_updateUpload now bytes (pst_netStat p)\<rparr>"

definition PeerStat_getAvgDownloadSpeed :: "peer_stat \<Rightarrow> int" where
  "PeerStat_getAvgDownloadSpeed p = ns_avgDownloadSpeed (pst_netStat p)"

definition PeerStat_getSessionDownloadLength :: "peer_stat \<Rightarrow> nat" where
  "PeerStat_getSessionDownloadLength p = to_size (ns_sessionDownloadLength (pst_netStat p))"

definition PeerStat_addSessionDownloadLength :: "nat \<Rightarrow> peer_stat \<Rightarrow> peer_stat" where
  "PeerStat_addSessionDownloadLength len p = p\<lparr>pst_netStat := NetStat_addSessionDownloadLength len (pst_netStat p)\<rparr>"

definition PeerStat_getStatus :: "peer_stat \<Rightarrow> net_status" where
  "PeerStat_getStatus p = ns_status (pst_netStat p)"

definition PeerStat_downloadStart :: "int \<Rightarrow> peer_stat \<Rightarrow> peer_stat" where
  "PeerStat_downloadStart now p = p\<lparr>pst_netStat := NetStat_downloadStart now (pst_netStat p)\<rparr>"

definition PeerStat_downloadStop :: "int \<Rightarrow> peer_stat \<Rightarrow> peer_stat" where
  "PeerStat_downloadStop now p = p\<lparr>pst_netStat := NetStat_downloadStop now (pst_netStat p)\<rparr>"

definition PeerStat_reset :: "int \<Rightarrow> peer_stat \<Rightarrow> peer_stat" where
  "PeerStat_reset now p = p\<lparr>pst_netStat := NetStat_reset now (pst_netStat p)\<rparr>"

definition PeerStat_calculateDownloadSpeed :: "int \<Rightarrow> peer_stat \<Rightarrow> peer_stat \<times> int" where
  "PeerStat_calculateDownloadSpeed now p =
     (let (ns, v) = NetStat_calculateDownloadSpeed now (pst_netStat p) in (p\<lparr>pst_netStat := ns\<rparr>, v))"

definition PeerStat_calculateAvgDownloadSpeed :: "int \<Rightarrow> peer_stat \<Rightarrow> peer_stat \<times> int" where
  "PeerStat_calculateAvgDownloadSpeed now p =
     (let (ns, v) = NetStat_calculateAvgDownloadSpeed now (pst_netStat p) in (p\<lparr>pst_netStat := ns\<rparr>, v))"

definition PeerStat_calculateUploadSpeed :: "int \<Rightarrow> peer_stat \<Rightarrow> peer_stat \<times> int" where
  "PeerStat_calculateUploadSpeed now p =
     (let (ns, v) = NetStat_calculateUploadSpeed now (pst_netStat p) in (p\<lparr>pst_netStat := ns\<rparr>, v))"

definition PeerStat_calculateAvgUploadSpeed :: "int \<Rightarrow> peer_stat \<Rightarrow> peer_stat \<times> int" where
  "PeerStat_calculateAvgUploadSpeed now p =
     (let (ns, v) = NetStat_calculateAvgUploadSpeed now (pst_netStat p) in (p\<lparr>pst_netStat := ns\<rparr>, v))"

definition PeerStat_toTransferStat :: "int \<Rightarrow> peer_stat \<Rightarrow> peer_stat \<times> transfer_stat" where
  "PeerStat_toTransferStat now p =
     (let (ns, t) = NetStat_toTransferStat now (pst_netStat p) in (p\<lparr>pst_netStat := ns\<rparr>, t))"

subsection \<open>The window of the last ten seconds\<close>

text \<open>
  What a \<open>SpeedCalc\<close> is told, with the times. \<open>speed_rel now h sc\<close>: the slots group a tail of the
  updates \<open>h\<close>, each the updates of less than a second from its time on; the others are more than
  nine seconds old.
\<close>

datatype speed_event = SpeedUpdate int nat | SpeedMeasure int

fun event_time :: "speed_event \<Rightarrow> int" where
  "event_time (SpeedUpdate t n) = t"
| "event_time (SpeedMeasure t) = t"

fun speed_apply :: "speed_event \<Rightarrow> speed_calc \<Rightarrow> speed_calc" where
  "speed_apply (SpeedUpdate t n) sc = SpeedCalc_update t n sc"
| "speed_apply (SpeedMeasure t) sc = fst (SpeedCalc_calculateSpeed t sc)"

fun speed_updates :: "speed_event list \<Rightarrow> (int \<times> nat) list" where
  "speed_updates [] = []"
| "speed_updates (SpeedUpdate t n # es) = (t, n) # speed_updates es"
| "speed_updates (SpeedMeasure t # es) = speed_updates es"

abbreviation bytes_of :: "(int \<times> nat) list \<Rightarrow> nat" where
  "bytes_of h \<equiv> sum_list (map snd h)"

fun slot_group :: "int \<times> nat \<Rightarrow> (int \<times> nat) list \<Rightarrow> bool" where
  "slot_group (s, n) g \<longleftrightarrow> n = bytes_of g \<and> (\<forall>(t, b)\<in>set g. s \<le> t \<and> t < s + second)"

definition speed_rel :: "int \<Rightarrow> (int \<times> nat) list \<Rightarrow> (int \<times> nat) list \<Rightarrow> int \<Rightarrow> bool" where
  "speed_rel now h slots window \<longleftrightarrow>
     (\<exists>old gs. h = old @ concat gs \<and> list_all2 slot_group slots gs \<and> (\<forall>(t, b)\<in>set old. 9 * second < now - t))
     \<and> window = int (bytes_of slots) \<and> sorted (map fst slots) \<and> (\<forall>s\<in>set slots. fst s \<le> now)"

lemma second_pos: "0 < second" by (simp add: second_def)

lemma slots_bytes: "list_all2 slot_group slots gs \<Longrightarrow> bytes_of slots = bytes_of (concat gs)"
  by (induction rule: list_all2_induct) auto

lemma speed_rel_later: "speed_rel now h slots w \<Longrightarrow> now \<le> now' \<Longrightarrow> speed_rel now' h slots w"
  unfolding speed_rel_def by (fastforce)

lemma stale_loop_rel:
  assumes "speed_rel now h slots w" "bytes_of h < 2 ^ 63"
  shows "\<exists>slots' w'. stale_loop now slots w = (slots', w') \<and> speed_rel now h slots' w' \<and> (\<forall>s\<in>set slots'. now - fst s \<le> WINDOW_TIME)"
  using assms(1)
proof (induction slots arbitrary: w)
  case (Cons s slots)
  obtain t n where s: "s = (t, n)" by (cases s)
  obtain old gs where h: "h = old @ concat gs" "list_all2 slot_group (s # slots) gs" "\<forall>(t, b)\<in>set old. 9 * second < now - t"
    and r: "w = int (bytes_of (s # slots))" "sorted (map fst (s # slots))" "\<forall>x\<in>set (s # slots). fst x \<le> now"
    using Cons.prems by (auto simp: speed_rel_def)
  have d: "Timer_difference t now = now - t" using r(3) by (simp add: Timer_difference_def s)
  show ?case
  proof (cases "now - t \<le> WINDOW_TIME")
    case True
    then have "\<forall>x\<in>set (s # slots). now - fst x \<le> WINDOW_TIME" using r(2) s by fastforce
    then show ?thesis using True Cons.prems by (simp add: s d)
  next
    case False
    obtain g gs' where g: "gs = g # gs'" "slot_group s g" "list_all2 slot_group slots gs'" using h(2) by (cases gs) auto
    have "bytes_of slots \<le> bytes_of h" using slots_bytes [OF g(3)] h(1) g(1) by simp
    then have w: "to_int64 (w - int n) = int (bytes_of slots)" using r(1) assms(2) by (simp add: s)
    have "\<forall>(t', b)\<in>set g. 9 * second < now - t'"
      using g(2) False by (auto simp: s WINDOW_TIME_def second_def)
    then have "speed_rel now h slots (int (bytes_of slots))"
      unfolding speed_rel_def using h g r by (intro conjI exI [of _ "old @ g"] exI [of _ gs']) auto
    from Cons.IH [OF this] False show ?thesis by (simp add: s d w)
  qed
qed simp

lemma speed_update_rel:
  assumes "speed_rel now h (sc_timeSlots sc) (sc_bytesWindow sc)" "now \<le> t" "bytes_of (h @ [(t, n)]) < 2 ^ 63"
  shows "speed_rel t (h @ [(t, n)]) (sc_timeSlots (SpeedCalc_update t n sc)) (sc_bytesWindow (SpeedCalc_update t n sc))"
proof -
  have b: "bytes_of h < 2 ^ 63" using assms(3) by simp
  obtain slots w where st: "stale_loop t (sc_timeSlots sc) (sc_bytesWindow sc) = (slots, w)" "speed_rel t h slots w"
    using stale_loop_rel [OF speed_rel_later [OF assms(1,2)] b] by blast
  obtain old gs where h: "h = old @ concat gs" "list_all2 slot_group slots gs" "\<forall>(t', b)\<in>set old. 9 * second < t - t'"
    and r: "w = int (bytes_of slots)" "sorted (map fst slots)" "\<forall>x\<in>set slots. fst x \<le> t"
    using st(2) by (auto simp: speed_rel_def)
  have bs: "bytes_of slots \<le> bytes_of h" using slots_bytes [OF h(2)] h(1) by simp
  then have w': "to_int64 (w + int n) = int (bytes_of slots + n)" using r(1) assms(3) by simp
  have e: "sc_timeSlots (SpeedCalc_update t n sc) =
      (if slots = [] \<or> Timer_difference (fst (last slots)) t div second \<ge> 1 then slots @ [(t, n)]
       else butlast slots @ [(fst (last slots), to_size (int (snd (last slots)) + int n))])"
    "sc_bytesWindow (SpeedCalc_update t n sc) = int (bytes_of slots + n)"
    using w' st(1) by (simp_all add: SpeedCalc_update_def SpeedCalc_removeStaleTimeSlot_def Let_def)
  show ?thesis
  proof (cases "slots = [] \<or> Timer_difference (fst (last slots)) t div second \<ge> 1")
    case True
    have new: "slot_group (t, n) [(t, n)]" by (simp add: second_pos)
    have "list_all2 slot_group (slots @ [(t, n)]) (gs @ [[(t, n)]])" using h(2) new by (simp add: list_all2_appendI)
    then have "speed_rel t (h @ [(t, n)]) (slots @ [(t, n)]) (int (bytes_of slots + n))"
      unfolding speed_rel_def using h(1,3) r
      by (intro conjI exI [of _ old] exI [of _ "gs @ [[(t, n)]]"]) (auto simp: sorted_append)
    then show ?thesis using e True by simp
  next
    case False
    then obtain l where l: "slots = butlast slots @ [l]" "l = last slots" by (metis append_butlast_last_id)
    obtain s k where lk: "l = (s, k)" by (cases l)
    have "list_all2 slot_group (butlast slots @ [l]) gs" using h(2) l(1) by simp
    then obtain gs' g where g: "gs = gs' @ [g]" "list_all2 slot_group (butlast slots) gs'" "slot_group l g"
      by (auto simp: list_all2_append1 list_all2_Cons1)
    have "fst l \<le> t" using r(3) l by (metis in_set_conv_decomp)
    then have st: "s \<le> t" by (simp add: lk)
    have "fst (last slots) = s" using l(2) lk by (metis fst_conv)
    then have "\<not> 0 < (t - s) div second" using False st by (simp add: Timer_difference_def)
    then have s: "s \<le> t" "t < s + second" using st pos_imp_zdiv_pos_iff [OF second_pos, of "t - s"] by simp_all
    have k: "to_size (int k + int n) = k + n"
    proof -
      have "bytes_of slots = bytes_of (butlast slots) + k" by (subst l(1)) (simp add: lk)
      then have "k + n < 2 ^ 63" using bs assms(3) by simp
      then have "int k + int n < 2 ^ 64" by simp
      then show ?thesis by simp
    qed
    have "slot_group (s, k + n) (g @ [(t, n)])" using g(3) s by (auto simp: lk)
    then have "list_all2 slot_group (butlast slots @ [(s, k + n)]) (gs' @ [g @ [(t, n)]])" using g(2) by (simp add: list_all2_appendI)
    moreover have "bytes_of slots = bytes_of (butlast slots) + k" by (subst l(1)) (simp add: lk)
    moreover have "sorted (map fst (butlast slots @ [l]))" "\<forall>x\<in>set (butlast slots @ [l]). fst x \<le> t" using r(2,3) l(1) by simp_all
    ultimately have "speed_rel t (h @ [(t, n)]) (butlast slots @ [(s, k + n)]) (int (bytes_of slots + n))"
      unfolding speed_rel_def using h(1,3) g(1) lk
      by (intro conjI exI [of _ old] exI [of _ "gs' @ [g @ [(t, n)]]"]) (auto simp: sorted_append)
    moreover have "last slots = (s, k)" using l(2) lk by simp
    ultimately show ?thesis using e False k by simp
  qed
qed

lemma remove_stale_rel:
  assumes "speed_rel now h (sc_timeSlots sc) (sc_bytesWindow sc)" "now \<le> t" "bytes_of h < 2 ^ 63"
  shows "speed_rel t h (sc_timeSlots (SpeedCalc_removeStaleTimeSlot t sc)) (sc_bytesWindow (SpeedCalc_removeStaleTimeSlot t sc))"
    and "\<forall>s\<in>set (sc_timeSlots (SpeedCalc_removeStaleTimeSlot t sc)). t - fst s \<le> WINDOW_TIME"
  using stale_loop_rel [OF speed_rel_later [OF assms(1,2)] assms(3)]
  by (auto simp: SpeedCalc_removeStaleTimeSlot_def)

lemma speed_run_rel:
  assumes "sorted (map event_time es)" "\<forall>e\<in>set es. t0 \<le> event_time e" "bytes_of (h @ speed_updates es) < 2 ^ 63"
    and "speed_rel t0 h (sc_timeSlots sc) (sc_bytesWindow sc)" "\<forall>e\<in>set es. event_time e \<le> t1" "t0 \<le> t1"
  shows "speed_rel t1 (h @ speed_updates es) (sc_timeSlots (fold speed_apply es sc)) (sc_bytesWindow (fold speed_apply es sc))"
  using assms
proof (induction es arbitrary: t0 h sc)
  case Nil
  then show ?case using speed_rel_later by simp
next
  case (Cons e es)
  have o: "sorted (map event_time es)" "\<forall>x\<in>set es. event_time e \<le> event_time x" "\<forall>x\<in>set es. event_time x \<le> t1" "event_time e \<le> t1" "t0 \<le> event_time e"
    using Cons.prems(1,2,5) by auto
  show ?case
  proof (cases e)
    case (SpeedUpdate t n)
    have b: "bytes_of (h @ [(t, n)]) < 2 ^ 63" "bytes_of ((h @ [(t, n)]) @ speed_updates es) < 2 ^ 63"
      using Cons.prems(3) SpeedUpdate by simp_all
    have r: "speed_rel (event_time e) (h @ [(t, n)]) (sc_timeSlots (SpeedCalc_update t n sc)) (sc_bytesWindow (SpeedCalc_update t n sc))"
      using speed_update_rel [OF Cons.prems(4) _ b(1)] o(5) SpeedUpdate by simp
    from Cons.IH [OF o(1,2) b(2) r o(3,4)] SpeedUpdate show ?thesis by simp
  next
    case (SpeedMeasure t)
    have b: "bytes_of (h @ speed_updates es) < 2 ^ 63" using Cons.prems(3) SpeedMeasure by simp
    have "speed_rel t h (sc_timeSlots (SpeedCalc_removeStaleTimeSlot t sc)) (sc_bytesWindow (SpeedCalc_removeStaleTimeSlot t sc))"
      using remove_stale_rel(1) [OF Cons.prems(4)] o(5) SpeedMeasure b by simp
    then have "speed_rel (event_time e) h (sc_timeSlots (speed_apply e sc)) (sc_bytesWindow (speed_apply e sc))"
      by (auto simp: SpeedMeasure SpeedCalc_calculateSpeed_def Let_def)
    from Cons.IH [OF o(1,2) b this o(3,4)] SpeedMeasure show ?thesis by simp
  qed
qed

lemma bytes_filter_le: "(\<And>x. x \<in> set h \<Longrightarrow> P x \<Longrightarrow> Q x) \<Longrightarrow> bytes_of (filter P h) \<le> bytes_of (filter Q h)"
  by (induction h) (auto intro: trans_le_add2)

lemma speed_rel_bounds:
  assumes "speed_rel now h slots w" "\<forall>s\<in>set slots. now - fst s \<le> WINDOW_TIME"
  shows "int (bytes_of (filter (\<lambda>(t, n). now - t \<le> 9 * second) h)) \<le> w"
    and "w \<le> int (bytes_of (filter (\<lambda>(t, n). now - t \<le> WINDOW_TIME) h))"
proof -
  obtain old gs where h: "h = old @ concat gs" "list_all2 slot_group slots gs" "\<forall>(t', b)\<in>set old. 9 * second < now - t'"
    and w: "w = int (bytes_of (concat gs))"
    using assms(1) slots_bytes by (auto simp: speed_rel_def)
  have "filter (\<lambda>(t, n). now - t \<le> 9 * second) old = []" using h(3) by (auto simp: filter_empty_conv)
  moreover have "bytes_of (filter (\<lambda>(t, n). now - t \<le> 9 * second) (concat gs)) \<le> bytes_of (filter (\<lambda>_. True) (concat gs))"
    by (rule bytes_filter_le) simp
  ultimately show "int (bytes_of (filter (\<lambda>(t, n). now - t \<le> 9 * second) h)) \<le> w" using h(1) w by simp
  have "now - t \<le> WINDOW_TIME" if "(t, n) \<in> set (concat gs)" for t n
  proof -
    obtain g where g: "g \<in> set gs" "(t, n) \<in> set g" using \<open>(t, n) \<in> set (concat gs)\<close> by auto
    then obtain s where s: "s \<in> set slots" "slot_group s g" using h(2) by (metis in_set_conv_nth list_all2_conv_all_nth)
    obtain a k where "s = (a, k)" by (rule prod.exhaust)
    then have "fst s \<le> t" using s(2) g(2) by auto
    then show ?thesis using assms(2) s(1) by force
  qed
  then have "filter (\<lambda>(t, n). now - t \<le> WINDOW_TIME) (concat gs) = concat gs" by (auto simp: filter_id_conv)
  then show "w \<le> int (bytes_of (filter (\<lambda>(t, n). now - t \<le> WINDOW_TIME) h))" using h(1) w by simp
qed

lemma accumulated_total:
  "0 \<le> sc_accumulatedLength sc \<Longrightarrow> sc_accumulatedLength sc + int (bytes_of (speed_updates es)) < 2 ^ 63 \<Longrightarrow>
   sc_accumulatedLength (fold speed_apply es sc) = sc_accumulatedLength sc + int (bytes_of (speed_updates es))"
proof (induction es arbitrary: sc)
  case (Cons e es)
  show ?case
  proof (cases e)
    case (SpeedUpdate t n)
    then have a: "sc_accumulatedLength (speed_apply e sc) = sc_accumulatedLength sc + int n"
      using Cons.prems by (simp add: SpeedCalc_update_def SpeedCalc_removeStaleTimeSlot_def Let_def split_def)
    show ?thesis using Cons.IH [of "speed_apply e sc"] Cons.prems SpeedUpdate a by simp
  next
    case (SpeedMeasure t)
    then have "sc_accumulatedLength (speed_apply e sc) = sc_accumulatedLength sc"
      by (simp add: SpeedCalc_calculateSpeed_def SpeedCalc_removeStaleTimeSlot_def Let_def split_def)
    then show ?thesis using Cons.IH [of "speed_apply e sc"] Cons.prems SpeedMeasure by simp
  qed
qed simp

text \<open>The window of the speed is that of the last ten seconds: whatever updates and measurements came before,
  the window a measurement divides by the elapsed time holds every update of the last nine seconds
  and no update older than ten, and the length behind the average speed is the total since the reset.\<close>
theorem speed_window:
  assumes "sorted (map event_time (es @ [SpeedMeasure now]))" "list_all (\<lambda>e. t0 \<le> event_time e) (es @ [SpeedMeasure now])"
    and "bytes_of (speed_updates es) < 2 ^ 63"
  shows "(let sc = fold speed_apply es (SpeedCalc_reset t0 sc0); w = sc_bytesWindow (fst (SpeedCalc_calculateSpeed now sc)) in
    int (bytes_of (filter (\<lambda>(t, n). now - t \<le> 9 * second) (speed_updates es))) \<le> w
    \<and> w \<le> int (bytes_of (filter (\<lambda>(t, n). now - t \<le> WINDOW_TIME) (speed_updates es)))
    \<and> sc_accumulatedLength sc = int (bytes_of (speed_updates es)))"
proof -
  let ?r = "SpeedCalc_reset t0 sc0" and ?sc = "fold speed_apply es (SpeedCalc_reset t0 sc0)"
  have o: "sorted (map event_time es)" "\<forall>e\<in>set es. t0 \<le> event_time e" "\<forall>e\<in>set es. event_time e \<le> now" "t0 \<le> now"
    using assms(1,2) by (auto simp: sorted_append list_all_iff)
  have "speed_rel t0 [] (sc_timeSlots ?r) (sc_bytesWindow ?r)" by (simp add: SpeedCalc_reset_def speed_rel_def)
  from speed_run_rel [OF o(1,2) _ this o(3,4)] assms(3)
  have run: "speed_rel now (speed_updates es) (sc_timeSlots ?sc) (sc_bytesWindow ?sc)" by simp
  note m = remove_stale_rel [OF run order_refl assms(3)]
  have "sc_bytesWindow (fst (SpeedCalc_calculateSpeed now ?sc)) = sc_bytesWindow (SpeedCalc_removeStaleTimeSlot now ?sc)"
    by (simp add: SpeedCalc_calculateSpeed_def Let_def)
  moreover have "sc_accumulatedLength ?sc = int (bytes_of (speed_updates es))"
    using accumulated_total [of ?r es] assms(3) by (simp add: SpeedCalc_reset_def)
  ultimately show ?thesis using speed_rel_bounds [OF m] by (simp add: Let_def)
qed

theorem speed_window_witness:
  "sc_bytesWindow (fst (SpeedCalc_calculateSpeed (12 * second) (fold speed_apply
     [SpeedUpdate 0 100, SpeedUpdate second 20, SpeedUpdate (4 * second) 3] (SpeedCalc_reset 0 (SpeedCalc_new 0))))) = 3"
  using speed_window [of "[SpeedUpdate 0 100, SpeedUpdate second 20, SpeedUpdate (4 * second) 3]" "12 * second" 0 "SpeedCalc_new 0"]
  by (simp add: Let_def second_def WINDOW_TIME_def)

end
