(* ===== verification/Segment_Man.thy ===== *)
theory Segment_Man
  imports Storage_Runs Speed_Stats Block_Tracker
begin

text \<open>
  \<open>SegmentMan\<close>: hands segments to connections, takes them back, and counts for each piece how many
  connections download it (the urgency that the piece selectors use). It sits on the piece
  storage, the block tracker and the connections' statistics. \<open>Segment\<close> and \<open>PeerStat\<close> objects live
  at addresses, because connections keep pointers to them. An operation returns \<open>Inl\<close> for an
  exception, with the state it was thrown in. The storage pointer is not null; a null one only
  makes the queries return 0 or false.
\<close>

subsection \<open>State\<close>

record segment_man =
  sm_storage :: piece_storage
  sm_segments :: "nat \<Rightarrow> segment"
  sm_next :: nat
  sm_entries :: "(int \<times> nat) list"
  sm_memo :: "nat \<rightharpoonup> int"
  sm_stats :: "nat \<Rightarrow> peer_stat"
  sm_peerStats :: "nat list"
  sm_fastestPeerStats :: "nat list"
  sm_ignoreBitfield :: bitfield_man
  sm_urgency_heap :: "(u16 \<times> nat) list"
  sm_urgency_map :: "nat \<rightharpoonup> u16"
  sm_tracker :: tracker

type_synonym 'a sm_result = "(segment_man \<times> (download_error + 'a)) option"

definition SegmentMan_new :: "download_context \<Rightarrow> piece_storage \<Rightarrow> (nat \<Rightarrow> peer_stat) \<Rightarrow> segment_man" where
  "SegmentMan_new dc s stats =
     \<lparr>sm_storage = s, sm_segments = (\<lambda>_. GrowSegment_new 0), sm_next = 0, sm_entries = [], sm_memo = Map.empty,
      sm_stats = stats, sm_peerStats = [], sm_fastestPeerStats = [],
      sm_ignoreBitfield = BitfieldMan_enableFilter (BitfieldMan_new (dc_pieceLength dc) (DownloadContext_getTotalLength dc)),
      sm_urgency_heap = [], sm_urgency_map = Map.empty, sm_tracker = Map.empty\<rparr>"

definition segment_piece :: "segment_man \<Rightarrow> nat \<Rightarrow> piece" where
  "segment_piece m sa = ps_pieces (sm_storage m) (sg_piece (sm_segments m sa))"

definition segment_index :: "segment_man \<Rightarrow> nat \<Rightarrow> nat" where
  "segment_index m sa = Segment_getIndex (sm_segments m sa) (segment_piece m sa)"

definition segment_length :: "segment_man \<Rightarrow> nat \<Rightarrow> int" where
  "segment_length m sa = Segment_getLength (sm_segments m sa) (segment_piece m sa)"

subsection \<open>Urgency\<close>

text \<open>\<open>urgency_heap_\<close> is a set ordered by descending count, then descending index.\<close>

fun heap_insert :: "u16 \<times> nat \<Rightarrow> (u16 \<times> nat) list \<Rightarrow> (u16 \<times> nat) list" where
  "heap_insert x [] = [x]"
| "heap_insert x (y # ys) =
     (if x = y then y # ys
      else if fst y < fst x \<or> (fst x = fst y \<and> snd y < snd x) then x # y # ys else y # heap_insert x ys)"

definition heap_erase :: "u16 \<times> nat \<Rightarrow> (u16 \<times> nat) list \<Rightarrow> (u16 \<times> nat) list" where
  "heap_erase x h = filter (\<lambda>y. y \<noteq> x) h"

definition SegmentMan_update_heap :: "segment_man \<Rightarrow> nat \<Rightarrow> u16 \<Rightarrow> segment_man" where
  "SegmentMan_update_heap m index new_count =
     (let heap = (case sm_urgency_map m index of
                    Some old \<Rightarrow> heap_erase (old, index) (sm_urgency_heap m)
                  | None \<Rightarrow> sm_urgency_heap m)
      in if new_count > 0
         then m\<lparr>sm_urgency_heap := heap_insert (new_count, index) heap,
                sm_urgency_map := (sm_urgency_map m)(index \<mapsto> new_count)\<rparr>
         else m\<lparr>sm_urgency_heap := heap_erase (new_count + 1, index) heap,
                sm_urgency_map := (sm_urgency_map m)(index := None)\<rparr>)"

text \<open>\<open>++urgency_map_[pidx]\<close> and the guarded \<open>--it->second\<close>, each followed by \<open>update_heap\<close>.\<close>

definition urgency_increment :: "segment_man \<Rightarrow> nat \<Rightarrow> segment_man" where
  "urgency_increment m pidx =
     (let newCount = (case sm_urgency_map m pidx of Some c \<Rightarrow> c | None \<Rightarrow> 0) + 1
      in SegmentMan_update_heap (m\<lparr>sm_urgency_map := (sm_urgency_map m)(pidx \<mapsto> newCount)\<rparr>) pidx newCount)"

definition urgency_decrement :: "segment_man \<Rightarrow> nat \<Rightarrow> segment_man" where
  "urgency_decrement m pidx =
     (case sm_urgency_map m pidx of
        None \<Rightarrow> m
      | Some c \<Rightarrow> if c > 0
                  then SegmentMan_update_heap (m\<lparr>sm_urgency_map := (sm_urgency_map m)(pidx \<mapsto> c - 1)\<rparr>) pidx (c - 1)
                  else m)"

definition SegmentMan_getUrgentPieceCandidates :: "segment_man \<Rightarrow> u16 \<Rightarrow> nat list" where
  "SegmentMan_getUrgentPieceCandidates m max_segs =
     take 5 (map snd (filter (\<lambda>e. fst e < max_segs) (sm_urgency_heap m)))"

definition SegmentMan_getPieceRequestedCount :: "segment_man \<Rightarrow> nat \<Rightarrow> u16" where
  "SegmentMan_getPieceRequestedCount m index = (case sm_urgency_map m index of Some c \<Rightarrow> c | None \<Rightarrow> 0)"

text \<open>What the storage sees of the program when this manager calls it: the counts are the manager's own.\<close>

definition with_counts :: "download_context \<Rightarrow> segment_man \<Rightarrow> download_context" where
  "with_counts dc m = dc\<lparr>dc_group := map_option (\<lambda>g. g\<lparr>rg_segments := Some (SegmentMan_getPieceRequestedCount m)\<rparr>) (dc_group dc)\<rparr>"

subsection \<open>Flushing a piece's cache\<close>

definition put_storage :: "segment_man \<Rightarrow> piece_storage \<Rightarrow> segment_man" where
  "put_storage m s = m\<lparr>sm_storage := s\<rparr>"

definition flushWrDiskCache :: "(cell list \<Rightarrow> bool) \<Rightarrow> piece_storage \<Rightarrow> nat \<Rightarrow> (piece_storage \<times> download_error option) option" where
  "flushWrDiskCache io s a =
     (case (ps_cache s, pc_wrCache (ps_pieces s a)) of
        (Some c, Some i) \<Rightarrow>
          do { c1 \<leftarrow> Piece_flushWrCache io c i;
               if we_error (wc_ent c1 i)
               then do { (p, cache) \<leftarrow> Piece_clearAllBlock_cache io (Some c1) (ps_pieces s a);
                         Some ((put_piece s a p)\<lparr>ps_cache := cache\<rparr>, Some (CacheFlushFailure (pc_index p))) }
               else Some (s\<lparr>ps_cache := Some c1\<rparr>, None) }
      | _ \<Rightarrow> None)"

text \<open>Both callers flush only a piece that has an entry.\<close>

definition flush_if_cached :: "(cell list \<Rightarrow> bool) \<Rightarrow> piece_storage \<Rightarrow> nat \<Rightarrow> (piece_storage \<times> download_error option) option" where
  "flush_if_cached io s a = (if pc_wrCache (ps_pieces s a) = None then Some (s, None) else flushWrDiskCache io s a)"

definition set_used_by_segment :: "piece_storage \<Rightarrow> nat \<Rightarrow> bool \<Rightarrow> piece_storage" where
  "set_used_by_segment s a f = put_piece s a ((ps_pieces s a)\<lparr>pc_usedBySegment := f\<rparr>)"

subsection \<open>Checking out\<close>

text \<open>A segment whose connection gave it back close to a block's end goes on from there.\<close>

definition restore_written :: "segment_man \<Rightarrow> nat \<Rightarrow> segment_man option" where
  "restore_written m sa =
     (let seg = sm_segments m sa; a = sg_piece seg; p = segment_piece m sa in
      if pc_length p > 0 then
        (case sm_memo m (segment_index m sa) of
           None \<Rightarrow> Some m
         | Some writtenLength \<Rightarrow>
             do { bl \<leftarrow> Piece_blockLength p;
                  if sg_written seg < writtenLength \<and> writtenLength - sg_written seg < bl
                  then do { (seg', p') \<leftarrow> Segment_updateWrittenLength seg p (writtenLength - sg_written seg);
                            Some (m\<lparr>sm_segments := (sm_segments m)(sa := seg'), sm_storage := put_piece (sm_storage m) a p'\<rparr>) }
                  else Some m })
      else Some m)"

definition SegmentMan_checkoutSegment :: "download_context \<Rightarrow> (cell list \<Rightarrow> bool) \<Rightarrow> segment_man \<Rightarrow> int \<Rightarrow> nat option \<Rightarrow> nat option sm_result" where
  "SegmentMan_checkoutSegment dc io m cuid piece =
     (case piece of
        None \<Rightarrow> Some (m, Inr None)
      | Some a \<Rightarrow>
          do { (s1, err) \<leftarrow> flush_if_cached io (sm_storage m) a;
               (case err of
                  Some e \<Rightarrow> Some (put_storage m s1, Inl e)
                | None \<Rightarrow>
                    let s2 = set_used_by_segment s1 a True; p = ps_pieces s2 a; sa = sm_next m in
                    do { seg \<leftarrow> (if pc_length p = 0 then Some (GrowSegment_new a) else PiecedSegment_new (dc_pieceLength dc) a p);
                         blocks \<leftarrow> Piece_countBlock p;
                         let m1 = m\<lparr>sm_storage := s2, sm_segments := (sm_segments m)(sa := seg), sm_next := sa + 1,
                                    sm_entries := sm_entries m @ [(cuid, sa)],
                                    sm_tracker := Tracker_add_piece (sm_tracker m) (pc_index p) blocks\<rparr>;
                         let m2 = (if segment_length m1 sa > 0 then urgency_increment m1 (segment_index m1 sa) else m1);
                         m3 \<leftarrow> restore_written m2 sa;
                         Some (m3, Inr (Some sa)) }) })"

definition SegmentMan_getInFlightSegment :: "segment_man \<Rightarrow> int \<Rightarrow> nat list" where
  "SegmentMan_getInFlightSegment m cuid = map snd (filter (\<lambda>e. fst e = cuid) (sm_entries m))"

text \<open>\<open>ignore\<close> is a bitfield's filter; without a filter buffer the pointer is null.\<close>

definition request_segment :: "nat \<Rightarrow> (nat list \<Rightarrow> nat list) \<Rightarrow> download_context \<Rightarrow> (cell list \<Rightarrow> bool) \<Rightarrow> segment_man \<Rightarrow>
    int \<Rightarrow> nat \<Rightarrow> bitfield_man \<Rightarrow> nat option sm_result" where
  "request_segment rnd shuffle dc io m cuid minSplitSize fbm =
     do { ignore \<leftarrow> bm_filterBitfield fbm;
          (s, piece) \<leftarrow> DefaultPieceStorage_getMissingPiece_stream rnd shuffle (with_counts dc m) io (sm_storage m) minSplitSize ignore cuid;
          SegmentMan_checkoutSegment dc io (put_storage m s) cuid piece }"

definition SegmentMan_getSegment :: "nat \<Rightarrow> (nat list \<Rightarrow> nat list) \<Rightarrow> download_context \<Rightarrow> (cell list \<Rightarrow> bool) \<Rightarrow> segment_man \<Rightarrow>
    int \<Rightarrow> nat \<Rightarrow> nat option sm_result" where
  "SegmentMan_getSegment rnd shuffle dc io m cuid minSplitSize =
     request_segment rnd shuffle dc io m cuid minSplitSize (sm_ignoreBitfield m)"

definition SegmentMan_getSegmentWithIndex :: "download_context \<Rightarrow> (cell list \<Rightarrow> bool) \<Rightarrow> segment_man \<Rightarrow> int \<Rightarrow> nat \<Rightarrow> nat option sm_result" where
  "SegmentMan_getSegmentWithIndex dc io m cuid index =
     do { numPieces \<leftarrow> (if index > 0 then DownloadContext_getNumPieces dc else Some 1);
          if numPieces \<le> index then Some (m, Inr None)
          else do { (s, piece) \<leftarrow> DefaultPieceStorage_getMissingPiece_index (with_counts dc m) io (sm_storage m) index cuid;
                    SegmentMan_checkoutSegment dc io (put_storage m s) cuid piece } }"

subsection \<open>Giving back\<close>

definition SegmentMan_cancelSegmentInternal :: "(cell list \<Rightarrow> bool) \<Rightarrow> segment_man \<Rightarrow> int \<Rightarrow> nat \<Rightarrow> unit sm_result" where
  "SegmentMan_cancelSegmentInternal io m cuid sa =
     (let m1 = m\<lparr>sm_tracker := Tracker_clear_cuid (sm_tracker m) (segment_index m sa) cuid\<rparr>;
          a = sg_piece (sm_segments m sa) in
      do { (s1, err) \<leftarrow> flush_if_cached io (sm_storage m1) a;
           (case err of
              Some e \<Rightarrow> Some (put_storage m1 s1, Inl e)
            | None \<Rightarrow>
                do { s2 \<leftarrow> DefaultPieceStorage_cancelPiece (set_used_by_segment s1 a False) a cuid;
                     let m2 = put_storage m1 s2;
                     Some (m2\<lparr>sm_memo := (sm_memo m2)(segment_index m2 sa \<mapsto> sg_written (sm_segments m2 sa))\<rparr>, Inr ()) }) })"

definition urgency_release :: "segment_man \<Rightarrow> nat \<Rightarrow> segment_man" where
  "urgency_release m sa = (if segment_length m sa > 0 then urgency_decrement m (segment_index m sa) else m)"

text \<open>The entries of a connection, in order; \<open>kept\<close> are the entries the loop has passed.\<close>

fun cancel_loop :: "(cell list \<Rightarrow> bool) \<Rightarrow> int \<Rightarrow> (int \<times> nat) list \<Rightarrow> (int \<times> nat) list \<Rightarrow> segment_man \<Rightarrow> unit sm_result" where
  "cancel_loop io cuid kept [] m = Some (m\<lparr>sm_entries := kept\<rparr>, Inr ())"
| "cancel_loop io cuid kept ((c, sa) # es) m =
     (if c = cuid then
        do { (m', r) \<leftarrow> SegmentMan_cancelSegmentInternal io (urgency_release m sa) c sa;
             (case r of
                Inl e \<Rightarrow> Some (m'\<lparr>sm_entries := kept @ (c, sa) # es\<rparr>, Inl e)
              | Inr _ \<Rightarrow> cancel_loop io cuid kept es m') }
      else cancel_loop io cuid (kept @ [(c, sa)]) es m)"

definition SegmentMan_cancelSegment :: "(cell list \<Rightarrow> bool) \<Rightarrow> segment_man \<Rightarrow> int \<Rightarrow> unit sm_result" where
  "SegmentMan_cancelSegment io m cuid = cancel_loop io cuid [] (sm_entries m) m"

text \<open>Segments are equal when their indexes are; only the first such entry of the connection goes.\<close>

fun cancel_first :: "(cell list \<Rightarrow> bool) \<Rightarrow> int \<Rightarrow> nat \<Rightarrow> (int \<times> nat) list \<Rightarrow> (int \<times> nat) list \<Rightarrow> segment_man \<Rightarrow> unit sm_result" where
  "cancel_first io cuid index kept [] m = Some (m, Inr ())"
| "cancel_first io cuid index kept ((c, sa) # es) m =
     (if c = cuid \<and> segment_index m sa = index then
        do { (m', r) \<leftarrow> SegmentMan_cancelSegmentInternal io (urgency_release m sa) c sa;
             (case r of
                Inl e \<Rightarrow> Some (m', Inl e)
              | Inr _ \<Rightarrow> Some (m'\<lparr>sm_entries := kept @ es\<rparr>, Inr ())) }
      else cancel_first io cuid index (kept @ [(c, sa)]) es m)"

definition SegmentMan_cancelSegment_segment :: "(cell list \<Rightarrow> bool) \<Rightarrow> segment_man \<Rightarrow> int \<Rightarrow> nat \<Rightarrow> unit sm_result" where
  "SegmentMan_cancelSegment_segment io m cuid sa = cancel_first io cuid (segment_index m sa) [] (sm_entries m) m"

fun cancel_all_loop :: "(cell list \<Rightarrow> bool) \<Rightarrow> (int \<times> nat) list \<Rightarrow> segment_man \<Rightarrow> unit sm_result" where
  "cancel_all_loop io [] m = Some (m\<lparr>sm_entries := []\<rparr>, Inr ())"
| "cancel_all_loop io ((c, sa) # es) m =
     do { (m', r) \<leftarrow> SegmentMan_cancelSegmentInternal io m c sa;
          (case r of Inl e \<Rightarrow> Some (m', Inl e) | Inr _ \<Rightarrow> cancel_all_loop io es m') }"

definition SegmentMan_cancelAllSegments :: "(cell list \<Rightarrow> bool) \<Rightarrow> segment_man \<Rightarrow> unit sm_result" where
  "SegmentMan_cancelAllSegments io m = cancel_all_loop io (sm_entries m) m"

definition SegmentMan_eraseSegmentWrittenLengthMemo :: "segment_man \<Rightarrow> segment_man" where
  "SegmentMan_eraseSegmentWrittenLengthMemo m = m\<lparr>sm_memo := Map.empty\<rparr>"

definition SegmentMan_completeSegment :: "segment_man \<Rightarrow> int \<Rightarrow> nat \<Rightarrow> int \<Rightarrow> (segment_man \<times> bool) option" where
  "SegmentMan_completeSegment m cuid sa wallclock =
     (let a = sg_piece (sm_segments m sa) in
      do { s1 \<leftarrow> DefaultPieceStorage_completePiece (sm_storage m) a;
           let s2 = DefaultPieceStorage_advertisePiece s1 cuid (pc_index (ps_pieces s1 a)) wallclock;
           let m1 = put_storage m s2;
           Some (case find (\<lambda>e. segment_index m1 (snd e) = segment_index m1 sa) (sm_entries m1) of
                   None \<Rightarrow> (m1, False)
                 | Some e \<Rightarrow>
                     let m2 = (if segment_length m1 sa > 0 then urgency_decrement m1 (segment_index m1 sa) else m1)
                     in (m2\<lparr>sm_entries := remove1 e (sm_entries m2)\<rparr>, True)) })"

subsection \<open>Several segments of a file, and a segment of an idle owner\<close>

text \<open>
  The loop stops when enough segments of the file are found or nothing more is given. It takes
  fuel: the outer \<open>None\<close> says that the fuel was not enough.
\<close>

fun get_segments_loop :: "nat \<Rightarrow> nat \<Rightarrow> (nat list \<Rightarrow> nat list) \<Rightarrow> download_context \<Rightarrow> (cell list \<Rightarrow> bool) \<Rightarrow> int \<Rightarrow> nat \<Rightarrow>
    bitfield_man \<Rightarrow> file_entry \<Rightarrow> nat \<Rightarrow> segment_man \<Rightarrow> nat list \<Rightarrow> nat list \<Rightarrow> (nat list \<times> nat list) sm_result option" where
  "get_segments_loop 0 rnd shuffle dc io cuid minSplitSize fbm fe maxSegments m segments pending =
     (if length segments < maxSegments then None else Some (Some (m, Inr (segments, pending))))"
| "get_segments_loop (Suc fuel) rnd shuffle dc io cuid minSplitSize fbm fe maxSegments m segments pending =
     (if length segments < maxSegments then
        (case request_segment rnd shuffle dc io m cuid minSplitSize fbm of
           None \<Rightarrow> Some None
         | Some (m', Inl e) \<Rightarrow> Some (Some (m', Inl e))
         | Some (m', Inr None) \<Rightarrow> Some (Some (m', Inr (segments, pending)))
         | Some (m', Inr (Some sa)) \<Rightarrow>
             let pos = Segment_getPositionToWrite (sm_segments m' sa) (segment_piece m' sa) in
             if pos < fe_offset fe \<or> FileEntry_getLastOffset fe \<le> pos
             then get_segments_loop fuel rnd shuffle dc io cuid minSplitSize fbm fe maxSegments m' segments (pending @ [sa])
             else get_segments_loop fuel rnd shuffle dc io cuid minSplitSize fbm fe maxSegments m' (segments @ [sa]) pending)
      else Some (Some (m, Inr (segments, pending))))"

fun cancel_pending :: "(cell list \<Rightarrow> bool) \<Rightarrow> int \<Rightarrow> nat list \<Rightarrow> segment_man \<Rightarrow> unit sm_result" where
  "cancel_pending io cuid [] m = Some (m, Inr ())"
| "cancel_pending io cuid (sa # as) m =
     do { (m', r) \<leftarrow> SegmentMan_cancelSegment_segment io m cuid sa;
          (case r of Inl e \<Rightarrow> Some (m', Inl e) | Inr _ \<Rightarrow> cancel_pending io cuid as m') }"

definition SegmentMan_getSegments :: "nat \<Rightarrow> nat \<Rightarrow> (nat list \<Rightarrow> nat list) \<Rightarrow> download_context \<Rightarrow> (cell list \<Rightarrow> bool) \<Rightarrow> segment_man \<Rightarrow>
    nat list \<Rightarrow> int \<Rightarrow> nat \<Rightarrow> file_entry \<Rightarrow> nat \<Rightarrow> nat list sm_result option" where
  "SegmentMan_getSegments fuel rnd shuffle dc io m segments cuid minSplitSize fe maxSegments =
     (let fbm = BitfieldMan_addNotFilter (BitfieldMan_enableFilter (BitfieldMan_copy (sm_ignoreBitfield m))) (fe_offset fe) (fe_length fe) in
      case get_segments_loop fuel rnd shuffle dc io cuid minSplitSize fbm fe maxSegments m segments [] of
        None \<Rightarrow> None
      | Some None \<Rightarrow> Some None
      | Some (Some (m', Inl e)) \<Rightarrow> Some (Some (m', Inl e))
      | Some (Some (m', Inr (segs, pending))) \<Rightarrow>
          Some (map_option (\<lambda>(m'', r). (m'', case r of Inl e \<Rightarrow> Inl e | Inr _ \<Rightarrow> Inr segs)) (cancel_pending io cuid pending m')))"

definition SegmentMan_getPeerStat :: "segment_man \<Rightarrow> int \<Rightarrow> nat option" where
  "SegmentMan_getPeerStat m cuid = find (\<lambda>a. pst_cuid (sm_stats m a) = cuid) (sm_peerStats m)"

definition SegmentMan_getCleanSegmentIfOwnerIsIdle :: "download_context \<Rightarrow> (cell list \<Rightarrow> bool) \<Rightarrow> segment_man \<Rightarrow> int \<Rightarrow> nat \<Rightarrow> nat option sm_result" where
  "SegmentMan_getCleanSegmentIfOwnerIsIdle dc io m cuid index =
     do { numPieces \<leftarrow> (if index > 0 then DownloadContext_getNumPieces dc else Some 1);
          if numPieces \<le> index then Some (m, Inr None)
          else (case find (\<lambda>e. segment_index m (snd e) = index) (sm_entries m) of
                  None \<Rightarrow> Some (m, Inr None)
                | Some (owner, sa) \<Rightarrow>
                    if sg_written (sm_segments m sa) > 0 then Some (m, Inr None)
                    else if owner = cuid then Some (m, Inr (Some sa))
                    else if (case SegmentMan_getPeerStat m owner of None \<Rightarrow> True | Some a \<Rightarrow> PeerStat_getStatus (sm_stats m a) = IDLE)
                    then do { (m', r) \<leftarrow> SegmentMan_cancelSegment io m owner;
                              (case r of Inl e \<Rightarrow> Some (m', Inl e) | Inr _ \<Rightarrow> SegmentMan_getSegmentWithIndex dc io m' cuid index) }
                    else Some (m, Inr None)) }"

subsection \<open>Statistics and queries\<close>

definition SegmentMan_registerPeerStat :: "segment_man \<Rightarrow> nat \<Rightarrow> segment_man" where
  "SegmentMan_registerPeerStat m a = m\<lparr>sm_peerStats := sm_peerStats m @ [a]\<rparr>"

definition SegmentMan_updateFastestPeerStat :: "segment_man \<Rightarrow> nat \<Rightarrow> segment_man" where
  "SegmentMan_updateFastestPeerStat m a =
     (case List.extract (\<lambda>b. pst_hostname (sm_stats m a) = pst_hostname (sm_stats m b)
                           \<and> pst_protocol (sm_stats m a) = pst_protocol (sm_stats m b)) (sm_fastestPeerStats m) of
        None \<Rightarrow> m\<lparr>sm_fastestPeerStats := sm_fastestPeerStats m @ [a]\<rparr>
      | Some (xs, b, ys) \<Rightarrow>
          let pa = sm_stats m a; pb = sm_stats m b in
          if PeerStat_getAvgDownloadSpeed pb < PeerStat_getAvgDownloadSpeed pa
          then m\<lparr>sm_stats := (sm_stats m)(a := PeerStat_addSessionDownloadLength (PeerStat_getSessionDownloadLength pb) pa),
                 sm_fastestPeerStats := xs @ a # ys\<rparr>
          else m\<lparr>sm_stats := (sm_stats m)(b := PeerStat_addSessionDownloadLength (PeerStat_getSessionDownloadLength pa) pb)\<rparr>)"

definition SegmentMan_countFreePieceFrom :: "download_context \<Rightarrow> segment_man \<Rightarrow> nat \<Rightarrow> nat option" where
  "SegmentMan_countFreePieceFrom dc m index =
     map_option (\<lambda>numPieces.
       case find (\<lambda>i. DefaultPieceStorage_hasPiece (sm_storage m) i \<or> DefaultPieceStorage_isPieceUsed (sm_storage m) i) [index..<numPieces] of
         Some i \<Rightarrow> i - index
       | None \<Rightarrow> to_size (int numPieces - int index)) (DownloadContext_getNumPieces dc)"

definition SegmentMan_ignoreSegmentFor :: "segment_man \<Rightarrow> file_entry \<Rightarrow> segment_man" where
  "SegmentMan_ignoreSegmentFor m fe = m\<lparr>sm_ignoreBitfield := BitfieldMan_addFilter (sm_ignoreBitfield m) (fe_offset fe) (fe_length fe)\<rparr>"

definition SegmentMan_recognizeSegmentFor :: "segment_man \<Rightarrow> file_entry \<Rightarrow> segment_man" where
  "SegmentMan_recognizeSegmentFor m fe = m\<lparr>sm_ignoreBitfield := BitfieldMan_removeFilter (sm_ignoreBitfield m) (fe_offset fe) (fe_length fe)\<rparr>"

definition SegmentMan_allSegmentsIgnored :: "segment_man \<Rightarrow> bool" where
  "SegmentMan_allSegmentsIgnored m = BitfieldMan_isAllFilterBitSet (sm_ignoreBitfield m)"

definition SegmentMan_downloadFinished :: "segment_man \<Rightarrow> bool" where
  "SegmentMan_downloadFinished m = DefaultPieceStorage_downloadFinished (sm_storage m)"

definition SegmentMan_getDownloadLength :: "segment_man \<Rightarrow> int option" where
  "SegmentMan_getDownloadLength m = DefaultPieceStorage_getCompletedLength (sm_storage m)"

definition SegmentMan_hasSegment :: "segment_man \<Rightarrow> nat \<Rightarrow> bool" where
  "SegmentMan_hasSegment m index = DefaultPieceStorage_hasPiece (sm_storage m) index"

end
