(* ===== verification/Segment_Runs.thy ===== *)
theory Segment_Runs
  imports Segment_Man Piece_Pool
begin

text \<open>
  The segment manager over time: every entry is backed by a piece its connection holds, outside the
  end game no two connections have segments of the same piece, the requested counts are the
  numbers of entries, and the search for several segments of a file ends.
\<close>

subsection \<open>Counts\<close>

definition requested :: "segment_man \<Rightarrow> nat \<Rightarrow> nat" where
  "requested m i = length (filter (\<lambda>e. segment_index m (snd e) = i) (sm_entries m))"

lemma update_heap_frame [simp]:
  "sm_storage (SegmentMan_update_heap m i c) = sm_storage m" "sm_segments (SegmentMan_update_heap m i c) = sm_segments m"
  "sm_next (SegmentMan_update_heap m i c) = sm_next m" "sm_entries (SegmentMan_update_heap m i c) = sm_entries m"
  "sm_memo (SegmentMan_update_heap m i c) = sm_memo m" "sm_tracker (SegmentMan_update_heap m i c) = sm_tracker m"
  "sm_ignoreBitfield (SegmentMan_update_heap m i c) = sm_ignoreBitfield m"
  by (simp_all add: SegmentMan_update_heap_def Let_def)

lemma update_heap_count:
  "SegmentMan_getPieceRequestedCount (SegmentMan_update_heap m i c) j = (if j = i then c else SegmentMan_getPieceRequestedCount m j)"
  by (auto simp: SegmentMan_update_heap_def SegmentMan_getPieceRequestedCount_def Let_def word_gt_0)

lemma increment_frame [simp]:
  "sm_storage (urgency_increment m i) = sm_storage m" "sm_segments (urgency_increment m i) = sm_segments m"
  "sm_next (urgency_increment m i) = sm_next m" "sm_entries (urgency_increment m i) = sm_entries m"
  "sm_memo (urgency_increment m i) = sm_memo m" "sm_ignoreBitfield (urgency_increment m i) = sm_ignoreBitfield m"
  by (simp_all add: urgency_increment_def Let_def)

lemma increment_count:
  "SegmentMan_getPieceRequestedCount (urgency_increment m i) j
   = SegmentMan_getPieceRequestedCount m j + (if j = i then 1 else 0)"
  by (simp add: urgency_increment_def update_heap_count Let_def)
    (simp add: SegmentMan_getPieceRequestedCount_def)

lemma decrement_frame [simp]:
  "sm_storage (urgency_decrement m i) = sm_storage m" "sm_segments (urgency_decrement m i) = sm_segments m"
  "sm_next (urgency_decrement m i) = sm_next m" "sm_entries (urgency_decrement m i) = sm_entries m"
  "sm_memo (urgency_decrement m i) = sm_memo m" "sm_ignoreBitfield (urgency_decrement m i) = sm_ignoreBitfield m"
  by (simp_all add: urgency_decrement_def split: option.split)

lemma decrement_count:
  "SegmentMan_getPieceRequestedCount (urgency_decrement m i) j
   = (if j = i \<and> SegmentMan_getPieceRequestedCount m i \<noteq> 0 then SegmentMan_getPieceRequestedCount m j - 1
      else SegmentMan_getPieceRequestedCount m j)"
  by (auto simp: urgency_decrement_def update_heap_count word_gt_0 split: option.split)
    (auto simp: SegmentMan_getPieceRequestedCount_def)

subsection \<open>The invariant\<close>

text \<open>The ledger of the manager: who holds which piece object.\<close>

definition sm_ledger :: "segment_man \<Rightarrow> (int \<times> nat) list" where
  "sm_ledger m = map (\<lambda>(c, sa). (c, sg_piece (sm_segments m sa))) (sm_entries m)"

definition pieced :: "segment \<Rightarrow> bool" where
  "pieced seg \<longleftrightarrow> (case sg_kind seg of PiecedSegment _ \<Rightarrow> True | GrowSegment \<Rightarrow> False)"

definition sm_base :: "segment_man \<Rightarrow> bool" where
  "sm_base m \<longleftrightarrow> distinct (map snd (sm_entries m)) \<and> (\<forall>sa\<in>snd ` set (sm_entries m). sa < sm_next m)
     \<and> (\<forall>sa < sm_next m. pieced (sm_segments m sa) \<and> sg_piece (sm_segments m sa) < ps_fresh (sm_storage m))"

definition sm_inv :: "segment_man \<Rightarrow> bool" where
  "sm_inv m \<longleftrightarrow> pool.ledger (sm_storage m) (sm_ledger m) \<and> sm_base m"

definition counts_ok :: "segment_man \<Rightarrow> bool" where
  "counts_ok m \<longleftrightarrow> (\<forall>i. SegmentMan_getPieceRequestedCount m i = of_nat (requested m i))"

lemma sm_inv_storage: "sm_inv m \<Longrightarrow> storage_inv (sm_storage m)"
  by (simp add: sm_inv_def pool.ledger_def)

text \<open>A change of the storage that keeps holds, places and the invariant.\<close>

definition quiet :: "piece_storage \<Rightarrow> piece_storage \<Rightarrow> bool" where
  "quiet s s' \<longleftrightarrow> storage_inv s' \<and> ps_fresh s' = ps_fresh s \<and> ps_endGame s' = ps_endGame s \<and> ps_bm s' = ps_bm s
     \<and> ps_used s' = ps_used s \<and> ps_streamSelector s' = ps_streamSelector s \<and> ps_max_segs s' = ps_max_segs s
     \<and> (\<forall>b. pc_index (ps_pieces s' b) = pc_index (ps_pieces s b) \<and> pc_users (ps_pieces s' b) = pc_users (ps_pieces s b)
          \<and> pc_length (ps_pieces s' b) = pc_length (ps_pieces s b))"

lemma quiet_refl: "storage_inv s \<Longrightarrow> quiet s s"
  by (simp add: quiet_def)

lemma quiet_trans: "quiet s s' \<Longrightarrow> quiet s' s'' \<Longrightarrow> quiet s s''"
  by (simp add: quiet_def)

lemma quiet_ledger: "pool.ledger s L \<Longrightarrow> quiet s s' \<Longrightarrow> pool.ledger s' L"
  by (rule pool.ledger_quiet) (auto simp: quiet_def storage_held_def)

lemma quiet_put:
  assumes "storage_inv s" "a < ps_fresh s" "piece_wf (ps_bm s) p" "pc_index p = pc_index (ps_pieces s a)"
    and "pc_wrCache p = pc_wrCache (ps_pieces s a)" "pc_users p = pc_users (ps_pieces s a)" "pc_length p = pc_length (ps_pieces s a)"
  shows "quiet s (put_piece s a p)"
  using storage_inv_put [OF assms(1-5)] assms(4,6,7) by (simp add: quiet_def)

lemma quiet_set_used:
  assumes "storage_inv s" "a < ps_fresh s" shows "quiet s (set_used_by_segment s a f)"
proof -
  have "piece_wf (ps_bm s) ((ps_pieces s a)\<lparr>pc_usedBySegment := f\<rparr>)"
    using piece_at [OF storage_invD [OF assms(1)] assms(2)]
    by (subst piece_wf_cong [where p = "ps_pieces s a" and bm = "ps_bm s"]) simp_all
  then show ?thesis unfolding set_used_by_segment_def by (rule quiet_put [OF assms]) simp_all
qed

text \<open>Flushing before a segment is handed out or taken back: with or without a write error.\<close>

lemma flush_if_cached_quiet:
  assumes "storage_inv s" "a < ps_fresh s"
  obtains s' e where "flush_if_cached io s a = Some (s', e)" "quiet s s'"
proof (cases "pc_wrCache (ps_pieces s a)")
  case None
  then show thesis using that quiet_refl [OF assms(1)] by (simp add: flush_if_cached_def)
next
  case (Some i)
  note ok = storage_invD [OF assms(1)]
  have rel: "cache_rel (ps_cache s) (ps_fresh s) (\<lambda>b. pc_wrCache (ps_pieces s b))" using ok by (simp add: storage_ok_def)
  then obtain c where c: "ps_cache s = Some c" using Some assms(2) by (cases "ps_cache s") (auto simp: cache_rel_def)
  have i: "i = a" "a \<in> set (wc_set c)" "wc_ok c" using cache_rel_entry [of c] rel c Some assms(2) by auto
  obtain c' where c': "Piece_flushWrCache io c a = Some c'" "wc_ok c'" "set (wc_set c') = set (wc_set c)"
    using Piece_flushWrCache_ok [OF i(3,2), of io] by metis
  let ?s1 = "s\<lparr>ps_cache := Some c'\<rparr>"
  have s1: "storage_inv ?s1" by (rule storage_inv_cache [OF assms(1) c c'(2,3)])
  have q1: "quiet s ?s1" using s1 by (simp add: quiet_def)
  show thesis
  proof (cases "we_error (wc_ent c' a)")
    case False
    then have "flush_if_cached io s a = Some (?s1, None)" using Some c c'(1) i(1) by (simp add: flush_if_cached_def flushWrDiskCache_def)
    then show thesis using that q1 by blast
  next
    case True
    have a1: "a < ps_fresh ?s1" using assms(2) by simp
    obtain p d where p: "Piece_clearAllBlock_cache io (ps_cache ?s1) (ps_pieces ?s1 a) = Some (p, d)"
      "storage_inv ((put_piece ?s1 a p)\<lparr>ps_cache := d\<rparr>)" using clear_blocks_inv [OF s1 a1] by blast
    have f: "pc_index p = pc_index (ps_pieces s a)" "pc_users p = pc_users (ps_pieces s a)" "pc_length p = pc_length (ps_pieces s a)"
      using p(1) by (auto simp: Piece_clearAllBlock_cache_def Piece_clearAllBlock_def split: option.splits)
    have e: "flush_if_cached io s a = Some ((put_piece s a p)\<lparr>ps_cache := d\<rparr>, Some (CacheFlushFailure (pc_index p)))"
      using Some c c'(1) i(1) True p(1) by (simp add: flush_if_cached_def flushWrDiskCache_def)
    have "quiet s ((put_piece s a p)\<lparr>ps_cache := d\<rparr>)" using p(2) f by (simp add: quiet_def)
    then show thesis using that e by blast
  qed
qed

subsection \<open>Checking out\<close>

lemma completeBlocks_frame:
  "piece_ok p \<Longrightarrow> \<exists>p'. completeBlocks is p = Some p' \<and> piece_ok p' \<and> piece_frame p p'"
proof (induction "is" arbitrary: p)
  case (Cons i "is")
  obtain p1 where p1: "Piece_completeBlock p (to_size i) = Some p1" "piece_ok p1" "piece_frame p p1"
    using Piece_completeBlock_ok [OF Cons.prems] by blast
  obtain p' where p': "completeBlocks is p1 = Some p'" "piece_ok p'" "piece_frame p1 p'" using Cons.IH [OF p1(2)] by blast
  have "completeBlocks (i # is) p = Some p'" using p1(1) p'(1) by (simp add: completeBlocks_def)
  then show ?case using p'(2) piece_frame_trans [OF p1(3) p'(3)] by blast
qed (simp add: completeBlocks_def)

lemma Pieced_update_frame:
  assumes "PiecedSegment_updateWrittenLength s p n = Some (s', p')" "piece_ok p"
  shows "s' = s\<lparr>sg_written := sg_written s + n\<rparr>" "piece_ok p'" "piece_frame p p'"
proof -
  let ?bl = "bm_blockLength (piece_bm p)" and ?v = "sg_written s + n"
  have b: "pc_bitfield p = Some (piece_bm p)" using assms(2) by (auto simp: piece_ok_def piece_bm_def)
  obtain p1 where p1: "completeBlocks [sg_written s sdiv ?bl .. ?v sdiv ?bl - 1] p = Some p1" "piece_ok p1" "piece_frame p p1"
    using completeBlocks_frame [OF assms(2)] by blast
  obtain p2 where p2: "Piece_completeBlock p1 (to_size (int (bm_blocks (piece_bm p)) - 1)) = Some p2" "piece_ok p2" "piece_frame p1 p2"
    using Piece_completeBlock_ok [OF p1(2)] by blast
  have "s' = s\<lparr>sg_written := ?v\<rparr> \<and> p' = (if ?v = pc_length p then p2 else p1)"
    using assms(1) b p1(1) p2(1) by (auto simp: PiecedSegment_updateWrittenLength_def Let_def split: if_splits)
  then show "s' = s\<lparr>sg_written := ?v\<rparr>" "piece_ok p'" "piece_frame p p'"
    using p1(2,3) p2(2) piece_frame_trans [OF p1(3) p2(3)] by auto
qed

lemma pieced_fields:
  assumes "pieced seg"
  shows "Segment_getIndex seg p = pc_index p" "Segment_getLength seg p = pc_length p"
    "Segment_updateWrittenLength seg p n = PiecedSegment_updateWrittenLength seg p n"
  using assms by (auto simp: pieced_def Segment_getIndex_def Segment_getLength_def Segment_updateWrittenLength_def split: segment_kind.splits)

text \<open>What the manager's other fields are when only its storage and a segment's progress change.\<close>

definition progressed :: "segment_man \<Rightarrow> segment_man \<Rightarrow> bool" where
  "progressed m m' \<longleftrightarrow> quiet (sm_storage m) (sm_storage m') \<and> sm_entries m' = sm_entries m \<and> sm_next m' = sm_next m
     \<and> sm_urgency_map m' = sm_urgency_map m \<and> sm_ignoreBitfield m' = sm_ignoreBitfield m
     \<and> (\<forall>sa. sg_kind (sm_segments m' sa) = sg_kind (sm_segments m sa) \<and> sg_piece (sm_segments m' sa) = sg_piece (sm_segments m sa))"

lemma progressed_inv:
  assumes "sm_inv m" "progressed m m'"
  shows "sm_inv m'" "segment_index m' sa = segment_index m sa" "counts_ok m' = counts_ok m" "requested m' i = requested m i"
    "segment_length m' sa = segment_length m sa"
proof -
  have p: "\<And>sa. pieced (sm_segments m' sa) = pieced (sm_segments m sa)" using assms(2) by (simp add: progressed_def pieced_def)
  have q: "\<And>b. pc_index (ps_pieces (sm_storage m') b) = pc_index (ps_pieces (sm_storage m) b)"
    "\<And>b. pc_length (ps_pieces (sm_storage m') b) = pc_length (ps_pieces (sm_storage m) b)" "ps_fresh (sm_storage m') = ps_fresh (sm_storage m)"
    using assms(2) by (auto simp: progressed_def quiet_def)
  have l: "sm_ledger m' = sm_ledger m" using assms(2) by (auto simp: sm_ledger_def progressed_def)
  show "sm_inv m'" using assms p q(3) quiet_ledger [of "sm_storage m" "sm_ledger m" "sm_storage m'"]
    by (simp add: sm_inv_def sm_base_def l progressed_def)
  have i: "segment_index m' sa = segment_index m sa" for sa
    using assms(2) q by (simp add: segment_index_def segment_piece_def Segment_getIndex_def progressed_def split: segment_kind.split)
  then show "segment_index m' sa = segment_index m sa" .
  show r: "requested m' i = requested m i" for i using assms(2) i by (simp add: requested_def progressed_def)
  show "counts_ok m' = counts_ok m"
    using r assms(2) by (simp add: counts_ok_def SegmentMan_getPieceRequestedCount_def progressed_def)
  show "segment_length m' sa = segment_length m sa"
    using assms(2) q by (simp add: segment_length_def segment_piece_def Segment_getLength_def progressed_def split: segment_kind.split)
qed

lemma restore_written_progress:
  assumes inv: "storage_inv (sm_storage m)" and pc: "pieced (sm_segments m sa)" and a: "sg_piece (sm_segments m sa) < ps_fresh (sm_storage m)"
    and r: "restore_written m sa = Some m'"
  shows "progressed m m'"
proof -
  let ?s = "sm_storage m" and ?a = "sg_piece (sm_segments m sa)" and ?p = "segment_piece m sa"
  have wf: "piece_wf (ps_bm ?s) ?p" using piece_at [OF storage_invD [OF inv] a] by (simp add: segment_piece_def)
  show ?thesis
  proof (cases "m' = m")
    case True
    then show ?thesis using quiet_refl [OF inv] by (simp add: progressed_def)
  next
    case False
    then obtain n seg' p' where u: "PiecedSegment_updateWrittenLength (sm_segments m sa) ?p n = Some (seg', p')"
      "m' = m\<lparr>sm_segments := (sm_segments m)(sa := seg'), sm_storage := put_piece ?s ?a p'\<rparr>"
      using r pieced_fields(3) [OF pc]
      by (auto simp: restore_written_def Let_def bind_eq_Some_conv split: if_splits option.splits)
    have "piece_ok ?p" using wf by (simp add: piece_wf_def)
    note f = Pieced_update_frame [OF u(1) this]
    note g = piece_frameD [OF f(3)]
    have "quiet ?s (put_piece ?s ?a p')"
      by (rule quiet_put [OF inv a piece_wf_frame [OF wf f(3,2)]]) (simp_all add: g segment_piece_def)
    then show ?thesis using u(2) f(1) by (auto simp: progressed_def)
  qed
qed

lemma ledger_butlast: "pool.ledger s (L @ [x]) \<Longrightarrow> pool.ledger s L"
  by (auto simp: pool.ledger_def)

text \<open>Handing out a piece that the storage has just given to the connection.\<close>

lemma checkoutSegment_ok:
  assumes base: "sm_base m" and inv: "storage_inv (sm_storage m)" and a: "a < ps_fresh (sm_storage m)"
    and co: "SegmentMan_checkoutSegment dc io m cuid (Some a) = Some (m', r)"
  obtains (error) e s1 where "r = Inl e" "m' = put_storage m s1" "quiet (sm_storage m) s1"
  | (handed) "r = Inr (Some (sm_next m))" "sm_base m'" "quiet (sm_storage m) (sm_storage m')"
      "sm_entries m' = sm_entries m @ [(cuid, sm_next m)]" "sm_next m' = Suc (sm_next m)" "sg_piece (sm_segments m' (sm_next m)) = a"
      "\<forall>sa < sm_next m. sg_kind (sm_segments m' sa) = sg_kind (sm_segments m sa) \<and> sg_piece (sm_segments m' sa) = sg_piece (sm_segments m sa)"
      "\<forall>j. SegmentMan_getPieceRequestedCount m' j = SegmentMan_getPieceRequestedCount m j
         + (if j = pc_index (ps_pieces (sm_storage m) a) then 1 else 0)"
proof -
  let ?s = "sm_storage m" and ?sa = "sm_next m" and ?i = "pc_index (ps_pieces (sm_storage m) a)"
  obtain s1 e1 where s1: "flush_if_cached io ?s a = Some (s1, e1)" "quiet ?s s1" by (rule flush_if_cached_quiet [OF inv a])
  have inv1: "storage_inv s1" "a < ps_fresh s1" using s1(2) a by (auto simp: quiet_def)
  show thesis
  proof (cases e1)
    case (Some e)
    then show thesis using error [of e s1] co s1 by (auto simp: SegmentMan_checkoutSegment_def)
  next
    case None
    let ?s2 = "set_used_by_segment s1 a True" and ?p = "ps_pieces (set_used_by_segment s1 a True) a"
    have q2: "quiet ?s ?s2" using quiet_trans [OF s1(2) quiet_set_used [OF inv1]] .
    have inv2: "storage_inv ?s2" "a < ps_fresh ?s2" using q2 a by (auto simp: quiet_def)
    have i: "pc_index ?p = ?i" using q2 by (simp add: quiet_def)
    have len: "0 < pc_length ?p" using piece_at [OF storage_invD [OF inv2(1)] inv2(2)] by (simp add: piece_wf_def piece_ok_def)
    obtain seg blocks m3 where c: "PiecedSegment_new (dc_pieceLength dc) a ?p = Some seg" "Piece_countBlock ?p = Some blocks"
      "restore_written (let m1 = m\<lparr>sm_storage := ?s2, sm_segments := (sm_segments m)(?sa := seg), sm_next := ?sa + 1,
          sm_entries := sm_entries m @ [(cuid, ?sa)], sm_tracker := Tracker_add_piece (sm_tracker m) (pc_index ?p) blocks\<rparr>
        in (if segment_length m1 ?sa > 0 then urgency_increment m1 (segment_index m1 ?sa) else m1)) ?sa = Some m3"
      "m' = m3" "r = Inr (Some ?sa)"
      using co s1(1) None len by (auto simp: SegmentMan_checkoutSegment_def Let_def bind_eq_Some_conv split: if_splits)
    define m1 where "m1 = m\<lparr>sm_storage := ?s2, sm_segments := (sm_segments m)(?sa := seg), sm_next := ?sa + 1,
          sm_entries := sm_entries m @ [(cuid, ?sa)], sm_tracker := Tracker_add_piece (sm_tracker m) (pc_index ?p) blocks\<rparr>"
    have seg: "pieced seg" "sg_piece seg = a" using c(1) by (auto simp: PiecedSegment_new_def pieced_def split: option.splits)
    have f: "segment_length m1 ?sa = pc_length ?p" "segment_index m1 ?sa = ?i"
      using pieced_fields [OF seg(1)] seg(2) i by (simp_all add: segment_length_def segment_index_def segment_piece_def m1_def)
    let ?m2 = "urgency_increment m1 ?i"
    have r: "restore_written ?m2 ?sa = Some m'" using c(3,4) len by (simp only: Let_def m1_def [symmetric] f if_True)
    have p: "progressed ?m2 m'" by (rule restore_written_progress [OF _ _ _ r]) (use inv2 seg in \<open>simp_all add: m1_def\<close>)
    have e: "sm_storage ?m2 = ?s2" "sm_entries ?m2 = sm_entries m @ [(cuid, ?sa)]" "sm_next ?m2 = Suc ?sa"
      "sm_segments ?m2 = (sm_segments m)(?sa := seg)" by (simp_all add: m1_def)
    have q: "quiet ?s (sm_storage m')" using quiet_trans [OF q2] p e(1) by (simp add: progressed_def)
    have k: "sg_kind (sm_segments m' sa) = sg_kind (((sm_segments m)(?sa := seg)) sa)"
      "sg_piece (sm_segments m' sa) = sg_piece (((sm_segments m)(?sa := seg)) sa)" for sa using p e(4) by (simp_all add: progressed_def)
    have n: "sm_entries m' = sm_entries m @ [(cuid, ?sa)]" "sm_next m' = Suc ?sa" using p e(2,3) by (simp_all add: progressed_def)
    have kk: "pieced (sm_segments m' sa) = pieced (((sm_segments m)(?sa := seg)) sa)" for sa using k(1) by (simp add: pieced_def)
    have b: "sm_base m'" using base seg a q by (auto simp: sm_base_def n kk k(2) quiet_def less_Suc_eq)
    have "SegmentMan_getPieceRequestedCount m' j = SegmentMan_getPieceRequestedCount ?m2 j" for j
      using p by (simp add: progressed_def SegmentMan_getPieceRequestedCount_def)
    moreover have "SegmentMan_getPieceRequestedCount m1 j = SegmentMan_getPieceRequestedCount m j" for j
      by (simp add: m1_def SegmentMan_getPieceRequestedCount_def)
    ultimately show thesis using k seg(2) by (intro handed [OF c(5) b q n]) (simp_all add: increment_count)
  qed
qed


lemma sm_baseD:
  assumes "sm_base m" "(c, sa) \<in> set (sm_entries m)"
  shows "sa < sm_next m" "pieced (sm_segments m sa)" "sg_piece (sm_segments m sa) < ps_fresh (sm_storage m)"
  using assms by (force simp: sm_base_def)+

lemma segment_index_pieced: "pieced (sm_segments m sa) \<Longrightarrow> segment_index m sa = pc_index (ps_pieces (sm_storage m) (sg_piece (sm_segments m sa)))"
  by (simp add: segment_index_def segment_piece_def pieced_fields(1))

lemma requested_append:
  assumes "sm_entries m' = sm_entries m @ [(c, sa)]" "\<And>d sb. (d, sb) \<in> set (sm_entries m) \<Longrightarrow> segment_index m' sb = segment_index m sb"
  shows "requested m' i = requested m i + (if segment_index m' sa = i then 1 else 0)"
proof -
  have "filter (\<lambda>e. segment_index m' (snd e) = i) (sm_entries m) = filter (\<lambda>e. segment_index m (snd e) = i) (sm_entries m)"
    by (rule filter_cong) (use assms(2) in auto)
  then show ?thesis using assms(1) by (simp add: requested_def)
qed

lemma sm_inv_got_base:
  assumes "sm_inv m" "storage_got (sm_storage m) cuid s' a"
  shows "sm_base (put_storage m s')" "pool.ledger s' (sm_ledger m @ [(cuid, a)])" "storage_inv s'" "a < ps_fresh s'"
    "\<And>b. b < ps_fresh (sm_storage m) \<Longrightarrow> pc_index (ps_pieces s' b) = pc_index (ps_pieces (sm_storage m) b)"
proof -
  have L: "pool.ledger (sm_storage m) (sm_ledger m)" and b: "sm_base m" using assms(1) by (simp_all add: sm_inv_def)
  note g = pool.got_inv [OF sm_inv_storage [OF assms(1)] assms(2)]
  show "sm_base (put_storage m s')" using b g by (auto simp: sm_base_def put_storage_def)
  show "pool.ledger s' (sm_ledger m @ [(cuid, a)])" by (rule pool.ledger_got [OF L assms(2)])
  show "storage_inv s'" "a < ps_fresh s'" "\<And>b. b < ps_fresh (sm_storage m) \<Longrightarrow> pc_index (ps_pieces s' b) = pc_index (ps_pieces (sm_storage m) b)"
    using g by auto
qed

text \<open>A piece that the storage hands out becomes an entry of the connection, unless a write fails.\<close>

lemma got_checkout:
  assumes inv: "sm_inv m" and got: "storage_got (sm_storage m) cuid s' a"
    and co: "SegmentMan_checkoutSegment dc io (put_storage m s') cuid (Some a) = Some (m', r)"
  obtains (error) e where "r = Inl e" "sm_inv m'" "sm_entries m' = sm_entries m" "quiet s' (sm_storage m')"
  | (handed) "r = Inr (Some (sm_next m))" "sm_inv m'" "counts_ok m \<Longrightarrow> counts_ok m'" "sm_entries m' = sm_entries m @ [(cuid, sm_next m)]"
      "quiet s' (sm_storage m')"
proof -
  note g = sm_inv_got_base [OF inv got]
  let ?m0 = "put_storage m s'"
  have s0: "sm_storage ?m0 = s'" "sm_entries ?m0 = sm_entries m" "sm_next ?m0 = sm_next m" "sm_segments ?m0 = sm_segments m"
    by (simp_all add: put_storage_def)
  have b: "sm_base m" using inv by (simp add: sm_inv_def)
  have inv0: "storage_inv (sm_storage ?m0)" "a < ps_fresh (sm_storage ?m0)" using g(3,4) s0(1) by simp_all
  show thesis
  proof (rule checkoutSegment_ok [OF g(1) inv0 co])
    fix e s1 assume e: "r = Inl e" "m' = put_storage ?m0 s1" "quiet (sm_storage ?m0) s1"
    have q: "quiet s' s1" using e(3) s0(1) by simp
    have "pool.ledger s1 (sm_ledger m)" using ledger_butlast [OF quiet_ledger [OF g(2) q]] .
    moreover have "sm_base m'" using g(1) q e(2) by (auto simp: sm_base_def put_storage_def quiet_def)
    ultimately have "sm_inv m'" using e(2) by (simp add: sm_inv_def sm_ledger_def put_storage_def)
    then show thesis using error e(1) q e(2) by (simp add: put_storage_def)
  next
    assume h: "r = Inr (Some (sm_next ?m0))" "sm_base m'" "quiet (sm_storage ?m0) (sm_storage m')"
      "sm_entries m' = sm_entries ?m0 @ [(cuid, sm_next ?m0)]" "sm_next m' = Suc (sm_next ?m0)" "sg_piece (sm_segments m' (sm_next ?m0)) = a"
      "\<forall>sa < sm_next ?m0. sg_kind (sm_segments m' sa) = sg_kind (sm_segments ?m0 sa) \<and> sg_piece (sm_segments m' sa) = sg_piece (sm_segments ?m0 sa)"
      "\<forall>j. SegmentMan_getPieceRequestedCount m' j = SegmentMan_getPieceRequestedCount ?m0 j
         + (if j = pc_index (ps_pieces (sm_storage ?m0) a) then 1 else 0)"
    note h = h [unfolded s0]
    have old: "sg_piece (sm_segments m' sb) = sg_piece (sm_segments m sb)" "segment_index m' sb = segment_index m sb"
      if "(d, sb) \<in> set (sm_entries m)" for d sb
    proof -
      note x = sm_baseD [OF b that]
      show p: "sg_piece (sm_segments m' sb) = sg_piece (sm_segments m sb)" using h(7) x(1) by simp
      have "pieced (sm_segments m' sb)" using h(7) x(1,2) by (simp add: pieced_def)
      then show "segment_index m' sb = segment_index m sb"
        using x(2,3) p h(3) g(5) by (simp add: segment_index_pieced quiet_def)
    qed
    have "sm_ledger m' = sm_ledger m @ [(cuid, a)]" using old(1) by (auto simp: sm_ledger_def h(4,6))
    then have L: "pool.ledger (sm_storage m') (sm_ledger m')" using quiet_ledger [OF g(2) h(3)] by simp
    have "pieced (sm_segments m' (sm_next m))" using h(2,5) by (simp add: sm_base_def)
    then have i: "segment_index m' (sm_next m) = pc_index (ps_pieces s' a)" using h(3,6) by (simp add: segment_index_pieced quiet_def)
    have "counts_ok m'" if "counts_ok m"
    proof -
      have "SegmentMan_getPieceRequestedCount (put_storage m s') j = SegmentMan_getPieceRequestedCount m j" for j
        by (simp add: SegmentMan_getPieceRequestedCount_def put_storage_def)
      then show ?thesis using that h(8) requested_append [OF h(4) old(2)] i by (auto simp: counts_ok_def)
    qed
    then show thesis using handed h(1,2,3,4) L by (simp add: sm_inv_def)
  qed
qed


subsection \<open>Giving back\<close>

lemma entries_update [simp]:
  "segment_index (m\<lparr>sm_entries := es\<rparr>) sa = segment_index m sa" "segment_length (m\<lparr>sm_entries := es\<rparr>) sa = segment_length m sa"
  "SegmentMan_getPieceRequestedCount (m\<lparr>sm_entries := es\<rparr>) i = SegmentMan_getPieceRequestedCount m i"
  "SegmentMan_getPieceRequestedCount (m\<lparr>sm_tracker := t\<rparr>) i = SegmentMan_getPieceRequestedCount m i"
  "SegmentMan_getPieceRequestedCount (m\<lparr>sm_memo := mem\<rparr>) i = SegmentMan_getPieceRequestedCount m i"
  "SegmentMan_getPieceRequestedCount (put_storage m s) i = SegmentMan_getPieceRequestedCount m i"
  by (simp_all add: segment_index_def segment_length_def segment_piece_def SegmentMan_getPieceRequestedCount_def put_storage_def)

text \<open>The place of every segment ever made is what it was.\<close>

definition same_shape :: "piece_storage \<Rightarrow> piece_storage \<Rightarrow> bool" where
  "same_shape s s' \<longleftrightarrow> ps_streamSelector s' = ps_streamSelector s \<and> bm_blocks (ps_bm s') = bm_blocks (ps_bm s)"

lemma quiet_shape: "quiet s s' \<Longrightarrow> same_shape s s'"
  by (simp add: quiet_def same_shape_def)

lemma cancelPiece_shape:
  assumes "storage_inv s" "a < ps_fresh s" "DefaultPieceStorage_cancelPiece s a c = Some s'"
  shows "same_shape s s'"
proof -
  obtain t where t: "DefaultPieceStorage_cancelPiece s a c = Some t"
    "ps_bm t = (if set (pc_users (ps_pieces s a)) \<subseteq> {c} then fst (BitfieldMan_unsetUseBit (ps_bm s) (pc_index (ps_pieces s a))) else ps_bm s)"
    "ps_streamSelector t = ps_streamSelector s"
    by (rule cancelPiece_ok [OF storage_invD [OF assms(1)] assms(2)]) blast
  have "bm_geometry (ps_bm t) = bm_geometry (ps_bm s)" by (simp add: t(2) geometry_ops)
  then show ?thesis using t assms(3) by (simp add: same_shape_def bm_geometry_def)
qed

lemma completePiece_shape:
  assumes "storage_inv s" "a < ps_fresh s" "DefaultPieceStorage_completePiece s a = Some s'"
  shows "same_shape s s'"
proof -
  let ?i = "pc_index (ps_pieces s a)"
  obtain t where t: "DefaultPieceStorage_completePiece s a = Some t"
    "BitfieldMan_isAllBitSet (ps_bm s) \<Longrightarrow> ps_bm t = ps_bm s"
    "\<not> BitfieldMan_isAllBitSet (ps_bm s) \<Longrightarrow> ps_bm t = fst (BitfieldMan_unsetUseBit (fst (BitfieldMan_setBit (ps_bm s) ?i)) ?i)"
    "ps_streamSelector t = ps_streamSelector s"
    by (rule completePiece_ok [OF storage_invD [OF assms(1)] assms(2)]) blast
  have "bm_geometry (ps_bm t) = bm_geometry (ps_bm s)"
    using t(2,3) by (cases "BitfieldMan_isAllBitSet (ps_bm s)") (simp_all add: geometry_ops)
  then show ?thesis using t assms(3) by (simp add: same_shape_def bm_geometry_def)
qed

lemma same_shape_refl [simp]: "same_shape s s"
  by (simp add: same_shape_def)

definition same_places :: "segment_man \<Rightarrow> segment_man \<Rightarrow> bool" where
  "same_places m m' \<longleftrightarrow> sm_next m' = sm_next m \<and> sm_segments m' = sm_segments m \<and> ps_fresh (sm_storage m) \<le> ps_fresh (sm_storage m')
     \<and> same_shape (sm_storage m) (sm_storage m')
     \<and> (\<forall>b < ps_fresh (sm_storage m). pc_index (ps_pieces (sm_storage m') b) = pc_index (ps_pieces (sm_storage m) b))"

lemma same_places_refl [simp]: "same_places m m" "same_places m (m\<lparr>sm_entries := es\<rparr>)"
  "same_places m (m'\<lparr>sm_entries := es\<rparr>) = same_places m m'"
  by (simp_all add: same_places_def)

lemma same_places_trans: "same_places m m' \<Longrightarrow> same_places m' m'' \<Longrightarrow> same_places m m''"
  by (auto simp: same_places_def same_shape_def)

lemma same_places_index:
  "sm_base m \<Longrightarrow> same_places m m' \<Longrightarrow> (c, sa) \<in> set (sm_entries m) \<Longrightarrow> segment_index m' sa = segment_index m sa"
  using sm_baseD [of m c sa] by (simp add: segment_index_pieced same_places_def)

lemma same_places_base:
  assumes "sm_base (m\<lparr>sm_entries := es\<rparr>)" "same_places m m'" "distinct (map snd es')" "set es' \<subseteq> set es"
  shows "sm_base (m'\<lparr>sm_entries := es'\<rparr>)"
  using assms by (force simp: sm_base_def same_places_def)

lemma requested_remove:
  "requested (m\<lparr>sm_entries := xs @ (c, sa) # ys\<rparr>) i
   = requested (m\<lparr>sm_entries := xs @ ys\<rparr>) i + (if segment_index m sa = i then 1 else 0)"
  by (simp add: requested_def)

lemma requested_places:
  "sm_base (m\<lparr>sm_entries := es\<rparr>) \<Longrightarrow> same_places m m' \<Longrightarrow>
   requested (m'\<lparr>sm_entries := es\<rparr>) i = requested (m\<lparr>sm_entries := es\<rparr>) i"
proof -
  assume a: "sm_base (m\<lparr>sm_entries := es\<rparr>)" "same_places m m'"
  have "same_places (m\<lparr>sm_entries := es\<rparr>) m'" using a(2) by (simp add: same_places_def)
  then have "segment_index m' (snd e) = segment_index m (snd e)" if "e \<in> set es" for e
    using same_places_index [OF a(1), of m' "fst e" "snd e"] that by simp
  then show ?thesis unfolding requested_def by (simp cong: filter_cong)
qed

lemma cancelSegmentInternal_ok:
  assumes inv: "sm_inv (m\<lparr>sm_entries := xs @ (c, sa) # ys\<rparr>)" and run: "SegmentMan_cancelSegmentInternal io m c sa = Some (m', r)"
  shows "sm_inv (m'\<lparr>sm_entries := (case r of Inl e \<Rightarrow> xs @ (c, sa) # ys | Inr _ \<Rightarrow> xs @ ys)\<rparr>)"
    and "same_places m m'" "SegmentMan_getPieceRequestedCount m' i = SegmentMan_getPieceRequestedCount m i" "sm_entries m' = sm_entries m"
proof -
  let ?m = "m\<lparr>sm_entries := xs @ (c, sa) # ys\<rparr>" and ?s = "sm_storage m" and ?a = "sg_piece (sm_segments m sa)"
  let ?L = "\<lambda>es. map (\<lambda>(c, sa). (c, sg_piece (sm_segments m sa))) es"
  let ?m1 = "m\<lparr>sm_tracker := Tracker_clear_cuid (sm_tracker m) (segment_index m sa) c\<rparr>"
  have b: "sm_base ?m" and L: "pool.ledger ?s (?L xs @ (c, ?a) # ?L ys)" using inv by (simp_all add: sm_inv_def sm_ledger_def)
  have sinv: "storage_inv ?s" using L by (simp add: pool.ledger_def)
  have a: "?a < ps_fresh ?s" using sm_baseD(3) [OF b, of c sa] by simp
  have d: "distinct (map snd (xs @ ys))" using b by (auto simp: sm_base_def)
  obtain s1 e1 where s1: "flush_if_cached io ?s ?a = Some (s1, e1)" "quiet ?s s1" by (rule flush_if_cached_quiet [OF sinv a])
  have inv1: "storage_inv s1" "?a < ps_fresh s1" using s1(2) a by (auto simp: quiet_def)
  have "sm_inv (m'\<lparr>sm_entries := (case r of Inl e \<Rightarrow> xs @ (c, sa) # ys | Inr _ \<Rightarrow> xs @ ys)\<rparr>) \<and> same_places m m'
      \<and> SegmentMan_getPieceRequestedCount m' i = SegmentMan_getPieceRequestedCount m i \<and> sm_entries m' = sm_entries m"
  proof (cases e1)
    case (Some e)
    then have r: "m' = put_storage ?m1 s1" "r = Inl e" using run s1(1) by (auto simp: SegmentMan_cancelSegmentInternal_def Let_def)
    have p: "same_places m m'" using s1(2) r(1) quiet_shape [OF s1(2)] by (simp add: same_places_def quiet_def put_storage_def)
    have "sm_base (m'\<lparr>sm_entries := xs @ (c, sa) # ys\<rparr>)" by (rule same_places_base [OF b p]) (use b in \<open>simp_all add: sm_base_def\<close>)
    moreover have "pool.ledger s1 (?L xs @ (c, ?a) # ?L ys)" by (rule quiet_ledger [OF L s1(2)])
    ultimately show ?thesis using p r by (simp add: sm_inv_def sm_ledger_def put_storage_def SegmentMan_getPieceRequestedCount_def)
  next
    case None
    let ?s1 = "set_used_by_segment s1 ?a False"
    have q: "quiet ?s ?s1" by (rule quiet_trans [OF s1(2) quiet_set_used [OF inv1]])
    obtain s2 where s2: "DefaultPieceStorage_cancelPiece ?s1 ?a c = Some s2" "pool.ledger s2 (?L xs @ ?L ys)" "ps_endGame s2 = ps_endGame ?s1"
      "\<forall>b < ps_fresh ?s1. b < ps_fresh s2 \<and> pc_index (ps_pieces s2 b) = pc_index (ps_pieces ?s1 b)"
      using pool.ledger_give [OF quiet_ledger [OF L q]] by blast
    have fr: "ps_fresh ?s1 = ps_fresh ?s" "\<forall>b. pc_index (ps_pieces ?s1 b) = pc_index (ps_pieces ?s b)" using q by (simp_all add: quiet_def)
    have s2f: "ps_fresh ?s \<le> ps_fresh s2" using s2(4) fr(1) by (metis not_le_imp_less order_less_irrefl)
    let ?m2 = "put_storage ?m1 s2"
    have r: "m' = ?m2\<lparr>sm_memo := (sm_memo ?m2)(segment_index ?m2 sa \<mapsto> sg_written (sm_segments ?m2 sa))\<rparr>" "r = Inr ()"
      using run s1(1) None s2(1) by (auto simp: SegmentMan_cancelSegmentInternal_def Let_def put_storage_def)
    have "storage_inv ?s1" "?a < ps_fresh ?s1" using q a by (auto simp: quiet_def)
    from cancelPiece_shape [OF this s2(1)] have sh: "same_shape ?s s2" using quiet_shape [OF q] by (simp add: same_shape_def)
    have p: "same_places m m'" using s2(4) s2f sh fr r(1) by (simp add: same_places_def put_storage_def)
    have "sm_base (m'\<lparr>sm_entries := xs @ ys\<rparr>)" by (rule same_places_base [OF b p d]) auto
    then show ?thesis using p r s2(2) by (simp add: sm_inv_def sm_ledger_def put_storage_def SegmentMan_getPieceRequestedCount_def)
  qed
  then show "sm_inv (m'\<lparr>sm_entries := (case r of Inl e \<Rightarrow> xs @ (c, sa) # ys | Inr _ \<Rightarrow> xs @ ys)\<rparr>)" "same_places m m'"
    "SegmentMan_getPieceRequestedCount m' i = SegmentMan_getPieceRequestedCount m i" "sm_entries m' = sm_entries m" by blast+
qed


text \<open>The count goes down before the segment is given back.\<close>

lemma release_ok:
  assumes inv: "sm_inv (m\<lparr>sm_entries := xs @ (c, sa) # ys\<rparr>)"
  shows "sm_inv ((urgency_release m sa)\<lparr>sm_entries := xs @ (c, sa) # ys\<rparr>)" "same_places m (urgency_release m sa)"
    "sm_entries (urgency_release m sa) = sm_entries m"
    "SegmentMan_getPieceRequestedCount (urgency_release m sa) i
     = (if i = segment_index m sa \<and> SegmentMan_getPieceRequestedCount m i \<noteq> 0 then SegmentMan_getPieceRequestedCount m i - 1
        else SegmentMan_getPieceRequestedCount m i)"
proof -
  have L: "pool.ledger (sm_storage m) (sm_ledger (m\<lparr>sm_entries := xs @ (c, sa) # ys\<rparr>))" and b: "sm_base (m\<lparr>sm_entries := xs @ (c, sa) # ys\<rparr>)"
    using inv by (simp_all add: sm_inv_def)
  have sa: "pieced (sm_segments m sa)" "sg_piece (sm_segments m sa) < ps_fresh (sm_storage m)" using sm_baseD [OF b, of c sa] by simp_all
  have "storage_inv (sm_storage m)" using L by (simp add: pool.ledger_def)
  then have "0 < segment_length m sa" using piece_at [OF storage_invD sa(2)] sa(1)
    by (simp add: segment_length_def segment_piece_def pieced_fields(2) piece_wf_def piece_ok_def)
  then have r: "urgency_release m sa = urgency_decrement m (segment_index m sa)" by (simp add: urgency_release_def)
  show "sm_inv ((urgency_release m sa)\<lparr>sm_entries := xs @ (c, sa) # ys\<rparr>)" using inv by (simp add: r sm_inv_def sm_base_def sm_ledger_def)
  show "same_places m (urgency_release m sa)" by (simp add: r same_places_def)
  show "sm_entries (urgency_release m sa) = sm_entries m" by (simp add: r)
  show "SegmentMan_getPieceRequestedCount (urgency_release m sa) i
     = (if i = segment_index m sa \<and> SegmentMan_getPieceRequestedCount m i \<noteq> 0 then SegmentMan_getPieceRequestedCount m i - 1
        else SegmentMan_getPieceRequestedCount m i)"
    by (auto simp: r decrement_count)
qed

text \<open>An entry goes and the count of its piece goes down with it.\<close>

lemma drop_count:
  assumes ok: "counts_ok (m\<lparr>sm_entries := xs @ (c, sa) # ys\<rparr>)" and len: "length (xs @ (c, sa) # ys) < 2 ^ 16"
    and b: "sm_base (m\<lparr>sm_entries := xs @ (c, sa) # ys\<rparr>)" and p: "same_places m m'"
    and down: "\<And>i. SegmentMan_getPieceRequestedCount m' i
      = (if i = segment_index m sa \<and> SegmentMan_getPieceRequestedCount m i \<noteq> 0 then SegmentMan_getPieceRequestedCount m i - 1
         else SegmentMan_getPieceRequestedCount m i)"
  shows "counts_ok (m'\<lparr>sm_entries := xs @ ys\<rparr>)"
  unfolding counts_ok_def
proof
  fix i
  have b': "sm_base (m\<lparr>sm_entries := xs @ ys\<rparr>)" by (rule same_places_base [OF b]) (use b in \<open>auto simp: sm_base_def\<close>)
  let ?n = "requested (m\<lparr>sm_entries := xs @ ys\<rparr>) i"
  have le: "?n \<le> length (xs @ ys)" unfolding requested_def
    using length_filter_le [of "\<lambda>e. segment_index (m\<lparr>sm_entries := xs @ ys\<rparr>) (snd e) = i" "xs @ ys"] by simp
  have cnt: "SegmentMan_getPieceRequestedCount m i = of_nat (?n + (if segment_index m sa = i then 1 else 0))"
    using ok by (simp add: counts_ok_def requested_remove del: of_nat_add)
  have "of_nat (Suc ?n) \<noteq> (0 :: u16)"
  proof
    assume "of_nat (Suc ?n) = (0 :: u16)"
    then have "unat (of_nat (Suc ?n) :: u16) = 0" by simp
    moreover have "unat (of_nat (Suc ?n) :: u16) = Suc ?n" using le len
      by (simp add: unsigned_of_nat take_bit_nat_eq_self del: of_nat_Suc)
    ultimately show False by simp
  qed
  then have "SegmentMan_getPieceRequestedCount m' i = of_nat ?n" using down [of i] cnt by (auto simp: add.commute)
  then show "SegmentMan_getPieceRequestedCount (m'\<lparr>sm_entries := xs @ ys\<rparr>) i = of_nat (requested (m'\<lparr>sm_entries := xs @ ys\<rparr>) i)"
    using requested_places [OF b' p] by simp
qed

text \<open>Giving one entry up: \<open>m\<close> still has the entries the loop started with.\<close>

lemma give_up_ok:
  assumes inv: "sm_inv (m\<lparr>sm_entries := xs @ (c, sa) # ys\<rparr>)"
    and run: "SegmentMan_cancelSegmentInternal io (urgency_release m sa) c sa = Some (m', r)"
  shows "sm_inv (m'\<lparr>sm_entries := (case r of Inl e \<Rightarrow> xs @ (c, sa) # ys | Inr _ \<Rightarrow> xs @ ys)\<rparr>)"
    and "same_places m m'" "sm_entries m' = sm_entries m"
    and "r = Inr u \<Longrightarrow> length (xs @ (c, sa) # ys) < 2 ^ 16 \<Longrightarrow> counts_ok (m\<lparr>sm_entries := xs @ (c, sa) # ys\<rparr>) \<Longrightarrow> counts_ok (m'\<lparr>sm_entries := xs @ ys\<rparr>)"
proof -
  note rel = release_ok [OF inv]
  note c = cancelSegmentInternal_ok [OF rel(1) run]
  show "sm_inv (m'\<lparr>sm_entries := (case r of Inl e \<Rightarrow> xs @ (c, sa) # ys | Inr _ \<Rightarrow> xs @ ys)\<rparr>)" by (rule c(1))
  show p: "same_places m m'" by (rule same_places_trans [OF rel(2) c(2)])
  show "sm_entries m' = sm_entries m" using c(4) rel(3) by simp
  assume r: "r = Inr u" and len: "length (xs @ (c, sa) # ys) < 2 ^ 16" and ok: "counts_ok (m\<lparr>sm_entries := xs @ (c, sa) # ys\<rparr>)"
  have b: "sm_base (m\<lparr>sm_entries := xs @ (c, sa) # ys\<rparr>)" using inv by (simp add: sm_inv_def)
  show "counts_ok (m'\<lparr>sm_entries := xs @ ys\<rparr>)" by (rule drop_count [OF ok len b p]) (simp add: c(3) rel(4))
qed

lemma cancel_loop_ok:
  assumes "sm_inv (m\<lparr>sm_entries := kept @ es\<rparr>)" "cancel_loop io cuid kept es m = Some (m', r)"
  shows "sm_inv m' \<and> (counts_ok (m\<lparr>sm_entries := kept @ es\<rparr>) \<longrightarrow> length (kept @ es) < 2 ^ 16 \<longrightarrow> r = Inr () \<longrightarrow> counts_ok m')
     \<and> (r = Inr () \<longrightarrow> sm_entries m' = kept @ filter (\<lambda>e. fst e \<noteq> cuid) es) \<and> length (sm_entries m') \<le> length (kept @ es) \<and> same_places m m'"
  using assms
proof (induction io cuid kept es m rule: cancel_loop.induct)
  case (2 io cuid kept c sa es m)
  show ?case
  proof (cases "c = cuid")
    case True
    obtain m1 r1 where m1: "SegmentMan_cancelSegmentInternal io (urgency_release m sa) c sa = Some (m1, r1)"
      using 2(4) True by (auto simp: bind_eq_Some_conv)
    note g = give_up_ok [OF 2(3) m1]
    show ?thesis
    proof (cases r1)
      case (Inl e)
      then show ?thesis using 2(4) True m1 g(1,2) by auto
    next
      case (Inr u)
      have i1: "sm_inv (m1\<lparr>sm_entries := kept @ es\<rparr>)" using g(1) Inr by simp
      have r: "cancel_loop io cuid kept es m1 = Some (m', r)" using 2(4) True m1 Inr by simp
      have "sm_inv m' \<and> (counts_ok (m1\<lparr>sm_entries := kept @ es\<rparr>) \<longrightarrow> length (kept @ es) < 2 ^ 16 \<longrightarrow> r = Inr () \<longrightarrow> counts_ok m')
        \<and> (r = Inr () \<longrightarrow> sm_entries m' = kept @ filter (\<lambda>e. fst e \<noteq> cuid) es) \<and> length (sm_entries m') \<le> length (kept @ es) \<and> same_places m1 m'"
        by (rule 2(1) [OF True m1 refl _ i1 r]) (simp add: Inr)
      then show ?thesis using g(4) [OF Inr] same_places_trans [OF g(2)] True by auto
    qed
  next
    case False
    then show ?thesis using 2(2,3,4) by simp
  qed
qed auto

lemma cancel_first_ok:
  assumes "sm_inv m" "sm_entries m = kept @ es" "cancel_first io cuid index kept es m = Some (m', r)"
  shows "sm_inv m' \<and> (counts_ok m \<longrightarrow> length (sm_entries m) < 2 ^ 16 \<longrightarrow> r = Inr () \<longrightarrow> counts_ok m')
     \<and> length (sm_entries m') \<le> length (sm_entries m) \<and> same_places m m'"
  using assms
proof (induction io cuid index kept es m rule: cancel_first.induct)
  case (2 io cuid index kept c sa es m)
  show ?case
  proof (cases "c = cuid \<and> segment_index m sa = index")
    case True
    have e: "m\<lparr>sm_entries := kept @ (c, sa) # es\<rparr> = m" using 2(3) by simp
    obtain m1 r1 where m1: "SegmentMan_cancelSegmentInternal io (urgency_release m sa) c sa = Some (m1, r1)"
      using 2(4) True by (auto simp: bind_eq_Some_conv)
    have i0: "sm_inv (m\<lparr>sm_entries := kept @ (c, sa) # es\<rparr>)" using 2(2) e by simp
    note g = give_up_ok [OF i0 m1, unfolded e]
    have e1: "m1\<lparr>sm_entries := kept @ (c, sa) # es\<rparr> = m1" using g(3) 2(3) by simp
    show ?thesis
    proof (cases r1)
      case (Inl e)
      then show ?thesis using 2(4) True m1 g(1,2,3) e1 by auto
    next
      case (Inr u)
      then have "m' = m1\<lparr>sm_entries := kept @ es\<rparr>" "r = Inr ()" using 2(4) True m1 by auto
      then show ?thesis using g(1,2) g(4) [OF Inr] Inr 2(3) by simp
    qed
  next
    case False
    then have "cancel_first io cuid index (kept @ [(c, sa)]) es m = Some (m', r)" using 2(4) by (simp only: cancel_first.simps if_False)
    then show ?thesis using 2(1) [OF False 2(2)] 2(3) by simp
  qed
qed auto


subsection \<open>Completing\<close>

lemma ledger_shared:
  assumes "pool.ledger s L" "pool.ledger s L'" "ps_endGame s" "set L'' \<subseteq> set L \<union> set L'"
  shows "pool.ledger s L''"
  using assms by (auto simp: pool.ledger_def)

text \<open>Outside the end game the first entry of a piece is the connection's own.\<close>

lemma entry_unique:
  assumes "sm_inv m" "\<not> ps_endGame (sm_storage m)" "(c, sa) \<in> set (sm_entries m)" "(d, sb) \<in> set (sm_entries m)"
    and "segment_index m sa = segment_index m sb"
  shows "c = d \<and> sa = sb"
proof -
  have L: "pool.ledger (sm_storage m) (sm_ledger m)" and b: "sm_base m" using assms(1) by (simp_all add: sm_inv_def)
  have "(c, sg_piece (sm_segments m sa)) \<in> set (sm_ledger m)" "(d, sg_piece (sm_segments m sb)) \<in> set (sm_ledger m)"
    using assms(3,4) by (force simp: sm_ledger_def)+
  from pool.ledger_exclusive [OF L assms(2) this]
  have e: "sg_piece (sm_segments m sa) = sg_piece (sm_segments m sb)" "c = d"
    using assms(5) sm_baseD(2) [OF b assms(3)] sm_baseD(2) [OF b assms(4)] by (simp_all add: segment_index_pieced)
  have "distinct (map (\<lambda>e. sg_piece (sm_segments m (snd e))) (sm_entries m))"
    using L assms(2) by (simp add: pool.ledger_def sm_ledger_def comp_def case_prod_beta)
  then have "inj_on (\<lambda>e. sg_piece (sm_segments m (snd e))) (set (sm_entries m))" by (simp add: distinct_map)
  from inj_onD [OF this _ assms(3,4)] show ?thesis using e(1) by simp
qed

lemma advertise_quiet: "storage_inv s \<Longrightarrow> quiet s (DefaultPieceStorage_advertisePiece s c i t)"
  using storage_step_inv [of s "Advertise c i t"] by (auto simp: quiet_def DefaultPieceStorage_advertisePiece_def)

lemma completeSegment_ok:
  assumes inv: "sm_inv m" and own: "(cuid, sa) \<in> set (sm_entries m)"
    and run: "SegmentMan_completeSegment m cuid sa wallclock = Some (m', done)"
  shows "sm_inv m'" "length (sm_entries m') < length (sm_entries m)" "done"
    "counts_ok m \<Longrightarrow> length (sm_entries m) < 2 ^ 16 \<Longrightarrow> counts_ok m'"
    "same_places m m'"
proof -
  let ?s = "sm_storage m" and ?a = "sg_piece (sm_segments m sa)"
  let ?L = "\<lambda>es. map (\<lambda>(c, sa). (c, sg_piece (sm_segments m sa))) es"
  have L: "pool.ledger ?s (?L (sm_entries m))" and b: "sm_base m" using inv by (simp_all add: sm_inv_def sm_ledger_def)
  note sa = sm_baseD [OF b own]
  have de: "distinct (sm_entries m)" using b by (simp add: sm_base_def distinct_map)
  obtain e where e: "find (\<lambda>e. segment_index m (snd e) = segment_index m sa) (sm_entries m) = Some e"
    using own by (cases "find (\<lambda>e. segment_index m (snd e) = segment_index m sa) (sm_entries m)") (auto simp: find_None_iff)
  then have e1: "e \<in> set (sm_entries m)" "segment_index m (snd e) = segment_index m sa" by (auto simp: find_Some_iff)
  obtain us c sb vs where us: "sm_entries m = us @ (c, sb) # vs" "e = (c, sb)" using split_list [OF e1(1)] by (cases e) auto
  have rem: "remove1 e (sm_entries m) = us @ vs" using de us by (simp add: remove1_append)
  obtain xs ys where xs: "sm_entries m = xs @ (cuid, sa) # ys" using split_list [OF own] by blast
  obtain s1 where s1: "DefaultPieceStorage_completePiece ?s ?a = Some s1" "pool.ledger s1 (?L xs @ ?L ys)" "ps_endGame s1 = ps_endGame ?s"
    "\<forall>b < ps_fresh ?s. b < ps_fresh s1 \<and> pc_index (ps_pieces s1 b) = pc_index (ps_pieces ?s b)"
    using pool.ledger_finish [of ?s "?L xs" cuid ?a "?L ys"] L xs by auto
  have L1: "pool.ledger s1 (?L (us @ vs))"
  proof (cases "ps_endGame ?s")
    case True
    have i: "storage_inv s1" "ps_endGame s1" using s1(2,3) True by (simp_all add: pool.ledger_def)
    then have l: "pool.ledger s1 (?L (sm_entries m))" using L s1(4) by (simp add: pool.ledger_def)
    show ?thesis by (rule ledger_shared [OF l l i(2)]) (use us in auto)
  next
    case False
    then have "cuid = c \<and> sa = sb" using entry_unique [OF inv False own, of c sb] e1 us(2) by simp
    then have "xs = us \<and> ys = vs" using xs us(1) de
      by (metis append_Cons_eq_iff distinct.simps(2) distinct_append not_distinct_conv_prefix)
    then show ?thesis using s1(2) by simp
  qed
  let ?s2 = "DefaultPieceStorage_advertisePiece s1 cuid (pc_index (ps_pieces s1 ?a)) wallclock"
  have q: "quiet s1 ?s2" by (rule advertise_quiet) (use s1(2) in \<open>simp add: pool.ledger_def\<close>)
  let ?m1 = "put_storage m ?s2"
  let ?m2 = "urgency_decrement ?m1 (segment_index m sa)"
  have "ps_fresh ?s \<le> ps_fresh s1" using s1(4) by (metis not_le_imp_less order_less_irrefl)
  then have p1: "same_places m ?m1"
    using completePiece_shape [OF sm_inv_storage [OF inv] sa(3) s1(1)] quiet_shape [OF q] s1(4) q
    by (simp add: same_places_def put_storage_def same_shape_def quiet_def)
  have p2: "same_places m ?m2" using p1 by (simp add: same_places_def)
  have ix: "segment_index ?m1 (snd x) = segment_index m (snd x)" if "x \<in> set (sm_entries m)" for x
    using same_places_index [OF b p1, of "fst x" "snd x"] that by simp
  have sa1: "segment_index ?m1 sa = segment_index m sa" using ix [OF own] by simp
  have "find (\<lambda>e. segment_index ?m1 (snd e) = segment_index ?m1 sa) (sm_entries m)
      = find (\<lambda>e. segment_index m (snd e) = segment_index m sa) (sm_entries m)"
    by (rule find_cong) (simp_all add: ix sa1)
  moreover have "0 < segment_length ?m1 sa"
  proof -
    have "storage_inv ?s2" "?a < ps_fresh ?s2" using q s1(4) sa(3) by (auto simp: quiet_def)
    from piece_at [OF storage_invD [OF this(1)] this(2)] show ?thesis
      using sa(2) by (simp add: segment_length_def segment_piece_def pieced_fields(2) put_storage_def piece_wf_def piece_ok_def)
  qed
  moreover have "sm_entries ?m1 = sm_entries m" "sm_entries ?m2 = sm_entries m" by (simp_all add: put_storage_def)
  ultimately have r: "m' = ?m2\<lparr>sm_entries := us @ vs\<rparr>" "done"
    using run s1(1) e rem sa1 by (auto simp: SegmentMan_completeSegment_def Let_def)
  have d: "distinct (map snd (us @ vs))" using b us(1) by (auto simp: sm_base_def)
  have bm: "sm_base (m\<lparr>sm_entries := sm_entries m\<rparr>)" using b by simp
  have "sm_base m'" unfolding r(1) by (rule same_places_base [OF bm p2 d]) (use us in auto)
  moreover have "pool.ledger ?s2 (?L (us @ vs))" by (rule quiet_ledger [OF L1 q])
  ultimately show "sm_inv m'" by (simp add: sm_inv_def r(1) sm_ledger_def put_storage_def)
  show "length (sm_entries m') < length (sm_entries m)" by (simp add: r(1) us(1))
  show "done" by (rule r(2))
  show "same_places m m'" using p2 by (simp add: r(1))
  have e0: "m\<lparr>sm_entries := us @ (c, sb) # vs\<rparr> = m" using us(1) by simp
  have sb: "segment_index m sb = segment_index m sa" using e1(2) us(2) by simp
  assume c: "counts_ok m" "length (sm_entries m) < 2 ^ 16"
  have "counts_ok (?m2\<lparr>sm_entries := us @ vs\<rparr>)"
  proof (rule drop_count [where m = m and xs = us and c = c and sa = sb and ys = vs])
    show "counts_ok (m\<lparr>sm_entries := us @ (c, sb) # vs\<rparr>)" "sm_base (m\<lparr>sm_entries := us @ (c, sb) # vs\<rparr>)"
      unfolding e0 using c(1) b by simp_all
    show "length (us @ (c, sb) # vs) < 2 ^ 16" using c(2) us(1) by simp
    show "same_places m ?m2" by (rule p2)
    fix i
    show "SegmentMan_getPieceRequestedCount ?m2 i
      = (if i = segment_index m sb \<and> SegmentMan_getPieceRequestedCount m i \<noteq> 0 then SegmentMan_getPieceRequestedCount m i - 1
         else SegmentMan_getPieceRequestedCount m i)"
      unfolding decrement_count sb by simp
  qed
  then show "counts_ok m'" by (simp add: r(1))
qed


subsection \<open>Requests\<close>

lemma enterEndGame_ledger: "pool.ledger s L \<Longrightarrow> pool.ledger (storage_enterEndGame dc s) L"
proof -
  assume L: "pool.ledger s L"
  have h: "storage_held (storage_enterEndGame dc s) = storage_held s" by (simp add: storage_held_def fun_eq_iff)
  show ?thesis using L enterEndGame_inv [of s dc] enterEndGame_stays [of s dc] by (auto simp: pool.ledger_def h)
qed

text \<open>What a request leaves: the invariant, and without an exception the counts.\<close>

definition requested_ok :: "segment_man \<Rightarrow> int \<Rightarrow> segment_man \<Rightarrow> download_error + nat option \<Rightarrow> bool" where
  "requested_ok m cuid m' r \<longleftrightarrow> sm_inv m' \<and> same_shape (sm_storage m) (sm_storage m') \<and> length (sm_entries m') \<le> Suc (length (sm_entries m))
     \<and> (case r of Inl e \<Rightarrow> sm_entries m' = sm_entries m
        | Inr None \<Rightarrow> sm_entries m' = sm_entries m \<and> (counts_ok m \<longrightarrow> counts_ok m')
        | Inr (Some sa) \<Rightarrow> sm_entries m' = sm_entries m @ [(cuid, sa)] \<and> (counts_ok m \<longrightarrow> counts_ok m'))"

lemma requested_okI:
  assumes inv: "sm_inv m" and got: "storage_got (sm_storage m) cuid s' a" and sh: "same_shape (sm_storage m) s'"
    and co: "SegmentMan_checkoutSegment dc io (put_storage m s') cuid (Some a) = Some (m', r)"
  shows "requested_ok m cuid m' r"
proof (rule got_checkout [OF inv got co])
  fix e assume e: "r = Inl e" "sm_inv m'" "sm_entries m' = sm_entries m" "quiet s' (sm_storage m')"
  have "same_shape (sm_storage m) (sm_storage m')" using sh quiet_shape [OF e(4)] by (simp add: same_shape_def)
  then show ?thesis using e by (simp add: requested_ok_def)
next
  assume h: "r = Inr (Some (sm_next m))" "sm_inv m'" "counts_ok m \<Longrightarrow> counts_ok m'" "sm_entries m' = sm_entries m @ [(cuid, sm_next m)]"
    "quiet s' (sm_storage m')"
  have "same_shape (sm_storage m) (sm_storage m')" using sh quiet_shape [OF h(5)] by (simp add: same_shape_def)
  then show ?thesis using h by (simp add: requested_ok_def)
qed

lemma checked_out_shape: "checked_out s i c s' a \<Longrightarrow> same_shape s s'"
  using geometry_ops(3) [of "ps_bm s" i] by (simp add: checked_out_def same_shape_def bm_geometry_def)

lemma request_segment_ok:
  assumes inv: "sm_inv m" and rdy: "selector_ready rnd (sm_storage m)" and sh: "\<And>xs. set (shuffle xs) = set xs"
    and run: "request_segment rnd shuffle dc io m cuid minSplitSize fbm = Some (m', r)"
  shows "requested_ok m cuid m' r"
proof -
  let ?s = "sm_storage m" and ?dc = "with_counts dc m"
  note sinv = sm_inv_storage [OF inv]
  obtain ign s1 p where g: "DefaultPieceStorage_getMissingPiece_stream rnd shuffle ?dc io ?s minSplitSize ign cuid = Some (s1, p)"
    "SegmentMan_checkoutSegment dc io (put_storage m s1) cuid p = Some (m', r)"
    using run by (auto simp: request_segment_def bind_eq_Some_conv)
  show ?thesis
  proof (rule stream_request_ok [OF storage_invD [OF sinv] rdy sh, where dc = ?dc and io = io and m = minSplitSize and ign = ign and cuid = cuid])
    fix s2 assume n: "DefaultPieceStorage_getMissingPiece_stream rnd shuffle ?dc io ?s minSplitSize ign cuid = Some (s2, None)"
      "s2 = storage_enterEndGame ?dc ?s"
    then have p: "p = None" "s1 = storage_enterEndGame ?dc ?s" using g(1) by simp_all
    then have m': "m' = put_storage m s1" "r = Inr None" using g(2) by (simp_all add: SegmentMan_checkoutSegment_def)
    have f: "ps_fresh s1 = ps_fresh ?s" "ps_pieces s1 = ps_pieces ?s" "same_shape ?s s1" using p(2) by (simp_all add: same_shape_def)
    have i: "segment_index m' sb = segment_index m sb" for sb
      by (simp add: m'(1) put_storage_def segment_index_def segment_piece_def f)
    have "pool.ledger s1 (sm_ledger m)" using inv p(2) by (simp add: sm_inv_def enterEndGame_ledger)
    then show ?thesis using inv f i by (simp add: requested_ok_def m' sm_inv_def sm_base_def sm_ledger_def put_storage_def counts_ok_def requested_def
        SegmentMan_getPieceRequestedCount_def segment_index_def segment_piece_def)
  next
    fix s2 a i assume h: "DefaultPieceStorage_getMissingPiece_stream rnd shuffle ?dc io ?s minSplitSize ign cuid = Some (s2, Some a)"
      "checked_out (storage_enterEndGame ?dc ?s) i cuid s2 a"
    then have p: "p = Some a" "s1 = s2" using g(1) by simp_all
    have "storage_got ?s cuid s2 a" unfolding storage_got_def
      by (rule disjI1, rule exI [of _ rnd], rule exI [of _ shuffle], rule exI [of _ ?dc], rule exI [of _ io], rule exI [of _ minSplitSize],
          rule exI [of _ ign]) (use h(1) rdy sh in simp)
    then show ?thesis using requested_okI [OF inv _ _ g(2) [unfolded p]] checked_out_shape [OF h(2)]
      by (simp add: same_shape_def)
  qed
qed

lemma segmentWithIndex_ok:
  assumes inv: "sm_inv m" and idx: "index < bm_blocks (ps_bm (sm_storage m))"
    and run: "SegmentMan_getSegmentWithIndex dc io m cuid index = Some (m', r)"
  shows "requested_ok m cuid m' r"
proof -
  let ?s = "sm_storage m" and ?dc = "with_counts dc m"
  have same: "requested_ok m cuid m (Inr None)" using inv by (simp add: requested_ok_def)
  consider "m' = m" "r = Inr None" | s1 p where "DefaultPieceStorage_getMissingPiece_index ?dc io ?s index cuid = Some (s1, p)"
      "SegmentMan_checkoutSegment dc io (put_storage m s1) cuid p = Some (m', r)"
    using run by (auto simp: SegmentMan_getSegmentWithIndex_def bind_eq_Some_conv split: if_splits)
  then show ?thesis
  proof cases
    case 1
    then show ?thesis using same by simp
  next
    case (2 s1 p)
    show ?thesis
    proof (cases p)
      case None
      then have "s1 = ?s" using 2(1) by (auto simp: DefaultPieceStorage_getMissingPiece_index_def split: if_splits)
      then have "m' = m" "r = Inr None" using 2(2) None by (simp_all add: SegmentMan_checkoutSegment_def put_storage_def)
      then show ?thesis using same by simp
    next
      case (Some a)
      have got: "storage_got ?s cuid s1 a" unfolding storage_got_def
        by (rule disjI2, rule exI [of _ ?dc], rule exI [of _ io], rule exI [of _ index]) (use 2(1) Some idx in simp)
      obtain t i where t: "checked_out t i cuid s1 a" "ps_bm t = ps_bm ?s" "ps_streamSelector s1 = ps_streamSelector ?s"
      proof -
        have f: "\<not> (DefaultPieceStorage_hasPiece ?s index \<or> DefaultPieceStorage_isPieceUsed ?s index
            \<or> (bm_filterEnabled (ps_bm ?s) \<and> \<not> BitfieldMan_isFilterBitSet (ps_bm ?s) index))"
          using 2(1) Some by (auto simp: DefaultPieceStorage_getMissingPiece_index_def split: if_splits)
        then have co: "DefaultPieceStorage_checkOutPiece ?dc io ?s index cuid = Some (s1, a)"
          using 2(1) Some by (auto simp: DefaultPieceStorage_getMissingPiece_index_def)
        have sel: "bm_filterEnabled (ps_bm ?s) \<Longrightarrow> index \<in> bm_selected (ps_bm ?s)"
          using f idx isFilterBitSet_iff [of index "ps_bm ?s"] by auto
        obtain s2 b where s2: "DefaultPieceStorage_checkOutPiece ?dc io ?s index cuid = Some (s2, b)" "checked_out ?s index cuid s2 b"
          by (rule checkOutPiece_ok [OF storage_invD [OF sm_inv_storage [OF inv]] idx sel]) blast+
        then have "s2 = s1" "b = a" using co by simp_all
        then show thesis using that [of ?s index] s2(2) by (simp add: checked_out_def)
      qed
      have "same_shape ?s s1" using checked_out_shape [OF t(1)] t(2,3) by (simp add: same_shape_def)
      then show ?thesis by (rule requested_okI [OF inv got _ 2(2) [unfolded Some]])
    qed
  qed
qed


lemma selector_ready_shape: "selector_ready rnd s \<Longrightarrow> same_shape s s' \<Longrightarrow> selector_ready rnd s'"
  by (auto simp: selector_ready_def same_shape_def split: option.splits stream_piece_selector.splits)

text \<open>The search for several segments: whatever it ends with, the entries have grown by at most one a round.\<close>

lemma get_segments_loop_ok:
  assumes "sm_inv m" "selector_ready rnd (sm_storage m)" "\<And>xs. set (shuffle xs) = set xs"
    and "get_segments_loop fuel rnd shuffle dc io cuid minSplitSize fbm fe maxSegments m segs pend = Some (Some (m', r))"
  shows "sm_inv m' \<and> same_shape (sm_storage m) (sm_storage m') \<and> length (sm_entries m') \<le> length (sm_entries m) + fuel
     \<and> ((\<exists>x. r = Inr x) \<longrightarrow> counts_ok m \<longrightarrow> counts_ok m')"
  using assms
proof (induction fuel arbitrary: m segs pend)
  case 0
  then show ?case by (auto split: if_splits)
next
  case (Suc fuel)
  show ?case
  proof (cases "length segs < maxSegments")
    case False
    then show ?thesis using Suc.prems by auto
  next
    case True
    obtain m1 r1 where m1: "request_segment rnd shuffle dc io m cuid minSplitSize fbm = Some (m1, r1)"
      using Suc.prems(4) True by (cases "request_segment rnd shuffle dc io m cuid minSplitSize fbm") auto
    have k: "requested_ok m cuid m1 r1" by (rule request_segment_ok [OF Suc.prems(1,2,3) m1])
    have sh: "same_shape (sm_storage m) (sm_storage m1)" and i1: "sm_inv m1" and len: "length (sm_entries m1) \<le> Suc (length (sm_entries m))"
      using k by (simp_all add: requested_ok_def)
    have rd: "selector_ready rnd (sm_storage m1)" by (rule selector_ready_shape [OF Suc.prems(2) sh])
    show ?thesis
    proof (cases r1)
      case (Inl e)
      then show ?thesis using Suc.prems(4) True m1 i1 sh len by auto
    next
      case (Inr p)
      have c: "counts_ok m \<longrightarrow> counts_ok m1" using k Inr by (simp add: requested_ok_def split: option.splits)
      show ?thesis
      proof (cases p)
        case None
        then show ?thesis using Suc.prems(4) True m1 i1 sh len c Inr by auto
      next
        case (Some sa)
        obtain segs' pend' where "get_segments_loop fuel rnd shuffle dc io cuid minSplitSize fbm fe maxSegments m1 segs' pend' = Some (Some (m', r))"
          using Suc.prems(4) True m1 Inr Some by (auto simp: Let_def split: if_splits)
        from Suc.IH [OF i1 rd Suc.prems(3) this] show ?thesis using sh len c by (auto simp: same_shape_def)
      qed
    qed
  qed
qed

lemma cancel_pending_ok:
  assumes "sm_inv m" "cancel_pending io cuid pend m = Some (m', r)"
  shows "sm_inv m' \<and> (r = Inr () \<longrightarrow> counts_ok m \<longrightarrow> length (sm_entries m) < 2 ^ 16 \<longrightarrow> counts_ok m')
     \<and> length (sm_entries m') \<le> length (sm_entries m)"
  using assms
proof (induction pend arbitrary: m)
  case (Cons sa pend)
  obtain m1 r1 where m1: "cancel_first io cuid (segment_index m sa) [] (sm_entries m) m = Some (m1, r1)"
    using Cons.prems(2) by (auto simp: SegmentMan_cancelSegment_segment_def bind_eq_Some_conv)
  note k = cancel_first_ok [OF Cons.prems(1) _ m1, simplified]
  show ?case
  proof (cases r1)
    case (Inl e)
    then show ?thesis using Cons.prems(2) m1 k by (auto simp: SegmentMan_cancelSegment_segment_def)
  next
    case (Inr u)
    then have "cancel_pending io cuid pend m1 = Some (m', r)"
      using Cons.prems(2) m1 by (simp add: SegmentMan_cancelSegment_segment_def)
    from Cons.IH [OF _ this] show ?thesis using k Inr by auto
  qed
qed simp

lemma getSegments_ok:
  assumes inv: "sm_inv m" and rdy: "selector_ready rnd (sm_storage m)" and sh: "\<And>xs. set (shuffle xs) = set xs"
    and run: "SegmentMan_getSegments fuel rnd shuffle dc io m segments cuid minSplitSize fe maxSegments = Some (Some (m', r))"
  shows "sm_inv m' \<and> ((\<exists>x. r = Inr x) \<longrightarrow> counts_ok m \<longrightarrow> length (sm_entries m) + fuel < 2 ^ 16 \<longrightarrow> counts_ok m')"
proof -
  define fbm where "fbm = BitfieldMan_addNotFilter (BitfieldMan_enableFilter (BitfieldMan_copy (sm_ignoreBitfield m))) (fe_offset fe) (fe_length fe)"
  obtain m1 r1 where m1: "get_segments_loop fuel rnd shuffle dc io cuid minSplitSize fbm fe maxSegments m segments [] = Some (Some (m1, r1))"
    using run by (auto simp: SegmentMan_getSegments_def fbm_def [symmetric] Let_def split: option.splits)
  note k = get_segments_loop_ok [OF inv rdy sh m1]
  show ?thesis
  proof (cases r1)
    case (Inl e)
    then show ?thesis using run m1 k by (auto simp: SegmentMan_getSegments_def fbm_def [symmetric] Let_def)
  next
    case (Inr x)
    obtain segs pend where x: "x = (segs, pend)" by (rule prod.exhaust)
    obtain r2 where r2: "cancel_pending io cuid pend m1 = Some (m', r2)" "r = (case r2 of Inl e \<Rightarrow> Inl e | Inr _ \<Rightarrow> Inr segs)"
      using run m1 Inr x by (auto simp: SegmentMan_getSegments_def fbm_def [symmetric] Let_def)
    have i1: "sm_inv m1" using k by simp
    show ?thesis using cancel_pending_ok [OF i1 r2(1)] k Inr r2(2) by (cases r2) auto
  qed
qed

lemma cleanSegment_ok:
  assumes inv: "sm_inv m" and idx: "index < bm_blocks (ps_bm (sm_storage m))"
    and run: "SegmentMan_getCleanSegmentIfOwnerIsIdle dc io m cuid index = Some (m', r)"
  shows "sm_inv m' \<and> ((\<exists>x. r = Inr x) \<longrightarrow> counts_ok m \<longrightarrow> length (sm_entries m) < 2 ^ 16 \<longrightarrow> counts_ok m')"
proof -
  consider "m' = m" | owner m1 r1 where "SegmentMan_cancelSegment io m owner = Some (m1, r1)"
      "r1 = Inr () \<and> SegmentMan_getSegmentWithIndex dc io m1 cuid index = Some (m', r) \<or> (\<exists>e. r1 = Inl e \<and> r = Inl e \<and> m' = m1)"
    using run by (auto simp: SegmentMan_getCleanSegmentIfOwnerIsIdle_def bind_eq_Some_conv Let_def split: if_splits option.splits sum.splits)
  then show ?thesis
  proof cases
    case 1
    then show ?thesis using inv by simp
  next
    case (2 owner m1 r1)
    have i0: "sm_inv (m\<lparr>sm_entries := [] @ sm_entries m\<rparr>)" using inv by simp
    have r0: "cancel_loop io owner [] (sm_entries m) m = Some (m1, r1)" using 2(1) by (simp add: SegmentMan_cancelSegment_def)
    note k = cancel_loop_ok [OF i0 r0, simplified]
    have i1: "sm_inv m1" "index < bm_blocks (ps_bm (sm_storage m1))" using k idx by (auto simp: same_places_def same_shape_def)
    show ?thesis
    proof (cases r1)
      case (Inl e)
      then show ?thesis using 2(2) k by auto
    next
      case (Inr u)
      then have g: "SegmentMan_getSegmentWithIndex dc io m1 cuid index = Some (m', r)" using 2(2) by simp
      show ?thesis using segmentWithIndex_ok [OF i1 g] k Inr by (auto simp: requested_ok_def split: option.splits)
    qed
  qed
qed

lemma cancel_all_ok:
  assumes "sm_inv (m\<lparr>sm_entries := es\<rparr>)" "cancel_all_loop io es m = Some (m', Inr ())"
  shows "sm_inv m'"
  using assms
proof (induction es arbitrary: m)
  case (Cons e es)
  obtain c sa where e: "e = (c, sa)" by (rule prod.exhaust)
  obtain m1 where m1: "SegmentMan_cancelSegmentInternal io m c sa = Some (m1, Inr ())" "cancel_all_loop io es m1 = Some (m', Inr ())"
    using Cons.prems(2) e by (auto simp: bind_eq_Some_conv split: sum.splits) (metis (full_types) unit.exhaust sum.exhaust)+
  have "sm_inv (m\<lparr>sm_entries := [] @ (c, sa) # es\<rparr>)" using Cons.prems(1) e by simp
  from cancelSegmentInternal_ok(1) [OF this m1(1)] have "sm_inv (m1\<lparr>sm_entries := es\<rparr>)" by simp
  then show ?case by (rule Cons.IH [OF _ m1(2)])
qed simp


subsection \<open>The manager over time\<close>

datatype sm_event =
    GetSegment nat "nat list \<Rightarrow> nat list" download_context "cell list \<Rightarrow> bool" int nat
  | GetSegments nat nat "nat list \<Rightarrow> nat list" download_context "cell list \<Rightarrow> bool" "nat list" int nat file_entry nat
  | GetIndex download_context "cell list \<Rightarrow> bool" int nat
  | GetClean download_context "cell list \<Rightarrow> bool" int nat
  | CancelConnection "cell list \<Rightarrow> bool" int
  | CancelOne "cell list \<Rightarrow> bool" int nat
  | CancelAll "cell list \<Rightarrow> bool"
  | CompleteOne int nat int
  | Write nat int
  | OtherStorage piece_storage
  | IgnoreFile file_entry
  | RecognizeFile file_entry
  | EraseMemo
  | RegisterStat nat
  | UpdateFastest nat

text \<open>An event's outcome: the state, and whether it ended without an exception.\<close>

definition outcome :: "'a sm_result \<Rightarrow> (segment_man \<times> bool) option" where
  "outcome x = map_option (\<lambda>(m, r). (m, case r of Inl e \<Rightarrow> False | Inr _ \<Rightarrow> True)) x"

fun sm_step :: "sm_event \<Rightarrow> segment_man \<Rightarrow> (segment_man \<times> bool) option" where
  "sm_step (GetSegment rnd shuffle dc io cuid mss) m = outcome (SegmentMan_getSegment rnd shuffle dc io m cuid mss)"
| "sm_step (GetSegments fuel rnd shuffle dc io segs cuid mss fe n) m =
     Option.bind (SegmentMan_getSegments fuel rnd shuffle dc io m segs cuid mss fe n) outcome"
| "sm_step (GetIndex dc io cuid index) m = outcome (SegmentMan_getSegmentWithIndex dc io m cuid index)"
| "sm_step (GetClean dc io cuid index) m = outcome (SegmentMan_getCleanSegmentIfOwnerIsIdle dc io m cuid index)"
| "sm_step (CancelConnection io cuid) m = outcome (SegmentMan_cancelSegment io m cuid)"
| "sm_step (CancelOne io cuid sa) m = outcome (SegmentMan_cancelSegment_segment io m cuid sa)"
| "sm_step (CancelAll io) m = outcome (SegmentMan_cancelAllSegments io m)"
| "sm_step (CompleteOne cuid sa t) m = map_option (\<lambda>(m', _). (m', True)) (SegmentMan_completeSegment m cuid sa t)"
| "sm_step (Write sa n) m =
     map_option (\<lambda>(seg, p). (m\<lparr>sm_segments := (sm_segments m)(sa := seg), sm_storage := put_piece (sm_storage m) (sg_piece (sm_segments m sa)) p\<rparr>, True))
       (Segment_updateWrittenLength (sm_segments m sa) (segment_piece m sa) n)"
| "sm_step (OtherStorage s) m = Some (put_storage m s, True)"
| "sm_step (IgnoreFile fe) m = Some (SegmentMan_ignoreSegmentFor m fe, True)"
| "sm_step (RecognizeFile fe) m = Some (SegmentMan_recognizeSegmentFor m fe, True)"
| "sm_step EraseMemo m = Some (SegmentMan_eraseSegmentWrittenLengthMemo m, True)"
| "sm_step (RegisterStat a) m = Some (SegmentMan_registerPeerStat m a, True)"
| "sm_step (UpdateFastest a) m = Some (SegmentMan_updateFastestPeerStat m a, True)"

text \<open>
  What the callers keep to: the selector is set up, indexes are in range, only a connection's own
  segment is completed, written bytes belong to a segment that was handed out, and what else
  happens to the storage touches no hold.
\<close>

fun sm_event_ok :: "sm_event \<Rightarrow> segment_man \<Rightarrow> bool" where
  "sm_event_ok (GetSegment rnd shuffle dc io cuid mss) m \<longleftrightarrow> selector_ready rnd (sm_storage m) \<and> (\<forall>xs. set (shuffle xs) = set xs)"
| "sm_event_ok (GetSegments fuel rnd shuffle dc io segs cuid mss fe n) m \<longleftrightarrow> selector_ready rnd (sm_storage m) \<and> (\<forall>xs. set (shuffle xs) = set xs)"
| "sm_event_ok (GetIndex dc io cuid index) m \<longleftrightarrow> index < bm_blocks (ps_bm (sm_storage m))"
| "sm_event_ok (GetClean dc io cuid index) m \<longleftrightarrow> index < bm_blocks (ps_bm (sm_storage m))"
| "sm_event_ok (CompleteOne cuid sa t) m \<longleftrightarrow> (cuid, sa) \<in> set (sm_entries m)"
| "sm_event_ok (Write sa n) m \<longleftrightarrow> sa < sm_next m"
| "sm_event_ok (OtherStorage s) m \<longleftrightarrow> quiet (sm_storage m) s"
| "sm_event_ok _ m \<longleftrightarrow> True"

text \<open>The counts are 16 bits wide: while an event runs there are fewer than \<open>2 ^ 16\<close> segments out.\<close>

fun sm_room :: "sm_event \<Rightarrow> segment_man \<Rightarrow> bool" where
  "sm_room (GetSegments fuel rnd shuffle dc io segs cuid mss fe n) m \<longleftrightarrow> length (sm_entries m) + fuel < 2 ^ 16"
| "sm_room (CancelAll io) m \<longleftrightarrow> False"
| "sm_room _ m \<longleftrightarrow> length (sm_entries m) < 2 ^ 16"

fun is_cancel_all :: "sm_event \<Rightarrow> bool" where
  "is_cancel_all (CancelAll io) \<longleftrightarrow> True"
| "is_cancel_all _ \<longleftrightarrow> False"

text \<open>
  The flag says that so far nothing ended in an exception, no \<open>cancelAllSegments\<close> ran (it leaves the
  counts alone) and the counts had room. After a failed \<open>cancelAllSegments\<close> the run ends.
\<close>

inductive sm_reach :: "bool \<Rightarrow> segment_man \<Rightarrow> bool" where
  start: "storage_reach s \<Longrightarrow> sm_reach True (SegmentMan_new dc s stats)"
| step: "sm_reach exact m \<Longrightarrow> sm_event_ok e m \<Longrightarrow> sm_step e m = Some (m', fine) \<Longrightarrow> fine \<or> \<not> is_cancel_all e
     \<Longrightarrow> sm_reach (exact \<and> fine \<and> sm_room e m) m'"

lemma outcome_Some: "outcome x = Some (m, b) \<longleftrightarrow> (\<exists>r. x = Some (m, r) \<and> b = (\<exists>y. r = Inr y))"
proof -
  have "(case r of Inl e \<Rightarrow> False | Inr _ \<Rightarrow> True) = (\<exists>y. r = Inr y)" for r :: "download_error + 'a" by (cases r) simp_all
  then show ?thesis by (cases x) (auto simp: outcome_def)
qed

lemma write_progress:
  assumes inv: "sm_inv m" and sa: "sa < sm_next m" and run: "Segment_updateWrittenLength (sm_segments m sa) (segment_piece m sa) n = Some (seg, p)"
  shows "progressed m (m\<lparr>sm_segments := (sm_segments m)(sa := seg), sm_storage := put_piece (sm_storage m) (sg_piece (sm_segments m sa)) p\<rparr>)"
proof -
  let ?s = "sm_storage m" and ?a = "sg_piece (sm_segments m sa)"
  have f: "pieced (sm_segments m sa)" "?a < ps_fresh ?s" using inv sa by (auto simp: sm_inv_def sm_base_def)
  have wf: "piece_wf (ps_bm ?s) (segment_piece m sa)"
    using piece_at [OF storage_invD [OF sm_inv_storage [OF inv]] f(2)] by (simp add: segment_piece_def)
  note u = Pieced_update_frame [OF run [unfolded pieced_fields(3) [OF f(1)]]]
  have ok: "piece_ok (segment_piece m sa)" using wf by (simp add: piece_wf_def)
  note g = piece_frameD [OF u(3) [OF ok]]
  have "quiet ?s (put_piece ?s ?a p)"
    by (rule quiet_put [OF sm_inv_storage [OF inv] f(2) piece_wf_frame [OF wf u(3,2) [OF ok]]]) (simp_all add: g segment_piece_def)
  then show ?thesis using u(1) [OF ok] by (auto simp: progressed_def)
qed

lemma quiet_progress: "quiet (sm_storage m) s \<Longrightarrow> progressed m (put_storage m s)"
  by (simp add: progressed_def put_storage_def)

lemma side_fields:
  assumes "sm_storage m' = sm_storage m" "sm_segments m' = sm_segments m" "sm_next m' = sm_next m" "sm_entries m' = sm_entries m"
    and "sm_urgency_map m' = sm_urgency_map m"
  shows "sm_inv m' = sm_inv m" "counts_ok m' = counts_ok m"
  using assms by (simp_all add: sm_inv_def sm_base_def sm_ledger_def counts_ok_def requested_def SegmentMan_getPieceRequestedCount_def
      segment_index_def segment_piece_def)

lemma updateFastest_side:
  "sm_storage (SegmentMan_updateFastestPeerStat m a) = sm_storage m" "sm_segments (SegmentMan_updateFastestPeerStat m a) = sm_segments m"
  "sm_next (SegmentMan_updateFastestPeerStat m a) = sm_next m" "sm_entries (SegmentMan_updateFastestPeerStat m a) = sm_entries m"
  "sm_urgency_map (SegmentMan_updateFastestPeerStat m a) = sm_urgency_map m"
  by (simp_all add: SegmentMan_updateFastestPeerStat_def Let_def split: option.split)

lemma sm_step_ok:
  assumes inv: "sm_inv m" and ok: "sm_event_ok e m" and run: "sm_step e m = Some (m', fine)" and ca: "fine \<or> \<not> is_cancel_all e"
  shows "sm_inv m' \<and> (counts_ok m \<longrightarrow> fine \<longrightarrow> sm_room e m \<longrightarrow> counts_ok m')"
proof (cases e)
  case (GetSegment rnd shuffle dc io cuid mss)
  obtain r where r: "request_segment rnd shuffle dc io m cuid mss (sm_ignoreBitfield m) = Some (m', r)" "fine = (\<exists>y. r = Inr y)"
    using run GetSegment by (auto simp: outcome_Some SegmentMan_getSegment_def)
  have "requested_ok m cuid m' r" by (rule request_segment_ok [OF inv _ _ r(1)]) (use ok GetSegment in auto)
  then show ?thesis using r(2) by (auto simp: requested_ok_def split: option.splits)
next
  case (GetSegments fuel rnd shuffle dc io segs cuid mss fe n)
  obtain r where r: "SegmentMan_getSegments fuel rnd shuffle dc io m segs cuid mss fe n = Some (Some (m', r))" "fine = (\<exists>y. r = Inr y)"
    using run GetSegments by (auto simp: bind_eq_Some_conv outcome_Some)
  have sh: "\<And>xs. set (shuffle xs) = set xs" and rd: "selector_ready rnd (sm_storage m)" using ok GetSegments by simp_all
  show ?thesis using getSegments_ok [OF inv rd sh r(1)] r(2) GetSegments by simp
next
  case (GetIndex dc io cuid index)
  obtain r where r: "SegmentMan_getSegmentWithIndex dc io m cuid index = Some (m', r)" "fine = (\<exists>y. r = Inr y)"
    using run GetIndex by (auto simp: outcome_Some)
  have "requested_ok m cuid m' r" by (rule segmentWithIndex_ok [OF inv _ r(1)]) (use ok GetIndex in simp)
  then show ?thesis using r(2) by (auto simp: requested_ok_def split: option.splits)
next
  case (GetClean dc io cuid index)
  obtain r where r: "SegmentMan_getCleanSegmentIfOwnerIsIdle dc io m cuid index = Some (m', r)" "fine = (\<exists>y. r = Inr y)"
    using run GetClean by (auto simp: outcome_Some)
  show ?thesis using cleanSegment_ok [OF inv _ r(1)] ok r(2) GetClean by simp
next
  case (CancelConnection io cuid)
  obtain r where r: "cancel_loop io cuid [] (sm_entries m) m = Some (m', r)" "fine = (\<exists>y. r = Inr y)"
    using run CancelConnection by (auto simp: outcome_Some SegmentMan_cancelSegment_def)
  have i: "sm_inv (m\<lparr>sm_entries := [] @ sm_entries m\<rparr>)" using inv by simp
  show ?thesis using cancel_loop_ok [OF i r(1), simplified] r(2) CancelConnection by auto
next
  case (CancelOne io cuid sa)
  obtain r where r: "cancel_first io cuid (segment_index m sa) [] (sm_entries m) m = Some (m', r)" "fine = (\<exists>y. r = Inr y)"
    using run CancelOne by (auto simp: outcome_Some SegmentMan_cancelSegment_segment_def)
  show ?thesis using cancel_first_ok [OF inv _ r(1), simplified] r(2) CancelOne by auto
next
  case (CancelAll io)
  then have c: "cancel_all_loop io (sm_entries m) m = Some (m', Inr ())"
    using run ca by (auto simp: outcome_Some SegmentMan_cancelAllSegments_def)
  have "sm_inv (m\<lparr>sm_entries := sm_entries m\<rparr>)" using inv by simp
  from cancel_all_ok [OF this c] show ?thesis using CancelAll by simp
next
  case (CompleteOne cuid sa t)
  obtain d where d: "SegmentMan_completeSegment m cuid sa t = Some (m', d)" "(cuid, sa) \<in> set (sm_entries m)"
    using run ok CompleteOne by auto
  show ?thesis using completeSegment_ok(1,4) [OF inv d(2,1)] CompleteOne by simp
next
  case (Write sa n)
  obtain seg p where w: "Segment_updateWrittenLength (sm_segments m sa) (segment_piece m sa) n = Some (seg, p)"
    "m' = m\<lparr>sm_segments := (sm_segments m)(sa := seg), sm_storage := put_piece (sm_storage m) (sg_piece (sm_segments m sa)) p\<rparr>"
    using run Write by auto
  have "progressed m m'" unfolding w(2) by (rule write_progress [OF inv _ w(1)]) (use ok Write in simp)
  then show ?thesis using progressed_inv(1,3) [OF inv] by simp
next
  case (OtherStorage s)
  then have "progressed m m'" using run ok quiet_progress by auto
  then show ?thesis using progressed_inv(1,3) [OF inv] by simp
next
  case (UpdateFastest a)
  then show ?thesis using run inv side_fields [OF updateFastest_side] by auto
qed (use run inv in \<open>auto simp: SegmentMan_ignoreSegmentFor_def SegmentMan_recognizeSegmentFor_def
      SegmentMan_eraseSegmentWrittenLengthMemo_def SegmentMan_registerPeerStat_def side_fields [of "m\<lparr>sm_ignoreBitfield := _\<rparr>" m]
      side_fields [of "m\<lparr>sm_memo := _\<rparr>" m] side_fields [of "m\<lparr>sm_peerStats := _\<rparr>" m]\<close>)

lemma sm_reach_inv: "sm_reach exact m \<Longrightarrow> sm_inv m \<and> (exact \<longrightarrow> counts_ok m)"
proof (induction rule: sm_reach.induct)
  case (start s dc stats)
  have "pool.ledger s []" by (rule pool.ledger_Nil [OF storage_reach_inv [OF start]])
  then show ?case by (simp add: sm_inv_def sm_base_def sm_ledger_def counts_ok_def requested_def SegmentMan_new_def
      SegmentMan_getPieceRequestedCount_def)
next
  case (step exact m e m' fine)
  then show ?case using sm_step_ok [of m e m' fine] by auto
qed


subsection \<open>The search for several segments ends\<close>

lemma checkOutPiece_index:
  assumes "DefaultPieceStorage_checkOutPiece dc io s j c = Some (s', a)" shows "pc_index (ps_pieces s' a) = j"
proof -
  have w: "pc_index (ps_pieces t' a) = pc_index (ps_pieces t a)" if "storage_initWrCache dc io t a = Some t'" for t t'
    using that by (auto simp: storage_initWrCache_def split: option.splits if_splits)
  let ?s1 = "s\<lparr>ps_bm := fst (BitfieldMan_setUseBit (ps_bm s) j)\<rparr>"
  let ?pair = "case DefaultPieceStorage_findUsedPiece ?s1 j of Some a \<Rightarrow> (?s1, a)
    | None \<Rightarrow> let (s', a) = alloc_piece ?s1 (storage_new_piece dc ?s1 j) in (DefaultPieceStorage_addUsedPiece s' a, a)"
  obtain t b where tb: "?pair = (t, b)" by (rule prod.exhaust)
  then have r: "b = a" "storage_initWrCache dc io (put_piece t a (Piece_addUser (ps_pieces t a) c)) a = Some s'"
    using assms unfolding DefaultPieceStorage_checkOutPiece_def Let_def by (auto split: if_splits)
  have "pc_index (ps_pieces t a) = j"
  proof (cases "DefaultPieceStorage_findUsedPiece ?s1 j")
    case None
    then show ?thesis using tb r(1) by (auto simp: alloc_piece_def storage_new_piece_def Piece_new_def DefaultPieceStorage_addUsedPiece_def)
  next
    case (Some d)
    then show ?thesis using tb r(1) findUsedPiece_Some [OF Some] by simp
  qed
  then show ?thesis using w [OF r(2)] by simp
qed

text \<open>A piece that is not free is given only below the limit of segments per piece.\<close>

lemma stream_request_limit:
  fixes s :: piece_storage and dc :: download_context
  assumes "storage_ok s" "selector_ready rnd s" "\<And>xs. set (shuffle xs) = set xs"
    and g: "dc_group dc = Some g" "rg_segments g = Some req"
    and run: "DefaultPieceStorage_getMissingPiece_stream rnd shuffle dc io s m ign cuid = Some (s', Some a)"
  shows "pc_index (ps_pieces s' a) \<in> bm_free (ps_bm s) ign \<or> req (pc_index (ps_pieces s' a)) < ps_max_segs s"
proof -
  let ?s1 = "storage_enterEndGame dc s"
  have l: "bm_layout (ps_bm ?s1)" "0 < bm_blocks (ps_bm ?s1)" "selector_ready rnd ?s1"
    using storage_okD [OF assms(1)] assms(2) by simp_all
  have m: "ps_max_segs ?s1 = ps_max_segs s" by (simp add: storage_enterEndGame_def Let_def split: option.split)
  obtain sn idx where si: "(if ps_endGame ?s1 then storage_snipe shuffle dc ?s1 ign else Some None) = Some sn"
    "(case sn of Some i \<Rightarrow> Some (Some i) | None \<Rightarrow> stream_select rnd (ps_streamSelector ?s1) (ps_bm ?s1) m ign) = Some idx"
    "(case idx of None \<Rightarrow> Some (?s1, None) | Some i \<Rightarrow> map_option (\<lambda>(s2, a). (s2, Some a)) (DefaultPieceStorage_checkOutPiece dc io ?s1 i cuid))
      = Some (s', Some a)"
    using run unfolding DefaultPieceStorage_getMissingPiece_stream_def Let_def bind_eq_Some_conv by blast
  obtain j where sn: "(if ps_endGame ?s1 then storage_snipe shuffle dc ?s1 ign else Some None) = Some sn"
    "(case sn of Some i \<Rightarrow> Some (Some i) | None \<Rightarrow> stream_select rnd (ps_streamSelector ?s1) (ps_bm ?s1) m ign) = Some (Some j)"
    "DefaultPieceStorage_checkOutPiece dc io ?s1 j cuid = Some (s', a)"
    using si by (cases idx) auto
  have "j \<in> bm_free (ps_bm s) ign \<or> req j < ps_max_segs s"
  proof (cases sn)
    case None
    obtain r where "stream_select rnd (ps_streamSelector ?s1) (ps_bm ?s1) m ign = Some r" "\<forall>i. r = Some i \<longrightarrow> i \<in> bm_free (ps_bm ?s1) ign"
      using stream_select_free [OF l, of m ign] by blast
    then show ?thesis using sn(2) None by simp
  next
    case (Some i)
    then have "storage_snipe shuffle dc ?s1 ign = Some (Some j)" using sn(1,2) by (auto split: if_splits)
    then obtain cand where "storage_inFlight dc ?s1 cand \<noteq> []" "j = hd (shuffle (storage_inFlight dc ?s1 cand))"
      by (auto simp: storage_snipe_def bind_eq_Some_conv Let_def split: if_splits)
    then have "j \<in> set (storage_inFlight dc ?s1 cand)" using assms(3) hd_in_set by (metis set_empty)
    then show ?thesis using g m by (auto simp: storage_inFlight_def)
  qed
  then show ?thesis using checkOutPiece_index [OF sn(3)] by simp
qed

text \<open>What a search can still be given: the free pieces, and the segments below the limit.\<close>

definition search_bound :: "segment_man \<Rightarrow> byte list \<Rightarrow> nat" where
  "search_bound m ign = card (bm_free (ps_bm (sm_storage m)) ign) * (unat (ps_max_segs (sm_storage m)) + 1)
     + (\<Sum>i < bm_blocks (ps_bm (sm_storage m)). unat (ps_max_segs (sm_storage m)) - unat (SegmentMan_getPieceRequestedCount m i))"

lemma bm_free_finite [simp]: "finite (bm_free bm ign)"
  by (rule finite_subset [of _ "{..<bm_blocks bm}"]) (auto simp: bm_free_def bm_wanted_def bm_selected_def bit_set_def split: option.splits if_splits)

lemma sum_up_one:
  fixes f g :: "nat \<Rightarrow> nat"
  assumes "finite A" "i \<in> A" "\<And>j. j \<noteq> i \<Longrightarrow> f j = g j"
  shows "sum f A + g i = sum g A + f i"
proof -
  have "sum f (A - {i}) = sum g (A - {i})" by (rule sum.cong) (use assms(3) in auto)
  then show ?thesis using assms(1,2) by (simp add: sum.remove)
qed

lemma request_shrinks:
  assumes inv: "sm_inv m" and rdy: "selector_ready rnd (sm_storage m)" and sh: "\<And>xs. set (shuffle xs) = set xs"
    and g: "dc_group dc \<noteq> None" and ign: "bm_filterBitfield fbm = Some ign"
    and run: "request_segment rnd shuffle dc io m cuid minSplitSize fbm = Some (m', Inr (Some sa))"
  shows "search_bound m' ign < search_bound m ign"
proof -
  let ?s = "sm_storage m" and ?dc = "with_counts dc m" and ?cnt = "SegmentMan_getPieceRequestedCount m"
  let ?max = "unat (ps_max_segs ?s)" and ?F = "bm_free (ps_bm ?s) ign"
  note sinv = sm_inv_storage [OF inv]
  obtain s1 p where r: "DefaultPieceStorage_getMissingPiece_stream rnd shuffle ?dc io ?s minSplitSize ign cuid = Some (s1, p)"
    "SegmentMan_checkoutSegment dc io (put_storage m s1) cuid p = Some (m', Inr (Some sa))"
    using run ign by (auto simp: request_segment_def bind_eq_Some_conv)
  obtain a where p: "p = Some a" using r(2) by (cases p) (simp_all add: SegmentMan_checkoutSegment_def)
  obtain g0 where g0: "dc_group dc = Some g0" using g by blast
  have lim: "pc_index (ps_pieces s1 a) \<in> ?F \<or> ?cnt (pc_index (ps_pieces s1 a)) < ps_max_segs ?s"
    by (rule stream_request_limit [OF storage_invD [OF sinv] rdy sh _ _ r(1) [unfolded p],
          where g = "g0\<lparr>rg_segments := Some ?cnt\<rparr>"]) (simp_all add: with_counts_def g0)
  obtain i where i: "checked_out (storage_enterEndGame ?dc ?s) i cuid s1 a" "i < bm_blocks (ps_bm ?s)"
    by (rule stream_request_ok [OF storage_invD [OF sinv] rdy sh, where dc = ?dc and io = io and m = minSplitSize and ign = ign and cuid = cuid])
      (use r(1) p in auto)
  have "ps_max_segs (storage_enterEndGame ?dc ?s) = ps_max_segs ?s"
    by (simp add: storage_enterEndGame_def Let_def split: option.split)
  then have s1: "ps_bm s1 = fst (BitfieldMan_setUseBit (ps_bm ?s) i)" "ps_max_segs s1 = ps_max_segs ?s" "pc_index (ps_pieces s1 a) = i"
    using i(1) by (simp_all add: checked_out_def)
  have got: "storage_got ?s cuid s1 a" unfolding storage_got_def
    by (rule disjI1, rule exI [of _ rnd], rule exI [of _ shuffle], rule exI [of _ ?dc], rule exI [of _ io], rule exI [of _ minSplitSize],
        rule exI [of _ ign]) (use r(1) p rdy sh in simp)
  note gb = sm_inv_got_base [OF inv got]
  have q: "quiet s1 (sm_storage m')" and cnt: "\<And>j. SegmentMan_getPieceRequestedCount m' j = ?cnt j + (if j = i then 1 else 0)"
  proof -
    have "storage_inv (sm_storage (put_storage m s1))" "a < ps_fresh (sm_storage (put_storage m s1))" using gb(3,4) by (simp_all add: put_storage_def)
    from checkoutSegment_ok [OF gb(1) this r(2) [unfolded p]]
    have "quiet (sm_storage (put_storage m s1)) (sm_storage m') \<and> (\<forall>j. SegmentMan_getPieceRequestedCount m' j
        = SegmentMan_getPieceRequestedCount (put_storage m s1) j + (if j = pc_index (ps_pieces (sm_storage (put_storage m s1)) a) then 1 else 0))"
      by (metis Inl_not_Inr)
    then show "quiet s1 (sm_storage m')" "\<And>j. SegmentMan_getPieceRequestedCount m' j = ?cnt j + (if j = i then 1 else 0)"
      using s1(3) by (simp_all add: put_storage_def SegmentMan_getPieceRequestedCount_def)
  qed
  have l: "bm_layout (ps_bm ?s)" using storage_okD [OF storage_invD [OF sinv]] by simp
  note u = BitfieldMan_setUseBit_spec [OF l, of i]
  have bl: "bm_blocks (ps_bm s1) = bm_blocks (ps_bm ?s)" using geometry_ops(3) [of "ps_bm ?s" i] s1(1) by (simp add: bm_geometry_def)
  have F': "bm_free (ps_bm s1) ign = ?F - {i}"
    using u i(2) bl s1(1) geometry_ops(3) [of "ps_bm ?s" i] by (auto simp: bm_free_def bm_wanted_def bm_geometry_def)
  have m': "ps_bm (sm_storage m') = ps_bm s1" "ps_max_segs (sm_storage m') = ps_max_segs ?s" using q s1(2) by (simp_all add: quiet_def)
  let ?f = "\<lambda>j. ?max - unat (SegmentMan_getPieceRequestedCount m' j)" and ?h = "\<lambda>j. ?max - unat (?cnt j)"
  have sum: "sum ?f {..<bm_blocks (ps_bm ?s)} + ?h i = sum ?h {..<bm_blocks (ps_bm ?s)} + ?f i"
    by (rule sum_up_one) (use i(2) cnt in auto)
  have b': "search_bound m' ign = card (?F - {i}) * (?max + 1) + sum ?f {..<bm_blocks (ps_bm ?s)}"
    by (simp add: search_bound_def m' F' bl)
  show ?thesis
  proof (cases "i \<in> ?F")
    case True
    then have c: "card ?F = Suc (card (?F - {i}))" by (rule card.remove [OF bm_free_finite])
    have "search_bound m ign = Suc (card (?F - {i})) * (?max + 1) + sum ?h {..<bm_blocks (ps_bm ?s)}"
      unfolding search_bound_def c ..
    moreover have "?f i \<le> ?max" by simp
    ultimately show ?thesis unfolding b' using sum by simp
  next
    case False
    then have lt: "?cnt i < ps_max_segs ?s" using lim s1(3) by simp
    have mx: "unat (ps_max_segs ?s) < 2 ^ 16" using unsigned_less [where 'a = nat, of "ps_max_segs ?s"] by simp
    have "unat (?cnt i + 1) = unat (?cnt i) + 1" using mx lt
      by (simp add: unat_plus_if' word_less_nat_alt)
    moreover have "unat (?cnt i) < ?max" using lt by (simp add: word_less_nat_alt)
    ultimately have "?f i < ?h i" using cnt [of i] by simp
    moreover have "?F - {i} = ?F" using False by simp
    ultimately show ?thesis using sum b' by (simp add: search_bound_def)
  qed
qed

lemma get_segments_loop_ends:
  assumes "sm_inv m" "selector_ready rnd (sm_storage m)" "\<And>xs. set (shuffle xs) = set xs" "dc_group dc \<noteq> None"
    and "bm_filterBitfield fbm = Some ign" "search_bound m ign < fuel"
  shows "get_segments_loop fuel rnd shuffle dc io cuid minSplitSize fbm fe maxSegments m segs pend \<noteq> None"
  using assms
proof (induction fuel arbitrary: m segs pend)
  case (Suc fuel)
  show ?case
  proof (cases "length segs < maxSegments")
    case True
    show ?thesis
    proof (cases "request_segment rnd shuffle dc io m cuid minSplitSize fbm")
      case None
      then show ?thesis using True by simp
    next
      case (Some x)
      obtain m1 r1 where m1: "request_segment rnd shuffle dc io m cuid minSplitSize fbm = Some (m1, r1)" using Some by (cases x) simp
      have k: "requested_ok m cuid m1 r1" by (rule request_segment_ok [OF Suc.prems(1,2,3) m1])
      show ?thesis
      proof (cases "\<exists>sa. r1 = Inr (Some sa)")
        case False
        then have "(\<exists>e. r1 = Inl e) \<or> r1 = Inr None" by (metis not_None_eq sum.exhaust)
        then show ?thesis using True m1 by auto
      next
        case sa: True
        then obtain sa where sa: "r1 = Inr (Some sa)" by blast
        have i1: "sm_inv m1" "selector_ready rnd (sm_storage m1)"
          using k selector_ready_shape [OF Suc.prems(2)] by (simp_all add: requested_ok_def)
        have "search_bound m1 ign < search_bound m ign"
          by (rule request_shrinks [OF Suc.prems(1-5) m1 [unfolded sa]])
        then have "search_bound m1 ign < fuel" using Suc.prems(6) by simp
        from Suc.IH [OF i1 Suc.prems(3-5) this] show ?thesis using True m1 sa by (simp add: Let_def)
      qed
    qed
  qed simp
qed simp


subsection \<open>Properties\<close>

definition demo_man :: segment_man where
  "demo_man = SegmentMan_new demo_dc demo_new (\<lambda>_. PeerStat_new 0 0 [] [])"

lemma demo_man_reach: "sm_reach True demo_man"
  unfolding demo_man_def by (rule sm_reach.start [OF demo_reach])

lemma demo_man_step:
  "map_option (\<lambda>(m, fine). (fine, sm_entries m, ps_endGame (sm_storage m), segment_index m 0, SegmentMan_getPieceRequestedCount m 2))
     (sm_step (GetIndex demo_dc (\<lambda>_. True) 7 2) demo_man) = Some (True, [(7, 0)], False, 2, 1)"
  by code_simp

lemma demo_man_next:
  obtains m where "sm_step (GetIndex demo_dc (\<lambda>_. True) 7 2) demo_man = Some (m, True)" "sm_reach True m" "sm_entries m = [(7, 0)]"
    "\<not> ps_endGame (sm_storage m)" "segment_index m 0 = 2" "SegmentMan_getPieceRequestedCount m 2 = 1"
proof -
  obtain m where m: "sm_step (GetIndex demo_dc (\<lambda>_. True) 7 2) demo_man = Some (m, True)" "sm_entries m = [(7, 0)]"
    "\<not> ps_endGame (sm_storage m)" "segment_index m 0 = 2" "SegmentMan_getPieceRequestedCount m 2 = 1"
    using demo_man_step by auto
  have "sm_event_ok (GetIndex demo_dc (\<lambda>_. True) 7 2) demo_man" "sm_room (GetIndex demo_dc (\<lambda>_. True) 7 2) demo_man"
    by (simp_all add: demo_man_def SegmentMan_new_def)
  with sm_reach.step [OF demo_man_reach this(1) m(1)] have "sm_reach True m" by simp
  then show thesis using that m by blast
qed

text \<open>C4: The urgency counts are exact: as long as nothing failed, no \<open>cancelAllSegments\<close> ran and fewer
  than \<open>2 ^ 16\<close> segments are out, \<open>getPieceRequestedCount\<close> of every piece is the number of
  segments of that piece that connections hold, whatever was checked out, cancelled, completed,
  handed over or written before.\<close>
theorem requested_count_exact:
  assumes "sm_reach True m"
  shows "SegmentMan_getPieceRequestedCount m i = of_nat (length (filter (\<lambda>e. segment_index m (snd e) = i) (sm_entries m)))"
  using sm_reach_inv [OF assms] by (simp add: counts_ok_def requested_def)

theorem requested_count_exact_witness:
  "\<exists>m. sm_step (GetIndex demo_dc (\<lambda>_. True) 7 2) demo_man = Some (m, True) \<and> sm_entries m = [(7, 0)]
     \<and> SegmentMan_getPieceRequestedCount m 2 = of_nat (length (filter (\<lambda>e. segment_index m (snd e) = 2) (sm_entries m)))"
proof (rule demo_man_next)
  fix m assume m: "sm_step (GetIndex demo_dc (\<lambda>_. True) 7 2) demo_man = Some (m, True)" "sm_reach True m" "sm_entries m = [(7, 0)]"
  show ?thesis using m(1,3) requested_count_exact [OF m(2), of 2] by blast
qed

text \<open>C5: Until the end game a piece is given to one connection only: in every run of the manager, with
  failed writes too, two entries whose segments have the same index are the same entry, its
  connection is a user of the piece object behind it, and the piece is in use and not finished.\<close>
theorem one_segment_per_piece:
  assumes "sm_reach exact m" "\<not> ps_endGame (sm_storage m)" "(c, sa) \<in> set (sm_entries m)" "(d, sb) \<in> set (sm_entries m)"
    and "segment_index m sa = segment_index m sb"
  shows "c = d \<and> sa = sb \<and> c \<in> set (pc_users (segment_piece m sa)) \<and> sg_piece (sm_segments m sa) \<in> set (ps_used (sm_storage m))
     \<and> \<not> SegmentMan_hasSegment m (segment_index m sa)"
proof -
  have inv: "sm_inv m" using sm_reach_inv [OF assms(1)] by simp
  have b: "sm_base m" using inv by (simp add: sm_inv_def)
  let ?a = "sg_piece (sm_segments m sa)"
  note sa = sm_baseD [OF b assms(3)]
  have "(c, ?a) \<in> set (sm_ledger m)" using assms(3) by (force simp: sm_ledger_def)
  then have "c \<in> storage_held (sm_storage m) ?a" using inv assms(2) by (auto simp: sm_inv_def pool.ledger_def)
  then have u: "c \<in> set (pc_users (segment_piece m sa))" "?a \<in> set (ps_used (sm_storage m))"
    by (auto simp: storage_held_def segment_piece_def split: if_splits)
  have "pc_index (ps_pieces (sm_storage m) ?a) \<notin> bm_have (ps_bm (sm_storage m))"
    using sm_inv_storage [OF inv] u(2) assms(2) by (auto simp: storage_inv_def held_rel_def)
  moreover have "pc_index (ps_pieces (sm_storage m) ?a) < bm_blocks (ps_bm (sm_storage m))"
    using piece_at [OF storage_invD [OF sm_inv_storage [OF inv]] sa(3)] by (simp add: piece_wf_def)
  ultimately have "\<not> SegmentMan_hasSegment m (segment_index m sa)"
    by (simp add: SegmentMan_hasSegment_def DefaultPieceStorage_hasPiece_def isBitSet_iff segment_index_pieced [OF sa(2)])
  then show ?thesis using entry_unique [OF inv assms(2-5)] u by simp
qed

theorem one_segment_per_piece_witness:
  "\<exists>m. sm_step (GetIndex demo_dc (\<lambda>_. True) 7 2) demo_man = Some (m, True) \<and> 7 \<in> set (pc_users (segment_piece m 0))
     \<and> \<not> SegmentMan_hasSegment m 2"
proof (rule demo_man_next)
  fix m assume m: "sm_step (GetIndex demo_dc (\<lambda>_. True) 7 2) demo_man = Some (m, True)" "sm_reach True m" "sm_entries m = [(7, 0)]"
    "\<not> ps_endGame (sm_storage m)" "segment_index m 0 = 2"
  have e: "(7, 0) \<in> set (sm_entries m)" using m(3) by simp
  show ?thesis using m(1,5) one_segment_per_piece [OF m(2,4) e e refl] by auto
qed

text \<open>C17: The search for several segments of a file ends: with a request group, the loop takes at most
  one round for each free piece times the limit of segments per piece plus one, and one for each
  further segment below the limit, however the segments fall into the file or outside it, in the
  end game as before; then it returns, or ends at an exception or a failed assertion.\<close>
theorem segment_search_ends:
  assumes "sm_reach exact m" "selector_ready rnd (sm_storage m)" "\<And>xs. set (shuffle xs) = set xs" "dc_group dc \<noteq> None"
    and "bm_filterBitfield fbm = Some ign" "search_bound m ign < fuel"
  shows "get_segments_loop fuel rnd shuffle dc io cuid minSplitSize fbm fe maxSegments m segs pend \<noteq> None"
  using get_segments_loop_ends [OF _ assms(2-6)] sm_reach_inv [OF assms(1)] by simp


theorem segment_search_ends_witness:
  "get_segments_loop 200 0 (\<lambda>xs. xs) (demo_dc\<lparr>dc_group := Some \<lparr>rg_inMemoryDownload = False, rg_numConcurrentCommand = 5, rg_segments = None\<rparr>\<rparr>)
     (\<lambda>_. True) 7 1 (sm_ignoreBitfield demo_man) \<lparr>fe_offset = 0, fe_length = 100000, fe_requested = True\<rparr> 8 demo_man [] [] \<noteq> None"
proof (rule segment_search_ends [OF demo_man_reach])
  show "bm_filterBitfield (sm_ignoreBitfield demo_man) = Some [0]" by code_simp
  show "selector_ready 0 (sm_storage demo_man)" by (simp add: selector_ready_def demo_man_def SegmentMan_new_def)
  have b: "bm_blocks (ps_bm (sm_storage demo_man)) = 4" by (simp add: demo_man_def SegmentMan_new_def)
  have m: "unat (ps_max_segs (sm_storage demo_man)) = 16" by code_simp
  have "bm_free (ps_bm (sm_storage demo_man)) [0] \<subseteq> {..<4}"
    unfolding b [symmetric] by (auto simp: bm_free_def bm_wanted_def bm_selected_def bit_set_def split: option.splits if_splits)
  from card_mono [OF _ this] have c: "card (bm_free (ps_bm (sm_storage demo_man)) [0]) \<le> 4" by simp
  have "(\<Sum>i<4. 16 - unat (SegmentMan_getPieceRequestedCount demo_man i)) \<le> (\<Sum>i<(4::nat). 16)" by (rule sum_mono) simp
  then show "search_bound demo_man [0] < 200" unfolding search_bound_def b m using c by simp
qed simp_all

text \<open>
  The heap of urgent pieces is not kept like the counts: \<open>update_heap\<close> erases the entry of the new
  count, not the one of the old count. After a piece was handed out twice and given back twice
  nobody has it, and it is still a candidate.
\<close>
theorem stale_urgency_entry:
  "SegmentMan_getUrgentPieceCandidates
     (urgency_decrement (urgency_decrement (urgency_increment (urgency_increment demo_man 2) 2) 2) 2) 16 = [2]
   \<and> SegmentMan_getPieceRequestedCount
     (urgency_decrement (urgency_decrement (urgency_increment (urgency_increment demo_man 2) 2) 2) 2) 2 = 0"
  by (rule conjI; code_simp)

end
