(* ===== verification/Multi_Disk.thy ===== *)
theory Multi_Disk
  imports Piece_Storage
begin

text \<open>
  \<open>MultiDiskAdaptor\<close>: the bytes of a download, numbered from 0, over several files. Each file has an
  entry that may have a disk writer; a writer is a record of operations on a file system that maps
  paths to contents. \<open>AbstractDiskWriter\<close>, without memory mapping, is one of them; the other,
  which the factory of this repository makes, is in Ring_Writer. What the operating system decides is
  an environment: which paths can be opened or created, how much of a write succeeds, and how
  short a read is. The counter of open files may close files of this adaptor before it opens
  one: \<open>evict i\<close> are the random numbers it draws before entry \<open>i\<close> is opened.
\<close>

subsection \<open>Files\<close>

type_synonym file_system = "string \<rightharpoonup> byte list"

record disk_env =
  env_open :: "string \<Rightarrow> bool"
  env_written :: "string \<Rightarrow> int \<Rightarrow> nat \<Rightarrow> nat"
  env_short :: "nat \<Rightarrow> nat"

datatype disk_error =
    OpenError string | NoSuchFile string | WriteError string | ReadError string
  | OffsetOutOfRange int | NotOpened int string | TruncateError string

text \<open>A write past the end leaves a gap of zeros; a write of nothing changes nothing.\<close>

definition write_at :: "byte list \<Rightarrow> nat \<Rightarrow> byte list \<Rightarrow> byte list" where
  "write_at c off d = (if d = [] then c else take off (c @ replicate off 0) @ d @ drop (off + length d) c)"

subsection \<open>Entries\<close>

text \<open>\<open>de_fd\<close> is the writer's descriptor, with whether it was opened for writing.\<close>

record disk_entry =
  de_file :: file_entry
  de_path :: string
  de_writer :: bool
  de_readOnly :: bool
  de_fd :: "bool option"
  de_open :: bool
  de_needsFileAllocation :: bool
  de_needsDiskWriter :: bool

definition createDiskWriterEntry :: "file_entry \<times> string \<Rightarrow> disk_entry" where
  "createDiskWriterEntry f =
     \<lparr>de_file = fst f, de_path = snd f, de_writer = False, de_readOnly = False, de_fd = None, de_open = False,
      de_needsFileAllocation = fe_requested (fst f), de_needsDiskWriter = False\<rparr>"

text \<open>A disk writer: what its virtual functions do to the file of an entry.\<close>

type_synonym open_result = "disk_error + (file_system \<times> disk_entry)"

record disk_writer =
  dw_initAndOpenFile :: "file_system \<Rightarrow> disk_entry \<Rightarrow> open_result"
  dw_openExistingFile :: "file_system \<Rightarrow> disk_entry \<Rightarrow> open_result"
  dw_writeData :: "file_system \<Rightarrow> disk_entry \<Rightarrow> byte list \<Rightarrow> int \<Rightarrow> file_system \<times> disk_error option"
  dw_readData :: "file_system \<Rightarrow> disk_entry \<Rightarrow> nat \<Rightarrow> nat \<Rightarrow> disk_error + byte list"
  dw_truncate :: "file_system \<Rightarrow> disk_entry \<Rightarrow> nat \<Rightarrow> file_system \<times> disk_error option"

text \<open>\<open>openFile\<close> creates a missing file; no writer overrides it.\<close>

definition AbstractDiskWriter_openFile :: "disk_writer \<Rightarrow> file_system \<Rightarrow> disk_entry \<Rightarrow> open_result" where
  "AbstractDiskWriter_openFile w disk e =
     (case dw_openExistingFile w disk e of
        Inl (NoSuchFile p) \<Rightarrow> dw_initAndOpenFile w disk e
      | r \<Rightarrow> r)"

text \<open>\<open>AbstractDiskWriter\<close> and the one function \<open>DefaultDiskWriter\<close> adds.\<close>

definition AbstractDiskWriter_createFile :: "disk_env \<Rightarrow> file_system \<Rightarrow> disk_entry \<Rightarrow> open_result" where
  "AbstractDiskWriter_createFile env disk e =
     (if env_open env (de_path e) then Inr (disk(de_path e \<mapsto> []), e\<lparr>de_fd := Some True\<rparr>) else Inl (OpenError (de_path e)))"

definition AbstractDiskWriter_openExistingFile :: "disk_env \<Rightarrow> file_system \<Rightarrow> disk_entry \<Rightarrow> open_result" where
  "AbstractDiskWriter_openExistingFile env disk e =
     (case disk (de_path e) of
        None \<Rightarrow> Inl (NoSuchFile (de_path e))
      | Some c \<Rightarrow> if env_open env (de_path e) then Inr (disk, e\<lparr>de_fd := Some (\<not> de_readOnly e)\<rparr>) else Inl (OpenError (de_path e)))"

text \<open>Without a descriptor \<open>seek\<close> throws; \<open>writeDataInternal\<close> goes on until all is written or a write fails.\<close>

definition file_content :: "file_system \<Rightarrow> string \<Rightarrow> byte list" where
  "file_content disk p = (case disk p of None \<Rightarrow> [] | Some c \<Rightarrow> c)"

definition AbstractDiskWriter_writeData :: "disk_env \<Rightarrow> file_system \<Rightarrow> disk_entry \<Rightarrow> byte list \<Rightarrow> int \<Rightarrow> file_system \<times> disk_error option" where
  "AbstractDiskWriter_writeData env disk e data off =
     (case de_fd e of
        None \<Rightarrow> (disk, Some (WriteError (de_path e)))
      | Some w \<Rightarrow>
          let n = (if w then min (env_written env (de_path e) off (length data)) (length data) else 0)
          in (disk(de_path e \<mapsto> write_at (file_content disk (de_path e)) (nat off) (take n data)),
              if n < length data then Some (WriteError (de_path e)) else None))"

definition AbstractDiskWriter_readData :: "disk_env \<Rightarrow> file_system \<Rightarrow> disk_entry \<Rightarrow> nat \<Rightarrow> nat \<Rightarrow> disk_error + byte list" where
  "AbstractDiskWriter_readData env disk e len off =
     (case de_fd e of
        None \<Rightarrow> Inl (ReadError (de_path e))
      | Some w \<Rightarrow>
          let avail = take len (drop off (file_content disk (de_path e)))
          in Inr (take (env_short env (length avail)) avail))"

definition AbstractDiskWriter_truncate :: "file_system \<Rightarrow> disk_entry \<Rightarrow> nat \<Rightarrow> file_system \<times> disk_error option" where
  "AbstractDiskWriter_truncate disk e n =
     (if de_fd e = Some True
      then let c = file_content disk (de_path e) in (disk(de_path e \<mapsto> take n c @ replicate (n - length c) 0), None)
      else (disk, Some (TruncateError (de_path e))))"

definition abstract_writer :: "disk_env \<Rightarrow> disk_writer" where
  "abstract_writer env =
     \<lparr>dw_initAndOpenFile = AbstractDiskWriter_createFile env, dw_openExistingFile = AbstractDiskWriter_openExistingFile env,
      dw_writeData = AbstractDiskWriter_writeData env, dw_readData = AbstractDiskWriter_readData env,
      dw_truncate = AbstractDiskWriter_truncate\<rparr>"

text \<open>\<open>DiskWriterEntry\<close>: an entry without a writer stays closed.\<close>

definition entry_open :: "open_result \<Rightarrow> file_system \<Rightarrow> disk_entry \<Rightarrow> open_result" where
  "entry_open r disk e =
     (if de_writer e then (case r of Inl err \<Rightarrow> Inl err | Inr (d, e') \<Rightarrow> Inr (d, e'\<lparr>de_open := True\<rparr>)) else Inr (disk, e))"

definition DiskWriterEntry_initAndOpenFile :: "disk_writer \<Rightarrow> file_system \<Rightarrow> disk_entry \<Rightarrow> open_result" where
  "DiskWriterEntry_initAndOpenFile w disk e = entry_open (dw_initAndOpenFile w disk e) disk e"

definition DiskWriterEntry_openFile :: "disk_writer \<Rightarrow> file_system \<Rightarrow> disk_entry \<Rightarrow> open_result" where
  "DiskWriterEntry_openFile w disk e = entry_open (AbstractDiskWriter_openFile w disk e) disk e"

definition DiskWriterEntry_openExistingFile :: "disk_writer \<Rightarrow> file_system \<Rightarrow> disk_entry \<Rightarrow> open_result" where
  "DiskWriterEntry_openExistingFile w disk e = entry_open (dw_openExistingFile w disk e) disk e"

definition DiskWriterEntry_closeFile :: "disk_entry \<Rightarrow> disk_entry" where
  "DiskWriterEntry_closeFile e = (if de_open e then e\<lparr>de_fd := None, de_open := False\<rparr> else e)"

subsection \<open>The adaptor\<close>

record multi_disk =
  md_pieceLength :: int
  md_files :: "(file_entry \<times> string) list"
  md_entries :: "disk_entry list"
  md_opened :: "nat list"
  md_readOnly :: bool
  md_disk :: file_system

type_synonym 'a disk_result = "multi_disk \<times> (disk_error + 'a)"

definition MultiDiskAdaptor_new :: "int \<Rightarrow> (file_entry \<times> string) list \<Rightarrow> file_system \<Rightarrow> multi_disk" where
  "MultiDiskAdaptor_new pieceLength files disk =
     \<lparr>md_pieceLength = pieceLength, md_files = files, md_entries = [], md_opened = [], md_readOnly = False, md_disk = disk\<rparr>"

text \<open>The two passes of \<open>resetDiskWriterEntries\<close> that find the files sharing a piece with a requested one.\<close>

fun share_forward :: "int \<Rightarrow> int \<Rightarrow> disk_entry list \<Rightarrow> disk_entry list" where
  "share_forward pieceLength lastOffset [] = []"
| "share_forward pieceLength lastOffset (e # es) =
     (let f = de_file e in
      if fe_requested f
      then e # share_forward pieceLength
                 (if fe_length f > 0 then (FileEntry_getLastOffset f - 1) sdiv pieceLength * pieceLength + pieceLength else lastOffset) es
      else (if fe_offset f < lastOffset then e\<lparr>de_needsDiskWriter := True\<rparr> else e) # share_forward pieceLength lastOffset es)"

fun share_backward :: "int \<Rightarrow> int \<Rightarrow> disk_entry list \<Rightarrow> disk_entry list" where
  "share_backward pieceLength lastOffset [] = []"
| "share_backward pieceLength lastOffset (e # es) =
     (let f = de_file e in
      if fe_requested f
      then e # share_backward pieceLength (fe_offset f sdiv pieceLength * pieceLength) es
      else (if lastOffset \<le> fe_offset f \<or> lastOffset < FileEntry_getLastOffset f then e\<lparr>de_needsFileAllocation := True\<rparr> else e)
             # share_backward pieceLength lastOffset es)"

definition make_writer :: "multi_disk \<Rightarrow> disk_entry \<Rightarrow> disk_entry" where
  "make_writer m e =
     (if de_needsFileAllocation e \<or> de_needsDiskWriter e \<or> md_disk m (de_path e) \<noteq> None
      then e\<lparr>de_writer := True, de_readOnly := md_readOnly m\<rparr> else e)"

definition MultiDiskAdaptor_resetDiskWriterEntries :: "multi_disk \<Rightarrow> multi_disk option" where
  "MultiDiskAdaptor_resetDiskWriterEntries m =
     (if md_opened m \<noteq> [] then None
      else
        let es = map createDiskWriterEntry (md_files m);
            es1 = (if md_pieceLength m > 0
                   then rev (share_backward (md_pieceLength m) (2 ^ 63 - 1) (rev (share_forward (md_pieceLength m) 0 es)))
                   else es)
        in Some (m\<lparr>md_entries := map (make_writer m) es1\<rparr>))"

text \<open>Closing random open files; the last one takes the place of the closed one.\<close>

fun close_random :: "nat list \<Rightarrow> multi_disk \<Rightarrow> multi_disk" where
  "close_random [] m = m"
| "close_random (r # rs) m =
     (if md_opened m = [] then m
      else let k = r mod length (md_opened m); i = md_opened m ! k in
        close_random rs (m\<lparr>md_entries := (md_entries m)[i := DiskWriterEntry_closeFile (md_entries m ! i)],
                           md_opened := butlast ((md_opened m)[k := last (md_opened m)])\<rparr>))"

definition MultiDiskAdaptor_tryCloseFile :: "nat list \<Rightarrow> multi_disk \<Rightarrow> multi_disk \<times> nat" where
  "MultiDiskAdaptor_tryCloseFile rs m = (close_random rs m, min (length rs) (length (md_opened m)))"

definition MultiDiskAdaptor_openIfNot :: "(file_system \<Rightarrow> disk_entry \<Rightarrow> open_result) \<Rightarrow>
    nat list \<Rightarrow> nat \<Rightarrow> multi_disk \<Rightarrow> unit disk_result" where
  "MultiDiskAdaptor_openIfNot open_op rs i m =
     (if de_open (md_entries m ! i) then (m, Inr ())
      else let m1 = close_random rs m in
        (case open_op (md_disk m1) (md_entries m1 ! i) of
           Inl err \<Rightarrow> (m1, Inl err)
         | Inr (d, e) \<Rightarrow> (m1\<lparr>md_disk := d, md_entries := (md_entries m1)[i := e], md_opened := md_opened m1 @ [i]\<rparr>, Inr ())))"

fun open_all :: "(file_system \<Rightarrow> disk_entry \<Rightarrow> open_result) \<Rightarrow> (nat \<Rightarrow> nat list) \<Rightarrow> nat list \<Rightarrow>
    multi_disk \<Rightarrow> unit disk_result" where
  "open_all open_op evict [] m = (m, Inr ())"
| "open_all open_op evict (i # is) m =
     (case MultiDiskAdaptor_openIfNot open_op (evict i) i m of
        (m1, Inl err) \<Rightarrow> (m1, Inl err)
      | (m1, Inr _) \<Rightarrow> open_all open_op evict is m1)"

definition MultiDiskAdaptor_openFile :: "disk_writer \<Rightarrow> (nat \<Rightarrow> nat list) \<Rightarrow> multi_disk \<Rightarrow> unit disk_result option" where
  "MultiDiskAdaptor_openFile w evict m =
     map_option (\<lambda>m1. open_all (DiskWriterEntry_openFile w) evict [0..<length (md_entries m1)] m1)
       (MultiDiskAdaptor_resetDiskWriterEntries m)"

definition MultiDiskAdaptor_initAndOpenFile :: "disk_writer \<Rightarrow> (nat \<Rightarrow> nat list) \<Rightarrow> multi_disk \<Rightarrow> unit disk_result option" where
  "MultiDiskAdaptor_initAndOpenFile w evict m =
     map_option (\<lambda>m1. open_all (DiskWriterEntry_initAndOpenFile w) evict [0..<length (md_entries m1)] m1)
       (MultiDiskAdaptor_resetDiskWriterEntries m)"

definition MultiDiskAdaptor_openExistingFile :: "multi_disk \<Rightarrow> multi_disk option" where
  "MultiDiskAdaptor_openExistingFile m = MultiDiskAdaptor_resetDiskWriterEntries m"

text \<open>\<open>closeFile\<close> closes the writers, not the entries: these still count as open.\<close>

definition MultiDiskAdaptor_closeFile :: "multi_disk \<Rightarrow> multi_disk" where
  "MultiDiskAdaptor_closeFile m =
     m\<lparr>md_entries := fold (\<lambda>i es. es[i := (es ! i)\<lparr>de_fd := None\<rparr>]) (md_opened m) (md_entries m), md_opened := []\<rparr>"

subsection \<open>Reading and writing\<close>

definition isInRange :: "disk_entry \<Rightarrow> int \<Rightarrow> bool" where
  "isInRange e offset \<longleftrightarrow> fe_offset (de_file e) \<le> offset \<and> offset < FileEntry_getLastOffset (de_file e)"

definition calculateLength :: "disk_entry \<Rightarrow> int \<Rightarrow> int \<Rightarrow> int" where
  "calculateLength e fileOffset rem =
     (if fe_length (de_file e) < fileOffset + rem then fe_length (de_file e) - fileOffset else rem)"

text \<open>The last entry that does not start behind the offset; before the first one the source is undefined.\<close>

definition findFirstDiskWriterEntry :: "disk_entry list \<Rightarrow> int \<Rightarrow> (disk_error + nat) option" where
  "findFirstDiskWriterEntry es offset =
     (let n = length (takeWhile (\<lambda>e. \<not> offset < fe_offset (de_file e)) es) in
      if n = 0 then None
      else if isInRange (es ! (n - 1)) offset then Some (Inr (n - 1)) else Some (Inl (OffsetOutOfRange offset)))"

text \<open>The loops run over the entries from the first one; \<open>rest\<close> and \<open>rem\<close> are what is left at position \<open>pos\<close>.\<close>

fun write_loop :: "disk_writer \<Rightarrow> (nat \<Rightarrow> nat list) \<Rightarrow> nat list \<Rightarrow> int \<Rightarrow> byte list \<Rightarrow> int \<Rightarrow> multi_disk \<Rightarrow> unit disk_result" where
  "write_loop w evict [] pos rest fileOffset m = (m, Inr ())"
| "write_loop w evict (i # is) pos rest fileOffset m =
     (let n = nat (calculateLength (md_entries m ! i) fileOffset (int (length rest))) in
      case MultiDiskAdaptor_openIfNot (DiskWriterEntry_openFile w) (evict i) i m of
        (m1, Inl err) \<Rightarrow> (m1, Inl err)
      | (m1, Inr _) \<Rightarrow>
          let e = md_entries m1 ! i in
          if \<not> de_open e then (m1, Inl (NotOpened pos (de_path e)))
          else
            let (d, err) = dw_writeData w (md_disk m1) e (take n rest) fileOffset;
                m2 = m1\<lparr>md_disk := d\<rparr>
            in case err of
                 Some x \<Rightarrow> (m2, Inl x)
               | None \<Rightarrow> if drop n rest = [] then (m2, Inr ())
                         else write_loop w evict is (pos + int n) (drop n rest) 0 m2)"

definition MultiDiskAdaptor_writeData :: "disk_writer \<Rightarrow> (nat \<Rightarrow> nat list) \<Rightarrow> byte list \<Rightarrow> int \<Rightarrow> multi_disk \<Rightarrow> unit disk_result option" where
  "MultiDiskAdaptor_writeData w evict data offset m =
     (case findFirstDiskWriterEntry (md_entries m) offset of
        None \<Rightarrow> None
      | Some (Inl err) \<Rightarrow> Some (m, Inl err)
      | Some (Inr first) \<Rightarrow>
          Some (write_loop w evict [first..<length (md_entries m)] offset data
                  (offset - fe_offset (de_file (md_entries m ! first))) m))"

text \<open>Reading one file in possibly short reads; False when a read returned nothing.\<close>

function read_entry :: "(nat \<Rightarrow> nat \<Rightarrow> disk_error + byte list) \<Rightarrow> nat \<Rightarrow> nat \<Rightarrow> disk_error + (byte list \<times> bool)" where
  "read_entry rd readLength fileOffset =
     (if readLength = 0 then Inr ([], True)
      else (case rd readLength fileOffset of
              Inl err \<Rightarrow> Inl err
            | Inr bs \<Rightarrow>
                if bs = [] then Inr ([], False)
                else (case read_entry rd (readLength - length bs) (fileOffset + length bs) of
                        Inl err \<Rightarrow> Inl err
                      | Inr (r, ok) \<Rightarrow> Inr (bs @ r, ok))))"
  by pat_completeness auto
termination
  by (relation "measure (\<lambda>(rd, n, fo). n)") auto

declare read_entry.simps [simp del]

fun read_loop :: "disk_writer \<Rightarrow> (nat \<Rightarrow> nat list) \<Rightarrow> nat list \<Rightarrow> int \<Rightarrow> nat \<Rightarrow> int \<Rightarrow> multi_disk \<Rightarrow> byte list disk_result" where
  "read_loop w evict [] pos rem fileOffset m = (m, Inr [])"
| "read_loop w evict (i # is) pos rem fileOffset m =
     (let n = nat (calculateLength (md_entries m ! i) fileOffset (int rem)) in
      case MultiDiskAdaptor_openIfNot (DiskWriterEntry_openFile w) (evict i) i m of
        (m1, Inl err) \<Rightarrow> (m1, Inl err)
      | (m1, Inr _) \<Rightarrow>
          let e = md_entries m1 ! i in
          if \<not> de_open e then (m1, Inl (NotOpened pos (de_path e)))
          else
            (case read_entry (dw_readData w (md_disk m1) e) n (nat fileOffset) of
               Inl err \<Rightarrow> (m1, Inl err)
             | Inr (r, ok) \<Rightarrow>
                 if \<not> ok then (m1, Inr r)
                 else if rem - n = 0 then (m1, Inr r)
                 else (case read_loop w evict is (pos + int n) (rem - n) 0 m1 of
                         (m2, Inl err) \<Rightarrow> (m2, Inl err)
                       | (m2, Inr r') \<Rightarrow> (m2, Inr (r @ r')))))"

definition MultiDiskAdaptor_readData :: "disk_writer \<Rightarrow> (nat \<Rightarrow> nat list) \<Rightarrow> nat \<Rightarrow> int \<Rightarrow> multi_disk \<Rightarrow> byte list disk_result option" where
  "MultiDiskAdaptor_readData w evict len offset m =
     (case findFirstDiskWriterEntry (md_entries m) offset of
        None \<Rightarrow> None
      | Some (Inl err) \<Rightarrow> Some (m, Inl err)
      | Some (Inr first) \<Rightarrow>
          Some (read_loop w evict [first..<length (md_entries m)] offset len
                  (offset - fe_offset (de_file (md_entries m ! first))) m))"

text \<open>The cells of a cache entry, each with its offset and bytes.\<close>

fun MultiDiskAdaptor_writeCache :: "disk_writer \<Rightarrow> (nat \<Rightarrow> nat list) \<Rightarrow> (int \<times> byte list) list \<Rightarrow> multi_disk \<Rightarrow> unit disk_result option" where
  "MultiDiskAdaptor_writeCache w evict [] m = Some (m, Inr ())"
| "MultiDiskAdaptor_writeCache w evict ((goff, data) # cells) m =
     (case MultiDiskAdaptor_writeData w evict data goff m of
        Some (m1, Inr _) \<Rightarrow> MultiDiskAdaptor_writeCache w evict cells m1
      | r \<Rightarrow> r)"

definition MultiDiskAdaptor_fileExists :: "multi_disk \<Rightarrow> bool" where
  "MultiDiskAdaptor_fileExists m = list_ex (\<lambda>f. md_disk m (snd f) \<noteq> None) (md_files m)"

definition MultiDiskAdaptor_size :: "multi_disk \<Rightarrow> int" where
  "MultiDiskAdaptor_size m =
     sum_list (map (\<lambda>f. case md_disk m (snd f) of None \<Rightarrow> 0 | Some c \<Rightarrow> int (length c)) (md_files m))"

definition MultiDiskAdaptor_enableReadOnly :: "multi_disk \<Rightarrow> multi_disk" where
  "MultiDiskAdaptor_enableReadOnly m = m\<lparr>md_readOnly := True\<rparr>"

definition MultiDiskAdaptor_disableReadOnly :: "multi_disk \<Rightarrow> multi_disk" where
  "MultiDiskAdaptor_disableReadOnly m = m\<lparr>md_readOnly := False\<rparr>"

text \<open>Cutting a file that is longer than its entry says; an entry without a writer has a null writer here.\<close>

fun cut_loop :: "disk_writer \<Rightarrow> (nat \<Rightarrow> nat list) \<Rightarrow> nat list \<Rightarrow> multi_disk \<Rightarrow> unit disk_result option" where
  "cut_loop w evict [] m = Some (m, Inr ())"
| "cut_loop w evict (i # is) m =
     (let e = md_entries m ! i; n = fe_length (de_file e) in
      case md_disk m (de_path e) of
        None \<Rightarrow> cut_loop w evict is m
      | Some c \<Rightarrow>
          if int (length c) \<le> n then cut_loop w evict is m
          else (case MultiDiskAdaptor_openIfNot (DiskWriterEntry_openFile w) (evict i) i m of
                  (m1, Inl err) \<Rightarrow> Some (m1, Inl err)
                | (m1, Inr _) \<Rightarrow>
                    if \<not> de_writer (md_entries m1 ! i) then None
                    else let (d, err) = dw_truncate w (md_disk m1) (md_entries m1 ! i) (nat n);
                             m2 = m1\<lparr>md_disk := d\<rparr>
                         in case err of
                              Some x \<Rightarrow> Some (m2, Inl x)
                            | None \<Rightarrow> cut_loop w evict is m2))"

definition MultiDiskAdaptor_cutTrailingGarbage :: "disk_writer \<Rightarrow> (nat \<Rightarrow> nat list) \<Rightarrow> multi_disk \<Rightarrow> unit disk_result option" where
  "MultiDiskAdaptor_cutTrailingGarbage w evict m = cut_loop w evict [0..<length (md_entries m)] m"


subsection \<open>The files as one sequence of bytes\<close>

definition content :: "multi_disk \<Rightarrow> string \<Rightarrow> byte list" where
  "content m p = file_content (md_disk m) p"

definition byte_at :: "byte list \<Rightarrow> nat \<Rightarrow> byte" where
  "byte_at c i = (if i < length c then c ! i else 0)"

definition flat :: "multi_disk \<Rightarrow> int \<Rightarrow> byte" where
  "flat m x = (case find (\<lambda>e. isInRange e x) (md_entries m) of
     None \<Rightarrow> 0 | Some e \<Rightarrow> byte_at (content m (de_path e)) (nat (x - fe_offset (de_file e))))"

definition present :: "multi_disk \<Rightarrow> int \<Rightarrow> bool" where
  "present m x \<longleftrightarrow> (case find (\<lambda>e. isInRange e x) (md_entries m) of
     None \<Rightarrow> False | Some e \<Rightarrow> nat (x - fe_offset (de_file e)) < length (content m (de_path e)))"

fun laid_out :: "int \<Rightarrow> disk_entry list \<Rightarrow> bool" where
  "laid_out off [] \<longleftrightarrow> True"
| "laid_out off (e # es) \<longleftrightarrow> fe_offset (de_file e) = off \<and> 0 \<le> fe_length (de_file e) \<and> laid_out (off + fe_length (de_file e)) es"

definition total_length :: "disk_entry list \<Rightarrow> int" where
  "total_length es = sum_list (map (\<lambda>e. fe_length (de_file e)) es)"

text \<open>What opening and closing leave alone.\<close>

definition static :: "disk_entry \<Rightarrow> file_entry \<times> string \<times> bool \<times> bool" where
  "static e = (de_file e, de_path e, de_writer e, de_readOnly e)"

definition same_static :: "multi_disk \<Rightarrow> multi_disk \<Rightarrow> bool" where
  "same_static m m' \<longleftrightarrow> map static (md_entries m') = map static (md_entries m) \<and> md_pieceLength m' = md_pieceLength m
     \<and> md_files m' = md_files m \<and> md_readOnly m' = md_readOnly m"

definition entry_ready :: "multi_disk \<Rightarrow> disk_entry \<Rightarrow> bool" where
  "entry_ready m e \<longleftrightarrow> \<not> de_readOnly e \<and> (de_open e \<longrightarrow> de_fd e = Some True \<and> md_disk m (de_path e) \<noteq> None)"

definition disk_ok :: "multi_disk \<Rightarrow> bool" where
  "disk_ok m \<longleftrightarrow> distinct (map de_path (md_entries m)) \<and> laid_out 0 (md_entries m)
     \<and> (\<forall>e\<in>set (md_entries m). entry_ready m e) \<and> (\<forall>k\<in>set (md_opened m). k < length (md_entries m))"

definition env_fine :: "disk_env \<Rightarrow> bool" where
  "env_fine env \<longleftrightarrow> (\<forall>p. env_open env p) \<and> (\<forall>p off n. n \<le> env_written env p off n) \<and> (\<forall>n. 0 < n \<longrightarrow> 0 < env_short env n)"

text \<open>What the adaptor relies on: an opened file can be written and read, a read gives at least a byte of what
is there, and no file disappears.\<close>

locale good_writer =
  fixes w :: disk_writer
  assumes opens: "\<not> de_readOnly e \<Longrightarrow> AbstractDiskWriter_openFile w disk e
      = Inr (if disk (de_path e) = None then disk(de_path e \<mapsto> []) else disk, e\<lparr>de_fd := Some True\<rparr>)"
    and writes: "de_fd e = Some True \<Longrightarrow> 0 \<le> x \<Longrightarrow>
      dw_writeData w disk e d x = (disk(de_path e \<mapsto> write_at (file_content disk (de_path e)) (nat x) d), None)"
    and reads: "de_fd e = Some True \<Longrightarrow> 0 < n \<Longrightarrow> off + n \<le> length (file_content disk (de_path e)) \<Longrightarrow>
      \<exists>k. 0 < k \<and> k \<le> n \<and> dw_readData w disk e n off = Inr (take k (drop off (file_content disk (de_path e))))"
    and write_keeps: "dw_writeData w disk e d x = (disk', err) \<Longrightarrow> disk p \<noteq> None \<Longrightarrow> disk' p \<noteq> None"
    and truncate_keeps: "dw_truncate w disk e n = (disk', err) \<Longrightarrow> disk p \<noteq> None \<Longrightarrow> disk' p \<noteq> None"

lemma abstract_good_writer:
  assumes "env_fine env"
  shows "good_writer (abstract_writer env)"
proof -
  have o: "env_open env p" and wr: "n \<le> env_written env p off n" and rd: "0 < n \<Longrightarrow> 0 < env_short env n" for p off n
    using assms by (simp_all add: env_fine_def)
  show ?thesis
  proof
    fix disk and e :: disk_entry and off n :: nat
    assume "de_fd e = Some True" "0 < n" "off + n \<le> length (file_content disk (de_path e))"
    then show "\<exists>k. 0 < k \<and> k \<le> n \<and> dw_readData (abstract_writer env) disk e n off = Inr (take k (drop off (file_content disk (de_path e))))"
      using rd [of n] by (intro exI [of _ "min (env_short env n) n"])
        (simp add: abstract_writer_def AbstractDiskWriter_readData_def Let_def min.commute)
  qed (auto simp: abstract_writer_def AbstractDiskWriter_openFile_def AbstractDiskWriter_openExistingFile_def AbstractDiskWriter_createFile_def
        AbstractDiskWriter_writeData_def AbstractDiskWriter_truncate_def o min_absorb2 wr Let_def split: option.splits if_splits)
qed

lemma length_write_at: "length (write_at c off d) = (if d = [] then length c else max (length c) (off + length d))"
  by (auto simp: write_at_def)

lemma byte_at_write: "byte_at (write_at c off d) i = (if off \<le> i \<and> i < off + length d then d ! (i - off) else byte_at c i)"
  by (auto simp: write_at_def byte_at_def nth_append min_def)

lemma same_static_nth:
  assumes "same_static m m'" "i < length (md_entries m)"
  shows "length (md_entries m') = length (md_entries m)" "de_file (md_entries m' ! i) = de_file (md_entries m ! i)"
    "de_path (md_entries m' ! i) = de_path (md_entries m ! i)" "de_writer (md_entries m' ! i) = de_writer (md_entries m ! i)"
proof -
  show l: "length (md_entries m') = length (md_entries m)" using assms(1) map_eq_imp_length_eq by (auto simp: same_static_def)
  have "static (md_entries m' ! i) = static (md_entries m ! i)"
    using arg_cong [OF assms(1) [unfolded same_static_def, THEN conjunct1], of "\<lambda>xs. xs ! i"] l assms(2) by simp
  then show "de_file (md_entries m' ! i) = de_file (md_entries m ! i)" "de_path (md_entries m' ! i) = de_path (md_entries m ! i)"
    "de_writer (md_entries m' ! i) = de_writer (md_entries m ! i)" by (simp_all add: static_def)
qed

lemma same_static_trans: "same_static m m' \<Longrightarrow> same_static m' m'' \<Longrightarrow> same_static m m''"
  by (simp add: same_static_def)

lemma staticD: "static e = static e' \<Longrightarrow> de_file e = de_file e' \<and> de_path e = de_path e' \<and> de_writer e = de_writer e' \<and> de_readOnly e = de_readOnly e'"
  by (simp add: static_def)

lemma laid_out_static: "map static es = map static es' \<Longrightarrow> laid_out off es = laid_out off es'"
proof (induction es arbitrary: es' off)
  case (Cons e es)
  then obtain e' fs where es: "es' = e' # fs" "static e = static e'" "map static es = map static fs" by auto
  show ?case using Cons.IH [OF es(3)] staticD [OF es(2)] es(1) by simp
qed simp

lemma find_static:
  assumes "map static es = map static es'"
  shows "map_option static (find (\<lambda>e. isInRange e x) es) = map_option static (find (\<lambda>e. isInRange e x) es')"
  using assms
proof (induction es arbitrary: es')
  case (Cons e es)
  then obtain e' fs where es: "es' = e' # fs" "static e = static e'" "map static es = map static fs" by auto
  show ?case using Cons.IH [OF es(3)] staticD [OF es(2)] es(1,2) by (simp add: isInRange_def)
qed simp

lemma flat_cong:
  assumes "same_static m m'" "\<And>p. content m' p = content m p"
  shows "flat m' x = flat m x" "present m' x = present m x"
  using find_static [of "md_entries m'" "md_entries m" x] assms
  by (auto simp: flat_def present_def same_static_def static_def split: option.splits)

lemma paths_static: "map static es = map static es' \<Longrightarrow> map de_path es = map de_path es'"
proof -
  have "map de_path es = map (fst \<circ> snd) (map static es)" for es by (simp add: static_def comp_def)
  then show "map static es = map static es' \<Longrightarrow> map de_path es = map de_path es'" by metis
qed

lemma disk_ok_static:
  assumes "disk_ok m" "same_static m m'" "\<forall>e\<in>set (md_entries m'). entry_ready m' e" "\<forall>k\<in>set (md_opened m'). k < length (md_entries m')"
  shows "disk_ok m'"
  using assms paths_static [of "md_entries m'" "md_entries m"] laid_out_static [of "md_entries m'" "md_entries m"]
  by (simp add: disk_ok_def same_static_def)

subsection \<open>Opening and closing\<close>

lemma entry_ready_close: "entry_ready m e \<Longrightarrow> entry_ready m (DiskWriterEntry_closeFile e)"
  by (auto simp: entry_ready_def DiskWriterEntry_closeFile_def)

lemma static_close [simp]: "static (DiskWriterEntry_closeFile e) = static e"
  by (simp add: static_def DiskWriterEntry_closeFile_def)

lemma butlast_update_sub: "set (butlast (xs[k := last xs])) \<subseteq> set xs"
proof (cases "xs = []")
  case False
  have "set (butlast (xs[k := last xs])) \<subseteq> set (xs[k := last xs])" by (auto dest: in_set_butlastD)
  also have "\<dots> \<subseteq> insert (last xs) (set xs)" by (rule set_update_subset_insert)
  also have "\<dots> = set xs" using last_in_set [OF False] by (simp add: insert_absorb)
  finally show ?thesis .
qed simp

lemma close_random_ok:
  assumes "disk_ok m"
  shows "disk_ok (close_random rs m) \<and> same_static m (close_random rs m) \<and> md_disk (close_random rs m) = md_disk m
    \<and> (\<forall>i < length (md_entries m). \<not> de_open (md_entries m ! i) \<longrightarrow> \<not> de_open (md_entries (close_random rs m) ! i))"
  using assms
proof (induction rs m rule: close_random.induct)
  case (2 r rs m)
  show ?case
  proof (cases "md_opened m = []")
    case False
    let ?k = "r mod length (md_opened m)" let ?i = "md_opened m ! ?k"
    let ?m = "m\<lparr>md_entries := (md_entries m)[?i := DiskWriterEntry_closeFile (md_entries m ! ?i)],
                 md_opened := butlast ((md_opened m)[?k := last (md_opened m)])\<rparr>"
    have i: "?i < length (md_entries m)" using 2(2) False by (simp add: disk_ok_def)
    have s: "same_static m ?m" by (simp add: same_static_def map_update list_update_same_conv nth_map i)
    have rdy: "entry_ready m e" if "e \<in> set (md_entries m)" for e using 2(2) that by (simp add: disk_ok_def)
    have "entry_ready m e" if "e \<in> set (md_entries ?m)" for e
      using that set_update_subset_insert [of "md_entries m" ?i "DiskWriterEntry_closeFile (md_entries m ! ?i)"]
        rdy entry_ready_close [OF rdy [OF nth_mem [OF i]]] by auto
    then have r: "\<forall>e\<in>set (md_entries ?m). entry_ready ?m e" by (simp add: entry_ready_def)
    have "k < length (md_entries m)" if "k \<in> set (md_opened ?m)" for k
    proof -
      have "k \<in> set (butlast ((md_opened m)[?k := last (md_opened m)]))" using that by simp
      then have "k \<in> set (md_opened m)" by (rule subsetD [OF butlast_update_sub])
      then show ?thesis using 2(2) by (simp add: disk_ok_def)
    qed
    then have k: "\<forall>k\<in>set (md_opened ?m). k < length (md_entries ?m)" by simp
    have ok: "disk_ok ?m" by (rule disk_ok_static [OF 2(2) s r k])
    have nc: "\<not> de_open (md_entries ?m ! j)" if "j < length (md_entries m)" "\<not> de_open (md_entries m ! j)" for j
      using that by (cases "j = ?i") (simp_all add: DiskWriterEntry_closeFile_def)
    note ih = 2(1) [OF False refl refl ok]
    have c: "close_random (r # rs) m = close_random rs ?m" using False by (simp add: Let_def)
    show ?thesis unfolding c using ih same_static_trans [OF s] nc by simp
  qed (use 2(2) in \<open>simp add: same_static_def\<close>)
qed (simp add: same_static_def)

lemma openFile_entry:
  assumes "good_writer w" "entry_ready m e" "\<not> de_open e"
  obtains d e' where "DiskWriterEntry_openFile w (md_disk m) e = Inr (d, e')" "static e' = static e" "de_open e' = de_writer e"
    "\<And>p. file_content d p = content m p" "\<And>p. md_disk m p \<noteq> None \<Longrightarrow> d p \<noteq> None" "entry_ready (m\<lparr>md_disk := d\<rparr>) e'"
proof (cases "de_writer e")
  case False
  then show ?thesis using that [of "md_disk m" e] assms by (simp add: DiskWriterEntry_openFile_def entry_open_def content_def entry_ready_def)
next
  case True
  have ro: "\<not> de_readOnly e" using assms(2) by (simp add: entry_ready_def)
  let ?d = "if md_disk m (de_path e) = None then (md_disk m)(de_path e \<mapsto> []) else md_disk m"
  show ?thesis
    by (rule that [of ?d "e\<lparr>de_fd := Some True, de_open := True\<rparr>"])
      (use True ro assms(2) good_writer.opens [OF assms(1) ro, of "md_disk m"] in
        \<open>auto simp: DiskWriterEntry_openFile_def entry_open_def static_def content_def file_content_def entry_ready_def\<close>)
qed

lemma openIfNot_ok:
  assumes fw: "good_writer w" and ok: "disk_ok m" and i: "i < length (md_entries m)"
  obtains m1 where "MultiDiskAdaptor_openIfNot (DiskWriterEntry_openFile w) rs i m = (m1, Inr ())" "disk_ok m1" "same_static m m1"
    "\<And>p. content m1 p = content m p" "de_writer (md_entries m ! i) \<Longrightarrow> de_open (md_entries m1 ! i)"
    "\<And>p. md_disk m p \<noteq> None \<Longrightarrow> md_disk m1 p \<noteq> None"
proof (cases "de_open (md_entries m ! i)")
  case True
  then show ?thesis using that [of m] ok by (simp add: MultiDiskAdaptor_openIfNot_def same_static_def)
next
  case False
  let ?m = "close_random rs m"
  note c = close_random_ok [OF ok, of rs]
  have s: "same_static m ?m" and okm: "disk_ok ?m" using c by simp_all
  note n = same_static_nth [OF s i]
  have cl: "\<not> de_open (md_entries ?m ! i)" using c False i by simp
  have im: "i < length (md_entries ?m)" using n(1) i by simp
  have rdy: "entry_ready ?m (md_entries ?m ! i)" using okm im by (simp add: disk_ok_def)
  obtain d e' where e': "DiskWriterEntry_openFile w (md_disk ?m) (md_entries ?m ! i) = Inr (d, e')" "static e' = static (md_entries ?m ! i)"
    "de_open e' = de_writer (md_entries ?m ! i)" "\<And>p. file_content d p = content ?m p"
    "\<And>p. md_disk ?m p \<noteq> None \<Longrightarrow> d p \<noteq> None" "entry_ready (?m\<lparr>md_disk := d\<rparr>) e'"
    by (rule openFile_entry [OF fw rdy cl]) (rule that)
  let ?m1 = "?m\<lparr>md_disk := d, md_entries := (md_entries ?m)[i := e'], md_opened := md_opened ?m @ [i]\<rparr>"
  have s1: "same_static ?m ?m1" by (simp add: same_static_def map_update e'(2) list_update_same_conv nth_map im)
  have r1: "entry_ready ?m1 e" if "e \<in> set (md_entries ?m1)" for e
  proof -
    have "e \<in> set (md_entries ?m) \<or> e = e'" using that set_update_subset_insert [of "md_entries ?m" i e'] by auto
    then show ?thesis using okm e'(5,6) by (auto simp: disk_ok_def entry_ready_def)
  qed
  have k1: "\<forall>k\<in>set (md_opened ?m1). k < length (md_entries ?m1)" using okm im by (auto simp: disk_ok_def)
  have "disk_ok ?m1" by (rule disk_ok_static [OF okm s1 _ k1]) (use r1 in blast)
  moreover have "content ?m1 p = content m p" for p using e'(4) c by (simp add: content_def)
  moreover have "de_open (md_entries ?m1 ! i)" if "de_writer (md_entries m ! i)" using that e'(3) n(4) im by simp
  moreover have "MultiDiskAdaptor_openIfNot (DiskWriterEntry_openFile w) rs i m = (?m1, Inr ())"
    using False e'(1) by (simp add: MultiDiskAdaptor_openIfNot_def Let_def)
  moreover have "md_disk ?m1 p \<noteq> None" if "md_disk m p \<noteq> None" for p using that e'(5) [of p] c by simp
  ultimately show ?thesis using that same_static_trans [OF s s1] by blast
qed


subsection \<open>Files one after another\<close>

lemma laid_out_nth:
  "laid_out off es \<Longrightarrow> i < length es \<Longrightarrow> fe_offset (de_file (es ! i)) = off + total_length (take i es) \<and> 0 \<le> fe_length (de_file (es ! i))"
proof (induction es arbitrary: off i)
  case (Cons e es)
  then show ?case by (cases i) (auto simp: total_length_def)
qed simp

lemma laid_out_next:
  assumes "laid_out off es" "Suc i < length es"
  shows "fe_offset (de_file (es ! Suc i)) = FileEntry_getLastOffset (de_file (es ! i))"
  using laid_out_nth [OF assms(1), of i] laid_out_nth [OF assms(1) assms(2)] assms(2)
  by (simp add: FileEntry_getLastOffset_def total_length_def take_Suc_conv_app_nth)

lemma laid_out_before:
  assumes "laid_out off es" "i < j" "j < length es"
  shows "FileEntry_getLastOffset (de_file (es ! i)) \<le> fe_offset (de_file (es ! j))"
  using assms(2,3)
proof (induction j)
  case (Suc j)
  have n: "fe_offset (de_file (es ! Suc j)) = FileEntry_getLastOffset (de_file (es ! j))" by (rule laid_out_next [OF assms(1) Suc.prems(2)])
  have l: "0 \<le> fe_length (de_file (es ! j))" using laid_out_nth [OF assms(1), of j] Suc.prems(2) by simp
  show ?case
  proof (cases "i = j")
    case False
    then show ?thesis using Suc n l by (simp add: FileEntry_getLastOffset_def)
  qed (simp add: n)
qed simp

lemma laid_out_total:
  assumes "laid_out off es" "i < length es" "Suc i = length es"
  shows "FileEntry_getLastOffset (de_file (es ! i)) = off + total_length es"
proof -
  have "total_length (take (Suc i) es) = total_length (take i es) + fe_length (de_file (es ! i))"
    by (simp add: total_length_def take_Suc_conv_app_nth [OF assms(2)])
  moreover have "take (Suc i) es = es" using assms(3) by simp
  ultimately show ?thesis using laid_out_nth [OF assms(1,2)] by (simp add: FileEntry_getLastOffset_def)
qed

lemma find_in_range:
  assumes "laid_out off es" "i < length es" "isInRange (es ! i) x"
  shows "find (\<lambda>e. isInRange e x) es = Some (es ! i)"
proof -
  have "\<not> isInRange (es ! j) x" if "j < i" for j
    using laid_out_before [OF assms(1) that assms(2)] assms(3) by (auto simp: isInRange_def)
  then show ?thesis using assms(2,3) by (auto simp: find_Some_iff)
qed

lemma in_range_unique:
  assumes "laid_out off es" "i < length es" "j < length es" "isInRange (es ! i) x" "isInRange (es ! j) x"
  shows "i = j"
  using laid_out_before [OF assms(1), of i j] laid_out_before [OF assms(1), of j i] assms(2-5)
  by (cases i j rule: linorder_cases) (auto simp: isInRange_def)

lemma flat_in_range:
  assumes "disk_ok m" "i < length (md_entries m)" "isInRange (md_entries m ! i) x"
  shows "flat m x = byte_at (content m (de_path (md_entries m ! i))) (nat (x - fe_offset (de_file (md_entries m ! i))))"
    "present m x = (nat (x - fe_offset (de_file (md_entries m ! i))) < length (content m (de_path (md_entries m ! i))))"
  using find_in_range [of 0 "md_entries m" i x] assms by (simp_all add: flat_def present_def disk_ok_def)

subsection \<open>Writing\<close>

text \<open>One write inside one file.\<close>

lemma write_entry:
  assumes fw: "good_writer w" and ok: "disk_ok m" and i: "i < length (md_entries m)" and opn: "de_open (md_entries m ! i)"
    and fo: "0 \<le> fo" "fo + int (length d) \<le> fe_length (de_file (md_entries m ! i))"
    and pos: "pos = fe_offset (de_file (md_entries m ! i)) + fo"
  obtains disk where "dw_writeData w (md_disk m) (md_entries m ! i) d fo = (disk, None)" "disk_ok (m\<lparr>md_disk := disk\<rparr>)"
    "\<And>x. flat (m\<lparr>md_disk := disk\<rparr>) x = (if pos \<le> x \<and> x < pos + int (length d) then d ! nat (x - pos) else flat m x)"
    "\<And>x. present m x \<or> pos \<le> x \<and> x < pos + int (length d) \<Longrightarrow> present (m\<lparr>md_disk := disk\<rparr>) x"
proof -
  let ?e = "md_entries m ! i" and ?o = "fe_offset (de_file (md_entries m ! i))"
  let ?c = "content m (de_path ?e)"
  let ?disk = "(md_disk m)(de_path ?e \<mapsto> write_at ?c (nat fo) d)"
  let ?m = "m\<lparr>md_disk := ?disk\<rparr>"
  have fd: "de_fd ?e = Some True" using ok i opn by (simp add: disk_ok_def entry_ready_def)
  have w: "dw_writeData w (md_disk m) ?e d fo = (?disk, None)"
    using good_writer.writes [OF fw fd fo(1)] by (simp add: content_def)
  have okm: "disk_ok ?m" using ok by (auto simp: disk_ok_def entry_ready_def)
  have c: "content ?m p = (if p = de_path ?e then write_at ?c (nat fo) d else content m p)" for p by (simp add: content_def file_content_def)
  have path: "de_path (md_entries m ! j) \<noteq> de_path ?e" if "j < length (md_entries m)" "j \<noteq> i" for j
    using ok i that by (simp add: disk_ok_def distinct_conv_nth)
  have "flat ?m x = (if pos \<le> x \<and> x < pos + int (length d) then d ! nat (x - pos) else flat m x)
      \<and> (present m x \<or> pos \<le> x \<and> x < pos + int (length d) \<longrightarrow> present ?m x)" for x
  proof (cases "isInRange ?e x")
    case True
    have g: "0 \<le> x - ?o" using True by (simp add: isInRange_def)
    have r: "nat fo \<le> nat (x - ?o) \<and> nat (x - ?o) < nat fo + length d \<longleftrightarrow> pos \<le> x \<and> x < pos + int (length d)"
      using fo(1) pos g by auto
    have s: "nat (x - ?o) - nat fo = nat (x - pos)" using fo(1) pos g by auto
    have "flat ?m x = byte_at (write_at ?c (nat fo) d) (nat (x - ?o))" using flat_in_range(1) [OF okm, of i x] i True c by simp
    moreover have "flat m x = byte_at ?c (nat (x - ?o))" using flat_in_range(1) [OF ok i True] .
    moreover have "present ?m x = (nat (x - ?o) < length (write_at ?c (nat fo) d))" using flat_in_range(2) [OF okm, of i x] i True c by simp
    moreover have "present m x = (nat (x - ?o) < length ?c)" using flat_in_range(2) [OF ok i True] .
    moreover have "d \<noteq> [] \<or> \<not> (pos \<le> x \<and> x < pos + int (length d))" by auto
    ultimately show ?thesis using r s by (auto simp: byte_at_write length_write_at)
  next
    case False
    have out: "\<not> (pos \<le> x \<and> x < pos + int (length d))"
      using False fo pos by (auto simp: isInRange_def FileEntry_getLastOffset_def)
    have "flat ?m x = flat m x \<and> present ?m x = present m x"
    proof (cases "find (\<lambda>e. isInRange e x) (md_entries m)")
      case None
      then show ?thesis by (simp add: flat_def present_def)
    next
      case (Some e')
      then obtain j where j: "j < length (md_entries m)" "e' = md_entries m ! j" "isInRange e' x" by (auto simp: find_Some_iff)
      then have "j \<noteq> i" using False by auto
      then show ?thesis using Some path [OF j(1)] j(2) c by (simp add: flat_def present_def)
    qed
    then show ?thesis unfolding if_not_P [OF out] using out by blast
  qed
  then show thesis using that [OF w okm] by blast
qed

text \<open>The loop, from the entry that holds the position, when every file it meets has a writer.\<close>

definition writers_upto :: "multi_disk \<Rightarrow> nat \<Rightarrow> int \<Rightarrow> bool" where
  "writers_upto m i x \<longleftrightarrow> (\<forall>j < length (md_entries m). i \<le> j \<longrightarrow> fe_offset (de_file (md_entries m ! j)) < x \<longrightarrow> de_writer (md_entries m ! j))"

lemma writers_static:
  assumes "same_static m m'"
  shows "writers_upto m' i x = writers_upto m i x"
proof -
  have l: "length (md_entries m') = length (md_entries m)"
    using assms map_eq_imp_length_eq unfolding same_static_def by blast
  show ?thesis
    using same_static_nth(2,4) [OF assms] unfolding writers_upto_def l by auto
qed

lemma total_static: "same_static m m' \<Longrightarrow> total_length (md_entries m') = total_length (md_entries m)"
proof -
  have e: "total_length es = sum_list (map (fe_length \<circ> fst) (map static es))" for es
    by (simp add: total_length_def static_def comp_def)
  show "same_static m m' \<Longrightarrow> total_length (md_entries m') = total_length (md_entries m)"
    by (simp only: e same_static_def)
qed

lemma drop_nth_int:
  "n < length xs \<Longrightarrow> pos + int n \<le> x \<Longrightarrow> drop n xs ! nat (x - (pos + int n)) = xs ! nat (x - pos)"
proof -
  assume "n < length xs" "pos + int n \<le> x"
  then have "n + nat (x - (pos + int n)) = nat (x - pos)" by linarith
  then show ?thesis using \<open>n < length xs\<close> by simp
qed

lemma joined_write:
  assumes n: "n < length rest"
    and g: "g x = (if pos + int n \<le> x \<and> x < pos + int (length rest) then drop n rest ! nat (x - (pos + int n)) else f x)"
    and f: "f x = (if pos \<le> x \<and> x < pos + int (length (take n rest)) then take n rest ! nat (x - pos) else h x)"
  shows "g x = (if pos \<le> x \<and> x < pos + int (length rest) then rest ! nat (x - pos) else h x)"
proof -
  have lt: "length (take n rest) = n" using n by simp
  show ?thesis
  proof (cases "pos + int n \<le> x")
    case True
    then show ?thesis using g f drop_nth_int [OF n True] by (auto simp: lt)
  next
    case False
    then have "pos \<le> x \<Longrightarrow> nat (x - pos) < n" by linarith
    then show ?thesis using False g f n by (auto simp: lt)
  qed
qed

lemma write_loop_ok:
  assumes fw: "good_writer w"
  shows "disk_ok m \<Longrightarrow> i < length (md_entries m) \<Longrightarrow> rest \<noteq> [] \<Longrightarrow> 0 \<le> fo \<Longrightarrow> fo \<le> fe_length (de_file (md_entries m ! i)) \<Longrightarrow>
    pos = fe_offset (de_file (md_entries m ! i)) + fo \<Longrightarrow> pos + int (length rest) \<le> total_length (md_entries m) \<Longrightarrow>
    fe_offset (de_file (md_entries m ! i)) < pos + int (length rest) \<Longrightarrow> writers_upto m i (pos + int (length rest)) \<Longrightarrow>
    \<exists>m'. write_loop w evict [i..<length (md_entries m)] pos rest fo m = (m', Inr ()) \<and> disk_ok m' \<and> same_static m m'
      \<and> (\<forall>x. flat m' x = (if pos \<le> x \<and> x < pos + int (length rest) then rest ! nat (x - pos) else flat m x))
      \<and> (\<forall>x. present m x \<or> pos \<le> x \<and> x < pos + int (length rest) \<longrightarrow> present m' x)"
proof (induction "length (md_entries m) - i" arbitrary: m i rest fo pos)
  case 0
  then show ?case by simp
next
  case (Suc k)
  let ?e = "md_entries m ! i" and ?L = "length (md_entries m)" and ?len = "fe_length (de_file (md_entries m ! i))"
  let ?n = "nat (calculateLength ?e fo (int (length rest)))"
  have n: "int ?n = min (?len - fo) (int (length rest))" using Suc.prems(4,5) by (auto simp: calculateLength_def)
  have wr: "de_writer ?e" using Suc.prems(2,8,9) by (simp add: writers_upto_def)
  obtain m1 where m1: "MultiDiskAdaptor_openIfNot (DiskWriterEntry_openFile w) (evict i) i m = (m1, Inr ())" "disk_ok m1" "same_static m m1"
    "\<And>p. content m1 p = content m p" "de_writer ?e \<Longrightarrow> de_open (md_entries m1 ! i)"
    "\<And>p. md_disk m p \<noteq> None \<Longrightarrow> md_disk m1 p \<noteq> None"
    by (rule openIfNot_ok [OF fw Suc.prems(1,2)]) (rule that)
  note s1 = same_static_nth [OF m1(3) Suc.prems(2)]
  have i1: "i < length (md_entries m1)" using s1(1) Suc.prems(2) by simp
  have opn: "de_open (md_entries m1 ! i)" using m1(5) wr by blast
  have "?n \<le> length rest" using n by linarith
  then have lt: "int (length (take ?n rest)) = int ?n" by (simp only: length_take min_absorb2)
  have fo2: "fo + int (length (take ?n rest)) \<le> fe_length (de_file (md_entries m1 ! i))" unfolding lt s1(2) using n by linarith
  have pos1: "pos = fe_offset (de_file (md_entries m1 ! i)) + fo" using Suc.prems(6) s1(2) by simp
  obtain disk where d: "dw_writeData w (md_disk m1) (md_entries m1 ! i) (take ?n rest) fo = (disk, None)"
    "disk_ok (m1\<lparr>md_disk := disk\<rparr>)"
    "\<And>x. flat (m1\<lparr>md_disk := disk\<rparr>) x = (if pos \<le> x \<and> x < pos + int (length (take ?n rest)) then take ?n rest ! nat (x - pos) else flat m1 x)"
    "\<And>x. present m1 x \<or> pos \<le> x \<and> x < pos + int (length (take ?n rest)) \<Longrightarrow> present (m1\<lparr>md_disk := disk\<rparr>) x"
    by (rule write_entry [OF fw m1(2) i1 opn Suc.prems(4) fo2 pos1]) (rule that)
  let ?m2 = "m1\<lparr>md_disk := disk\<rparr>"
  have s2: "same_static m ?m2" using m1(3) by (simp add: same_static_def)
  have l2: "length (md_entries ?m2) = ?L" using s1(1) by simp
  note fl = flat_cong [OF m1(3,4)]
  have step: "write_loop w evict [i..<?L] pos rest fo m
      = (if drop ?n rest = [] then (?m2, Inr ()) else write_loop w evict [Suc i..<?L] (pos + int ?n) (drop ?n rest) 0 ?m2)"
    using Suc.prems(2) m1(1) opn d(1) by (simp add: upt_conv_Cons Let_def)
  show ?case
  proof (cases "drop ?n rest = []")
    case True
    then have all: "length rest \<le> ?n" by simp
    then have "take ?n rest = rest" by simp
    then show ?thesis using step True d(2,3,4) s2 fl by auto
  next
    case False
    then have nl2: "?n < length rest" by (simp add: not_le)
    then have nl1: "int ?n = ?len - fo" using n by linarith
    note nl = nl1 nl2
    have Li: "Suc i < ?L"
    proof (rule ccontr)
      assume "\<not> Suc i < ?L"
      then have "Suc i = ?L" using Suc.prems(2) by simp
      from laid_out_total [OF _ Suc.prems(2) this, of 0] have "FileEntry_getLastOffset (de_file ?e) = total_length (md_entries m)"
        using Suc.prems(1) by (simp add: disk_ok_def)
      then show False using nl Suc.prems(6,7) by (simp add: FileEntry_getLastOffset_def)
    qed
    note sn = same_static_nth [OF s2 Li]
    have off: "fe_offset (de_file (md_entries m ! Suc i)) = pos + int ?n"
      using laid_out_next [of 0 "md_entries m" i] Suc.prems(1,6) Li nl(1) by (simp add: disk_ok_def FileEntry_getLastOffset_def)
    have len0: "0 \<le> fe_length (de_file (md_entries m ! Suc i))" using laid_out_nth [of 0 "md_entries m" "Suc i"] Suc.prems(1) Li by (simp add: disk_ok_def)
    have rl: "pos + int ?n + int (length (drop ?n rest)) = pos + int (length rest)" using nl(2) by simp
    have w2: "writers_upto ?m2 (Suc i) (pos + int ?n + int (length (drop ?n rest)))"
      unfolding rl writers_static [OF s2] using Suc.prems(9) by (simp add: writers_upto_def)
    have t2: "pos + int ?n + int (length (drop ?n rest)) \<le> total_length (md_entries ?m2)"
      unfolding rl total_static [OF s2] by (rule Suc.prems(7))
    have h1: "k = length (md_entries ?m2) - Suc i" and h2: "Suc i < length (md_entries ?m2)" using Suc.hyps(2) Li l2 by linarith+
    have sn2: "de_file (md_entries ?m2 ! Suc i) = de_file (md_entries m ! Suc i)" by (rule sn(2))
    have h3: "0 \<le> fe_length (de_file (md_entries ?m2 ! Suc i))" unfolding sn2 by (rule len0)
    have h4: "pos + int ?n = fe_offset (de_file (md_entries ?m2 ! Suc i)) + 0" unfolding sn2 off by simp
    have h5: "fe_offset (de_file (md_entries ?m2 ! Suc i)) < pos + int ?n + int (length (drop ?n rest))"
      unfolding sn2 off rl using nl2 by linarith
    have "\<exists>m'. write_loop w evict [Suc i..<length (md_entries ?m2)] (pos + int ?n) (drop ?n rest) 0 ?m2 = (m', Inr ()) \<and> disk_ok m' \<and> same_static ?m2 m'
      \<and> (\<forall>x. flat m' x = (if pos + int ?n \<le> x \<and> x < pos + int ?n + int (length (drop ?n rest)) then drop ?n rest ! nat (x - (pos + int ?n)) else flat ?m2 x))
      \<and> (\<forall>x. present ?m2 x \<or> pos + int ?n \<le> x \<and> x < pos + int ?n + int (length (drop ?n rest)) \<longrightarrow> present m' x)"
      by (rule Suc.hyps(1) [OF h1 d(2) h2 False order_refl h3 h4 t2 h5 w2])
    then obtain m' where m': "write_loop w evict [Suc i..<?L] (pos + int ?n) (drop ?n rest) 0 ?m2 = (m', Inr ())" "disk_ok m'" "same_static ?m2 m'"
      "\<And>x. flat m' x = (if pos + int ?n \<le> x \<and> x < pos + int (length rest) then drop ?n rest ! nat (x - (pos + int ?n)) else flat ?m2 x)"
      "\<And>x. present ?m2 x \<or> pos + int ?n \<le> x \<and> x < pos + int (length rest) \<Longrightarrow> present m' x"
      unfolding l2 rl by blast
    have f: "flat m' x = (if pos \<le> x \<and> x < pos + int (length rest) then rest ! nat (x - pos) else flat m x)" for x
      by (rule joined_write [OF nl2 m'(4)]) (simp only: d(3) fl(1))
    have p: "present m' x" if "present m x \<or> pos \<le> x \<and> x < pos + int (length rest)" for x
      using that m'(5) [of x] d(4) [of x] fl(2) [of x] lt by fastforce
    have "write_loop w evict [i..<?L] pos rest fo m = (m', Inr ())" using step False m'(1) by simp
    then show ?thesis using m'(2) same_static_trans [OF s2 m'(3)] f p by blast
  qed
qed

subsection \<open>Reading\<close>

lemma read_entry_full:
  "good_writer w \<Longrightarrow> de_fd e = Some True \<Longrightarrow> n = 0 \<or> fo + n \<le> length (file_content disk (de_path e)) \<Longrightarrow>
   read_entry (dw_readData w disk e) n fo = Inr (take n (drop fo (file_content disk (de_path e))), True)"
proof (induction n arbitrary: fo rule: less_induct)
  case (less n fo)
  let ?c = "file_content disk (de_path e)"
  show ?case
  proof (cases "n = 0")
    case False
    then have l: "fo + n \<le> length ?c" using less.prems(3) by simp
    obtain k where k: "0 < k" "k \<le> n" "dw_readData w disk e n fo = Inr (take k (drop fo ?c))"
      using good_writer.reads [OF less.prems(1,2) _ l] False by blast
    have lk: "length (take k (drop fo ?c)) = k" "take k (drop fo ?c) \<noteq> []" using k(1,2) l by auto
    have "read_entry (dw_readData w disk e) (n - k) (fo + k) = Inr (take (n - k) (drop (fo + k) ?c), True)"
      by (rule less.IH [OF _ less.prems(1,2)]) (use k l in linarith)+
    moreover have "take k (drop fo ?c) @ take (n - k) (drop (fo + k) ?c) = take n (drop fo ?c)"
      using k(2) by (simp only: add.commute [of fo] drop_drop [symmetric] take_add [symmetric] le_add_diff_inverse)
    ultimately show ?thesis using False k(3) lk by (subst read_entry.simps) simp
  qed (simp add: read_entry.simps)
qed

lemma present_total:
  assumes "disk_ok m" "present m x"
  shows "x < total_length (md_entries m)"
proof -
  obtain i where i: "i < length (md_entries m)" "isInRange (md_entries m ! i) x"
    using assms(2) by (auto simp: present_def find_Some_iff split: option.splits)
  have l: "laid_out 0 (md_entries m)" using assms(1) by (simp add: disk_ok_def)
  have "FileEntry_getLastOffset (de_file (md_entries m ! i)) \<le> total_length (md_entries m)"
  proof -
    let ?last = "length (md_entries m) - 1"
    have "FileEntry_getLastOffset (de_file (md_entries m ! ?last)) = 0 + total_length (md_entries m)"
      by (rule laid_out_total [OF l]) (use i(1) in auto)
    moreover have "FileEntry_getLastOffset (de_file (md_entries m ! i)) \<le> FileEntry_getLastOffset (de_file (md_entries m ! ?last))"
    proof (cases "i = ?last")
      case False
      then have "i < ?last" "?last < length (md_entries m)" using i(1) by auto
      then show ?thesis using laid_out_before [OF l] laid_out_nth [OF l, of ?last] by (fastforce simp: FileEntry_getLastOffset_def)
    qed simp
    ultimately show ?thesis by simp
  qed
  then show ?thesis using i(2) by (simp add: isInRange_def)
qed

text \<open>The bytes of one file that a piece of the sequence covers.\<close>

lemma entry_bytes:
  assumes ok: "disk_ok m" and i: "i < length (md_entries m)" and fo: "0 \<le> fo" "fo + int n \<le> fe_length (de_file (md_entries m ! i))"
    and pos: "pos = fe_offset (de_file (md_entries m ! i)) + fo"
    and pr: "\<And>x. pos \<le> x \<Longrightarrow> x < pos + int n \<Longrightarrow> present m x"
  shows "n = 0 \<or> nat fo + n \<le> length (content m (de_path (md_entries m ! i)))"
    "take n (drop (nat fo) (content m (de_path (md_entries m ! i)))) = map (\<lambda>k. flat m (pos + int k)) [0..<n]"
proof -
  let ?e = "md_entries m ! i" and ?c = "content m (de_path (md_entries m ! i))"
  have r: "isInRange ?e (pos + int k)" if "k < n" for k using that fo pos by (simp add: isInRange_def FileEntry_getLastOffset_def)
  have at: "nat (pos + int k - fe_offset (de_file ?e)) = nat fo + k" for k using fo(1) pos by linarith
  have in_c: "nat fo + k < length ?c" if "k < n" for k
    using pr [of "pos + int k"] flat_in_range(2) [OF ok i r [OF that]] that at by simp
  show a: "n = 0 \<or> nat fo + n \<le> length ?c" using in_c [of "n - 1"] by (cases n) auto
  have "flat m (pos + int k) = ?c ! (nat fo + k)" if "k < n" for k
    using flat_in_range(1) [OF ok i r [OF that]] at in_c [OF that] by (simp add: byte_at_def)
  then show "take n (drop (nat fo) ?c) = map (\<lambda>k. flat m (pos + int k)) [0..<n]"
    using a by (auto intro!: nth_equalityI)
qed


lemma map_upt_split:
  "n \<le> k \<Longrightarrow> map (\<lambda>i. f (pos + int i)) [0..<n] @ map (\<lambda>i. f (pos + int n + int i)) [0..<k - n] = map (\<lambda>i. f (pos + int i)) [0..<k]"
  by (rule nth_equalityI) (auto simp: nth_append)

lemma read_loop_ok:
  assumes fw: "good_writer w"
  shows "disk_ok m \<Longrightarrow> i < length (md_entries m) \<Longrightarrow> 0 < rem \<Longrightarrow> 0 \<le> fo \<Longrightarrow> fo \<le> fe_length (de_file (md_entries m ! i)) \<Longrightarrow>
    pos = fe_offset (de_file (md_entries m ! i)) + fo \<Longrightarrow> (\<And>x. pos \<le> x \<Longrightarrow> x < pos + int rem \<Longrightarrow> present m x) \<Longrightarrow>
    fe_offset (de_file (md_entries m ! i)) < pos + int rem \<Longrightarrow> writers_upto m i (pos + int rem) \<Longrightarrow>
    \<exists>m'. read_loop w evict [i..<length (md_entries m)] pos rem fo m = (m', Inr (map (\<lambda>k. flat m (pos + int k)) [0..<rem]))
      \<and> disk_ok m' \<and> same_static m m' \<and> (\<forall>p. content m' p = content m p)"
proof (induction "length (md_entries m) - i" arbitrary: m i rem fo pos)
  case 0
  then show ?case by simp
next
  case (Suc k)
  let ?e = "md_entries m ! i" and ?L = "length (md_entries m)" and ?len = "fe_length (de_file (md_entries m ! i))"
  let ?n = "nat (calculateLength ?e fo (int rem))"
  have n: "int ?n = min (?len - fo) (int rem)" using Suc.prems(4,5) by (auto simp: calculateLength_def)
  have wr: "de_writer ?e" using Suc.prems(2,8,9) by (simp add: writers_upto_def)
  obtain m1 where m1: "MultiDiskAdaptor_openIfNot (DiskWriterEntry_openFile w) (evict i) i m = (m1, Inr ())" "disk_ok m1" "same_static m m1"
    "\<And>p. content m1 p = content m p" "de_writer ?e \<Longrightarrow> de_open (md_entries m1 ! i)"
    "\<And>p. md_disk m p \<noteq> None \<Longrightarrow> md_disk m1 p \<noteq> None"
    by (rule openIfNot_ok [OF fw Suc.prems(1,2)]) (rule that)
  note s1 = same_static_nth [OF m1(3) Suc.prems(2)] and fl = flat_cong [OF m1(3,4)]
  have i1: "i < length (md_entries m1)" using s1(1) Suc.prems(2) by simp
  have opn: "de_open (md_entries m1 ! i)" using m1(5) wr by blast
  have fd: "de_fd (md_entries m1 ! i) = Some True" using m1(2) i1 opn by (simp add: disk_ok_def entry_ready_def)
  have nr: "?n \<le> rem" using n by linarith
  have fo1: "fo + int ?n \<le> fe_length (de_file (md_entries m1 ! i))" unfolding s1(2) using n by linarith
  have pos1: "pos = fe_offset (de_file (md_entries m1 ! i)) + fo" using Suc.prems(6) s1(2) by simp
  have pr1: "present m1 x" if "pos \<le> x" "x < pos + int ?n" for x using Suc.prems(7) [of x] that nr fl(2) by simp
  let ?c = "content m1 (de_path (md_entries m1 ! i))"
  let ?r = "map (\<lambda>k. flat m (pos + int k)) [0..<?n]"
  have eb1: "?n = 0 \<or> nat fo + ?n \<le> length ?c" by (rule entry_bytes(1) [OF m1(2) i1 Suc.prems(4) fo1 pos1]) (rule pr1)
  have eb2: "take ?n (drop (nat fo) ?c) = map (\<lambda>k. flat m1 (pos + int k)) [0..<?n]"
    by (rule entry_bytes(2) [OF m1(2) i1 Suc.prems(4) fo1 pos1]) (rule pr1)
  have re: "read_entry (dw_readData w (md_disk m1) (md_entries m1 ! i)) ?n (nat fo) = Inr (?r, True)"
    using read_entry_full [OF fw fd eb1 [unfolded content_def]] unfolding content_def [symmetric] eb2 fl(1) .
  have step: "read_loop w evict [i..<?L] pos rem fo m
      = (if rem - ?n = 0 then (m1, Inr ?r)
         else (case read_loop w evict [Suc i..<?L] (pos + int ?n) (rem - ?n) 0 m1 of
                 (m2, Inl err) \<Rightarrow> (m2, Inl err) | (m2, Inr r') \<Rightarrow> (m2, Inr (?r @ r'))))"
    using Suc.prems(2) opn by (simp only: upt_conv_Cons read_loop.simps m1(1) Let_def re split simp_thms if_True if_False sum.case)
  show ?case
  proof (cases "rem - ?n = 0")
    case True
    then have "?n = rem" using nr by simp
    then show ?thesis using step True m1(2-4) by auto
  next
    case False
    then have nl2: "?n < rem" by simp
    then have nl1: "int ?n = ?len - fo" using n by linarith
    have tot: "pos + int rem \<le> total_length (md_entries m)"
      using present_total [OF Suc.prems(1) Suc.prems(7) [of "pos + int rem - 1"]] Suc.prems(3) by simp
    have Li: "Suc i < ?L"
    proof (rule ccontr)
      assume "\<not> Suc i < ?L"
      then have "Suc i = ?L" using Suc.prems(2) by simp
      from laid_out_total [OF _ Suc.prems(2) this, of 0] have "FileEntry_getLastOffset (de_file ?e) = total_length (md_entries m)"
        using Suc.prems(1) by (simp add: disk_ok_def)
      then show False using nl1 nl2 Suc.prems(6) tot by (simp add: FileEntry_getLastOffset_def)
    qed
    note sn = same_static_nth [OF m1(3) Li]
    have off: "fe_offset (de_file (md_entries m ! Suc i)) = pos + int ?n"
      using laid_out_next [of 0 "md_entries m" i] Suc.prems(1,6) Li nl1 by (simp add: disk_ok_def FileEntry_getLastOffset_def)
    have len0: "0 \<le> fe_length (de_file (md_entries m ! Suc i))" using laid_out_nth [of 0 "md_entries m" "Suc i"] Suc.prems(1) Li by (simp add: disk_ok_def)
    have rl: "pos + int ?n + int (rem - ?n) = pos + int rem" using nl2 by linarith
    have h1: "k = length (md_entries m1) - Suc i" and h2: "Suc i < length (md_entries m1)" using Suc.hyps(2) Li s1(1) by linarith+
    have h3: "0 \<le> fe_length (de_file (md_entries m1 ! Suc i))" unfolding sn(2) by (rule len0)
    have h4: "pos + int ?n = fe_offset (de_file (md_entries m1 ! Suc i)) + 0" unfolding sn(2) off by simp
    have h5: "fe_offset (de_file (md_entries m1 ! Suc i)) < pos + int ?n + int (rem - ?n)" unfolding sn(2) off rl using nl2 by linarith
    have h6: "writers_upto m1 (Suc i) (pos + int ?n + int (rem - ?n))"
      unfolding rl writers_static [OF m1(3)] using Suc.prems(9) by (simp add: writers_upto_def)
    have h7: "present m1 x" if "pos + int ?n \<le> x" "x < pos + int ?n + int (rem - ?n)" for x
      unfolding fl(2) by (rule Suc.prems(7)) (use that rl in linarith)+
    have "0 < rem - ?n" using False by simp
    from Suc.hyps(1) [OF h1 m1(2) h2 this order_refl h3 h4 h7 h5 h6]
    obtain m' where m': "read_loop w evict [Suc i..<?L] (pos + int ?n) (rem - ?n) 0 m1
        = (m', Inr (map (\<lambda>k. flat m1 (pos + int ?n + int k)) [0..<rem - ?n]))" "disk_ok m'" "same_static m1 m'" "\<And>p. content m' p = content m1 p"
      unfolding s1(1) by blast
    have "?r @ map (\<lambda>k. flat m1 (pos + int ?n + int k)) [0..<rem - ?n] = map (\<lambda>k. flat m (pos + int k)) [0..<rem]"
      unfolding fl(1) by (rule map_upt_split [OF nr])
    then have "read_loop w evict [i..<?L] pos rem fo m = (m', Inr (map (\<lambda>k. flat m (pos + int k)) [0..<rem]))"
      unfolding step if_not_P [OF False] m'(1) by simp
    then show ?thesis using m'(2,4) same_static_trans [OF m1(3) m'(3)] m1(4) by auto
  qed
qed

subsection \<open>The first entry\<close>

lemma takeWhile_length_iff: "\<forall>j<i. P (xs ! j) \<Longrightarrow> i \<le> length xs \<Longrightarrow> i = length xs \<or> \<not> P (xs ! i) \<Longrightarrow> length (takeWhile P xs) = i"
proof (induction xs arbitrary: i)
  case (Cons x xs)
  then show ?case by (cases i) (auto simp: All_less_Suc2)
qed simp

lemma findFirst_in_range:
  assumes l: "laid_out 0 es" and i: "i < length es" "isInRange (es ! i) x"
  shows "findFirstDiskWriterEntry es x = Some (Inr i)"
proof -
  let ?P = "\<lambda>e. \<not> x < fe_offset (de_file e)"
  have "?P (es ! j)" if "j < Suc i" for j
  proof (cases "j = i")
    case True
    then show ?thesis using i(2) by (simp add: isInRange_def)
  next
    case False
    then show ?thesis using laid_out_before [OF l, of j i] laid_out_nth [OF l, of j] that i by (fastforce simp: isInRange_def FileEntry_getLastOffset_def)
  qed
  moreover have "Suc i = length es \<or> \<not> ?P (es ! Suc i)"
    using laid_out_next [OF l, of i] i by (cases "Suc i < length es") (auto simp: isInRange_def)
  ultimately have "length (takeWhile ?P es) = Suc i" using i(1) by (intro takeWhile_length_iff) auto
  then show ?thesis using i(2) by (simp add: findFirstDiskWriterEntry_def Let_def)
qed

lemma in_range_exists: "laid_out off es \<Longrightarrow> off \<le> x \<Longrightarrow> x < off + total_length es \<Longrightarrow> \<exists>i < length es. isInRange (es ! i) x"
proof (induction es arbitrary: off)
  case (Cons e es)
  show ?case
  proof (cases "x < FileEntry_getLastOffset (de_file e)")
    case True
    then show ?thesis using Cons.prems by (intro exI [of _ 0]) (simp add: isInRange_def)
  next
    case False
    then have "\<exists>i < length es. isInRange (es ! i) x"
      using Cons.prems by (intro Cons.IH [of "off + fe_length (de_file e)"]) (auto simp: total_length_def FileEntry_getLastOffset_def)
    then obtain i where "i < length es" "isInRange (es ! i) x" by blast
    then show ?thesis by (intro exI [of _ "Suc i"]) simp
  qed
qed (simp add: total_length_def)

text \<open>A write and a read of a range whose files have writers.\<close>

definition range_writers :: "multi_disk \<Rightarrow> int \<Rightarrow> int \<Rightarrow> bool" where
  "range_writers m lo hi \<longleftrightarrow> (\<forall>e\<in>set (md_entries m). lo < FileEntry_getLastOffset (de_file e) \<longrightarrow> fe_offset (de_file e) < hi \<longrightarrow> de_writer e)"

lemma writeData_ok:
  assumes fw: "good_writer w" and ok: "disk_ok m" and d: "d \<noteq> []" and off: "0 \<le> off" "off + int (length d) \<le> total_length (md_entries m)"
    and w: "\<And>i. i < length (md_entries m) \<Longrightarrow> isInRange (md_entries m ! i) off \<Longrightarrow> writers_upto m i (off + int (length d))"
  obtains m' where "MultiDiskAdaptor_writeData w evict d off m = Some (m', Inr ())" "disk_ok m'" "same_static m m'"
    "\<And>x. flat m' x = (if off \<le> x \<and> x < off + int (length d) then d ! nat (x - off) else flat m x)"
    "\<And>x. present m x \<or> off \<le> x \<and> x < off + int (length d) \<Longrightarrow> present m' x"
proof -
  have l: "laid_out 0 (md_entries m)" using ok by (simp add: disk_ok_def)
  have "0 < length d" using d by simp
  then have "off < 0 + total_length (md_entries m)" using off(2) by linarith
  from in_range_exists [OF l off(1) this] obtain i where i: "i < length (md_entries m)" "isInRange (md_entries m ! i) off" by blast
  let ?f = "de_file (md_entries m ! i)"
  have r: "fe_offset ?f \<le> off" "off < fe_offset ?f + fe_length ?f" using i(2) by (simp_all add: isInRange_def FileEntry_getLastOffset_def)
  have lo: "fe_offset ?f < off + int (length d)" using r(1) \<open>0 < length d\<close> by linarith
  have "\<exists>m'. write_loop w evict [i..<length (md_entries m)] off d (off - fe_offset ?f) m = (m', Inr ()) \<and> disk_ok m' \<and> same_static m m'
      \<and> (\<forall>x. flat m' x = (if off \<le> x \<and> x < off + int (length d) then d ! nat (x - off) else flat m x))
      \<and> (\<forall>x. present m x \<or> off \<le> x \<and> x < off + int (length d) \<longrightarrow> present m' x)"
    by (rule write_loop_ok [OF fw ok i(1) d _ _ _ off(2) lo w [OF i]]) (use r in linarith)+
  then show ?thesis using that findFirst_in_range [OF l i] by (auto simp: MultiDiskAdaptor_writeData_def)
qed

lemma readData_ok:
  assumes fw: "good_writer w" and ok: "disk_ok m" and len: "0 < len" and off: "0 \<le> off"
    and pr: "\<And>x. off \<le> x \<Longrightarrow> x < off + int len \<Longrightarrow> present m x"
    and w: "\<And>i. i < length (md_entries m) \<Longrightarrow> isInRange (md_entries m ! i) off \<Longrightarrow> writers_upto m i (off + int len)"
  obtains m' where "MultiDiskAdaptor_readData w evict len off m = Some (m', Inr (map (\<lambda>k. flat m (off + int k)) [0..<len]))"
    "disk_ok m'" "same_static m m'" "\<And>p. content m' p = content m p"
proof -
  have l: "laid_out 0 (md_entries m)" using ok by (simp add: disk_ok_def)
  have "off < 0 + total_length (md_entries m)" using present_total [OF ok pr [of off]] len by simp
  from in_range_exists [OF l off this] obtain i where i: "i < length (md_entries m)" "isInRange (md_entries m ! i) off" by blast
  let ?f = "de_file (md_entries m ! i)"
  have r: "fe_offset ?f \<le> off" "off < fe_offset ?f + fe_length ?f" using i(2) by (simp_all add: isInRange_def FileEntry_getLastOffset_def)
  have lo: "fe_offset ?f < off + int len" using r(1) len by linarith
  have "\<exists>m'. read_loop w evict [i..<length (md_entries m)] off len (off - fe_offset ?f) m = (m', Inr (map (\<lambda>k. flat m (off + int k)) [0..<len]))
      \<and> disk_ok m' \<and> same_static m m' \<and> (\<forall>p. content m' p = content m p)"
    by (rule read_loop_ok [OF fw ok i(1) len _ _ _ pr lo w [OF i]]) (use r in linarith)+
  then show ?thesis using that findFirst_in_range [OF l i] by (auto simp: MultiDiskAdaptor_readData_def)
qed


subsection \<open>Which files get a writer\<close>

lemma laid_out_append: "laid_out off (xs @ ys) \<longleftrightarrow> laid_out off xs \<and> laid_out (off + total_length xs) ys"
  by (induction xs arbitrary: off) (auto simp: total_length_def add.assoc)

lemma total_nonneg: "laid_out off es \<Longrightarrow> 0 \<le> total_length es"
  by (induction es arbitrary: off) (auto simp: total_length_def)

lemma laid_out_mem:
  assumes "laid_out off es" "e \<in> set es"
  shows "off \<le> fe_offset (de_file e) \<and> 0 \<le> fe_length (de_file e) \<and> FileEntry_getLastOffset (de_file e) \<le> off + total_length es"
  using assms
proof (induction es arbitrary: off)
  case (Cons e' es)
  then show ?case
    using Cons.IH [of "off + fe_length (de_file e')"] total_nonneg [of "off + fe_length (de_file e')" es]
    by (force simp: total_length_def FileEntry_getLastOffset_def)
qed simp

text \<open>What the two passes know when they reach an entry.\<close>

definition forward_offset :: "int \<Rightarrow> disk_entry \<Rightarrow> int" where
  "forward_offset pl e = (FileEntry_getLastOffset (de_file e) - 1) sdiv pl * pl + pl"

definition forward_state :: "int \<Rightarrow> int \<Rightarrow> disk_entry list \<Rightarrow> int" where
  "forward_state pl l es = fold (\<lambda>e l. if fe_requested (de_file e) \<and> fe_length (de_file e) > 0 then forward_offset pl e else l) es l"

definition backward_state :: "int \<Rightarrow> int \<Rightarrow> disk_entry list \<Rightarrow> int" where
  "backward_state pl l es = fold (\<lambda>e l. if fe_requested (de_file e) then fe_offset (de_file e) sdiv pl * pl else l) es l"

definition mark_forward :: "int \<Rightarrow> disk_entry \<Rightarrow> disk_entry" where
  "mark_forward l e = (if \<not> fe_requested (de_file e) \<and> fe_offset (de_file e) < l then e\<lparr>de_needsDiskWriter := True\<rparr> else e)"

definition mark_backward :: "int \<Rightarrow> disk_entry \<Rightarrow> disk_entry" where
  "mark_backward l e =
     (if \<not> fe_requested (de_file e) \<and> (l \<le> fe_offset (de_file e) \<or> l < FileEntry_getLastOffset (de_file e))
      then e\<lparr>de_needsFileAllocation := True\<rparr> else e)"

lemma share_forward_step:
  "share_forward pl l (xs @ e # ys) = share_forward pl l xs @ mark_forward (forward_state pl l xs) e
     # share_forward pl (forward_state pl l (xs @ [e])) ys"
  by (induction xs arbitrary: l) (auto simp: Let_def mark_forward_def forward_state_def forward_offset_def)

lemma share_backward_step:
  "share_backward pl l (xs @ e # ys) = share_backward pl l xs @ mark_backward (backward_state pl l xs) e
     # share_backward pl (backward_state pl l (xs @ [e])) ys"
  by (induction xs arbitrary: l) (auto simp: Let_def mark_backward_def backward_state_def)

lemma share_files [simp]:
  "map de_file (share_forward pl l es) = map de_file es" "map de_file (share_backward pl l es) = map de_file es"
  "map de_path (share_forward pl l es) = map de_path es" "map de_path (share_backward pl l es) = map de_path es"
  by (induction es arbitrary: l; simp add: Let_def)+

lemma share_length [simp]: "length (share_forward pl l es) = length es" "length (share_backward pl l es) = length es"
  by (induction es arbitrary: l; simp add: Let_def)+

lemma backward_state_files: "map de_file xs = map de_file ys \<Longrightarrow> backward_state pl l xs = backward_state pl l ys"
  unfolding backward_state_def by (induction xs ys arbitrary: l rule: list_induct2') auto

lemma sdiv_nonneg: "0 \<le> a \<Longrightarrow> 0 < b \<Longrightarrow> (a :: int) sdiv b = a div b"
  by (cases "a = 0") (simp_all add: signed_divide_int_def)

text \<open>A requested file before it raises the one, a requested file behind it lowers the other.\<close>

lemma forward_state_ge:
  assumes pl: "0 < pl" and l: "laid_out off xs" "0 \<le> off" and r: "r \<in> set xs" "fe_requested (de_file r)" "0 < fe_length (de_file r)"
  shows "forward_offset pl r \<le> forward_state pl l xs"
  using l r(1)
proof (induction xs rule: rev_induct)
  case (snoc y xs)
  have lx: "laid_out off xs" "fe_offset (de_file y) = off + total_length xs" using snoc.prems(1) by (simp_all add: laid_out_append)
  show ?case
  proof (cases "r = y")
    case True
    then show ?thesis using r by (simp add: forward_state_def)
  next
    case False
    then have "r \<in> set xs" using snoc.prems(3) by simp
    have ih: "forward_offset pl r \<le> forward_state pl l xs" by (rule snoc.IH [OF lx(1) snoc.prems(2) \<open>r \<in> set xs\<close>])
    have m: "0 \<le> fe_offset (de_file r)" "FileEntry_getLastOffset (de_file r) \<le> fe_offset (de_file y)"
      using laid_out_mem [OF lx(1) \<open>r \<in> set xs\<close>] snoc.prems(2) lx(2) by simp_all
    have "forward_offset pl r \<le> forward_offset pl y" if "0 < fe_length (de_file y)"
    proof -
      have "0 \<le> FileEntry_getLastOffset (de_file r) - 1" "FileEntry_getLastOffset (de_file r) - 1 \<le> FileEntry_getLastOffset (de_file y) - 1"
        using m r(3) that by (simp_all add: FileEntry_getLastOffset_def)
      then show ?thesis using pl unfolding forward_offset_def
        by (simp add: sdiv_nonneg zdiv_mono1 mult_right_mono)
    qed
    then show ?thesis using ih by (auto simp: forward_state_def)
  qed
qed simp

lemma backward_state_le:
  assumes pl: "0 < pl" and l: "laid_out off ys" "0 \<le> off" and r: "r \<in> set ys" "fe_requested (de_file r)"
  shows "backward_state pl l (rev ys) \<le> fe_offset (de_file r) sdiv pl * pl"
  using l r(1)
proof (induction ys arbitrary: off)
  case (Cons y ys)
  have y: "fe_offset (de_file y) = off" "0 \<le> fe_length (de_file y)" "laid_out (off + fe_length (de_file y)) ys" using Cons.prems(1) by simp_all
  have st: "backward_state pl l (rev (y # ys)) = (if fe_requested (de_file y) then fe_offset (de_file y) sdiv pl * pl else backward_state pl l (rev ys))"
    by (simp add: backward_state_def)
  show ?case
  proof (cases "fe_requested (de_file y)")
    case True
    have "off \<le> fe_offset (de_file r)" using laid_out_mem [OF Cons.prems(1,3)] by simp
    then show ?thesis unfolding st using True y(1) Cons.prems(2) pl
      by (simp add: sdiv_nonneg zdiv_mono1 mult_right_mono)
  next
    case False
    then have "r \<in> set ys" using Cons.prems(3) r(2) by auto
    then show ?thesis unfolding st using False Cons.IH [OF y(3)] Cons.prems(2) y(2) by simp
  qed
qed simp


definition shared_writers :: "int \<Rightarrow> multi_disk \<Rightarrow> bool" where
  "shared_writers pl m \<longleftrightarrow> (\<forall>r\<in>set (md_entries m). \<forall>e\<in>set (md_entries m). \<forall>x.
     fe_requested (de_file r) \<longrightarrow> isInRange r x \<longrightarrow> fe_offset (de_file e) < x div pl * pl + pl \<longrightarrow>
     (x div pl * pl \<le> fe_offset (de_file e) \<or> x div pl * pl < FileEntry_getLastOffset (de_file e)) \<longrightarrow> de_writer e)"

definition files_ok :: "(file_entry \<times> string) list \<Rightarrow> bool" where
  "files_ok files \<longleftrightarrow> laid_out 0 (map createDiskWriterEntry files) \<and> distinct (map snd files)"

lemma mark_simps [simp]:
  "de_file (mark_forward l e) = de_file e" "de_file (mark_backward l e) = de_file e" "de_file (make_writer m e) = de_file e"
  "de_path (make_writer m e) = de_path e"
  "de_needsFileAllocation e \<Longrightarrow> de_needsFileAllocation (mark_forward l e)"
  "de_needsFileAllocation e \<Longrightarrow> de_needsFileAllocation (mark_backward l e)"
  "de_needsDiskWriter e \<Longrightarrow> de_needsDiskWriter (mark_backward l e)"
  by (simp_all add: mark_forward_def mark_backward_def make_writer_def)

lemma mark_fields [simp]:
  "de_open (mark_forward l e) = de_open e" "de_open (mark_backward l e) = de_open e" "de_open (make_writer m e) = de_open e"
  "de_readOnly (mark_forward l e) = de_readOnly e" "de_readOnly (mark_backward l e) = de_readOnly e"
  "de_path (mark_forward l e) = de_path e" "de_path (mark_backward l e) = de_path e"
  by (simp_all add: mark_forward_def mark_backward_def make_writer_def)

lemma make_writer_readOnly: "\<not> md_readOnly m \<Longrightarrow> \<not> de_readOnly e \<Longrightarrow> \<not> de_readOnly (make_writer m e)"
  by (simp add: make_writer_def)

lemma make_writer_writer:
  "de_needsFileAllocation e \<or> de_needsDiskWriter e \<or> md_disk m (de_path e) \<noteq> None \<Longrightarrow> de_writer (make_writer m e)"
  unfolding make_writer_def by (subst if_P) simp_all

lemma create_fields [simp]:
  "de_file (createDiskWriterEntry b) = fst b" "de_path (createDiskWriterEntry b) = snd b" "\<not> de_open (createDiskWriterEntry b)"
  "\<not> de_readOnly (createDiskWriterEntry b)" "de_needsFileAllocation (createDiskWriterEntry b) = fe_requested (fst b)"
  by (simp_all add: createDiskWriterEntry_def)

lemma shared_pass:
  assumes pl: "0 < pl" and l: "laid_out 0 es"
    and r: "r \<in> set es" "fe_requested (de_file r)" "isInRange r x"
    and e: "es = xs @ e # ys" "fe_offset (de_file e) < x div pl * pl + pl"
      "x div pl * pl \<le> fe_offset (de_file e) \<or> x div pl * pl < FileEntry_getLastOffset (de_file e)"
    and alloc: "fe_requested (de_file e) \<Longrightarrow> de_needsFileAllocation e"
  shows "de_needsFileAllocation (mark_backward (backward_state pl M (rev ys)) (mark_forward (forward_state pl 0 xs) e))
    \<or> de_needsDiskWriter (mark_backward (backward_state pl M (rev ys)) (mark_forward (forward_state pl 0 xs) e))"
proof (cases "fe_requested (de_file e)")
  case True
  then show ?thesis using alloc by simp
next
  case False
  have lx: "laid_out 0 xs" "laid_out (total_length xs) (e # ys)" using l e(1) by (simp_all add: laid_out_append)
  have ly: "laid_out (fe_offset (de_file e) + fe_length (de_file e)) ys" and e0: "0 \<le> fe_offset (de_file e) + fe_length (de_file e)"
    using lx(2) total_nonneg [OF lx(1)] by simp_all
  have rng: "fe_offset (de_file r) \<le> x" "x < FileEntry_getLastOffset (de_file r)" using r(3) by (simp_all add: isInRange_def)
  have r0: "0 \<le> fe_offset (de_file r)" using laid_out_mem [OF l r(1)] by simp
  have "r \<noteq> e" using False r(2) by blast
  then consider "r \<in> set xs" | "r \<in> set ys" using r(1) e(1) by auto
  then show ?thesis
  proof cases
    case 1
    have len: "0 < fe_length (de_file r)" using rng by (simp add: FileEntry_getLastOffset_def)
    have "x div pl \<le> (FileEntry_getLastOffset (de_file r) - 1) div pl" using rng(2) pl by (intro zdiv_mono1) auto
    then have "x div pl * pl + pl \<le> forward_offset pl r"
      using rng r0 pl unfolding forward_offset_def by (simp add: sdiv_nonneg mult_right_mono)
    also have "\<dots> \<le> forward_state pl 0 xs" by (rule forward_state_ge [OF pl lx(1) order_refl 1 r(2) len])
    finally have "fe_offset (de_file e) < forward_state pl 0 xs" using e(2) by linarith
    then show ?thesis using False by (simp add: mark_forward_def [of _ e])
  next
    case 2
    have "backward_state pl M (rev ys) \<le> fe_offset (de_file r) sdiv pl * pl" by (rule backward_state_le [OF pl ly e0 2 r(2)])
    also have "\<dots> \<le> x div pl * pl" using rng(1) r0 pl by (simp add: sdiv_nonneg zdiv_mono1 mult_right_mono)
    finally have "backward_state pl M (rev ys) \<le> fe_offset (de_file e) \<or> backward_state pl M (rev ys) < FileEntry_getLastOffset (de_file e)"
      using e(3) by linarith
    then show ?thesis using False by (simp add: mark_backward_def)
  qed
qed

lemma laid_out_files: "map de_file es = map de_file es' \<Longrightarrow> laid_out off es' \<Longrightarrow> laid_out off es"
  by (induction es es' arbitrary: off rule: list_induct2') auto

lemma reset_ok:
  assumes pl: "0 < md_pieceLength m" and f: "files_ok (md_files m)" and m: "md_opened m = []" "\<not> md_readOnly m"
  obtains m1 where "MultiDiskAdaptor_resetDiskWriterEntries m = Some m1" "disk_ok m1" "shared_writers (md_pieceLength m) m1"
    "md_disk m1 = md_disk m" "md_pieceLength m1 = md_pieceLength m" "map de_file (md_entries m1) = map fst (md_files m)"
    "map de_path (md_entries m1) = map snd (md_files m)"
    "\<And>e. e \<in> set (md_entries m1) \<Longrightarrow> fe_requested (de_file e) \<or> md_disk m (de_path e) \<noteq> None \<Longrightarrow> de_writer e"
    "md_files m1 = md_files m" "\<not> md_readOnly m1"
proof -
  let ?pl = "md_pieceLength m" and ?M = "2 ^ 63 - 1 :: int"
  let ?es = "map createDiskWriterEntry (md_files m)"
  let ?sh = "rev (share_backward ?pl ?M (rev (share_forward ?pl 0 ?es)))"
  let ?m1 = "m\<lparr>md_entries := map (make_writer m) ?sh\<rparr>"
  have r: "MultiDiskAdaptor_resetDiskWriterEntries m = Some ?m1" using m(1) pl by (simp add: MultiDiskAdaptor_resetDiskWriterEntries_def)
  have files: "map de_file ?sh = map fst (md_files m)" "map de_path ?sh = map snd (md_files m)"
    by (simp_all add: rev_map [symmetric] comp_def createDiskWriterEntry_def)
  have l: "laid_out 0 ?es" using f by (simp add: files_ok_def)
  have at: "\<exists>xs ys b. ?es = xs @ createDiskWriterEntry b # ys
      \<and> ?sh ! j = mark_backward (backward_state ?pl ?M (rev ys)) (mark_forward (forward_state ?pl 0 xs) (createDiskWriterEntry b))
      \<and> b = md_files m ! j" if "j < length (md_files m)" for j
  proof -
    let ?xs = "take j ?es" and ?e = "?es ! j" and ?ys = "drop (Suc j) ?es"
    have d: "?es = ?xs @ ?e # ?ys" by (rule id_take_nth_drop) (use that in simp)
    let ?F = "share_forward ?pl (forward_state ?pl 0 (?xs @ [?e])) ?ys"
    have "share_forward ?pl 0 ?es = share_forward ?pl 0 ?xs @ mark_forward (forward_state ?pl 0 ?xs) ?e # ?F"
      by (subst d) (rule share_forward_step)
    then have b: "share_backward ?pl ?M (rev (share_forward ?pl 0 ?es))
        = share_backward ?pl ?M (rev ?F) @ mark_backward (backward_state ?pl ?M (rev ?F)) (mark_forward (forward_state ?pl 0 ?xs) ?e)
          # share_backward ?pl (backward_state ?pl ?M (rev ?F @ [mark_forward (forward_state ?pl 0 ?xs) ?e])) (rev (share_forward ?pl 0 ?xs))"
      by (simp add: share_backward_step)
    have s: "backward_state ?pl ?M (rev ?F) = backward_state ?pl ?M (rev ?ys)"
      by (rule backward_state_files) (simp only: rev_map [symmetric] share_files)
    have "?sh ! j = mark_backward (backward_state ?pl ?M (rev ?F)) (mark_forward (forward_state ?pl 0 ?xs) ?e)"
      unfolding b using that by (simp add: nth_append)
    then show ?thesis using d s that by (metis nth_map)
  qed
  have len: "length ?sh = length (md_files m)" by simp
  have mem: "\<exists>xs ys b. ?es = xs @ createDiskWriterEntry b # ys
      \<and> e = make_writer m (mark_backward (backward_state ?pl ?M (rev ys)) (mark_forward (forward_state ?pl 0 xs) (createDiskWriterEntry b)))"
    if "e \<in> set (md_entries ?m1)" for e
  proof -
    have e1: "md_entries ?m1 = map (make_writer m) ?sh" by simp
    have "e \<in> make_writer m ` set ?sh" using that unfolding e1 set_map .
    then obtain e' where e': "e = make_writer m e'" "e' \<in> set ?sh" by blast
    obtain j where "j < length (md_files m)" "e' = ?sh ! j" using e'(2) unfolding in_set_conv_nth len by blast
    note this e'(1)
    then show ?thesis using at [of j] by metis
  qed
  have files1: "map de_file (md_entries ?m1) = map fst (md_files m)" "map de_path (md_entries ?m1) = map snd (md_files m)"
    using files by (simp_all add: comp_def)
  have fields: "\<not> de_open e \<and> \<not> de_readOnly e" if "e \<in> set (md_entries ?m1)" for e
    using mem [OF that] m(2) by (auto simp: make_writer_readOnly)
  have wr: "de_writer e" if "e \<in> set (md_entries ?m1)" "fe_requested (de_file e) \<or> md_disk m (de_path e) \<noteq> None" for e
    using mem [OF that(1)] that(2) by (auto intro!: make_writer_writer)
  have es: "map de_file ?es = map fst (md_files m)" by (simp add: comp_def)
  have l1: "laid_out 0 (md_entries ?m1)" by (rule laid_out_files [OF trans [OF files1(1) es [symmetric]] l])
  have d1: "distinct (map de_path (md_entries ?m1))" unfolding files1(2) using f by (simp add: files_ok_def)
  have ready: "\<forall>e\<in>set (md_entries ?m1). entry_ready ?m1 e" using fields by (auto simp only: entry_ready_def)
  have "md_opened ?m1 = []" using m(1) by simp
  then have ok: "disk_ok ?m1" unfolding disk_ok_def using d1 l1 ready by (simp only: list.set ball_empty simp_thms)
  have sh: "shared_writers ?pl ?m1"
    unfolding shared_writers_def
  proof (intro ballI allI impI)
    fix r e x
    assume r: "r \<in> set (md_entries ?m1)" "fe_requested (de_file r)" "isInRange r x" and e: "e \<in> set (md_entries ?m1)"
      "fe_offset (de_file e) < x div ?pl * ?pl + ?pl" "x div ?pl * ?pl \<le> fe_offset (de_file e) \<or> x div ?pl * ?pl < FileEntry_getLastOffset (de_file e)"
    obtain xs ys b where b: "?es = xs @ createDiskWriterEntry b # ys"
      "e = make_writer m (mark_backward (backward_state ?pl ?M (rev ys)) (mark_forward (forward_state ?pl 0 xs) (createDiskWriterEntry b)))"
      using mem [OF e(1)] by blast
    obtain xs' ys' b' where b': "?es = xs' @ createDiskWriterEntry b' # ys'"
      "r = make_writer m (mark_backward (backward_state ?pl ?M (rev ys')) (mark_forward (forward_state ?pl 0 xs') (createDiskWriterEntry b')))"
      using mem [OF r(1)] by blast
    let ?e = "createDiskWriterEntry b" and ?r = "createDiskWriterEntry b'"
    have "?r \<in> set ?es" unfolding b'(1) by simp
    moreover have "fe_requested (de_file ?r)" "isInRange ?r x" using r(2,3) b'(2) by (simp_all add: isInRange_def)
    moreover have "fe_offset (de_file ?e) < x div ?pl * ?pl + ?pl" "x div ?pl * ?pl \<le> fe_offset (de_file ?e) \<or> x div ?pl * ?pl < FileEntry_getLastOffset (de_file ?e)"
      using e(2,3) b(2) by simp_all
    moreover have "fe_requested (de_file ?e) \<Longrightarrow> de_needsFileAllocation ?e" by (simp add: createDiskWriterEntry_def)
    ultimately have "de_needsFileAllocation (mark_backward (backward_state ?pl ?M (rev ys)) (mark_forward (forward_state ?pl 0 xs) ?e))
      \<or> de_needsDiskWriter (mark_backward (backward_state ?pl ?M (rev ys)) (mark_forward (forward_state ?pl 0 xs) ?e))"
      using shared_pass [OF pl l, of ?r x xs ?e ys ?M] b(1) by blast
    then show "de_writer e" unfolding b(2) by (intro make_writer_writer) blast
  qed
  show thesis by (rule that [OF r ok sh _ _ files1 wr]) (use m(2) in simp_all)
qed


subsection \<open>Whatever is asked\<close>

definition keeps_files :: "multi_disk \<Rightarrow> multi_disk \<Rightarrow> bool" where
  "keeps_files m m' \<longleftrightarrow> disk_ok m' \<and> same_static m m' \<and> (\<forall>p. md_disk m p \<noteq> None \<longrightarrow> md_disk m' p \<noteq> None)"

lemma keeps_refl: "disk_ok m \<Longrightarrow> keeps_files m m"
  by (simp add: keeps_files_def same_static_def)

lemma keeps_trans: "keeps_files m m1 \<Longrightarrow> keeps_files m1 m2 \<Longrightarrow> keeps_files m m2"
  by (auto simp: keeps_files_def same_static_def)

lemma keeps_length: "keeps_files m m' \<Longrightarrow> length (md_entries m') = length (md_entries m)"
  unfolding keeps_files_def same_static_def by (metis map_eq_imp_length_eq)

lemma keeps_disk:
  assumes "disk_ok m" "\<And>p. md_disk m p \<noteq> None \<Longrightarrow> d p \<noteq> None"
  shows "keeps_files m (m\<lparr>md_disk := d\<rparr>)"
  using assms by (auto simp: keeps_files_def same_static_def disk_ok_def entry_ready_def)

lemma keeps_open:
  assumes "good_writer w" "disk_ok m" "i < length (md_entries m)"
  obtains m1 where "MultiDiskAdaptor_openIfNot (DiskWriterEntry_openFile w) rs i m = (m1, Inr ())" "keeps_files m m1"
    "\<And>p. content m1 p = content m p" "de_writer (md_entries m ! i) \<Longrightarrow> de_open (md_entries m1 ! i)"
  using openIfNot_ok [OF assms, of rs] by (metis keeps_files_def)

lemma write_loop_keeps:
  "good_writer w \<Longrightarrow> disk_ok m \<Longrightarrow> list_all (\<lambda>i. i < length (md_entries m)) is \<Longrightarrow>
   write_loop w evict is pos rest fo m = (m', r) \<Longrightarrow> keeps_files m m'"
proof (induction "is" arbitrary: pos rest fo m)
  case (Cons i "is")
  from Cons.prems(3) have i: "i < length (md_entries m)" and rest: "list_all (\<lambda>i. i < length (md_entries m)) is" by simp_all
  obtain m1 where m1: "MultiDiskAdaptor_openIfNot (DiskWriterEntry_openFile w) (evict i) i m = (m1, Inr ())" "keeps_files m m1"
    by (rule keeps_open [OF Cons.prems(1,2) i]) (rule that)
  have ok1: "disk_ok m1" using m1(2) by (simp add: keeps_files_def)
  let ?n = "nat (calculateLength (md_entries m ! i) fo (int (length rest)))"
  show ?case
  proof (cases "de_open (md_entries m1 ! i)")
    case False
    then show ?thesis using Cons.prems(4) m1 by (simp add: Let_def)
  next
    case True
    obtain d err where d: "dw_writeData w (md_disk m1) (md_entries m1 ! i) (take ?n rest) fo = (d, err)" by fastforce
    have k2: "keeps_files m (m1\<lparr>md_disk := d\<rparr>)"
      by (rule keeps_trans [OF m1(2) keeps_disk [OF ok1]]) (rule good_writer.write_keeps [OF Cons.prems(1) d])
    have ok2: "disk_ok (m1\<lparr>md_disk := d\<rparr>)" using k2 by (simp add: keeps_files_def)
    have l2: "list_all (\<lambda>i. i < length (md_entries (m1\<lparr>md_disk := d\<rparr>))) is" using rest keeps_length [OF k2] by simp
    show ?thesis
    proof (cases "err = None \<and> drop ?n rest \<noteq> []")
      case True
      then have "write_loop w evict is (pos + int ?n) (drop ?n rest) 0 (m1\<lparr>md_disk := d\<rparr>) = (m', r)"
        using Cons.prems(4) m1(1) d \<open>de_open _\<close> by (simp add: Let_def)
      from Cons.IH [OF Cons.prems(1) ok2 l2 this] show ?thesis by (rule keeps_trans [OF k2])
    next
      case False
      then have "m' = m1\<lparr>md_disk := d\<rparr>"
        using Cons.prems(4) m1(1) d \<open>de_open _\<close> by (auto simp: Let_def split: option.splits)
      then show ?thesis using k2 by simp
    qed
  qed
qed (simp add: keeps_refl)

lemma read_loop_keeps:
  "good_writer w \<Longrightarrow> disk_ok m \<Longrightarrow> list_all (\<lambda>i. i < length (md_entries m)) is \<Longrightarrow>
   read_loop w evict is pos rem fo m = (m', r) \<Longrightarrow> keeps_files m m'"
proof (induction "is" arbitrary: pos rem fo m m' r)
  case (Cons i "is")
  from Cons.prems(3) have i: "i < length (md_entries m)" and rest: "list_all (\<lambda>i. i < length (md_entries m)) is" by simp_all
  obtain m1 where m1: "MultiDiskAdaptor_openIfNot (DiskWriterEntry_openFile w) (evict i) i m = (m1, Inr ())" "keeps_files m m1"
    by (rule keeps_open [OF Cons.prems(1,2) i]) (rule that)
  have ok1: "disk_ok m1" using m1(2) by (simp add: keeps_files_def)
  have l1: "list_all (\<lambda>i. i < length (md_entries m1)) is" using rest keeps_length [OF m1(2)] by simp
  have ih: "keeps_files m m2" if "read_loop w evict is p k 0 m1 = (m2, r')" for p k m2 r'
    by (rule keeps_trans [OF m1(2) Cons.IH [OF Cons.prems(1) ok1 l1 that]])
  let ?e = "md_entries m1 ! i" and ?n = "nat (calculateLength (md_entries m ! i) fo (int rem))"
  obtain m2 r2 where loop: "read_loop w evict is (pos + int ?n) (rem - ?n) 0 m1 = (m2, r2)" by fastforce
  have "m' = m1 \<or> m' = m2"
    using Cons.prems(4) unfolding read_loop.simps m1(1) Let_def prod.case sum.case loop
    by (cases r2; auto split: if_splits sum.splits prod.splits)
  then show ?case using m1(2) ih [OF loop] by blast
qed (simp add: keeps_refl)

lemma findFirst_index:
  assumes "findFirstDiskWriterEntry es x = Some (Inr i)"
  shows "i < length es"
proof -
  let ?n = "length (takeWhile (\<lambda>e. \<not> x < fe_offset (de_file e)) es)"
  have "?n \<noteq> 0 \<and> i = ?n - 1"
    using assms unfolding findFirstDiskWriterEntry_def Let_def by (metis option.discI option.inject sum.distinct(1) sum.inject(2))
  moreover have "?n \<le> length es" by (rule length_takeWhile_le)
  ultimately show ?thesis by linarith
qed

lemma writeData_keeps:
  "good_writer w \<Longrightarrow> disk_ok m \<Longrightarrow> MultiDiskAdaptor_writeData w evict d off m = Some (m', r) \<Longrightarrow> keeps_files m m'"
  by (auto simp: MultiDiskAdaptor_writeData_def keeps_refl split: option.splits sum.splits)
    (rule write_loop_keeps [rotated 3], assumption, assumption, assumption, simp add: list_all_iff)

lemma readData_keeps:
  "good_writer w \<Longrightarrow> disk_ok m \<Longrightarrow> MultiDiskAdaptor_readData w evict n off m = Some (m', r) \<Longrightarrow> keeps_files m m'"
  by (auto simp: MultiDiskAdaptor_readData_def keeps_refl split: option.splits sum.splits)
    (rule read_loop_keeps [rotated 3], assumption, assumption, assumption, simp add: list_all_iff)

lemma writeCache_keeps:
  "good_writer w \<Longrightarrow> disk_ok m \<Longrightarrow> MultiDiskAdaptor_writeCache w evict cells m = Some (m', r) \<Longrightarrow> keeps_files m m'"
proof (induction w evict cells m rule: MultiDiskAdaptor_writeCache.induct)
  case (2 w evict goff data cells m)
  obtain m1 r1 where w: "MultiDiskAdaptor_writeData w evict data goff m = Some (m1, r1)"
    using 2(4) by (auto split: option.splits)
  have k: "keeps_files m m1" by (rule writeData_keeps [OF 2(2,3) w])
  show ?case
  proof (cases r1)
    case (Inl e)
    then show ?thesis using 2(4) w k by simp
  next
    case (Inr u)
    have "MultiDiskAdaptor_writeCache w evict cells m1 = Some (m', r)" using 2(4) w Inr by simp
    moreover have "disk_ok m1" using k by (simp add: keeps_files_def)
    ultimately show ?thesis using 2(1) [of "(m1, r1)" m1 r1 u] w Inr 2(2) keeps_trans [OF k] by blast
  qed
qed (simp add: keeps_refl)

lemma tryClose_keeps: "disk_ok m \<Longrightarrow> keeps_files m (fst (MultiDiskAdaptor_tryCloseFile rs m))"
  using close_random_ok [of m rs] by (simp add: MultiDiskAdaptor_tryCloseFile_def keeps_files_def)


lemma cut_loop_keeps:
  "good_writer w \<Longrightarrow> disk_ok m \<Longrightarrow> list_all (\<lambda>i. i < length (md_entries m)) is \<Longrightarrow>
   cut_loop w evict is m = Some (m', r) \<Longrightarrow> keeps_files m m'"
proof (induction "is" arbitrary: m)
  case (Cons i "is")
  from Cons.prems(3) have i: "i < length (md_entries m)" and rest: "list_all (\<lambda>i. i < length (md_entries m)) is" by simp_all
  let ?e = "md_entries m ! i"
  show ?case
  proof (cases "\<exists>c. md_disk m (de_path ?e) = Some c \<and> fe_length (de_file ?e) < int (length c)")
    case False
    then have "cut_loop w evict is m = Some (m', r)" using Cons.prems(4) by (auto simp: Let_def not_less split: option.splits)
    then show ?thesis by (rule Cons.IH [OF Cons.prems(1,2) rest])
  next
    case True
    then obtain c where c: "md_disk m (de_path ?e) = Some c" "\<not> int (length c) \<le> fe_length (de_file ?e)" by auto
    obtain m1 where m1: "MultiDiskAdaptor_openIfNot (DiskWriterEntry_openFile w) (evict i) i m = (m1, Inr ())" "keeps_files m m1"
      by (rule keeps_open [OF Cons.prems(1,2) i]) (rule that)
    obtain d err where d: "dw_truncate w (md_disk m1) (md_entries m1 ! i) (nat (fe_length (de_file ?e))) = (d, err)" by fastforce
    let ?m2 = "m1\<lparr>md_disk := d\<rparr>"
    have ok1: "disk_ok m1" using m1(2) by (simp add: keeps_files_def)
    have k2: "keeps_files m ?m2"
      by (rule keeps_trans [OF m1(2) keeps_disk [OF ok1]]) (rule good_writer.truncate_keeps [OF Cons.prems(1) d])
    have ok2: "disk_ok ?m2" using k2 by (simp add: keeps_files_def)
    have l2: "list_all (\<lambda>i. i < length (md_entries ?m2)) is" using rest keeps_length [OF k2] by simp
    have "m' = m1 \<or> m' = ?m2 \<or> cut_loop w evict is ?m2 = Some (m', r)"
      using Cons.prems(4) c m1(1) d by (auto simp: Let_def split: if_splits option.splits)
    then show ?thesis using m1(2) k2 Cons.IH [OF Cons.prems(1) ok2 l2] keeps_trans [OF k2] by blast
  qed
qed (simp add: keeps_refl)

lemma open_all_ok:
  "good_writer w \<Longrightarrow> disk_ok m \<Longrightarrow> list_all (\<lambda>i. i < length (md_entries m)) is \<Longrightarrow>
   \<exists>m'. open_all (DiskWriterEntry_openFile w) evict is m = (m', Inr ()) \<and> keeps_files m m' \<and> (\<forall>p. content m' p = content m p)
     \<and> (\<forall>i\<in>set is. de_writer (md_entries m ! i) \<longrightarrow> md_disk m' (de_path (md_entries m ! i)) \<noteq> None)"
proof (induction "is" arbitrary: m)
  case (Cons i "is")
  from Cons.prems(3) have i: "i < length (md_entries m)" and rest: "list_all (\<lambda>i. i < length (md_entries m)) is" by simp_all
  obtain m1 where m1: "MultiDiskAdaptor_openIfNot (DiskWriterEntry_openFile w) (evict i) i m = (m1, Inr ())" "keeps_files m m1"
    "\<And>p. content m1 p = content m p" "de_writer (md_entries m ! i) \<Longrightarrow> de_open (md_entries m1 ! i)"
    by (rule keeps_open [OF Cons.prems(1,2) i]) (rule that)
  have ok1: "disk_ok m1" and s1: "same_static m m1" using m1(2) by (simp_all add: keeps_files_def)
  have l1: "list_all (\<lambda>i. i < length (md_entries m1)) is" using rest keeps_length [OF m1(2)] by simp
  obtain m' where m': "open_all (DiskWriterEntry_openFile w) evict is m1 = (m', Inr ())" "keeps_files m1 m'" "\<forall>p. content m' p = content m1 p"
    "\<forall>i\<in>set is. de_writer (md_entries m1 ! i) \<longrightarrow> md_disk m' (de_path (md_entries m1 ! i)) \<noteq> None"
    using Cons.IH [OF Cons.prems(1) ok1 l1] by blast
  have "md_disk m' (de_path (md_entries m ! j)) \<noteq> None" if j: "j \<in> set (i # is)" "de_writer (md_entries m ! j)" for j
  proof (cases "j = i")
    case True
    have i1: "i < length (md_entries m1)" using i keeps_length [OF m1(2)] by simp
    have "md_disk m1 (de_path (md_entries m1 ! i)) \<noteq> None"
      using ok1 i1 m1(4) j(2) True unfolding disk_ok_def entry_ready_def by simp
    then show ?thesis using m'(2) same_static_nth(3) [OF s1 i] True unfolding keeps_files_def by simp
  next
    case False
    then have "j \<in> set is" "j < length (md_entries m)" using j(1) rest by (auto simp: list_all_iff)
    then show ?thesis using bspec [OF m'(4), of j] j(2) same_static_nth(3,4) [OF s1, of j] by simp
  qed
  then show ?case using m'(1,3) m1(1,3) keeps_trans [OF m1(2) m'(2)] by auto
qed (simp add: keeps_refl)

definition md_inv :: "int \<Rightarrow> (file_entry \<times> string) list \<Rightarrow> multi_disk \<Rightarrow> bool" where
  "md_inv pl files m \<longleftrightarrow> disk_ok m \<and> shared_writers pl m \<and> md_pieceLength m = pl \<and> md_files m = files \<and> \<not> md_readOnly m
     \<and> map de_file (md_entries m) = map fst files \<and> map de_path (md_entries m) = map snd files
     \<and> (\<forall>f\<in>set files. fe_requested (fst f) \<longrightarrow> md_disk m (snd f) \<noteq> None)"

lemma shared_writers_static:
  assumes "same_static m m'" "shared_writers pl m"
  shows "shared_writers pl m'"
proof -
  have s: "static ` set (md_entries m') = static ` set (md_entries m)"
    using arg_cong [OF assms(1) [unfolded same_static_def, THEN conjunct1], of set] by simp
  have ex: "\<exists>e'\<in>set (md_entries m). de_file e' = de_file e \<and> de_writer e' = de_writer e" if "e \<in> set (md_entries m')" for e
  proof -
    have "static e \<in> static ` set (md_entries m)" using that s by blast
    then obtain e' where "e' \<in> set (md_entries m)" "static e = static e'" by blast
    then show ?thesis using staticD by metis
  qed
  show ?thesis
    unfolding shared_writers_def
  proof (intro ballI allI impI)
    fix r e x
    assume a: "r \<in> set (md_entries m')" "e \<in> set (md_entries m')" "fe_requested (de_file r)" "isInRange r x"
      "fe_offset (de_file e) < x div pl * pl + pl" "x div pl * pl \<le> fe_offset (de_file e) \<or> x div pl * pl < FileEntry_getLastOffset (de_file e)"
    obtain r' e' where re: "r' \<in> set (md_entries m)" "de_file r' = de_file r" "e' \<in> set (md_entries m)" "de_file e' = de_file e" "de_writer e' = de_writer e"
      using ex [OF a(1)] ex [OF a(2)] by blast
    have "isInRange r' x" using a(4) re(2) by (simp add: isInRange_def)
    then have "de_writer e'" using assms(2) re(1,3) a(3,5,6) unfolding shared_writers_def re(2,4) [symmetric] by blast
    then show "de_writer e" using re(5) by simp
  qed
qed

lemma md_inv_keeps:
  assumes "md_inv pl files m" "keeps_files m m'"
  shows "md_inv pl files m'"
proof -
  have s: "same_static m m'" using assms(2) by (simp add: keeps_files_def)
  have f: "map de_file es = map (fst \<circ> static) es" "map de_path es = map (fst \<circ> snd \<circ> static) es" for es by (simp_all add: static_def)
  have "map de_file (md_entries m') = map de_file (md_entries m)" "map de_path (md_entries m') = map de_path (md_entries m)"
    using s unfolding f same_static_def by (simp_all only: map_map [symmetric])
  then show ?thesis using assms shared_writers_static [OF s] s unfolding md_inv_def keeps_files_def same_static_def by simp
qed


subsection \<open>Runs of the adaptor\<close>

inductive md_reach :: "disk_writer \<Rightarrow> int \<Rightarrow> (file_entry \<times> string) list \<Rightarrow> file_system \<Rightarrow> multi_disk \<Rightarrow> bool"
  for w pl files disk where
  start: "MultiDiskAdaptor_openFile w evict (MultiDiskAdaptor_new pl files disk) = Some (m, Inr ()) \<Longrightarrow> md_reach w pl files disk m"
| reopen: "md_reach w pl files disk m \<Longrightarrow> MultiDiskAdaptor_openFile w evict (MultiDiskAdaptor_closeFile m) = Some (m', Inr ()) \<Longrightarrow>
    md_reach w pl files disk m'"
| written: "md_reach w pl files disk m \<Longrightarrow> MultiDiskAdaptor_writeData w evict d off m = Some (m', r) \<Longrightarrow> md_reach w pl files disk m'"
| flushed: "md_reach w pl files disk m \<Longrightarrow> MultiDiskAdaptor_writeCache w evict cells m = Some (m', r) \<Longrightarrow> md_reach w pl files disk m'"
| have_read: "md_reach w pl files disk m \<Longrightarrow> MultiDiskAdaptor_readData w evict n off m = Some (m', r') \<Longrightarrow> md_reach w pl files disk m'"
| cut_off: "md_reach w pl files disk m \<Longrightarrow> MultiDiskAdaptor_cutTrailingGarbage w evict m = Some (m', r) \<Longrightarrow> md_reach w pl files disk m'"
| closed: "md_reach w pl files disk m \<Longrightarrow> md_reach w pl files disk (fst (MultiDiskAdaptor_tryCloseFile rs m))"

lemma openFile_ok:
  assumes fw: "good_writer w" and pl: "0 < md_pieceLength m" and f: "files_ok (md_files m)" and m: "md_opened m = []" "\<not> md_readOnly m"
  shows "\<exists>m'. MultiDiskAdaptor_openFile w evict m = Some (m', Inr ()) \<and> md_inv (md_pieceLength m) (md_files m) m'
    \<and> (\<forall>p. content m' p = content m p)"
proof -
  obtain m1 where m1: "MultiDiskAdaptor_resetDiskWriterEntries m = Some m1" "disk_ok m1" "shared_writers (md_pieceLength m) m1"
    "md_disk m1 = md_disk m" "md_pieceLength m1 = md_pieceLength m" "map de_file (md_entries m1) = map fst (md_files m)"
    "map de_path (md_entries m1) = map snd (md_files m)"
    "\<And>e. e \<in> set (md_entries m1) \<Longrightarrow> fe_requested (de_file e) \<or> md_disk m (de_path e) \<noteq> None \<Longrightarrow> de_writer e"
    "md_files m1 = md_files m" "\<not> md_readOnly m1"
    by (rule reset_ok [OF pl f m]) (rule that)
  let ?n = "length (md_entries m1)"
  have "list_all (\<lambda>i. i < ?n) [0..<?n]" by (simp add: list_all_iff)
  from open_all_ok [OF fw m1(2) this, of evict] obtain m' where m': "open_all (DiskWriterEntry_openFile w) evict [0..<?n] m1 = (m', Inr ())"
    "keeps_files m1 m'" "\<forall>p. content m' p = content m1 p"
    "\<forall>i\<in>set [0..<?n]. de_writer (md_entries m1 ! i) \<longrightarrow> md_disk m' (de_path (md_entries m1 ! i)) \<noteq> None" by blast
  have len: "?n = length (md_files m)" using m1(6) map_eq_imp_length_eq by blast
  have req: "md_disk m' (snd f) \<noteq> None" if "f \<in> set (md_files m)" "fe_requested (fst f)" for f
  proof -
    obtain i where i: "i < length (md_files m)" "f = md_files m ! i" using \<open>f \<in> _\<close> by (auto simp: in_set_conv_nth)
    have e: "de_file (md_entries m1 ! i) = fst f" "de_path (md_entries m1 ! i) = snd f"
      using arg_cong [OF m1(6), of "\<lambda>xs. xs ! i"] arg_cong [OF m1(7), of "\<lambda>xs. xs ! i"] i len by simp_all
    have "de_writer (md_entries m1 ! i)" using m1(8) [of "md_entries m1 ! i"] e(1) that(2) i(1) len by simp
    then show ?thesis using bspec [OF m'(4), of i] i(1) len e(2) by simp
  qed
  have k: "disk_ok m'" "same_static m1 m'" using m'(2) by (simp_all add: keeps_files_def)
  have fl: "map de_file es = map (fst \<circ> static) es" "map de_path es = map (fst \<circ> snd \<circ> static) es" for es by (simp_all add: static_def)
  have "map de_file (md_entries m') = map de_file (md_entries m1)" "map de_path (md_entries m') = map de_path (md_entries m1)"
    using k(2) unfolding fl same_static_def by (simp_all only: map_map [symmetric])
  then have "md_inv (md_pieceLength m) (md_files m) m'"
    using k shared_writers_static [OF k(2) m1(3)] m1(5-7,9,10) req unfolding md_inv_def same_static_def by auto
  moreover have "MultiDiskAdaptor_openFile w evict m = Some (m', Inr ())" using m1(1) m'(1) by (simp add: MultiDiskAdaptor_openFile_def)
  moreover have "content m' p = content m p" for p using m'(3) m1(4) by (simp add: content_def)
  ultimately show ?thesis by blast
qed

lemma md_reach_inv:
  assumes "md_reach w pl files disk m" "good_writer w" "0 < pl" "files_ok files"
  shows "md_inv pl files m"
  using assms
proof (induction rule: md_reach.induct)
  case (start evict m)
  then show ?case using openFile_ok [of w "MultiDiskAdaptor_new pl files disk" evict] by (auto simp: MultiDiskAdaptor_new_def)
next
  case (reopen m evict m')
  then have inv: "md_inv pl files m" by blast
  then show ?case using openFile_ok [of w "MultiDiskAdaptor_closeFile m" evict] reopen
    by (auto simp: MultiDiskAdaptor_closeFile_def md_inv_def [of _ _ m])
next
  case (written m evict d off m' r)
  then have inv: "md_inv pl files m" by blast
  then have "disk_ok m" by (simp add: md_inv_def)
  then show ?case by (rule md_inv_keeps [OF inv writeData_keeps [OF \<open>good_writer w\<close> _ written(2)]])
next
  case (flushed m evict cells m' r)
  then have inv: "md_inv pl files m" by blast
  then have "disk_ok m" by (simp add: md_inv_def)
  then show ?case by (rule md_inv_keeps [OF inv writeCache_keeps [OF \<open>good_writer w\<close> _ flushed(2)]])
next
  case (have_read m evict n off m' r')
  then have inv: "md_inv pl files m" by blast
  then have "disk_ok m" by (simp add: md_inv_def)
  then show ?case by (rule md_inv_keeps [OF inv readData_keeps [OF \<open>good_writer w\<close> _ have_read(2)]])
next
  case (cut_off m evict m' r)
  then have inv: "md_inv pl files m" by blast
  then have "disk_ok m" by (simp add: md_inv_def)
  then show ?case
    by (rule md_inv_keeps [OF inv cut_loop_keeps [OF \<open>good_writer w\<close> _ _ cut_off(2) [unfolded MultiDiskAdaptor_cutTrailingGarbage_def]]])
      (simp add: list_all_iff)
next
  case (closed m rs)
  then have inv: "md_inv pl files m" by blast
  then have "disk_ok m" by (simp add: md_inv_def)
  then show ?case by (rule md_inv_keeps [OF inv tryClose_keeps])
qed

lemma writers_of_piece:
  assumes inv: "md_inv pl files m" and pl: "0 < pl"
    and f: "f \<in> set files" "fe_requested (fst f)" "fe_offset (fst f) \<le> x" "x < FileEntry_getLastOffset (fst f)"
    and lo: "x div pl * pl \<le> lo" and hi: "hi \<le> x div pl * pl + pl"
    and i: "i < length (md_entries m)" "isInRange (md_entries m ! i) lo"
  shows "writers_upto m i hi"
  unfolding writers_upto_def
proof (intro allI impI)
  fix j assume j: "j < length (md_entries m)" "i \<le> j" "fe_offset (de_file (md_entries m ! j)) < hi"
  have files: "map de_file (md_entries m) = map fst files" and sh: "shared_writers pl m" and l: "laid_out 0 (md_entries m)"
    using inv by (simp_all add: md_inv_def disk_ok_def)
  have "fst f \<in> set (map de_file (md_entries m))" unfolding files using f(1) by simp
  then obtain r where r: "r \<in> set (md_entries m)" "de_file r = fst f" by auto
  have "isInRange r x" "fe_requested (de_file r)" using f(2-4) r(2) by (simp_all add: isInRange_def)
  moreover have "x div pl * pl \<le> fe_offset (de_file (md_entries m ! j)) \<or> x div pl * pl < FileEntry_getLastOffset (de_file (md_entries m ! j))"
  proof (cases "i = j")
    case True
    then show ?thesis using i(2) lo by (simp add: isInRange_def)
  next
    case False
    then show ?thesis using laid_out_before [OF l _ j(1), of i] j(2) i(2) lo by (simp add: isInRange_def)
  qed
  ultimately show "de_writer (md_entries m ! j)"
    using sh r(1) nth_mem [OF j(1)] j(3) hi unfolding shared_writers_def by fastforce
qed

lemma write_read_ok:
  assumes "good_writer w" "0 < pl" "files_ok files" "md_reach w pl files disk m"
    and "f \<in> set files" "fe_requested (fst f)" "fe_offset (fst f) \<le> x" "x < FileEntry_getLastOffset (fst f)"
    and "d \<noteq> []" "x div pl * pl \<le> off" "off + int (length d) \<le> x div pl * pl + pl" "off + int (length d) \<le> total_length (md_entries m)"
  shows "\<exists>m'. MultiDiskAdaptor_writeData w evict d off m = Some (m', Inr ())
    \<and> (\<forall>y. flat m' y = (if off \<le> y \<and> y < off + int (length d) then d ! nat (y - off) else flat m y))
    \<and> (\<exists>m''. MultiDiskAdaptor_readData w evict' (length d) off m' = Some (m'', Inr d))"
proof -
  have inv: "md_inv pl files m" by (rule md_reach_inv [OF assms(4,1-3)])
  have ok: "disk_ok m" using inv by (simp add: md_inv_def)
  have l: "laid_out 0 (md_entries m)" and files: "map de_file (md_entries m) = map fst files" using inv by (simp_all add: md_inv_def disk_ok_def)
  have "fst f \<in> set (map de_file (md_entries m))" unfolding files using assms(5) by simp
  then have "0 \<le> x" using laid_out_mem [OF l] assms(7) by fastforce
  then have off: "0 \<le> off" using assms(2,10) by (meson order_trans mult_nonneg_nonneg pos_imp_zdiv_nonneg_iff less_imp_le)
  have w: "writers_upto m' i (off + int (length d))"
    if "md_inv pl files m'" "i < length (md_entries m')" "isInRange (md_entries m' ! i) off" for m' i
    by (rule writers_of_piece [OF that(1) assms(2,5-8,10,11) that(2,3)])
  obtain m' where m': "MultiDiskAdaptor_writeData w evict d off m = Some (m', Inr ())" "disk_ok m'" "same_static m m'"
    "\<And>x. flat m' x = (if off \<le> x \<and> x < off + int (length d) then d ! nat (x - off) else flat m x)"
    "\<And>x. present m x \<or> off \<le> x \<and> x < off + int (length d) \<Longrightarrow> present m' x"
    by (rule writeData_ok [OF assms(1) ok assms(9) off assms(12)]) (rule w [OF inv], assumption+, rule that, assumption+)
  have inv': "md_inv pl files m'" by (rule md_inv_keeps [OF inv writeData_keeps [OF assms(1) ok m'(1)]])
  have len: "0 < length d" using assms(9) by simp
  have pr: "present m' y" if "off \<le> y" "y < off + int (length d)" for y using m'(5) that by blast
  have "\<exists>m''. MultiDiskAdaptor_readData w evict' (length d) off m' = Some (m'', Inr (map (\<lambda>k. flat m' (off + int k)) [0..<length d]))"
  proof (rule readData_ok [OF assms(1) m'(2) len off])
    show "present m' y" if "off \<le> y" "y < off + int (length d)" for y by (rule pr [OF that])
    show "writers_upto m' i (off + int (length d))" if "i < length (md_entries m')" "isInRange (md_entries m' ! i) off" for i
      by (rule w [OF inv' that])
  qed blast
  then obtain m'' where m'': "MultiDiskAdaptor_readData w evict' (length d) off m' = Some (m'', Inr (map (\<lambda>k. flat m' (off + int k)) [0..<length d]))"
    by blast
  have "map (\<lambda>k. flat m' (off + int k)) [0..<length d] = d" by (rule nth_equalityI) (simp_all add: m'(4))
  then show ?thesis using m'(1,4) m'' by auto
qed


text \<open>A system that reads one byte at a time, and two files that share the piece of four bytes.\<close>

definition slow_env :: disk_env where
  "slow_env = \<lparr>env_open = (\<lambda>p. True), env_written = (\<lambda>p off n. n), env_short = (\<lambda>n. 1)\<rparr>"

definition two_files :: "(file_entry \<times> string) list" where
  "two_files = [(\<lparr>fe_offset = 0, fe_length = 3, fe_requested = True\<rparr>, ''a''), (\<lparr>fe_offset = 3, fe_length = 4, fe_requested = False\<rparr>, ''b'')]"

lemma two_files_ok: "files_ok two_files" "env_fine slow_env"
  by (simp_all add: files_ok_def two_files_def slow_env_def env_fine_def createDiskWriterEntry_def)

interpretation slow: good_writer "abstract_writer slow_env"
  by (rule abstract_good_writer [OF two_files_ok(2)])

text \<open>C10: Over a disk writer that keeps the contract \<open>good_writer\<close>: opening for writing succeeds, a write changes exactly
its bytes, a read inside the file gives some of what is there, no file disappears. \<open>AbstractDiskWriter\<close> keeps it on a system whose
calls do not fail (\<open>abstract_good_writer\<close>); the io_uring writer, which the factory creates, does not
(\<open>padded_writer_not_good\<close>). Then in every state the operations of the adaptor reach from opening files that follow one another and
have different paths, not read-only, a block that lies in a piece of a requested file and inside the download can be written: every
file it touches has a writer, the write succeeds, it changes exactly the bytes of the block and no other byte of the
download, and reading the block back returns it, whatever files are closed to stay under the limit of open files and
however short the single reads are.\<close>

theorem multi_write_read:
  assumes "good_writer w" "0 < pl" "files_ok files" "md_reach w pl files disk m"
    and "f \<in> set files" "fe_requested (fst f)" "fe_offset (fst f) \<le> x" "x < FileEntry_getLastOffset (fst f)"
    and "d \<noteq> []" "x div pl * pl \<le> off" "off + int (length d) \<le> x div pl * pl + pl" "off + int (length d) \<le> total_length (md_entries m)"
  shows "\<exists>m'. MultiDiskAdaptor_writeData w evict d off m = Some (m', Inr ())
    \<and> (\<forall>y. flat m' y = (if off \<le> y \<and> y < off + int (length d) then d ! nat (y - off) else flat m y))
    \<and> (\<exists>m''. MultiDiskAdaptor_readData w evict' (length d) off m' = Some (m'', Inr d))"
  by (rule write_read_ok [OF assms])

text \<open>Opening a download whose files follow one another and have different paths succeeds on a system that does
not fail, whatever files the counter of open files closes in between: then every requested file
exists, no file has lost or changed a byte, and every file that has a byte in a piece of a requested
file, or lies empty inside such a piece, has a disk writer.\<close>

theorem multi_openFile_ready:
  assumes "env_fine env" "0 < pl" "files_ok files"
  shows "\<exists>m. MultiDiskAdaptor_openFile (abstract_writer env) evict (MultiDiskAdaptor_new pl files disk) = Some (m, Inr ())
    \<and> (\<forall>f\<in>set files. fe_requested (fst f) \<longrightarrow> md_disk m (snd f) \<noteq> None)
    \<and> (\<forall>p. content m p = (case disk p of None \<Rightarrow> [] | Some c \<Rightarrow> c)) \<and> shared_writers pl m"
proof -
  have "\<exists>m. MultiDiskAdaptor_openFile (abstract_writer env) evict (MultiDiskAdaptor_new pl files disk) = Some (m, Inr ())
    \<and> md_inv pl files m \<and> (\<forall>p. content m p = content (MultiDiskAdaptor_new pl files disk) p)"
    using openFile_ok [OF abstract_good_writer [OF assms(1)], of "MultiDiskAdaptor_new pl files disk" evict] assms(2,3) by (simp add: MultiDiskAdaptor_new_def)
  moreover have "content (MultiDiskAdaptor_new pl files disk) p = (case disk p of None \<Rightarrow> [] | Some c \<Rightarrow> c)" for p
    by (simp add: content_def file_content_def MultiDiskAdaptor_new_def)
  ultimately show ?thesis unfolding md_inv_def by metis
qed

theorem multi_openFile_ready_witness:
  "\<exists>m. MultiDiskAdaptor_openFile (abstract_writer slow_env) (\<lambda>i. [0]) (MultiDiskAdaptor_new 4 two_files Map.empty) = Some (m, Inr ())
    \<and> md_disk m ''a'' \<noteq> None \<and> shared_writers 4 m"
  using multi_openFile_ready [of slow_env 4 two_files "\<lambda>i. [0]" Map.empty] two_files_ok by (auto simp: two_files_def)

theorem multi_write_read_witness:
  "\<exists>m m' m''. MultiDiskAdaptor_openFile (abstract_writer slow_env) (\<lambda>i. [0]) (MultiDiskAdaptor_new 4 two_files Map.empty) = Some (m, Inr ())
    \<and> MultiDiskAdaptor_writeData (abstract_writer slow_env) (\<lambda>i. [0]) [1, 2] 2 m = Some (m', Inr ())
    \<and> flat m' 2 = 1 \<and> flat m' 3 = 2 \<and> flat m' 4 = flat m 4
    \<and> MultiDiskAdaptor_readData (abstract_writer slow_env) (\<lambda>i. [0, 1]) 2 2 m' = Some (m'', Inr [1, 2])"
proof -
  have new: "md_pieceLength (MultiDiskAdaptor_new 4 two_files Map.empty) = 4" "md_files (MultiDiskAdaptor_new 4 two_files Map.empty) = two_files"
    "md_opened (MultiDiskAdaptor_new 4 two_files Map.empty) = []" "\<not> md_readOnly (MultiDiskAdaptor_new 4 two_files Map.empty)"
    by (simp_all add: MultiDiskAdaptor_new_def)
  obtain m where m: "MultiDiskAdaptor_openFile (abstract_writer slow_env) (\<lambda>i. [0]) (MultiDiskAdaptor_new 4 two_files Map.empty) = Some (m, Inr ())"
    "md_inv 4 two_files m"
    using openFile_ok [OF slow.good_writer_axioms, of "MultiDiskAdaptor_new 4 two_files Map.empty" "\<lambda>i. [0]"] two_files_ok
    unfolding new(1-3) using new(4) by auto
  have f: "map de_file (md_entries m) = map fst two_files" using m(2) by (simp add: md_inv_def)
  have "total_length (md_entries m) = sum_list (map fe_length (map de_file (md_entries m)))" by (simp add: total_length_def comp_def)
  then have t: "total_length (md_entries m) = 7" unfolding f by (simp add: two_files_def)
  show ?thesis
    using multi_write_read [OF slow.good_writer_axioms _ two_files_ok(1) md_reach.start [OF m(1)],
        of "(\<lparr>fe_offset = 0, fe_length = 3, fe_requested = True\<rparr>, ''a'')" 2 "[1, 2]" 2 "\<lambda>i. [0]" "\<lambda>i. [0, 1]"] m(1) t
    by (auto simp: two_files_def FileEntry_getLastOffset_def numeral_2_eq_2)
qed

end
