(* ===== verification/Ring_Writer.thy ===== *)
theory Ring_Writer
  imports Multi_Disk
begin

text \<open>
  \<open>IORingDiskWriter\<close>, the writer that \<open>DefaultDiskWriterFactory\<close> makes: writes go through a pool of blocks
  that all writers share and are handed to the kernel by io_uring. The state holds the pool, which
  blocks are taken, the requests the kernel has not completed and the completions not yet reaped.
  When and in which order the kernel completes requests, and with which result, is an argument of the
  operations or a step of the runs. The submission queue always has an entry after a submit.
\<close>

definition IO_BLOCK_SIZE :: nat where "IO_BLOCK_SIZE = 4096"

definition POOL_SIZE :: nat where "POOL_SIZE = 200 * 1024 * 1024"

definition NUM_BLOCKS :: nat where "NUM_BLOCKS = POOL_SIZE div IO_BLOCK_SIZE"

text \<open>A request: the descriptor's file, the first block of its buffer, and where how much of it goes.\<close>

record sqe =
  sq_file :: "string option"
  sq_index :: nat
  sq_length :: nat
  sq_offset :: int

record ring_state =
  rs_pool :: "nat \<Rightarrow> byte"
  rs_used :: "nat \<Rightarrow> bool"
  rs_inflight :: "sqe list"
  rs_completions :: "nat list"
  rs_disk :: file_system

text \<open>A call returns, waits for the kernel for ever, or touches memory that is not its own.\<close>

datatype 'a outcome = Done 'a | Waits | Undefined

definition IORing_initializePool :: "file_system \<Rightarrow> ring_state" where
  "IORing_initializePool disk =
     \<lparr>rs_pool = (\<lambda>x. 0), rs_used = (\<lambda>i. False), rs_inflight = [], rs_completions = [], rs_disk = disk\<rparr>"

subsection \<open>The kernel\<close>

text \<open>It completes request \<open>k\<close> after writing \<open>n\<close> bytes of the buffer as it is at that time, or with an error.\<close>

definition pool_bytes :: "ring_state \<Rightarrow> nat \<Rightarrow> nat \<Rightarrow> byte list" where
  "pool_bytes st a n = map (\<lambda>k. rs_pool st (a + k)) [0..<n]"

definition kernel_complete :: "nat \<Rightarrow> nat option \<Rightarrow> ring_state \<Rightarrow> ring_state" where
  "kernel_complete k res st =
     (if k < length (rs_inflight st)
      then let s = rs_inflight st ! k;
               st1 = st\<lparr>rs_inflight := take k (rs_inflight st) @ drop (Suc k) (rs_inflight st),
                       rs_completions := rs_completions st @ [sq_index s]\<rparr>
           in (case (sq_file s, res) of
                 (Some p, Some n) \<Rightarrow>
                   st1\<lparr>rs_disk := (rs_disk st)(p \<mapsto> write_at (file_content (rs_disk st) p) (nat (sq_offset s))
                                 (pool_bytes st (sq_index s * IO_BLOCK_SIZE) (min n (sq_length s))))\<rparr>
               | _ \<Rightarrow> st1)
      else st)"

definition kernel_run :: "(nat \<times> nat option) list \<Rightarrow> ring_state \<Rightarrow> ring_state" where
  "kernel_run ks st = fold (\<lambda>(k, res) st. kernel_complete k res st) ks st"

subsection \<open>The writer\<close>

text \<open>Only the first block of a request is given back.\<close>

definition IORing_checkUringCompletions :: "ring_state \<Rightarrow> ring_state" where
  "IORing_checkUringCompletions st =
     st\<lparr>rs_used := fold (\<lambda>i u. u(i := False)) (rs_completions st) (rs_used st), rs_completions := []\<rparr>"

definition IORing_initAndOpenFile :: "disk_env \<Rightarrow> file_system \<Rightarrow> disk_entry \<Rightarrow> open_result" where
  "IORing_initAndOpenFile env disk e =
     (if env_open env (de_path e) then Inr (disk(de_path e \<mapsto> []), e\<lparr>de_fd := Some True\<rparr>) else Inl (OpenError (de_path e)))"

definition IORing_openExistingFile :: "disk_env \<Rightarrow> file_system \<Rightarrow> disk_entry \<Rightarrow> open_result" where
  "IORing_openExistingFile env disk e =
     (case disk (de_path e) of
        None \<Rightarrow> Inl (NoSuchFile (de_path e))
      | Some c \<Rightarrow> if env_open env (de_path e) then Inr (disk, e\<lparr>de_fd := Some True\<rparr>) else Inl (OpenError (de_path e)))"

definition IORing_closeFile :: "ring_state \<Rightarrow> disk_entry \<Rightarrow> ring_state \<times> disk_entry" where
  "IORing_closeFile st e = (IORing_checkUringCompletions st, e\<lparr>de_fd := None\<rparr>)"

text \<open>Rounding up a length and down an offset to whole blocks.\<close>

definition aligned_len :: "nat \<Rightarrow> nat" where
  "aligned_len len = nat ((int len + int IO_BLOCK_SIZE - 1) AND NOT (int IO_BLOCK_SIZE - 1))"

definition aligned_offset :: "int \<Rightarrow> int" where
  "aligned_offset off = off AND NOT (int IO_BLOCK_SIZE - 1)"

definition offset_diff :: "int \<Rightarrow> nat" where
  "offset_diff off = nat (off - aligned_offset off)"

text \<open>The search for free blocks, from block \<open>i\<close> on, \<open>k\<close> tries left.\<close>

fun find_free :: "(nat \<Rightarrow> bool) \<Rightarrow> nat \<Rightarrow> nat \<Rightarrow> nat \<Rightarrow> nat option" where
  "find_free used need i 0 = None"
| "find_free used need i (Suc k) =
     (if list_all (\<lambda>j. \<not> used (i + j)) [0..<need] then Some i else find_free used need (Suc i) k)"

text \<open>The loop that takes blocks; each element of \<open>waits\<close> is what the kernel does during one wait.\<close>

fun reserve_blocks :: "(nat \<times> nat option) list list \<Rightarrow> nat \<Rightarrow> ring_state \<Rightarrow> (ring_state \<times> nat) outcome" where
  "reserve_blocks waits need st =
     (case find_free (rs_used st) need 0 (Suc (NUM_BLOCKS - need)) of
        Some i \<Rightarrow> Done (st\<lparr>rs_used := (\<lambda>x. i \<le> x \<and> x < i + need \<or> rs_used st x)\<rparr>, i)
      | None \<Rightarrow>
          (case waits of
             [] \<Rightarrow> Waits
           | ks # waits' \<Rightarrow>
               let st1 = kernel_run ks st
               in if rs_completions st1 = [] then Waits
                  else reserve_blocks waits' need (IORing_checkUringCompletions st1)))"

declare reserve_blocks.simps [simp del]

definition pool_write :: "(nat \<Rightarrow> byte) \<Rightarrow> nat \<Rightarrow> byte list \<Rightarrow> nat \<Rightarrow> byte" where
  "pool_write pool a bs = (\<lambda>x. if a \<le> x \<and> x < a + length bs then bs ! (x - a) else pool x)"

definition fill_buffer :: "(nat \<Rightarrow> byte) \<Rightarrow> nat \<Rightarrow> nat \<Rightarrow> byte list \<Rightarrow> nat \<Rightarrow> byte" where
  "fill_buffer pool dest diff data =
     (let p1 = (if diff > 0 then pool_write pool dest (replicate diff 0) else pool);
          p2 = pool_write p1 (dest + diff) data;
          n = aligned_len (length data)
      in if n > diff + length data
         then pool_write p2 (dest + diff + length data) (replicate (n - (diff + length data)) 0) else p2)"

definition IORing_writeData :: "(nat \<times> nat option) list list \<Rightarrow> string option \<Rightarrow> byte list \<Rightarrow> int \<Rightarrow> ring_state \<Rightarrow> ring_state outcome" where
  "IORing_writeData waits file data off st =
     (let n = aligned_len (length data); need = n div IO_BLOCK_SIZE; diff = offset_diff off
      in if need > NUM_BLOCKS then Undefined
         else
           (case reserve_blocks waits need (IORing_checkUringCompletions st) of
              Done (st1, i) \<Rightarrow>
                if i * IO_BLOCK_SIZE + diff + length data > POOL_SIZE then Undefined
                else Done (st1\<lparr>rs_pool := fill_buffer (rs_pool st1) (i * IO_BLOCK_SIZE) diff data,
                               rs_inflight := rs_inflight st1
                                 @ [\<lparr>sq_file = file, sq_index = i, sq_length = n, sq_offset = aligned_offset off\<rparr>]\<rparr>)
            | Waits \<Rightarrow> Waits
            | Undefined \<Rightarrow> Undefined))"

text \<open>A read of whole blocks by \<open>pread\<close>, which gives -1 if \<open>fails\<close>; the result claims \<open>len\<close> bytes and gives the bytes that were copied.\<close>

definition IORing_readData :: "disk_env \<Rightarrow> bool \<Rightarrow> file_system \<Rightarrow> string \<Rightarrow> nat \<Rightarrow> int \<Rightarrow> (int \<times> byte list) outcome" where
  "IORing_readData env fails disk p len off =
     (let avail = take (aligned_len len) (drop (nat (aligned_offset off)) (file_content disk p));
          buf = take (env_short env (length avail)) avail;
          diff = offset_diff off
      in if fails then Done (-1, [])
         else if buf = [] then Done (0, [])
         else if length buf < diff then Undefined
         else Done (int len, take len (drop diff buf)))"

subsection \<open>Whole blocks\<close>

lemma and_not_block: "x AND NOT (int IO_BLOCK_SIZE - 1) = x div 4096 * (4096 :: int)"
proof -
  have "x AND NOT (int IO_BLOCK_SIZE - 1) = x AND NOT (mask 12)" by (simp add: IO_BLOCK_SIZE_def mask_eq_exp_minus_1)
  also have "\<dots> = push_bit 12 (drop_bit 12 x)"
    by (rule bit_eqI) (auto simp: bit_simps)
  also have "\<dots> = x div 4096 * 4096" by (simp add: push_bit_eq_mult drop_bit_eq_div)
  finally show ?thesis .
qed

lemma aligned_len_eq: "aligned_len n = (n + 4095) div 4096 * 4096"
  unfolding aligned_len_def and_not_block by (simp add: IO_BLOCK_SIZE_def nat_mult_distrib nat_div_distrib)

lemma aligned_offset_eq: "aligned_offset off = off div 4096 * 4096"
  unfolding aligned_offset_def by (rule and_not_block)

lemma offset_diff_eq: "offset_diff off = nat (off mod 4096)"
  by (simp add: offset_diff_def aligned_offset_eq minus_div_mult_eq_mod)

lemma offset_diff_less: "offset_diff off < 4096"
  by (simp add: offset_diff_eq nat_less_iff)

lemma aligned_len_ge: "n \<le> aligned_len n"
proof -
  have "(n + 4095) mod 4096 < 4096" by simp
  moreover have "(n + 4095) div 4096 * 4096 + (n + 4095) mod 4096 = n + 4095" by (rule div_mult_mod_eq)
  ultimately show ?thesis unfolding aligned_len_eq by linarith
qed

lemma blocks_of_len: "aligned_len n div IO_BLOCK_SIZE = (n + 4095) div 4096" "aligned_len n = aligned_len n div IO_BLOCK_SIZE * IO_BLOCK_SIZE"
  by (simp_all add: aligned_len_eq IO_BLOCK_SIZE_def)

subsection \<open>Taking blocks\<close>

lemma find_free_Some:
  "find_free used need i k = Some j \<Longrightarrow> i \<le> j \<and> j < i + k \<and> (\<forall>x. j \<le> x \<and> x < j + need \<longrightarrow> \<not> used x)"
proof (induction used need i k rule: find_free.induct)
  case (2 used need i k)
  show ?case
  proof (cases "list_all (\<lambda>j. \<not> used (i + j)) [0..<need]")
    case True
    then have "j = i" using 2(2) by simp
    have "\<not> used x" if "i \<le> x" "x < i + need" for x
      using True that by (auto simp: list_all_iff dest!: bspec [of _ _ "x - i"])
    then show ?thesis using \<open>j = i\<close> by simp
  next
    case False
    then have "find_free used need (Suc i) k = Some j" using 2(2) by (simp only: find_free.simps if_False)
    from 2(1) [OF False this] show ?thesis by auto
  qed
qed simp

lemma all_from_Suc: "(\<forall>j. i \<le> j \<and> j < i + Suc k \<longrightarrow> Q j) \<longleftrightarrow> Q i \<and> (\<forall>j. Suc i \<le> j \<and> j < Suc i + k \<longrightarrow> Q j)" for i k :: nat
proof -
  have "{i..<i + Suc k} = insert i {Suc i..<Suc i + k}" by auto
  then show ?thesis by (metis atLeastLessThan_iff insert_iff)
qed

lemma find_free_None:
  "find_free used need i k = None \<longleftrightarrow> (\<forall>j. i \<le> j \<and> j < i + k \<longrightarrow> (\<exists>x. j \<le> x \<and> x < j + need \<and> used x))"
proof (induction used need i k rule: find_free.induct)
  case (2 used need i k)
  show ?case
  proof (cases "list_all (\<lambda>j. \<not> used (i + j)) [0..<need]")
    case True
    have "\<not> used x" if "i \<le> x" "x < i + need" for x
      using True that by (auto simp: list_all_iff dest!: bspec [of _ _ "x - i"])
    then have "\<not> (\<exists>x. i \<le> x \<and> x < i + need \<and> used x)" by blast
    moreover have "find_free used need i (Suc k) = Some i" using True by simp
    ultimately show ?thesis by (intro iffI) (auto dest!: spec [of _ i])
  next
    case False
    then obtain j where "j < need" "used (i + j)" by (auto simp: list_all_iff)
    then have "\<exists>x. i \<le> x \<and> x < i + need \<and> used x" by (intro exI [of _ "i + j"]) simp
    moreover have "(find_free used need i (Suc k) = None) = (find_free used need (Suc i) k = None)" using False by (simp only: find_free.simps if_False)
    ultimately show ?thesis unfolding 2 [OF False] all_from_Suc [of i k] by blast
  qed
qed auto

lemma find_free_first:
  "(\<And>x. i + n \<le> x \<Longrightarrow> x < i + n + need \<Longrightarrow> \<not> used x) \<Longrightarrow> n < k \<Longrightarrow>
   (\<And>j. i \<le> j \<Longrightarrow> j < i + n \<Longrightarrow> \<exists>x. j \<le> x \<and> x < j + need \<and> used x) \<Longrightarrow> find_free used need i k = Some (i + n)"
proof (induction used need i k arbitrary: n rule: find_free.induct)
  case (2 used need i k)
  show ?case
  proof (cases n)
    case 0
    then have "list_all (\<lambda>j. \<not> used (i + j)) [0..<need]" using 2(2) by (auto simp: list_all_iff)
    then show ?thesis using 0 by simp
  next
    case (Suc n')
    then obtain x where x: "i \<le> x" "x < i + need" "used x" using 2(4) [of i] by auto
    have F: "\<not> list_all (\<lambda>j. \<not> used (i + j)) [0..<need]"
      using x by (auto simp: list_all_iff intro!: bexI [of _ "x - i"])
    have "find_free used need (Suc i) k = Some (Suc i + n')" by (rule 2(1) [OF F]) (use 2(2-4) Suc in auto)
    then show ?thesis using F Suc by (simp only: find_free.simps if_False) simp
  qed
qed simp


subsection \<open>The buffer of a write\<close>

definition ring_buffer :: "int \<Rightarrow> byte list \<Rightarrow> byte list" where
  "ring_buffer off data =
     (let d = offset_diff off; n = aligned_len (length data)
      in replicate d 0 @ data @ replicate (n - (d + length data)) 0)"

text \<open>The blocks are as many as the data needs by itself, so the data must not reach behind them.\<close>

definition write_fits :: "int \<Rightarrow> byte list \<Rightarrow> bool" where
  "write_fits off data \<longleftrightarrow> data \<noteq> [] \<and> offset_diff off + length data \<le> aligned_len (length data)"

lemma length_ring_buffer: "write_fits off data \<Longrightarrow> length (ring_buffer off data) = aligned_len (length data)"
  by (simp add: ring_buffer_def write_fits_def Let_def)

lemma pool_write_append: "pool_write (pool_write p a xs) (a + length xs) ys = pool_write p a (xs @ ys)"
  by (auto simp: pool_write_def nth_append fun_eq_iff)

lemma pool_write_Nil [simp]: "pool_write p a [] = p"
  by (rule ext) (auto simp: pool_write_def)

lemma fill_buffer_eq: "fill_buffer pool dest (offset_diff off) data = pool_write pool dest (ring_buffer off data)"
proof -
  let ?d = "offset_diff off" and ?n = "aligned_len (length data)"
  have 1: "(if ?d > 0 then pool_write pool dest (replicate ?d 0) else pool) = pool_write pool dest (replicate ?d 0)" by simp
  have 2: "pool_write (pool_write pool dest (replicate ?d 0)) (dest + ?d) data = pool_write pool dest (replicate ?d 0 @ data)"
    using pool_write_append [of pool dest "replicate ?d 0" data] by simp
  have 3: "pool_write (pool_write pool dest (replicate ?d 0 @ data)) (dest + ?d + length data) zs = pool_write pool dest (replicate ?d 0 @ data @ zs)" for zs
    using pool_write_append [of pool dest "replicate ?d 0 @ data" zs] by (simp add: add.assoc)
  show ?thesis
  proof (cases "?n > ?d + length data")
    case True
    then show ?thesis unfolding fill_buffer_def Let_def 1 2 3 by (simp add: ring_buffer_def Let_def)
  next
    case False
    then show ?thesis unfolding fill_buffer_def Let_def 1 2 by (simp add: ring_buffer_def Let_def)
  qed
qed

lemma pool_bytes_write:
  "pool_bytes (st\<lparr>rs_pool := pool_write p a bs\<rparr>) a (length bs) = bs"
  by (rule nth_equalityI) (simp_all add: pool_bytes_def pool_write_def)

subsection \<open>Who owns which block\<close>

definition blocks :: "sqe \<Rightarrow> nat set" where
  "blocks s = {sq_index s..<sq_index s + sq_length s div IO_BLOCK_SIZE}"

definition sqe_ok :: "sqe \<Rightarrow> bool" where
  "sqe_ok s \<longleftrightarrow> 0 < sq_length s \<and> sq_length s mod IO_BLOCK_SIZE = 0 \<and> sq_index s * IO_BLOCK_SIZE + sq_length s \<le> POOL_SIZE"

definition ring_inv :: "ring_state \<Rightarrow> bool" where
  "ring_inv st \<longleftrightarrow> list_all sqe_ok (rs_inflight st)
     \<and> sorted_wrt (\<lambda>s t. blocks s \<inter> blocks t = {}) (rs_inflight st)
     \<and> (\<forall>s\<in>set (rs_inflight st). \<forall>x\<in>blocks s. rs_used st x)
     \<and> (\<forall>c\<in>set (rs_completions st). rs_used st c \<and> (\<forall>s\<in>set (rs_inflight st). c \<notin> blocks s))"

lemma index_in_blocks: "sqe_ok s \<Longrightarrow> sq_index s \<in> blocks s"
  by (auto simp: sqe_ok_def blocks_def IO_BLOCK_SIZE_def dvd_imp_le div_greater_zero_iff mod_eq_0_iff_dvd)

lemma used_after_check:
  "fold (\<lambda>i u. u(i := False)) cs u x \<longleftrightarrow> u x \<and> x \<notin> set cs"
  by (induction cs arbitrary: u) auto

lemma check_simps [simp]:
  "rs_inflight (IORing_checkUringCompletions st) = rs_inflight st" "rs_pool (IORing_checkUringCompletions st) = rs_pool st"
  "rs_disk (IORing_checkUringCompletions st) = rs_disk st" "rs_completions (IORing_checkUringCompletions st) = []"
  "rs_used (IORing_checkUringCompletions st) x \<longleftrightarrow> rs_used st x \<and> x \<notin> set (rs_completions st)"
  by (simp_all add: IORing_checkUringCompletions_def used_after_check)

lemma ring_inv_check: "ring_inv st \<Longrightarrow> ring_inv (IORing_checkUringCompletions st)"
  by (auto simp: ring_inv_def)

lemma kernel_simps [simp]:
  "rs_pool (kernel_complete k res st) = rs_pool st" "rs_used (kernel_complete k res st) = rs_used st"
  "rs_inflight (kernel_complete k res st) = (if k < length (rs_inflight st) then take k (rs_inflight st) @ drop (Suc k) (rs_inflight st) else rs_inflight st)"
  "rs_completions (kernel_complete k res st)
     = (if k < length (rs_inflight st) then rs_completions st @ [sq_index (rs_inflight st ! k)] else rs_completions st)"
  by (auto simp: kernel_complete_def Let_def split: option.splits)

lemma ring_inv_kernel:
  assumes "ring_inv st"
  shows "ring_inv (kernel_complete k res st)"
proof (cases "k < length (rs_inflight st)")
  case True
  let ?s = "rs_inflight st ! k" and ?l = "take k (rs_inflight st)" and ?r = "drop (Suc k) (rs_inflight st)"
  have d: "rs_inflight st = ?l @ ?s # ?r" by (rule id_take_nth_drop [OF True])
  have a: "list_all sqe_ok (?l @ ?s # ?r)" "sorted_wrt (\<lambda>s t. blocks s \<inter> blocks t = {}) (?l @ ?s # ?r)"
    "\<forall>s\<in>set (?l @ ?s # ?r). \<forall>x\<in>blocks s. rs_used st x"
    "\<forall>c\<in>set (rs_completions st). rs_used st c \<and> (\<forall>s\<in>set (?l @ ?s # ?r). c \<notin> blocks s)"
    using assms unfolding ring_inv_def d [symmetric] by blast+
  have i: "sq_index ?s \<in> blocks ?s" using a(1) by (intro index_in_blocks) simp
  show ?thesis using a i unfolding ring_inv_def kernel_simps if_P [OF True]
    by (auto simp: sorted_wrt_append)
next
  case False
  then have "kernel_complete k res st = st" by (simp add: kernel_complete_def)
  then show ?thesis using assms by simp
qed

lemma kernel_run_Cons [simp]: "kernel_run ((k, res) # ks) st = kernel_run ks (kernel_complete k res st)"
  by (simp add: kernel_run_def)

lemma kernel_run_Nil [simp]: "kernel_run [] st = st"
  by (simp add: kernel_run_def)

lemma kernel_sub: "set (rs_inflight (kernel_complete k res st)) \<subseteq> set (rs_inflight st)"
  by (auto dest: in_set_takeD in_set_dropD)

lemma ring_inv_kernel_run:
  "ring_inv st \<Longrightarrow> ring_inv (kernel_run ks st) \<and> rs_pool (kernel_run ks st) = rs_pool st
     \<and> set (rs_inflight (kernel_run ks st)) \<subseteq> set (rs_inflight st)"
proof (induction ks arbitrary: st)
  case (Cons a ks)
  obtain k res where a: "a = (k, res)" by fastforce
  show ?case using Cons.IH [OF ring_inv_kernel [OF Cons.prems, of k res]] kernel_sub [of k res st] unfolding a kernel_run_Cons by auto
qed simp


lemma reserve_Done:
  assumes "reserve_blocks waits need st = Done (st1, i)" "need \<le> NUM_BLOCKS"
  obtains kss st0 where "st0 = fold (\<lambda>ks st. IORing_checkUringCompletions (kernel_run ks st)) kss st" "set kss \<subseteq> set waits"
    "st1 = st0\<lparr>rs_used := (\<lambda>x. i \<le> x \<and> x < i + need \<or> rs_used st0 x)\<rparr>" "i + need \<le> NUM_BLOCKS"
    "\<And>x. i \<le> x \<Longrightarrow> x < i + need \<Longrightarrow> \<not> rs_used st0 x"
  using assms
proof (induction waits arbitrary: st thesis)
  case Nil
  have f: "find_free (rs_used st) need 0 (Suc (NUM_BLOCKS - need)) = Some i"
    "st1 = st\<lparr>rs_used := (\<lambda>x. i \<le> x \<and> x < i + need \<or> rs_used st x)\<rparr>"
    using Nil.prems(2) by (auto simp: reserve_blocks.simps split: option.splits)
  show ?case by (rule Nil.prems(1) [of st "[]"]) (use f find_free_Some [OF f(1)] Nil.prems(3) in auto)
next
  case (Cons ks waits)
  show ?case
  proof (cases "find_free (rs_used st) need 0 (Suc (NUM_BLOCKS - need))")
    case (Some j)
    then have f: "find_free (rs_used st) need 0 (Suc (NUM_BLOCKS - need)) = Some i"
      "st1 = st\<lparr>rs_used := (\<lambda>x. i \<le> x \<and> x < i + need \<or> rs_used st x)\<rparr>"
      using Cons.prems(2) by (auto simp: reserve_blocks.simps)
    show ?thesis by (rule Cons.prems(1) [of st "[]"]) (use f find_free_Some [OF f(1)] Cons.prems(3) in auto)
  next
    case None
    then have r: "reserve_blocks waits need (IORing_checkUringCompletions (kernel_run ks st)) = Done (st1, i)"
      using Cons.prems(2) by (subst (asm) reserve_blocks.simps) (auto simp: Let_def split: if_splits)
    show ?thesis
    proof (rule Cons.IH [OF _ r Cons.prems(3)])
      fix kss st0
      assume *: "st0 = fold (\<lambda>ks st. IORing_checkUringCompletions (kernel_run ks st)) kss (IORing_checkUringCompletions (kernel_run ks st))"
        "set kss \<subseteq> set waits" "st1 = st0\<lparr>rs_used := (\<lambda>x. i \<le> x \<and> x < i + need \<or> rs_used st0 x)\<rparr>" "i + need \<le> NUM_BLOCKS"
        "\<And>x. i \<le> x \<Longrightarrow> x < i + need \<Longrightarrow> \<not> rs_used st0 x"
      show thesis by (rule Cons.prems(1) [of st0 "ks # kss"]) (use * in auto)
    qed
  qed
qed

lemma waits_keep:
  "ring_inv st \<Longrightarrow> ring_inv (fold (\<lambda>ks st. IORing_checkUringCompletions (kernel_run ks st)) kss st)
     \<and> rs_pool (fold (\<lambda>ks st. IORing_checkUringCompletions (kernel_run ks st)) kss st) = rs_pool st
     \<and> set (rs_inflight (fold (\<lambda>ks st. IORing_checkUringCompletions (kernel_run ks st)) kss st)) \<subseteq> set (rs_inflight st)"
proof (induction kss arbitrary: st)
  case (Cons ks kss)
  note k = ring_inv_kernel_run [OF Cons.prems, of ks]
  have "ring_inv (IORing_checkUringCompletions (kernel_run ks st))" using k by (intro ring_inv_check) simp
  from Cons.IH [OF this] show ?case using k by auto
qed simp

lemma writeData_Done:
  assumes "IORing_writeData waits file data off st = Done st'" "ring_inv st" "write_fits off data"
  obtains kss st0 s where "st0 = fold (\<lambda>ks st. IORing_checkUringCompletions (kernel_run ks st)) kss (IORing_checkUringCompletions st)"
    "set kss \<subseteq> set waits" "ring_inv st0" "set (rs_inflight st0) \<subseteq> set (rs_inflight st)" "rs_pool st0 = rs_pool st"
    "rs_inflight st' = rs_inflight st0 @ [s]" "rs_disk st' = rs_disk st0" "rs_completions st' = rs_completions st0"
    "s = \<lparr>sq_file = file, sq_index = sq_index s, sq_length = aligned_len (length data), sq_offset = aligned_offset off\<rparr>"
    "\<And>x. rs_used st' x \<longleftrightarrow> x \<in> blocks s \<or> rs_used st0 x" "\<And>x. x \<in> blocks s \<Longrightarrow> \<not> rs_used st0 x"
    "rs_pool st' = pool_write (rs_pool st) (sq_index s * IO_BLOCK_SIZE) (ring_buffer off data)" "sqe_ok s" "ring_inv st'"
proof -
  let ?n = "aligned_len (length data)" let ?need = "?n div IO_BLOCK_SIZE"
  have need: "?need \<le> NUM_BLOCKS" using assms(1) by (auto simp: IORing_writeData_def Let_def split: if_splits)
  obtain st1 i where r: "reserve_blocks waits ?need (IORing_checkUringCompletions st) = Done (st1, i)"
    and st': "st' = st1\<lparr>rs_pool := fill_buffer (rs_pool st1) (i * IO_BLOCK_SIZE) (offset_diff off) data,
                        rs_inflight := rs_inflight st1 @ [\<lparr>sq_file = file, sq_index = i, sq_length = ?n, sq_offset = aligned_offset off\<rparr>]\<rparr>"
    using assms(1) need by (auto simp: IORing_writeData_def Let_def split: outcome.splits if_splits)
  let ?s = "\<lparr>sq_file = file, sq_index = i, sq_length = ?n, sq_offset = aligned_offset off\<rparr>"
  obtain kss st0 where k: "st0 = fold (\<lambda>ks st. IORing_checkUringCompletions (kernel_run ks st)) kss (IORing_checkUringCompletions st)"
    "set kss \<subseteq> set waits" "st1 = st0\<lparr>rs_used := (\<lambda>x. i \<le> x \<and> x < i + ?need \<or> rs_used st0 x)\<rparr>" "i + ?need \<le> NUM_BLOCKS"
    "\<And>x. i \<le> x \<Longrightarrow> x < i + ?need \<Longrightarrow> \<not> rs_used st0 x"
    by (rule reserve_Done [OF r need]) (rule that)
  have w: "ring_inv st0" "rs_pool st0 = rs_pool st" "set (rs_inflight st0) \<subseteq> set (rs_inflight st)"
    using waits_keep [OF ring_inv_check [OF assms(2)], of kss] k(1) by simp_all
  have "0 < length data" using assms(3) by (simp add: write_fits_def)
  then have "0 < ?n" using aligned_len_ge [of "length data"] by linarith
  moreover have "?n = ?need * IO_BLOCK_SIZE" by (rule blocks_of_len(2))
  moreover have "?n mod IO_BLOCK_SIZE = 0" using blocks_of_len(2) [of "length data"] by (metis mod_mult_self2_is_0)
  moreover have "(i + ?need) * IO_BLOCK_SIZE \<le> NUM_BLOCKS * IO_BLOCK_SIZE" using k(4) by (rule mult_le_mono1)
  moreover have "NUM_BLOCKS * IO_BLOCK_SIZE = POOL_SIZE" by (simp add: NUM_BLOCKS_def POOL_SIZE_def IO_BLOCK_SIZE_def)
  ultimately have sok: "sqe_ok ?s" unfolding sqe_ok_def by (simp add: add_mult_distrib)
  have bs: "blocks ?s = {i..<i + ?need}" by (simp add: blocks_def)
  have un: "\<not> rs_used st0 x" if "x \<in> blocks ?s" for x using k(5) that unfolding bs by simp
  have us: "rs_used st' x \<longleftrightarrow> x \<in> blocks ?s \<or> rs_used st0 x" for x unfolding st' k(3) bs by simp
  have inf: "rs_inflight st' = rs_inflight st0 @ [?s]" "rs_completions st' = rs_completions st0" unfolding st' k(3) by simp_all
  have "ring_inv st'"
    using w(1) sok un unfolding ring_inv_def inf us by (auto simp: sorted_wrt_append)
  moreover have "rs_pool st' = pool_write (rs_pool st) (sq_index ?s * IO_BLOCK_SIZE) (ring_buffer off data)"
    unfolding st' k(3) by (simp add: fill_buffer_eq w(2))
  moreover have "rs_disk st' = rs_disk st0" unfolding st' k(3) by simp
  ultimately show thesis using that [OF k(1,2) w(1,3,2) inf(1) _ inf(2) _ us un] sok by simp
qed

lemma buffer_untouched:
  assumes "ring_inv st'" "rs_inflight st' = others @ [s]" "t \<in> set others" "sqe_ok s" "length bs = sq_length s" "sq_length s = sq_length s div IO_BLOCK_SIZE * IO_BLOCK_SIZE"
    "k < sq_length t"
  shows "pool_write p (sq_index s * IO_BLOCK_SIZE) bs (sq_index t * IO_BLOCK_SIZE + k) = p (sq_index t * IO_BLOCK_SIZE + k)"
proof -
  have ok: "sqe_ok t" and d: "blocks t \<inter> blocks s = {}"
    using assms(1-3) by (auto simp: ring_inv_def list_all_iff sorted_wrt_append)
  let ?x = "sq_index t + k div IO_BLOCK_SIZE"
  have B: "0 < IO_BLOCK_SIZE" by (simp add: IO_BLOCK_SIZE_def)
  have "sq_length t = sq_length t div IO_BLOCK_SIZE * IO_BLOCK_SIZE" using ok by (auto simp: sqe_ok_def)
  then have "k div IO_BLOCK_SIZE < sq_length t div IO_BLOCK_SIZE" using assms(7) B by (metis less_mult_imp_div_less)
  then have "?x \<in> blocks t" by (simp add: blocks_def)
  then have "?x \<notin> blocks s" using d by blast
  then have c: "?x < sq_index s \<or> sq_index s + sq_length s div IO_BLOCK_SIZE \<le> ?x" by (auto simp: blocks_def)
  have k: "k = k div IO_BLOCK_SIZE * IO_BLOCK_SIZE + k mod IO_BLOCK_SIZE" "k mod IO_BLOCK_SIZE < IO_BLOCK_SIZE" using B by simp_all
  have addr: "sq_index t * IO_BLOCK_SIZE + k = ?x * IO_BLOCK_SIZE + k mod IO_BLOCK_SIZE" using k(1) by (simp add: add_mult_distrib)
  have "sq_index t * IO_BLOCK_SIZE + k < sq_index s * IO_BLOCK_SIZE \<or> sq_index s * IO_BLOCK_SIZE + sq_length s \<le> sq_index t * IO_BLOCK_SIZE + k"
    using c
  proof
    assume "?x < sq_index s"
    then have "Suc ?x * IO_BLOCK_SIZE \<le> sq_index s * IO_BLOCK_SIZE" by (intro mult_le_mono1) simp
    then show ?thesis unfolding addr using k(2) by simp
  next
    assume "sq_index s + sq_length s div IO_BLOCK_SIZE \<le> ?x"
    then have "(sq_index s + sq_length s div IO_BLOCK_SIZE) * IO_BLOCK_SIZE \<le> ?x * IO_BLOCK_SIZE" by (rule mult_le_mono1)
    then show ?thesis unfolding addr add_mult_distrib using assms(6) by linarith
  qed
  then show ?thesis unfolding pool_write_def using assms(5) by auto
qed


lemma sqe_whole: "sqe_ok s \<Longrightarrow> sq_length s = sq_length s div IO_BLOCK_SIZE * IO_BLOCK_SIZE"
  by (auto simp: sqe_ok_def)



lemma ring_inv_start: "ring_inv (IORing_initializePool disk)"
  by (simp add: ring_inv_def IORing_initializePool_def)



subsection \<open>What the file will hold\<close>

definition covers :: "sqe \<Rightarrow> string \<Rightarrow> nat \<Rightarrow> bool" where
  "covers s p y \<longleftrightarrow> sq_file s = Some p \<and> sq_offset s \<le> int y \<and> int y < sq_offset s + int (sq_length s)"

definition apart :: "sqe \<Rightarrow> sqe \<Rightarrow> bool" where
  "apart s t \<longleftrightarrow> sq_file s \<noteq> sq_file t \<or> sq_offset s + int (sq_length s) \<le> sq_offset t \<or> sq_offset t + int (sq_length t) \<le> sq_offset s"

definition file_view :: "ring_state \<Rightarrow> string \<Rightarrow> nat \<Rightarrow> byte" where
  "file_view st p y = (case find (\<lambda>s. covers s p y) (rs_inflight st) of
     Some s \<Rightarrow> rs_pool st (sq_index s * IO_BLOCK_SIZE + nat (int y - sq_offset s))
   | None \<Rightarrow> byte_at (file_content (rs_disk st) p) y)"

definition requests_apart :: "ring_state \<Rightarrow> bool" where
  "requests_apart st \<longleftrightarrow> sorted_wrt apart (rs_inflight st) \<and> list_all (\<lambda>s. 0 \<le> sq_offset s) (rs_inflight st)"

lemma covers_apart: "apart s t \<Longrightarrow> covers s p y \<Longrightarrow> \<not> covers t p y"
  by (auto simp: apart_def covers_def)

text \<open>The kernel writes a request completely.\<close>

definition full_write :: "nat option \<Rightarrow> bool" where
  "full_write res = (case res of Some n \<Rightarrow> POOL_SIZE \<le> n | None \<Rightarrow> False)"

lemma find_skip: "\<not> P s \<Longrightarrow> find P (l @ s # r) = find P (l @ r)"
  by (induction l) auto

lemma find_first: "(\<And>t. t \<in> set l \<Longrightarrow> \<not> P t) \<Longrightarrow> P s \<Longrightarrow> find P (l @ s # r) = Some s"
  by (induction l) auto

lemma kernel_view:
  assumes inv: "ring_inv st" and ra: "requests_apart st" and full: "full_write res"
  shows "requests_apart (kernel_complete k res st) \<and> file_view (kernel_complete k res st) p y = file_view st p y"
proof (cases "k < length (rs_inflight st)")
  case False
  then have "kernel_complete k res st = st" by (simp add: kernel_complete_def)
  then show ?thesis using ra by simp
next
  case True
  let ?s = "rs_inflight st ! k" and ?l = "take k (rs_inflight st)" and ?r = "drop (Suc k) (rs_inflight st)" and ?st = "kernel_complete k res st"
  have d: "rs_inflight st = ?l @ ?s # ?r" by (rule id_take_nth_drop [OF True])
  have a: "sorted_wrt apart (?l @ ?s # ?r)" "list_all (\<lambda>s. 0 \<le> sq_offset s) (?l @ ?s # ?r)" "list_all sqe_ok (?l @ ?s # ?r)"
    using ra inv unfolding requests_apart_def ring_inv_def d [symmetric] by blast+
  have ap: "apart ?s t \<or> apart t ?s" if "t \<in> set (?l @ ?r)" for t using a(1) that by (auto simp: sorted_wrt_append)
  have fl: "rs_inflight ?st = ?l @ ?r" using True by simp
  have ra': "requests_apart ?st" using a unfolding requests_apart_def fl by (auto simp: sorted_wrt_append)
  obtain n where n: "res = Some n" "POOL_SIZE \<le> n" using full by (auto simp: full_write_def split: option.splits)
  have sok: "sqe_ok ?s" and o0: "0 \<le> sq_offset ?s" using a(2,3) by simp_all
  then have mn: "min n (sq_length ?s) = sq_length ?s" using n(2) by (simp add: sqe_ok_def)
  have disk: "byte_at (file_content (rs_disk ?st) p) y
      = (if covers ?s p y then rs_pool st (sq_index ?s * IO_BLOCK_SIZE + nat (int y - sq_offset ?s)) else byte_at (file_content (rs_disk st) p) y)"
  proof (cases "sq_file ?s")
    case None
    then have "rs_disk ?st = rs_disk st" using True by (simp add: kernel_complete_def Let_def)
    then show ?thesis using None by (simp add: covers_def)
  next
    case (Some q)
    then have rd: "rs_disk ?st = (rs_disk st)(q \<mapsto> write_at (file_content (rs_disk st) q) (nat (sq_offset ?s))
        (pool_bytes st (sq_index ?s * IO_BLOCK_SIZE) (sq_length ?s)))"
      using True n(1) mn by (simp add: kernel_complete_def Let_def)
    have l: "length (pool_bytes st (sq_index ?s * IO_BLOCK_SIZE) (sq_length ?s)) = sq_length ?s" by (simp add: pool_bytes_def)
    have c: "covers ?s q y \<longleftrightarrow> nat (sq_offset ?s) \<le> y \<and> y < nat (sq_offset ?s) + sq_length ?s"
      using Some o0 by (auto simp: covers_def)
    show ?thesis
    proof (cases "p = q")
      case True
      have "file_content (rs_disk ?st) p = write_at (file_content (rs_disk st) q) (nat (sq_offset ?s))
          (pool_bytes st (sq_index ?s * IO_BLOCK_SIZE) (sq_length ?s))" using True unfolding rd by (simp add: file_content_def)
      moreover have "nat (int y - sq_offset ?s) = y - nat (sq_offset ?s)" using o0 by linarith
      ultimately show ?thesis using True c by (simp add: byte_at_write l) (auto simp: pool_bytes_def)
    next
      case False
      then have "\<not> covers ?s p y" using Some by (simp add: covers_def)
      moreover have "file_content (rs_disk ?st) p = file_content (rs_disk st) p" using False unfolding rd by (simp add: file_content_def)
      ultimately show ?thesis by simp
    qed
  qed
  have "file_view ?st p y = file_view st p y"
  proof (cases "covers ?s p y")
    case True
    then have "\<not> covers t p y" if "t \<in> set (?l @ ?r)" for t using ap [OF that] covers_apart by blast
    then have f1: "find (\<lambda>s. covers s p y) (?l @ ?r) = None" by (simp only: find_None_iff) blast
    have "\<not> covers t p y" if "t \<in> set ?l" for t using f1 that by (auto simp: find_None_iff)
    then have "find (\<lambda>s. covers s p y) (?l @ ?s # ?r) = Some ?s" using True
      by (intro find_first) blast+
    then have f2: "find (\<lambda>s. covers s p y) (rs_inflight st) = Some ?s" unfolding d [symmetric] .
    show ?thesis unfolding file_view_def fl f1 f2 using disk True by simp
  next
    case False
    have "find (\<lambda>s. covers s p y) (rs_inflight st) = find (\<lambda>s. covers s p y) (?l @ ?r)"
      using find_skip [of "\<lambda>s. covers s p y" ?s ?l ?r] False unfolding d [symmetric] .
    then show ?thesis unfolding file_view_def fl using disk False by (simp split: option.split)
  qed
  then show ?thesis using ra' by blast
qed


lemma kernel_run_view:
  "ring_inv st \<Longrightarrow> requests_apart st \<Longrightarrow> list_all (\<lambda>(k, res). full_write res) ks \<Longrightarrow>
   requests_apart (kernel_run ks st) \<and> file_view (kernel_run ks st) p y = file_view st p y"
proof (induction ks arbitrary: st)
  case (Cons a ks)
  obtain k res where a: "a = (k, res)" by fastforce
  have f: "full_write res" "list_all (\<lambda>(k, res). full_write res) ks" using Cons.prems(3) a by simp_all
  note v = kernel_view [OF Cons.prems(1,2) f(1), of k p y]
  show ?case using Cons.IH [OF ring_inv_kernel [OF Cons.prems(1), of k res] conjunct1 [OF v] f(2)] v unfolding a by simp
qed simp

lemma check_view: "requests_apart (IORing_checkUringCompletions st) = requests_apart st"
  "file_view (IORing_checkUringCompletions st) p y = file_view st p y"
  by (simp_all add: requests_apart_def file_view_def split: option.split)

lemma waits_view:
  "ring_inv st \<Longrightarrow> requests_apart st \<Longrightarrow> list_all (list_all (\<lambda>(k, res). full_write res)) kss \<Longrightarrow>
   requests_apart (fold (\<lambda>ks st. IORing_checkUringCompletions (kernel_run ks st)) kss st)
     \<and> file_view (fold (\<lambda>ks st. IORing_checkUringCompletions (kernel_run ks st)) kss st) p y = file_view st p y"
proof (induction kss arbitrary: st)
  case (Cons ks kss)
  let ?st = "IORing_checkUringCompletions (kernel_run ks st)"
  have f: "list_all (\<lambda>(k, res). full_write res) ks" "list_all (list_all (\<lambda>(k, res). full_write res)) kss" using Cons.prems(3) by simp_all
  note v = kernel_run_view [OF Cons.prems(1,2) f(1), of p y]
  have i: "ring_inv ?st" using ring_inv_kernel_run [OF Cons.prems(1), of ks] by (simp add: ring_inv_check)
  have r: "requests_apart ?st" using v by (simp add: check_view)
  show ?case using Cons.IH [OF i r f(2)] v by (simp add: check_view)
qed simp

definition write_target :: "string \<Rightarrow> int \<Rightarrow> byte list \<Rightarrow> sqe" where
  "write_target p off data = \<lparr>sq_file = Some p, sq_index = 0, sq_length = aligned_len (length data), sq_offset = aligned_offset off\<rparr>"

inductive ring_run :: "file_system \<Rightarrow> (string \<times> int \<times> byte list) list \<Rightarrow> ring_state \<Rightarrow> bool" for disk where
  start: "ring_run disk [] (IORing_initializePool disk)"
| written: "ring_run disk ws st \<Longrightarrow> write_fits off data \<Longrightarrow> 0 \<le> off \<Longrightarrow> list_all (\<lambda>s. apart s (write_target p off data)) (rs_inflight st) \<Longrightarrow>
    list_all (list_all (\<lambda>(k, res). full_write res)) waits \<Longrightarrow> IORing_writeData waits (Some p) data off st = Done st' \<Longrightarrow>
    ring_run disk (ws @ [(p, off, data)]) st'"
| completed: "ring_run disk ws st \<Longrightarrow> full_write res \<Longrightarrow> ring_run disk ws (kernel_complete k res st)"
| reaped: "ring_run disk ws st \<Longrightarrow> ring_run disk ws (IORing_checkUringCompletions st)"

text \<open>The specification: one write after the other, each of whole blocks padded with zeros.\<close>

definition padded_write :: "string \<times> int \<times> byte list \<Rightarrow> file_system \<Rightarrow> file_system" where
  "padded_write = (\<lambda>(p, off, data) disk.
     disk(p \<mapsto> write_at (file_content disk p) (nat (aligned_offset off)) (ring_buffer off data)))"

lemma padded_write_at:
  "byte_at (file_content (padded_write (p, off, data) disk) q) y
     = (if q = p \<and> nat (aligned_offset off) \<le> y \<and> y < nat (aligned_offset off) + length (ring_buffer off data)
        then ring_buffer off data ! (y - nat (aligned_offset off)) else byte_at (file_content disk q) y)"
  by (simp add: padded_write_def file_content_def byte_at_write)

lemma pool_write_in: "k < length bs \<Longrightarrow> pool_write p a bs (a + k) = bs ! k"
  by (simp add: pool_write_def)

lemma write_view:
  assumes inv: "ring_inv st" and ra: "requests_apart st" and fits: "write_fits off data" and off: "0 \<le> off"
    and ap: "list_all (\<lambda>s. apart s (write_target p off data)) (rs_inflight st)"
    and full: "list_all (list_all (\<lambda>(k, res). full_write res)) waits" and w: "IORing_writeData waits (Some p) data off st = Done st'"
  shows "requests_apart st' \<and> file_view st' q y
     = (if q = p \<and> nat (aligned_offset off) \<le> y \<and> y < nat (aligned_offset off) + length (ring_buffer off data)
        then ring_buffer off data ! (y - nat (aligned_offset off)) else file_view st q y)"
proof -
  obtain kss st0 s where k: "st0 = fold (\<lambda>ks st. IORing_checkUringCompletions (kernel_run ks st)) kss (IORing_checkUringCompletions st)"
    "set kss \<subseteq> set waits" "ring_inv st0" "set (rs_inflight st0) \<subseteq> set (rs_inflight st)" "rs_pool st0 = rs_pool st"
    "rs_inflight st' = rs_inflight st0 @ [s]" "rs_disk st' = rs_disk st0"
    "s = \<lparr>sq_file = Some p, sq_index = sq_index s, sq_length = aligned_len (length data), sq_offset = aligned_offset off\<rparr>"
    "rs_pool st' = pool_write (rs_pool st) (sq_index s * IO_BLOCK_SIZE) (ring_buffer off data)" "sqe_ok s" "ring_inv st'"
    by (rule writeData_Done [OF w inv fits]) (rule that)
  have f: "sq_file s = Some p" "sq_length s = aligned_len (length data)" "sq_offset s = aligned_offset off" by (subst k(8), simp)+
  have o0: "0 \<le> aligned_offset off" using off by (simp add: aligned_offset_eq)
  have lb: "length (ring_buffer off data) = sq_length s" using length_ring_buffer [OF fits] f(2) by simp
  have full': "list_all (list_all (\<lambda>(k, res). full_write res)) kss" using full k(2) by (auto simp: list_all_iff)
  have v0: "requests_apart st0" "file_view st0 q y = file_view st q y" for q y
    using waits_view [OF ring_inv_check [OF inv] _ full', of q y] ra unfolding k(1) by (simp_all add: check_view)
  have aps: "apart t s" if "t \<in> set (rs_inflight st0)" for t
    using ap k(4) that f by (auto simp: list_all_iff apart_def write_target_def)
  have ra': "requests_apart st'" using v0(1) aps o0 f(3) unfolding requests_apart_def k(6) by (auto simp: sorted_wrt_append)
  have c: "covers s q y \<longleftrightarrow> q = p \<and> nat (aligned_offset off) \<le> y \<and> y < nat (aligned_offset off) + length (ring_buffer off data)"
    using o0 unfolding covers_def f(1,3) lb by auto
  have "file_view st' q y = (if covers s q y then ring_buffer off data ! (y - nat (aligned_offset off)) else file_view st0 q y)"
  proof (cases "find (\<lambda>s. covers s q y) (rs_inflight st0)")
    case None
    then have nc: "\<not> covers t q y" if "t \<in> set (rs_inflight st0)" for t using that by (auto simp: find_None_iff)
    show ?thesis
    proof (cases "covers s q y")
      case True
      have "find (\<lambda>s. covers s q y) (rs_inflight st0 @ s # []) = Some s" by (rule find_first) (use nc True in blast)+
      moreover have "nat (int y - sq_offset s) = y - nat (aligned_offset off)" using o0 f(3) by linarith
      moreover have "y - nat (aligned_offset off) < length (ring_buffer off data)" using True c by linarith
      ultimately show ?thesis using True by (simp add: file_view_def k(6,9) pool_write_in)
    next
      case False
      have "find (\<lambda>s. covers s q y) (rs_inflight st0 @ s # []) = None" using None False by (auto simp: find_None_iff)
      then show ?thesis using False None by (simp add: file_view_def k(6,7))
    qed
  next
    case (Some t)
    then have t: "t \<in> set (rs_inflight st0)" "covers t q y" by (auto simp: find_Some_iff)
    have ns: "\<not> covers s q y" by (rule covers_apart [OF aps [OF t(1)] t(2)])
    have e: "find (\<lambda>s. covers s q y) (rs_inflight st0 @ [s]) = Some t"
      using find_skip [of "\<lambda>s. covers s q y" s "rs_inflight st0" "[]"] ns Some by simp
    have "nat (int y - sq_offset t) < sq_length t" using t(2) by (auto simp: covers_def)
    then have "rs_pool st' (sq_index t * IO_BLOCK_SIZE + nat (int y - sq_offset t)) = rs_pool st0 (sq_index t * IO_BLOCK_SIZE + nat (int y - sq_offset t))"
      unfolding k(5,9) by (intro buffer_untouched [OF k(11,6) t(1) k(10) lb sqe_whole [OF k(10)]])
    then show ?thesis using ns e Some by (simp add: file_view_def k(6))
  qed
  then show ?thesis using ra' c v0(2) by simp
qed

lemma ring_run_view:
  "ring_run disk ws st \<Longrightarrow> ring_inv st \<and> requests_apart st \<and> (\<forall>p y. file_view st p y = byte_at (file_content (fold padded_write ws disk) p) y)"
proof (induction rule: ring_run.induct)
  case start
  then show ?case by (simp add: ring_inv_start) (simp add: requests_apart_def file_view_def IORing_initializePool_def)
next
  case (written ws st off data p waits st')
  then have inv: "ring_inv st" and ra: "requests_apart st"
    and v: "file_view st q y = byte_at (file_content (fold padded_write ws disk) q) y" for q y by blast+
  have "ring_inv st'" by (rule writeData_Done [OF written.hyps(6) inv written.hyps(2)])
  moreover note write_view [OF inv ra written.hyps(2-6)]
  ultimately show ?case using v by (simp add: padded_write_at)
next
  case (completed ws st res k)
  then show ?case using kernel_view [of st res k] ring_inv_kernel [of st k res] by simp
next
  case (reaped ws st)
  then show ?case by (simp add: check_view ring_inv_check)
qed


subsection \<open>Sequential files\<close>

definition plain_write :: "string \<times> int \<times> byte list \<Rightarrow> file_system \<Rightarrow> file_system" where
  "plain_write = (\<lambda>(p, off, data) disk. disk(p \<mapsto> write_at (file_content disk p) (nat off) data))"

definition whole_blocks :: "string \<times> int \<times> byte list \<Rightarrow> bool" where
  "whole_blocks = (\<lambda>(p, off, data). off mod 4096 = 0 \<and> length data mod 4096 = 0)"

lemma padded_whole: "whole_blocks w \<Longrightarrow> padded_write w = plain_write w"
proof (cases w)
  case (fields p off data)
  assume "whole_blocks w"
  then have w: "off mod 4096 = 0" "length data mod 4096 = 0" using fields by (simp_all add: whole_blocks_def)
  obtain q where q: "length data = 4096 * q" using w(2) by (auto simp: mod_eq_0_iff_dvd)
  have "(4096 * q + 4095) div 4096 = q" by simp
  then have "aligned_len (length data) = length data" unfolding aligned_len_eq q by simp
  moreover have "offset_diff off = 0" using w(1) by (simp add: offset_diff_eq)
  moreover have "aligned_offset off = off" using w(1) by (simp add: aligned_offset_eq) (metis add.right_neutral div_mult_mod_eq)
  ultimately show ?thesis using fields by (simp add: padded_write_def plain_write_def ring_buffer_def)
qed

text \<open>C7: Writes of whole blocks reach the files as if they were made one after the other. This is so in every run in which
every write is not empty, fits the blocks it takes and starts at no negative offset, no write overlaps a request still in flight to the
same file, and the kernel writes every request fully; the kernel may complete the requests in any order, during later writes or
between them, and they may be reaped at any time. Once nothing is in flight, each byte of each file is the one the writes made in
order leave.\<close>

theorem ring_whole_blocks_exact:
  assumes "ring_run disk ws st" "list_all whole_blocks ws" "rs_inflight st = []"
  shows "byte_at (file_content (rs_disk st) p) y = byte_at (file_content (fold plain_write ws disk) p) y"
proof -
  have "fold padded_write ws disk = fold plain_write ws disk"
    using assms(2) by (intro fold_cong refl) (simp add: list_all_iff padded_whole)
  moreover have "file_view st p y = byte_at (file_content (rs_disk st) p) y" using assms(3) by (simp add: file_view_def)
  ultimately show ?thesis using ring_run_view [OF assms(1)] by metis
qed

text \<open>C8: A write that is not of whole blocks overwrites its neighbours: let the data fit the blocks that are taken for it (its
distance from the start of its first block and its length together, \<open>write_fits\<close>), and let it be the last write of a run as in C7,
with no overlap with requests in flight and every request written fully. Once nothing is in flight, every byte of the blocks
written that is not a byte of the data, before or behind it, is zero in the file, whatever the file held there.\<close>

theorem ring_write_zeroes:
  assumes "ring_run disk (ws @ [(p, off, data)]) st" "write_fits off data" "0 \<le> off" "rs_inflight st = []"
    and "nat (aligned_offset off) \<le> y" "y < nat (aligned_offset off) + aligned_len (length data)" "\<not> (off \<le> int y \<and> int y < off + int (length data))"
  shows "byte_at (file_content (rs_disk st) p) y = 0"
proof -
  let ?a = "nat (aligned_offset off)"
  have "off mod 4096 < 4096" "0 \<le> off mod 4096" by simp_all
  moreover have "aligned_offset off + off mod 4096 = off" "0 \<le> aligned_offset off" using assms(3) by (simp_all add: aligned_offset_eq)
  ultimately have o: "int (?a + offset_diff off) = off" by (simp add: offset_diff_eq)
  have "file_view st p y = byte_at (file_content (rs_disk st) p) y" using assms(4) by (simp add: file_view_def)
  then have "byte_at (file_content (rs_disk st) p) y = byte_at (file_content (fold padded_write (ws @ [(p, off, data)]) disk) p) y"
    using ring_run_view [OF assms(1)] by metis
  also have "\<dots> = ring_buffer off data ! (y - ?a)"
    using assms(5,6) length_ring_buffer [OF assms(2)] by (simp add: padded_write_at)
  also have "\<dots> = 0"
  proof -
    have c: "y - ?a < offset_diff off \<or> offset_diff off + length data \<le> y - ?a" using assms(5,7) o by linarith
    show ?thesis using c
    proof
      assume "y - ?a < offset_diff off"
      then show ?thesis by (simp add: ring_buffer_def Let_def nth_append)
    next
      assume d: "offset_diff off + length data \<le> y - ?a"
      moreover have "y - ?a - offset_diff off - length data < aligned_len (length data) - (offset_diff off + length data)"
        using assms(5,6) d by linarith
      moreover have "\<not> y - (?a + offset_diff off) < length data" using d by linarith
      ultimately show ?thesis by (simp add: ring_buffer_def Let_def nth_append)
    qed
  qed
  finally show ?thesis .
qed

subsection \<open>Blocks that never come back\<close>

lemma writeData_Done_if:
  assumes "reserve_blocks waits (aligned_len (length data) div IO_BLOCK_SIZE) (IORing_checkUringCompletions st) = Done (st1, i)"
    and "aligned_len (length data) div IO_BLOCK_SIZE \<le> NUM_BLOCKS" "offset_diff off + length data \<le> aligned_len (length data)"
  shows "IORing_writeData waits file data off st
    = Done (st1\<lparr>rs_pool := fill_buffer (rs_pool st1) (i * IO_BLOCK_SIZE) (offset_diff off) data,
                rs_inflight := rs_inflight st1
                  @ [\<lparr>sq_file = file, sq_index = i, sq_length = aligned_len (length data), sq_offset = aligned_offset off\<rparr>]\<rparr>)"
proof -
  let ?need = "aligned_len (length data) div IO_BLOCK_SIZE"
  have "i + ?need \<le> NUM_BLOCKS" by (rule reserve_Done [OF assms(1,2)])
  then have "(i + ?need) * IO_BLOCK_SIZE \<le> NUM_BLOCKS * IO_BLOCK_SIZE" by (rule mult_le_mono1)
  moreover have "NUM_BLOCKS * IO_BLOCK_SIZE = POOL_SIZE" by (simp add: NUM_BLOCKS_def POOL_SIZE_def IO_BLOCK_SIZE_def)
  ultimately have "i * IO_BLOCK_SIZE + aligned_len (length data) \<le> POOL_SIZE"
    using blocks_of_len(2) [of "length data"] by (simp add: add_mult_distrib)
  then show ?thesis using assms by (simp add: IORing_writeData_def Let_def)
qed

definition leaked :: "nat \<Rightarrow> nat \<Rightarrow> nat \<Rightarrow> bool" where
  "leaked k n x \<longleftrightarrow> x < n * k \<and> x mod k \<noteq> 0"

lemma leaked_next:
  assumes "2 \<le> k" "j < n * k"
  shows "leaked k n j \<or> leaked k n (Suc j)"
proof (cases "j mod k = 0")
  case True
  obtain q where q: "j = k * q" using True by (auto simp: mod_eq_0_iff_dvd)
  then have "q < n" using assms(2) by (simp add: mult.commute)
  then have "Suc q * k \<le> n * k" by (intro mult_le_mono1) simp
  then have "Suc j < n * k" using q assms(1) by (simp add: mult.commute)
  moreover have "Suc j mod k = 1" using q assms(1) by (simp add: mod_Suc)
  ultimately show ?thesis by (simp add: leaked_def)
next
  case False
  then show ?thesis using assms(2) by (simp add: leaked_def)
qed

lemma leaked_step:
  assumes "2 \<le> k"
  shows "((n * k \<le> x \<and> x < n * k + k \<or> leaked k n x) \<and> x \<noteq> n * k) = leaked k (Suc n) x"
proof (cases "n * k \<le> x \<and> x < n * k + k")
  case True
  then obtain r where r: "x = n * k + r" using le_Suc_ex by blast
  then have "x mod k = x - n * k" using True by simp
  then show ?thesis using True by (auto simp: leaked_def)
next
  case False
  then show ?thesis using assms by (auto simp: leaked_def)
qed

text \<open>A write that is completed and reaped before the next one.\<close>

fun ring_cycles :: "(string \<times> int \<times> byte list) list \<Rightarrow> ring_state \<Rightarrow> ring_state outcome" where
  "ring_cycles [] st = Done st"
| "ring_cycles ((p, off, data) # ws) st =
     (case IORing_writeData [] (Some p) data off st of
        Done st1 \<Rightarrow> ring_cycles ws (IORing_checkUringCompletions (kernel_complete 0 (Some (aligned_len (length data))) st1))
      | r \<Rightarrow> r)"

lemma ring_cycles_leak:
  assumes "2 \<le> k"
  shows "list_all (\<lambda>(p, off, data). write_fits off data \<and> aligned_len (length data) div IO_BLOCK_SIZE = k) ws \<Longrightarrow>
    (n + length ws) * k \<le> NUM_BLOCKS \<Longrightarrow> rs_used st = leaked k n \<Longrightarrow> rs_inflight st = [] \<Longrightarrow> rs_completions st = [] \<Longrightarrow>
    \<exists>st'. ring_cycles ws st = Done st' \<and> rs_used st' = leaked k (n + length ws) \<and> rs_inflight st' = [] \<and> rs_completions st' = []"
proof (induction ws arbitrary: n st)
  case (Cons w ws)
  obtain p off data where w: "w = (p, off, data)" by (cases w) auto
  have f: "write_fits off data" "aligned_len (length data) div IO_BLOCK_SIZE = k" using Cons.prems(1) w by simp_all
  have kN: "Suc n * k \<le> NUM_BLOCKS" using Cons.prems(2) by (rule order_trans [rotated]) (intro mult_le_mono1, simp)
  let ?st = "IORing_checkUringCompletions st"
  have u: "rs_used ?st = leaked k n" using Cons.prems(3,5) by (auto simp: fun_eq_iff)
  have "find_free (leaked k n) k 0 (Suc (NUM_BLOCKS - k)) = Some (0 + n * k)"
  proof (rule find_free_first)
    show "\<not> leaked k n x" if "0 + n * k \<le> x" "x < 0 + n * k + k" for x using that by (simp add: leaked_def)
    show "n * k < Suc (NUM_BLOCKS - k)" using kN by simp
    show "\<exists>x. j \<le> x \<and> x < j + k \<and> leaked k n x" if "0 \<le> j" "j < 0 + n * k" for j
      using leaked_next [OF assms, of j n] that assms by (auto intro: exI [of _ j] exI [of _ "Suc j"])
  qed
  then have r: "reserve_blocks [] (aligned_len (length data) div IO_BLOCK_SIZE) ?st
      = Done (?st\<lparr>rs_used := (\<lambda>x. n * k \<le> x \<and> x < n * k + k \<or> rs_used ?st x)\<rparr>, n * k)"
    by (simp add: reserve_blocks.simps u f(2))
  have fit: "offset_diff off + length data \<le> aligned_len (length data)" using f(1) by (simp add: write_fits_def)
  have need: "aligned_len (length data) div IO_BLOCK_SIZE \<le> NUM_BLOCKS" using kN f(2) by simp
  note d = writeData_Done_if [OF r need fit, of "Some p"]
  let ?st1 = "?st\<lparr>rs_used := (\<lambda>x. n * k \<le> x \<and> x < n * k + k \<or> rs_used ?st x),
      rs_pool := fill_buffer (rs_pool ?st) (n * k * IO_BLOCK_SIZE) (offset_diff off) data,
      rs_inflight := [\<lparr>sq_file = Some p, sq_index = n * k, sq_length = aligned_len (length data), sq_offset = aligned_offset off\<rparr>]\<rparr>"
  let ?st2 = "IORing_checkUringCompletions (kernel_complete 0 (Some (aligned_len (length data))) ?st1)"
  have c: "ring_cycles (w # ws) st = ring_cycles ws ?st2" unfolding w ring_cycles.simps d by (simp add: Cons.prems(4))
  have "rs_used ?st2 = leaked k (Suc n)"
    using leaked_step [OF assms, of n] u Cons.prems(5) by (simp add: fun_eq_iff)
  moreover have "rs_inflight ?st2 = []" "rs_completions ?st2 = []" by simp_all
  moreover have "list_all (\<lambda>(p, off, data). write_fits off data \<and> aligned_len (length data) div IO_BLOCK_SIZE = k) ws"
    "(Suc n + length ws) * k \<le> NUM_BLOCKS" using Cons.prems(1,2) by simp_all
  ultimately have "\<exists>st'. ring_cycles ws ?st2 = Done st' \<and> rs_used st' = leaked k (Suc n + length ws) \<and> rs_inflight st' = [] \<and> rs_completions st' = []"
    by (intro Cons.IH)
  then show ?case unfolding c by (simp only: list.size add_Suc add_Suc_right add_0_right One_nat_def add.right_neutral)
qed simp


lemma kernel_run_idle: "rs_inflight st = [] \<Longrightarrow> kernel_run ks st = st"
proof (induction ks)
  case (Cons a ks)
  obtain k res where "a = (k, res)" by fastforce
  moreover have "kernel_complete k res st = st" for k res using Cons.prems by (simp add: kernel_complete_def)
  ultimately show ?case using Cons by simp
qed simp

lemma reserve_never:
  assumes "find_free (rs_used st) need 0 (Suc (NUM_BLOCKS - need)) = None" "rs_inflight st = []" "rs_completions st = []"
  shows "reserve_blocks waits need st = Waits"
  using assms by (subst reserve_blocks.simps) (simp add: kernel_run_idle Let_def split: list.split)

text \<open>C6: The pool leaks: only the first block of a completed request is given back. After writes of \<open>k\<close> blocks
each, \<open>k\<close> at least two, that together are as long as the pool, with every request completed without
error and reaped before the next, nothing is in flight any more, and yet no write of more than one
block ever returns again: it waits for a completion that cannot come.\<close>

theorem ring_leaks_blocks:
  assumes "2 \<le> k" "length ws * k = NUM_BLOCKS"
    and "list_all (\<lambda>(p, off, data). write_fits off data \<and> aligned_len (length data) div IO_BLOCK_SIZE = k) ws"
  shows "\<exists>st. ring_cycles ws (IORing_initializePool disk) = Done st \<and> rs_inflight st = []
    \<and> (\<forall>waits file data off. IO_BLOCK_SIZE < length data \<longrightarrow> length data \<le> POOL_SIZE \<longrightarrow> IORing_writeData waits file data off st = Waits)"
proof -
  let ?i = "IORing_initializePool disk"
  have i: "rs_used ?i = leaked k 0" "rs_inflight ?i = []" "rs_completions ?i = []"
    by (simp_all add: IORing_initializePool_def leaked_def fun_eq_iff)
  have "(0 + length ws) * k \<le> NUM_BLOCKS" using assms(2) by simp
  from ring_cycles_leak [OF assms(1,3) this i] obtain st where st: "ring_cycles ws ?i = Done st" "rs_used st = leaked k (length ws)"
    "rs_inflight st = []" "rs_completions st = []" by auto
  have "IORing_writeData waits f data off st = Waits" if l: "IO_BLOCK_SIZE < length data" "length data \<le> POOL_SIZE" for waits f data off
  proof -
    let ?need = "aligned_len (length data) div IO_BLOCK_SIZE"
    have n2: "2 \<le> ?need" using l(1) unfolding blocks_of_len(1) by (simp add: IO_BLOCK_SIZE_def less_eq_div_iff_mult_less_eq)
    have nN: "?need \<le> NUM_BLOCKS"
    proof -
      have "(length data + 4095) div 4096 \<le> (POOL_SIZE + 4095) div 4096" using l(2) by (intro div_le_mono) simp
      then show ?thesis unfolding blocks_of_len(1) by (simp add: NUM_BLOCKS_def POOL_SIZE_def IO_BLOCK_SIZE_def)
    qed
    have u: "rs_used (IORing_checkUringCompletions st) = leaked k (length ws)" using st(2,4) by (auto simp: fun_eq_iff)
    have "find_free (leaked k (length ws)) ?need 0 (Suc (NUM_BLOCKS - ?need)) = None"
      unfolding find_free_None
    proof (intro allI impI)
      fix j assume "0 \<le> j \<and> j < 0 + Suc (NUM_BLOCKS - ?need)"
      then have "j < length ws * k" using n2 nN assms(2) by linarith
      then show "\<exists>x. j \<le> x \<and> x < j + ?need \<and> leaked k (length ws) x"
        using leaked_next [OF assms(1), of j "length ws"] n2 by (auto intro: exI [of _ j] exI [of _ "Suc j"])
    qed
    then have "reserve_blocks waits ?need (IORing_checkUringCompletions st) = Waits"
      by (intro reserve_never) (simp_all only: u check_simps st(3))
    then show ?thesis using nN by (simp add: IORing_writeData_def Let_def)
  qed
  then show ?thesis using st(1,3) by blast
qed

text \<open>12800 writes of 16 KiB, the size of a block of a piece, are 200 MiB.\<close>

theorem ring_leaks_blocks_witness:
  "\<exists>st. ring_cycles (replicate 12800 (''f'', 0, replicate 16384 0)) (IORing_initializePool Map.empty) = Done st
    \<and> IORing_writeData [] (Some ''f'') (replicate 16384 1) 0 st = Waits"
proof -
  have a: "aligned_len 16384 = 16384" by (simp add: aligned_len_eq)
  have w: "write_fits 0 (replicate 16384 0)" by (simp add: write_fits_def offset_diff_eq a)
  have "list_all (\<lambda>(p, off, data). write_fits off data \<and> aligned_len (length data) div IO_BLOCK_SIZE = 4)
      (replicate 12800 (''f'', 0, replicate 16384 0))"
    using w by (auto simp: list_all_iff a IO_BLOCK_SIZE_def)
  moreover have "length (replicate 12800 (''f'', 0 :: int, replicate 16384 (0 :: byte))) * 4 = NUM_BLOCKS"
    by (simp add: NUM_BLOCKS_def POOL_SIZE_def IO_BLOCK_SIZE_def)
  ultimately obtain st where "ring_cycles (replicate 12800 (''f'', 0, replicate 16384 0)) (IORing_initializePool Map.empty) = Done st"
    "\<And>waits file data off. IO_BLOCK_SIZE < length data \<Longrightarrow> length data \<le> POOL_SIZE \<Longrightarrow> IORing_writeData waits file data off st = Waits"
    using ring_leaks_blocks [of 4 "replicate 12800 (''f'', 0, replicate 16384 0)" Map.empty] by auto
  then show ?thesis by (intro exI [of _ st]) (simp add: IO_BLOCK_SIZE_def POOL_SIZE_def)
qed

subsection \<open>Writes of one block\<close>

inductive single_reach :: "file_system \<Rightarrow> ring_state \<Rightarrow> bool" for disk where
  start: "single_reach disk (IORing_initializePool disk)"
| written: "single_reach disk st \<Longrightarrow> write_fits off data \<Longrightarrow> length data \<le> IO_BLOCK_SIZE \<Longrightarrow>
    IORing_writeData waits f data off st = Done st' \<Longrightarrow> single_reach disk st'"
| completed: "single_reach disk st \<Longrightarrow> single_reach disk (kernel_complete k res st)"
| reaped: "single_reach disk st \<Longrightarrow> single_reach disk (IORing_checkUringCompletions st)"

definition single_inv :: "ring_state \<Rightarrow> bool" where
  "single_inv st \<longleftrightarrow> ring_inv st \<and> list_all (\<lambda>s. sq_length s = IO_BLOCK_SIZE) (rs_inflight st)
     \<and> (\<forall>x. rs_used st x \<longrightarrow> x \<in> set (rs_completions st) \<or> x \<in> sq_index ` set (rs_inflight st))"

lemma single_inv_check: "single_inv st \<Longrightarrow> single_inv (IORing_checkUringCompletions st)"
  by (auto simp: single_inv_def ring_inv_check)

lemma single_inv_kernel:
  assumes "single_inv st"
  shows "single_inv (kernel_complete k res st)"
proof (cases "k < length (rs_inflight st)")
  case True
  have d: "rs_inflight st = take k (rs_inflight st) @ rs_inflight st ! k # drop (Suc k) (rs_inflight st)" by (rule id_take_nth_drop [OF True])
  have "set (rs_inflight st) = insert (rs_inflight st ! k) (set (take k (rs_inflight st)) \<union> set (drop (Suc k) (rs_inflight st)))"
    using arg_cong [OF d, of set] by simp
  then show ?thesis using assms True kernel_sub [of k res st] by (auto simp: single_inv_def ring_inv_kernel list_all_iff)
next
  case False
  then have "kernel_complete k res st = st" by (simp add: kernel_complete_def)
  then show ?thesis using assms by simp
qed

lemma single_inv_waits: "single_inv st \<Longrightarrow> single_inv (fold (\<lambda>ks st. IORing_checkUringCompletions (kernel_run ks st)) kss st)"
proof (induction kss arbitrary: st)
  case (Cons ks kss)
  have "single_inv (kernel_run ks st)" if "single_inv st" for st using that
    by (induction ks arbitrary: st) (auto simp: kernel_run_def single_inv_kernel)
  then show ?case using Cons by (simp add: single_inv_check)
qed simp

lemma single_len: "write_fits off data \<Longrightarrow> length data \<le> IO_BLOCK_SIZE \<Longrightarrow> aligned_len (length data) = IO_BLOCK_SIZE"
proof -
  assume "write_fits off data" "length data \<le> IO_BLOCK_SIZE"
  then have "0 < length data" "length data \<le> 4096" by (simp_all add: write_fits_def IO_BLOCK_SIZE_def)
  then obtain n where "length data = Suc n" "n < 4096" by (cases "length data") auto
  then have "(length data + 4095) div 4096 = 1" by simp
  then show ?thesis by (simp add: aligned_len_eq IO_BLOCK_SIZE_def)
qed

lemma single_reach_inv: "single_reach disk st \<Longrightarrow> single_inv st"
proof (induction rule: single_reach.induct)
  case start
  show ?case using ring_inv_start [of disk] by (simp add: single_inv_def IORing_initializePool_def)
next
  case (written st off data waits f st')
  have ring: "ring_inv st" using written.IH by (simp add: single_inv_def)
  obtain kss st0 s where k: "st0 = fold (\<lambda>ks st. IORing_checkUringCompletions (kernel_run ks st)) kss (IORing_checkUringCompletions st)"
    "rs_inflight st' = rs_inflight st0 @ [s]" "rs_completions st' = rs_completions st0"
    "s = \<lparr>sq_file = f, sq_index = sq_index s, sq_length = aligned_len (length data), sq_offset = aligned_offset off\<rparr>"
    "\<And>x. rs_used st' x \<longleftrightarrow> x \<in> blocks s \<or> rs_used st0 x" "ring_inv st'"
    by (rule writeData_Done [OF written.hyps(4) ring written.hyps(2)]) (rule that)
  have i0: "single_inv st0" unfolding k(1) by (rule single_inv_waits [OF single_inv_check [OF written.IH]])
  have ls: "sq_length s = IO_BLOCK_SIZE" by (subst k(4)) (simp add: single_len [OF written.hyps(2,3)])
  then have "blocks s = {sq_index s}" by (auto simp: blocks_def IO_BLOCK_SIZE_def)
  then show ?case using i0 k(2,3,5,6) ls by (auto simp: single_inv_def)
qed (simp_all add: single_inv_check single_inv_kernel)

text \<open>C11: Writes of at most one block do not leak: in every state such writes reach, the next one returns as soon as
the kernel completes one request in flight, whichever it is, with or without an error, if it has to wait at all.\<close>

theorem ring_single_blocks_live:
  assumes "single_reach disk st" "write_fits off data" "length data \<le> IO_BLOCK_SIZE"
    and "rs_inflight st = [] \<or> j < length (rs_inflight st)"
  shows "\<exists>st'. IORing_writeData ([(j, res)] # waits) file data off st = Done st'"
proof -
  let ?st = "IORing_checkUringCompletions st"
  have inv: "single_inv ?st" by (rule single_inv_check [OF single_reach_inv [OF assms(1)]])
  have need: "aligned_len (length data) div IO_BLOCK_SIZE = 1" using single_len [OF assms(2,3)] by (simp add: IO_BLOCK_SIZE_def)
  have N: "NUM_BLOCKS = 51200" by (simp add: NUM_BLOCKS_def POOL_SIZE_def IO_BLOCK_SIZE_def)
  have "\<exists>st1 i. reserve_blocks ([(j, res)] # waits) 1 ?st = Done (st1, i)"
  proof (cases "find_free (rs_used ?st) 1 0 (Suc (NUM_BLOCKS - 1))")
    case (Some i)
    then show ?thesis by (subst reserve_blocks.simps) simp
  next
    case None
    then have "\<exists>x. 0 \<le> x \<and> x < 0 + 1 \<and> rs_used ?st x" unfolding find_free_None using N by (auto dest: spec [of _ 0])
    then have "rs_used ?st 0" by auto
    then have ne: "j < length (rs_inflight ?st)" using inv assms(4) by (auto simp: single_inv_def)
    let ?s = "rs_inflight ?st ! j" and ?st1 = "kernel_run [(j, res)] ?st"
    have c: "rs_completions ?st1 = [sq_index ?s]" using ne by simp
    have sok: "sqe_ok ?s" using inv ne by (auto simp: single_inv_def ring_inv_def list_all_iff)
    then have "sq_index ?s * IO_BLOCK_SIZE < POOL_SIZE" by (auto simp: sqe_ok_def)
    then have iN: "sq_index ?s < NUM_BLOCKS" unfolding NUM_BLOCKS_def by (simp add: IO_BLOCK_SIZE_def POOL_SIZE_def)
    have "\<not> rs_used (IORing_checkUringCompletions ?st1) (sq_index ?s)" using c by simp
    then have "find_free (rs_used (IORing_checkUringCompletions ?st1)) 1 0 (Suc (NUM_BLOCKS - 1)) \<noteq> None"
      unfolding find_free_None using iN N by (auto intro!: exI [of _ "sq_index ?s"] simp: less_Suc_eq)
    then obtain i where i: "find_free (rs_used (IORing_checkUringCompletions ?st1)) 1 0 (Suc (NUM_BLOCKS - 1)) = Some i" by blast
    have "\<exists>st1 j. reserve_blocks waits 1 (IORing_checkUringCompletions ?st1) = Done (st1, j)"
      by (subst reserve_blocks.simps) (simp only: i option.case, blast)
    then show ?thesis unfolding reserve_blocks.simps [of _ _ ?st] None using c by (simp only: option.case list.case Let_def) simp
  qed
  then obtain st1 i where r: "reserve_blocks ([(j, res)] # waits) (aligned_len (length data) div IO_BLOCK_SIZE) ?st = Done (st1, i)" unfolding need by blast
  have "aligned_len (length data) div IO_BLOCK_SIZE \<le> NUM_BLOCKS" unfolding need N by simp
  from writeData_Done_if [OF r this] show ?thesis using assms(2) by (simp add: write_fits_def)
qed


subsection \<open>Examples\<close>

lemma first_write:
  assumes "write_fits off data" "length data \<le> POOL_SIZE"
  obtains st' s where "IORing_writeData [] f data off (IORing_initializePool disk) = Done st'" "rs_inflight st' = [s]"
proof -
  let ?i = "IORing_checkUringCompletions (IORing_initializePool disk)" and ?need = "aligned_len (length data) div IO_BLOCK_SIZE"
  have "(length data + 4095) div 4096 \<le> (POOL_SIZE + 4095) div 4096" using assms(2) by (intro div_le_mono) simp
  then have nN: "?need \<le> NUM_BLOCKS" unfolding blocks_of_len(1) by (simp add: NUM_BLOCKS_def POOL_SIZE_def IO_BLOCK_SIZE_def)
  have u: "rs_used ?i = (\<lambda>x. False)" by (auto simp: IORing_initializePool_def fun_eq_iff)
  have "find_free (rs_used ?i) ?need 0 (Suc (NUM_BLOCKS - ?need)) = Some 0" unfolding u by (simp add: list_all_iff)
  then have r: "reserve_blocks [] ?need ?i = Done (?i\<lparr>rs_used := (\<lambda>x. 0 \<le> x \<and> x < 0 + ?need \<or> rs_used ?i x)\<rparr>, 0)"
    by (simp add: reserve_blocks.simps)
  show thesis by (rule that [OF writeData_Done_if [OF r nN]]) (use assms(1) in \<open>simp_all add: write_fits_def IORing_initializePool_def\<close>)
qed

lemma one_write_run:
  assumes "write_fits off data" "length data \<le> POOL_SIZE" "0 \<le> off"
  obtains st where "ring_run disk [(p, off, data)] st" "rs_inflight st = []"
proof -
  obtain st' s where w: "IORing_writeData [] (Some p) data off (IORing_initializePool disk) = Done st'" "rs_inflight st' = [s]"
    by (rule first_write [OF assms(1,2)])
  have "ring_run disk ([] @ [(p, off, data)]) st'"
    by (rule ring_run.written [OF ring_run.start assms(1,3) _ _ w(1)]) (simp_all add: IORing_initializePool_def)
  then have "ring_run disk [(p, off, data)] (kernel_complete 0 (Some POOL_SIZE) st')"
    by (intro ring_run.completed) (simp_all add: full_write_def)
  then show thesis by (rule that) (simp add: w(2))
qed


theorem ring_whole_blocks_exact_witness:
  "\<exists>st. ring_run Map.empty [(''f'', 4096, replicate 4096 1)] st
     \<and> byte_at (file_content (rs_disk st) ''f'') 4095 = 0 \<and> byte_at (file_content (rs_disk st) ''f'') 4096 = 1"
proof -
  have f: "write_fits 4096 (replicate 4096 1)" "length (replicate 4096 (1 :: byte)) \<le> POOL_SIZE" "(0 :: int) \<le> 4096"
    by (simp_all add: write_fits_def offset_diff_eq aligned_len_eq POOL_SIZE_def)
  obtain st where st: "ring_run Map.empty [(''f'', 4096, replicate 4096 1)] st" "rs_inflight st = []" by (rule one_write_run [OF f])
  have "list_all whole_blocks [(''f'', 4096, replicate 4096 1)]" by (simp add: whole_blocks_def)
  from ring_whole_blocks_exact [OF st(1) this st(2), of "''f''"] show ?thesis
    using st(1) by (intro exI [of _ st]) (simp add: plain_write_def file_content_def byte_at_write byte_at_def [of "[]"])
qed

theorem ring_write_zeroes_witness:
  "\<exists>st. ring_run [''f'' \<mapsto> [9, 9, 9]] ([] @ [(''f'', 1, [7])]) st \<and> byte_at (file_content (rs_disk st) ''f'') 0 = 0
     \<and> byte_at (file_content (rs_disk st) ''f'') 2 = 0"
proof -
  have f: "write_fits 1 [7]" "length [7 :: byte] \<le> POOL_SIZE" "(0 :: int) \<le> 1"
    by (simp_all add: write_fits_def offset_diff_eq aligned_len_eq POOL_SIZE_def)
  obtain st where st: "ring_run [''f'' \<mapsto> [9, 9, 9]] ([] @ [(''f'', 1, [7])]) st" "rs_inflight st = []"
    using one_write_run [OF f, of "[''f'' \<mapsto> [9, 9, 9]]" "''f''"] by (metis append_Nil)
  have r: "aligned_offset 1 = 0" "aligned_len (length [7 :: byte]) = 4096" by (simp_all add: aligned_offset_eq aligned_len_eq)
  have "byte_at (file_content (rs_disk st) ''f'') 0 = 0"
    by (rule ring_write_zeroes [OF st(1) f(1,3) st(2)]) (simp_all only: r, simp_all)
  moreover have "byte_at (file_content (rs_disk st) ''f'') 2 = 0"
    by (rule ring_write_zeroes [OF st(1) f(1,3) st(2)]) (simp_all only: r, simp_all)
  ultimately show ?thesis using st(1) by blast
qed

text \<open>Two writes are in flight, and the kernel completes the later one.\<close>

theorem ring_single_blocks_live_witness:
  "\<exists>st1 st2 st'. IORing_writeData [] (Some ''f'') [7] 5 (IORing_initializePool Map.empty) = Done st1
     \<and> IORing_writeData [] (Some ''g'') [8] 0 st1 = Done st2 \<and> length (rs_inflight st2) = 2
     \<and> IORing_writeData ([(1, None)] # []) (Some ''f'') [9] 5000 st2 = Done st'"
proof -
  have f: "write_fits 5 [7]" "write_fits 0 [8]" "write_fits 5000 [9]" "length [b :: byte] \<le> IO_BLOCK_SIZE" for b
    by (simp_all add: write_fits_def offset_diff_eq aligned_len_eq IO_BLOCK_SIZE_def)
  have one: "\<exists>st'. IORing_writeData [] fl data off st = Done st' \<and> rs_used st' = (\<lambda>x. x = i \<or> rs_used st x)
      \<and> length (rs_inflight st') = Suc (length (rs_inflight st)) \<and> rs_completions st' = []"
    if w: "write_fits off data" "length data \<le> IO_BLOCK_SIZE" and c: "rs_completions st = []"
      and u: "find_free (rs_used st) 1 0 (Suc (NUM_BLOCKS - 1)) = Some i" for fl data off st i
  proof -
    have n: "aligned_len (length data) div IO_BLOCK_SIZE = 1" using single_len [OF w] by (simp add: IO_BLOCK_SIZE_def)
    let ?st = "IORing_checkUringCompletions st"
    have us: "rs_used ?st = rs_used st" using c by (simp add: fun_eq_iff)
    have "reserve_blocks [] (aligned_len (length data) div IO_BLOCK_SIZE) ?st = Done (?st\<lparr>rs_used := (\<lambda>x. i \<le> x \<and> x < i + 1 \<or> rs_used ?st x)\<rparr>, i)"
      unfolding n reserve_blocks.simps [of _ _ ?st] us u option.case ..
    from writeData_Done_if [OF this, of off fl] w(1) n show ?thesis
      using c by (auto simp: write_fits_def fun_eq_iff NUM_BLOCKS_def POOL_SIZE_def IO_BLOCK_SIZE_def)
  qed
  let ?i = "IORing_initializePool Map.empty"
  have i: "rs_completions ?i = []" "rs_used ?i = (\<lambda>_. False)" "rs_inflight ?i = []" by (simp_all add: IORing_initializePool_def fun_eq_iff)
  obtain st1 where s1: "IORing_writeData [] (Some ''f'') [7] 5 ?i = Done st1" "rs_used st1 = (\<lambda>x. x = 0)" "length (rs_inflight st1) = 1" "rs_completions st1 = []"
    using one [OF f(1,4) i(1), of 0 "Some ''f''"] i by auto
  have "find_free (\<lambda>x. x = 0) 1 0 (Suc (NUM_BLOCKS - 1)) = Some (0 + 1)"
    by (rule find_free_first) (auto simp: NUM_BLOCKS_def POOL_SIZE_def IO_BLOCK_SIZE_def)
  then have "find_free (rs_used st1) 1 0 (Suc (NUM_BLOCKS - 1)) = Some 1" unfolding s1(2) by simp
  from one [OF f(2,4) s1(4) this, of "Some ''g''"] obtain st2 where
    s2: "IORing_writeData [] (Some ''g'') [8] 0 st1 = Done st2" "length (rs_inflight st2) = 2" using s1(3) by auto
  have "single_reach Map.empty st2"
    by (rule single_reach.written [OF single_reach.written [OF single_reach.start f(1,4) s1(1)] f(2,4) s2(1)])
  from ring_single_blocks_live [OF this f(3,4), of 1 None "[]" "Some ''f''"] show ?thesis using s1(1) s2 by auto
qed

text \<open>A read at the end of a file claims all it was asked for.\<close>

lemma ring_read_claims_more:
  "IORing_readData slow_env False [''f'' \<mapsto> [9]] ''f'' 10 0 = Done (10, [9])"
  by (simp add: IORing_readData_def slow_env_def aligned_len_eq aligned_offset_eq offset_diff_eq file_content_def)

text \<open>A read does not wait for the requests in flight: right after a write it gives what the file held before.\<close>

lemma read_misses_write:
  assumes "IORing_writeData [] f data off st = Done st'"
  shows "IORing_readData env fails (rs_disk st') p len x = IORing_readData env fails (rs_disk st) p len x"
proof -
  have "rs_disk st' = rs_disk st"
    using assms by (auto simp: IORing_writeData_def reserve_blocks.simps Let_def split: option.splits if_splits)
  then show ?thesis by simp
qed

text \<open>An empty write takes no block, but its completion gives block 0 back.\<close>

lemma empty_write_frees:
  assumes "rs_completions st = []"
  shows "\<exists>st'. IORing_writeData [] (Some p) [] 0 st = Done st' \<and> rs_used st' = rs_used st
    \<and> \<not> rs_used (IORing_checkUringCompletions (kernel_complete (length (rs_inflight st)) (Some 0) st')) 0"
proof -
  let ?st = "IORing_checkUringCompletions st"
  have "reserve_blocks [] (aligned_len (length []) div IO_BLOCK_SIZE) ?st = Done (?st\<lparr>rs_used := (\<lambda>x. 0 \<le> x \<and> x < 0 + 0 \<or> rs_used ?st x)\<rparr>, 0)"
    by (simp add: reserve_blocks.simps aligned_len_eq)
  from writeData_Done_if [OF this, of "0" "Some p"] show ?thesis
    using assms by (simp add: aligned_len_eq offset_diff_eq fun_eq_iff)
qed


text \<open>A writer with the padded writes of this one does not keep the contract of the disk adaptor.\<close>

lemma padded_writer_not_good:
  assumes "\<And>disk e d off. de_fd e = Some True \<Longrightarrow> dw_writeData w disk e d off = (padded_write (de_path e, off, d) disk, None)"
  shows "\<not> good_writer w"
proof
  assume good: "good_writer w"
  let ?e = "(createDiskWriterEntry (\<lparr>fe_offset = 0, fe_length = 2, fe_requested = True\<rparr>, ''f''))\<lparr>de_fd := Some True\<rparr>"
  have e: "de_fd ?e = Some True" "de_path ?e = ''f''" by simp_all
  have "padded_write (de_path ?e, 1, [7]) [''f'' \<mapsto> [9]] = [''f'' \<mapsto> [9]](de_path ?e \<mapsto> write_at (file_content [''f'' \<mapsto> [9]] (de_path ?e)) (nat 1) [7])"
    using good_writer.writes [OF good e(1), of 1 "[''f'' \<mapsto> [9]]" "[7]"] assms [OF e(1), of "[''f'' \<mapsto> [9]]" "[7]" 1] by simp
  then have "byte_at (file_content (padded_write (''f'', 1, [7]) [''f'' \<mapsto> [9]]) ''f'') 0
      = byte_at (file_content ([''f'' \<mapsto> [9]](''f'' \<mapsto> write_at (file_content [''f'' \<mapsto> [9]] ''f'') (nat 1) [7])) ''f'') 0"
    unfolding e(2) by (rule arg_cong)
  moreover have "byte_at (file_content (padded_write (''f'', 1, [7]) [''f'' \<mapsto> [9]]) ''f'') 0 = 0"
    by (simp add: padded_write_at aligned_offset_eq ring_buffer_def offset_diff_eq aligned_len_eq nth_append)
  moreover have "byte_at (file_content ([''f'' \<mapsto> [9]](''f'' \<mapsto> write_at (file_content [''f'' \<mapsto> [9]] ''f'') (nat 1) [7])) ''f'') 0 = 9"
    by (simp add: file_content_def byte_at_write) (simp add: byte_at_def)
  ultimately show False by simp
qed

end
