(* ===== verification/Text_Util.thy ===== *)
theory Text_Util
  imports Prelude "HOL-Library.Sublist"
begin

text \<open>
  The functions of \<open>util.cc\<close> and \<open>util.h\<close> on strings: character classes, percent and hex
  encoding, UTF-8, path safety and host name matching. A \<open>std::string\<close> is a list of characters,
  read as unsigned char by \<open>of_char\<close>; for the comparisons of the source, all against ASCII
  characters, signed and unsigned \<open>char\<close> agree.
\<close>

subsection \<open>Character classes\<close>

abbreviation code_of :: "char \<Rightarrow> nat" where
  "code_of c \<equiv> of_char c"

definition char_in :: "char \<Rightarrow> char \<Rightarrow> char \<Rightarrow> bool" where
  "char_in lo hi c \<longleftrightarrow> code_of lo \<le> code_of c \<and> code_of c \<le> code_of hi"

definition util_isAlpha :: "char \<Rightarrow> bool" where
  "util_isAlpha c \<longleftrightarrow> char_in (CHR ''A'') (CHR ''Z'') c \<or> char_in (CHR ''a'') (CHR ''z'') c"

definition util_isDigit :: "char \<Rightarrow> bool" where
  "util_isDigit c \<longleftrightarrow> char_in (CHR ''0'') (CHR ''9'') c"

definition util_isHexDigit :: "char \<Rightarrow> bool" where
  "util_isHexDigit c \<longleftrightarrow> util_isDigit c \<or> char_in (CHR ''A'') (CHR ''F'') c \<or> char_in (CHR ''a'') (CHR ''f'') c"

definition util_isHexDigit_string :: "string \<Rightarrow> bool" where
  "util_isHexDigit_string s \<longleftrightarrow> list_all util_isHexDigit s"

definition util_inRFC3986ReservedChars :: "char \<Rightarrow> bool" where
  "util_inRFC3986ReservedChars c \<longleftrightarrow> c \<in> set '':/?#[]@!$&'' \<or> c = CHR 0x27 \<or> c \<in> set ''()*+,;=''"

definition util_inRFC3986UnreservedChars :: "char \<Rightarrow> bool" where
  "util_inRFC3986UnreservedChars c \<longleftrightarrow> util_isAlpha c \<or> util_isDigit c \<or> c \<in> set ''-._~''"

definition util_inRFC2978MIMECharset :: "char \<Rightarrow> bool" where
  "util_inRFC2978MIMECharset c \<longleftrightarrow> util_isAlpha c \<or> util_isDigit c \<or> c \<in> set ''!#$%&'' \<or> c = CHR 0x27
     \<or> c \<in> set ''+-^_'' \<or> c = CHR 0x60 \<or> c \<in> set ''{}~''"

definition util_inRFC2616HttpToken :: "char \<Rightarrow> bool" where
  "util_inRFC2616HttpToken c \<longleftrightarrow> util_isAlpha c \<or> util_isDigit c \<or> c \<in> set ''!#$%&'' \<or> c = CHR 0x27
     \<or> c \<in> set ''*+-.^_'' \<or> c = CHR 0x60 \<or> c \<in> set ''|~''"

definition util_inRFC5987AttrChar :: "char \<Rightarrow> bool" where
  "util_inRFC5987AttrChar c \<longleftrightarrow> util_inRFC2616HttpToken c \<and> c \<noteq> CHR ''*'' \<and> c \<noteq> CHR 0x27 \<and> c \<noteq> CHR ''%''"

definition util_isIso8859p1 :: "char \<Rightarrow> bool" where
  "util_isIso8859p1 c \<longleftrightarrow> (0x20 \<le> code_of c \<and> code_of c \<le> 0x7e) \<or> 0xa0 \<le> code_of c"

definition util_isLws :: "char \<Rightarrow> bool" where
  "util_isLws c \<longleftrightarrow> c = CHR '' '' \<or> c = CHR 0x09"

definition util_isCRLF :: "char \<Rightarrow> bool" where
  "util_isCRLF c \<longleftrightarrow> c = CHR 0x0D \<or> c = CHR 0x0A"

definition util_inPercentEncodeMini :: "char \<Rightarrow> bool" where
  "util_inPercentEncodeMini c \<longleftrightarrow> 0x20 < code_of c \<and> code_of c < 0x7f \<and> c \<noteq> CHR 0x22 \<and> c \<noteq> CHR ''<'' \<and> c \<noteq> CHR ''>''"

definition util_isNumber :: "string \<Rightarrow> bool" where
  "util_isNumber s \<longleftrightarrow> s \<noteq> [] \<and> list_all util_isDigit s"

definition util_isLowercase :: "string \<Rightarrow> bool" where
  "util_isLowercase s \<longleftrightarrow> s \<noteq> [] \<and> list_all (char_in (CHR ''a'') (CHR ''z'')) s"

definition util_isUppercase :: "string \<Rightarrow> bool" where
  "util_isUppercase s \<longleftrightarrow> s \<noteq> [] \<and> list_all (char_in (CHR ''A'') (CHR ''Z'')) s"

subsection \<open>Percent and hex encoding\<close>

definition util_hexCharToUInt :: "char \<Rightarrow> nat" where
  "util_hexCharToUInt ch =
     (if char_in (CHR ''a'') (CHR ''f'') ch then code_of ch - code_of (CHR ''a'') + 10
      else if char_in (CHR ''A'') (CHR ''F'') ch then code_of ch - code_of (CHR ''A'') + 10
      else if char_in (CHR ''0'') (CHR ''9'') ch then code_of ch - code_of (CHR ''0'')
      else 255)"

text \<open>\<open>fmt("%%%02X", c)\<close>.\<close>

definition percent_hex :: "char \<Rightarrow> string" where
  "percent_hex c = [CHR ''%'', ''0123456789ABCDEF'' ! (code_of c div 16), ''0123456789ABCDEF'' ! (code_of c mod 16)]"

definition percentEncode_bytes :: "string \<Rightarrow> string" where
  "percentEncode_bytes target =
     concat (map (\<lambda>c. if util_inRFC3986UnreservedChars c then [c] else percent_hex c) target)"

definition util_percentEncode :: "string \<Rightarrow> string" where
  "util_percentEncode target =
     (if list_all util_inRFC3986UnreservedChars target then target else percentEncode_bytes target)"

definition util_percentEncodeMini :: "string \<Rightarrow> string" where
  "util_percentEncodeMini src =
     (if list_all util_inPercentEncodeMini src then src
      else concat (map (\<lambda>c. if \<not> util_inPercentEncodeMini c then percent_hex c else [c]) src))"

definition util_torrentPercentEncode :: "string \<Rightarrow> string" where
  "util_torrentPercentEncode target =
     concat (map (\<lambda>c. if util_isAlpha c \<or> util_isDigit c then [c] else percent_hex c) target)"

fun util_percentDecode :: "string \<Rightarrow> string" where
  "util_percentDecode [] = []"
| "util_percentDecode (c # cs) =
     (if c = CHR ''%'' then
        (case cs of
           h # l # cs' \<Rightarrow>
             if util_isHexDigit h \<and> util_isHexDigit l
             then char_of (util_hexCharToUInt h * 16 + util_hexCharToUInt l) # util_percentDecode cs'
             else c # util_percentDecode cs
         | _ \<Rightarrow> c # util_percentDecode cs)
      else c # util_percentDecode cs)"

definition hex_nibble :: "nat \<Rightarrow> char" where
  "hex_nibble n = (if n < 10 then char_of (n + code_of (CHR ''0'')) else char_of (n + (code_of (CHR ''a'') - 10)))"

definition util_toHex :: "string \<Rightarrow> string" where
  "util_toHex src = concat (map (\<lambda>c. [hex_nibble (code_of c div 16), hex_nibble (code_of c mod 16)]) src)"

fun fromHex_loop :: "string \<Rightarrow> string \<Rightarrow> string" where
  "fromHex_loop (h # l # cs) dest =
     (let high = util_hexCharToUInt h; low = util_hexCharToUInt l in
      if high = 255 \<or> low = 255 then [] else fromHex_loop cs (dest @ [char_of (high * 16 + low)]))"
| "fromHex_loop _ dest = dest"

definition util_fromHex :: "string \<Rightarrow> string" where
  "util_fromHex s = (if length s mod 2 \<noteq> 0 then [] else fromHex_loop s [])"

lemma less_16_cases: "(n::nat) < 16 \<longleftrightarrow> n \<in> {0, 1, 2, 3, 4, 5, 6, 7, 8, 9, 10, 11, 12, 13, 14, 15}"
  by (simp, arith)

lemmas hex_defs = util_isHexDigit_def util_isDigit_def char_in_def util_hexCharToUInt_def

lemma hex_upper_digits:
  "n < 16 \<Longrightarrow> util_isHexDigit (''0123456789ABCDEF'' ! n)"
  "n < 16 \<Longrightarrow> util_hexCharToUInt (''0123456789ABCDEF'' ! n) = n"
  by (auto simp: less_16_cases hex_defs)

lemma hex_nibble_value: "n < 16 \<Longrightarrow> util_hexCharToUInt (hex_nibble n) = n"
  by (auto simp: less_16_cases hex_defs hex_nibble_def)

lemma char_nibbles: "char_of (code_of c div 16 * 16 + code_of c mod 16) = c" "code_of c div 16 < 16" "code_of c mod 16 < 16"
  using of_char_of [where ?'a = nat] by (simp_all add: less_mult_imp_div_less)

lemma percentDecode_hex: "util_percentDecode (percent_hex c @ cs) = c # util_percentDecode cs"
  by (simp add: percent_hex_def hex_upper_digits char_nibbles)

lemma percentDecode_concat:
  assumes "\<And>c. P c \<Longrightarrow> c \<noteq> CHR ''%''"
  shows "util_percentDecode (concat (map (\<lambda>c. if P c then [c] else percent_hex c) s)) = s"
  using assms by (induction s) (simp_all add: percentDecode_hex)

lemma percentDecode_plain: "CHR ''%'' \<notin> set s \<Longrightarrow> util_percentDecode s = s"
  by (induction s rule: util_percentDecode.induct) auto

lemma unreserved_not_percent: "util_inRFC3986UnreservedChars c \<Longrightarrow> c \<noteq> CHR ''%''"
  by (auto simp: util_inRFC3986UnreservedChars_def util_isAlpha_def util_isDigit_def char_in_def)

lemma alnum_not_percent: "util_isAlpha c \<or> util_isDigit c \<Longrightarrow> c \<noteq> CHR ''%''"
  by (auto simp: util_isAlpha_def util_isDigit_def char_in_def)

text \<open>Percent encoding is undone by \<open>percentDecode\<close> on every string, for the URI and for the
  tracker variant.\<close>
theorem percent_encoding_roundtrip:
  "util_percentDecode (util_percentEncode s) = s \<and> util_percentDecode (util_torrentPercentEncode s) = s"
  using percentDecode_concat [of util_inRFC3986UnreservedChars s] percentDecode_concat [of "\<lambda>c. util_isAlpha c \<or> util_isDigit c" s]
    unreserved_not_percent alnum_not_percent
  by (auto simp: util_percentEncode_def percentEncode_bytes_def util_torrentPercentEncode_def list_all_iff
      intro!: percentDecode_plain)

lemma nibble_not_255: "code_of c div 16 \<noteq> 255" "code_of c mod 16 \<noteq> 255"
  using char_nibbles(2,3) [of c] by linarith+

lemma fromHex_loop_toHex: "fromHex_loop (util_toHex s) dest = dest @ s"
  by (induction s arbitrary: dest)
    (simp_all add: util_toHex_def hex_nibble_value char_nibbles Let_def nibble_not_255)

lemma length_toHex: "length (util_toHex s) = 2 * length s"
  by (induction s) (simp_all add: util_toHex_def)

lemma hex_roundtrip: "util_fromHex (util_toHex s) = s"
  by (simp add: util_fromHex_def length_toHex fromHex_loop_toHex)

subsection \<open>Searching, replacing, stripping\<close>

definition string_find :: "string \<Rightarrow> string \<Rightarrow> nat option" where
  "string_find pat s = find (\<lambda>i. take (length pat) (drop i s) = pat) [0..<Suc (length s)]"

lemma string_find_SomeD:
  assumes "string_find pat s = Some i"
  shows "i + length pat \<le> length s \<and> s = take i s @ pat @ drop (i + length pat) s"
proof -
  have i: "take (length pat) (drop i s) = pat" "i \<le> length s"
    using assms by (auto simp: string_find_def find_Some_iff less_Suc_eq_le simp del: upt_Suc)
  have "length pat \<le> length s - i" using i(1) by (metis length_drop length_take min.cobounded1 min.absorb_iff2)
  moreover have "drop i s = pat @ drop (i + length pat) s"
    using i(1) by (metis append_take_drop_id drop_drop add.commute)
  ultimately show ?thesis using i(2) append_take_drop_id [of i s] by simp
qed

lemma string_find_iff: "string_find pat s \<noteq> None \<longleftrightarrow> (\<exists>u v. s = u @ pat @ v)"
proof
  assume "string_find pat s \<noteq> None"
  then show "\<exists>u v. s = u @ pat @ v" using string_find_SomeD by blast
next
  assume "\<exists>u v. s = u @ pat @ v"
  then obtain u v where "s = u @ pat @ v" by blast
  then have "take (length pat) (drop (length u) s) = pat" "length u \<in> set [0..<Suc (length s)]" by auto
  then show "string_find pat s \<noteq> None" unfolding string_find_def find_None_iff by blast
qed

lemma string_find_less:
  "old \<noteq> [] \<Longrightarrow> string_find old s = Some k \<Longrightarrow> length s - (k + length old) < length s"
  using string_find_SomeD [of old s k] by (cases old) auto

function replace_loop :: "string \<Rightarrow> string \<Rightarrow> string \<Rightarrow> string" where
  "replace_loop old new s =
     (if old = [] then s
      else case string_find old s of
             None \<Rightarrow> s
           | Some k \<Rightarrow> take k s @ new @ replace_loop old new (drop (k + length old) s))"
  by pat_completeness auto
termination
  by (relation "measure (\<lambda>(old, new, s). length s)") (simp_all add: string_find_less)

declare replace_loop.simps [simp del]

definition util_replace :: "string \<Rightarrow> string \<Rightarrow> string \<Rightarrow> string" where
  "util_replace target oldstr newstr =
     (if target = [] \<or> oldstr = [] then target else replace_loop oldstr newstr target)"

lemma string_find_char:
  "string_find [c] s = (if c \<in> set s then Some (length (takeWhile (\<lambda>x. x \<noteq> c) s)) else None)"
proof (cases "c \<in> set s")
  case True
  then obtain u v where s: "s = u @ c # v" "c \<notin> set u" by (auto dest: split_list_first)
  then have tw: "takeWhile (\<lambda>x. x \<noteq> c) s = u" by (induction u arbitrary: s) auto
  have "take 1 (drop j s) \<noteq> [c]" if "j < length u" for j
    using that s by (auto simp: nth_append take_Suc_conv_app_nth Cons_nth_drop_Suc [symmetric] in_set_conv_nth)
  then have "string_find [c] s = Some (length u)"
    unfolding string_find_def find_Some_iff using s by (intro exI [of _ "length u"]) (simp del: upt_Suc)
  then show ?thesis using True tw by simp
next
  case False
  then have "string_find [c] s = None" using string_find_iff [of "[c]" s] by auto
  then show ?thesis using False by simp
qed

lemma replace_loop_char: "replace_loop [c] new s = concat (map (\<lambda>x. if x = c then new else [x]) s)"
proof (induction "length s" arbitrary: s rule: less_induct)
  case less
  show ?case
  proof (cases "c \<in> set s")
    case True
    then obtain u v where s: "s = u @ c # v" "c \<notin> set u" by (auto dest: split_list_first)
    then have tw: "takeWhile (\<lambda>x. x \<noteq> c) s = u" by (induction u arbitrary: s) auto
    have "concat (map (\<lambda>x. if x = c then new else [x]) u) = u" using s(2) by (induction u) auto
    then show ?thesis using less [of v] s True tw by (subst replace_loop.simps) (simp add: string_find_char)
  next
    case False
    then have "concat (map (\<lambda>x. if x = c then new else [x]) s) = s" by (induction s) auto
    then show ?thesis using False by (subst replace_loop.simps) (simp add: string_find_char)
  qed
qed

lemma replace_char: "util_replace s [c] new = concat (map (\<lambda>x. if x = c then new else [x]) s)"
  by (simp add: util_replace_def replace_loop_char)

text \<open>\<open>strchr\<close> also finds the terminating NUL.\<close>

definition strchr_found :: "string \<Rightarrow> char \<Rightarrow> bool" where
  "strchr_found chars c \<longleftrightarrow> c \<in> set chars \<or> code_of c = 0"

definition DEFAULT_STRIP_CHARSET :: string where
  "DEFAULT_STRIP_CHARSET = [CHR 0x0D, CHR 0x0A, CHR 0x09, CHR '' '']"

definition util_lstripIter :: "string \<Rightarrow> string \<Rightarrow> string" where
  "util_lstripIter s chars = dropWhile (strchr_found chars) s"

definition util_stripIter :: "string \<Rightarrow> string \<Rightarrow> string" where
  "util_stripIter s chars =
     (let s1 = dropWhile (strchr_found chars) s in
      if s1 = [] then [] else hd s1 # rev (dropWhile (strchr_found chars) (rev (tl s1))))"

definition util_divide :: "string \<Rightarrow> char \<Rightarrow> bool \<Rightarrow> string \<times> string" where
  "util_divide s delim strip =
     (let l = takeWhile (\<lambda>x. x \<noteq> delim) s; r = tl (dropWhile (\<lambda>x. x \<noteq> delim) s) in
      if strip then (util_stripIter l DEFAULT_STRIP_CHARSET, util_stripIter r DEFAULT_STRIP_CHARSET) else (l, r))"

text \<open>The fields between delimiters; empty ones are left out unless \<open>allowEmpty\<close>.\<close>

function split_fields :: "char \<Rightarrow> bool \<Rightarrow> bool \<Rightarrow> string \<Rightarrow> string list" where
  "split_fields delim doStrip allowEmpty s =
     (if s = [] then []
      else
        let field = takeWhile (\<lambda>x. x \<noteq> delim) s;
            p = (if doStrip then util_stripIter field DEFAULT_STRIP_CHARSET else field)
        in (if allowEmpty \<or> p \<noteq> [] then [p] else [])
           @ split_fields delim doStrip allowEmpty (tl (dropWhile (\<lambda>x. x \<noteq> delim) s)))"
  by pat_completeness auto
termination
proof (relation "measure (\<lambda>(delim, doStrip, allowEmpty, s). length s)")
  fix delim :: char and doStrip allowEmpty :: bool and s field p :: string
  assume "s \<noteq> []"
  moreover have "length (tl (dropWhile (\<lambda>x. x \<noteq> delim) s)) \<le> length s - 1"
    using length_dropWhile_le [of "\<lambda>x. x \<noteq> delim" s] by simp
  ultimately show "((delim, doStrip, allowEmpty, tl (dropWhile (\<lambda>x. x \<noteq> delim) s)), delim, doStrip, allowEmpty, s)
      \<in> measure (\<lambda>(delim, doStrip, allowEmpty, s). length s)"
    by (cases s) simp_all
qed simp

declare split_fields.simps [simp del]

definition util_splitIter :: "char \<Rightarrow> bool \<Rightarrow> bool \<Rightarrow> string \<Rightarrow> string list" where
  "util_splitIter delim doStrip allowEmpty s =
     split_fields delim doStrip allowEmpty s @ (if allowEmpty \<and> (s = [] \<or> last s = delim) then [[]] else [])"

lemma split_fields_step:
  "delim \<notin> set a \<Longrightarrow> a \<noteq> []
   \<Longrightarrow> split_fields delim False allowEmpty (a @ delim # rest) = a # split_fields delim False allowEmpty rest"
  "delim \<notin> set a \<Longrightarrow> a \<noteq> [] \<Longrightarrow> split_fields delim False allowEmpty a = [a]"
proof -
  assume a: "delim \<notin> set a" "a \<noteq> []"
  have d: "x \<noteq> delim" if "x \<in> set a" for x using a that by auto
  have tw: "takeWhile (\<lambda>x. x \<noteq> delim) (a @ delim # rest) = a" "dropWhile (\<lambda>x. x \<noteq> delim) (a @ delim # rest) = delim # rest"
      "takeWhile (\<lambda>x. x \<noteq> delim) a = a" "dropWhile (\<lambda>x. x \<noteq> delim) a = []"
    by (simp_all add: d takeWhile_append2 dropWhile_append2 takeWhile_eq_all_conv dropWhile_eq_Nil_conv)
  show "split_fields delim False allowEmpty (a @ delim # rest) = a # split_fields delim False allowEmpty rest"
    by (subst split_fields.simps) (simp add: tw a)
  have nil: "split_fields delim False allowEmpty [] = []" by (subst split_fields.simps) simp
  show "split_fields delim False allowEmpty a = [a]"
    by (subst split_fields.simps) (simp add: tw a nil)
qed

subsection \<open>Prefixes and suffixes\<close>

definition CaseCmp :: "char \<Rightarrow> char \<Rightarrow> bool" where
  "CaseCmp l r \<longleftrightarrow>
     (if char_in (CHR ''A'') (CHR ''Z'') l then code_of l + 32 else code_of l)
     = (if char_in (CHR ''A'') (CHR ''Z'') r then code_of r + 32 else code_of r)"

definition util_startsWith :: "string \<Rightarrow> string \<Rightarrow> bool" where
  "util_startsWith a b \<longleftrightarrow> length b \<le> length a \<and> take (length b) a = b"

definition util_endsWith :: "string \<Rightarrow> string \<Rightarrow> bool" where
  "util_endsWith a b \<longleftrightarrow> length b \<le> length a \<and> drop (length a - length b) a = b"

definition util_strieq :: "string \<Rightarrow> string \<Rightarrow> bool" where
  "util_strieq a b \<longleftrightarrow> length a = length b \<and> list_all2 CaseCmp a b"

definition util_istartsWith :: "string \<Rightarrow> string \<Rightarrow> bool" where
  "util_istartsWith a b \<longleftrightarrow> length b \<le> length a \<and> list_all2 CaseCmp b (take (length b) a)"

definition util_iendsWith :: "string \<Rightarrow> string \<Rightarrow> bool" where
  "util_iendsWith a b \<longleftrightarrow> length b \<le> length a \<and> list_all2 CaseCmp b (drop (length a - length b) a)"

definition toLowerChar :: "char \<Rightarrow> char" where
  "toLowerChar c = (if char_in (CHR ''A'') (CHR ''Z'') c then char_of (code_of c + 32) else c)"

definition toUpperChar :: "char \<Rightarrow> char" where
  "toUpperChar c = (if char_in (CHR ''a'') (CHR ''z'') c then char_of (code_of c - 32) else c)"

definition util_lowercase :: "string \<Rightarrow> string" where
  "util_lowercase s = map toLowerChar s"

definition util_uppercase :: "string \<Rightarrow> string" where
  "util_uppercase s = map toUpperChar s"

lemma startsWith_iff: "util_startsWith a b \<longleftrightarrow> (\<exists>v. a = b @ v)"
  unfolding util_startsWith_def by (metis append_take_drop_id append_eq_conv_conj length_append le_add1)

lemma endsWith_iff: "util_endsWith a b \<longleftrightarrow> (\<exists>u. a = u @ b)"
proof
  assume "util_endsWith a b"
  then show "\<exists>u. a = u @ b" unfolding util_endsWith_def by (metis append_take_drop_id)
qed (auto simp: util_endsWith_def)

lemma CaseCmp_lower: "CaseCmp l r \<longleftrightarrow> toLowerChar l = toLowerChar r"
proof -
  have "code_of (toLowerChar c) = (if char_in (CHR ''A'') (CHR ''Z'') c then code_of c + 32 else code_of c)" for c
    by (auto simp: toLowerChar_def char_in_def of_char_of take_bit_eq_mod)
  then show ?thesis unfolding CaseCmp_def by (metis of_char_eq_iff)
qed

lemma strieq_lower: "util_strieq a b \<longleftrightarrow> util_lowercase a = util_lowercase b"
  by (auto simp: util_strieq_def util_lowercase_def list_all2_conv_all_nth CaseCmp_lower list_eq_iff_nth_eq)

subsection \<open>Paths\<close>

definition is_control :: "char \<Rightarrow> bool" where
  "is_control c \<longleftrightarrow> code_of c \<le> 0x1f \<or> code_of c = 0x7f"

definition util_detectDirTraversal :: "string \<Rightarrow> bool" where
  "util_detectDirTraversal s \<longleftrightarrow>
     s \<noteq> [] \<and>
     (list_ex is_control s \<or> s = ''.'' \<or> s = ''..'' \<or> s ! 0 = CHR ''/'' \<or> util_startsWith s ''./''
      \<or> util_startsWith s ''../'' \<or> string_find ''/../'' s \<noteq> None \<or> string_find ''/./'' s \<noteq> None
      \<or> s ! (length s - 1) = CHR ''/'' \<or> util_endsWith s ''/.'' \<or> util_endsWith s ''/..'')"

definition util_escapePath :: "string \<Rightarrow> string" where
  "util_escapePath s = concat (map (\<lambda>c. if is_control c then percent_hex c else [c]) s)"

definition util_fixTaintedBasename :: "string \<Rightarrow> string" where
  "util_fixTaintedBasename src = util_escapePath (util_replace src ''/'' ''%2F'')"

definition util_applyDir :: "string \<Rightarrow> string \<Rightarrow> string" where
  "util_applyDir dir relPath =
     (if dir = [] then ''./'' @ relPath else if dir = ''/'' then dir @ relPath else dir @ ''/'' @ relPath)"

text \<open>A component of a path: what stands between two slashes or the ends.\<close>

definition path_component :: "string \<Rightarrow> string \<Rightarrow> bool" where
  "path_component c s \<longleftrightarrow> (\<exists>u v. s = u @ c @ v \<and> CHR ''/'' \<notin> set c
     \<and> (u = [] \<or> last u = CHR ''/'') \<and> (v = [] \<or> hd v = CHR ''/''))"

lemma path_component_cases:
  assumes "c \<noteq> []" "CHR ''/'' \<notin> set c"
  shows "path_component c s \<longleftrightarrow> s = c \<or> util_startsWith s (c @ ''/'') \<or> util_endsWith s (''/'' @ c)
    \<or> string_find (''/'' @ c @ ''/'') s \<noteq> None"
proof
  assume "path_component c s"
  then obtain u v where s: "s = u @ c @ v" "u = [] \<or> last u = CHR ''/''" "v = [] \<or> hd v = CHR ''/''"
    by (auto simp: path_component_def)
  have u: "u = [] \<or> (\<exists>u'. u = u' @ ''/'')" using s(2) by (metis append_butlast_last_id)
  have v: "v = [] \<or> (\<exists>v'. v = CHR ''/'' # v')" using s(3) by (metis list.collapse)
  consider "s = c" | v' where "s = c @ CHR ''/'' # v'" | u' where "s = u' @ CHR ''/'' # c"
    | u' v' where "s = u' @ CHR ''/'' # c @ CHR ''/'' # v'"
    using u v s(1) by fastforce
  then show "s = c \<or> util_startsWith s (c @ ''/'') \<or> util_endsWith s (''/'' @ c)
    \<or> string_find (''/'' @ c @ ''/'') s \<noteq> None"
    unfolding startsWith_iff endsWith_iff string_find_iff by cases auto
next
  assume "s = c \<or> util_startsWith s (c @ ''/'') \<or> util_endsWith s (''/'' @ c) \<or> string_find (''/'' @ c @ ''/'') s \<noteq> None"
  then consider "s = [] @ c @ []" | v where "s = [] @ c @ CHR ''/'' # v" | u where "s = (u @ ''/'') @ c @ []"
    | u v where "s = (u @ ''/'') @ c @ CHR ''/'' # v"
    unfolding startsWith_iff endsWith_iff string_find_iff by auto
  then show "path_component c s"
    unfolding path_component_def using assms(2) by cases fastforce+
qed

text \<open>C35: \<open>detectDirTraversal\<close> accepts a name exactly when it cannot escape the download
  directory: it is relative, ends in no slash, holds no control character, and none of its
  components is dot or dot-dot.\<close>
theorem dir_traversal_exact:
  "util_detectDirTraversal s \<longleftrightarrow>
     s \<noteq> [] \<and> (hd s = CHR ''/'' \<or> last s = CHR ''/'' \<or> (\<exists>c\<in>set s. is_control c)
       \<or> path_component ''.'' s \<or> path_component ''..'' s)"
  unfolding util_detectDirTraversal_def
  by (auto simp: path_component_cases hd_conv_nth last_conv_nth list_ex_iff)

lemma percent_hex_safe: "set (percent_hex c) \<subseteq> set ''%0123456789ABCDEF''"
proof -
  have "''0123456789ABCDEF'' ! n \<in> set ''0123456789ABCDEF''" if "n < 16" for n
    using that by (intro nth_mem) simp
  from this [OF char_nibbles(2) [of c]] this [OF char_nibbles(3) [of c]] show ?thesis
    by (auto simp: percent_hex_def)
qed

lemma percent_hex_inert: "c' \<in> set (percent_hex c) \<Longrightarrow> \<not> is_control c' \<and> c' \<noteq> CHR ''/''"
  using percent_hex_safe [of c] by (auto simp: is_control_def)

text \<open>What \<open>fixTaintedBasename\<close> makes of a name, character by character.\<close>

definition tainted_char :: "char \<Rightarrow> bool" where
  "tainted_char c \<longleftrightarrow> c = CHR ''/'' \<or> is_control c"

definition fixed_name :: "string \<Rightarrow> string" where
  "fixed_name s = concat (map (\<lambda>c. if tainted_char c then percent_hex c else [c]) s)"

lemma fixed_name_simps [simp]:
  "fixed_name [] = []" "fixed_name (c # s) = (if tainted_char c then percent_hex c else [c]) @ fixed_name s"
  by (simp_all add: fixed_name_def)

lemma fixTaintedBasename_eq: "util_fixTaintedBasename s = fixed_name s"
proof (induction s)
  case (Cons c s)
  have "percent_hex CHR ''/'' = ''%2F''" by (simp add: percent_hex_def)
  then show ?case using Cons
    by (auto simp: util_fixTaintedBasename_def util_escapePath_def replace_char is_control_def tainted_char_def)
qed (simp add: util_fixTaintedBasename_def util_escapePath_def replace_char)

lemma fixed_name_hex:
  assumes "fixed_name s = h # l # t" "util_isHexDigit h" "util_isHexDigit l"
  obtains s' where "s = h # l # s'" "t = fixed_name s'"
proof -
  have p: "\<not> util_isHexDigit (CHR ''%'')" by (simp add: hex_defs)
  obtain c s1 where s: "s = c # s1" using assms(1) by (cases s) auto
  then have c: "c = h" "\<not> tainted_char c" using assms(1,2) p by (auto simp: percent_hex_def split: if_splits)
  then have "fixed_name s1 = l # t" using assms(1) s by simp
  moreover from this obtain d s2 where s1: "s1 = d # s2" by (cases s1) auto
  ultimately have "d = l" "\<not> tainted_char d" "t = fixed_name s2" using assms(3) p by (auto simp: percent_hex_def split: if_splits)
  then show thesis using that s s1 c by blast
qed

lemma percentDecode_lone:
  "\<nexists>h l s'. cs = h # l # s' \<and> util_isHexDigit h \<and> util_isHexDigit l \<Longrightarrow>
     util_percentDecode (CHR ''%'' # cs) = CHR ''%'' # util_percentDecode cs"
  by (subst util_percentDecode.simps(2)) (auto simp del: util_percentDecode.simps split: list.split)

lemma percentDecode_fixed_name: "util_percentDecode (fixed_name s) = util_percentDecode s"
proof (induction s rule: length_induct)
  case (1 s)
  show ?case
  proof (cases s)
    case (Cons c cs)
    then have IH: "util_percentDecode (fixed_name cs) = util_percentDecode cs" using 1 by simp
    have t: "\<not> tainted_char (CHR ''%'')" by (simp add: tainted_char_def is_control_def)
    show ?thesis
    proof (cases "c = CHR ''%''")
      case False
      then show ?thesis using IH by (simp add: Cons percentDecode_hex)
    next
      case True
      show ?thesis
      proof (cases "\<exists>h l s'. cs = h # l # s' \<and> util_isHexDigit h \<and> util_isHexDigit l")
        case hex: True
        then obtain h l s' where cs: "cs = h # l # s'" "util_isHexDigit h" "util_isHexDigit l" by blast
        have "\<not> tainted_char h" "\<not> tainted_char l"
          using cs(2,3) by (auto simp: tainted_char_def is_control_def hex_defs)
        moreover have "util_percentDecode (fixed_name s') = util_percentDecode s'" using 1 Cons cs by simp
        ultimately show ?thesis using True t cs by (simp add: Cons)
      next
        case False
        then have "util_percentDecode (CHR ''%'' # cs) = CHR ''%'' # util_percentDecode cs"
          by (rule percentDecode_lone)
        moreover have "util_percentDecode (CHR ''%'' # fixed_name cs) = CHR ''%'' # util_percentDecode (fixed_name cs)"
          using False fixed_name_hex [of cs] by (intro percentDecode_lone) metis
        ultimately show ?thesis using IH True t by (simp add: Cons del: util_percentDecode.simps)
      qed
    qed
  qed simp
qed

text \<open>C36: A file name made by \<open>createSafePath\<close>'s \<open>fixTaintedBasename\<close> has no slash and no control
  character, so it is a single path component; \<open>percentDecode\<close> makes of it what it makes of the original, and the
  original itself if that holds no percent sign.\<close>
theorem safe_basename:
  "(\<forall>c\<in>set (util_fixTaintedBasename s). c \<noteq> CHR ''/'' \<and> \<not> is_control c)
   \<and> util_percentDecode (util_fixTaintedBasename s) = util_percentDecode s
   \<and> (CHR ''%'' \<notin> set s \<longrightarrow> util_percentDecode (util_fixTaintedBasename s) = s)"
proof -
  have "c \<noteq> CHR ''/'' \<and> \<not> is_control c" if "c \<in> set (fixed_name s)" for c
    using that by (induction s) (auto simp: tainted_char_def dest: percent_hex_inert split: if_splits)
  then show ?thesis using percentDecode_plain [of s] by (auto simp: fixTaintedBasename_eq percentDecode_fixed_name)
qed

theorem safe_basename_witness:
  "util_percentDecode (util_fixTaintedBasename ''a/b'') = ''a/b''"
proof -
  have "CHR ''%'' \<notin> set ''a/b''" by simp
  with safe_basename [of "''a/b''"] show ?thesis by blast
qed

subsection \<open>UTF-8\<close>

definition isUtf8Tail :: "char \<Rightarrow> bool" where
  "isUtf8Tail ch \<longleftrightarrow> 0x80 \<le> code_of ch \<and> code_of ch \<le> 0xbf"

definition byte_in :: "char \<Rightarrow> nat \<Rightarrow> nat \<Rightarrow> bool" where
  "byte_in c lo hi \<longleftrightarrow> lo \<le> code_of c \<and> code_of c \<le> hi"

fun util_isUtf8 :: "string \<Rightarrow> bool" where
  "util_isUtf8 [] \<longleftrightarrow> True"
| "util_isUtf8 (firstChar # s) \<longleftrightarrow>
     (if byte_in firstChar 0x20 0x7e \<or> code_of firstChar = 0x08 \<or> code_of firstChar = 0x09 \<or> code_of firstChar = 0x0a
         \<or> code_of firstChar = 0x0c \<or> code_of firstChar = 0x0d
      then util_isUtf8 s
      else if byte_in firstChar 0xc2 0xdf then
        (case s of a # s' \<Rightarrow> isUtf8Tail a \<and> util_isUtf8 s' | _ \<Rightarrow> False)
      else if code_of firstChar = 0xe0 then
        (case s of a # b # s' \<Rightarrow> byte_in a 0xa0 0xbf \<and> isUtf8Tail b \<and> util_isUtf8 s' | _ \<Rightarrow> False)
      else if byte_in firstChar 0xe1 0xec \<or> byte_in firstChar 0xee 0xef then
        (case s of a # b # s' \<Rightarrow> isUtf8Tail a \<and> isUtf8Tail b \<and> util_isUtf8 s' | _ \<Rightarrow> False)
      else if code_of firstChar = 0xed then
        (case s of a # b # s' \<Rightarrow> byte_in a 0x80 0x9f \<and> isUtf8Tail b \<and> util_isUtf8 s' | _ \<Rightarrow> False)
      else if code_of firstChar = 0xf0 then
        (case s of a # b # c # s' \<Rightarrow> byte_in a 0x90 0xbf \<and> isUtf8Tail b \<and> isUtf8Tail c \<and> util_isUtf8 s' | _ \<Rightarrow> False)
      else if byte_in firstChar 0xf1 0xf3 then
        (case s of a # b # c # s' \<Rightarrow> isUtf8Tail a \<and> isUtf8Tail b \<and> isUtf8Tail c \<and> util_isUtf8 s' | _ \<Rightarrow> False)
      else if code_of firstChar = 0xf4 then
        (case s of a # b # c # s' \<Rightarrow> byte_in a 0x80 0x8f \<and> isUtf8Tail b \<and> isUtf8Tail c \<and> util_isUtf8 s' | _ \<Rightarrow> False)
      else False)"

fun iso8859p1_loop :: "string \<Rightarrow> string \<Rightarrow> string" where
  "iso8859p1_loop [] dest = dest"
| "iso8859p1_loop (c # cs) dest =
     (if 0xa0 \<le> code_of c then
        iso8859p1_loop cs (dest @ [char_of (if code_of c \<le> 0xbf then 0xc2 else 0xc3 :: nat), char_of (and (code_of c) (0xff - 0x40))])
      else if 0x80 \<le> code_of c \<and> code_of c \<le> 0x9f then []
      else iso8859p1_loop cs (dest @ [c]))"

definition util_iso8859p1ToUtf8 :: "string \<Rightarrow> string" where
  "util_iso8859p1ToUtf8 src = iso8859p1_loop src []"

text \<open>The reference: the bytes of a code point.\<close>

definition utf8_bytes :: "nat \<Rightarrow> nat list" where
  "utf8_bytes n =
     (if n < 0x80 then [n]
      else if n < 0x800 then [0xc0 + n div 64, 0x80 + n mod 64]
      else if n < 0x10000 then [0xe0 + n div 4096, 0x80 + n div 64 mod 64, 0x80 + n mod 64]
      else [0xf0 + n div 262144, 0x80 + n div 4096 mod 64, 0x80 + n div 64 mod 64, 0x80 + n mod 64])"

definition utf8_encode :: "nat list \<Rightarrow> string" where
  "utf8_encode cps = map char_of (concat (map utf8_bytes cps))"

text \<open>The code points the code accepts: Unicode scalar values, of the ASCII control characters only
  five.\<close>

definition text_code_point :: "nat \<Rightarrow> bool" where
  "text_code_point n \<longleftrightarrow> (n < 0x80 \<longrightarrow> (0x20 \<le> n \<and> n \<le> 0x7e) \<or> n \<in> {8, 9, 10, 12, 13})
     \<and> n \<le> 0x10ffff \<and> \<not> (0xd800 \<le> n \<and> n \<le> 0xdfff)"

lemma code_of_less: "code_of c < 256"
  using of_char_of [where ?'a = nat] by (metis of_char_mod_256 mod_less_divisor zero_less_numeral)

lemma code_of_le: "code_of c \<le> 255"
  using code_of_less [of c] by linarith

lemma code_of_char_of: "n < 256 \<Longrightarrow> code_of (char_of n) = n"
  by (simp add: of_char_of take_bit_eq_mod)

lemma base64_digit: "c < 64 \<Longrightarrow> (q * 64 + c) div 64 = (q :: nat) \<and> (q * 64 + c) mod 64 = c"
  by simp

lemma div_64_64: "(n::nat) div 4096 = n div 64 div 64" "n div 262144 = n div 64 div 64 div 64"
  by (simp_all add: div_mult2_eq [symmetric])

lemma utf8_two:
  assumes "0xc2 \<le> x" "x \<le> 0xdf" "0x80 \<le> y" "y \<le> 0xbf"
  shows "\<exists>n. text_code_point n \<and> utf8_bytes n = [x, y]"
proof -
  define a b where ab: "a = x - 0xc0" "b = y - 0x80"
  then have e: "x = 0xc0 + a" "y = 0x80 + b" "2 \<le> a" "a < 32" "b < 64" using assms by simp_all
  then have "text_code_point (a * 64 + b) \<and> utf8_bytes (a * 64 + b) = [x, y]"
    by (simp add: text_code_point_def utf8_bytes_def)
  then show ?thesis by blast
qed

lemma utf8_three:
  assumes "0xe0 \<le> x" "x \<le> 0xef" "0x80 \<le> y" "y \<le> 0xbf" "0x80 \<le> z" "z \<le> 0xbf"
    and "x = 0xe0 \<longrightarrow> 0xa0 \<le> y" "x = 0xed \<longrightarrow> y \<le> 0x9f"
  shows "\<exists>n. text_code_point n \<and> utf8_bytes n = [x, y, z]"
proof -
  define a b c where abc: "a = x - 0xe0" "b = y - 0x80" "c = z - 0x80"
  then have e: "x = 0xe0 + a" "y = 0x80 + b" "z = 0x80 + c" "a < 16" "b < 64" "c < 64"
    "a = 0 \<longrightarrow> 32 \<le> b" "a = 13 \<longrightarrow> b < 32" using assms by auto
  let ?n = "4096 * a + 64 * b + c"
  have h: "?n = (a * 64 + b) * 64 + c" by simp
  have "0x800 \<le> ?n" by (cases "a = 0") (use e(7) in simp_all)
  moreover have "?n < 0x10000" using e(4-6) by linarith
  moreover have "\<not> (0xd800 \<le> ?n \<and> ?n \<le> 0xdfff)"
  proof (cases "a < 13 \<or> a > 13")
    case True
    then show ?thesis using e(5,6) by (elim disjE) linarith+
  qed (use e(5,6,8) in auto)
  ultimately have n: "0x800 \<le> ?n" "?n < 0x10000" "\<not> (0xd800 \<le> ?n \<and> ?n \<le> 0xdfff)" by blast+
  have d: "?n div 4096 = a" "?n div 64 mod 64 = b" "?n mod 64 = c"
    unfolding h div_64_64 using e(4-6) by (simp_all only: base64_digit)
  have "utf8_bytes ?n = [x, y, z]" unfolding utf8_bytes_def d using n(1,2) e(1-3) by simp
  moreover have "text_code_point ?n" using n by (simp add: text_code_point_def)
  ultimately show ?thesis by blast
qed

lemma utf8_four:
  assumes "0xf0 \<le> x" "x \<le> 0xf4" "0x80 \<le> y" "y \<le> 0xbf" "0x80 \<le> z" "z \<le> 0xbf" "0x80 \<le> w" "w \<le> 0xbf"
    and "x = 0xf0 \<longrightarrow> 0x90 \<le> y" "x = 0xf4 \<longrightarrow> y \<le> 0x8f"
  shows "\<exists>n. text_code_point n \<and> utf8_bytes n = [x, y, z, w]"
proof -
  define a b c d where abcd: "a = x - 0xf0" "b = y - 0x80" "c = z - 0x80" "d = w - 0x80"
  then have e: "x = 0xf0 + a" "y = 0x80 + b" "z = 0x80 + c" "w = 0x80 + d" "a < 5" "b < 64" "c < 64" "d < 64"
    "a = 0 \<longrightarrow> 16 \<le> b" "a = 4 \<longrightarrow> b < 16" using assms by auto
  let ?n = "262144 * a + 4096 * b + 64 * c + d"
  have h: "?n = ((a * 64 + b) * 64 + c) * 64 + d" by simp
  have "0x10000 \<le> ?n" by (cases "a = 0") (use e(9) in simp_all)
  moreover have "?n \<le> 0x10ffff" by (cases "a = 4") (use e(5-10) in simp_all)
  ultimately have n: "0x10000 \<le> ?n" "?n \<le> 0x10ffff" by blast+
  have d: "?n div 262144 = a" "?n div 4096 mod 64 = b" "?n div 64 mod 64 = c" "?n mod 64 = d"
    unfolding h div_64_64 using e(5-8) by (simp_all only: base64_digit)
  have "utf8_bytes ?n = [x, y, z, w]" unfolding utf8_bytes_def d using n e(1-4) by simp
  moreover have "text_code_point ?n" using n by (simp add: text_code_point_def)
  ultimately show ?thesis by blast
qed

lemma utf8_bytes_code: "n \<le> 0x10ffff \<Longrightarrow> \<forall>b\<in>set (utf8_bytes n). b < 256"
  by (auto simp: utf8_bytes_def)

lemma utf8_encode_Cons: "utf8_encode (n # ns) = map char_of (utf8_bytes n) @ utf8_encode ns"
  by (simp add: utf8_encode_def)

lemmas utf8_defs = byte_in_def isUtf8Tail_def code_of_char_of

lemma isUtf8_encode_step:
  assumes "text_code_point n"
  shows "util_isUtf8 (map char_of (utf8_bytes n) @ s) = util_isUtf8 s"
proof -
  have n: "n < 0x80 \<longrightarrow> (0x20 \<le> n \<and> n \<le> 0x7e) \<or> n \<in> {8, 9, 10, 12, 13}" "n \<le> 0x10ffff"
    "\<not> (0xd800 \<le> n \<and> n \<le> 0xdfff)" using assms by (auto simp: text_code_point_def)
  consider "n < 0x80" | "0x80 \<le> n" "n < 0x800" | "0x800 \<le> n" "n < 0x10000" | "0x10000 \<le> n" by linarith
  then show ?thesis
  proof cases
    case 1
    then show ?thesis using n(1) by (auto simp: utf8_bytes_def utf8_defs)
  next
    case 2
    then have "2 \<le> n div 64" "n div 64 < 32" "n mod 64 \<le> 63" by auto
    with 2 show ?thesis by (simp add: utf8_bytes_def utf8_defs)
  next
    case 3
    define a b where ab: "a = n div 4096" "b = n div 64 mod 64"
    have "n = 4096 * a + 64 * b + n mod 64"
      using div_mult_mod_eq [of n 64] div_mult_mod_eq [of "n div 64" 64] unfolding ab div_64_64 by linarith
    moreover have "b \<le> 63" "n mod 64 \<le> 63" by (simp_all add: ab)
    ultimately have e: "n = 4096 * a + 64 * b + n mod 64" "b \<le> 63" "n mod 64 \<le> 63" by blast+
    then have q: "a < 16" "a = 0 \<longrightarrow> 32 \<le> b" "a = 13 \<longrightarrow> b < 32"
      using 3 n(3) by auto
    have u: "utf8_bytes n = [0xe0 + a, 0x80 + b, 0x80 + n mod 64]" using 3 by (simp add: utf8_bytes_def ab)
    consider "a = 0" | "0 < a" "a < 13" | "a = 13" | "13 < a" by linarith
    then show ?thesis using q e(2-) u by cases (simp_all add: utf8_defs)
  next
    case 4
    define a b where ab: "a = n div 262144" "b = n div 4096 mod 64"
    have "n = 262144 * a + 4096 * b + 64 * (n div 64 mod 64) + n mod 64"
      using div_mult_mod_eq [of n 64] div_mult_mod_eq [of "n div 64" 64] div_mult_mod_eq [of "n div 64 div 64" 64]
      unfolding ab div_64_64 by linarith
    moreover have "b \<le> 63" "n div 64 mod 64 \<le> 63" "n mod 64 \<le> 63" by (simp_all add: ab)
    ultimately have e: "n = 262144 * a + 4096 * b + 64 * (n div 64 mod 64) + n mod 64" "b \<le> 63" "n div 64 mod 64 \<le> 63" "n mod 64 \<le> 63"
      by blast+
    then have q: "a < 5" "a = 0 \<longrightarrow> 16 \<le> b" "a = 4 \<longrightarrow> b < 16"
      using 4 n(2) by auto
    have u: "utf8_bytes n = [0xf0 + a, 0x80 + b, 0x80 + n div 64 mod 64, 0x80 + n mod 64]" using 4 by (simp add: utf8_bytes_def ab)
    consider "a = 0" | "0 < a" "a < 4" | "a = 4" using q(1) by linarith
    then show ?thesis using q e(2-) u by cases (simp_all add: utf8_defs)
  qed
qed

lemma isUtf8_encode: "\<forall>n\<in>set cps. text_code_point n \<Longrightarrow> util_isUtf8 (utf8_encode cps)"
  by (induction cps) (simp_all add: utf8_encode_Cons isUtf8_encode_step, simp add: utf8_encode_def)

lemma utf8_encode_code:
  assumes "utf8_bytes n = map code_of cs" "s' = utf8_encode ns"
  shows "cs @ s' = utf8_encode (n # ns)"
  using assms by (simp add: utf8_encode_Cons comp_def)

lemma isUtf8_decode:
  "util_isUtf8 s \<Longrightarrow> \<exists>cps. (\<forall>n\<in>set cps. text_code_point n) \<and> s = utf8_encode cps"
proof (induction "length s" arbitrary: s rule: less_induct)
  case less
  have IH: "\<exists>cps. (\<forall>n\<in>set cps. text_code_point n) \<and> s = utf8_encode cps"
    if "s = cs @ s'" "cs \<noteq> []" "util_isUtf8 s'" "\<exists>n. text_code_point n \<and> utf8_bytes n = map code_of cs" for cs s'
  proof -
    have "length s' < length s" using that(1,2) by simp
    from less.hyps [OF this that(3)] obtain ns where "\<forall>n\<in>set ns. text_code_point n" "s' = utf8_encode ns" by blast
    moreover from that(4) obtain n where "text_code_point n" "utf8_bytes n = map code_of cs" by blast
    ultimately show ?thesis using utf8_encode_code that(1) by (intro exI [of _ "n # ns"]) auto
  qed
  show ?case
  proof (cases s)
    case Nil
    then show ?thesis by (intro exI [of _ "[]"]) (simp add: utf8_encode_def)
  next
    case (Cons x s')
    note u = less.prems [unfolded Cons]
    let ?x = "code_of x"
    consider "?x < 0x80" | "0x80 \<le> ?x" "?x < 0xc2" | "0xc2 \<le> ?x" "?x \<le> 0xdf" | "0xe0 \<le> ?x" "?x \<le> 0xef"
      | "0xf0 \<le> ?x" "?x \<le> 0xf4" | "0xf4 < ?x" by linarith
    then show ?thesis
    proof cases
      case 1
      then have t: "text_code_point ?x" "util_isUtf8 s'" using u by (auto simp: byte_in_def text_code_point_def split: if_splits)
      have "\<exists>n. text_code_point n \<and> utf8_bytes n = map code_of [x]"
        by (rule exI [of _ ?x]) (use 1 t in \<open>simp add: utf8_bytes_def\<close>)
      with IH [of "[x]" s'] t Cons show ?thesis by simp
    next
      case 3
      then obtain a t where t: "s' = a # t" "isUtf8Tail a" "util_isUtf8 t"
        using u by (simp add: byte_in_def split: list.splits)
      then show ?thesis using IH [of "[x, a]" t] utf8_two [of ?x "code_of a"] 3 by (simp add: Cons isUtf8Tail_def)
    next
      case 4
      have "\<exists>a b t. s' = a # b # t \<and> isUtf8Tail b \<and> util_isUtf8 t \<and> 0x80 \<le> code_of a \<and> code_of a \<le> 0xbf
        \<and> (?x = 0xe0 \<longrightarrow> 0xa0 \<le> code_of a) \<and> (?x = 0xed \<longrightarrow> code_of a \<le> 0x9f)"
      proof -
        consider "?x = 0xe0" | "0xe1 \<le> ?x" "?x \<le> 0xec" | "?x = 0xed" | "0xee \<le> ?x" "?x \<le> 0xef" using 4 by linarith
        then show ?thesis using u by cases (simp_all add: byte_in_def isUtf8Tail_def split: list.splits)
      qed
      then obtain a b t where t: "s' = a # b # t" "isUtf8Tail b" "util_isUtf8 t" "0x80 \<le> code_of a" "code_of a \<le> 0xbf"
        "?x = 0xe0 \<longrightarrow> 0xa0 \<le> code_of a" "?x = 0xed \<longrightarrow> code_of a \<le> 0x9f" by blast
      then have "\<exists>n. text_code_point n \<and> utf8_bytes n = map code_of [x, a, b]"
        using utf8_three [of ?x "code_of a" "code_of b"] 4 by (simp add: isUtf8Tail_def)
      with IH [of "[x, a, b]" t] t Cons show ?thesis by simp
    next
      case 5
      have "\<exists>a b c t. s' = a # b # c # t \<and> isUtf8Tail b \<and> isUtf8Tail c \<and> util_isUtf8 t \<and> 0x80 \<le> code_of a
        \<and> code_of a \<le> 0xbf \<and> (?x = 0xf0 \<longrightarrow> 0x90 \<le> code_of a) \<and> (?x = 0xf4 \<longrightarrow> code_of a \<le> 0x8f)"
      proof -
        consider "?x = 0xf0" | "0xf1 \<le> ?x" "?x \<le> 0xf3" | "?x = 0xf4" using 5 by linarith
        then show ?thesis using u by cases (simp_all add: byte_in_def isUtf8Tail_def split: list.splits)
      qed
      then obtain a b c t where t: "s' = a # b # c # t" "isUtf8Tail b" "isUtf8Tail c" "util_isUtf8 t"
        "0x80 \<le> code_of a" "code_of a \<le> 0xbf" "?x = 0xf0 \<longrightarrow> 0x90 \<le> code_of a" "?x = 0xf4 \<longrightarrow> code_of a \<le> 0x8f" by blast
      then have "\<exists>n. text_code_point n \<and> utf8_bytes n = map code_of [x, a, b, c]"
        using utf8_four [of ?x "code_of a" "code_of b" "code_of c"] 5 by (simp add: isUtf8Tail_def)
      with IH [of "[x, a, b, c]" t] t Cons show ?thesis by simp
    qed (use u in \<open>simp_all add: byte_in_def\<close>)
  qed
qed

text \<open>C37: \<open>isUtf8\<close> accepts exactly the UTF-8 encodings of sequences of Unicode scalar values
  whose ASCII control characters are among the five the source lists: no overlong form, no
  surrogate, nothing above U+10FFFF, no truncated sequence.\<close>
theorem isUtf8_exact:
  "util_isUtf8 s \<longleftrightarrow> (\<exists>cps. list_all text_code_point cps \<and> s = utf8_encode cps)"
  unfolding list_all_iff using isUtf8_decode isUtf8_encode by blast

lemma and_bf: "0xa0 \<le> n \<Longrightarrow> n < 0x100 \<Longrightarrow> and n 0xbf = 0x80 + n mod (64::nat)"
proof -
  assume "0xa0 \<le> n" "n < 0x100"
  then have "n \<in> set [0xa0..<0x100]" by (simp only: set_upt atLeastLessThan_iff)
  moreover have "\<forall>n\<in>set [0xa0..<0x100]. and n 0xbf = 0x80 + n mod (64::nat)" by simp
  ultimately show ?thesis by blast
qed

lemma iso_loop:
  "iso8859p1_loop cs dest = (if \<exists>c\<in>set cs. 0x80 \<le> code_of c \<and> code_of c \<le> 0x9f then []
     else dest @ utf8_encode (map code_of cs))"
proof (induction cs arbitrary: dest)
  case (Cons c cs)
  have "[char_of (if code_of c \<le> 0xbf then 0xc2 else 0xc3 :: nat), char_of (and (code_of c) (0xff - 0x40))]
      = map char_of (utf8_bytes (code_of c))" if "0xa0 \<le> code_of c"
  proof -
    have "code_of c div 64 = (if code_of c \<le> 0xbf then 2 else 3)" 
      by (cases "code_of c \<le> 0xbf") (use that code_of_less [of c] in \<open>auto intro: div_nat_eqI\<close>)
    then show ?thesis using that and_bf [OF that code_of_less] code_of_le [of c] by (simp add: utf8_bytes_def)
  qed
  moreover have "map char_of (utf8_bytes (code_of c)) = [c]" if "code_of c < 0x80" using that by (simp add: utf8_bytes_def)
  ultimately show ?case using Cons by (auto simp: utf8_encode_Cons)
qed (simp add: utf8_encode_def)

text \<open>\<open>iso8859p1ToUtf8\<close> returns the UTF-8 encoding of the characters read as code points,
  or the empty string exactly when one of them is in 0x80 to 0x9f; for text in ISO/IEC 8859-1 as
  \<open>isIso8859p1\<close> defines it the result passes \<open>isUtf8\<close>.\<close>
theorem iso8859p1_to_utf8:
  "util_iso8859p1ToUtf8 s = (if \<exists>c\<in>set s. 0x80 \<le> code_of c \<and> code_of c \<le> 0x9f then [] else utf8_encode (map code_of s))
   \<and> (list_all util_isIso8859p1 s \<longrightarrow> util_isUtf8 (util_iso8859p1ToUtf8 s))"
proof -
  have "util_isUtf8 (utf8_encode (map code_of s))" if "list_all util_isIso8859p1 s"
  proof (rule isUtf8_encode, intro ballI)
    fix n assume "n \<in> set (map code_of s)"
    then obtain c where "c \<in> set s" "n = code_of c" by auto
    then show "text_code_point n" using that code_of_le [of c]
      by (auto simp: list_all_iff util_isIso8859p1_def text_code_point_def)
  qed
  then show ?thesis by (auto simp: util_iso8859p1ToUtf8_def iso_loop)
qed

theorem iso8859p1_to_utf8_witness:
  "util_iso8859p1ToUtf8 [CHR 0xE9] = map char_of [0xc3, 0xa9 :: nat] \<and> util_isUtf8 (util_iso8859p1ToUtf8 [CHR 0xE9])"
proof -
  have "list_all util_isIso8859p1 [CHR 0xE9]" by (simp add: util_isIso8859p1_def)
  moreover have "utf8_encode (map code_of [CHR 0xE9]) = map char_of [0xc3, 0xa9 :: nat]"
    by (simp add: utf8_encode_def utf8_bytes_def)
  ultimately show ?thesis using iso8859p1_to_utf8 [of "[CHR 0xE9]"] by (auto simp del: util_isUtf8.simps)
qed

end
