(* ===== verification/Text_Numbers.thy ===== *)
theory Text_Numbers
  imports Text_Util
begin

text \<open>
  Numbers in text (\<open>util.cc\<close>): \<open>parseIntNoThrow\<close>, \<open>parseUIntNoThrow\<close>,
  \<open>parseLLIntNoThrow\<close>, \<open>getRealSize\<close>, and the printers \<open>uitos\<close>, \<open>itos\<close>,
  \<open>abbrevSize\<close> and \<open>secfmt\<close>. \<open>strtol\<close> and \<open>strtoll\<close> are those of the C library in base 10, with
  64-bit \<open>long\<close>.
\<close>

subsection \<open>strtoll\<close>

definition isspace :: "char \<Rightarrow> bool" where
  "isspace c \<longleftrightarrow> c = CHR '' '' \<or> (9 \<le> code_of c \<and> code_of c \<le> 13)"

definition digit_value :: "char \<Rightarrow> nat" where
  "digit_value c = code_of c - code_of (CHR ''0'')"

definition decimal :: "string \<Rightarrow> nat" where
  "decimal ds = foldl (\<lambda>a c. a * 10 + digit_value c) 0 ds"

text \<open>
  Value, whether it was out of range, and what \<open>endptr\<close> points to. Without a digit nothing is
  consumed. The C string ends at the first NUL, which is no digit and no space.
\<close>

definition strtoll :: "string \<Rightarrow> int \<times> bool \<times> string" where
  "strtoll s =
     (let s1 = dropWhile isspace s;
          neg = (s1 \<noteq> [] \<and> hd s1 = CHR ''-'');
          s2 = (if s1 \<noteq> [] \<and> (hd s1 = CHR ''-'' \<or> hd s1 = CHR ''+'') then tl s1 else s1);
          ds = takeWhile util_isDigit s2;
          v = (if neg then - int (decimal ds) else int (decimal ds)) in
      if ds = [] then (0, False, s)
      else if v < - (2 ^ 63) then (- (2 ^ 63), True, dropWhile util_isDigit s2)
      else if 2 ^ 63 \<le> v then (2 ^ 63 - 1, True, dropWhile util_isDigit s2)
      else (v, False, dropWhile util_isDigit s2))"

definition parseLong :: "string \<Rightarrow> int option" where
  "parseLong s =
     (if s = [] then None
      else let (res, erange, endptr) = strtoll s in
        if erange then None
        else if endptr \<noteq> [] \<and> code_of (hd endptr) \<noteq> 0 \<and> \<not> list_all isspace endptr then None
        else Some res)"

definition util_parseIntNoThrow :: "string \<Rightarrow> int option" where
  "util_parseIntNoThrow s =
     (case parseLong s of Some t \<Rightarrow> if - (2 ^ 31) \<le> t \<and> t \<le> 2 ^ 31 - 1 then Some t else None | None \<Rightarrow> None)"

definition util_parseUIntNoThrow :: "string \<Rightarrow> int option" where
  "util_parseUIntNoThrow s =
     (case parseLong s of Some t \<Rightarrow> if t \<ge> 0 \<and> t \<le> 2 ^ 31 - 1 then Some t else None | None \<Rightarrow> None)"

definition util_parseLLIntNoThrow :: "string \<Rightarrow> int option" where
  "util_parseLLIntNoThrow s = parseLong s"

subsection \<open>Sizes with a unit\<close>

datatype size_error = BadOrNegative string | Overflow

definition util_getRealSize :: "string \<Rightarrow> size_error + int" where
  "util_getRealSize sizeWithUnit =
     (let size = takeWhile (\<lambda>c. c \<notin> set ''KMkm'') sizeWithUnit;
          mult = (case dropWhile (\<lambda>c. c \<notin> set ''KMkm'') sizeWithUnit of
                    [] \<Rightarrow> 1
                  | u # _ \<Rightarrow> if u = CHR ''K'' \<or> u = CHR ''k'' then 1024 else 1024 * 1024) in
      case util_parseLLIntNoThrow size of
        None \<Rightarrow> Inl (BadOrNegative sizeWithUnit)
      | Some v \<Rightarrow>
          if v < 0 then Inl (BadOrNegative sizeWithUnit)
          else if (2 ^ 63 - 1) div mult < v then Inl Overflow
          else Inr (v * mult))"

lemma digits_no_space: "list_all util_isDigit ds \<Longrightarrow> dropWhile isspace ds = ds"
  by (cases ds) (auto simp: isspace_def util_isDigit_def char_in_def)

lemma parse_digits:
  assumes "ds \<noteq> []" "list_all util_isDigit ds"
  shows "parseLong ds = (if int (decimal ds) < 2 ^ 63 then Some (int (decimal ds)) else None)"
proof -
  have "hd ds \<noteq> CHR ''-''" "hd ds \<noteq> CHR ''+''"
    using assms by (cases ds; auto simp: util_isDigit_def char_in_def)+
  moreover have tw: "takeWhile util_isDigit ds = ds" "dropWhile util_isDigit ds = []"
    using assms(2) by (auto simp: list_all_iff takeWhile_eq_all_conv)
  ultimately show ?thesis using assms(1)
    unfolding parseLong_def strtoll_def digits_no_space [OF assms(2)] Let_def by (simp add: tw del: takeWhile_eq_all_conv)
qed

lemma no_overflow_test:
  fixes x :: int
  assumes "k \<in> {1, 1024, 1048576}" "0 \<le> x"
  shows "(2 ^ 63 - 1) div k < x \<longleftrightarrow> 2 ^ 63 \<le> x * k"
proof -
  consider "k = 1" | "k = 1024" | "k = 1048576" using assms(1) by blast
  then show ?thesis by cases (simp_all, linarith+)
qed

definition size_unit :: "string \<Rightarrow> int" where
  "size_unit u = (if u = '''' then 1 else if u = ''K'' \<or> u = ''k'' then 1024 else 1048576)"

text \<open>\<open>getRealSize\<close> on a decimal number with a unit returns exactly the product, or throws
  exactly when the product does not fit into \<open>int64_t\<close>; and whatever the input, a returned size
  is in range.\<close>
theorem getRealSize_exact:
  "(ds \<noteq> [] \<and> list_all util_isDigit ds \<and> u \<in> {'''', ''K'', ''k'', ''M'', ''m''} \<longrightarrow>
     util_getRealSize (ds @ u) =
       (if int (decimal ds) * size_unit u < 2 ^ 63 then Inr (int (decimal ds) * size_unit u)
        else if int (decimal ds) < 2 ^ 63 then Inl Overflow else Inl (BadOrNegative (ds @ u))))
   \<and> (\<forall>v. util_getRealSize s = Inr v \<longrightarrow> 0 \<le> v \<and> v < 2 ^ 63)"
proof (intro conjI impI allI)
  assume a: "ds \<noteq> [] \<and> list_all util_isDigit ds \<and> u \<in> {'''', ''K'', ''k'', ''M'', ''m''}"
  have nd: "\<forall>c\<in>set ds. c \<notin> set ''KMkm''" using a by (auto simp: list_all_iff util_isDigit_def char_in_def)
  have tw: "takeWhile (\<lambda>c. c \<notin> set ''KMkm'') (ds @ u) = ds" "dropWhile (\<lambda>c. c \<notin> set ''KMkm'') (ds @ u) = u"
  proof -
    have u: "takeWhile (\<lambda>c. c \<notin> set ''KMkm'') u = []" "dropWhile (\<lambda>c. c \<notin> set ''KMkm'') u = u" using a by auto
    show "takeWhile (\<lambda>c. c \<notin> set ''KMkm'') (ds @ u) = ds" "dropWhile (\<lambda>c. c \<notin> set ''KMkm'') (ds @ u) = u"
      using takeWhile_append2 [of ds "\<lambda>c. c \<notin> set ''KMkm''" u] dropWhile_append2 [of ds "\<lambda>c. c \<notin> set ''KMkm''" u]
        nd [rule_format] unfolding u by auto
  qed
  have m: "(case u of [] \<Rightarrow> 1 | x # _ \<Rightarrow> if x = CHR ''K'' \<or> x = CHR ''k'' then 1024 else 1024 * 1024) = size_unit u"
    using a by (auto simp: size_unit_def)
  have p: "size_unit u \<in> {1, 1024, 1048576}" by (simp add: size_unit_def)
  have t: "(2 ^ 63 - 1) div size_unit u < int (decimal ds) \<longleftrightarrow> 2 ^ 63 \<le> int (decimal ds) * size_unit u"
    by (rule no_overflow_test [OF p]) simp
  have "2 ^ 63 \<le> int (decimal ds) * size_unit u" if "2 ^ 63 \<le> int (decimal ds)"
  proof -
    have "int (decimal ds) * 1 \<le> int (decimal ds) * size_unit u" using p by (intro mult_left_mono) auto
    then show ?thesis using that by linarith
  qed
  with t show "util_getRealSize (ds @ u) =
       (if int (decimal ds) * size_unit u < 2 ^ 63 then Inr (int (decimal ds) * size_unit u)
        else if int (decimal ds) < 2 ^ 63 then Inl Overflow else Inl (BadOrNegative (ds @ u)))"
    unfolding util_getRealSize_def tw m util_parseLLIntNoThrow_def Let_def parse_digits [OF conjunct1 [OF a] conjunct1 [OF conjunct2 [OF a]]]
    by (auto simp: not_less)
next
  fix v assume v: "util_getRealSize s = Inr v"
  define k :: int where "k = (case dropWhile (\<lambda>c. c \<notin> set ''KMkm'') s of
                    [] \<Rightarrow> 1 | u # _ \<Rightarrow> if u = CHR ''K'' \<or> u = CHR ''k'' then 1024 else 1024 * 1024)"
  have k: "k \<in> {1, 1024, 1048576}" by (simp add: k_def split: list.split)
  obtain w where "util_parseLLIntNoThrow (takeWhile (\<lambda>c. c \<notin> set ''KMkm'') s) = Some w"
    using v unfolding util_getRealSize_def Let_def by (cases "util_parseLLIntNoThrow (takeWhile (\<lambda>c. c \<notin> set ''KMkm'') s)") auto
  then have "0 \<le> w \<and> \<not> (2 ^ 63 - 1) div k < w \<and> v = w * k"
    using v unfolding util_getRealSize_def Let_def k_def [symmetric] by (auto split: if_splits)
  then obtain w where w: "0 \<le> w" "\<not> (2 ^ 63 - 1) div k < w" "v = w * k" by blast
  then have "w * k < 2 ^ 63" using no_overflow_test [OF k w(1)] by simp
  then show "0 \<le> v" "v < 2 ^ 63" using w k by auto
qed

theorem getRealSize_exact_witness:
  "util_getRealSize ''16k'' = Inr 16384 \<and> util_getRealSize ''9223372036854775807k'' = Inl Overflow"
proof -
  have "''16'' \<noteq> '''' \<and> list_all util_isDigit ''16'' \<and> ''k'' \<in> {'''', ''K'', ''k'', ''M'', ''m''}"
    "''9223372036854775807'' \<noteq> '''' \<and> list_all util_isDigit ''9223372036854775807'' \<and> ''k'' \<in> {'''', ''K'', ''k'', ''M'', ''m''}"
    by (simp_all add: util_isDigit_def char_in_def)
  from getRealSize_exact [of "''16''" "''k''" "''''"] getRealSize_exact [of "''9223372036854775807''" "''k''" "''''"] this
  show ?thesis by (simp add: decimal_def digit_value_def size_unit_def)
qed

subsection \<open>Printing integers\<close>

fun count_digits :: "nat \<Rightarrow> nat" where
  "count_digits t = (if t = 0 then 0 else Suc (count_digits (t div 10)))"

declare count_digits.simps [simp del]

text \<open>
  The loop writes digit \<open>j\<close> from the right at index \<open>i\<close>, and a comma before it; what is left of
  the string when \<open>n\<close> is used up are the NULs of \<open>resize\<close>.
\<close>

function uitos_loop :: "bool \<Rightarrow> nat \<Rightarrow> int \<Rightarrow> nat \<Rightarrow> string" where
  "uitos_loop comma n i j =
     (if n = 0 then replicate (nat (i + 1)) (CHR 0x00)
      else if comma \<and> i > 1 \<and> (j + 1) mod 3 = 0
      then uitos_loop comma (n div 10) (i - 2) (j + 1) @ [CHR '','', char_of (n mod 10 + code_of (CHR ''0''))]
      else uitos_loop comma (n div 10) (i - 1) (j + 1) @ [char_of (n mod 10 + code_of (CHR ''0''))])"
  by pat_completeness auto
termination
  by (relation "measure (\<lambda>(comma, n, i, j). n)") auto

declare uitos_loop.simps [simp del]

definition util_uitos :: "nat \<Rightarrow> bool \<Rightarrow> string" where
  "util_uitos n comma =
     (if n = 0 then ''0''
      else let i = count_digits n; i = (if comma then i + (i - 1) div 3 else i) in
           uitos_loop comma n (int i - 1) 0)"

definition util_itos :: "int \<Rightarrow> bool \<Rightarrow> string" where
  "util_itos value comma =
     (if value < 0 then
        (if value = - (2 ^ 63) then (if comma then ''-9,223,372,036,854,775,808'' else ''-9223372036854775808'')
         else CHR ''-'' # util_uitos (nat (- value)) comma)
      else util_uitos (nat value) comma)"

definition util_secfmt :: "int \<Rightarrow> string" where
  "util_secfmt sec =
     (let (str, s) = (if sec \<ge> 3600 then (util_itos (sec div 3600) False @ ''h'', sec mod 3600) else ('''', sec));
          (str, s) = (if s \<ge> 60 then (str @ util_itos (s div 60) False @ ''m'', s mod 60) else (str, s)) in
      if s \<noteq> 0 \<or> sec = 0 then str @ util_itos s False @ ''s'' else str)"

function abbrev_loop :: "int \<Rightarrow> nat \<Rightarrow> int \<Rightarrow> int \<times> nat \<times> int" where
  "abbrev_loop t uidx r =
     (if t \<ge> 1024 \<and> uidx + 1 < 4 then abbrev_loop (t div 1024) (uidx + 1) (t mod 1024) else (t, uidx, r))"
  by pat_completeness auto
termination
  by (relation "measure (\<lambda>(t, uidx, r). 4 - uidx)") auto

definition util_abbrevSize :: "int \<Rightarrow> string" where
  "util_abbrevSize sz =
     (let (t, uidx, r) = abbrev_loop sz 0 0;
          (t, uidx, r) = (if uidx + 1 < 4 \<and> t \<ge> 922 then (0, uidx + 1, t) else (t, uidx, r));
          res = util_itos t True in
      (if t < 10 \<and> uidx > 0 then res @ ''.'' @ util_itos (r * 10 div 1024) False else res)
      @ ['''', ''Ki'', ''Mi'', ''Gi''] ! uidx)"

lemma decimal_snoc [simp]: "decimal (ds @ [c]) = decimal ds * 10 + digit_value c" "decimal [] = 0"
  by (simp_all add: decimal_def)

lemma digit_char: "d < 10 \<Longrightarrow> util_isDigit (char_of (d + 48)) \<and> digit_value (char_of (d + 48)) = d"
  by (simp add: util_isDigit_def char_in_def digit_value_def code_of_char_of)

lemma uitos_loop_plain:
  "i = int (count_digits n) - 1 \<Longrightarrow>
   list_all util_isDigit (uitos_loop False n i j) \<and> decimal (uitos_loop False n i j) = n \<and> (n \<noteq> 0 \<longrightarrow> uitos_loop False n i j \<noteq> [])"
proof (induction n arbitrary: i j rule: less_induct)
  case (less n)
  show ?case
  proof (cases "n = 0")
    case True
    then show ?thesis using less.prems by (simp add: uitos_loop.simps count_digits.simps)
  next
    case False
    have "i - 1 = int (count_digits (n div 10)) - 1" using less.prems False by (subst (asm) count_digits.simps) simp
    from less.IH [OF _ this, of "j + 1"] False digit_char [of "n mod 10"] show ?thesis
      by (subst uitos_loop.simps, subst uitos_loop.simps, subst uitos_loop.simps) simp
  qed
qed

lemma uitos_plain:
  "list_all util_isDigit (util_uitos n False)" "decimal (util_uitos n False) = n" "util_uitos n False \<noteq> []"
  using uitos_loop_plain [OF refl, of n 0]
  by (auto simp: util_uitos_def Let_def util_isDigit_def char_in_def decimal_def digit_value_def)

lemma parse_negative:
  assumes "ds \<noteq> []" "list_all util_isDigit ds" "int (decimal ds) \<le> 2 ^ 63"
  shows "parseLong (CHR ''-'' # ds) = Some (- int (decimal ds))"
proof -
  have tw: "takeWhile util_isDigit ds = ds" "dropWhile util_isDigit ds = []"
    using assms(2) by (auto simp: list_all_iff takeWhile_eq_all_conv)
  have sp: "dropWhile isspace (CHR ''-'' # ds) = CHR ''-'' # ds" by (simp add: isspace_def)
  show ?thesis using assms(1,3)
    unfolding parseLong_def strtoll_def sp Let_def by (simp add: tw del: takeWhile_eq_all_conv)
qed

text \<open>\<open>itos\<close> prints every \<open>int64_t\<close>, the most negative one included, as a text that
  \<open>parseLLIntNoThrow\<close> reads back.\<close>
theorem itos_roundtrip:
  assumes "- (2 ^ 63) \<le> v" "v < 2 ^ 63"
  shows "util_parseLLIntNoThrow (util_itos v False) = Some v"
proof -
  consider "v = - (2 ^ 63)" | "v < 0" "v \<noteq> - (2 ^ 63)" | "0 \<le> v" by linarith
  then show ?thesis
  proof cases
    case 1
    have "util_itos v False = CHR ''-'' # ''9223372036854775808''" using 1 by (simp add: util_itos_def)
    moreover have "parseLong (CHR ''-'' # ''9223372036854775808'') = Some (- int (decimal ''9223372036854775808''))"
      by (rule parse_negative) (simp_all add: util_isDigit_def char_in_def decimal_def digit_value_def)
    moreover have "decimal ''9223372036854775808'' = 2 ^ 63" by (simp add: decimal_def digit_value_def)
    ultimately show ?thesis using 1 by (simp add: util_parseLLIntNoThrow_def)
  next
    case 2
    then have "parseLong (CHR ''-'' # util_uitos (nat (- v)) False) = Some v"
      using assms(1) by (subst parse_negative) (simp_all add: uitos_plain)
    then show ?thesis using 2 by (simp add: util_parseLLIntNoThrow_def util_itos_def)
  next
    case 3
    then show ?thesis using assms(2)
      by (simp add: util_parseLLIntNoThrow_def util_itos_def parse_digits uitos_plain)
  qed
qed

theorem itos_roundtrip_witness: "util_parseLLIntNoThrow (util_itos (- 42) False) = Some (- 42)"
  by (rule itos_roundtrip) simp_all

end
