(* ===== verification/Base_Codec.thy ===== *)
theory Base_Codec
  imports Text_Util
begin

text \<open>
  The base32 and base64 codecs (\<open>base32.h\<close>, \<open>base32.cc\<close>, \<open>base64.h\<close>). The 64-bit buffer of
  base32 holds at most 40 bits and the \<open>int\<close> of base64 at most 24, so natural numbers model them.
\<close>

subsection \<open>Bytes and digits of a number\<close>

text \<open>The number whose big-endian bytes are \<open>s\<close>.\<close>

definition bytes_value :: "string \<Rightarrow> nat" where
  "bytes_value s = foldl (\<lambda>b c. b * 256 + code_of c) 0 s"

fun value_bytes :: "nat \<Rightarrow> nat \<Rightarrow> string" where
  "value_bytes 0 n = []"
| "value_bytes (Suc k) n = value_bytes k (n div 256) @ [char_of (n mod 256)]"

lemma bytes_value_snoc [simp]: "bytes_value (s @ [c]) = bytes_value s * 256 + code_of c" "bytes_value [] = 0"
  by (simp_all add: bytes_value_def)

lemma value_bytes_value: "value_bytes (length s) (bytes_value s) = s"
proof (induction s rule: rev_induct)
  case (snoc c s)
  then show ?case using code_of_less [of c] by simp
qed simp

lemma bytes_value_less: "bytes_value s < 256 ^ length s"
proof (induction s rule: rev_induct)
  case (snoc c s)
  have "bytes_value s * 256 + code_of c < (bytes_value s + 1) * 256" using code_of_less [of c] by simp
  also have "\<dots> \<le> 256 ^ length s * 256" using snoc by (intro mult_right_mono) auto
  finally show ?case by simp
qed simp

subsection \<open>base32\<close>

definition B32TABLE :: string where
  "B32TABLE = ''ABCDEFGHIJKLMNOPQRSTUVWXYZ234567''"

text \<open>\<open>temp[r - 1 - j] = B32TABLE[buf & 0x1f]; buf >>= 5\<close> for \<open>j\<close> from 0 to \<open>r - 1\<close>.\<close>

fun b32_digits :: "nat \<Rightarrow> nat \<Rightarrow> string" where
  "b32_digits 0 buf = []"
| "b32_digits (Suc r) buf = b32_digits r (buf div 32) @ [B32TABLE ! (buf mod 32)]"

fun base32_encode_loop :: "string \<Rightarrow> nat \<Rightarrow> nat \<Rightarrow> string \<Rightarrow> nat \<times> nat \<times> string" where
  "base32_encode_loop [] count buf ret = (count, buf, ret)"
| "base32_encode_loop (ch # src) count buf ret =
     (let buf = buf * 256 + code_of ch; count = count + 1 in
      if count = 5 then base32_encode_loop src 0 0 (ret @ b32_digits 8 buf)
      else base32_encode_loop src count buf ret)"

definition base32_encode :: "string \<Rightarrow> string" where
  "base32_encode src =
     (let (count, buf, ret) = base32_encode_loop src 0 0 [];
          (buf, r) = (if count = 1 then (buf * 4, 2) else if count = 2 then (buf * 16, 4)
                      else if count = 3 then (buf * 2, 5) else if count = 4 then (buf * 8, 7) else (buf, 0));
          ret = ret @ b32_digits r buf in
      if r \<noteq> 0 then ret @ replicate (8 - r) CHR ''='' else ret)"

definition b32_value :: "char \<Rightarrow> nat option" where
  "b32_value ch =
     (if char_in (CHR ''A'') (CHR ''Z'') ch then Some (code_of ch - code_of (CHR ''A''))
      else if char_in (CHR ''a'') (CHR ''z'') ch then Some (code_of ch - code_of (CHR ''a''))
      else if char_in (CHR ''2'') (CHR ''7'') ch then Some (code_of ch - code_of (CHR ''2'') + 26)
      else None)"

text \<open>One group: the buffer, its bits and whether the padding was met; \<open>None\<close> for a bad character.\<close>

fun b32_group :: "string \<Rightarrow> nat \<Rightarrow> nat \<Rightarrow> (nat \<times> nat \<times> bool) option" where
  "b32_group [] buf bits = Some (buf, bits, False)"
| "b32_group (ch # cs) buf bits =
     (case b32_value ch of
        Some v \<Rightarrow> b32_group cs (buf * 32 + v) (bits + 5)
      | None \<Rightarrow> if ch = CHR ''='' then Some (buf, bits, True) else None)"

function base32_decode_loop :: "string \<Rightarrow> string \<Rightarrow> string" where
  "base32_decode_loop s ret =
     (if s = [] then ret
      else case b32_group (take 8 s) 0 0 of
             None \<Rightarrow> []
           | Some (buf, bits, done) \<Rightarrow>
               let ret = ret @ value_bytes (bits div 8) (buf div 2 ^ (bits mod 8)) in
               if done then ret else base32_decode_loop (drop 8 s) ret)"
  by pat_completeness auto
termination
  by (relation "measure (\<lambda>(s, ret). length s)") auto

declare base32_decode_loop.simps [simp del]

definition base32_decode :: "string \<Rightarrow> string" where
  "base32_decode s = (if length s mod 8 \<noteq> 0 then [] else base32_decode_loop s [])"

lemma b32_value_digit: "n < 32 \<Longrightarrow> b32_value (B32TABLE ! n) = Some n"
proof -
  have "list_all (\<lambda>n. b32_value (B32TABLE ! n) = Some n) [0..<32]"
    by (simp add: b32_value_def B32TABLE_def char_in_def upt_rec)
  then show "n < 32 \<Longrightarrow> b32_value (B32TABLE ! n) = Some n" by (simp add: list_all_iff)
qed

lemma length_b32_digits [simp]: "length (b32_digits r buf) = r"
  by (induction r arbitrary: buf) auto

lemma b32_group_append:
  "b32_group (b32_digits r n @ cs) buf bits = b32_group cs (buf * 32 ^ r + n mod 32 ^ r) (bits + 5 * r)"
proof (induction r arbitrary: n cs buf bits)
  case (Suc r)
  have "n mod 32 ^ Suc r = n div 32 mod 32 ^ r * 32 + n mod 32"
    by (simp add: mod_mult2_eq)
  then show ?case using Suc by (simp add: b32_value_digit algebra_simps)
qed simp

lemma b32_digits_eq_Nil [simp]: "b32_digits r buf = [] \<longleftrightarrow> r = 0"
  using length_b32_digits [of r buf] by (metis length_0_conv)

lemma base32_decode_group:
  assumes "v < 2 ^ 40"
  shows "base32_decode_loop (b32_digits 8 v @ t) ret = base32_decode_loop t (ret @ value_bytes 5 v)"
proof -
  have "b32_group (b32_digits 8 v @ []) 0 0 = Some (v, 40, False)"
    unfolding b32_group_append using assms by simp
  then show ?thesis by (subst base32_decode_loop.simps) simp
qed

lemma b32_group_padded:
  assumes "v < 32 ^ r" "r < 8"
  shows "b32_group (b32_digits r v @ replicate (8 - r) CHR ''='') 0 0 = Some (v, 5 * r, True)"
proof -
  have "replicate (8 - r) CHR ''='' = CHR ''='' # replicate (7 - r) CHR ''=''"
    using assms(2) by (cases "8 - r") (auto simp: Suc_diff_le)
  then show ?thesis unfolding b32_group_append using assms(1) by (simp add: b32_value_def char_in_def)
qed

lemma base32_decode_padded:
  assumes "v < 256 ^ k" "5 * r = 8 * k + p" "p < 8" "r < 8"
  shows "base32_decode_loop (b32_digits r (v * 2 ^ p) @ replicate (8 - r) CHR ''='') ret = ret @ value_bytes k v"
proof -
  have "v * 2 ^ p < 256 ^ k * 2 ^ p" using assms(1) by simp
  also have "(256::nat) ^ k * 2 ^ p = 2 ^ (8 * k + p)" by (simp add: power_add power_mult)
  also have "\<dots> = 32 ^ r" unfolding assms(2) [symmetric] by (simp add: power_mult)
  finally have "b32_group (b32_digits r (v * 2 ^ p) @ replicate (8 - r) CHR ''='') 0 0 = Some (v * 2 ^ p, 8 * k + p, True)"
    using b32_group_padded [of _ r] assms(2,4) by simp
  moreover have "r \<noteq> 8" using assms(4) by simp
  moreover have "(8 * k + p) mod 8 = p" "(8 * k + p) div 8 = k" using assms(3) by simp_all
  ultimately show ?thesis using assms(4) by (subst base32_decode_loop.simps) simp
qed

lemma encode_loop_ret:
  "base32_encode_loop s count buf (r @ ret)
    = (case base32_encode_loop s count buf ret of (c, b, ret') \<Rightarrow> (c, b, r @ ret'))"
  by (induction s count buf ret rule: base32_encode_loop.induct) (simp_all add: Let_def)

lemma base32_encode_group:
  "base32_encode (a # b # c # d # e # s) = b32_digits 8 (bytes_value [a, b, c, d, e]) @ base32_encode s"
proof -
  have "base32_encode_loop (a # b # c # d # e # s) 0 0 []
    = base32_encode_loop s 0 0 (b32_digits 8 (bytes_value [a, b, c, d, e]) @ [])"
    by (simp add: Let_def bytes_value_def)
  then show ?thesis unfolding base32_encode_def encode_loop_ret by (simp add: Let_def split: prod.split)
qed

lemma base32_encode_short:
  "base32_encode [] = []"
  "base32_encode [a] = b32_digits 2 (bytes_value [a] * 2 ^ 2) @ replicate (8 - 2) CHR ''=''"
  "base32_encode [a, b] = b32_digits 4 (bytes_value [a, b] * 2 ^ 4) @ replicate (8 - 4) CHR ''=''"
  "base32_encode [a, b, c] = b32_digits 5 (bytes_value [a, b, c] * 2 ^ 1) @ replicate (8 - 5) CHR ''=''"
  "base32_encode [a, b, c, d] = b32_digits 7 (bytes_value [a, b, c, d] * 2 ^ 3) @ replicate (8 - 7) CHR ''=''"
  by (simp_all add: base32_encode_def bytes_value_def Let_def del: b32_digits.simps)

lemma base32_decode_encode:
  "base32_decode_loop (base32_encode s) ret = ret @ s \<and> length (base32_encode s) mod 8 = 0"
proof (induction "length s" arbitrary: s ret rule: less_induct)
  case less
  have short: "base32_decode_loop (b32_digits r (bytes_value s * 2 ^ p) @ replicate (8 - r) CHR ''='') ret = ret @ s"
    if "5 * r = 8 * length s + p" "p < 8" "r < 8" for r p
    using base32_decode_padded [OF bytes_value_less that] by (simp add: value_bytes_value)
  consider "s = []" | a where "s = [a]" | a b where "s = [a, b]" | a b c where "s = [a, b, c]"
    | a b c d where "s = [a, b, c, d]" | a b c d e t where "s = a # b # c # d # e # t"
    by (metis list.exhaust)
  then show ?case
  proof cases
    case 1
    then show ?thesis by (simp add: base32_encode_short base32_decode_loop.simps)
  next
    case 2
    then show ?thesis using short [of 2 2] by (simp add: base32_encode_short del: b32_digits.simps)
  next
    case 3
    then show ?thesis using short [of 4 4] by (simp add: base32_encode_short del: b32_digits.simps)
  next
    case 4
    then show ?thesis using short [of 5 1] by (simp add: base32_encode_short del: b32_digits.simps)
  next
    case 5
    then show ?thesis using short [of 7 3] by (simp add: base32_encode_short del: b32_digits.simps)
  next
    case (6 a b c d e t)
    let ?v = "bytes_value [a, b, c, d, e]"
    have v: "?v < 2 ^ 40" using bytes_value_less [of "[a, b, c, d, e]"] by simp
    have l: "length [a, b, c, d, e] = 5" by simp
    have "value_bytes 5 ?v = [a, b, c, d, e]" using value_bytes_value [of "[a, b, c, d, e]"] unfolding l .
    then show ?thesis using less [of t] 6 base32_decode_group [OF v]
      by (simp add: base32_encode_group del: b32_digits.simps value_bytes.simps)
  qed
qed

lemma base32_roundtrip: "base32_decode (base32_encode s) = s"
  using base32_decode_encode [of s "[]"] by (simp add: base32_decode_def)

subsection \<open>base64\<close>

definition CHAR_TABLE :: string where
  "CHAR_TABLE = ''ABCDEFGHIJKLMNOPQRSTUVWXYZabcdefghijklmnopqrstuvwxyz0123456789+/''"

text \<open>The 256 entries of the table, by the ranges it lists; -1 marks a character outside.\<close>

definition INDEX_TABLE :: "nat \<Rightarrow> int" where
  "INDEX_TABLE n =
     (if n = 43 then 62 else if n = 47 then 63 else if 48 \<le> n \<and> n \<le> 57 then int n + 4
      else if 65 \<le> n \<and> n \<le> 90 then int n - 65 else if 97 \<le> n \<and> n \<le> 122 then int n - 71 else -1)"

definition b64_char :: "nat \<Rightarrow> char" where
  "b64_char n = CHAR_TABLE ! n"

fun base64_encode :: "string \<Rightarrow> string" where
  "base64_encode (a # b # c # src) =
     (let n = code_of a * 2 ^ 16 + code_of b * 2 ^ 8 + code_of c in
      [b64_char (n div 2 ^ 18), b64_char (n div 2 ^ 12 mod 64), b64_char (n div 2 ^ 6 mod 64), b64_char (n mod 64)]
      @ base64_encode src)"
| "base64_encode [a, b] =
     (let n = code_of a * 2 ^ 16 + code_of b * 2 ^ 8 in
      [b64_char (n div 2 ^ 18), b64_char (n div 2 ^ 12 mod 64), b64_char (n div 2 ^ 6 mod 64), CHR ''=''])"
| "base64_encode [a] =
     (let n = code_of a * 2 ^ 16 in [b64_char (n div 2 ^ 18), b64_char (n div 2 ^ 12 mod 64), CHR ''='', CHR ''=''])"
| "base64_encode [] = []"

text \<open>
  \<open>getNext\<close> indexes the table with \<open>static_cast<size_t>(*first)\<close>: over \<open>std::string\<close> a
  character from 0x80 on is a negative \<open>char\<close>, and the index is out of the table. The result is
  \<open>None\<close> then; otherwise the rest of the input from the next symbol on.
\<close>

fun base64_getNext :: "string \<Rightarrow> string option" where
  "base64_getNext [] = Some []"
| "base64_getNext (c # cs) =
     (if 0x80 \<le> code_of c then None
      else if INDEX_TABLE (code_of c) \<noteq> -1 \<or> c = CHR ''='' then Some (c # cs)
      else base64_getNext cs)"

lemma getNext_length: "base64_getNext s = Some s' \<Longrightarrow> length s' \<le> length s"
  by (induction s) (auto split: if_splits)

text \<open>
  The four symbols of a group: \<open>None\<close> for the read out of the table, \<open>Inl i\<close> when the input ends
  before symbol \<open>i\<close>, else the symbols, the position of the first padding (0 for none) and the rest.
\<close>

fun base64_quad :: "nat \<Rightarrow> string \<Rightarrow> string \<Rightarrow> nat \<Rightarrow> (nat + string \<times> nat \<times> string) option" where
  "base64_quad 0 s ks eq = Some (Inr (ks, eq, s))"
| "base64_quad (Suc n) s ks eq =
     (case base64_getNext s of
        None \<Rightarrow> None
      | Some [] \<Rightarrow> Some (Inl (4 - n))
      | Some (c # s') \<Rightarrow> base64_quad n s' (ks @ [c]) (if c = CHR ''='' \<and> eq = 0 then 4 - n else eq))"

definition index_of :: "string \<Rightarrow> nat \<Rightarrow> int" where
  "index_of ks i = INDEX_TABLE (code_of (ks ! i))"

definition base64_finish :: "string \<Rightarrow> string \<Rightarrow> nat \<Rightarrow> string" where
  "base64_finish res ks eq =
     (if eq \<le> 2 then []
      else if \<exists>i\<in>set [eq..<5]. ks ! (i - 1) \<noteq> CHR ''='' then []
      else if eq = 3 then
        (let n = index_of ks 0 * 2 ^ 18 + index_of ks 1 * 2 ^ 12 in res @ [char_of (n div 2 ^ 16)])
      else
        (let n = index_of ks 0 * 2 ^ 18 + index_of ks 1 * 2 ^ 12 + index_of ks 2 * 2 ^ 6 in
         res @ [char_of (n div 2 ^ 16), char_of (n div 2 ^ 8)]))"

lemma quad_length: "base64_quad n s ks eq = Some (Inr (ks', eq', s')) \<Longrightarrow> length s' + n \<le> length s"
proof (induction n s ks eq rule: base64_quad.induct)
  case (2 n s ks eq)
  then show ?case using getNext_length [of s] by (fastforce split: option.splits list.splits)
qed simp

function base64_decode_loop :: "string \<Rightarrow> string \<Rightarrow> string option" where
  "base64_decode_loop s res =
     (if s = [] then Some res
      else case base64_quad 4 s [] 0 of
             None \<Rightarrow> None
           | Some (Inl i) \<Rightarrow> Some (if i \<noteq> 1 then [] else res)
           | Some (Inr (ks, eq, s')) \<Rightarrow>
               if eq \<noteq> 0 then Some (base64_finish res ks eq)
               else let n = index_of ks 0 * 2 ^ 18 + index_of ks 1 * 2 ^ 12 + index_of ks 2 * 2 ^ 6 + index_of ks 3 in
                    base64_decode_loop s' (res @ [char_of (n div 2 ^ 16), char_of (n div 2 ^ 8), char_of n]))"
  by pat_completeness auto
termination
  by (relation "measure (\<lambda>(s, res). length s)") (auto dest: quad_length)

declare base64_decode_loop.simps [simp del]

definition base64_decode :: "string \<Rightarrow> string option" where
  "base64_decode s = base64_decode_loop s []"

lemma b64_char_index:
  "n < 64 \<Longrightarrow> INDEX_TABLE (code_of (b64_char n)) = int n \<and> code_of (b64_char n) < 0x80 \<and> b64_char n \<noteq> CHR ''=''"
proof -
  have "list_all (\<lambda>n. INDEX_TABLE (code_of (b64_char n)) = int n \<and> code_of (b64_char n) < 0x80 \<and> b64_char n \<noteq> CHR ''='') [0..<64]"
    by (simp add: INDEX_TABLE_def b64_char_def CHAR_TABLE_def upt_rec)
  then show "n < 64 \<Longrightarrow> INDEX_TABLE (code_of (b64_char n)) = int n \<and> code_of (b64_char n) < 0x80 \<and> b64_char n \<noteq> CHR ''=''"
    by (simp add: list_all_iff)
qed

lemma getNext_symbol:
  "n < 64 \<Longrightarrow> base64_getNext (b64_char n # cs) = Some (b64_char n # cs)"
  "base64_getNext (CHR ''='' # cs) = Some (CHR ''='' # cs)"
  using b64_char_index [of n] by simp_all

lemma quad_symbols:
  assumes "i < 64" "j < 64" "k < 64" "l < 64"
  shows "base64_quad 4 ([b64_char i, b64_char j, b64_char k, b64_char l] @ cs) [] 0
      = Some (Inr ([b64_char i, b64_char j, b64_char k, b64_char l], 0, cs))"
    and "base64_quad 4 ([b64_char i, b64_char j, b64_char k, CHR ''=''] @ cs) [] 0
      = Some (Inr ([b64_char i, b64_char j, b64_char k, CHR ''=''], 4, cs))"
    and "base64_quad 4 ([b64_char i, b64_char j, CHR ''='', CHR ''=''] @ cs) [] 0
      = Some (Inr ([b64_char i, b64_char j, CHR ''='', CHR ''=''], 3, cs))"
  using assms b64_char_index getNext_symbol
  by (simp_all add: numeral_eq_Suc del: base64_getNext.simps)

lemma index_of_symbols:
  "i < 64 \<Longrightarrow> index_of (b64_char i # ks) 0 = int i"
  "j < 64 \<Longrightarrow> index_of (a # b64_char j # ks) (Suc 0) = int j"
  "k < 64 \<Longrightarrow> index_of (a # b # b64_char k # ks) 2 = int k"
  "l < 64 \<Longrightarrow> index_of (a # b # c # b64_char l # ks) 3 = int l"
  using b64_char_index by (simp_all add: index_of_def)

lemma digits_sum:
  assumes "n < 2 ^ 24"
  shows "n div 2 ^ 18 < 64" "n div 2 ^ 18 * 2 ^ 18 + n div 2 ^ 12 mod 64 * 2 ^ 12 + n div 2 ^ 6 mod 64 * 2 ^ 6 + n mod 64 = (n::nat)"
proof -
  show "n div 2 ^ 18 < 64" using assms by simp
  define q1 q2 q3 where "q1 = n div 64" and "q2 = q1 div 64" and "q3 = q2 div 64"
  note q = q1_def q2_def q3_def
  have e: "n div 2 ^ 18 = q3" "n div 2 ^ 12 = q2" "n div 2 ^ 6 = q1"
    by (simp_all add: q div_mult2_eq [symmetric])
  have "n = q1 * 64 + n mod 64" "q1 = q2 * 64 + q1 mod 64" "q2 = q3 * 64 + q2 mod 64"
    by (simp_all only: q div_mult_mod_eq)
  then have "q3 * 262144 + q2 mod 64 * 4096 + q1 mod 64 * 64 + n mod 64 = n" by linarith
  then show "n div 2 ^ 18 * 2 ^ 18 + n div 2 ^ 12 mod 64 * 2 ^ 12 + n div 2 ^ 6 mod 64 * 2 ^ 6 + n mod 64 = n"
    unfolding e by simp
qed

lemma char_of_int_div: "char_of (int n div 2 ^ k) = char_of (n div 2 ^ k)" "char_of (int n) = char_of n"
  using char_of_nat [of "n div 2 ^ k", where ?'a = int] char_of_nat [of n, where ?'a = int] by (simp_all add: zdiv_int)

lemma decode_symbols:
  assumes "i < 64" "j < 64" "k < 64" "l < 64" "i * 2 ^ 18 + j * 2 ^ 12 + k * 2 ^ 6 + l = n"
  shows "base64_decode_loop ([b64_char i, b64_char j, b64_char k, b64_char l] @ cs) res
    = base64_decode_loop cs (res @ [char_of (n div 2 ^ 16), char_of (n div 2 ^ 8), char_of n])"
proof -
  have "int i * 2 ^ 18 + int j * 2 ^ 12 + int k * 2 ^ 6 + int l = int n" using assms(5) by auto
  then show ?thesis
    unfolding base64_decode_loop.simps [of "[b64_char i, b64_char j, b64_char k, b64_char l] @ cs"] quad_symbols(1) [OF assms(1-4)]
    by (simp only: append_Cons list.distinct if_False option.case sum.case prod.case simp_thms if_True Let_def
        index_of_symbols assms(1-4) char_of_int_div One_nat_def)
qed

lemma code_24 [simp]:
  "code_of a * 65536 + code_of b * 256 + code_of c < 16777216"
  using code_of_le [of a] code_of_le [of b] code_of_le [of c] by linarith

lemma char_of_eqI: "n mod 256 = code_of c \<Longrightarrow> char_of n = c"
  by (metis char_of_char char_of_mod_256)

lemma char_of_bytes:
  "char_of ((code_of a * 65536 + code_of b * 256 + code_of c) div 2 ^ 16) = a"
  "char_of ((code_of a * 65536 + code_of b * 256 + code_of c) div 2 ^ 8) = b"
  "char_of (code_of a * 65536 + code_of b * 256 + code_of c) = c"
proof -
  let ?n = "code_of a * 65536 + code_of b * 256 + code_of c"
  note le = code_of_le [of a] code_of_le [of b] code_of_le [of c]
  have 1: "?n div 2 ^ 16 = code_of a" using le(2,3) by (intro div_nat_eqI) auto
  have 2: "?n div 2 ^ 8 = code_of a * 256 + code_of b" using le(3) by (intro div_nat_eqI) auto
  have 3: "?n mod 256 = code_of c"
  proof -
    have "?n = (code_of a * 256 + code_of b) * 256 + code_of c" by simp
    then show ?thesis by (simp only: mod_mult_self3 of_char_mod_256)
  qed
  show "char_of (?n div 2 ^ 16) = a" unfolding 1 by simp
  show "char_of (?n div 2 ^ 8) = b" unfolding 2 by (rule char_of_eqI) simp
  show "char_of ?n = c" by (rule char_of_eqI) (rule 3)
qed

lemma base64_decode_group:
  "base64_decode_loop (base64_encode (a # b # c # s)) res = base64_decode_loop (base64_encode s) (res @ [a, b, c])"
proof -
  let ?n = "code_of a * 2 ^ 16 + code_of b * 2 ^ 8 + code_of c"
  have n: "?n < 2 ^ 24" by simp
  have "base64_encode (a # b # c # s) = [b64_char (?n div 2 ^ 18), b64_char (?n div 2 ^ 12 mod 64),
      b64_char (?n div 2 ^ 6 mod 64), b64_char (?n mod 64)] @ base64_encode s"
    by (simp only: base64_encode.simps Let_def)
  then show ?thesis
    using decode_symbols [OF digits_sum(1) [OF n] _ _ _ digits_sum(2) [OF n], of "base64_encode s" res]
      char_of_bytes [of a b c] by simp
qed

lemma decode_padded:
  assumes "i < 64" "j < 64" "k < 64"
  shows "i * 2 ^ 18 + j * 2 ^ 12 + k * 2 ^ 6 = n \<Longrightarrow>
      base64_decode_loop [b64_char i, b64_char j, b64_char k, CHR ''=''] res
      = Some (res @ [char_of (n div 2 ^ 16), char_of (n div 2 ^ 8)])"
    and "i * 2 ^ 18 + j * 2 ^ 12 = n \<Longrightarrow>
      base64_decode_loop [b64_char i, b64_char j, CHR ''='', CHR ''=''] res = Some (res @ [char_of (n div 2 ^ 16)])"
proof -
  have set: "set [3..<5] = {3, 4 :: nat}" "set [4..<5] = {4 :: nat}" by auto
  show "base64_decode_loop [b64_char i, b64_char j, b64_char k, CHR ''=''] res
      = Some (res @ [char_of (n div 2 ^ 16), char_of (n div 2 ^ 8)])" if "i * 2 ^ 18 + j * 2 ^ 12 + k * 2 ^ 6 = n"
  proof -
    have "int i * 2 ^ 18 + int j * 2 ^ 12 + int k * 2 ^ 6 = int n" using that by auto
    then have "base64_finish res [b64_char i, b64_char j, b64_char k, CHR ''=''] 4
        = res @ [char_of (n div 2 ^ 16), char_of (n div 2 ^ 8)]"
      by (simp only: base64_finish_def set Let_def index_of_symbols assms char_of_int_div One_nat_def) simp
    then show ?thesis using quad_symbols(2) [OF assms assms(1), of "[]"]
      by (subst base64_decode_loop.simps) simp
  qed
  show "base64_decode_loop [b64_char i, b64_char j, CHR ''='', CHR ''=''] res = Some (res @ [char_of (n div 2 ^ 16)])"
    if "i * 2 ^ 18 + j * 2 ^ 12 = n"
  proof -
    have "int i * 2 ^ 18 + int j * 2 ^ 12 = int n" using that by auto
    then have "base64_finish res [b64_char i, b64_char j, CHR ''='', CHR ''=''] 3 = res @ [char_of (n div 2 ^ 16)]"
      by (simp only: base64_finish_def set Let_def index_of_symbols assms char_of_int_div One_nat_def) simp
    then show ?thesis using quad_symbols(3) [OF assms assms(1), of "[]"]
      by (subst base64_decode_loop.simps) simp
  qed
qed

lemma base64_decode_last:
  "base64_decode_loop (base64_encode [a, b]) res = Some (res @ [a, b])"
  "base64_decode_loop (base64_encode [a]) res = Some (res @ [a])"
proof -
  let ?n = "code_of a * 2 ^ 16 + code_of b * 2 ^ 8" and ?m = "code_of a * 2 ^ 16"
  have n: "?n < 2 ^ 24" "?m < 2 ^ 24" using code_of_le [of a] code_of_le [of b] by simp_all
  have "?n = (code_of a * 1024 + code_of b * 4) * 64" "?m = (code_of a * 16 * 64) * 64" by simp_all
  then have z: "?n mod 64 = 0" "?m mod 64 = 0" "?m div 2 ^ 6 mod 64 = 0"
    by (simp_all only: mod_mult_self2_is_0 mod_mult_self1_is_0 nonzero_mult_div_cancel_right power2_eq_square) simp_all
  have nul: "code_of (CHR 0x00) = 0" by simp
  from char_of_bytes(1,2) [of a b "CHR 0x00"] char_of_bytes(1) [of a "CHR 0x00" "CHR 0x00"]
  have c: "char_of (?n div 2 ^ 16) = a" "char_of (?n div 2 ^ 8) = b" "char_of (?m div 2 ^ 16) = a"
    unfolding nul by simp_all
  have e: "base64_encode [a, b] = [b64_char (?n div 2 ^ 18), b64_char (?n div 2 ^ 12 mod 64), b64_char (?n div 2 ^ 6 mod 64), CHR ''='']"
    "base64_encode [a] = [b64_char (?m div 2 ^ 18), b64_char (?m div 2 ^ 12 mod 64), CHR ''='', CHR ''='']"
    by (simp_all only: base64_encode.simps Let_def)
  have s1: "?n div 2 ^ 18 * 2 ^ 18 + ?n div 2 ^ 12 mod 64 * 2 ^ 12 + ?n div 2 ^ 6 mod 64 * 2 ^ 6 = ?n"
    using digits_sum(2) [OF n(1)] unfolding z(1) by (simp only: add_0_right)
  have s2: "?m div 2 ^ 18 * 2 ^ 18 + ?m div 2 ^ 12 mod 64 * 2 ^ 12 = ?m"
    using digits_sum(2) [OF n(2)] unfolding z(2,3) by (simp only: mult_zero_left add_0_right)
  have m: "x mod 64 < (64 :: nat)" for x by simp
  show "base64_decode_loop (base64_encode [a, b]) res = Some (res @ [a, b])"
    unfolding e(1) decode_padded(1) [OF digits_sum(1) [OF n(1)] m m s1] c(1,2) ..
  show "base64_decode_loop (base64_encode [a]) res = Some (res @ [a])"
    unfolding e(2) decode_padded(2) [OF digits_sum(1) [OF n(2)] m m s2] c(3) ..
qed

lemma base64_decode_encode: "base64_decode_loop (base64_encode s) res = Some (res @ s)"
proof (induction s arbitrary: res rule: base64_encode.induct)
  case (1 a b c s)
  then show ?case by (simp only: base64_decode_group append.assoc append_Cons append_Nil)
next
  case 4
  then show ?case by (simp add: base64_decode_loop.simps)
qed (simp_all only: base64_decode_last)

text \<open>Both codecs decode what they encode, for every byte string; base64 decoding is given
  only symbols inside its table.\<close>
theorem base_codecs_roundtrip:
  "base32_decode (base32_encode s) = s \<and> base64_decode (base64_encode s) = Some s \<and> util_fromHex (util_toHex s) = s"
  by (simp add: base32_roundtrip base64_decode_def base64_decode_encode hex_roundtrip)

text \<open>base64 decoding of ASCII input never reads outside its table; a character from 0x80 on
  where a symbol is expected makes the lookup \<open>tbl[static_cast<size_t>(*first)]\<close> do so.\<close>
theorem base64_decode_defined:
  "((\<forall>c\<in>set s. code_of c < 0x80) \<longrightarrow> base64_decode s \<noteq> None) \<and> (0x80 \<le> code_of c \<longrightarrow> base64_decode (c # s) = None)"
proof (intro conjI impI)
  have next': "base64_getNext s \<noteq> None \<and> (\<forall>s'. base64_getNext s = Some s' \<longrightarrow> (\<forall>c\<in>set s'. code_of c < 0x80))"
    if "\<forall>c\<in>set s. code_of c < 0x80" for s using that by (induction s) auto
  have quad: "base64_quad n s ks eq \<noteq> None \<and> (\<forall>ks' eq' s'. base64_quad n s ks eq = Some (Inr (ks', eq', s')) \<longrightarrow> (\<forall>c\<in>set s'. code_of c < 0x80))"
    if "\<forall>c\<in>set s. code_of c < 0x80" for n s ks eq
    using that
  proof (induction n s ks eq rule: base64_quad.induct)
    case (2 n s ks eq)
    obtain s' where s': "base64_getNext s = Some s'" "\<forall>c\<in>set s'. code_of c < 0x80" using next' [OF 2(2)] by blast
    show ?case
    proof (cases s')
      case (Cons c t)
      then have "\<forall>c\<in>set t. code_of c < 0x80" using s' by auto
      then show ?thesis using 2(1) [OF s'(1) Cons] s'(1) Cons by simp
    qed (use s' in simp)
  qed simp
  have loop: "base64_decode_loop s res \<noteq> None" if "\<forall>c\<in>set s. code_of c < 0x80" for s res
    using that
  proof (induction s res rule: base64_decode_loop.induct)
    case (1 s res)
    then show ?case using quad [OF 1(2), of 4 "[]" 0]
      by (subst base64_decode_loop.simps) (auto split: option.splits sum.splits prod.splits simp: Let_def)
  qed
  show "base64_decode s \<noteq> None" if "\<forall>c\<in>set s. code_of c < 0x80"
    using loop [OF that] by (simp add: base64_decode_def)
  show "base64_decode (c # s) = None" if "0x80 \<le> code_of c"
    using that by (simp add: base64_decode_def base64_decode_loop.simps numeral_eq_Suc)
qed

theorem base64_decode_defined_witness:
  "base64_decode ''TWFu'' \<noteq> None \<and> base64_decode [CHR 0xFF] = None"
  using base64_decode_defined [of "''TWFu''" "CHR 0xFF"] base64_decode_defined [of "[]" "CHR 0xFF"] by simp

end
