(* ===== verification/Stream_Filters.thy ===== *)
theory Stream_Filters
  imports Text_Util
begin

text \<open>
  Stream filters: the interface of \<open>StreamFilter::transform\<close> as a locale, the sink that discards
  (\<open>NullSinkStreamFilter.h\<close>) and the decoder of the chunked transfer coding
  (\<open>ChunkedDecodingStreamFilter.cc\<close>). A filter maps its state and a buffer to an exception's text
  or the new state and the number of bytes it reports.
\<close>

subsection \<open>The interface\<close>

definition filter_bind :: "string + 's \<times> int \<Rightarrow> ('s \<Rightarrow> string + 's \<times> int) \<Rightarrow> string + 's \<times> int" where
  "filter_bind r g = (case r of
     Inl e \<Rightarrow> Inl e
   | Inr (s, n) \<Rightarrow> (case g s of Inl e \<Rightarrow> Inl e | Inr (s', m) \<Rightarrow> Inr (s', n + m)))"

text \<open>A well-behaved filter does not see where the buffers of the connection end.\<close>

locale stream_filter =
  fixes feed :: "'s \<Rightarrow> string \<Rightarrow> string + 's \<times> int"
  assumes feed_Nil: "feed s [] = Inr (s, 0)"
    and feed_append: "feed s (xs @ ys) = filter_bind (feed s xs) (\<lambda>s. feed s ys)"
begin

primrec feed_all :: "'s \<Rightarrow> string list \<Rightarrow> string + 's \<times> int" where
  "feed_all s [] = Inr (s, 0)"
| "feed_all s (b # bs) = filter_bind (feed s b) (\<lambda>s. feed_all s bs)"

lemma feed_all_concat: "feed_all s bs = feed s (concat bs)"
  by (induction bs arbitrary: s) (simp_all add: feed_Nil feed_append filter_bind_def)

lemma feed_all_split: "concat bs = concat bs' \<Longrightarrow> feed_all s bs = feed_all s bs'"
  by (simp add: feed_all_concat)

end

definition NullSinkStreamFilter_transform :: "nat \<Rightarrow> string \<Rightarrow> string + nat \<times> int" where
  "NullSinkStreamFilter_transform bytesProcessed inbuf = Inr (length inbuf, int (length inbuf))"

text \<open>Its \<open>bytesProcessed_\<close> is the length of the last buffer; the rest of it is stateless.\<close>

definition null_feed :: "unit \<Rightarrow> string \<Rightarrow> string + unit \<times> int" where
  "null_feed u inbuf = (case NullSinkStreamFilter_transform 0 inbuf of Inl e \<Rightarrow> Inl e | Inr (_, n) \<Rightarrow> Inr ((), n))"

interpretation null_sink: stream_filter null_feed
  by unfold_locales (simp_all add: null_feed_def NullSinkStreamFilter_transform_def filter_bind_def)

subsection \<open>The chunked decoder\<close>

datatype chunk_state = PREV_CHUNK_SIZE | CHUNK_SIZE | CHUNK_EXTENSION | PREV_CHUNK_SIZE_LF | CHUNK
  | PREV_CHUNK_CR | PREV_CHUNK_LF | PREV_TRAILER | TRAILER | PREV_TRAILER_LF | PREV_END_CR | PREV_END_LF
  | CHUNKS_COMPLETE

record chunked =
  cf_state :: chunk_state
  cf_chunkSize :: "64 word"
  cf_chunkRemaining :: int
  cf_bytesProcessed :: nat

definition Chunked_new :: chunked where
  "Chunked_new = \<lparr>cf_state = PREV_CHUNK_SIZE, cf_chunkSize = 0, cf_chunkRemaining = 0, cf_bytesProcessed = 0\<rparr>"

text \<open>One byte in every state but \<open>CHUNK\<close> and \<open>CHUNKS_COMPLETE\<close>.\<close>

definition chunk_byte :: "chunked \<Rightarrow> char \<Rightarrow> string + chunked" where
  "chunk_byte f c =
     (case cf_state f of
        PREV_CHUNK_SIZE \<Rightarrow>
          if util_isHexDigit c
          then Inr (f\<lparr>cf_chunkSize := of_nat (util_hexCharToUInt c), cf_state := CHUNK_SIZE\<rparr>)
          else Inl ''Bad chunk size: not hex string''
      | CHUNK_SIZE \<Rightarrow>
          if util_isHexDigit c then
            if and (cf_chunkSize f) 0x7800000000000000 \<noteq> 0 then Inl ''Too big chunk size''
            else Inr (f\<lparr>cf_chunkSize := push_bit 4 (cf_chunkSize f) + of_nat (util_hexCharToUInt c)\<rparr>)
          else if c = CHR '';'' then Inr (f\<lparr>cf_state := CHUNK_EXTENSION\<rparr>)
          else if c = CHR 0x0D then Inr (f\<lparr>cf_state := PREV_CHUNK_SIZE_LF\<rparr>)
          else Inl ''Bad chunk size: not hex string''
      | CHUNK_EXTENSION \<Rightarrow> Inr (if c = CHR 0x0D then f\<lparr>cf_state := PREV_CHUNK_SIZE_LF\<rparr> else f)
      | PREV_CHUNK_SIZE_LF \<Rightarrow>
          if c = CHR 0x0A
          then Inr (f\<lparr>cf_chunkRemaining := sint (cf_chunkSize f),
                      cf_state := if cf_chunkSize f = 0 then PREV_TRAILER else CHUNK\<rparr>)
          else Inl ''Bad chunk encoding: missing LF at the end of chunk size''
      | PREV_CHUNK_CR \<Rightarrow>
          if c = CHR 0x0D then Inr (f\<lparr>cf_state := PREV_CHUNK_LF\<rparr>)
          else Inl ''Bad chunk encoding: missing CR at the end of chunk''
      | PREV_CHUNK_LF \<Rightarrow>
          if c = CHR 0x0A then
            (if cf_chunkSize f = 0 then Inr (f\<lparr>cf_state := PREV_TRAILER\<rparr>)
             else Inr (f\<lparr>cf_chunkSize := 0, cf_chunkRemaining := 0, cf_state := PREV_CHUNK_SIZE\<rparr>))
          else Inl ''Bad chunk encoding: missing LF at the end of chunk''
      | PREV_TRAILER \<Rightarrow> Inr (f\<lparr>cf_state := if c = CHR 0x0D then PREV_END_LF else TRAILER\<rparr>)
      | TRAILER \<Rightarrow> Inr (if c = CHR 0x0D then f\<lparr>cf_state := PREV_TRAILER_LF\<rparr> else f)
      | PREV_TRAILER_LF \<Rightarrow>
          if c = CHR 0x0A then Inr (f\<lparr>cf_state := PREV_TRAILER\<rparr>)
          else Inl ''Bad chunk encoding: missing LF at the end of trailer''
      | PREV_END_LF \<Rightarrow>
          if c = CHR 0x0A then Inr (f\<lparr>cf_state := CHUNKS_COMPLETE\<rparr>)
          else Inl ''Bad chunk encoding: missing LF at the end of chunks''
      | _ \<Rightarrow> Inr f)"

text \<open>
  The loop over the buffer: \<open>i\<close> bytes are behind, the last argument is ahead. In state \<open>CHUNK\<close>
  the delegate gets what the buffer holds of the chunk.
\<close>

function chunk_loop :: "('d \<Rightarrow> string \<Rightarrow> string + 'd \<times> int) \<Rightarrow> chunked \<Rightarrow> 'd \<Rightarrow> int \<Rightarrow> nat \<Rightarrow> string \<Rightarrow>
    string + chunked \<times> 'd \<times> int \<times> nat" where
  "chunk_loop dt f d outlen i inbuf =
     (if inbuf = [] then Inr (f, d, outlen, i)
      else if cf_state f = CHUNK then
        (let readlen = min (cf_chunkRemaining f) (int (length inbuf)) in
         case dt d (take (nat readlen) inbuf) of
           Inl e \<Rightarrow> Inl e
         | Inr (d', n) \<Rightarrow>
             chunk_loop dt
               (f\<lparr>cf_chunkRemaining := cf_chunkRemaining f - readlen,
                  cf_state := if cf_chunkRemaining f - readlen = 0 then PREV_CHUNK_CR else CHUNK\<rparr>)
               d' (outlen + n) (i + nat readlen) (drop (nat readlen) inbuf))
      else if cf_state f = CHUNKS_COMPLETE then Inr (f, d, outlen, i)
      else case chunk_byte f (hd inbuf) of
             Inl e \<Rightarrow> Inl e
           | Inr f' \<Rightarrow> chunk_loop dt f' d outlen (Suc i) (tl inbuf))"
  by pat_completeness auto
termination
  by (relation "measures [\<lambda>(dt, f, d, outlen, i, inbuf). length inbuf,
      \<lambda>(dt, f, d, outlen, i, inbuf). if cf_state f = CHUNK then 1 else 0]") auto

declare chunk_loop.simps [simp del]

definition Chunked_transform :: "('d \<Rightarrow> string \<Rightarrow> string + 'd \<times> int) \<Rightarrow> chunked \<times> 'd \<Rightarrow> string \<Rightarrow>
    string + (chunked \<times> 'd) \<times> int" where
  "Chunked_transform dt s inbuf =
     (case chunk_loop dt (fst s) (snd s) 0 0 inbuf of
        Inl e \<Rightarrow> Inl e
      | Inr (f, d, outlen, i) \<Rightarrow> Inr ((f\<lparr>cf_bytesProcessed := i\<rparr>, d), outlen))"

definition Chunked_finished :: "('d \<Rightarrow> bool) \<Rightarrow> chunked \<times> 'd \<Rightarrow> bool" where
  "Chunked_finished df s \<longleftrightarrow> cf_state (fst s) = CHUNKS_COMPLETE \<and> df (snd s)"

text \<open>The filter's state without the counter of the last call.\<close>

definition chunked_feed :: "('d \<Rightarrow> string \<Rightarrow> string + 'd \<times> int) \<Rightarrow> chunked \<times> 'd \<Rightarrow> string \<Rightarrow>
    string + (chunked \<times> 'd) \<times> int" where
  "chunked_feed dt s inbuf =
     (case chunk_loop dt (fst s) (snd s) 0 0 inbuf of Inl e \<Rightarrow> Inl e | Inr (f, d, outlen, i) \<Rightarrow> Inr ((f, d), outlen))"

subsection \<open>Buffers do not matter\<close>

definition loop_bind :: "string + chunked \<times> 'd \<times> int \<times> nat \<Rightarrow>
    (chunked \<Rightarrow> 'd \<Rightarrow> int \<Rightarrow> nat \<Rightarrow> string + chunked \<times> 'd \<times> int \<times> nat) \<Rightarrow> string + chunked \<times> 'd \<times> int \<times> nat" where
  "loop_bind r g = (case r of Inl e \<Rightarrow> Inl e | Inr (f, d, outlen, i) \<Rightarrow> g f d outlen i)"

lemma loop_bind_simps [simp]:
  "loop_bind (Inl e) g = Inl e" "loop_bind (Inr (f, d, outlen, i)) g = g f d outlen i"
  by (simp_all add: loop_bind_def)

lemma chunk_loop_Nil [simp]: "chunk_loop dt f d outlen i [] = Inr (f, d, outlen, i)"
  by (simp add: chunk_loop.simps)

lemma chunk_loop_done [simp]: "cf_state f = CHUNKS_COMPLETE \<Longrightarrow> chunk_loop dt f d outlen i s = Inr (f, d, outlen, i)"
  by (simp add: chunk_loop.simps)

lemma chunk_loop_byte:
  "cf_state f \<noteq> CHUNK \<Longrightarrow> cf_state f \<noteq> CHUNKS_COMPLETE \<Longrightarrow> chunk_loop dt f d outlen i (c # cs)
    = (case chunk_byte f c of Inl e \<Rightarrow> Inl e | Inr f' \<Rightarrow> chunk_loop dt f' d outlen (Suc i) cs)"
  unfolding chunk_loop.simps [of dt f d outlen i "c # cs"] list.sel by simp

text \<open>Inside a chunk the first \<open>readlen\<close> bytes go to the delegate.\<close>

lemma chunk_loop_chunk:
  assumes "cf_state f = CHUNK" "s \<noteq> []"
  defines "k \<equiv> min (cf_chunkRemaining f) (int (length s))"
  shows "chunk_loop dt f d outlen i s = (case dt d (take (nat k) s) of
      Inl e \<Rightarrow> Inl e
    | Inr (d', n) \<Rightarrow> chunk_loop dt (f\<lparr>cf_chunkRemaining := cf_chunkRemaining f - k,
        cf_state := if cf_chunkRemaining f - k = 0 then PREV_CHUNK_CR else CHUNK\<rparr>) d' (outlen + n) (i + nat k) (drop (nat k) s))"
  using assms(1,2) unfolding k_def chunk_loop.simps [of dt f d outlen i s] Let_def by simp

lemma chunk_loop_append:
  assumes "stream_filter dt"
  shows "chunk_loop dt f d outlen i (xs @ ys)
    = loop_bind (chunk_loop dt f d outlen i xs) (\<lambda>f d outlen i. chunk_loop dt f d outlen i ys)"
  using assms
proof (induction dt f d outlen i xs rule: chunk_loop.induct)
  case (1 dt f d outlen i xs)
  note append = stream_filter.feed_append [OF 1(3)]
  consider "xs = [] \<or> ys = [] \<or> cf_state f = CHUNKS_COMPLETE" | "xs \<noteq> []" "ys \<noteq> []" "cf_state f = CHUNK"
    | c cs where "xs = c # cs" "cf_state f \<noteq> CHUNK" "cf_state f \<noteq> CHUNKS_COMPLETE"
    by (cases xs) auto
  then show ?case
  proof cases
    case 1
    then show ?thesis by (auto simp: loop_bind_def split: sum.split prod.split)
  next
    case 2
    let ?m = "cf_chunkRemaining f"
    note ch = chunk_loop_chunk [where dt = dt and d = d and f = f and outlen = outlen and i = i, OF 2(3)]
    show ?thesis
    proof (cases "?m \<le> int (length xs)")
      case True
      have k: "min ?m (int (length (xs @ ys))) = ?m" "min ?m (int (length xs)) = ?m" using True by simp_all
      have tk: "take (nat ?m) (xs @ ys) = take (nat ?m) xs" "drop (nat ?m) (xs @ ys) = drop (nat ?m) xs @ ys" using True by simp_all
      have IH: "chunk_loop dt (f\<lparr>cf_chunkRemaining := ?m - ?m, cf_state := if ?m - ?m = 0 then PREV_CHUNK_CR else CHUNK\<rparr>)
          d' (outlen + n) (i + nat ?m) (drop (nat ?m) xs @ ys)
        = loop_bind (chunk_loop dt (f\<lparr>cf_chunkRemaining := ?m - ?m, cf_state := if ?m - ?m = 0 then PREV_CHUNK_CR else CHUNK\<rparr>)
          d' (outlen + n) (i + nat ?m) (drop (nat ?m) xs)) (\<lambda>f d outlen i. chunk_loop dt f d outlen i ys)"
        if "dt d (take (nat ?m) xs) = Inr (d', n)" for d' n
        using 1(1) [OF 2(1,3) refl, unfolded k, OF that refl 1(3)] .
      have "xs @ ys \<noteq> []" using 2 by simp
      then show ?thesis unfolding ch [OF \<open>xs @ ys \<noteq> []\<close>] ch [OF 2(1)] k tk
        by (cases "dt d (take (nat ?m) xs)") (auto simp only: sum.case prod.case loop_bind_simps IH)
    next
      case False
      define j where "j = min (?m - int (length xs)) (int (length ys))"
      have j: "0 < j" using False 2(2) by (cases ys) (auto simp: j_def)
      have k: "min ?m (int (length (xs @ ys))) = int (length xs) + j" "min ?m (int (length xs)) = int (length xs)"
        using False by (simp_all add: j_def)
      have tk: "take (length xs + nat j) (xs @ ys) = xs @ take (nat j) ys"
        "drop (length xs + nat j) (xs @ ys) = drop (nat j) ys" "nat (int (length xs) + j) = length xs + nat j"
        using j by (simp_all add: nat_add_distrib)
      have rem: "?m - (int (length xs) + j) = ?m - int (length xs) - j" "?m - int (length xs) \<noteq> 0" using False by simp_all
      let ?f1 = "f\<lparr>cf_chunkRemaining := ?m - int (length xs), cf_state := CHUNK\<rparr>"
      have xs: "chunk_loop dt f d outlen i xs = (case dt d xs of Inl e \<Rightarrow> Inl e
          | Inr (d1, n) \<Rightarrow> Inr (?f1, d1, outlen + n, i + length xs))"
        unfolding ch [OF 2(1)] k using False by (simp split: sum.split prod.split)
      have f1: "cf_state ?f1 = CHUNK" "min (cf_chunkRemaining ?f1) (int (length ys)) = j" by (simp_all add: j_def)
      have ys: "chunk_loop dt ?f1 d1 o1 i1 ys = (case dt d1 (take (nat j) ys) of Inl e \<Rightarrow> Inl e
          | Inr (d2, n) \<Rightarrow> chunk_loop dt (f\<lparr>cf_chunkRemaining := ?m - int (length xs) - j,
              cf_state := if ?m - int (length xs) - j = 0 then PREV_CHUNK_CR else CHUNK\<rparr>) d2 (o1 + n) (i1 + nat j) (drop (nat j) ys))"
        for d1 o1 i1
        unfolding chunk_loop_chunk [OF f1(1) 2(2)] f1(2) by (simp cong: sum.case_cong)
      have "xs @ ys \<noteq> []" using 2 by simp
      have split: "dt d (xs @ take (nat j) ys) = filter_bind (dt d xs) (\<lambda>d. dt d (take (nat j) ys))"
        by (rule append)
      show ?thesis
      proof (cases "dt d xs")
        case (Inl e)
        then show ?thesis unfolding ch [OF \<open>xs @ ys \<noteq> []\<close>] k tk split xs by (simp add: filter_bind_def)
      next
        case (Inr r)
        obtain d1 n1 where r: "r = (d1, n1)" by force
        have "chunk_loop dt f d outlen i xs = Inr (?f1, d1, outlen + n1, i + length xs)" unfolding xs Inr r by simp
        then show ?thesis unfolding ch [OF \<open>xs @ ys \<noteq> []\<close>] k tk split Inr r rem(1) filter_bind_def
          by (cases "dt d1 (take (nat j) ys)") (auto simp add: ys add.assoc)
      qed
    qed
  next
    case (3 c cs)
    then show ?thesis using 1(2) [OF _ 3(2,3)] 1(3) by (simp add: chunk_loop_byte split: sum.split)
  qed
qed

text \<open>The counters only add up.\<close>

lemma chunk_loop_shift:
  "chunk_loop dt f d (o0 + outlen) (i0 + i) s
    = loop_bind (chunk_loop dt f d outlen i s) (\<lambda>f d outlen i. Inr (f, d, o0 + outlen, i0 + i))"
proof (induction dt f d outlen i s rule: chunk_loop.induct)
  case (1 dt f d outlen i s)
  consider "s = [] \<or> cf_state f = CHUNKS_COMPLETE" | "s \<noteq> []" "cf_state f = CHUNK"
    | c cs where "s = c # cs" "cf_state f \<noteq> CHUNK" "cf_state f \<noteq> CHUNKS_COMPLETE"
    by (cases s) auto
  then show ?case
  proof cases
    case 1
    then show ?thesis by auto
  next
    case 2
    show ?thesis unfolding chunk_loop_chunk [OF 2(2,1)]
      using 1(1) [OF 2 refl] by (auto simp: add.assoc split: sum.split prod.split)
  next
    case (3 c cs)
    then show ?thesis using 1(2) [OF _ 3(2,3)] by (simp add: chunk_loop_byte split: sum.split)
  qed
qed

lemma chunked_feed_stream_filter: "stream_filter dt \<Longrightarrow> stream_filter (chunked_feed dt)"
proof
  assume dt: "stream_filter dt"
  show "chunked_feed dt s [] = Inr (s, 0)" for s by (simp add: chunked_feed_def)
  show "chunked_feed dt s (xs @ ys) = filter_bind (chunked_feed dt s xs) (\<lambda>s. chunked_feed dt s ys)" for s xs ys
  proof -
    have shift: "chunk_loop dt f d outlen i ys
      = loop_bind (chunk_loop dt f d 0 0 ys) (\<lambda>f d o' i'. Inr (f, d, outlen + o', i + i'))" for f d outlen i
      using chunk_loop_shift [of dt f d outlen 0 i 0 ys] by simp
    show ?thesis
    proof (cases "chunk_loop dt (fst s) (snd s) 0 0 xs")
      case (Inl e)
      then show ?thesis by (simp add: chunked_feed_def chunk_loop_append [OF dt] filter_bind_def)
    next
      case (Inr r)
      obtain f d outlen i where r: "r = (f, d, outlen, i)" by (cases r) auto
      show ?thesis unfolding chunked_feed_def chunk_loop_append [OF dt] Inr r loop_bind_simps shift [of f d outlen i]
        by (cases "chunk_loop dt f d 0 0 ys") (auto simp: filter_bind_def)
    qed
  qed
qed

interpretation chunked_null: stream_filter "chunked_feed null_feed"
  by (rule chunked_feed_stream_filter) (rule null_sink.stream_filter_axioms)

subsection \<open>The size of a chunk\<close>

definition hex_value :: "nat \<Rightarrow> string \<Rightarrow> nat" where
  "hex_value = foldl (\<lambda>a c. a * 16 + util_hexCharToUInt c)"

lemma hex_value_simps [simp]: "hex_value v [] = v" "hex_value v (c # cs) = hex_value (v * 16 + util_hexCharToUInt c) cs"
  by (simp_all add: hex_value_def)

lemma hex_value_ge: "v \<le> hex_value v cs"
proof (induction cs arbitrary: v)
  case (Cons c cs)
  have "v \<le> v * 16 + util_hexCharToUInt c" by simp
  then show ?case using Cons [of "v * 16 + util_hexCharToUInt c"] by simp
qed simp

lemma hexCharToUInt_less: "util_isHexDigit c \<Longrightarrow> util_hexCharToUInt c < 16"
  by (auto simp: hex_defs)

lemma size_mask:
  assumes "v < 2 ^ 63"
  shows "and (of_nat v :: 64 word) 0x7800000000000000 = 0 \<longleftrightarrow> v < 2 ^ 59"
proof -
  have m: "(0x7800000000000000 :: nat) = push_bit 59 (mask 4)" by (simp add: mask_eq_exp_minus_1 push_bit_eq_mult)
  have "and v (push_bit 59 (mask 4)) = push_bit 59 (take_bit 4 (drop_bit 59 v))"
    by (rule bit_eqI) (auto simp: bit_simps)
  also have "take_bit 4 (drop_bit 59 v) = v div 2 ^ 59"
    using assms by (simp add: take_bit_eq_mod drop_bit_eq_div)
  finally have n: "and v 0x7800000000000000 = push_bit 59 (v div 2 ^ 59)" unfolding m .
  have "and (of_nat v :: 64 word) 0x7800000000000000 = of_nat (and v 0x7800000000000000)"
    by (simp add: of_nat_and_eq)
  also have "\<dots> = 0 \<longleftrightarrow> and v 0x7800000000000000 = 0"
  proof -
    let ?q = "and v 0x7800000000000000"
    have "?q \<le> v" unfolding n by (simp add: push_bit_eq_mult)
    then have "?q < 2 ^ 64" using assms by simp
    then have "2 ^ 64 dvd ?q \<longleftrightarrow> ?q = 0" using dvd_imp_le by fastforce
    then show ?thesis by (simp add: word_of_nat_eq_0_iff)
  qed
  finally show ?thesis unfolding n by (simp add: push_bit_eq_mult div_eq_0_iff)
qed

lemma size_shift: "push_bit 4 (of_nat v :: 64 word) + of_nat d = of_nat (v * 16 + d)"
  by (simp add: push_bit_eq_mult)

lemma sint_size: "v < 2 ^ 63 \<Longrightarrow> sint (of_nat v :: 64 word) = int v"
  by (simp add: sint_uint signed_take_bit_int_eq_self uint_nat unat_of_nat)

lemma chunk_size_loop:
  assumes "cf_state f = CHUNK_SIZE" "cf_chunkSize f = of_nat v" "v < 2 ^ 63" "list_all util_isHexDigit cs"
  shows "chunk_loop dt f d outlen i cs
    = (if hex_value v cs < 2 ^ 63
       then Inr (f\<lparr>cf_chunkSize := of_nat (hex_value v cs)\<rparr>, d, outlen, i + length cs)
       else Inl ''Too big chunk size'')"
  using assms
proof (induction cs arbitrary: f v i)
  case Nil
  then show ?case by simp
next
  case (Cons c cs)
  let ?v = "v * 16 + util_hexCharToUInt c"
  have d: "util_isHexDigit c" "util_hexCharToUInt c < 16" using Cons.prems(4) hexCharToUInt_less by auto
  show ?case
  proof (cases "v < 2 ^ 59")
    case True
    let ?f = "f\<lparr>cf_chunkSize := of_nat ?v\<rparr>"
    have v: "?v < 2 ^ 63" using True d(2) by simp
    have "chunk_byte f c = Inr ?f"
      using Cons.prems(1-3) d(1) True size_mask [of v] size_shift [of v "util_hexCharToUInt c"]
      by (simp add: chunk_byte_def)
    then have "chunk_loop dt f d outlen i (c # cs) = chunk_loop dt ?f d outlen (Suc i) cs"
      using Cons.prems(1) by (subst chunk_loop_byte) simp_all
    also have "\<dots> = (if hex_value ?v cs < 2 ^ 63 then Inr (?f\<lparr>cf_chunkSize := of_nat (hex_value ?v cs)\<rparr>, d, outlen, Suc i + length cs)
        else Inl ''Too big chunk size'')"
      by (rule Cons.IH) (use Cons.prems v in simp_all)
    finally show ?thesis by simp
  next
    case False
    have "chunk_byte f c = Inl ''Too big chunk size''"
      using Cons.prems(1-3) d(1) False size_mask [of v] by (simp add: chunk_byte_def)
    moreover have "\<not> hex_value ?v cs < 2 ^ 63" using hex_value_ge [of ?v cs] False by simp
    ultimately show ?thesis using Cons.prems(1) by (subst chunk_loop_byte) simp_all
  qed
qed

lemma chunk_size_start:
  assumes "cf_state f = PREV_CHUNK_SIZE" "hs \<noteq> []" "list_all util_isHexDigit hs"
  shows "chunk_loop dt f d outlen i hs
    = (if hex_value 0 hs < 2 ^ 63
       then Inr (f\<lparr>cf_state := CHUNK_SIZE, cf_chunkSize := of_nat (hex_value 0 hs)\<rparr>, d, outlen, i + length hs)
       else Inl ''Too big chunk size'')"
proof -
  obtain c cs where hs: "hs = c # cs" using assms(2) by (cases hs) auto
  let ?f = "f\<lparr>cf_chunkSize := of_nat (util_hexCharToUInt c), cf_state := CHUNK_SIZE\<rparr>"
  have c: "util_isHexDigit c" "util_hexCharToUInt c < 2 ^ 63" using assms(3) hs hexCharToUInt_less [of c] by auto
  have "chunk_loop dt f d outlen i hs = chunk_loop dt ?f d outlen (Suc i) cs"
    using assms(1) c(1) unfolding hs by (subst chunk_loop_byte) (simp_all add: chunk_byte_def)
  then show ?thesis
    using chunk_size_loop [of ?f "util_hexCharToUInt c" cs dt d outlen "Suc i"] c(2) assms(3) hs by simp
qed

text \<open>C28: A chunk size of any number of hex digits is read exactly when it fits into
  \<open>int64_t\<close>; otherwise the filter throws before the shift could overflow, and a size that starts
  with no hex digit is refused.\<close>
theorem chunk_size_exact:
  assumes "cf_state f = PREV_CHUNK_SIZE" "hs \<noteq> []" "list_all util_isHexDigit hs" "\<not> util_isHexDigit c"
  shows "chunk_loop dt f d outlen i hs
      = (if hex_value 0 hs < 2 ^ 63
         then Inr (f\<lparr>cf_state := CHUNK_SIZE, cf_chunkSize := of_nat (hex_value 0 hs)\<rparr>, d, outlen, i + length hs)
         else Inl ''Too big chunk size'')
    \<and> chunk_loop dt f d outlen i (c # s) = Inl ''Bad chunk size: not hex string''"
proof
  show "chunk_loop dt f d outlen i (c # s) = Inl ''Bad chunk size: not hex string''"
    using assms(1,4) by (subst chunk_loop_byte) (simp_all add: chunk_byte_def)
qed (rule chunk_size_start [OF assms(1-3)])

theorem chunk_size_exact_witness:
  "chunk_loop null_feed Chunked_new () 0 0 ''1aF''
     = Inr (Chunked_new\<lparr>cf_state := CHUNK_SIZE, cf_chunkSize := 0x1af\<rparr>, (), 0, 3)"
  using chunk_size_exact [of Chunked_new "''1aF''" "CHR ''x''" null_feed "()" 0 0 "[]"]
  by (simp add: Chunked_new_def hex_defs)

subsection \<open>Decoding a message\<close>

text \<open>A chunk on the wire: the hex digits, an extension, the data; then the last chunk and trailers.\<close>

definition CRLF :: string where
  "CRLF = [CHR 0x0D, CHR 0x0A]"

definition ext_ok :: "string \<Rightarrow> bool" where
  "ext_ok ext \<longleftrightarrow> (ext = [] \<or> hd ext = CHR '';'') \<and> CHR 0x0D \<notin> set ext"

fun chunk_wire :: "string \<times> string \<times> string \<Rightarrow> string" where
  "chunk_wire (hs, ext, data) = hs @ ext @ CRLF @ data @ CRLF"

fun chunk_ok :: "string \<times> string \<times> string \<Rightarrow> bool" where
  "chunk_ok (hs, ext, data) \<longleftrightarrow> hs \<noteq> [] \<and> list_all util_isHexDigit hs \<and> hex_value 0 hs = length data \<and> data \<noteq> []
     \<and> length data < 2 ^ 63 \<and> ext_ok ext"

definition chunk_data :: "string \<times> string \<times> string \<Rightarrow> string" where
  "chunk_data x = snd (snd x)"

lemma chunk_data_simp [simp]: "chunk_data (hs, ext, data) = data"
  by (simp add: chunk_data_def)

definition chunked_message :: "(string \<times> string \<times> string) list \<Rightarrow> string \<Rightarrow> string \<Rightarrow> string list \<Rightarrow> string" where
  "chunked_message chunks hs ext trailers =
     concat (map chunk_wire chunks) @ hs @ ext @ CRLF @ concat (map (\<lambda>l. l @ CRLF) trailers) @ CRLF"

definition last_chunk_ok :: "string \<Rightarrow> string \<Rightarrow> string list \<Rightarrow> bool" where
  "last_chunk_ok hs ext trailers \<longleftrightarrow> hs \<noteq> [] \<and> list_all util_isHexDigit hs \<and> hex_value 0 hs = 0 \<and> ext_ok ext
     \<and> (\<forall>l\<in>set trailers. l \<noteq> [] \<and> CHR 0x0D \<notin> set l)"

lemma chunk_skip:
  assumes "cf_state f = CHUNK_EXTENSION \<or> cf_state f = TRAILER" "CHR 0x0D \<notin> set cs"
  shows "chunk_loop dt f d outlen i cs = Inr (f, d, outlen, i + length cs)"
  using assms
proof (induction cs arbitrary: i)
  case (Cons c cs)
  have c: "c \<noteq> CHR 0x0D" "CHR 0x0D \<notin> set cs" using Cons.prems(2) by auto
  have st: "cf_state f \<noteq> CHUNK" "cf_state f \<noteq> CHUNKS_COMPLETE" using Cons.prems(1) by auto
  have "chunk_byte f c = Inr f" using Cons.prems(1) c(1) by (elim disjE) (simp_all add: chunk_byte_def)
  then show ?case using Cons.IH [OF Cons.prems(1) c(2)] by (simp add: chunk_loop_byte [OF st])
qed simp

lemma not_hex: "\<not> util_isHexDigit CHR '';''" "\<not> util_isHexDigit CHR 0x0D"
  by (simp_all add: hex_defs)

lemma chunk_two_bytes:
  assumes "cf_state f \<notin> {CHUNK, CHUNKS_COMPLETE}" "chunk_byte f a = Inr f1"
    and "cf_state f1 \<notin> {CHUNK, CHUNKS_COMPLETE}" "chunk_byte f1 b = Inr f2"
  shows "chunk_loop dt f d outlen i [a, b] = Inr (f2, d, outlen, i + 2)"
  using assms by (simp add: chunk_loop_byte)

lemma chunk_size_CRLF:
  assumes "cf_state f = CHUNK_SIZE \<or> cf_state f = CHUNK_EXTENSION"
  shows "chunk_loop dt f d outlen i CRLF
    = Inr (f\<lparr>cf_chunkRemaining := sint (cf_chunkSize f), cf_state := if cf_chunkSize f = 0 then PREV_TRAILER else CHUNK\<rparr>,
        d, outlen, i + 2)"
  unfolding CRLF_def
  by (rule chunk_two_bytes [where ?f1.0 = "f\<lparr>cf_state := PREV_CHUNK_SIZE_LF\<rparr>"])
    (use assms in \<open>auto simp: chunk_byte_def not_hex\<close>)

lemma chunk_size_end:
  assumes dt: "stream_filter dt" and "cf_state f = CHUNK_SIZE" "ext_ok ext"
  shows "chunk_loop dt f d outlen i (ext @ CRLF)
    = Inr (f\<lparr>cf_chunkRemaining := sint (cf_chunkSize f), cf_state := if cf_chunkSize f = 0 then PREV_TRAILER else CHUNK\<rparr>,
        d, outlen, i + length ext + 2)"
proof (cases ext)
  case Nil
  then show ?thesis using chunk_size_CRLF [of f dt d outlen i] assms(2) by simp
next
  case (Cons c cs)
  then have c: "c = CHR '';''" "CHR 0x0D \<notin> set cs" using assms(3) by (auto simp: ext_ok_def)
  let ?f = "f\<lparr>cf_state := CHUNK_EXTENSION\<rparr>"
  have "chunk_byte f c = Inr ?f" using assms(2) c(1) by (simp add: chunk_byte_def not_hex)
  then have "chunk_loop dt f d outlen i (ext @ CRLF) = chunk_loop dt ?f d outlen (Suc i) (cs @ CRLF)"
    using assms(2) unfolding Cons append_Cons by (subst chunk_loop_byte) simp_all
  also have "\<dots> = chunk_loop dt ?f d outlen (Suc i + length cs) CRLF"
    using chunk_skip [of ?f cs dt d outlen "Suc i"] c(2) by (simp add: chunk_loop_append [OF dt])
  finally show ?thesis using Cons chunk_size_CRLF [of ?f dt d outlen "Suc i + length cs"] by simp
qed

lemma chunk_one:
  assumes dt: "stream_filter dt" and f: "cf_state f = PREV_CHUNK_SIZE" and "chunk_ok (hs, ext, data)"
  shows "chunk_loop dt f d outlen i (chunk_wire (hs, ext, data)) = (case dt d data of
      Inl e \<Rightarrow> Inl e
    | Inr (d', n) \<Rightarrow> Inr (f\<lparr>cf_chunkSize := 0, cf_chunkRemaining := 0\<rparr>, d', outlen + n, i + length (chunk_wire (hs, ext, data))))"
proof -
  have c: "hs \<noteq> []" "list_all util_isHexDigit hs" "hex_value 0 hs = length data" "data \<noteq> []" "length data < 2 ^ 63" "ext_ok ext"
    using assms(3) by auto
  let ?w = "of_nat (length data) :: 64 word"
  let ?f1 = "f\<lparr>cf_state := CHUNK_SIZE, cf_chunkSize := ?w\<rparr>"
  let ?f2 = "f\<lparr>cf_state := CHUNK, cf_chunkSize := ?w, cf_chunkRemaining := int (length data)\<rparr>"
  let ?f3 = "f\<lparr>cf_state := PREV_CHUNK_CR, cf_chunkSize := ?w, cf_chunkRemaining := 0\<rparr>"
  have s: "sint ?w = int (length data)" using sint_size [OF c(5)] .
  have w: "?w \<noteq> 0" using s c(4) by (metis length_greater_0_conv of_nat_0_less_iff signed_0 less_irrefl)
  have 1: "chunk_loop dt f d outlen i hs = Inr (?f1, d, outlen, i + length hs)"
    using chunk_size_start [OF f c(1,2), of dt d outlen i] c(3,5) by simp
  have 2: "chunk_loop dt ?f1 d outlen j (ext @ CRLF) = Inr (?f2, d, outlen, j + length ext + 2)" for j
    using chunk_size_end [OF dt _ c(6), of ?f1 d outlen j] w s by simp
  have 3: "chunk_loop dt ?f2 d outlen j data = (case dt d data of Inl e \<Rightarrow> Inl e
      | Inr (d', n) \<Rightarrow> Inr (?f3, d', outlen + n, j + length data))" for j
    using c(4) by (subst chunk_loop_chunk) (simp_all split: sum.split prod.split)
  have 4: "chunk_loop dt ?f3 d' o' j CRLF = Inr (f\<lparr>cf_chunkSize := 0, cf_chunkRemaining := 0\<rparr>, d', o', j + 2)" for d' o' j
    unfolding CRLF_def
    by (rule chunk_two_bytes [where ?f1.0 = "?f3\<lparr>cf_state := PREV_CHUNK_LF\<rparr>"])
      (use w f in \<open>auto simp: chunk_byte_def\<close>)
  show ?thesis
  proof (cases "dt d data")
    case (Inl e)
    have "chunk_loop dt ?f2 d outlen j data = Inl e" for j unfolding 3 Inl by simp
    then show ?thesis using 1 2 Inl unfolding chunk_wire.simps append_assoc [of ext CRLF, symmetric] chunk_loop_append [OF dt] by simp
  next
    case (Inr r)
    obtain d' n where r: "r = (d', n)" by force
    have "chunk_loop dt ?f2 d outlen j data = Inr (?f3, d', outlen + n, j + length data)" for j unfolding 3 Inr r by simp
    then show ?thesis using 1 2 4 Inr r
      unfolding chunk_wire.simps append_assoc [of ext CRLF, symmetric] chunk_loop_append [OF dt] by (simp add: CRLF_def)
  qed
qed

lemma chunk_many:
  assumes dt: "stream_filter dt" and "cf_state f = PREV_CHUNK_SIZE" "\<forall>x\<in>set chunks. chunk_ok x"
    and "cf_chunkSize f = 0" "cf_chunkRemaining f = 0"
  shows "chunk_loop dt f d outlen i (concat (map chunk_wire chunks)) = (case dt d (concat (map chunk_data chunks)) of
      Inl e \<Rightarrow> Inl e
    | Inr (d', n) \<Rightarrow> Inr (f, d', outlen + n, i + length (concat (map chunk_wire chunks))))"
  using assms(3)
proof (induction chunks arbitrary: d outlen i)
  case Nil
  then show ?case by (simp add: stream_filter.feed_Nil [OF dt])
next
  case (Cons x xs)
  obtain hs ext data where x: "x = (hs, ext, data)" by (cases x) auto
  have ok: "chunk_ok (hs, ext, data)" "\<forall>x\<in>set xs. chunk_ok x" using Cons.prems x by auto
  have f: "f\<lparr>cf_chunkSize := 0, cf_chunkRemaining := 0\<rparr> = f" using assms(4,5) by (cases f) simp
  note one = chunk_one [OF dt assms(2) ok(1), of d outlen i, unfolded f]
  have sp: "dt d (data @ concat (map chunk_data xs))
      = filter_bind (dt d data) (\<lambda>d. dt d (concat (map chunk_data xs)))"
    by (rule stream_filter.feed_append [OF dt])
  show ?case
  proof (cases "dt d data")
    case (Inl e)
    then show ?thesis using one sp
      by (simp add: x chunk_loop_append [OF dt] filter_bind_def del: chunk_wire.simps)
  next
    case (Inr r)
    obtain d' n where r: "r = (d', n)" by force
    have "chunk_loop dt f d outlen i (concat (map chunk_wire (x # xs)))
        = chunk_loop dt f d' (outlen + n) (i + length (chunk_wire (hs, ext, data))) (concat (map chunk_wire xs))"
      using one Inr r by (simp add: x chunk_loop_append [OF dt] del: chunk_wire.simps)
    then show ?thesis using Cons.IH [OF ok(2), of d' "outlen + n" "i + length (chunk_wire (hs, ext, data))"] sp Inr r
      by (simp add: x filter_bind_def add.assoc del: chunk_wire.simps split: sum.split prod.split)
  qed
qed

lemma chunk_trailers:
  assumes dt: "stream_filter dt" and "cf_state f = PREV_TRAILER" "\<forall>l\<in>set trailers. l \<noteq> [] \<and> CHR 0x0D \<notin> set l"
  shows "chunk_loop dt f d outlen i (concat (map (\<lambda>l. l @ CRLF) trailers))
    = Inr (f, d, outlen, i + length (concat (map (\<lambda>l. l @ CRLF) trailers)))"
  using assms(3)
proof (induction trailers arbitrary: i)
  case (Cons l ls)
  then obtain c cs where l: "l = c # cs" "c \<noteq> CHR 0x0D" "CHR 0x0D \<notin> set cs" by (cases l) auto
  let ?f = "f\<lparr>cf_state := TRAILER\<rparr>"
  have "chunk_byte f c = Inr ?f" using assms(2) l(2) by (simp add: chunk_byte_def)
  then have "chunk_loop dt f d outlen i (l @ t) = chunk_loop dt ?f d outlen (Suc i) (cs @ t)" for t
    using assms(2) unfolding l(1) append_Cons by (subst chunk_loop_byte) simp_all
  also have "chunk_loop dt ?f d outlen (Suc i) (cs @ t) = chunk_loop dt ?f d outlen (Suc i + length cs) t" for t
    using chunk_skip [of ?f cs dt d outlen "Suc i"] l(3) by (simp add: chunk_loop_append [OF dt])
  finally have line: "chunk_loop dt f d outlen i (l @ t) = chunk_loop dt ?f d outlen (i + length l) t" for t
    using l(1) by simp
  have f: "f\<lparr>cf_state := PREV_TRAILER\<rparr> = f" using assms(2) by (cases f) simp
  have "chunk_loop dt ?f d outlen j CRLF = Inr (f\<lparr>cf_state := PREV_TRAILER\<rparr>, d, outlen, j + 2)" for j
    unfolding CRLF_def
    by (rule chunk_two_bytes [where ?f1.0 = "f\<lparr>cf_state := PREV_TRAILER_LF\<rparr>"]) (simp_all add: chunk_byte_def)
  then have "chunk_loop dt f d outlen i (l @ CRLF) = Inr (f, d, outlen, i + length l + 2)" using line f by simp
  moreover have "\<forall>l\<in>set ls. l \<noteq> [] \<and> CHR 0x0D \<notin> set l" using Cons.prems by simp
  ultimately show ?case using Cons.IH [of "i + length l + 2"]
    by (simp add: chunk_loop_append [OF dt] append_assoc [symmetric] CRLF_def del: append_assoc)
qed simp

lemma chunk_last:
  assumes dt: "stream_filter dt" and "last_chunk_ok hs ext trailers"
  shows "chunk_loop dt Chunked_new d outlen i (hs @ ext @ CRLF @ concat (map (\<lambda>l. l @ CRLF) trailers) @ CRLF @ extra)
    = Inr (Chunked_new\<lparr>cf_state := CHUNKS_COMPLETE\<rparr>, d, outlen,
        i + length (hs @ ext @ CRLF @ concat (map (\<lambda>l. l @ CRLF) trailers) @ CRLF))"
proof -
  have l: "hs \<noteq> []" "list_all util_isHexDigit hs" "hex_value 0 hs = 0" "ext_ok ext"
    "\<forall>l\<in>set trailers. l \<noteq> [] \<and> CHR 0x0D \<notin> set l" using assms(2) by (auto simp: last_chunk_ok_def)
  let ?f1 = "Chunked_new\<lparr>cf_state := CHUNK_SIZE\<rparr>" and ?f2 = "Chunked_new\<lparr>cf_state := PREV_TRAILER\<rparr>"
    and ?f3 = "Chunked_new\<lparr>cf_state := CHUNKS_COMPLETE\<rparr>"
  have n: "cf_state Chunked_new = PREV_CHUNK_SIZE" "Chunked_new\<lparr>cf_state := s, cf_chunkSize := 0\<rparr> = Chunked_new\<lparr>cf_state := s\<rparr>"
    "Chunked_new\<lparr>cf_chunkRemaining := 0, cf_state := s\<rparr> = Chunked_new\<lparr>cf_state := s\<rparr>" "cf_chunkSize Chunked_new = 0" for s
    by (simp_all add: Chunked_new_def)
  have 1: "chunk_loop dt Chunked_new d outlen i hs = Inr (?f1, d, outlen, i + length hs)"
    using chunk_size_start [OF n(1) l(1,2), of dt d outlen i] l(3) n(2) by simp
  have 2: "chunk_loop dt ?f1 d outlen j (ext @ CRLF) = Inr (?f2, d, outlen, j + length ext + 2)" for j
    using chunk_size_end [OF dt _ l(4), of ?f1 d outlen j] n(3,4) by simp
  have 3: "chunk_loop dt ?f2 d outlen j (concat (map (\<lambda>l. l @ CRLF) trailers))
      = Inr (?f2, d, outlen, j + length (concat (map (\<lambda>l. l @ CRLF) trailers)))" for j
    by (rule chunk_trailers [OF dt _ l(5)]) simp
  have 4: "chunk_loop dt ?f2 d outlen j CRLF = Inr (?f3, d, outlen, j + 2)" for j
    unfolding CRLF_def
    by (rule chunk_two_bytes [where ?f1.0 = "Chunked_new\<lparr>cf_state := PREV_END_LF\<rparr>"]) (simp_all add: chunk_byte_def)
  show ?thesis
    unfolding append_assoc [of ext CRLF, symmetric] chunk_loop_append [OF dt] 1 2 [unfolded chunk_loop_append [OF dt]] 3 4 loop_bind_simps
    by (simp add: CRLF_def)
qed

lemma chunked_message_loop:
  assumes dt: "stream_filter dt" and "\<forall>x\<in>set chunks. chunk_ok x" "last_chunk_ok hs ext trailers"
  shows "chunk_loop dt Chunked_new d 0 0 (chunked_message chunks hs ext trailers @ extra)
    = (case dt d (concat (map chunk_data chunks)) of
         Inl e \<Rightarrow> Inl e
       | Inr (d', n) \<Rightarrow> Inr (Chunked_new\<lparr>cf_state := CHUNKS_COMPLETE\<rparr>, d', n, length (chunked_message chunks hs ext trailers)))"
proof -
  have n: "cf_state Chunked_new = PREV_CHUNK_SIZE" "cf_chunkSize Chunked_new = 0" "cf_chunkRemaining Chunked_new = 0"
    by (simp_all add: Chunked_new_def)
  note many = chunk_many [OF dt n(1) assms(2) n(2,3), of d 0 0]
  show ?thesis
  proof (cases "dt d (concat (map chunk_data chunks))")
    case (Inl e)
    then show ?thesis using many unfolding chunked_message_def by (simp add: chunk_loop_append [OF dt])
  next
    case (Inr r)
    obtain d' m where r: "r = (d', m)" by force
    have "chunk_loop dt Chunked_new d 0 0 (concat (map chunk_wire chunks))
        = Inr (Chunked_new, d', m, length (concat (map chunk_wire chunks)))"
      using many Inr r by simp
    then show ?thesis using chunk_last [OF dt assms(3), of d' m "length (concat (map chunk_wire chunks))" extra] Inr r
      by (simp add: chunked_message_def chunk_loop_append [OF dt, of _ _ _ _ "concat (map chunk_wire chunks)"])
  qed
qed

text \<open>C27: The chunked decoder hands its delegate exactly the data of the chunks, however the
  message (with any hex spelling of the sizes, extensions and trailers) is cut into network
  buffers, ends in the finished state and leaves the bytes behind the message unprocessed.\<close>
theorem chunked_decodes:
  assumes "stream_filter dt" "\<forall>x\<in>set chunks. chunk_ok x" "last_chunk_ok hs ext trailers"
    and "concat bufs = chunked_message chunks hs ext trailers @ extra"
    and "dt d (concat (map chunk_data chunks)) = Inr (d', n)"
  shows "stream_filter.feed_all (chunked_feed dt) (Chunked_new, d) bufs = Inr ((Chunked_new\<lparr>cf_state := CHUNKS_COMPLETE\<rparr>, d'), n)
    \<and> Chunked_transform dt (Chunked_new, d) (concat bufs)
      = Inr ((Chunked_new\<lparr>cf_state := CHUNKS_COMPLETE, cf_bytesProcessed := length (chunked_message chunks hs ext trailers)\<rparr>, d'), n)"
  unfolding stream_filter.feed_all_concat [OF chunked_feed_stream_filter [OF assms(1)]]
  by (simp add: assms(4,5) chunked_feed_def Chunked_transform_def chunked_message_loop [OF assms(1-3)])

theorem chunked_decodes_witness:
  "stream_filter.feed_all (chunked_feed null_feed) (Chunked_new, ())
      [''3'' @ CRLF @ ''a'', ''bc'' @ CRLF, ''0'' @ CRLF @ CRLF]
    = Inr ((Chunked_new\<lparr>cf_state := CHUNKS_COMPLETE\<rparr>, ()), 3)"
proof -
  have "\<forall>x\<in>set [(''3'', '''', ''abc'')]. chunk_ok x" "last_chunk_ok ''0'' '''' []"
    by (simp_all add: last_chunk_ok_def ext_ok_def hex_defs)
  from chunked_decodes [OF null_sink.stream_filter_axioms this,
      of "[''3'' @ CRLF @ ''a'', ''bc'' @ CRLF, ''0'' @ CRLF @ CRLF]" "[]" "()" "()" 3]
  show ?thesis by (simp add: chunked_message_def null_feed_def NullSinkStreamFilter_transform_def)
qed

end
