(* ===== verification/Char_Loop.thy ===== *)
theory Char_Loop
  imports Main
begin

text \<open>
  What the incremental parsers share: a loop over the characters of a buffer, made of rounds that go on with the rest
  of the buffer or return an error, and the ways the program feeds a parser in pieces (\<open>GenericParser.h\<close>,
  \<open>ValueBaseDiskWriter.h\<close>, \<open>WebSocketSession.cc\<close>). The locales state what a parser's rounds must satisfy; the parsers
  of bencode and JSON interpret them.
\<close>

subsection \<open>Rounds and loops\<close>

text \<open>One round of a loop: the parser goes on with the rest of the buffer, or returns an error.\<close>

datatype 'p round = Next 'p string | Return 'p int

fun round_with :: "string \<Rightarrow> 'p round \<Rightarrow> 'p round" where
  "round_with b (Next p rest) = Next p (rest @ b)"
| "round_with b (Return p err) = Return p err"

definition next_with :: "'p option \<Rightarrow> string \<Rightarrow> 'p round option" where
  "next_with r rest = map_option (\<lambda>p. Next p rest) r"

lemma next_with_extend: "next_with r (rest @ b) = map_option (round_with b) (next_with r rest)"
  by (simp add: next_with_def option.map_comp comp_def)

lemma next_with_extend_Cons: "next_with r (c # cs @ b) = map_option (round_with b) (next_with r (c # cs))"
  using next_with_extend [of r "c # cs" b] by simp

text \<open>From \<open>p\<close> the loop takes \<open>s\<close> and is then in \<open>r\<close>, if what follows satisfies \<open>P\<close>.\<close>

definition goes_on :: "('p \<Rightarrow> string \<Rightarrow> nat \<Rightarrow> ('p \<times> int) option) \<Rightarrow> (string \<Rightarrow> bool) \<Rightarrow> 'p \<Rightarrow> string \<Rightarrow> 'p option \<Rightarrow> bool" where
  "goes_on loop P p s r \<longleftrightarrow>
     (\<forall>rest n. P rest \<longrightarrow> loop p (s @ rest) n = (case r of None \<Rightarrow> None | Some p' \<Rightarrow> loop p' rest (n + length s)))"

lemma goes_on_trans:
  assumes "goes_on loop P p s (Some p')" "goes_on loop Q p' t r" "\<And>rest. Q rest \<Longrightarrow> P (t @ rest)"
  shows "goes_on loop Q p (s @ t) r"
  using assms by (auto simp: goes_on_def add.assoc split: option.split)

lemma goes_on_Nil [simp]: "goes_on loop P p [] (Some p)"
  by (simp add: goes_on_def)

lemma goes_on_less: "goes_on loop P p s r \<Longrightarrow> (\<And>rest. Q rest \<Longrightarrow> P rest) \<Longrightarrow> goes_on loop Q p s r"
  by (simp add: goes_on_def)

text \<open>Rounds and results that differ at most in the scratch fields of a parser that has failed.\<close>

definition same_round :: "'p round option \<Rightarrow> 'p round option \<Rightarrow> bool" where
  "same_round r r' \<longleftrightarrow> r = r' \<or> (\<exists>q q' e. r = Some (Return q e) \<and> r' = Some (Return q' e) \<and> e < 0)"

definition same_result :: "('p \<times> int) option \<Rightarrow> ('p \<times> int) option \<Rightarrow> bool" where
  "same_result r r' \<longleftrightarrow> r = r' \<or> (\<exists>q q' e. r = Some (q, e) \<and> r' = Some (q', e) \<and> e < 0)"

text \<open>A round \<open>f\<close> on \<open>a @ b\<close> either ends within \<open>a\<close>, or it uses up \<open>a\<close> and the next round goes on with \<open>b\<close>.\<close>

definition splits_at :: "('p \<Rightarrow> char \<Rightarrow> string \<Rightarrow> 'p round option) \<Rightarrow> ('p \<Rightarrow> bool) \<Rightarrow> (string \<Rightarrow> 'p round option) \<Rightarrow> string \<Rightarrow> string \<Rightarrow> bool" where
  "splits_at step finished f a b \<longleftrightarrow>
     f (a @ b) = map_option (round_with b) (f a)
     \<or> (\<exists>p. f a = Some (Next p []) \<and> \<not> finished p \<and> (b \<noteq> [] \<longrightarrow> same_round (f (a @ b)) (step p (hd b) (tl b))))"

lemma splits_extend: "f (a @ b) = map_option (round_with b) (f a) \<Longrightarrow> splits_at step finished f a b"
  by (simp add: splits_at_def)

lemma splits_cong:
  "splits_at step finished g a b \<Longrightarrow> f (a @ b) = g (a @ b) \<Longrightarrow> f a = g a \<Longrightarrow> splits_at step finished f a b"
  by (simp add: splits_at_def)

definition loop_after :: "('p \<Rightarrow> string \<Rightarrow> nat \<Rightarrow> ('p \<times> int) option) \<Rightarrow> ('p \<times> int) option \<Rightarrow> string \<Rightarrow> ('p \<times> int) option" where
  "loop_after loop r b = Option.bind r (\<lambda>(p, rv). if rv < 0 then Some (p, rv) else loop p b (nat rv))"

text \<open>\<open>rank\<close> bounds how often rounds may look at a character again.\<close>

locale char_loop =
  fixes step :: "'p \<Rightarrow> char \<Rightarrow> string \<Rightarrow> 'p round option"
    and finished :: "'p \<Rightarrow> bool"
    and rank :: "'p \<Rightarrow> nat"
    and loop :: "'p \<Rightarrow> string \<Rightarrow> nat \<Rightarrow> ('p \<times> int) option"
  assumes loop_Nil: "loop p [] i = Some (p, int i)"
    and loop_finished: "finished p \<Longrightarrow> loop p cs i = Some (p, int i)"
    and loop_Cons: "\<not> finished p \<Longrightarrow> loop p (c # rest) i = (case step p c rest of
        None \<Rightarrow> None
      | Some (Next p' rest') \<Rightarrow> loop p' rest' (i + (Suc (length rest) - length rest'))
      | Some (Return p' err) \<Rightarrow> Some (p', err))"
    and step_length: "\<not> finished p \<Longrightarrow> step p c rest = Some (Next p' rest') \<Longrightarrow> length rest' \<le> Suc (length rest)"
    and step_rank: "\<not> finished p \<Longrightarrow> step p c rest = Some (Next p' rest') \<Longrightarrow> 2 * length rest' + rank p' < 2 * Suc (length rest) + rank p"
    and step_error: "step p c rest = Some (Return p' err) \<Longrightarrow> err < 0"
begin

lemma goes_onI:
  assumes "s \<noteq> []" "\<not> finished p"
    and "\<And>rest. P rest \<Longrightarrow> step p (hd s) (tl s @ rest) = map_option (\<lambda>p'. Next p' rest) r"
  shows "goes_on loop P p s r"
proof -
  obtain c t where s: "s = c # t" using assms(1) by (cases s) auto
  show ?thesis
    using assms(2, 3) by (auto simp: goes_on_def s loop_Cons split: option.split)
qed

lemma goes_on_step:
  assumes "\<not> finished p" "\<And>rest. step p c rest = Some (Next p' rest)" "goes_on loop P p' s r"
  shows "goes_on loop P p (c # s) r"
  using goes_on_trans [of loop "\<lambda>_. True" p "[c]" p' P s r] goes_onI [of "[c]" p "\<lambda>_. True" "Some p'"] assms by simp

lemma goes_on_same:
  assumes "s \<noteq> []" "\<not> finished p" "\<not> finished q"
    and "\<And>rest. step p (hd s) rest = step q (hd s) rest" "goes_on loop P q s r"
  shows "goes_on loop P p s r"
  using assms by (cases s) (auto simp: goes_on_def loop_Cons)

lemma loop_round:
  assumes "\<not> finished p" "cs \<noteq> []"
  shows "loop p cs i = (case step p (hd cs) (tl cs) of
      None \<Rightarrow> None | Some (Next p' rest') \<Rightarrow> loop p' rest' (i + (length cs - length rest')) | Some (Return p' err) \<Rightarrow> Some (p', err))"
proof -
  obtain c rest where cs: "cs = c # rest" using assms(2) by (cases cs) auto
  show ?thesis unfolding cs by (simp only: loop_Cons [OF assms(1)] list.sel length_Cons)
qed

text \<open>Induction over the rounds of a run.\<close>

lemma loop_induct [case_names ended failed returned round]:
  assumes "\<And>p a i. a = [] \<or> finished p \<Longrightarrow> Q p a i"
    and "\<And>p c rest i. \<not> finished p \<Longrightarrow> step p c rest = None \<Longrightarrow> Q p (c # rest) i"
    and "\<And>p c rest i q e. \<not> finished p \<Longrightarrow> step p c rest = Some (Return q e) \<Longrightarrow> Q p (c # rest) i"
    and "\<And>p c rest i p' rest'. \<not> finished p \<Longrightarrow> step p c rest = Some (Next p' rest')
      \<Longrightarrow> Q p' rest' (i + (Suc (length rest) - length rest')) \<Longrightarrow> Q p (c # rest) i"
  shows "Q p a i"
proof (induction "2 * length a + rank p" arbitrary: p a i rule: less_induct)
  case (less p a i)
  show ?case
  proof (cases "a = [] \<or> finished p")
    case False
    then obtain c rest where a: "a = c # rest" and run: "\<not> finished p" by (cases a) auto
    show ?thesis
    proof (cases "step p c rest")
      case (Some x)
      show ?thesis
      proof (cases x)
        case (Next p' rest')
        have "Q p' rest' (i + (Suc (length rest) - length rest'))"
          using step_rank [OF run] Some Next by (intro less) (simp add: a)
        then show ?thesis using assms(4) run Some Next a by simp
      qed (use assms(3) run Some a in simp)
    qed (use assms(2) run a in simp)
  qed (use assms(1) in simp)
qed

lemma loop_index:
  "loop p a (i + k) = map_option (\<lambda>(q, rv). (q, if rv < 0 then rv else rv + int k)) (loop p a i)"
proof (induction p a i rule: loop_induct)
  case (ended p a i)
  then show ?case by (cases "finished p") (auto simp: loop_finished loop_Nil)
next
  case (returned p c rest i q e)
  then show ?case using step_error by (simp add: loop_Cons)
next
  case (round p c rest i p' rest')
  have k: "i + k + (Suc (length rest) - length rest') = i + (Suc (length rest) - length rest') + k" by simp
  show ?case using round by (simp add: loop_Cons k)
qed (simp add: loop_Cons)

end

subsection \<open>Loops that may be cut anywhere\<close>

locale split_loop = char_loop +
  assumes step_splits: "\<not> finished p \<Longrightarrow> splits_at step finished (\<lambda>cs. step p (hd cs) (tl cs)) (c # rest) b"
begin

lemma loop_joined:
  assumes "same_round (step p (hd (a @ b)) (tl (a @ b))) (step q (hd b) (tl b))"
    and "\<not> finished p" "\<not> finished q" "a \<noteq> []" "b \<noteq> []"
  shows "same_result (loop p (a @ b) i) (loop q b (i + length a))"
proof -
  have lab: "loop p (a @ b) i = (case step p (hd (a @ b)) (tl (a @ b)) of
      None \<Rightarrow> None | Some (Next p' rest') \<Rightarrow> loop p' rest' (i + (length (a @ b) - length rest')) | Some (Return p' err) \<Rightarrow> Some (p', err))"
    using assms by (intro loop_round) simp_all
  have lb: "loop q b (i + length a) = (case step q (hd b) (tl b) of
      None \<Rightarrow> None | Some (Next p' rest') \<Rightarrow> loop p' rest' (i + length a + (length b - length rest')) | Some (Return p' err) \<Rightarrow> Some (p', err))"
    using assms by (intro loop_round) simp_all
  show ?thesis
  proof (cases "step p (hd (a @ b)) (tl (a @ b)) = step q (hd b) (tl b)")
    case True
    have "length rest' \<le> length b" if "step q (hd b) (tl b) = Some (Next p' rest')" for p' rest'
      using step_length [OF assms(3) that] assms(5) by simp
    then have n: "i + (length (a @ b) - length rest') = i + length a + (length b - length rest')"
      if "step q (hd b) (tl b) = Some (Next p' rest')" for p' rest'
      using that by fastforce
    have "loop p (a @ b) i = loop q b (i + length a)"
      unfolding lab lb True by (auto split: option.split round.split) (use n in \<open>simp add: add.assoc\<close>)
    then show ?thesis by (simp add: same_result_def)
  next
    case False
    then show ?thesis unfolding lab lb using assms(1) by (auto simp: same_round_def same_result_def)
  qed
qed

lemma loop_append: "same_result (loop p (a @ b) i) (loop_after loop (loop p a i) b)"
proof (induction p a i rule: loop_induct)
  case (ended p a i)
  then show ?case by (cases "finished p") (auto simp: same_result_def loop_after_def loop_finished loop_Nil)
next
  case (failed p c rest i)
  from step_splits [OF failed(1), of c rest b] show ?case
    using failed by (auto simp: splits_at_def same_result_def loop_after_def loop_Cons)
next
  case (returned p c rest i q e)
  from step_splits [OF returned(1), of c rest b] show ?case
    using returned step_error [OF returned(2)] by (auto simp: splits_at_def same_result_def loop_after_def loop_Cons)
next
  case (round p c rest i p' rest')
  from step_splits [OF round(1), of c rest b] round(2)
  consider "step p c (rest @ b) = Some (Next p' (rest' @ b))"
    | "rest' = []" "\<not> finished p'" "b \<noteq> []" "same_round (step p c (rest @ b)) (step p' (hd b) (tl b))"
    by (cases b) (auto simp: splits_at_def)
  then show ?case
  proof cases
    case 1
    have "length rest' \<le> Suc (length rest)" using step_length [OF round(1, 2)] .
    then have "Suc (length (rest @ b)) - length (rest' @ b) = Suc (length rest) - length rest'" by simp
    then show ?thesis using round 1 by (simp add: loop_Cons)
  next
    case 2
    define k where "k = i + length (c # rest)"
    have "loop p (c # rest) i = Some (p', int k)" using round(1, 2) 2(1) by (simp add: loop_Cons loop_Nil k_def)
    then have "loop_after loop (loop p (c # rest) i) b = loop p' b k" by (simp add: loop_after_def)
    then show ?thesis using loop_joined [of p "c # rest" b p' i] round(1) 2 by (simp add: k_def)
  qed
qed

end

subsection \<open>Feeding a parser in pieces\<close>

text \<open>
  \<open>parseFile\<close> stops at the first error; the pieces are what the reads return until one returns nothing or fails, and
  there are none for a file that cannot be opened. The writers of downloaded replies and the WebSocket session ignore
  what \<open>parseUpdate\<close> returns and look at \<open>parseFinal\<close> only.
\<close>

fun parseFile_loop :: "('p \<Rightarrow> string \<Rightarrow> ('p \<times> int) option) \<Rightarrow> 'p \<Rightarrow> string list \<Rightarrow> 'p option" where
  "parseFile_loop parseUpdate p [] = Some p"
| "parseFile_loop parseUpdate p (buf # bufs) =
     (case parseUpdate p buf of
        None \<Rightarrow> None
      | Some (p', nproc) \<Rightarrow> if nproc < 0 then Some p' else parseFile_loop parseUpdate p' bufs)"

fun feed_ignoring :: "('p \<Rightarrow> string \<Rightarrow> ('p \<times> int) option) \<Rightarrow> 'p \<Rightarrow> string list \<Rightarrow> 'p option" where
  "feed_ignoring parseUpdate p [] = Some p"
| "feed_ignoring parseUpdate p (buf # bufs) =
     (case parseUpdate p buf of None \<Rightarrow> None | Some (p', rv) \<Rightarrow> feed_ignoring parseUpdate p' bufs)"

text \<open>\<open>GenericParser\<close> over a parser and its machine: the last piece, the result, and the parser made ready again.\<close>

definition GenericParser_parseFinal ::
    "('p \<Rightarrow> string \<Rightarrow> ('p \<times> int) option) \<Rightarrow> ('p \<Rightarrow> 'r option \<times> 'p) \<Rightarrow> ('p \<Rightarrow> 'p) \<Rightarrow> 'p \<Rightarrow> string \<Rightarrow> ('p \<times> 'r option \<times> int) option" where
  "GenericParser_parseFinal parseFinal getResult reset p data =
     map_option (\<lambda>(p', err). let (res, p'') = (if err < 0 then (None, p') else getResult p') in (reset p'', res, err))
       (parseFinal p data)"

definition parseFile ::
    "('p \<Rightarrow> string \<Rightarrow> ('p \<times> int) option) \<Rightarrow> ('p \<Rightarrow> string \<Rightarrow> ('p \<times> int) option) \<Rightarrow> ('p \<Rightarrow> 'r option \<times> 'p) \<Rightarrow> ('p \<Rightarrow> 'p)
     \<Rightarrow> 'p \<Rightarrow> string list option \<Rightarrow> ('p \<times> 'r option) option" where
  "parseFile parseUpdate parseFinal getResult reset p file_reads =
     (case file_reads of
        None \<Rightarrow> Some (p, None)
      | Some bufs \<Rightarrow>
          Option.bind (parseFile_loop parseUpdate p bufs)
            (\<lambda>p'. map_option (\<lambda>(p'', res, nproc). (p'', res)) (GenericParser_parseFinal parseFinal getResult reset p' [])))"

text \<open>The parser a caller goes on with, if it is told of no error.\<close>

definition success :: "('p \<times> int) option \<Rightarrow> 'p option option" where
  "success r = map_option (\<lambda>(p, rv). if rv < 0 then None else Some p) r"

lemma result_of_success:
  "map_option (\<lambda>(p', res, err). res) (GenericParser_parseFinal final getResult reset p data)
     = map_option (\<lambda>s. case s of None \<Rightarrow> None | Some q \<Rightarrow> fst (getResult q)) (success (final p data))"
  by (cases "final p data") (auto simp: GenericParser_parseFinal_def success_def split: prod.splits)

lemma parseFinal_Some:
  "GenericParser_parseFinal final getResult reset p data = Some (p', res, err) \<longleftrightarrow>
     (\<exists>q. final p data = Some (q, err) \<and> res = (if err < 0 then None else fst (getResult q))
        \<and> p' = reset (if err < 0 then q else snd (getResult q)))"
  by (auto simp: GenericParser_parseFinal_def case_prod_unfold Let_def)

text \<open>\<open>too_deep\<close> is the one error after which a parser is not \<open>failed\<close>.\<close>

locale piece_parser = split_loop +
  fixes inv failed complete :: "'a \<Rightarrow> bool"
    and last_error :: "'a \<Rightarrow> int"
    and low too_deep premature :: int
    and update final :: "'a \<Rightarrow> string \<Rightarrow> ('a \<times> int) option"
  assumes step_inv: "inv p \<Longrightarrow> \<not> finished p \<Longrightarrow> \<not> failed p \<Longrightarrow> \<exists>x. step p c rest = Some x
      \<and> (case x of Next p' rest' \<Rightarrow> inv p' | Return p' err \<Rightarrow> inv p' \<and> low \<le> err)"
    and next_unfailed: "step p c rest = Some (Next p' rest') \<Longrightarrow> \<not> failed p \<Longrightarrow> \<not> failed p'"
    and return_failed: "step p c rest = Some (Return p' err) \<Longrightarrow> \<not> failed p \<Longrightarrow> \<not> complete p'
      \<and> (err \<noteq> too_deep \<longrightarrow> failed p' \<and> last_error p' = err)"
    and finished_complete: "finished p \<Longrightarrow> complete p \<and> \<not> failed p"
    and failed_error: "inv p \<Longrightarrow> failed p \<Longrightarrow> low \<le> last_error p \<and> last_error p < 0"
    and update_eq: "update p data = (if finished p then Some (p, 0) else if failed p then Some (p, last_error p) else loop p data 0)"
    and premature_error: "low \<le> premature \<and> premature < 0" and too_deep_error: "too_deep < 0"
    and final_eq: "final p data = (case update p data of
        None \<Rightarrow> None | Some (p', rv) \<Rightarrow> Some (p', if rv \<ge> 0 \<and> \<not> complete p' then premature else rv))"
begin

lemma loop_inv:
  "inv p \<Longrightarrow> \<not> failed p \<Longrightarrow> \<exists>p' rv. loop p a i = Some (p', rv) \<and> inv p' \<and> low \<le> rv \<and> rv \<le> int (i + length a)"
proof (induction p a i rule: loop_induct)
  case (ended p a i)
  then show ?case using premature_error by (cases "finished p") (auto simp: loop_finished loop_Nil)
next
  case (failed p c rest i)
  then show ?case using step_inv [of p c rest] by auto
next
  case (returned p c rest i q e)
  then show ?case using step_inv [of p c rest] step_error [OF returned(2)] by (auto simp: loop_Cons)
next
  case (round p c rest i p' rest')
  have "inv p'" "\<not> failed p'" using round step_inv [of p c rest] next_unfailed [of p c rest] by auto
  from round.IH [OF this] show ?case using round(1, 2) step_length [OF round(1, 2)] by (auto simp: loop_Cons)
qed

lemma loop_state:
  "loop p a i = Some (q, rv) \<Longrightarrow> \<not> failed p
   \<Longrightarrow> (0 \<le> rv \<longrightarrow> \<not> failed q) \<and> (rv < 0 \<longrightarrow> \<not> complete q \<and> (rv \<noteq> too_deep \<longrightarrow> failed q \<and> last_error q = rv))"
proof (induction p a i rule: loop_induct)
  case (ended p a i)
  then show ?case by (cases "finished p") (auto simp: loop_finished loop_Nil)
next
  case (returned p c rest i q' e)
  then show ?case using step_error [OF returned(2)] return_failed [OF returned(2)] by (auto simp: loop_Cons)
next
  case (round p c rest i p' rest')
  then show ?case using next_unfailed [of p c rest] by (auto simp: loop_Cons)
qed (simp add: loop_Cons)

lemma update_loop: "\<not> failed p \<Longrightarrow> update p data = loop p data 0"
  by (simp add: update_eq loop_finished)

lemma update_inv:
  assumes "inv p"
  shows "\<exists>p' rv. update p data = Some (p', rv) \<and> inv p' \<and> low \<le> rv \<and> rv \<le> int (length data)"
proof (cases "failed p")
  case True
  then have "\<not> finished p" using finished_complete by blast
  then show ?thesis using True assms failed_error [OF assms True] by (auto simp: update_eq)
next
  case False
  then show ?thesis using loop_inv [OF assms False, of data 0] by (simp add: update_loop)
qed

lemma final_inv:
  assumes "inv p"
  shows "\<exists>p' rv. final p data = Some (p', rv) \<and> inv p' \<and> low \<le> rv \<and> rv \<le> int (length data)"
  using update_inv [OF assms, of data] premature_error by (auto simp: final_eq)

text \<open>The first piece is as good as its part of the whole.\<close>

lemma first_piece:
  assumes "inv p" "\<not> failed p" "loop p (buf @ more) 0 = Some (q, rv)"
  obtains p1 n where "update p buf = Some (p1, n)" "inv p1"
    "n < 0 \<Longrightarrow> rv = n \<and> \<not> complete p1 \<and> (n \<noteq> too_deep \<longrightarrow> failed p1 \<and> last_error p1 = n)"
    "0 \<le> n \<Longrightarrow> \<not> failed p1 \<and> (\<exists>q1 m. loop p1 more 0 = Some (q1, m) \<and> (if m < 0 then rv = m else 0 \<le> rv \<and> q1 = q))"
proof -
  obtain p1 n where p1: "loop p buf 0 = Some (p1, n)" "inv p1" using loop_inv [OF assms(1, 2), of buf 0] by auto
  note st = loop_state [OF p1(1) assms(2)]
  have same: "same_result (Some (q, rv)) (loop_after loop (Some (p1, n)) more)"
    using loop_append [of p buf more 0] assms(3) p1(1) by simp
  show ?thesis
  proof (rule that [of p1 n])
    show "update p buf = Some (p1, n)" using p1(1) assms(2) by (simp add: update_loop)
    show "rv = n \<and> \<not> complete p1 \<and> (n \<noteq> too_deep \<longrightarrow> failed p1 \<and> last_error p1 = n)" if "n < 0"
      using that st same by (auto simp: same_result_def loop_after_def)
    show "\<not> failed p1 \<and> (\<exists>q1 m. loop p1 more 0 = Some (q1, m) \<and> (if m < 0 then rv = m else 0 \<le> rv \<and> q1 = q))" if n: "0 \<le> n"
    proof -
      have ok: "\<not> failed p1" using n st by simp
      obtain q1 m where q1: "loop p1 more 0 = Some (q1, m)" using loop_inv [OF p1(2) ok, of more 0] by auto
      have "loop p1 more (nat n) = Some (q1, if m < 0 then m else m + n)"
        using loop_index [of p1 more 0 "nat n"] q1 n by simp
      then have "same_result (Some (q, rv)) (Some (q1, if m < 0 then m else m + n))"
        using same n by (simp add: loop_after_def)
      then show ?thesis using ok q1 n by (auto simp: same_result_def split: if_splits)
    qed
  qed (rule p1(2))
qed

lemma file_pieces:
  "inv p \<Longrightarrow> \<not> failed p \<Longrightarrow> loop p (concat bufs) 0 = Some (q, rv)
   \<Longrightarrow> \<exists>q'. parseFile_loop update p bufs = Some q' \<and> inv q' \<and> (if rv < 0 then \<not> complete q' else q' = q \<and> \<not> failed q)"
proof (induction bufs arbitrary: p q rv)
  case (Cons buf bufs)
  have whole: "loop p (buf @ concat bufs) 0 = Some (q, rv)" using Cons.prems(3) by simp
  show ?case
  proof (rule first_piece [OF Cons.prems(1, 2) whole])
    fix p1 n
    assume p1: "update p buf = Some (p1, n)" "inv p1"
      and neg: "n < 0 \<Longrightarrow> rv = n \<and> \<not> complete p1 \<and> (n \<noteq> too_deep \<longrightarrow> failed p1 \<and> last_error p1 = n)"
      and pos: "0 \<le> n \<Longrightarrow> \<not> failed p1 \<and> (\<exists>q1 m. loop p1 (concat bufs) 0 = Some (q1, m) \<and> (if m < 0 then rv = m else 0 \<le> rv \<and> q1 = q))"
    show ?case
    proof (cases "n < 0")
      case True
      then show ?thesis using neg p1 by simp
    next
      case False
      then obtain q1 m where "\<not> failed p1" "loop p1 (concat bufs) 0 = Some (q1, m)" "if m < 0 then rv = m else 0 \<le> rv \<and> q1 = q"
        using pos by auto
      then show ?thesis using Cons.IH [OF p1(2)] p1(1) False by (auto split: if_splits)
    qed
  qed
qed (auto simp: loop_Nil)

text \<open>However the data is cut, the caller goes on with the same parser or is told of an error.\<close>

theorem success_pieces:
  assumes "inv p" "\<not> failed p"
  shows "success (Option.bind (parseFile_loop update p bufs) (\<lambda>q. final q [])) = success (final p (concat bufs))"
proof -
  obtain q rv where q: "loop p (concat bufs) 0 = Some (q, rv)" using loop_inv [OF assms, of "concat bufs" 0] by auto
  obtain q' where q': "parseFile_loop update p bufs = Some q'" "inv q'" "if rv < 0 then \<not> complete q' else q' = q \<and> \<not> failed q"
    using file_pieces [OF assms q] by blast
  have "final q' [] = Some (q', if failed q' then last_error q' else if complete q' then 0 else premature)"
    using failed_error [OF q'(2)] finished_complete [of q'] by (auto simp: final_eq update_eq loop_Nil)
  then show ?thesis
    using q' q assms(2) premature_error failed_error [OF q'(2)] by (auto simp: success_def final_eq update_loop split: if_splits)
qed

lemma parseFile_pieces:
  assumes "inv p" "\<not> failed p"
  shows "map_option snd (parseFile update final getResult reset p (Some bufs))
       = map_option (\<lambda>(p', res, err). res) (GenericParser_parseFinal final getResult reset p (concat bufs))"
proof -
  have "map_option snd (parseFile update final getResult reset p (Some bufs))
      = Option.bind (parseFile_loop update p bufs) (\<lambda>q. map_option (\<lambda>(p', res, err). res) (GenericParser_parseFinal final getResult reset q []))"
    by (cases "parseFile_loop update p bufs") (auto simp: parseFile_def option.map_comp comp_def split_def)
  also have "\<dots> = map_option (\<lambda>s. case s of None \<Rightarrow> None | Some q \<Rightarrow> fst (getResult q))
      (success (Option.bind (parseFile_loop update p bufs) (\<lambda>q. final q [])))"
    unfolding result_of_success by (cases "parseFile_loop update p bufs") (auto simp: success_def)
  finally show ?thesis unfolding success_pieces [OF assms] result_of_success .
qed

text \<open>Ignoring the errors of \<open>parseUpdate\<close> does no harm, unless the data nests too deep.\<close>

lemma feed_failed: "failed p \<Longrightarrow> feed_ignoring update p bufs = Some p"
  using finished_complete [of p] by (induction bufs) (auto simp: update_eq)

lemma feed_pieces:
  "inv p \<Longrightarrow> \<not> failed p \<Longrightarrow> loop p (concat bufs) 0 = Some (q, rv) \<Longrightarrow> rv \<noteq> too_deep
   \<Longrightarrow> \<exists>q'. feed_ignoring update p bufs = Some q' \<and> (if rv < 0 then failed q' \<and> last_error q' = rv else q' = q \<and> \<not> failed q)"
proof (induction bufs arbitrary: p q rv)
  case (Cons buf bufs)
  have whole: "loop p (buf @ concat bufs) 0 = Some (q, rv)" using Cons.prems(3) by simp
  show ?case
  proof (rule first_piece [OF Cons.prems(1, 2) whole])
    fix p1 n
    assume p1: "update p buf = Some (p1, n)" "inv p1"
      and neg: "n < 0 \<Longrightarrow> rv = n \<and> \<not> complete p1 \<and> (n \<noteq> too_deep \<longrightarrow> failed p1 \<and> last_error p1 = n)"
      and pos: "0 \<le> n \<Longrightarrow> \<not> failed p1 \<and> (\<exists>q1 m. loop p1 (concat bufs) 0 = Some (q1, m) \<and> (if m < 0 then rv = m else 0 \<le> rv \<and> q1 = q))"
    show ?case
    proof (cases "n < 0")
      case True
      then show ?thesis using neg Cons.prems(4) p1(1) feed_failed by auto
    next
      case False
      then obtain q1 m where "\<not> failed p1" "loop p1 (concat bufs) 0 = Some (q1, m)" "if m < 0 then rv = m else 0 \<le> rv \<and> q1 = q"
        using pos by auto
      moreover have "m \<noteq> too_deep" using calculation(3) Cons.prems(4) too_deep_error by (auto split: if_splits)
      ultimately show ?thesis using Cons.IH [OF p1(2)] p1(1) False by (auto split: if_splits)
    qed
  qed
qed (auto simp: loop_Nil)

theorem ignoring_pieces:
  assumes "inv p" "\<not> failed p" "final p (concat bufs) = Some (q, rv)" "rv \<noteq> too_deep"
  shows "\<exists>q' rv'. Option.bind (feed_ignoring update p bufs) (\<lambda>q. final q []) = Some (q', rv')
           \<and> (if rv < 0 then rv' = rv else rv' = 0 \<and> q' = q)"
proof -
  obtain q0 rv0 where q0: "loop p (concat bufs) 0 = Some (q0, rv0)" using loop_inv [OF assms(1, 2), of "concat bufs" 0] by auto
  have f: "q = q0" "rv = (if rv0 \<ge> 0 \<and> \<not> complete q0 then premature else rv0)"
    using assms(3) q0 assms(2) by (auto simp: final_eq update_loop)
  then have "rv0 \<noteq> too_deep" using assms(4) too_deep_error by (auto split: if_splits)
  from feed_pieces [OF assms(1, 2) q0 this]
  obtain q' where q': "feed_ignoring update p bufs = Some q'" "if rv0 < 0 then failed q' \<and> last_error q' = rv0 else q' = q0 \<and> \<not> failed q0"
    by blast
  then show ?thesis using f finished_complete [of q'] premature_error
    by (auto simp: final_eq update_eq loop_Nil split: if_splits)
qed

end
end
