(* ===== verification/Value_Machine.thy ===== *)
theory Value_Machine
  imports Text_Util
begin

text \<open>
  The values of bencode and JSON (\<open>ValueBase.h\<close>) and the machine the parsers drive to build them
  (\<open>ValueBaseStructParserStateMachine.cc\<close>, its states, and the frames of \<open>XmlRpcRequestParserController.cc\<close>); numbers
  as both printers write them and both parsers read them. A failed assertion, a look at the top of an empty stack
  and a null dereference are \<open>None\<close>. Dicts are ordered maps, here lists with ascending keys.
\<close>

subsection \<open>Values\<close>

datatype bvalue =
    BString string | BInteger int | BBool bool | BNull | BList "bvalue list" | BDict "(string \<times> bvalue) list"

fun key_less :: "string \<Rightarrow> string \<Rightarrow> bool" where
  "key_less [] [] = False"
| "key_less [] (d # ds) = True"
| "key_less (c # cs) [] = False"
| "key_less (c # cs) (d # ds) = (code_of c < code_of d \<or> c = d \<and> key_less cs ds)"

fun Dict_put :: "string \<Rightarrow> bvalue \<Rightarrow> (string \<times> bvalue) list \<Rightarrow> (string \<times> bvalue) list" where
  "Dict_put k v [] = [(k, v)]"
| "Dict_put k v ((k', v') # d) =
     (if k = k' then (k, v) # d else if key_less k k' then (k, v) # (k', v') # d else (k', v') # Dict_put k v d)"

lemma key_less_irrefl: "\<not> key_less k k"
  by (induction k) auto

lemma key_less_asym: "key_less k l \<Longrightarrow> \<not> key_less l k"
  by (induction k l rule: key_less.induct) auto

lemma Dict_put_last:
  "(\<And>k'. k' \<in> fst ` set d \<Longrightarrow> key_less k' k) \<Longrightarrow> Dict_put k v d = d @ [(k, v)]"
proof (induction d)
  case (Cons e d)
  have "key_less (fst e) k" using Cons.prems by simp
  then have "k \<noteq> fst e" "\<not> key_less k (fst e)" using key_less_irrefl key_less_asym by blast+
  then show ?case using Cons by (cases e) auto
qed simp

subsection \<open>Numbers as text\<close>

fun print_nat :: "nat \<Rightarrow> string" where
  "print_nat n = (if n < 10 then [char_of (n + 48)] else print_nat (n div 10) @ [char_of (n mod 10 + 48)])"

declare print_nat.simps [simp del]

definition print_int :: "int \<Rightarrow> string" where
  "print_int i = (if i < 0 then CHR ''-'' # print_nat (nat (- i)) else print_nat (nat i))"

subsection \<open>The frames of values\<close>

record state_frame =
  sf_value :: "bvalue option"
  sf_name :: string

definition empty_frame :: state_frame where
  "empty_frame = \<lparr>sf_value = None, sf_name = []\<rparr>"

datatype vstate = VValue | VDict | VDictKey | VDictData | VArray | VArrayData | VString | VNumber | VBool | VNull

datatype element = DICT_T | DICT_KEY_T | DICT_DATA_T | ARRAY_T | ARRAY_DATA_T | STRING_T | NUMBER_T | BOOL_T | NULL_T

record value_machine =
  vm_states :: "vstate list"
  vm_frames :: "state_frame list"
  vm_frame :: state_frame
  vm_allowEmpty :: bool
  vm_str :: string
  vm_number :: int
  vm_bval :: bool

definition value_machine_new :: "bool \<Rightarrow> value_machine" where
  "value_machine_new allowEmpty =
     \<lparr>vm_states = [VValue], vm_frames = [], vm_frame = empty_frame, vm_allowEmpty = allowEmpty, vm_str = [], vm_number = 0, vm_bval = False\<rparr>"

definition Controller_pushFrame :: "value_machine \<Rightarrow> value_machine" where
  "Controller_pushFrame m = m\<lparr>vm_frames := vm_frame m # vm_frames m, vm_frame := empty_frame\<rparr>"

definition Controller_popStructFrame :: "value_machine \<Rightarrow> value_machine option" where
  "Controller_popStructFrame m =
     (case vm_frames m of
        [] \<Rightarrow> None
      | parent # fs \<Rightarrow>
          (case sf_value parent of
             Some (BDict d) \<Rightarrow>
               let d' = (case sf_value (vm_frame m) of
                           Some v \<Rightarrow> if vm_allowEmpty m \<or> sf_name (vm_frame m) \<noteq> [] then Dict_put (sf_name (vm_frame m)) v d else d
                         | None \<Rightarrow> d)
               in Some (m\<lparr>vm_frames := fs, vm_frame := parent\<lparr>sf_value := Some (BDict d')\<rparr>\<rparr>)
           | _ \<Rightarrow> None))"

definition Controller_popArrayFrame :: "value_machine \<Rightarrow> value_machine option" where
  "Controller_popArrayFrame m =
     (case vm_frames m of
        [] \<Rightarrow> None
      | parent # fs \<Rightarrow>
          (case sf_value parent of
             Some (BList vs) \<Rightarrow>
               let vs' = (case sf_value (vm_frame m) of Some v \<Rightarrow> vs @ [v] | None \<Rightarrow> vs)
               in Some (m\<lparr>vm_frames := fs, vm_frame := parent\<lparr>sf_value := Some (BList vs')\<rparr>\<rparr>)
           | _ \<Rightarrow> None))"

definition setCurrentFrameValue :: "bvalue \<Rightarrow> value_machine \<Rightarrow> value_machine" where
  "setCurrentFrameValue v m = m\<lparr>vm_frame := (vm_frame m)\<lparr>sf_value := Some v\<rparr>\<rparr>"

definition push_vstate :: "vstate \<Rightarrow> value_machine \<Rightarrow> value_machine" where
  "push_vstate s m = m\<lparr>vm_states := s # vm_states m\<rparr>"

subsection \<open>The states of the machine\<close>

fun value_beginElement :: "element \<Rightarrow> value_machine \<Rightarrow> value_machine option" where
  "value_beginElement DICT_T m = Some (push_vstate VDict (setCurrentFrameValue (BDict []) m))"
| "value_beginElement ARRAY_T m = Some (push_vstate VArray (setCurrentFrameValue (BList []) m))"
| "value_beginElement STRING_T m = Some (push_vstate VString (m\<lparr>vm_str := []\<rparr>))"
| "value_beginElement NUMBER_T m = Some (push_vstate VNumber (m\<lparr>vm_number := 0\<rparr>))"
| "value_beginElement BOOL_T m = Some (push_vstate VBool (m\<lparr>vm_bval := False\<rparr>))"
| "value_beginElement NULL_T m = Some (push_vstate VNull m)"
| "value_beginElement _ m = None"

definition machine_beginElement :: "element \<Rightarrow> value_machine \<Rightarrow> value_machine option" where
  "machine_beginElement el m =
     (case vm_states m of
        [] \<Rightarrow> None
      | s # ss \<Rightarrow>
          if s \<in> {VValue, VDictData, VArrayData} then value_beginElement el m
          else if s = VDict then
            (if el = DICT_KEY_T then Some (push_vstate VDictKey ((Controller_pushFrame m)\<lparr>vm_str := []\<rparr>))
             else if el = DICT_DATA_T then Some (push_vstate VDictData m) else None)
          else if s = VArray then
            (if el = ARRAY_DATA_T then Some (push_vstate VArrayData (Controller_pushFrame m)) else None)
          else Some m)"

fun vstate_endElement :: "vstate \<Rightarrow> value_machine \<Rightarrow> value_machine option" where
  "vstate_endElement VDictKey m = Some (m\<lparr>vm_frame := (vm_frame m)\<lparr>sf_name := vm_str m\<rparr>\<rparr>)"
| "vstate_endElement VDictData m = Controller_popStructFrame m"
| "vstate_endElement VArrayData m = Controller_popArrayFrame m"
| "vstate_endElement VString m = Some (setCurrentFrameValue (BString (vm_str m)) m)"
| "vstate_endElement VNumber m = Some (setCurrentFrameValue (BInteger (vm_number m)) m)"
| "vstate_endElement VBool m = Some (setCurrentFrameValue (BBool (vm_bval m)) m)"
| "vstate_endElement VNull m = Some (setCurrentFrameValue BNull m)"
| "vstate_endElement _ m = Some m"

definition machine_endElement :: "value_machine \<Rightarrow> value_machine option" where
  "machine_endElement m =
     (case vm_states m of
        [] \<Rightarrow> None
      | s # ss \<Rightarrow> map_option (\<lambda>m1. m1\<lparr>vm_states := tl (vm_states m1)\<rparr>) (vstate_endElement s m))"

definition machine_characters :: "string \<Rightarrow> value_machine \<Rightarrow> value_machine" where
  "machine_characters s m = m\<lparr>vm_str := vm_str m @ s\<rparr>"

definition machine_number :: "int \<Rightarrow> value_machine \<Rightarrow> value_machine" where
  "machine_number i m = m\<lparr>vm_number := i\<rparr>"

definition machine_bool :: "bool \<Rightarrow> value_machine \<Rightarrow> value_machine" where
  "machine_bool b m = m\<lparr>vm_bval := b\<rparr>"

definition machine_reset :: "value_machine \<Rightarrow> value_machine" where
  "machine_reset m = m\<lparr>vm_states := [VValue], vm_frames := [], vm_frame := empty_frame\<rparr>"

definition machine_getResult :: "value_machine \<Rightarrow> bvalue option \<times> value_machine" where
  "machine_getResult m = (sf_value (vm_frame m), m\<lparr>vm_frame := (vm_frame m)\<lparr>sf_value := None\<rparr>\<rparr>)"

text \<open>The machine \<open>m'\<close> is \<open>m\<close> after one whole value \<open>v\<close>: the frame holds it, the scratch fields may be anything.\<close>

definition built :: "bvalue \<Rightarrow> value_machine \<Rightarrow> value_machine \<Rightarrow> bool" where
  "built v m m' \<longleftrightarrow>
     vm_states m' = vm_states m \<and> vm_frames m' = vm_frames m \<and> vm_allowEmpty m' = vm_allowEmpty m
     \<and> vm_frame m' = (vm_frame m)\<lparr>sf_value := Some v\<rparr>"

lemma built_trans: "built u m m1 \<Longrightarrow> built v m1 m2 \<Longrightarrow> built v m m2"
  by (simp add: built_def)

lemma built_self: "sf_value (vm_frame m) = Some v \<Longrightarrow> built v m m"
  by (cases "vm_frame m") (simp add: built_def)

subsection \<open>Digits\<close>

text \<open>The loops over digits: the number so far, how many were read, what follows; or the number when it gets too large.\<close>

definition INT64_MAX :: int where "INT64_MAX = 2 ^ 63 - 1"

fun read_digits :: "int \<Rightarrow> nat \<Rightarrow> string \<Rightarrow> int + (int \<times> nat \<times> string)" where
  "read_digits n k [] = Inr (n, k, [])"
| "read_digits n k (c # cs) =
     (if util_isDigit c
      then let d = int (code_of c) - 48
           in if (INT64_MAX - d) div 10 < n then Inl n else read_digits (n * 10 + d) (Suc k) cs
      else Inr (n, k, c # cs))"

lemma read_digits_length: "read_digits n k cs = Inr (n', k', rest) \<Longrightarrow> length rest \<le> length cs"
  by (induction n k cs rule: read_digits.induct) (auto simp: Let_def split: if_splits)

lemma util_isDigit_iff: "util_isDigit c \<longleftrightarrow> 48 \<le> code_of c \<and> code_of c \<le> 57"
  by (simp add: util_isDigit_def char_in_def)

lemma code_of_digit: "d < 10 \<Longrightarrow> code_of (char_of (d + 48) :: char) = d + 48"
  by (simp add: of_char_of)

lemma read_digits_shift: "read_digits n (Suc k) cs = map_sum id (\<lambda>(a, b, r). (a, Suc b, r)) (read_digits n k cs)"
  by (induction n k cs rule: read_digits.induct) (auto simp: Let_def)

lemma read_digits_digit:
  assumes "d < 10" "n * 10 + int d \<le> INT64_MAX"
  shows "read_digits n k (char_of (d + 48) # cs) = read_digits (n * 10 + int d) (Suc k) cs"
proof -
  have "\<not> (INT64_MAX - int d) div 10 < n" using assms(2) by linarith
  then show ?thesis using assms(1) by (simp add: util_isDigit_iff code_of_digit Let_def)
qed

lemma times_ten_le: "0 \<le> (a::int) \<Longrightarrow> a * 10 + int d \<le> b \<Longrightarrow> a \<le> b"
  by linarith

lemma read_digits_print:
  "0 \<le> n \<Longrightarrow> n * 10 ^ length (print_nat m) + int m \<le> INT64_MAX
   \<Longrightarrow> read_digits n k (print_nat m @ cs) = read_digits (n * 10 ^ length (print_nat m) + int m) (k + length (print_nat m)) cs"
proof (induction m arbitrary: n k cs rule: print_nat.induct)
  case (1 m)
  show ?case
  proof (cases "m < 10")
    case True
    then show ?thesis using 1 by (simp add: print_nat.simps [of m] read_digits_digit del: read_digits.simps)
  next
    case False
    let ?q = "m div 10" and ?d = "m mod 10" and ?l = "length (print_nat (m div 10))"
    let ?n = "n * 10 ^ ?l + int ?q"
    have p: "print_nat m = print_nat ?q @ [char_of (?d + 48)]" using False by (simp add: print_nat.simps [of m])
    have md: "int m = int ?q * 10 + int ?d" by presburger
    have e: "?n * 10 + int ?d = n * 10 ^ length (print_nat m) + int m" by (simp add: p md algebra_simps)
    have le: "?n * 10 + int ?d \<le> INT64_MAX" using 1(3) e by simp
    have n0: "0 \<le> ?n" using 1(2) by simp
    have "?n \<le> INT64_MAX" using times_ten_le [OF n0 le] .
    then have "read_digits n k (print_nat m @ cs) = read_digits ?n (k + ?l) (char_of (?d + 48) # cs)"
      using 1(1) [OF False, of n k "char_of (?d + 48) # cs"] 1(2) by (simp add: p del: read_digits.simps)
    also have "\<dots> = read_digits (?n * 10 + int ?d) (Suc (k + ?l)) cs" using le by (intro read_digits_digit) simp_all
    finally show ?thesis unfolding e by (simp add: p)
  qed
qed

lemma print_nat_head: "\<exists>(d::nat) ds. d < 10 \<and> print_nat m = char_of (d + 48) # ds"
proof (induction m rule: print_nat.induct)
  case (1 m)
  then show ?case by (cases "m < 10") (auto simp: print_nat.simps [of m])
qed

text \<open>The whole number is read in one go, or after its first digit was taken apart.\<close>

lemma read_printed:
  assumes "int m \<le> INT64_MAX" "\<not> util_isDigit c"
  shows "read_digits 0 0 (print_nat m @ c # cs) = Inr (int m, length (print_nat m), c # cs)"
  using read_digits_print [of 0 m 0 "c # cs"] assms by simp

lemma read_printed_tail:
  assumes "int m \<le> INT64_MAX" "\<not> util_isDigit c" "print_nat m = char_of (d + 48) # ds" "d < 10"
  shows "read_digits (int d) 0 (ds @ c # cs) = Inr (int m, length ds, c # cs)"
proof -
  have "int d \<le> INT64_MAX" using assms(4) by (simp add: INT64_MAX_def)
  then have "read_digits 0 0 (print_nat m @ c # cs) = read_digits (int d) (Suc 0) (ds @ c # cs)"
    using read_digits_digit [of d 0 0 "ds @ c # cs"] assms(3, 4) by simp
  then have "map_sum id (\<lambda>(a, b, r). (a, Suc b, r)) (read_digits (int d) 0 (ds @ c # cs))
      = (Inr (int m, Suc (length ds), c # cs) :: int + _)"
    using read_printed [OF assms(1, 2), of cs] assms(3) by (simp add: read_digits_shift)
  then show ?thesis by (cases "read_digits (int d) 0 (ds @ c # cs)") auto
qed


lemma read_digits_nonneg: "read_digits n k cs = Inr (n', k', rest) \<Longrightarrow> 0 \<le> n \<Longrightarrow> 0 \<le> n'"
  by (induction n k cs rule: read_digits.induct) (auto simp: Let_def util_isDigit_iff split: if_splits)

lemma read_digits_append:
  "read_digits n k (a @ b) =
     (case read_digits n k a of
        Inl n' \<Rightarrow> Inl n'
      | Inr (n', k', rest) \<Rightarrow> if rest = [] then read_digits n' k' b else Inr (n', k', rest @ b))"
  by (induction n k a rule: read_digits.induct) (auto simp: Let_def)

lemma read_digits_add: "read_digits n (k + j) cs = map_sum id (\<lambda>(a, i, r). (a, i + j, r)) (read_digits n k cs)"
proof (induction n k cs rule: read_digits.induct)
  case (2 n k c cs)
  then show ?case by (simp add: Let_def)
qed simp

lemma read_digits_from: "read_digits n k cs = map_sum id (\<lambda>(a, i, r). (a, i + k, r)) (read_digits n 0 cs)"
  using read_digits_add [of n 0 k cs] by simp

subsection \<open>The stacks of parser and machine\<close>

text \<open>
  A parser keeps a stack of its own beside those of the machine. They belong together: \<open>fin\<close> at the bottom, and for
  every list \<open>lst\<close>, for every dict whose value is due \<open>dct\<close>, two states of the machine and a frame with the value
  so far. \<open>key\<close> stands on top while a key is read.
\<close>

inductive open_values :: "'s \<Rightarrow> 's \<Rightarrow> 's \<Rightarrow> 's list \<Rightarrow> vstate list \<Rightarrow> state_frame list \<Rightarrow> bool" for fin lst dct where
  base: "open_values fin lst dct [fin] [VValue] []"
| element: "open_values fin lst dct st ss fs \<Longrightarrow> sf_value f = Some (BList vs)
    \<Longrightarrow> open_values fin lst dct (lst # st) (VArrayData # VArray # ss) (f # fs)"
| entry: "open_values fin lst dct st ss fs \<Longrightarrow> sf_value f = Some (BDict d)
    \<Longrightarrow> open_values fin lst dct (dct # st) (VDictData # VDict # ss) (f # fs)"

definition open_key :: "'s \<Rightarrow> 's \<Rightarrow> 's \<Rightarrow> 's \<Rightarrow> 's list \<Rightarrow> vstate list \<Rightarrow> state_frame list \<Rightarrow> bool" where
  "open_key fin lst dct key stk ss fs \<longleftrightarrow>
     (\<exists>stk' ss' f fs' d. stk = key # stk' \<and> ss = VDict # ss' \<and> fs = f # fs' \<and> sf_value f = Some (BDict d)
        \<and> length stk' < 50 \<and> open_values fin lst dct stk' ss' fs')"

end
