(* ===== verification/Bencode.thy ===== *)
theory Bencode
  imports Value_Machine Char_Loop
begin

text \<open>
  Bencode: the printer (\<open>bencode2.cc\<close>), the parser (\<open>BencodeParser.cc\<close>) that drives the machine of
  \<open>Value_Machine\<close>, \<open>GenericParser.h\<close> and \<open>decode\<close>; what was printed is read back.
\<close>

subsection \<open>The printer\<close>

definition encode_string :: "string \<Rightarrow> string" where
  "encode_string s = print_nat (length s) @ '':'' @ s"

fun bencode2_encode :: "bvalue \<Rightarrow> string" where
  "bencode2_encode (BString s) = encode_string s"
| "bencode2_encode (BInteger i) = ''i'' @ print_int i @ ''e''"
| "bencode2_encode (BBool b) = []"
| "bencode2_encode BNull = []"
| "bencode2_encode (BList vs) = ''l'' @ concat (map bencode2_encode vs) @ ''e''"
| "bencode2_encode (BDict d) = ''d'' @ concat (map (\<lambda>(k, v). encode_string k @ bencode2_encode v) d) @ ''e''"

subsection \<open>The parser\<close>

datatype bstate =
    BENCODE_FINISH | BENCODE_ERROR | BENCODE_INITIAL | BENCODE_VALUE | BENCODE_DICT_KEY | BENCODE_DICT_VAL | BENCODE_LIST
  | BENCODE_STRING_LEN | BENCODE_STRING | BENCODE_NUMBER_SIGN | BENCODE_NUMBER | BENCODE_FLOAT_NUMBER_IGNORE

definition ERR_UNEXPECTED_CHAR_BEFORE_VAL :: int where "ERR_UNEXPECTED_CHAR_BEFORE_VAL = -1"
definition ERR_INVALID_NUMBER :: int where "ERR_INVALID_NUMBER = -2"
definition ERR_NUMBER_OUT_OF_RANGE :: int where "ERR_NUMBER_OUT_OF_RANGE = -3"
definition ERR_PREMATURE_DATA :: int where "ERR_PREMATURE_DATA = -4"
definition ERR_STRUCTURE_TOO_DEEP :: int where "ERR_STRUCTURE_TOO_DEEP = -5"
definition ERR_INVALID_STRING_LENGTH :: int where "ERR_INVALID_STRING_LENGTH = -6"
definition ERR_STRING_LENGTH_OUT_OF_RANGE :: int where "ERR_STRING_LENGTH_OUT_OF_RANGE = -7"
definition ERR_INVALID_FLOAT_NUMBER :: int where "ERR_INVALID_FLOAT_NUMBER = -8"

record bparser =
  bp_psm :: value_machine
  bp_stack :: "bstate list"
  bp_state :: bstate
  bp_strLength :: int
  bp_sign :: int
  bp_number :: int
  bp_consumed :: nat
  bp_lastError :: int

definition BencodeParser_new :: "value_machine \<Rightarrow> bparser" where
  "BencodeParser_new m =
     \<lparr>bp_psm = m, bp_stack = [BENCODE_FINISH], bp_state = BENCODE_INITIAL, bp_strLength = 0, bp_sign = 1, bp_number = 0,
      bp_consumed = 0, bp_lastError = 0\<rparr>"

definition runBeginCallback :: "element \<Rightarrow> bparser \<Rightarrow> bparser option" where
  "runBeginCallback el p = map_option (\<lambda>m. p\<lparr>bp_psm := m\<rparr>) (machine_beginElement el (bp_psm p))"

definition runEndCallback :: "bparser \<Rightarrow> bparser option" where
  "runEndCallback p = map_option (\<lambda>m. p\<lparr>bp_psm := m\<rparr>) (machine_endElement (bp_psm p))"

definition BencodeParser_pushState :: "bstate \<Rightarrow> bparser \<Rightarrow> int + bparser" where
  "BencodeParser_pushState s p = (if length (bp_stack p) \<ge> 50 then Inl ERR_STRUCTURE_TOO_DEEP else Inr (p\<lparr>bp_stack := s # bp_stack p\<rparr>))"

text \<open>After a pop there is room, so the push of the first case cannot fail.\<close>

definition BencodeParser_onValueEnd :: "bparser \<Rightarrow> bparser option" where
  "BencodeParser_onValueEnd p =
     (case bp_stack p of
        [] \<Rightarrow> None
      | BENCODE_DICT_KEY # ss \<Rightarrow>
          (case BencodeParser_pushState BENCODE_DICT_VAL (p\<lparr>bp_stack := ss\<rparr>) of
             Inl err \<Rightarrow> runBeginCallback DICT_DATA_T (p\<lparr>bp_stack := ss, bp_state := BENCODE_VALUE\<rparr>)
           | Inr p1 \<Rightarrow> runBeginCallback DICT_DATA_T (p1\<lparr>bp_state := BENCODE_VALUE\<rparr>))
      | BENCODE_DICT_VAL # ss \<Rightarrow> map_option (\<lambda>p1. p1\<lparr>bp_stack := tl (bp_stack p1), bp_state := BENCODE_DICT_KEY\<rparr>) (runEndCallback p)
      | BENCODE_LIST # ss \<Rightarrow> map_option (\<lambda>p1. p1\<lparr>bp_stack := tl (bp_stack p1), bp_state := BENCODE_LIST\<rparr>) (runEndCallback p)
      | s # ss \<Rightarrow> if s = BENCODE_FINISH then Some (p\<lparr>bp_state := s\<rparr>) else None)"

definition BencodeParser_onStringEnd :: "bparser \<Rightarrow> bparser option" where
  "BencodeParser_onStringEnd p = Option.bind (runEndCallback p) BencodeParser_onValueEnd"

definition BencodeParser_onNumberEnd :: "bparser \<Rightarrow> bparser option" where
  "BencodeParser_onNumberEnd p =
     Option.bind (runEndCallback (p\<lparr>bp_psm := machine_number (bp_sign p * bp_number p) (bp_psm p)\<rparr>)) BencodeParser_onValueEnd"

definition BencodeParser_onDictEnd :: "bparser \<Rightarrow> bparser option" where
  "BencodeParser_onDictEnd p = Option.bind (runEndCallback p) BencodeParser_onValueEnd"

definition BencodeParser_onListEnd :: "bparser \<Rightarrow> bparser option" where
  "BencodeParser_onListEnd p = Option.bind (runEndCallback p) BencodeParser_onValueEnd"

text \<open>The rounds of the loop of \<open>parseUpdate\<close>.\<close>

definition fail :: "bparser \<Rightarrow> int \<Rightarrow> bparser round" where
  "fail p err = Return (p\<lparr>bp_state := BENCODE_ERROR, bp_lastError := err\<rparr>) err"

definition parse_value_char :: "bparser \<Rightarrow> char \<Rightarrow> string \<Rightarrow> bparser round option" where
  "parse_value_char p c rest =
     (if c = CHR ''d'' then next_with (runBeginCallback DICT_T (p\<lparr>bp_state := BENCODE_DICT_KEY\<rparr>)) rest
      else if c = CHR ''l'' then next_with (runBeginCallback ARRAY_T (p\<lparr>bp_state := BENCODE_LIST\<rparr>)) rest
      else if c = CHR ''i'' then
        next_with (runBeginCallback NUMBER_T (p\<lparr>bp_number := 0, bp_sign := 1, bp_consumed := 0, bp_state := BENCODE_NUMBER_SIGN\<rparr>)) rest
      else if util_isDigit c then
        next_with (runBeginCallback STRING_T (p\<lparr>bp_strLength := int (code_of c) - 48, bp_consumed := 1, bp_state := BENCODE_STRING_LEN\<rparr>)) rest
      else Some (fail p ERR_UNEXPECTED_CHAR_BEFORE_VAL))"

definition parse_string_len :: "bparser \<Rightarrow> string \<Rightarrow> bparser round option" where
  "parse_string_len p data =
     (case read_digits (bp_strLength p) 0 data of
        Inl n \<Rightarrow> Some (fail (p\<lparr>bp_strLength := n\<rparr>) ERR_STRING_LENGTH_OUT_OF_RANGE)
      | Inr (n, k, rest) \<Rightarrow>
          let p1 = p\<lparr>bp_strLength := n, bp_consumed := bp_consumed p + k\<rparr>
          in (case rest of
                [] \<Rightarrow> Some (Next p1 [])
              | c # cs \<Rightarrow>
                  if c \<noteq> CHR '':'' \<or> bp_consumed p1 = 0 then Some (fail p1 ERR_INVALID_STRING_LENGTH)
                  else let p2 = p1\<lparr>bp_state := BENCODE_STRING\<rparr>
                       in if n = 0 then next_with (BencodeParser_onStringEnd (p2\<lparr>bp_psm := machine_characters [] (bp_psm p2)\<rparr>)) cs
                          else Some (Next p2 cs)))"

definition float_char :: "char \<Rightarrow> bool" where
  "float_char c \<longleftrightarrow> util_isDigit c \<or> c = CHR ''.'' \<or> c = CHR ''E'' \<or> c = CHR ''+'' \<or> c = CHR ''-''"

definition parse_number :: "bparser \<Rightarrow> string \<Rightarrow> bparser round option" where
  "parse_number p data =
     (case read_digits (bp_number p) 0 data of
        Inl n \<Rightarrow> Some (fail (p\<lparr>bp_number := n\<rparr>) ERR_NUMBER_OUT_OF_RANGE)
      | Inr (n, k, rest) \<Rightarrow>
          let p1 = p\<lparr>bp_number := n, bp_consumed := bp_consumed p + k\<rparr>
          in (case rest of
                [] \<Rightarrow> Some (Next p1 [])
              | c # cs \<Rightarrow>
                  if bp_consumed p1 = 0 then Some (fail p1 ERR_INVALID_NUMBER)
                  else if float_char c then
                    Some (Next (p1\<lparr>bp_number := 0, bp_consumed := 0, bp_state := BENCODE_FLOAT_NUMBER_IGNORE\<rparr>) cs)
                  else if c \<noteq> CHR ''e'' then Some (fail p1 ERR_INVALID_NUMBER)
                  else next_with (BencodeParser_onNumberEnd p1) cs))"

text \<open>A string with nothing left to read does not reach the loop; there it counts as a failed assertion.\<close>

definition parse_round :: "bparser \<Rightarrow> char \<Rightarrow> string \<Rightarrow> bparser round option" where
  "parse_round p c rest =
     (case bp_state p of
        BENCODE_LIST \<Rightarrow>
          if c = CHR ''e'' then next_with (BencodeParser_onListEnd p) rest
          else (case BencodeParser_pushState BENCODE_LIST p of
                  Inl err \<Rightarrow> Some (Return p err)
                | Inr p1 \<Rightarrow>
                    Option.bind (runBeginCallback ARRAY_DATA_T (p1\<lparr>bp_state := BENCODE_VALUE\<rparr>)) (\<lambda>p2. parse_value_char p2 c rest))
      | BENCODE_INITIAL \<Rightarrow> parse_value_char p c rest
      | BENCODE_VALUE \<Rightarrow> parse_value_char p c rest
      | BENCODE_DICT_KEY \<Rightarrow>
          if c = CHR ''e'' then next_with (BencodeParser_onDictEnd p) rest
          else (case BencodeParser_pushState BENCODE_DICT_KEY p of
                  Inl err \<Rightarrow> Some (Return p err)
                | Inr p1 \<Rightarrow>
                    Option.bind (runBeginCallback DICT_KEY_T (p1\<lparr>bp_strLength := 0, bp_consumed := 0\<rparr>))
                      (\<lambda>p2. parse_string_len (p2\<lparr>bp_state := BENCODE_STRING_LEN\<rparr>) (c # rest)))
      | BENCODE_STRING_LEN \<Rightarrow> parse_string_len p (c # rest)
      | BENCODE_STRING \<Rightarrow>
          let n = nat (min (int (length (c # rest))) (bp_strLength p));
              p1 = p\<lparr>bp_psm := machine_characters (take n (c # rest)) (bp_psm p), bp_strLength := bp_strLength p - int n\<rparr>
          in if n = 0 then None
             else if bp_strLength p1 = 0 then next_with (BencodeParser_onStringEnd p1) (drop n (c # rest))
             else Some (Next p1 (drop n (c # rest)))
      | BENCODE_NUMBER_SIGN \<Rightarrow>
          Some (Next
            (if c = CHR ''+'' then p\<lparr>bp_sign := 1, bp_state := BENCODE_NUMBER\<rparr>
             else if c = CHR ''-'' then p\<lparr>bp_sign := -1, bp_state := BENCODE_NUMBER\<rparr>
             else if util_isDigit c then p\<lparr>bp_number := int (code_of c) - 48, bp_consumed := 1, bp_state := BENCODE_NUMBER\<rparr>
             else p) rest)
      | BENCODE_NUMBER \<Rightarrow> parse_number p (c # rest)
      | BENCODE_FLOAT_NUMBER_IGNORE \<Rightarrow>
          if float_char c then Some (Next p rest)
          else if c \<noteq> CHR ''e'' then Some (fail p ERR_INVALID_FLOAT_NUMBER)
          else next_with (BencodeParser_onNumberEnd p) rest
      | _ \<Rightarrow> Some (Next p rest))"

lemma parse_value_char_rest: "parse_value_char p c rest = Some (Next p' rest') \<Longrightarrow> rest' = rest"
  by (auto simp: parse_value_char_def next_with_def fail_def split: if_splits)

lemma parse_string_len_rest:
  "parse_string_len p (c # rest) = Some (Next p' rest') \<Longrightarrow> length rest' \<le> length rest"
  using read_digits_length
  by (fastforce simp: parse_string_len_def next_with_def fail_def Let_def split: sum.splits list.splits if_splits)

lemma parse_number_rest:
  "parse_number p (c # rest) = Some (Next p' rest') \<Longrightarrow> length rest' \<le> length rest"
  using read_digits_length
  by (fastforce simp: parse_number_def next_with_def fail_def Let_def split: sum.splits list.splits if_splits)

lemma parse_round_rest: "parse_round p c rest = Some (Next p' rest') \<Longrightarrow> length rest' \<le> length rest"
  by (auto simp: parse_round_def next_with_def fail_def Let_def bind_eq_Some_conv
      dest: parse_value_char_rest parse_string_len_rest parse_number_rest split: bstate.splits if_splits sum.splits)

text \<open>The loop, with the number of characters consumed so far.\<close>

function parse_loop :: "bparser \<Rightarrow> string \<Rightarrow> nat \<Rightarrow> (bparser \<times> int) option" where
  "parse_loop p data i =
     (case data of
        [] \<Rightarrow> Some (p, int i)
      | c # rest \<Rightarrow>
          if bp_state p = BENCODE_FINISH then Some (p, int i)
          else (case parse_round p c rest of
                  None \<Rightarrow> None
                | Some (Return p' err) \<Rightarrow> Some (p', err)
                | Some (Next p' rest') \<Rightarrow> parse_loop p' rest' (i + (length data - length rest'))))"
  by pat_completeness auto
termination
  by (relation "measure (\<lambda>(p, data, i). length data)") (auto dest: parse_round_rest)

declare parse_loop.simps [simp del]

lemmas error_codes = ERR_UNEXPECTED_CHAR_BEFORE_VAL_def ERR_INVALID_NUMBER_def ERR_NUMBER_OUT_OF_RANGE_def
  ERR_PREMATURE_DATA_def ERR_STRUCTURE_TOO_DEEP_def ERR_INVALID_STRING_LENGTH_def ERR_STRING_LENGTH_OUT_OF_RANGE_def
  ERR_INVALID_FLOAT_NUMBER_def

lemma value_char_error: "parse_value_char p c rest = Some (Return q e) \<Longrightarrow> e < 0"
  by (auto simp: parse_value_char_def next_with_def fail_def error_codes split: if_splits)

lemma string_len_error: "parse_string_len p cs = Some (Return q e) \<Longrightarrow> e < 0"
  by (auto simp: parse_string_len_def next_with_def fail_def Let_def error_codes split: if_splits sum.splits list.splits)

lemma number_error: "parse_number p cs = Some (Return q e) \<Longrightarrow> e < 0"
  by (auto simp: parse_number_def next_with_def fail_def Let_def error_codes split: if_splits sum.splits list.splits)

lemma round_error: "parse_round p c rest = Some (Return q e) \<Longrightarrow> e < 0"
  by (auto simp: parse_round_def next_with_def fail_def Let_def BencodeParser_pushState_def error_codes bind_eq_Some_conv
      dest: value_char_error string_len_error number_error split: bstate.splits if_splits)

interpretation bl: char_loop parse_round "\<lambda>p. bp_state p = BENCODE_FINISH" "\<lambda>_. 0" parse_loop
proof
  fix p c rest p' rest' err i cs
  show "parse_loop p [] i = Some (p, int i)" by (simp add: parse_loop.simps)
  show "bp_state p = BENCODE_FINISH \<Longrightarrow> parse_loop p cs i = Some (p, int i)" by (cases cs) (simp_all add: parse_loop.simps)
  show "bp_state p \<noteq> BENCODE_FINISH \<Longrightarrow> parse_loop p (c # rest) i = (case parse_round p c rest of
      None \<Rightarrow> None
    | Some (Next p' rest') \<Rightarrow> parse_loop p' rest' (i + (Suc (length rest) - length rest'))
    | Some (Return p' err) \<Rightarrow> Some (p', err))"
    by (simp only: parse_loop.simps [of p "c # rest"] list.case length_Cons if_False)
  show "parse_round p c rest = Some (Next p' rest') \<Longrightarrow> length rest' \<le> Suc (length rest)"
    "parse_round p c rest = Some (Next p' rest') \<Longrightarrow> 2 * length rest' + 0 < 2 * Suc (length rest) + (0::nat)"
    using parse_round_rest [of p c rest p' rest'] by simp_all
  show "parse_round p c rest = Some (Return p' err) \<Longrightarrow> err < 0" by (rule round_error)
qed

definition BencodeParser_parseUpdate :: "bparser \<Rightarrow> string \<Rightarrow> (bparser \<times> int) option" where
  "BencodeParser_parseUpdate p data =
     (if bp_state p = BENCODE_FINISH then Some (p, 0)
      else if bp_state p = BENCODE_ERROR then Some (p, bp_lastError p)
      else parse_loop p data 0)"

definition BencodeParser_parseFinal :: "bparser \<Rightarrow> string \<Rightarrow> (bparser \<times> int) option" where
  "BencodeParser_parseFinal p data =
     (case BencodeParser_parseUpdate p data of
        None \<Rightarrow> None
      | Some (p', rv) \<Rightarrow>
          Some (p', if rv \<ge> 0 \<and> bp_state p' \<noteq> BENCODE_FINISH \<and> bp_state p' \<noteq> BENCODE_INITIAL then ERR_PREMATURE_DATA else rv))"

definition BencodeParser_reset :: "bparser \<Rightarrow> bparser" where
  "BencodeParser_reset p =
     p\<lparr>bp_psm := machine_reset (bp_psm p), bp_state := BENCODE_INITIAL, bp_lastError := 0, bp_stack := [BENCODE_FINISH]\<rparr>"

text \<open>The parser with its machine, and \<open>decode\<close>, which throws on an error.\<close>

definition BencodeParser_getResult :: "bparser \<Rightarrow> bvalue option \<times> bparser" where
  "BencodeParser_getResult p = (let (res, m) = machine_getResult (bp_psm p) in (res, p\<lparr>bp_psm := m\<rparr>))"

definition ValueBaseBencodeParser_parseFinal :: "bparser \<Rightarrow> string \<Rightarrow> (bparser \<times> bvalue option \<times> int) option" where
  "ValueBaseBencodeParser_parseFinal = GenericParser_parseFinal BencodeParser_parseFinal BencodeParser_getResult BencodeParser_reset"

definition ValueBaseBencodeParser_new :: bparser where
  "ValueBaseBencodeParser_new = BencodeParser_new (value_machine_new True)"

definition bencode2_decode :: "string \<Rightarrow> (int + (bvalue option \<times> nat)) option" where
  "bencode2_decode data =
     (case ValueBaseBencodeParser_parseFinal ValueBaseBencodeParser_new data of
        None \<Rightarrow> None
      | Some (p, res, err) \<Rightarrow> Some (if err < 0 then Inl err else Inr (res, nat err)))"


subsection \<open>Which values can be printed and read back\<close>

text \<open>
  No null and no boolean, numbers in the range the parser takes, keys in the order of the map, and at most \<open>n\<close>
  levels below the value.
\<close>

fun bencodable :: "nat \<Rightarrow> bvalue \<Rightarrow> bool" where
  "bencodable n (BString s) \<longleftrightarrow> int (length s) \<le> INT64_MAX"
| "bencodable n (BInteger i) \<longleftrightarrow> \<bar>i\<bar> \<le> INT64_MAX"
| "bencodable n (BBool b) \<longleftrightarrow> False"
| "bencodable n BNull \<longleftrightarrow> False"
| "bencodable n (BList vs) \<longleftrightarrow> list_all (\<lambda>v. n > 0 \<and> bencodable (n - 1) v) vs"
| "bencodable n (BDict d) \<longleftrightarrow>
     sorted_wrt key_less (map fst d) \<and> list_all (\<lambda>(k, v). n > 0 \<and> int (length k) \<le> INT64_MAX \<and> bencodable (n - 1) v) d"

text \<open>The parser \<open>p'\<close> is \<open>p\<close> after one whole value \<open>v\<close>.\<close>

definition has_read :: "bvalue \<Rightarrow> bparser \<Rightarrow> bparser \<Rightarrow> bool" where
  "has_read v p p' \<longleftrightarrow> bp_stack p' = bp_stack p \<and> built v (bp_psm p) (bp_psm p')"

abbreviation reads :: "bparser \<Rightarrow> string \<Rightarrow> bparser option \<Rightarrow> bool" where
  "reads \<equiv> goes_on parse_loop (\<lambda>_. True)"

definition at_value :: "bparser \<Rightarrow> bool" where
  "at_value p \<longleftrightarrow>
     bp_state p \<in> {BENCODE_INITIAL, BENCODE_VALUE} \<and> vm_states (bp_psm p) \<noteq> []
     \<and> hd (vm_states (bp_psm p)) \<in> {VValue, VDictData, VArrayData} \<and> vm_allowEmpty (bp_psm p)"

lemma reads_trans: "reads p s (Some p') \<Longrightarrow> reads p' t r \<Longrightarrow> reads p (s @ t) r"
  by (rule goes_on_trans) simp_all

lemma reads_chars:
  assumes "s \<noteq> []" "bp_state p \<noteq> BENCODE_FINISH"
    and "\<And>rest. parse_round p (hd s) (tl s @ rest) = map_option (\<lambda>p'. Next p' rest) r"
  shows "reads p s r"
  using assms by (rule bl.goes_onI)

lemma machine_begin_value:
  assumes "at_value p"
  shows "machine_beginElement el (bp_psm p) = value_beginElement el (bp_psm p)"
  using assms by (cases "vm_states (bp_psm p)") (auto simp: at_value_def machine_beginElement_def)

lemma round_at_value: "at_value p \<Longrightarrow> parse_round p c rest = parse_value_char p c rest"
  by (auto simp: at_value_def parse_round_def)

lemma at_value_running: "at_value p \<Longrightarrow> bp_state p \<noteq> BENCODE_FINISH"
  by (auto simp: at_value_def)

subsection \<open>Strings and numbers\<close>

text \<open>The length of a string, then its characters.\<close>

lemma goes_on_content:
  assumes "bp_state p = BENCODE_STRING" "bp_strLength p = int (length s)" "s \<noteq> []"
  shows "reads p s (BencodeParser_onStringEnd (p\<lparr>bp_psm := machine_characters s (bp_psm p), bp_strLength := 0\<rparr>))"
proof -
  obtain c s' where s: "s = c # s'" using assms(3) by (cases s) auto
  have n: "nat (1 + int (length s')) = Suc (length s')" by simp
  have "parse_round p c (s' @ rest)
      = map_option (\<lambda>p'. Next p' rest) (BencodeParser_onStringEnd (p\<lparr>bp_psm := machine_characters s (bp_psm p), bp_strLength := 0\<rparr>))"
    for rest
    using assms by (simp add: parse_round_def next_with_def s n Let_def min_def)
  then show ?thesis unfolding s by (intro reads_chars) (use assms(1) s in auto)
qed


lemma string_len_read:
  assumes "read_digits (bp_strLength p) 0 (ds @ CHR '':'' # s) = Inr (int (length s'), length ds, CHR '':'' # s)"
    and "bp_consumed p + length ds > 0"
  shows "parse_string_len p (ds @ CHR '':'' # s)
       = (let p2 = p\<lparr>bp_strLength := int (length s'), bp_consumed := bp_consumed p + length ds, bp_state := BENCODE_STRING\<rparr>
          in if s' = [] then next_with (BencodeParser_onStringEnd (p2\<lparr>bp_psm := machine_characters [] (bp_psm p2)\<rparr>)) s
             else Some (Next p2 s))"
  using assms by (auto simp: parse_string_len_def Let_def)

definition string_read :: "string \<Rightarrow> bparser \<Rightarrow> bparser" where
  "string_read s p = p\<lparr>bp_state := BENCODE_STRING, bp_psm := machine_characters s (bp_psm p), bp_strLength := 0\<rparr>"

lemma goes_on_string:
  assumes running: "bp_state p \<noteq> BENCODE_FINISH"
    and round: "\<And>rest. parse_round p (hd (ds @ '':'')) (tl (ds @ '':'') @ rest) = parse_string_len p1 (es @ CHR '':'' # rest)"
    and digits: "\<And>rest. read_digits (bp_strLength p1) 0 (es @ CHR '':'' # rest) = Inr (int (length s), length es, CHR '':'' # rest)"
    and some: "bp_consumed p1 + length es > 0"
  shows "\<exists>co. reads p (ds @ CHR '':'' # s) (BencodeParser_onStringEnd (string_read s (p1\<lparr>bp_consumed := co\<rparr>)))"
proof (intro exI)
  let ?p2 = "p1\<lparr>bp_strLength := int (length s), bp_consumed := bp_consumed p1 + length es, bp_state := BENCODE_STRING\<rparr>"
  let ?r = "BencodeParser_onStringEnd (string_read s (p1\<lparr>bp_consumed := bp_consumed p1 + length es\<rparr>))"
  note rd = string_len_read [OF digits some]
  show "reads p (ds @ CHR '':'' # s) ?r"
  proof (cases "s = []")
    case True
    have "?p2\<lparr>bp_psm := machine_characters [] (bp_psm ?p2)\<rparr> = string_read [] (p1\<lparr>bp_consumed := bp_consumed p1 + length es\<rparr>)"
      using True by (cases p1) (simp add: string_read_def)
    then have "parse_round p (hd (ds @ '':'')) (tl (ds @ '':'') @ rest) = map_option (\<lambda>p'. Next p' rest) ?r" for rest
      using rd [of rest] round [of rest] True by (simp add: Let_def next_with_def)
    then show ?thesis using reads_chars [of "ds @ '':''" p ?r] running True by simp
  next
    case False
    have "parse_round p (hd (ds @ '':'')) (tl (ds @ '':'') @ rest) = map_option (\<lambda>p'. Next p' rest) (Some ?p2)" for rest
      using rd [of rest] round [of rest] False by (simp add: Let_def)
    then have "reads p (ds @ '':'') (Some ?p2)" using reads_chars [of "ds @ '':''" p "Some ?p2"] running by simp
    moreover have "reads ?p2 s ?r"
      using goes_on_content [of ?p2 s] False by (cases p1) (simp add: string_read_def)
    ultimately show ?thesis using reads_trans by fastforce
  qed
qed

text \<open>A value that ends its element is then passed to whatever contains it.\<close>

lemma value_ended:
  assumes "reads p s (Option.bind r BencodeParser_onValueEnd)" "\<exists>p'. r = Some p' \<and> has_read v p p'"
  shows "\<exists>p'. has_read v p p' \<and> reads p s (BencodeParser_onValueEnd p')"
  using assms by auto

lemma string_value:
  assumes at: "at_value p" and len: "int (length s) \<le> INT64_MAX"
  shows "\<exists>p'. has_read (BString s) p p' \<and> reads p (encode_string s) (BencodeParser_onValueEnd p')"
proof -
  obtain d :: nat and ds where d: "d < 10" "print_nat (length s) = char_of (d + 48) # ds" using print_nat_head by blast
  let ?c = "char_of (d + 48) :: char"
  let ?m = "push_vstate VString ((bp_psm p)\<lparr>vm_str := []\<rparr>)"
  let ?p1 = "p\<lparr>bp_strLength := int d, bp_consumed := 1, bp_state := BENCODE_STRING_LEN, bp_psm := ?m\<rparr>"
  have c: "code_of ?c = d + 48" "util_isDigit ?c" using d(1) by (simp_all add: code_of_digit util_isDigit_iff)
  have nc: "\<not> util_isDigit (CHR '':'')" by (simp add: util_isDigit_iff)
  have ne: "?c \<noteq> CHR ''d''" "?c \<noteq> CHR ''l''" "?c \<noteq> CHR ''i''" using c d(1) by (auto dest: arg_cong [of _ _ code_of])
  have "machine_beginElement STRING_T (bp_psm p) = Some ?m" using machine_begin_value [OF at] by simp
  then have first: "parse_round p ?c rest = Some (Next ?p1 rest)" for rest
    using c ne by (simp add: round_at_value [OF at] parse_value_char_def next_with_def runBeginCallback_def)
  have "\<exists>co. reads ?p1 (ds @ CHR '':'' # s) (BencodeParser_onStringEnd (string_read s (?p1\<lparr>bp_consumed := co\<rparr>)))"
  proof (rule goes_on_string [where es = ds])
    show "parse_round ?p1 (hd (ds @ '':'')) (tl (ds @ '':'') @ rest) = parse_string_len ?p1 (ds @ CHR '':'' # rest)" for rest
      by (cases ds) (simp_all add: parse_round_def)
    show "read_digits (bp_strLength ?p1) 0 (ds @ CHR '':'' # rest) = Inr (int (length s), length ds, CHR '':'' # rest)" for rest
      using read_printed_tail [OF len nc d(2, 1)] by simp
  qed simp_all
  then obtain co where "reads p (encode_string s) (BencodeParser_onStringEnd (string_read s (?p1\<lparr>bp_consumed := co\<rparr>)))"
    using bl.goes_on_step [OF at_value_running [OF at] first] d(2) by (auto simp: encode_string_def)
  then have "reads p (encode_string s) (Option.bind (runEndCallback (string_read s (?p1\<lparr>bp_consumed := co\<rparr>))) BencodeParser_onValueEnd)"
    by (simp add: BencodeParser_onStringEnd_def)
  then show ?thesis
    by (rule value_ended)
      (auto simp: runEndCallback_def machine_endElement_def string_read_def push_vstate_def machine_characters_def
        setCurrentFrameValue_def has_read_def built_def)
qed


lemma number_value:
  assumes at: "at_value p" and range: "\<bar>i\<bar> \<le> INT64_MAX"
  shows "\<exists>p'. has_read (BInteger i) p p' \<and> reads p (bencode2_encode (BInteger i)) (BencodeParser_onValueEnd p')"
proof -
  let ?n = "nat \<bar>i\<bar>" and ?sign = "if i < 0 then -1 else 1 :: int"
  have n: "int ?n \<le> INT64_MAX" using range by simp
  have ne: "\<not> util_isDigit (CHR ''e'')" by (simp add: util_isDigit_iff)
  let ?m = "push_vstate VNumber ((bp_psm p)\<lparr>vm_number := 0\<rparr>)"
  let ?p1 = "p\<lparr>bp_number := 0, bp_sign := 1, bp_consumed := 0, bp_state := BENCODE_NUMBER_SIGN, bp_psm := ?m\<rparr>"
  obtain d :: nat and ds where d: "d < 10" "print_nat ?n = char_of (d + 48) # ds" using print_nat_head by blast
  have c: "util_isDigit (char_of (d + 48))" "code_of (char_of (d + 48) :: char) = d + 48"
    using d(1) by (simp_all add: code_of_digit util_isDigit_iff)
  then have sgn: "(char_of (d + 48) :: char) \<noteq> CHR ''+''" "(char_of (d + 48) :: char) \<noteq> CHR ''-''"
    by (auto dest: arg_cong [of _ _ code_of])
  have first: "parse_round p (CHR ''i'') rest = Some (Next ?p1 rest)" for rest
    using machine_begin_value [OF at, of NUMBER_T]
    by (simp add: round_at_value [OF at] parse_value_char_def next_with_def runBeginCallback_def)
  define q where "q = (if i < 0 then ?p1\<lparr>bp_sign := -1, bp_state := BENCODE_NUMBER\<rparr>
      else ?p1\<lparr>bp_number := int d, bp_consumed := 1, bp_state := BENCODE_NUMBER\<rparr>)"
  define x where "x = (if i < 0 then CHR ''-'' else char_of (d + 48) :: char)"
  define es where "es = (if i < 0 then print_nat ?n else ds)"
  have text_eq: "print_int i = x # es" using d(2) by (cases "i < 0") (simp_all add: print_int_def x_def es_def)
  have second: "parse_round ?p1 x rest = Some (Next q rest)" for rest
    using c sgn by (auto simp: parse_round_def x_def q_def)
  have digits: "read_digits (bp_number q) 0 (es @ CHR ''e'' # rest) = Inr (int ?n, length es, CHR ''e'' # rest)" for rest
    using read_printed [OF n ne] read_printed_tail [OF n ne d(2, 1)] by (cases "i < 0") (simp_all add: q_def es_def)
  have some: "bp_consumed q + length es > 0" using d(2) by (auto simp: q_def es_def)
  let ?r = "q\<lparr>bp_number := int ?n, bp_consumed := bp_consumed q + length es\<rparr>"
  have q: "bp_state q = BENCODE_NUMBER" by (simp add: q_def)
  have fc: "\<not> float_char (CHR ''e'')" by (simp add: float_char_def ne)
  have "parse_number q (es @ CHR ''e'' # rest) = next_with (BencodeParser_onNumberEnd ?r) rest" for rest
    using some by (auto simp: parse_number_def digits Let_def fc)
  then have "reads q (es @ ''e'') (BencodeParser_onNumberEnd ?r)"
    using q by (intro reads_chars; cases es) (simp_all add: parse_round_def next_with_def)
  then have "reads p (CHR ''i'' # x # es @ ''e'') (BencodeParser_onNumberEnd ?r)"
    using at_value_running [OF at] by (intro bl.goes_on_step [OF _ first] bl.goes_on_step [OF _ second]) simp_all
  then have "reads p (bencode2_encode (BInteger i))
      (Option.bind (runEndCallback (?r\<lparr>bp_psm := machine_number (bp_sign q * int ?n) (bp_psm q)\<rparr>)) BencodeParser_onValueEnd)"
    by (simp add: BencodeParser_onNumberEnd_def text_eq)
  then show ?thesis
    by (rule value_ended)
      (auto simp: runEndCallback_def machine_endElement_def push_vstate_def machine_number_def setCurrentFrameValue_def
        has_read_def built_def q_def)
qed


subsection \<open>Lists\<close>

lemma has_read_trans: "has_read u p q \<Longrightarrow> has_read v q r \<Longrightarrow> has_read v p r"
  using built_trans by (auto simp: has_read_def)

lemma has_read_self: "sf_value (vm_frame (bp_psm p)) = Some v \<Longrightarrow> has_read v p p"
  by (simp add: has_read_def built_self)

lemma encode_head: "bencodable n v \<Longrightarrow> bencode2_encode v \<noteq> [] \<and> hd (bencode2_encode v) \<noteq> CHR ''e''"
proof (cases v)
  case (BString s)
  obtain d :: nat and ds where "d < 10" "print_nat (length s) = char_of (d + 48) # ds" using print_nat_head by blast
  then show ?thesis using code_of_digit [of d] by (auto simp: BString encode_string_def dest: arg_cong [of _ _ code_of])
qed auto

text \<open>With \<open>k\<close> entries on its stack the parser reads back what is printed for \<open>v\<close>.\<close>

definition readable :: "nat \<Rightarrow> bvalue \<Rightarrow> bool" where
  "readable k v \<longleftrightarrow>
     (\<forall>p. at_value p \<and> length (bp_stack p) = k
        \<longrightarrow> (\<exists>p'. has_read v p p' \<and> reads p (bencode2_encode v) (BencodeParser_onValueEnd p')))"

definition element_readable :: "nat \<Rightarrow> bvalue \<Rightarrow> bool" where
  "element_readable k v \<longleftrightarrow>
     k < 50 \<and> readable (Suc k) v \<and> bencode2_encode v \<noteq> [] \<and> hd (bencode2_encode v) \<noteq> CHR ''e''"

text \<open>The parser in front of an element of the list it is reading.\<close>

definition list_element :: "bparser \<Rightarrow> bparser" where
  "list_element p = p\<lparr>bp_stack := BENCODE_LIST # bp_stack p, bp_state := BENCODE_VALUE,
     bp_psm := push_vstate VArrayData (Controller_pushFrame (bp_psm p))\<rparr>"

definition in_list :: "bvalue list \<Rightarrow> bparser \<Rightarrow> bool" where
  "in_list acc p \<longleftrightarrow>
     bp_state p = BENCODE_LIST \<and> vm_allowEmpty (bp_psm p) \<and> vm_states (bp_psm p) \<noteq> [] \<and> hd (vm_states (bp_psm p)) = VArray
     \<and> sf_value (vm_frame (bp_psm p)) = Some (BList acc)"

lemma list_element_at: "in_list acc p \<Longrightarrow> at_value (list_element p)"
  by (simp add: in_list_def at_value_def list_element_def push_vstate_def Controller_pushFrame_def)

lemma list_element_begin:
  assumes "in_list acc p" "length (bp_stack p) < 50" "c \<noteq> CHR ''e''"
  shows "parse_round p c rest = parse_round (list_element p) c rest"
proof -
  have "machine_beginElement ARRAY_DATA_T (bp_psm p) = Some (push_vstate VArrayData (Controller_pushFrame (bp_psm p)))"
    using assms(1) by (cases "vm_states (bp_psm p)") (auto simp: in_list_def machine_beginElement_def)
  then have "parse_round p c rest = parse_value_char (list_element p) c rest"
    using assms by (simp add: parse_round_def in_list_def BencodeParser_pushState_def runBeginCallback_def list_element_def)
  then show ?thesis by (simp add: round_at_value [OF list_element_at [OF assms(1)]])
qed

lemma list_element_end:
  assumes "in_list acc p" "has_read v (list_element p) q"
  shows "\<exists>p'. BencodeParser_onValueEnd q = Some p' \<and> has_read (BList (acc @ [v])) p p' \<and> in_list (acc @ [v]) p'"
  using assms
  by (auto simp: in_list_def has_read_def built_def list_element_def push_vstate_def Controller_pushFrame_def BencodeParser_onValueEnd_def
      runEndCallback_def machine_endElement_def Controller_popArrayFrame_def Let_def)

lemma list_elements:
  assumes "list_all (element_readable k) vs" "in_list acc p" "length (bp_stack p) = k"
  shows "\<exists>p'. in_list (acc @ vs) p' \<and> has_read (BList (acc @ vs)) p p' \<and> reads p (concat (map bencode2_encode vs)) (Some p')"
  using assms
proof (induction vs arbitrary: acc p)
  case Nil
  then show ?case by (auto simp: in_list_def intro!: exI [of _ p] has_read_self)
next
  case (Cons v vs)
  have v: "k < 50" "readable (Suc k) v" "bencode2_encode v \<noteq> []" "hd (bencode2_encode v) \<noteq> CHR ''e''"
    using Cons.prems(1) by (simp_all add: element_readable_def)
  have "length (bp_stack (list_element p)) = Suc k" using Cons.prems(3) by (simp add: list_element_def)
  then obtain q where q: "has_read v (list_element p) q" "reads (list_element p) (bencode2_encode v) (BencodeParser_onValueEnd q)"
    using v(2) list_element_at [OF Cons.prems(2)] unfolding readable_def by blast
  obtain p1 where p1: "BencodeParser_onValueEnd q = Some p1" "has_read (BList (acc @ [v])) p p1" "in_list (acc @ [v]) p1"
    using list_element_end [OF Cons.prems(2) q(1)] by blast
  have run: "bp_state p \<noteq> BENCODE_FINISH" "bp_state (list_element p) \<noteq> BENCODE_FINISH"
    using Cons.prems(2) by (simp_all add: in_list_def list_element_def)
  have go: "reads p (bencode2_encode v) (Some p1)"
    using bl.goes_on_same [OF v(3) run _ q(2)] list_element_begin [OF Cons.prems(2) _ v(4)] v(1) Cons.prems(3) p1(1) by simp
  have len: "length (bp_stack p1) = k" using p1(2) Cons.prems(3) by (simp add: has_read_def built_def)
  have vs: "list_all (element_readable k) vs" using Cons.prems(1) by simp
  obtain p2 where p2: "in_list ((acc @ [v]) @ vs) p2" "has_read (BList ((acc @ [v]) @ vs)) p1 p2"
      "reads p1 (concat (map bencode2_encode vs)) (Some p2)"
    using Cons.IH [OF vs p1(3) len] by blast
  have "reads p (concat (map bencode2_encode (v # vs))) (Some p2)" using reads_trans [OF go p2(3)] by simp
  then show ?case using p2(1) has_read_trans [OF p1(2) p2(2)] by (intro exI [of _ p2]) simp
qed

lemma list_value:
  assumes at: "at_value p" and elements: "list_all (element_readable (length (bp_stack p))) vs"
  shows "\<exists>p'. has_read (BList vs) p p' \<and> reads p (bencode2_encode (BList vs)) (BencodeParser_onValueEnd p')"
proof -
  let ?p1 = "p\<lparr>bp_state := BENCODE_LIST, bp_psm := push_vstate VArray (setCurrentFrameValue (BList []) (bp_psm p))\<rparr>"
  have first: "parse_round p (CHR ''l'') rest = Some (Next ?p1 rest)" for rest
    using machine_begin_value [OF at, of ARRAY_T]
    by (simp add: round_at_value [OF at] parse_value_char_def next_with_def runBeginCallback_def)
  have "in_list [] ?p1"
    using at by (simp add: in_list_def at_value_def push_vstate_def setCurrentFrameValue_def)
  then obtain p2 where p2: "in_list vs p2" "has_read (BList vs) ?p1 p2" "reads ?p1 (concat (map bencode2_encode vs)) (Some p2)"
    using list_elements [OF elements, of "[]" ?p1] by auto
  have "reads p2 ''e'' (BencodeParser_onListEnd p2)"
    using p2(1) by (intro reads_chars) (simp_all add: parse_round_def in_list_def next_with_def)
  then have "reads p (CHR ''l'' # concat (map bencode2_encode vs) @ ''e'') (BencodeParser_onListEnd p2)"
    by (intro bl.goes_on_step [OF at_value_running [OF at] first] reads_trans [OF p2(3)])
  then have "reads p (bencode2_encode (BList vs)) (Option.bind (runEndCallback p2) BencodeParser_onValueEnd)"
    by (simp add: BencodeParser_onListEnd_def)
  then show ?thesis
    using p2(1, 2) by (elim value_ended)
      (auto simp: runEndCallback_def machine_endElement_def push_vstate_def setCurrentFrameValue_def has_read_def built_def)
qed


subsection \<open>Dictionaries\<close>

definition in_dict :: "(string \<times> bvalue) list \<Rightarrow> bparser \<Rightarrow> bool" where
  "in_dict acc p \<longleftrightarrow>
     bp_state p = BENCODE_DICT_KEY \<and> vm_allowEmpty (bp_psm p) \<and> vm_states (bp_psm p) \<noteq> [] \<and> hd (vm_states (bp_psm p)) = VDict
     \<and> sf_value (vm_frame (bp_psm p)) = Some (BDict acc)"

text \<open>The parser in front of a key, in front of the value of the key \<open>k\<close>, and what they share.\<close>

definition dict_key :: "bparser \<Rightarrow> bparser" where
  "dict_key p = p\<lparr>bp_stack := BENCODE_DICT_KEY # bp_stack p, bp_strLength := 0, bp_consumed := 0,
     bp_psm := push_vstate VDictKey ((Controller_pushFrame (bp_psm p))\<lparr>vm_str := []\<rparr>), bp_state := BENCODE_STRING_LEN\<rparr>"

definition key_taken :: "string \<Rightarrow> bparser \<Rightarrow> bparser \<Rightarrow> bool" where
  "key_taken k p q \<longleftrightarrow>
     bp_state q = BENCODE_VALUE \<and> bp_stack q = BENCODE_DICT_VAL # bp_stack p
     \<and> vm_states (bp_psm q) = VDictData # vm_states (bp_psm p) \<and> vm_frames (bp_psm q) = vm_frame (bp_psm p) # vm_frames (bp_psm p)
     \<and> vm_allowEmpty (bp_psm q) = vm_allowEmpty (bp_psm p) \<and> vm_frame (bp_psm q) = \<lparr>sf_value = None, sf_name = k\<rparr>"

lemma dict_key_begin:
  assumes "in_dict acc p" "length (bp_stack p) < 50" "c \<noteq> CHR ''e''"
  shows "parse_round p c rest = parse_string_len (dict_key p) (c # rest)"
proof -
  have "machine_beginElement DICT_KEY_T (bp_psm p) = Some (push_vstate VDictKey ((Controller_pushFrame (bp_psm p))\<lparr>vm_str := []\<rparr>))"
    using assms(1) by (cases "vm_states (bp_psm p)") (auto simp: in_dict_def machine_beginElement_def)
  then show ?thesis
    using assms by (simp add: parse_round_def in_dict_def BencodeParser_pushState_def runBeginCallback_def dict_key_def)
qed

lemma key_string_end:
  assumes "in_dict acc p" "length (bp_stack p) < 50"
  shows "\<exists>q. BencodeParser_onStringEnd (string_read k ((dict_key p)\<lparr>bp_consumed := co\<rparr>)) = Some q \<and> key_taken k p q"
  using assms
  by (cases "vm_states (bp_psm p)")
    (auto simp: in_dict_def dict_key_def string_read_def BencodeParser_onStringEnd_def runEndCallback_def runBeginCallback_def
      machine_endElement_def machine_beginElement_def push_vstate_def Controller_pushFrame_def machine_characters_def
      BencodeParser_onValueEnd_def BencodeParser_pushState_def key_taken_def empty_frame_def)

lemma key_reads:
  assumes "in_dict acc p" "length (bp_stack p) < 50" "int (length k) \<le> INT64_MAX"
  shows "\<exists>q. reads p (encode_string k) (Some q) \<and> key_taken k p q"
proof -
  obtain d :: nat and ds where d: "d < 10" "print_nat (length k) = char_of (d + 48) # ds" using print_nat_head by blast
  let ?c = "char_of (d + 48) :: char"
  have c: "?c \<noteq> CHR ''e''" using code_of_digit [OF d(1)] d(1) by (auto dest: arg_cong [of _ _ code_of])
  have nc: "\<not> util_isDigit (CHR '':'')" by (simp add: util_isDigit_iff)
  have "\<exists>co. reads p (print_nat (length k) @ CHR '':'' # k) (BencodeParser_onStringEnd (string_read k ((dict_key p)\<lparr>bp_consumed := co\<rparr>)))"
  proof (rule goes_on_string [where es = "print_nat (length k)"])
    show "bp_state p \<noteq> BENCODE_FINISH" using assms(1) by (simp add: in_dict_def)
    show "parse_round p (hd (print_nat (length k) @ '':'')) (tl (print_nat (length k) @ '':'') @ rest)
        = parse_string_len (dict_key p) (print_nat (length k) @ CHR '':'' # rest)" for rest
      using dict_key_begin [OF assms(1, 2) c] by (simp add: d(2))
    show "read_digits (bp_strLength (dict_key p)) 0 (print_nat (length k) @ CHR '':'' # rest)
        = Inr (int (length k), length (print_nat (length k)), CHR '':'' # rest)" for rest
      using read_printed [OF assms(3) nc] by (simp add: dict_key_def)
  qed (simp add: d(2))
  then obtain co where co: "reads p (encode_string k) (BencodeParser_onStringEnd (string_read k ((dict_key p)\<lparr>bp_consumed := co\<rparr>)))"
    by (auto simp: encode_string_def)
  obtain q where "BencodeParser_onStringEnd (string_read k ((dict_key p)\<lparr>bp_consumed := co\<rparr>)) = Some q" "key_taken k p q"
    using key_string_end [OF assms(1, 2)] by blast
  then show ?thesis using co by auto
qed

lemma key_taken_at: "in_dict acc p \<Longrightarrow> key_taken k p q \<Longrightarrow> at_value q"
  by (simp add: in_dict_def key_taken_def at_value_def)

lemma dict_entry_end:
  assumes "in_dict acc p" "key_taken k p q" "has_read v q q'" "\<And>k'. k' \<in> fst ` set acc \<Longrightarrow> key_less k' k"
  shows "\<exists>p'. BencodeParser_onValueEnd q' = Some p' \<and> has_read (BDict (acc @ [(k, v)])) p p' \<and> in_dict (acc @ [(k, v)]) p'"
proof -
  have "Dict_put k v acc = acc @ [(k, v)]" using Dict_put_last assms(4) by blast
  then show ?thesis
    using assms(1, 2, 3)
    by (auto simp: in_dict_def key_taken_def has_read_def built_def BencodeParser_onValueEnd_def runEndCallback_def machine_endElement_def
        Controller_popStructFrame_def Let_def)
qed

definition entry_readable :: "nat \<Rightarrow> string \<times> bvalue \<Rightarrow> bool" where
  "entry_readable n e \<longleftrightarrow> n < 50 \<and> int (length (fst e)) \<le> INT64_MAX \<and> readable (Suc n) (snd e)"

definition encode_entry :: "string \<times> bvalue \<Rightarrow> string" where
  "encode_entry e = encode_string (fst e) @ bencode2_encode (snd e)"

lemma dict_entries:
  assumes "list_all (entry_readable n) d" "sorted_wrt key_less (map fst (acc @ d))" "in_dict acc p" "length (bp_stack p) = n"
  shows "\<exists>p'. in_dict (acc @ d) p' \<and> has_read (BDict (acc @ d)) p p' \<and> reads p (concat (map encode_entry d)) (Some p')"
  using assms
proof (induction d arbitrary: acc p)
  case Nil
  then show ?case by (auto simp: in_dict_def intro!: exI [of _ p] has_read_self)
next
  case (Cons e d)
  obtain k v where e: "e = (k, v)" by (cases e)
  have v: "n < 50" "int (length k) \<le> INT64_MAX" "readable (Suc n) v"
    using Cons.prems(1) by (simp_all add: entry_readable_def e)
  have less: "key_less k' k" if "k' \<in> fst ` set acc" for k'
    using Cons.prems(2) that by (auto simp: e sorted_wrt_append)
  have room: "length (bp_stack p) < 50" using v(1) Cons.prems(4) by simp
  obtain q where q: "reads p (encode_string k) (Some q)" "key_taken k p q"
    using key_reads [OF Cons.prems(3) room v(2)] by blast
  have "length (bp_stack q) = Suc n" using q(2) Cons.prems(4) by (simp add: key_taken_def)
  then obtain q' where q': "has_read v q q'" "reads q (bencode2_encode v) (BencodeParser_onValueEnd q')"
    using v(3) key_taken_at [OF Cons.prems(3) q(2)] unfolding readable_def by blast
  obtain p1 where p1: "BencodeParser_onValueEnd q' = Some p1" "has_read (BDict (acc @ [(k, v)])) p p1" "in_dict (acc @ [(k, v)]) p1"
    using dict_entry_end [OF Cons.prems(3) q(2) q'(1) less] by blast
  have go: "reads p (encode_entry e) (Some p1)"
    using reads_trans [OF q(1)] q'(2) p1(1) by (simp add: encode_entry_def e)
  have len: "length (bp_stack p1) = n" using p1(2) Cons.prems(4) by (simp add: has_read_def built_def)
  have d: "list_all (entry_readable n) d" using Cons.prems(1) by simp
  have srt: "sorted_wrt key_less (map fst ((acc @ [(k, v)]) @ d))" using Cons.prems(2) by (simp add: e)
  obtain p2 where p2: "in_dict ((acc @ [(k, v)]) @ d) p2" "has_read (BDict ((acc @ [(k, v)]) @ d)) p1 p2"
      "reads p1 (concat (map encode_entry d)) (Some p2)"
    using Cons.IH [OF d srt p1(3) len] by blast
  have "reads p (concat (map encode_entry (e # d))) (Some p2)" using reads_trans [OF go p2(3)] by simp
  then show ?case using p2(1) has_read_trans [OF p1(2) p2(2)] by (intro exI [of _ p2]) (simp add: e)
qed

lemma dict_value:
  assumes at: "at_value p" and entries: "list_all (entry_readable (length (bp_stack p))) d"
    and srt: "sorted_wrt key_less (map fst d)"
  shows "\<exists>p'. has_read (BDict d) p p' \<and> reads p (bencode2_encode (BDict d)) (BencodeParser_onValueEnd p')"
proof -
  let ?p1 = "p\<lparr>bp_state := BENCODE_DICT_KEY, bp_psm := push_vstate VDict (setCurrentFrameValue (BDict []) (bp_psm p))\<rparr>"
  have first: "parse_round p (CHR ''d'') rest = Some (Next ?p1 rest)" for rest
    using machine_begin_value [OF at, of DICT_T]
    by (simp add: round_at_value [OF at] parse_value_char_def next_with_def runBeginCallback_def)
  have "in_dict [] ?p1"
    using at by (simp add: in_dict_def at_value_def push_vstate_def setCurrentFrameValue_def)
  then obtain p2 where p2: "in_dict d p2" "has_read (BDict d) ?p1 p2" "reads ?p1 (concat (map encode_entry d)) (Some p2)"
    using dict_entries [OF entries, of "[]" ?p1] srt by auto
  have "reads p2 ''e'' (BencodeParser_onDictEnd p2)"
    using p2(1) by (intro reads_chars) (simp_all add: parse_round_def in_dict_def next_with_def)
  then have "reads p (CHR ''d'' # concat (map encode_entry d) @ ''e'') (BencodeParser_onDictEnd p2)"
    by (intro bl.goes_on_step [OF at_value_running [OF at] first] reads_trans [OF p2(3)])
  moreover have "encode_entry = (\<lambda>(k, v). encode_string k @ bencode2_encode v)" by (auto simp: encode_entry_def)
  ultimately have "reads p (bencode2_encode (BDict d)) (Option.bind (runEndCallback p2) BencodeParser_onValueEnd)"
    by (simp add: BencodeParser_onDictEnd_def)
  then show ?thesis
    using p2(1, 2) by (elim value_ended)
      (auto simp: runEndCallback_def machine_endElement_def push_vstate_def setCurrentFrameValue_def has_read_def built_def)
qed


subsection \<open>What was printed is read back\<close>

lemma value_readable: "bencodable n v \<Longrightarrow> k + n \<le> 50 \<Longrightarrow> readable k v"
proof (induction v arbitrary: n k)
  case (BString s)
  then show ?case using string_value by (simp add: readable_def)
next
  case (BInteger i)
  then show ?case using number_value unfolding readable_def by simp
next
  case (BList vs)
  have "list_all (element_readable k) vs"
    unfolding list_all_iff element_readable_def
  proof (intro ballI conjI)
    fix v assume v: "v \<in> set vs"
    then have n: "n > 0" "bencodable (n - 1) v" using BList.prems(1) by (simp_all add: list_all_iff)
    show "k < 50" using n(1) BList.prems(2) by simp
    show "readable (Suc k) v" using BList.IH [OF v n(2)] n(1) BList.prems(2) by simp
    show "bencode2_encode v \<noteq> []" "hd (bencode2_encode v) \<noteq> CHR ''e''" using encode_head [OF n(2)] by simp_all
  qed
  then show ?case unfolding readable_def using list_value by blast
next
  case (BDict d)
  have "list_all (entry_readable k) d"
    unfolding list_all_iff entry_readable_def
  proof (intro ballI conjI)
    fix e assume e: "e \<in> set d"
    then have n: "n > 0" "int (length (fst e)) \<le> INT64_MAX" "bencodable (n - 1) (snd e)"
      using BDict.prems(1) by (auto simp: list_all_iff)
    show "k < 50" "int (length (fst e)) \<le> INT64_MAX" using n(1, 2) BDict.prems(2) by simp_all
    have "snd e \<in> Basic_BNFs.snds e" by (cases e) simp
    then show "readable (Suc k) (snd e)" using BDict.IH [OF e _ n(3)] n(1) BDict.prems(2) by simp
  qed
  moreover have "sorted_wrt key_less (map fst d)" using BDict.prems(1) by simp
  ultimately show ?case unfolding readable_def using dict_value by blast
qed simp_all

lemma new_parser_at: "at_value ValueBaseBencodeParser_new"
  by (simp add: ValueBaseBencodeParser_new_def BencodeParser_new_def value_machine_new_def at_value_def)

lemma loop_of_printed:
  assumes "bencodable 49 v"
  shows "\<exists>p. parse_loop ValueBaseBencodeParser_new (bencode2_encode v @ rest) 0 = Some (p, int (length (bencode2_encode v)))
           \<and> bp_state p = BENCODE_FINISH \<and> sf_value (vm_frame (bp_psm p)) = Some v"
proof -
  let ?p = ValueBaseBencodeParser_new
  have new: "bp_stack ?p = [BENCODE_FINISH]"
    by (simp add: ValueBaseBencodeParser_new_def BencodeParser_new_def)
  have "readable 1 v" using value_readable [OF assms] by simp
  then obtain p' where p': "has_read v ?p p'" "reads ?p (bencode2_encode v) (BencodeParser_onValueEnd p')"
    using new_parser_at new unfolding readable_def by force
  let ?q = "p'\<lparr>bp_state := BENCODE_FINISH\<rparr>"
  have "BencodeParser_onValueEnd p' = Some ?q"
    using p'(1) new by (simp add: has_read_def built_def BencodeParser_onValueEnd_def)
  then have "parse_loop ?p (bencode2_encode v @ rest) 0 = parse_loop ?q rest (length (bencode2_encode v))"
    using p'(2) by (simp add: goes_on_def)
  also have "\<dots> = Some (?q, int (length (bencode2_encode v)))" by (cases rest) (simp_all add: parse_loop.simps)
  finally show ?thesis using p'(1) by (auto simp: has_read_def built_def)
qed

text \<open>C29: \<open>decode (encode v)\<close> is \<open>v\<close>, and the parser stops exactly at its end whatever follows. The values are those of
  \<open>bencodable 49\<close>: strings of at most \<open>INT64_MAX\<close> bytes, integers whose absolute value is at most \<open>INT64_MAX\<close>, lists, and dicts with
  their keys in order, nested at most 49 deep; no booleans and no null, for which \<open>encode\<close> writes nothing.
  \<open>min_int_not_read_back\<close> shows that the bound on the integers is needed.\<close>

theorem bencode_roundtrip:
  assumes "bencodable 49 v"
  shows "bencode2_decode (bencode2_encode v @ rest) = Some (Inr (Some v, length (bencode2_encode v)))"
proof -
  obtain p where p: "parse_loop ValueBaseBencodeParser_new (bencode2_encode v @ rest) 0 = Some (p, int (length (bencode2_encode v)))"
    "bp_state p = BENCODE_FINISH" "sf_value (vm_frame (bp_psm p)) = Some v"
    using loop_of_printed [OF assms] by blast
  have "bp_state ValueBaseBencodeParser_new = BENCODE_INITIAL"
    by (simp add: ValueBaseBencodeParser_new_def BencodeParser_new_def)
  then show ?thesis
    using p by (simp add: bencode2_decode_def ValueBaseBencodeParser_parseFinal_def GenericParser_parseFinal_def BencodeParser_getResult_def BencodeParser_parseFinal_def BencodeParser_parseUpdate_def
        machine_getResult_def Let_def)
qed

lemma sample_printed:
  "bencode2_encode (BDict [(''a'', BInteger (-70)), (''bc'', BList [BString '''', BDict []])]) = ''d1:ai-70e2:bcl0:deee''"
  by (simp add: encode_string_def print_int_def print_nat.simps char_of_def bit_Suc_0_iff)

theorem bencode_roundtrip_witness:
  "bencode2_decode ''d1:ai-70e2:bcl0:deee,''
     = Some (Inr (Some (BDict [(''a'', BInteger (-70)), (''bc'', BList [BString '''', BDict []])]), 20))"
  using bencode_roundtrip [of "BDict [(''a'', BInteger (-70)), (''bc'', BList [BString '''', BDict []])]" "'',''",
      unfolded sample_printed]
  by (simp add: INT64_MAX_def)

end
