(* ===== verification/Bencode_Runs.thy ===== *)
theory Bencode_Runs
  imports Bencode
begin

text \<open>
  Runs of the bencode parser of \<open>Bencode\<close> over data that comes in pieces: no input makes an assertion fail, and how
  the data is cut does not matter, for the locale \<open>piece_parser\<close> holds.
\<close>

subsection \<open>The two stacks and the frames belong together\<close>

abbreviation "bopen_values \<equiv> open_values BENCODE_FINISH BENCODE_LIST BENCODE_DICT_VAL"
abbreviation "bopen_key \<equiv> open_key BENCODE_FINISH BENCODE_LIST BENCODE_DICT_VAL BENCODE_DICT_KEY"

definition value_due :: "bparser \<Rightarrow> bool" where
  "value_due p \<longleftrightarrow> bopen_values (bp_stack p) (vm_states (bp_psm p)) (vm_frames (bp_psm p))"

definition within :: "vstate \<Rightarrow> bparser \<Rightarrow> bool" where
  "within s p \<longleftrightarrow> (\<exists>ss. vm_states (bp_psm p) = s # ss \<and> bopen_values (bp_stack p) ss (vm_frames (bp_psm p)))"

definition in_string :: "bparser \<Rightarrow> bool" where
  "in_string p \<longleftrightarrow> within VString p
     \<or> (\<exists>ss. vm_states (bp_psm p) = VDictKey # ss \<and> bopen_key (bp_stack p) ss (vm_frames (bp_psm p)))"

definition parse_error :: "int \<Rightarrow> bool" where
  "parse_error e \<longleftrightarrow> -8 \<le> e \<and> e \<le> -1"

definition parser_ok :: "bparser \<Rightarrow> bool" where
  "parser_ok p \<longleftrightarrow>
     (case bp_state p of
        BENCODE_FINISH \<Rightarrow> True
      | BENCODE_ERROR \<Rightarrow> parse_error (bp_lastError p)
      | BENCODE_INITIAL \<Rightarrow> value_due p
      | BENCODE_VALUE \<Rightarrow> value_due p
      | BENCODE_LIST \<Rightarrow> within VArray p \<and> (\<exists>vs. sf_value (vm_frame (bp_psm p)) = Some (BList vs))
      | BENCODE_DICT_KEY \<Rightarrow> within VDict p \<and> (\<exists>d. sf_value (vm_frame (bp_psm p)) = Some (BDict d))
      | BENCODE_DICT_VAL \<Rightarrow> False
      | BENCODE_STRING_LEN \<Rightarrow> in_string p \<and> 0 \<le> bp_strLength p
      | BENCODE_STRING \<Rightarrow> in_string p \<and> 0 < bp_strLength p
      | _ \<Rightarrow> within VNumber p)"

fun round_ok :: "bparser round \<Rightarrow> bool" where
  "round_ok (Next p rest) \<longleftrightarrow> parser_ok p"
| "round_ok (Return p err) \<longleftrightarrow> parser_ok p \<and> parse_error err"

definition result_ok :: "bparser option \<Rightarrow> bool" where
  "result_ok r \<longleftrightarrow> (\<exists>p. r = Some p \<and> parser_ok p)"

subsection \<open>The ends of values\<close>

lemma value_end_ok:
  assumes "value_due p"
  shows "result_ok (BencodeParser_onValueEnd p)"
  using assms unfolding value_due_def
  by (cases rule: open_values.cases)
    (auto simp: result_ok_def BencodeParser_onValueEnd_def runEndCallback_def machine_endElement_def Controller_popArrayFrame_def
      Controller_popStructFrame_def Let_def parser_ok_def within_def)

lemma key_end_ok:
  assumes "bopen_key (bp_stack p) (vm_states (bp_psm p)) (vm_frames (bp_psm p))"
  shows "result_ok (BencodeParser_onValueEnd p)"
proof -
  obtain stk ss f fs d where k: "bp_stack p = BENCODE_DICT_KEY # stk" "vm_states (bp_psm p) = VDict # ss"
      "vm_frames (bp_psm p) = f # fs" "sf_value f = Some (BDict d)" "length stk < 50" "bopen_values stk ss fs"
    using assms by (auto simp: open_key_def)
  then show ?thesis
    using open_values.entry [OF k(6, 4)]
    by (simp add: result_ok_def BencodeParser_onValueEnd_def BencodeParser_pushState_def runBeginCallback_def
        machine_beginElement_def push_vstate_def parser_ok_def value_due_def)
qed

lemma element_end_ok:
  assumes "within s p" "s \<in> {VString, VNumber, VArray, VDict}"
  shows "result_ok (Option.bind (runEndCallback p) BencodeParser_onValueEnd)"
proof -
  obtain ss where ss: "vm_states (bp_psm p) = s # ss" "bopen_values (bp_stack p) ss (vm_frames (bp_psm p))"
    using assms(1) by (auto simp: within_def)
  obtain q where "runEndCallback p = Some q" "value_due q"
    using ss assms(2) by (auto simp: runEndCallback_def machine_endElement_def setCurrentFrameValue_def value_due_def)
  then show ?thesis using value_end_ok by simp
qed

lemma string_end_ok:
  assumes "in_string p"
  shows "result_ok (BencodeParser_onStringEnd p)"
proof -
  have "result_ok (Option.bind (runEndCallback p) BencodeParser_onValueEnd)"
    if k: "vm_states (bp_psm p) = VDictKey # ss" "bopen_key (bp_stack p) ss (vm_frames (bp_psm p))" for ss
  proof -
    obtain q where "runEndCallback p = Some q" "bopen_key (bp_stack q) (vm_states (bp_psm q)) (vm_frames (bp_psm q))"
      using k by (simp add: runEndCallback_def machine_endElement_def)
    then show ?thesis using key_end_ok by simp
  qed
  then show ?thesis using assms element_end_ok [of VString p] by (auto simp: in_string_def BencodeParser_onStringEnd_def)
qed

lemma number_end_ok: "within VNumber p \<Longrightarrow> result_ok (BencodeParser_onNumberEnd p)"
  unfolding BencodeParser_onNumberEnd_def
  by (rule element_end_ok [of VNumber]) (auto simp: within_def machine_number_def)

lemma list_end_ok: "within VArray p \<Longrightarrow> result_ok (BencodeParser_onListEnd p)"
  unfolding BencodeParser_onListEnd_def by (rule element_end_ok [of VArray]) simp_all

lemma dict_end_ok: "within VDict p \<Longrightarrow> result_ok (BencodeParser_onDictEnd p)"
  unfolding BencodeParser_onDictEnd_def by (rule element_end_ok [of VDict]) simp_all

lemma next_with_ok: "result_ok r \<Longrightarrow> \<exists>x. next_with r rest = Some x \<and> round_ok x"
  by (auto simp: result_ok_def next_with_def)

lemma fail_ok: "parse_error err \<Longrightarrow> round_ok (fail p err)"
  by (simp add: fail_def parser_ok_def)

subsection \<open>The rounds of the loop\<close>

lemma value_char_ok:
  assumes "value_due p"
  shows "\<exists>x. parse_value_char p c rest = Some x \<and> round_ok x"
proof -
  obtain s ss where s: "vm_states (bp_psm p) = s # ss" "s \<in> {VValue, VDictData, VArrayData}"
    using assms unfolding value_due_def by (cases rule: open_values.cases) auto
  have m: "machine_beginElement el (bp_psm p) = value_beginElement el (bp_psm p)" for el
    using s by (simp add: machine_beginElement_def)
  show ?thesis
    using assms
    by (auto simp: parse_value_char_def runBeginCallback_def m next_with_def parser_ok_def within_def in_string_def value_due_def
        push_vstate_def setCurrentFrameValue_def util_isDigit_iff parse_error_def error_codes intro!: fail_ok)
qed

lemma string_len_ok:
  assumes "in_string p" "0 \<le> bp_strLength p" "bp_state p = BENCODE_STRING_LEN"
  shows "\<exists>x. parse_string_len p data = Some x \<and> round_ok x"
proof (cases "read_digits (bp_strLength p) 0 data")
  case (Inl n)
  then show ?thesis by (auto simp: parse_string_len_def parse_error_def error_codes intro!: fail_ok)
next
  case (Inr r)
  obtain n k rest where r: "r = (n, k, rest)" by (cases r)
  have n: "0 \<le> n" using read_digits_nonneg assms(2) Inr r by blast
  let ?p1 = "p\<lparr>bp_strLength := n, bp_consumed := bp_consumed p + k\<rparr>"
  let ?p2 = "?p1\<lparr>bp_state := BENCODE_STRING\<rparr>"
  have s: "in_string ?p2" "in_string ?p1" "in_string (?p2\<lparr>bp_psm := machine_characters [] (bp_psm ?p2)\<rparr>)"
    using assms(1) by (simp_all add: in_string_def within_def machine_characters_def)
  have e: "\<exists>x. next_with (BencodeParser_onStringEnd (?p2\<lparr>bp_psm := machine_characters [] (bp_psm ?p2)\<rparr>)) cs = Some x \<and> round_ok x" for cs
    by (rule next_with_ok [OF string_end_ok [OF s(3)]])
  have ok: "parser_ok ?p1" "n > 0 \<Longrightarrow> parser_ok ?p2"
    using s n assms(3) by (simp_all add: parser_ok_def)
  show ?thesis
    using e ok n by (cases rest) (auto simp: parse_string_len_def Inr r Let_def parse_error_def error_codes intro!: fail_ok)
qed

lemma number_ok:
  assumes "within VNumber p" "bp_state p = BENCODE_NUMBER"
  shows "\<exists>x. parse_number p data = Some x \<and> round_ok x"
proof (cases "read_digits (bp_number p) 0 data")
  case (Inl n)
  then show ?thesis by (auto simp: parse_number_def parse_error_def error_codes intro!: fail_ok)
next
  case (Inr r)
  obtain n k rest where r: "r = (n, k, rest)" by (cases r)
  let ?p1 = "p\<lparr>bp_number := n, bp_consumed := bp_consumed p + k\<rparr>"
  have w: "within VNumber ?p1" "within VNumber (?p1\<lparr>bp_number := 0, bp_consumed := 0, bp_state := BENCODE_FLOAT_NUMBER_IGNORE\<rparr>)"
    using assms(1) by (simp_all add: within_def)
  have e: "\<exists>x. next_with (BencodeParser_onNumberEnd ?p1) cs = Some x \<and> round_ok x" for cs
    by (rule next_with_ok [OF number_end_ok [OF w(1)]])
  show ?thesis
    using e w assms(2)
    by (cases rest) (auto simp: parse_number_def Inr r Let_def parser_ok_def parse_error_def error_codes intro!: fail_ok)
qed


lemma list_round_ok:
  assumes "within VArray p" "sf_value (vm_frame (bp_psm p)) = Some (BList vs)" "bp_state p = BENCODE_LIST"
  shows "\<exists>x. parse_round p c rest = Some x \<and> round_ok x"
proof (cases "c = CHR ''e''")
  case True
  then show ?thesis using next_with_ok [OF list_end_ok [OF assms(1)]] assms(3) by (simp add: parse_round_def)
next
  case False
  obtain ss where ss: "vm_states (bp_psm p) = VArray # ss" "bopen_values (bp_stack p) ss (vm_frames (bp_psm p))"
    using assms(1) by (auto simp: within_def)
  have "value_due (list_element p)"
    using ss open_values.element [OF ss(2) assms(2)]
    by (simp add: value_due_def list_element_def push_vstate_def Controller_pushFrame_def)
  moreover have "parser_ok p" using assms by (simp add: parser_ok_def)
  ultimately show ?thesis
    using value_char_ok [of "list_element p" c rest] False ss(1) assms(3)
    by (auto simp: parse_round_def BencodeParser_pushState_def runBeginCallback_def machine_beginElement_def list_element_def
        parse_error_def error_codes)
qed

lemma dict_round_ok:
  assumes "within VDict p" "sf_value (vm_frame (bp_psm p)) = Some (BDict d)" "bp_state p = BENCODE_DICT_KEY"
  shows "\<exists>x. parse_round p c rest = Some x \<and> round_ok x"
proof (cases "c = CHR ''e''")
  case True
  then show ?thesis using next_with_ok [OF dict_end_ok [OF assms(1)]] assms(3) by (simp add: parse_round_def)
next
  case False
  obtain ss where ss: "vm_states (bp_psm p) = VDict # ss" "bopen_values (bp_stack p) ss (vm_frames (bp_psm p))"
    using assms(1) by (auto simp: within_def)
  have ok: "parser_ok p" using assms by (simp add: parser_ok_def)
  have key: "in_string (dict_key p)" if "length (bp_stack p) < 50"
    using ss assms(2) that
    by (auto simp: in_string_def open_key_def dict_key_def push_vstate_def Controller_pushFrame_def)
  have "\<exists>x. parse_string_len (dict_key p) (c # rest) = Some x \<and> round_ok x" if "length (bp_stack p) < 50"
    using key [OF that] by (intro string_len_ok) (simp_all add: dict_key_def)
  then show ?thesis
    using ok False ss(1) assms(3)
    by (auto simp: parse_round_def BencodeParser_pushState_def runBeginCallback_def machine_beginElement_def dict_key_def
        parse_error_def error_codes)
qed

lemma string_round_ok:
  assumes "in_string p" "0 < bp_strLength p" "bp_state p = BENCODE_STRING"
  shows "\<exists>x. parse_round p c rest = Some x \<and> round_ok x"
proof -
  define n where "n = nat (min (int (length (c # rest))) (bp_strLength p))"
  have n: "n \<noteq> 0" "int n \<le> bp_strLength p" using assms(2) by (simp_all add: n_def)
  let ?p1 = "p\<lparr>bp_psm := machine_characters (take n (c # rest)) (bp_psm p), bp_strLength := bp_strLength p - int n\<rparr>"
  have s: "in_string ?p1" using assms(1) by (simp add: in_string_def within_def machine_characters_def)
  have "parse_round p c rest = (if bp_strLength ?p1 = 0 then next_with (BencodeParser_onStringEnd ?p1) (drop n (c # rest))
      else Some (Next ?p1 (drop n (c # rest))))"
    using n(1) assms(3) by (simp add: parse_round_def n_def Let_def)
  moreover have "parser_ok ?p1" if "bp_strLength ?p1 \<noteq> 0" using that s n(2) assms(3) by (simp add: parser_ok_def)
  ultimately show ?thesis using next_with_ok [OF string_end_ok [OF s]] by auto
qed

lemma float_round_ok:
  assumes "within VNumber p" "bp_state p = BENCODE_FLOAT_NUMBER_IGNORE"
  shows "\<exists>x. parse_round p c rest = Some x \<and> round_ok x"
  using next_with_ok [OF number_end_ok [OF assms(1)]] assms
  by (auto simp: parse_round_def parser_ok_def parse_error_def error_codes intro!: fail_ok)

lemma sign_round_ok:
  assumes "within VNumber p" "bp_state p = BENCODE_NUMBER_SIGN"
  shows "\<exists>x. parse_round p c rest = Some x \<and> round_ok x"
  using assms by (auto simp: parse_round_def parser_ok_def within_def)

lemma round_is_ok:
  assumes "parser_ok p"
  shows "\<exists>x. parse_round p c rest = Some x \<and> round_ok x"
proof (cases "bp_state p")
  case BENCODE_INITIAL
  then show ?thesis using value_char_ok [of p c rest] assms by (simp add: parse_round_def parser_ok_def)
next
  case BENCODE_VALUE
  then show ?thesis using value_char_ok [of p c rest] assms by (simp add: parse_round_def parser_ok_def)
next
  case BENCODE_LIST
  then show ?thesis using list_round_ok [of p] assms by (auto simp: parser_ok_def)
next
  case BENCODE_DICT_KEY
  then show ?thesis using dict_round_ok [of p] assms by (auto simp: parser_ok_def)
next
  case BENCODE_STRING_LEN
  then show ?thesis using string_len_ok [of p "c # rest"] assms by (simp add: parse_round_def parser_ok_def)
next
  case BENCODE_STRING
  then show ?thesis using string_round_ok [of p] assms by (simp add: parser_ok_def)
next
  case BENCODE_NUMBER_SIGN
  then show ?thesis using sign_round_ok [of p] assms by (simp add: parser_ok_def)
next
  case BENCODE_NUMBER
  then show ?thesis using number_ok [of p "c # rest"] assms by (simp add: parse_round_def parser_ok_def)
next
  case BENCODE_FLOAT_NUMBER_IGNORE
  then show ?thesis using float_round_ok [of p] assms by (simp add: parser_ok_def)
qed (use assms in \<open>simp_all add: parse_round_def parser_ok_def\<close>)

subsection \<open>Where the data is cut does not matter\<close>

abbreviation "bsplits \<equiv> splits_at parse_round (\<lambda>p. bp_state p = BENCODE_FINISH)"

lemma string_len_splits:
  assumes "bp_state p = BENCODE_STRING_LEN"
  shows "bsplits (parse_string_len p) a b"
proof (cases "read_digits (bp_strLength p) 0 a")
  case (Inl n)
  then show ?thesis by (simp add: splits_at_def parse_string_len_def read_digits_append fail_def)
next
  case (Inr r)
  obtain n k rest where r: "r = (n, k, rest)" by (cases r)
  show ?thesis
  proof (cases rest)
    case Nil
    let ?p1 = "p\<lparr>bp_strLength := n, bp_consumed := bp_consumed p + k\<rparr>"
    have ab: "read_digits (bp_strLength p) 0 (a @ b) = map_sum id (\<lambda>(a, i, r). (a, i + k, r)) (read_digits n 0 b)"
      using Inr r Nil read_digits_from [of n k b] by (simp add: read_digits_append)
    have "same_round (parse_string_len p (a @ b)) (parse_string_len ?p1 b)"
    proof (cases "read_digits n 0 b")
      case (Inl n')
      then show ?thesis by (simp add: parse_string_len_def ab same_round_def fail_def ERR_STRING_LENGTH_OUT_OF_RANGE_def)
    next
      case (Inr r')
      obtain n' k' rest' where r': "r' = (n', k', rest')" by (cases r')
      have k': "bp_consumed p + (k' + k) = bp_consumed p + k + k'" by simp
      have "parse_string_len p (a @ b) = parse_string_len ?p1 b"
        by (simp add: parse_string_len_def ab Inr r' k' conj_comms cong: list.case_cong)
      then show ?thesis by (simp add: same_round_def)
    qed
    moreover have "parse_round ?p1 (hd b) (tl b) = parse_string_len ?p1 b" if "b \<noteq> []"
      using that assms by (simp add: parse_round_def)
    moreover have "parse_string_len p a = Some (Next ?p1 [])" by (simp add: parse_string_len_def Inr r Nil Let_def)
    ultimately show ?thesis using assms by (auto simp: splits_at_def)
  next
    case (Cons c cs)
    then show ?thesis
      using Inr r by (auto simp: splits_at_def parse_string_len_def read_digits_append Let_def fail_def next_with_def
          option.map_comp comp_def)
  qed
qed

lemma number_splits:
  assumes "bp_state p = BENCODE_NUMBER"
  shows "bsplits (parse_number p) a b"
proof (cases "read_digits (bp_number p) 0 a")
  case (Inl n)
  then show ?thesis by (simp add: splits_at_def parse_number_def read_digits_append fail_def)
next
  case (Inr r)
  obtain n k rest where r: "r = (n, k, rest)" by (cases r)
  show ?thesis
  proof (cases rest)
    case Nil
    let ?p1 = "p\<lparr>bp_number := n, bp_consumed := bp_consumed p + k\<rparr>"
    have ab: "read_digits (bp_number p) 0 (a @ b) = map_sum id (\<lambda>(a, i, r). (a, i + k, r)) (read_digits n 0 b)"
      using Inr r Nil read_digits_from [of n k b] by (simp add: read_digits_append)
    have "same_round (parse_number p (a @ b)) (parse_number ?p1 b)"
    proof (cases "read_digits n 0 b")
      case (Inl n')
      then show ?thesis by (simp add: parse_number_def ab same_round_def fail_def ERR_NUMBER_OUT_OF_RANGE_def)
    next
      case (Inr r')
      obtain n' k' rest' where r': "r' = (n', k', rest')" by (cases r')
      have k': "bp_consumed p + (k' + k) = bp_consumed p + k + k'" by simp
      have "parse_number p (a @ b) = parse_number ?p1 b"
        by (simp add: parse_number_def ab Inr r' k' conj_comms cong: list.case_cong)
      then show ?thesis by (simp add: same_round_def)
    qed
    moreover have "parse_round ?p1 (hd b) (tl b) = parse_number ?p1 b" if "b \<noteq> []"
      using that assms by (simp add: parse_round_def)
    moreover have "parse_number p a = Some (Next ?p1 [])" by (simp add: parse_number_def Inr r Nil Let_def)
    ultimately show ?thesis using assms by (auto simp: splits_at_def)
  next
    case (Cons c cs)
    then show ?thesis
      using Inr r by (auto simp: splits_at_def parse_number_def read_digits_append Let_def fail_def next_with_def
          option.map_comp comp_def)
  qed
qed

lemma value_char_extends: "parse_value_char p c (rest @ b) = map_option (round_with b) (parse_value_char p c rest)"
  by (simp add: parse_value_char_def next_with_def fail_def option.map_comp comp_def)


definition string_taken :: "nat \<Rightarrow> string \<Rightarrow> bparser \<Rightarrow> bparser round option" where
  "string_taken n cs p =
     (let p1 = p\<lparr>bp_psm := machine_characters (take n cs) (bp_psm p), bp_strLength := bp_strLength p - int n\<rparr>
      in if bp_strLength p1 = 0 then next_with (BencodeParser_onStringEnd p1) (drop n cs) else Some (Next p1 (drop n cs)))"

lemma string_round:
  assumes "bp_state p = BENCODE_STRING" "cs \<noteq> []" "n = nat (min (int (length cs)) (bp_strLength p))" "n \<noteq> 0"
  shows "parse_round p (hd cs) (tl cs) = string_taken n cs p"
  using assms by (simp add: parse_round_def string_taken_def Let_def)

lemma string_splits:
  assumes "bp_state p = BENCODE_STRING"
  shows "bsplits (\<lambda>cs. parse_round p (hd cs) (tl cs)) (c # rest) b"
proof -
  let ?L = "bp_strLength p" and ?a = "c # rest"
  let ?f = "\<lambda>cs. parse_round p (hd cs) (tl cs)"
  consider "?L \<le> int (length ?a)" | "?L > int (length ?a)" by linarith
  then show ?thesis
  proof cases
    case 1
    then have m: "min (int (length (?a @ b))) ?L = ?L" "min (int (length ?a)) ?L = ?L" by simp_all
    have n: "nat ?L \<le> length ?a" using 1 by linarith
    have td: "take (nat ?L) (c # rest @ b) = take (nat ?L) ?a" "drop (nat ?L) (c # rest @ b) = drop (nat ?L) ?a @ b"
      using n take_append [of "nat ?L" ?a b] drop_append [of "nat ?L" ?a b] by simp_all
    have "?f (?a @ b) = map_option (round_with b) (?f ?a)"
      using assms m td by (simp add: parse_round_def Let_def next_with_extend [symmetric] del: length_Cons length_append)
    then show ?thesis by (rule splits_extend)
  next
    case 2
    let ?p1 = "p\<lparr>bp_psm := machine_characters ?a (bp_psm p), bp_strLength := ?L - int (length ?a)\<rparr>"
    have a: "?f ?a = Some (Next ?p1 [])"
      using assms 2 by (simp add: parse_round_def Let_def min_def)
    have "?f (?a @ b) = parse_round ?p1 (hd b) (tl b)" if b: "b \<noteq> []"
    proof -
      define j where "j = nat (min (int (length b)) (?L - int (length ?a)))"
      have j: "nat (min (int (length (?a @ b))) ?L) = length ?a + j" "j \<noteq> 0" using 2 b by (auto simp: j_def min_def)
      have "?f (?a @ b) = string_taken (length ?a + j) (?a @ b) p"
        by (rule string_round) (use assms j in simp_all)
      also have "\<dots> = string_taken j b ?p1"
        by (cases p) (simp add: string_taken_def machine_characters_def Let_def algebra_simps)
      also have "\<dots> = parse_round ?p1 (hd b) (tl b)"
        by (rule string_round [symmetric]) (use assms j(2) b in \<open>simp_all add: j_def\<close>)
      finally show ?thesis .
    qed
    then show ?thesis using a assms by (auto simp: splits_at_def same_round_def)
  qed
qed


lemma round_splits: "bsplits (\<lambda>cs. parse_round p (hd cs) (tl cs)) (c # rest) b"
proof (cases "bp_state p")
  case BENCODE_LIST
  show ?thesis
    by (rule splits_extend)
      (simp add: parse_round_def BENCODE_LIST next_with_extend value_char_extends [symmetric] split: sum.split bind_split)
next
  case BENCODE_DICT_KEY
  show ?thesis
  proof (cases "c = CHR ''e'' \<or> length (bp_stack p) \<ge> 50 \<or> runBeginCallback DICT_KEY_T
      (p\<lparr>bp_stack := BENCODE_DICT_KEY # bp_stack p, bp_strLength := 0, bp_consumed := 0\<rparr>) = None")
    case True
    then show ?thesis
      by (intro splits_extend) (auto simp: parse_round_def BENCODE_DICT_KEY next_with_extend BencodeParser_pushState_def)
  next
    case False
    then obtain q where q: "runBeginCallback DICT_KEY_T
        (p\<lparr>bp_stack := BENCODE_DICT_KEY # bp_stack p, bp_strLength := 0, bp_consumed := 0\<rparr>) = Some q"
      by auto
    have "bsplits (parse_string_len (q\<lparr>bp_state := BENCODE_STRING_LEN\<rparr>)) (c # rest) b"
      by (rule string_len_splits) simp
    then show ?thesis
      by (rule splits_cong) (use False q in \<open>simp_all add: parse_round_def BENCODE_DICT_KEY BencodeParser_pushState_def\<close>)
  qed
next
  case BENCODE_STRING_LEN
  show ?thesis
    by (rule splits_cong [OF string_len_splits [OF BENCODE_STRING_LEN]]) (simp_all add: parse_round_def BENCODE_STRING_LEN)
next
  case BENCODE_STRING
  then show ?thesis by (rule string_splits)
next
  case BENCODE_NUMBER
  show ?thesis
    by (rule splits_cong [OF number_splits [OF BENCODE_NUMBER]]) (simp_all add: parse_round_def BENCODE_NUMBER)
qed (rule splits_extend; simp add: parse_round_def value_char_extends next_with_extend fail_def)+

lemma value_end_state: "BencodeParser_onValueEnd p = Some p' \<Longrightarrow> bp_state p' \<noteq> BENCODE_ERROR"
  by (auto simp: BencodeParser_onValueEnd_def BencodeParser_pushState_def runBeginCallback_def split: list.splits bstate.splits if_splits)

lemma ends_state:
  "BencodeParser_onStringEnd p = Some p' \<Longrightarrow> bp_state p' \<noteq> BENCODE_ERROR"
  "BencodeParser_onNumberEnd p = Some p' \<Longrightarrow> bp_state p' \<noteq> BENCODE_ERROR"
  "BencodeParser_onListEnd p = Some p' \<Longrightarrow> bp_state p' \<noteq> BENCODE_ERROR"
  "BencodeParser_onDictEnd p = Some p' \<Longrightarrow> bp_state p' \<noteq> BENCODE_ERROR"
  by (auto simp: BencodeParser_onStringEnd_def BencodeParser_onNumberEnd_def BencodeParser_onListEnd_def BencodeParser_onDictEnd_def
      bind_eq_Some_conv dest: value_end_state)

definition good_next :: "bparser round \<Rightarrow> bool" where
  "good_next x \<longleftrightarrow> (case x of
       Next p rest \<Rightarrow> bp_state p \<noteq> BENCODE_ERROR
     | Return p err \<Rightarrow> bp_state p \<notin> {BENCODE_FINISH, BENCODE_INITIAL}
         \<and> (err \<noteq> ERR_STRUCTURE_TOO_DEEP \<longrightarrow> bp_state p = BENCODE_ERROR \<and> bp_lastError p = err))"

lemma value_char_state: "parse_value_char p c rest = Some x \<Longrightarrow> good_next x"
  by (auto simp: parse_value_char_def next_with_def runBeginCallback_def fail_def good_next_def split: if_splits)

lemma string_len_state: "parse_string_len p cs = Some x \<Longrightarrow> bp_state p \<noteq> BENCODE_ERROR \<Longrightarrow> good_next x"
  by (auto simp: parse_string_len_def next_with_def fail_def good_next_def Let_def
      dest!: ends_state split: sum.splits list.splits if_splits)

lemma number_state: "parse_number p cs = Some x \<Longrightarrow> bp_state p \<noteq> BENCODE_ERROR \<Longrightarrow> good_next x"
  by (auto simp: parse_number_def next_with_def fail_def good_next_def Let_def
      dest!: ends_state split: sum.splits list.splits if_splits)

lemma next_with_state: "next_with r rest = Some x \<Longrightarrow> (\<And>p. r = Some p \<Longrightarrow> bp_state p \<noteq> BENCODE_ERROR) \<Longrightarrow> good_next x"
  by (auto simp: next_with_def good_next_def)

lemma round_state:
  assumes "parse_round p c rest = Some x" "bp_state p \<noteq> BENCODE_ERROR"
  shows "good_next x"
proof (cases "bp_state p")
  case BENCODE_LIST
  show ?thesis
    using assms(1) BENCODE_LIST value_char_state next_with_state [OF _ ends_state(3)]
    by (auto simp: parse_round_def BencodeParser_pushState_def bind_eq_Some_conv good_next_def split: if_splits)
next
  case BENCODE_DICT_KEY
  show ?thesis
    using assms(1) BENCODE_DICT_KEY string_len_state next_with_state [OF _ ends_state(4)]
    by (auto simp: parse_round_def BencodeParser_pushState_def bind_eq_Some_conv good_next_def split: if_splits)
next
  case BENCODE_STRING
  show ?thesis
    using assms BENCODE_STRING next_with_state [OF _ ends_state(1)]
    by (auto simp: parse_round_def Let_def good_next_def split: if_splits)
next
  case BENCODE_FLOAT_NUMBER_IGNORE
  show ?thesis
    using assms BENCODE_FLOAT_NUMBER_IGNORE next_with_state [OF _ ends_state(2)]
    by (auto simp: parse_round_def fail_def good_next_def split: if_splits)
qed (use assms value_char_state string_len_state number_state in \<open>auto simp: parse_round_def good_next_def split: if_splits\<close>)

interpretation bp: piece_parser parse_round "\<lambda>p. bp_state p = BENCODE_FINISH" "\<lambda>_. 0" parse_loop
  parser_ok "\<lambda>p. bp_state p = BENCODE_ERROR" "\<lambda>p. bp_state p \<in> {BENCODE_FINISH, BENCODE_INITIAL}" bp_lastError
  "-8" ERR_STRUCTURE_TOO_DEEP ERR_PREMATURE_DATA BencodeParser_parseUpdate BencodeParser_parseFinal
proof
  fix p c rest b p' rest' err data
  show "bsplits (\<lambda>cs. parse_round p (hd cs) (tl cs)) (c # rest) b" by (rule round_splits)
  show "\<exists>x. parse_round p c rest = Some x \<and> (case x of Next p' rest' \<Rightarrow> parser_ok p' | Return p' err \<Rightarrow> parser_ok p' \<and> -8 \<le> err)"
    if "parser_ok p"
    using round_is_ok [OF that, of c rest] by (auto simp: parse_error_def split: round.split)
  show "bp_state p' \<noteq> BENCODE_ERROR" if "parse_round p c rest = Some (Next p' rest')" "bp_state p \<noteq> BENCODE_ERROR"
    using round_state [OF that] by (simp add: good_next_def)
  show "bp_state p' \<notin> {BENCODE_FINISH, BENCODE_INITIAL} \<and> (err \<noteq> ERR_STRUCTURE_TOO_DEEP \<longrightarrow> bp_state p' = BENCODE_ERROR \<and> bp_lastError p' = err)"
    if "parse_round p c rest = Some (Return p' err)" "bp_state p \<noteq> BENCODE_ERROR"
    using round_state [OF that] by (simp add: good_next_def)
  show "-8 \<le> bp_lastError p \<and> bp_lastError p < 0" if "parser_ok p" "bp_state p = BENCODE_ERROR"
    using that by (simp add: parser_ok_def parse_error_def)
qed (auto simp: BencodeParser_parseUpdate_def BencodeParser_parseFinal_def error_codes split: option.split)

subsection \<open>Every parser the program can have\<close>

lemma new_parser_ok: "parser_ok ValueBaseBencodeParser_new"
  by (simp add: ValueBaseBencodeParser_new_def BencodeParser_new_def value_machine_new_def parser_ok_def value_due_def open_values.base)

lemma parser_reset_ok: "parser_ok (BencodeParser_reset p)"
  by (simp add: BencodeParser_reset_def machine_reset_def parser_ok_def value_due_def open_values.base)

lemma final_ok:
  assumes "ValueBaseBencodeParser_parseFinal p data = Some (p', res, err)"
  shows "parser_ok p'"
  using assms
  by (auto simp: ValueBaseBencodeParser_parseFinal_def GenericParser_parseFinal_def Let_def case_prod_unfold parser_reset_ok)

inductive parser_reach :: "bparser \<Rightarrow> bool" where
  created: "parser_reach ValueBaseBencodeParser_new"
| updated: "parser_reach p \<Longrightarrow> BencodeParser_parseUpdate p data = Some (p', rv) \<Longrightarrow> parser_reach p'"
| finished: "parser_reach p \<Longrightarrow> ValueBaseBencodeParser_parseFinal p data = Some (p', res, err) \<Longrightarrow> parser_reach p'"

lemma reach_ok: "parser_reach p \<Longrightarrow> parser_ok p"
proof (induction rule: parser_reach.induct)
  case created
  show ?case by (rule new_parser_ok)
next
  case (updated p data p' rv)
  then show ?case using bp.update_inv [of p data] by auto
next
  case (finished p data p' res err)
  then show ?case using final_ok by blast
qed

text \<open>C30: whatever the parser has been fed, it takes any further piece of data without a failed assertion, a pop of an
  empty stack or a missing value, and answers with one of its eight errors or with a count within the data.\<close>

theorem bencode_never_aborts:
  assumes "parser_reach p"
  shows "\<exists>p' rv. BencodeParser_parseUpdate p data = Some (p', rv) \<and> -8 \<le> rv \<and> rv \<le> int (length data)"
  using bp.update_inv [OF reach_ok [OF assms], of data] by auto

theorem bencode_never_aborts_witness:
  "\<exists>p' rv. BencodeParser_parseUpdate ValueBaseBencodeParser_new ''di1elx'' = Some (p', rv) \<and> -8 \<le> rv \<and> rv \<le> int 6"
  using bencode_never_aborts [OF parser_reach.created, of "''di1elx''"] by simp

subsection \<open>A file read in pieces\<close>

definition BencodeParser_parseFile :: "string list option \<Rightarrow> (bparser \<times> bvalue option) option" where
  "BencodeParser_parseFile =
     parseFile BencodeParser_parseUpdate BencodeParser_parseFinal BencodeParser_getResult BencodeParser_reset ValueBaseBencodeParser_new"

text \<open>The value of the whole data, if it has one.\<close>

definition decoded :: "string \<Rightarrow> bvalue option option" where
  "decoded data = map_option (\<lambda>r. case r of Inl err \<Rightarrow> None | Inr (res, n) \<Rightarrow> res) (bencode2_decode data)"

text \<open>C31: a file read in pieces of any sizes gives the value that decoding its whole content at once gives.\<close>

theorem bencode_pieces:
  "map_option snd (BencodeParser_parseFile (Some bufs)) = decoded (concat bufs)"
proof -
  have "bp_state ValueBaseBencodeParser_new \<noteq> BENCODE_ERROR"
    by (simp add: ValueBaseBencodeParser_new_def BencodeParser_new_def)
  from bp.parseFile_pieces [OF new_parser_ok this]
  have "map_option snd (BencodeParser_parseFile (Some bufs))
      = map_option (\<lambda>(p', res, err). res) (ValueBaseBencodeParser_parseFinal ValueBaseBencodeParser_new (concat bufs))"
    by (simp add: BencodeParser_parseFile_def ValueBaseBencodeParser_parseFinal_def)
  also have "\<dots> = decoded (concat bufs)"
    by (cases "BencodeParser_parseFinal ValueBaseBencodeParser_new (concat bufs)")
      (auto simp: decoded_def bencode2_decode_def ValueBaseBencodeParser_parseFinal_def GenericParser_parseFinal_def split: prod.splits)
  finally show ?thesis .
qed

text \<open>
  At the edges: the least 64-bit number is printed but refused, a letter after the \<open>i\<close> is passed over, and a
  structure that is too deep leaves the parser running.
\<close>

lemma min_int_printed: "bencode2_encode (BInteger (- (2 ^ 63))) = ''i-9223372036854775808e''"
  by (simp add: print_int_def print_nat.simps char_of_def bit_Suc_0_iff)

lemma min_int_not_read_back: "bencode2_decode (bencode2_encode (BInteger (- (2 ^ 63)))) = Some (Inl ERR_NUMBER_OUT_OF_RANGE)"
  unfolding min_int_printed by code_simp

lemma sign_skips_letters: "bencode2_decode ''ixyz7e'' = Some (Inr (Some (BInteger 7), 6))"
  by code_simp

lemma too_deep_still_running:
  "map_option (\<lambda>(p, rv). (bp_state p, rv)) (BencodeParser_parseUpdate ValueBaseBencodeParser_new (replicate 51 (CHR ''l'')))
   = Some (BENCODE_LIST, ERR_STRUCTURE_TOO_DEEP)"
  by code_simp

end
