(* ===== verification/Json.thy ===== *)
theory Json
  imports Value_Machine Char_Loop
begin

text \<open>
  JSON: the printer (\<open>json.h\<close>, \<open>json.cc\<close>) and the parser (\<open>JsonParser.cc\<close>), which drives the same machine as the
  parser of bencode. The fraction and the exponent of a number are read and checked, but the machine ignores them, so
  they are not passed on here.
\<close>

subsection \<open>The printer\<close>

definition hex_upper :: "nat \<Rightarrow> char" where
  "hex_upper n = (if n < 10 then char_of (n + 48) else char_of (n + 55))"

definition json_escape_char :: "char \<Rightarrow> string" where
  "json_escape_char c =
     (if c = CHR 0x22 \<or> c = CHR 0x5C \<or> c = CHR ''/'' then [CHR 0x5C, c]
      else if c = CHR 0x08 then [CHR 0x5C, CHR ''b'']
      else if c = CHR 0x0C then [CHR 0x5C, CHR ''f'']
      else if c = CHR 0x0A then [CHR 0x5C, CHR ''n'']
      else if c = CHR 0x0D then [CHR 0x5C, CHR ''r'']
      else if c = CHR 0x09 then [CHR 0x5C, CHR ''t'']
      else if code_of c \<le> 0x1F then CHR 0x5C # ''u00'' @ [hex_upper (code_of c div 16), hex_upper (code_of c mod 16)]
      else [c])"

definition jsonEscape :: "string \<Rightarrow> string" where
  "jsonEscape s = concat (map json_escape_char s)"

definition json_string :: "string \<Rightarrow> string" where
  "json_string s = CHR 0x22 # jsonEscape s @ [CHR 0x22]"

fun joined :: "string list \<Rightarrow> string" where
  "joined [] = []"
| "joined [s] = s"
| "joined (s # ss) = s @ '','' @ joined ss"

fun json_encode :: "bvalue \<Rightarrow> string" where
  "json_encode (BString s) = json_string s"
| "json_encode (BInteger i) = print_int i"
| "json_encode (BBool b) = (if b then ''true'' else ''false'')"
| "json_encode BNull = ''null''"
| "json_encode (BList vs) = ''['' @ joined (map json_encode vs) @ '']''"
| "json_encode (BDict d) = ''{'' @ joined (map (\<lambda>(k, v). json_string k @ '':'' @ json_encode v) d) @ ''}''"

subsection \<open>The state of the parser\<close>

datatype jstate =
    JSON_FINISH | JSON_ERROR | JSON_VALUE | JSON_OBJECT_KEY | JSON_OBJECT_VAL | JSON_OBJECT_SEP | JSON_ARRAY | JSON_ARRAY_SEP
  | JSON_STRING | JSON_STRING_ESCAPE | JSON_STRING_UNICODE | JSON_STRING_LOW_SURROGATE_ESCAPE | JSON_STRING_LOW_SURROGATE_U
  | JSON_STRING_LOW_SURROGATE | JSON_NUMBER | JSON_NUMBER_FRAC | JSON_NUMBER_EXP_SIGN | JSON_NUMBER_EXP
  | JSON_TRUE | JSON_FALSE | JSON_NULL

datatype json_error =
    UNEXPECTED_CHAR_BEFORE_VAL | UNEXPECTED_CHAR_BEFORE_OBJ_KEY | UNEXPECTED_CHAR_BEFORE_OBJ_VAL | UNEXPECTED_CHAR_BEFORE_OBJ_SEP
  | INVALID_UNICODE_POINT | INVALID_NUMBER | NUMBER_OUT_OF_RANGE | UNEXPECTED_CHAR_BEFORE_ARRAY_SEP | UNEXPECTED_LITERAL
  | PREMATURE_DATA | STRUCTURE_TOO_DEEP

fun json_err :: "json_error \<Rightarrow> int" where
  "json_err UNEXPECTED_CHAR_BEFORE_VAL = -1"
| "json_err UNEXPECTED_CHAR_BEFORE_OBJ_KEY = -2"
| "json_err UNEXPECTED_CHAR_BEFORE_OBJ_VAL = -3"
| "json_err UNEXPECTED_CHAR_BEFORE_OBJ_SEP = -4"
| "json_err INVALID_UNICODE_POINT = -5"
| "json_err INVALID_NUMBER = -6"
| "json_err NUMBER_OUT_OF_RANGE = -7"
| "json_err UNEXPECTED_CHAR_BEFORE_ARRAY_SEP = -8"
| "json_err UNEXPECTED_LITERAL = -9"
| "json_err PREMATURE_DATA = -10"
| "json_err STRUCTURE_TOO_DEEP = -11"

record jparser =
  jp_psm :: value_machine
  jp_stack :: "jstate list"
  jp_state :: jstate
  jp_codepoint :: nat
  jp_codepoint2 :: nat
  jp_sign :: int
  jp_number :: int
  jp_frac :: int
  jp_expSign :: int
  jp_exp :: int
  jp_consumed :: nat
  jp_lastError :: int

definition JsonParser_new :: "value_machine \<Rightarrow> jparser" where
  "JsonParser_new m =
     \<lparr>jp_psm = m, jp_stack = [JSON_FINISH], jp_state = JSON_VALUE, jp_codepoint = 0, jp_codepoint2 = 0, jp_sign = 1, jp_number = 0,
      jp_frac = 0, jp_expSign = 1, jp_exp = 0, jp_consumed = 0, jp_lastError = 0\<rparr>"

definition json_begin :: "element \<Rightarrow> jparser \<Rightarrow> jparser option" where
  "json_begin el p = map_option (\<lambda>m. p\<lparr>jp_psm := m\<rparr>) (machine_beginElement el (jp_psm p))"

definition json_end :: "jparser \<Rightarrow> jparser option" where
  "json_end p = map_option (\<lambda>m. p\<lparr>jp_psm := m\<rparr>) (machine_endElement (jp_psm p))"

definition json_chars :: "string \<Rightarrow> jparser \<Rightarrow> jparser" where
  "json_chars s p = p\<lparr>jp_psm := machine_characters s (jp_psm p)\<rparr>"

definition JsonParser_pushState :: "jstate \<Rightarrow> jparser \<Rightarrow> int + jparser" where
  "JsonParser_pushState s p = (if length (jp_stack p) \<ge> 50 then Inl (json_err STRUCTURE_TOO_DEEP) else Inr (p\<lparr>jp_stack := s # jp_stack p\<rparr>))"

text \<open>A push whose result is not looked at.\<close>

definition json_push :: "jstate \<Rightarrow> jparser \<Rightarrow> jparser" where
  "json_push s p = (case JsonParser_pushState s p of Inl err \<Rightarrow> p | Inr p1 \<Rightarrow> p1)"

subsection \<open>The ends of values\<close>

definition JsonParser_onValueEnd :: "jparser \<Rightarrow> jparser option" where
  "JsonParser_onValueEnd p =
     (case jp_stack p of
        [] \<Rightarrow> None
      | s # ss \<Rightarrow>
          if s = JSON_OBJECT_KEY then Some (p\<lparr>jp_stack := ss, jp_state := JSON_OBJECT_VAL\<rparr>)
          else if s = JSON_OBJECT_VAL then map_option (\<lambda>p1. p1\<lparr>jp_stack := tl (jp_stack p1), jp_state := JSON_OBJECT_SEP\<rparr>) (json_end p)
          else if s = JSON_ARRAY then map_option (\<lambda>p1. p1\<lparr>jp_stack := tl (jp_stack p1), jp_state := JSON_ARRAY_SEP\<rparr>) (json_end p)
          else if s = JSON_FINISH then Some (p\<lparr>jp_state := s\<rparr>) else None)"

definition JsonParser_onEnd :: "jparser \<Rightarrow> jparser option" where
  "JsonParser_onEnd p = Option.bind (json_end p) JsonParser_onValueEnd"

definition JsonParser_onNumberEnd :: "jparser \<Rightarrow> jparser option" where
  "JsonParser_onNumberEnd p = JsonParser_onEnd (p\<lparr>jp_psm := machine_number (jp_sign p * jp_number p) (jp_psm p)\<rparr>)"

subsection \<open>Escapes\<close>

text \<open>The code point, or the pair of surrogates, as the bytes that are appended to the string.\<close>

definition json_utf8 :: "nat \<Rightarrow> string" where
  "json_utf8 cp =
     (if cp \<le> 0x7f then [char_of cp]
      else if cp \<le> 0x7ff then [char_of (or 0xC0 (drop_bit 6 cp)), char_of (or 0x80 (and cp 0x3f))]
      else [char_of (or 0xE0 (drop_bit 12 cp)), char_of (or 0x80 (and (drop_bit 6 cp) 0x3f)), char_of (or 0x80 (and cp 0x3f))])"

definition json_pair_utf8 :: "nat \<Rightarrow> nat \<Rightarrow> string" where
  "json_pair_utf8 cp cp2 =
     (let full = 0x10000 + push_bit 10 (and cp 0x3ff) + and cp2 0x3ff
      in [char_of (or 0xF0 (drop_bit 18 full)), char_of (or 0x80 (and (drop_bit 12 full) 0x3f)),
          char_of (or 0x80 (and (drop_bit 6 full) 0x3f)), char_of (or 0x80 (and full 0x3f))])"

definition JsonParser_consumeUnicode :: "char \<Rightarrow> jparser \<Rightarrow> jparser" where
  "JsonParser_consumeUnicode c p =
     (let cp = (jp_codepoint p * 16 + util_hexCharToUInt c) mod 65536;
          p1 = p\<lparr>jp_codepoint := cp, jp_consumed := jp_consumed p + 1\<rparr>
      in if jp_consumed p1 = 4
         then if 0xD800 \<le> cp \<and> cp \<le> 0xDBFF then p1\<lparr>jp_state := JSON_STRING_LOW_SURROGATE_ESCAPE\<rparr>
              else (json_chars (json_utf8 cp) p1)\<lparr>jp_state := JSON_STRING\<rparr>
         else p1)"

definition json_fail :: "jparser \<Rightarrow> json_error \<Rightarrow> jparser round" where
  "json_fail p err = Return (p\<lparr>jp_state := JSON_ERROR, jp_lastError := json_err err\<rparr>) (json_err err)"

definition JsonParser_consumeLowSurrogate :: "char \<Rightarrow> jparser \<Rightarrow> jparser + jparser" where
  "JsonParser_consumeLowSurrogate c p =
     (let cp2 = (jp_codepoint2 p * 16 + util_hexCharToUInt c) mod 65536;
          p1 = p\<lparr>jp_codepoint2 := cp2, jp_consumed := jp_consumed p + 1\<rparr>
      in if jp_consumed p1 = 4
         then if \<not> (0xDC00 \<le> cp2 \<and> cp2 \<le> 0xDFFF) then Inl p1
              else Inr ((json_chars (json_pair_utf8 (jp_codepoint p1) cp2) p1)\<lparr>jp_state := JSON_STRING\<rparr>)
         else Inr p1)"

definition json_escaped :: "char \<Rightarrow> string" where
  "json_escaped c =
     (if c = CHR ''b'' then [CHR 0x08] else if c = CHR ''f'' then [CHR 0x0C] else if c = CHR ''n'' then [CHR 0x0A]
      else if c = CHR ''r'' then [CHR 0x0D] else if c = CHR ''t'' then [CHR 0x09] else [c])"

subsection \<open>The rounds of the loop\<close>

definition json_isSpace :: "char \<Rightarrow> bool" where
  "json_isSpace c \<longleftrightarrow> util_isLws c \<or> util_isCRLF c"

definition json_value_char :: "jparser \<Rightarrow> char \<Rightarrow> string \<Rightarrow> jparser round option" where
  "json_value_char p c rest =
     (if c = CHR ''{'' then next_with (json_begin DICT_T (p\<lparr>jp_state := JSON_OBJECT_KEY\<rparr>)) rest
      else if c = CHR ''['' then next_with (json_begin ARRAY_T (p\<lparr>jp_state := JSON_ARRAY\<rparr>)) rest
      else if c = CHR 0x22 then next_with (json_begin STRING_T (p\<lparr>jp_state := JSON_STRING\<rparr>)) rest
      else if c = CHR ''-'' then
        next_with (json_begin NUMBER_T (p\<lparr>jp_number := 0, jp_sign := -1, jp_consumed := 0, jp_state := JSON_NUMBER\<rparr>)) rest
      else if c = CHR ''t'' then next_with (json_begin BOOL_T (p\<lparr>jp_consumed := 1, jp_state := JSON_TRUE\<rparr>)) rest
      else if c = CHR ''f'' then next_with (json_begin BOOL_T (p\<lparr>jp_consumed := 1, jp_state := JSON_FALSE\<rparr>)) rest
      else if c = CHR ''n'' then next_with (json_begin NULL_T (p\<lparr>jp_consumed := 1, jp_state := JSON_NULL\<rparr>)) rest
      else if util_isDigit c then
        next_with (json_begin NUMBER_T (p\<lparr>jp_number := int (code_of c) - 48, jp_sign := 1, jp_consumed := 1, jp_state := JSON_NUMBER\<rparr>)) rest
      else if json_isSpace c then Some (Next p rest)
      else Some (json_fail p UNEXPECTED_CHAR_BEFORE_VAL))"

text \<open>The literals; at their end \<open>done\<close> tells the machine.\<close>

definition json_literal :: "string \<Rightarrow> (jparser \<Rightarrow> jparser) \<Rightarrow> jparser \<Rightarrow> char \<Rightarrow> string \<Rightarrow> jparser round option" where
  "json_literal lit tell p c rest =
     (if jp_consumed p \<ge> length lit then None
      else if lit ! jp_consumed p = c then
        let p1 = p\<lparr>jp_consumed := jp_consumed p + 1\<rparr>
        in if jp_consumed p1 = length lit then next_with (JsonParser_onEnd (tell p1)) rest else Some (Next p1 rest)
      else Some (json_fail p UNEXPECTED_LITERAL))"

definition json_number :: "jparser \<Rightarrow> string \<Rightarrow> jparser round option" where
  "json_number p data =
     (case read_digits (jp_number p) 0 data of
        Inl n \<Rightarrow> Some (json_fail (p\<lparr>jp_number := n\<rparr>) NUMBER_OUT_OF_RANGE)
      | Inr (n, k, rest) \<Rightarrow>
          let p1 = p\<lparr>jp_number := n, jp_consumed := jp_consumed p + k\<rparr>
          in (case rest of
                [] \<Rightarrow> Some (Next p1 [])
              | c # cs \<Rightarrow>
                  if jp_consumed p1 = 0 then Some (json_fail p1 INVALID_NUMBER)
                  else if c = CHR ''.'' then Some (Next (p1\<lparr>jp_frac := 0, jp_consumed := 0, jp_state := JSON_NUMBER_FRAC\<rparr>) cs)
                  else if c = CHR ''e'' \<or> c = CHR ''E'' then
                    Some (Next (p1\<lparr>jp_expSign := 1, jp_exp := 0, jp_consumed := 0, jp_state := JSON_NUMBER_EXP_SIGN\<rparr>) cs)
                  else next_with (JsonParser_onNumberEnd p1) (c # cs)))"

fun read_frac :: "int \<Rightarrow> nat \<Rightarrow> string \<Rightarrow> int \<times> nat \<times> string" where
  "read_frac f k [] = (f, k, [])"
| "read_frac f k (c # cs) =
     (if util_isDigit c
      then read_frac (if f < 100000000 then f * 10 + (int (code_of c) - 48) else f) (Suc k) cs
      else (f, k, c # cs))"

definition json_frac :: "jparser \<Rightarrow> string \<Rightarrow> jparser round option" where
  "json_frac p data =
     (let (f, k, rest) = read_frac (jp_frac p) 0 data;
          p1 = p\<lparr>jp_frac := f, jp_consumed := jp_consumed p + k\<rparr>
      in (case rest of
            [] \<Rightarrow> Some (Next p1 [])
          | c # cs \<Rightarrow>
              if jp_consumed p1 = 0 then Some (json_fail p1 INVALID_NUMBER)
              else if c = CHR ''e'' \<or> c = CHR ''E'' then
                Some (Next (p1\<lparr>jp_exp := 0, jp_consumed := 0, jp_state := JSON_NUMBER_EXP_SIGN\<rparr>) cs)
              else next_with (JsonParser_onNumberEnd p1) (c # cs)))"

fun read_exp :: "int \<Rightarrow> nat \<Rightarrow> string \<Rightarrow> int + (int \<times> nat \<times> string)" where
  "read_exp e k [] = Inr (e, k, [])"
| "read_exp e k (c # cs) =
     (if util_isDigit c
      then let e' = e * 10 + (int (code_of c) - 48) in if e' > 18 then Inl e' else read_exp e' (Suc k) cs
      else Inr (e, k, c # cs))"

definition json_exp :: "jparser \<Rightarrow> string \<Rightarrow> jparser round option" where
  "json_exp p data =
     (case read_exp (jp_exp p) 0 data of
        Inl e \<Rightarrow> Some (json_fail (p\<lparr>jp_exp := e\<rparr>) NUMBER_OUT_OF_RANGE)
      | Inr (e, k, rest) \<Rightarrow>
          let p1 = p\<lparr>jp_exp := e, jp_consumed := jp_consumed p + k\<rparr>
          in (case rest of
                [] \<Rightarrow> Some (Next p1 [])
              | c # cs \<Rightarrow>
                  if jp_consumed p1 = 0 then Some (json_fail p1 INVALID_NUMBER)
                  else next_with (JsonParser_onNumberEnd p1) (c # cs)))"

definition plain_char :: "char \<Rightarrow> bool" where
  "plain_char c \<longleftrightarrow> c \<noteq> CHR 0x5C \<and> c \<noteq> CHR 0x22"

text \<open>The loops over hexadecimal digits take one character in each round.\<close>

definition json_round :: "jparser \<Rightarrow> char \<Rightarrow> string \<Rightarrow> jparser round option" where
  "json_round p c rest =
     (case jp_state p of
        JSON_ARRAY \<Rightarrow>
          if c = CHR '']'' then next_with (JsonParser_onEnd p) rest
          else if json_isSpace c then Some (Next p rest)
          else (case JsonParser_pushState JSON_ARRAY p of
                  Inl err \<Rightarrow> Some (Return p err)
                | Inr p1 \<Rightarrow> Option.bind (json_begin ARRAY_DATA_T (p1\<lparr>jp_state := JSON_VALUE\<rparr>)) (\<lambda>p2. json_value_char p2 c rest))
      | JSON_VALUE \<Rightarrow> json_value_char p c rest
      | JSON_TRUE \<Rightarrow> json_literal ''true'' (\<lambda>p1. p1\<lparr>jp_psm := machine_bool True (jp_psm p1)\<rparr>) p c rest
      | JSON_FALSE \<Rightarrow> json_literal ''false'' (\<lambda>p1. p1\<lparr>jp_psm := machine_bool False (jp_psm p1)\<rparr>) p c rest
      | JSON_NULL \<Rightarrow> json_literal ''null'' id p c rest
      | JSON_OBJECT_KEY \<Rightarrow>
          if c = CHR 0x22 then
            (case JsonParser_pushState JSON_OBJECT_KEY p of
               Inl err \<Rightarrow> Some (Return p err)
             | Inr p1 \<Rightarrow> next_with (json_begin DICT_KEY_T (p1\<lparr>jp_state := JSON_STRING\<rparr>)) rest)
          else if c = CHR ''}'' then next_with (JsonParser_onEnd p) rest
          else if json_isSpace c then Some (Next p rest)
          else Some (json_fail p UNEXPECTED_CHAR_BEFORE_OBJ_KEY)
      | JSON_OBJECT_VAL \<Rightarrow>
          if c = CHR '':'' then
            next_with (json_begin DICT_DATA_T ((json_push JSON_OBJECT_VAL p)\<lparr>jp_state := JSON_VALUE\<rparr>)) rest
          else if json_isSpace c then Some (Next p rest)
          else Some (json_fail p UNEXPECTED_CHAR_BEFORE_OBJ_VAL)
      | JSON_OBJECT_SEP \<Rightarrow>
          if c = CHR '','' then Some (Next (p\<lparr>jp_state := JSON_OBJECT_KEY\<rparr>) rest)
          else if c = CHR ''}'' then next_with (JsonParser_onEnd p) rest
          else if json_isSpace c then Some (Next p rest)
          else Some (json_fail p UNEXPECTED_CHAR_BEFORE_OBJ_SEP)
      | JSON_ARRAY_SEP \<Rightarrow>
          if c = CHR '','' then
            next_with (json_begin ARRAY_DATA_T ((json_push JSON_ARRAY p)\<lparr>jp_state := JSON_VALUE\<rparr>)) rest
          else if c = CHR '']'' then next_with (JsonParser_onEnd p) rest
          else if json_isSpace c then Some (Next p rest)
          else Some (json_fail p UNEXPECTED_CHAR_BEFORE_ARRAY_SEP)
      | JSON_STRING \<Rightarrow>
          if c = CHR 0x22 then next_with (JsonParser_onEnd p) rest
          else if c = CHR 0x5C then Some (Next (p\<lparr>jp_state := JSON_STRING_ESCAPE\<rparr>) rest)
          else Some (Next (json_chars (takeWhile plain_char (c # rest)) p) (dropWhile plain_char (c # rest)))
      | JSON_STRING_ESCAPE \<Rightarrow>
          Some (Next
            (if c = CHR ''u'' then p\<lparr>jp_codepoint := 0, jp_consumed := 0, jp_state := JSON_STRING_UNICODE\<rparr>
             else (json_chars (json_escaped c) p)\<lparr>jp_state := JSON_STRING\<rparr>) rest)
      | JSON_STRING_UNICODE \<Rightarrow>
          if util_isHexDigit c then Some (Next (JsonParser_consumeUnicode c p) rest) else Some (json_fail p INVALID_UNICODE_POINT)
      | JSON_STRING_LOW_SURROGATE_ESCAPE \<Rightarrow>
          if c = CHR 0x5C then Some (Next (p\<lparr>jp_state := JSON_STRING_LOW_SURROGATE_U\<rparr>) rest)
          else Some (json_fail p INVALID_UNICODE_POINT)
      | JSON_STRING_LOW_SURROGATE_U \<Rightarrow>
          if c = CHR ''u'' then Some (Next (p\<lparr>jp_codepoint2 := 0, jp_consumed := 0, jp_state := JSON_STRING_LOW_SURROGATE\<rparr>) rest)
          else Some (json_fail p INVALID_UNICODE_POINT)
      | JSON_STRING_LOW_SURROGATE \<Rightarrow>
          if util_isHexDigit c then
            (case JsonParser_consumeLowSurrogate c p of
               Inl p1 \<Rightarrow> Some (json_fail p1 INVALID_UNICODE_POINT)
             | Inr p1 \<Rightarrow> Some (Next p1 rest))
          else Some (json_fail p INVALID_UNICODE_POINT)
      | JSON_NUMBER \<Rightarrow> json_number p (c # rest)
      | JSON_NUMBER_FRAC \<Rightarrow> json_frac p (c # rest)
      | JSON_NUMBER_EXP_SIGN \<Rightarrow>
          if c = CHR ''+'' then Some (Next (p\<lparr>jp_state := JSON_NUMBER_EXP\<rparr>) rest)
          else if c = CHR ''-'' then Some (Next (p\<lparr>jp_expSign := -1, jp_state := JSON_NUMBER_EXP\<rparr>) rest)
          else json_exp (p\<lparr>jp_state := JSON_NUMBER_EXP\<rparr>) (c # rest)
      | JSON_NUMBER_EXP \<Rightarrow> json_exp p (c # rest)
      | _ \<Rightarrow> Some (Next p rest))"


subsection \<open>The loop ends\<close>

text \<open>A number is ended by a character that is looked at again; \<open>json_rank\<close> counts for that.\<close>

definition json_rank :: "jparser \<Rightarrow> nat" where
  "json_rank p = (if jp_state p \<in> {JSON_NUMBER, JSON_NUMBER_FRAC, JSON_NUMBER_EXP_SIGN, JSON_NUMBER_EXP} then 1 else 0)"

lemma json_rank_le: "json_rank p \<le> 1"
  by (simp add: json_rank_def)

lemma value_end_rank: "JsonParser_onValueEnd p = Some p' \<Longrightarrow> json_rank p' = 0"
  by (auto simp: JsonParser_onValueEnd_def json_rank_def split: list.splits if_splits)

lemma end_rank: "JsonParser_onEnd p = Some p' \<Longrightarrow> json_rank p' = 0"
  by (auto simp: JsonParser_onEnd_def bind_eq_Some_conv dest: value_end_rank)

lemma number_end_rank: "JsonParser_onNumberEnd p = Some p' \<Longrightarrow> json_rank p' = 0"
  by (auto simp: JsonParser_onNumberEnd_def dest: end_rank)

lemma read_frac_length: "read_frac f k cs = (f', k', rest) \<Longrightarrow> length rest \<le> length cs"
  by (induction f k cs rule: read_frac.induct) (auto split: if_splits)

lemma read_exp_length: "read_exp e k cs = Inr (e', k', rest) \<Longrightarrow> length rest \<le> length cs"
  by (induction e k cs rule: read_exp.induct) (auto simp: Let_def split: if_splits)

text \<open>What a round makes of the buffer.\<close>

definition goes_down :: "jparser \<Rightarrow> string \<Rightarrow> jparser round option \<Rightarrow> bool" where
  "goes_down p cs r \<longleftrightarrow>
     (\<forall>p' rest'. r = Some (Next p' rest') \<longrightarrow> length rest' < length cs \<or> length rest' = length cs \<and> json_rank p = 1 \<and> json_rank p' = 0)"

lemma goes_down_shorter: "length rest < length cs \<Longrightarrow> goes_down p cs (next_with r rest)"
  by (auto simp: goes_down_def next_with_def)

lemma value_char_down: "goes_down p (c # rest) (json_value_char p' c rest)"
  by (auto simp: goes_down_def json_value_char_def next_with_def json_fail_def split: if_splits)

lemma literal_down: "goes_down p (c # rest) (json_literal lit tell p' c rest)"
  by (auto simp: goes_down_def json_literal_def next_with_def json_fail_def Let_def split: if_splits)

lemma goes_down_end:
  "json_rank p = 1 \<Longrightarrow> length rest \<le> length cs \<Longrightarrow> goes_down p cs (next_with (JsonParser_onNumberEnd q) rest)"
  by (auto simp: goes_down_def next_with_def dest: number_end_rank)

lemma goes_down_next: "length rest < length cs \<Longrightarrow> goes_down p cs (Some (Next q rest))"
  by (simp add: goes_down_def)

lemma goes_down_fail [simp]: "goes_down p cs (Some (json_fail q e))"
  by (simp add: goes_down_def json_fail_def)

lemma number_down:
  assumes "json_rank p = 1"
  shows "goes_down p (c # cs) (json_number q (c # cs))"
proof (cases "read_digits (jp_number q) 0 (c # cs)")
  case (Inr r)
  obtain n k rest where r: "r = (n, k, rest)" by (cases r)
  have "length rest \<le> length (c # cs)" using read_digits_length Inr r by blast
  then show ?thesis
    using assms unfolding json_number_def Inr r
    by (cases rest) (simp_all add: Let_def goes_down_end goes_down_next)
qed (simp add: json_number_def)

lemma frac_down:
  assumes "json_rank p = 1"
  shows "goes_down p (c # cs) (json_frac q (c # cs))"
proof -
  obtain n k rest where r: "read_frac (jp_frac q) 0 (c # cs) = (n, k, rest)" by (cases "read_frac (jp_frac q) 0 (c # cs)")
  have "length rest \<le> length (c # cs)" using read_frac_length r by blast
  then show ?thesis
    using assms unfolding json_frac_def r
    by (cases rest) (simp_all add: Let_def goes_down_end goes_down_next)
qed

lemma exp_down:
  assumes "json_rank p = 1"
  shows "goes_down p (c # cs) (json_exp q (c # cs))"
proof (cases "read_exp (jp_exp q) 0 (c # cs)")
  case (Inr r)
  obtain n k rest where r: "r = (n, k, rest)" by (cases r)
  have "length rest \<le> length (c # cs)" using read_exp_length Inr r by blast
  then show ?thesis
    using assms unfolding json_exp_def Inr r
    by (cases rest) (simp_all add: Let_def goes_down_end goes_down_next)
qed (simp add: json_exp_def)

lemma json_round_down: "goes_down p (c # rest) (json_round p c rest)"
proof (cases "jp_state p")
  case JSON_STRING
  have "length (dropWhile plain_char rest) \<le> length rest" by (rule length_dropWhile_le)
  then show ?thesis
    using JSON_STRING by (auto simp: json_round_def goes_down_def next_with_def plain_char_def)
next
  case JSON_ARRAY
  then show ?thesis
    using value_char_down [of p c rest]
    by (auto simp: json_round_def goes_down_def next_with_def bind_eq_Some_conv split: sum.splits if_splits)
next
  case JSON_NUMBER
  then show ?thesis using number_down [of p] by (simp add: json_round_def json_rank_def)
next
  case JSON_NUMBER_FRAC
  then show ?thesis using frac_down [of p] by (simp add: json_round_def json_rank_def)
next
  case JSON_NUMBER_EXP
  then show ?thesis using exp_down [of p] by (simp add: json_round_def json_rank_def)
next
  case JSON_NUMBER_EXP_SIGN
  then show ?thesis using exp_down [of p] by (auto simp: json_round_def json_rank_def goes_down_def)
qed (simp_all add: json_round_def value_char_down literal_down,
    auto simp: goes_down_def next_with_def json_fail_def split: sum.splits if_splits)

lemma json_round_measure:
  assumes "json_round p c rest = Some (Next p' rest')"
  shows "length rest' \<le> Suc (length rest)" "2 * length rest' + json_rank p' < 2 * Suc (length rest) + json_rank p"
  using json_round_down [of p c rest] assms json_rank_le [of p'] by (auto simp: goes_down_def)

function json_loop :: "jparser \<Rightarrow> string \<Rightarrow> nat \<Rightarrow> (jparser \<times> int) option" where
  "json_loop p data i =
     (case data of
        [] \<Rightarrow> Some (p, int i)
      | c # rest \<Rightarrow>
          if jp_state p = JSON_FINISH then Some (p, int i)
          else (case json_round p c rest of
                  None \<Rightarrow> None
                | Some (Return p' err) \<Rightarrow> Some (p', err)
                | Some (Next p' rest') \<Rightarrow> json_loop p' rest' (i + (length data - length rest'))))"
  by pat_completeness auto
termination
  by (relation "measure (\<lambda>(p, data, i). 2 * length data + json_rank p)") (auto dest: json_round_measure(2))

declare json_loop.simps [simp del]

definition JsonParser_parseUpdate :: "jparser \<Rightarrow> string \<Rightarrow> (jparser \<times> int) option" where
  "JsonParser_parseUpdate p data =
     (if jp_state p = JSON_FINISH then Some (p, 0)
      else if jp_state p = JSON_ERROR then Some (p, jp_lastError p)
      else json_loop p data 0)"

definition JsonParser_parseFinal :: "jparser \<Rightarrow> string \<Rightarrow> (jparser \<times> int) option" where
  "JsonParser_parseFinal p data =
     (case JsonParser_parseUpdate p data of
        None \<Rightarrow> None
      | Some (p', rv) \<Rightarrow> Some (p', if rv \<ge> 0 \<and> jp_state p' \<noteq> JSON_FINISH then json_err PREMATURE_DATA else rv))"

definition JsonParser_reset :: "jparser \<Rightarrow> jparser" where
  "JsonParser_reset p =
     p\<lparr>jp_psm := machine_reset (jp_psm p), jp_state := JSON_VALUE, jp_lastError := 0, jp_stack := [JSON_FINISH]\<rparr>"

definition JsonParser_getResult :: "jparser \<Rightarrow> bvalue option \<times> jparser" where
  "JsonParser_getResult p = (let (res, m) = machine_getResult (jp_psm p) in (res, p\<lparr>jp_psm := m\<rparr>))"

definition ValueBaseJsonParser_new :: jparser where
  "ValueBaseJsonParser_new = JsonParser_new (value_machine_new False)"

definition ValueBaseJsonParser_parseFinal :: "jparser \<Rightarrow> string \<Rightarrow> (jparser \<times> bvalue option \<times> int) option" where
  "ValueBaseJsonParser_parseFinal = GenericParser_parseFinal JsonParser_parseFinal JsonParser_getResult JsonParser_reset"

subsection \<open>The loop as a loop over characters\<close>

lemma json_err_negative: "json_err e < 0"
  by (cases e) simp_all

lemma json_err_low: "-11 \<le> json_err e"
  by (cases e) simp_all

lemma json_value_char_error: "json_value_char p c rest = Some (Return q e) \<Longrightarrow> e < 0"
  by (auto simp: json_value_char_def next_with_def json_fail_def split: if_splits)

lemma json_number_error: "json_number p cs = Some (Return q e) \<Longrightarrow> e < 0"
  by (auto simp: json_number_def next_with_def json_fail_def Let_def split: if_splits sum.splits list.splits)

lemma json_frac_error: "json_frac p cs = Some (Return q e) \<Longrightarrow> e < 0"
  by (auto simp: json_frac_def next_with_def json_fail_def Let_def split: if_splits prod.splits list.splits)

lemma json_exp_error: "json_exp p cs = Some (Return q e) \<Longrightarrow> e < 0"
  by (auto simp: json_exp_def next_with_def json_fail_def Let_def split: if_splits sum.splits list.splits)

lemma json_literal_error: "json_literal lit tell p c rest = Some (Return q e) \<Longrightarrow> e < 0"
  by (auto simp: json_literal_def next_with_def json_fail_def Let_def split: if_splits)

lemma json_round_error: "json_round p c rest = Some (Return q e) \<Longrightarrow> e < 0"
  by (cases "jp_state p")
    (auto simp: json_round_def next_with_def json_fail_def JsonParser_pushState_def bind_eq_Some_conv
      dest: json_value_char_error json_number_error json_frac_error json_exp_error json_literal_error split: if_splits sum.splits)

interpretation jl: char_loop json_round "\<lambda>p. jp_state p = JSON_FINISH" json_rank json_loop
proof
  fix p c rest p' rest' err i cs
  show "json_loop p [] i = Some (p, int i)" by (simp add: json_loop.simps)
  show "jp_state p = JSON_FINISH \<Longrightarrow> json_loop p cs i = Some (p, int i)" by (cases cs) (simp_all add: json_loop.simps)
  show "jp_state p \<noteq> JSON_FINISH \<Longrightarrow> json_loop p (c # rest) i = (case json_round p c rest of
      None \<Rightarrow> None
    | Some (Next p' rest') \<Rightarrow> json_loop p' rest' (i + (Suc (length rest) - length rest'))
    | Some (Return p' err) \<Rightarrow> Some (p', err))"
    by (simp only: json_loop.simps [of p "c # rest"] list.case length_Cons if_False)
  show "json_round p c rest = Some (Next p' rest') \<Longrightarrow> length rest' \<le> Suc (length rest)"
    "json_round p c rest = Some (Next p' rest') \<Longrightarrow> 2 * length rest' + json_rank p' < 2 * Suc (length rest) + json_rank p"
    by (fact json_round_measure)+
  show "json_round p c rest = Some (Return p' err) \<Longrightarrow> err < 0" by (rule json_round_error)
qed


subsection \<open>Which values can be printed and read back\<close>

text \<open>
  Numbers in the range the parser takes, keys in the order of the map and none empty (the parser drops members
  without a name), and at most \<open>n\<close> levels below the value.
\<close>

fun jsonable :: "nat \<Rightarrow> bvalue \<Rightarrow> bool" where
  "jsonable n (BString s) \<longleftrightarrow> True"
| "jsonable n (BInteger i) \<longleftrightarrow> \<bar>i\<bar> \<le> INT64_MAX"
| "jsonable n (BBool b) \<longleftrightarrow> True"
| "jsonable n BNull \<longleftrightarrow> True"
| "jsonable n (BList vs) \<longleftrightarrow> list_all (\<lambda>v. n > 0 \<and> jsonable (n - 1) v) vs"
| "jsonable n (BDict d) \<longleftrightarrow>
     sorted_wrt key_less (map fst d) \<and> list_all (\<lambda>(k, v). n > 0 \<and> k \<noteq> [] \<and> jsonable (n - 1) v) d"

text \<open>A number ends only before another character; inside lists and dicts one of three follows.\<close>

definition ends :: "string \<Rightarrow> bool" where
  "ends rest \<longleftrightarrow> rest \<noteq> [] \<and> hd rest \<in> {CHR '','', CHR '']'', CHR ''}''}"

fun suits :: "bvalue \<Rightarrow> string \<Rightarrow> bool" where
  "suits (BInteger i) rest = ends rest"
| "suits v rest = True"

lemma suits_ends: "ends rest \<Longrightarrow> suits v rest"
  by (cases v) auto

definition jhas_read :: "bvalue \<Rightarrow> jparser \<Rightarrow> jparser \<Rightarrow> bool" where
  "jhas_read v p p' \<longleftrightarrow> jp_stack p' = jp_stack p \<and> built v (jp_psm p) (jp_psm p')"

definition jat_value :: "jparser \<Rightarrow> bool" where
  "jat_value p \<longleftrightarrow>
     jp_state p = JSON_VALUE \<and> vm_states (jp_psm p) \<noteq> [] \<and> hd (vm_states (jp_psm p)) \<in> {VValue, VDictData, VArrayData}"

abbreviation "jgoes \<equiv> goes_on json_loop (\<lambda>_. True)"

lemma json_begin_value: "jat_value p \<Longrightarrow> machine_beginElement el (jp_psm p) = value_beginElement el (jp_psm p)"
  by (cases "vm_states (jp_psm p)") (auto simp: jat_value_def machine_beginElement_def)

lemma jround_at_value: "jat_value p \<Longrightarrow> json_round p c rest = json_value_char p c rest"
  by (simp add: jat_value_def json_round_def)

lemma jat_value_running: "jat_value p \<Longrightarrow> jp_state p \<noteq> JSON_FINISH"
  by (simp add: jat_value_def)

lemma jgoes_trans: "jgoes p s (Some p') \<Longrightarrow> jgoes p' t r \<Longrightarrow> jgoes p (s @ t) r"
  by (rule goes_on_trans) simp_all

lemma jgoes_char:
  assumes "jp_state p \<noteq> JSON_FINISH" "\<And>rest. json_round p c rest = next_with r rest"
  shows "jgoes p [c] r"
  using assms by (intro jl.goes_onI) (simp_all add: next_with_def)

lemma jvalue_ended:
  assumes "goes_on json_loop P p s (Option.bind r JsonParser_onValueEnd)" "\<exists>p'. r = Some p' \<and> jhas_read v p p'"
  shows "\<exists>p'. jhas_read v p p' \<and> goes_on json_loop P p s (JsonParser_onValueEnd p')"
  using assms by auto

subsection \<open>Strings\<close>

text \<open>Within a string, \<open>s\<close> was appended.\<close>

definition appended :: "string \<Rightarrow> jparser \<Rightarrow> jparser \<Rightarrow> bool" where
  "appended s p q \<longleftrightarrow> jp_state q = JSON_STRING \<and> jp_stack q = jp_stack p \<and> jp_psm q = machine_characters s (jp_psm p)"

lemma appended_trans: "appended s p q \<Longrightarrow> appended t q r \<Longrightarrow> appended (s @ t) p r"
  by (simp add: appended_def machine_characters_def)

lemma plain_one:
  assumes "jp_state p = JSON_STRING" "plain_char c"
  shows "jgoes p [c] (Some (json_chars [c] p))"
  unfolding goes_on_def
proof (intro allI impI)
  fix rest n
  have p: "json_loop p ([c] @ rest) n
      = json_loop (json_chars (c # takeWhile plain_char rest) p) (dropWhile plain_char rest) (n + (Suc (length rest) - length (dropWhile plain_char rest)))"
    using assms by (simp add: jl.loop_Cons json_round_def plain_char_def)
  have "json_loop p ([c] @ rest) n = json_loop (json_chars [c] p) rest (n + 1)"
  proof (cases "rest \<noteq> [] \<and> plain_char (hd rest)")
    case False
    then have "takeWhile plain_char rest = []" "dropWhile plain_char rest = rest" by (cases rest; simp)+
    then show ?thesis unfolding p by simp
  next
    case True
    then obtain d ds where d: "rest = d # ds" "plain_char d" by (cases rest) auto
    let ?k = "length (dropWhile plain_char ds)"
    have k: "?k \<le> length ds" by (rule length_dropWhile_le)
    have "json_loop (json_chars [c] p) rest (n + 1)
        = json_loop (json_chars (d # takeWhile plain_char ds) (json_chars [c] p)) (dropWhile plain_char ds) (n + 1 + (Suc (length ds) - ?k))"
      using assms d by (simp add: jl.loop_Cons json_round_def plain_char_def json_chars_def)
    also have "json_chars (d # takeWhile plain_char ds) (json_chars [c] p) = json_chars (c # takeWhile plain_char rest) p"
      using d by (simp add: json_chars_def machine_characters_def)
    finally show ?thesis unfolding p using d Suc_diff_le [of ?k "Suc (n + length ds)"] k by simp
  qed
  then show "json_loop p ([c] @ rest) n = (case Some (json_chars [c] p) of None \<Rightarrow> None | Some p' \<Rightarrow> json_loop p' rest (n + length [c]))"
    by simp
qed

lemma escape_two:
  assumes "jp_state p = JSON_STRING" "c \<noteq> CHR ''u''"
  shows "jgoes p [CHR 0x5C, c] (Some ((json_chars (json_escaped c) p)\<lparr>jp_state := JSON_STRING\<rparr>))"
proof -
  have "jgoes p [CHR 0x5C] (Some (p\<lparr>jp_state := JSON_STRING_ESCAPE\<rparr>))"
    using assms(1) by (intro jgoes_char) (simp_all add: json_round_def next_with_def)
  moreover have "jgoes (p\<lparr>jp_state := JSON_STRING_ESCAPE\<rparr>) [c] (Some ((json_chars (json_escaped c) p)\<lparr>jp_state := JSON_STRING\<rparr>))"
    using assms(2) by (intro jgoes_char) (simp_all add: json_round_def next_with_def json_chars_def)
  ultimately show ?thesis using jgoes_trans by fastforce
qed

lemma hex_upper_nth: "n < 16 \<Longrightarrow> hex_upper n = ''0123456789ABCDEF'' ! n"
  by (auto simp: less_16_cases hex_upper_def char_of_def bit_Suc_0_iff)

lemma hex_upper_value: "n < 16 \<Longrightarrow> util_isHexDigit (hex_upper n) \<and> util_hexCharToUInt (hex_upper n) = n"
  by (simp add: hex_upper_nth hex_upper_digits)

lemma hex_digit_step:
  assumes "jp_state p = JSON_STRING_UNICODE" "util_isHexDigit c"
  shows "jgoes p [c] (Some (JsonParser_consumeUnicode c p))"
  using assms by (intro jgoes_char) (simp_all add: json_round_def next_with_def)

lemma escape_unicode:
  assumes "jp_state p = JSON_STRING" "code_of c \<le> 0x1F"
  shows "\<exists>q. appended [c] p q \<and> jgoes p (CHR 0x5C # ''u00'' @ [hex_upper (code_of c div 16), hex_upper (code_of c mod 16)]) (Some q)"
proof -
  let ?p1 = "p\<lparr>jp_state := JSON_STRING_ESCAPE\<rparr>"
  let ?p2 = "p\<lparr>jp_codepoint := 0, jp_consumed := 0, jp_state := JSON_STRING_UNICODE\<rparr>"
  let ?p3 = "?p2\<lparr>jp_consumed := 1\<rparr>" and ?p4 = "?p2\<lparr>jp_consumed := 2\<rparr>"
  let ?p5 = "?p2\<lparr>jp_codepoint := code_of c div 16, jp_consumed := 3\<rparr>"
  let ?q = "(json_chars [c] (?p2\<lparr>jp_codepoint := code_of c, jp_consumed := 4\<rparr>))\<lparr>jp_state := JSON_STRING\<rparr>"
  have hx: "util_isHexDigit (hex_upper (code_of c div 16))" "util_hexCharToUInt (hex_upper (code_of c div 16)) = code_of c div 16"
    "util_isHexDigit (hex_upper (code_of c mod 16))" "util_hexCharToUInt (hex_upper (code_of c mod 16)) = code_of c mod 16"
    using hex_upper_value [of "code_of c div 16"] hex_upper_value [of "code_of c mod 16"] assms(2) by simp_all
  have zero: "util_isHexDigit (CHR ''0'')" "util_hexCharToUInt (CHR ''0'') = 0" by code_simp+
  have steps: "JsonParser_consumeUnicode (CHR ''0'') ?p2 = ?p3" "JsonParser_consumeUnicode (CHR ''0'') ?p3 = ?p4"
    by (simp_all add: JsonParser_consumeUnicode_def zero)
  have step5: "JsonParser_consumeUnicode (hex_upper (code_of c div 16)) ?p4 = ?p5"
    using assms(2) by (simp add: JsonParser_consumeUnicode_def hx Let_def)
  have "code_of c div 16 * 16 + code_of c mod 16 = code_of c" by simp
  then have step6: "JsonParser_consumeUnicode (hex_upper (code_of c mod 16)) ?p5 = ?q"
    using assms(2) by (simp add: JsonParser_consumeUnicode_def hx Let_def json_utf8_def json_chars_def)
  have "jgoes p [CHR 0x5C] (Some ?p1)"
    using assms(1) by (intro jgoes_char) (simp_all add: json_round_def next_with_def)
  moreover have "jgoes ?p1 [CHR ''u''] (Some ?p2)"
    by (intro jgoes_char) (simp_all add: json_round_def next_with_def)
  moreover have "jgoes ?p2 [CHR ''0''] (Some ?p3)" using hex_digit_step [of ?p2 "CHR ''0''"] zero(1) unfolding steps by simp
  moreover have "jgoes ?p3 [CHR ''0''] (Some ?p4)" using hex_digit_step [of ?p3 "CHR ''0''"] zero(1) unfolding steps by simp
  moreover have "jgoes ?p4 [hex_upper (code_of c div 16)] (Some ?p5)" using hex_digit_step [of ?p4] hx(1) unfolding step5 [symmetric] by simp
  moreover have "jgoes ?p5 [hex_upper (code_of c mod 16)] (Some ?q)" using hex_digit_step [of ?p5] hx(3) unfolding step6 [symmetric] by simp
  ultimately have "jgoes p ([CHR 0x5C] @ [CHR ''u''] @ [CHR ''0''] @ [CHR ''0''] @ [hex_upper (code_of c div 16)] @ [hex_upper (code_of c mod 16)]) (Some ?q)"
    by (intro jgoes_trans)
  moreover have "appended [c] p ?q" by (simp add: appended_def json_chars_def)
  ultimately show ?thesis by fastforce
qed

lemma escape_cases:
  "(\<exists>d. json_escape_char c = [CHR 0x5C, d] \<and> json_escaped d = [c] \<and> d \<noteq> CHR ''u'')
   \<or> json_escape_char c = CHR 0x5C # ''u00'' @ [hex_upper (code_of c div 16), hex_upper (code_of c mod 16)] \<and> code_of c \<le> 0x1F
   \<or> json_escape_char c = [c] \<and> plain_char c"
proof -
  define d where "d = (if c = CHR 0x08 then CHR ''b'' else if c = CHR 0x0C then CHR ''f'' else if c = CHR 0x0A then CHR ''n''
    else if c = CHR 0x0D then CHR ''r'' else if c = CHR 0x09 then CHR ''t'' else c)"
  consider "c \<in> {CHR 0x22, CHR 0x5C, CHR ''/'', CHR 0x08, CHR 0x0C, CHR 0x0A, CHR 0x0D, CHR 0x09}"
    | "c \<notin> {CHR 0x22, CHR 0x5C, CHR ''/'', CHR 0x08, CHR 0x0C, CHR 0x0A, CHR 0x0D, CHR 0x09}"
    by blast
  then show ?thesis
  proof cases
    case 1
    then have "json_escape_char c = [CHR 0x5C, d] \<and> json_escaped d = [c] \<and> d \<noteq> CHR ''u''"
      by (elim insertE emptyE) (simp_all add: json_escape_char_def json_escaped_def d_def)
    then show ?thesis by blast
  next
    case 2
    then show ?thesis by (simp add: json_escape_char_def plain_char_def)
  qed
qed

lemma escape_char:
  assumes "jp_state p = JSON_STRING"
  shows "\<exists>q. appended [c] p q \<and> jgoes p (json_escape_char c) (Some q)"
proof -
  consider (two) d where "json_escape_char c = [CHR 0x5C, d]" "json_escaped d = [c]" "d \<noteq> CHR ''u''"
    | (unicode) "json_escape_char c = CHR 0x5C # ''u00'' @ [hex_upper (code_of c div 16), hex_upper (code_of c mod 16)]" "code_of c \<le> 0x1F"
    | (plain) "json_escape_char c = [c]" "plain_char c"
    using escape_cases [of c] by blast
  then show ?thesis
  proof cases
    case two
    then have "appended [c] p ((json_chars (json_escaped d) p)\<lparr>jp_state := JSON_STRING\<rparr>)"
      by (simp add: appended_def json_chars_def)
    then show ?thesis using escape_two [OF assms two(3)] two(1) by auto
  next
    case unicode
    then show ?thesis using escape_unicode [OF assms] by simp
  next
    case plain
    have "appended [c] p (json_chars [c] p)" using assms by (simp add: appended_def json_chars_def)
    then show ?thesis using plain_one [OF assms plain(2)] plain(1) by auto
  qed
qed

lemma string_content:
  "jp_state p = JSON_STRING \<Longrightarrow> \<exists>q. appended s p q \<and> jgoes p (jsonEscape s @ [CHR 0x22]) (JsonParser_onEnd q)"
proof (induction s arbitrary: p)
  case Nil
  have "appended [] p p" using Nil by (simp add: appended_def machine_characters_def)
  moreover have "jgoes p [CHR 0x22] (JsonParser_onEnd p)"
    using Nil by (intro jgoes_char) (simp_all add: json_round_def)
  ultimately show ?case by (auto simp: jsonEscape_def)
next
  case (Cons c s)
  obtain q where q: "appended [c] p q" "jgoes p (json_escape_char c) (Some q)" using escape_char [OF Cons.prems] by blast
  have "jp_state q = JSON_STRING" using q(1) by (simp add: appended_def)
  then obtain r where r: "appended s q r" "jgoes q (jsonEscape s @ [CHR 0x22]) (JsonParser_onEnd r)" using Cons.IH by blast
  have "jsonEscape (c # s) @ [CHR 0x22] = json_escape_char c @ jsonEscape s @ [CHR 0x22]" by (simp add: jsonEscape_def)
  then show ?case using jgoes_trans [OF q(2) r(2)] appended_trans [OF q(1) r(1)] by auto
qed

lemma jstring_value:
  assumes "jat_value p"
  shows "\<exists>p'. jhas_read (BString s) p p' \<and> jgoes p (json_encode (BString s)) (JsonParser_onValueEnd p')"
proof -
  let ?p1 = "p\<lparr>jp_state := JSON_STRING, jp_psm := push_vstate VString ((jp_psm p)\<lparr>vm_str := []\<rparr>)\<rparr>"
  have "jgoes p [CHR 0x22] (Some ?p1)"
    using json_begin_value [OF assms, of STRING_T] jat_value_running [OF assms]
    by (intro jgoes_char) (simp_all add: jround_at_value [OF assms] json_value_char_def json_begin_def next_with_def)
  moreover obtain q where q: "appended s ?p1 q" "jgoes ?p1 (jsonEscape s @ [CHR 0x22]) (JsonParser_onEnd q)"
    using string_content [of ?p1 s] by auto
  ultimately have "jgoes p ([CHR 0x22] @ jsonEscape s @ [CHR 0x22]) (JsonParser_onEnd q)" using jgoes_trans by blast
  then have "jgoes p (json_encode (BString s)) (Option.bind (json_end q) JsonParser_onValueEnd)"
    by (simp add: json_string_def JsonParser_onEnd_def)
  then show ?thesis
    by (rule jvalue_ended)
      (use q(1) in \<open>auto simp: appended_def json_end_def machine_endElement_def machine_characters_def push_vstate_def
        setCurrentFrameValue_def jhas_read_def built_def\<close>)
qed


subsection \<open>Literals and numbers\<close>

lemma literal_tail:
  assumes "\<And>q c rest. jp_state q = st \<Longrightarrow> json_round q c rest = json_literal lit tell q c rest" "st \<noteq> JSON_FINISH"
    and "\<And>q n. tell (q\<lparr>jp_consumed := n\<rparr>) = (tell q)\<lparr>jp_consumed := n\<rparr>"
  shows "jp_state p = st \<Longrightarrow> jp_consumed p < length lit
    \<Longrightarrow> jgoes p (drop (jp_consumed p) lit) (JsonParser_onEnd ((tell p)\<lparr>jp_consumed := length lit\<rparr>))"
proof (induction "length lit - jp_consumed p" arbitrary: p)
  case (Suc k)
  let ?c = "lit ! jp_consumed p" and ?p1 = "p\<lparr>jp_consumed := jp_consumed p + 1\<rparr>"
  have d: "drop (jp_consumed p) lit = ?c # drop (jp_consumed p + 1) lit" using Suc.prems(2) by (simp add: Cons_nth_drop_Suc)
  show ?case
  proof (cases "jp_consumed p + 1 = length lit")
    case True
    have "jgoes p [?c] (JsonParser_onEnd ((tell p)\<lparr>jp_consumed := length lit\<rparr>))"
      using True Suc.prems assms by (intro jgoes_char) (simp_all add: json_literal_def Let_def)
    then show ?thesis using True by (simp add: d)
  next
    case False
    have "jgoes p [?c] (Some ?p1)"
      using False Suc.prems assms by (intro jgoes_char) (simp_all add: json_literal_def next_with_def)
    moreover have "jgoes ?p1 (drop (jp_consumed p + 1) lit) (JsonParser_onEnd ((tell p)\<lparr>jp_consumed := length lit\<rparr>))"
      using Suc.hyps(1) [of ?p1] Suc.hyps(2) Suc.prems False assms(3) by simp
    ultimately show ?thesis unfolding d using jgoes_trans by fastforce
  qed
qed simp

lemma jliteral_value:
  assumes at: "jat_value p" and ne: "lit \<noteq> []" "length lit > 1"
    and round: "\<And>q c rest. jp_state q = st \<Longrightarrow> json_round q c rest = json_literal lit tell q c rest" and st: "st \<noteq> JSON_FINISH"
    and tell: "\<And>q n. tell (q\<lparr>jp_consumed := n\<rparr>) = (tell q)\<lparr>jp_consumed := n\<rparr>"
    and first: "\<And>rest. json_value_char p (hd lit) rest = Some (Next (p\<lparr>jp_consumed := 1, jp_state := st, jp_psm := m\<rparr>) rest)"
    and built: "\<exists>p'. json_end ((tell (p\<lparr>jp_consumed := 1, jp_state := st, jp_psm := m\<rparr>))\<lparr>jp_consumed := length lit\<rparr>) = Some p'
        \<and> jhas_read v p p'"
  shows "\<exists>p'. jhas_read v p p' \<and> jgoes p lit (JsonParser_onValueEnd p')"
proof -
  let ?p1 = "p\<lparr>jp_consumed := 1, jp_state := st, jp_psm := m\<rparr>"
  have "jgoes p [hd lit] (Some ?p1)"
    using first jat_value_running [OF at] by (intro jgoes_char) (simp_all add: jround_at_value [OF at] next_with_def)
  moreover have "jgoes ?p1 (drop 1 lit) (JsonParser_onEnd ((tell ?p1)\<lparr>jp_consumed := length lit\<rparr>))"
    using literal_tail [OF round st tell, of ?p1] ne by simp
  ultimately have "jgoes p ([hd lit] @ drop 1 lit) (JsonParser_onEnd ((tell ?p1)\<lparr>jp_consumed := length lit\<rparr>))"
    using jgoes_trans by blast
  moreover have "[hd lit] @ drop 1 lit = lit" using ne(1) by (cases lit) simp_all
  ultimately have "jgoes p lit (Option.bind (json_end ((tell ?p1)\<lparr>jp_consumed := length lit\<rparr>)) JsonParser_onValueEnd)"
    by (simp add: JsonParser_onEnd_def)
  then show ?thesis using built by (rule jvalue_ended)
qed

lemma jbool_value:
  assumes at: "jat_value p"
  shows "\<exists>p'. jhas_read (BBool b) p p' \<and> jgoes p (json_encode (BBool b)) (JsonParser_onValueEnd p')"
proof -
  let ?m = "push_vstate VBool ((jp_psm p)\<lparr>vm_bval := False\<rparr>)"
  have m: "machine_beginElement BOOL_T (jp_psm p) = Some ?m" using json_begin_value [OF at] by simp
  have "\<exists>p'. jhas_read (BBool True) p p' \<and> jgoes p ''true'' (JsonParser_onValueEnd p')"
    by (rule jliteral_value [OF at, where st = JSON_TRUE and m = ?m and tell = "\<lambda>p1. p1\<lparr>jp_psm := machine_bool True (jp_psm p1)\<rparr>"])
      (auto simp: json_round_def json_value_char_def json_begin_def m next_with_def json_end_def machine_endElement_def push_vstate_def
        machine_bool_def setCurrentFrameValue_def jhas_read_def built_def)
  moreover have "\<exists>p'. jhas_read (BBool False) p p' \<and> jgoes p ''false'' (JsonParser_onValueEnd p')"
    by (rule jliteral_value [OF at, where st = JSON_FALSE and m = ?m and tell = "\<lambda>p1. p1\<lparr>jp_psm := machine_bool False (jp_psm p1)\<rparr>"])
      (auto simp: json_round_def json_value_char_def json_begin_def m next_with_def json_end_def machine_endElement_def push_vstate_def
        machine_bool_def setCurrentFrameValue_def jhas_read_def built_def)
  ultimately show ?thesis by (cases b) simp_all
qed

lemma jnull_value:
  assumes at: "jat_value p"
  shows "\<exists>p'. jhas_read BNull p p' \<and> jgoes p (json_encode BNull) (JsonParser_onValueEnd p')"
proof -
  let ?m = "push_vstate VNull (jp_psm p)"
  have m: "machine_beginElement NULL_T (jp_psm p) = Some ?m" using json_begin_value [OF at] by simp
  have "\<exists>p'. jhas_read BNull p p' \<and> jgoes p ''null'' (JsonParser_onValueEnd p')"
    by (rule jliteral_value [OF at, where st = JSON_NULL and m = ?m and tell = id])
      (auto simp: json_round_def json_value_char_def json_begin_def m next_with_def json_end_def machine_endElement_def push_vstate_def
        setCurrentFrameValue_def jhas_read_def built_def)
  then show ?thesis by simp
qed


lemma digit_none_of: "util_isDigit c \<Longrightarrow> c \<notin> {CHR ''{'', CHR ''['', CHR 0x22, CHR ''-'', CHR ''t'', CHR ''f'', CHR ''n''}"
  by (auto simp: util_isDigit_iff)

lemma jnumber_value:
  assumes at: "jat_value p" and range: "\<bar>i\<bar> \<le> INT64_MAX"
  shows "\<exists>p'. jhas_read (BInteger i) p p' \<and> goes_on json_loop ends p (json_encode (BInteger i)) (JsonParser_onValueEnd p')"
proof -
  let ?n = "nat \<bar>i\<bar>"
  have n: "int ?n \<le> INT64_MAX" using range by simp
  let ?m = "push_vstate VNumber ((jp_psm p)\<lparr>vm_number := 0\<rparr>)"
  obtain d :: nat and ds where d: "d < 10" "print_nat ?n = char_of (d + 48) # ds" using print_nat_head by blast
  have c: "util_isDigit (char_of (d + 48))" "code_of (char_of (d + 48) :: char) = d + 48"
    using d(1) by (simp_all add: code_of_digit util_isDigit_iff)
  then have other: "(char_of (d + 48) :: char) \<notin> {CHR ''{'', CHR ''['', CHR 0x22, CHR ''-'', CHR ''t'', CHR ''f'', CHR ''n''}"
    by (intro digit_none_of)
  define q where "q = (if i < 0 then p\<lparr>jp_number := 0, jp_sign := -1, jp_consumed := 0, jp_state := JSON_NUMBER, jp_psm := ?m\<rparr>
      else p\<lparr>jp_number := int d, jp_sign := 1, jp_consumed := 1, jp_state := JSON_NUMBER, jp_psm := ?m\<rparr>)"
  define x where "x = (if i < 0 then CHR ''-'' else char_of (d + 48) :: char)"
  define es where "es = (if i < 0 then print_nat ?n else ds)"
  have text_eq: "print_int i = x # es" using d(2) by (cases "i < 0") (simp_all add: print_int_def x_def es_def)
  have first: "json_round p x rest = Some (Next q rest)" for rest
    using json_begin_value [OF at, of NUMBER_T] c other
    by (cases "i < 0") (simp_all add: jround_at_value [OF at] json_value_char_def next_with_def json_begin_def x_def q_def)
  have q: "jp_state q = JSON_NUMBER" "jp_consumed q + length es > 0" using d(2) by (auto simp: q_def es_def)
  let ?r = "q\<lparr>jp_number := int ?n, jp_consumed := jp_consumed q + length es\<rparr>"
  have "json_loop q (es @ rest) k = (case JsonParser_onNumberEnd ?r of None \<Rightarrow> None | Some p' \<Rightarrow> json_loop p' rest (k + length es))"
    if "ends rest" for rest k
  proof -
    obtain e cs where rest: "rest = e # cs" "e \<in> {CHR '','', CHR '']'', CHR ''}''}" using \<open>ends rest\<close> by (cases rest) (auto simp: ends_def)
    have ne: "\<not> util_isDigit e" using rest(2) by (auto simp: util_isDigit_iff)
    have "read_digits (jp_number q) 0 (es @ rest) = Inr (int ?n, length es, rest)"
      using read_printed [OF n ne] read_printed_tail [OF n ne d(2, 1)] by (cases "i < 0") (simp_all add: q_def es_def rest(1))
    then have "json_number q (es @ rest) = next_with (JsonParser_onNumberEnd ?r) rest"
      using q(2) rest by (auto simp: json_number_def Let_def)
    moreover have "json_round q (hd (es @ rest)) (tl (es @ rest)) = json_number q (es @ rest)"
      using q(1) rest(1) by (cases es) (simp_all add: json_round_def)
    ultimately show ?thesis
      using jl.loop_round [of q "es @ rest" k] q(1) rest(1) by (simp add: next_with_def split: option.split)
  qed
  then have "goes_on json_loop ends q es (JsonParser_onNumberEnd ?r)" by (simp add: goes_on_def)
  then have "goes_on json_loop ends p (x # es) (JsonParser_onNumberEnd ?r)"
    using jat_value_running [OF at] by (intro jl.goes_on_step [OF _ first]) simp_all
  then have "goes_on json_loop ends p (json_encode (BInteger i))
      (Option.bind (json_end (?r\<lparr>jp_psm := machine_number (jp_sign q * int ?n) (jp_psm q)\<rparr>)) JsonParser_onValueEnd)"
    by (simp add: JsonParser_onNumberEnd_def JsonParser_onEnd_def text_eq)
  then show ?thesis
    by (rule jvalue_ended)
      (auto simp: json_end_def machine_endElement_def push_vstate_def machine_number_def setCurrentFrameValue_def
        jhas_read_def built_def q_def)
qed

subsection \<open>Lists\<close>

definition jreadable :: "nat \<Rightarrow> bvalue \<Rightarrow> bool" where
  "jreadable k v \<longleftrightarrow>
     (\<forall>p. jat_value p \<and> length (jp_stack p) = k
        \<longrightarrow> (\<exists>p'. jhas_read v p p' \<and> goes_on json_loop (suits v) p (json_encode v) (JsonParser_onValueEnd p')))"

lemma json_encode_head:
  "json_encode v \<noteq> [] \<and> hd (json_encode v) \<noteq> CHR '']'' \<and> \<not> json_isSpace (hd (json_encode v))"
proof (cases v)
  case (BInteger i)
  obtain d :: nat and ds where "d < 10" "print_nat (nat \<bar>i\<bar>) = char_of (d + 48) # ds" using print_nat_head by blast
  then show ?thesis using code_of_digit [of d]
    by (cases "i < 0") (auto simp: BInteger print_int_def json_isSpace_def util_isLws_def util_isCRLF_def dest: arg_cong [of _ _ code_of])
qed (auto simp: json_string_def json_isSpace_def util_isLws_def util_isCRLF_def)

lemma joined_Cons: "joined (s # ss) = s @ concat (map (\<lambda>t. '','' @ t) ss)"
  by (induction ss arbitrary: s) auto

lemma ends_tail: "ends rest \<Longrightarrow> ends (concat (map (\<lambda>t. '','' @ f t) ts) @ rest)"
  by (cases ts) (simp_all add: ends_def)

definition jlist_element :: "jparser \<Rightarrow> jparser" where
  "jlist_element p = p\<lparr>jp_stack := JSON_ARRAY # jp_stack p, jp_state := JSON_VALUE,
     jp_psm := push_vstate VArrayData (Controller_pushFrame (jp_psm p))\<rparr>"

definition jin_list :: "jstate \<Rightarrow> bvalue list \<Rightarrow> jparser \<Rightarrow> bool" where
  "jin_list st acc p \<longleftrightarrow>
     jp_state p = st \<and> vm_states (jp_psm p) \<noteq> [] \<and> hd (vm_states (jp_psm p)) = VArray
     \<and> sf_value (vm_frame (jp_psm p)) = Some (BList acc)"

lemma jlist_element_at: "jin_list st acc p \<Longrightarrow> jat_value (jlist_element p)"
  by (simp add: jin_list_def jat_value_def jlist_element_def push_vstate_def Controller_pushFrame_def)

lemma jlist_data_begin:
  assumes "jin_list st acc p"
  shows "machine_beginElement ARRAY_DATA_T (jp_psm p) = Some (push_vstate VArrayData (Controller_pushFrame (jp_psm p)))"
  using assms by (cases "vm_states (jp_psm p)") (auto simp: jin_list_def machine_beginElement_def)

lemma jlist_first:
  assumes "jin_list JSON_ARRAY acc p" "length (jp_stack p) < 50" "c \<noteq> CHR '']''" "\<not> json_isSpace c"
  shows "json_round p c rest = json_round (jlist_element p) c rest"
proof -
  have "json_round p c rest = json_value_char (jlist_element p) c rest"
    using assms jlist_data_begin [OF assms(1)]
    by (simp add: json_round_def jin_list_def JsonParser_pushState_def json_begin_def jlist_element_def)
  then show ?thesis by (simp add: jround_at_value [OF jlist_element_at [OF assms(1)]])
qed

lemma jlist_next:
  assumes "jin_list JSON_ARRAY_SEP acc p" "length (jp_stack p) < 50"
  shows "jgoes p '','' (Some (jlist_element p))"
  using assms jlist_data_begin [OF assms(1)]
  by (intro jgoes_char) (simp_all add: json_round_def jin_list_def json_push_def JsonParser_pushState_def json_begin_def jlist_element_def)

lemma jlist_element_end:
  assumes "jin_list st acc p" "jhas_read v (jlist_element p) q"
  shows "\<exists>p'. JsonParser_onValueEnd q = Some p' \<and> jhas_read (BList (acc @ [v])) p p' \<and> jin_list JSON_ARRAY_SEP (acc @ [v]) p'"
  using assms
  by (auto simp: jin_list_def jhas_read_def built_def jlist_element_def push_vstate_def Controller_pushFrame_def
      JsonParser_onValueEnd_def json_end_def machine_endElement_def Controller_popArrayFrame_def Let_def)

lemma jlist_element_read:
  assumes "jreadable (Suc k) v" "jin_list st acc p" "length (jp_stack p) = k"
  shows "\<exists>p'. jhas_read (BList (acc @ [v])) p p' \<and> jin_list JSON_ARRAY_SEP (acc @ [v]) p'
           \<and> goes_on json_loop ends (jlist_element p) (json_encode v) (Some p')"
proof -
  have "length (jp_stack (jlist_element p)) = Suc k" using assms(3) by (simp add: jlist_element_def)
  then obtain q where q: "jhas_read v (jlist_element p) q"
      "goes_on json_loop (suits v) (jlist_element p) (json_encode v) (JsonParser_onValueEnd q)"
    using assms(1) jlist_element_at [OF assms(2)] unfolding jreadable_def by blast
  then show ?thesis using jlist_element_end [OF assms(2) q(1)] goes_on_less [OF q(2) suits_ends] by auto
qed

lemma jhas_read_trans: "jhas_read u p q \<Longrightarrow> jhas_read v q r \<Longrightarrow> jhas_read v p r"
  using built_trans by (auto simp: jhas_read_def)

lemma jlist_elements:
  assumes "list_all (jreadable (Suc k)) vs" "k < 50 \<or> vs = []" "jin_list JSON_ARRAY_SEP acc p" "length (jp_stack p) = k"
  shows "\<exists>p'. jin_list JSON_ARRAY_SEP (acc @ vs) p' \<and> jhas_read (BList (acc @ vs)) p p'
           \<and> goes_on json_loop ends p (concat (map (\<lambda>v. '','' @ json_encode v) vs)) (Some p')"
  using assms
proof (induction vs arbitrary: acc p)
  case Nil
  then show ?case by (auto simp: jin_list_def jhas_read_def intro!: exI [of _ p] built_self)
next
  case (Cons v vs)
  have v: "jreadable (Suc k) v" "list_all (jreadable (Suc k)) vs" "k < 50" using Cons.prems(1, 2) by simp_all
  obtain p1 where p1: "jhas_read (BList (acc @ [v])) p p1" "jin_list JSON_ARRAY_SEP (acc @ [v]) p1"
      "goes_on json_loop ends (jlist_element p) (json_encode v) (Some p1)"
    using jlist_element_read [OF v(1) Cons.prems(3, 4)] by blast
  have "jgoes p '','' (Some (jlist_element p))" using jlist_next [OF Cons.prems(3)] v(3) Cons.prems(4) by simp
  then have go: "goes_on json_loop ends p ('','' @ json_encode v) (Some p1)" by (rule goes_on_trans [OF _ p1(3)]) simp
  have len: "length (jp_stack p1) = k" using p1(1) Cons.prems(4) by (simp add: jhas_read_def)
  obtain p2 where p2: "jin_list JSON_ARRAY_SEP ((acc @ [v]) @ vs) p2" "jhas_read (BList ((acc @ [v]) @ vs)) p1 p2"
      "goes_on json_loop ends p1 (concat (map (\<lambda>v. '','' @ json_encode v) vs)) (Some p2)"
    using Cons.IH [OF v(2) _ p1(2) len] v(3) by blast
  have "goes_on json_loop ends p (('','' @ json_encode v) @ concat (map (\<lambda>v. '','' @ json_encode v) vs)) (Some p2)"
    by (rule goes_on_trans [OF go p2(3)]) (rule ends_tail)
  then show ?case using p2(1) jhas_read_trans [OF p1(1) p2(2)] by (intro exI [of _ p2]) simp
qed


lemma jlist_value:
  assumes at: "jat_value p" and elements: "list_all (jreadable (Suc (length (jp_stack p)))) vs"
    and room: "length (jp_stack p) < 50 \<or> vs = []"
  shows "\<exists>p'. jhas_read (BList vs) p p' \<and> jgoes p (json_encode (BList vs)) (JsonParser_onValueEnd p')"
proof -
  let ?p1 = "p\<lparr>jp_state := JSON_ARRAY, jp_psm := push_vstate VArray (setCurrentFrameValue (BList []) (jp_psm p))\<rparr>"
  have first: "json_round p (CHR ''['') rest = Some (Next ?p1 rest)" for rest
    using json_begin_value [OF at, of ARRAY_T]
    by (simp add: jround_at_value [OF at] json_value_char_def next_with_def json_begin_def)
  have p1: "jin_list JSON_ARRAY [] ?p1"
    using at by (simp add: jin_list_def jat_value_def push_vstate_def setCurrentFrameValue_def)
  have "\<exists>st p2. st \<in> {JSON_ARRAY, JSON_ARRAY_SEP} \<and> jin_list st vs p2 \<and> jhas_read (BList vs) ?p1 p2
      \<and> goes_on json_loop ends ?p1 (joined (map json_encode vs)) (Some p2)"
  proof (cases vs)
    case Nil
    have "jhas_read (BList vs) ?p1 ?p1" using p1 Nil by (auto simp: jhas_read_def jin_list_def intro!: built_self)
    then show ?thesis using p1 Nil by (intro exI [of _ JSON_ARRAY] exI [of _ ?p1]) simp
  next
    case (Cons v ws)
    have v: "jreadable (Suc (length (jp_stack ?p1))) v" "list_all (jreadable (Suc (length (jp_stack ?p1)))) ws"
      using elements Cons by simp_all
    obtain q where q: "jhas_read (BList ([] @ [v])) ?p1 q" "jin_list JSON_ARRAY_SEP ([] @ [v]) q"
        "goes_on json_loop ends (jlist_element ?p1) (json_encode v) (Some q)"
      using jlist_element_read [OF v(1) p1 refl] by blast
    have lt: "length (jp_stack ?p1) < 50" using room Cons by simp
    have hd: "json_encode v \<noteq> []" "hd (json_encode v) \<noteq> CHR '']''" "\<not> json_isSpace (hd (json_encode v))"
      using json_encode_head by simp_all
    have go: "goes_on json_loop ends ?p1 (json_encode v) (Some q)"
      by (rule jl.goes_on_same [OF hd(1) _ _ jlist_first [OF p1 lt hd(2, 3)] q(3)]) (simp_all add: jlist_element_def)
    have len: "length (jp_stack q) = length (jp_stack ?p1)" using q(1) by (simp add: jhas_read_def)
    obtain p2 where p2: "jin_list JSON_ARRAY_SEP (([] @ [v]) @ ws) p2" "jhas_read (BList (([] @ [v]) @ ws)) q p2"
        "goes_on json_loop ends q (concat (map (\<lambda>v. '','' @ json_encode v) ws)) (Some p2)"
      using jlist_elements [OF v(2) _ q(2) len] lt by blast
    have "goes_on json_loop ends ?p1 (json_encode v @ concat (map (\<lambda>v. '','' @ json_encode v) ws)) (Some p2)"
      by (rule goes_on_trans [OF go p2(3)]) (rule ends_tail)
    moreover have "joined (map json_encode vs) = json_encode v @ concat (map (\<lambda>v. '','' @ json_encode v) ws)"
      by (simp add: Cons joined_Cons comp_def)
    ultimately show ?thesis
      using p2(1) jhas_read_trans [OF q(1) p2(2)] Cons by (intro exI [of _ JSON_ARRAY_SEP] exI [of _ p2]) simp
  qed
  then obtain st p2 where p2: "st \<in> {JSON_ARRAY, JSON_ARRAY_SEP}" "jin_list st vs p2" "jhas_read (BList vs) ?p1 p2"
      "goes_on json_loop ends ?p1 (joined (map json_encode vs)) (Some p2)"
    by blast
  have "jgoes p2 '']'' (JsonParser_onEnd p2)"
    using p2(1, 2) by (intro jgoes_char) (auto simp: json_round_def jin_list_def)
  then have "jgoes ?p1 (joined (map json_encode vs) @ '']'') (JsonParser_onEnd p2)"
    by (rule goes_on_trans [OF p2(4)]) (simp add: ends_def)
  then have "jgoes p (CHR ''['' # joined (map json_encode vs) @ '']'') (JsonParser_onEnd p2)"
    using jat_value_running [OF at] by (intro jl.goes_on_step [OF _ first]) simp_all
  then have "jgoes p (json_encode (BList vs)) (Option.bind (json_end p2) JsonParser_onValueEnd)"
    by (simp add: JsonParser_onEnd_def)
  then show ?thesis
    using p2(2, 3) by (elim jvalue_ended)
      (auto simp: jin_list_def json_end_def machine_endElement_def push_vstate_def setCurrentFrameValue_def jhas_read_def built_def)
qed

subsection \<open>Dictionaries\<close>

definition jin_dict :: "jstate \<Rightarrow> (string \<times> bvalue) list \<Rightarrow> jparser \<Rightarrow> bool" where
  "jin_dict st acc p \<longleftrightarrow>
     jp_state p = st \<and> vm_states (jp_psm p) \<noteq> [] \<and> hd (vm_states (jp_psm p)) = VDict
     \<and> sf_value (vm_frame (jp_psm p)) = Some (BDict acc)"

definition jdict_key :: "jparser \<Rightarrow> jparser" where
  "jdict_key p = p\<lparr>jp_stack := JSON_OBJECT_KEY # jp_stack p, jp_state := JSON_STRING,
     jp_psm := push_vstate VDictKey ((Controller_pushFrame (jp_psm p))\<lparr>vm_str := []\<rparr>)\<rparr>"

text \<open>In front of the value of the key \<open>k\<close>.\<close>

definition jkey_taken :: "string \<Rightarrow> jparser \<Rightarrow> jparser \<Rightarrow> bool" where
  "jkey_taken k p q \<longleftrightarrow>
     jp_state q = JSON_VALUE \<and> jp_stack q = JSON_OBJECT_VAL # jp_stack p
     \<and> vm_states (jp_psm q) = VDictData # vm_states (jp_psm p) \<and> vm_frames (jp_psm q) = vm_frame (jp_psm p) # vm_frames (jp_psm p)
     \<and> vm_allowEmpty (jp_psm q) = vm_allowEmpty (jp_psm p) \<and> vm_frame (jp_psm q) = \<lparr>sf_value = None, sf_name = k\<rparr>"

lemma jkey_begin:
  assumes "jin_dict JSON_OBJECT_KEY acc p" "length (jp_stack p) < 50"
  shows "jgoes p [CHR 0x22] (Some (jdict_key p))"
proof -
  have "machine_beginElement DICT_KEY_T (jp_psm p) = Some (push_vstate VDictKey ((Controller_pushFrame (jp_psm p))\<lparr>vm_str := []\<rparr>))"
    using assms(1) by (cases "vm_states (jp_psm p)") (auto simp: jin_dict_def machine_beginElement_def)
  then show ?thesis
    using assms by (intro jgoes_char)
      (simp_all add: json_round_def jin_dict_def JsonParser_pushState_def json_begin_def jdict_key_def)
qed

lemma jkey_reads:
  assumes "jin_dict JSON_OBJECT_KEY acc p" "length (jp_stack p) < 50"
  shows "\<exists>q. jgoes p (json_string k @ '':'') (Some q) \<and> jkey_taken k p q"
proof -
  obtain q where q: "appended k (jdict_key p) q" "jgoes (jdict_key p) (jsonEscape k @ [CHR 0x22]) (JsonParser_onEnd q)"
    using string_content [of "jdict_key p" k] by (auto simp: jdict_key_def)
  obtain ss where ss: "vm_states (jp_psm p) = VDict # ss" using assms(1) by (cases "vm_states (jp_psm p)") (auto simp: jin_dict_def)
  define q1 where "q1 = q\<lparr>jp_stack := jp_stack p, jp_state := JSON_OBJECT_VAL,
      jp_psm := (jp_psm q)\<lparr>vm_states := vm_states (jp_psm p), vm_frame := \<lparr>sf_value = None, sf_name = k\<rparr>\<rparr>\<rparr>"
  have q1: "JsonParser_onEnd q = Some q1"
    using q(1) ss
    by (simp add: appended_def jdict_key_def JsonParser_onEnd_def json_end_def machine_endElement_def push_vstate_def
        Controller_pushFrame_def machine_characters_def empty_frame_def JsonParser_onValueEnd_def q1_def)
  define q2 where "q2 = q1\<lparr>jp_stack := JSON_OBJECT_VAL # jp_stack p, jp_state := JSON_VALUE, jp_psm := push_vstate VDictData (jp_psm q1)\<rparr>"
  have "jgoes q1 '':'' (Some q2)"
    using ss assms(2)
    by (intro jgoes_char)
      (simp_all add: q1_def q2_def json_round_def json_push_def JsonParser_pushState_def json_begin_def machine_beginElement_def)
  then have "jgoes (jdict_key p) ((jsonEscape k @ [CHR 0x22]) @ '':'') (Some q2)" using jgoes_trans q(2) q1 by fastforce
  then have "jgoes p ([CHR 0x22] @ (jsonEscape k @ [CHR 0x22]) @ '':'') (Some q2)" using jgoes_trans [OF jkey_begin [OF assms]] by blast
  moreover have "jkey_taken k p q2"
    using q(1) by (simp add: jkey_taken_def q2_def q1_def appended_def jdict_key_def machine_characters_def push_vstate_def
        Controller_pushFrame_def)
  ultimately show ?thesis by (auto simp: json_string_def)
qed

lemma jkey_taken_at: "jkey_taken k p q \<Longrightarrow> jat_value q"
  by (simp add: jkey_taken_def jat_value_def)

lemma jentry_end:
  assumes "jin_dict st acc p" "jkey_taken k p q" "jhas_read v q q'" "k \<noteq> []" "\<And>k'. k' \<in> fst ` set acc \<Longrightarrow> key_less k' k"
  shows "\<exists>p'. JsonParser_onValueEnd q' = Some p' \<and> jhas_read (BDict (acc @ [(k, v)])) p p' \<and> jin_dict JSON_OBJECT_SEP (acc @ [(k, v)]) p'"
proof -
  have "Dict_put k v acc = acc @ [(k, v)]" using Dict_put_last assms(5) by blast
  then show ?thesis
    using assms(1, 2, 3, 4)
    by (auto simp: jin_dict_def jkey_taken_def jhas_read_def built_def JsonParser_onValueEnd_def json_end_def machine_endElement_def
        Controller_popStructFrame_def Let_def)
qed

definition json_entry :: "string \<times> bvalue \<Rightarrow> string" where
  "json_entry e = json_string (fst e) @ '':'' @ json_encode (snd e)"

definition jentry_readable :: "nat \<Rightarrow> string \<times> bvalue \<Rightarrow> bool" where
  "jentry_readable n e \<longleftrightarrow> n < 50 \<and> fst e \<noteq> [] \<and> jreadable (Suc n) (snd e)"

lemma jentry_read:
  assumes "jentry_readable n e" "jin_dict JSON_OBJECT_KEY acc p" "length (jp_stack p) = n" "\<And>k'. k' \<in> fst ` set acc \<Longrightarrow> key_less k' (fst e)"
  shows "\<exists>p'. jhas_read (BDict (acc @ [e])) p p' \<and> jin_dict JSON_OBJECT_SEP (acc @ [e]) p' \<and> goes_on json_loop ends p (json_entry e) (Some p')"
proof -
  obtain k v where e: "e = (k, v)" by (cases e)
  have v: "n < 50" "k \<noteq> []" "jreadable (Suc n) v" using assms(1) by (simp_all add: jentry_readable_def e)
  obtain q where q: "jgoes p (json_string k @ '':'') (Some q)" "jkey_taken k p q"
    using jkey_reads [OF assms(2)] v(1) assms(3) by blast
  have "length (jp_stack q) = Suc n" using q(2) assms(3) by (simp add: jkey_taken_def)
  then obtain q' where q': "jhas_read v q q'" "goes_on json_loop (suits v) q (json_encode v) (JsonParser_onValueEnd q')"
    using v(3) jkey_taken_at [OF q(2)] unfolding jreadable_def by blast
  obtain p1 where p1: "JsonParser_onValueEnd q' = Some p1" "jhas_read (BDict (acc @ [(k, v)])) p p1" "jin_dict JSON_OBJECT_SEP (acc @ [(k, v)]) p1"
    using jentry_end [OF assms(2) q(2) q'(1) v(2)] assms(4) e by auto
  have "goes_on json_loop ends q (json_encode v) (Some p1)" using goes_on_less [OF q'(2) suits_ends] p1(1) by simp
  then have "goes_on json_loop ends p ((json_string k @ '':'') @ json_encode v) (Some p1)" by (rule goes_on_trans [OF q(1)]) simp
  then show ?thesis using p1(2, 3) by (auto simp: json_entry_def e)
qed

lemma jentries:
  assumes "list_all (jentry_readable n) d" "sorted_wrt key_less (map fst (acc @ d))" "jin_dict JSON_OBJECT_SEP acc p" "length (jp_stack p) = n"
  shows "\<exists>p'. jin_dict JSON_OBJECT_SEP (acc @ d) p' \<and> jhas_read (BDict (acc @ d)) p p'
           \<and> goes_on json_loop ends p (concat (map (\<lambda>e. '','' @ json_entry e) d)) (Some p')"
  using assms
proof (induction d arbitrary: acc p)
  case Nil
  then show ?case by (auto simp: jin_dict_def jhas_read_def intro!: exI [of _ p] built_self)
next
  case (Cons e d)
  let ?k = "p\<lparr>jp_state := JSON_OBJECT_KEY\<rparr>"
  have less: "key_less k' (fst e)" if "k' \<in> fst ` set acc" for k'
    using Cons.prems(2) that by (auto simp: sorted_wrt_append)
  have k: "jin_dict JSON_OBJECT_KEY acc ?k" "length (jp_stack ?k) = n" using Cons.prems(3, 4) by (simp_all add: jin_dict_def)
  have e: "jentry_readable n e" "list_all (jentry_readable n) d" using Cons.prems(1) by simp_all
  obtain p1 where p1: "jhas_read (BDict (acc @ [e])) ?k p1" "jin_dict JSON_OBJECT_SEP (acc @ [e]) p1"
      "goes_on json_loop ends ?k (json_entry e) (Some p1)"
    using jentry_read [OF e(1) k less] by blast
  have "jgoes p '','' (Some ?k)"
    using Cons.prems(3) by (intro jgoes_char) (simp_all add: json_round_def jin_dict_def next_with_def)
  then have go: "goes_on json_loop ends p ('','' @ json_entry e) (Some p1)" by (rule goes_on_trans [OF _ p1(3)]) simp
  have p1': "jhas_read (BDict (acc @ [e])) p p1" using p1(1) by (simp add: jhas_read_def)
  have len: "length (jp_stack p1) = n" using p1' Cons.prems(4) by (simp add: jhas_read_def)
  have srt: "sorted_wrt key_less (map fst ((acc @ [e]) @ d))" using Cons.prems(2) by simp
  obtain p2 where p2: "jin_dict JSON_OBJECT_SEP ((acc @ [e]) @ d) p2" "jhas_read (BDict ((acc @ [e]) @ d)) p1 p2"
      "goes_on json_loop ends p1 (concat (map (\<lambda>e. '','' @ json_entry e) d)) (Some p2)"
    using Cons.IH [OF e(2) srt p1(2) len] by blast
  have "goes_on json_loop ends p (('','' @ json_entry e) @ concat (map (\<lambda>e. '','' @ json_entry e) d)) (Some p2)"
    by (rule goes_on_trans [OF go p2(3)]) (rule ends_tail)
  then show ?case using p2(1) jhas_read_trans [OF p1' p2(2)] by (intro exI [of _ p2]) simp
qed


lemma jdict_value:
  assumes at: "jat_value p" and entries: "list_all (jentry_readable (length (jp_stack p))) d"
    and srt: "sorted_wrt key_less (map fst d)"
  shows "\<exists>p'. jhas_read (BDict d) p p' \<and> jgoes p (json_encode (BDict d)) (JsonParser_onValueEnd p')"
proof -
  let ?p1 = "p\<lparr>jp_state := JSON_OBJECT_KEY, jp_psm := push_vstate VDict (setCurrentFrameValue (BDict []) (jp_psm p))\<rparr>"
  have first: "json_round p (CHR ''{'') rest = Some (Next ?p1 rest)" for rest
    using json_begin_value [OF at, of DICT_T]
    by (simp add: jround_at_value [OF at] json_value_char_def next_with_def json_begin_def)
  have p1: "jin_dict JSON_OBJECT_KEY [] ?p1"
    using at by (simp add: jin_dict_def jat_value_def push_vstate_def setCurrentFrameValue_def)
  have "\<exists>st p2. st \<in> {JSON_OBJECT_KEY, JSON_OBJECT_SEP} \<and> jin_dict st d p2 \<and> jhas_read (BDict d) ?p1 p2
      \<and> goes_on json_loop ends ?p1 (joined (map json_entry d)) (Some p2)"
  proof (cases d)
    case Nil
    have "jhas_read (BDict d) ?p1 ?p1" using p1 Nil by (auto simp: jhas_read_def jin_dict_def intro!: built_self)
    then show ?thesis using p1 Nil by (intro exI [of _ JSON_OBJECT_KEY] exI [of _ ?p1]) simp
  next
    case (Cons e es)
    have e: "jentry_readable (length (jp_stack ?p1)) e" "list_all (jentry_readable (length (jp_stack ?p1))) es"
      using entries Cons by simp_all
    obtain q where q: "jhas_read (BDict ([] @ [e])) ?p1 q" "jin_dict JSON_OBJECT_SEP ([] @ [e]) q"
        "goes_on json_loop ends ?p1 (json_entry e) (Some q)"
      using jentry_read [OF e(1) p1 refl] by auto
    have len: "length (jp_stack q) = length (jp_stack ?p1)" using q(1) by (simp add: jhas_read_def)
    have "sorted_wrt key_less (map fst (([] @ [e]) @ es))" using srt Cons by simp
    then obtain p2 where p2: "jin_dict JSON_OBJECT_SEP (([] @ [e]) @ es) p2" "jhas_read (BDict (([] @ [e]) @ es)) q p2"
        "goes_on json_loop ends q (concat (map (\<lambda>e. '','' @ json_entry e) es)) (Some p2)"
      using jentries [OF e(2) _ q(2) len] by blast
    have "goes_on json_loop ends ?p1 (json_entry e @ concat (map (\<lambda>e. '','' @ json_entry e) es)) (Some p2)"
      by (rule goes_on_trans [OF q(3) p2(3)]) (rule ends_tail)
    moreover have "joined (map json_entry d) = json_entry e @ concat (map (\<lambda>e. '','' @ json_entry e) es)"
      by (simp add: Cons joined_Cons comp_def)
    ultimately show ?thesis
      using p2(1) jhas_read_trans [OF q(1) p2(2)] Cons by (intro exI [of _ JSON_OBJECT_SEP] exI [of _ p2]) simp
  qed
  then obtain st p2 where p2: "st \<in> {JSON_OBJECT_KEY, JSON_OBJECT_SEP}" "jin_dict st d p2" "jhas_read (BDict d) ?p1 p2"
      "goes_on json_loop ends ?p1 (joined (map json_entry d)) (Some p2)"
    by blast
  have "jgoes p2 ''}'' (JsonParser_onEnd p2)"
    using p2(1, 2) by (intro jgoes_char) (auto simp: json_round_def jin_dict_def)
  then have "jgoes ?p1 (joined (map json_entry d) @ ''}'') (JsonParser_onEnd p2)"
    by (rule goes_on_trans [OF p2(4)]) (simp add: ends_def)
  then have "jgoes p (CHR ''{'' # joined (map json_entry d) @ ''}'') (JsonParser_onEnd p2)"
    using jat_value_running [OF at] by (intro jl.goes_on_step [OF _ first]) simp_all
  moreover have "json_entry = (\<lambda>(k, v). json_string k @ '':'' @ json_encode v)" by (auto simp: json_entry_def)
  ultimately have "jgoes p (json_encode (BDict d)) (Option.bind (json_end p2) JsonParser_onValueEnd)"
    by (simp add: JsonParser_onEnd_def)
  then show ?thesis
    using p2(2, 3) by (elim jvalue_ended)
      (auto simp: jin_dict_def json_end_def machine_endElement_def push_vstate_def setCurrentFrameValue_def jhas_read_def built_def)
qed

subsection \<open>What was printed is read back\<close>

lemma jreadableI:
  assumes "\<And>p. jat_value p \<Longrightarrow> length (jp_stack p) = k
    \<Longrightarrow> \<exists>p'. jhas_read v p p' \<and> goes_on json_loop (suits v) p (json_encode v) (JsonParser_onValueEnd p')"
  shows "jreadable k v"
  using assms by (simp add: jreadable_def)

lemma jreadable_any:
  assumes "\<And>p. jat_value p \<Longrightarrow> length (jp_stack p) = k \<Longrightarrow> \<exists>p'. jhas_read v p p' \<and> jgoes p (json_encode v) (JsonParser_onValueEnd p')"
  shows "jreadable k v"
  using assms goes_on_less [where P = "\<lambda>_. True"] by (fastforce simp: jreadable_def)

lemma jvalue_readable: "jsonable n v \<Longrightarrow> k + n \<le> 50 \<Longrightarrow> jreadable k v"
proof (induction v arbitrary: n k)
  case (BString s)
  then show ?case using jstring_value by (intro jreadable_any) blast
next
  case (BInteger i)
  have "suits (BInteger i) = ends" by (simp add: fun_eq_iff)
  then show ?case using BInteger jnumber_value by (intro jreadableI) simp
next
  case (BBool b)
  then show ?case using jbool_value by (intro jreadable_any) blast
next
  case BNull
  then show ?case using jnull_value by (intro jreadable_any) blast
next
  case (BList vs)
  have all: "list_all (jreadable (Suc k)) vs"
    unfolding list_all_iff
  proof
    fix v assume v: "v \<in> set vs"
    then have n: "n > 0" "jsonable (n - 1) v" using BList.prems(1) by (simp_all add: list_all_iff)
    show "jreadable (Suc k) v" using BList.IH [OF v n(2)] n(1) BList.prems(2) by simp
  qed
  have "k < 50 \<or> vs = []" using BList.prems by (cases vs) auto
  then show ?case using jlist_value all by (intro jreadable_any) blast
next
  case (BDict d)
  have all: "list_all (jentry_readable k) d"
    unfolding list_all_iff jentry_readable_def
  proof (intro ballI conjI)
    fix e assume e: "e \<in> set d"
    then have n: "n > 0" "fst e \<noteq> []" "jsonable (n - 1) (snd e)" using BDict.prems(1) by (auto simp: list_all_iff)
    show "k < 50" "fst e \<noteq> []" using n(1, 2) BDict.prems(2) by simp_all
    have "snd e \<in> Basic_BNFs.snds e" by (cases e) simp
    then show "jreadable (Suc k) (snd e)" using BDict.IH [OF e _ n(3)] n(1) BDict.prems(2) by simp
  qed
  have srt: "sorted_wrt key_less (map fst d)" using BDict.prems(1) by simp
  show ?case by (intro jreadable_any jdict_value) (use all srt in simp_all)
qed

lemma new_json_at: "jat_value ValueBaseJsonParser_new"
  by (simp add: ValueBaseJsonParser_new_def JsonParser_new_def value_machine_new_def jat_value_def)

lemma loop_of_json:
  assumes "jsonable 49 v" "suits v rest"
  shows "\<exists>p. json_loop ValueBaseJsonParser_new (json_encode v @ rest) 0 = Some (p, int (length (json_encode v)))
           \<and> jp_state p = JSON_FINISH \<and> sf_value (vm_frame (jp_psm p)) = Some v"
proof -
  let ?p = ValueBaseJsonParser_new
  have new: "jp_stack ?p = [JSON_FINISH]"
    by (simp add: ValueBaseJsonParser_new_def JsonParser_new_def)
  have "jreadable 1 v" using jvalue_readable [OF assms(1)] by simp
  then obtain p' where p': "jhas_read v ?p p'" "goes_on json_loop (suits v) ?p (json_encode v) (JsonParser_onValueEnd p')"
    using new_json_at new unfolding jreadable_def by force
  let ?q = "p'\<lparr>jp_state := JSON_FINISH\<rparr>"
  have "JsonParser_onValueEnd p' = Some ?q"
    using p'(1) new by (simp add: jhas_read_def JsonParser_onValueEnd_def)
  then have "json_loop ?p (json_encode v @ rest) 0 = json_loop ?q rest (length (json_encode v))"
    using p'(2) assms(2) by (simp add: goes_on_def)
  also have "\<dots> = Some (?q, int (length (json_encode v)))" by (simp add: jl.loop_finished)
  finally show ?thesis using p'(1) by (auto simp: jhas_read_def built_def)
qed

text \<open>C32: a value that \<open>encode\<close> printed is read back, and the parser stops exactly at its end. The values are those of
  \<open>jsonable 49\<close>: strings, booleans, null, integers whose absolute value is at most \<open>INT64_MAX\<close>, lists, and dicts with their keys in
  order and no empty key (the parser drops a member with an empty name, \<open>Json_Requests.empty_key_dropped\<close>), nested at most 49 deep.
  If the whole value is a number, a comma or a closing bracket or brace must follow it (\<open>suits\<close>): the parser ends a
  number only when it sees a character behind it.\<close>

theorem json_roundtrip:
  assumes "jsonable 49 v" "suits v rest"
  shows "map_option (\<lambda>(p, res, err). (res, err)) (ValueBaseJsonParser_parseFinal ValueBaseJsonParser_new (json_encode v @ rest))
       = Some (Some v, int (length (json_encode v)))"
proof -
  obtain p where p: "json_loop ValueBaseJsonParser_new (json_encode v @ rest) 0 = Some (p, int (length (json_encode v)))"
    "jp_state p = JSON_FINISH" "sf_value (vm_frame (jp_psm p)) = Some v"
    using loop_of_json [OF assms] by blast
  have "jp_state ValueBaseJsonParser_new = JSON_VALUE"
    by (simp add: ValueBaseJsonParser_new_def JsonParser_new_def)
  then show ?thesis
    using p by (simp add: ValueBaseJsonParser_parseFinal_def GenericParser_parseFinal_def JsonParser_parseFinal_def
        JsonParser_parseUpdate_def JsonParser_getResult_def machine_getResult_def Let_def)
qed

lemma json_sample:
  "json_encode (BDict [(''a'', BList [BInteger (-70), BBool True, BNull]), (''b/'', BString [CHR 0x0A, CHR 0x01])])
     = ''{'' @ [CHR 0x22, CHR ''a'', CHR 0x22] @ '':[-70,true,null],'' @ [CHR 0x22] @ ''b'' @ [CHR 0x5C, CHR ''/'', CHR 0x22] @ '':''
       @ [CHR 0x22, CHR 0x5C, CHR ''n'', CHR 0x5C] @ ''u0001'' @ [CHR 0x22] @ ''}''"
  by (simp add: json_string_def jsonEscape_def json_escape_char_def hex_upper_def print_int_def print_nat.simps char_of_def bit_Suc_0_iff)

theorem json_roundtrip_witness:
  "map_option (\<lambda>(p, res, err). (res, err)) (ValueBaseJsonParser_parseFinal ValueBaseJsonParser_new
     ((''{'' @ [CHR 0x22, CHR ''a'', CHR 0x22] @ '':[-70,true,null],'' @ [CHR 0x22] @ ''b'' @ [CHR 0x5C, CHR ''/'', CHR 0x22] @ '':''
       @ [CHR 0x22, CHR 0x5C, CHR ''n'', CHR 0x5C] @ ''u0001'' @ [CHR 0x22] @ ''}'') @ ''x''))
   = Some (Some (BDict [(''a'', BList [BInteger (-70), BBool True, BNull]), (''b/'', BString [CHR 0x0A, CHR 0x01])]), 38)"
  using json_roundtrip [of "BDict [(''a'', BList [BInteger (-70), BBool True, BNull]), (''b/'', BString [CHR 0x0A, CHR 0x01])]" "''x''",
      unfolded json_sample]
  by (simp add: INT64_MAX_def)

end
