(* ===== verification/Json_Runs.thy ===== *)
theory Json_Runs
  imports Json
begin

text \<open>
  Runs of the JSON parser over data that comes in pieces, and the WebSocket session that feeds it
  (\<open>WebSocketSession.cc\<close>): no input makes an assertion fail; how a message is cut does not matter as long as it does
  not nest too deep and stays within the limit on its size.
\<close>

subsection \<open>The two stacks and the frames belong together\<close>

abbreviation "jopen_values \<equiv> open_values JSON_FINISH JSON_ARRAY JSON_OBJECT_VAL"
abbreviation "jopen_key \<equiv> open_key JSON_FINISH JSON_ARRAY JSON_OBJECT_VAL JSON_OBJECT_KEY"

definition jvalue_due :: "jparser \<Rightarrow> bool" where
  "jvalue_due p \<longleftrightarrow> length (jp_stack p) \<le> 50 \<and> jopen_values (jp_stack p) (vm_states (jp_psm p)) (vm_frames (jp_psm p))"

definition jwithin :: "vstate \<Rightarrow> jparser \<Rightarrow> bool" where
  "jwithin s p \<longleftrightarrow> length (jp_stack p) \<le> 50
     \<and> (\<exists>ss. vm_states (jp_psm p) = s # ss \<and> jopen_values (jp_stack p) ss (vm_frames (jp_psm p)))"

definition jin_string :: "jparser \<Rightarrow> bool" where
  "jin_string p \<longleftrightarrow> jwithin VString p
     \<or> (\<exists>ss. vm_states (jp_psm p) = VDictKey # ss \<and> jopen_key (jp_stack p) ss (vm_frames (jp_psm p)))"

definition jcolon_due :: "jparser \<Rightarrow> bool" where
  "jcolon_due p \<longleftrightarrow> length (jp_stack p) < 50
     \<and> (\<exists>ss f fs d. vm_states (jp_psm p) = VDict # ss \<and> vm_frames (jp_psm p) = f # fs \<and> sf_value f = Some (BDict d)
          \<and> jopen_values (jp_stack p) ss fs)"

definition jlist_frame :: "jparser \<Rightarrow> bool" where
  "jlist_frame p \<longleftrightarrow> jwithin VArray p \<and> (\<exists>vs. sf_value (vm_frame (jp_psm p)) = Some (BList vs))"

definition jdict_frame :: "jparser \<Rightarrow> bool" where
  "jdict_frame p \<longleftrightarrow> jwithin VDict p \<and> (\<exists>d. sf_value (vm_frame (jp_psm p)) = Some (BDict d))"

definition json_ok :: "jparser \<Rightarrow> bool" where
  "json_ok p \<longleftrightarrow>
     (case jp_state p of
        JSON_FINISH \<Rightarrow> True
      | JSON_ERROR \<Rightarrow> (\<exists>e. jp_lastError p = json_err e)
      | JSON_VALUE \<Rightarrow> jvalue_due p
      | JSON_ARRAY \<Rightarrow> jlist_frame p
      | JSON_ARRAY_SEP \<Rightarrow> jlist_frame p \<and> length (jp_stack p) < 50
      | JSON_OBJECT_KEY \<Rightarrow> jdict_frame p
      | JSON_OBJECT_SEP \<Rightarrow> jdict_frame p
      | JSON_OBJECT_VAL \<Rightarrow> jcolon_due p
      | JSON_NUMBER \<Rightarrow> jwithin VNumber p
      | JSON_NUMBER_FRAC \<Rightarrow> jwithin VNumber p
      | JSON_NUMBER_EXP_SIGN \<Rightarrow> jwithin VNumber p
      | JSON_NUMBER_EXP \<Rightarrow> jwithin VNumber p
      | JSON_TRUE \<Rightarrow> jwithin VBool p \<and> jp_consumed p < 4
      | JSON_FALSE \<Rightarrow> jwithin VBool p \<and> jp_consumed p < 5
      | JSON_NULL \<Rightarrow> jwithin VNull p \<and> jp_consumed p < 4
      | _ \<Rightarrow> jin_string p)"

fun jround_ok :: "jparser round \<Rightarrow> bool" where
  "jround_ok (Next p rest) \<longleftrightarrow> json_ok p"
| "jround_ok (Return p err) \<longleftrightarrow> json_ok p \<and> (\<exists>e. err = json_err e)"

definition jresult_ok :: "jparser option \<Rightarrow> bool" where
  "jresult_ok r \<longleftrightarrow> (\<exists>p. r = Some p \<and> json_ok p)"

definition jsome_ok :: "jparser round option \<Rightarrow> bool" where
  "jsome_ok r \<longleftrightarrow> (\<exists>x. r = Some x \<and> jround_ok x)"

subsection \<open>The ends of values\<close>

lemma jvalue_end_ok:
  assumes "jvalue_due p"
  shows "jresult_ok (JsonParser_onValueEnd p)"
proof -
  have "jopen_values (jp_stack p) (vm_states (jp_psm p)) (vm_frames (jp_psm p))" and len: "length (jp_stack p) \<le> 50"
    using assms by (simp_all add: jvalue_due_def)
  then show ?thesis
  proof (cases rule: open_values.cases)
    case base
    then show ?thesis by (simp add: jresult_ok_def JsonParser_onValueEnd_def json_ok_def)
  next
    case (element st ss fs f vs)
    then show ?thesis using len
      by (simp add: jresult_ok_def JsonParser_onValueEnd_def json_end_def machine_endElement_def Controller_popArrayFrame_def
          Let_def json_ok_def jwithin_def jlist_frame_def)
  next
    case (entry st ss fs f d)
    then show ?thesis using len
      by (simp add: jresult_ok_def JsonParser_onValueEnd_def json_end_def machine_endElement_def Controller_popStructFrame_def
          Let_def json_ok_def jwithin_def jdict_frame_def)
  qed
qed

lemma jelement_end_ok:
  assumes "jwithin s p" "s \<in> {VString, VNumber, VArray, VDict, VBool, VNull}"
  shows "jresult_ok (JsonParser_onEnd p)"
proof -
  obtain ss where ss: "vm_states (jp_psm p) = s # ss" "jopen_values (jp_stack p) ss (vm_frames (jp_psm p))" "length (jp_stack p) \<le> 50"
    using assms(1) by (auto simp: jwithin_def)
  obtain q where "json_end p = Some q" "jvalue_due q"
    using ss assms(2) by (auto simp: json_end_def machine_endElement_def setCurrentFrameValue_def jvalue_due_def)
  then show ?thesis using jvalue_end_ok by (simp add: JsonParser_onEnd_def)
qed

lemma jstring_end_ok:
  assumes "jin_string p"
  shows "jresult_ok (JsonParser_onEnd p)"
proof -
  have "jresult_ok (JsonParser_onEnd p)"
    if k: "vm_states (jp_psm p) = VDictKey # ss" "jopen_key (jp_stack p) ss (vm_frames (jp_psm p))" for ss
    using k by (auto simp: JsonParser_onEnd_def json_end_def machine_endElement_def open_key_def JsonParser_onValueEnd_def
        jresult_ok_def json_ok_def jcolon_due_def)
  then show ?thesis using assms jelement_end_ok [of VString p] by (auto simp: jin_string_def)
qed

lemma jnumber_end_ok: "jwithin VNumber p \<Longrightarrow> jresult_ok (JsonParser_onNumberEnd p)"
  unfolding JsonParser_onNumberEnd_def
  by (rule jelement_end_ok [of VNumber]) (auto simp: jwithin_def machine_number_def)

lemma jnext_with_ok: "jresult_ok r \<Longrightarrow> jsome_ok (next_with r rest)"
  by (auto simp: jresult_ok_def next_with_def jsome_ok_def)

lemma jfail_ok [simp]: "jround_ok (json_fail p err)"
  by (auto simp: json_fail_def json_ok_def)

lemma jsome_simps [simp]:
  "jsome_ok (Some x) \<longleftrightarrow> jround_ok x"
  "\<not> jsome_ok None"
  by (auto simp: jsome_ok_def)

lemma jsome_if: "(b \<Longrightarrow> jsome_ok x) \<Longrightarrow> (\<not> b \<Longrightarrow> jsome_ok y) \<Longrightarrow> jsome_ok (if b then x else y)"
  by simp

subsection \<open>The rounds of the loop\<close>

lemma jvalue_char_ok:
  assumes "jvalue_due p" "jp_state p = JSON_VALUE"
  shows "jsome_ok (json_value_char p c rest)"
proof -
  have "jopen_values (jp_stack p) (vm_states (jp_psm p)) (vm_frames (jp_psm p))" using assms(1) by (simp add: jvalue_due_def)
  then obtain s ss where s: "vm_states (jp_psm p) = s # ss" "s \<in> {VValue, VDictData, VArrayData}"
    by (cases rule: open_values.cases) simp_all
  have m: "machine_beginElement el (jp_psm p) = value_beginElement el (jp_psm p)" for el
    using s by (simp add: machine_beginElement_def)
  note defs = json_begin_def m next_with_def json_ok_def jwithin_def push_vstate_def
  have o: "length (jp_stack p) \<le> 50" "jopen_values (jp_stack p) (vm_states (jp_psm p)) (vm_frames (jp_psm p))"
    using assms(1) by (simp_all add: jvalue_due_def)
  have ok: "json_ok p" using assms by (simp add: json_ok_def)
  have d: "jsome_ok (next_with (json_begin DICT_T (p\<lparr>jp_state := JSON_OBJECT_KEY\<rparr>)) rest)"
    using o by (simp add: defs jdict_frame_def setCurrentFrameValue_def)
  have l: "jsome_ok (next_with (json_begin ARRAY_T (p\<lparr>jp_state := JSON_ARRAY\<rparr>)) rest)"
    using o by (simp add: defs jlist_frame_def setCurrentFrameValue_def)
  have t: "jsome_ok (next_with (json_begin STRING_T (p\<lparr>jp_state := JSON_STRING\<rparr>)) rest)"
    using o by (simp add: defs jin_string_def)
  have i: "jsome_ok (next_with (json_begin NUMBER_T (p\<lparr>jp_number := x, jp_sign := y, jp_consumed := z, jp_state := JSON_NUMBER\<rparr>)) rest)" for x y z
    using o by (simp add: defs)
  have b: "jsome_ok (next_with (json_begin BOOL_T (p\<lparr>jp_consumed := 1, jp_state := JSON_TRUE\<rparr>)) rest)"
    "jsome_ok (next_with (json_begin BOOL_T (p\<lparr>jp_consumed := 1, jp_state := JSON_FALSE\<rparr>)) rest)"
    using o by (simp_all add: defs)
  have n: "jsome_ok (next_with (json_begin NULL_T (p\<lparr>jp_consumed := 1, jp_state := JSON_NULL\<rparr>)) rest)"
    using o by (simp add: defs)
  show ?thesis
    unfolding json_value_char_def by (intro jsome_if d l t i b n) (simp_all add: ok)
qed

lemma jnumber_ok:
  assumes "jwithin VNumber p" "jp_state p = JSON_NUMBER"
  shows "jsome_ok (json_number p data)"
proof (cases "read_digits (jp_number p) 0 data")
  case (Inr r)
  obtain n k rest where r: "r = (n, k, rest)" by (cases r)
  let ?p1 = "p\<lparr>jp_number := n, jp_consumed := jp_consumed p + k\<rparr>"
  have w: "jwithin VNumber ?p1" using assms(1) by (simp add: jwithin_def)
  show ?thesis
    using jnext_with_ok [OF jnumber_end_ok [OF w]] w assms(2)
    by (cases rest) (simp_all add: json_number_def Inr r Let_def json_ok_def jwithin_def)
qed (simp add: json_number_def)

lemma jfrac_ok:
  assumes "jwithin VNumber p" "jp_state p = JSON_NUMBER_FRAC"
  shows "jsome_ok (json_frac p data)"
proof -
  obtain n k rest where r: "read_frac (jp_frac p) 0 data = (n, k, rest)" by (cases "read_frac (jp_frac p) 0 data")
  let ?p1 = "p\<lparr>jp_frac := n, jp_consumed := jp_consumed p + k\<rparr>"
  have w: "jwithin VNumber ?p1" using assms(1) by (simp add: jwithin_def)
  show ?thesis
    using jnext_with_ok [OF jnumber_end_ok [OF w]] w assms(2)
    by (cases rest) (simp_all add: json_frac_def r Let_def json_ok_def jwithin_def)
qed

lemma jexp_ok:
  assumes "jwithin VNumber p" "jp_state p = JSON_NUMBER_EXP"
  shows "jsome_ok (json_exp p data)"
proof (cases "read_exp (jp_exp p) 0 data")
  case (Inr r)
  obtain n k rest where r: "r = (n, k, rest)" by (cases r)
  let ?p1 = "p\<lparr>jp_exp := n, jp_consumed := jp_consumed p + k\<rparr>"
  have w: "jwithin VNumber ?p1" using assms(1) by (simp add: jwithin_def)
  show ?thesis
    using jnext_with_ok [OF jnumber_end_ok [OF w]] w assms(2)
    by (cases rest) (simp_all add: json_exp_def Inr r Let_def json_ok_def jwithin_def)
qed (simp add: json_exp_def)

lemma jliteral_ok:
  assumes "jwithin s p" "s \<in> {VBool, VNull}" "jp_consumed p < length lit"
    and "\<And>q. jwithin s q \<Longrightarrow> jwithin s (tell q)"
    and "\<And>q. jwithin s q \<Longrightarrow> jp_state q = jp_state p \<Longrightarrow> jp_consumed q < length lit \<Longrightarrow> json_ok q"
  shows "jsome_ok (json_literal lit tell p c rest)"
proof -
  let ?p1 = "p\<lparr>jp_consumed := jp_consumed p + 1\<rparr>"
  have w: "jwithin s ?p1" using assms(1) by (simp add: jwithin_def)
  have "s \<in> {VString, VNumber, VArray, VDict, VBool, VNull}" using assms(2) by auto
  then have "jresult_ok (JsonParser_onEnd (tell ?p1))" using jelement_end_ok assms(4) [OF w] by blast
  then have "jsome_ok (next_with (JsonParser_onEnd (tell ?p1)) rest)" by (rule jnext_with_ok)
  moreover have "json_ok ?p1" if "jp_consumed p + 1 < length lit" using assms(5) w that by simp
  ultimately show ?thesis using assms(3) by (cases "jp_consumed p + 1 = length lit") (simp_all add: json_literal_def Let_def)
qed

lemma jlist_ok:
  assumes "jlist_frame p" "length (jp_stack p) < 50"
  shows "\<exists>q. json_begin ARRAY_DATA_T ((p\<lparr>jp_stack := JSON_ARRAY # jp_stack p, jp_state := JSON_VALUE\<rparr>)) = Some q \<and> jvalue_due q \<and> jp_state q = JSON_VALUE"
proof -
  obtain ss vs where ss: "vm_states (jp_psm p) = VArray # ss" "jopen_values (jp_stack p) ss (vm_frames (jp_psm p))"
      "sf_value (vm_frame (jp_psm p)) = Some (BList vs)"
    using assms(1) by (auto simp: jlist_frame_def jwithin_def)
  then show ?thesis
    using open_values.element [OF ss(2, 3)] assms(2)
    by (simp add: json_begin_def machine_beginElement_def push_vstate_def Controller_pushFrame_def jvalue_due_def)
qed

lemma jarray_ok:
  assumes "jlist_frame p" "jp_state p = JSON_ARRAY"
  shows "jsome_ok (json_round p c rest)"
proof -
  have w: "jwithin VArray p" using assms(1) by (simp add: jlist_frame_def)
  have ok: "json_ok p" using assms by (simp add: json_ok_def)
  have e: "jresult_ok (JsonParser_onEnd p)" using jelement_end_ok [OF w] by simp
  show ?thesis
  proof (cases "length (jp_stack p) < 50")
    case True
    obtain q where "json_begin ARRAY_DATA_T ((p\<lparr>jp_stack := JSON_ARRAY # jp_stack p, jp_state := JSON_VALUE\<rparr>)) = Some q"
        "jvalue_due q" "jp_state q = JSON_VALUE"
      using jlist_ok [OF assms(1) True] by blast
    then show ?thesis
      using True ok jnext_with_ok [OF e] jvalue_char_ok assms(2) by (simp add: json_round_def JsonParser_pushState_def)
  next
    case False
    then show ?thesis using ok jnext_with_ok [OF e] assms(2) by (simp add: json_round_def JsonParser_pushState_def del: json_err.simps) blast
  qed
qed

lemma jarray_sep_ok:
  assumes "jlist_frame p" "length (jp_stack p) < 50" "jp_state p = JSON_ARRAY_SEP"
  shows "jsome_ok (json_round p c rest)"
proof -
  have w: "jwithin VArray p" using assms(1) by (simp add: jlist_frame_def)
  have ok: "json_ok p" using assms by (simp add: json_ok_def)
  have e: "jresult_ok (JsonParser_onEnd p)" using jelement_end_ok [OF w] by simp
  obtain q where "json_begin ARRAY_DATA_T ((p\<lparr>jp_stack := JSON_ARRAY # jp_stack p, jp_state := JSON_VALUE\<rparr>)) = Some q"
      "jvalue_due q" "jp_state q = JSON_VALUE"
    using jlist_ok [OF assms(1, 2)] by blast
  then show ?thesis
    using assms(2, 3) ok jnext_with_ok [OF e]
    by (simp add: json_round_def json_push_def JsonParser_pushState_def next_with_def json_ok_def)
qed

lemma jcolon_ok:
  assumes "jcolon_due p" "jp_state p = JSON_OBJECT_VAL"
  shows "jsome_ok (json_round p c rest)"
proof -
  obtain ss f fs d where ss: "vm_states (jp_psm p) = VDict # ss" "vm_frames (jp_psm p) = f # fs" "sf_value f = Some (BDict d)"
      "jopen_values (jp_stack p) ss fs" "length (jp_stack p) < 50"
    using assms(1) by (auto simp: jcolon_due_def)
  have ok: "json_ok p" using assms by (simp add: json_ok_def)
  show ?thesis
    using ss ok open_values.entry [OF ss(4, 3)] assms(2)
    by (simp add: json_round_def json_push_def JsonParser_pushState_def next_with_def json_begin_def machine_beginElement_def
        push_vstate_def json_ok_def jvalue_due_def)
qed

lemma jkey_ok:
  assumes "jdict_frame p" "jp_state p = JSON_OBJECT_KEY"
  shows "jsome_ok (json_round p c rest)"
proof -
  have w: "jwithin VDict p" using assms(1) by (simp add: jdict_frame_def)
  have ok: "json_ok p" using assms by (simp add: json_ok_def)
  have e: "jresult_ok (JsonParser_onEnd p)" using jelement_end_ok [OF w] by simp
  obtain ss d where ss: "vm_states (jp_psm p) = VDict # ss" "jopen_values (jp_stack p) ss (vm_frames (jp_psm p))"
      "sf_value (vm_frame (jp_psm p)) = Some (BDict d)"
    using assms(1) by (auto simp: jdict_frame_def jwithin_def)
  have key: "jsome_ok (next_with (json_begin DICT_KEY_T (p\<lparr>jp_stack := JSON_OBJECT_KEY # jp_stack p, jp_state := JSON_STRING\<rparr>)) rest)"
    if "length (jp_stack p) < 50"
    using ss that by (simp add: next_with_def json_begin_def machine_beginElement_def push_vstate_def Controller_pushFrame_def
        json_ok_def jin_string_def open_key_def)
  show ?thesis
    using key ok jnext_with_ok [OF e] assms(2)
    by (cases "length (jp_stack p) < 50") (simp_all add: json_round_def JsonParser_pushState_def del: json_err.simps, blast)
qed

lemma jsep_ok:
  assumes "jdict_frame p" "jp_state p = JSON_OBJECT_SEP"
  shows "jsome_ok (json_round p c rest)"
proof -
  have w: "jwithin VDict p" using assms(1) by (simp add: jdict_frame_def)
  have e: "jresult_ok (JsonParser_onEnd p)" using jelement_end_ok [OF w] by simp
  have "json_ok p" "json_ok (p\<lparr>jp_state := JSON_OBJECT_KEY\<rparr>)"
    using assms by (simp_all add: json_ok_def jdict_frame_def jwithin_def)
  then show ?thesis using jnext_with_ok [OF e] assms(2) by (simp add: json_round_def)
qed

text \<open>Within a string only the stacks count.\<close>

lemma json_ok_in_string:
  "jp_state q \<in> {JSON_STRING, JSON_STRING_ESCAPE, JSON_STRING_UNICODE, JSON_STRING_LOW_SURROGATE_ESCAPE,
      JSON_STRING_LOW_SURROGATE_U, JSON_STRING_LOW_SURROGATE} \<Longrightarrow> json_ok q \<longleftrightarrow> jin_string q"
  by (auto simp: json_ok_def)

lemma jin_string_cong:
  "jp_stack q = jp_stack p \<Longrightarrow> vm_states (jp_psm q) = vm_states (jp_psm p) \<Longrightarrow> vm_frames (jp_psm q) = vm_frames (jp_psm p)
   \<Longrightarrow> jin_string q = jin_string p"
  by (simp add: jin_string_def jwithin_def)

lemma jin_string_state [simp]:
  "jin_string (p\<lparr>jp_state := st\<rparr>) = jin_string p"
  "jin_string (p\<lparr>jp_codepoint := x\<rparr>) = jin_string p"
  "jin_string (p\<lparr>jp_codepoint2 := x\<rparr>) = jin_string p"
  "jin_string (p\<lparr>jp_consumed := k\<rparr>) = jin_string p"
  "jin_string (json_chars t p) = jin_string p"
  by (rule jin_string_cong; simp add: json_chars_def machine_characters_def)+

lemma jstring_ok:
  assumes "jin_string p" "jp_state p \<in> {JSON_STRING, JSON_STRING_ESCAPE, JSON_STRING_UNICODE, JSON_STRING_LOW_SURROGATE_ESCAPE,
    JSON_STRING_LOW_SURROGATE_U, JSON_STRING_LOW_SURROGATE}"
  shows "jsome_ok (json_round p c rest)"
proof -
  have end_ok: "jsome_ok (next_with (JsonParser_onEnd p) rest)" by (rule jnext_with_ok [OF jstring_end_ok [OF assms(1)]])
  have chars: "jp_state (json_chars t p) = jp_state p" for t by (simp add: json_chars_def)
  have u: "json_ok (JsonParser_consumeUnicode c p)" if "jp_state p = JSON_STRING_UNICODE"
    using that assms(1) by (simp add: JsonParser_consumeUnicode_def Let_def json_ok_in_string)
  have l: "json_ok q" if "jp_state p = JSON_STRING_LOW_SURROGATE" "JsonParser_consumeLowSurrogate c p = Inr q" for q
    using that assms(1) by (auto simp: JsonParser_consumeLowSurrogate_def Let_def json_ok_in_string split: if_splits)
  from assms(2) show ?thesis
  proof (elim insertE emptyE)
    assume "jp_state p = JSON_STRING"
    then show ?thesis using end_ok assms(1) by (simp add: json_round_def json_ok_in_string chars)
  next
    assume "jp_state p = JSON_STRING_ESCAPE"
    then show ?thesis using assms(1) by (simp add: json_round_def json_ok_in_string)
  next
    assume "jp_state p = JSON_STRING_UNICODE"
    then show ?thesis using u by (simp add: json_round_def)
  next
    assume "jp_state p = JSON_STRING_LOW_SURROGATE_ESCAPE"
    then show ?thesis using assms(1) by (simp add: json_round_def json_ok_in_string)
  next
    assume "jp_state p = JSON_STRING_LOW_SURROGATE_U"
    then show ?thesis using assms(1) by (simp add: json_round_def json_ok_in_string)
  next
    assume "jp_state p = JSON_STRING_LOW_SURROGATE"
    then show ?thesis using l by (simp add: json_round_def split: sum.split)
  qed
qed

lemma json_round_ok:
  assumes "json_ok p"
  shows "jsome_ok (json_round p c rest)"
proof (cases "jp_state p")
  case JSON_VALUE
  then show ?thesis using jvalue_char_ok [of p c rest] assms by (simp add: json_round_def json_ok_def)
next
  case JSON_ARRAY
  then show ?thesis using jarray_ok assms by (simp add: json_ok_def)
next
  case JSON_ARRAY_SEP
  then show ?thesis using jarray_sep_ok assms by (simp add: json_ok_def)
next
  case JSON_OBJECT_KEY
  then show ?thesis using jkey_ok assms by (simp add: json_ok_def)
next
  case JSON_OBJECT_SEP
  then show ?thesis using jsep_ok assms by (simp add: json_ok_def)
next
  case JSON_OBJECT_VAL
  then show ?thesis using jcolon_ok assms by (simp add: json_ok_def)
next
  case JSON_NUMBER
  then show ?thesis using jnumber_ok assms by (simp add: json_round_def json_ok_def)
next
  case JSON_NUMBER_FRAC
  then show ?thesis using jfrac_ok assms by (simp add: json_round_def json_ok_def)
next
  case JSON_NUMBER_EXP
  then show ?thesis using jexp_ok assms by (simp add: json_round_def json_ok_def)
next
  case JSON_NUMBER_EXP_SIGN
  then have w: "jwithin VNumber p" using assms by (simp add: json_ok_def)
  then have "jsome_ok (json_exp (p\<lparr>jp_state := JSON_NUMBER_EXP\<rparr>) (c # rest))" by (intro jexp_ok) (simp_all add: jwithin_def)
  then show ?thesis using w JSON_NUMBER_EXP_SIGN by (simp add: json_round_def json_ok_def jwithin_def)
next
  case JSON_TRUE
  then show ?thesis using assms
    by (simp add: json_round_def) (rule jliteral_ok [of VBool], auto simp: json_ok_def jwithin_def machine_bool_def)
next
  case JSON_FALSE
  then show ?thesis using assms
    by (simp add: json_round_def) (rule jliteral_ok [of VBool], auto simp: json_ok_def jwithin_def machine_bool_def)
next
  case JSON_NULL
  then show ?thesis using assms
    by (simp add: json_round_def) (rule jliteral_ok [of VNull], auto simp: json_ok_def jwithin_def)
qed (use assms jstring_ok in \<open>simp_all add: json_ok_def\<close>, simp_all add: json_round_def json_ok_def)


subsection \<open>Where the data is cut does not matter\<close>

abbreviation "jsplits \<equiv> splits_at json_round (\<lambda>p. jp_state p = JSON_FINISH)"

lemma jnumber_splits:
  assumes "jp_state p = JSON_NUMBER"
  shows "jsplits (json_number p) a b"
proof (cases "read_digits (jp_number p) 0 a")
  case (Inl n)
  then show ?thesis by (simp add: splits_at_def json_number_def read_digits_append json_fail_def)
next
  case (Inr r)
  obtain n k rest where r: "r = (n, k, rest)" by (cases r)
  show ?thesis
  proof (cases rest)
    case Nil
    let ?p1 = "p\<lparr>jp_number := n, jp_consumed := jp_consumed p + k\<rparr>"
    have ab: "read_digits (jp_number p) 0 (a @ b) = map_sum id (\<lambda>(a, i, r). (a, i + k, r)) (read_digits n 0 b)"
      using Inr r Nil read_digits_from [of n k b] by (simp add: read_digits_append)
    have "same_round (json_number p (a @ b)) (json_number ?p1 b)"
    proof (cases "read_digits n 0 b")
      case (Inl n')
      then show ?thesis by (simp add: json_number_def ab same_round_def json_fail_def)
    next
      case (Inr r')
      obtain n' k' rest' where r': "r' = (n', k', rest')" by (cases r')
      have k': "jp_consumed p + (k' + k) = jp_consumed p + k + k'" by simp
      have "json_number p (a @ b) = json_number ?p1 b"
        by (simp add: json_number_def ab Inr r' k' conj_comms cong: list.case_cong)
      then show ?thesis by (simp add: same_round_def)
    qed
    moreover have "json_round ?p1 (hd b) (tl b) = json_number ?p1 b" if "b \<noteq> []"
      using that assms by (simp add: json_round_def)
    moreover have "json_number p a = Some (Next ?p1 [])" by (simp add: json_number_def Inr r Nil Let_def)
    ultimately show ?thesis using assms by (auto simp: splits_at_def)
  next
    case (Cons c cs)
    then show ?thesis
      using Inr r Cons
      by (intro splits_extend) (simp add: json_number_def read_digits_append Let_def json_fail_def next_with_extend_Cons)
  qed
qed

lemma read_frac_append:
  "read_frac f k (a @ b) = (case read_frac f k a of (f', k', rest) \<Rightarrow> if rest = [] then read_frac f' k' b else (f', k', rest @ b))"
  by (induction f k a rule: read_frac.induct) auto

lemma read_frac_add: "read_frac f (k + j) cs = (case read_frac f k cs of (a, i, r) \<Rightarrow> (a, i + j, r))"
proof (induction f k cs rule: read_frac.induct)
  case (2 f k c cs)
  then show ?case by simp
qed simp

lemma jfrac_splits:
  assumes "jp_state p = JSON_NUMBER_FRAC"
  shows "jsplits (json_frac p) a b"
proof -
  obtain f k rest where r: "read_frac (jp_frac p) 0 a = (f, k, rest)" by (cases "read_frac (jp_frac p) 0 a")
  show ?thesis
  proof (cases rest)
    case Nil
    let ?p1 = "p\<lparr>jp_frac := f, jp_consumed := jp_consumed p + k\<rparr>"
    obtain f' k' rest' where r': "read_frac f 0 b = (f', k', rest')" by (cases "read_frac f 0 b")
    have ab: "read_frac (jp_frac p) 0 (a @ b) = (f', k' + k, rest')"
      using r Nil r' read_frac_add [of f 0 k b] by (simp add: read_frac_append)
    have k': "jp_consumed p + (k' + k) = jp_consumed p + k + k'" by simp
    have "json_frac p (a @ b) = json_frac ?p1 b"
      by (simp add: json_frac_def ab r' k' conj_comms cong: list.case_cong)
    then have "same_round (json_frac p (a @ b)) (json_frac ?p1 b)" by (simp add: same_round_def)
    moreover have "json_round ?p1 (hd b) (tl b) = json_frac ?p1 b" if "b \<noteq> []"
      using that assms by (simp add: json_round_def)
    moreover have "json_frac p a = Some (Next ?p1 [])" by (simp add: json_frac_def r Nil Let_def)
    ultimately show ?thesis using assms by (auto simp: splits_at_def)
  next
    case (Cons c cs)
    then show ?thesis
      using r
      by (intro splits_extend) (simp add: json_frac_def read_frac_append Let_def json_fail_def next_with_extend_Cons)
  qed
qed

lemma read_exp_append:
  "read_exp e k (a @ b) =
     (case read_exp e k a of
        Inl e' \<Rightarrow> Inl e'
      | Inr (e', k', rest) \<Rightarrow> if rest = [] then read_exp e' k' b else Inr (e', k', rest @ b))"
  by (induction e k a rule: read_exp.induct) (auto simp: Let_def)

lemma read_exp_add: "read_exp e (k + j) cs = map_sum id (\<lambda>(a, i, r). (a, i + j, r)) (read_exp e k cs)"
proof (induction e k cs rule: read_exp.induct)
  case (2 e k c cs)
  then show ?case by (simp add: Let_def)
qed simp

lemma jexp_splits:
  assumes "jp_state p = JSON_NUMBER_EXP"
  shows "jsplits (json_exp p) a b"
proof (cases "read_exp (jp_exp p) 0 a")
  case (Inl n)
  then show ?thesis by (simp add: splits_at_def json_exp_def read_exp_append json_fail_def)
next
  case (Inr r)
  obtain n k rest where r: "r = (n, k, rest)" by (cases r)
  show ?thesis
  proof (cases rest)
    case Nil
    let ?p1 = "p\<lparr>jp_exp := n, jp_consumed := jp_consumed p + k\<rparr>"
    have ab: "read_exp (jp_exp p) 0 (a @ b) = map_sum id (\<lambda>(a, i, r). (a, i + k, r)) (read_exp n 0 b)"
      using Inr r Nil read_exp_add [of n 0 k b] by (simp add: read_exp_append)
    have "same_round (json_exp p (a @ b)) (json_exp ?p1 b)"
    proof (cases "read_exp n 0 b")
      case (Inl n')
      then show ?thesis by (simp add: json_exp_def ab same_round_def json_fail_def)
    next
      case (Inr r')
      obtain n' k' rest' where r': "r' = (n', k', rest')" by (cases r')
      have k': "jp_consumed p + (k' + k) = jp_consumed p + k + k'" by simp
      have "json_exp p (a @ b) = json_exp ?p1 b"
        by (simp add: json_exp_def ab Inr r' k' conj_comms cong: list.case_cong)
      then show ?thesis by (simp add: same_round_def)
    qed
    moreover have "json_round ?p1 (hd b) (tl b) = json_exp ?p1 b" if "b \<noteq> []"
      using that assms by (simp add: json_round_def)
    moreover have "json_exp p a = Some (Next ?p1 [])" by (simp add: json_exp_def Inr r Nil Let_def)
    ultimately show ?thesis using assms by (auto simp: splits_at_def)
  next
    case (Cons c cs)
    then show ?thesis
      using Inr r
      by (intro splits_extend) (simp add: json_exp_def read_exp_append Let_def json_fail_def next_with_extend_Cons)
  qed
qed

lemma jvalue_char_extends: "json_value_char p c (rest @ b) = map_option (round_with b) (json_value_char p c rest)"
  by (simp add: json_value_char_def next_with_extend json_fail_def)

lemma jliteral_extends: "json_literal lit tell p c (rest @ b) = map_option (round_with b) (json_literal lit tell p c rest)"
  by (simp add: json_literal_def next_with_extend json_fail_def Let_def)

lemma jchars_splits:
  assumes "jp_state p = JSON_STRING"
  shows "jsplits (\<lambda>cs. json_round p (hd cs) (tl cs)) (c # rest) b"
proof (cases "plain_char c")
  case False
  then show ?thesis
    using assms by (intro splits_extend) (simp add: json_round_def plain_char_def next_with_extend, blast)
next
  case c: True
  have f: "json_round p c cs = Some (Next (json_chars (takeWhile plain_char (c # cs)) p) (dropWhile plain_char (c # cs)))" for cs
    using assms c by (simp add: json_round_def plain_char_def)
  show ?thesis
  proof (cases "list_all plain_char rest")
    case False
    then obtain d where "d \<in> set (c # rest)" "\<not> plain_char d" by (auto simp: list_all_iff)
    then have td: "takeWhile plain_char ((c # rest) @ b) = takeWhile plain_char (c # rest)"
      "dropWhile plain_char ((c # rest) @ b) = dropWhile plain_char (c # rest) @ b"
      by (auto intro: takeWhile_append1 dropWhile_append1)
    show ?thesis by (rule splits_extend) (use f [of rest] f [of "rest @ b"] td in simp)
  next
    case all: True
    then have td: "takeWhile plain_char (c # rest) = c # rest" "dropWhile plain_char (c # rest) = []"
      using c by (auto simp: list_all_iff takeWhile_eq_all_conv dropWhile_eq_Nil_conv)
    let ?p1 = "json_chars (c # rest) p"
    have p1: "jp_state ?p1 = JSON_STRING" using assms by (simp add: json_chars_def)
    have tb: "takeWhile plain_char ((c # rest) @ b) = (c # rest) @ takeWhile plain_char b"
      "dropWhile plain_char ((c # rest) @ b) = dropWhile plain_char b"
      using c all by (simp_all add: list_all_iff takeWhile_append2 dropWhile_append2)
    have whole: "json_round p c (rest @ b) = Some (Next (json_chars ((c # rest) @ takeWhile plain_char b) p) (dropWhile plain_char b))"
      using f [of "rest @ b"] tb by simp
    have part: "json_round p c rest = Some (Next ?p1 [])" using f [of rest] td by simp
    show ?thesis
    proof (cases "b \<noteq> [] \<and> plain_char (hd b)")
      case True
      then obtain e es where e: "b = e # es" "plain_char e" by (cases b) auto
      have "json_round ?p1 (hd b) (tl b) = json_round p c (rest @ b)"
        unfolding whole using p1 e by (simp add: json_round_def plain_char_def json_chars_def machine_characters_def)
      then show ?thesis using part p1 unfolding splits_at_def same_round_def by auto
    next
      case False
      then have "takeWhile plain_char b = []" "dropWhile plain_char b = b" by (cases b; simp)+
      then show ?thesis using whole part by (intro splits_extend) simp
    qed
  qed
qed

lemma json_round_splits: "jsplits (\<lambda>cs. json_round p (hd cs) (tl cs)) (c # rest) b"
proof (cases "jp_state p")
  case JSON_ARRAY
  show ?thesis
    by (rule splits_extend)
      (simp add: json_round_def JSON_ARRAY next_with_extend jvalue_char_extends [symmetric] split: sum.split bind_split)
next
  case JSON_STRING
  then show ?thesis by (rule jchars_splits)
next
  case JSON_NUMBER
  show ?thesis by (rule splits_cong [OF jnumber_splits [OF JSON_NUMBER]]) (simp_all add: json_round_def JSON_NUMBER)
next
  case JSON_NUMBER_FRAC
  show ?thesis by (rule splits_cong [OF jfrac_splits [OF JSON_NUMBER_FRAC]]) (simp_all add: json_round_def JSON_NUMBER_FRAC)
next
  case JSON_NUMBER_EXP
  show ?thesis by (rule splits_cong [OF jexp_splits [OF JSON_NUMBER_EXP]]) (simp_all add: json_round_def JSON_NUMBER_EXP)
next
  case JSON_NUMBER_EXP_SIGN
  show ?thesis
  proof (cases "c = CHR ''+'' \<or> c = CHR ''-''")
    case True
    then show ?thesis by (intro splits_extend) (auto simp: json_round_def JSON_NUMBER_EXP_SIGN)
  next
    case False
    have "jsplits (json_exp (p\<lparr>jp_state := JSON_NUMBER_EXP\<rparr>)) (c # rest) b" by (rule jexp_splits) simp
    then show ?thesis by (rule splits_cong) (use False in \<open>simp_all add: json_round_def JSON_NUMBER_EXP_SIGN\<close>)
  qed
qed (rule splits_extend; simp add: json_round_def jvalue_char_extends jliteral_extends next_with_extend json_fail_def split: sum.split)+


subsection \<open>What a round does to the state\<close>

lemma jvalue_end_state: "JsonParser_onValueEnd p = Some p' \<Longrightarrow> jp_state p' \<noteq> JSON_ERROR"
  by (auto simp: JsonParser_onValueEnd_def split: list.splits if_splits)

lemma jend_state: "JsonParser_onEnd p = Some p' \<Longrightarrow> jp_state p' \<noteq> JSON_ERROR"
  by (auto simp: JsonParser_onEnd_def bind_eq_Some_conv dest: jvalue_end_state)

lemma jnumber_end_state: "JsonParser_onNumberEnd p = Some p' \<Longrightarrow> jp_state p' \<noteq> JSON_ERROR"
  by (auto simp: JsonParser_onNumberEnd_def dest: jend_state)

definition jgood_next :: "jparser round option \<Rightarrow> bool" where
  "jgood_next r \<longleftrightarrow> (case r of
       None \<Rightarrow> True
     | Some (Next p rest) \<Rightarrow> jp_state p \<noteq> JSON_ERROR
     | Some (Return p err) \<Rightarrow> jp_state p \<noteq> JSON_FINISH
         \<and> (err \<noteq> json_err STRUCTURE_TOO_DEEP \<longrightarrow> jp_state p = JSON_ERROR \<and> jp_lastError p = err))"

lemma jgood_next_with:
  "jgood_next (next_with (JsonParser_onEnd p) rest)"
  "jgood_next (next_with (JsonParser_onNumberEnd p) rest)"
  "jp_state p \<noteq> JSON_ERROR \<Longrightarrow> jgood_next (next_with (json_begin el p) rest)"
  by (auto simp: jgood_next_def next_with_def json_begin_def dest: jend_state jnumber_end_state split: option.split)

lemma jgood_simps [simp]:
  "jgood_next (Some (json_fail p e))"
  "jp_state p \<noteq> JSON_ERROR \<Longrightarrow> jgood_next (Some (Next p rest))"
  "jgood_next None"
  by (simp_all add: jgood_next_def json_fail_def)

lemma jvalue_char_state: "jp_state p \<noteq> JSON_ERROR \<Longrightarrow> jgood_next (json_value_char p c rest)"
  by (simp add: json_value_char_def jgood_next_with)

lemma jliteral_state: "jp_state p \<noteq> JSON_ERROR \<Longrightarrow> jgood_next (json_literal lit tell p c rest)"
  by (simp add: json_literal_def jgood_next_with Let_def)

lemma jnumber_state: "jp_state p \<noteq> JSON_ERROR \<Longrightarrow> jgood_next (json_number p cs)"
  by (simp add: json_number_def jgood_next_with Let_def split: sum.split prod.split list.split)

lemma jfrac_state: "jp_state p \<noteq> JSON_ERROR \<Longrightarrow> jgood_next (json_frac p cs)"
  by (simp add: json_frac_def jgood_next_with Let_def split: prod.split list.split)

lemma jexp_state: "jp_state p \<noteq> JSON_ERROR \<Longrightarrow> jgood_next (json_exp p cs)"
  by (simp add: json_exp_def jgood_next_with Let_def split: sum.split prod.split list.split)

lemma jtoo_deep_state: "jp_state p \<noteq> JSON_FINISH \<Longrightarrow> jgood_next (Some (Return p (json_err STRUCTURE_TOO_DEEP)))"
  by (simp add: jgood_next_def)

lemma json_round_state:
  assumes "jp_state p \<noteq> JSON_ERROR"
  shows "jgood_next (json_round p c rest)"
proof (cases "jp_state p")
  case JSON_ARRAY
  have "jgood_next (Option.bind (json_begin ARRAY_DATA_T (q\<lparr>jp_state := JSON_VALUE\<rparr>)) (\<lambda>p2. json_value_char p2 c rest))" for q
    by (cases "machine_beginElement ARRAY_DATA_T (jp_psm q)") (simp_all add: json_begin_def jvalue_char_state)
  then show ?thesis
    using JSON_ARRAY jtoo_deep_state [of p] by (simp add: json_round_def JsonParser_pushState_def jgood_next_with del: json_err.simps)
next
  case JSON_OBJECT_KEY
  then show ?thesis
    using jtoo_deep_state [of p] by (simp add: json_round_def JsonParser_pushState_def jgood_next_with del: json_err.simps)
next
  case JSON_STRING_UNICODE
  then show ?thesis by (simp add: json_round_def JsonParser_consumeUnicode_def Let_def json_chars_def)
next
  case JSON_STRING_LOW_SURROGATE
  then show ?thesis by (auto simp: json_round_def JsonParser_consumeLowSurrogate_def Let_def json_chars_def)
qed (use assms in \<open>simp_all add: json_round_def jvalue_char_state jliteral_state jnumber_state jfrac_state jexp_state jgood_next_with
      json_chars_def json_push_def JsonParser_pushState_def\<close>)

lemma next_state:
  assumes "json_round p c rest = Some (Next p' rest')" "jp_state p \<noteq> JSON_ERROR"
  shows "jp_state p' \<noteq> JSON_ERROR"
  using json_round_state [OF assms(2), of c rest] assms(1) by (simp add: jgood_next_def)

lemma return_state:
  assumes "json_round p c rest = Some (Return p' err)" "jp_state p \<noteq> JSON_ERROR"
  shows "jp_state p' \<noteq> JSON_FINISH \<and> (err \<noteq> json_err STRUCTURE_TOO_DEEP \<longrightarrow> jp_state p' = JSON_ERROR \<and> jp_lastError p' = err)"
  using json_round_state [OF assms(2), of c rest] assms(1) by (simp add: jgood_next_def del: json_err.simps)

interpretation jp: piece_parser json_round "\<lambda>p. jp_state p = JSON_FINISH" json_rank json_loop
  json_ok "\<lambda>p. jp_state p = JSON_ERROR" "\<lambda>p. jp_state p = JSON_FINISH" jp_lastError
  "-11" "json_err STRUCTURE_TOO_DEEP" "json_err PREMATURE_DATA" JsonParser_parseUpdate JsonParser_parseFinal
proof
  fix p c rest b p' rest' err data
  show "jsplits (\<lambda>cs. json_round p (hd cs) (tl cs)) (c # rest) b" by (rule json_round_splits)
  show "\<exists>x. json_round p c rest = Some x \<and> (case x of Next p' rest' \<Rightarrow> json_ok p' | Return p' err \<Rightarrow> json_ok p' \<and> -11 \<le> err)"
    if ok: "json_ok p"
  proof -
    obtain x where x: "json_round p c rest = Some x" "jround_ok x" using json_round_ok [OF ok, of c rest] by (auto simp: jsome_ok_def)
    then show ?thesis using json_err_low by (cases x) auto
  qed
  show "jp_state p' \<noteq> JSON_ERROR" if "json_round p c rest = Some (Next p' rest')" "jp_state p \<noteq> JSON_ERROR"
    using next_state that .
  show "jp_state p' \<noteq> JSON_FINISH \<and> (err \<noteq> json_err STRUCTURE_TOO_DEEP \<longrightarrow> jp_state p' = JSON_ERROR \<and> jp_lastError p' = err)"
    if "json_round p c rest = Some (Return p' err)" "jp_state p \<noteq> JSON_ERROR"
    using return_state that .
  show "-11 \<le> jp_lastError p \<and> jp_lastError p < 0" if "json_ok p" "jp_state p = JSON_ERROR"
    using that json_err_low json_err_negative by (auto simp: json_ok_def)
qed (auto simp: JsonParser_parseUpdate_def JsonParser_parseFinal_def split: option.split)

subsection \<open>Every parser the program can have\<close>

lemma new_json_ok: "json_ok ValueBaseJsonParser_new"
  by (simp add: ValueBaseJsonParser_new_def JsonParser_new_def value_machine_new_def json_ok_def jvalue_due_def open_values.base)

lemma json_reset_ok: "json_ok (JsonParser_reset p)"
  by (simp add: JsonParser_reset_def machine_reset_def json_ok_def jvalue_due_def open_values.base)

lemma json_final_reset:
  assumes "ValueBaseJsonParser_parseFinal p data = Some (p', res, err)"
  shows "\<exists>q. p' = JsonParser_reset q"
  using assms by (auto simp: ValueBaseJsonParser_parseFinal_def GenericParser_parseFinal_def Let_def case_prod_unfold)

inductive json_reach :: "jparser \<Rightarrow> bool" where
  created: "json_reach ValueBaseJsonParser_new"
| updated: "json_reach p \<Longrightarrow> JsonParser_parseUpdate p data = Some (p', rv) \<Longrightarrow> json_reach p'"
| finished: "json_reach p \<Longrightarrow> ValueBaseJsonParser_parseFinal p data = Some (p', res, err) \<Longrightarrow> json_reach p'"

lemma json_reach_ok: "json_reach p \<Longrightarrow> json_ok p"
proof (induction rule: json_reach.induct)
  case created
  show ?case by (rule new_json_ok)
next
  case (updated p data p' rv)
  then show ?case using jp.update_inv [of p data] by auto
next
  case (finished p data p' res err)
  then show ?case using json_final_reset json_reset_ok by blast
qed

text \<open>C33: whatever the JSON parser has been fed, it takes any further piece of data without a failed assertion, a pop of
  an empty stack or a missing value, and answers with one of its eleven errors or with a count within the data.\<close>

theorem json_never_aborts:
  assumes "json_reach p"
  shows "\<exists>p' rv. JsonParser_parseUpdate p data = Some (p', rv) \<and> -11 \<le> rv \<and> rv \<le> int (length data)"
  using jp.update_inv [OF json_reach_ok [OF assms], of data] by auto

theorem json_never_aborts_witness:
  "\<exists>p' rv. JsonParser_parseUpdate ValueBaseJsonParser_new ''[1e5,nul}'' = Some (p', rv) \<and> -11 \<le> rv \<and> rv \<le> int 9"
  using json_never_aborts [OF json_reach.created, of "''[1e5,nul}''"] by simp

end
