(* ===== verification/Json_Requests.thy ===== *)
theory Json_Requests
  imports Json_Runs Base_Codec
begin

text \<open>
  JSON requests: how a WebSocket session (\<open>WebSocketSession.cc\<close>) and the server's body of a post
  (\<open>HttpServerBodyCommand.cc\<close>, \<open>ValueBaseDiskWriter.h\<close>) feed the parser and what they decide to answer. The
  execution of the methods is not part of the model: a request is the dict it is called with.
\<close>

subsection \<open>What a request asks for\<close>

text \<open>
  A single request, a batch of the dicts in a list, or an error response; sessions and posts share the decision.
\<close>

datatype rpc_answer =
  Parse_Error | Invalid_Request | Single_Request "(string \<times> bvalue) list" | Batch_Request "(string \<times> bvalue) list list"

fun dicts_of :: "bvalue list \<Rightarrow> (string \<times> bvalue) list list" where
  "dicts_of [] = []"
| "dicts_of (BDict d # vs) = d # dicts_of vs"
| "dicts_of (_ # vs) = dicts_of vs"

definition answer_of :: "bvalue option \<Rightarrow> int \<Rightarrow> rpc_answer" where
  "answer_of res err =
     (if err < 0 then Parse_Error
      else (case res of
              Some (BDict d) \<Rightarrow> Single_Request d
            | Some (BList vs) \<Rightarrow> Batch_Request (dicts_of vs)
            | _ \<Rightarrow> Invalid_Request))"

subsection \<open>The WebSocket session\<close>

text \<open>
  Frames arrive in chunks that are parsed at once; control frames, whose payload is ignored, may come in between. The
  return value of \<open>parseUpdate\<close> is not looked at, and a chunk that would exceed the limit \<open>maxlen\<close> is left out.
\<close>

record ws_session =
  ws_parser :: jparser
  ws_receivedLength :: int
  ws_ignorePayload :: bool

definition WebSocketSession_parseUpdate :: "nat \<Rightarrow> string \<Rightarrow> ws_session \<Rightarrow> (ws_session \<times> int) option" where
  "WebSocketSession_parseUpdate maxlen data s =
     (let (received, kept) =
        (if to_size (ws_receivedLength s + int (length data)) \<le> maxlen
         then (to_int32 (ws_receivedLength s + int (length data)), data) else (ws_receivedLength s, []))
      in map_option (\<lambda>(p, rv). (s\<lparr>ws_parser := p, ws_receivedLength := received\<rparr>, rv)) (JsonParser_parseUpdate (ws_parser s) kept))"

definition WebSocketSession_parseFinal :: "string \<Rightarrow> ws_session \<Rightarrow> (ws_session \<times> bvalue option \<times> int) option" where
  "WebSocketSession_parseFinal data s =
     map_option (\<lambda>(p, res, err). (s\<lparr>ws_parser := p, ws_receivedLength := 0\<rparr>, res, err)) (ValueBaseJsonParser_parseFinal (ws_parser s) data)"

datatype ws_event = Frame_Start bool | Frame_Chunk string | Message bool

definition ws_step :: "nat \<Rightarrow> ws_event \<Rightarrow> ws_session \<Rightarrow> (ws_session \<times> rpc_answer list) option" where
  "ws_step maxlen ev s =
     (case ev of
        Frame_Start ctrl \<Rightarrow> Some (s\<lparr>ws_ignorePayload := ctrl\<rparr>, [])
      | Frame_Chunk data \<Rightarrow>
          if ws_ignorePayload s then Some (s, [])
          else map_option (\<lambda>(s', rv). (s', [])) (WebSocketSession_parseUpdate maxlen data s)
      | Message ctrl \<Rightarrow>
          if ctrl then Some (s, [Invalid_Request])
          else map_option (\<lambda>(s', res, err). (s', [answer_of res err])) (WebSocketSession_parseFinal [] s))"

fun ws_run :: "nat \<Rightarrow> ws_event list \<Rightarrow> ws_session \<Rightarrow> (ws_session \<times> rpc_answer list) option" where
  "ws_run maxlen [] s = Some (s, [])"
| "ws_run maxlen (ev # evs) s =
     Option.bind (ws_step maxlen ev s) (\<lambda>(s1, as). map_option (\<lambda>(s2, bs). (s2, as @ bs)) (ws_run maxlen evs s1))"

text \<open>The session before a message: its parser was just reset, nothing was received.\<close>

definition ws_idle :: "jparser \<Rightarrow> ws_session" where
  "ws_idle p = \<lparr>ws_parser = JsonParser_reset p, ws_receivedLength = 0, ws_ignorePayload = False\<rparr>"

text \<open>The chunks of the message among the events, and whether the message has not ended yet.\<close>

fun ws_payload :: "bool \<Rightarrow> ws_event list \<Rightarrow> string list" where
  "ws_payload ignored [] = []"
| "ws_payload ignored (Frame_Start ctrl # evs) = ws_payload ctrl evs"
| "ws_payload ignored (Frame_Chunk data # evs) = (if ignored then ws_payload ignored evs else data # ws_payload ignored evs)"
| "ws_payload ignored (Message ctrl # evs) = ws_payload ignored evs"

lemma ws_run_feeds:
  "list_all (\<lambda>ev. ev \<noteq> Message False) evs \<Longrightarrow> 0 \<le> ws_receivedLength s
   \<Longrightarrow> ws_receivedLength s + int (length (concat (ws_payload (ws_ignorePayload s) evs))) \<le> int maxlen \<Longrightarrow> maxlen < 2 ^ 31
   \<Longrightarrow> feed_ignoring JsonParser_parseUpdate (ws_parser s) (ws_payload (ws_ignorePayload s) evs) = Some q
   \<Longrightarrow> \<exists>s' as. ws_run maxlen evs s = Some (s', as) \<and> ws_parser s' = q"
proof (induction evs arbitrary: s)
  case (Cons ev evs)
  show ?case
  proof (cases ev)
    case (Frame_Start ctrl)
    then show ?thesis using Cons.IH [of "s\<lparr>ws_ignorePayload := ctrl\<rparr>"] Cons.prems by (auto simp: ws_step_def)
  next
    case (Message ctrl)
    then have "ctrl" using Cons.prems(1) by simp
    then show ?thesis using Cons.IH [of s] Cons.prems Message by (auto simp: ws_step_def)
  next
    case (Frame_Chunk data)
    show ?thesis
    proof (cases "ws_ignorePayload s")
      case True
      then show ?thesis using Cons.IH [of s] Cons.prems Frame_Chunk by (auto simp: ws_step_def)
    next
      case False
      let ?n = "ws_receivedLength s + int (length data)"
      have n: "0 \<le> ?n" "?n \<le> int maxlen" "int maxlen < 2 ^ 31" using Cons.prems(2, 3, 4) Frame_Chunk False by auto
      have sz: "to_size ?n \<le> maxlen" "to_int32 ?n = ?n" using n by simp_all
      obtain p1 rv where p1: "JsonParser_parseUpdate (ws_parser s) data = Some (p1, rv)"
          "feed_ignoring JsonParser_parseUpdate p1 (ws_payload False evs) = Some q"
        using Cons.prems(5) Frame_Chunk False by (auto split: option.splits)
      let ?s1 = "s\<lparr>ws_parser := p1, ws_receivedLength := ?n\<rparr>"
      have step: "ws_step maxlen ev s = Some (?s1, [])"
        using Frame_Chunk False sz p1(1) by (simp add: ws_step_def WebSocketSession_parseUpdate_def)
      have "\<exists>s' as. ws_run maxlen evs ?s1 = Some (s', as) \<and> ws_parser s' = q"
        using Cons.prems n(1) p1(2) Frame_Chunk False by (intro Cons.IH) simp_all
      then show ?thesis using step by auto
    qed
  qed
qed auto

lemma ws_run_append:
  "ws_run maxlen (evs @ fs) s =
     Option.bind (ws_run maxlen evs s) (\<lambda>(s1, as). map_option (\<lambda>(s2, bs). (s2, as @ bs)) (ws_run maxlen fs s1))"
proof (induction evs arbitrary: s)
  case Nil
  show ?case by (simp add: option.map_id [unfolded id_def] split_def)
next
  case (Cons ev evs)
  show ?case
  proof (cases "ws_step maxlen ev s")
    case (Some x)
    then show ?thesis
      by (cases "ws_run maxlen evs (fst x)") (auto simp: Cons.IH split_def option.map_comp comp_def)
  qed simp
qed

text \<open>C34: a message of at most \<open>maxlen\<close> bytes that does not nest too deep is answered as if it had come in one piece,
  however it was cut into chunks and whatever control frames came in between, and the session is ready for the next.\<close>

theorem websocket_message:
  assumes "list_all (\<lambda>ev. ev \<noteq> Message False) evs"
    and "length (concat (ws_payload False evs)) \<le> maxlen" "maxlen < 2 ^ 31"
    and "ValueBaseJsonParser_parseFinal (JsonParser_reset p) (concat (ws_payload False evs)) = Some (p', res, err)"
    and "err \<noteq> json_err STRUCTURE_TOO_DEEP"
  shows "\<exists>s as. ws_run maxlen (evs @ [Message False]) (ws_idle p) = Some (s, as @ [answer_of res err])
           \<and> (\<exists>q. ws_parser s = JsonParser_reset q) \<and> ws_receivedLength s = 0"
proof -
  let ?P = "JsonParser_reset p" and ?bufs = "ws_payload False evs"
  obtain q rv where whole: "JsonParser_parseFinal ?P (concat ?bufs) = Some (q, rv)" and err: "err = rv"
      and res: "res = (if rv < 0 then None else fst (JsonParser_getResult q))"
    using assms(4) by (auto simp: ValueBaseJsonParser_parseFinal_def parseFinal_Some)
  have start: "jp_state ?P \<noteq> JSON_ERROR" by (simp add: JsonParser_reset_def)
  obtain q' rv' where fed: "Option.bind (feed_ignoring JsonParser_parseUpdate ?P ?bufs) (\<lambda>q. JsonParser_parseFinal q []) = Some (q', rv')"
      and same: "if rv < 0 then rv' = rv else rv' = 0 \<and> q' = q"
    using jp.ignoring_pieces [OF json_reset_ok start whole] assms(5) err by blast
  obtain q0 where q0: "feed_ignoring JsonParser_parseUpdate ?P ?bufs = Some q0" "JsonParser_parseFinal q0 [] = Some (q', rv')"
    using fed by (cases "feed_ignoring JsonParser_parseUpdate ?P ?bufs") auto
  obtain s as where s: "ws_run maxlen evs (ws_idle p) = Some (s, as)" "ws_parser s = q0"
    using ws_run_feeds [of evs "ws_idle p" maxlen q0] assms(1-3) q0(1) by (auto simp: ws_idle_def)
  obtain r res' where final: "ValueBaseJsonParser_parseFinal q0 [] = Some (JsonParser_reset r, res', rv')"
      and res': "res' = (if rv' < 0 then None else fst (JsonParser_getResult q'))"
    using q0(2) by (auto simp: ValueBaseJsonParser_parseFinal_def parseFinal_Some)
  have "answer_of res' rv' = answer_of res err"
    using same res res' err by (simp add: answer_of_def split: if_splits)
  then show ?thesis
    using s final by (auto simp: ws_run_append ws_step_def WebSocketSession_parseFinal_def)
qed

theorem websocket_message_witness:
  "\<exists>s as. ws_run 100 ([Frame_Start False, Frame_Chunk ''[1'', Frame_Start True, Frame_Chunk ''x'', Message True, Frame_Start False,
        Frame_Chunk ''5,{}]''] @ [Message False]) (ws_idle ValueBaseJsonParser_new)
       = Some (s, as @ [answer_of (Some (BList [BInteger 15, BDict []])) 7])
     \<and> (\<exists>q. ws_parser s = JsonParser_reset q) \<and> ws_receivedLength s = 0"
proof -
  let ?evs = "[Frame_Start False, Frame_Chunk ''[1'', Frame_Start True, Frame_Chunk ''x'', Message True, Frame_Start False, Frame_Chunk ''5,{}]'']"
  have "map_option (\<lambda>(p, res, err). (res, err)) (ValueBaseJsonParser_parseFinal (JsonParser_reset ValueBaseJsonParser_new) ''[15,{}]'')
      = Some (Some (BList [BInteger 15, BDict []]), 7)"
    by code_simp
  then obtain p' where "ValueBaseJsonParser_parseFinal (JsonParser_reset ValueBaseJsonParser_new) ''[15,{}]''
      = Some (p', Some (BList [BInteger 15, BDict []]), 7)"
    by auto
  then show ?thesis using websocket_message [of ?evs 100 ValueBaseJsonParser_new p' "Some (BList [BInteger 15, BDict []])" 7] by simp
qed


subsection \<open>Requests over HTTP\<close>

text \<open>
  The body of a post goes through \<open>ValueBaseDiskWriter\<close>, which ignores what \<open>parseUpdate\<close> returns. For JSONP the
  error of the parser is kept in a variable of the inner block, so the outer one is still zero.
\<close>

definition ValueBaseDiskWriter_finalize :: "jparser \<Rightarrow> (jparser \<times> int) option" where
  "ValueBaseDiskWriter_finalize p = JsonParser_parseFinal p []"

definition posted_answer :: "jparser \<Rightarrow> string list \<Rightarrow> (jparser \<times> rpc_answer) option" where
  "posted_answer p bufs =
     map_option (\<lambda>(p1, err). let (json, p2) = (if err = 0 then JsonParser_getResult p1 else (None, p1))
                 in (JsonParser_reset p2, answer_of json err))
       (Option.bind (feed_ignoring JsonParser_parseUpdate p bufs) ValueBaseDiskWriter_finalize)"

text \<open>The parameters of a JSONP query; \<open>None\<close> is the read outside the table of \<open>base64::decode\<close>.\<close>

record get_params =
  gp_method :: string
  gp_id :: string
  gp_params :: string
  gp_callback :: string

definition get_param :: "string \<Rightarrow> get_params \<Rightarrow> get_params" where
  "get_param i g =
     (if util_startsWith i ''method='' then g\<lparr>gp_method := drop 7 i\<rparr>
      else if util_startsWith i ''id='' then g\<lparr>gp_id := drop 3 i\<rparr>
      else if util_startsWith i ''params='' then g\<lparr>gp_params := drop 7 i\<rparr>
      else if util_startsWith i ''jsoncallback='' then g\<lparr>gp_callback := drop 13 i\<rparr>
      else g)"

definition quoted :: "string \<Rightarrow> string" where
  "quoted s = CHR 0x22 # s @ [CHR 0x22]"

definition json_request :: "get_params \<Rightarrow> string \<Rightarrow> string" where
  "json_request g jsonParam =
     (if gp_method g = [] \<and> gp_id g = [] then jsonParam
      else ''{'' @ (if gp_method g \<noteq> [] then quoted ''method'' @ '':'' @ quoted (gp_method g) else [])
           @ (if gp_id g \<noteq> [] then '','' @ quoted ''id'' @ '':'' @ quoted (gp_id g) else [])
           @ (if gp_params g \<noteq> [] then '','' @ quoted ''params'' @ '':'' @ jsonParam else []) @ ''}'')"

definition decodeGetParams :: "string \<Rightarrow> (string \<times> string) option" where
  "decodeGetParams query =
     (if query = [] \<or> hd query \<noteq> CHR ''?'' then Some ([], [])
      else
        let g = fold get_param (util_splitIter (CHR ''&'') False False (tl query))
                  \<lparr>gp_method = [], gp_id = [], gp_params = [], gp_callback = []\<rparr>
        in map_option (\<lambda>jsonParam. (json_request g jsonParam, gp_callback g)) (base64_decode (util_percentDecode (gp_params g))))"

definition jsonp_answer :: "string \<Rightarrow> (rpc_answer \<times> string) option" where
  "jsonp_answer query =
     Option.bind (decodeGetParams query) (\<lambda>(request, callback).
       map_option (\<lambda>(p, json, err). (answer_of json 0, callback)) (ValueBaseJsonParser_parseFinal ValueBaseJsonParser_new request))"

text \<open>A post is answered as if its body had come in one piece, and the writer is ready for the next.\<close>

lemma posted_request:
  assumes "ValueBaseJsonParser_parseFinal (JsonParser_reset p) (concat bufs) = Some (p', res, err)"
    and "err \<noteq> json_err STRUCTURE_TOO_DEEP"
  shows "\<exists>q. posted_answer (JsonParser_reset p) bufs = Some (JsonParser_reset q, answer_of res err)"
proof -
  let ?P = "JsonParser_reset p"
  obtain q where whole: "JsonParser_parseFinal ?P (concat bufs) = Some (q, err)"
      and res: "res = (if err < 0 then None else fst (JsonParser_getResult q))"
    using assms(1) by (auto simp: ValueBaseJsonParser_parseFinal_def parseFinal_Some)
  have start: "jp_state ?P \<noteq> JSON_ERROR" by (simp add: JsonParser_reset_def)
  obtain q' rv' where fed: "Option.bind (feed_ignoring JsonParser_parseUpdate ?P bufs) (\<lambda>q. JsonParser_parseFinal q []) = Some (q', rv')"
      and same: "if err < 0 then rv' = err else rv' = 0 \<and> q' = q"
    using jp.ignoring_pieces [OF json_reset_ok start whole assms(2)] by blast
  have fed': "Option.bind (feed_ignoring JsonParser_parseUpdate ?P bufs) ValueBaseDiskWriter_finalize = Some (q', rv')"
    using fed by (simp add: ValueBaseDiskWriter_finalize_def [abs_def])
  show ?thesis
    using same res unfolding posted_answer_def fed'
    by (cases "JsonParser_getResult q") (auto simp: answer_of_def split: if_splits)
qed

text \<open>The parameters arrive as they were encoded.\<close>

lemma percentEncode_no_ampersand: "CHR ''&'' \<notin> set (util_percentEncode s)"
proof -
  have "CHR ''&'' \<notin> set (percent_hex c)" for c
    using percent_hex_safe [of c] by auto
  then show ?thesis
    by (auto simp: util_percentEncode_def percentEncode_bytes_def list_all_iff util_inRFC3986UnreservedChars_def
        util_isAlpha_def util_isDigit_def char_in_def split: if_splits)
qed

lemma jsonp_params:
  assumes "m \<noteq> []" "i \<noteq> []" "j \<noteq> []" "CHR ''&'' \<notin> set m" "CHR ''&'' \<notin> set i" "CHR ''&'' \<notin> set cb"
  shows "decodeGetParams (''?method='' @ m @ ''&id='' @ i @ ''&params='' @ util_percentEncode (base64_encode j) @ ''&jsoncallback='' @ cb)
     = Some (''{'' @ quoted ''method'' @ '':'' @ quoted m @ '','' @ quoted ''id'' @ '':'' @ quoted i @ '','' @ quoted ''params'' @ '':'' @ j @ ''}'', cb)"
proof -
  let ?p = "util_percentEncode (base64_encode j)"
  have p: "CHR ''&'' \<notin> set ?p" "?p \<noteq> []"
    using percentEncode_no_ampersand percent_encoding_roundtrip [of "base64_encode j"] base64_decode_encode [of j "[]"] assms(3)
    by (auto simp: base64_decode_loop.simps [of "[]"])
  have split: "util_splitIter (CHR ''&'') False False
      (tl (''?method='' @ m @ ''&id='' @ i @ ''&params='' @ ?p @ ''&jsoncallback='' @ cb))
      = [''method='' @ m, ''id='' @ i, ''params='' @ ?p, ''jsoncallback='' @ cb]"
    using split_fields_step(1) [of "CHR ''&''" "''method='' @ m" False "''id='' @ i @ ''&params='' @ ?p @ ''&jsoncallback='' @ cb"]
      split_fields_step(1) [of "CHR ''&''" "''id='' @ i" False "''params='' @ ?p @ ''&jsoncallback='' @ cb"]
      split_fields_step(1) [of "CHR ''&''" "''params='' @ ?p" False "''jsoncallback='' @ cb"]
      split_fields_step(2) [of "CHR ''&''" "''jsoncallback='' @ cb" False] assms p
    by (simp add: util_splitIter_def)
  show ?thesis
    unfolding decodeGetParams_def split
    using assms p percent_encoding_roundtrip [of "base64_encode j"] base64_decode_encode [of j "[]"]
    by (simp add: Let_def get_param_def util_startsWith_def json_request_def base64_decode_def)
qed

text \<open>The example of the header file; a call with an id only, whose request does not parse; a byte outside the table.\<close>

lemma jsonp_example:
  "decodeGetParams ''?method=sum&id=300&params=WzEsMiwzXQ%3D%3D''
     = Some (''{'' @ quoted ''method'' @ '':'' @ quoted ''sum'' @ '','' @ quoted ''id'' @ '':'' @ quoted ''300'' @ '','' @ quoted ''params'' @ '':[1,2,3]}'', [])"
  by code_simp

lemma jsonp_id_only: "decodeGetParams ''?id=1'' = Some (''{,'' @ quoted ''id'' @ '':'' @ quoted ''1'' @ ''}'', [])"
  by code_simp

lemma jsonp_outside_table: "decodeGetParams ''?params=%80'' = None"
  by code_simp

text \<open>The same text that does not parse is a parse error when posted, an invalid request as JSONP.\<close>

lemma jsonp_error_answer:
  "map_option snd (posted_answer ValueBaseJsonParser_new [''[1x'']) = Some Parse_Error"
  "jsonp_answer ''?params=WzF4'' = Some (Invalid_Request, [])"
  by code_simp+

subsection \<open>What ignoring the errors lets through\<close>

text \<open>
  A batch that nests too deep is refused in one piece, but a cut just after the refused bracket loses that bracket only:
  the rest is parsed as if it had not been there.
\<close>

lemma websocket_deep_refused:
  "map_option snd (ws_run 1000 [Frame_Start False, Frame_Chunk (replicate 51 CHR ''['' @ replicate 50 CHR '']''), Message False]
     (ws_idle ValueBaseJsonParser_new)) = Some [Parse_Error]"
  by code_simp

lemma websocket_deep_accepted:
  "map_option snd (ws_run 1000 [Frame_Start False, Frame_Chunk (replicate 51 CHR ''[''), Frame_Chunk (replicate 50 CHR '']''), Message False]
     (ws_idle ValueBaseJsonParser_new)) = Some [Batch_Request []]"
  by code_simp

text \<open>A chunk that would exceed the limit is left out, a later one that fits is not.\<close>

lemma websocket_spliced:
  "map_option snd (ws_run 4 [Frame_Start False, Frame_Chunk ''[{'', Frame_Chunk ''....'', Frame_Chunk ''}]'', Message False]
     (ws_idle ValueBaseJsonParser_new)) = Some [Batch_Request [[]]]"
  by code_simp

text \<open>A comma after the last member is accepted; a member with an empty name is dropped; a low surrogate by itself
  becomes three bytes that are not UTF-8.\<close>

lemma empty_key_dropped:
  "map_option (\<lambda>(p, res, err). (res, err)) (ValueBaseJsonParser_parseFinal ValueBaseJsonParser_new
     (json_encode (BDict [([], BInteger 1)]))) = Some (Some (BDict []), 6)"
  by code_simp

lemma trailing_comma_accepted:
  "map_option (\<lambda>(p, res, err). (res, err)) (ValueBaseJsonParser_parseFinal ValueBaseJsonParser_new
     (''{'' @ [CHR 0x22, CHR ''a'', CHR 0x22] @ '':1,}'')) = Some (Some (BDict [(''a'', BInteger 1)]), 8)"
  by code_simp

lemma lone_low_surrogate: "json_utf8 0xDC00 = [CHR 0xED, CHR 0xB0, CHR 0x80]"
  by (simp add: json_utf8_def char_of_def bit_0)

lemma low_surrogate_bytes: "\<not> util_isUtf8 [CHR 0xED, CHR 0xB0, CHR 0x80]"
  by code_simp

end
