(* ===== verification/Spec2Isabelle.thy ===== *)
theory Spec2Isabelle
  imports Bitfield Bitfield_Man Bitfield_Search Piece_Selectors Block_Tracker Disk_Cache Pieces
    Segments Piece_Storage Storage_Runs Progress_File Piece_Pool Speed_Stats Segment_Man Segment_Runs
    Multi_Disk Ring_Writer
    Text_Util Text_Numbers Base_Codec Stream_Filters
    Char_Loop Value_Machine Bencode Bencode_Runs Json Json_Runs Json_Requests
begin

text \<open>
  The download core of a segmented download engine: the code under \<open>src/libaria2/src\<close> that decides which
  connection downloads which part of a file, takes the bytes in, and keeps account of what is there.

  \<^bold>\<open>How the parts work together.\<close> A file is cut into pieces and a piece into blocks. A bitfield
  (\<open>BitfieldMan\<close>) records which are finished, in use and selected; the piece storage
  (\<open>DefaultPieceStorage\<close>) holds one for the pieces of the download, every \<open>Piece\<close> holds one for its
  blocks. A connection asks the segment manager (\<open>SegmentMan\<close>) for a segment; the manager asks the
  storage for a missing piece, the storage asks a selector, and the manager wraps the piece in a
  \<open>Segment\<close> that remembers how far the connection has written. Bytes from a socket pass through stream
  filters; the last one, the sink, claims the block in the \<open>PieceBlockTracker\<close> so that of several
  connections only one stores it, puts the bytes into the write cache or on disk, and moves the
  segment on. When a piece is finished the storage sets its bit; when a connection gives up, the
  manager takes the segment back. Near the end the storage enters the end game and hands pieces
  that are in use to further connections.

  \<^bold>\<open>Theories, and the code they model.\<close>
  \<^item> \<open>Prelude\<close>: lemmas on lists, options and numbers that the components share, the widths of the
    machine integers.
  \<^item> \<open>Bitfield\<close>: \<open>bitfield.h\<close>, \<open>bitfield.cc\<close>, \<open>array_fun.h\<close>. Byte strings as bit sets; \<open>countSetBit\<close> equals
    the slow count.
  \<^item> \<open>Bitfield_Man\<close>: \<open>BitfieldMan.cc\<close>, state and all operations on it. A record with the source's fields;
    the lemmas show that the cached lengths stay exact in every reachable state.
  \<^item> \<open>Bitfield_Search\<close>: the searches of \<open>BitfieldMan.cc\<close> (sparse, in order, geometric, first missing).
    They return only free pieces and find one when there is one.
  \<^item> \<open>Piece_Selectors\<close>: \<open>PieceStatMan\<close>, \<open>RarestPieceSelector\<close>, \<open>LongestSequencePieceSelector\<close>,
    \<open>PriorityPieceSelector\<close>, \<open>UrgencyAwarePieceSelector\<close> and the four stream selectors, with a locale for
    what every stream selector promises.
  \<^item> \<open>Block_Tracker\<close>: \<open>PieceBlockTracker.h\<close>. The operations as a caller sees them, the atomic accesses
    they consist of, and every interleaving of those.
  \<^item> \<open>Disk_Cache\<close>: \<open>WrDiskCache.cc\<close>, \<open>WrDiskCacheEntry.cc\<close> and the cache operations of \<open>Piece.cc\<close>. Entries
    and cells over an explicit memory of buffers, so that double frees and stale entries are visible.
  \<^item> \<open>Pieces\<close>: \<open>Piece.cc\<close>. Blocks, users, and both ways to hash a piece.
  \<^item> \<open>Segments\<close>: \<open>PiecedSegment.cc\<close>, \<open>GrowSegment.cc\<close>, \<open>SinkStreamFilter.cc\<close>.
  \<^item> \<open>Piece_Storage\<close>: \<open>DefaultPieceStorage.cc\<close>. Pieces live at addresses, as the source shares them by
    pointer; every operation, exceptions and failed assertions being \<open>None\<close>.
  \<^item> \<open>Storage_Runs\<close>: the storage over time; events, the invariant they keep, and what follows from it.
  \<^item> \<open>Progress_File\<close>: \<open>DefaultBtProgressInfoFile.cc\<close>, the control file: what is saved of the storage, byte by byte, and
    loading it with every check, also into a storage with another piece length.
  \<^item> \<open>Piece_Pool\<close>: the locale with what the segment manager needs of a storage (taking, giving back and
    finishing pieces), its ledger lemmas, and its interpretation on \<open>DefaultPieceStorage\<close>.
  \<^item> \<open>Speed_Stats\<close>: \<open>SpeedCalc.cc\<close>, \<open>NetStat.cc\<close>, \<open>PeerStat.cc\<close>, \<open>TransferStat.cc\<close>.
  \<^item> \<open>Segment_Man\<close>, \<open>Segment_Runs\<close>: \<open>SegmentMan.cc\<close>, and the manager over time.
  \<^item> \<open>Multi_Disk\<close>: \<open>MultiDiskAdaptor.cc\<close> over a record of writer operations, \<open>AbstractDiskWriter.cc\<close> as one such
    record, and the locale \<open>good_writer\<close> with what the adaptor needs of a writer, which \<open>AbstractDiskWriter\<close> keeps when the
    system calls succeed.
  \<^item> \<open>Ring_Writer\<close>: \<open>IORingDiskWriter.cc\<close>, the writer the program uses: the pool of blocks that all writers
    share as raw memory, requests in flight, and a kernel that completes them when it likes. It does not keep \<open>good_writer\<close>
    (\<open>padded_writer_not_good\<close>), so what holds of the adaptor over that contract does not hold over it.
  \<^item> \<open>Text_Util\<close>, \<open>Text_Numbers\<close>: the string functions of \<open>util.cc\<close> and \<open>util.h\<close>; \<open>Base_Codec\<close>: \<open>base32\<close> and
    \<open>base64\<close>; \<open>Stream_Filters\<close>: \<open>ChunkedDecodingStreamFilter.cc\<close> and the null sink.
  \<^item> \<open>Char_Loop\<close>: what the incremental parsers share. A parser's loop is made of rounds that go on with the rest of the
    buffer or return an error; the locales \<open>char_loop\<close>, \<open>split_loop\<close> and \<open>piece_parser\<close> state what the rounds must satisfy
    and prove what follows for any cut of the data. Also \<open>GenericParser.h\<close> (\<open>parseFile\<close>) and \<open>ValueBaseDiskWriter.h\<close>.
  \<^item> \<open>Value_Machine\<close>: \<open>ValueBase.h\<close> and the machine that builds values from the parsers' events
    (\<open>ValueBaseStructParserStateMachine.cc\<close>, its states, the frames of \<open>XmlRpcRequestParserController.cc\<close>).
  \<^item> \<open>Bencode\<close>, \<open>Bencode_Runs\<close>: \<open>bencode2.cc\<close>, \<open>BencodeParser.cc\<close>; the interpretations of the parser locales on them.
  \<^item> \<open>Json\<close>, \<open>Json_Runs\<close>: \<open>json.h\<close>, \<open>json.cc\<close>, \<open>JsonParser.cc\<close>, in the same way. The invariant \<open>json_ok\<close> relates the state
    and the stack of the parser to the states and frames of the machine.
  \<^item> \<open>Json_Requests\<close>: how \<open>WebSocketSession.cc\<close> and \<open>HttpServerBodyCommand.cc\<close> feed the parser and decide what to answer,
    and the parameters of a JSONP query.

  \<^bold>\<open>What the theorems show.\<close> Of the tracker, that interleaved operations never let two connections write
  a block between two of its releases. Of the bitfield, that its counters are exact and its
  searches safe and complete. Of the cache, that it stays within its limit, ends its evictions and
  loses no data. Of a piece, that both hashes are hashes of its bytes and that a request hands out
  fresh blocks. Of the storage, type soundness over all runs, exact progress, that pieces are not
  shared before the end game, what a request returns, that a download finishes, and that the control file
  brings back what was saved. Of the segment
  manager, that its counts are exact, that a piece has one segment until the end game, and that the
  search for several segments ends. Of the disk adaptor, that over a writer that
  keeps its contract a block of a requested piece can be written over file boundaries and read back. Of the io_uring writer, that buffers in flight are never
  shared and whole blocks arrive as if written in order when no write overlaps one in flight, and also what it gets wrong: it zeroes the
  surroundings of unaligned data and its pool leaks until every larger write waits for ever. Of the sink, that it writes the stream to the segment's place
  and nowhere else. Of the text functions, round trips and equivalence with the formats they read. Of bencode and JSON, that
  printed values are read back, that no input makes an assertion of parser or machine fail, and that it does not matter
  how a file or a WebSocket message is cut into pieces, unless it nests too deep.

  \<^bold>\<open>Conventions.\<close> Sizes and offsets are \<open>nat\<close> or \<open>int\<close> with \<open>to_size\<close>, \<open>to_int64\<close> and \<open>to_int32\<close> at the
  places where the source's type may wrap; the urgency counts are 16-bit words, bytes 8-bit words.
  \<open>None\<close> is a failed assertion, a null or dangling pointer, or a read outside an array; an exception
  is \<open>Inl\<close>, with the state it was thrown in where that can be seen. Random choices (the shuffle, the
  random start), the clock, hash functions, and whether a disk write succeeds are arguments. Only
  \<open>get_segments_loop\<close> takes fuel; \<open>search_bound\<close> is how much is enough, and the theorem
  \<open>segment_search_ends\<close> shows it.

  \<^bold>\<open>Assumptions on callers\<close> are the predicates \<open>event_ok\<close>, \<open>cache_event_ok\<close> and \<open>sm_event_ok\<close>: indexes in
  range, a selector that is set up, only segments that were handed out are completed, a cell brings a buffer of its own. The
  condition under which each further property holds is written at its theorem; where the code can leave the condition, a named
  lemma shows what happens then (\<open>shared_buffer_freed_twice\<close>, \<open>short_last_piece_lost\<close>, \<open>padding_never_finishes\<close>, \<open>min_int_not_read_back\<close>,
  \<open>empty_key_dropped\<close>, \<open>wrong_length_accepted\<close>).

  \<^bold>\<open>Not modelled.\<close> Mutexes (every operation is one step, except in \<open>Block_Tracker\<close>, where the atomic
  accesses interleave, and \<open>Ring_Writer\<close>, where the kernel does); memory mapping and allocation of files;
  sockets, event polling, name resolution and the command objects that wait for them; the
  HTTP, FTP, SFTP and BitTorrent protocols except the chunked decoder; DHT, Metalink, XML and the
  methods of RPC (the JSON requests are modelled up to the dict a method is called with); options and their texts; TLS and the digest algorithms; URI selection; logging and platform
  code. They are input and output, bindings to libraries, tables of texts, or separate
  subsystems around the core.
\<close>

end
